(* ===== verification/Meld_Prelude.thy ===== *)
theory Meld_Prelude
  imports Main "HOL-Library.Word" "HOL-Library.Multiset"
begin

text \<open>
  The shared layer of the development: the widths of the machine types of
  \<open>vm/defs.hpp\<close>, the error values that stand for the exceptions and failed
  assertions of the C++ code, the sequencing of fallible steps, and generic
  lemmas on lists, options and words that several components use.
\<close>

unbundle bit_operations_syntax

section \<open>Machine types (vm/defs.hpp)\<close>

type_synonym byte = "8 word"
type_synonym int_val = "32 word"       \<comment> \<open>\<open>int32_t\<close>, read with \<open>sint\<close>\<close>
type_synonym uint_val = "32 word"
type_synonym node_val = "32 word"
type_synonym float_val = "64 word"     \<comment> \<open>bit pattern of a \<open>double\<close>\<close>
type_synonym ptr_val = "64 word"
type_synonym predicate_id = "8 word"
type_synonym rule_id = nat
type_synonym strat_level = nat
type_synonym field_num = nat

section \<open>Errors\<close>

text \<open>
  The build does not define \<open>NDEBUG\<close>, so a failed \<open>assert\<close> stops the program:
  it is a value of this type, as are the exceptions the code throws.
\<close>

datatype error =
    Assert_Failed
  | Type_Error            \<comment> \<open>\<open>vm::type_error\<close>\<close>
  | Malformed_Instr       \<comment> \<open>\<open>vm::instr::malformed_instr_error\<close>\<close>
  | Vm_Exec_Error         \<comment> \<open>\<open>vm::vm_exec_error\<close>\<close>
  | Load_File_Error       \<comment> \<open>\<open>vm::load_file_error\<close>\<close>
  | Length_Error          \<comment> \<open>\<open>std::length_error\<close>\<close>
  | Bad_Access            \<comment> \<open>a read or write the language leaves undefined\<close>
  | No_Return             \<comment> \<open>the call never returns\<close>

type_synonym 'a res = "error + 'a"

fun res_bind :: "'a res \<Rightarrow> ('a \<Rightarrow> 'b res) \<Rightarrow> 'b res" where
  "res_bind (Inl e) f = Inl e"
| "res_bind (Inr x) f = f x"

definition check :: "bool \<Rightarrow> error \<Rightarrow> unit res" where
  "check b e = (if b then Inr () else Inl e)"

fun is_ok :: "'a res \<Rightarrow> bool" where
  "is_ok (Inl _) = False"
| "is_ok (Inr _) = True"

lemma res_bind_Inr_iff: "res_bind m f = Inr y \<longleftrightarrow> (\<exists>x. m = Inr x \<and> f x = Inr y)"
  by (cases m) auto

lemma res_bind_InrE:
  assumes "res_bind m f = Inr y"
  obtains x where "m = Inr x" and "f x = Inr y"
  using assms by (auto simp: res_bind_Inr_iff)

lemma res_bind_pairE:
  assumes "res_bind m (\<lambda>(a, b). f a b) = Inr y"
  obtains a b where "m = Inr (a, b)" and "f a b = Inr y"
  using assms by (auto simp: res_bind_Inr_iff)

lemma res_bind_Inl_iff:
  "res_bind m f = Inl e \<longleftrightarrow> m = Inl e \<or> (\<exists>x. m = Inr x \<and> f x = Inl e)"
  by (cases m) auto

lemma check_Inr_iff [simp]: "check b e = Inr u \<longleftrightarrow> b"
  by (simp add: check_def)

lemma check_True [simp]: "check True e = Inr ()"
  by (simp add: check_def)

lemma check_False [simp]: "check False e = Inl e"
  by (simp add: check_def)

lemma is_ok_iff: "is_ok r \<longleftrightarrow> (\<exists>x. r = Inr x)"
  by (cases r) auto

lemma res_bind_cong [fundef_cong]:
  "m = m' \<Longrightarrow> (\<And>x. m' = Inr x \<Longrightarrow> f x = g x) \<Longrightarrow> res_bind m f = res_bind m' g"
  by (cases m') auto

fun res_map :: "('a \<Rightarrow> 'b res) \<Rightarrow> 'a list \<Rightarrow> 'b list res" where
  "res_map f [] = Inr []"
| "res_map f (x # xs) = res_bind (f x) (\<lambda>y. res_bind (res_map f xs) (\<lambda>ys. Inr (y # ys)))"

lemma res_map_Inr_iff: "res_map f xs = Inr ys \<longleftrightarrow> list_all2 (\<lambda>x y. f x = Inr y) xs ys"
  by (induction xs arbitrary: ys) (auto simp: res_bind_Inr_iff list_all2_Cons1)

section \<open>Little-endian byte strings\<close>

text \<open>
  The code reads and writes machine integers through pointer casts and
  \<open>memcpy\<close> on x86-64 (the Makefile builds with \<open>-march=x86-64\<close>): the byte at
  the lowest address holds the lowest eight bits.
\<close>

fun le_bytes :: "nat \<Rightarrow> 'a::len word \<Rightarrow> byte list" where
  "le_bytes 0 w = []"
| "le_bytes (Suc n) w = ucast w # le_bytes n (drop_bit 8 w)"

fun le_word :: "byte list \<Rightarrow> 'a::len word" where
  "le_word [] = 0"
| "le_word (b # bs) = ucast b OR push_bit 8 (le_word bs)"

lemma length_le_bytes [simp]: "length (le_bytes n w) = n"
  by (induction n arbitrary: w) auto

lemma le_word_le_bytes: "le_word (le_bytes n w) = take_bit (8 * n) (w :: 'a::len word)"
proof (induction n arbitrary: w)
  case 0
  then show ?case by simp
next
  case (Suc n)
  have "le_word (le_bytes (Suc n) w) = ucast (ucast w :: byte) OR push_bit 8 (take_bit (8 * n) (drop_bit 8 w))"
    using Suc by simp
  also have "\<dots> = take_bit (8 * Suc n) w"
    by (rule bit_eqI) (auto simp: bit_simps)
  finally show ?case .
qed

lemma le_word_le_bytes_full:
  "LENGTH('a) \<le> 8 * n \<Longrightarrow> le_word (le_bytes n w) = (w :: 'a::len word)"
  by (simp add: le_word_le_bytes take_bit_word_eq_self)

section \<open>Counts on sixteen bits\<close>

lemma sint_add_16:
  fixes a b :: "16 word"
  assumes "- (2 ^ 15) \<le> sint a + sint b" and "sint a + sint b < 2 ^ 15"
  shows "sint (a + b) = sint a + sint b"
  using assms by (simp add: sint_word_add signed_take_bit_int_eq_self)

lemma sint_minus_16:
  fixes a :: "16 word"
  assumes "- (2 ^ 15) < sint a"
  shows "sint (- a) = - sint a"
  using assms sint_lt [of a] by (simp add: sint_word_minus signed_take_bit_int_eq_self)

section \<open>Finite sets\<close>

lemma finite_greatest:
  fixes f :: "'a \<Rightarrow> nat"
  assumes "finite A" and "A \<noteq> {}"
  shows "\<exists>m \<in> A. \<forall>q \<in> A. f q \<le> f m"
proof -
  have "Max (f ` A) \<in> f ` A" using assms by (intro Max_in) auto
  then obtain m where m: "m \<in> A" "f m = Max (f ` A)" by auto
  have "f q \<le> f m" if "q \<in> A" for q using that assms m by simp
  with m show ?thesis by blast
qed

named_theorems meld_simps \<open>definitional equations the component proofs unfold\<close>

end
