(* ===== verification/Vm_Types.thy ===== *)
theory Vm_Types
  imports Meld_Prelude
begin

text \<open>
  The field and aggregate types of \<open>vm/types.hpp\<close> and the tables over them of
  \<open>vm/types.cpp\<close>. The enumerations are read from byte code by a cast from one
  byte, so values outside the enumerators occur: \<open>FIELD_OTHER\<close> and
  \<open>AGG_OTHER\<close> stand for them.
\<close>

section \<open>Field types\<close>

datatype field_type =
    FIELD_INT
  | FIELD_FLOAT
  | FIELD_NODE
  | FIELD_LIST_INT
  | FIELD_LIST_FLOAT
  | FIELD_LIST_NODE
  | FIELD_STRING
  | FIELD_OTHER byte

definition field_type_of_byte :: "byte \<Rightarrow> field_type" where
  "field_type_of_byte b =
     (if b = 0 then FIELD_INT
      else if b = 1 then FIELD_FLOAT
      else if b = 2 then FIELD_NODE
      else if b = 3 then FIELD_LIST_INT
      else if b = 4 then FIELD_LIST_FLOAT
      else if b = 5 then FIELD_LIST_NODE
      else if b = 9 then FIELD_STRING
      else FIELD_OTHER b)"

fun byte_of_field_type :: "field_type \<Rightarrow> byte" where
  "byte_of_field_type FIELD_INT = 0"
| "byte_of_field_type FIELD_FLOAT = 1"
| "byte_of_field_type FIELD_NODE = 2"
| "byte_of_field_type FIELD_LIST_INT = 3"
| "byte_of_field_type FIELD_LIST_FLOAT = 4"
| "byte_of_field_type FIELD_LIST_NODE = 5"
| "byte_of_field_type FIELD_STRING = 9"
| "byte_of_field_type (FIELD_OTHER b) = b"

lemma byte_of_field_type_of_byte [simp]: "byte_of_field_type (field_type_of_byte b) = b"
  by (simp add: field_type_of_byte_def)

text \<open>\<open>field_type_size\<close>: the size of a field in a tuple, by its type.\<close>

fun field_type_size :: "field_type \<Rightarrow> nat res" where
  "field_type_size FIELD_INT = Inr 4"
| "field_type_size FIELD_FLOAT = Inr 8"
| "field_type_size FIELD_NODE = Inr 4"
| "field_type_size FIELD_STRING = Inr 8"
| "field_type_size FIELD_LIST_INT = Inr 8"
| "field_type_size FIELD_LIST_FLOAT = Inr 8"
| "field_type_size FIELD_LIST_NODE = Inr 8"
| "field_type_size (FIELD_OTHER b) = Inl Type_Error"

fun field_type_string :: "field_type \<Rightarrow> string res" where
  "field_type_string FIELD_INT = Inr ''int''"
| "field_type_string FIELD_FLOAT = Inr ''float''"
| "field_type_string FIELD_NODE = Inr ''node''"
| "field_type_string FIELD_LIST_INT = Inr ''int list''"
| "field_type_string FIELD_LIST_FLOAT = Inr ''float list''"
| "field_type_string FIELD_LIST_NODE = Inr ''node list''"
| "field_type_string FIELD_STRING = Inr ''string''"
| "field_type_string (FIELD_OTHER b) = Inl Type_Error"

lemma field_type_size_ok: "is_ok (field_type_size t) \<longleftrightarrow> (\<forall>b. t \<noteq> FIELD_OTHER b)"
  by (cases t) auto

section \<open>Aggregates\<close>

datatype aggregate_type =
    AGG_FIRST
  | AGG_MAX_INT
  | AGG_MIN_INT
  | AGG_SUM_INT
  | AGG_MAX_FLOAT
  | AGG_MIN_FLOAT
  | AGG_SUM_FLOAT
  | AGG_SUM_LIST_FLOAT
  | AGG_OTHER byte

definition aggregate_type_of_byte :: "byte \<Rightarrow> aggregate_type" where
  "aggregate_type_of_byte b =
     (if b = 1 then AGG_FIRST
      else if b = 2 then AGG_MAX_INT
      else if b = 3 then AGG_MIN_INT
      else if b = 4 then AGG_SUM_INT
      else if b = 5 then AGG_MAX_FLOAT
      else if b = 6 then AGG_MIN_FLOAT
      else if b = 7 then AGG_SUM_FLOAT
      else if b = 11 then AGG_SUM_LIST_FLOAT
      else AGG_OTHER b)"

fun aggregate_type_string :: "aggregate_type \<Rightarrow> string res" where
  "aggregate_type_string AGG_FIRST = Inr ''first''"
| "aggregate_type_string AGG_MIN_FLOAT = Inr ''min''"
| "aggregate_type_string AGG_MIN_INT = Inr ''min''"
| "aggregate_type_string AGG_MAX_FLOAT = Inr ''max''"
| "aggregate_type_string AGG_MAX_INT = Inr ''max''"
| "aggregate_type_string AGG_SUM_FLOAT = Inr ''sum''"
| "aggregate_type_string AGG_SUM_INT = Inr ''sum''"
| "aggregate_type_string AGG_SUM_LIST_FLOAT = Inr ''sum''"
| "aggregate_type_string (AGG_OTHER b) = Inl Assert_Failed"

datatype aggregate_safeness =
    AGG_LOCALLY_GENERATED
  | AGG_NEIGHBORHOOD
  | AGG_NEIGHBORHOOD_AND_SELF
  | AGG_IMMEDIATE
  | AGG_UNSAFE

definition aggregate_safeness_uses_neighborhood :: "aggregate_safeness \<Rightarrow> bool" where
  "aggregate_safeness_uses_neighborhood s \<longleftrightarrow> s = AGG_NEIGHBORHOOD \<or> s = AGG_NEIGHBORHOOD_AND_SELF"

end
