(* ===== verification/Instr.thy ===== *)
theory Instr
  imports Vm_Types
begin

text \<open>
  The instruction set of \<open>vm/instr.hpp\<close>: opcodes, operand tags, the accessors of
  every instruction, the sizes of operands by the kind of argument the
  instruction takes, and \<open>advance\<close>, which computes the address of the next
  instruction. Byte code is a memory of bytes indexed by address; a program
  counter is an address.
\<close>

type_synonym mem = "nat \<Rightarrow> byte"
type_synonym pcounter = nat
type_synonym instr_val = byte

definition mem_of :: "byte list \<Rightarrow> mem" where
  "mem_of bs i = (if i < length bs then bs ! i else 0)"

section \<open>Opcodes\<close>

datatype instr_type =
    RETURN_INSTR
  | NEXT_INSTR
  | ELSE_INSTR
  | TEST_NIL_INSTR
  | CONS_INSTR
  | HEAD_INSTR
  | TAIL_INSTR
  | NOT_INSTR
  | SEND_INSTR
  | FLOAT_INSTR
  | SELECT_INSTR
  | RETURN_SELECT_INSTR
  | COLOCATED_INSTR
  | DELETE_INSTR
  | RESET_LINEAR_INSTR
  | END_LINEAR_INSTR
  | RULE_INSTR
  | RULE_DONE_INSTR
  | NEW_NODE_INSTR
  | NEW_AXIOMS_INSTR
  | SEND_DELAY_INSTR
  | PUSH_INSTR
  | POP_INSTR
  | PUSH_REGS_INSTR
  | POP_REGS_INSTR
  | CALLF_INSTR
  | CALLE_INSTR
  | CALL_INSTR
  | MOVE_INSTR
  | ALLOC_INSTR
  | IF_INSTR
  | MOVE_NIL_INSTR
  | REMOVE_INSTR
  | ITER_INSTR
  | OP_INSTR
  | RETURN_LINEAR_INSTR
  | RETURN_DERIVED_INSTR
  | INSTR_OTHER byte

definition instr_type_of_byte :: "byte \<Rightarrow> instr_type" where
  "instr_type_of_byte b =
     (if b = 0x00 then RETURN_INSTR
      else if b = 0x01 then NEXT_INSTR
      else if b = 0x02 then ELSE_INSTR
      else if b = 0x03 then TEST_NIL_INSTR
      else if b = 0x04 then CONS_INSTR
      else if b = 0x05 then HEAD_INSTR
      else if b = 0x06 then TAIL_INSTR
      else if b = 0x07 then NOT_INSTR
      else if b = 0x08 then SEND_INSTR
      else if b = 0x09 then FLOAT_INSTR
      else if b = 0x0A then SELECT_INSTR
      else if b = 0x0B then RETURN_SELECT_INSTR
      else if b = 0x0C then COLOCATED_INSTR
      else if b = 0x0D then DELETE_INSTR
      else if b = 0x0E then RESET_LINEAR_INSTR
      else if b = 0x0F then END_LINEAR_INSTR
      else if b = 0x10 then RULE_INSTR
      else if b = 0x11 then RULE_DONE_INSTR
      else if b = 0x13 then NEW_NODE_INSTR
      else if b = 0x14 then NEW_AXIOMS_INSTR
      else if b = 0x15 then SEND_DELAY_INSTR
      else if b = 0x16 then PUSH_INSTR
      else if b = 0x17 then POP_INSTR
      else if b = 0x18 then PUSH_REGS_INSTR
      else if b = 0x19 then POP_REGS_INSTR
      else if b = 0x1A then CALLF_INSTR
      else if b = 0x1B then CALLE_INSTR
      else if b = 0x20 then CALL_INSTR
      else if b = 0x30 then MOVE_INSTR
      else if b = 0x40 then ALLOC_INSTR
      else if b = 0x60 then IF_INSTR
      else if b = 0x70 then MOVE_NIL_INSTR
      else if b = 0x80 then REMOVE_INSTR
      else if b = 0xA0 then ITER_INSTR
      else if b = 0xC0 then OP_INSTR
      else if b = 0xD0 then RETURN_LINEAR_INSTR
      else if b = 0xF0 then RETURN_DERIVED_INSTR
      else INSTR_OTHER b)"

definition fetch :: "mem \<Rightarrow> pcounter \<Rightarrow> instr_type" where
  "fetch m pc = instr_type_of_byte (m pc)"

datatype instr_op =
    OP_NEQF
  | OP_NEQI
  | OP_EQF
  | OP_EQI
  | OP_LESSF
  | OP_LESSI
  | OP_LESSEQF
  | OP_LESSEQI
  | OP_GREATERF
  | OP_GREATERI
  | OP_GREATEREQF
  | OP_GREATEREQI
  | OP_MODF
  | OP_MODI
  | OP_PLUSF
  | OP_PLUSI
  | OP_MINUSF
  | OP_MINUSI
  | OP_TIMESF
  | OP_TIMESI
  | OP_DIVF
  | OP_DIVI
  | OP_NEQA
  | OP_EQA
  | OP_GREATERA
  | OP_ORB
  | OP_OTHER byte

definition instr_op_of_byte :: "byte \<Rightarrow> instr_op" where
  "instr_op_of_byte b =
     (if b = 0x00 then OP_NEQF
      else if b = 0x01 then OP_NEQI
      else if b = 0x02 then OP_EQF
      else if b = 0x03 then OP_EQI
      else if b = 0x04 then OP_LESSF
      else if b = 0x05 then OP_LESSI
      else if b = 0x06 then OP_LESSEQF
      else if b = 0x07 then OP_LESSEQI
      else if b = 0x08 then OP_GREATERF
      else if b = 0x09 then OP_GREATERI
      else if b = 0x0A then OP_GREATEREQF
      else if b = 0x0B then OP_GREATEREQI
      else if b = 0x0C then OP_MODF
      else if b = 0x0D then OP_MODI
      else if b = 0x0E then OP_PLUSF
      else if b = 0x0F then OP_PLUSI
      else if b = 0x10 then OP_MINUSF
      else if b = 0x11 then OP_MINUSI
      else if b = 0x12 then OP_TIMESF
      else if b = 0x13 then OP_TIMESI
      else if b = 0x14 then OP_DIVF
      else if b = 0x15 then OP_DIVI
      else if b = 0x16 then OP_NEQA
      else if b = 0x17 then OP_EQA
      else if b = 0x18 then OP_GREATERA
      else if b = 0x19 then OP_ORB
      else OP_OTHER b)"

section \<open>Operand tags\<close>

definition val_is_reg :: "instr_val \<Rightarrow> bool" where
  "val_is_reg x \<longleftrightarrow> x AND 0x20 \<noteq> 0"

definition val_is_tuple :: "instr_val \<Rightarrow> bool" where
  "val_is_tuple x \<longleftrightarrow> x = 0x1f"

definition val_is_float :: "instr_val \<Rightarrow> bool" where
  "val_is_float x \<longleftrightarrow> x = 0x00"

definition val_is_int :: "instr_val \<Rightarrow> bool" where
  "val_is_int x \<longleftrightarrow> x = 0x01"

definition val_is_field :: "instr_val \<Rightarrow> bool" where
  "val_is_field x \<longleftrightarrow> x = 0x02"

definition val_is_host :: "instr_val \<Rightarrow> bool" where
  "val_is_host x \<longleftrightarrow> x = 0x03"

definition val_is_nil :: "instr_val \<Rightarrow> bool" where
  "val_is_nil x \<longleftrightarrow> x = 0x04"

definition val_is_node :: "instr_val \<Rightarrow> bool" where
  "val_is_node x \<longleftrightarrow> x = 0x05"

definition val_is_string :: "instr_val \<Rightarrow> bool" where
  "val_is_string x \<longleftrightarrow> x = 0x06"

definition val_is_arg :: "instr_val \<Rightarrow> bool" where
  "val_is_arg x \<longleftrightarrow> x = 0x07"

definition val_is_const :: "instr_val \<Rightarrow> bool" where
  "val_is_const x \<longleftrightarrow> x = 0x08"

definition val_is_stack :: "instr_val \<Rightarrow> bool" where
  "val_is_stack x \<longleftrightarrow> x = 0x09"

definition val_is_pcounter :: "instr_val \<Rightarrow> bool" where
  "val_is_pcounter x \<longleftrightarrow> x = 0x0A"

definition val_is_ptr :: "instr_val \<Rightarrow> bool" where
  "val_is_ptr x \<longleftrightarrow> x = 0x0B"

lemmas val_is_defs = val_is_reg_def val_is_tuple_def val_is_float_def val_is_int_def val_is_field_def val_is_host_def val_is_nil_def val_is_node_def val_is_string_def val_is_arg_def val_is_const_def val_is_stack_def val_is_pcounter_def val_is_ptr_def

section \<open>Reading immediate operands\<close>

definition read_bytes :: "mem \<Rightarrow> pcounter \<Rightarrow> nat \<Rightarrow> byte list" where
  "read_bytes m pc n = map m [pc..<pc + n]"

definition pcounter_int :: "mem \<Rightarrow> pcounter \<Rightarrow> int_val" where
  "pcounter_int m pc = le_word (read_bytes m pc 4)"

definition pcounter_code_size :: "mem \<Rightarrow> pcounter \<Rightarrow> 32 word" where
  "pcounter_code_size m pc = le_word (read_bytes m pc 4)"

definition pcounter_float :: "mem \<Rightarrow> pcounter \<Rightarrow> float_val" where
  "pcounter_float m pc = le_word (read_bytes m pc 8)"

definition pcounter_node :: "mem \<Rightarrow> pcounter \<Rightarrow> node_val" where
  "pcounter_node m pc = le_word (read_bytes m pc 4)"

definition pcounter_uint :: "mem \<Rightarrow> pcounter \<Rightarrow> uint_val" where
  "pcounter_uint m pc = le_word (read_bytes m pc 4)"

definition pcounter_ptr :: "mem \<Rightarrow> pcounter \<Rightarrow> ptr_val" where
  "pcounter_ptr m pc = le_word (read_bytes m pc 8)"

definition pcounter_argument_id :: "mem \<Rightarrow> pcounter \<Rightarrow> nat" where
  "pcounter_argument_id m pc = unat (m pc)"

definition pcounter_const_id :: "mem \<Rightarrow> pcounter \<Rightarrow> uint_val" where
  "pcounter_const_id m pc = pcounter_uint m pc"

definition pcounter_offset_num :: "mem \<Rightarrow> pcounter \<Rightarrow> byte" where
  "pcounter_offset_num m pc = m pc"

definition val_reg :: "instr_val \<Rightarrow> nat" where
  "val_reg x = unat (x AND 0x1f)"

definition val_field_num :: "mem \<Rightarrow> pcounter \<Rightarrow> field_num" where
  "val_field_num m x = unat (m x AND 0xff)"

definition val_field_reg :: "mem \<Rightarrow> pcounter \<Rightarrow> nat" where
  "val_field_reg m x = unat (m (x + 1) AND 0x1f)"

definition jump_get :: "mem \<Rightarrow> pcounter \<Rightarrow> nat \<Rightarrow> nat" where
  "jump_get m x off = unat (pcounter_code_size m (x + off))"

definition reg_get :: "mem \<Rightarrow> pcounter \<Rightarrow> nat \<Rightarrow> nat" where
  "reg_get m x off = unat (m (x + off) AND 0x1f)"

definition val_get :: "mem \<Rightarrow> pcounter \<Rightarrow> nat \<Rightarrow> instr_val" where
  "val_get m x off = m (x + off) AND 0x3f"

definition predicate_get :: "mem \<Rightarrow> pcounter \<Rightarrow> nat \<Rightarrow> predicate_id" where
  "predicate_get m x off = m (x + off) AND 0x7f"

definition predicate_set :: "mem \<Rightarrow> pcounter \<Rightarrow> nat \<Rightarrow> predicate_id \<Rightarrow> mem" where
  "predicate_set m x off i = m(x + off := i)"

definition byte_get :: "mem \<Rightarrow> pcounter \<Rightarrow> nat \<Rightarrow> byte" where
  "byte_get m x off = m (x + off)"

definition field_num_get :: "mem \<Rightarrow> pcounter \<Rightarrow> nat \<Rightarrow> field_num" where
  "field_num_get m x off = unat (m (x + off))"

section \<open>Accessors of the instructions\<close>

definition if_reg :: "mem \<Rightarrow> pcounter \<Rightarrow> nat" where
  "if_reg m pc = reg_get m pc 1"

definition if_jump :: "mem \<Rightarrow> pcounter \<Rightarrow> nat" where
  "if_jump m pc = jump_get m pc 2"

definition send_msg :: "mem \<Rightarrow> pcounter \<Rightarrow> nat" where
  "send_msg m pc = reg_get m pc 1"

definition send_dest :: "mem \<Rightarrow> pcounter \<Rightarrow> nat" where
  "send_dest m pc = reg_get m pc 2"

definition float_op :: "mem \<Rightarrow> pcounter \<Rightarrow> instr_val" where
  "float_op m pc = val_get m pc 1"

definition float_dest :: "mem \<Rightarrow> pcounter \<Rightarrow> instr_val" where
  "float_dest m pc = val_get m pc 2"

definition op_arg1 :: "mem \<Rightarrow> pcounter \<Rightarrow> instr_val" where
  "op_arg1 m pc = val_get m pc 1"

definition op_arg2 :: "mem \<Rightarrow> pcounter \<Rightarrow> instr_val" where
  "op_arg2 m pc = val_get m pc 2"

definition op_dest :: "mem \<Rightarrow> pcounter \<Rightarrow> instr_val" where
  "op_dest m pc = val_get m pc 3"

definition op_op :: "mem \<Rightarrow> pcounter \<Rightarrow> instr_op" where
  "op_op m pc = instr_op_of_byte (m (pc + 4) AND 0x1f)"

definition move_from :: "mem \<Rightarrow> pcounter \<Rightarrow> instr_val" where
  "move_from m pc = val_get m pc 1"

definition move_to :: "mem \<Rightarrow> pcounter \<Rightarrow> instr_val" where
  "move_to m pc = val_get m pc 2"

definition iter_predicate :: "mem \<Rightarrow> pcounter \<Rightarrow> predicate_id" where
  "iter_predicate m pc = predicate_get m pc 1"

definition iter_options :: "mem \<Rightarrow> pcounter \<Rightarrow> byte" where
  "iter_options m pc = byte_get m pc 2"

definition iter_options_argument :: "mem \<Rightarrow> pcounter \<Rightarrow> byte" where
  "iter_options_argument m pc = byte_get m pc 3"

definition iter_jump :: "mem \<Rightarrow> pcounter \<Rightarrow> nat" where
  "iter_jump m pc = jump_get m pc 4"

definition iter_match_end :: "mem \<Rightarrow> pcounter \<Rightarrow> bool" where
  "iter_match_end m pc = (m (pc + 1) AND 0xc0 = 0x40)"

definition iter_match_none :: "mem \<Rightarrow> pcounter \<Rightarrow> bool" where
  "iter_match_none m pc = (m (pc + 1) AND 0xc0 = 0xc0)"

definition iter_match_val :: "mem \<Rightarrow> pcounter \<Rightarrow> instr_val" where
  "iter_match_val m pc = val_get m pc 1"

definition iter_match_field :: "mem \<Rightarrow> pcounter \<Rightarrow> field_num" where
  "iter_match_field m pc = unat (m pc)"

definition iter_options_random :: "byte \<Rightarrow> bool" where
  "iter_options_random b \<longleftrightarrow> b AND 0x01 \<noteq> 0"

definition iter_options_min :: "byte \<Rightarrow> bool" where
  "iter_options_min b \<longleftrightarrow> b AND 0x04 \<noteq> 0"

definition iter_options_min_arg :: "byte \<Rightarrow> field_num" where
  "iter_options_min_arg b = unat b"

definition iter_options_to_delete :: "byte \<Rightarrow> bool" where
  "iter_options_to_delete b \<longleftrightarrow> b AND 0x02 \<noteq> 0"

definition alloc_predicate :: "mem \<Rightarrow> pcounter \<Rightarrow> predicate_id" where
  "alloc_predicate m pc = predicate_get m pc 1"

definition alloc_reg :: "mem \<Rightarrow> pcounter \<Rightarrow> nat" where
  "alloc_reg m pc = reg_get m pc 2"

definition call_extern_id :: "mem \<Rightarrow> pcounter \<Rightarrow> nat" where
  "call_extern_id m pc = unat (byte_get m pc 1)"

definition call_num_args :: "mem \<Rightarrow> pcounter \<Rightarrow> nat" where
  "call_num_args m pc = unat (byte_get m pc 2)"

definition call_dest :: "mem \<Rightarrow> pcounter \<Rightarrow> nat" where
  "call_dest m pc = reg_get m pc 3"

definition call_val :: "mem \<Rightarrow> pcounter \<Rightarrow> instr_val" where
  "call_val m pc = val_get m pc 0"

definition calle_extern_id :: "mem \<Rightarrow> pcounter \<Rightarrow> nat" where
  "calle_extern_id m pc = unat (byte_get m pc 1)"

definition calle_num_args :: "mem \<Rightarrow> pcounter \<Rightarrow> nat" where
  "calle_num_args m pc = unat (byte_get m pc 2)"

definition calle_dest :: "mem \<Rightarrow> pcounter \<Rightarrow> nat" where
  "calle_dest m pc = reg_get m pc 3"

definition calle_val :: "mem \<Rightarrow> pcounter \<Rightarrow> instr_val" where
  "calle_val m pc = val_get m pc 0"

definition move_nil_dest :: "mem \<Rightarrow> pcounter \<Rightarrow> instr_val" where
  "move_nil_dest m pc = val_get m pc 1"

definition test_nil_op :: "mem \<Rightarrow> pcounter \<Rightarrow> instr_val" where
  "test_nil_op m pc = val_get m pc 1"

definition test_nil_dest :: "mem \<Rightarrow> pcounter \<Rightarrow> instr_val" where
  "test_nil_dest m pc = val_get m pc 2"

definition get_list_type :: "mem \<Rightarrow> pcounter \<Rightarrow> nat \<Rightarrow> field_type" where
  "get_list_type m pc off =
     (if m (pc + off) = 0 then FIELD_LIST_INT
      else if m (pc + off) = 1 then FIELD_LIST_FLOAT
      else if m (pc + off) = 2 then FIELD_LIST_NODE
      else FIELD_LIST_INT)"

definition cons_type :: "mem \<Rightarrow> pcounter \<Rightarrow> field_type" where
  "cons_type m pc = get_list_type m pc 1"

definition cons_head :: "mem \<Rightarrow> pcounter \<Rightarrow> instr_val" where
  "cons_head m pc = val_get m pc 2"

definition cons_tail :: "mem \<Rightarrow> pcounter \<Rightarrow> instr_val" where
  "cons_tail m pc = val_get m pc 3"

definition cons_dest :: "mem \<Rightarrow> pcounter \<Rightarrow> instr_val" where
  "cons_dest m pc = val_get m pc 4"

definition head_type :: "mem \<Rightarrow> pcounter \<Rightarrow> field_type" where
  "head_type m pc = get_list_type m pc 1"

definition head_cons :: "mem \<Rightarrow> pcounter \<Rightarrow> instr_val" where
  "head_cons m pc = val_get m pc 2"

definition head_dest :: "mem \<Rightarrow> pcounter \<Rightarrow> instr_val" where
  "head_dest m pc = val_get m pc 3"

definition tail_type :: "mem \<Rightarrow> pcounter \<Rightarrow> field_type" where
  "tail_type m pc = get_list_type m pc 1"

definition tail_cons :: "mem \<Rightarrow> pcounter \<Rightarrow> instr_val" where
  "tail_cons m pc = val_get m pc 2"

definition tail_dest :: "mem \<Rightarrow> pcounter \<Rightarrow> instr_val" where
  "tail_dest m pc = val_get m pc 3"

definition not_op :: "mem \<Rightarrow> pcounter \<Rightarrow> instr_val" where
  "not_op m pc = val_get m pc 1"

definition not_dest :: "mem \<Rightarrow> pcounter \<Rightarrow> instr_val" where
  "not_dest m pc = val_get m pc 2"

definition select_size :: "mem \<Rightarrow> pcounter \<Rightarrow> nat" where
  "select_size m pc = unat (pcounter_code_size m (pc + 1))"

definition select_hash_size :: "mem \<Rightarrow> pcounter \<Rightarrow> nat" where
  "select_hash_size m pc = unat (pcounter_code_size m (pc + 1 + 4))"

definition select_hash_start :: "mem \<Rightarrow> pcounter \<Rightarrow> pcounter" where
  "select_hash_start m pc = pc + 9"

definition select_hash :: "mem \<Rightarrow> pcounter \<Rightarrow> node_val \<Rightarrow> nat" where
  "select_hash m hash_start val = unat (pcounter_code_size m (hash_start + 4 * unat val))"

definition select_hash_code :: "pcounter \<Rightarrow> nat \<Rightarrow> nat \<Rightarrow> pcounter" where
  "select_hash_code hash_start hash_size hashed = hash_start + hash_size * 4 + hashed - 1"

definition return_select_jump :: "mem \<Rightarrow> pcounter \<Rightarrow> nat" where
  "return_select_jump m pc = unat (pcounter_code_size m (pc + 1))"

definition colocated_first :: "mem \<Rightarrow> pcounter \<Rightarrow> instr_val" where
  "colocated_first m pc = val_get m pc 1"

definition colocated_second :: "mem \<Rightarrow> pcounter \<Rightarrow> instr_val" where
  "colocated_second m pc = val_get m pc 2"

definition colocated_dest :: "mem \<Rightarrow> pcounter \<Rightarrow> nat" where
  "colocated_dest m pc = reg_get m pc 3"

definition delete_predicate :: "mem \<Rightarrow> pcounter \<Rightarrow> predicate_id" where
  "delete_predicate m pc = predicate_get m pc 1"

definition delete_num_args :: "mem \<Rightarrow> pcounter \<Rightarrow> nat" where
  "delete_num_args m pc = unat (byte_get m pc 2)"

definition delete_val :: "mem \<Rightarrow> pcounter \<Rightarrow> instr_val" where
  "delete_val m pc = val_get m pc 1"

definition delete_index :: "mem \<Rightarrow> pcounter \<Rightarrow> field_num" where
  "delete_index m pc = field_num_get m pc 0"

definition remove_source :: "mem \<Rightarrow> pcounter \<Rightarrow> nat" where
  "remove_source m pc = reg_get m pc 1"

definition reset_linear_jump :: "mem \<Rightarrow> pcounter \<Rightarrow> nat" where
  "reset_linear_jump m pc = jump_get m pc 1"

definition rule_get_id :: "mem \<Rightarrow> pcounter \<Rightarrow> uint_val" where
  "rule_get_id m pc = pcounter_uint m (pc + 1)"

text \<open>
  \<open>*(pc + 1) = (uint_val)id\<close>: the left side is one byte, so the identifier is cut
  to its low eight bits and only the first of its four bytes is written.
\<close>

definition rule_set_id :: "mem \<Rightarrow> pcounter \<Rightarrow> nat \<Rightarrow> mem" where
  "rule_set_id m pc i = m(pc + 1 := ucast (of_nat i :: uint_val))"

definition new_node_reg :: "mem \<Rightarrow> pcounter \<Rightarrow> nat" where
  "new_node_reg m pc = reg_get m pc 1"

definition new_axioms_jump :: "mem \<Rightarrow> pcounter \<Rightarrow> nat" where
  "new_axioms_jump m pc = jump_get m pc 1"

definition send_delay_msg :: "mem \<Rightarrow> pcounter \<Rightarrow> nat" where
  "send_delay_msg m pc = reg_get m pc 1"

definition send_delay_dest :: "mem \<Rightarrow> pcounter \<Rightarrow> nat" where
  "send_delay_dest m pc = reg_get m pc 2"

definition send_delay_time :: "mem \<Rightarrow> pcounter \<Rightarrow> uint_val" where
  "send_delay_time m pc = pcounter_uint m (pc + 3)"

definition callf_get_id :: "mem \<Rightarrow> pcounter \<Rightarrow> byte" where
  "callf_get_id m pc = m (pc + 1)"

section \<open>Sizes of operands\<close>

text \<open>
  One instance of \<open>arg_size\<close> per kind of argument; each follows the order of the
  tests of its template instance. A tag the kind does not allow raises
  \<open>malformed_instr_error\<close>.
\<close>

definition arg_size_anything :: "instr_val \<Rightarrow> nat res" where
  "arg_size_anything v =
     (if val_is_float v then Inr 8
      else if val_is_int v then Inr 4
      else if val_is_field v then Inr 2
      else if val_is_nil v then Inr 0
      else if val_is_reg v then Inr 0
      else if val_is_host v then Inr 0
      else if val_is_tuple v then Inr 0
      else if val_is_node v then Inr 4
      else if val_is_string v then Inr 4
      else if val_is_arg v then Inr 1
      else if val_is_const v then Inr 4
      else if val_is_stack v then Inr 1
      else if val_is_pcounter v then Inr 0
      else if val_is_ptr v then Inr 8
      else Inl Malformed_Instr)"

definition arg_size_anything_not_nil :: "instr_val \<Rightarrow> nat res" where
  "arg_size_anything_not_nil v =
     (if val_is_float v then Inr 8
      else if val_is_int v then Inr 4
      else if val_is_field v then Inr 2
      else if val_is_reg v then Inr 0
      else if val_is_host v then Inr 0
      else if val_is_tuple v then Inr 0
      else if val_is_node v then Inr 4
      else if val_is_string v then Inr 4
      else if val_is_arg v then Inr 1
      else if val_is_const v then Inr 4
      else if val_is_stack v then Inr 1
      else if val_is_pcounter v then Inr 0
      else if val_is_ptr v then Inr 8
      else Inl Malformed_Instr)"

definition arg_size_int :: "instr_val \<Rightarrow> nat res" where
  "arg_size_int v =
     (if val_is_int v then Inr 4
      else if val_is_reg v then Inr 0
      else if val_is_field v then Inr 2
      else if val_is_const v then Inr 4
      else if val_is_stack v then Inr 1
      else Inl Malformed_Instr)"

definition arg_size_writable :: "instr_val \<Rightarrow> nat res" where
  "arg_size_writable v =
     (if val_is_reg v then Inr 0
      else if val_is_field v then Inr 2
      else if val_is_const v then Inr 4
      else if val_is_stack v then Inr 1
      else if val_is_pcounter v then Inr 0
      else Inl Malformed_Instr)"

definition arg_size_list :: "instr_val \<Rightarrow> nat res" where
  "arg_size_list v =
     (if val_is_reg v then Inr 0
      else if val_is_field v then Inr 2
      else if val_is_nil v then Inr 0
      else if val_is_stack v then Inr 1
      else Inl Malformed_Instr)"

definition arg_size_non_list :: "instr_val \<Rightarrow> nat res" where
  "arg_size_non_list v =
     (if val_is_float v then Inr 8
      else if val_is_int v then Inr 4
      else if val_is_field v then Inr 2
      else if val_is_reg v then Inr 0
      else if val_is_host v then Inr 0
      else if val_is_node v then Inr 4
      else if val_is_string v then Inr 4
      else if val_is_arg v then Inr 1
      else if val_is_const v then Inr 4
      else if val_is_stack v then Inr 1
      else if val_is_pcounter v then Inr 0
      else if val_is_ptr v then Inr 8
      else Inl Malformed_Instr)"

definition arg_size_bool :: "instr_val \<Rightarrow> nat res" where
  "arg_size_bool v =
     (if val_is_reg v then Inr 0
      else if val_is_field v then Inr 2
      else if val_is_const v then Inr 4
      else if val_is_stack v then Inr 1
      else Inl Malformed_Instr)"

definition arg_size_node :: "instr_val \<Rightarrow> nat res" where
  "arg_size_node v =
     (if val_is_reg v then Inr 0
      else if val_is_field v then Inr 2
      else if val_is_host v then Inr 0
      else if val_is_node v then Inr 4
      else if val_is_const v then Inr 4
      else if val_is_stack v then Inr 1
      else Inl Malformed_Instr)"

lemmas arg_size_defs = arg_size_anything_def arg_size_anything_not_nil_def arg_size_int_def arg_size_writable_def arg_size_list_def arg_size_non_list_def arg_size_bool_def arg_size_node_def

section \<open>Argument lists\<close>

text \<open>
  \<open>iter_matches_size\<close> loops until it meets an entry whose tag byte is marked as the
  last; nothing bounds the loop, so the model returns \<open>None\<close> where it does not end.
\<close>

partial_function (option) iter_matches_loop :: "mem \<Rightarrow> pcounter \<Rightarrow> nat \<Rightarrow> nat res option" where
  "iter_matches_loop m pc acc =
     (case arg_size_anything (iter_match_val m pc) of
        Inl e \<Rightarrow> Some (Inl e)
      | Inr k \<Rightarrow>
          (if iter_match_end m pc then Some (Inr (acc + (2 + k)))
           else iter_matches_loop m (pc + (2 + k)) (acc + (2 + k))))"

declare iter_matches_loop.simps [code]

definition iter_matches_size :: "mem \<Rightarrow> pcounter \<Rightarrow> nat res option" where
  "iter_matches_size m pc =
     (if iter_match_none m pc then Some (Inr 2) else iter_matches_loop m pc 0)"

fun instr_call_args_size :: "mem \<Rightarrow> pcounter \<Rightarrow> nat \<Rightarrow> nat res" where
  "instr_call_args_size m arg 0 = Inr 0"
| "instr_call_args_size m arg (Suc num) =
     res_bind (arg_size_anything (call_val m arg)) (\<lambda>k.
     res_bind (instr_call_args_size m (arg + (1 + k)) num) (\<lambda>total.
     Inr ((1 + k) + total)))"

fun instr_delete_args_size :: "mem \<Rightarrow> pcounter \<Rightarrow> nat \<Rightarrow> nat res" where
  "instr_delete_args_size m arg 0 = Inr 0"
| "instr_delete_args_size m arg (Suc num) =
     res_bind (arg_size_anything (delete_val m arg)) (\<lambda>k.
     res_bind (instr_delete_args_size m (arg + (1 + 1 + k)) num) (\<lambda>total.
     Inr ((1 + 1 + k) + total)))"

section \<open>The next instruction\<close>

text \<open>Sums of operand sizes, in the order the code evaluates them.\<close>

definition size_1 :: "pcounter \<Rightarrow> nat res \<Rightarrow> pcounter res option" where
  "size_1 base a = Some (res_bind a (\<lambda>x. Inr (base + x)))"

definition size_2 :: "pcounter \<Rightarrow> nat res \<Rightarrow> nat res \<Rightarrow> pcounter res option" where
  "size_2 base a b = Some (res_bind a (\<lambda>x. res_bind b (\<lambda>y. Inr (base + x + y))))"

definition size_3 :: "pcounter \<Rightarrow> nat res \<Rightarrow> nat res \<Rightarrow> nat res \<Rightarrow> pcounter res option" where
  "size_3 base a b c =
     Some (res_bind a (\<lambda>x. res_bind b (\<lambda>y. res_bind c (\<lambda>z. Inr (base + x + y + z)))))"

definition advance :: "mem \<Rightarrow> pcounter \<Rightarrow> pcounter res option" where
  "advance m pc =
     (case fetch m pc of
        SEND_INSTR \<Rightarrow> Some (Inr (pc + 3))
      | FLOAT_INSTR \<Rightarrow>
          size_2 (pc + 3) (arg_size_int (float_op m pc)) (arg_size_writable (float_dest m pc))
      | OP_INSTR \<Rightarrow>
          size_3 (pc + 5) (arg_size_anything (op_arg1 m pc)) (arg_size_anything (op_arg2 m pc))
            (arg_size_writable (op_dest m pc))
      | MOVE_INSTR \<Rightarrow>
          size_2 (pc + 3) (arg_size_anything_not_nil (move_from m pc)) (arg_size_writable (move_to m pc))
      | ITER_INSTR \<Rightarrow>
          (case iter_matches_size m (pc + 8) of None \<Rightarrow> None | Some r \<Rightarrow> size_1 (pc + 8) r)
      | ALLOC_INSTR \<Rightarrow> Some (Inr (pc + 3))
      | CALL_INSTR \<Rightarrow> size_1 (pc + 4) (instr_call_args_size m (pc + 4) (call_num_args m pc))
      | CALLE_INSTR \<Rightarrow> size_1 (pc + 4) (instr_call_args_size m (pc + 4) (calle_num_args m pc))
      | DELETE_INSTR \<Rightarrow> size_1 (pc + 3) (instr_delete_args_size m (pc + 3) (delete_num_args m pc))
      | IF_INSTR \<Rightarrow> Some (Inr (pc + 6))
      | MOVE_NIL_INSTR \<Rightarrow> size_1 (pc + 2) (arg_size_writable (move_nil_dest m pc))
      | TEST_NIL_INSTR \<Rightarrow>
          size_2 (pc + 3) (arg_size_list (test_nil_op m pc)) (arg_size_writable (test_nil_dest m pc))
      | CONS_INSTR \<Rightarrow>
          size_3 (pc + 5) (arg_size_non_list (cons_head m pc)) (arg_size_list (cons_tail m pc))
            (arg_size_writable (cons_dest m pc))
      | HEAD_INSTR \<Rightarrow>
          size_2 (pc + 4) (arg_size_list (head_cons m pc)) (arg_size_writable (head_dest m pc))
      | TAIL_INSTR \<Rightarrow>
          size_2 (pc + 4) (arg_size_list (tail_cons m pc)) (arg_size_writable (tail_dest m pc))
      | NOT_INSTR \<Rightarrow>
          size_2 (pc + 3) (arg_size_bool (not_op m pc)) (arg_size_writable (not_dest m pc))
      | RETURN_INSTR \<Rightarrow> Some (Inr (pc + 1))
      | RETURN_LINEAR_INSTR \<Rightarrow> Some (Inr (pc + 1))
      | RETURN_DERIVED_INSTR \<Rightarrow> Some (Inr (pc + 1))
      | NEXT_INSTR \<Rightarrow> Some (Inr (pc + 1))
      | RETURN_SELECT_INSTR \<Rightarrow> Some (Inr (pc + 5))
      | SELECT_INSTR \<Rightarrow> Some (Inr (pc + 9 + select_hash_size m pc * 4))
      | COLOCATED_INSTR \<Rightarrow>
          size_2 (pc + 4) (arg_size_node (colocated_first m pc)) (arg_size_node (colocated_second m pc))
      | REMOVE_INSTR \<Rightarrow> Some (Inr (pc + 2))
      | RESET_LINEAR_INSTR \<Rightarrow> Some (Inr (pc + 5))
      | END_LINEAR_INSTR \<Rightarrow> Some (Inr (pc + 1))
      | RULE_INSTR \<Rightarrow> Some (Inr (pc + 5))
      | RULE_DONE_INSTR \<Rightarrow> Some (Inr (pc + 1))
      | NEW_NODE_INSTR \<Rightarrow> Some (Inr (pc + 2))
      | NEW_AXIOMS_INSTR \<Rightarrow> Some (Inr (pc + new_axioms_jump m pc))
      | SEND_DELAY_INSTR \<Rightarrow> Some (Inr (pc + 7))
      | PUSH_INSTR \<Rightarrow> Some (Inr (pc + 1))
      | POP_INSTR \<Rightarrow> Some (Inr (pc + 1))
      | PUSH_REGS_INSTR \<Rightarrow> Some (Inr (pc + 1))
      | POP_REGS_INSTR \<Rightarrow> Some (Inr (pc + 1))
      | CALLF_INSTR \<Rightarrow> Some (Inr (pc + 2))
      | ELSE_INSTR \<Rightarrow> Some (Inl Malformed_Instr)
      | INSTR_OTHER b \<Rightarrow> Some (Inl Malformed_Instr))"

section \<open>Properties of the operand sizes\<close>

text \<open>
  Every kind of argument accepts a subset of the tags and gives an accepted tag
  the size the general instance gives it, so an operand occupies the same bytes
  whichever instruction reads it.
\<close>

lemma arg_size_refines_anything:
  "arg_size_anything_not_nil v = Inr k \<Longrightarrow> arg_size_anything v = Inr k"
  "arg_size_int v = Inr k \<Longrightarrow> arg_size_anything v = Inr k"
  "arg_size_writable v = Inr k \<Longrightarrow> arg_size_anything v = Inr k"
  "arg_size_list v = Inr k \<Longrightarrow> arg_size_anything v = Inr k"
  "arg_size_non_list v = Inr k \<Longrightarrow> arg_size_anything v = Inr k"
  "arg_size_bool v = Inr k \<Longrightarrow> arg_size_anything v = Inr k"
  "arg_size_node v = Inr k \<Longrightarrow> arg_size_anything v = Inr k"
  by (auto simp: arg_size_defs val_is_defs split: if_splits)

lemma arg_size_anything_le: "arg_size_anything v = Inr k \<Longrightarrow> k \<le> 8"
  by (auto simp: arg_size_defs split: if_splits)

section \<open>Decoding is local\<close>

text \<open>Two memories that agree on the bytes from \<open>a\<close> to \<open>b\<close> (exclusive).\<close>

lemma size_Inr_iff:
  "size_1 b x = Some (Inr q) \<longleftrightarrow> (\<exists>k. x = Inr k \<and> q = b + k)"
  "size_2 b x y = Some (Inr q) \<longleftrightarrow> (\<exists>k l. x = Inr k \<and> y = Inr l \<and> q = b + k + l)"
  "size_3 b x y z = Some (Inr q) \<longleftrightarrow>
     (\<exists>k l n. x = Inr k \<and> y = Inr l \<and> z = Inr n \<and> q = b + k + l + n)"
  by (auto simp: size_1_def size_2_def size_3_def res_bind_Inr_iff)

definition mem_agree :: "mem \<Rightarrow> mem \<Rightarrow> pcounter \<Rightarrow> pcounter \<Rightarrow> bool" where
  "mem_agree m m' a b \<longleftrightarrow> (\<forall>i. a \<le> i \<longrightarrow> i < b \<longrightarrow> m i = m' i)"

lemma mem_agreeD: "mem_agree m m' a b \<Longrightarrow> a \<le> i \<Longrightarrow> i < b \<Longrightarrow> m' i = m i"
  by (simp add: mem_agree_def)

lemma mem_agree_sub: "mem_agree m m' a b \<Longrightarrow> a \<le> c \<Longrightarrow> d \<le> b \<Longrightarrow> mem_agree m m' c d"
  by (simp add: mem_agree_def)

lemma read_bytes_agree: "mem_agree m m' a b \<Longrightarrow> a \<le> i \<Longrightarrow> i + n \<le> b \<Longrightarrow> read_bytes m' i n = read_bytes m i n"
  by (auto simp: read_bytes_def mem_agree_def)

lemma call_args_agree:
  "instr_call_args_size m p n = Inr k \<Longrightarrow> mem_agree m m' p (p + k) \<Longrightarrow>
   instr_call_args_size m' p n = Inr k"
proof (induction n arbitrary: p k)
  case 0
  then show ?case by simp
next
  case (Suc n)
  then obtain a t where a: "arg_size_anything (call_val m p) = Inr a"
    and t: "instr_call_args_size m (p + (1 + a)) n = Inr t" and k: "k = (1 + a) + t"
    by (auto simp: res_bind_Inr_iff)
  have "m' p = m p" using Suc.prems(2) k by (intro mem_agreeD) auto
  then have "arg_size_anything (call_val m' p) = Inr a"
    using a by (simp add: call_val_def val_get_def)
  moreover have "instr_call_args_size m' (p + (1 + a)) n = Inr t"
    using t by (rule Suc.IH) (rule mem_agree_sub [OF Suc.prems(2)], auto simp: k)
  ultimately show ?case by (simp add: k)
qed

lemma delete_args_agree:
  "instr_delete_args_size m p n = Inr k \<Longrightarrow> mem_agree m m' p (p + k) \<Longrightarrow>
   instr_delete_args_size m' p n = Inr k"
proof (induction n arbitrary: p k)
  case 0
  then show ?case by simp
next
  case (Suc n)
  then obtain a t where a: "arg_size_anything (delete_val m p) = Inr a"
    and t: "instr_delete_args_size m (p + (1 + 1 + a)) n = Inr t" and k: "k = (1 + 1 + a) + t"
    by (auto simp: res_bind_Inr_iff)
  have "m' (p + 1) = m (p + 1)" using Suc.prems(2) k by (intro mem_agreeD) auto
  then have "arg_size_anything (delete_val m' p) = Inr a"
    using a by (simp add: delete_val_def val_get_def)
  moreover have "instr_delete_args_size m' (p + (1 + 1 + a)) n = Inr t"
    using t by (rule Suc.IH) (rule mem_agree_sub [OF Suc.prems(2)], auto simp: k)
  ultimately show ?case by (simp add: k)
qed

lemma iter_matches_loop_ge:
  assumes "iter_matches_loop m pc acc = Some r" and "r = Inr k"
  shows "acc + 2 \<le> k"
proof -
  have "\<forall>k. r = Inr k \<longrightarrow> acc + 2 \<le> k"
  proof (rule iter_matches_loop.raw_induct [where P = "\<lambda>m pc acc r. \<forall>k. r = Inr k \<longrightarrow> acc + 2 \<le> k",
        OF _ assms(1)])
    fix f m pc acc and r :: "nat res"
    assume IH: "\<And>m pc acc r. f m pc acc = Some r \<Longrightarrow> \<forall>k. r = Inr k \<longrightarrow> acc + 2 \<le> k"
      and eq: "(case arg_size_anything (iter_match_val m pc) of
          Inl e \<Rightarrow> Some (Inl e)
        | Inr k \<Rightarrow> (if iter_match_end m pc then Some (Inr (acc + (2 + k)))
                    else f m (pc + (2 + k)) (acc + (2 + k)))) = Some r"
    show "\<forall>k. r = Inr k \<longrightarrow> acc + 2 \<le> k"
      using eq by (auto split: sum.splits if_splits dest!: IH)
  qed
  with assms(2) show ?thesis by simp
qed

lemma iter_matches_loop_agree:
  assumes "iter_matches_loop m pc acc = Some r" and "r = Inr k" and "mem_agree m m' pc (pc + (k - acc))"
  shows "iter_matches_loop m' pc acc = Some (Inr k)"
proof -
  have "\<forall>k. r = Inr k \<longrightarrow> acc \<le> k \<and> (mem_agree m m' pc (pc + (k - acc)) \<longrightarrow> iter_matches_loop m' pc acc = Some (Inr k))"
  proof (rule iter_matches_loop.raw_induct [where P = "\<lambda>m pc acc r. \<forall>k. r = Inr k \<longrightarrow>
       acc \<le> k \<and> (mem_agree m m' pc (pc + (k - acc)) \<longrightarrow> iter_matches_loop m' pc acc = Some (Inr k))",
        OF _ assms(1)])
    fix f m pc acc and r :: "nat res"
    assume IH: "\<And>m pc acc r. f m pc acc = Some r \<Longrightarrow> \<forall>k. r = Inr k \<longrightarrow>
       acc \<le> k \<and> (mem_agree m m' pc (pc + (k - acc)) \<longrightarrow> iter_matches_loop m' pc acc = Some (Inr k))"
      and eq: "(case arg_size_anything (iter_match_val m pc) of
          Inl e \<Rightarrow> Some (Inl e)
        | Inr k \<Rightarrow> (if iter_match_end m pc then Some (Inr (acc + (2 + k)))
                    else f m (pc + (2 + k)) (acc + (2 + k)))) = Some r"
    show "\<forall>k. r = Inr k \<longrightarrow>
       acc \<le> k \<and> (mem_agree m m' pc (pc + (k - acc)) \<longrightarrow> iter_matches_loop m' pc acc = Some (Inr k))"
    proof (intro allI impI)
      fix k assume r: "r = Inr k"
      from eq r obtain a where a: "arg_size_anything (iter_match_val m pc) = Inr a"
        by (cases "arg_size_anything (iter_match_val m pc)") auto
      have local: "iter_match_val m' pc = iter_match_val m pc \<and> iter_match_end m' pc = iter_match_end m pc"
        if "mem_agree m m' pc (pc + (k - acc))" and "acc + 2 \<le> k"
      proof -
        have "m' (pc + 1) = m (pc + 1)" by (rule mem_agreeD [OF that(1)]) (use that(2) in auto)
        then show ?thesis by (simp add: iter_match_val_def iter_match_end_def val_get_def)
      qed
      show "acc \<le> k \<and> (mem_agree m m' pc (pc + (k - acc)) \<longrightarrow> iter_matches_loop m' pc acc = Some (Inr k))"
      proof (cases "iter_match_end m pc")
        case True
        with eq a r have k: "k = acc + (2 + a)" by simp
        with True a local show ?thesis
          by (auto simp: iter_matches_loop.simps [of m' pc acc])
      next
        case False
        with eq a r have f: "f m (pc + (2 + a)) (acc + (2 + a)) = Some (Inr k)" by simp
        from IH [OF f] have le: "acc + (2 + a) \<le> k" and
          go: "mem_agree m m' (pc + (2 + a)) (pc + (2 + a) + (k - (acc + (2 + a)))) \<Longrightarrow>
            iter_matches_loop m' (pc + (2 + a)) (acc + (2 + a)) = Some (Inr k)"
          by auto
        have "iter_matches_loop m' pc acc = Some (Inr k)" if ag: "mem_agree m m' pc (pc + (k - acc))"
        proof -
          have "iter_matches_loop m' (pc + (2 + a)) (acc + (2 + a)) = Some (Inr k)"
            by (rule go) (rule mem_agree_sub [OF ag], use le in auto)
          with local [OF ag] le False a show ?thesis
            by (simp add: iter_matches_loop.simps [of m' pc acc])
        qed
        with le show ?thesis by simp
      qed
    qed
  qed
  with assms(2,3) show ?thesis by blast
qed

lemma iter_matches_size_agree:
  assumes "iter_matches_size m pc = Some (Inr k)" and "mem_agree m m' pc (pc + k)"
  shows "iter_matches_size m' pc = Some (Inr k)"
proof (cases "iter_match_none m pc")
  case True
  with assms(1) have k: "k = 2" by (simp add: iter_matches_size_def)
  then have "m' (pc + 1) = m (pc + 1)" by (intro mem_agreeD [OF assms(2)]) auto
  with True k show ?thesis by (simp add: iter_matches_size_def iter_match_none_def)
next
  case False
  with assms(1) have l: "iter_matches_loop m pc 0 = Some (Inr k)" by (simp add: iter_matches_size_def)
  then have "2 \<le> k" by (auto dest: iter_matches_loop_ge)
  then have "m' (pc + 1) = m (pc + 1)" by (intro mem_agreeD [OF assms(2)]) auto
  with False have "\<not> iter_match_none m' pc" by (simp add: iter_match_none_def)
  moreover have "iter_matches_loop m' pc 0 = Some (Inr k)"
    by (rule iter_matches_loop_agree [OF l]) (use assms(2) in simp_all)
  ultimately show ?thesis by (simp add: iter_matches_size_def)
qed

lemmas accessor_defs =
  float_op_def float_dest_def op_arg1_def op_arg2_def op_dest_def move_from_def move_to_def
  call_num_args_def calle_num_args_def delete_num_args_def move_nil_dest_def test_nil_op_def test_nil_dest_def
  cons_head_def cons_tail_def cons_dest_def head_cons_def head_dest_def tail_cons_def tail_dest_def
  not_op_def not_dest_def colocated_first_def colocated_second_def val_get_def byte_get_def

lemma advance_progress0:
  assumes "advance m pc = Some (Inr pc')"
    and "fetch m pc \<noteq> NEW_AXIOMS_INSTR"
  shows "pc < pc'"
  using assms
  by (cases "fetch m pc") (auto simp: advance_def size_Inr_iff split: option.splits)

lemma advance_local:
  assumes adv: "advance m pc = Some (Inr pc')"
    and ag: "mem_agree m m' pc pc'"
    and na: "fetch m pc = NEW_AXIOMS_INSTR \<Longrightarrow> 5 \<le> new_axioms_jump m pc"
  shows "advance m' pc = Some (Inr pc')"
proof -
  have lt: "pc < pc'"
  proof (cases "fetch m pc = NEW_AXIOMS_INSTR")
    case True
    with adv na show ?thesis by (auto simp: advance_def)
  qed (rule advance_progress0 [OF adv])
  have at: "m' (pc + i) = m (pc + i)" if "pc + i < pc'" for i
    by (rule mem_agreeD [OF ag]) (use that in auto)
  have "m' pc = m pc" using at [of 0] lt by simp
  then have f: "fetch m' pc = fetch m pc" by (simp add: fetch_def)
  note cs = call_args_agree delete_args_agree iter_matches_size_agree
  show ?thesis
  proof (cases "fetch m pc")
    case CALL_INSTR
    with adv obtain k where k: "instr_call_args_size m (pc + 4) (call_num_args m pc) = Inr k" "pc' = pc + 4 + k"
      by (auto simp: advance_def size_Inr_iff)
    have "instr_call_args_size m' (pc + 4) (call_num_args m pc) = Inr k"
      by (rule call_args_agree [OF k(1)]) (rule mem_agree_sub [OF ag], auto simp: k)
    with CALL_INSTR f k at [of 2] show ?thesis
      by (simp add: advance_def size_1_def call_num_args_def byte_get_def)
  next
    case CALLE_INSTR
    with adv obtain k where k: "instr_call_args_size m (pc + 4) (calle_num_args m pc) = Inr k" "pc' = pc + 4 + k"
      by (auto simp: advance_def size_Inr_iff)
    have "instr_call_args_size m' (pc + 4) (calle_num_args m pc) = Inr k"
      by (rule call_args_agree [OF k(1)]) (rule mem_agree_sub [OF ag], auto simp: k)
    with CALLE_INSTR f k at [of 2] show ?thesis
      by (simp add: advance_def size_1_def calle_num_args_def byte_get_def)
  next
    case DELETE_INSTR
    with adv obtain k where k: "instr_delete_args_size m (pc + 3) (delete_num_args m pc) = Inr k" "pc' = pc + 3 + k"
      by (auto simp: advance_def size_Inr_iff)
    have "instr_delete_args_size m' (pc + 3) (delete_num_args m pc) = Inr k"
      by (rule delete_args_agree [OF k(1)]) (rule mem_agree_sub [OF ag], auto simp: k)
    with DELETE_INSTR f k at [of 2] show ?thesis
      by (simp add: advance_def size_1_def delete_num_args_def byte_get_def)
  next
    case ITER_INSTR
    with adv obtain k where k: "iter_matches_size m (pc + 8) = Some (Inr k)" "pc' = pc + 8 + k"
      by (auto simp: advance_def size_Inr_iff split: option.splits)
    have "iter_matches_size m' (pc + 8) = Some (Inr k)"
      by (rule iter_matches_size_agree [OF k(1)]) (rule mem_agree_sub [OF ag], auto simp: k)
    with ITER_INSTR f k show ?thesis by (simp add: advance_def size_1_def)
  next
    case SELECT_INSTR
    with adv have "pc' = pc + 9 + select_hash_size m pc * 4" by (auto simp: advance_def)
    moreover have "read_bytes m' (pc + 1 + 4) 4 = read_bytes m (pc + 1 + 4) 4"
      by (rule read_bytes_agree [OF ag]) (use calculation in auto)
    ultimately show ?thesis using SELECT_INSTR f
      by (simp add: advance_def select_hash_size_def pcounter_code_size_def)
  next
    case NEW_AXIOMS_INSTR
    with adv have "pc' = pc + new_axioms_jump m pc" by (auto simp: advance_def)
    moreover have "read_bytes m' (pc + 1) 4 = read_bytes m (pc + 1) 4"
      by (rule read_bytes_agree [OF ag]) (use calculation na NEW_AXIOMS_INSTR in auto)
    ultimately show ?thesis using NEW_AXIOMS_INSTR f
      by (simp add: advance_def new_axioms_jump_def jump_get_def pcounter_code_size_def)
  qed (use adv f at [of 1] at [of 2] at [of 3] at [of 4] in
        \<open>auto simp: advance_def size_Inr_iff accessor_defs\<close>)
qed

section \<open>Match lists of ITERATE\<close>

text \<open>
  The byte strings \<open>iter_matches_size\<close> is meant to measure: each entry is a field
  number, a tag and the operand of that tag, and the last tag carries the end mark.
\<close>

fun match_bytes :: "(byte \<times> byte \<times> byte list) list \<Rightarrow> byte list" where
  "match_bytes [] = []"
| "match_bytes [(f, v, p)] = f # (v OR 0x40) # p"
| "match_bytes ((f, v, p) # e # es) = f # v # p @ match_bytes (e # es)"

definition match_entry_ok :: "byte \<times> byte \<times> byte list \<Rightarrow> bool" where
  "match_entry_ok e = (case e of (f, v, p) \<Rightarrow> v AND 0xc0 = 0 \<and> arg_size_anything v = Inr (length p))"

definition mem_holds :: "mem \<Rightarrow> pcounter \<Rightarrow> byte list \<Rightarrow> bool" where
  "mem_holds m pc bs \<longleftrightarrow> (\<forall>i < length bs. m (pc + i) = bs ! i)"

lemma mem_holds_Nil [simp]: "mem_holds m pc []"
  by (simp add: mem_holds_def)

lemma mem_holds_Cons [simp]: "mem_holds m pc (b # bs) \<longleftrightarrow> m pc = b \<and> mem_holds m (Suc pc) bs"
  by (auto simp: mem_holds_def nth_Cons split: nat.splits)

lemma mem_holds_append [simp]:
  "mem_holds m pc (as @ bs) \<longleftrightarrow> mem_holds m pc as \<and> mem_holds m (pc + length as) bs"
  by (induction as arbitrary: pc) auto

lemma tag_bits:
  assumes "(v :: byte) AND 0xc0 = 0"
  shows "v AND 0x3f = v" and "(v OR 0x40) AND 0x3f = v" and "(v OR 0x40) AND 0xc0 = 0x40"
proof -
  have *: "v = v AND 0x3f"
  proof -
    have "(0xc0 OR 0x3f :: byte) = - 1" by simp
    then have "v = v AND (0xc0 OR 0x3f)" by (simp only: and.right_neutral)
    also have "\<dots> = (v AND 0xc0) OR (v AND 0x3f)" by (simp only: bit.conj_disj_distrib)
    finally show ?thesis using assms by simp
  qed
  then show "v AND 0x3f = v" by simp
  show "(v OR 0x40) AND 0x3f = v" using * by (simp add: bit.conj_disj_distrib2)
  show "(v OR 0x40) AND 0xc0 = 0x40" using assms by (simp add: bit.conj_disj_distrib2)
qed

lemma iter_matches_loop_bytes:
  assumes "es \<noteq> []" and "\<forall>e \<in> set es. match_entry_ok e" and "mem_holds m pc (match_bytes es)"
  shows "iter_matches_loop m pc acc = Some (Inr (acc + length (match_bytes es)))"
  using assms
proof (induction es arbitrary: pc acc rule: match_bytes.induct)
  case 1
  then show ?case by simp
next
  case (2 f v p)
  then have v: "v AND 0xc0 = 0" and k: "arg_size_anything v = Inr (length p)" and "m (pc + 1) = v OR 0x40"
    by (auto simp: match_entry_ok_def)
  then have "iter_match_val m pc = v" and "iter_match_end m pc"
    by (simp_all add: iter_match_val_def iter_match_end_def val_get_def tag_bits)
  with k show ?case by (simp add: iter_matches_loop.simps)
next
  case (3 f v p e es)
  then have v: "v AND 0xc0 = 0" and k: "arg_size_anything v = Inr (length p)" and "m (pc + 1) = v"
    and rest: "mem_holds m (pc + (2 + length p)) (match_bytes (e # es))"
    by (auto simp: match_entry_ok_def)
  then have "iter_match_val m pc = v" and "\<not> iter_match_end m pc"
    by (simp_all add: iter_match_val_def iter_match_end_def val_get_def tag_bits)
  moreover have "iter_matches_loop m (pc + (2 + length p)) (acc + (2 + length p)) =
      Some (Inr (acc + (2 + length p) + length (match_bytes (e # es))))"
    using 3 rest by (intro "3.IH") auto
  ultimately show ?case using k by (simp add: iter_matches_loop.simps [of m pc acc] add.assoc)
qed

lemma match_bytes_not_none:
  "es \<noteq> [] \<Longrightarrow> \<forall>e \<in> set es. match_entry_ok e \<Longrightarrow> mem_holds m pc (match_bytes es) \<Longrightarrow>
   \<not> iter_match_none m pc"
  by (induction es rule: match_bytes.induct)
    (auto simp: match_entry_ok_def iter_match_none_def tag_bits)

section \<open>What the decoder promises\<close>

text \<open>Decoding makes progress and is local. Where \<open>advance\<close> finds the next instruction (a NEW\_AXIOMS
  has to jump over its own header), it is further on, and any program memory that holds the same bytes
  from the instruction up to it decodes the same way: no operand is read beyond the size counted for it.\<close>

theorem advance_decodes_locally:
  assumes "advance m pc = Some (Inr pc')"
    and "fetch m pc = NEW_AXIOMS_INSTR \<Longrightarrow> 5 \<le> new_axioms_jump m pc"
  shows "pc < pc' \<and> (\<forall>m'. mem_agree m m' pc pc' \<longrightarrow> advance m' pc = Some (Inr pc'))"
proof (intro conjI allI impI)
  show "pc < pc'"
  proof (cases "fetch m pc = NEW_AXIOMS_INSTR")
    case True
    with assms show ?thesis by (auto simp: advance_def)
  qed (use advance_progress0 [OF assms(1)] in simp)
  fix m' assume "mem_agree m m' pc pc'"
  then show "advance m' pc = Some (Inr pc')" by (rule advance_local [OF assms(1) _ assms(2)])
qed

text \<open>The move of the integer 7 into register 3, alone in memory and followed by a RETURN.\<close>

definition move_bytes :: "byte list" where
  "move_bytes = [0x30, 0x01, 0x23, 7, 0, 0, 0]"

lemma mem_of_numeral [simp]:
  "mem_of bs (numeral k) = (if numeral k < length bs then bs ! numeral k else 0)"
  by (simp add: mem_of_def)

lemma length_move_bytes: "length move_bytes = 7"
  by (simp add: move_bytes_def)

lemma advance_move_bytes: "advance (mem_of move_bytes) 0 = Some (Inr 7)"
  by code_simp

lemma fetch_move_bytes: "fetch (mem_of move_bytes) 0 = MOVE_INSTR"
  by code_simp

theorem advance_decodes_locally_witness:
  "(0::nat) < 7 \<and> advance (mem_of (move_bytes @ [0x11])) 0 = Some (Inr 7)"
proof -
  have "mem_agree (mem_of move_bytes) (mem_of (move_bytes @ [0x11])) 0 7"
    by (simp add: mem_agree_def mem_of_def nth_append length_move_bytes)
  with advance_decodes_locally [OF advance_move_bytes] fetch_move_bytes show ?thesis by simp
qed

text \<open>the size of a match list is the number of bytes the compiler wrote for it: the loop stops at
  the entry with the end mark, for every list of entries with known tags.\<close>

theorem iter_matches_size_exact:
  assumes "es \<noteq> []" and "\<forall>e \<in> set es. match_entry_ok e" and "mem_holds m pc (match_bytes es)"
  shows "iter_matches_size m pc = Some (Inr (length (match_bytes es)))"
  using iter_matches_loop_bytes [OF assms, of 0] match_bytes_not_none [OF assms]
  by (simp add: iter_matches_size_def)

theorem iter_matches_size_exact_witness:
  "iter_matches_size (mem_of [2, 0x01, 5, 0, 0, 0, 3, 0x60]) 0 = Some (Inr 8)"
  using iter_matches_size_exact [of "[(2, 0x01, [5, 0, 0, 0]), (3, 0x20, [])]" "mem_of [2, 0x01, 5, 0, 0, 0, 3, 0x60]" 0]
  by (simp add: match_entry_ok_def mem_of_def arg_size_anything_def val_is_defs)

text \<open>\<open>rule_set_id\<close> stores through a byte pointer. Reading the identifier back gives its low eight
  bits under the upper three bytes that were there before, so with more than 256 rules a rule does
  not come back; the other bytes of the program are untouched.\<close>

theorem rule_set_id_writes_one_byte:
  "rule_get_id (rule_set_id m pc i) pc =
     (rule_get_id m pc AND NOT 0xff) OR take_bit 8 (of_nat i) \<and>
   (rule_set_id m pc i)(pc + 1 := m (pc + 1)) = m"
proof -
  have up: "[pc + 1..<pc + 1 + 4] = [pc + 1, pc + 2, pc + 3, pc + 4]" by (simp add: upt_rec)
  have ff: "(0xff :: uint_val) = mask 8" by (simp add: mask_eq_exp_minus_1)
  have "rule_get_id (rule_set_id m pc i) pc =
      (rule_get_id m pc AND NOT 0xff) OR take_bit 8 (of_nat i)"
    unfolding rule_get_id_def rule_set_id_def pcounter_uint_def read_bytes_def up ff
    by (rule bit_eqI) (auto simp: bit_simps dest: bit_imp_le_length)
  then show ?thesis by (auto simp: rule_set_id_def)
qed

text \<open>\<open>predicate_set\<close> writes a whole byte and \<open>predicate_get\<close> reads seven bits of it, so a predicate
  comes back exactly when its identifier is below 128; identifiers from 128 on are taken for another
  predicate.\<close>

theorem predicate_get_set:
  "predicate_get (predicate_set m pc off p) pc off = p \<longleftrightarrow> p < 128"
proof -
  have "p AND 0x7f = take_bit 7 p" by (simp add: take_bit_eq_mask mask_numeral)
  moreover have "take_bit 7 p = p \<longleftrightarrow> p < 2 ^ 7"
    by (simp add: word_unat_eq_iff unsigned_take_bit_eq take_bit_nat_eq_self_iff word_less_nat_alt)
  ultimately show ?thesis by (simp add: predicate_get_def predicate_set_def)
qed

end
