(* ===== verification/Predicates.thy ===== *)
theory Predicates
  imports Vm_Types
begin

text \<open>
  Predicates, \<open>vm/predicate.hpp\<close> and \<open>vm/predicate.cpp\<close>: the record the loader
  builds from a predicate descriptor of the byte-code file, the field layout computed
  from it, and the comparison of predicates. A string is the list of its bytes.
\<close>

section \<open>The record\<close>

record aggregate_info =
  agg_field :: field_num
  agg_type :: aggregate_type
  agg_safeness :: aggregate_safeness
  agg_local_level :: "strat_level option"         \<comment> \<open>\<open>None\<close>: never set\<close>
  agg_remote_pred_id :: "predicate_id option"
  agg_remote_pred :: "predicate_id option"        \<comment> \<open>the predicate pointed to, by its identifier\<close>

record predicate =
  pred_desc :: "byte list"                        \<comment> \<open>\<open>predicate_descriptor_buffer\<close>\<close>
  pred_name_ptr :: nat                            \<comment> \<open>\<open>name_ptr\<close>, an offset in it\<close>
  pred_id :: predicate_id
  pred_name :: "byte list"
  pred_level :: strat_level
  pred_types :: "field_type list"
  pred_fields_size :: "nat list"
  pred_fields_offset :: "nat list"
  pred_tuple_size :: nat
  pred_agg :: "aggregate_info option"
  pred_is_route :: bool
  pred_is_linear :: bool
  pred_is_reverse_route :: bool
  pred_is_action :: bool
  pred_is_reused :: bool

definition num_fields :: "predicate \<Rightarrow> nat" where
  "num_fields p = length (pred_types p)"

definition is_aggregate :: "predicate \<Rightarrow> bool" where
  "is_aggregate p \<longleftrightarrow> pred_agg p \<noteq> None"

definition is_unsafe_agg :: "predicate \<Rightarrow> bool" where
  "is_unsafe_agg p \<longleftrightarrow>
     (case pred_agg p of None \<Rightarrow> False
      | Some a \<Rightarrow> agg_safeness a = AGG_UNSAFE \<or> agg_safeness a = AGG_IMMEDIATE)"

definition is_route_pred :: "predicate \<Rightarrow> bool" where
  "is_route_pred p \<longleftrightarrow> pred_is_route p \<or> pred_is_reverse_route p"

definition is_persistent_pred :: "predicate \<Rightarrow> bool" where
  "is_persistent_pred p \<longleftrightarrow> \<not> pred_is_linear p"

section \<open>Reading a descriptor\<close>

definition PRED_ARGS_MAX :: nat where "PRED_ARGS_MAX = 32"
definition PRED_NAME_SIZE_MAX :: nat where "PRED_NAME_SIZE_MAX = 32"

text \<open>A NUL-terminated string; a buffer without the NUL is read past its end.\<close>

fun c_string :: "byte list \<Rightarrow> byte list res" where
  "c_string [] = Inl Bad_Access"
| "c_string (b # bs) = (if b = 0 then Inr [] else res_bind (c_string bs) (\<lambda>s. Inr (b # s)))"

text \<open>The bytes of \<open>.import\<close>.\<close>

definition import_suffix :: "byte list" where
  "import_suffix = [0x2e, 0x69, 0x6d, 0x70, 0x6f, 0x72, 0x74]"

text \<open>
  \<open>memcpy(p, s.c_str(), 32)\<close> copies the string, its NUL and, for a short string,
  whatever lies behind it in memory: \<open>junk\<close>.
\<close>

definition copy_name :: "byte list \<Rightarrow> byte list \<Rightarrow> byte list" where
  "copy_name junk s = take PRED_NAME_SIZE_MAX (s @ [0] @ junk @ replicate PRED_NAME_SIZE_MAX 0)"

definition store_name :: "byte list \<Rightarrow> nat \<Rightarrow> byte list \<Rightarrow> byte list \<Rightarrow> byte list" where
  "store_name desc off junk s = take off desc @ copy_name junk s @ drop (off + PRED_NAME_SIZE_MAX) desc"

text \<open>
  The aggregate part: field and operator from one byte, the safeness from the tag
  behind the name. \<open>PRED_AGG_UNSAFE\<close> is zero, so its test never holds; the initial
  value is what an unsafe aggregate keeps.
\<close>

definition agg_info_of_bytes :: "byte \<Rightarrow> byte \<Rightarrow> byte \<Rightarrow> aggregate_info" where
  "agg_info_of_bytes agg tag arg =
     (let a = \<lparr>agg_field = unat (agg AND 0xf), agg_type = aggregate_type_of_byte (drop_bit 4 (0xf0 AND agg)),
               agg_safeness = AGG_UNSAFE, agg_local_level = None, agg_remote_pred_id = None,
               agg_remote_pred = None\<rparr>
      in if tag = 0x01 then a\<lparr>agg_safeness := AGG_LOCALLY_GENERATED, agg_local_level := Some (unat arg)\<rparr>
         else if tag = 0x02 then a\<lparr>agg_safeness := AGG_NEIGHBORHOOD, agg_remote_pred_id := Some arg\<rparr>
         else if tag = 0x04 then a\<lparr>agg_safeness := AGG_NEIGHBORHOOD_AND_SELF, agg_remote_pred_id := Some arg\<rparr>
         else if tag = 0x08 then a\<lparr>agg_safeness := AGG_IMMEDIATE\<rparr>
         else if tag AND 0x00 \<noteq> 0 then a\<lparr>agg_safeness := AGG_UNSAFE\<rparr>
         else a)"

definition make_predicate_from_buf ::
  "byte list \<Rightarrow> byte list \<Rightarrow> predicate_id \<Rightarrow> (predicate \<times> 32 word) res" where
  "make_predicate_from_buf junk buf i =
     (if length buf < 104 \<or> length buf < 8 + unat (buf ! 7) then Inl Bad_Access
      else
        (let code_size = le_word (take 4 buf);
             props = buf ! 4;
             nfields = unat (buf ! 7);
             ts = map field_type_of_byte (take nfields (drop 8 buf));
             agg = (if props AND 0x01 \<noteq> 0 then Some (agg_info_of_bytes (buf ! 5) (buf ! 72) (buf ! 73)) else None)
         in res_bind (c_string (drop 40 buf)) (\<lambda>name.
            Inr (\<lparr>pred_desc = store_name (take 104 buf) 40 junk (name @ import_suffix),
                  pred_name_ptr = 40, pred_id = i, pred_name = name, pred_level = unat (buf ! 6),
                  pred_types = ts, pred_fields_size = [], pred_fields_offset = [], pred_tuple_size = 0,
                  pred_agg = agg, pred_is_route = (props AND 0x02 \<noteq> 0), pred_is_linear = (props AND 0x08 \<noteq> 0),
                  pred_is_reverse_route = (props AND 0x04 \<noteq> 0), pred_is_action = (props AND 0x10 \<noteq> 0),
                  pred_is_reused = (props AND 0x20 \<noteq> 0)\<rparr>, code_size))))"

definition rename :: "byte list \<Rightarrow> byte list \<Rightarrow> predicate \<Rightarrow> predicate" where
  "rename junk file p =
     p\<lparr>pred_desc := store_name (pred_desc p) (pred_name_ptr p) junk (pred_name p @ [0x2e] @ file)\<rparr>"

section \<open>The field layout\<close>

fun field_info_loop :: "field_type list \<Rightarrow> nat \<Rightarrow> (nat list \<times> nat list \<times> nat) res" where
  "field_info_loop [] offset = Inr ([], [], offset)"
| "field_info_loop (t # ts) offset =
     res_bind (field_type_size t) (\<lambda>size'.
     res_bind (field_info_loop ts (offset + size')) (\<lambda>(ss, os, end').
     Inr (size' # ss, offset # os, end')))"

definition build_field_info :: "predicate \<Rightarrow> predicate res" where
  "build_field_info p =
     res_bind (field_info_loop (pred_types p) 0) (\<lambda>(ss, os, total).
     Inr (p\<lparr>pred_fields_size := ss, pred_fields_offset := os, pred_tuple_size := total\<rparr>))"

text \<open>
  \<open>prog->get_predicate\<close> asserts that the identifier is below the number of
  predicates; \<open>remote_pred_id\<close> is set for both neighbourhood kinds.
\<close>

definition build_aggregate_info :: "nat \<Rightarrow> aggregate_info \<Rightarrow> aggregate_info res" where
  "build_aggregate_info num_preds a =
     (if agg_safeness a = AGG_NEIGHBORHOOD \<or> agg_safeness a = AGG_NEIGHBORHOOD_AND_SELF
      then (case agg_remote_pred_id a of
              None \<Rightarrow> Inl Bad_Access
            | Some r \<Rightarrow> if unat r < num_preds then Inr (a\<lparr>agg_remote_pred := Some r\<rparr>) else Inl Assert_Failed)
      else Inr a)"

definition cache_info :: "nat \<Rightarrow> predicate \<Rightarrow> predicate res" where
  "cache_info num_preds p =
     res_bind (build_field_info p) (\<lambda>p1.
     case pred_agg p1 of
       None \<Rightarrow> Inr p1
     | Some a \<Rightarrow> res_bind (build_aggregate_info num_preds a) (\<lambda>a'. Inr (p1\<lparr>pred_agg := Some a'\<rparr>)))"

text \<open>\<open>operator==\<close>.\<close>

definition predicate_eq :: "predicate \<Rightarrow> predicate \<Rightarrow> bool" where
  "predicate_eq p q \<longleftrightarrow>
     pred_id p = pred_id q \<and> num_fields p = num_fields q \<and> pred_name p = pred_name q \<and>
     list_all (\<lambda>i. pred_types p ! i = pred_types q ! i) [0..<num_fields p]"

lemma predicate_eq_iff: "predicate_eq p q \<longleftrightarrow> pred_id p = pred_id q \<and> pred_name p = pred_name q \<and> pred_types p = pred_types q"
  using list_eq_iff_nth_eq [of "pred_types p" "pred_types q"]
  by (auto simp: predicate_eq_def num_fields_def list_all_iff)

section \<open>The layout is packed\<close>

lemma field_info_loop_spec:
  "field_info_loop ts off = Inr (ss, os, tot) \<Longrightarrow>
   length ss = length ts \<and> length os = length ts \<and>
   (\<forall>i < length ts. field_type_size (ts ! i) = Inr (ss ! i) \<and> os ! i = off + sum_list (take i ss)) \<and>
   tot = off + sum_list ss"
proof (induction ts arbitrary: off ss os)
  case (Cons t ts)
  then obtain z ss' os' where z: "field_type_size t = Inr z" "field_info_loop ts (off + z) = Inr (ss', os', tot)"
      "ss = z # ss'" "os = off # os'"
    by (auto simp: res_bind_Inr_iff)
  from Cons.IH [OF z(2)] z show ?case by (auto simp: less_Suc_eq_0_disj)
qed simp

lemma field_info_loop_ok: "is_ok (field_info_loop ts off) \<longleftrightarrow> (\<forall>t \<in> set ts. \<forall>b. t \<noteq> FIELD_OTHER b)"
proof (induction ts arbitrary: off)
  case (Cons t ts)
  show ?case
  proof (cases "field_type_size t")
    case (Inl e)
    then show ?thesis using field_type_size_ok [of t] by auto
  next
    case (Inr z)
    with Cons.IH [of "off + z"] show ?thesis
      using field_type_size_ok [of t] by (cases "field_info_loop ts (off + z)") auto
  qed
qed simp

text \<open>C35: the field layout: computing it fails exactly for a field of unknown type; otherwise the fields
  lie one behind the other in declaration order, from offset 0 to the tuple size, without gap or overlap.\<close>

theorem build_field_info_layout:
  "case build_field_info p of
     Inl e \<Rightarrow> e = Type_Error \<and> (\<exists>b. FIELD_OTHER b \<in> set (pred_types p))
   | Inr q \<Rightarrow> (\<forall>i < num_fields p.
         field_type_size (pred_types p ! i) = Inr (pred_fields_size q ! i) \<and>
         pred_fields_offset q ! i = sum_list (take i (pred_fields_size q))) \<and>
       length (pred_fields_size q) = num_fields p \<and> pred_tuple_size q = sum_list (pred_fields_size q)"
proof (cases "field_info_loop (pred_types p) 0")
  case (Inl e)
  have "e = Type_Error" if "field_info_loop ts off = Inl e" for ts off
    using that
  proof (induction ts arbitrary: off)
    case (Cons t ts)
    then show ?case by (cases t) (auto simp: res_bind_Inl_iff)
  qed simp
  with Inl field_info_loop_ok [of "pred_types p" 0] show ?thesis by (auto simp: build_field_info_def)
next
  case (Inr r)
  then show ?thesis
    by (cases r) (auto simp: build_field_info_def num_fields_def dest!: field_info_loop_spec)
qed

abbreviation sample_pred :: predicate where
  "sample_pred \<equiv> \<lparr>pred_desc = [], pred_name_ptr = 40, pred_id = 2, pred_name = [0x65], pred_level = 0,
     pred_types = [FIELD_NODE, FIELD_INT, FIELD_LIST_INT], pred_fields_size = [], pred_fields_offset = [],
     pred_tuple_size = 0, pred_agg = None, pred_is_route = False, pred_is_linear = True,
     pred_is_reverse_route = False, pred_is_action = False, pred_is_reused = False\<rparr>"

theorem build_field_info_layout_witness:
  "\<exists>q. build_field_info sample_pred = Inr q \<and> pred_tuple_size q = sum_list (pred_fields_size q) \<and>
     pred_fields_offset q ! 2 = sum_list (take 2 (pred_fields_size q))"
  using build_field_info_layout [of sample_pred]
  by (cases "build_field_info sample_pred") (auto simp: num_fields_def)

section \<open>Descriptors\<close>

text \<open>
  The descriptor the compiler writes: four bytes of code size, the properties, the
  aggregate byte, the stratification level, the number of fields, and three areas of
  32 bytes for the field types, the name and the aggregate information.
\<close>

definition pad_area :: "byte list \<Rightarrow> byte list" where
  "pad_area bs = bs @ replicate (32 - length bs) 0"

definition descriptor_bytes ::
  "32 word \<Rightarrow> byte \<Rightarrow> byte \<Rightarrow> byte \<Rightarrow> field_type list \<Rightarrow> byte list \<Rightarrow> byte \<Rightarrow> byte \<Rightarrow> byte list" where
  "descriptor_bytes code_size props agg level ts name tag arg =
     le_bytes 4 code_size @ [props, agg, level, of_nat (length ts)] @
     pad_area (map byte_of_field_type ts) @ pad_area name @ pad_area [tag, arg]"

definition known_type :: "field_type \<Rightarrow> bool" where
  "known_type t \<longleftrightarrow> (\<forall>b. t \<noteq> FIELD_OTHER b)"

lemma field_type_of_byte_of: "known_type t \<Longrightarrow> field_type_of_byte (byte_of_field_type t) = t"
  by (cases t) (auto simp: known_type_def field_type_of_byte_def)

lemma length_pad_area [simp]: "length bs \<le> 32 \<Longrightarrow> length (pad_area bs) = 32"
  by (simp add: pad_area_def)

lemma pad_area_nth [simp]: "pad_area (x # xs) ! 0 = x" "pad_area (x # y # xs) ! Suc 0 = y"
  by (simp_all add: pad_area_def)

lemma c_string_NUL: "0 \<notin> set name \<Longrightarrow> c_string (name @ 0 # rest) = Inr name"
  by (induction name) auto

lemma c_string_pad_area:
  assumes "0 \<notin> set name" and "length name < 32"
  shows "c_string (pad_area name @ rest) = Inr name"
proof -
  have "32 - length name = Suc (31 - length name)" using assms(2) by simp
  then have "pad_area name @ rest = name @ 0 # (replicate (31 - length name) 0 @ rest)"
    by (simp add: pad_area_def)
  then show ?thesis using c_string_NUL [OF assms(1)] by simp
qed

lemma descriptor_parts:
  assumes "length ts \<le> 32" and "length name < 32"
  shows "length (descriptor_bytes cs props agg level ts name tag arg) = 104"
    and "take 4 (descriptor_bytes cs props agg level ts name tag arg) = le_bytes 4 cs"
    and "descriptor_bytes cs props agg level ts name tag arg ! 4 = props"
    and "descriptor_bytes cs props agg level ts name tag arg ! 5 = agg"
    and "descriptor_bytes cs props agg level ts name tag arg ! 6 = level"
    and "descriptor_bytes cs props agg level ts name tag arg ! 7 = of_nat (length ts)"
    and "drop 8 (descriptor_bytes cs props agg level ts name tag arg) =
           pad_area (map byte_of_field_type ts) @ pad_area name @ pad_area [tag, arg]"
    and "drop 40 (descriptor_bytes cs props agg level ts name tag arg) = pad_area name @ pad_area [tag, arg]"
    and "descriptor_bytes cs props agg level ts name tag arg ! 72 = tag"
    and "descriptor_bytes cs props agg level ts name tag arg ! 73 = arg"
  using assms by (simp_all add: descriptor_bytes_def nth_append)

lemma make_predicate_from_descriptor:
  assumes "length ts \<le> 32" and "list_all known_type ts" and "length name < 32" and "0 \<notin> set name"
  shows "\<exists>p. make_predicate_from_buf junk (descriptor_bytes cs props agg level ts name tag arg) i = Inr (p, cs) \<and>
    pred_id p = i \<and> pred_name p = name \<and> pred_types p = ts \<and> pred_level p = unat level \<and>
    pred_is_linear p = (props AND 0x08 \<noteq> 0) \<and> pred_is_action p = (props AND 0x10 \<noteq> 0) \<and>
    pred_is_reused p = (props AND 0x20 \<noteq> 0) \<and> pred_is_route p = (props AND 0x02 \<noteq> 0) \<and>
    pred_is_reverse_route p = (props AND 0x04 \<noteq> 0) \<and>
    pred_agg p = (if props AND 0x01 \<noteq> 0 then Some (agg_info_of_bytes agg tag arg) else None)"
proof -
  note parts = descriptor_parts [OF assms(1,3), of cs props agg level tag arg]
  have n: "unat (of_nat (length ts) :: byte) = length ts"
    using assms(1) by (simp add: unat_of_nat take_bit_nat_eq_self)
  have ts: "map field_type_of_byte (map byte_of_field_type ts) = ts"
    using assms(2) by (induction ts) (auto simp: field_type_of_byte_of)
  have t: "take (length ts) (pad_area (map byte_of_field_type ts) @ rest) = map byte_of_field_type ts" for rest
    by (simp add: pad_area_def)
  show ?thesis
    unfolding make_predicate_from_buf_def Let_def parts n t ts c_string_pad_area [OF assms(4,3)]
    using assms(1) by (simp add: le_word_le_bytes_full del: map_map)
qed

text \<open>
  What the compiler describes, and its bytes: one bit for each property, the kind of
  aggregate in the upper and its field in the lower half of a byte, and a tag with one
  argument for the place the aggregate is computed from.
\<close>

datatype agg_scope =
    Unsafe_Scope
  | Local_Scope byte              \<comment> \<open>locally generated, up to a level\<close>
  | Remote_Scope byte             \<comment> \<open>from the neighborhood, with the predicate there\<close>
  | Remote_And_Self_Scope byte
  | Immediate_Scope

type_synonym agg_description = "aggregate_type \<times> field_num \<times> agg_scope"

fun aggregate_code :: "aggregate_type \<Rightarrow> nat" where
  "aggregate_code AGG_FIRST = 1"
| "aggregate_code AGG_MAX_INT = 2"
| "aggregate_code AGG_MIN_INT = 3"
| "aggregate_code AGG_SUM_INT = 4"
| "aggregate_code AGG_MAX_FLOAT = 5"
| "aggregate_code AGG_MIN_FLOAT = 6"
| "aggregate_code AGG_SUM_FLOAT = 7"
| "aggregate_code AGG_SUM_LIST_FLOAT = 11"
| "aggregate_code (AGG_OTHER b) = unat b"

fun scope_bytes :: "agg_scope \<Rightarrow> byte \<times> byte" where
  "scope_bytes Unsafe_Scope = (0, 0)"
| "scope_bytes (Local_Scope l) = (1, l)"
| "scope_bytes (Remote_Scope p) = (2, p)"
| "scope_bytes (Remote_And_Self_Scope p) = (4, p)"
| "scope_bytes Immediate_Scope = (8, 0)"

definition agg_byte :: "aggregate_type \<Rightarrow> field_num \<Rightarrow> byte" where
  "agg_byte t k = of_nat (16 * aggregate_code t + k)"

definition props_byte :: "bool \<Rightarrow> bool \<Rightarrow> bool \<Rightarrow> bool \<Rightarrow> bool \<Rightarrow> bool \<Rightarrow> byte" where
  "props_byte agg route reverse linear action reused =
     of_bool agg + 2 * of_bool route + 4 * of_bool reverse + 8 * of_bool linear + 16 * of_bool action + 32 * of_bool reused"

fun described_agg :: "agg_description \<Rightarrow> aggregate_info" where
  "described_agg (t, k, Unsafe_Scope) =
     \<lparr>agg_field = k, agg_type = t, agg_safeness = AGG_UNSAFE, agg_local_level = None, agg_remote_pred_id = None, agg_remote_pred = None\<rparr>"
| "described_agg (t, k, Local_Scope l) =
     \<lparr>agg_field = k, agg_type = t, agg_safeness = AGG_LOCALLY_GENERATED, agg_local_level = Some (unat l), agg_remote_pred_id = None,
      agg_remote_pred = None\<rparr>"
| "described_agg (t, k, Remote_Scope p) =
     \<lparr>agg_field = k, agg_type = t, agg_safeness = AGG_NEIGHBORHOOD, agg_local_level = None, agg_remote_pred_id = Some p, agg_remote_pred = None\<rparr>"
| "described_agg (t, k, Remote_And_Self_Scope p) =
     \<lparr>agg_field = k, agg_type = t, agg_safeness = AGG_NEIGHBORHOOD_AND_SELF, agg_local_level = None, agg_remote_pred_id = Some p,
      agg_remote_pred = None\<rparr>"
| "described_agg (t, k, Immediate_Scope) =
     \<lparr>agg_field = k, agg_type = t, agg_safeness = AGG_IMMEDIATE, agg_local_level = None, agg_remote_pred_id = None, agg_remote_pred = None\<rparr>"

definition agg_description_ok :: "agg_description \<Rightarrow> bool" where
  "agg_description_ok d \<longleftrightarrow> (\<forall>b. fst d \<noteq> AGG_OTHER b) \<and> fst (snd d) < 16"

definition described_bytes ::
  "32 word \<Rightarrow> agg_description option \<Rightarrow> byte \<Rightarrow> byte \<Rightarrow> field_type list \<Rightarrow> byte list \<Rightarrow> byte list" where
  "described_bytes cs a props level ts name =
     (case a of
        None \<Rightarrow> descriptor_bytes cs props 0 level ts name 0 0
      | Some (t, k, sc) \<Rightarrow> descriptor_bytes cs props (agg_byte t k) level ts name (fst (scope_bytes sc)) (snd (scope_bytes sc)))"

lemma agg_halves:
  assumes "\<forall>b. t \<noteq> AGG_OTHER b" and "k < 16"
  shows "unat (agg_byte t k AND 0xf) = k" and "aggregate_type_of_byte (drop_bit 4 (0xf0 AND agg_byte t k)) = t"
proof -
  have "\<forall>k \<in> set [0..<16]. \<forall>t \<in> set [AGG_FIRST, AGG_MAX_INT, AGG_MIN_INT, AGG_SUM_INT, AGG_MAX_FLOAT, AGG_MIN_FLOAT, AGG_SUM_FLOAT,
      AGG_SUM_LIST_FLOAT]. unat (agg_byte t k AND 0xf) = k \<and> aggregate_type_of_byte (drop_bit 4 (0xf0 AND agg_byte t k)) = t"
    by code_simp
  moreover have "k \<in> set [0..<16]" using assms(2) by simp
  moreover have "t \<in> set [AGG_FIRST, AGG_MAX_INT, AGG_MIN_INT, AGG_SUM_INT, AGG_MAX_FLOAT, AGG_MIN_FLOAT, AGG_SUM_FLOAT,
      AGG_SUM_LIST_FLOAT]" using assms(1) by (cases t) auto
  ultimately show "unat (agg_byte t k AND 0xf) = k" and "aggregate_type_of_byte (drop_bit 4 (0xf0 AND agg_byte t k)) = t" by blast+
qed

lemma agg_info_described:
  "agg_description_ok (t, k, sc) \<Longrightarrow>
     agg_info_of_bytes (agg_byte t k) (fst (scope_bytes sc)) (snd (scope_bytes sc)) = described_agg (t, k, sc)"
  by (cases sc) (simp_all add: agg_info_of_bytes_def agg_description_ok_def agg_halves(1) agg_halves(2) [simplified])

lemma props_bits:
  "props_byte agg route reverse linear action reused AND 0x01 \<noteq> 0 \<longleftrightarrow> agg"
  "props_byte agg route reverse linear action reused AND 0x02 \<noteq> 0 \<longleftrightarrow> route"
  "props_byte agg route reverse linear action reused AND 0x04 \<noteq> 0 \<longleftrightarrow> reverse"
  "props_byte agg route reverse linear action reused AND 0x08 \<noteq> 0 \<longleftrightarrow> linear"
  "props_byte agg route reverse linear action reused AND 0x10 \<noteq> 0 \<longleftrightarrow> action"
  "props_byte agg route reverse linear action reused AND 0x20 \<noteq> 0 \<longleftrightarrow> reused"
  unfolding props_byte_def
  by (cases agg; cases route; cases reverse; cases linear; cases action; cases reused; simp)+

text \<open>C34: reading back a descriptor: for every predicate with at most 32 fields of known types and a name of
  less than 32 bytes, the loader recovers the name, the types, the level, each of the six properties, the code
  size, and of an aggregate the kind, the field (below 16), and where it is computed: locally with its level, from the
  neighborhood with or without the node itself and with the predicate there, immediately, or anyhow.\<close>

theorem make_predicate_reads_descriptor:
  assumes "length ts \<le> 32" and "list_all known_type ts" and "length name < 32" and "0 \<notin> set name"
    and "\<forall>d. agg = Some d \<longrightarrow> agg_description_ok d"
  shows "\<exists>p. make_predicate_from_buf junk
      (described_bytes cs agg (props_byte (agg \<noteq> None) route reverse linear action reused) level ts name) i = Inr (p, cs) \<and>
    pred_id p = i \<and> pred_name p = name \<and> pred_types p = ts \<and> pred_level p = unat level \<and>
    pred_is_route p = route \<and> pred_is_reverse_route p = reverse \<and> pred_is_linear p = linear \<and>
    pred_is_action p = action \<and> pred_is_reused p = reused \<and> pred_agg p = map_option described_agg agg"
proof (cases agg)
  case None
  from make_predicate_from_descriptor [OF assms(1-4), of junk cs "props_byte False route reverse linear action reused" 0 level 0 0 i]
  show ?thesis unfolding None described_bytes_def props_bits by simp blast
next
  case (Some d)
  obtain t k sc where d: "d = (t, k, sc)" by (cases d) auto
  from make_predicate_from_descriptor [OF assms(1-4), of junk cs "props_byte True route reverse linear action reused" "agg_byte t k" level
      "fst (scope_bytes sc)" "snd (scope_bytes sc)" i]
  moreover have "agg_info_of_bytes (agg_byte t k) (fst (scope_bytes sc)) (snd (scope_bytes sc)) = described_agg (t, k, sc)"
    using assms(5) Some d by (intro agg_info_described) simp
  ultimately show ?thesis unfolding Some d described_bytes_def props_bits by simp blast
qed

theorem make_predicate_reads_descriptor_witness:
  "\<exists>p. make_predicate_from_buf []
      (described_bytes 12 (Some (AGG_MIN_INT, 1, Remote_Scope 3)) (props_byte True True False True False False) 0
        [FIELD_NODE, FIELD_INT] [0x66]) 2 = Inr (p, 12) \<and>
    pred_name p = [0x66] \<and> pred_is_route p \<and> \<not> pred_is_reverse_route p \<and> pred_is_linear p \<and>
    map_option agg_remote_pred_id (pred_agg p) = Some (Some 3)"
  using make_predicate_reads_descriptor [where ts = "[FIELD_NODE, FIELD_INT]" and name = "[0x66]" and junk = "[]"
      and cs = 12 and agg = "Some (AGG_MIN_INT, 1, Remote_Scope 3)" and route = True and reverse = False and linear = True
      and action = False and reused = False and level = 0 and i = 2]
  by (auto simp: known_type_def agg_description_ok_def)

end
