(* ===== verification/Serialization.thy ===== *)
theory Serialization
  imports Meld_Prelude
begin

text \<open>
  \<open>utils/serialization.hpp\<close>, the two copies between a value and a message buffer, and
  the wire format of lists. A buffer is the list of its bytes, so \<open>buf_size\<close> is its
  length; \<open>*pos\<close> is passed and returned. The interface of a value type is the locale
  \<open>byte_codec\<close>: its bytes, how they are read back, and their number.
\<close>

section \<open>Copying bytes\<close>

definition pack_bytes :: "byte list \<Rightarrow> byte list \<Rightarrow> nat \<Rightarrow> (byte list \<times> nat) res" where
  "pack_bytes bs buf pos =
     (if pos + length bs \<le> length buf
      then Inr (take pos buf @ bs @ drop (pos + length bs) buf, pos + length bs)
      else Inl Assert_Failed)"

definition unpack_bytes :: "nat \<Rightarrow> byte list \<Rightarrow> nat \<Rightarrow> (byte list \<times> nat) res" where
  "unpack_bytes n buf pos =
     (if pos + n \<le> length buf then Inr (take n (drop pos buf), pos + n) else Inl Assert_Failed)"

text \<open>A buffer that holds \<open>bs\<close> from \<open>pos\<close> on.\<close>

definition holds_at :: "byte list \<Rightarrow> byte list \<Rightarrow> nat \<Rightarrow> bool" where
  "holds_at bs buf pos \<longleftrightarrow> pos + length bs \<le> length buf \<and> take (length bs) (drop pos buf) = bs"

lemma holds_at_Nil [simp]: "holds_at [] buf pos \<longleftrightarrow> pos \<le> length buf"
  by (simp add: holds_at_def)

lemma holds_at_append: "holds_at (as @ bs) buf pos \<longleftrightarrow> holds_at as buf pos \<and> holds_at bs buf (pos + length as)"
  by (auto simp: holds_at_def take_add add.assoc add.commute)

lemma unpack_bytes_holds: "holds_at bs buf pos \<Longrightarrow> unpack_bytes (length bs) buf pos = Inr (bs, pos + length bs)"
  by (simp add: holds_at_def unpack_bytes_def)

text \<open>What packing \<open>bs\<close> does to the buffer: it is there, and nothing before it changes.\<close>

definition packed :: "byte list \<Rightarrow> byte list \<Rightarrow> nat \<Rightarrow> byte list \<Rightarrow> nat \<Rightarrow> bool" where
  "packed bs buf pos buf' pos' \<longleftrightarrow>
     pos' = pos + length bs \<and> pos' \<le> length buf \<and> buf' = take pos buf @ bs @ drop pos' buf"

lemma pack_bytes_Inr_iff: "pack_bytes bs buf pos = Inr (buf', pos') \<longleftrightarrow> packed bs buf pos buf' pos'"
  by (auto simp: pack_bytes_def packed_def)

lemma packed_length: "packed bs buf pos buf' pos' \<Longrightarrow> length buf' = length buf"
  by (auto simp: packed_def)

lemma packed_holds: "packed bs buf pos buf' pos' \<Longrightarrow> holds_at bs buf' pos"
  by (auto simp: packed_def holds_at_def)

lemma packed_append_iff:
  "packed (as @ bs) buf pos buf' pos' \<longleftrightarrow>
     (\<exists>b1 p1. packed as buf pos b1 p1 \<and> packed bs b1 p1 buf' pos')"
  (is "?l \<longleftrightarrow> ?r")
proof
  assume ?l
  then have "packed as buf pos (take pos buf @ as @ drop (pos + length as) buf) (pos + length as)"
    "packed bs (take pos buf @ as @ drop (pos + length as) buf) (pos + length as) buf' pos'"
    by (auto simp: packed_def ac_simps)
  then show ?r by blast
next
  assume ?r
  then obtain b1 p1 where 1: "p1 = pos + length as" "p1 \<le> length buf" "b1 = take pos buf @ as @ drop p1 buf"
    and 2: "pos' = p1 + length bs" "pos' \<le> length b1" "buf' = take p1 b1 @ bs @ drop pos' b1"
    by (auto simp: packed_def)
  have "take p1 b1 = take pos buf @ as" using 1 by simp
  moreover have "drop pos' b1 = drop pos' buf" using 1 2 by (simp add: ac_simps)
  ultimately show ?l using 1 2 by (simp add: packed_def)
qed

lemma packed_Nil: "pos \<le> length buf \<Longrightarrow> packed [] buf pos buf pos"
  by (simp add: packed_def)

section \<open>Lists on the wire\<close>

fun pack_elems :: "('a \<Rightarrow> byte list) \<Rightarrow> 'a list \<Rightarrow> byte list \<Rightarrow> nat \<Rightarrow> (byte list \<times> nat) res" where
  "pack_elems enc [] buf pos = Inr (buf, pos)"
| "pack_elems enc (x # xs) buf pos =
     res_bind (pack_bytes (enc x) buf pos) (\<lambda>(buf', pos'). pack_elems enc xs buf' pos')"

text \<open>
  \<open>cons::pack\<close>, on the elements: four bytes of the length, an assertion that the
  buffer does not end there, and the elements.
\<close>

definition len_bytes :: "nat \<Rightarrow> byte list" where
  "len_bytes n = le_bytes 4 (of_nat n :: 64 word)"

definition pack_list :: "('a \<Rightarrow> byte list) \<Rightarrow> 'a list \<Rightarrow> byte list \<Rightarrow> nat \<Rightarrow> (byte list \<times> nat) res" where
  "pack_list enc xs buf pos =
     res_bind (pack_bytes (len_bytes (length xs)) buf pos) (\<lambda>(buf1, pos1).
     if pos1 < length buf1 then pack_elems enc xs buf1 pos1 else Inl Assert_Failed)"

fun unpack_elems :: "(byte list \<Rightarrow> 'a) \<Rightarrow> nat \<Rightarrow> nat \<Rightarrow> byte list \<Rightarrow> nat \<Rightarrow> ('a list \<times> nat) res" where
  "unpack_elems dec sz 0 buf pos = Inr ([], pos)"
| "unpack_elems dec sz (Suc len) buf pos =
     res_bind (unpack_bytes sz buf pos) (\<lambda>(bs, pos').
     res_bind (unpack_elems dec sz len buf pos') (\<lambda>(xs, pos''). Inr (dec bs # xs, pos'')))"

definition unpack_list :: "(byte list \<Rightarrow> 'a) \<Rightarrow> nat \<Rightarrow> byte list \<Rightarrow> nat \<Rightarrow> ('a list \<times> nat) res" where
  "unpack_list dec sz buf pos =
     res_bind (unpack_bytes 4 buf pos) (\<lambda>(bs, pos').
     unpack_elems dec sz (unat (le_word bs :: 32 word)) buf pos')"

text \<open>\<open>size_list\<close>.\<close>

definition size_list_of :: "nat \<Rightarrow> nat \<Rightarrow> nat" where
  "size_list_of elem_size len = 4 + elem_size * len"

lemma length_len_bytes [simp]: "length (len_bytes n) = 4"
  by (simp add: len_bytes_def)

lemma le_word_le_bytes_ucast:
  "LENGTH('b) = 8 * n \<Longrightarrow> LENGTH('b) \<le> LENGTH('a) \<Longrightarrow>
   (le_word (le_bytes n (w :: 'a::len word)) :: 'b::len word) = ucast w"
proof -
  have gen: "(le_word (le_bytes n w) :: 'b word) = take_bit (8 * n) (ucast w)" for n and w :: "'a word"
  proof (induction n arbitrary: w)
    case (Suc n)
    show ?case unfolding le_bytes.simps le_word.simps Suc
      by (rule bit_eqI) (auto simp: bit_simps dest: bit_imp_le_length)
  qed simp
  assume "LENGTH('b) = 8 * n" and "LENGTH('b) \<le> LENGTH('a)"
  then show ?thesis by (simp add: gen take_bit_word_eq_self)
qed

lemma le_word_len_bytes: "n < 2 ^ 32 \<Longrightarrow> unat (le_word (len_bytes n) :: 32 word) = n"
  unfolding len_bytes_def
  by (subst le_word_le_bytes_ucast) (simp_all add: unsigned_ucast_eq unat_of_nat take_bit_nat_def)

section \<open>Value types\<close>

locale byte_codec =
  fixes enc :: "'a \<Rightarrow> byte list"
    and dec :: "byte list \<Rightarrow> 'a"
    and sz :: nat
  assumes length_enc [simp]: "length (enc x) = sz"
    and dec_enc [simp]: "dec (enc x) = x"
begin

lemma pack_elems_packed:
  "pos \<le> length buf \<Longrightarrow>
   pack_elems enc xs buf pos = Inr (buf', pos') \<longleftrightarrow> packed (concat (map enc xs)) buf pos buf' pos'"
proof (induction xs arbitrary: buf pos)
  case Nil
  then show ?case by (auto simp: packed_def)
next
  case (Cons x xs)
  have "pack_elems enc xs b p = Inr (buf', pos') \<longleftrightarrow> packed (concat (map enc xs)) b p buf' pos'"
    if "packed (enc x) buf pos b p" for b p
    using that by (intro Cons.IH) (auto simp: packed_def)
  then show ?case
    by (auto simp: res_bind_Inr_iff pack_bytes_Inr_iff packed_append_iff)
qed

lemma length_concat_enc [simp]: "length (concat (map enc xs)) = sz * length xs"
  by (induction xs) auto

lemma unpack_elems_holds:
  "holds_at (concat (map enc xs)) buf pos \<Longrightarrow>
   unpack_elems dec sz (length xs) buf pos = Inr (xs, pos + sz * length xs)"
proof (induction xs arbitrary: pos)
  case (Cons x xs)
  then have h: "holds_at (enc x) buf pos" "holds_at (concat (map enc xs)) buf (pos + sz)"
    by (auto simp: holds_at_append)
  from unpack_bytes_holds [OF h(1)] Cons.IH [OF h(2)] show ?case by simp
qed simp

lemma pack_list_Inr_iff:
  "pack_list enc xs buf pos = Inr (buf', pos') \<longleftrightarrow>
     packed (len_bytes (length xs) @ concat (map enc xs)) buf pos buf' pos' \<and> pos + 4 < length buf"
  (is "?l \<longleftrightarrow> ?r")
proof -
  have "?l \<longleftrightarrow> (\<exists>b p. packed (len_bytes (length xs)) buf pos b p \<and> p < length b \<and>
      packed (concat (map enc xs)) b p buf' pos')"
    by (auto simp: pack_list_def res_bind_Inr_iff pack_bytes_Inr_iff pack_elems_packed split: if_splits)
  also have "\<dots> \<longleftrightarrow> ?r"
    unfolding packed_append_iff by (auto dest: packed_length) (auto simp: packed_def)
  finally show ?thesis .
qed

lemma pack_list_holds:
  "pack_list enc xs buf pos = Inr (buf', pos') \<Longrightarrow>
   holds_at (len_bytes (length xs) @ concat (map enc xs)) buf' pos \<and> pos' = pos + size_list_of sz (length xs)"
  by (auto simp: pack_list_Inr_iff size_list_of_def dest: packed_holds) (auto simp: packed_def)

lemma unpack_list_holds:
  assumes "length xs < 2 ^ 32" and "holds_at (len_bytes (length xs) @ concat (map enc xs)) buf pos"
  shows "unpack_list dec sz buf pos = Inr (xs, pos + size_list_of sz (length xs))"
proof -
  have h: "holds_at (len_bytes (length xs)) buf pos" "holds_at (concat (map enc xs)) buf (pos + 4)"
    using assms(2) by (simp_all add: holds_at_append)
  from unpack_bytes_holds [OF h(1)] unpack_elems_holds [OF h(2)] assms(1) show ?thesis
    by (simp add: unpack_list_def le_word_len_bytes size_list_of_def)
qed

lemma list_roundtrip:
  assumes "length xs < 2 ^ 32" and "pack_list enc xs buf pos = Inr (buf', pos')"
  shows "unpack_list dec sz buf' pos = Inr (xs, pos')"
  using pack_list_holds [OF assms(2)] unpack_list_holds [OF assms(1)] by auto

end

interpretation int_codec: byte_codec "le_bytes 4 :: int_val \<Rightarrow> byte list" le_word 4
  by unfold_locales (simp_all add: le_word_le_bytes_full)

interpretation float_codec: byte_codec "le_bytes 8 :: float_val \<Rightarrow> byte list" le_word 8
  by unfold_locales (simp_all add: le_word_le_bytes_full)

interpretation node_codec: byte_codec "le_bytes 4 :: node_val \<Rightarrow> byte list" le_word 4
  by unfold_locales (simp_all add: le_word_le_bytes_full)

end
