(* ===== verification/Runtime_List.thy ===== *)
theory Runtime_List
  imports Serialization
begin

text \<open>
  The reference-counted cons cells of \<open>runtime/list.hpp\<close>, their life cycle and their
  wire format. The store holds the cells by
  address, \<open>None\<close> where a cell was deleted; address 0 is the null list and a new cell
  takes the next address, so a use after \<open>delete\<close> is a read of \<open>None\<close> and fails with
  \<open>Bad_Access\<close>. Functions that follow tails return in the option monad, \<open>None\<close> for a
  walk that does not end.
\<close>

section \<open>The store\<close>

type_synonym addr = nat

record 'a cell =
  chead :: 'a
  ctail :: addr
  crefs :: nat

type_synonym 'a store = "'a cell option list"

definition cell_at :: "'a store \<Rightarrow> addr \<Rightarrow> 'a cell option" where
  "cell_at s p = (if p = 0 \<or> length s < p then None else s ! (p - 1))"

definition set_cell :: "addr \<Rightarrow> 'a cell option \<Rightarrow> 'a store \<Rightarrow> 'a store" where
  "set_cell p c s = s[p - 1 := c]"

definition is_null :: "addr \<Rightarrow> bool" where
  "is_null ls \<longleftrightarrow> ls = 0"

section \<open>Reference counts\<close>

definition inc_refs_obj :: "addr \<Rightarrow> 'a store \<Rightarrow> 'a store res" where
  "inc_refs_obj p s =
     (case cell_at s p of
        None \<Rightarrow> Inl Bad_Access
      | Some c \<Rightarrow> Inr (set_cell p (Some (c\<lparr>crefs := crefs c + 1\<rparr>)) s))"

text \<open>\<open>dec_refs\<close> and \<open>destroy\<close>: the cell is deleted after its tail was released.\<close>

fun refs_of :: "'a cell option \<Rightarrow> nat" where
  "refs_of None = 0"
| "refs_of (Some c) = crefs c"

lemma sum_list_update_less:
  fixes xs :: "nat list"
  assumes "i < length xs" and "y < xs ! i"
  shows "sum_list (xs[i := y]) < sum_list xs"
  using assms by (induction xs arbitrary: i) (auto split: nat.splits)

lemma set_cell_refs_less:
  assumes "cell_at s p = Some c" and "0 < crefs c"
  shows "sum_list (map refs_of (set_cell p (Some (c\<lparr>crefs := crefs c - 1\<rparr>)) s)) < sum_list (map refs_of s)"
proof -
  have "p - 1 < length s" "s ! (p - 1) = Some c"
    using assms(1) by (auto simp: cell_at_def split: if_splits)
  with assms(2) show ?thesis
    using sum_list_update_less [of "p - 1" "map refs_of s" "crefs c - 1"]
    by (simp add: set_cell_def map_update)
qed

function dec_refs_obj :: "addr \<Rightarrow> 'a store \<Rightarrow> 'a store res" where
  "dec_refs_obj p s =
     (case cell_at s p of
        None \<Rightarrow> Inl Bad_Access
      | Some c \<Rightarrow>
          if 0 < crefs c then
            (let s1 = set_cell p (Some (c\<lparr>crefs := crefs c - 1\<rparr>)) s
             in if crefs c - 1 = 0 then
                  res_bind (if \<not> is_null (ctail c) then dec_refs_obj (ctail c) s1 else Inr s1)
                    (\<lambda>s2. Inr (set_cell p None s2))
                else Inr s1)
          else Inl Assert_Failed)"
  by pat_completeness auto
termination
  by (relation "measure (\<lambda>(p, s). sum_list (map refs_of s))") (auto dest: set_cell_refs_less)

declare dec_refs_obj.simps [simp del]

definition inc_refs :: "addr \<Rightarrow> 'a store \<Rightarrow> 'a store res" where
  "inc_refs ls s = (if \<not> is_null ls then inc_refs_obj ls s else Inr s)"

definition dec_refs :: "addr \<Rightarrow> 'a store \<Rightarrow> 'a store res" where
  "dec_refs ls s = (if \<not> is_null ls then dec_refs_obj ls s else Inr s)"

section \<open>Building lists\<close>

definition set_tail :: "addr \<Rightarrow> addr \<Rightarrow> 'a store \<Rightarrow> 'a store res" where
  "set_tail this t s =
     (case cell_at s this of
        None \<Rightarrow> Inl Bad_Access
      | Some c \<Rightarrow> inc_refs t (set_cell this (Some (c\<lparr>ctail := t\<rparr>)) s))"

text \<open>The constructor, \<open>new cons(tail, head)\<close>.\<close>

definition cons_new :: "addr \<Rightarrow> 'a \<Rightarrow> 'a store \<Rightarrow> (addr \<times> 'a store) res" where
  "cons_new t h s =
     (let s1 = s @ [Some \<lparr>chead = h, ctail = 0, crefs = 0\<rparr>]; p = length s + 1
      in res_bind (set_tail p t s1) (\<lambda>s2. Inr (p, s2)))"

partial_function (option) copy_loop :: "addr \<Rightarrow> addr \<Rightarrow> 'a store \<Rightarrow> 'a store res option" where
  "copy_loop cur ptr s =
     (if is_null ptr then Some (Inr s)
      else (case cell_at s ptr of
              None \<Rightarrow> Some (Inl Bad_Access)
            | Some c \<Rightarrow>
                (case res_bind (cons_new 0 (chead c) s) (\<lambda>(n, s1).
                      res_bind (set_tail cur n s1) (\<lambda>s2. Inr (n, s2))) of
                   Inl e \<Rightarrow> Some (Inl e)
                 | Inr (n, s2) \<Rightarrow>
                     (case cell_at s2 ptr of
                        None \<Rightarrow> Some (Inl Bad_Access)
                      | Some c2 \<Rightarrow> copy_loop n (ctail c2) s2))))"

definition cons_copy :: "addr \<Rightarrow> 'a store \<Rightarrow> (addr \<times> 'a store) res option" where
  "cons_copy ptr s =
     (if is_null ptr then Some (Inr (0, s))
      else (case cell_at s ptr of
              None \<Rightarrow> Some (Inl Bad_Access)
            | Some c \<Rightarrow>
                (case cons_new 0 (chead c) s of
                   Inl e \<Rightarrow> Some (Inl e)
                 | Inr (n, s1) \<Rightarrow>
                     map_option (map_sum id (\<lambda>s2. (n, s2))) (copy_loop n (ctail c) s1))))"

text \<open>The stacks are lists with the top first, the vectors lists in index order.\<close>

fun from_stack_to_list :: "'a list \<Rightarrow> addr \<Rightarrow> 'a store \<Rightarrow> (addr \<times> 'a store) res" where
  "from_stack_to_list [] ptr s = Inr (ptr, s)"
| "from_stack_to_list (x # stk) ptr s = res_bind (cons_new ptr x s) (\<lambda>(ptr', s'). from_stack_to_list stk ptr' s')"

fun push_all :: "'a list \<Rightarrow> 'a list \<Rightarrow> 'a list" where
  "push_all [] stk2 = stk2"
| "push_all (x # stk) stk2 = push_all stk (x # stk2)"

definition from_stack_to_reverse_list :: "'a list \<Rightarrow> 'a store \<Rightarrow> (addr \<times> 'a store) res" where
  "from_stack_to_reverse_list stk s = from_stack_to_list (push_all stk []) 0 s"

fun from_vector_to_reverse_list :: "'a list \<Rightarrow> addr \<Rightarrow> 'a store \<Rightarrow> (addr \<times> 'a store) res" where
  "from_vector_to_reverse_list [] ptr s = Inr (ptr, s)"
| "from_vector_to_reverse_list (x # vec) ptr s =
     res_bind (cons_new ptr x s) (\<lambda>(ptr', s'). from_vector_to_reverse_list vec ptr' s')"

section \<open>Reading lists\<close>

partial_function (option) cons_length :: "'a store \<Rightarrow> addr \<Rightarrow> nat res option" where
  "cons_length s ls =
     (if is_null ls then Some (Inr 0)
      else (case cell_at s ls of
              None \<Rightarrow> Some (Inl Bad_Access)
            | Some c \<Rightarrow> Option.bind (cons_length s (ctail c)) (\<lambda>r. Some (map_sum id Suc r))))"

partial_function (option) cons_equal :: "('a \<Rightarrow> 'a \<Rightarrow> bool) \<Rightarrow> 'a store \<Rightarrow> addr \<Rightarrow> addr \<Rightarrow> bool res option" where
  "cons_equal eq s l1 l2 =
     (if is_null l1 \<and> \<not> is_null l2 then Some (Inr False)
      else if \<not> is_null l1 \<and> is_null l2 then Some (Inr False)
      else if is_null l1 \<and> is_null l2 then Some (Inr True)
      else (case (cell_at s l1, cell_at s l2) of
              (Some c1, Some c2) \<Rightarrow>
                (if \<not> eq (chead c1) (chead c2) then Some (Inr False)
                 else cons_equal eq s (ctail c1) (ctail c2))
            | _ \<Rightarrow> Some (Inl Bad_Access)))"

fun cons_get :: "'a store \<Rightarrow> addr \<Rightarrow> nat \<Rightarrow> 'a \<Rightarrow> 'a res" where
  "cons_get s ls pos d =
     (if is_null ls then Inr d
      else (case cell_at s ls of
              None \<Rightarrow> Inl Bad_Access
            | Some c \<Rightarrow> (case pos of 0 \<Rightarrow> Inr (chead c) | Suc n \<Rightarrow> cons_get s (ctail c) n d)))"

declare cons_get.simps [simp del]

partial_function (option) stl_list :: "'a store \<Rightarrow> addr \<Rightarrow> 'a list res option" where
  "stl_list s ls =
     (if is_null ls then Some (Inr [])
      else (case cell_at s ls of
              None \<Rightarrow> Some (Inl Bad_Access)
            | Some c \<Rightarrow> Option.bind (stl_list s (ctail c)) (\<lambda>r. Some (map_sum id (\<lambda>xs. chead c # xs) r))))"

section \<open>Packing\<close>

text \<open>The loop of \<open>pack\<close> over \<open>len\<close> cells; it stops early at a null tail.\<close>

fun cons_pack_loop ::
  "('a \<Rightarrow> byte list) \<Rightarrow> 'a store \<Rightarrow> nat \<Rightarrow> addr \<Rightarrow> byte list \<Rightarrow> nat \<Rightarrow> (byte list \<times> nat) res" where
  "cons_pack_loop enc s 0 p buf pos = Inr (buf, pos)"
| "cons_pack_loop enc s (Suc len) p buf pos =
     (if is_null p then Inr (buf, pos)
      else (case cell_at s p of
              None \<Rightarrow> Inl Bad_Access
            | Some c \<Rightarrow>
                res_bind (pack_bytes (enc (chead c)) buf pos) (\<lambda>(buf', pos').
                cons_pack_loop enc s len (ctail c) buf' pos')))"

definition cons_pack ::
  "('a \<Rightarrow> byte list) \<Rightarrow> 'a store \<Rightarrow> addr \<Rightarrow> byte list \<Rightarrow> nat \<Rightarrow> (byte list \<times> nat) res option" where
  "cons_pack enc s ptr buf pos =
     Option.bind (cons_length s ptr) (\<lambda>r. Some (
       res_bind r (\<lambda>len.
       res_bind (pack_bytes (len_bytes len) buf pos) (\<lambda>(buf1, pos1).
       if pos1 < length buf1 then cons_pack_loop enc s len ptr buf1 pos1 else Inl Assert_Failed))))"

definition cons_size_list :: "'a store \<Rightarrow> addr \<Rightarrow> nat \<Rightarrow> nat res option" where
  "cons_size_list s ptr elem_size =
     Option.bind (cons_length s ptr) (\<lambda>r. Some (map_sum id (size_list_of elem_size) r))"

text \<open>The loop of \<open>unpack\<close> with its variables \<open>init\<close> and \<open>prev\<close>.\<close>

fun cons_unpack_loop ::
  "(byte list \<Rightarrow> 'a) \<Rightarrow> nat \<Rightarrow> nat \<Rightarrow> byte list \<Rightarrow> nat \<Rightarrow> addr \<Rightarrow> addr \<Rightarrow> 'a store \<Rightarrow> (addr \<times> nat \<times> 'a store) res" where
  "cons_unpack_loop dec sz 0 buf pos init prev s = Inr (init, pos, s)"
| "cons_unpack_loop dec sz (Suc len) buf pos init prev s =
     res_bind (unpack_bytes sz buf pos) (\<lambda>(bs, pos').
     res_bind (cons_new 0 (dec bs) s) (\<lambda>(n, s1).
     if is_null prev then cons_unpack_loop dec sz len buf pos' n n s1
     else res_bind (set_tail prev n s1) (\<lambda>s2. cons_unpack_loop dec sz len buf pos' init n s2)))"

definition cons_unpack ::
  "(byte list \<Rightarrow> 'a) \<Rightarrow> nat \<Rightarrow> byte list \<Rightarrow> nat \<Rightarrow> 'a store \<Rightarrow> (addr \<times> nat \<times> 'a store) res" where
  "cons_unpack dec sz buf pos s =
     res_bind (unpack_bytes 4 buf pos) (\<lambda>(bs, pos').
     cons_unpack_loop dec sz (unat (le_word bs :: 32 word)) buf pos' 0 0 s)"

section \<open>What a list in the store stands for\<close>

fun is_list :: "'a store \<Rightarrow> addr \<Rightarrow> 'a list \<Rightarrow> bool" where
  "is_list s p [] \<longleftrightarrow> p = 0"
| "is_list s p (x # xs) \<longleftrightarrow>
     (case cell_at s p of None \<Rightarrow> False | Some c \<Rightarrow> chead c = x \<and> is_list s (ctail c) xs)"

lemma cell_at_0 [simp]: "cell_at s 0 = None"
  by (simp add: cell_at_def)

lemma is_list_0 [simp]: "is_list s 0 xs \<longleftrightarrow> xs = []"
  by (cases xs) auto

lemma is_list_Cons:
  "is_list s p (x # xs) \<longleftrightarrow> p \<noteq> 0 \<and> (\<exists>c. cell_at s p = Some c \<and> chead c = x \<and> is_list s (ctail c) xs)"
  by (cases "p = 0") (auto split: option.splits)

declare is_list.simps(2) [simp del] is_list_Cons [simp] is_null_def [simp]

lemma cell_at_bounds: "cell_at s p = Some c \<Longrightarrow> 0 < p \<and> p \<le> length s"
  by (auto simp: cell_at_def split: if_splits)

lemma length_set_cell [simp]: "length (set_cell p c s) = length s"
  by (simp add: set_cell_def)

lemma cell_at_set_cell:
  "0 < p \<Longrightarrow> p \<le> length s \<Longrightarrow> cell_at (set_cell p c s) q = (if q = p then c else cell_at s q)"
  by (cases "q = 0") (auto simp: cell_at_def set_cell_def nth_list_update)

lemma cell_at_append:
  "cell_at (s @ t) p = (if p \<le> length s then cell_at s p else cell_at t (p - length s))"
  by (auto simp: cell_at_def nth_append)

lemma is_list_append: "is_list s p xs \<Longrightarrow> is_list (s @ t) p xs"
  by (induction xs arbitrary: p)
    (auto simp: cell_at_append dest: cell_at_bounds)

lemma is_list_unique: "is_list s p xs \<Longrightarrow> is_list s p ys \<Longrightarrow> xs = ys"
proof (induction xs arbitrary: p ys)
  case Nil
  then show ?case by simp
next
  case (Cons x xs)
  then show ?case by (cases ys) auto
qed

lemma cons_length_is_list: "is_list s p xs \<Longrightarrow> cons_length s p = Some (Inr (length xs))"
  by (induction xs arbitrary: p; subst cons_length.simps) auto

lemma stl_list_is_list: "is_list s p xs \<Longrightarrow> stl_list s p = Some (Inr xs)"
  by (induction xs arbitrary: p; subst stl_list.simps) auto

lemma cons_get_is_list:
  "is_list s p xs \<Longrightarrow> cons_get s p n d = Inr (if n < length xs then xs ! n else d)"
  by (induction xs arbitrary: p n; subst cons_get.simps) (auto split: nat.splits)

text \<open>\<open>equal\<close> on two lists compares the elements in order and the lengths; it returns on every
  pair of well-formed lists.\<close>

theorem cons_equal_compares_elements:
  assumes "is_list s p xs" and "is_list s q ys"
  shows "cons_equal eq s p q = Some (Inr (list_all2 eq xs ys))"
  using assms
proof (induction xs arbitrary: p q ys)
  case Nil
  then show ?case by (cases ys; subst cons_equal.simps) auto
next
  case (Cons x xs)
  then show ?case by (cases ys; subst cons_equal.simps) auto
qed

theorem cons_equal_compares_elements_witness:
  "cons_equal (=) [Some \<lparr>chead = 5, ctail = 0, crefs = 1\<rparr>, Some \<lparr>chead = (5::nat), ctail = 0, crefs = 1\<rparr>] 1 2
    = Some (Inr True)"
  using cons_equal_compares_elements [of "[Some \<lparr>chead = 5, ctail = 0, crefs = 1\<rparr>, Some \<lparr>chead = (5::nat), ctail = 0, crefs = 1\<rparr>]"
      1 "[5]" 2 "[5]" "(=)"]
  by (simp add: cell_at_def)

section \<open>Counting references\<close>

text \<open>
  The cells, other than those in \<open>D\<close> (the ones on their way out), whose tail is \<open>p\<close>;
  \<open>counted D R s\<close>: every count is the number of such cells and of the references
  held from outside, the multiset \<open>R\<close>, and nothing refers to a deleted cell.
\<close>

definition referrers :: "addr set \<Rightarrow> 'a store \<Rightarrow> addr \<Rightarrow> addr set" where
  "referrers D s p = {q. q \<notin> D \<and> (\<exists>c. cell_at s q = Some c \<and> ctail c = p)}"

definition counted :: "addr set \<Rightarrow> addr multiset \<Rightarrow> 'a store \<Rightarrow> bool" where
  "counted D R s \<longleftrightarrow>
     (\<forall>p. p \<noteq> 0 \<longrightarrow>
        (case cell_at s p of
           None \<Rightarrow> referrers D s p = {} \<and> p \<notin># R
         | Some c \<Rightarrow> crefs c = card (referrers D s p) + count R p))"

text \<open>Every list ends, and no cell outside \<open>D\<close> is left with a count of zero.\<close>

definition all_lists :: "'a store \<Rightarrow> bool" where
  "all_lists s \<longleftrightarrow> (\<forall>p c. cell_at s p = Some c \<longrightarrow> (\<exists>xs. is_list s p xs))"

definition no_garbage :: "addr set \<Rightarrow> 'a store \<Rightarrow> bool" where
  "no_garbage D s \<longleftrightarrow> (\<forall>p c. cell_at s p = Some c \<longrightarrow> p \<notin> D \<longrightarrow> 0 < crefs c)"

lemma finite_referrers [simp]: "finite (referrers D s p)"
  by (rule finite_subset [of _ "{..length s}"]) (auto simp: referrers_def dest: cell_at_bounds)

lemma counted_null: "counted D (add_mset 0 R) s \<longleftrightarrow> counted D R s"
proof -
  have "p \<in># add_mset 0 R \<longleftrightarrow> p \<in># R" "count (add_mset 0 R) p = count R p" if "p \<noteq> 0" for p :: nat
    using that by auto
  then show ?thesis unfolding counted_def by (intro all_cong1 imp_cong refl option.case_cong) auto
qed

lemma counted_cell: "counted D R s \<Longrightarrow> cell_at s p = Some c \<Longrightarrow> crefs c = card (referrers D s p) + count R p"
  using cell_at_bounds [of s p c] by (auto simp: counted_def dest!: spec [of _ p])

lemma counted_live: "counted D R s \<Longrightarrow> p \<noteq> 0 \<Longrightarrow> p \<in># R \<or> referrers D s p \<noteq> {} \<Longrightarrow> \<exists>c. cell_at s p = Some c"
  by (cases "cell_at s p") (auto simp: counted_def dest!: spec [of _ p])

text \<open>A store that differs from another in its counts and in deleted cells only.\<close>

definition shrunk :: "'a store \<Rightarrow> 'a store \<Rightarrow> bool" where
  "shrunk s s' \<longleftrightarrow> length s' = length s \<and>
     (\<forall>p c'. cell_at s' p = Some c' \<longrightarrow> (\<exists>c. cell_at s p = Some c \<and> chead c' = chead c \<and> ctail c' = ctail c))"

lemma shrunk_refl [simp]: "shrunk s s"
  by (simp add: shrunk_def)

lemma shrunk_trans: "shrunk s s' \<Longrightarrow> shrunk s' s'' \<Longrightarrow> shrunk s s''"
  by (fastforce simp: shrunk_def)

lemma shrunk_set_refs: "cell_at s p = Some c \<Longrightarrow> shrunk s (set_cell p (Some (c\<lparr>crefs := n\<rparr>)) s)"
  using cell_at_bounds [of s p c] by (auto simp: shrunk_def cell_at_set_cell split: if_splits)

lemma shrunk_delete: "0 < p \<Longrightarrow> p \<le> length s \<Longrightarrow> shrunk s (set_cell p None s)"
  by (auto simp: shrunk_def cell_at_set_cell split: if_splits)

lemma shrunkD:
  "shrunk s s' \<Longrightarrow> cell_at s' p = Some c' \<Longrightarrow> cell_at s p = Some c \<Longrightarrow> chead c' = chead c \<and> ctail c' = ctail c"
  by (fastforce simp: shrunk_def)

lemma counted_is_list:
  assumes s: "shrunk s s'" and c: "counted {} R s'"
  shows "is_list s p xs \<Longrightarrow> p = 0 \<or> (\<exists>c. cell_at s' p = Some c) \<Longrightarrow> is_list s' p xs"
proof (induction xs arbitrary: p)
  case Nil
  then show ?case by simp
next
  case (Cons x xs)
  then obtain a where a: "cell_at s p = Some a" "chead a = x" "is_list s (ctail a) xs"
    by auto
  then obtain b where b: "cell_at s' p = Some b" using Cons.prems by auto
  then have ab: "chead b = chead a" "ctail b = ctail a" using shrunkD [OF s b a(1)] by auto
  have "p \<in> referrers {} s' (ctail a)" using b ab by (auto simp: referrers_def)
  then have "ctail a = 0 \<or> (\<exists>c. cell_at s' (ctail a) = Some c)" using counted_live [OF c] by auto
  with Cons.IH [OF a(3)] a b ab cell_at_bounds [OF b] show ?case by simp
qed

lemma referrers_set_refs:
  "cell_at s p = Some c \<Longrightarrow> referrers D (set_cell p (Some (c\<lparr>crefs := n\<rparr>)) s) q = referrers D s q"
  using cell_at_bounds [of s p c] by (auto simp: referrers_def cell_at_set_cell)

lemma referrers_delete_dying:
  "p \<in> D \<Longrightarrow> 0 < p \<Longrightarrow> p \<le> length s \<Longrightarrow> referrers D (set_cell p None s) q = referrers D s q"
  by (auto simp: referrers_def cell_at_set_cell)

lemma referrers_insert: "referrers (insert p D) s q = referrers D s q - {p}"
  by (auto simp: referrers_def)

text \<open>One reference less to \<open>p\<close>: the count goes down with it.\<close>

lemma counted_drop_ref:
  assumes c: "counted D (add_mset p R) s" and p: "cell_at s p = Some c"
  shows "0 < crefs c" and "counted D R (set_cell p (Some (c\<lparr>crefs := crefs c - 1\<rparr>)) s)"
proof -
  have n: "crefs c = card (referrers D s p) + Suc (count R p)" using counted_cell [OF c p] by simp
  then show "0 < crefs c" by simp
  show "counted D R (set_cell p (Some (c\<lparr>crefs := crefs c - 1\<rparr>)) s)"
    unfolding counted_def
  proof (intro allI impI)
    fix q :: nat assume q: "q \<noteq> 0"
    show "case cell_at (set_cell p (Some (c\<lparr>crefs := crefs c - 1\<rparr>)) s) q of
        None \<Rightarrow> referrers D (set_cell p (Some (c\<lparr>crefs := crefs c - 1\<rparr>)) s) q = {} \<and> q \<notin># R
      | Some c' \<Rightarrow> crefs c' = card (referrers D (set_cell p (Some (c\<lparr>crefs := crefs c - 1\<rparr>)) s) q) + count R q"
      using c q p n cell_at_bounds [OF p]
      by (auto simp: counted_def referrers_set_refs cell_at_set_cell dest!: spec [of _ q] split: option.splits)
  qed
qed

text \<open>A cell whose count is zero starts to die: its tail is now referred to from outside.\<close>

lemma counted_dying:
  assumes c: "counted D R s" and p: "cell_at s p = Some c" and nd: "p \<notin> D"
  shows "counted (insert p D) (if ctail c = 0 then R else add_mset (ctail c) R) s"
  unfolding counted_def
proof (intro allI impI)
  fix q :: nat assume q: "q \<noteq> 0"
  have in_iff: "p \<in> referrers D s q \<longleftrightarrow> q = ctail c" using p nd by (auto simp: referrers_def)
  then have "card (referrers D s q) = card (referrers D s q - {p}) + (if q = ctail c then 1 else 0)"
    using card.remove [of "referrers D s q" p] by auto
  moreover have "referrers D s q = {} \<Longrightarrow> q \<noteq> ctail c" using in_iff by auto
  ultimately show "case cell_at s q of
      None \<Rightarrow> referrers (insert p D) s q = {} \<and> q \<notin># (if ctail c = 0 then R else add_mset (ctail c) R)
    | Some c' \<Rightarrow> crefs c' = card (referrers (insert p D) s q) + count (if ctail c = 0 then R else add_mset (ctail c) R) q"
    using c q by (auto simp: counted_def referrers_insert dest!: spec [of _ q] split: option.splits)
qed

text \<open>A dying cell that nothing refers to can be deleted.\<close>

lemma counted_delete:
  assumes c: "counted (insert p D) R s" and p: "0 < p" "p \<le> length s"
    and none: "referrers (insert p D) s p = {}" "p \<notin># R"
  shows "counted D R (set_cell p None s)"
proof -
  have "referrers D (set_cell p None s) q = referrers (insert p D) s q" for q
    using p by (auto simp: referrers_def cell_at_set_cell)
  then show ?thesis
    using c p none unfolding counted_def
    by (intro allI impI) (drule_tac x = pa in spec, auto simp: cell_at_set_cell split: option.splits)
qed

lemma is_list_set_refs:
  "cell_at s p = Some c \<Longrightarrow> is_list s q xs \<Longrightarrow> is_list (set_cell p (Some (c\<lparr>crefs := n\<rparr>)) s) q xs"
  using cell_at_bounds [of s p c] by (induction xs arbitrary: q) (auto simp: cell_at_set_cell)

text \<open>Releasing one reference to a list that ends.\<close>

lemma dec_refs_obj_spec:
  "is_list s p xs \<Longrightarrow> p \<noteq> 0 \<Longrightarrow> counted D (add_mset p R) s \<Longrightarrow> no_garbage D s \<Longrightarrow>
   (\<forall>q \<in> D. \<forall>c. cell_at s q = Some c \<longrightarrow> crefs c = 0) \<Longrightarrow>
   \<exists>s'. dec_refs_obj p s = Inr s' \<and> counted D R s' \<and> no_garbage D s' \<and> shrunk s s' \<and>
     (\<forall>q \<in> D. \<forall>c. cell_at s' q = Some c \<longrightarrow> crefs c = 0)"
proof (induction xs arbitrary: p s D R)
  case Nil
  then show ?case by simp
next
  case (Cons x xs)
  then obtain c where c: "cell_at s p = Some c" "is_list s (ctail c) xs" by auto
  note b = cell_at_bounds [OF c(1)]
  note drop = counted_drop_ref [OF Cons.prems(3) c(1)]
  define s1 where "s1 = set_cell p (Some (c\<lparr>crefs := crefs c - 1\<rparr>)) s"
  have pD: "p \<notin> D" using Cons.prems(5) c(1) drop(1) by auto
  have sh: "shrunk s s1" unfolding s1_def using c(1) by (rule shrunk_set_refs)
  have cd1: "counted D R s1" using drop(2) by (simp only: s1_def)
  have at1: "cell_at s1 q = (if q = p then Some (c\<lparr>crefs := crefs c - 1\<rparr>) else cell_at s q)" for q
    using b by (simp add: s1_def cell_at_set_cell)
  have dec: "dec_refs_obj p s =
      (if crefs c - 1 = 0 then
         res_bind (if ctail c \<noteq> 0 then dec_refs_obj (ctail c) s1 else Inr s1) (\<lambda>s2. Inr (set_cell p None s2))
       else Inr s1)"
    using c(1) drop(1) by (subst dec_refs_obj.simps) (simp add: Let_def s1_def)
  show ?case
  proof (cases "crefs c - 1 = 0")
    case False
    then have "no_garbage D s1" using Cons.prems(4) unfolding no_garbage_def at1 by auto
    moreover have "\<forall>q \<in> D. \<forall>c. cell_at s1 q = Some c \<longrightarrow> crefs c = 0"
      using Cons.prems(5) pD unfolding at1 by auto
    moreover have "dec_refs_obj p s = Inr s1" using False unfolding dec by (rule if_not_P)
    ultimately show ?thesis using cd1 sh by blast
  next
    case True
    let ?R = "if ctail c = 0 then R else add_mset (ctail c) R"
    have cd: "counted (insert p D) ?R s1"
      using counted_dying [OF cd1 _ pD, of "c\<lparr>crefs := crefs c - 1\<rparr>"]
      by (cases "ctail c = 0") (simp_all add: at1)
    have ng: "no_garbage (insert p D) s1" using Cons.prems(4) unfolding no_garbage_def at1 by auto
    have zero: "\<forall>q \<in> insert p D. \<forall>c. cell_at s1 q = Some c \<longrightarrow> crefs c = 0"
      using Cons.prems(5) True unfolding at1 by auto
    have "\<exists>s2. (if ctail c \<noteq> 0 then dec_refs_obj (ctail c) s1 else Inr s1) = Inr s2 \<and>
        counted (insert p D) R s2 \<and> no_garbage (insert p D) s2 \<and> shrunk s1 s2 \<and>
        (\<forall>q \<in> insert p D. \<forall>c. cell_at s2 q = Some c \<longrightarrow> crefs c = 0)"
    proof (cases "ctail c = 0")
      case True
      then show ?thesis using cd ng zero by simp
    next
      case nonnull: False
      have "is_list s1 (ctail c) xs" unfolding s1_def by (rule is_list_set_refs [OF c])
      from Cons.IH [OF this nonnull, of "insert p D" R] cd ng zero nonnull show ?thesis by simp
    qed
    then obtain s2 where s2: "(if ctail c \<noteq> 0 then dec_refs_obj (ctail c) s1 else Inr s1) = Inr s2"
        "counted (insert p D) R s2" "no_garbage (insert p D) s2" "shrunk s1 s2"
        "\<forall>q \<in> insert p D. \<forall>c. cell_at s2 q = Some c \<longrightarrow> crefs c = 0"
      by blast
    have bp: "0 < p" "p \<le> length s2" using b s2(4) by (auto simp: shrunk_def s1_def)
    have "referrers (insert p D) s2 p = {} \<and> p \<notin># R"
    proof (cases "cell_at s2 p")
      case None
      then show ?thesis using s2(2) bp by (auto simp: counted_def dest!: spec [of _ p])
    next
      case (Some a)
      with s2(5) counted_cell [OF s2(2) Some] show ?thesis by (auto simp: not_in_iff)
    qed
    then have "counted D R (set_cell p None s2)" using counted_delete [OF s2(2) bp] by simp
    moreover have "no_garbage D (set_cell p None s2)" "shrunk s (set_cell p None s2)"
      using s2(3) bp shrunk_trans [OF sh shrunk_trans [OF s2(4) shrunk_delete [OF bp]]]
      by (auto simp: no_garbage_def cell_at_set_cell split: if_splits)
    moreover have "\<forall>q \<in> D. \<forall>c. cell_at (set_cell p None s2) q = Some c \<longrightarrow> crefs c = 0"
      using s2(5) bp by (auto simp: cell_at_set_cell split: if_splits)
    ultimately show ?thesis using dec True s2(1) by simp
  qed
qed

text \<open>The invariant between two operations.\<close>

definition store_ok :: "addr multiset \<Rightarrow> 'a store \<Rightarrow> bool" where
  "store_ok R s \<longleftrightarrow> counted {} R s \<and> no_garbage {} s \<and> all_lists s"

lemma all_lists_shrunk: "all_lists s \<Longrightarrow> shrunk s s' \<Longrightarrow> counted {} R s' \<Longrightarrow> all_lists s'"
proof -
  assume al: "all_lists s" and sh: "shrunk s s'" and c: "counted {} R s'"
  show "all_lists s'"
    unfolding all_lists_def
  proof (intro allI impI)
    fix p c' assume p: "cell_at s' p = Some c'"
    then obtain c where "cell_at s p = Some c" using sh by (auto simp: shrunk_def)
    then obtain xs where "is_list s p xs" using al by (auto simp: all_lists_def)
    then show "\<exists>xs. is_list s' p xs" using counted_is_list [OF sh c] p by blast
  qed
qed

lemma dec_refs_releases_aux:
  assumes ok: "store_ok (add_mset p R) s"
  shows "\<exists>s'. dec_refs p s = Inr s' \<and> store_ok R s' \<and>
    (\<forall>q \<in># R. \<forall>xs. is_list s q xs \<longrightarrow> is_list s' q xs)"
proof (cases "p = 0")
  case True
  with ok have "store_ok R s" by (simp add: store_ok_def counted_null)
  with True show ?thesis by (simp add: dec_refs_def)
next
  case False
  have c: "counted {} (add_mset p R) s" "no_garbage {} s" "all_lists s" using ok by (simp_all add: store_ok_def)
  from c(1) False obtain cl where "cell_at s p = Some cl"
    using counted_live [of "{}" "add_mset p R" s p] by auto
  then obtain xs where "is_list s p xs" using c(3) by (auto simp: all_lists_def)
  from dec_refs_obj_spec [OF this False c(1,2)] obtain s' where s':
    "dec_refs_obj p s = Inr s'" "counted {} R s'" "no_garbage {} s'" "shrunk s s'"
    by auto
  have "is_list s' q ys" if "q \<in># R" "is_list s q ys" for q ys
    using counted_is_list [OF s'(4,2) that(2)] counted_live [OF s'(2)] that(1) by auto
  with s' all_lists_shrunk [OF c(3) s'(4,2)] False show ?thesis by (auto simp: dec_refs_def store_ok_def)
qed

lemma no_references_aux:
  assumes "store_ok {#} s"
  shows "cell_at s p = None"
proof (rule ccontr)
  assume "cell_at s p \<noteq> None"
  then have ne: "{q. \<exists>c. cell_at s q = Some c} \<noteq> {}" by auto
  have fin: "finite {q. \<exists>c. cell_at s q = Some c}"
    by (rule finite_subset [of _ "{..length s}"]) (auto dest: cell_at_bounds)
  define len where "len q = length (THE xs. is_list s q xs)" for q
  have len: "len q = length xs" if "is_list s q xs" for q xs
    using that is_list_unique [OF that] unfolding len_def by (metis the_equality)
  obtain m c where m: "cell_at s m = Some c" and max: "\<And>q d. cell_at s q = Some d \<Longrightarrow> len q \<le> len m"
    using finite_greatest [OF fin ne, of len] by auto
  have "0 < card (referrers {} s m)"
    using assms m counted_cell [of "{}" "{#}" s m c]
    unfolding store_ok_def no_garbage_def by (metis add.right_neutral count_empty empty_iff)
  then obtain q d where q: "cell_at s q = Some d" "ctail d = m"
    by (auto simp: card_gt_0_iff referrers_def)
  obtain xs where xs: "is_list s m xs" using assms m by (auto simp: store_ok_def all_lists_def)
  then have "is_list s q (chead d # xs)" using q cell_at_bounds [OF q(1)] by simp
  from len [OF this] len [OF xs] max [OF q(1)] show False by simp
qed

section \<open>Building keeps the counts\<close>

text \<open>\<open>F\<close> holds the fresh cells that nothing refers to yet.\<close>

definition store_fl :: "addr set \<Rightarrow> addr multiset \<Rightarrow> 'a store \<Rightarrow> bool" where
  "store_fl F R s \<longleftrightarrow> counted {} R s \<and> no_garbage F s \<and> all_lists s"

text \<open>The cells other than those in \<open>X\<close> keep their head and tail.\<close>

definition kept :: "addr set \<Rightarrow> 'a store \<Rightarrow> 'a store \<Rightarrow> bool" where
  "kept X s s' \<longleftrightarrow> length s \<le> length s' \<and>
     (\<forall>q c. q \<notin> X \<longrightarrow> cell_at s q = Some c \<longrightarrow>
        (\<exists>c'. cell_at s' q = Some c' \<and> chead c' = chead c \<and> ctail c' = ctail c))"

lemma kept_refl [simp]: "kept X s s"
  by (simp add: kept_def)

lemma keptD:
  "kept X s s' \<Longrightarrow> q \<notin> X \<Longrightarrow> cell_at s q = Some c \<Longrightarrow>
   \<exists>c'. cell_at s' q = Some c' \<and> chead c' = chead c \<and> ctail c' = ctail c"
  by (simp add: kept_def)

lemma kept_trans: "kept X s s' \<Longrightarrow> kept Y s' s'' \<Longrightarrow> \<forall>q \<in> Y. q \<in> X \<or> length s < q \<Longrightarrow> kept X s s''"
proof -
  assume k: "kept X s s'" "kept Y s' s''" and y: "\<forall>q \<in> Y. q \<in> X \<or> length s < q"
  have "\<exists>c''. cell_at s'' q = Some c'' \<and> chead c'' = chead c \<and> ctail c'' = ctail c"
    if q: "q \<notin> X" "cell_at s q = Some c" for q c
  proof -
    obtain c' where c': "cell_at s' q = Some c'" "chead c' = chead c" "ctail c' = ctail c"
      using k(1) q by (auto simp: kept_def)
    have "q \<notin> Y" using y q cell_at_bounds [OF q(2)] by auto
    then show ?thesis using k(2) c' by (auto simp: kept_def)
  qed
  then show "kept X s s''" using k by (auto simp: kept_def)
qed

lemma kept_is_list: "kept {} s s' \<Longrightarrow> is_list s p xs \<Longrightarrow> is_list s' p xs"
  by (induction xs arbitrary: p) (fastforce simp: kept_def)+

lemma kept_append [simp]: "kept X s (s @ t)"
  by (auto simp: kept_def cell_at_append dest: cell_at_bounds)

lemma counted_new:
  assumes c: "counted {} R s"
  shows "counted {} R (s @ [Some \<lparr>chead = h, ctail = 0, crefs = 0\<rparr>])"
proof -
  let ?s = "s @ [Some \<lparr>chead = h, ctail = 0, crefs = 0\<rparr>]"
  have at: "cell_at ?s q = (if q = length s + 1 then Some \<lparr>chead = h, ctail = 0, crefs = 0\<rparr> else cell_at s q)" for q
    by (auto simp: cell_at_def nth_append)
  have ref: "referrers {} ?s p = referrers {} s p" if "p \<noteq> 0" for p
    using that by (auto simp: referrers_def at dest: cell_at_bounds)
  have "cell_at s (length s + 1) = None" by (simp add: cell_at_def)
  then have new: "referrers {} s (length s + 1) = {}" "length s + 1 \<notin># R"
    using c by (auto simp: counted_def dest!: spec [of _ "length s + 1"])
  show ?thesis
    unfolding counted_def
  proof (intro allI impI)
    fix p :: nat assume p: "p \<noteq> 0"
    show "case cell_at ?s p of None \<Rightarrow> referrers {} ?s p = {} \<and> p \<notin># R
        | Some c' \<Rightarrow> crefs c' = card (referrers {} ?s p) + count R p"
      unfolding ref [OF p] at using c p new
      by (auto simp: counted_def not_in_iff dest!: spec [of _ p] split: option.splits)
  qed
qed

lemma set_tail_eq:
  assumes "cell_at s this = Some c" and "cell_at s t = Some d" and "t \<noteq> this"
  shows "\<exists>s'. set_tail this t s = Inr s' \<and> length s' = length s \<and>
    (\<forall>q. cell_at s' q = (if q = t then Some (d\<lparr>crefs := crefs d + 1\<rparr>)
       else if q = this then Some (c\<lparr>ctail := t\<rparr>) else cell_at s q))"
  using assms cell_at_bounds [OF assms(1)] cell_at_bounds [OF assms(2)]
  by (auto simp: set_tail_def inc_refs_def inc_refs_obj_def cell_at_set_cell)

lemma set_tail_counted:
  assumes c: "counted {} R s" and u: "cell_at s this = Some c" "ctail c = 0"
    and t: "cell_at s t = Some d"
    and at: "\<And>q. cell_at s' q = (if q = t then Some (d\<lparr>crefs := crefs d + 1\<rparr>)
       else if q = this then Some (c\<lparr>ctail := t\<rparr>) else cell_at s q)" and ne: "t \<noteq> this"
  shows "counted {} R s'"
  unfolding counted_def
proof (intro allI impI)
  fix p :: nat assume p: "p \<noteq> 0"
  have t0: "t \<noteq> 0" using cell_at_bounds [OF t] by simp
  have new: "this \<notin> referrers {} s t" using u t0 by (auto simp: referrers_def)
  have ref: "referrers {} s' p = (if p = t then insert this (referrers {} s t) else referrers {} s p)"
    using p u t ne by (auto simp: referrers_def at split: if_splits)
  show "case cell_at s' p of None \<Rightarrow> referrers {} s' p = {} \<and> p \<notin># R
      | Some c' \<Rightarrow> crefs c' = card (referrers {} s' p) + count R p"
    unfolding ref at using c p new counted_cell [OF c t] counted_cell [OF c u(1)]
    by (auto simp: counted_def dest!: spec [of _ p] split: option.splits)
qed

text \<open>A list that ended in \<open>this\<close> now goes on with the list \<open>t\<close>.\<close>

lemma set_tail_lists:
  assumes at: "\<And>q. cell_at s' q = (if q = t then Some (d\<lparr>crefs := crefs d + 1\<rparr>)
       else if q = this then Some (c\<lparr>ctail := t\<rparr>) else cell_at s q)"
    and u: "cell_at s this = Some c" "ctail c = 0" and t: "cell_at s t = Some d" "t \<noteq> this"
    and l: "is_list s' t ys"
  shows "is_list s q zs \<Longrightarrow> \<exists>zs'. is_list s' q zs'"
proof (induction zs arbitrary: q)
  case Nil
  then show ?case by (intro exI [of _ "[]"]) simp
next
  case (Cons z zs)
  then obtain a where a: "q \<noteq> 0" "cell_at s q = Some a" "is_list s (ctail a) zs" by auto
  show ?case
  proof (cases "q = this")
    case True
    with l t a show ?thesis by (intro exI [of _ "chead c # ys"]) (simp add: at)
  next
    case False
    then obtain a' where "cell_at s' q = Some a'" "ctail a' = ctail a"
      using a t by (cases "q = t") (auto simp: at)
    moreover obtain zs' where "is_list s' (ctail a) zs'" using Cons.IH [OF a(3)] by blast
    ultimately show ?thesis using a by (intro exI [of _ "chead a' # zs'"]) simp
  qed
qed

lemma cell_at_new:
  "cell_at (s @ [Some c]) q = (if q = length s + 1 then Some c else cell_at s q)"
  by (auto simp: cell_at_def nth_append)

lemma cell_at_fresh [simp]: "cell_at s (Suc (length s)) = None"
  by (simp add: cell_at_def)

lemma store_fl_new:
  assumes "store_fl F R s"
  shows "store_fl (insert (length s + 1) F) R (s @ [Some \<lparr>chead = h, ctail = 0, crefs = 0\<rparr>])"
proof -
  let ?s = "s @ [Some \<lparr>chead = h, ctail = 0, crefs = 0\<rparr>]"
  have "\<exists>xs. is_list ?s q xs" if q: "cell_at ?s q = Some c" for q c
  proof (cases "q = length s + 1")
    case True
    then show ?thesis by (intro exI [of _ "[h]"]) (simp add: cell_at_new)
  next
    case False
    then obtain xs where "is_list s q xs" using assms q by (auto simp: cell_at_new store_fl_def all_lists_def)
    then show ?thesis using is_list_append by blast
  qed
  with assms show ?thesis
    by (auto simp: store_fl_def counted_new no_garbage_def all_lists_def cell_at_new split: if_splits)
qed

lemma is_list_away:
  assumes k: "kept {u} s s'" and u: "0 < u" "u \<le> length s"
  shows "is_list (set_cell u None s) q zs \<Longrightarrow> is_list s' q zs"
proof (induction zs arbitrary: q)
  case (Cons z zs)
  then obtain a where a: "q \<noteq> u" "cell_at s q = Some a" "chead a = z" "is_list (set_cell u None s) (ctail a) zs"
    using u by (auto simp: cell_at_set_cell split: if_splits)
  have "q \<notin> {u}" using a by simp
  with keptD [OF k this a(2)] Cons.IH [OF a(4)] a cell_at_bounds [OF a(2)] show ?case by auto
qed simp

lemma set_tail_spec:
  assumes ok: "store_fl F R s" and u: "cell_at s u = Some c" "ctail c = 0" and t: "cell_at s t = Some d"
    and ne: "t \<noteq> u" and off: "is_list (set_cell u None s) t ys"
  shows "\<exists>s'. set_tail u t s = Inr s' \<and> store_fl (F - {t}) R s' \<and> is_list s' u (chead c # ys) \<and>
    is_list s' t ys \<and> kept {u} s s' \<and> length s' = length s \<and>
    (\<exists>c'. cell_at s' u = Some c' \<and> chead c' = chead c \<and> ctail c' = t)"
proof -
  obtain s' where s': "set_tail u t s = Inr s'" "length s' = length s"
    and at: "\<And>q. cell_at s' q = (if q = t then Some (d\<lparr>crefs := crefs d + 1\<rparr>)
       else if q = u then Some (c\<lparr>ctail := t\<rparr>) else cell_at s q)"
    using set_tail_eq [OF u(1) t ne] by blast
  have k: "kept {u} s s'" using t s'(2) by (auto simp: kept_def at)
  have bu: "0 < u" "u \<le> length s" using cell_at_bounds [OF u(1)] by auto
  note tl = is_list_away [OF k bu off]
  have "counted {} R s'" using ok set_tail_counted [OF _ u t at ne] by (simp add: store_fl_def)
  moreover have "no_garbage (F - {t}) s'"
    using ok u(1) by (auto simp: store_fl_def no_garbage_def at split: if_splits)
  moreover have "all_lists s'"
    unfolding all_lists_def
  proof (intro allI impI)
    fix q a assume q: "cell_at s' q = Some a"
    then obtain b where "cell_at s q = Some b" using t u(1) by (auto simp: at split: if_splits)
    then obtain zs where "is_list s q zs" using ok by (auto simp: store_fl_def all_lists_def)
    then show "\<exists>xs. is_list s' q xs" by (rule set_tail_lists [OF at u t ne tl])
  qed
  ultimately show ?thesis
    using s' k tl bu ne at by (auto simp: store_fl_def)
qed

lemma is_list_avoid_new:
  "is_list s t ys \<Longrightarrow> is_list (set_cell (length s + 1) None (s @ [Some c])) t ys"
  by (induction ys arbitrary: t) (auto simp: cell_at_set_cell cell_at_new dest: cell_at_bounds)

lemma cons_new_spec:
  assumes ok: "store_fl F R s" and t: "is_list s t ys"
  shows "\<exists>s'. cons_new t h s = Inr (length s + 1, s') \<and> store_fl (insert (length s + 1) (F - {t})) R s' \<and>
    is_list s' (length s + 1) (h # ys) \<and> kept {} s s' \<and> length s' = length s + 1"
proof -
  let ?c = "\<lparr>chead = h, ctail = 0, crefs = 0\<rparr>" and ?n = "length s + 1"
  let ?s1 = "s @ [Some ?c]"
  have ok1: "store_fl (insert ?n F) R ?s1" using ok by (rule store_fl_new)
  show ?thesis
  proof (cases "t = 0")
    case True
    have z: "set_cell ?n (Some ?c) ?s1 = ?s1" by (simp add: set_cell_def)
    from True ok1 ok show ?thesis
      by (intro exI [of _ ?s1])
        (use t in \<open>auto simp: cons_new_def set_tail_def inc_refs_def cell_at_new z [simplified]
           store_fl_def no_garbage_def split: if_splits\<close>)
  next
    case False
    then obtain d where d: "cell_at ?s1 t = Some d" "t \<noteq> ?n"
      using t by (cases ys; cases "t = ?n") (auto simp: cell_at_new)
    have c: "cell_at ?s1 ?n = Some ?c" by (simp add: cell_at_new)
    obtain s' where s': "set_tail ?n t ?s1 = Inr s'" "store_fl (insert ?n F - {t}) R s'"
        "is_list s' ?n (h # ys)" "kept {?n} ?s1 s'" "length s' = length ?s1"
      using set_tail_spec [OF ok1 c _ d is_list_avoid_new [OF t]] by auto
    have "insert ?n F - {t} = insert ?n (F - {t})" using d by auto
    moreover have "kept {} s s'" by (rule kept_trans [OF kept_append s'(4)]) simp
    ultimately show ?thesis using s' by (auto simp: cons_new_def Let_def)
  qed
qed

lemma from_stack_to_list_spec:
  "store_fl {ptr} R s \<Longrightarrow> is_list s ptr ys \<Longrightarrow>
   \<exists>p s'. from_stack_to_list stk ptr s = Inr (p, s') \<and> is_list s' p (rev stk @ ys) \<and>
     store_fl {p} R s' \<and> kept {} s s'"
proof (induction stk arbitrary: ptr s ys)
  case Nil
  then show ?case by simp
next
  case (Cons x stk)
  obtain s1 where s1: "cons_new ptr x s = Inr (length s + 1, s1)" "store_fl {length s + 1} R s1"
      "is_list s1 (length s + 1) (x # ys)" "kept {} s s1"
    using cons_new_spec [OF Cons.prems, of x] by auto
  with Cons.IH [OF s1(2,3)] show ?case by (auto intro: kept_trans)
qed

lemma from_stack_to_list_correct_aux:
  assumes "store_fl {} R s"
  shows "\<exists>p s'. from_stack_to_list stk 0 s = Inr (p, s') \<and> is_list s' p (rev stk) \<and>
    store_fl {p} R s' \<and> (\<forall>q xs. is_list s q xs \<longrightarrow> is_list s' q xs)"
proof -
  have "store_fl {0} R s" using assms by (auto simp: store_fl_def no_garbage_def)
  from from_stack_to_list_spec [OF this, of "[]" stk] kept_is_list show ?thesis by auto
qed

lemma store_fl_Nil [simp]: "store_fl {} {#} []"
  by (auto simp: store_fl_def counted_def no_garbage_def all_lists_def cell_at_def referrers_def)

text \<open>building a list from a stack gives the elements in the order they lie below the top last
  popped first, shares nothing with the lists that were there, and keeps every reference count; the
  only cell without a reference is the head that the caller now owns.\<close>

theorem from_stack_to_list_correct:
  assumes "store_fl {} R s"
  shows "\<exists>p s'. from_stack_to_list stk 0 s = Inr (p, s') \<and> is_list s' p (rev stk) \<and>
    store_fl {p} R s' \<and> (\<forall>q xs. is_list s q xs \<longrightarrow> is_list s' q xs)"
  using assms by (rule from_stack_to_list_correct_aux)

theorem from_stack_to_list_correct_witness:
  "\<exists>p s'. from_stack_to_list [1, 2, 3] 0 ([] :: int store) = Inr (p, s') \<and> is_list s' p [3, 2, 1] \<and>
    store_fl {p} {#} s'"
  using from_stack_to_list_correct [of "{#}" "[] :: int store" "[1, 2, 3]"] by auto

lemma push_all_eq: "push_all stk stk2 = rev stk @ stk2"
  by (induction stk arbitrary: stk2) auto

text \<open>\<open>from_stack_to_reverse_list\<close> keeps the order in which the stack is popped.\<close>

lemma from_stack_to_reverse_list_correct:
  "store_fl {} R s \<Longrightarrow>
   \<exists>p s'. from_stack_to_reverse_list stk s = Inr (p, s') \<and> is_list s' p stk \<and> store_fl {p} R s'"
  using from_stack_to_list_correct_aux [of R s "rev stk"]
  by (auto simp: from_stack_to_reverse_list_def push_all_eq)

lemma from_vector_eq: "from_vector_to_reverse_list vec ptr s = from_stack_to_list vec ptr s"
proof (induction vec arbitrary: ptr s)
  case (Cons x vec)
  then show ?case by (cases "cons_new ptr x s") auto
qed simp

section \<open>Copying\<close>

lemma cons_new_null: "cons_new 0 x s = Inr (length s + 1, s @ [Some \<lparr>chead = x, ctail = 0, crefs = 0\<rparr>])"
  by (simp add: cons_new_def set_tail_def cell_at_new inc_refs_def set_cell_def Let_def)

text \<open>A new cell behind the last one, as the loops of \<open>copy\<close> and \<open>unpack\<close> add it.\<close>

lemma snoc_step:
  assumes ok: "store_fl F R s" and cur: "cell_at s cur = Some c" "ctail c = 0"
  shows "\<exists>s2 c' cn. set_tail cur (length s + 1) (s @ [Some \<lparr>chead = x, ctail = 0, crefs = 0\<rparr>]) = Inr s2 \<and>
    store_fl F R s2 \<and> kept {cur} s s2 \<and>
    (cell_at s2 cur = Some c' \<and> chead c' = chead c \<and> ctail c' = length s + 1) \<and>
    (cell_at s2 (length s + 1) = Some cn \<and> chead cn = x \<and> ctail cn = 0)"
proof -
  let ?n = "length s + 1" and ?new = "\<lparr>chead = x, ctail = 0, crefs = 0\<rparr>"
  let ?s1 = "s @ [Some ?new]"
  note bc = cell_at_bounds [OF cur(1)]
  have off: "is_list (set_cell cur None ?s1) ?n [x]" using bc by (simp add: cell_at_set_cell cell_at_new)
  have ne: "?n \<noteq> cur" and n: "cell_at ?s1 ?n = Some ?new" and cur1: "cell_at ?s1 cur = Some c"
    using bc cur(1) by (auto simp: cell_at_new)
  obtain s2 c' where s2: "set_tail cur ?n ?s1 = Inr s2" "store_fl (insert ?n F - {?n}) R s2" "is_list s2 ?n [x]"
      "kept {cur} ?s1 s2" and c': "cell_at s2 cur = Some c'" "chead c' = chead c" "ctail c' = ?n"
    using set_tail_spec [OF store_fl_new [OF ok] cur1 cur(2) n ne off] by blast
  have "kept {cur} s s2" by (rule kept_trans [OF kept_append s2(4)]) simp
  moreover have "store_fl F R s2" using s2(2) by (auto simp: store_fl_def no_garbage_def)
  moreover obtain cn where "cell_at s2 ?n = Some cn" "chead cn = x" "ctail cn = 0" using s2(3) by auto
  ultimately show ?thesis using s2(1) c' by blast
qed

lemma copy_loop_spec:
  "store_fl F R s \<Longrightarrow> cell_at s cur = Some c \<Longrightarrow> ctail c = 0 \<Longrightarrow> is_list (set_cell cur None s) ptr xs \<Longrightarrow>
   \<exists>s'. copy_loop cur ptr s = Some (Inr s') \<and> store_fl F R s' \<and> is_list s' cur (chead c # xs) \<and> kept {cur} s s'"
proof (induction xs arbitrary: cur ptr s c)
  case Nil
  then show ?case
    using cell_at_bounds [OF Nil.prems(2)] by (intro exI [of _ s]) (subst copy_loop.simps, simp)
next
  case (Cons x xs)
  let ?n = "length s + 1" and ?new = "\<lparr>chead = x, ctail = 0, crefs = 0\<rparr>"
  let ?s1 = "s @ [Some ?new]"
  note bc = cell_at_bounds [OF Cons.prems(2)]
  obtain a where a: "ptr \<noteq> cur" "cell_at s ptr = Some a" "chead a = x" "is_list (set_cell cur None s) (ctail a) xs"
    using Cons.prems(4) bc by (auto simp: cell_at_set_cell split: if_splits)
  have new: "cons_new 0 x s = Inr (?n, ?s1)" by (rule cons_new_null)
  obtain s2 c' cn where s2: "set_tail cur ?n ?s1 = Inr s2" and fl: "store_fl F R s2" and k2: "kept {cur} s s2"
      and c': "cell_at s2 cur = Some c'" "chead c' = chead c" "ctail c' = ?n"
      and cn: "cell_at s2 ?n = Some cn" "chead cn = x" "ctail cn = 0"
    using snoc_step [OF Cons.prems(1-3)] by blast
  have ne: "?n \<noteq> cur" "ptr \<notin> {cur}" using bc a(1) by auto
  from keptD [OF k2 ne(2) a(2)] obtain a2 where a2: "cell_at s2 ptr = Some a2" "ctail a2 = ctail a" by auto
  have "kept {cur} s (set_cell ?n None s2)"
    using k2 cell_at_bounds [OF cn(1)] by (auto simp: kept_def cell_at_set_cell)
  then have off2: "is_list (set_cell ?n None s2) (ctail a2) xs"
    using is_list_away bc a(4) a2(2) by auto
  obtain s' where s': "copy_loop ?n (ctail a2) s2 = Some (Inr s')" "store_fl F R s'" "is_list s' ?n (x # xs)"
      "kept {?n} s2 s'"
    using Cons.IH [OF fl cn(1,3) off2] cn(2) by auto
  have "copy_loop cur ptr s = Some (Inr s')"
    using a cell_at_bounds [OF a(2)] new s2 a2(1) s'(1) by (subst copy_loop.simps) simp
  moreover have "is_list s' cur (chead c # x # xs)"
    using keptD [OF s'(4) _ c'(1)] ne c' s'(3) bc by auto
  moreover have "kept {cur} s s'" by (rule kept_trans [OF k2 s'(4)]) simp
  ultimately show ?case using s'(2) by blast
qed

text \<open>C31: \<open>copy\<close> returns, for every well-formed list, a list of fresh cells with the same elements, and
  leaves the counts and the elements of all other lists as they were.\<close>

theorem cons_copy_correct:
  assumes "store_fl {} R s" and "is_list s p xs"
  shows "\<exists>q s'. cons_copy p s = Some (Inr (q, s')) \<and> is_list s' q xs \<and> (q = 0 \<or> length s < q) \<and>
    store_fl {q} R s' \<and> (\<forall>l ys. is_list s l ys \<longrightarrow> is_list s' l ys)"
proof (cases xs)
  case Nil
  with assms show ?thesis by (auto simp: cons_copy_def store_fl_def no_garbage_def)
next
  case (Cons x ys)
  with assms(2) obtain a where a: "p \<noteq> 0" "cell_at s p = Some a" "chead a = x" "is_list s (ctail a) ys" by auto
  let ?n = "length s + 1" and ?s1 = "s @ [Some \<lparr>chead = x, ctail = 0, crefs = 0\<rparr>]"
  have n: "cell_at ?s1 ?n = Some \<lparr>chead = x, ctail = 0, crefs = 0\<rparr>" by (simp add: cell_at_new)
  obtain s' where s': "copy_loop ?n (ctail a) ?s1 = Some (Inr s')" "store_fl {?n} R s'" "is_list s' ?n (x # ys)"
      "kept {?n} ?s1 s'"
    using copy_loop_spec [OF store_fl_new [OF assms(1), where h = x] n _ is_list_avoid_new [OF a(4)]] by auto
  have "kept {} s s'" by (rule kept_trans [OF kept_append s'(4)]) simp
  with s' a Cons kept_is_list show ?thesis by (auto simp: cons_copy_def cons_new_null)
qed

text \<open>Taking a reference: a fresh cell becomes a held one.\<close>

lemma inc_refs_spec:
  assumes ok: "store_fl F R s" and p: "is_list s p xs"
  shows "\<exists>s'. inc_refs p s = Inr s' \<and> store_fl (F - {p}) (add_mset p R) s' \<and> kept {} s s'"
proof (cases "p = 0")
  case True
  with ok show ?thesis
    by (auto simp: inc_refs_def store_fl_def counted_null no_garbage_def dest: cell_at_bounds)
next
  case False
  then obtain c where c: "cell_at s p = Some c" using p by (cases xs) auto
  let ?s = "set_cell p (Some (c\<lparr>crefs := crefs c + 1\<rparr>)) s"
  have at: "cell_at ?s q = (if q = p then Some (c\<lparr>crefs := crefs c + 1\<rparr>) else cell_at s q)" for q
    using cell_at_bounds [OF c] by (simp add: cell_at_set_cell)
  have "counted {} (add_mset p R) ?s"
    unfolding counted_def referrers_set_refs [OF c]
  proof (intro allI impI)
    fix q :: nat assume "q \<noteq> 0"
    then show "case cell_at ?s q of None \<Rightarrow> referrers {} s q = {} \<and> q \<notin># add_mset p R
        | Some c' \<Rightarrow> crefs c' = card (referrers {} s q) + count (add_mset p R) q"
      unfolding at using ok counted_cell [of "{}" R s p c] c
      by (auto simp: store_fl_def counted_def dest!: spec [of _ q] split: option.splits)
  qed
  moreover have k: "kept {} s ?s" using c unfolding kept_def at by auto
  moreover have "no_garbage (F - {p}) ?s"
    using ok unfolding store_fl_def no_garbage_def at by auto
  moreover have "all_lists ?s"
    unfolding all_lists_def
  proof (intro allI impI)
    fix q d assume "cell_at ?s q = Some d"
    then obtain e where "cell_at s q = Some e" using c unfolding at by (auto split: if_splits)
    then obtain xs where "is_list s q xs" using ok by (auto simp: store_fl_def all_lists_def)
    then show "\<exists>xs. is_list ?s q xs" using kept_is_list [OF k] by blast
  qed
  ultimately show ?thesis using False c by (auto simp: inc_refs_def inc_refs_obj_def store_fl_def)
qed

lemma store_ok_iff: "store_ok R s \<longleftrightarrow> store_fl {} R s"
  by (simp add: store_ok_def store_fl_def)

text \<open>the life cycle of a list leaves nothing behind: built from a stack, held once and released,
  every one of its cells is deleted, each exactly once.\<close>

theorem list_life_cycle:
  "\<exists>p s1 s2 s3. from_stack_to_list stk 0 [] = Inr (p, s1) \<and> inc_refs p s1 = Inr s2 \<and>
     is_list s2 p (rev stk) \<and> dec_refs p s2 = Inr s3 \<and> store_ok {#} s3 \<and> (\<forall>q. cell_at s3 q = None)"
proof -
  obtain p s1 where 1: "from_stack_to_list stk 0 [] = Inr (p, s1)" "is_list s1 p (rev stk)" "store_fl {p} {#} s1"
    using from_stack_to_list_correct_aux [of "{#}" "[]" stk] by auto
  obtain s2 where 2: "inc_refs p s1 = Inr s2" "store_fl {} {#p#} s2" "kept {} s1 s2"
    using inc_refs_spec [OF 1(3,2)] by auto
  from dec_refs_releases_aux [of p "{#}" s2] 2(2) obtain s3 where 3: "dec_refs p s2 = Inr s3" "store_ok {#} s3"
    by (auto simp: store_ok_iff)
  with 1 2 kept_is_list no_references_aux show ?thesis by blast
qed

text \<open>C30: \<open>dec_refs\<close> on a held reference never fails an assertion and never touches deleted memory: it
  gives the reference up, deletes what nothing refers to any more, keeps every count right, and leaves
  every other held list with its elements.\<close>

theorem dec_refs_releases:
  assumes "store_ok (add_mset p R) s"
  shows "\<exists>s'. dec_refs p s = Inr s' \<and> store_ok R s' \<and>
    (\<forall>q \<in># R. \<forall>xs. is_list s q xs \<longrightarrow> is_list s' q xs)"
  using assms by (rule dec_refs_releases_aux)

text \<open>Two lists that share the cell of the number 7.\<close>

definition shared_store :: "int store" where
  "shared_store = [Some \<lparr>chead = 7, ctail = 0, crefs = 2\<rparr>, Some \<lparr>chead = 5, ctail = 1, crefs = 1\<rparr>]"

lemma shared_store_at:
  "cell_at shared_store q = (if q = 1 then Some \<lparr>chead = 7, ctail = 0, crefs = 2\<rparr>
     else if q = 2 then Some \<lparr>chead = 5, ctail = 1, crefs = 1\<rparr> else None)"
  by (auto simp: cell_at_def shared_store_def nth_Cons split: nat.splits)

lemma shared_store_lists: "is_list shared_store (Suc 0) [7]" "is_list shared_store 2 [5, 7]"
  by (simp_all add: shared_store_at)

lemma shared_store_ok: "store_ok {#1, 2#} shared_store"
proof -
  have r: "referrers {} shared_store p = (if p = 1 then {2} else {})" if "p \<noteq> 0" for p
    using that by (auto simp: referrers_def shared_store_at split: if_splits)
  have "counted {} {#1, 2#} shared_store" by (auto simp: counted_def r shared_store_at)
  moreover have "all_lists shared_store"
    unfolding all_lists_def shared_store_at
    by (auto split: if_splits intro: exI [where P = "is_list shared_store 2", OF shared_store_lists(2)]
        exI [where P = "is_list shared_store (Suc 0)", OF shared_store_lists(1)] simp del: is_list_Cons)
  ultimately show ?thesis by (auto simp: store_ok_def no_garbage_def shared_store_at split: if_splits)
qed

theorem dec_refs_releases_witness:
  "\<exists>s'. dec_refs 2 shared_store = Inr s' \<and> store_ok {#1#} s' \<and> is_list s' 1 [7]"
proof -
  have "store_ok (add_mset 2 {#1#}) shared_store" using shared_store_ok by (simp add: add_mset_commute)
  from dec_refs_releases [OF this] obtain s' where "dec_refs 2 shared_store = Inr s'" "store_ok {#1#} s'"
      "\<forall>xs. is_list shared_store 1 xs \<longrightarrow> is_list s' 1 xs"
    by auto
  then show ?thesis using shared_store_lists(1) unfolding One_nat_def by blast
qed

theorem cons_copy_correct_witness:
  "\<exists>q s'. cons_copy 2 shared_store = Some (Inr (q, s')) \<and> is_list s' q [5, 7] \<and> is_list s' 2 [5, 7] \<and>
     store_fl {q} {#1, 2#} s'"
proof -
  have "store_fl {} {#1, 2#} shared_store" using shared_store_ok by (simp add: store_ok_def store_fl_def)
  from cons_copy_correct [OF this shared_store_lists(2)] shared_store_lists(2) show ?thesis by blast
qed

text \<open>There are no leaks: when no reference is held from outside, every cell has been deleted.\<close>

theorem no_references_no_cells:
  assumes "store_ok {#} s"
  shows "cell_at s p = None"
  using assms by (rule no_references_aux)

theorem no_references_no_cells_witness:
  "\<exists>s2 s3. dec_refs 2 shared_store = Inr s2 \<and> dec_refs 1 s2 = Inr s3 \<and> cell_at s3 1 = None \<and> cell_at s3 2 = None"
proof -
  obtain s2 where 2: "dec_refs 2 shared_store = Inr s2" "store_ok {#1#} s2"
    using dec_refs_releases_aux [of 2 "{#1#}" shared_store] shared_store_ok by (auto simp: add_mset_commute)
  from dec_refs_releases_aux [of 1 "{#}" s2] 2(2) obtain s3 where 3: "dec_refs 1 s2 = Inr s3" "store_ok {#} s3" by auto
  from no_references_no_cells [OF 3(2)] 2 3 show ?thesis by blast
qed

section \<open>Lists over the wire\<close>

text \<open>On well-formed lists the two loops are those of the plain list format.\<close>

lemma cons_pack_loop_is_list:
  "is_list s p xs \<Longrightarrow> cons_pack_loop enc s (length xs) p buf pos = pack_elems enc xs buf pos"
proof (induction xs arbitrary: p buf pos)
  case (Cons x xs)
  then show ?case by (cases "pack_bytes (enc x) buf pos") auto
qed simp

lemma cons_pack_is_list: "is_list s p xs \<Longrightarrow> cons_pack enc s p buf pos = Some (pack_list enc xs buf pos)"
  by (cases "pack_bytes (len_bytes (length xs)) buf pos")
    (auto simp: cons_pack_def pack_list_def cons_length_is_list cons_pack_loop_is_list)

lemma cons_unpack_loop_spec:
  "store_fl F R s \<Longrightarrow> cell_at s prev = Some c \<Longrightarrow> ctail c = 0 \<Longrightarrow>
   unpack_elems dec sz len buf pos = Inr (xs, pos') \<Longrightarrow>
   \<exists>s'. cons_unpack_loop dec sz len buf pos init prev s = Inr (init, pos', s') \<and> store_fl F R s' \<and>
     is_list s' prev (chead c # xs) \<and> kept {prev} s s'"
proof (induction len arbitrary: prev s c pos xs)
  case 0
  then show ?case using cell_at_bounds [OF 0(2)] by auto
next
  case (Suc len)
  obtain bs p1 ys where u: "unpack_bytes sz buf pos = Inr (bs, p1)" "unpack_elems dec sz len buf p1 = Inr (ys, pos')"
      "xs = dec bs # ys"
    using Suc.prems(4) by (auto simp: res_bind_Inr_iff)
  let ?n = "length s + 1"
  note bc = cell_at_bounds [OF Suc.prems(2)]
  obtain s2 c' cn where s2: "set_tail prev ?n (s @ [Some \<lparr>chead = dec bs, ctail = 0, crefs = 0\<rparr>]) = Inr s2"
      and fl: "store_fl F R s2" and k2: "kept {prev} s s2"
      and c': "cell_at s2 prev = Some c'" "chead c' = chead c" "ctail c' = ?n"
      and cn: "cell_at s2 ?n = Some cn" "chead cn = dec bs" "ctail cn = 0"
    using snoc_step [OF Suc.prems(1-3)] by blast
  obtain s' where s': "cons_unpack_loop dec sz len buf p1 init ?n s2 = Inr (init, pos', s')" "store_fl F R s'"
      "is_list s' ?n (dec bs # ys)" "kept {?n} s2 s'"
    using Suc.IH [OF fl cn(1,3) u(2)] cn(2) by auto
  have ne: "prev \<notin> {?n}" using bc by auto
  have "cons_unpack_loop dec sz (Suc len) buf pos init prev s = Inr (init, pos', s')"
    using u(1) s2 s'(1) bc by (simp add: cons_new_null)
  moreover have "is_list s' prev (chead c # dec bs # ys)"
    using keptD [OF s'(4) ne c'(1)] c' s'(3) bc by auto
  moreover have "kept {prev} s s'" by (rule kept_trans [OF k2 s'(4)]) simp
  ultimately show ?case using s'(2) u(3) by blast
qed

lemma cons_unpack_spec:
  assumes ok: "store_fl {} R s" and u: "unpack_list dec sz buf pos = Inr (xs, pos')"
  shows "\<exists>q s'. cons_unpack dec sz buf pos s = Inr (q, pos', s') \<and> is_list s' q xs \<and> store_fl {q} R s' \<and> kept {} s s'"
proof -
  obtain bs p1 where b: "unpack_bytes 4 buf pos = Inr (bs, p1)"
      and e: "unpack_elems dec sz (unat (le_word bs :: 32 word)) buf p1 = Inr (xs, pos')"
    using u by (auto simp: unpack_list_def res_bind_Inr_iff)
  show ?thesis
  proof (cases "unat (le_word bs :: 32 word)")
    case 0
    with b e ok show ?thesis
      by (auto simp: cons_unpack_def store_fl_def no_garbage_def dest: cell_at_bounds)
  next
    case (Suc len)
    let ?n = "length s + 1"
    from e Suc obtain b1 p2 ys where v: "unpack_bytes sz buf p1 = Inr (b1, p2)"
        "unpack_elems dec sz len buf p2 = Inr (ys, pos')" "xs = dec b1 # ys"
      by (auto simp: res_bind_Inr_iff)
    let ?s1 = "s @ [Some \<lparr>chead = dec b1, ctail = 0, crefs = 0\<rparr>]"
    have n: "cell_at ?s1 ?n = Some \<lparr>chead = dec b1, ctail = 0, crefs = 0\<rparr>" by (simp add: cell_at_new)
    obtain s' where s': "cons_unpack_loop dec sz len buf p2 ?n ?n ?s1 = Inr (?n, pos', s')" "store_fl {?n} R s'"
        "is_list s' ?n (dec b1 # ys)" "kept {?n} ?s1 s'"
      using cons_unpack_loop_spec [OF store_fl_new [OF ok, where h = "dec b1"] n _ v(2), of ?n] by auto
    have "kept {} s s'" by (rule kept_trans [OF kept_append s'(4)]) simp
    moreover have "cons_unpack dec sz buf pos s = Inr (?n, pos', s')"
      using b Suc v(1) s'(1) by (simp add: cons_unpack_def cons_new_null)
    ultimately show ?thesis using s' v(3) by blast
  qed
qed

text \<open>C32: an integer list sent over the wire arrives as it was: packing a list of the sender's heap and
  unpacking it on the receiver's heap gives fresh, correctly counted cells with the same elements, and
  both sides advance the position by \<open>size_list\<close>.\<close>

theorem int_list_wire_roundtrip:
  assumes "is_list s p (xs :: int_val list)" and "length xs < 2 ^ 32"
    and "cons_pack (le_bytes 4) s p buf pos = Some (Inr (buf', pos'))" and "store_fl {} R r"
  shows "pos' = pos + size_list_of 4 (length xs) \<and>
    (\<exists>q r'. cons_unpack le_word 4 buf' pos r = Inr (q, pos', r') \<and> is_list r' q xs \<and> store_fl {q} R r' \<and>
      (\<forall>l ys. is_list r l ys \<longrightarrow> is_list r' l ys))"
proof -
  have p: "pack_list (le_bytes 4) xs buf pos = Inr (buf', pos')"
    using assms(3) cons_pack_is_list [OF assms(1)] by simp
  with int_codec.pack_list_holds [OF p] cons_unpack_spec [OF assms(4) int_codec.list_roundtrip [OF assms(2) p]]
  show ?thesis using kept_is_list by blast
qed

theorem int_list_wire_roundtrip_witness:
  "\<exists>q r'. cons_unpack le_word 4 [2, 0, 0, 0, 5, 0, 0, 0, 7, 0, 0, 0] 0 ([] :: int_val store) = Inr (q, 12, r') \<and>
     is_list r' q [5, 7]"
proof -
  let ?s = "[Some \<lparr>chead = 7 :: int_val, ctail = 0, crefs = 1\<rparr>, Some \<lparr>chead = 5, ctail = 1, crefs = 0\<rparr>]"
  have l: "is_list ?s 2 [5, 7]" by (simp add: cell_at_def)
  have "cons_pack (le_bytes 4) ?s 2 (replicate 12 0) 0 = Some (Inr ([2, 0, 0, 0, 5, 0, 0, 0, 7, 0, 0, 0], 12))"
    unfolding cons_pack_is_list [OF l] by code_simp
  from int_list_wire_roundtrip [OF l _ this store_fl_Nil] show ?thesis by auto
qed

text \<open>the space a list needs: packing succeeds exactly when \<open>size_list\<close> bytes are left and the
  buffer does not end behind the length, so an empty list at the end of a buffer of exactly the size
  \<open>get_storage_size\<close> computes fails the assertion.\<close>

theorem cons_pack_needs_space:
  assumes "is_list s p (xs :: int_val list)"
  shows "(\<exists>buf' pos'. cons_pack (le_bytes 4) s p buf pos = Some (Inr (buf', pos'))) \<longleftrightarrow>
    pos + size_list_of 4 (length xs) \<le> length buf \<and> pos + 4 < length buf"
  unfolding cons_pack_is_list [OF assms]
  by (auto simp: int_codec.pack_list_Inr_iff packed_def size_list_of_def)

theorem cons_pack_needs_space_witness:
  "\<not> (\<exists>buf' pos'. cons_pack (le_bytes 4) ([] :: int_val store) 0 [0, 0, 0, 0] 0 = Some (Inr (buf', pos')))"
  using cons_pack_needs_space [of "[] :: int_val store" 0 "[]" "[0, 0, 0, 0]" 0] by simp

end
