(* ===== verification/Vm_Float.thy ===== *)
theory Vm_Float
  imports Meld_Prelude
begin

text \<open>
  Comparison of \<open>float_val\<close> (IEEE 754 binary64) on its bit pattern. Equality and
  order are those of the C++ operators \<open>==\<close>, \<open><\<close> and \<open><=\<close>: a comparison with a
  NaN is false and the two zeros are equal. Arithmetic on doubles is not defined
  here: the operations that use it take the adder as an argument.
\<close>

definition float_magnitude :: "float_val \<Rightarrow> int" where
  "float_magnitude w = uint (take_bit 63 w)"

definition float_negative :: "float_val \<Rightarrow> bool" where
  "float_negative w \<longleftrightarrow> bit w 63"

text \<open>All exponent bits set and a fraction that is not zero.\<close>

definition float_is_nan :: "float_val \<Rightarrow> bool" where
  "float_is_nan w \<longleftrightarrow> 0x7FF0000000000000 < float_magnitude w"

definition float_rank :: "float_val \<Rightarrow> int" where
  "float_rank w = (if float_negative w then - float_magnitude w else float_magnitude w)"

definition float_eq :: "float_val \<Rightarrow> float_val \<Rightarrow> bool" where
  "float_eq a b \<longleftrightarrow> \<not> float_is_nan a \<and> \<not> float_is_nan b \<and> float_rank a = float_rank b"

definition float_lt :: "float_val \<Rightarrow> float_val \<Rightarrow> bool" where
  "float_lt a b \<longleftrightarrow> \<not> float_is_nan a \<and> \<not> float_is_nan b \<and> float_rank a < float_rank b"

definition float_le :: "float_val \<Rightarrow> float_val \<Rightarrow> bool" where
  "float_le a b \<longleftrightarrow> \<not> float_is_nan a \<and> \<not> float_is_nan b \<and> float_rank a \<le> float_rank b"

text \<open>Equality is a partial equivalence: reflexive except at a NaN.\<close>

lemma float_eq_sym: "float_eq a b \<Longrightarrow> float_eq b a"
  by (simp add: float_eq_def)

lemma float_eq_trans: "float_eq a b \<Longrightarrow> float_eq b c \<Longrightarrow> float_eq a c"
  by (simp add: float_eq_def)

lemma float_eq_refl_iff: "float_eq a a \<longleftrightarrow> \<not> float_is_nan a"
  by (simp add: float_eq_def)

lemma float_le_iff: "float_le a b \<longleftrightarrow> float_lt a b \<or> float_eq a b"
  by (auto simp: float_le_def float_lt_def float_eq_def)

lemma float_le_total:
  "\<not> float_is_nan a \<Longrightarrow> \<not> float_is_nan b \<Longrightarrow> float_le a b \<or> float_le b a"
  by (auto simp: float_le_def)

lemma float_le_trans: "float_le a b \<Longrightarrow> float_le b c \<Longrightarrow> float_le a c"
  by (auto simp: float_le_def)

text \<open>The two zeros are equal and have different bits.\<close>

lemma float_zeros: "float_eq 0 0x8000000000000000 \<and> (0 :: float_val) \<noteq> 0x8000000000000000"
  by (simp add: float_eq_def float_is_nan_def float_rank_def float_negative_def float_magnitude_def
      take_bit_eq_mask mask_eq_exp_minus_1)

end
