(* ===== verification/Vm_Tuple.thy ===== *)
theory Vm_Tuple
  imports Predicates Vm_Float Serialization
begin

text \<open>
  Tuples, \<open>vm/tuple.hpp\<close> and \<open>vm/tuple.cpp\<close>, and the counted tuples of
  \<open>db/tuple.hpp\<close>. A field of the union \<open>tuple_field\<close> is a value tagged with the type
  the predicate declares for it. Lists are immutable once built, so a list field is
  the list of its elements (the cells and their counts are the theory Runtime_List); a
  string is the pointer to its \<open>rstring\<close>.
\<close>

section \<open>Field values\<close>

datatype fval =
    FInt int_val
  | FFloat float_val
  | FNode node_val
  | FLInt "int_val list"
  | FLFloat "float_val list"
  | FLNode "node_val list"
  | FString ptr_val
  | FRaw byte ptr_val                     \<comment> \<open>a field of no known type\<close>

fun fval_type :: "fval \<Rightarrow> field_type" where
  "fval_type (FInt _) = FIELD_INT"
| "fval_type (FFloat _) = FIELD_FLOAT"
| "fval_type (FNode _) = FIELD_NODE"
| "fval_type (FLInt _) = FIELD_LIST_INT"
| "fval_type (FLFloat _) = FIELD_LIST_FLOAT"
| "fval_type (FLNode _) = FIELD_LIST_NODE"
| "fval_type (FString _) = FIELD_STRING"
| "fval_type (FRaw b _) = FIELD_OTHER b"

text \<open>What \<open>memset\<close> to zero leaves in a field of each type; the null pointer is the empty list.\<close>

fun zero_val :: "field_type \<Rightarrow> fval" where
  "zero_val FIELD_INT = FInt 0"
| "zero_val FIELD_FLOAT = FFloat 0"
| "zero_val FIELD_NODE = FNode 0"
| "zero_val FIELD_LIST_INT = FLInt []"
| "zero_val FIELD_LIST_FLOAT = FLFloat []"
| "zero_val FIELD_LIST_NODE = FLNode []"
| "zero_val FIELD_STRING = FString 0"
| "zero_val (FIELD_OTHER b) = FRaw b 0"

lemma fval_type_zero_val [simp]: "fval_type (zero_val t) = t"
  by (cases t) auto

record vtuple =
  tpl_pred :: predicate
  tpl_fields :: "fval list"

definition wf_tuple :: "vtuple \<Rightarrow> bool" where
  "wf_tuple t \<longleftrightarrow> map fval_type (tpl_fields t) = pred_types (tpl_pred t)"

definition new_tuple :: "predicate \<Rightarrow> vtuple" where
  "new_tuple p = \<lparr>tpl_pred = p, tpl_fields = map zero_val (pred_types p)\<rparr>"

section \<open>Comparison and copy\<close>

text \<open>
  \<open>field_equal\<close>: the comparison by the type of the field; a string field has no case
  and raises \<open>type_error\<close>.
\<close>

fun fval_equal :: "fval \<Rightarrow> fval \<Rightarrow> bool res" where
  "fval_equal (FInt a) (FInt b) = Inr (a = b)"
| "fval_equal (FFloat a) (FFloat b) = Inr (float_eq a b)"
| "fval_equal (FNode a) (FNode b) = Inr (a = b)"
| "fval_equal (FLInt a) (FLInt b) = Inr (a = b)"
| "fval_equal (FLFloat a) (FLFloat b) = Inr (list_all2 float_eq a b)"
| "fval_equal (FLNode a) (FLNode b) = Inr (a = b)"
| "fval_equal (FString a) _ = Inl Type_Error"
| "fval_equal (FRaw _ a) _ = Inl Type_Error"
| "fval_equal _ _ = Inl Bad_Access"

definition field_equal :: "vtuple \<Rightarrow> vtuple \<Rightarrow> field_num \<Rightarrow> bool res" where
  "field_equal t u i =
     (if i < num_fields (tpl_pred t) then fval_equal (tpl_fields t ! i) (tpl_fields u ! i)
      else Inl Assert_Failed)"

fun fields_equal_loop :: "vtuple \<Rightarrow> vtuple \<Rightarrow> field_num list \<Rightarrow> bool res" where
  "fields_equal_loop t u [] = Inr True"
| "fields_equal_loop t u (i # is) =
     res_bind (field_equal t u i) (\<lambda>b. if b then fields_equal_loop t u is else Inr False)"

text \<open>Predicates are compared by address; a program has one object per identifier.\<close>

definition tuple_eq :: "vtuple \<Rightarrow> vtuple \<Rightarrow> bool res" where
  "tuple_eq t u =
     (if pred_id (tpl_pred t) \<noteq> pred_id (tpl_pred u) then Inr False
      else fields_equal_loop t u [0..<num_fields (tpl_pred t)])"

text \<open>\<open>copy_field\<close>: the same cases; the value is set in the new tuple.\<close>

fun copy_value :: "fval \<Rightarrow> fval res" where
  "copy_value (FString a) = Inl Type_Error"
| "copy_value (FRaw b a) = Inl Type_Error"
| "copy_value v = Inr v"

definition copy_field :: "vtuple \<Rightarrow> field_num \<Rightarrow> vtuple \<Rightarrow> vtuple res" where
  "copy_field t i ret =
     res_bind (copy_value (tpl_fields t ! i)) (\<lambda>v. Inr (ret\<lparr>tpl_fields := (tpl_fields ret)[i := v]\<rparr>))"

fun copy_fields_loop :: "vtuple \<Rightarrow> (field_num \<Rightarrow> bool) \<Rightarrow> field_num list \<Rightarrow> vtuple \<Rightarrow> vtuple res" where
  "copy_fields_loop t skip [] ret = Inr ret"
| "copy_fields_loop t skip (i # is) ret =
     res_bind (if skip i then Inr ret else copy_field t i ret) (\<lambda>ret'. copy_fields_loop t skip is ret')"

definition tuple_copy :: "vtuple \<Rightarrow> vtuple res" where
  "tuple_copy t = copy_fields_loop t (\<lambda>i. False) [0..<num_fields (tpl_pred t)] (new_tuple (tpl_pred t))"

definition copy_except :: "vtuple \<Rightarrow> field_num \<Rightarrow> vtuple res" where
  "copy_except t field =
     copy_fields_loop t (\<lambda>i. i = field) [0..<num_fields (tpl_pred t)] (new_tuple (tpl_pred t))"

text \<open>
  \<open>copy_runtime\<close> gives list fields fresh cells, which leaves the elements as they are,
  and a string field a fresh string; \<open>fresh\<close> is the address of the copy of each string.
\<close>

fun copy_runtime_value :: "(ptr_val \<Rightarrow> ptr_val) \<Rightarrow> fval \<Rightarrow> fval" where
  "copy_runtime_value fresh (FString a) = FString (fresh a)"
| "copy_runtime_value fresh v = v"

definition copy_runtime :: "(ptr_val \<Rightarrow> ptr_val) \<Rightarrow> vtuple \<Rightarrow> vtuple" where
  "copy_runtime fresh t = t\<lparr>tpl_fields := map (copy_runtime_value fresh) (tpl_fields t)\<rparr>"

section \<open>Messages\<close>

text \<open>The bytes of a field of a message.\<close>

fun field_storage_size :: "fval \<Rightarrow> nat res" where
  "field_storage_size (FInt _) = Inr 4"
| "field_storage_size (FFloat _) = Inr 8"
| "field_storage_size (FNode _) = Inr 4"
| "field_storage_size (FLInt xs) = Inr (size_list_of 4 (length xs))"
| "field_storage_size (FLFloat xs) = Inr (size_list_of 8 (length xs))"
| "field_storage_size (FLNode xs) = Inr (size_list_of 4 (length xs))"
| "field_storage_size (FString _) = Inl Type_Error"
| "field_storage_size (FRaw _ _) = Inl Type_Error"

fun fields_storage_size :: "fval list \<Rightarrow> nat \<Rightarrow> nat res" where
  "fields_storage_size [] ret = Inr ret"
| "fields_storage_size (f # fs) ret =
     res_bind (field_storage_size f) (\<lambda>n. fields_storage_size fs (ret + n))"

definition get_storage_size :: "vtuple \<Rightarrow> nat res" where
  "get_storage_size t = fields_storage_size (tpl_fields t) 1"

fun pack_field :: "fval \<Rightarrow> byte list \<Rightarrow> nat \<Rightarrow> (byte list \<times> nat) res" where
  "pack_field (FInt v) buf pos = pack_bytes (le_bytes 4 v) buf pos"
| "pack_field (FFloat v) buf pos = pack_bytes (le_bytes 8 v) buf pos"
| "pack_field (FNode v) buf pos = pack_bytes (le_bytes 4 v) buf pos"
| "pack_field (FLInt xs) buf pos = pack_list (le_bytes 4) xs buf pos"
| "pack_field (FLFloat xs) buf pos = pack_list (le_bytes 8) xs buf pos"
| "pack_field (FLNode xs) buf pos = pack_list (le_bytes 4) xs buf pos"
| "pack_field (FString _) buf pos = Inl Type_Error"
| "pack_field (FRaw _ _) buf pos = Inl Type_Error"

fun pack_fields :: "fval list \<Rightarrow> byte list \<Rightarrow> nat \<Rightarrow> (byte list \<times> nat) res" where
  "pack_fields [] buf pos = Inr (buf, pos)"
| "pack_fields (f # fs) buf pos =
     res_bind (pack_field f buf pos) (\<lambda>(buf', pos').
     if pos' \<le> length buf' then pack_fields fs buf' pos' else Inl Assert_Failed)"

definition tuple_pack :: "vtuple \<Rightarrow> byte list \<Rightarrow> nat \<Rightarrow> (byte list \<times> nat) res" where
  "tuple_pack t buf pos =
     (if pos \<le> length buf then
        res_bind (pack_bytes (le_bytes 1 (pred_id (tpl_pred t))) buf pos) (\<lambda>(buf', pos').
        if pos' \<le> length buf' then pack_fields (tpl_fields t) buf' pos' else Inl Assert_Failed)
      else Inl Assert_Failed)"

definition unpack_value :: "nat \<Rightarrow> ('a::len word \<Rightarrow> fval) \<Rightarrow> byte list \<Rightarrow> nat \<Rightarrow> (fval \<times> nat) res" where
  "unpack_value sz mk buf pos = res_bind (unpack_bytes sz buf pos) (\<lambda>(bs, pos'). Inr (mk (le_word bs), pos'))"

definition unpack_list_value ::
  "nat \<Rightarrow> ('a::len word list \<Rightarrow> fval) \<Rightarrow> byte list \<Rightarrow> nat \<Rightarrow> (fval \<times> nat) res" where
  "unpack_list_value sz mk buf pos = res_bind (unpack_list le_word sz buf pos) (\<lambda>(xs, pos'). Inr (mk xs, pos'))"

fun load_field :: "field_type \<Rightarrow> byte list \<Rightarrow> nat \<Rightarrow> (fval \<times> nat) res" where
  "load_field FIELD_INT buf pos = unpack_value 4 FInt buf pos"
| "load_field FIELD_FLOAT buf pos = unpack_value 8 FFloat buf pos"
| "load_field FIELD_NODE buf pos = unpack_value 4 FNode buf pos"
| "load_field FIELD_LIST_INT buf pos = unpack_list_value 4 FLInt buf pos"
| "load_field FIELD_LIST_FLOAT buf pos = unpack_list_value 8 FLFloat buf pos"
| "load_field FIELD_LIST_NODE buf pos = unpack_list_value 4 FLNode buf pos"
| "load_field FIELD_STRING buf pos = Inl Type_Error"
| "load_field (FIELD_OTHER b) buf pos = Inl Type_Error"

fun load_fields :: "field_type list \<Rightarrow> byte list \<Rightarrow> nat \<Rightarrow> (fval list \<times> nat) res" where
  "load_fields [] buf pos = Inr ([], pos)"
| "load_fields (t # ts) buf pos =
     res_bind (load_field t buf pos) (\<lambda>(f, pos').
     res_bind (load_fields ts buf pos') (\<lambda>(fs, pos''). Inr (f # fs, pos'')))"

text \<open>\<open>prog\<close>: the predicates of the program, with the assertion of \<open>get_predicate\<close>.\<close>

definition tuple_unpack :: "predicate list \<Rightarrow> byte list \<Rightarrow> nat \<Rightarrow> (vtuple \<times> nat) res" where
  "tuple_unpack prog buf pos =
     res_bind (unpack_bytes 1 buf pos) (\<lambda>(bs, pos1).
     let i = unat (le_word bs :: predicate_id)
     in if i < length prog
        then res_bind (load_fields (pred_types (prog ! i)) buf pos1) (\<lambda>(fs, pos2).
             Inr (\<lparr>tpl_pred = prog ! i, tpl_fields = fs\<rparr>, pos2))
        else Inl Assert_Failed)"

section \<open>Counted tuples\<close>

record simple_tuple =
  st_data :: vtuple
  st_count :: "16 word"                    \<comment> \<open>\<open>ref_count\<close>, a \<open>short\<close>\<close>
  st_to_delete :: bool
  st_generated_this_run :: bool
  st_is_final_aggregate :: bool

definition new_simple_tuple :: "vtuple \<Rightarrow> 16 word \<Rightarrow> simple_tuple" where
  "new_simple_tuple t c =
     \<lparr>st_data = t, st_count = c, st_to_delete = False, st_generated_this_run = False,
      st_is_final_aggregate = False\<rparr>"

definition can_be_consumed :: "simple_tuple \<Rightarrow> bool" where
  "can_be_consumed s \<longleftrightarrow> \<not> st_to_delete s \<and> \<not> st_generated_this_run s"

definition reached_zero :: "simple_tuple \<Rightarrow> bool" where
  "reached_zero s \<longleftrightarrow> st_count s = 0"

definition st_add_count :: "16 word \<Rightarrow> simple_tuple \<Rightarrow> simple_tuple" where
  "st_add_count inc s = s\<lparr>st_count := st_count s + inc\<rparr>"

definition simple_tuple_storage_size :: "simple_tuple \<Rightarrow> nat res" where
  "simple_tuple_storage_size s = res_bind (get_storage_size (st_data s)) (\<lambda>n. Inr (2 + n))"

definition simple_tuple_pack :: "simple_tuple \<Rightarrow> byte list \<Rightarrow> nat \<Rightarrow> (byte list \<times> nat) res" where
  "simple_tuple_pack s buf pos =
     res_bind (pack_bytes (le_bytes 2 (st_count s)) buf pos) (\<lambda>(buf', pos'). tuple_pack (st_data s) buf' pos')"

definition simple_tuple_unpack :: "predicate list \<Rightarrow> byte list \<Rightarrow> nat \<Rightarrow> (simple_tuple \<times> nat) res" where
  "simple_tuple_unpack prog buf pos =
     res_bind (unpack_bytes 2 buf pos) (\<lambda>(bs, pos').
     res_bind (tuple_unpack prog buf pos') (\<lambda>(t, pos''). Inr (new_simple_tuple t (le_word bs), pos'')))"

section \<open>The wire format\<close>

fun field_bytes :: "fval \<Rightarrow> byte list" where
  "field_bytes (FInt v) = le_bytes 4 v"
| "field_bytes (FFloat v) = le_bytes 8 v"
| "field_bytes (FNode v) = le_bytes 4 v"
| "field_bytes (FLInt xs) = len_bytes (length xs) @ concat (map (le_bytes 4) xs)"
| "field_bytes (FLFloat xs) = len_bytes (length xs) @ concat (map (le_bytes 8) xs)"
| "field_bytes (FLNode xs) = len_bytes (length xs) @ concat (map (le_bytes 4) xs)"
| "field_bytes (FString _) = []"
| "field_bytes (FRaw _ _) = []"

text \<open>The fields a message can carry, and lists whose length fits the four bytes for it.\<close>

fun wire_type :: "fval \<Rightarrow> bool" where
  "wire_type (FString _) = False"
| "wire_type (FRaw _ _) = False"
| "wire_type _ = True"

fun short_list :: "fval \<Rightarrow> bool" where
  "short_list (FLInt xs) = (length xs < 2 ^ 32)"
| "short_list (FLFloat xs) = (length xs < 2 ^ 32)"
| "short_list (FLNode xs) = (length xs < 2 ^ 32)"
| "short_list _ = True"

lemma wire_type_not_string: "wire_type f \<Longrightarrow> fval_type f \<noteq> FIELD_STRING"
  by (cases f) auto

lemma pack_field_packed:
  "pack_field f buf pos = Inr (buf', pos') \<Longrightarrow> wire_type f \<and> packed (field_bytes f) buf pos buf' pos'"
  by (cases f)
    (auto simp: pack_bytes_Inr_iff int_codec.pack_list_Inr_iff float_codec.pack_list_Inr_iff)

lemma field_storage_size_bytes: "wire_type f \<Longrightarrow> field_storage_size f = Inr (length (field_bytes f))"
  by (cases f) (simp_all add: size_list_of_def)

lemma load_field_holds:
  assumes "wire_type f" and "short_list f" and h: "holds_at (field_bytes f) buf pos"
  shows "load_field (fval_type f) buf pos = Inr (f, pos + length (field_bytes f))"
  using assms unpack_bytes_holds [OF h]
  by (cases f)
    (auto simp: unpack_value_def unpack_list_value_def le_word_le_bytes_full
      int_codec.unpack_list_holds float_codec.unpack_list_holds size_list_of_def)

lemma pack_fields_packed:
  "pack_fields fs buf pos = Inr (buf', pos') \<Longrightarrow> pos \<le> length buf \<Longrightarrow>
   list_all wire_type fs \<and> packed (concat (map field_bytes fs)) buf pos buf' pos'"
proof (induction fs arbitrary: buf pos)
  case Nil
  then show ?case by (simp add: packed_Nil)
next
  case (Cons f fs)
  then obtain b p where b: "pack_field f buf pos = Inr (b, p)" "p \<le> length b" "pack_fields fs b p = Inr (buf', pos')"
    by (auto simp: res_bind_Inr_iff split: if_splits)
  from pack_field_packed [OF b(1)] Cons.IH [OF b(3,2)] show ?case by (auto simp: packed_append_iff)
qed

lemma fields_storage_size_bytes:
  "list_all wire_type fs \<Longrightarrow> fields_storage_size fs n = Inr (n + length (concat (map field_bytes fs)))"
  by (induction fs arbitrary: n) (simp_all add: field_storage_size_bytes)

lemma load_fields_holds:
  "list_all wire_type fs \<Longrightarrow> list_all short_list fs \<Longrightarrow> holds_at (concat (map field_bytes fs)) buf pos \<Longrightarrow>
   load_fields (map fval_type fs) buf pos = Inr (fs, pos + length (concat (map field_bytes fs)))"
proof (induction fs arbitrary: pos)
  case (Cons f fs)
  then have h: "holds_at (field_bytes f) buf pos" "holds_at (concat (map field_bytes fs)) buf (pos + length (field_bytes f))"
    by (simp_all add: holds_at_append)
  from load_field_holds [OF _ _ h(1)] Cons.IH [OF _ _ h(2)] Cons.prems show ?case by simp
qed simp

definition tuple_bytes :: "vtuple \<Rightarrow> byte list" where
  "tuple_bytes t = le_bytes 1 (pred_id (tpl_pred t)) @ concat (map field_bytes (tpl_fields t))"

lemma tuple_pack_packed:
  assumes "tuple_pack t buf pos = Inr (buf', pos')"
  shows "list_all wire_type (tpl_fields t) \<and> packed (tuple_bytes t) buf pos buf' pos'"
proof -
  obtain b p where b: "pack_bytes (le_bytes 1 (pred_id (tpl_pred t))) buf pos = Inr (b, p)" "p \<le> length b"
      "pack_fields (tpl_fields t) b p = Inr (buf', pos')"
    using assms by (auto simp: tuple_pack_def res_bind_Inr_iff split: if_splits)
  with pack_fields_packed [OF b(3,2)] show ?thesis
    unfolding tuple_bytes_def packed_append_iff by (auto simp: pack_bytes_Inr_iff)
qed

lemma get_storage_size_bytes:
  "list_all wire_type (tpl_fields t) \<Longrightarrow> get_storage_size t = Inr (length (tuple_bytes t))"
  by (simp add: get_storage_size_def fields_storage_size_bytes tuple_bytes_def)

text \<open>What both sides of a message have to agree on: the predicates, by identifier.\<close>

definition prog_has :: "predicate list \<Rightarrow> predicate \<Rightarrow> bool" where
  "prog_has prog p \<longleftrightarrow> unat (pred_id p) < length prog \<and> prog ! unat (pred_id p) = p"

lemma tuple_unpack_holds:
  assumes "wf_tuple t" and "prog_has prog (tpl_pred t)" and "list_all wire_type (tpl_fields t)"
    and "list_all short_list (tpl_fields t)" and "holds_at (tuple_bytes t) buf pos"
  shows "tuple_unpack prog buf pos = Inr (t, pos + length (tuple_bytes t))"
proof -
  have h: "holds_at (le_bytes 1 (pred_id (tpl_pred t))) buf pos"
      "holds_at (concat (map field_bytes (tpl_fields t))) buf (pos + 1)"
    using assms(5) by (simp_all add: tuple_bytes_def holds_at_append del: le_bytes.simps)
  from unpack_bytes_holds [OF h(1)] load_fields_holds [OF assms(3,4) h(2)] show ?thesis
    using assms(1,2)
    by (simp add: tuple_unpack_def Let_def wf_tuple_def prog_has_def le_word_le_bytes_full tuple_bytes_def
        del: le_bytes.simps)
qed

text \<open>A counted tuple survives a message: what \<open>pack\<close> wrote, \<open>unpack\<close> reads back as the same tuple with
  the same count (the two run-time flags start afresh), at the position where packing stopped, and the
  bytes used are those \<open>storage_size\<close> announced. Tuples with a string field are never packed.\<close>

theorem simple_tuple_wire_roundtrip:
  assumes "wf_tuple (st_data s)" and "prog_has prog (tpl_pred (st_data s))"
    and "list_all short_list (tpl_fields (st_data s))"
    and "simple_tuple_pack s buf pos = Inr (buf', pos')"
  shows "simple_tuple_unpack prog buf' pos = Inr (new_simple_tuple (st_data s) (st_count s), pos') \<and>
    simple_tuple_storage_size s = Inr (pos' - pos) \<and> pos \<le> pos' \<and>
    list_all (\<lambda>f. fval_type f \<noteq> FIELD_STRING) (tpl_fields (st_data s))"
proof -
  let ?t = "st_data s"
  obtain b p where b: "packed (le_bytes 2 (st_count s)) buf pos b p" "tuple_pack ?t b p = Inr (buf', pos')"
    using assms(4) by (auto simp: simple_tuple_pack_def res_bind_Inr_iff pack_bytes_Inr_iff)
  note t = tuple_pack_packed [OF b(2)]
  have pk: "packed (le_bytes 2 (st_count s) @ tuple_bytes ?t) buf pos buf' pos'"
    using b(1) t packed_append_iff by blast
  have h: "holds_at (le_bytes 2 (st_count s)) buf' pos" "holds_at (tuple_bytes ?t) buf' (pos + 2)"
    using packed_holds [OF pk] by (simp_all add: holds_at_append del: le_bytes.simps)
  have "list_all (\<lambda>f. fval_type f \<noteq> FIELD_STRING) (tpl_fields ?t)"
    using t by (auto simp: list_all_iff dest: wire_type_not_string)
  moreover have "pos' = pos + 2 + length (tuple_bytes ?t)" using pk by (simp add: packed_def)
  ultimately show ?thesis
    using unpack_bytes_holds [OF h(1)] tuple_unpack_holds [OF assms(1,2) _ assms(3) h(2)] t
    by (simp add: simple_tuple_unpack_def simple_tuple_storage_size_def get_storage_size_bytes
        le_word_le_bytes_full del: le_bytes.simps)
qed

text \<open>A fact \<open>edge(@7, [3, 4])\<close> of predicate 0, twice derived.\<close>

definition edge_pred :: predicate where
  "edge_pred = \<lparr>pred_desc = [], pred_name_ptr = 40, pred_id = 0, pred_name = [0x65], pred_level = 0,
     pred_types = [FIELD_NODE, FIELD_LIST_INT], pred_fields_size = [4, 8], pred_fields_offset = [0, 4],
     pred_tuple_size = 12, pred_agg = None, pred_is_route = False, pred_is_linear = False,
     pred_is_reverse_route = False, pred_is_action = False, pred_is_reused = False\<rparr>"

definition edge_tuple :: vtuple where
  "edge_tuple = \<lparr>tpl_pred = edge_pred, tpl_fields = [FNode 7, FLInt [3, 4]]\<rparr>"

lemma edge_pack:
  "simple_tuple_pack (new_simple_tuple edge_tuple 2) (replicate 19 0) 0 =
     Inr ([2, 0, 0, 7, 0, 0, 0, 2, 0, 0, 0, 3, 0, 0, 0, 4, 0, 0, 0], 19)"
  by code_simp

theorem simple_tuple_wire_roundtrip_witness:
  "simple_tuple_unpack [edge_pred] [2, 0, 0, 7, 0, 0, 0, 2, 0, 0, 0, 3, 0, 0, 0, 4, 0, 0, 0] 0 =
     Inr (new_simple_tuple edge_tuple 2, 19)"
  using simple_tuple_wire_roundtrip [OF _ _ _ edge_pack, of "[edge_pred]"]
  by (simp add: new_simple_tuple_def wf_tuple_def prog_has_def edge_tuple_def edge_pred_def)

section \<open>Comparing and copying\<close>

fun has_nan :: "fval \<Rightarrow> bool" where
  "has_nan (FFloat a) = float_is_nan a"
| "has_nan (FLFloat as) = list_ex float_is_nan as"
| "has_nan _ = False"

lemma fval_equal_self:
  "wire_type f \<Longrightarrow> fval_equal f f = Inr (\<not> has_nan f)"
  by (cases f) (auto simp: float_eq_refl_iff list_all2_same list_ex_iff)

lemma fields_equal_loop_self:
  "\<forall>i \<in> set is. i < num_fields (tpl_pred t) \<and> wire_type (tpl_fields t ! i) \<Longrightarrow>
   fields_equal_loop t t is = Inr (\<forall>i \<in> set is. \<not> has_nan (tpl_fields t ! i))"
  by (induction "is") (auto simp: field_equal_def fval_equal_self)

text \<open>a tuple without string fields equals itself exactly when none of its numbers is a NaN; so a fact
  that holds a NaN is never found again by a comparison.\<close>

theorem tuple_eq_self:
  assumes "wf_tuple t" and "list_all wire_type (tpl_fields t)"
  shows "tuple_eq t t = Inr (\<not> list_ex has_nan (tpl_fields t))"
proof -
  have n: "num_fields (tpl_pred t) = length (tpl_fields t)"
    using assms(1) by (metis length_map num_fields_def wf_tuple_def)
  have "tuple_eq t t = Inr (\<forall>i \<in> set [0..<length (tpl_fields t)]. \<not> has_nan (tpl_fields t ! i))"
    unfolding tuple_eq_def n using assms(2) n
    by (simp add: fields_equal_loop_self list_all_length)
  then show ?thesis by (auto simp: list_ex_length)
qed

theorem tuple_eq_self_witness: "tuple_eq edge_tuple edge_tuple = Inr True"
  using tuple_eq_self [of edge_tuple] by (simp add: wf_tuple_def edge_tuple_def edge_pred_def)

lemma copy_fields_loop_spec:
  "\<forall>i \<in> set is. i < length (tpl_fields t) \<and> (skip i \<or> wire_type (tpl_fields t ! i)) \<Longrightarrow>
   length (tpl_fields ret) = length (tpl_fields t) \<Longrightarrow>
   copy_fields_loop t skip is ret =
     Inr (ret\<lparr>tpl_fields := map (\<lambda>i. if i \<in> set is \<and> \<not> skip i then tpl_fields t ! i else tpl_fields ret ! i)
                [0..<length (tpl_fields t)]\<rparr>)"
proof (induction "is" arbitrary: ret)
  case Nil
  then show ?case using map_nth [of "tpl_fields ret"] by simp
next
  case (Cons i "is")
  have cp: "copy_value v = Inr v" if "wire_type v" for v
    using that by (cases v) auto
  let ?r = "if skip i then ret else ret\<lparr>tpl_fields := (tpl_fields ret)[i := tpl_fields t ! i]\<rparr>"
  have "copy_fields_loop t skip (i # is) ret = copy_fields_loop t skip is ?r"
    using Cons.prems cp by (auto simp: copy_field_def)
  also have "\<dots> = Inr (?r\<lparr>tpl_fields := map (\<lambda>j. if j \<in> set is \<and> \<not> skip j then tpl_fields t ! j else tpl_fields ?r ! j)
      [0..<length (tpl_fields t)]\<rparr>)"
    using Cons.prems by (intro Cons.IH) auto
  also have "\<dots> = Inr (ret\<lparr>tpl_fields := map (\<lambda>j. if j \<in> set (i # is) \<and> \<not> skip j then tpl_fields t ! j else tpl_fields ret ! j)
      [0..<length (tpl_fields t)]\<rparr>)"
    using Cons.prems by (auto intro!: map_cong simp: nth_list_update)
  finally show ?case .
qed

text \<open>\<open>copy\<close> gives the same tuple, and \<open>copy_except\<close>, from which an aggregate builds its result, the same
  tuple with the one field reset to zero, whatever the type of that field.\<close>

theorem copy_except_resets_field:
  assumes "wf_tuple t" and "\<forall>i < length (tpl_fields t). i \<noteq> field \<longrightarrow> wire_type (tpl_fields t ! i)"
    and "tpl_pred t = p"
  shows "copy_except t field =
    Inr \<lparr>tpl_pred = p, tpl_fields = (tpl_fields t)[field := zero_val (pred_types p ! field)]\<rparr>"
proof -
  have n: "num_fields (tpl_pred t) = length (tpl_fields t)"
    using assms(1) by (metis length_map num_fields_def wf_tuple_def)
  have len: "length (pred_types p) = length (tpl_fields t)" using n assms(3) by (simp add: num_fields_def)
  have "copy_except t field = Inr ((new_tuple p)\<lparr>tpl_fields := map (\<lambda>i. if i \<in> set [0..<length (tpl_fields t)] \<and> i \<noteq> field
        then tpl_fields t ! i else tpl_fields (new_tuple p) ! i) [0..<length (tpl_fields t)]\<rparr>)"
    unfolding copy_except_def assms(3) n [unfolded assms(3)] using assms(2) len
    by (intro copy_fields_loop_spec) (auto simp: new_tuple_def)
  also have "\<dots> = Inr \<lparr>tpl_pred = p, tpl_fields = (tpl_fields t)[field := zero_val (pred_types p ! field)]\<rparr>"
    using len by (auto simp: new_tuple_def intro!: nth_equalityI)
  finally show ?thesis .
qed

theorem copy_except_resets_field_witness:
  "copy_except edge_tuple 1 = Inr (edge_tuple\<lparr>tpl_fields := [FNode 7, FLInt []]\<rparr>)"
  using copy_except_resets_field [of edge_tuple 1 edge_pred]
  by (simp add: wf_tuple_def edge_tuple_def edge_pred_def less_Suc_eq)

end
