(* ===== verification/Vm_Match.thy ===== *)
theory Vm_Match
  imports Vm_Tuple
begin

text \<open>
  Match objects, \<open>vm/match.hpp\<close>: the pattern an iterate instruction builds for a
  predicate, field by field either open or pinned to an integer, a float or a node.
\<close>

section \<open>The object\<close>

text \<open>One entry of \<open>types\<close> together with the entry of \<open>vals\<close> it makes meaningful.\<close>

datatype match_field =
    MAny field_type            \<comment> \<open>\<open>exact\<close> is false\<close>
  | MExact fval

record match =
  any_exact :: bool
  match_fields :: "match_field list"

definition new_match :: "predicate \<Rightarrow> match" where
  "new_match p = \<lparr>any_exact = False, match_fields = map MAny (pred_types p)\<rparr>"

definition match_set :: "field_num \<Rightarrow> fval \<Rightarrow> match \<Rightarrow> match res" where
  "match_set num v m =
     (if num < length (match_fields m)
      then Inr \<lparr>any_exact = True, match_fields = (match_fields m)[num := MExact v]\<rparr>
      else Inl Assert_Failed)"

definition match_int :: "field_num \<Rightarrow> int_val \<Rightarrow> match \<Rightarrow> match res" where
  "match_int num v m = match_set num (FInt v) m"

definition match_float :: "field_num \<Rightarrow> float_val \<Rightarrow> match \<Rightarrow> match res" where
  "match_float num v m = match_set num (FFloat v) m"

definition match_node :: "field_num \<Rightarrow> node_val \<Rightarrow> match \<Rightarrow> match res" where
  "match_node num v m = match_set num (FNode v) m"

section \<open>The stacks of the trie\<close>

text \<open>
  \<open>val_stack\<close> and \<open>type_stack\<close> move in step, so they are one list with the top first.
  A non-empty list on the stack is replaced by its head and its tail.
\<close>

fun push_rest :: "fval \<Rightarrow> fval list" where
  "push_rest (FLInt (x # xs)) = [FInt x, FLInt xs]"
| "push_rest (FLFloat (x # xs)) = [FFloat x, FLFloat xs]"
| "push_rest (FLNode (x # xs)) = [FNode x, FLNode xs]"
| "push_rest _ = []"

text \<open>The union as one machine word; a list is represented by the marker 0 or 1.\<close>

fun raw_val :: "fval \<Rightarrow> 64 word" where
  "raw_val (FInt v) = ucast v"
| "raw_val (FFloat v) = v"
| "raw_val (FNode v) = ucast v"
| "raw_val (FLInt xs) = (if xs = [] then 0 else 1)"
| "raw_val (FLFloat xs) = (if xs = [] then 0 else 1)"
| "raw_val (FLNode xs) = (if xs = [] then 0 else 1)"
| "raw_val (FString p) = p"
| "raw_val (FRaw b p) = p"

fun stack_weight :: "fval list \<Rightarrow> nat" where
  "stack_weight [] = 0"
| "stack_weight (FLInt xs # vs) = 2 * length xs + 1 + stack_weight vs"
| "stack_weight (FLFloat xs # vs) = 2 * length xs + 1 + stack_weight vs"
| "stack_weight (FLNode xs # vs) = 2 * length xs + 1 + stack_weight vs"
| "stack_weight (v # vs) = 1 + stack_weight vs"

lemma stack_weight_push: "stack_weight (push_rest v @ vs) < stack_weight (v # vs)"
proof (cases v)
  case (FLInt xs)
  then show ?thesis by (cases xs) auto
next
  case (FLFloat xs)
  then show ?thesis by (cases xs) auto
next
  case (FLNode xs)
  then show ?thesis by (cases xs) auto
qed auto

section \<open>What a pattern means\<close>

text \<open>Equality of values as the trie sees it: floats by \<open>==\<close>, everything else by its bits.\<close>

fun fval_same :: "fval \<Rightarrow> fval \<Rightarrow> bool" where
  "fval_same (FFloat a) (FFloat b) = float_eq a b"
| "fval_same (FLFloat a) (FLFloat b) = list_all2 float_eq a b"
| "fval_same a b = (a = b)"

fun field_matches :: "match_field \<Rightarrow> fval \<Rightarrow> bool" where
  "field_matches (MAny t) v = True"
| "field_matches (MExact w) v = fval_same w v"

definition fields_match :: "match_field list \<Rightarrow> fval list \<Rightarrow> bool" where
  "fields_match ms vs \<longleftrightarrow> list_all2 field_matches ms vs"

definition pinnable :: "fval \<Rightarrow> bool" where
  "pinnable v \<longleftrightarrow> fval_type v \<in> {FIELD_INT, FIELD_FLOAT, FIELD_NODE}"

text \<open>The patterns the three setters can produce for a predicate.\<close>

definition wf_match :: "predicate \<Rightarrow> match \<Rightarrow> bool" where
  "wf_match p m \<longleftrightarrow>
     list_all2 (\<lambda>f t. case f of MAny u \<Rightarrow> u = t | MExact v \<Rightarrow> pinnable v \<and> fval_type v = t)
       (match_fields m) (pred_types p) \<and>
     (any_exact m \<longleftrightarrow> list_ex (\<lambda>f. \<exists>v. f = MExact v) (match_fields m))"

lemma wf_new_match [simp]: "wf_match p (new_match p)"
  by (simp add: wf_match_def new_match_def list_all2_map1 list_all2_same list_ex_iff)

lemma wf_match_set:
  assumes "wf_match p m" and "pinnable v" and "num < num_fields p" and "fval_type v = pred_types p ! num"
  shows "\<exists>m'. match_set num v m = Inr m' \<and> wf_match p m'"
proof -
  let ?P = "\<lambda>f t. case f of MAny u \<Rightarrow> u = t | MExact v \<Rightarrow> pinnable v \<and> fval_type v = t"
  have l: "list_all2 ?P (match_fields m) (pred_types p)" using assms(1) by (simp add: wf_match_def)
  have n: "num < length (match_fields m)" using list_all2_lengthD [OF l] assms(3) by (simp add: num_fields_def)
  have "list_all2 ?P ((match_fields m)[num := MExact v]) ((pred_types p)[num := pred_types p ! num])"
    using l assms(2,4) by (intro list_all2_update_cong) auto
  moreover have "list_ex (\<lambda>f. \<exists>v. f = MExact v) ((match_fields m)[num := MExact v])"
    using n by (auto simp: list_ex_length intro!: exI [of _ num])
  ultimately show ?thesis using n by (simp add: match_set_def wf_match_def)
qed

end
