(* ===== verification/Db_Trie.thy ===== *)
theory Db_Trie
  imports Vm_Match
begin

text \<open>
  The trie that stores the facts of a predicate, \<open>db/trie.hpp\<close> and \<open>db/trie.cpp\<close>:
  one level per field (two per list element), the children of a node in a linked list
  or, from nine on, in a hash table. A node is its data word and its children; the
  tagged \<open>child\<close> pointer and the flag \<open>hashed\<close> are the constructors of \<open>kids\<close>. A
  pointer to a node is the path of positions that leads to it from the root, a
  pointer to a leaf is its identifier. This theory has the tree; the leaves, counts
  and operations of \<open>trie\<close> and \<open>tuple_trie\<close> are in the theory Tuple_Trie.
\<close>

section \<open>Nodes\<close>

datatype kids =
    Empty                                                  \<comment> \<open>\<open>child == NULL\<close>\<close>
  | Leaf nat
  | Siblings "(64 word \<times> kids) list"
  | Hashed field_type nat "(64 word \<times> kids) list list"     \<comment> \<open>\<open>type\<close>, \<open>total\<close>, \<open>buckets\<close>\<close>

type_synonym tnode = "64 word \<times> kids"

fun is_leaf :: "kids \<Rightarrow> bool" where
  "is_leaf (Leaf _) = True"
| "is_leaf _ = False"

fun is_hashed :: "kids \<Rightarrow> bool" where
  "is_hashed (Hashed _ _ _) = True"
| "is_hashed _ = False"

fun all_kids :: "kids \<Rightarrow> tnode list" where
  "all_kids (Siblings ns) = ns"
| "all_kids (Hashed ty tot bs) = concat bs"
| "all_kids _ = []"

text \<open>
  \<open>std::tr1::hash\<close> of the four member types is a parameter. The standard asks only
  that equal keys have equal hashes; \<open>==\<close> on doubles is \<open>float_eq\<close>.
\<close>

record hashes =
  hash_int :: "int_val \<Rightarrow> nat"
  hash_uint :: "uint_val \<Rightarrow> nat"
  hash_float :: "float_val \<Rightarrow> nat"
  hash_node :: "node_val \<Rightarrow> nat"

definition hash_law :: "hashes \<Rightarrow> bool" where
  "hash_law hs \<longleftrightarrow> (\<forall>a b. float_eq a b \<longrightarrow> hash_float hs a = hash_float hs b)"

definition TRIE_HASH_LIST_THRESHOLD :: nat where "TRIE_HASH_LIST_THRESHOLD = 8"
definition TRIE_HASH_BASE_BUCKETS :: nat where "TRIE_HASH_BASE_BUCKETS = 64"
definition TRIE_HASH_MAX_NODES_PER_BUCKET :: nat where
  "TRIE_HASH_MAX_NODES_PER_BUCKET = TRIE_HASH_LIST_THRESHOLD div 2"

definition hash_item :: "nat \<Rightarrow> nat \<Rightarrow> nat" where
  "hash_item num_buckets item = item AND (num_buckets - 1)"

text \<open>The bucket of a data word, as \<open>get_int\<close>, \<open>get_float\<close>, \<open>get_node\<close> and \<open>get_uint\<close> compute it.\<close>

fun hash_data :: "hashes \<Rightarrow> field_type \<Rightarrow> 64 word \<Rightarrow> nat" where
  "hash_data hs FIELD_INT d = hash_int hs (ucast d)"
| "hash_data hs FIELD_FLOAT d = hash_float hs d"
| "hash_data hs FIELD_NODE d = hash_node hs (ucast d)"
| "hash_data hs _ d = hash_uint hs (ucast d)"

definition bucket_of :: "hashes \<Rightarrow> field_type \<Rightarrow> nat \<Rightarrow> 64 word \<Rightarrow> nat" where
  "bucket_of hs ty num_buckets d = hash_item num_buckets (hash_data hs ty d)"

text \<open>
  The comparison of \<open>trie_node::match\<close> between the data \<open>d\<close> of a node and the field
  \<open>e\<close> looked for. For strings it compares \<open>node_field\<close>, four bytes of the stored
  pointer, with all of \<open>ptr_field\<close>.
\<close>

fun same_data :: "field_type \<Rightarrow> 64 word \<Rightarrow> 64 word \<Rightarrow> bool" where
  "same_data FIELD_INT d e \<longleftrightarrow> (ucast d :: int_val) = ucast e"
| "same_data FIELD_FLOAT d e \<longleftrightarrow> float_eq d e"
| "same_data FIELD_NODE d e \<longleftrightarrow> (ucast d :: node_val) = ucast e"
| "same_data FIELD_STRING d e \<longleftrightarrow> ucast (ucast d :: node_val) = e"
| "same_data (FIELD_OTHER b) d e \<longleftrightarrow> False"
| "same_data _ d e \<longleftrightarrow> (ucast d :: int_val) = ucast e"

definition other_type :: "field_type \<Rightarrow> bool" where
  "other_type t \<longleftrightarrow> (\<exists>b. t = FIELD_OTHER b)"

lemma other_type_code [code]: "other_type t \<longleftrightarrow> (case t of FIELD_OTHER b \<Rightarrow> True | _ \<Rightarrow> False)"
  by (cases t) (simp_all add: other_type_def)

section \<open>Finding a child\<close>

datatype pos = At nat | InBucket nat nat

fun find_sib :: "field_type \<Rightarrow> 64 word \<Rightarrow> tnode list \<Rightarrow> nat option" where
  "find_sib ty e [] = None"
| "find_sib ty e (n # ns) =
     (if same_data ty (fst n) e then Some 0 else map_option Suc (find_sib ty e ns))"

text \<open>
  \<open>trie_node::match\<close>: the child, and how many children were looked at in vain; a type
  without a case fails the assertion as soon as there is a child.
\<close>

definition node_match :: "hashes \<Rightarrow> field_type \<Rightarrow> 64 word \<Rightarrow> kids \<Rightarrow> (pos option \<times> nat) res" where
  "node_match hs ty e k =
     (case k of
        Leaf _ \<Rightarrow> Inl Assert_Failed
      | Empty \<Rightarrow> Inr (None, 0)
      | Siblings ns \<Rightarrow>
          if other_type ty \<and> ns \<noteq> [] then Inl Assert_Failed
          else Inr (map_option At (find_sib ty e ns), length ns)
      | Hashed hty tot bs \<Rightarrow>
          if other_type ty then Inl Assert_Failed
          else (let b = bucket_of hs ty (length bs) e
                in Inr (map_option (InBucket b) (find_sib ty e (bs ! b)), length (bs ! b))))"

fun child_at :: "pos \<Rightarrow> kids \<Rightarrow> tnode" where
  "child_at (At i) (Siblings ns) = ns ! i"
| "child_at (InBucket b i) (Hashed ty tot bs) = bs ! b ! i"
| "child_at _ k = (0, k)"

fun set_child :: "pos \<Rightarrow> kids \<Rightarrow> kids \<Rightarrow> kids" where
  "set_child (At i) c (Siblings ns) = Siblings (ns[i := (fst (ns ! i), c)])"
| "set_child (InBucket b i) c (Hashed ty tot bs) =
     Hashed ty tot (bs[b := (bs ! b)[i := (fst (bs ! b ! i), c)]])"
| "set_child _ c k = k"

section \<open>Adding a child\<close>

definition bucket_insert :: "hashes \<Rightarrow> field_type \<Rightarrow> tnode \<Rightarrow> tnode list list \<Rightarrow> tnode list list" where
  "bucket_insert hs ty n bs = (let b = bucket_of hs ty (length bs) (fst n) in bs[b := n # bs ! b])"

definition convert_hash :: "hashes \<Rightarrow> field_type \<Rightarrow> tnode list \<Rightarrow> kids" where
  "convert_hash hs ty ns =
     Hashed ty (length ns) (fold (bucket_insert hs ty) ns (replicate TRIE_HASH_BASE_BUCKETS []))"

definition hash_expand :: "hashes \<Rightarrow> field_type \<Rightarrow> tnode list list \<Rightarrow> tnode list list" where
  "hash_expand hs ty bs = fold (bucket_insert hs ty) (concat bs) (replicate (2 * length bs) [])"

text \<open>The growth of the child list before an insertion; \<open>cnt\<close> is already incremented.\<close>

definition grow :: "hashes \<Rightarrow> field_type \<Rightarrow> nat \<Rightarrow> kids \<Rightarrow> kids" where
  "grow hs ty cnt k =
     (case k of
        Hashed hty tot bs \<Rightarrow>
          if cnt > TRIE_HASH_MAX_NODES_PER_BUCKET then Hashed hty tot (hash_expand hs hty bs) else k
      | Siblings ns \<Rightarrow> if cnt > TRIE_HASH_LIST_THRESHOLD then convert_hash hs ty ns else k
      | _ \<Rightarrow> if cnt > TRIE_HASH_LIST_THRESHOLD then convert_hash hs ty [] else k)"

text \<open>\<open>trie_node::insert\<close>, with the subtree that the new child will have.\<close>

definition node_insert :: "hashes \<Rightarrow> field_type \<Rightarrow> 64 word \<Rightarrow> kids \<Rightarrow> kids \<Rightarrow> kids" where
  "node_insert hs ty d sub k =
     (case k of
        Hashed hty tot bs \<Rightarrow> Hashed hty (tot + 1) (bucket_insert hs ty (d, sub) bs)
      | _ \<Rightarrow> Siblings ((d, sub) # all_kids k))"

text \<open>The loop that hangs one new node below the other until the stack is empty.\<close>

function new_path :: "hashes \<Rightarrow> nat \<Rightarrow> fval list \<Rightarrow> kids" where
  "new_path hs i [] = Leaf i"
| "new_path hs i (v # vs) =
     node_insert hs (fval_type v) (raw_val v) (new_path hs i (push_rest v @ vs)) Empty"
  by pat_completeness auto
termination
  by (relation "measure (\<lambda>(hs, i, vs). stack_weight vs)") (auto simp: stack_weight_push)

text \<open>
  The loop of \<open>trie::check_insert\<close> below the root: the leaf that the stack leads to,
  or nothing, for a negative count, or the tree with a new path to the leaf \<open>i\<close>.
\<close>

datatype walk = Reached nat | Missing | Grown kids

function check_insert_walk :: "hashes \<Rightarrow> nat \<Rightarrow> bool \<Rightarrow> fval list \<Rightarrow> kids \<Rightarrow> walk res" where
  "check_insert_walk hs i neg [] k =
     (case k of Leaf j \<Rightarrow> Inr (Reached j) | _ \<Rightarrow> Inl Assert_Failed)"
| "check_insert_walk hs i neg (v # vs) k =
     (if is_leaf k then Inl Assert_Failed
      else res_bind (node_match hs (fval_type v) (raw_val v) k) (\<lambda>(p, cnt).
        case p of
          Some q \<Rightarrow>
            res_bind (check_insert_walk hs i neg (push_rest v @ vs) (snd (child_at q k))) (\<lambda>r.
            Inr (case r of Grown c \<Rightarrow> Grown (set_child q c k) | _ \<Rightarrow> r))
        | None \<Rightarrow>
            if neg then Inr Missing
            else Inr (Grown (node_insert hs (fval_type v) (raw_val v) (new_path hs i (push_rest v @ vs))
                        (grow hs (fval_type v) (cnt + 1) k)))))"
  by pat_completeness auto
termination
  by (relation "measure (\<lambda>(hs, i, neg, vs, k). stack_weight vs)") (auto simp: stack_weight_push)

section \<open>Taking a node out\<close>

text \<open>The identifiers of the leaves, in the order \<open>delete_branch\<close> visits them.\<close>

lemma size_kid: "n \<in> set (all_kids k) \<Longrightarrow> size (snd n) < size k"
proof (cases k)
  case (Siblings ns)
  assume "n \<in> set (all_kids k)"
  then have "n \<in> set ns" by (simp add: Siblings)
  then have "size (snd n) \<le> size_list (size_prod (\<lambda>_. 0) size) ns"
    by (intro size_list_estimation') (auto simp: size_prod_def split: prod.split)
  then show ?thesis by (simp add: Siblings)
next
  case (Hashed ty tot bs)
  assume "n \<in> set (all_kids k)"
  then obtain b where b: "b \<in> set bs" "n \<in> set b" by (auto simp: Hashed)
  then have "size (snd n) \<le> size_list (size_prod (\<lambda>_. 0) size) b"
    by (intro size_list_estimation') (auto simp: size_prod_def split: prod.split)
  also have "\<dots> \<le> size_list (size_list (size_prod (\<lambda>_. 0) size)) bs"
    by (rule size_list_estimation' [OF b(1)]) simp
  finally show ?thesis by (simp add: Hashed)
qed simp_all

function leaf_ids :: "kids \<Rightarrow> nat list" where
  "leaf_ids k = (case k of Leaf j \<Rightarrow> [j] | _ \<Rightarrow> concat (map (\<lambda>n. leaf_ids (snd n)) (all_kids k)))"
  by pat_completeness auto
termination
  by (relation "measure size") (auto dest: size_kid simp del: all_kids.simps)

declare leaf_ids.simps [simp del]

text \<open>The pointer from a leaf to its node.\<close>

fun find_pos :: "(tnode \<Rightarrow> bool) \<Rightarrow> tnode list \<Rightarrow> nat option" where
  "find_pos P [] = None"
| "find_pos P (n # ns) = (if P n then Some 0 else map_option Suc (find_pos P ns))"

fun find_bucket_pos :: "(tnode \<Rightarrow> bool) \<Rightarrow> tnode list list \<Rightarrow> (nat \<times> nat) option" where
  "find_bucket_pos P [] = None"
| "find_bucket_pos P (b # bs) =
     (case find_pos P b of
        Some i \<Rightarrow> Some (0, i)
      | None \<Rightarrow> map_option (map_prod Suc id) (find_bucket_pos P bs))"

definition kid_with_leaf :: "nat \<Rightarrow> kids \<Rightarrow> pos option" where
  "kid_with_leaf j k =
     (case k of
        Siblings ns \<Rightarrow> map_option At (find_pos (\<lambda>n. j \<in> set (leaf_ids (snd n))) ns)
      | Hashed ty tot bs \<Rightarrow>
          map_option (\<lambda>(b, i). InBucket b i) (find_bucket_pos (\<lambda>n. j \<in> set (leaf_ids (snd n))) bs)
      | _ \<Rightarrow> None)"

text \<open>
  \<open>delete_path\<close>, from the node at the path up to the root: a node whose child pointer
  has become null is unlinked from its siblings; in a hash table the total goes down,
  and the table is deleted when it is empty.
\<close>

definition drop_nth :: "nat \<Rightarrow> 'a list \<Rightarrow> 'a list" where
  "drop_nth i xs = take i xs @ drop (Suc i) xs"

fun unlink :: "pos \<Rightarrow> kids \<Rightarrow> kids" where
  "unlink (At i) (Siblings ns) = (if drop_nth i ns = [] then Empty else Siblings (drop_nth i ns))"
| "unlink (InBucket b i) (Hashed ty tot bs) =
     (if tot - 1 = 0 then Empty else Hashed ty (tot - 1) (bs[b := drop_nth i (bs ! b)]))"
| "unlink _ k = k"

fun delete_path :: "pos list \<Rightarrow> kids \<Rightarrow> kids" where
  "delete_path [] k = Empty"
| "delete_path (p # ps) k =
     (let c = delete_path ps (snd (child_at p k))
      in if c = Empty then unlink p k else set_child p c k)"

lemma find_pos_Some: "find_pos P ns = Some i \<Longrightarrow> i < length ns \<and> P (ns ! i)"
  by (induction ns arbitrary: i) (auto split: if_splits)

lemma find_pos_None: "find_pos P ns = None \<longleftrightarrow> (\<forall>n \<in> set ns. \<not> P n)"
  by (induction ns) auto

lemma find_bucket_pos_Some:
  "find_bucket_pos P bs = Some (b, i) \<Longrightarrow> b < length bs \<and> i < length (bs ! b) \<and> P (bs ! b ! i)"
proof (induction bs arbitrary: b)
  case (Cons c bs)
  show ?case
  proof (cases "find_pos P c")
    case None
    with Cons show ?thesis by (auto simp: map_prod_def)
  next
    case (Some j)
    with Cons.prems find_pos_Some [OF Some] show ?thesis by auto
  qed
qed simp

lemma find_bucket_pos_None: "find_bucket_pos P bs = None \<longleftrightarrow> (\<forall>n \<in> set (concat bs). \<not> P n)"
proof (induction bs)
  case (Cons b bs)
  show ?case
  proof (cases "find_pos P b")
    case None
    with Cons find_pos_None [of P b] show ?thesis by auto
  next
    case (Some i)
    with Cons find_pos_Some [OF Some] show ?thesis by (auto intro!: bexI [of _ "b ! i"])
  qed
qed simp

lemma child_at_Siblings: "i < length ns \<Longrightarrow> child_at (At i) (Siblings ns) \<in> set (all_kids (Siblings ns))"
  by simp

lemma child_at_Hashed:
  "b < length bs \<Longrightarrow> i < length (bs ! b) \<Longrightarrow>
   child_at (InBucket b i) (Hashed ty tot bs) \<in> set (all_kids (Hashed ty tot bs))"
  by (auto intro!: bexI [of _ "bs ! b"])

lemma kid_with_leaf_Some:
  "kid_with_leaf j k = Some p \<Longrightarrow> child_at p k \<in> set (all_kids k) \<and> j \<in> set (leaf_ids (snd (child_at p k)))"
proof (cases k)
  case (Siblings ns)
  assume "kid_with_leaf j k = Some p"
  with Siblings show ?thesis by (auto simp: kid_with_leaf_def dest!: find_pos_Some)
next
  case (Hashed ty tot bs)
  assume "kid_with_leaf j k = Some p"
  with Hashed obtain b i where bi: "find_bucket_pos (\<lambda>n. j \<in> set (leaf_ids (snd n))) bs = Some (b, i)" "p = InBucket b i"
    by (auto simp: kid_with_leaf_def)
  from find_bucket_pos_Some [OF bi(1)] child_at_Hashed [of b bs i ty tot] show ?thesis
    by (simp add: Hashed bi(2))
qed (simp_all add: kid_with_leaf_def)

function leaf_path :: "nat \<Rightarrow> kids \<Rightarrow> pos list option" where
  "leaf_path j k =
     (case k of
        Leaf i \<Rightarrow> if i = j then Some [] else None
      | _ \<Rightarrow>
          (case kid_with_leaf j k of
             None \<Rightarrow> None
           | Some p \<Rightarrow> map_option (\<lambda>ps. p # ps) (leaf_path j (snd (child_at p k)))))"
  by pat_completeness auto
termination
  by (relation "measure (\<lambda>(j, k). size k)") (auto dest!: kid_with_leaf_Some size_kid)

declare leaf_path.simps [simp del]

end
