(* ===== verification/Trie_Lookup.thy ===== *)
theory Trie_Lookup
  imports Db_Trie
begin

text \<open>
  What the tree of \<open>db/trie.cpp\<close> stands for: a finite map from stacks of field values
  to leaves. \<open>lookup\<close> is that map, without hash tables; the well-formedness
  \<open>wf_kids\<close> says that the children of a node are told apart by their data and lie in
  their buckets. The lemmas show what the walk of \<open>check_insert\<close> and \<open>delete_path\<close> do
  to the map.
\<close>

section \<open>Keys\<close>

fun next_types :: "field_type \<Rightarrow> 64 word \<Rightarrow> field_type list" where
  "next_types FIELD_LIST_INT d = (if (ucast d :: int_val) = 0 then [] else [FIELD_INT, FIELD_LIST_INT])"
| "next_types FIELD_LIST_FLOAT d = (if (ucast d :: int_val) = 0 then [] else [FIELD_FLOAT, FIELD_LIST_FLOAT])"
| "next_types FIELD_LIST_NODE d = (if (ucast d :: int_val) = 0 then [] else [FIELD_NODE, FIELD_LIST_NODE])"
| "next_types _ d = []"

text \<open>
  Values that the comparison of the trie finds again: no NaN, and no string at an
  address of more than 32 bits, whose upper half \<open>trie_node::match\<close> loses
  (\<open>db/trie.cpp:190\<close>). Every property of the trie below is about facts of such values.
\<close>

fun storable :: "fval \<Rightarrow> bool" where
  "storable (FFloat a) = (\<not> float_is_nan a)"
| "storable (FLFloat as) = list_all (\<lambda>a. \<not> float_is_nan a) as"
| "storable (FString p) = (ucast (ucast p :: node_val) = p)"
| "storable (FRaw b p) = False"
| "storable _ = True"

fun key_ok :: "field_type \<Rightarrow> 64 word \<Rightarrow> bool" where
  "key_ok FIELD_INT d = True"
| "key_ok FIELD_FLOAT d = (\<not> float_is_nan d)"
| "key_ok FIELD_NODE d = True"
| "key_ok FIELD_STRING d = (ucast (ucast d :: node_val) = d)"
| "key_ok (FIELD_OTHER b) d = False"
| "key_ok _ d = (d = 0 \<or> d = 1)"

lemma key_ok_raw: "storable v \<Longrightarrow> key_ok (fval_type v) (raw_val v)"
  by (cases v) auto

lemma key_ok_known: "key_ok ty d \<Longrightarrow> \<not> other_type ty"
  by (cases ty) (auto simp: other_type_def)

lemma storable_push: "storable v \<Longrightarrow> list_all storable (push_rest v)"
  by (cases v rule: push_rest.cases) auto

lemma types_push: "map fval_type (push_rest v) = next_types (fval_type v) (raw_val v)"
  by (cases v rule: push_rest.cases) auto

lemma same_data_refl: "key_ok ty d \<Longrightarrow> same_data ty d d"
  by (cases ty) (auto simp: float_eq_refl_iff)

lemma same_data_sym: "key_ok ty d \<Longrightarrow> key_ok ty e \<Longrightarrow> same_data ty d e \<Longrightarrow> same_data ty e d"
  by (cases ty) (auto intro: float_eq_sym)

lemma same_data_trans:
  "key_ok ty d \<Longrightarrow> key_ok ty e \<Longrightarrow> same_data ty d e \<Longrightarrow> same_data ty e f \<Longrightarrow> same_data ty d f"
  by (cases ty) (auto intro: float_eq_trans)

lemma same_data_next: "same_data ty d e \<Longrightarrow> next_types ty d = next_types ty e"
  by (cases ty) auto

lemma ucast_round: "(ucast (ucast (x :: 32 word) :: 64 word) :: 32 word) = x"
  by (rule bit_eqI) (auto simp: bit_simps dest: bit_imp_le_length)

lemma same_data_hash: "hash_law hs \<Longrightarrow> same_data ty d e \<Longrightarrow> hash_data hs ty d = hash_data hs ty e"
  by (cases ty) (auto simp: hash_law_def ucast_round)

lemma hash_item_less: "0 < n \<Longrightarrow> hash_item n x < n"
proof -
  assume "0 < n"
  have "int (x AND (n - 1)) \<le> int (n - 1)" by (simp add: of_nat_and_eq)
  with \<open>0 < n\<close> show ?thesis by (simp add: hash_item_def)
qed

lemma bucket_of_less: "0 < n \<Longrightarrow> bucket_of hs ty n d < n"
  by (simp add: bucket_of_def hash_item_less)

section \<open>Well-formed trees\<close>

definition uniq :: "field_type \<Rightarrow> tnode multiset \<Rightarrow> bool" where
  "uniq ty M \<longleftrightarrow> (\<forall>e. size (filter_mset (\<lambda>n. same_data ty (fst n) e) M) \<le> 1)"

definition layout_ok :: "hashes \<Rightarrow> field_type \<Rightarrow> kids \<Rightarrow> bool" where
  "layout_ok hs ty k =
     (case k of
        Siblings ns \<Rightarrow> True
      | Hashed hty tot bs \<Rightarrow>
          hty = ty \<and> tot = length (concat bs) \<and> bs \<noteq> [] \<and>
          (\<forall>b < length bs. \<forall>n \<in> set (bs ! b). bucket_of hs ty (length bs) (fst n) = b)
      | _ \<Rightarrow> False)"

inductive wf_kids :: "hashes \<Rightarrow> field_type list \<Rightarrow> kids \<Rightarrow> bool" for hs where
  wf_leaf: "wf_kids hs [] (Leaf j)"
| wf_node: "layout_ok hs t k \<Longrightarrow> all_kids k \<noteq> [] \<Longrightarrow> uniq t (mset (all_kids k)) \<Longrightarrow>
    \<forall>n \<in> set (all_kids k). key_ok t (fst n) \<and> wf_kids hs (next_types t (fst n) @ ts) (snd n) \<Longrightarrow>
    wf_kids hs (t # ts) k"

inductive_cases wf_kids_NilE: "wf_kids hs [] k"
inductive_cases wf_kids_ConsE: "wf_kids hs (t # ts) k"

lemma wf_not_Empty [simp]: "\<not> wf_kids hs ts Empty"
  by (auto elim: wf_kids.cases)

section \<open>The map\<close>

definition pick :: "field_type \<Rightarrow> 64 word \<Rightarrow> kids \<Rightarrow> tnode option" where
  "pick ty e k = find (\<lambda>n. same_data ty (fst n) e) (all_kids k)"

function lookup :: "fval list \<Rightarrow> kids \<Rightarrow> nat option" where
  "lookup [] k = (case k of Leaf j \<Rightarrow> Some j | _ \<Rightarrow> None)"
| "lookup (v # vs) k =
     (case pick (fval_type v) (raw_val v) k of
        None \<Rightarrow> None
      | Some n \<Rightarrow> lookup (push_rest v @ vs) (snd n))"
  by pat_completeness auto
termination
  by (relation "measure (\<lambda>(vs, k). stack_weight vs)") (auto simp: stack_weight_push)

lemma find_filter: "find P xs = (case filter P xs of [] \<Rightarrow> None | x # _ \<Rightarrow> Some x)"
  by (induction xs) auto

lemma pick_mset:
  assumes "filter_mset (\<lambda>n. same_data ty (fst n) e) (mset (all_kids k)) = {#n#}"
  shows "pick ty e k = Some n"
proof -
  have "mset (filter (\<lambda>n. same_data ty (fst n) e) (all_kids k)) = {#n#}" using assms by simp
  then have "filter (\<lambda>n. same_data ty (fst n) e) (all_kids k) = [n]" by (simp only: mset_single_iff)
  then show ?thesis by (simp add: pick_def find_filter)
qed

lemma pick_None_iff: "pick ty e k = None \<longleftrightarrow> (\<forall>n \<in> set (all_kids k). \<not> same_data ty (fst n) e)"
  by (auto simp: pick_def find_None_iff)

lemma pick_mset_None:
  "filter_mset (\<lambda>n. same_data ty (fst n) e) (mset (all_kids k)) = {#} \<Longrightarrow> pick ty e k = None"
proof -
  assume e: "filter_mset (\<lambda>n. same_data ty (fst n) e) (mset (all_kids k)) = {#}"
  have "\<not> same_data ty (fst n) e" if "n \<in> set (all_kids k)" for n
  proof
    assume "same_data ty (fst n) e"
    with that have "n \<in># filter_mset (\<lambda>n. same_data ty (fst n) e) (mset (all_kids k))" by simp
    then show False unfolding e by simp
  qed
  then show ?thesis by (simp add: pick_None_iff)
qed

lemma pick_Some_in: "pick ty e k = Some n \<Longrightarrow> n \<in> set (all_kids k) \<and> same_data ty (fst n) e"
  by (auto simp: pick_def find_Some_iff)

lemma uniq_pick:
  assumes "uniq ty (mset (all_kids k))" and "n \<in> set (all_kids k)" and "same_data ty (fst n) e"
  shows "filter_mset (\<lambda>n. same_data ty (fst n) e) (mset (all_kids k)) = {#n#}" and "pick ty e k = Some n"
proof -
  let ?F = "filter_mset (\<lambda>n. same_data ty (fst n) e) (mset (all_kids k))"
  have "n \<in># ?F" using assms by simp
  then obtain M where M: "?F = add_mset n M" by (metis mset_add)
  have "size ?F \<le> 1" using assms(1) unfolding uniq_def by blast
  then show "?F = {#n#}" unfolding M by simp
  then show "pick ty e k = Some n" by (rule pick_mset)
qed

section \<open>The operations on the children of a node\<close>

lemma find_sib_Some:
  "find_sib ty e ns = Some i \<Longrightarrow> i < length ns \<and> same_data ty (fst (ns ! i)) e"
  by (induction ns arbitrary: i) (auto split: if_splits)

lemma find_sib_None: "find_sib ty e ns = None \<longleftrightarrow> (\<forall>n \<in> set ns. \<not> same_data ty (fst n) e)"
  by (induction ns) auto

lemma mset_concat_update:
  "b < length bs \<Longrightarrow> mset (concat (bs[b := c])) + mset (bs ! b) = mset (concat bs) + mset c"
proof -
  assume b: "b < length bs"
  have "concat bs = concat (take b bs) @ bs ! b @ concat (drop (Suc b) bs)"
    by (subst (1) id_take_nth_drop [OF b]) simp
  moreover have "concat (bs[b := c]) = concat (take b bs) @ c @ concat (drop (Suc b) bs)"
    using b by (simp add: upd_conv_take_nth_drop)
  ultimately show ?thesis by simp
qed

lemma mset_nth_update: "i < length ns \<Longrightarrow> mset (ns[i := x]) + {#ns ! i#} = add_mset x (mset ns)"
  by (simp add: mset_update)

lemma layout_okD:
  assumes "layout_ok hs ty (Hashed hty tot bs)"
  shows "hty = ty" and "tot = length (concat bs)" and "0 < length bs"
    and "b < length bs \<Longrightarrow> n \<in> set (bs ! b) \<Longrightarrow> bucket_of hs ty (length bs) (fst n) = b"
  using assms by (auto simp: layout_ok_def)

text \<open>Replacing the subtree of a child.\<close>

lemma set_child_spec:
  assumes "layout_ok hs ty k" and p: "case p of At i \<Rightarrow> \<exists>ns. k = Siblings ns \<and> i < length ns
    | InBucket b i \<Rightarrow> \<exists>hty tot bs. k = Hashed hty tot bs \<and> b < length bs \<and> i < length (bs ! b)"
  shows "child_at p k \<in> set (all_kids k)"
    and "mset (all_kids (set_child p c k)) + {#child_at p k#} =
           add_mset (fst (child_at p k), c) (mset (all_kids k))"
    and "layout_ok hs ty (set_child p c k)"
proof (atomize (full), cases p)
  case (At i)
  then obtain ns where ns: "k = Siblings ns" "i < length ns" using p by auto
  then show "child_at p k \<in> set (all_kids k) \<and>
      mset (all_kids (set_child p c k)) + {#child_at p k#} = add_mset (fst (child_at p k), c) (mset (all_kids k)) \<and>
      layout_ok hs ty (set_child p c k)"
    using mset_nth_update [OF ns(2)] by (simp add: At layout_ok_def)
next
  case (InBucket b i)
  then obtain hty tot bs where bs: "k = Hashed hty tot bs" "b < length bs" "i < length (bs ! b)" using p by auto
  note lay = layout_okD [OF assms(1) [unfolded bs(1)]]
  let ?b' = "(bs ! b)[i := (fst (bs ! b ! i), c)]"
  have "mset (concat (bs[b := ?b'])) + mset (bs ! b) + {#bs ! b ! i#} =
      mset (concat bs) + (mset ?b' + {#bs ! b ! i#})"
    unfolding mset_concat_update [OF bs(2)] by simp
  also have "\<dots> = mset (concat bs) + add_mset (fst (bs ! b ! i), c) (mset (bs ! b))"
    unfolding mset_nth_update [OF bs(3)] ..
  finally have m: "mset (concat (bs[b := ?b'])) + {#bs ! b ! i#} = add_mset (fst (bs ! b ! i), c) (mset (concat bs))"
    by simp
  then have "length (concat (bs[b := ?b'])) = length (concat bs)"
  proof -
    have "size (mset (concat (bs[b := ?b'])) + {#bs ! b ! i#}) = size (add_mset (fst (bs ! b ! i), c) (mset (concat bs)))"
      unfolding m ..
    then have "length (concat (bs[b := ?b'])) + 1 = Suc (length (concat bs))"
      by (simp only: size_union size_single size_add_mset size_mset size_empty One_nat_def)
    then show ?thesis by simp
  qed
  moreover have "bucket_of hs ty (length bs) (fst n) = a" if "a < length bs" "n \<in> set (bs[b := ?b'] ! a)" for a n
  proof (cases "a = b")
    case True
    with that bs have "n \<in> set (bs ! b) \<or> n = (fst (bs ! b ! i), c)"
      by (auto dest: set_update_subset_insert [THEN subsetD])
    then show ?thesis
    proof
      assume "n \<in> set (bs ! b)"
      then show ?thesis using lay(4) [OF bs(2)] True by simp
    next
      assume "n = (fst (bs ! b ! i), c)"
      then show ?thesis using lay(4) [OF bs(2) nth_mem [OF bs(3)]] True by simp
    qed
  next
    case False
    with that lay(4) show ?thesis by simp
  qed
  moreover have "child_at p k \<in> set (all_kids k)"
    using child_at_Hashed [OF bs(2,3)] by (simp add: bs(1) InBucket)
  ultimately show "child_at p k \<in> set (all_kids k) \<and>
      mset (all_kids (set_child p c k)) + {#child_at p k#} = add_mset (fst (child_at p k), c) (mset (all_kids k)) \<and>
      layout_ok hs ty (set_child p c k)"
    using m lay(1-3) by (simp add: bs(1) InBucket layout_ok_def)
qed

definition valid_pos :: "pos \<Rightarrow> kids \<Rightarrow> bool" where
  "valid_pos p k \<longleftrightarrow> (case p of At i \<Rightarrow> \<exists>ns. k = Siblings ns \<and> i < length ns
    | InBucket b i \<Rightarrow> \<exists>hty tot bs. k = Hashed hty tot bs \<and> b < length bs \<and> i < length (bs ! b))"

lemmas set_child = set_child_spec [folded valid_pos_def]

text \<open>\<open>node_match\<close> finds the child that \<open>pick\<close> finds, by way of its bucket.\<close>

lemma node_match_spec:
  assumes law: "hash_law hs" and lay: "layout_ok hs ty k" and u: "uniq ty (mset (all_kids k))" and e: "key_ok ty e"
  shows "\<exists>p c. node_match hs ty e k = Inr (p, c) \<and>
    (case p of None \<Rightarrow> pick ty e k = None | Some q \<Rightarrow> valid_pos q k \<and> pick ty e k = Some (child_at q k))"
proof (cases k)
  case (Siblings ns)
  show ?thesis
  proof (cases "find_sib ty e ns")
    case None
    then have "pick ty e k = None" using find_sib_None [of ty e ns] by (simp add: pick_None_iff Siblings)
    then show ?thesis using None key_ok_known [OF e] by (simp add: node_match_def Siblings)
  next
    case (Some i)
    note i = find_sib_Some [OF Some]
    have "pick ty e k = Some (ns ! i)" by (rule uniq_pick(2) [OF u]) (use i in \<open>auto simp: Siblings\<close>)
    then show ?thesis using Some i key_ok_known [OF e] by (auto simp: node_match_def Siblings valid_pos_def)
  qed
next
  case (Hashed hty tot bs)
  note ly = layout_okD [OF lay [unfolded Hashed]]
  let ?b = "bucket_of hs ty (length bs) e"
  have b: "?b < length bs" using ly(3) by (rule bucket_of_less)
  have inb: "n \<in> set (bs ! ?b)" if n: "n \<in> set (concat bs)" "same_data ty (fst n) e" for n
  proof -
    obtain x where "x \<in> set bs" "n \<in> set x" using n(1) by auto
    then obtain a where a: "a < length bs" "n \<in> set (bs ! a)" by (auto simp: in_set_conv_nth [of x])
    have "a = bucket_of hs ty (length bs) (fst n)" using ly(4) [OF a] by simp
    also have "\<dots> = ?b" using same_data_hash [OF law n(2)] by (simp add: bucket_of_def)
    finally show ?thesis using a by simp
  qed
  show ?thesis
  proof (cases "find_sib ty e (bs ! ?b)")
    case None
    then have "\<forall>n \<in> set (concat bs). \<not> same_data ty (fst n) e" using inb find_sib_None by blast
    then have "pick ty e k = None" by (simp add: pick_None_iff Hashed)
    then show ?thesis using None key_ok_known [OF e] by (simp add: node_match_def Hashed Let_def)
  next
    case (Some i)
    note i = find_sib_Some [OF Some]
    have "bs ! ?b ! i \<in> set (all_kids k)" using child_at_Hashed [of ?b bs i] b i by (simp add: Hashed)
    then have "pick ty e k = Some (bs ! ?b ! i)" using i by (intro uniq_pick(2) [OF u]) simp_all
    then show ?thesis using Some i b key_ok_known [OF e]
      by (auto simp: node_match_def Hashed valid_pos_def Let_def)
  qed
qed (use lay in \<open>simp_all add: layout_ok_def\<close>)

definition placed :: "hashes \<Rightarrow> field_type \<Rightarrow> tnode list list \<Rightarrow> bool" where
  "placed hs ty bs \<longleftrightarrow> (\<forall>b < length bs. \<forall>n \<in> set (bs ! b). bucket_of hs ty (length bs) (fst n) = b)"

lemma layout_ok_Hashed:
  "layout_ok hs ty (Hashed hty tot bs) \<longleftrightarrow> hty = ty \<and> tot = length (concat bs) \<and> bs \<noteq> [] \<and> placed hs ty bs"
  by (simp add: layout_ok_def placed_def)

lemma bucket_insert_spec:
  assumes "bs \<noteq> []"
  shows "mset (concat (bucket_insert hs ty n bs)) = add_mset n (mset (concat bs))"
    and "length (bucket_insert hs ty n bs) = length bs"
    and "placed hs ty bs \<Longrightarrow> placed hs ty (bucket_insert hs ty n bs)"
proof -
  let ?b = "bucket_of hs ty (length bs) (fst n)"
  have b: "?b < length bs" using assms by (intro bucket_of_less) simp
  show "mset (concat (bucket_insert hs ty n bs)) = add_mset n (mset (concat bs))"
    using mset_concat_update [OF b, of "n # bs ! ?b"] by (simp add: bucket_insert_def Let_def)
  show "length (bucket_insert hs ty n bs) = length bs" by (simp add: bucket_insert_def Let_def)
  show "placed hs ty bs \<Longrightarrow> placed hs ty (bucket_insert hs ty n bs)"
    using b by (auto simp: placed_def bucket_insert_def Let_def nth_list_update split: if_splits)
qed

lemma fold_bucket_insert_spec:
  "bs \<noteq> [] \<Longrightarrow> placed hs ty bs \<Longrightarrow>
   mset (concat (fold (bucket_insert hs ty) ns bs)) = mset ns + mset (concat bs) \<and>
   placed hs ty (fold (bucket_insert hs ty) ns bs) \<and> length (fold (bucket_insert hs ty) ns bs) = length bs"
proof (induction ns arbitrary: bs)
  case (Cons n ns)
  have "bucket_insert hs ty n bs \<noteq> []" using bucket_insert_spec(2) [OF Cons.prems(1), of hs ty n] Cons.prems(1) by auto
  from Cons.IH [OF this] bucket_insert_spec [OF Cons.prems(1), where hs = hs and ty = ty and n = n] Cons.prems
  show ?case by simp
qed simp

lemma fold_empty_buckets:
  assumes "0 < m"
  shows "mset (concat (fold (bucket_insert hs ty) ns (replicate m []))) = mset ns"
    and "placed hs ty (fold (bucket_insert hs ty) ns (replicate m []))"
    and "fold (bucket_insert hs ty) ns (replicate m []) \<noteq> []"
proof -
  have e: "replicate m [] \<noteq> []" "placed hs ty (replicate m [])" "concat (replicate m []) = ([] :: tnode list)"
    using assms by (auto simp: placed_def)
  note f = fold_bucket_insert_spec [OF e(1,2), of ns]
  from f show "mset (concat (fold (bucket_insert hs ty) ns (replicate m []))) = mset ns"
    "placed hs ty (fold (bucket_insert hs ty) ns (replicate m []))"
    by (simp_all add: e(3))
  from f assms show "fold (bucket_insert hs ty) ns (replicate m []) \<noteq> []" by force
qed

lemma mset_length_eq: "mset xs = mset ys \<Longrightarrow> length xs = length ys"
  by (metis size_mset)

lemma grow_spec:
  assumes "layout_ok hs ty k"
  shows "layout_ok hs ty (grow hs ty c k)" and "mset (all_kids (grow hs ty c k)) = mset (all_kids k)"
proof (atomize (full), cases k)
  case (Siblings ns)
  note f = fold_empty_buckets [of TRIE_HASH_BASE_BUCKETS hs ty ns]
  have "0 < TRIE_HASH_BASE_BUCKETS" by (simp add: TRIE_HASH_BASE_BUCKETS_def)
  with f mset_length_eq [OF f(1)] show "layout_ok hs ty (grow hs ty c k) \<and>
      mset (all_kids (grow hs ty c k)) = mset (all_kids k)"
    by (simp add: Siblings grow_def convert_hash_def layout_ok_Hashed) (simp add: layout_ok_def)
next
  case (Hashed hty tot bs)
  note ly = assms [unfolded Hashed layout_ok_Hashed]
  then have "0 < 2 * length bs" by simp
  from fold_empty_buckets [OF this, of hs hty "concat bs"]
  have "mset (concat (hash_expand hs hty bs)) = mset (concat bs)" "placed hs hty (hash_expand hs hty bs)"
      "hash_expand hs hty bs \<noteq> []"
    by (simp_all only: hash_expand_def not_False_eq_True)
  with ly mset_length_eq [of "concat (hash_expand hs hty bs)" "concat bs"] show "layout_ok hs ty (grow hs ty c k) \<and>
      mset (all_kids (grow hs ty c k)) = mset (all_kids k)"
    by (auto simp: Hashed grow_def layout_ok_Hashed)
qed (use assms in \<open>simp_all add: layout_ok_def\<close>)

lemma node_insert_spec:
  assumes "layout_ok hs ty k \<or> k = Empty"
  shows "layout_ok hs ty (node_insert hs ty d sub k)"
    and "mset (all_kids (node_insert hs ty d sub k)) = add_mset (d, sub) (mset (all_kids k))"
proof (atomize (full), cases k)
  case (Hashed hty tot bs)
  then have ly: "hty = ty" "tot = length (concat bs)" "bs \<noteq> []" "placed hs ty bs"
    using assms by (simp_all add: layout_ok_Hashed)
  note b = bucket_insert_spec [OF ly(3), where hs = hs and ty = ty and n = "(d, sub)"]
  have "length (concat (bucket_insert hs ty (d, sub) bs)) = tot + 1"
    using mset_length_eq [of "concat (bucket_insert hs ty (d, sub) bs)" "(d, sub) # concat bs"] b(1) ly(2) by simp
  moreover have "bucket_insert hs ty (d, sub) bs \<noteq> []" using b(2) ly(3) by auto
  ultimately show "layout_ok hs ty (node_insert hs ty d sub k) \<and>
      mset (all_kids (node_insert hs ty d sub k)) = add_mset (d, sub) (mset (all_kids k))"
    using b ly by (simp add: Hashed node_insert_def layout_ok_Hashed)
qed (use assms in \<open>simp_all add: node_insert_def layout_ok_def\<close>)

section \<open>One step of the map\<close>

lemma fval_same_step:
  assumes "fval_type v = fval_type w" and "storable v" and "storable w"
  shows "fval_same v w \<longleftrightarrow>
    same_data (fval_type v) (raw_val v) (raw_val w) \<and> list_all2 fval_same (push_rest v) (push_rest w)"
  using assms
proof (cases v)
  case (FLInt xs)
  with assms obtain ys where "w = FLInt ys" by (cases w) auto
  with FLInt show ?thesis by (cases xs; cases ys) auto
next
  case (FLFloat xs)
  with assms obtain ys where "w = FLFloat ys" by (cases w) auto
  with FLFloat show ?thesis by (cases xs; cases ys) auto
next
  case (FLNode xs)
  with assms obtain ys where "w = FLNode ys" by (cases w) auto
  with FLNode show ?thesis by (cases xs; cases ys) auto
qed (cases w; auto simp: ucast_round)+

lemma same_step:
  assumes "fval_type v = fval_type w" and "storable v" and "storable w"
  shows "list_all2 fval_same (v # vs) (w # ws) \<longleftrightarrow>
    same_data (fval_type v) (raw_val v) (raw_val w) \<and> list_all2 fval_same (push_rest v @ vs) (push_rest w @ ws)"
proof (cases "same_data (fval_type v) (raw_val v) (raw_val w)")
  case True
  have "length (push_rest v) = length (push_rest w)"
    using same_data_next [OF True] types_push [of v] types_push [of w] assms(1) by (metis length_map)
  with True fval_same_step [OF assms] show ?thesis by (auto simp: list_all2_append)
qed (use fval_same_step [OF assms] in simp)

lemma same_data_join:
  "key_ok ty a \<Longrightarrow> key_ok ty b \<Longrightarrow> same_data ty a e \<Longrightarrow> same_data ty b e \<Longrightarrow> same_data ty a b"
  by (cases ty) (auto intro: float_eq_trans dest: float_eq_sym)

lemma uniq_fst:
  "uniq ty M \<longleftrightarrow> (\<forall>e. size (filter_mset (\<lambda>d. same_data ty d e) (image_mset fst M)) \<le> 1)"
  by (simp add: uniq_def filter_mset_image_mset)

lemma uniq_add:
  assumes u: "uniq ty M" and k: "\<forall>n \<in># M. key_ok ty (fst n)" "key_ok ty (fst x)"
    and new: "\<forall>n \<in># M. \<not> same_data ty (fst n) (fst x)"
  shows "uniq ty (add_mset x M)"
  unfolding uniq_def
proof
  fix e
  show "size (filter_mset (\<lambda>n. same_data ty (fst n) e) (add_mset x M)) \<le> 1"
  proof (cases "same_data ty (fst x) e")
    case True
    have "\<not> same_data ty (fst n) e" if "n \<in># M" for n
      using same_data_join [of ty "fst n" "fst x" e] k new True that by blast
    then have "filter_mset (\<lambda>n. same_data ty (fst n) e) M = {#}" by (auto simp: filter_mset_eq_conv)
    then show ?thesis using True by simp
  next
    case False
    then show ?thesis using u by (simp add: uniq_def)
  qed
qed

lemma pick_cong:
  assumes "filter_mset (\<lambda>n. same_data ty (fst n) e) (mset (all_kids k')) =
      filter_mset (\<lambda>n. same_data ty (fst n) e) (mset (all_kids k))"
    and "uniq ty (mset (all_kids k))"
  shows "pick ty e k' = pick ty e k"
proof (cases "pick ty e k")
  case None
  then have "filter_mset (\<lambda>n. same_data ty (fst n) e) (mset (all_kids k)) = {#}"
    by (auto simp: pick_None_iff filter_mset_eq_conv)
  then show ?thesis using None assms(1) by (simp add: pick_mset_None)
next
  case (Some n)
  have "n \<in> set (all_kids k)" "same_data ty (fst n) e" using pick_Some_in [OF Some] by auto
  from uniq_pick(1) [OF assms(2) this] show ?thesis
    unfolding Some by (intro pick_mset) (simp only: assms(1))
qed

lemma mset_concat_map: "mset (concat (map f xs)) = (\<Sum>x \<in># mset xs. mset (f x))"
  by (induction xs) auto

lemma leaf_ids_mset:
  "\<not> is_leaf k \<Longrightarrow> mset (leaf_ids k) = (\<Sum>n \<in># mset (all_kids k). mset (leaf_ids (snd n)))"
  by (subst leaf_ids.simps) (auto simp: mset_concat_map split: kids.splits simp del: all_kids.simps)

lemma leaf_ids_node: "\<not> is_leaf k \<Longrightarrow> leaf_ids k = concat (map (\<lambda>n. leaf_ids (snd n)) (all_kids k))"
  by (subst leaf_ids.simps) (cases k; simp)

lemma leaf_ids_Leaf [simp]: "leaf_ids (Leaf j) = [j]"
  by (subst leaf_ids.simps) simp

lemma leaf_ids_Empty [simp]: "leaf_ids Empty = []"
  by (subst leaf_ids.simps) simp

lemma layout_not_leaf: "layout_ok hs ty k \<Longrightarrow> \<not> is_leaf k \<and> k \<noteq> Empty"
  by (cases k) (auto simp: layout_ok_def)

text \<open>
  The node \<open>k'\<close> has the child \<open>n'\<close> and otherwise the children \<open>M\<close>; \<open>k\<close> had them and
  perhaps a child with the same data.
\<close>

lemma changed_child:
  assumes lay: "layout_ok hs t k'" and m': "mset (all_kids k') = add_mset n' M"
    and m: "mset (all_kids k) = M \<or> (\<exists>n. mset (all_kids k) = add_mset n M \<and> fst n = fst n')"
    and old: "\<forall>n \<in># M. key_ok t (fst n) \<and> wf_kids hs (next_types t (fst n) @ ts) (snd n)"
    and new: "key_ok t (fst n')" "wf_kids hs (next_types t (fst n') @ ts) (snd n')"
    and u': "uniq t (add_mset n' M)" and u: "uniq t (mset (all_kids k))"
  shows "wf_kids hs (t # ts) k'"
    and "same_data t (fst n') e \<Longrightarrow> pick t e k' = Some n'"
    and "\<not> same_data t (fst n') e \<Longrightarrow> pick t e k' = pick t e k"
proof -
  have s: "set (all_kids k') = set_mset (add_mset n' M)" by (metis m' set_mset_mset)
  then show "wf_kids hs (t # ts) k'"
    using lay old new u' m' by (intro wf_node) auto
  show "same_data t (fst n') e \<Longrightarrow> pick t e k' = Some n'"
    using u' m' s by (intro uniq_pick(2)) auto
  show "\<not> same_data t (fst n') e \<Longrightarrow> pick t e k' = pick t e k"
    using m m' by (intro pick_cong [OF _ u]) auto
qed

section \<open>What the walk does to the map\<close>

lemma Empty_facts [simp]: "uniq t {#}" "pick t e Empty = None"
  by (simp_all add: uniq_def pick_def)

declare new_path.simps(2) [simp del]

lemma new_path_spec:
  "list_all storable vs \<Longrightarrow>
   wf_kids hs (map fval_type vs) (new_path hs i vs) \<and> leaf_ids (new_path hs i vs) = [i] \<and>
   (\<forall>ws. map fval_type ws = map fval_type vs \<longrightarrow> list_all storable ws \<longrightarrow>
      lookup ws (new_path hs i vs) = (if list_all2 fval_same vs ws then Some i else None))"
proof (induction vs rule: measure_induct_rule [of stack_weight])
  case (less vs)
  show ?case
  proof (cases vs)
    case Nil
    then show ?thesis by (auto intro: wf_leaf)
  next
    case (Cons v us)
    let ?c = "new_path hs i (push_rest v @ us)" and ?k = "new_path hs i (v # us)"
    have st: "storable v" "list_all storable us" using less.prems Cons by auto
    have IH: "wf_kids hs (map fval_type (push_rest v @ us)) ?c" "leaf_ids ?c = [i]"
      "\<And>ws. map fval_type ws = map fval_type (push_rest v @ us) \<Longrightarrow> list_all storable ws \<Longrightarrow>
         lookup ws ?c = (if list_all2 fval_same (push_rest v @ us) ws then Some i else None)"
      using less.IH [of "push_rest v @ us"] Cons stack_weight_push [of v us] storable_push [OF st(1)] st(2)
      by auto
    have k: "?k = Siblings [(raw_val v, ?c)]" by (simp add: new_path.simps(2) node_insert_def)
    have wf: "wf_kids hs (map fval_type (v # us)) ?k"
      using IH(1) types_push [of v] key_ok_raw [OF st(1)]
      by (simp add: k) (rule wf_node, auto simp: layout_ok_def uniq_def)
    have lk: "lookup ws ?k = (if list_all2 fval_same (v # us) ws then Some i else None)"
      if ws: "map fval_type ws = map fval_type (v # us)" "list_all storable ws" for ws
    proof -
      obtain w xs where w: "ws = w # xs" "fval_type w = fval_type v" "map fval_type xs = map fval_type us"
          "storable w" "list_all storable xs"
        using ws by (cases ws) auto
      show ?thesis
      proof (cases "same_data (fval_type v) (raw_val v) (raw_val w)")
        case True
        have "map fval_type (push_rest w @ xs) = map fval_type (push_rest v @ us)"
          using same_data_next [OF True] w types_push [of v] types_push [of w] by simp
        moreover have "list_all storable (push_rest w @ xs)" using storable_push [OF w(4)] w(5) by simp
        ultimately show ?thesis
          using True IH(3) same_step [of v w us xs] w st(1) by (simp add: k pick_def w(1) del: list_all2_Cons)
      next
        case False
        then show ?thesis using same_step [of v w us xs] w st(1) by (simp add: k pick_def w(1) del: list_all2_Cons)
      qed
    qed
    have "leaf_ids ?k = [i]" using IH(2) by (subst leaf_ids.simps) (simp add: k)
    with wf lk show ?thesis unfolding Cons by blast
  qed
qed

text \<open>The stacks that have the types and the kind of values of \<open>vs\<close>.\<close>

definition alike :: "fval list \<Rightarrow> fval list \<Rightarrow> bool" where
  "alike vs ws \<longleftrightarrow> map fval_type ws = map fval_type vs \<and> list_all storable ws"

lemma alike_Cons:
  "alike (v # us) ws \<longleftrightarrow>
     (\<exists>w xs. ws = w # xs \<and> fval_type w = fval_type v \<and> storable w \<and> alike us xs)"
  by (cases ws) (auto simp: alike_def)

lemma alike_push:
  assumes "same_data (fval_type v) (raw_val v) (raw_val w)" and "fval_type w = fval_type v"
    and "storable w" and "alike us xs"
  shows "alike (push_rest v @ us) (push_rest w @ xs)"
  using same_data_next [OF assms(1)] assms types_push [of v] types_push [of w] storable_push [of w]
  by (simp add: alike_def)

lemma changed_lookup:
  assumes sv: "storable v" and d: "key_ok (fval_type v) d" "same_data (fval_type v) d (raw_val v)"
    and hit: "\<And>e. same_data (fval_type v) d e \<Longrightarrow> pick (fval_type v) e k' = Some (d, c)"
    and miss: "\<And>e. \<not> same_data (fval_type v) d e \<Longrightarrow> pick (fval_type v) e k' = pick (fval_type v) e k"
    and sub: "\<And>xs. alike (push_rest v @ us) xs \<Longrightarrow>
      lookup xs c = (if list_all2 fval_same (push_rest v @ us) xs then Some i else old xs)"
    and old: "\<And>e xs. same_data (fval_type v) d e \<Longrightarrow>
      (case pick (fval_type v) e k of None \<Rightarrow> None | Some n \<Rightarrow> lookup xs (snd n)) = old xs"
    and ws: "alike (v # us) ws"
  shows "lookup ws k' = (if list_all2 fval_same (v # us) ws then Some i else lookup ws k)"
proof -
  obtain w xs where w: "ws = w # xs" "fval_type w = fval_type v" "storable w" "alike us xs"
    using ws by (auto simp: alike_Cons)
  have kv: "key_ok (fval_type v) (raw_val v)" by (rule key_ok_raw [OF sv])
  have vd: "same_data (fval_type v) (raw_val v) d" by (rule same_data_sym [OF d(1) kv d(2)])
  have iff: "same_data (fval_type v) (raw_val v) (raw_val w) \<longleftrightarrow> same_data (fval_type v) d (raw_val w)"
    using same_data_trans [OF kv d(1) vd] same_data_trans [OF d(1) kv d(2)] by blast
  note st = same_step [OF w(2) [symmetric] sv w(3), of us xs]
  show ?thesis
  proof (cases "same_data (fval_type v) d (raw_val w)")
    case True
    then have al: "alike (push_rest v @ us) (push_rest w @ xs)" using iff w by (intro alike_push) auto
    have "lookup ws k = old (push_rest w @ xs)" using old [OF True] by (simp add: w(1,2))
    moreover have "lookup ws k' = lookup (push_rest w @ xs) c" using hit [OF True] by (simp add: w(1,2))
    ultimately show ?thesis using sub [OF al] st iff True unfolding w(1) by simp
  next
    case False
    then have "lookup ws k' = lookup ws k" using miss [OF False] by (simp add: w(1,2))
    moreover have "\<not> list_all2 fval_same (v # us) ws" unfolding w(1) using st iff False by blast
    ultimately show ?thesis by (simp only: if_False)
  qed
qed

text \<open>The two ways in which the tree grows: a new child, and a new subtree of a child.\<close>

lemma insert_step:
  assumes st: "storable v" "list_all storable us"
    and k1: "layout_ok hs (fval_type v) k1 \<or> k1 = Empty" "mset (all_kids k1) = mset (all_kids k)" "\<not> is_leaf k"
    and none: "pick (fval_type v) (raw_val v) k = None"
    and ch: "\<forall>n \<in> set (all_kids k). key_ok (fval_type v) (fst n) \<and>
      wf_kids hs (next_types (fval_type v) (fst n) @ map fval_type us) (snd n)"
    and u: "uniq (fval_type v) (mset (all_kids k))"
    and k': "k' = node_insert hs (fval_type v) (raw_val v) (new_path hs i (push_rest v @ us)) k1"
  shows "wf_kids hs (map fval_type (v # us)) k' \<and> mset (leaf_ids k') = add_mset i (mset (leaf_ids k)) \<and>
    (\<forall>ws. alike (v # us) ws \<longrightarrow> lookup ws k' = (if list_all2 fval_same (v # us) ws then Some i else lookup ws k))"
proof -
  let ?t = "fval_type v" and ?d = "raw_val v" and ?c = "new_path hs i (push_rest v @ us)"
  note kv = key_ok_raw [OF st(1)]
  have st': "list_all storable (push_rest v @ us)" using st storable_push [OF st(1)] by simp
  note np = new_path_spec [OF st', of hs i]
  have lay: "layout_ok hs ?t k'" and m: "mset (all_kids k') = add_mset (?d, ?c) (mset (all_kids k))"
    using node_insert_spec [OF k1(1), of ?d ?c] k1(2) by (simp_all add: k')
  have u': "uniq ?t (add_mset (?d, ?c) (mset (all_kids k)))"
    using ch kv none by (intro uniq_add [OF u]) (auto simp: pick_None_iff)
  have wc: "wf_kids hs (next_types ?t ?d @ map fval_type us) ?c" using np types_push [of v] by simp
  note cc = changed_child [OF lay m disjI1 [OF refl] _ _ _ u' u, where ts = "map fval_type us"]
  have wf: "wf_kids hs (?t # map fval_type us) k'" using cc(1) ch kv wc by simp
  have "pick ?t e k = None" if "same_data ?t ?d e" for e
    using that none ch kv same_data_join [of ?t _ ?d e] by (auto simp: pick_None_iff)
  then have "lookup ws k' = (if list_all2 fval_same (v # us) ws then Some i else lookup ws k)"
    if "alike (v # us) ws" for ws
    using cc(2,3) ch kv wc np same_data_refl [OF kv]
    by (intro changed_lookup [OF st(1) kv _ _ _ _ _ that, where c = ?c and old = "\<lambda>_. None"])
      (simp_all add: alike_def)
  moreover have "mset (leaf_ids k') = add_mset i (mset (leaf_ids k))"
    using layout_not_leaf [OF lay] k1(3) np by (simp add: leaf_ids_mset m)
  ultimately show ?thesis using wf by simp
qed

lemma descend_step:
  assumes st: "storable v" "list_all storable us" and lay: "layout_ok hs (fval_type v) k"
    and u: "uniq (fval_type v) (mset (all_kids k))" and q: "valid_pos q k"
    and pk: "pick (fval_type v) (raw_val v) k = Some (child_at q k)"
    and ch: "\<forall>n \<in> set (all_kids k). key_ok (fval_type v) (fst n) \<and>
      wf_kids hs (next_types (fval_type v) (fst n) @ map fval_type us) (snd n)"
    and c: "wf_kids hs (map fval_type (push_rest v @ us)) c"
      "mset (leaf_ids c) = add_mset i (mset (leaf_ids (snd (child_at q k))))"
      "\<And>ws. alike (push_rest v @ us) ws \<Longrightarrow>
         lookup ws c = (if list_all2 fval_same (push_rest v @ us) ws then Some i else lookup ws (snd (child_at q k)))"
  shows "wf_kids hs (map fval_type (v # us)) (set_child q c k) \<and>
    mset (leaf_ids (set_child q c k)) = add_mset i (mset (leaf_ids k)) \<and>
    (\<forall>ws. alike (v # us) ws \<longrightarrow>
       lookup ws (set_child q c k) = (if list_all2 fval_same (v # us) ws then Some i else lookup ws k))"
proof -
  let ?t = "fval_type v" and ?d = "raw_val v" and ?n = "child_at q k" and ?k = "set_child q c k"
  note kv = key_ok_raw [OF st(1)]
  note sc = set_child [OF lay q]
  have n: "?n \<in> set (all_kids k)" "same_data ?t (fst ?n) ?d" using pick_Some_in [OF pk] by auto
  then have kn: "key_ok ?t (fst ?n)" using ch by auto
  obtain M where M: "mset (all_kids k) = add_mset ?n M" using n(1) by (metis in_multiset_in_set mset_add)
  have m: "mset (all_kids ?k) = add_mset (fst ?n, c) M" using sc(2) [of c] by (simp add: M)
  have old: "\<forall>n \<in># M. key_ok ?t (fst n) \<and> wf_kids hs (next_types ?t (fst n) @ map fval_type us) (snd n)"
    using ch M by (metis set_mset_mset insert_iff set_mset_add_mset_insert)
  have u': "uniq ?t (add_mset (fst ?n, c) M)" using u by (simp add: uniq_fst M)
  have wc: "wf_kids hs (next_types ?t (fst ?n) @ map fval_type us) c"
    using c(1) same_data_next [OF n(2)] types_push [of v] by simp
  note cc = changed_child [OF sc(3) m _ old _ _ u' u]
  have M2: "mset (all_kids k) = M \<or> (\<exists>n. mset (all_kids k) = add_mset n M \<and> fst n = fst (fst ?n, c))"
    using M by auto
  have wf: "wf_kids hs (?t # map fval_type us) ?k" using cc(1) [OF M2] kn wc by simp
  have "pick ?t e k = Some ?n" if "same_data ?t (fst ?n) e" for e
    using that n(1) by (intro uniq_pick(2) [OF u])
  then have "lookup ws ?k = (if list_all2 fval_same (v # us) ws then Some i else lookup ws k)"
    if "alike (v # us) ws" for ws
    using cc(2,3) [OF M2] kn wc n(2) c(3)
    by (intro changed_lookup [OF st(1) kn n(2) _ _ _ _ that, where c = c and old = "\<lambda>xs. lookup xs (snd ?n)"])
      simp_all
  moreover have "mset (leaf_ids ?k) = add_mset i (mset (leaf_ids k))"
    using layout_not_leaf [OF sc(3)] layout_not_leaf [OF lay] c(2) by (simp add: leaf_ids_mset m M)
  ultimately show ?thesis using wf by simp
qed

lemma walk_spec:
  "hash_law hs \<Longrightarrow> wf_kids hs (map fval_type vs) k \<or> k = Empty \<and> vs \<noteq> [] \<Longrightarrow> list_all storable vs \<Longrightarrow>
   (case lookup vs k of
      Some j \<Rightarrow> check_insert_walk hs i neg vs k = Inr (Reached j)
    | None \<Rightarrow> (if neg then check_insert_walk hs i neg vs k = Inr Missing
        else \<exists>k'. check_insert_walk hs i neg vs k = Inr (Grown k') \<and> wf_kids hs (map fval_type vs) k' \<and>
          mset (leaf_ids k') = add_mset i (mset (leaf_ids k)) \<and>
          (\<forall>ws. alike vs ws \<longrightarrow> lookup ws k' = (if list_all2 fval_same vs ws then Some i else lookup ws k))))"
proof (induction vs arbitrary: k rule: measure_induct_rule [of stack_weight])
  case (less vs)
  show ?case
  proof (cases vs)
    case Nil
    then obtain j where "k = Leaf j" using less.prems(2) by (auto elim: wf_kids_NilE)
    with Nil show ?thesis by simp
  next
    case (Cons v us)
    let ?t = "fval_type v" and ?d = "raw_val v"
    have st: "storable v" "list_all storable us" using less.prems Cons by auto
    note kv = key_ok_raw [OF st(1)]
    have st': "list_all storable (push_rest v @ us)" using st storable_push [OF st(1)] by simp
    have w: "stack_weight (push_rest v @ us) < stack_weight vs" using Cons stack_weight_push by simp
    show ?thesis
    proof (cases "k = Empty")
      case True
      have kn: "\<not> other_type ?t" using key_ok_known [OF kv] .
      have "grow hs ?t 1 Empty = Empty" by (simp add: grow_def TRIE_HASH_LIST_THRESHOLD_def)
      then have w: "check_insert_walk hs i neg vs k = Inr (if neg then Missing
          else Grown (node_insert hs ?t ?d (new_path hs i (push_rest v @ us)) Empty))"
        by (simp add: Cons True node_match_def)
      have "wf_kids hs (map fval_type (v # us)) k' \<and> mset (leaf_ids k') = add_mset i (mset (leaf_ids k)) \<and>
          (\<forall>ws. alike (v # us) ws \<longrightarrow> lookup ws k' = (if list_all2 fval_same (v # us) ws then Some i else lookup ws k))"
        if "k' = node_insert hs ?t ?d (new_path hs i (push_rest v @ us)) Empty" for k'
        by (rule insert_step [OF st _ _ _ _ _ _ that]) (simp_all add: True Empty_facts)
      from this [OF refl, unfolded True] w [unfolded Cons True] show ?thesis
        unfolding Cons True by (cases neg) (simp_all del: check_insert_walk.simps list_all2_Cons)
    next
      case False
      then have wfk: "wf_kids hs (?t # map fval_type us) k" using less.prems(2) Cons by simp
      from wfk have lay: "layout_ok hs ?t k" and ne: "all_kids k \<noteq> []" and u: "uniq ?t (mset (all_kids k))"
        and ch: "\<forall>n \<in> set (all_kids k). key_ok ?t (fst n) \<and> wf_kids hs (next_types ?t (fst n) @ map fval_type us) (snd n)"
        by (auto elim: wf_kids_ConsE)
      have nl: "\<not> is_leaf k" using layout_not_leaf [OF lay] by simp
      obtain p cnt where nm: "node_match hs ?t ?d k = Inr (p, cnt)"
        and p: "case p of None \<Rightarrow> pick ?t ?d k = None | Some q \<Rightarrow> valid_pos q k \<and> pick ?t ?d k = Some (child_at q k)"
        using node_match_spec [OF less.prems(1) lay u kv] by blast
      show ?thesis
      proof (cases p)
        case None
        then have none: "pick ?t ?d k = None" using p by simp
        note g = grow_spec [OF lay, of "cnt + 1"]
        have w: "check_insert_walk hs i neg vs k = Inr (if neg then Missing
            else Grown (node_insert hs ?t ?d (new_path hs i (push_rest v @ us)) (grow hs ?t (cnt + 1) k)))"
          using nl nm None by (simp add: Cons)
        have "wf_kids hs (map fval_type (v # us)) k' \<and> mset (leaf_ids k') = add_mset i (mset (leaf_ids k)) \<and>
            (\<forall>ws. alike (v # us) ws \<longrightarrow> lookup ws k' = (if list_all2 fval_same (v # us) ws then Some i else lookup ws k))"
          if "k' = node_insert hs ?t ?d (new_path hs i (push_rest v @ us)) (grow hs ?t (cnt + 1) k)" for k'
          by (rule insert_step [OF st _ _ nl none ch u that]) (use g in simp_all)
        from this [OF refl] w none show ?thesis
          by (cases neg) (simp_all add: Cons del: check_insert_walk.simps list_all2_Cons)
      next
        case (Some q)
        then have q: "valid_pos q k" "pick ?t ?d k = Some (child_at q k)" using p by simp_all
        let ?n = "child_at q k"
        have n: "?n \<in> set (all_kids k)" "same_data ?t (fst ?n) ?d" using pick_Some_in [OF q(2)] by auto
        have wn: "wf_kids hs (map fval_type (push_rest v @ us)) (snd ?n)"
          using ch n same_data_next [OF n(2)] types_push [of v] by auto
        note IH = less.IH [OF w less.prems(1) disjI1 [OF wn] st']
        have lk: "lookup vs k = lookup (push_rest v @ us) (snd ?n)" using q(2) by (simp add: Cons)
        have wk: "check_insert_walk hs i neg vs k =
            res_bind (check_insert_walk hs i neg (push_rest v @ us) (snd ?n)) (\<lambda>r.
              Inr (case r of Grown c \<Rightarrow> Grown (set_child q c k) | _ \<Rightarrow> r))"
          using nl nm Some by (simp add: Cons)
        show ?thesis
        proof (cases "lookup vs k = None \<and> \<not> neg")
          case True
          then obtain c where c: "check_insert_walk hs i neg (push_rest v @ us) (snd ?n) = Inr (Grown c)"
              "wf_kids hs (map fval_type (push_rest v @ us)) c"
              "mset (leaf_ids c) = add_mset i (mset (leaf_ids (snd ?n)))"
              "\<And>ws. alike (push_rest v @ us) ws \<Longrightarrow>
                 lookup ws c = (if list_all2 fval_same (push_rest v @ us) ws then Some i else lookup ws (snd ?n))"
            using IH lk by auto
          from descend_step [OF st lay u q ch c(2-4)] c(1) True wk show ?thesis
            by (simp add: Cons del: check_insert_walk.simps list_all2_Cons)
        next
          case False
          with IH lk wk show ?thesis by (auto split: option.splits)
        qed
      qed
    qed
  qed
qed

section \<open>Taking a leaf out\<close>

lemma mset_drop_nth: "i < length xs \<Longrightarrow> add_mset (xs ! i) (mset (drop_nth i xs)) = mset xs"
  by (subst (3) id_take_nth_drop [of i xs]) (simp_all add: drop_nth_def)

lemma set_drop_nth: "set (drop_nth i xs) \<subseteq> set xs"
  by (auto simp: drop_nth_def dest: in_set_takeD in_set_dropD)

lemma unlink_spec:
  assumes lay: "layout_ok hs t k" and p: "valid_pos p k"
  shows "unlink p k = Empty \<and> mset (all_kids k) = {#child_at p k#} \<or>
    layout_ok hs t (unlink p k) \<and> add_mset (child_at p k) (mset (all_kids (unlink p k))) = mset (all_kids k) \<and>
      all_kids (unlink p k) \<noteq> []"
proof (cases p)
  case (At i)
  then obtain ns where ns: "k = Siblings ns" "i < length ns" using p by (auto simp: valid_pos_def)
  from mset_drop_nth [OF ns(2)] show ?thesis
    by (cases "drop_nth i ns = []") (auto simp: At ns(1) layout_ok_def)
next
  case (InBucket b i)
  then obtain hty tot bs where bs: "k = Hashed hty tot bs" "b < length bs" "i < length (bs ! b)"
    using p by (auto simp: valid_pos_def)
  then have ly: "hty = t" "tot = length (concat bs)" "placed hs t bs"
    using lay by (simp_all add: layout_ok_Hashed)
  let ?bs = "bs[b := drop_nth i (bs ! b)]" and ?n = "bs ! b ! i"
  have "add_mset ?n (mset (concat ?bs)) + mset (bs ! b) = mset (concat bs) + add_mset ?n (mset (drop_nth i (bs ! b)))"
    using mset_concat_update [OF bs(2), of "drop_nth i (bs ! b)"] by simp
  then have m: "add_mset ?n (mset (concat ?bs)) = mset (concat bs)"
    unfolding mset_drop_nth [OF bs(3)] by simp
  have "placed hs t ?bs"
    using ly(3) bs(2) set_drop_nth [of i "bs ! b"] by (auto simp: placed_def nth_list_update)
  moreover have len: "length (concat ?bs) = tot - 1"
    using mset_length_eq [of "?n # concat ?bs" "concat bs"] m ly(2) by simp
  moreover have "?bs \<noteq> []" using bs(2) by auto
  ultimately have lay': "layout_ok hs t (Hashed hty (tot - 1) ?bs)" using ly(1) by (simp add: layout_ok_Hashed)
  show ?thesis
  proof (cases "tot - 1 = 0")
    case True
    then have "length (concat ?bs) = 0" unfolding len by assumption
    then have "concat ?bs = []" unfolding length_0_conv by assumption
    then have e: "mset (concat ?bs) = {#}" by (simp only: mset.simps)
    have "mset (concat bs) = {#?n#}" using m unfolding e by (rule sym)
    with True show ?thesis by (simp add: bs(1) InBucket)
  next
    case False
    then have "concat ?bs \<noteq> []" using len by (metis list.size(3))
    with False lay' m show ?thesis by (simp add: bs(1) InBucket)
  qed
qed

lemma lookup_in_ids: "lookup ws k = Some i \<Longrightarrow> i \<in> set (leaf_ids k)"
proof (induction ws k rule: lookup.induct)
  case (1 k)
  then show ?case by (cases k) auto
next
  case (2 v vs k)
  then obtain n where n: "pick (fval_type v) (raw_val v) k = Some n" "i \<in> set (leaf_ids (snd n))"
    by (auto split: option.splits)
  then have "n \<in> set (all_kids k)" using pick_Some_in by blast
  with n(2) show ?case by (subst leaf_ids.simps) (cases k; auto)
qed

lemma kid_with_leaf_valid:
  assumes "\<not> is_leaf k" and "j \<in> set (leaf_ids k)"
  shows "\<exists>p. kid_with_leaf j k = Some p \<and> valid_pos p k \<and> j \<in> set (leaf_ids (snd (child_at p k)))"
proof -
  have ex: "\<exists>n \<in> set (all_kids k). j \<in> set (leaf_ids (snd n))"
  proof -
    have "j \<in># (\<Sum>n \<in># mset (all_kids k). mset (leaf_ids (snd n)))"
      using assms(2) leaf_ids_mset [OF assms(1)] by (metis set_mset_mset)
    then show ?thesis by auto
  qed
  show ?thesis
  proof (cases k)
    case (Siblings ns)
    have "find_pos (\<lambda>n. j \<in> set (leaf_ids (snd n))) ns \<noteq> None"
      using ex unfolding find_pos_None by (simp add: Siblings)
    then obtain i where i: "find_pos (\<lambda>n. j \<in> set (leaf_ids (snd n))) ns = Some i" by blast
    with find_pos_Some [OF i] show ?thesis by (auto simp: Siblings kid_with_leaf_def valid_pos_def)
  next
    case (Hashed hty tot bs)
    have "find_bucket_pos (\<lambda>n. j \<in> set (leaf_ids (snd n))) bs \<noteq> None"
      using ex unfolding find_bucket_pos_None by (auto simp: Hashed)
    then obtain b i where bi: "find_bucket_pos (\<lambda>n. j \<in> set (leaf_ids (snd n))) bs = Some (b, i)" by auto
    with find_bucket_pos_Some [OF bi] show ?thesis by (auto simp: Hashed kid_with_leaf_def valid_pos_def)
  qed (use assms ex in auto)
qed

definition typed_by :: "field_type list \<Rightarrow> fval list \<Rightarrow> bool" where
  "typed_by ts ws \<longleftrightarrow> map fval_type ws = ts \<and> list_all storable ws"

lemma typed_by_step:
  assumes "typed_by (t # ts) ws"
  shows "\<exists>w xs. ws = w # xs \<and> fval_type w = t \<and> storable w \<and>
    (\<forall>d. same_data t d (raw_val w) \<longrightarrow> typed_by (next_types t d @ ts) (push_rest w @ xs))"
proof -
  obtain w xs where w: "ws = w # xs" "fval_type w = t" "map fval_type xs = ts" "storable w" "list_all storable xs"
    using assms by (cases ws) (auto simp: typed_by_def)
  have "typed_by (next_types t d @ ts) (push_rest w @ xs)" if "same_data t d (raw_val w)" for d
    using same_data_next [OF that] w types_push [of w] storable_push [of w] by (simp add: typed_by_def)
  with w show ?thesis by blast
qed

lemma uniq_sub: "uniq t (add_mset n M) \<Longrightarrow> uniq t M"
proof (unfold uniq_def, rule allI)
  fix e
  assume "\<forall>e. size (filter_mset (\<lambda>n. same_data t (fst n) e) (add_mset n M)) \<le> 1"
  then have "size (filter_mset (\<lambda>n. same_data t (fst n) e) (add_mset n M)) \<le> 1" by blast
  moreover have "size (filter_mset (\<lambda>n. same_data t (fst n) e) M) \<le> size (filter_mset (\<lambda>n. same_data t (fst n) e) (add_mset n M))"
    by (intro size_mset_mono multiset_filter_mono) simp
  ultimately show "size (filter_mset (\<lambda>n. same_data t (fst n) e) M) \<le> 1" by linarith
qed

text \<open>A path to a node, and the children of that node.\<close>

fun subtree_at :: "pos list \<Rightarrow> kids \<Rightarrow> kids" where
  "subtree_at [] k = k"
| "subtree_at (p # ps) k = subtree_at ps (snd (child_at p k))"

fun valid_path :: "pos list \<Rightarrow> kids \<Rightarrow> bool" where
  "valid_path [] k = True"
| "valid_path (p # ps) k = (valid_pos p k \<and> valid_path ps (snd (child_at p k)))"

definition without :: "nat set \<Rightarrow> nat option \<Rightarrow> nat option" where
  "without D r = (case r of Some j \<Rightarrow> if j \<in> D then None else Some j | None \<Rightarrow> None)"

lemma without_None [simp]: "without D None = None"
  by (simp add: without_def)

lemma without_Some [simp]: "without D (Some j) = (if j \<in> D then None else Some j)"
  by (simp add: without_def)

lemma lookup_Empty [simp]: "lookup us Empty = None"
  by (cases us) simp_all

text \<open>Cutting a branch takes out its leaves and nothing else.\<close>

lemma delete_path_cuts:
  "wf_kids hs ts k \<Longrightarrow> valid_path ps k \<Longrightarrow> distinct (leaf_ids k) \<Longrightarrow>
   (delete_path ps k = Empty \<or> wf_kids hs ts (delete_path ps k)) \<and>
     mset (leaf_ids (delete_path ps k)) + mset (leaf_ids (subtree_at ps k)) = mset (leaf_ids k) \<and>
     (\<forall>ws. typed_by ts ws \<longrightarrow>
        lookup ws (delete_path ps k) = without (set (leaf_ids (subtree_at ps k))) (lookup ws k))"
proof (induction ts k arbitrary: ps rule: wf_kids.induct)
  case (wf_leaf i)
  then have "ps = []" by (cases ps) (auto simp: valid_pos_def split: pos.splits)
  then show ?case by (auto simp: typed_by_def)
next
  case (wf_node t k ts)
  note lay = wf_node.hyps(1) and u = wf_node.hyps(3) and step = wf_node.IH
  have nl: "\<not> is_leaf k" using layout_not_leaf [OF lay] by simp
  show ?case
  proof (cases ps)
    case Nil
    then show ?thesis using lookup_in_ids by (auto simp: without_def split: option.splits)
  next
    case (Cons p qs)
    then have p: "valid_pos p k" and qs: "valid_path qs (snd (child_at p k))" using wf_node.prems(1) by simp_all
    let ?n = "child_at p k" and ?D = "set (leaf_ids (subtree_at qs (snd (child_at p k))))"
    note sc = set_child [OF lay p]
    obtain M where M: "mset (all_kids k) = add_mset ?n M" using sc(1) by (metis in_multiset_in_set mset_add)
    have sum: "mset (leaf_ids k) = mset (leaf_ids (snd ?n)) + (\<Sum>n \<in># M. mset (leaf_ids (snd n)))"
      using nl by (simp add: leaf_ids_mset M)
    have cnt: "count (mset (leaf_ids k)) x \<le> 1" for x
      using wf_node.prems(2) unfolding distinct_count_atmost_1 by simp
    have dn: "distinct (leaf_ids (snd ?n))"
      using wf_node.prems(2) sc(1) unfolding leaf_ids_node [OF nl] by (auto simp: distinct_concat_iff)
    have IH: "delete_path qs (snd ?n) = Empty \<or> wf_kids hs (next_types t (fst ?n) @ ts) (delete_path qs (snd ?n))"
      "mset (leaf_ids (delete_path qs (snd ?n))) + mset (leaf_ids (subtree_at qs (snd ?n))) = mset (leaf_ids (snd ?n))"
      "\<And>ws. typed_by (next_types t (fst ?n) @ ts) ws \<Longrightarrow>
         lookup ws (delete_path qs (snd ?n)) = without ?D (lookup ws (snd ?n))"
      using step sc(1) qs dn by blast+
    have out: "j \<notin># (\<Sum>n \<in># M. mset (leaf_ids (snd n)))" if "j \<in> ?D" for j
    proof -
      have "j \<in># mset (leaf_ids (snd ?n))" using that unfolding IH(2) [symmetric] by simp
      then have "1 \<le> count (mset (leaf_ids (snd ?n))) j" by simp
      then show ?thesis using cnt [of j] unfolding sum not_in_iff count_union by linarith
    qed
    define c where "c = delete_path qs (snd ?n)"
    define k' where "k' = (if c = Empty then unlink p k else set_child p c k)"
    note IH = IH [folded c_def]
    have k': "delete_path (p # qs) k = k'" by (simp add: k'_def c_def Let_def)
    have kn: "key_ok t (fst ?n)" using step sc(1) by blast
    have old: "\<forall>n \<in># M. key_ok t (fst n) \<and> wf_kids hs (next_types t (fst n) @ ts) (snd n)"
      using step M by (metis set_mset_mset insert_iff set_mset_add_mset_insert)
    have uM: "uniq t M" using u unfolding M by (rule uniq_sub)
    have u': "uniq t (add_mset (fst ?n, c) M)" using u by (simp add: uniq_fst M)
    have M2: "mset (all_kids k) = M \<or> (\<exists>n. mset (all_kids k) = add_mset n M \<and> fst n = fst (fst ?n, c))"
      using M by auto
    have main: "(k' = Empty \<or> wf_kids hs (t # ts) k') \<and> mset (leaf_ids k') + mset (leaf_ids (subtree_at qs (snd ?n))) = mset (leaf_ids k) \<and>
        (\<forall>e. \<not> same_data t (fst ?n) e \<longrightarrow> pick t e k' = pick t e k) \<and>
        (\<forall>e. same_data t (fst ?n) e \<longrightarrow> pick t e k' = (if c = Empty then None else Some (fst ?n, c)))"
    proof (cases "c = Empty")
      case True
      then have ids: "mset (leaf_ids (snd ?n)) = mset (leaf_ids (subtree_at qs (snd ?n)))" using IH(2) by simp
      have mk: "mset (all_kids k') = M \<and> (k' = Empty \<or> layout_ok hs t k' \<and> all_kids k' \<noteq> [])"
        using unlink_spec [OF lay p] True M by (auto simp: k'_def)
      then have "k' = Empty \<or> wf_kids hs (t # ts) k'"
        using old uM by (metis set_mset_mset wf_kids.wf_node)
      moreover have "mset (leaf_ids k') = (\<Sum>n \<in># M. mset (leaf_ids (snd n)))"
        using mk layout_not_leaf [of hs t k'] by (cases "k' = Empty") (auto simp: leaf_ids_mset)
      moreover have "pick t e k' = pick t e k" if "\<not> same_data t (fst ?n) e" for e
        using that mk by (intro pick_cong [OF _ u]) (simp add: M)
      moreover have "pick t e k' = None" if "same_data t (fst ?n) e" for e
      proof (rule pick_mset_None)
        have "size (filter_mset (\<lambda>n. same_data t (fst n) e) (mset (all_kids k))) \<le> 1" using u by (simp add: uniq_def)
        then show "filter_mset (\<lambda>n. same_data t (fst n) e) (mset (all_kids k')) = {#}" using mk that by (simp add: M)
      qed
      ultimately show ?thesis using True ids sum by (simp add: add.commute)
    next
      case False
      have wc: "wf_kids hs (next_types t (fst ?n) @ ts) c" using IH(1) False by simp
      have m: "mset (all_kids k') = add_mset (fst ?n, c) M" using sc(2) [of c] False by (simp add: M k'_def)
      have lay': "layout_ok hs t k'" using sc(3) False by (simp add: k'_def)
      note cc = changed_child [OF lay' m M2 old _ _ u' u]
      have "mset (leaf_ids k') = mset (leaf_ids c) + (\<Sum>n \<in># M. mset (leaf_ids (snd n)))"
        using layout_not_leaf [OF lay'] by (simp add: leaf_ids_mset m)
      with sum have "mset (leaf_ids k') + mset (leaf_ids (subtree_at qs (snd ?n))) = mset (leaf_ids k)"
        unfolding IH(2) [symmetric] by (simp add: ac_simps)
      with cc kn wc False show ?thesis by simp
    qed
    have "lookup ws k' = without ?D (lookup ws k)" if ws: "typed_by (t # ts) ws" for ws
    proof -
      obtain w xs where w: "ws = w # xs" "fval_type w = t"
          "\<And>d. same_data t d (raw_val w) \<Longrightarrow> typed_by (next_types t d @ ts) (push_rest w @ xs)"
        using typed_by_step [OF ws] by blast
      show ?thesis
      proof (cases "same_data t (fst ?n) (raw_val w)")
        case True
        then have "pick t (raw_val w) k = Some ?n" using sc(1) by (intro uniq_pick(2) [OF u])
        then have 1: "lookup ws k = lookup (push_rest w @ xs) (snd ?n)" by (simp add: w(1,2))
        have 2: "lookup ws k' = lookup (push_rest w @ xs) c" using main True by (simp add: w(1,2))
        from IH(3) [OF w(3) [OF True]] show ?thesis unfolding 1 2 .
      next
        case False
        have eq: "lookup ws k' = lookup ws k" using main False by (simp add: w(1,2))
        have "j \<notin> ?D" if lk: "lookup ws k = Some j" for j
        proof
          assume j: "j \<in> ?D"
          obtain n2 where n2: "pick t (raw_val w) k = Some n2" "lookup (push_rest w @ xs) (snd n2) = Some j"
            using lk by (auto simp: w(1,2) split: option.splits)
          have "n2 \<in># mset (all_kids k)" "same_data t (fst n2) (raw_val w)" using pick_Some_in [OF n2(1)] by auto
          then have "n2 \<in># M" using False by (auto simp: M)
          with lookup_in_ids [OF n2(2)] out [OF j] show False by auto
        qed
        with eq show ?thesis by (cases "lookup ws k") auto
      qed
    qed
    with main show ?thesis unfolding Cons k' by simp
  qed
qed

lemma leaf_path_valid:
  "wf_kids hs ts k \<Longrightarrow> j \<in> set (leaf_ids k) \<Longrightarrow>
   \<exists>ps. leaf_path j k = Some ps \<and> valid_path ps k \<and> subtree_at ps k = Leaf j"
proof (induction ts k rule: wf_kids.induct)
  case (wf_leaf i)
  then show ?case by (subst leaf_path.simps) auto
next
  case (wf_node t k ts)
  have nl: "\<not> is_leaf k" using layout_not_leaf [OF wf_node.hyps(1)] by simp
  obtain p where p: "kid_with_leaf j k = Some p" "valid_pos p k" "j \<in> set (leaf_ids (snd (child_at p k)))"
    using kid_with_leaf_valid [OF nl wf_node.prems] by blast
  then obtain ps where ps: "leaf_path j (snd (child_at p k)) = Some ps" "valid_path ps (snd (child_at p k))"
      "subtree_at ps (snd (child_at p k)) = Leaf j"
    using wf_node.IH set_child(1) [OF wf_node.hyps(1) p(2)] by blast
  have "leaf_path j k = Some (p # ps)"
    using nl p(1) ps(1) by (subst leaf_path.simps) (auto split: kids.splits simp: kid_with_leaf_def)
  with p ps show ?case by auto
qed

lemma delete_path_spec:
  assumes "wf_kids hs ts k" and "distinct (leaf_ids k)" and "j \<in> set (leaf_ids k)"
  shows "\<exists>ps. leaf_path j k = Some ps \<and> (delete_path ps k = Empty \<or> wf_kids hs ts (delete_path ps k)) \<and>
     add_mset j (mset (leaf_ids (delete_path ps k))) = mset (leaf_ids k) \<and>
     (\<forall>ws. typed_by ts ws \<longrightarrow>
        lookup ws (delete_path ps k) = (if lookup ws k = Some j then None else lookup ws k))"
proof -
  obtain ps where ps: "leaf_path j k = Some ps" "valid_path ps k" "subtree_at ps k = Leaf j"
    using leaf_path_valid [OF assms(1,3)] by blast
  from delete_path_cuts [OF assms(1) ps(2) assms(2)] ps(1,3) show ?thesis
    by (intro exI [of _ ps]) (auto simp: without_def split: option.splits)
qed

end
