(* ===== verification/Tuple_Trie.thy ===== *)
theory Tuple_Trie
  imports Trie_Lookup
begin

text \<open>
  The classes \<open>trie\<close> and \<open>tuple_trie\<close> of \<open>db/trie.hpp\<close> and \<open>db/trie.cpp\<close>: the tree of
  Db_Trie with its list of leaves and its count of references, insertion, the two-phase
  deletion and deletion by leaf. The virtual methods of \<open>trie_leaf\<close> are the record
  \<open>leaf_ops\<close>. The second half proves that a trie is a counted store of facts: the
  contract is the locale \<open>counted_store\<close>.
\<close>

section \<open>The object\<close>

text \<open>
  The leaves are numbered as they are allocated; \<open>leaves\<close> is the list from
  \<open>first_leaf\<close> to \<open>last_leaf\<close>. \<open>number_of_references\<close> is an \<open>int\<close>, whose overflow the
  language leaves undefined.
\<close>

record 'l trie =
  root :: kids
  number_of_references :: int
  leaves :: "(nat \<times> 'l) list"
  next_leaf :: nat

record 'l leaf_ops =
  leaf_count :: "'l \<Rightarrow> int"                   \<comment> \<open>\<open>get_count\<close>\<close>
  leaf_add_count :: "16 word \<Rightarrow> 'l \<Rightarrow> 'l"     \<comment> \<open>\<open>add_count\<close>\<close>
  leaf_to_delete :: "'l \<Rightarrow> bool"              \<comment> \<open>\<open>to_delete\<close>\<close>

definition tuple_leaf :: "simple_tuple leaf_ops" where
  "tuple_leaf =
     \<lparr>leaf_count = \<lambda>s. sint (st_count s), leaf_add_count = st_add_count, leaf_to_delete = reached_zero\<rparr>"

definition new_trie :: "'l trie" where
  "new_trie = \<lparr>root = Empty, number_of_references = 0, leaves = [], next_leaf = 0\<rparr>"

definition int_add :: "int \<Rightarrow> int \<Rightarrow> int res" where
  "int_add a b = (if - (2 ^ 31) \<le> a + b \<and> a + b < 2 ^ 31 then Inr (a + b) else Inl Bad_Access)"

definition basic_invariants :: "'l trie \<Rightarrow> bool" where
  "basic_invariants t \<longleftrightarrow>
     (number_of_references t = 0 \<longleftrightarrow> root t = Empty) \<and> (root t = Empty \<longleftrightarrow> leaves t = [])"

definition update_leaf :: "nat \<Rightarrow> ('l \<Rightarrow> 'l) \<Rightarrow> (nat \<times> 'l) list \<Rightarrow> (nat \<times> 'l) list" where
  "update_leaf j f ls = map (\<lambda>(i, l). (i, if i = j then f l else l)) ls"

definition remove_leaf :: "nat \<Rightarrow> (nat \<times> 'l) list \<Rightarrow> (nat \<times> 'l) list" where
  "remove_leaf j ls = filter (\<lambda>p. fst p \<noteq> j) ls"

section \<open>Operations\<close>

text \<open>
  \<open>trie::check_insert\<close>: \<open>found\<close> with the leaf, or None when a negative count meets no
  leaf; \<open>new\<close> is what \<open>create_leaf\<close> returns.
\<close>

definition check_insert ::
    "'l leaf_ops \<Rightarrow> hashes \<Rightarrow> 'l \<Rightarrow> 16 word \<Rightarrow> fval list \<Rightarrow> 'l trie \<Rightarrow> ((bool \<times> nat) option \<times> 'l trie) res" where
  "check_insert ops hs new many vals t =
     (if vals = [] then
        (case root t of
           Leaf j \<Rightarrow> Inr (Some (True, j), t\<lparr>leaves := update_leaf j (leaf_add_count ops many) (leaves t)\<rparr>)
         | _ \<Rightarrow> Inr (Some (False, next_leaf t),
                  t\<lparr>root := Leaf (next_leaf t), leaves := [(next_leaf t, new)], next_leaf := next_leaf t + 1\<rparr>))
      else
        res_bind (check_insert_walk hs (next_leaf t) (many <s 0) vals (root t)) (\<lambda>w.
        case w of
          Missing \<Rightarrow> Inr (None, t)
        | Grown k \<Rightarrow> Inr (Some (False, next_leaf t),
                       t\<lparr>root := k, leaves := leaves t @ [(next_leaf t, new)], next_leaf := next_leaf t + 1\<rparr>)
        | Reached j \<Rightarrow>
            (let t' = t\<lparr>leaves := update_leaf j (leaf_add_count ops many) (leaves t)\<rparr>
             in if basic_invariants t' \<and> leaves t' \<noteq> [] then Inr (Some (True, j), t') else Inl Assert_Failed)))"

text \<open>\<open>tuple_trie::insert_tuple\<close>: whether the tuple is new. Its \<open>found\<close> starts uninitialised.\<close>

definition insert_tuple :: "hashes \<Rightarrow> vtuple \<Rightarrow> 16 word \<Rightarrow> simple_tuple trie \<Rightarrow> (bool \<times> simple_tuple trie) res" where
  "insert_tuple hs tpl many t =
     res_bind (int_add (number_of_references t) (sint many)) (\<lambda>refs.
     res_bind (check_insert tuple_leaf hs (new_simple_tuple tpl many) many (tpl_fields tpl)
         (t\<lparr>number_of_references := refs\<rparr>)) (\<lambda>(r, t').
     case r of
       None \<Rightarrow> Inl Bad_Access
     | Some (found, j) \<Rightarrow>
         if found \<and> (root t' = Empty \<or> number_of_references t' \<le> 0) then Inl Assert_Failed
         else if basic_invariants t' then Inr (\<not> found, t') else Inl Assert_Failed))"

text \<open>\<open>trie::inner_delete_by_leaf\<close>; the leaf must be alive.\<close>

definition inner_delete_by_leaf :: "'l leaf_ops \<Rightarrow> nat \<Rightarrow> 16 word \<Rightarrow> 'l trie \<Rightarrow> 'l trie res" where
  "inner_delete_by_leaf ops j cnt t =
     (if cnt \<noteq> 0 \<and> \<not> 0 <s cnt then Inl Assert_Failed
      else
        (let ls = (if cnt \<noteq> 0 then update_leaf j (leaf_add_count ops (- cnt)) (leaves t) else leaves t)
         in case map_of ls j of
              None \<Rightarrow> Inl Bad_Access
            | Some l \<Rightarrow>
                if \<not> leaf_to_delete ops l then Inr (t\<lparr>leaves := ls\<rparr>)
                else (case leaf_path j (root t) of
                        None \<Rightarrow> Inl Bad_Access
                      | Some ps \<Rightarrow> Inr (t\<lparr>root := delete_path ps (root t), leaves := remove_leaf j ls\<rparr>))))"

definition commit_delete :: "'l leaf_ops \<Rightarrow> nat \<Rightarrow> 16 word \<Rightarrow> 'l trie \<Rightarrow> 'l trie res" where
  "commit_delete ops j many t =
     res_bind (int_add (number_of_references t) (- sint many)) (\<lambda>refs.
     if refs < 0 then Inl Assert_Failed
     else res_bind (inner_delete_by_leaf ops j 0 (t\<lparr>number_of_references := refs\<rparr>)) (\<lambda>t'.
       if basic_invariants t' then Inr t' else Inl Assert_Failed))"

definition delete_by_leaf :: "'l leaf_ops \<Rightarrow> nat \<Rightarrow> 'l trie \<Rightarrow> 'l trie res" where
  "delete_by_leaf ops j t =
     (if number_of_references t - 1 < 0 then Inl Assert_Failed
      else inner_delete_by_leaf ops j 1 (t\<lparr>number_of_references := number_of_references t - 1\<rparr>))"

text \<open>The class \<open>delete_info\<close>: nothing to do, or the leaf and count to commit.\<close>

datatype delete_info = No_Delete | Delete nat "16 word"

definition delete_tuple :: "hashes \<Rightarrow> vtuple \<Rightarrow> 16 word \<Rightarrow> simple_tuple trie \<Rightarrow> (delete_info \<times> simple_tuple trie) res" where
  "delete_tuple hs tpl many t =
     (if \<not> 0 <s many \<or> \<not> basic_invariants t then Inl Assert_Failed
      else res_bind (check_insert tuple_leaf hs (new_simple_tuple tpl (- many)) (- many) (tpl_fields tpl) t) (\<lambda>(r, t').
        case r of
          None \<Rightarrow> Inr (No_Delete, t')
        | Some (found, j) \<Rightarrow>
            if \<not> found then Inl Assert_Failed
            else (case map_of (leaves t') j of
                    None \<Rightarrow> Inl Bad_Access
                  | Some l \<Rightarrow>
                      if leaf_to_delete tuple_leaf l then Inr (Delete j many, t')
                      else res_bind (int_add (number_of_references t') (- sint many)) (\<lambda>refs.
                        Inr (No_Delete, t'\<lparr>number_of_references := refs\<rparr>)))))"

text \<open>The callers' idiom: \<open>if(deleter.to_delete()) deleter();\<close>.\<close>

definition delete_commit :: "hashes \<Rightarrow> vtuple \<Rightarrow> 16 word \<Rightarrow> simple_tuple trie \<Rightarrow> simple_tuple trie res" where
  "delete_commit hs tpl many t =
     res_bind (delete_tuple hs tpl many t) (\<lambda>(info, t').
     case info of No_Delete \<Rightarrow> Inr t' | Delete j m \<Rightarrow> commit_delete tuple_leaf j m t')"

section \<open>Invariant\<close>

text \<open>
  The tree is well-formed for the predicate's types, its leaves are those of the list,
  each reached by the fields of its tuple.
\<close>

definition trie_shape :: "hashes \<Rightarrow> field_type list \<Rightarrow> simple_tuple trie \<Rightarrow> bool" where
  "trie_shape hs ts t \<longleftrightarrow>
     (root t = Empty \<or> wf_kids hs ts (root t)) \<and>
     distinct (map fst (leaves t)) \<and> (\<forall>i \<in> fst ` set (leaves t). i < next_leaf t) \<and>
     mset (leaf_ids (root t)) = mset (map fst (leaves t)) \<and>
     (\<forall>(i, s) \<in> set (leaves t). typed_by ts (tpl_fields (st_data s)) \<and>
        lookup (tpl_fields (st_data s)) (root t) = Some i)"

text \<open>Every count is positive and their sum is the number of references.\<close>

definition trie_ok :: "hashes \<Rightarrow> field_type list \<Rightarrow> simple_tuple trie \<Rightarrow> bool" where
  "trie_ok hs ts t \<longleftrightarrow>
     trie_shape hs ts t \<and> (\<forall>(i, s) \<in> set (leaves t). 0 <s st_count s) \<and>
     number_of_references t = (\<Sum>(i, s) \<leftarrow> leaves t. sint (st_count s)) \<and>
     number_of_references t < 2 ^ 31"

text \<open>How many times a fact is in the trie.\<close>

definition fact_count :: "simple_tuple trie \<Rightarrow> fval list \<Rightarrow> int" where
  "fact_count t fs =
     (case lookup fs (root t) of
        None \<Rightarrow> 0
      | Some j \<Rightarrow> (case map_of (leaves t) j of None \<Rightarrow> 0 | Some s \<Rightarrow> sint (st_count s)))"

lemma distinct_concat_member:
  "distinct (concat (map f xs)) \<Longrightarrow> x \<in> set xs \<Longrightarrow> y \<in> set xs \<Longrightarrow> j \<in> set (f x) \<Longrightarrow> j \<in> set (f y) \<Longrightarrow> x = y"
  by (induction xs) auto

lemma wf_leaf_ids: "wf_kids hs ts k \<Longrightarrow> leaf_ids k \<noteq> []"
proof (induction ts k rule: wf_kids.induct)
  case (wf_node t k ts)
  have "\<not> is_leaf k" using layout_not_leaf [OF wf_node.hyps(1)] by simp
  moreover obtain n where n: "n \<in> set (all_kids k)" using wf_node.hyps(2) by (cases "all_kids k") auto
  moreover have "leaf_ids (snd n) \<noteq> []" using wf_node.IH n by blast
  ultimately show ?case by (auto simp: leaf_ids_node simp del: all_kids.simps intro!: bexI [of _ n])
qed simp

text \<open>Two stacks of values reach the same leaf exactly when they are the same fact.\<close>

lemma lookup_same:
  "wf_kids hs ts k \<Longrightarrow> typed_by ts vs \<Longrightarrow> typed_by ts ws \<Longrightarrow> list_all2 fval_same vs ws \<Longrightarrow>
   lookup vs k = lookup ws k"
proof (induction ts k arbitrary: vs ws rule: wf_kids.induct)
  case (wf_node t k ts)
  note step = wf_node.IH
  obtain v us where v: "vs = v # us" "fval_type v = t" "storable v"
      "\<And>d. same_data t d (raw_val v) \<Longrightarrow> typed_by (next_types t d @ ts) (push_rest v @ us)"
    using typed_by_step [OF wf_node.prems(1)] by blast
  obtain w xs where w: "ws = w # xs" "fval_type w = t" "storable w"
      "\<And>d. same_data t d (raw_val w) \<Longrightarrow> typed_by (next_types t d @ ts) (push_rest w @ xs)"
    using typed_by_step [OF wf_node.prems(2)] by blast
  have sm: "same_data t (raw_val v) (raw_val w)" and rest: "list_all2 fval_same (push_rest v @ us) (push_rest w @ xs)"
    using wf_node.prems(3) same_step [of v w us xs] v w by auto
  have kv: "key_ok t (raw_val v)" "key_ok t (raw_val w)"
    using key_ok_raw [OF v(3)] key_ok_raw [OF w(3)] unfolding v(2) w(2) by simp_all
  have iff: "same_data t (fst n) (raw_val v) \<longleftrightarrow> same_data t (fst n) (raw_val w)" if "n \<in> set (all_kids k)" for n
    using that step same_data_trans [of t "fst n" "raw_val v" "raw_val w"] same_data_join [of t "fst n" "raw_val v" "raw_val w"]
      same_data_sym [of t] sm kv same_data_trans [of t "fst n" "raw_val w" "raw_val v"] by blast
  have "pick t (raw_val v) k = pick t (raw_val w) k"
    unfolding pick_def by (rule find_cong [OF refl]) (use iff in auto)
  then show ?case
  proof (cases "pick t (raw_val v) k")
    case (Some n)
    have n: "n \<in> set (all_kids k)" "same_data t (fst n) (raw_val v)" using pick_Some_in [OF Some] by auto
    with iff have "same_data t (fst n) (raw_val w)" by blast
    then have "lookup (push_rest v @ us) (snd n) = lookup (push_rest w @ xs) (snd n)"
      using step n v(4) w(4) rest by blast
    with Some \<open>pick t (raw_val v) k = pick t (raw_val w) k\<close> show ?thesis by (simp add: v(1,2) w(1,2))
  qed (simp add: v(1,2) w(1,2))
qed (auto simp: typed_by_def)

lemma lookup_inj:
  "wf_kids hs ts k \<Longrightarrow> typed_by ts vs \<Longrightarrow> typed_by ts ws \<Longrightarrow> distinct (leaf_ids k) \<Longrightarrow>
   lookup vs k = Some j \<Longrightarrow> lookup ws k = Some j \<Longrightarrow> list_all2 fval_same vs ws"
proof (induction ts k arbitrary: vs ws rule: wf_kids.induct)
  case (wf_node t k ts)
  note step = wf_node.IH
  have nl: "\<not> is_leaf k" using layout_not_leaf [OF wf_node.hyps(1)] by simp
  obtain v us where v: "vs = v # us" "fval_type v = t" "storable v"
      "\<And>d. same_data t d (raw_val v) \<Longrightarrow> typed_by (next_types t d @ ts) (push_rest v @ us)"
    using typed_by_step [OF wf_node.prems(1)] by blast
  obtain w xs where w: "ws = w # xs" "fval_type w = t" "storable w"
      "\<And>d. same_data t d (raw_val w) \<Longrightarrow> typed_by (next_types t d @ ts) (push_rest w @ xs)"
    using typed_by_step [OF wf_node.prems(2)] by blast
  obtain n where n: "pick t (raw_val v) k = Some n" "lookup (push_rest v @ us) (snd n) = Some j"
    using wf_node.prems(4) by (auto simp: v(1,2) split: option.splits)
  obtain m where m: "pick t (raw_val w) k = Some m" "lookup (push_rest w @ xs) (snd m) = Some j"
    using wf_node.prems(5) by (auto simp: w(1,2) split: option.splits)
  note pn = pick_Some_in [OF n(1)] and pm = pick_Some_in [OF m(1)]
  have d: "distinct (concat (map (\<lambda>n. leaf_ids (snd n)) (all_kids k)))"
    using wf_node.prems(3) leaf_ids_node [OF nl] by simp
  have "n = m"
    using distinct_concat_member [OF d, of n m j] pn pm lookup_in_ids [OF n(2)] lookup_in_ids [OF m(2)] by blast
  moreover have "distinct (leaf_ids (snd n))" using d pn by (auto simp: distinct_concat_iff)
  ultimately have "list_all2 fval_same (push_rest v @ us) (push_rest w @ xs)"
    using step pn pm v(4) w(4) n(2) m(2) by blast
  moreover have "same_data t (raw_val v) (raw_val w)"
  proof -
    have k: "key_ok t (fst n)" using step pn by blast
    have "same_data t (raw_val v) (fst n)"
      using same_data_sym [of t "fst n" "raw_val v"] pn k key_ok_raw [OF v(3)] v(2) by blast
    then show ?thesis
      using same_data_trans [of t "raw_val v" "fst n" "raw_val w"] k key_ok_raw [OF v(3)] v(2) pm \<open>n = m\<close> by blast
  qed
  ultimately show ?case using same_step [of v w us xs] v w by simp
qed (auto simp: typed_by_def)

section \<open>What the operations do\<close>

lemma map_of_update_leaf:
  "map_of (update_leaf j f ls) i = (if i = j then map_option f (map_of ls j) else map_of ls i)"
  by (induction ls) (auto simp: update_leaf_def)

lemma fst_update_leaf [simp]: "map fst (update_leaf j f ls) = map fst ls"
  by (simp add: update_leaf_def case_prod_beta comp_def)

lemma fst_set_update_leaf [simp]: "fst ` set (update_leaf j f ls) = fst ` set ls"
  using fst_update_leaf [of j f ls] by (metis set_map)

lemma update_leaf_Nil [simp]: "update_leaf j f ls = [] \<longleftrightarrow> ls = []"
  by (simp add: update_leaf_def)

lemma set_update_leaf:
  "(i, l') \<in> set (update_leaf j f ls) \<longleftrightarrow> (\<exists>l. (i, l) \<in> set ls \<and> l' = (if i = j then f l else l))"
  by (induction ls) (auto simp: update_leaf_def)

lemma sum_update_leaf:
  fixes g :: "'l \<Rightarrow> int"
  assumes "distinct (map fst ls)" and "map_of ls j = Some l"
  shows "(\<Sum>(i, l) \<leftarrow> update_leaf j f ls. g l) = (\<Sum>(i, l) \<leftarrow> ls. g l) - g l + g (f l)"
  using assms
proof (induction ls)
  case (Cons p ls)
  obtain i k where p: "p = (i, k)" by (cases p)
  show ?case
  proof (cases "i = j")
    case True
    then have "j \<notin> fst ` set ls" using Cons.prems(1) by (simp add: p)
    then have "update_leaf j f ls = ls" by (force simp: update_leaf_def intro: map_idI)
    with True Cons.prems(2) show ?thesis by (simp add: p update_leaf_def)
  next
    case False
    with Cons show ?thesis by (simp add: p update_leaf_def)
  qed
qed simp

lemma trie_shape_update:
  assumes "trie_shape hs ts t" and "\<And>s. st_data (f s) = st_data s"
  shows "trie_shape hs ts (t\<lparr>leaves := update_leaf j f (leaves t)\<rparr>)"
  using assms by (fastforce simp: trie_shape_def set_update_leaf)

lemma trie_shape_refs [simp]: "trie_shape hs ts (t\<lparr>number_of_references := r\<rparr>) = trie_shape hs ts t"
  by (simp add: trie_shape_def)

lemma fact_count_refs [simp]: "fact_count (t\<lparr>number_of_references := r\<rparr>) fs = fact_count t fs"
  by (simp add: fact_count_def cong: option.case_cong)

lemma root_Empty_iff: "trie_shape hs ts t \<Longrightarrow> root t = Empty \<longleftrightarrow> leaves t = []"
  using wf_leaf_ids by (fastforce simp: trie_shape_def)

lemma trie_okD:
  assumes "trie_ok hs ts t"
  shows "trie_shape hs ts t" and "(i, s) \<in> set (leaves t) \<Longrightarrow> 0 <s st_count s"
    and "number_of_references t = (\<Sum>(i, s) \<leftarrow> leaves t. sint (st_count s))"
    and "number_of_references t < 2 ^ 31"
  using assms by (auto simp: trie_ok_def)

lemma sum_list_pos:
  fixes g :: "'a \<Rightarrow> int"
  shows "(\<And>x. x \<in> set xs \<Longrightarrow> 0 < g x) \<Longrightarrow> 0 \<le> sum_list (map g xs) \<and> (sum_list (map g xs) = 0 \<longleftrightarrow> xs = [])"
  by (induction xs) (fastforce simp: add_nonneg_eq_0_iff)+

lemma word_sless_sint: "0 <s (w :: 'a::len word) \<longleftrightarrow> 0 < sint w"
  by (simp add: word_sless_alt)

lemma trie_ok_refs:
  assumes "trie_ok hs ts t"
  shows "0 \<le> number_of_references t" and "number_of_references t = 0 \<longleftrightarrow> leaves t = []"
  using sum_list_pos [of "leaves t" "\<lambda>(i, s). sint (st_count s)"] trie_okD [OF assms]
  by (auto simp: word_sless_sint)

lemma trie_ok_invariants: "trie_ok hs ts t \<Longrightarrow> basic_invariants t"
  using trie_ok_refs root_Empty_iff trie_okD(1) by (fastforce simp: basic_invariants_def)

lemma map_of_leaf:
  "trie_shape hs ts t \<Longrightarrow> lookup fs (root t) = Some j \<Longrightarrow> \<exists>s. map_of (leaves t) j = Some s \<and> (j, s) \<in> set (leaves t)"
proof -
  assume "trie_shape hs ts t" and "lookup fs (root t) = Some j"
  then have "j \<in># mset (map fst (leaves t))" using lookup_in_ids unfolding trie_shape_def by (metis set_mset_mset)
  then obtain s where "map_of (leaves t) j = Some s" by (auto simp: map_of_eq_None_iff dest!: weak_map_of_SomeI)
  then show ?thesis using map_of_SomeD by fast
qed

lemma distinct_leaf_ids: "trie_shape hs ts t \<Longrightarrow> distinct (leaf_ids (root t))"
  unfolding trie_shape_def by (metis mset_eq_imp_distinct_iff)

lemma new_trie_ok: "trie_ok hs ts new_trie"
  by (simp add: trie_ok_def trie_shape_def new_trie_def)

lemma check_insert_found:
  assumes law: "hash_law hs" and sh: "trie_shape hs ts t" and ty: "typed_by ts fs"
    and lk: "lookup fs (root t) = Some j" and refs: "0 < number_of_references t"
  shows "check_insert ops hs new many fs t =
    Inr (Some (True, j), t\<lparr>leaves := update_leaf j (leaf_add_count ops many) (leaves t)\<rparr>)"
proof (cases fs)
  case Nil
  then have "root t = Leaf j" using lk by (auto split: kids.splits)
  with Nil show ?thesis by (simp add: check_insert_def)
next
  case (Cons v us)
  have ne: "root t \<noteq> Empty" using lk by (auto simp: Cons)
  then have wf: "wf_kids hs (map fval_type fs) (root t)" and st: "list_all storable fs"
    using sh ty by (auto simp: trie_shape_def typed_by_def)
  have w: "check_insert_walk hs i neg fs (root t) = Inr (Reached j)" for i neg
    using walk_spec [OF law disjI1 [OF wf] st, where i = i and neg = neg] lk by simp
  have "leaves t \<noteq> []" using ne root_Empty_iff [OF sh] by simp
  moreover have "fs \<noteq> []" using Cons by simp
  ultimately show ?thesis
    using ne refs by (simp add: check_insert_def w basic_invariants_def Let_def)
qed

lemma check_insert_missing:
  assumes law: "hash_law hs" and sh: "trie_shape hs ts t" and ty: "typed_by ts fs" and ne: "fs \<noteq> []"
    and lk: "lookup fs (root t) = None" and neg: "many <s 0"
  shows "check_insert ops hs new many fs t = Inr (None, t)"
proof -
  have "wf_kids hs (map fval_type fs) (root t) \<or> root t = Empty \<and> fs \<noteq> []" and "list_all storable fs"
    using sh ty ne by (auto simp: trie_shape_def typed_by_def)
  from walk_spec [OF law this, where neg = True] lk ne neg show ?thesis by (simp add: check_insert_def)
qed

lemma check_insert_new:
  assumes law: "hash_law hs" and sh: "trie_shape hs ts t" and ty: "typed_by ts fs"
    and lk: "lookup fs (root t) = None" and pos: "0 <s many"
  shows "\<exists>k. check_insert ops hs new many fs t =
      Inr (Some (False, next_leaf t), t\<lparr>root := k, leaves := leaves t @ [(next_leaf t, new)], next_leaf := next_leaf t + 1\<rparr>) \<and>
    wf_kids hs ts k \<and> mset (leaf_ids k) = add_mset (next_leaf t) (mset (leaf_ids (root t))) \<and>
    (\<forall>ws. typed_by ts ws \<longrightarrow> lookup ws k = (if list_all2 fval_same fs ws then Some (next_leaf t) else lookup ws (root t)))"
proof (cases fs)
  case Nil
  then have ts: "ts = []" using ty by (simp add: typed_by_def)
  have e: "root t = Empty"
  proof (rule ccontr)
    assume "root t \<noteq> Empty"
    then obtain j where "root t = Leaf j" using sh by (auto simp: trie_shape_def ts elim: wf_kids_NilE)
    with lk Nil show False by simp
  qed
  then have "leaves t = []" using root_Empty_iff [OF sh] by simp
  with e Nil show ?thesis
    by (intro exI [of _ "Leaf (next_leaf t)"]) (auto simp: check_insert_def ts typed_by_def intro: wf_kids.wf_leaf)
next
  case (Cons v us)
  have a: "wf_kids hs (map fval_type fs) (root t) \<or> root t = Empty \<and> fs \<noteq> []" "list_all storable fs"
    using sh ty Cons by (auto simp: trie_shape_def typed_by_def)
  have np: "\<not> many <s 0" using pos by (simp add: word_sless_alt)
  have t: "map fval_type fs = ts" using ty by (simp add: typed_by_def)
  from walk_spec [OF law a, where i = "next_leaf t" and neg = False] lk obtain k where
    "check_insert_walk hs (next_leaf t) False fs (root t) = Inr (Grown k)" "wf_kids hs ts k"
    "mset (leaf_ids k) = add_mset (next_leaf t) (mset (leaf_ids (root t)))"
    "\<forall>ws. alike fs ws \<longrightarrow> lookup ws k = (if list_all2 fval_same fs ws then Some (next_leaf t) else lookup ws (root t))"
    unfolding t by auto
  moreover have "fs \<noteq> []" using Cons by simp
  ultimately show ?thesis
    using np by (intro exI [of _ k]) (simp add: check_insert_def alike_def typed_by_def t)
qed

lemma fval_same_refl: "storable v \<Longrightarrow> fval_same v v"
  by (cases v) (auto simp: float_eq_refl_iff list_all2_same list_all_iff)

lemma list_all2_refl_storable: "list_all storable vs \<Longrightarrow> list_all2 fval_same vs vs"
  by (induction vs) (auto intro: fval_same_refl)

lemma trie_shape_new:
  assumes sh: "trie_shape hs ts t" and ty: "typed_by ts (tpl_fields (st_data s))"
    and lk: "lookup (tpl_fields (st_data s)) (root t) = None"
    and k: "wf_kids hs ts k" "mset (leaf_ids k) = add_mset (next_leaf t) (mset (leaf_ids (root t)))"
      "\<And>ws. typed_by ts ws \<Longrightarrow> lookup ws k =
         (if list_all2 fval_same (tpl_fields (st_data s)) ws then Some (next_leaf t) else lookup ws (root t))"
  shows "trie_shape hs ts (t\<lparr>root := k, leaves := leaves t @ [(next_leaf t, s)], next_leaf := next_leaf t + 1\<rparr>)"
proof -
  let ?fs = "tpl_fields (st_data s)"
  have old: "typed_by ts (tpl_fields (st_data s'))" "lookup (tpl_fields (st_data s')) (root t) = Some i"
    if "(i, s') \<in> set (leaves t)" for i s'
    using sh that by (auto simp: trie_shape_def)
  have keep: "lookup (tpl_fields (st_data s')) k = Some i" if "(i, s') \<in> set (leaves t)" for i s'
  proof -
    have "\<not> list_all2 fval_same ?fs (tpl_fields (st_data s'))"
    proof
      assume "list_all2 fval_same ?fs (tpl_fields (st_data s'))"
      moreover have "wf_kids hs ts (root t)" using sh that root_Empty_iff [OF sh] by (auto simp: trie_shape_def)
      ultimately have "lookup ?fs (root t) = Some i" using lookup_same ty old [OF that] by metis
      with lk show False by simp
    qed
    with k(3) old [OF that] show ?thesis by simp
  qed
  have "list_all2 fval_same ?fs ?fs" using ty by (auto simp: typed_by_def intro: list_all2_refl_storable)
  then have me: "lookup ?fs k = Some (next_leaf t)" using k(3) ty by simp
  have "next_leaf t \<notin> fst ` set (leaves t)" using sh by (auto simp: trie_shape_def)
  then show ?thesis using sh k(1,2) ty me old(1) keep by (auto simp: trie_shape_def)
qed

lemma typed_same_lookup:
  assumes "trie_shape hs ts t" and "typed_by ts fs" and "typed_by ts gs" and "lookup fs (root t) = Some j"
  shows "lookup gs (root t) = Some j \<longleftrightarrow> list_all2 fval_same fs gs"
proof -
  have wf: "wf_kids hs ts (root t)"
    using assms(1,4) by (cases "root t = Empty") (auto simp: trie_shape_def)
  show ?thesis
    using lookup_same [OF wf assms(2,3)] lookup_inj [OF wf assms(2,3) distinct_leaf_ids [OF assms(1)]] assms(4) by metis
qed

lemma sint_word_of_int_16: "0 < n \<Longrightarrow> n < 32768 \<Longrightarrow> sint (word_of_int n :: 16 word) = n"
  by (simp add: sint_sbintrunc' signed_take_bit_int_eq_self)

lemma fact_count_nonneg: "trie_ok hs ts t \<Longrightarrow> 0 \<le> fact_count t fs"
proof -
  assume ok: "trie_ok hs ts t"
  show ?thesis
  proof (cases "lookup fs (root t)")
    case (Some j)
    obtain s where "map_of (leaves t) j = Some s" "(j, s) \<in> set (leaves t)"
      using map_of_leaf [OF trie_okD(1) [OF ok] Some] by blast
    with Some trie_okD(2) [OF ok] show ?thesis by (fastforce simp: fact_count_def word_sless_sint)
  qed (simp add: fact_count_def)
qed

text \<open>Insertion, from the caller's side: the count of that fact goes up, no other changes.\<close>

lemma insert_tuple_ok:
  assumes law: "hash_law hs" and ok: "trie_ok hs ts t" and ty: "typed_by ts (tpl_fields tpl)" and pos: "0 <s many"
    and r1: "number_of_references t + sint many < 2 ^ 31"
    and r2: "fact_count t (tpl_fields tpl) + sint many < 2 ^ 15"
  shows "\<exists>t'. insert_tuple hs tpl many t = Inr (fact_count t (tpl_fields tpl) = 0, t') \<and> trie_ok hs ts t' \<and>
    number_of_references t' = number_of_references t + sint many \<and>
    (\<forall>gs. typed_by ts gs \<longrightarrow> fact_count t' gs =
       fact_count t gs + (if list_all2 fval_same (tpl_fields tpl) gs then sint many else 0))"
proof -
  let ?fs = "tpl_fields tpl" and ?r = "number_of_references t + sint many"
  let ?t = "t\<lparr>number_of_references := ?r\<rparr>" and ?new = "new_simple_tuple tpl many"
  note sh = trie_okD(1) [OF ok] and cnts = trie_okD(2) [OF ok] and sum = trie_okD(3) [OF ok]
  have m: "0 < sint many" using pos by (simp add: word_sless_sint)
  have sh1: "trie_shape hs ts ?t" using sh by simp
  have refs: "int_add (number_of_references t) (sint many) = Inr ?r" "0 < ?r"
    using trie_ok_refs(1) [OF ok] m r1 by (simp_all add: int_add_def)
  show ?thesis
  proof (cases "lookup ?fs (root t)")
    case None
    have lk: "lookup ?fs (root ?t) = None" using None by simp
    from check_insert_new [OF law sh1 ty lk pos, of tuple_leaf ?new]
    obtain k where k: "check_insert tuple_leaf hs ?new many ?fs ?t =
        Inr (Some (False, next_leaf t), ?t\<lparr>root := k, leaves := leaves t @ [(next_leaf t, ?new)], next_leaf := next_leaf t + 1\<rparr>)"
      "wf_kids hs ts k" "mset (leaf_ids k) = add_mset (next_leaf t) (mset (leaf_ids (root t)))"
      "\<And>ws. typed_by ts ws \<Longrightarrow> lookup ws k = (if list_all2 fval_same ?fs ws then Some (next_leaf t) else lookup ws (root t))"
      by auto
    let ?t' = "?t\<lparr>root := k, leaves := leaves t @ [(next_leaf t, ?new)], next_leaf := next_leaf t + 1\<rparr>"
    have sh': "trie_shape hs ts ?t'"
      using trie_shape_new [OF sh1, of ?new k] ty None k(2-4) by (simp add: new_simple_tuple_def)
    have ok': "trie_ok hs ts ?t'"
      using sh' cnts pos sum r1 by (auto simp: trie_ok_def new_simple_tuple_def)
    have fresh: "map_of (leaves t) (next_leaf t) = None"
      using sh by (force simp: trie_shape_def map_of_eq_None_iff)
    have zero: "fact_count t ?fs = 0" using None by (simp add: fact_count_def)
    have cnt: "fact_count ?t' gs = fact_count t gs + (if list_all2 fval_same ?fs gs then sint many else 0)"
      if gs: "typed_by ts gs" for gs
    proof (cases "list_all2 fval_same ?fs gs")
      case True
      have "lookup gs (root t) = None"
      proof (cases "root t = Empty")
        case False
        then have "wf_kids hs ts (root t)" using sh by (simp add: trie_shape_def)
        from lookup_same [OF this ty gs True] None show ?thesis by simp
      qed (cases gs; simp)
      with True k(4) [OF gs] fresh show ?thesis by (simp add: fact_count_def map_add_def new_simple_tuple_def)
    next
      case False
      have "lookup gs (root t) \<noteq> Some (next_leaf t)" using map_of_leaf [OF sh] fresh by fastforce
      with False k(4) [OF gs] map_of_leaf [OF sh, of gs] show ?thesis
        by (auto simp: fact_count_def map_add_def split: option.splits)
    qed
    have "insert_tuple hs tpl many t = Inr (True, ?t')"
      using trie_ok_invariants [OF ok'] by (simp add: insert_tuple_def refs k(1))
    with zero ok' cnt show ?thesis by (intro exI [of _ ?t']) simp
  next
    case (Some j)
    obtain s where s: "map_of (leaves t) j = Some s" "(j, s) \<in> set (leaves t)" using map_of_leaf [OF sh Some] by blast
    have c: "fact_count t ?fs = sint (st_count s)" by (simp add: fact_count_def Some s(1))
    have cs: "0 < sint (st_count s)" using cnts [OF s(2)] by (simp add: word_sless_sint)
    have add: "sint (st_count s + many) = sint (st_count s) + sint many" using r2 c cs m by (intro sint_add_16) auto
    let ?t' = "?t\<lparr>leaves := update_leaf j (st_add_count many) (leaves t)\<rparr>"
    have w: "check_insert tuple_leaf hs ?new many ?fs ?t = Inr (Some (True, j), ?t')"
      using check_insert_found [OF law sh1 ty, of j tuple_leaf ?new many] Some refs by (simp add: tuple_leaf_def)
    have dl: "distinct (map fst (leaves t))" using sh by (simp add: trie_shape_def)
    have ok': "trie_ok hs ts ?t'"
      unfolding trie_ok_def
    proof (intro conjI)
      show "trie_shape hs ts ?t'"
        using trie_shape_update [OF sh1, of "st_add_count many" j] by (simp add: st_add_count_def)
      show "\<forall>(i, s) \<in> set (leaves ?t'). 0 <s st_count s"
      proof clarify
        fix i l'
        assume "(i, l') \<in> set (leaves ?t')"
        then obtain l where l: "(i, l) \<in> set (leaves t)" "l' = (if i = j then st_add_count many l else l)"
          by (auto simp: set_update_leaf)
        show "0 <s st_count l'"
        proof (cases "i = j")
          case True
          then have "l = s" using eq_key_imp_eq_value [OF dl] l(1) s(2) by blast
          with True l(2) add m cs show ?thesis by (simp add: st_add_count_def word_sless_sint)
        qed (use cnts l in simp)
      qed
      show "number_of_references ?t' = (\<Sum>(i, s) \<leftarrow> leaves ?t'. sint (st_count s))"
        using sum_update_leaf [OF dl s(1), of "\<lambda>s. sint (st_count s)" "st_add_count many"] sum add
        by (simp add: st_add_count_def)
    qed (use r1 in simp)
    have cnt: "fact_count ?t' gs = fact_count t gs + (if list_all2 fval_same ?fs gs then sint many else 0)"
      if gs: "typed_by ts gs" for gs
      using typed_same_lookup [OF sh ty gs Some] s(1) add
      by (auto simp: fact_count_def map_of_update_leaf st_add_count_def split: option.splits)
    have "insert_tuple hs tpl many t = Inr (False, ?t')"
      using trie_ok_invariants [OF ok'] root_Empty_iff [OF sh] s(2) refs
      by (auto simp: insert_tuple_def w)
    with c cs ok' cnt show ?thesis by (intro exI [of _ ?t']) simp
  qed
qed

text \<open>Removing the leaf \<open>j\<close> for good.\<close>

lemma remove_leaf_shape:
  assumes sh: "trie_shape hs ts t" and j: "(j, s) \<in> set (leaves t)"
  shows "\<exists>ps. leaf_path j (root t) = Some ps \<and>
    trie_shape hs ts (t\<lparr>root := delete_path ps (root t), leaves := remove_leaf j (leaves t)\<rparr>) \<and>
    (\<forall>gs. typed_by ts gs \<longrightarrow>
       lookup gs (delete_path ps (root t)) = (if lookup gs (root t) = Some j then None else lookup gs (root t)))"
proof -
  have d: "distinct (map fst (leaves t))" and m: "mset (leaf_ids (root t)) = mset (map fst (leaves t))"
    using sh by (simp_all add: trie_shape_def)
  have "j \<in> fst ` set (leaves t)" using j by force
  then have c1: "count (mset (map fst (leaves t))) j = 1" using d by (subst distinct_count_atmost_1 [THEN iffD1, rule_format]) simp_all
  have ids: "j \<in> set (leaf_ids (root t))"
    using m \<open>j \<in> fst ` set (leaves t)\<close> by (metis set_map set_mset_mset)
  have "leaves t \<noteq> []" using j by auto
  then have wf: "wf_kids hs ts (root t)" using sh root_Empty_iff [OF sh] by (simp add: trie_shape_def)
  obtain ps where ps: "leaf_path j (root t) = Some ps"
      "delete_path ps (root t) = Empty \<or> wf_kids hs ts (delete_path ps (root t))"
      "add_mset j (mset (leaf_ids (delete_path ps (root t)))) = mset (leaf_ids (root t))"
      "\<And>ws. typed_by ts ws \<Longrightarrow> lookup ws (delete_path ps (root t)) =
         (if lookup ws (root t) = Some j then None else lookup ws (root t))"
    using delete_path_spec [OF wf distinct_leaf_ids [OF sh], of j] ids by blast
  have rm: "map fst (remove_leaf j (leaves t)) = removeAll j (map fst (leaves t))"
    by (simp add: remove_leaf_def filter_map comp_def removeAll_filter_not_eq eq_commute)
  have m1: "add_mset j (mset (removeAll j (map fst (leaves t)))) = mset (map fst (leaves t))"
  proof -
    have "j \<in># mset (map fst (leaves t))" using c1 by (metis count_eq_zero_iff zero_neq_one)
    then have "add_mset j (mset (remove1 j (map fst (leaves t)))) = mset (map fst (leaves t))" by simp
    then show ?thesis using d by (simp only: distinct_remove1_removeAll)
  qed
  have sub: "set (remove_leaf j (leaves t)) = {p \<in> set (leaves t). fst p \<noteq> j}" by (auto simp: remove_leaf_def)
  have "trie_shape hs ts (t\<lparr>root := delete_path ps (root t), leaves := remove_leaf j (leaves t)\<rparr>)"
    unfolding trie_shape_def
  proof (intro conjI)
    show "mset (leaf_ids (root (t\<lparr>root := delete_path ps (root t), leaves := remove_leaf j (leaves t)\<rparr>))) =
        mset (map fst (leaves (t\<lparr>root := delete_path ps (root t), leaves := remove_leaf j (leaves t)\<rparr>)))"
      using ps(3) m m1 unfolding rm by (simp add: rm) (metis add_mset_add_mset_same_iff)
    show "\<forall>(i, s) \<in> set (leaves (t\<lparr>root := delete_path ps (root t), leaves := remove_leaf j (leaves t)\<rparr>)).
        typed_by ts (tpl_fields (st_data s)) \<and>
        lookup (tpl_fields (st_data s)) (root (t\<lparr>root := delete_path ps (root t), leaves := remove_leaf j (leaves t)\<rparr>)) = Some i"
      using sh ps(4) by (auto simp: trie_shape_def sub)
    show "distinct (map fst (leaves (t\<lparr>root := delete_path ps (root t), leaves := remove_leaf j (leaves t)\<rparr>)))"
      using d by (simp add: rm distinct_removeAll)
  qed (use sh ps(2) in \<open>auto simp: trie_shape_def sub\<close>)
  with ps show ?thesis by blast
qed

lemma map_of_remove_leaf: "map_of (remove_leaf j ls) i = (if i = j then None else map_of ls i)"
  by (induction ls) (auto simp: remove_leaf_def)

lemma sum_remove_leaf:
  fixes g :: "'l \<Rightarrow> int"
  shows "distinct (map fst ls) \<Longrightarrow> map_of ls j = Some l \<Longrightarrow>
    (\<Sum>(i, l) \<leftarrow> remove_leaf j ls. g l) = (\<Sum>(i, l) \<leftarrow> ls. g l) - g l"
proof (induction ls)
  case (Cons p ls)
  obtain i k where p: "p = (i, k)" by (cases p)
  show ?case
  proof (cases "i = j")
    case True
    then have "j \<notin> fst ` set ls" using Cons.prems(1) by (simp add: p)
    then have "remove_leaf j ls = ls" by (force simp: remove_leaf_def intro: filter_True)
    with True Cons.prems(2) show ?thesis by (simp add: p remove_leaf_def)
  next
    case False
    with Cons show ?thesis by (simp add: p remove_leaf_def)
  qed
qed simp

text \<open>Deletion, committed when it has to be: the count of that fact goes down.\<close>

lemma delete_commit_ok:
  assumes law: "hash_law hs" and ok: "trie_ok hs ts t" and ty: "typed_by ts (tpl_fields tpl)" and pos: "0 <s many"
    and enough: "sint many \<le> fact_count t (tpl_fields tpl)"
  shows "\<exists>t'. delete_commit hs tpl many t = Inr t' \<and> trie_ok hs ts t' \<and>
    number_of_references t' = number_of_references t - sint many \<and>
    (\<forall>gs. typed_by ts gs \<longrightarrow> fact_count t' gs =
       fact_count t gs - (if list_all2 fval_same (tpl_fields tpl) gs then sint many else 0))"
proof -
  let ?fs = "tpl_fields tpl" and ?new = "new_simple_tuple tpl (- many)"
  note sh = trie_okD(1) [OF ok] and cnts = trie_okD(2) [OF ok] and sum = trie_okD(3) [OF ok]
  have m: "0 < sint many" using pos by (simp add: word_sless_sint)
  obtain j where Some: "lookup ?fs (root t) = Some j" using enough m by (auto simp: fact_count_def split: option.splits)
  obtain s where s: "map_of (leaves t) j = Some s" "(j, s) \<in> set (leaves t)" using map_of_leaf [OF sh Some] by blast
  have c: "sint many \<le> sint (st_count s)" using enough by (simp add: fact_count_def Some s(1))
  have small: "sint (st_count s) < 2 ^ 15" using sint_lt [of "st_count s"] by simp
  have neg: "sint (- many) = - sint many" using m small c by (intro sint_minus_16) simp
  have add: "sint (st_count s + - many) = sint (st_count s) - sint many"
    using sint_add_16 [of "st_count s" "- many"] neg m c small by simp
  have dl: "distinct (map fst (leaves t))" using sh by (simp add: trie_shape_def)
  have total: "sint (st_count s) \<le> number_of_references t"
  proof -
    have "0 \<le> (\<Sum>(i, s) \<leftarrow> remove_leaf j (leaves t). sint (st_count s))"
      using cnts by (intro sum_list_nonneg) (auto simp: remove_leaf_def word_sless_sint intro: less_imp_le)
    then show ?thesis using sum_remove_leaf [OF dl s(1), of "\<lambda>s. sint (st_count s)"] sum by simp
  qed
  have refs: "0 < number_of_references t" "number_of_references t < 2 ^ 31"
    using total c m trie_okD(4) [OF ok] by auto
  have ra: "int_add (number_of_references t) (- sint many) = Inr (number_of_references t - sint many)"
    using refs total c m by (simp add: int_add_def)
  let ?t1 = "t\<lparr>leaves := update_leaf j (st_add_count (- many)) (leaves t)\<rparr>"
  have sh1: "trie_shape hs ts ?t1" using trie_shape_update [OF sh, of "st_add_count (- many)" j] by (simp add: st_add_count_def)
  have w: "check_insert tuple_leaf hs ?new (- many) ?fs t = Inr (Some (True, j), ?t1)"
    using check_insert_found [OF law sh ty Some refs(1), of tuple_leaf ?new "- many"] by (simp add: tuple_leaf_def)
  have del: "delete_tuple hs tpl many t =
      (if sint (st_count s) = sint many then Inr (Delete j many, ?t1)
       else Inr (No_Delete, ?t1\<lparr>number_of_references := number_of_references t - sint many\<rparr>))"
  proof -
    have "reached_zero (st_add_count (- many) s) \<longleftrightarrow> sint (st_count s) = sint many"
      using add unfolding reached_zero_def st_add_count_def
      by simp (metis signed_0 signed_word_eqI eq_iff_diff_eq_0)
    then show ?thesis
      using pos trie_ok_invariants [OF ok] by (simp add: delete_tuple_def w map_of_update_leaf s(1) ra) (simp add: tuple_leaf_def)
  qed
  have lk: "lookup gs (root t) = Some j \<longleftrightarrow> list_all2 fval_same ?fs gs" if "typed_by ts gs" for gs
    by (rule typed_same_lookup [OF sh ty that Some])
  show ?thesis
  proof (cases "sint (st_count s) = sint many")
    case False
    let ?t' = "?t1\<lparr>number_of_references := number_of_references t - sint many\<rparr>"
    have "trie_ok hs ts ?t'"
      unfolding trie_ok_def
    proof (intro conjI)
      show "\<forall>(i, s) \<in> set (leaves ?t'). 0 <s st_count s"
      proof clarify
        fix i l'
        assume "(i, l') \<in> set (leaves ?t')"
        then obtain l where l: "(i, l) \<in> set (leaves t)" "l' = (if i = j then st_add_count (- many) l else l)"
          by (auto simp: set_update_leaf)
        show "0 <s st_count l'"
        proof (cases "i = j")
          case True
          then have "l = s" using eq_key_imp_eq_value [OF dl] l(1) s(2) by blast
          with True l(2) add False c show ?thesis by (simp add: st_add_count_def word_sless_sint)
        qed (use cnts l in simp)
      qed
      show "number_of_references ?t' = (\<Sum>(i, s) \<leftarrow> leaves ?t'. sint (st_count s))"
        using sum_update_leaf [OF dl s(1), of "\<lambda>s. sint (st_count s)" "st_add_count (- many)"] sum add
        by (simp add: st_add_count_def)
    qed (use sh1 refs m in simp_all)
    moreover have "fact_count ?t' gs = fact_count t gs - (if list_all2 fval_same ?fs gs then sint many else 0)"
      if gs: "typed_by ts gs" for gs
      using lk [OF gs] s(1) add by (auto simp: fact_count_def map_of_update_leaf st_add_count_def split: option.splits)
    ultimately show ?thesis using False by (intro exI [of _ ?t']) (simp add: delete_commit_def del)
  next
    case True
    have j1: "(j, st_add_count (- many) s) \<in> set (leaves ?t1)" using s(2) by (auto simp: set_update_leaf)
    from remove_leaf_shape [OF sh1 j1] obtain ps where ps: "leaf_path j (root t) = Some ps"
      "trie_shape hs ts (?t1\<lparr>root := delete_path ps (root t), leaves := remove_leaf j (leaves ?t1)\<rparr>)"
      "\<And>gs. typed_by ts gs \<Longrightarrow>
        lookup gs (delete_path ps (root t)) = (if lookup gs (root t) = Some j then None else lookup gs (root t))"
      by auto
    let ?t' = "t\<lparr>number_of_references := number_of_references t - sint many, root := delete_path ps (root t),
        leaves := remove_leaf j (leaves t)\<rparr>"
    have rl: "remove_leaf j (leaves ?t1) = remove_leaf j (leaves t)"
      by (auto simp: remove_leaf_def update_leaf_def filter_map comp_def case_prod_beta intro!: map_idI)
    have sh': "trie_shape hs ts ?t'" using ps(2) unfolding rl by (simp add: trie_shape_def)
    have ok': "trie_ok hs ts ?t'"
      using sh' cnts sum_remove_leaf [OF dl s(1), of "\<lambda>s. sint (st_count s)"] sum True m refs
      by (auto simp: trie_ok_def remove_leaf_def)
    have "leaf_to_delete tuple_leaf (st_add_count (- many) s)"
      using signed_word_eqI [OF True] by (simp add: tuple_leaf_def reached_zero_def st_add_count_def)
    then have "commit_delete tuple_leaf j many ?t1 = Inr ?t'"
      using ra refs c total ps(1) trie_ok_invariants [OF ok'] rl
      by (simp add: commit_delete_def inner_delete_by_leaf_def map_of_update_leaf s(1))
    moreover have "fact_count ?t' gs = fact_count t gs - (if list_all2 fval_same ?fs gs then sint many else 0)"
      if gs: "typed_by ts gs" for gs
      using lk [OF gs] ps(3) [OF gs] s(1) True
      by (auto simp: fact_count_def map_of_remove_leaf split: option.splits)
    ultimately show ?thesis using True ok' by (intro exI [of _ ?t']) (simp add: delete_commit_def del)
  qed
qed

text \<open>A fact that is not there is left alone.\<close>

lemma delete_commit_missing:
  assumes law: "hash_law hs" and ok: "trie_ok hs ts t" and ty: "typed_by ts (tpl_fields tpl)" and pos: "0 <s many"
    and ne: "tpl_fields tpl \<noteq> []" and none: "fact_count t (tpl_fields tpl) = 0"
  shows "delete_commit hs tpl many t = Inr t"
proof -
  note sh = trie_okD(1) [OF ok] and cnts = trie_okD(2) [OF ok]
  have lk: "lookup (tpl_fields tpl) (root t) = None"
  proof (rule ccontr)
    assume "lookup (tpl_fields tpl) (root t) \<noteq> None"
    then obtain j where j: "lookup (tpl_fields tpl) (root t) = Some j" by blast
    obtain s where "map_of (leaves t) j = Some s" "(j, s) \<in> set (leaves t)" using map_of_leaf [OF sh j] by blast
    with j none cnts show False by (fastforce simp: fact_count_def word_sless_sint)
  qed
  have "sint many < 2 ^ 15" using sint_lt [of many] by simp
  then have "sint (- many) = - sint many" using pos by (intro sint_minus_16) (simp add: word_sless_sint)
  then have "- many <s 0" using pos by (simp add: word_sless_alt)
  from check_insert_missing [OF law sh ty ne lk this] trie_ok_invariants [OF ok] pos
  show ?thesis by (simp add: delete_commit_def delete_tuple_def)
qed

section \<open>The contract of a counted store\<close>

text \<open>
  What the users of a store of facts rely on: a count for every fact, up to the
  store's equality; insertion adds to the count of one fact and reports whether it was
  new, deletion takes away, and neither touches another fact. \<open>room s f n\<close> says that
  the counters can take \<open>n\<close> more references to \<open>f\<close>.
\<close>

fun insert_all :: "('f \<Rightarrow> int \<Rightarrow> 's \<Rightarrow> (bool \<times> 's) res) \<Rightarrow> 'f list \<Rightarrow> 's \<Rightarrow> 's res" where
  "insert_all ins [] s = Inr s"
| "insert_all ins (f # fs) s = res_bind (ins f 1 s) (\<lambda>(new, s'). insert_all ins fs s')"

text \<open>A sequence of insertions and removals, and what it does to a map of counts.\<close>

datatype 'f store_op = Insert_Fact 'f int | Remove_Fact 'f int

fun run_store ::
  "('f \<Rightarrow> int \<Rightarrow> 's \<Rightarrow> (bool \<times> 's) res) \<Rightarrow> ('f \<Rightarrow> int \<Rightarrow> 's \<Rightarrow> 's res) \<Rightarrow> 'f store_op list \<Rightarrow> 's \<Rightarrow> 's res" where
  "run_store ins del [] s = Inr s"
| "run_store ins del (Insert_Fact f n # ops) s = res_bind (ins f n s) (\<lambda>(new, s'). run_store ins del ops s')"
| "run_store ins del (Remove_Fact f n # ops) s = res_bind (del f n s) (\<lambda>s'. run_store ins del ops s')"

fun apply_count :: "('f \<Rightarrow> 'f \<Rightarrow> bool) \<Rightarrow> 'f store_op \<Rightarrow> ('f \<Rightarrow> int) \<Rightarrow> 'f \<Rightarrow> int" where
  "apply_count same (Insert_Fact f n) c = (\<lambda>g. c g + (if same f g then n else 0))"
| "apply_count same (Remove_Fact f n) c = (\<lambda>g. c g - (if same f g then n else 0))"

text \<open>Positive amounts of facts, and never more removed than the map has.\<close>

fun feasible :: "('f \<Rightarrow> bool) \<Rightarrow> ('f \<Rightarrow> 'f \<Rightarrow> bool) \<Rightarrow> 'f store_op list \<Rightarrow> ('f \<Rightarrow> int) \<Rightarrow> bool" where
  "feasible valid same [] c \<longleftrightarrow> True"
| "feasible valid same (Insert_Fact f n # ops) c \<longleftrightarrow>
     valid f \<and> 0 < n \<and> feasible valid same ops (apply_count same (Insert_Fact f n) c)"
| "feasible valid same (Remove_Fact f n # ops) c \<longleftrightarrow>
     valid f \<and> 0 < n \<and> n < 2 ^ 15 \<and> n \<le> c f \<and> feasible valid same ops (apply_count same (Remove_Fact f n) c)"

fun inserted :: "'f store_op list \<Rightarrow> int" where
  "inserted [] = 0"
| "inserted (Insert_Fact f n # ops) = n + inserted ops"
| "inserted (Remove_Fact f n # ops) = inserted ops"

lemma inserted_nonneg: "feasible valid same ops c \<Longrightarrow> 0 \<le> inserted ops"
  by (induction valid same ops c rule: feasible.induct) auto

locale counted_store =
  fixes inv :: "'s \<Rightarrow> bool" and fact :: "'f \<Rightarrow> bool" and same :: "'f \<Rightarrow> 'f \<Rightarrow> bool"
    and cnt :: "'s \<Rightarrow> 'f \<Rightarrow> int" and room :: "'s \<Rightarrow> 'f \<Rightarrow> int \<Rightarrow> bool"
    and ins :: "'f \<Rightarrow> int \<Rightarrow> 's \<Rightarrow> (bool \<times> 's) res" and del :: "'f \<Rightarrow> int \<Rightarrow> 's \<Rightarrow> 's res"
  assumes same_refl: "fact f \<Longrightarrow> same f f"
    and ins_law: "inv s \<Longrightarrow> fact f \<Longrightarrow> 0 < n \<Longrightarrow> room s f n \<Longrightarrow>
      \<exists>s'. ins f n s = Inr (cnt s f = 0, s') \<and> inv s' \<and>
        (\<forall>g. fact g \<longrightarrow> cnt s' g = cnt s g + (if same f g then n else 0)) \<and>
        (\<forall>g k. fact g \<longrightarrow> 0 < k \<longrightarrow> room s g (n + k) \<longrightarrow> room s' g k)"
    and del_law: "inv s \<Longrightarrow> fact f \<Longrightarrow> 0 < n \<Longrightarrow> n < 2 ^ 15 \<Longrightarrow> n \<le> cnt s f \<Longrightarrow>
      \<exists>s'. del f n s = Inr s' \<and> inv s' \<and>
        (\<forall>g. fact g \<longrightarrow> cnt s' g = cnt s g - (if same f g then n else 0)) \<and>
        (\<forall>g k. fact g \<longrightarrow> room s g k \<longrightarrow> room s' g k)"
begin

lemma ins_del:
  assumes "inv s" and "fact f" and "0 < n" and "n < 2 ^ 15" and "room s f n" and "0 \<le> cnt s f"
  shows "\<exists>s1 s2. ins f n s = Inr (cnt s f = 0, s1) \<and> del f n s1 = Inr s2 \<and> inv s2 \<and>
    (\<forall>g. fact g \<longrightarrow> cnt s2 g = cnt s g)"
proof -
  obtain s1 where s1: "ins f n s = Inr (cnt s f = 0, s1)" "inv s1"
      "\<And>g. fact g \<Longrightarrow> cnt s1 g = cnt s g + (if same f g then n else 0)"
    using ins_law [OF assms(1,2,3,5)] by blast
  have "n \<le> cnt s1 f" using s1(3) [OF assms(2)] same_refl [OF assms(2)] assms(6) by simp
  then obtain s2 where s2: "del f n s1 = Inr s2" "inv s2"
      "\<And>g. fact g \<Longrightarrow> cnt s2 g = cnt s1 g - (if same f g then n else 0)"
    using del_law [OF s1(2) assms(2,3,4)] by blast
  have "cnt s2 g = cnt s g" if "fact g" for g using s1(3) [OF that] s2(3) [OF that] by simp
  with s1 s2 show ?thesis by blast
qed

text \<open>Loading a list of facts counts, for every fact, how often the list has it.\<close>

lemma insert_all_counts:
  "inv s \<Longrightarrow> \<forall>f \<in> set fs. fact f \<and> (\<forall>k. 0 < k \<longrightarrow> k \<le> int (length fs) \<longrightarrow> room s f k) \<Longrightarrow>
   \<exists>s'. insert_all ins fs s = Inr s' \<and> inv s' \<and>
     (\<forall>g. fact g \<longrightarrow> cnt s' g = cnt s g + int (length (filter (\<lambda>f. same f g) fs)))"
proof (induction fs arbitrary: s)
  case (Cons f fs)
  have f: "fact f" and r: "room s f 1" using Cons.prems(2) by auto
  obtain s1 where s1: "ins f 1 s = Inr (cnt s f = 0, s1)" "inv s1"
      "\<And>g. fact g \<Longrightarrow> cnt s1 g = cnt s g + (if same f g then 1 else 0)"
      "\<And>g k. fact g \<Longrightarrow> 0 < k \<Longrightarrow> room s g (1 + k) \<Longrightarrow> room s1 g k"
    using ins_law [OF Cons.prems(1) f zero_less_one r] by blast
  have "\<forall>g \<in> set fs. fact g \<and> (\<forall>k. 0 < k \<longrightarrow> k \<le> int (length fs) \<longrightarrow> room s1 g k)"
    using Cons.prems(2) s1(4) by auto
  from Cons.IH [OF s1(2) this] s1(1,3) show ?case by fastforce
qed simp

text \<open>
  The store refines a map from facts to counts: a sequence of insertions and removals that
  never takes more than there is runs to its end, with the counts of the map.
\<close>

lemma run_store_counts:
  "inv s \<Longrightarrow> \<forall>g. fact g \<longrightarrow> cnt s g = c g \<Longrightarrow> feasible fact same ops c \<Longrightarrow>
   \<forall>g k. fact g \<longrightarrow> 0 < k \<longrightarrow> k \<le> inserted ops \<longrightarrow> room s g k \<Longrightarrow>
   \<exists>s'. run_store ins del ops s = Inr s' \<and> inv s' \<and> (\<forall>g. fact g \<longrightarrow> cnt s' g = fold (apply_count same) ops c g)"
proof (induction ops arbitrary: s c)
  case (Cons x ops)
  show ?case
  proof (cases x)
    case (Insert_Fact f n)
    note x = Insert_Fact
    have f: "fact f" and n: "0 < n" and rest: "feasible fact same ops (apply_count same x c)"
      using Cons.prems(3) by (auto simp: x)
    have total: "0 \<le> inserted ops" by (rule inserted_nonneg [OF rest])
    have "room s f n" using Cons.prems(4) f n total by (simp add: x)
    from ins_law [OF Cons.prems(1) f n this] obtain s1 where s1: "ins f n s = Inr (cnt s f = 0, s1)" "inv s1"
        "\<And>g. fact g \<Longrightarrow> cnt s1 g = cnt s g + (if same f g then n else 0)"
        "\<And>g k. fact g \<Longrightarrow> 0 < k \<Longrightarrow> room s g (n + k) \<Longrightarrow> room s1 g k" by blast
    have "\<forall>g. fact g \<longrightarrow> cnt s1 g = apply_count same x c g" using s1(3) Cons.prems(2) by (simp add: x)
    moreover have "\<forall>g k. fact g \<longrightarrow> 0 < k \<longrightarrow> k \<le> inserted ops \<longrightarrow> room s1 g k"
      using s1(4) Cons.prems(4) n by (simp add: x)
    ultimately show ?thesis using Cons.IH [OF s1(2) _ rest] s1(1) by (auto simp: x)
  next
    case (Remove_Fact f n)
    note x = Remove_Fact
    have f: "fact f" and n: "0 < n" "n < 2 ^ 15" "n \<le> cnt s f" and rest: "feasible fact same ops (apply_count same x c)"
      using Cons.prems(2,3) by (auto simp: x)
    from del_law [OF Cons.prems(1) f n] obtain s1 where s1: "del f n s = Inr s1" "inv s1"
        "\<And>g. fact g \<Longrightarrow> cnt s1 g = cnt s g - (if same f g then n else 0)"
        "\<And>g k. fact g \<Longrightarrow> room s g k \<Longrightarrow> room s1 g k" by blast
    have "\<forall>g. fact g \<longrightarrow> cnt s1 g = apply_count same x c g" using s1(3) Cons.prems(2) by (simp add: x)
    moreover have "\<forall>g k. fact g \<longrightarrow> 0 < k \<longrightarrow> k \<le> inserted ops \<longrightarrow> room s1 g k"
      using s1(4) Cons.prems(4) by (simp add: x)
    ultimately show ?thesis using Cons.IH [OF s1(2) _ rest] s1(1) by (auto simp: x)
  qed
qed simp

end

interpretation tuple_store: counted_store
  "\<lambda>t. hash_law hs \<and> trie_ok hs ts t" "\<lambda>tpl :: vtuple. typed_by ts (tpl_fields tpl)"
  "\<lambda>p q. list_all2 fval_same (tpl_fields p) (tpl_fields q)" "\<lambda>t tpl. fact_count t (tpl_fields tpl)"
  "\<lambda>t tpl n. number_of_references t + n < 2 ^ 31 \<and> fact_count t (tpl_fields tpl) + n < 2 ^ 15"
  "\<lambda>tpl n. insert_tuple hs tpl (word_of_int n)" "\<lambda>tpl n. delete_commit hs tpl (word_of_int n)"
  for hs ts
proof unfold_locales
  fix f :: vtuple
  assume "typed_by ts (tpl_fields f)"
  then show "list_all2 fval_same (tpl_fields f) (tpl_fields f)"
    by (simp add: typed_by_def list_all2_refl_storable)
next
  fix t and f :: vtuple and n :: int
  assume inv: "hash_law hs \<and> trie_ok hs ts t" and f: "typed_by ts (tpl_fields f)" and n: "0 < n"
    and room: "number_of_references t + n < 2 ^ 31 \<and> fact_count t (tpl_fields f) + n < 2 ^ 15"
  have c0: "0 \<le> fact_count t (tpl_fields f)" using fact_count_nonneg inv by blast
  have s: "sint (word_of_int n :: 16 word) = n" using n room c0 by (simp add: sint_word_of_int_16)
  then have pos: "0 <s (word_of_int n :: 16 word)" using n by (simp add: word_sless_sint)
  from insert_tuple_ok [of hs ts t f "word_of_int n", OF _ _ f pos] inv room obtain t' where t':
    "insert_tuple hs f (word_of_int n) t = Inr (fact_count t (tpl_fields f) = 0, t')" "trie_ok hs ts t'"
    "number_of_references t' = number_of_references t + n"
    "\<And>gs. typed_by ts gs \<Longrightarrow> fact_count t' gs = fact_count t gs + (if list_all2 fval_same (tpl_fields f) gs then n else 0)"
    unfolding s by blast
  show "\<exists>t'. insert_tuple hs f (word_of_int n) t = Inr (fact_count t (tpl_fields f) = 0, t') \<and>
      (hash_law hs \<and> trie_ok hs ts t') \<and>
      (\<forall>g. typed_by ts (tpl_fields g) \<longrightarrow> fact_count t' (tpl_fields g) =
         fact_count t (tpl_fields g) + (if list_all2 fval_same (tpl_fields f) (tpl_fields g) then n else 0)) \<and>
      (\<forall>g k. typed_by ts (tpl_fields g) \<longrightarrow> 0 < k \<longrightarrow>
         number_of_references t + (n + k) < 2 ^ 31 \<and> fact_count t (tpl_fields g) + (n + k) < 2 ^ 15 \<longrightarrow>
         number_of_references t' + k < 2 ^ 31 \<and> fact_count t' (tpl_fields g) + k < 2 ^ 15)"
    using t' inv n by (intro exI [of _ t']) (auto simp: add.assoc)
next
  fix t and f :: vtuple and n :: int
  assume inv: "hash_law hs \<and> trie_ok hs ts t" and f: "typed_by ts (tpl_fields f)" and n: "0 < n" "n < 2 ^ 15"
    and enough: "n \<le> fact_count t (tpl_fields f)"
  have s: "sint (word_of_int n :: 16 word) = n" using n by (simp add: sint_word_of_int_16)
  then have pos: "0 <s (word_of_int n :: 16 word)" using n by (simp add: word_sless_sint)
  from delete_commit_ok [of hs ts t f "word_of_int n", OF _ _ f pos] inv enough
  obtain t' where t': "delete_commit hs f (word_of_int n) t = Inr t'" "trie_ok hs ts t'"
    "number_of_references t' = number_of_references t - n"
    "\<And>gs. typed_by ts gs \<Longrightarrow> fact_count t' gs = fact_count t gs - (if list_all2 fval_same (tpl_fields f) gs then n else 0)"
    unfolding s by blast
  show "\<exists>t'. delete_commit hs f (word_of_int n) t = Inr t' \<and> (hash_law hs \<and> trie_ok hs ts t') \<and>
      (\<forall>g. typed_by ts (tpl_fields g) \<longrightarrow> fact_count t' (tpl_fields g) =
         fact_count t (tpl_fields g) - (if list_all2 fval_same (tpl_fields f) (tpl_fields g) then n else 0)) \<and>
      (\<forall>g k. typed_by ts (tpl_fields g) \<longrightarrow>
         number_of_references t + k < 2 ^ 31 \<and> fact_count t (tpl_fields g) + k < 2 ^ 15 \<longrightarrow>
         number_of_references t' + k < 2 ^ 31 \<and> fact_count t' (tpl_fields g) + k < 2 ^ 15)"
    using t' inv n by (intro exI [of _ t']) auto
qed

section \<open>Properties\<close>

text \<open>A concrete choice of hash functions: the values themselves, the magnitude of a double.\<close>

definition plain_hashes :: hashes where
  "plain_hashes =
     \<lparr>hash_int = unat, hash_uint = unat,
      hash_float = (\<lambda>a. nat \<bar>float_rank a\<bar>), hash_node = unat\<rparr>"

lemma plain_hashes_law: "hash_law plain_hashes"
  by (simp add: hash_law_def plain_hashes_def float_eq_def)


text \<open>
  C2: Inserting \<open>many\<close> references to a tuple into a well-formed trie succeeds, keeps the
  trie well-formed, reports whether the tuple was new, adds \<open>many\<close> to the number of
  references and to the count of that fact, and changes the count of no other fact.
  Facts are compared as the trie compares them, doubles by \<open>==\<close>. The tuple has values of the
  types of the trie that are \<open>storable\<close>: no NaN, and no string at an address of \<open>2^32\<close>
  or more. Such a string is stored but never found again (\<open>trie.cpp:190\<close>,
  \<open>string_tuples_never_found\<close>), so the property is not true of it. The references stay
  below the limits of their types.
\<close>

theorem insert_tuple_counts:
  assumes "hash_law hs" and "trie_ok hs ts t"
    and "map fval_type (tpl_fields tpl) = ts" and "list_all storable (tpl_fields tpl)" and "0 <s many"
    and "number_of_references t + sint many < 2 ^ 31"
    and "fact_count t (tpl_fields tpl) + sint many < 2 ^ 15"
  shows "\<exists>t'. insert_tuple hs tpl many t = Inr (fact_count t (tpl_fields tpl) = 0, t') \<and> trie_ok hs ts t' \<and>
    number_of_references t' = number_of_references t + sint many \<and>
    (\<forall>gs. map fval_type gs = ts \<longrightarrow> list_all storable gs \<longrightarrow> fact_count t' gs =
       fact_count t gs + (if list_all2 fval_same (tpl_fields tpl) gs then sint many else 0))"
  using insert_tuple_ok [OF assms(1,2) _ assms(5-)] assms(3,4) by (auto simp: typed_by_def)

lemma edge_typed: "typed_by [FIELD_NODE, FIELD_LIST_INT] (tpl_fields edge_tuple)"
  by (simp add: typed_by_def edge_tuple_def)

lemma edge_same: "list_all2 fval_same (tpl_fields edge_tuple) (tpl_fields edge_tuple)"
  using edge_typed by (simp add: typed_by_def list_all2_refl_storable)

lemma refs_new [simp]: "number_of_references new_trie = 0"
  by (simp add: new_trie_def)

lemma fact_count_new [simp]: "fact_count new_trie fs = 0"
  by (cases fs) (simp_all add: fact_count_def new_trie_def)

theorem insert_tuple_counts_witness:
  "\<exists>t'. insert_tuple plain_hashes edge_tuple 2 new_trie = Inr (True, t') \<and>
     trie_ok plain_hashes [FIELD_NODE, FIELD_LIST_INT] t' \<and> number_of_references t' = 2 \<and>
     fact_count t' (tpl_fields edge_tuple) = 2"
  using insert_tuple_counts [of plain_hashes "[FIELD_NODE, FIELD_LIST_INT]" new_trie edge_tuple 2] plain_hashes_law new_trie_ok
    edge_typed [unfolded typed_by_def] edge_same
  by (auto simp: word_sless_sint)

text \<open>
  C3: Deleting at most as many references as a fact has, with the commit its
  \<open>delete_info\<close> asks for, succeeds, keeps the trie well-formed, takes exactly that
  number from the fact and leaves every other fact's count alone; when the count
  reaches zero the leaf and its path are gone. As for the insertion the tuple has no NaN and
  no string at an address of \<open>2^32\<close> or more: the deletion would not find the stored fact.
\<close>

theorem delete_tuple_counts:
  assumes "hash_law hs" and "trie_ok hs ts t"
    and "map fval_type (tpl_fields tpl) = ts" and "list_all storable (tpl_fields tpl)" and "0 <s many"
    and "sint many \<le> fact_count t (tpl_fields tpl)"
  shows "\<exists>t'. delete_commit hs tpl many t = Inr t' \<and> trie_ok hs ts t' \<and>
    number_of_references t' = number_of_references t - sint many \<and>
    (\<forall>gs. map fval_type gs = ts \<longrightarrow> list_all storable gs \<longrightarrow> fact_count t' gs =
       fact_count t gs - (if list_all2 fval_same (tpl_fields tpl) gs then sint many else 0))"
  using delete_commit_ok [OF assms(1,2) _ assms(5-)] assms(3,4) by (auto simp: typed_by_def)

definition edge_trie :: "simple_tuple trie" where
  "edge_trie =
     \<lparr>root = Siblings [(7, Siblings [(1, Siblings [(3, Siblings [(1, Siblings [(4, Siblings [(0, Leaf 0)])])])])])],
      number_of_references = 2, leaves = [(0, new_simple_tuple edge_tuple 2)], next_leaf = 1\<rparr>"

lemma edge_trie_refs: "number_of_references edge_trie = 2"
  by (simp add: edge_trie_def)

lemma edge_insert: "insert_tuple plain_hashes edge_tuple 2 new_trie = Inr (True, edge_trie)"
  by code_simp

lemma edge_trie_ok: "trie_ok plain_hashes [FIELD_NODE, FIELD_LIST_INT] edge_trie"
  and edge_trie_count: "fact_count edge_trie (tpl_fields edge_tuple) = 2"
proof -
  have "fact_count edge_trie (tpl_fields edge_tuple) = 2 \<and> trie_ok plain_hashes [FIELD_NODE, FIELD_LIST_INT] edge_trie"
    using insert_tuple_ok [OF plain_hashes_law new_trie_ok edge_typed, of 2] edge_typed edge_same
    by (auto simp: edge_insert word_sless_sint)
  then show "trie_ok plain_hashes [FIELD_NODE, FIELD_LIST_INT] edge_trie"
    and "fact_count edge_trie (tpl_fields edge_tuple) = 2" by auto
qed

theorem delete_tuple_counts_witness:
  "\<exists>t'. delete_commit plain_hashes edge_tuple 2 edge_trie = Inr t' \<and>
     trie_ok plain_hashes [FIELD_NODE, FIELD_LIST_INT] t' \<and> number_of_references t' = 0 \<and>
     fact_count t' (tpl_fields edge_tuple) = 0"
  using delete_tuple_counts [of plain_hashes "[FIELD_NODE, FIELD_LIST_INT]" edge_trie edge_tuple 2] plain_hashes_law edge_trie_ok
    edge_typed [unfolded typed_by_def] edge_same edge_trie_count
  by (auto simp: edge_trie_refs word_sless_sint)

text \<open>
  Loading a list of facts one by one into an empty trie gives every fact the number
  of its occurrences in the list, in whatever order they come.
\<close>

theorem load_facts_counts:
  assumes "hash_law hs" and "\<forall>f \<in> set fs. typed_by ts (tpl_fields f)" and "length fs < 2 ^ 15"
  shows "\<exists>t. insert_all (\<lambda>tpl n. insert_tuple hs tpl (word_of_int n)) fs new_trie = Inr t \<and> trie_ok hs ts t \<and>
    (\<forall>g :: vtuple. typed_by ts (tpl_fields g) \<longrightarrow>
       fact_count t (tpl_fields g) = int (length (filter (\<lambda>f. list_all2 fval_same (tpl_fields f) (tpl_fields g)) fs)))"
  using tuple_store.insert_all_counts [of hs ts new_trie fs] assms new_trie_ok [of hs ts]
  by auto

theorem load_facts_counts_witness:
  "\<exists>t. insert_all (\<lambda>tpl n. insert_tuple plain_hashes tpl (word_of_int n)) [edge_tuple, edge_tuple] new_trie = Inr t \<and>
     fact_count t (tpl_fields edge_tuple) = 2"
  using load_facts_counts [OF plain_hashes_law, of "[edge_tuple, edge_tuple]" "[FIELD_NODE, FIELD_LIST_INT]"]
    edge_typed edge_same
  by (auto simp del: insert_all.simps)


text \<open>
  Inserting references to a tuple and deleting as many again leaves the count of
  every fact as it was, whether or not the fact was there before.
\<close>

theorem insert_delete_cancels:
  assumes "hash_law hs" and "trie_ok hs ts t" and "typed_by ts (tpl_fields tpl)"
    and "0 < n" and "n < 2 ^ 15"
    and "number_of_references t + n < 2 ^ 31" and "fact_count t (tpl_fields tpl) + n < 2 ^ 15"
  shows "\<exists>t1 t2. insert_tuple hs tpl (word_of_int n) t = Inr (fact_count t (tpl_fields tpl) = 0, t1) \<and>
    delete_commit hs tpl (word_of_int n) t1 = Inr t2 \<and> trie_ok hs ts t2 \<and>
    (\<forall>g :: vtuple. typed_by ts (tpl_fields g) \<longrightarrow> fact_count t2 (tpl_fields g) = fact_count t (tpl_fields g))"
  using tuple_store.ins_del [of hs ts t tpl n] assms fact_count_nonneg [OF assms(2)] by blast

theorem insert_delete_cancels_witness:
  "\<exists>t1 t2. insert_tuple plain_hashes edge_tuple 3 edge_trie = Inr (False, t1) \<and>
     delete_commit plain_hashes edge_tuple 3 t1 = Inr t2 \<and> fact_count t2 (tpl_fields edge_tuple) = 2"
  using insert_delete_cancels [OF plain_hashes_law edge_trie_ok edge_typed, of 3] edge_typed edge_trie_count
  by (auto simp: edge_trie_refs)

text \<open>
  The comparison of string fields takes four bytes of the stored pointer: a tuple
  whose string lies at an address of more than 32 bits is new at every insertion, and
  the trie keeps one leaf per insertion instead of counting. A NaN has the same effect,
  by the semantics of \<open>==\<close>.
\<close>

theorem string_tuples_never_found:
  "(let two = (\<lambda>v. let f = edge_tuple\<lparr>tpl_fields := [v]\<rparr> in
        res_bind (insert_tuple plain_hashes f 1 new_trie) (\<lambda>(new1, t1).
        res_bind (insert_tuple plain_hashes f 1 t1) (\<lambda>(new2, t2). Inr (new1, new2, length (leaves t2)))))
    in two (FString 0x7f0012345678) = Inr (True, True, 2) \<and> two (FString 0x12345678) = Inr (True, False, 1) \<and>
       two (FFloat 0x7FF8000000000000) = Inr (True, True, 2))"
  by code_simp

end
