(* ===== verification/Trie_Match.thy ===== *)
theory Trie_Match
  imports Tuple_Trie
begin

text \<open>
  Retrieval from the trie, \<open>tuple_trie::match_predicate\<close> of \<open>db/trie.cpp\<close>: a search
  with an explicit stack of continuation frames, which the code drives with gotos, and
  \<open>trie::delete_by_index\<close>, which follows the exact prefix of a pattern. The search is
  shown to visit what a recursive walk visits, and that is exactly the set of leaves
  whose facts match.
\<close>

section \<open>The search\<close>

text \<open>
  Where the search stands: at the children of a node it came down to, or, after a frame
  was popped, at a node with the rest of its siblings and, in a hash table, the later
  buckets.
\<close>

datatype cursor =
    Down kids
  | Resume "tnode list" "tnode list list option"

type_synonym frame = "cursor \<times> match_field list"

record search =
  at :: cursor
  stack :: "match_field list"        \<comment> \<open>\<open>typs\<close> and \<open>vals\<close>, top first\<close>
  cont :: "frame list"               \<comment> \<open>top first\<close>
  found :: "nat list"                \<comment> \<open>\<open>vec\<close>\<close>

text \<open>The children that an exact field is compared with.\<close>

definition candidates :: "hashes \<Rightarrow> fval \<Rightarrow> cursor \<Rightarrow> tnode list res" where
  "candidates hs v c =
     (case c of
        Down (Siblings ns) \<Rightarrow> if ns = [] then Inl Assert_Failed else Inr ns
      | Down (Hashed hty tot bs) \<Rightarrow>
          if bs = [] then Inl Bad_Access else Inr (bs ! bucket_of hs (fval_type v) (length bs) (raw_val v))
      | Down _ \<Rightarrow> Inl Assert_Failed
      | Resume ns None \<Rightarrow> if ns = [] then Inl Assert_Failed else Inr ns
      | Resume ns (Some bs) \<Rightarrow> Inl Assert_Failed)"

text \<open>The next non-empty bucket of a scan.\<close>

fun next_bucket :: "tnode list list \<Rightarrow> (tnode list \<times> tnode list list) option" where
  "next_bucket [] = None"
| "next_bucket (b # bs) = (if b = [] then next_bucket bs else Some (b, bs))"

definition rest_of_row :: "tnode list \<Rightarrow> tnode list list \<Rightarrow> cursor option" where
  "rest_of_row ns bs =
     (if ns \<noteq> [] then Some (Resume ns (Some bs))
      else map_option (\<lambda>(b, bs'). Resume b (Some bs')) (next_bucket bs))"

text \<open>An open field: the node to enter and the alternative to push.\<close>

definition open_choice :: "cursor \<Rightarrow> (tnode \<times> cursor option) res" where
  "open_choice c =
     (case c of
        Down (Siblings (n # ns)) \<Rightarrow> Inr (n, if ns \<noteq> [] then Some (Resume ns None) else None)
      | Down (Hashed hty tot bs) \<Rightarrow>
          (case next_bucket bs of
             Some (n # ns, bs') \<Rightarrow> Inr (n, rest_of_row ns bs')
           | _ \<Rightarrow> Inl Assert_Failed)
      | Resume (n # ns) None \<Rightarrow> Inr (n, if ns \<noteq> [] then Some (Resume ns None) else None)
      | Resume (n # ns) (Some bs) \<Rightarrow> Inr (n, rest_of_row ns bs)
      | _ \<Rightarrow> Inl Assert_Failed)"

text \<open>The stack below an open field of the given type, entered at a node with that data.\<close>

fun open_stack :: "field_type \<Rightarrow> 64 word \<Rightarrow> match_field list \<Rightarrow> match_field list" where
  "open_stack FIELD_LIST_INT d ms =
     (if (ucast d :: int_val) = 0 then ms else MAny FIELD_INT # MAny FIELD_LIST_INT # ms)"
| "open_stack FIELD_LIST_FLOAT d ms =
     (if (ucast d :: int_val) = 0 then ms else MAny FIELD_FLOAT # MAny FIELD_LIST_FLOAT # ms)"
| "open_stack FIELD_LIST_NODE d ms =
     (if (ucast d :: int_val) = 0 then ms else MAny FIELD_NODE # MAny FIELD_LIST_NODE # ms)"
| "open_stack (FIELD_OTHER b) d ms = MAny (FIELD_OTHER b) # ms"
| "open_stack _ d ms = ms"

text \<open>
  \<open>try_again\<close>: the search ends, or resumes at the top frame; and what follows
  \<open>match_succeeded\<close>: a leaf is recorded, another node is entered.
\<close>

definition try_again :: "search \<Rightarrow> nat list + search" where
  "try_again s =
     (case cont s of
        [] \<Rightarrow> Inl (found s)
      | (c, ms) # fr \<Rightarrow> Inr (s\<lparr>at := c, stack := ms, cont := fr\<rparr>))"

definition enter :: "tnode \<Rightarrow> match_field list \<Rightarrow> search \<Rightarrow> nat list + search" where
  "enter n ms s =
     (case snd n of
        Leaf j \<Rightarrow> try_again (s\<lparr>found := found s @ [j]\<rparr>)
      | k \<Rightarrow> Inr (s\<lparr>at := Down k, stack := ms\<rparr>))"

text \<open>One round from \<open>match_begin\<close>.\<close>

definition match_step :: "hashes \<Rightarrow> search \<Rightarrow> (nat list + search) res" where
  "match_step hs s =
     (case stack s of
        [] \<Rightarrow> Inl Assert_Failed
      | MExact v # ms \<Rightarrow>
          res_bind (candidates hs v (at s)) (\<lambda>ns.
          if \<not> pinnable v then Inl Assert_Failed
          else Inr (case find (\<lambda>n. same_data (fval_type v) (fst n) (raw_val v)) ns of
                      Some n \<Rightarrow> enter n ms s
                    | None \<Rightarrow> try_again s))
      | MAny ty # ms \<Rightarrow>
          res_bind (open_choice (at s)) (\<lambda>(n, alt).
          Inr (enter n (open_stack ty (fst n) ms)
                 (case alt of None \<Rightarrow> s | Some c \<Rightarrow> s\<lparr>cont := (c, stack s) # cont s\<rparr>))))"

text \<open>Every round leaves fewer nodes to visit.\<close>

function kids_weight :: "kids \<Rightarrow> nat" where
  "kids_weight k = Suc (\<Sum>n \<leftarrow> all_kids k. Suc (kids_weight (snd n)))"
  by pat_completeness auto
termination
  by (relation "measure size") (auto dest: size_kid simp del: all_kids.simps)

declare kids_weight.simps [simp del]

definition row_weight :: "tnode list \<Rightarrow> nat" where
  "row_weight ns = (\<Sum>n \<leftarrow> ns. Suc (kids_weight (snd n)))"

fun cursor_weight :: "cursor \<Rightarrow> nat" where
  "cursor_weight (Down k) = kids_weight k"
| "cursor_weight (Resume ns None) = row_weight ns"
| "cursor_weight (Resume ns (Some bs)) = row_weight ns + row_weight (concat bs)"

definition search_weight :: "search \<Rightarrow> nat" where
  "search_weight s = cursor_weight (at s) + (\<Sum>f \<leftarrow> cont s. cursor_weight (fst f))"

lemma row_weight_simps [simp]:
  "row_weight [] = 0" "row_weight (n # ns) = Suc (kids_weight (snd n) + row_weight ns)"
  "row_weight (ns @ ms) = row_weight ns + row_weight ms"
  by (simp_all add: row_weight_def)

lemma kids_weight_row: "kids_weight k = Suc (row_weight (all_kids k))"
  by (subst kids_weight.simps) (simp add: row_weight_def)

lemma row_weight_member: "n \<in> set ns \<Longrightarrow> Suc (kids_weight (snd n)) \<le> row_weight ns"
  by (induction ns) auto

lemma row_weight_bucket: "b < length bs \<Longrightarrow> row_weight (bs ! b) \<le> row_weight (concat bs)"
proof (induction bs arbitrary: b)
  case (Cons x bs)
  then show ?case by (cases b) (auto intro: trans_le_add2)
qed simp

lemma next_bucket_concat:
  "(case next_bucket bs of None \<Rightarrow> concat bs = [] | Some (b, bs') \<Rightarrow> b \<noteq> [] \<and> concat bs = b @ concat bs')"
  by (induction bs) (auto split: option.splits)

lemma kids_weight_pos: "0 < kids_weight k"
  by (subst kids_weight_row) simp

lemma rest_of_row_weight:
  "rest_of_row ns bs = Some c \<Longrightarrow> cursor_weight c = row_weight ns + row_weight (concat bs)"
  using next_bucket_concat [of bs] by (auto simp: rest_of_row_def split: option.splits if_splits)

lemma open_choice_weight:
  assumes "open_choice c = Inr (n, alt)"
  shows "kids_weight (snd n) + (case alt of None \<Rightarrow> 0 | Some a \<Rightarrow> cursor_weight a) < cursor_weight c"
proof (cases c)
  case (Down k)
  show ?thesis
  proof (cases k)
    case (Siblings ns)
    with assms Down show ?thesis
      by (cases ns) (auto simp: open_choice_def kids_weight_row [of "Siblings _"])
  next
    case (Hashed hty tot bs)
    with assms Down have "\<exists>ms bs'. next_bucket bs = Some (n # ms, bs') \<and> alt = rest_of_row ms bs'"
      by (auto simp: open_choice_def split: option.splits list.splits)
    then obtain ms bs' where m: "next_bucket bs = Some (n # ms, bs')" "alt = rest_of_row ms bs'" by blast
    have "row_weight (concat bs) = row_weight (n # ms) + row_weight (concat bs')"
      using next_bucket_concat [of bs] by (simp add: m(1))
    with m(2) Hashed Down show ?thesis
      by (auto simp: kids_weight_row [of "Hashed _ _ _"] rest_of_row_weight split: option.splits)
  qed (use assms Down in \<open>auto simp: open_choice_def\<close>)
next
  case (Resume ns bo)
  with assms show ?thesis
    by (cases ns; cases bo) (auto simp: open_choice_def rest_of_row_weight split: option.splits if_splits)
qed

lemma try_again_weight:
  "try_again s = Inr s' \<Longrightarrow> search_weight s' = (\<Sum>f \<leftarrow> cont s. cursor_weight (fst f))"
  by (auto simp: try_again_def search_weight_def split: list.splits)

lemma enter_weight:
  "enter n ms s = Inr s' \<Longrightarrow> search_weight s' \<le> kids_weight (snd n) + (\<Sum>f \<leftarrow> cont s. cursor_weight (fst f))"
  by (auto simp: enter_def search_weight_def split: kids.splits dest!: try_again_weight)

lemma candidates_weight:
  assumes "candidates hs v c = Inr ns"
  shows "0 < cursor_weight c" and "n \<in> set ns \<Longrightarrow> kids_weight (snd n) < cursor_weight c"
proof (atomize (full), cases c)
  case (Down k)
  show "0 < cursor_weight c \<and> (n \<in> set ns \<longrightarrow> kids_weight (snd n) < cursor_weight c)"
  proof (cases k)
    case (Siblings ms)
    with assms Down row_weight_member [of n ms] show ?thesis
      by (auto simp: candidates_def kids_weight_row [of "Siblings _"] split: if_splits)
  next
    case (Hashed hty tot bs)
    let ?b = "bucket_of hs (fval_type v) (length bs) (raw_val v)"
    have e: "ns = bs ! ?b" "bs \<noteq> []" using assms Hashed Down by (auto simp: candidates_def split: if_splits)
    then have "?b < length bs" by (intro bucket_of_less) simp
    from row_weight_member [of n ns] row_weight_bucket [OF this] e Hashed Down show ?thesis
      by (auto simp: kids_weight_row [of "Hashed _ _ _"])
  qed (use assms Down in \<open>auto simp: candidates_def\<close>)
next
  case (Resume ms bo)
  with assms row_weight_member [of n ms] show "0 < cursor_weight c \<and> (n \<in> set ns \<longrightarrow> kids_weight (snd n) < cursor_weight c)"
    by (cases ms) (auto simp: candidates_def split: option.splits if_splits)
qed

lemma match_step_weight: "match_step hs s = Inr (Inr s') \<Longrightarrow> search_weight s' < search_weight s"
proof (cases "stack s")
  case (Cons m ms)
  assume st: "match_step hs s = Inr (Inr s')"
  show ?thesis
  proof (cases m)
    case (MExact v)
    obtain ns where ns: "candidates hs v (at s) = Inr ns"
      and go: "(case find (\<lambda>n. same_data (fval_type v) (fst n) (raw_val v)) ns of
                  Some n \<Rightarrow> enter n ms s | None \<Rightarrow> try_again s) = Inr s'"
      using st by (auto simp: match_step_def Cons MExact res_bind_Inr_iff split: if_splits)
    show ?thesis
    proof (cases "find (\<lambda>n. same_data (fval_type v) (fst n) (raw_val v)) ns")
      case None
      with go try_again_weight [of s s'] candidates_weight(1) [OF ns] show ?thesis by (simp add: search_weight_def)
    next
      case (Some n)
      then have "n \<in> set ns" by (auto simp: find_Some_iff)
      with Some go enter_weight [of n ms s s'] candidates_weight(2) [OF ns] show ?thesis
        by (fastforce simp: search_weight_def)
    qed
  next
    case (MAny ty)
    obtain n alt where o: "open_choice (at s) = Inr (n, alt)"
      and go: "enter n (open_stack ty (fst n) ms)
        (case alt of None \<Rightarrow> s | Some c \<Rightarrow> s\<lparr>cont := (c, stack s) # cont s\<rparr>) = Inr s'"
      using st by (auto simp: match_step_def Cons MAny res_bind_Inr_iff)
    from open_choice_weight [OF o] enter_weight [OF go] show ?thesis
      by (cases alt) (auto simp: search_weight_def)
  qed
qed (simp add: match_step_def)

function match_loop :: "hashes \<Rightarrow> search \<Rightarrow> nat list res" where
  "match_loop hs s =
     (case match_step hs s of
        Inl e \<Rightarrow> Inl e
      | Inr (Inl ids) \<Rightarrow> Inr ids
      | Inr (Inr s') \<Rightarrow> match_loop hs s')"
  by pat_completeness auto
termination
  by (relation "measure (\<lambda>(hs, s). search_weight s)") (auto dest: match_step_weight)

declare match_loop.simps [simp del]

text \<open>\<open>tuple_trie::match_predicate\<close>: the leaves that match, in the order found.\<close>

definition match_predicate :: "hashes \<Rightarrow> match \<Rightarrow> 'l trie \<Rightarrow> nat list res" where
  "match_predicate hs m t =
     (if \<not> any_exact m then Inr (map fst (leaves t))
      else if number_of_references t = 0 then Inr []
      else if is_leaf (root t) then Inl Assert_Failed
      else match_loop hs \<lparr>at = Down (root t), stack = match_fields m, cont = [], found = []\<rparr>)"

section \<open>The search as a walk\<close>

text \<open>The same search by recursion, without hash tables and frames.\<close>

function sel :: "match_field list \<Rightarrow> kids \<Rightarrow> nat list" where
  "sel ms k =
     (case k of
        Leaf j \<Rightarrow> [j]
      | _ \<Rightarrow>
          (case ms of
             [] \<Rightarrow> []
           | MExact v # ms' \<Rightarrow>
               (case pick (fval_type v) (raw_val v) k of None \<Rightarrow> [] | Some n \<Rightarrow> sel ms' (snd n))
           | MAny ty # ms' \<Rightarrow> concat (map (\<lambda>n. sel (open_stack ty (fst n) ms') (snd n)) (all_kids k))))"
  by pat_completeness auto
termination
  by (relation "measure (\<lambda>(ms, k). size k)") (auto dest!: size_kid pick_Some_in simp del: all_kids.simps)

declare sel.simps [simp del]

lemma sel_Leaf [simp]: "sel ms (Leaf j) = [j]"
  by (subst sel.simps) simp

lemma sel_exact:
  "\<not> is_leaf k \<Longrightarrow> sel (MExact v # ms) k =
     (case pick (fval_type v) (raw_val v) k of None \<Rightarrow> [] | Some n \<Rightarrow> sel ms (snd n))"
  by (subst sel.simps) (cases k; simp)

lemma sel_any:
  "\<not> is_leaf k \<Longrightarrow> sel (MAny ty # ms) k = concat (map (\<lambda>n. sel (open_stack ty (fst n) ms) (snd n)) (all_kids k))"
  by (subst sel.simps) (cases k; simp)

definition match_typed :: "match_field list \<Rightarrow> field_type list \<Rightarrow> bool" where
  "match_typed ms ts \<longleftrightarrow>
     list_all2 (\<lambda>f t. case f of MAny u \<Rightarrow> u = t | MExact v \<Rightarrow> pinnable v \<and> fval_type v = t) ms ts"

lemma match_typed_Nil [simp]: "match_typed [] ts \<longleftrightarrow> ts = []" "match_typed ms [] \<longleftrightarrow> ms = []"
  by (auto simp: match_typed_def)

lemma match_typed_Any [simp]: "match_typed (MAny u # ms) (t # ts) \<longleftrightarrow> u = t \<and> match_typed ms ts"
  by (simp add: match_typed_def)

lemma match_typed_Exact [simp]:
  "match_typed (MExact v # ms) (t # ts) \<longleftrightarrow> pinnable v \<and> fval_type v = t \<and> match_typed ms ts"
  by (simp add: match_typed_def)

lemma match_typed_open:
  "key_ok t d \<Longrightarrow> match_typed ms ts \<Longrightarrow> match_typed (open_stack t d ms) (next_types t d @ ts)"
  by (cases t) auto

lemma pinnable_next: "pinnable v \<Longrightarrow> next_types (fval_type v) d = []"
  by (auto simp: pinnable_def)

fun row_of :: "cursor \<Rightarrow> tnode list" where
  "row_of (Down k) = all_kids k"
| "row_of (Resume ns None) = ns"
| "row_of (Resume ns (Some bs)) = ns @ concat bs"

text \<open>A place from which the search can go on, and what it will find from there.\<close>

fun good_frame :: "hashes \<Rightarrow> frame \<Rightarrow> bool" where
  "good_frame hs (Down k, st) = (\<exists>ts. wf_kids hs ts k \<and> match_typed st ts \<and> \<not> is_leaf k)"
| "good_frame hs (Resume ns bo, st) =
     (ns \<noteq> [] \<and> (\<exists>t ms ts. st = MAny t # ms \<and> match_typed ms ts \<and>
        (\<forall>n \<in> set (row_of (Resume ns bo)). key_ok t (fst n) \<and> wf_kids hs (next_types t (fst n) @ ts) (snd n))))"

fun frame_out :: "frame \<Rightarrow> nat list" where
  "frame_out (Down k, st) = sel st k"
| "frame_out (Resume ns bo, st) =
     (case st of
        MAny t # ms \<Rightarrow> concat (map (\<lambda>n. sel (open_stack t (fst n) ms) (snd n)) (row_of (Resume ns bo)))
      | _ \<Rightarrow> [])"

definition good_search :: "hashes \<Rightarrow> search \<Rightarrow> bool" where
  "good_search hs s \<longleftrightarrow> good_frame hs (at s, stack s) \<and> list_all (good_frame hs) (cont s)"

definition search_out :: "search \<Rightarrow> nat list" where
  "search_out s = found s @ frame_out (at s, stack s) @ concat (map frame_out (cont s))"

text \<open>What a round must lead to: the answer, or a good search with the same answer.\<close>

definition leads_to :: "hashes \<Rightarrow> nat list \<Rightarrow> nat list + search \<Rightarrow> bool" where
  "leads_to hs out r \<longleftrightarrow>
     (case r of Inl ids \<Rightarrow> ids = out | Inr s' \<Rightarrow> good_search hs s' \<and> search_out s' = out)"

lemma try_again_leads:
  "list_all (good_frame hs) (cont s) \<Longrightarrow> leads_to hs (found s @ concat (map frame_out (cont s))) (try_again s)"
  by (auto simp: try_again_def leads_to_def good_search_def search_out_def split: list.splits)

lemma enter_leads:
  assumes "list_all (good_frame hs) (cont s)" and "wf_kids hs ts (snd n)" and "match_typed ms ts"
  shows "leads_to hs (found s @ sel ms (snd n) @ concat (map frame_out (cont s))) (enter n ms s)"
proof (cases "snd n")
  case (Leaf j)
  then show ?thesis using try_again_leads [of hs "s\<lparr>found := found s @ [j]\<rparr>"] assms(1) by (simp add: enter_def)
next
  case (Siblings ns)
  have "good_frame hs (Down (snd n), ms)" using assms(2,3) Siblings by auto
  with Siblings assms(1) show ?thesis
    by (simp add: enter_def leads_to_def good_search_def search_out_def del: good_frame.simps)
next
  case (Hashed hty tot bs)
  have "good_frame hs (Down (snd n), ms)" using assms(2,3) Hashed by auto
  with Hashed assms(1) show ?thesis
    by (simp add: enter_def leads_to_def good_search_def search_out_def del: good_frame.simps)
qed (use assms(2) in auto)

lemma wf_kids_split:
  assumes "wf_kids hs ts k" and "\<not> is_leaf k"
  shows "\<exists>t us. ts = t # us \<and> layout_ok hs t k \<and> all_kids k \<noteq> [] \<and> uniq t (mset (all_kids k)) \<and>
    (\<forall>n \<in> set (all_kids k). key_ok t (fst n) \<and> wf_kids hs (next_types t (fst n) @ us) (snd n))"
  using assms by (cases rule: wf_kids.cases) auto

lemma rest_of_row_spec:
  "case rest_of_row ns bs of
     None \<Rightarrow> ns @ concat bs = []
   | Some c \<Rightarrow> (\<exists>ms bo. c = Resume ms bo \<and> ms \<noteq> [] \<and> row_of c = ns @ concat bs)"
  using next_bucket_concat [of bs] by (auto simp: rest_of_row_def split: option.splits)

lemma open_choice_row:
  assumes "row_of c \<noteq> []" and "case c of Down k \<Rightarrow> \<not> is_leaf k | Resume ns bo \<Rightarrow> ns \<noteq> []"
  shows "\<exists>n alt. open_choice c = Inr (n, alt) \<and>
    row_of c = n # (case alt of None \<Rightarrow> [] | Some c' \<Rightarrow> row_of c') \<and>
    (\<forall>c'. alt = Some c' \<longrightarrow> (\<exists>ns bo. c' = Resume ns bo \<and> ns \<noteq> []))"
proof (cases c)
  case (Down k)
  show ?thesis
  proof (cases k)
    case (Siblings ns)
    with assms Down show ?thesis by (cases ns) (auto simp: open_choice_def)
  next
    case (Hashed hty tot bs)
    then obtain b bs' where b: "next_bucket bs = Some (b, bs')" "b \<noteq> []" "concat bs = b @ concat bs'"
      using next_bucket_concat [of bs] assms(1) Down by (auto split: option.splits)
    then obtain n ns where n: "b = n # ns" by (cases b) auto
    show ?thesis
      using rest_of_row_spec [of ns bs'] b n Hashed Down
      by (cases "rest_of_row ns bs'") (auto simp: open_choice_def)
  qed (use assms Down in auto)
next
  case (Resume ns bo)
  then obtain n ms where n: "ns = n # ms" using assms(2) by (cases ns) auto
  show ?thesis
  proof (cases bo)
    case (Some bs)
    show ?thesis
      using rest_of_row_spec [of ms bs] Some n Resume
      by (cases "rest_of_row ms bs") (auto simp: open_choice_def)
  qed (use n Resume in \<open>auto simp: open_choice_def\<close>)
qed

text \<open>Among the candidates an exact field finds what it would find among all children.\<close>

lemma candidates_find:
  assumes law: "hash_law hs" and lay: "layout_ok hs (fval_type v) k" and ne: "all_kids k \<noteq> []"
    and u: "uniq (fval_type v) (mset (all_kids k))"
  shows "\<exists>ns. candidates hs v (Down k) = Inr ns \<and>
    find (\<lambda>n. same_data (fval_type v) (fst n) (raw_val v)) ns = pick (fval_type v) (raw_val v) k"
proof (cases k)
  case (Siblings ns)
  then show ?thesis using ne by (simp add: candidates_def pick_def)
next
  case (Hashed hty tot bs)
  let ?P = "\<lambda>n :: tnode. same_data (fval_type v) (fst n) (raw_val v)"
  let ?b = "bucket_of hs (fval_type v) (length bs) (raw_val v)"
  note l = layout_okD [OF lay [unfolded Hashed]]
  have b: "?b < length bs" using l(3) by (rule bucket_of_less)
  have "find ?P (bs ! ?b) = pick (fval_type v) (raw_val v) k"
  proof (cases "find ?P (bs ! ?b)")
    case None
    have "\<not> ?P n" if n: "n \<in> set (concat bs)" for n
    proof
      assume P: "?P n"
      obtain b where "b \<in> set bs" "n \<in> set b" using n by auto
      then obtain c where c: "c < length bs" "n \<in> set (bs ! c)" by (metis in_set_conv_nth)
      then have "bucket_of hs (fval_type v) (length bs) (fst n) = c" by (rule l(4))
      then have "c = ?b" using same_data_hash [OF law P] by (simp add: bucket_of_def)
      with c(2) have "n \<in> set (bs ! ?b)" by simp
      with None P show False unfolding find_None_iff by blast
    qed
    then have "pick (fval_type v) (raw_val v) k = None" by (simp add: pick_None_iff Hashed)
    with None show ?thesis by simp
  next
    case (Some n)
    then have n: "n \<in> set (bs ! ?b)" "?P n" by (auto simp: find_Some_iff)
    then have "n \<in> set (all_kids k)" using b Hashed by auto
    from uniq_pick(2) [OF u this n(2)] Some show ?thesis by simp
  qed
  then show ?thesis using Hashed l(3) by (simp add: candidates_def)
qed (use lay in \<open>auto simp: layout_ok_def\<close>)

lemma match_step_good:
  assumes law: "hash_law hs" and g: "good_search hs s"
  shows "\<exists>r. match_step hs s = Inr r \<and> leads_to hs (search_out s) r"
proof -
  have fr: "list_all (good_frame hs) (cont s)" and gf: "good_frame hs (at s, stack s)"
    using g by (auto simp: good_search_def)
  have any: ?thesis
    if st: "stack s = MAny t # ms" and ms: "match_typed ms us" and row: "row_of (at s) \<noteq> []"
      and c: "case at s of Down k \<Rightarrow> \<not> is_leaf k | Resume ns bo \<Rightarrow> ns \<noteq> []"
      and kids: "\<forall>n \<in> set (row_of (at s)). key_ok t (fst n) \<and> wf_kids hs (next_types t (fst n) @ us) (snd n)"
      and out: "frame_out (at s, stack s) = concat (map (\<lambda>n. sel (open_stack t (fst n) ms) (snd n)) (row_of (at s)))"
    for t ms us
  proof -
    obtain n alt where o: "open_choice (at s) = Inr (n, alt)"
        "row_of (at s) = n # (case alt of None \<Rightarrow> [] | Some c' \<Rightarrow> row_of c')"
        "\<And>c'. alt = Some c' \<Longrightarrow> \<exists>ns bo. c' = Resume ns bo \<and> ns \<noteq> []"
      using open_choice_row [OF row c] by blast
    have n: "key_ok t (fst n)" "wf_kids hs (next_types t (fst n) @ us) (snd n)" using kids o(2) by auto
    let ?s = "case alt of None \<Rightarrow> s | Some c \<Rightarrow> s\<lparr>cont := (c, stack s) # cont s\<rparr>"
    have fr': "list_all (good_frame hs) (cont ?s)"
    proof (cases alt)
      case (Some c')
      then obtain ns bo where c': "c' = Resume ns bo" "ns \<noteq> []" using o(3) by blast
      have "good_frame hs (c', stack s)" using c' kids ms o(2) Some by (auto simp: st)
      with Some fr show ?thesis by simp
    qed (use fr in simp)
    have "leads_to hs (found ?s @ sel (open_stack t (fst n) ms) (snd n) @ concat (map frame_out (cont ?s)))
        (enter n (open_stack t (fst n) ms) ?s)"
      by (rule enter_leads [OF fr' n(2) match_typed_open [OF n(1) ms]])
    moreover have "found ?s @ sel (open_stack t (fst n) ms) (snd n) @ concat (map frame_out (cont ?s)) = search_out s"
      unfolding search_out_def out o(2) using o(3) by (cases alt) (auto simp: st)
    ultimately show ?thesis by (simp add: match_step_def st o(1))
  qed
  show ?thesis
  proof (cases "at s")
    case (Down k)
    then obtain ts where k: "wf_kids hs ts k" "match_typed (stack s) ts" "\<not> is_leaf k" using gf by auto
    obtain t us where t: "ts = t # us" "layout_ok hs t k" "all_kids k \<noteq> []" "uniq t (mset (all_kids k))"
        "\<forall>n \<in> set (all_kids k). key_ok t (fst n) \<and> wf_kids hs (next_types t (fst n) @ us) (snd n)"
      using wf_kids_split [OF k(1,3)] by blast
    obtain f ms where st: "stack s = f # ms" using k(2) t(1) by (cases "stack s") auto
    show ?thesis
    proof (cases f)
      case (MAny u)
      then show ?thesis using any [of t ms us] k(2,3) t st Down by (simp add: sel_any)
    next
      case (MExact v)
      then have v: "pinnable v" "fval_type v = t" "match_typed ms us" using k(2) t(1) st by auto
      obtain ns where ns: "candidates hs v (Down k) = Inr ns"
          "find (\<lambda>n. same_data (fval_type v) (fst n) (raw_val v)) ns = pick (fval_type v) (raw_val v) k"
        using candidates_find [OF law] t v(2) by metis
      have step: "match_step hs s = Inr (case pick (fval_type v) (raw_val v) k of
          Some n \<Rightarrow> enter n ms s | None \<Rightarrow> try_again s)"
        using ns v(1) by (simp add: match_step_def st MExact Down)
      show ?thesis
      proof (cases "pick (fval_type v) (raw_val v) k")
        case None
        then show ?thesis
          using try_again_leads [OF fr] k(3) by (simp add: step search_out_def st MExact Down sel_exact)
      next
        case (Some n)
        then have "wf_kids hs (next_types t (fst n) @ us) (snd n)" using t(5) pick_Some_in by metis
        then have "wf_kids hs us (snd n)" using pinnable_next [OF v(1)] v(2) by simp
        from enter_leads [OF fr this v(3)] Some k(3) show ?thesis
          by (simp add: step search_out_def st MExact Down sel_exact)
      qed
    qed
  next
    case (Resume ns bo)
    then obtain t ms us where st: "ns \<noteq> []" "stack s = MAny t # ms" "match_typed ms us"
        "\<forall>n \<in> set (row_of (Resume ns bo)). key_ok t (fst n) \<and> wf_kids hs (next_types t (fst n) @ us) (snd n)"
      using gf by auto
    have "row_of (Resume ns bo) \<noteq> []" using st(1) by (cases bo) auto
    with any [OF st(2,3)] st Resume show ?thesis by simp
  qed
qed

lemma match_loop_out:
  assumes law: "hash_law hs"
  shows "good_search hs s \<Longrightarrow> match_loop hs s = Inr (search_out s)"
proof (induction s rule: measure_induct_rule [of search_weight])
  case (less s)
  obtain r where r: "match_step hs s = Inr r" "leads_to hs (search_out s) r"
    using match_step_good [OF law less.prems] by blast
  show ?case
  proof (cases r)
    case (Inl ids)
    then show ?thesis using r by (subst match_loop.simps) (simp add: leads_to_def)
  next
    case (Inr s')
    with r have "good_search hs s'" "search_out s' = search_out s" by (simp_all add: leads_to_def)
    with less.IH [OF match_step_weight] r(1) Inr show ?thesis by (subst match_loop.simps) simp
  qed
qed

section \<open>What the walk selects\<close>

lemma sel_subset: "wf_kids hs ts k \<Longrightarrow> match_typed ms ts \<Longrightarrow> mset (sel ms k) \<subseteq># mset (leaf_ids k)"
proof (induction ts k arbitrary: ms rule: wf_kids.induct)
  case (wf_node t k ts)
  have nl: "\<not> is_leaf k" using layout_not_leaf [OF wf_node.hyps(1)] by simp
  obtain f fs where ms: "ms = f # fs" using wf_node.prems by (cases ms) auto
  note ids = leaf_ids_mset [OF nl]
  show ?case
  proof (cases f)
    case (MExact v)
    then have v: "pinnable v" "fval_type v = t" "match_typed fs ts" using wf_node.prems ms by auto
    show ?thesis
    proof (cases "pick (fval_type v) (raw_val v) k")
      case (Some n)
      then have n: "n \<in> set (all_kids k)" using pick_Some_in by blast
      have "mset (sel fs (snd n)) \<subseteq># mset (leaf_ids (snd n))"
        using wf_node.IH n v pinnable_next [OF v(1)] by simp
      also have "\<dots> \<subseteq># mset (leaf_ids k)"
      proof -
        have "n \<in># mset (all_kids k)" using n by simp
        then obtain M where "mset (all_kids k) = add_mset n M" by (metis multi_member_split)
        then show ?thesis unfolding ids by simp
      qed
      finally show ?thesis using Some nl by (simp add: ms MExact sel_exact)
    qed (simp add: ms MExact sel_exact nl)
  next
    case (MAny u)
    then have u: "u = t" "match_typed fs ts" using wf_node.prems ms by auto
    have "(\<Sum>n \<in># mset xs. mset (sel (open_stack t (fst n) fs) (snd n))) \<subseteq># (\<Sum>n \<in># mset xs. mset (leaf_ids (snd n)))"
      if "set xs \<subseteq> set (all_kids k)" for xs
      using that
    proof (induction xs)
      case (Cons n xs)
      then have n: "n \<in> set (all_kids k)" by simp
      then have "mset (sel (open_stack t (fst n) fs) (snd n)) \<subseteq># mset (leaf_ids (snd n))"
        using wf_node.IH match_typed_open u(2) by blast
      with Cons show ?case by (simp add: subset_mset.add_mono)
    qed simp
    from this [of "all_kids k"] show ?thesis
      by (simp add: ms MAny u(1) sel_any nl ids mset_concat_map)
  qed
qed simp

lemma same_pinned:
  "pinnable v \<Longrightarrow> fval_type w = fval_type v \<Longrightarrow> fval_same v w \<longleftrightarrow> same_data (fval_type v) (raw_val v) (raw_val w)"
  by (cases v; cases w) (auto simp: pinnable_def ucast_round)

text \<open>An exact value leads to the child of a fact exactly when it is that fact's value.\<close>

lemma pinned_child:
  assumes u: "uniq t (mset (all_kids k))" and v: "pinnable v" "fval_type v = t" and w: "storable w" "fval_type w = t"
    and n: "pick t (raw_val w) k = Some n" and kn: "\<forall>n \<in> set (all_kids k). key_ok t (fst n) \<and> P n"
  shows "fval_same v w \<longleftrightarrow> pick t (raw_val v) k = Some n"
proof -
  have tt: "t \<in> {FIELD_INT, FIELD_FLOAT, FIELD_NODE}" using v by (simp add: pinnable_def)
  have same: "fval_same v w \<longleftrightarrow> same_data t (raw_val v) (raw_val w)"
    using same_pinned [OF v(1), of w] v(2) w(2) by simp
  note pn = pick_Some_in [OF n]
  have k: "key_ok t (fst n)" using kn pn by blast
  show ?thesis
  proof
    assume "fval_same v w"
    then have sv: "same_data t (raw_val v) (raw_val w)" using same by simp
    have kw: "key_ok t (raw_val w)" using key_ok_raw [OF w(1)] w(2) by simp
    have kv: "key_ok t (raw_val v)" using sv kw tt by (auto simp: float_eq_def)
    have "same_data t (fst n) (raw_val v)"
      using same_data_join [of t "fst n" "raw_val v" "raw_val w"] k kv pn sv by blast
    then show "pick t (raw_val v) k = Some n" using u pn by (intro uniq_pick(2)) auto
  next
    assume "pick t (raw_val v) k = Some n"
    then have "same_data t (fst n) (raw_val v)" using pick_Some_in by blast
    with pn tt show "fval_same v w" unfolding same by (auto simp: float_eq_def)
  qed
qed

lemma fields_match_open:
  assumes "storable w" and "same_data (fval_type w) d (raw_val w)" and "key_ok (fval_type w) d"
  shows "fields_match (open_stack (fval_type w) d ms) (push_rest w @ xs) \<longleftrightarrow> fields_match ms xs"
  using assms by (cases w rule: push_rest.cases) (auto simp: fields_match_def)

text \<open>The leaf of a stored fact is selected exactly when the fact matches the pattern.\<close>

lemma sel_iff:
  "wf_kids hs ts k \<Longrightarrow> match_typed ms ts \<Longrightarrow> typed_by ts ws \<Longrightarrow> distinct (leaf_ids k) \<Longrightarrow>
   lookup ws k = Some j \<Longrightarrow> j \<in> set (sel ms k) \<longleftrightarrow> fields_match ms ws"
proof (induction ts k arbitrary: ms ws rule: wf_kids.induct)
  case (wf_leaf i)
  then show ?case by (auto simp: typed_by_def fields_match_def)
next
  case (wf_node t k ts)
  note step = wf_node.IH
  have nl: "\<not> is_leaf k" using layout_not_leaf [OF wf_node.hyps(1)] by simp
  obtain f fs where ms: "ms = f # fs" using wf_node.prems(1) by (cases ms) auto
  obtain w xs where w: "ws = w # xs" "fval_type w = t" "storable w"
      "\<And>d. same_data t d (raw_val w) \<Longrightarrow> typed_by (next_types t d @ ts) (push_rest w @ xs)"
    using typed_by_step [OF wf_node.prems(2)] by blast
  obtain n where n: "pick t (raw_val w) k = Some n" "lookup (push_rest w @ xs) (snd n) = Some j"
    using wf_node.prems(4) by (auto simp: w(1,2) split: option.splits)
  note pn = pick_Some_in [OF n(1)]
  have d: "distinct (concat (map (\<lambda>n. leaf_ids (snd n)) (all_kids k)))"
    using wf_node.prems(3) leaf_ids_node [OF nl] by simp
  have dn: "distinct (leaf_ids (snd n))" using d pn by (auto simp: distinct_concat_iff)
  have jn: "j \<in> set (leaf_ids (snd n))" using lookup_in_ids [OF n(2)] .
  have only: "m = n" if "m \<in> set (all_kids k)" "j \<in> set (leaf_ids (snd m))" for m
    using distinct_concat_member [OF d, of m n j] that pn jn by blast
  have kn: "key_ok t (fst n)" using step pn by blast
  show ?case
  proof (cases f)
    case (MAny u)
    then have u: "u = t" "match_typed fs ts" using wf_node.prems(1) ms by auto
    have sub: "set (sel (open_stack t (fst m) fs) (snd m)) \<subseteq> set (leaf_ids (snd m))" if m: "m \<in> set (all_kids k)" for m
    proof -
      have "mset (sel (open_stack t (fst m) fs) (snd m)) \<subseteq># mset (leaf_ids (snd m))"
        using m step match_typed_open [OF _ u(2)] by (intro sel_subset) blast+
      then show ?thesis using set_mset_mono by fastforce
    qed
    have "j \<in> set (sel ms k) \<longleftrightarrow> j \<in> set (sel (open_stack t (fst n) fs) (snd n))"
      using only sub pn by (fastforce simp: ms MAny u(1) sel_any nl)
    also have "\<dots> \<longleftrightarrow> fields_match (open_stack t (fst n) fs) (push_rest w @ xs)"
      using step pn match_typed_open [OF kn u(2)] w(4) dn n(2) by blast
    also have "\<dots> \<longleftrightarrow> fields_match ms ws"
      using fields_match_open [of w "fst n" fs xs] w pn kn by (simp add: ms MAny fields_match_def)
    finally show ?thesis .
  next
    case (MExact v)
    then have v: "pinnable v" "fval_type v = t" "match_typed fs ts" using wf_node.prems(1) ms by auto
    have tt: "t \<in> {FIELD_INT, FIELD_FLOAT, FIELD_NODE}" using v by (simp add: pinnable_def)
    have rest: "push_rest w = []" "next_types t (fst n) = []"
      using tt w(2) pinnable_next [OF v(1)] v(2) by (cases w; auto)+
    have same: "fval_same v w \<longleftrightarrow> pick t (raw_val v) k = Some n"
      using pinned_child [OF _ v(1,2) w(3,2) n(1)] wf_node.hyps(3) step by blast
    show ?thesis
    proof (cases "fval_same v w")
      case True
      then have "pick t (raw_val v) k = Some n" using same by simp
      then have "j \<in> set (sel ms k) \<longleftrightarrow> j \<in> set (sel fs (snd n))" by (simp add: ms MExact sel_exact nl v(2))
      also have "\<dots> \<longleftrightarrow> fields_match fs xs"
        using step pn v(3) w(4) dn n(2) rest by (metis append_Nil)
      finally show ?thesis using True by (simp add: ms MExact w(1) fields_match_def)
    next
      case False
      have "j \<notin> set (sel ms k)"
      proof
        assume j: "j \<in> set (sel ms k)"
        then have "\<exists>m. pick t (raw_val v) k = Some m \<and> j \<in> set (sel fs (snd m))"
          by (cases "pick t (raw_val v) k") (simp_all add: ms MExact sel_exact nl v(2))
        then obtain m where m: "pick t (raw_val v) k = Some m" "j \<in> set (sel fs (snd m))" by blast
        note pm = pick_Some_in [OF m(1)]
        have "wf_kids hs ts (snd m)" using step pm pinnable_next [OF v(1)] v(2) by (metis append_Nil)
        then have "mset (sel fs (snd m)) \<subseteq># mset (leaf_ids (snd m))" using v(3) by (rule sel_subset)
        then have "j \<in> set (leaf_ids (snd m))" using m(2) set_mset_mono by fastforce
        then have "m = n" using only pm by blast
        with m(1) False same show False by simp
      qed
      with False show ?thesis by (simp add: ms MExact w(1) fields_match_def)
    qed
  qed
qed

section \<open>Deletion by index\<close>

text \<open>\<open>get_by_int\<close>, \<open>get_by_float\<close> and \<open>get_by_node\<close>.\<close>

definition get_by :: "hashes \<Rightarrow> fval \<Rightarrow> kids \<Rightarrow> pos option res" where
  "get_by hs v k =
     (if is_leaf k \<or> k = Empty then Inl Assert_Failed
      else res_bind (node_match hs (fval_type v) (raw_val v) k) (\<lambda>(p, cnt). Inr p))"

text \<open>The loop of \<open>trie::delete_by_index\<close> stops at the first field that is not exact.\<close>

fun index_walk :: "hashes \<Rightarrow> match_field list \<Rightarrow> kids \<Rightarrow> pos list option res" where
  "index_walk hs [] k = Inr (Some [])"
| "index_walk hs (MAny t # ms) k = Inr (Some [])"
| "index_walk hs (MExact v # ms) k =
     (if \<not> pinnable v then Inl Assert_Failed
      else res_bind (get_by hs v k) (\<lambda>p.
        case p of
          None \<Rightarrow> Inr None
        | Some q \<Rightarrow> res_bind (index_walk hs ms (snd (child_at q k))) (\<lambda>r. Inr (map_option (Cons q) r))))"

definition delete_by_index :: "'l leaf_ops \<Rightarrow> hashes \<Rightarrow> match \<Rightarrow> 'l trie \<Rightarrow> 'l trie res" where
  "delete_by_index ops hs m t =
     (if \<not> basic_invariants t then Inl Assert_Failed
      else res_bind (index_walk hs (match_fields m) (root t)) (\<lambda>r.
        case r of
          None \<Rightarrow> Inr t
        | Some ps \<Rightarrow>
            (let ids = leaf_ids (subtree_at ps (root t));
                 cnt = (\<Sum>p \<leftarrow> filter (\<lambda>p. fst p \<in> set ids) (leaves t). leaf_count ops (snd p))
             in res_bind (int_add (number_of_references t) (- cnt)) (\<lambda>refs.
                if refs < 0 then Inl Assert_Failed
                else (let t' = t\<lparr>number_of_references := refs, root := delete_path ps (root t),
                             leaves := filter (\<lambda>p. fst p \<notin> set ids) (leaves t)\<rparr>
                      in if basic_invariants t' then Inr t' else Inl Assert_Failed)))))"

fun is_exact :: "match_field \<Rightarrow> bool" where
  "is_exact (MAny t) = False"
| "is_exact (MExact v) = True"

text \<open>The exact prefix of a pattern, as a condition on the fields of a fact.\<close>

fun index_matches :: "match_field list \<Rightarrow> fval list \<Rightarrow> bool" where
  "index_matches (MExact v # ms) (w # ws) \<longleftrightarrow> fval_same v w \<and> index_matches ms ws"
| "index_matches _ _ \<longleftrightarrow> True"

lemma subtree_ids: "wf_kids hs ts k \<Longrightarrow> valid_path ps k \<Longrightarrow> set (leaf_ids (subtree_at ps k)) \<subseteq> set (leaf_ids k)"
proof (induction ts k arbitrary: ps rule: wf_kids.induct)
  case (wf_node t k ts)
  have nl: "\<not> is_leaf k" using layout_not_leaf [OF wf_node.hyps(1)] by simp
  show ?case
  proof (cases ps)
    case (Cons p qs)
    then have p: "child_at p k \<in> set (all_kids k)" using set_child(1) [OF wf_node.hyps(1)] wf_node.prems by simp
    then have "set (leaf_ids (subtree_at qs (snd (child_at p k)))) \<subseteq> set (leaf_ids (snd (child_at p k)))"
      using wf_node.IH wf_node.prems Cons by simp
    with p show ?thesis by (auto simp: Cons leaf_ids_node [OF nl])
  qed simp
next
  case (wf_leaf i)
  then show ?case by (cases ps) (auto simp: valid_pos_def split: pos.splits)
qed

lemma get_by_spec:
  assumes law: "hash_law hs" and lay: "layout_ok hs t k" and u: "uniq t (mset (all_kids k))"
    and v: "pinnable v" "fval_type v = t"
  shows "\<exists>p. get_by hs v k = Inr p \<and>
    (case p of None \<Rightarrow> pick t (raw_val v) k = None
     | Some q \<Rightarrow> valid_pos q k \<and> pick t (raw_val v) k = Some (child_at q k))"
proof -
  have nl: "\<not> is_leaf k" "k \<noteq> Empty" using layout_not_leaf [OF lay] by simp_all
  have kn: "\<not> other_type t" using v by (auto simp: pinnable_def other_type_def)
  show ?thesis
  proof (cases "key_ok t (raw_val v)")
    case True
    from node_match_spec [OF law lay u True] nl v(2) show ?thesis by (auto simp: get_by_def)
  next
    case False
    then have no: "\<not> same_data t d (raw_val v)" for d using v by (auto simp: pinnable_def float_eq_def)
    then have "find_sib t (raw_val v) ns = None" for ns by (simp add: find_sib_None)
    then have "\<exists>c. node_match hs t (raw_val v) k = Inr (None, c)"
      using nl kn by (cases k) (auto simp: node_match_def Let_def)
    moreover have "pick t (raw_val v) k = None" using no by (simp add: pick_None_iff)
    ultimately show ?thesis using nl v(2) by (auto simp: get_by_def)
  qed
qed

lemma index_walk_spec:
  assumes law: "hash_law hs"
  shows "wf_kids hs ts k \<Longrightarrow> match_typed ms ts \<Longrightarrow> distinct (leaf_ids k) \<Longrightarrow>
    \<exists>r. index_walk hs ms k = Inr r \<and> (\<forall>ps. r = Some ps \<longrightarrow> valid_path ps k) \<and>
      (\<forall>ws j. typed_by ts ws \<longrightarrow> lookup ws k = Some j \<longrightarrow>
         index_matches ms ws = (\<exists>ps. r = Some ps \<and> j \<in> set (leaf_ids (subtree_at ps k))))"
proof (induction ts k arbitrary: ms rule: wf_kids.induct)
  case (wf_leaf i)
  then show ?case by (auto simp: typed_by_def)
next
  case (wf_node t k ts)
  note lay = wf_node.hyps(1) and u = wf_node.hyps(3) and step = wf_node.IH
  have nl: "\<not> is_leaf k" using layout_not_leaf [OF lay] by simp
  obtain f fs where ms: "ms = f # fs" using wf_node.prems(1) by (cases ms) auto
  show ?case
  proof (cases f)
    case (MAny ty)
    then show ?thesis by (auto simp: ms intro: lookup_in_ids)
  next
    case (MExact v)
    then have v: "pinnable v" "fval_type v = t" "match_typed fs ts" using wf_node.prems(1) ms by auto
    obtain p where p: "get_by hs v k = Inr p" "case p of None \<Rightarrow> pick t (raw_val v) k = None
       | Some q \<Rightarrow> valid_pos q k \<and> pick t (raw_val v) k = Some (child_at q k)"
      using get_by_spec [OF law lay u v(1,2)] by blast
    have parts: "\<exists>w xs n. ws = w # xs \<and> fval_same v w = (pick t (raw_val v) k = Some n) \<and> n \<in> set (all_kids k) \<and>
        j \<in> set (leaf_ids (snd n)) \<and> typed_by ts xs \<and> lookup xs (snd n) = Some j"
      if ws: "typed_by (t # ts) ws" and lk: "lookup ws k = Some j" for ws j
    proof -
      obtain w xs where w: "ws = w # xs" "fval_type w = t" "storable w"
          "\<And>d. same_data t d (raw_val w) \<Longrightarrow> typed_by (next_types t d @ ts) (push_rest w @ xs)"
        using typed_by_step [OF ws] by blast
      obtain n where n: "pick t (raw_val w) k = Some n" "lookup (push_rest w @ xs) (snd n) = Some j"
        using lk by (auto simp: w(1,2) split: option.splits)
      have "push_rest w = []" "next_types t (fst n) = []"
        using v(1,2) w(2) pinnable_next [OF v(1)] by (cases w; auto simp: pinnable_def)+
      with w n pick_Some_in [OF n(1)] pinned_child [OF u v(1,2) w(3,2) n(1) step] lookup_in_ids [OF n(2)]
      show ?thesis by (metis append_Nil)
    qed
    show ?thesis
    proof (cases p)
      case None
      then have no: "pick t (raw_val v) k = None" using p(2) by simp
      have "\<not> index_matches ms ws" if "typed_by (t # ts) ws" "lookup ws k = Some j" for ws j
        using parts [OF that] no by (auto simp: ms MExact)
      with None p(1) v(1) show ?thesis by (intro exI [of _ None]) (simp add: ms MExact)
    next
      case (Some q)
      then have q: "valid_pos q k" "pick t (raw_val v) k = Some (child_at q k)" using p(2) by simp_all
      have m: "child_at q k \<in> set (all_kids k)" using set_child(1) [OF lay q(1)] .
      have d: "distinct (concat (map (\<lambda>n. leaf_ids (snd n)) (all_kids k)))"
        using wf_node.prems(2) leaf_ids_node [OF nl] by simp
      have dn: "distinct (leaf_ids (snd (child_at q k)))" using d m by (auto simp: distinct_concat_iff)
      obtain r where r: "index_walk hs fs (snd (child_at q k)) = Inr r"
          "\<And>ps. r = Some ps \<Longrightarrow> valid_path ps (snd (child_at q k))"
          "\<And>ws j. typed_by ts ws \<Longrightarrow> lookup ws (snd (child_at q k)) = Some j \<Longrightarrow>
             index_matches fs ws = (\<exists>ps. r = Some ps \<and> j \<in> set (leaf_ids (subtree_at ps (snd (child_at q k)))))"
        using step m v(3) dn pinnable_next [OF v(1)] v(2) by (metis append_Nil)
      have sub: "set (leaf_ids (subtree_at ps (snd (child_at q k)))) \<subseteq> set (leaf_ids (snd (child_at q k)))"
        if "r = Some ps" for ps
        using subtree_ids [OF _ r(2) [OF that]] step m by blast
      have iff: "index_matches ms ws = (\<exists>ps. map_option (Cons q) r = Some ps \<and> j \<in> set (leaf_ids (subtree_at ps k)))"
        if "typed_by (t # ts) ws" "lookup ws k = Some j" for ws j
      proof -
        obtain w xs n where w: "ws = w # xs" "fval_same v w = (pick t (raw_val v) k = Some n)" "n \<in> set (all_kids k)"
            "j \<in> set (leaf_ids (snd n))" "typed_by ts xs" "lookup xs (snd n) = Some j"
          using parts [OF \<open>typed_by (t # ts) ws\<close> \<open>lookup ws k = Some j\<close>] by blast
        show ?thesis
        proof (cases "n = child_at q k")
          case True
          with w q(2) r(3) [of xs j] show ?thesis by (cases r) (simp_all add: ms MExact)
        next
          case False
          then have "j \<notin> set (leaf_ids (snd (child_at q k)))"
            using distinct_concat_member [OF d w(3) m w(4)] by blast
          with False w q(2) sub show ?thesis by (cases r) (auto simp: ms MExact)
        qed
      qed
      with Some p(1) v(1) r(1,2) q(1) show ?thesis
        by (intro exI [of _ "map_option (Cons q) r"]) (auto simp: ms MExact)
    qed
  qed
qed

section \<open>Properties\<close>

lemma wf_match_typed: "wf_match p m \<Longrightarrow> match_typed (match_fields m) (pred_types p)"
  by (simp add: wf_match_def match_typed_def)

lemma all_open_matches:
  "match_typed ms ts \<Longrightarrow> map fval_type ws = ts \<Longrightarrow> \<not> list_ex (\<lambda>f. \<exists>v. f = MExact v) ms \<Longrightarrow> fields_match ms ws"
proof (induction ms arbitrary: ts ws)
  case (Cons f ms)
  then obtain t us w xs where "ts = t # us" "ws = w # xs" by (cases ts; cases ws) auto
  with Cons show ?case by (cases f) (auto simp: fields_match_def)
qed (auto simp: fields_match_def)

lemma distinct_submset: "mset xs \<subseteq># mset ys \<Longrightarrow> distinct ys \<Longrightarrow> distinct xs"
proof -
  assume "mset xs \<subseteq># mset ys" and d: "distinct ys"
  then obtain M where "mset ys = mset xs + M" by (auto simp: subset_mset.le_iff_add)
  moreover obtain zs where "M = mset zs" using ex_mset by metis
  ultimately have "mset ys = mset (xs @ zs)" by simp
  then have "distinct (xs @ zs)" using d mset_eq_imp_distinct_iff by blast
  then show ?thesis by simp
qed

text \<open>
  C1: \<open>match_predicate\<close> on a well-formed trie and a pattern built by the setters of
  \<open>match\<close> returns, each exactly once, the leaves whose facts agree with every exact field
  of the pattern; no assertion of the search fails.
\<close>

theorem match_predicate_exact:
  assumes law: "hash_law hs" and ok: "trie_ok hs (pred_types p) t" and wm: "wf_match p m"
  shows "\<exists>ids. match_predicate hs m t = Inr ids \<and>
    mset ids = mset (map fst (filter (\<lambda>(j, s). fields_match (match_fields m) (tpl_fields (st_data s))) (leaves t)))"
proof -
  note sh = trie_okD(1) [OF ok] and mt = wf_match_typed [OF wm]
  let ?F = "filter (\<lambda>(j, s). fields_match (match_fields m) (tpl_fields (st_data s))) (leaves t)"
  have stored: "typed_by (pred_types p) (tpl_fields (st_data s))" "lookup (tpl_fields (st_data s)) (root t) = Some j"
    if "(j, s) \<in> set (leaves t)" for j s
    using sh that by (auto simp: trie_shape_def)
  show ?thesis
  proof (cases "any_exact m")
    case False
    then have "?F = leaves t"
      using all_open_matches [OF mt] stored(1) wm
      by (intro filter_True) (auto simp: wf_match_def typed_by_def)
    with False show ?thesis by (simp add: match_predicate_def)
  next
    case True
    show ?thesis
    proof (cases "number_of_references t = 0")
      case zero: True
      then have "leaves t = []" using trie_ok_refs(2) [OF ok] by simp
      with True zero show ?thesis by (simp add: match_predicate_def)
    next
      case nz: False
      then have wf: "wf_kids hs (pred_types p) (root t)"
        using sh trie_ok_refs(2) [OF ok] root_Empty_iff [OF sh] by (auto simp: trie_shape_def)
      have nl: "\<not> is_leaf (root t)"
      proof
        assume "is_leaf (root t)"
        with wf have "pred_types p = []" by (cases rule: wf_kids.cases) (auto dest: layout_not_leaf)
        with mt True wm show False by (simp add: wf_match_def)
      qed
      let ?s = "\<lparr>at = Down (root t), stack = match_fields m, cont = [], found = []\<rparr>"
      let ?ids = "sel (match_fields m) (root t)"
      have "good_search hs ?s" using wf mt nl by (auto simp: good_search_def)
      then have run: "match_predicate hs m t = Inr ?ids"
        using match_loop_out [OF law] True nz nl by (simp add: match_predicate_def search_out_def)
      have d: "distinct (leaf_ids (root t))" by (rule distinct_leaf_ids [OF sh])
      have dl: "distinct (map fst (leaves t))" using sh by (simp add: trie_shape_def)
      have sub: "mset ?ids \<subseteq># mset (leaf_ids (root t))" by (rule sel_subset [OF wf mt])
      have di: "distinct ?ids" by (rule distinct_submset [OF sub d])
      have df: "distinct (map fst ?F)" using dl by (simp add: distinct_map inj_on_def)
      have ids: "set (leaf_ids (root t)) = fst ` set (leaves t)"
        using sh unfolding trie_shape_def by (metis set_map set_mset_mset)
      have "j \<in> set ?ids \<longleftrightarrow> j \<in> fst ` set ?F" for j
      proof -
        have "j \<in> set ?ids \<longleftrightarrow> fields_match (match_fields m) (tpl_fields (st_data s))" if "(j, s) \<in> set (leaves t)" for s
          using sel_iff [OF wf mt stored(1) [OF that] d stored(2) [OF that]] .
        note one = this
        have some: "\<exists>s. (j, s) \<in> set (leaves t)" if "j \<in> set ?ids"
        proof -
          have "j \<in> fst ` set (leaves t)" using set_mset_mono [OF sub] ids that by auto
          then show ?thesis by auto
        qed
        show ?thesis
        proof
          assume j: "j \<in> set ?ids"
          then obtain s where s: "(j, s) \<in> set (leaves t)" using some by blast
          then have "(j, s) \<in> set ?F" using one [OF s] j by simp
          then show "j \<in> fst ` set ?F" by (rule rev_image_eqI) simp
        next
          assume "j \<in> fst ` set ?F"
          then obtain s where "(j, s) \<in> set ?F" by auto
          then have "(j, s) \<in> set (leaves t)" "fields_match (match_fields m) (tpl_fields (st_data s))" by auto
          with one show "j \<in> set ?ids" by blast
        qed
      qed
      then have "mset ?ids = mset (map fst ?F)"
        using set_eq_iff_mset_eq_distinct [OF di df] by auto
      with run show ?thesis by blast
    qed
  qed
qed

definition edge_match :: match where
  "edge_match = \<lparr>any_exact = True, match_fields = [MExact (FNode 7), MAny FIELD_LIST_INT]\<rparr>"

theorem match_predicate_exact_witness:
  "\<exists>ids. match_predicate plain_hashes edge_match edge_trie = Inr ids \<and> mset ids = {#0#}"
proof -
  have "pred_types edge_pred = [FIELD_NODE, FIELD_LIST_INT]" by (simp add: edge_pred_def)
  moreover have "wf_match edge_pred edge_match"
    by (simp add: wf_match_def edge_match_def edge_pred_def pinnable_def)
  ultimately show ?thesis
    using match_predicate_exact [OF plain_hashes_law, of edge_pred edge_trie edge_match] edge_trie_ok
    by (simp add: edge_match_def edge_trie_def fields_match_def new_simple_tuple_def edge_tuple_def)
qed


lemma sum_filter_split:
  fixes g :: "'a \<Rightarrow> int"
  shows "(\<Sum>x \<leftarrow> xs. g x) = (\<Sum>x \<leftarrow> filter P xs. g x) + (\<Sum>x \<leftarrow> filter (\<lambda>x. \<not> P x) xs. g x)"
  by (induction xs) simp_all

lemma mset_map_split:
  "mset (map f xs) = mset (map f (filter (\<lambda>x. \<not> P x) xs)) + mset (map f (filter P xs))"
  by (induction xs) simp_all

lemma edge_facts:
  "pred_types edge_pred = [FIELD_NODE, FIELD_LIST_INT]" "leaves edge_trie = [(0, new_simple_tuple edge_tuple 2)]"
  "tpl_fields (st_data (new_simple_tuple edge_tuple 2)) = [FNode 7, FLInt [3, 4]]"
  "match_fields edge_match = [MExact (FNode 7), MAny FIELD_LIST_INT]"
  "wf_match edge_pred edge_match"
  by (simp_all add: wf_match_def edge_match_def edge_pred_def pinnable_def edge_trie_def new_simple_tuple_def edge_tuple_def)

text \<open>On a trie with facts.\<close>

lemma delete_by_index_some:
  assumes law: "hash_law hs" and ok: "trie_ok hs (pred_types p) t" and wm: "wf_match p m" and ne: "leaves t \<noteq> []"
  shows "\<exists>t'. delete_by_index tuple_leaf hs m t = Inr t' \<and> trie_ok hs (pred_types p) t' \<and>
    leaves t' = filter (\<lambda>(j, s). \<not> index_matches (match_fields m) (tpl_fields (st_data s))) (leaves t)"
proof -
  note sh = trie_okD(1) [OF ok] and cnts = trie_okD(2) [OF ok] and sum = trie_okD(3) [OF ok]
  let ?ts = "pred_types p" and ?hit = "\<lambda>(j, s). index_matches (match_fields m) (tpl_fields (st_data s))"
    and ?miss = "\<lambda>(j, s). \<not> index_matches (match_fields m) (tpl_fields (st_data s))"
  have wf: "wf_kids hs ?ts (root t)" using sh ne root_Empty_iff [OF sh] by (simp add: trie_shape_def)
  have d: "distinct (leaf_ids (root t))" by (rule distinct_leaf_ids [OF sh])
  have stored: "typed_by ?ts (tpl_fields (st_data s))" "lookup (tpl_fields (st_data s)) (root t) = Some j"
    if "(j, s) \<in> set (leaves t)" for j s
    using sh that by (auto simp: trie_shape_def)
  note spec = index_walk_spec [OF law wf wf_match_typed [OF wm] d]
  obtain r where "index_walk hs (match_fields m) (root t) = Inr r \<and> (\<forall>ps. r = Some ps \<longrightarrow> valid_path ps (root t)) \<and>
      (\<forall>ws j. typed_by ?ts ws \<longrightarrow> lookup ws (root t) = Some j \<longrightarrow>
         index_matches (match_fields m) ws = (\<exists>ps. r = Some ps \<and> j \<in> set (leaf_ids (subtree_at ps (root t)))))"
    by (rule exE [OF spec])
  then have r: "index_walk hs (match_fields m) (root t) = Inr r" "\<And>ps. r = Some ps \<Longrightarrow> valid_path ps (root t)"
      "\<And>ws j. typed_by ?ts ws \<Longrightarrow> lookup ws (root t) = Some j \<Longrightarrow>
         index_matches (match_fields m) ws = (\<exists>ps. r = Some ps \<and> j \<in> set (leaf_ids (subtree_at ps (root t))))"
    by simp_all
  have inv: "basic_invariants t" by (rule trie_ok_invariants [OF ok])
  show ?thesis
  proof (cases r)
    case None
    then have "filter ?miss (leaves t) = leaves t"
      using r(3) stored by (intro filter_True) auto
    with None r(1) inv ok show ?thesis by (simp add: delete_by_index_def)
  next
    case (Some ps)
    let ?ids = "leaf_ids (subtree_at ps (root t))"
    have hit: "j \<in> set ?ids \<longleftrightarrow> ?hit (j, s)" if "(j, s) \<in> set (leaves t)" for j s
      using r(3) [OF stored [OF that]] Some by simp
    let ?keep = "filter (\<lambda>p. fst p \<notin> set ?ids) (leaves t)" and ?del = "filter (\<lambda>p. fst p \<in> set ?ids) (leaves t)"
    have keep: "?keep = filter ?miss (leaves t)" by (rule filter_cong [OF refl]) (use hit in auto)
    let ?g = "\<lambda>p :: nat \<times> simple_tuple. sint (st_count (snd p))"
    let ?c = "\<Sum>p \<leftarrow> ?del. ?g p" and ?rest = "\<Sum>p \<leftarrow> ?keep. ?g p"
    have tot: "number_of_references t = ?c + ?rest"
      using sum sum_filter_split [of ?g "leaves t" "\<lambda>p. fst p \<in> set ?ids"] by (simp add: case_prod_unfold)
    have g: "0 \<le> ?g q" if "q \<in> set (leaves t)" for q
      using cnts [of "fst q" "snd q"] that by (simp add: word_sless_sint)
    have nn: "0 \<le> ?c" "0 \<le> ?rest"
      by (rule sum_list_nonneg; use g in auto)+
    have refs: "int_add (number_of_references t) (- ?c) = Inr ?rest"
      using tot nn trie_okD(4) [OF ok] by (simp add: int_add_def)
    note cut = delete_path_cuts [OF wf r(2) [OF Some] d]
    let ?t' = "t\<lparr>number_of_references := ?rest, root := delete_path ps (root t), leaves := ?keep\<rparr>"
    have "trie_shape hs ?ts ?t'"
      unfolding trie_shape_def
    proof (intro conjI)
      show "distinct (map fst (leaves ?t'))" using sh by (simp add: trie_shape_def distinct_map inj_on_def)
      have "mset (leaf_ids (delete_path ps (root t))) + mset ?ids = mset (map fst (leaves t))"
        using cut sh by (simp add: trie_shape_def)
      moreover have "mset (map fst (leaves t)) = mset (map fst ?keep) + mset (map fst ?del)"
        by (rule mset_map_split)
      moreover have "mset (map fst ?del) = mset ?ids"
      proof -
        have sub: "mset ?ids \<subseteq># mset (map fst (leaves t))" using calculation(1) by (metis mset_subset_eq_add_right)
        have dl: "distinct (map fst (leaves t))" using sh by (simp add: trie_shape_def)
        have "distinct (map fst ?del)" using dl by (simp add: distinct_map inj_on_def)
        moreover have "set (map fst ?del) = set ?ids" using set_mset_mono [OF sub] by force
        ultimately show ?thesis using set_eq_iff_mset_eq_distinct distinct_submset [OF sub dl] by blast
      qed
      ultimately show "mset (leaf_ids (root ?t')) = mset (map fst (leaves ?t'))" by simp
      show "\<forall>(i, s) \<in> set (leaves ?t'). typed_by ?ts (tpl_fields (st_data s)) \<and>
          lookup (tpl_fields (st_data s)) (root ?t') = Some i"
      proof clarify
        fix i s
        assume "(i, s) \<in> set (leaves ?t')"
        then have i: "(i, s) \<in> set (leaves t)" "i \<notin> set ?ids" by auto
        note st = stored [OF i(1)]
        have "lookup (tpl_fields (st_data s)) (delete_path ps (root t)) = Some i"
          using cut st i(2) by simp
        with st(1) show "typed_by ?ts (tpl_fields (st_data s)) \<and> lookup (tpl_fields (st_data s)) (root ?t') = Some i"
          by simp
      qed
    qed (use sh cut in \<open>auto simp: trie_shape_def\<close>)
    then have ok': "trie_ok hs ?ts ?t'"
      using cnts tot nn trie_okD(4) [OF ok] by (auto simp: trie_ok_def case_prod_unfold)
    have "delete_by_index tuple_leaf hs m t = Inr ?t'"
      using inv r(1) Some refs nn trie_ok_invariants [OF ok']
      by (simp add: delete_by_index_def tuple_leaf_def Let_def)
    with ok' keep show ?thesis by (intro exI [of _ ?t']) simp
  qed
qed

text \<open>
  C20: \<open>delete_by_index\<close> removes exactly the facts that agree with the exact fields the pattern
  begins with (a field after the first open one plays no part), takes their counts from the
  number of references, keeps the other leaves in their order, and leaves the trie
  well-formed; only on a trie without facts, and for a pattern that begins with an exact field,
  it fails the assertion \<open>get_child() != NULL\<close> instead. As everywhere, the facts of a
  well-formed trie have no NaN and no string at an address of \<open>2 ^ 32\<close> or above.
\<close>

theorem delete_by_index_exact:
  assumes law: "hash_law hs" and ok: "trie_ok hs (pred_types p) t" and wm: "wf_match p m"
  shows "if leaves t = [] \<and> (\<exists>v ms. match_fields m = MExact v # ms)
    then delete_by_index tuple_leaf hs m t = Inl Assert_Failed
    else \<exists>t'. delete_by_index tuple_leaf hs m t = Inr t' \<and> trie_ok hs (pred_types p) t' \<and>
      leaves t' = filter (\<lambda>(j, s). \<not> index_matches (match_fields m) (tpl_fields (st_data s))) (leaves t)"
proof (cases "leaves t = []")
  case True
  have inv: "basic_invariants t" by (rule trie_ok_invariants [OF ok])
  with True have t: "root t = Empty" "number_of_references t = 0" by (auto simp: basic_invariants_def)
  show ?thesis
  proof (cases "\<exists>v ms. match_fields m = MExact v # ms")
    case exact: True
    then obtain v ms where v: "match_fields m = MExact v # ms" by blast
    with wm have "pinnable v" by (auto simp: wf_match_def list_all2_Cons1)
    with v t inv have "delete_by_index tuple_leaf hs m t = Inl Assert_Failed" by (simp add: delete_by_index_def get_by_def)
    with True exact show ?thesis by simp
  next
    case False
    then have "index_walk hs (match_fields m) (root t) = Inr (Some [])" by (cases "(hs, match_fields m, root t)" rule: index_walk.cases) auto
    moreover have "t\<lparr>number_of_references := 0, root := Empty, leaves := []\<rparr> = t" using True t by (cases t) simp
    ultimately have "delete_by_index tuple_leaf hs m t = Inr t"
      using True t inv by (simp add: delete_by_index_def int_add_def Let_def basic_invariants_def)
    with False True ok show ?thesis by simp
  qed
next
  case False
  with delete_by_index_some [OF law ok wm] show ?thesis by simp
qed

theorem delete_by_index_exact_witness:
  "\<exists>t'. delete_by_index tuple_leaf plain_hashes edge_match edge_trie = Inr t' \<and> leaves t' = []"
  using delete_by_index_exact [OF plain_hashes_law, of edge_pred edge_trie edge_match] edge_trie_ok
  by (auto simp: edge_facts)

text \<open>
  On a trie without facts a pattern that begins with an exact field makes
  \<open>delete_by_index\<close> fail the assertion \<open>get_child() != NULL\<close> instead of doing nothing.
\<close>

theorem delete_by_index_empty_aborts:
  "delete_by_index tuple_leaf hs edge_match new_trie = Inl Assert_Failed"
  by (simp add: delete_by_index_def basic_invariants_def new_trie_def edge_match_def pinnable_def get_by_def)

end
