(* ===== verification/Heap_Queue.thy ===== *)
theory Heap_Queue
  imports Vm_Float
begin

text \<open>
  The array heap of \<open>queue/heap_implementation.hpp\<close> and its two users:
  \<open>heap_queue\<close> (\<open>queue/safe_simple_pqueue.hpp\<close>), the queue of rules of the virtual
  machine, and \<open>intrusive_safe_complex_pqueue\<close> (\<open>queue/safe_complex_pqueue.hpp\<close>),
  the queue of nodes of the priority scheduler. The vector is a list; the
  sentinel index \<open>-1\<close> of \<open>left\<close>, \<open>right\<close> and \<open>parent\<close> is \<open>None\<close>.
\<close>

section \<open>Priorities\<close>

datatype heap_type = HEAP_INT_ASC | HEAP_INT_DESC | HEAP_FLOAT_ASC | HEAP_FLOAT_DESC

text \<open>The union \<open>heap_priority\<close>: eight bytes, the integer in the low four.\<close>

type_synonym heap_priority = "64 word"

definition int_priority :: "heap_priority \<Rightarrow> int" where
  "int_priority p = sint (ucast p :: int_val)"

text \<open>
  \<open>HEAP_COMPARE\<close> on \<open>HEAP_GET_PRIORITY\<close>. The conversion of an integer priority to
  \<open>double\<close> that the conditional expression makes is exact.
\<close>

definition heap_compare :: "heap_type \<Rightarrow> heap_priority \<Rightarrow> heap_priority \<Rightarrow> bool" where
  "heap_compare ht v1 v2 =
     (case ht of
        HEAP_INT_ASC \<Rightarrow> int_priority v1 \<le> int_priority v2
      | HEAP_INT_DESC \<Rightarrow> int_priority v1 \<ge> int_priority v2
      | HEAP_FLOAT_ASC \<Rightarrow> float_le v1 v2
      | HEAP_FLOAT_DESC \<Rightarrow> float_le v2 v1)"

definition heap_prio_ok :: "heap_type \<Rightarrow> heap_priority \<Rightarrow> bool" where
  "heap_prio_ok ht v \<longleftrightarrow> (ht = HEAP_FLOAT_ASC \<or> ht = HEAP_FLOAT_DESC \<longrightarrow> \<not> float_is_nan v)"

section \<open>Index arithmetic\<close>

definition heap_left :: "'o list \<Rightarrow> nat \<Rightarrow> nat option" where
  "heap_left h parent = (let i = 2 * parent + 1 in if i < length h then Some i else None)"

definition heap_right :: "'o list \<Rightarrow> nat \<Rightarrow> nat option" where
  "heap_right h parent = (let i = 2 * parent + 2 in if i < length h then Some i else None)"

definition heap_parent :: "nat \<Rightarrow> nat option" where
  "heap_parent child = (if child \<noteq> 0 then Some ((child - 1) div 2) else None)"

text \<open>Two \<open>HEAP_SET_INDEX\<close> in a row, as both loops use it: the objects change places.\<close>

definition heap_swap :: "'o list \<Rightarrow> nat \<Rightarrow> nat \<Rightarrow> 'o list" where
  "heap_swap h i j = h[j := h ! i, i := h ! j]"

section \<open>Restoring the order\<close>

text \<open>\<open>le\<close> is \<open>HEAP_COMPARE\<close> on the priorities of two objects.\<close>

function heapifyup :: "('o \<Rightarrow> 'o \<Rightarrow> bool) \<Rightarrow> 'o list \<Rightarrow> nat \<Rightarrow> 'o list" where
  "heapifyup le h index =
     (case heap_parent index of
        None \<Rightarrow> h
      | Some p \<Rightarrow>
          if \<not> le (h ! p) (h ! index) then heapifyup le (heap_swap h index p) p else h)"
  by pat_completeness auto
termination
  by (relation "measure (\<lambda>(le, h, i). i)") (auto simp: heap_parent_def split: if_splits)

definition heap_smaller :: "('o \<Rightarrow> 'o \<Rightarrow> bool) \<Rightarrow> 'o list \<Rightarrow> nat \<Rightarrow> nat option" where
  "heap_smaller le h index =
     (case heap_left h index of
        None \<Rightarrow> None
      | Some l \<Rightarrow>
          (case heap_right h index of
             None \<Rightarrow> (if le (h ! index) (h ! l) then None else Some l)
           | Some r \<Rightarrow>
               (if le (h ! index) (h ! l) \<and> le (h ! index) (h ! r) then None
                else if le (h ! r) (h ! l) then Some r else Some l)))"

lemma heap_smaller_bounds:
  "heap_smaller le h i = Some s \<Longrightarrow> i < s \<and> s < length h \<and> (s - 1) div 2 = i"
  by (auto simp: heap_smaller_def heap_left_def heap_right_def Let_def split: if_splits option.splits)

function heapifydown :: "('o \<Rightarrow> 'o \<Rightarrow> bool) \<Rightarrow> 'o list \<Rightarrow> nat \<Rightarrow> 'o list" where
  "heapifydown le h index =
     (case heap_smaller le h index of
        None \<Rightarrow> h
      | Some smaller \<Rightarrow> heapifydown le (heap_swap h index smaller) smaller)"
  by pat_completeness auto
termination
  by (relation "measure (\<lambda>(le, h, i). length h - i)")
    (auto simp: heap_swap_def dest!: heap_smaller_bounds)

declare heapifyup.simps [simp del] heapifydown.simps [simp del]

section \<open>heap\_queue\<close>

record 'a heap_object =
  val :: heap_priority
  data :: 'a

definition hq_le :: "heap_type \<Rightarrow> 'a heap_object \<Rightarrow> 'a heap_object \<Rightarrow> bool" where
  "hq_le ht x y = heap_compare ht (val x) (val y)"

definition hq_insert :: "heap_type \<Rightarrow> 'a \<Rightarrow> heap_priority \<Rightarrow> 'a heap_object list \<Rightarrow> 'a heap_object list" where
  "hq_insert ht el prio h =
     (let h' = h @ [\<lparr>val = prio, data = el\<rparr>] in heapifyup (hq_le ht) h' (length h' - 1))"

definition hq_min_value :: "'a heap_object list \<Rightarrow> heap_priority res" where
  "hq_min_value h = (if h = [] then Inl Assert_Failed else Inr (val (h ! 0)))"

text \<open>\<open>pop\<close> on an empty vector reads \<open>front()\<close> of it, which C++ leaves undefined.\<close>

definition hq_pop :: "heap_type \<Rightarrow> 'a heap_object list \<Rightarrow> ('a \<times> 'a heap_object list) res" where
  "hq_pop ht h =
     (if h = [] then Inl Bad_Access
      else (let min = h ! 0; h' = butlast (h[0 := last h])
            in Inr (data min, heapifydown (hq_le ht) h' 0)))"

definition hq_remove_by_index :: "heap_type \<Rightarrow> 'a heap_object list \<Rightarrow> nat \<Rightarrow> 'a heap_object list" where
  "hq_remove_by_index ht h index =
     (let tmp = last h; h' = butlast h
      in if h' \<noteq> [] \<and> index \<noteq> length h' then heapifydown (hq_le ht) (h'[index := tmp]) index
         else h')"

text \<open>
  \<open>remove\<close> scans the vector level by level; when a whole level is not smaller than
  the wanted priority it gives up with an assertion failure.
\<close>

function hq_remove_loop ::
  "heap_type \<Rightarrow> 'a \<Rightarrow> heap_priority \<Rightarrow> 'a heap_object list \<Rightarrow> nat \<Rightarrow> nat \<Rightarrow> nat \<Rightarrow> bool \<Rightarrow> 'a heap_object list res"
where
  "hq_remove_loop ht v prio h index remain shift forall_flag =
     (if index < length h then
        (if data (h ! index) = v then Inr (hq_remove_by_index ht h index)
         else
           (let fa = (forall_flag \<and> heap_compare ht prio (val (h ! index)))
            in if remain - 1 = 0 then
                 (if fa then Inl Assert_Failed
                  else hq_remove_loop ht v prio h (index + 1) (2 * shift) (2 * shift) True)
               else hq_remove_loop ht v prio h (index + 1) (remain - 1) shift fa))
      else Inl Assert_Failed)"
  by pat_completeness auto
termination
  by (relation "measure (\<lambda>(ht, v, prio, h, i, r, s, f). length h - i)") auto

declare hq_remove_loop.simps [simp del]

definition hq_remove :: "heap_type \<Rightarrow> 'a \<Rightarrow> heap_priority \<Rightarrow> 'a heap_object list \<Rightarrow> 'a heap_object list res" where
  "hq_remove ht v prio h = hq_remove_loop ht v prio h 0 1 1 True"

section \<open>intrusive\_safe\_complex\_pqueue\<close>

text \<open>
  The objects are pointers to nodes that hold their own priority, their position
  in the vector and a flag that says whether they are in the queue.
\<close>

record 'n cpq =
  heap :: "'n list"
  prio_of :: "'n \<Rightarrow> heap_priority"
  pos_of :: "'n \<Rightarrow> nat"
  in_pq :: "'n \<Rightarrow> bool"

definition cpq_le :: "heap_type \<Rightarrow> 'n cpq \<Rightarrow> 'n \<Rightarrow> 'n \<Rightarrow> bool" where
  "cpq_le ht q x y = heap_compare ht (prio_of q x) (prio_of q y)"

definition cpq_set_index :: "nat \<Rightarrow> 'n \<Rightarrow> 'n cpq \<Rightarrow> 'n cpq" where
  "cpq_set_index i obj q = q\<lparr>heap := (heap q)[i := obj], pos_of := (pos_of q)(obj := i)\<rparr>"

function cpq_heapifyup :: "heap_type \<Rightarrow> 'n cpq \<Rightarrow> nat \<Rightarrow> 'n cpq" where
  "cpq_heapifyup ht q index =
     (case heap_parent index of
        None \<Rightarrow> q
      | Some p \<Rightarrow>
          if \<not> cpq_le ht q (heap q ! p) (heap q ! index) then
            (let obj = heap q ! p;
                 q1 = cpq_set_index p (heap q ! index) q;
                 q2 = cpq_set_index index obj q1
             in cpq_heapifyup ht q2 p)
          else q)"
  by pat_completeness auto
termination
  by (relation "measure (\<lambda>(ht, q, i). i)") (auto simp: heap_parent_def split: if_splits)

function cpq_heapifydown :: "heap_type \<Rightarrow> 'n cpq \<Rightarrow> nat \<Rightarrow> 'n cpq" where
  "cpq_heapifydown ht q index =
     (case heap_smaller (cpq_le ht q) (heap q) index of
        None \<Rightarrow> q
      | Some smaller \<Rightarrow>
          (let obj = heap q ! index;
               q1 = cpq_set_index index (heap q ! smaller) q;
               q2 = cpq_set_index smaller obj q1
           in cpq_heapifydown ht q2 smaller))"
  by pat_completeness auto
termination
  by (relation "measure (\<lambda>(ht, q, i). length (heap q) - i)")
    (auto simp: cpq_set_index_def dest!: heap_smaller_bounds)

declare cpq_heapifyup.simps [simp del] cpq_heapifydown.simps [simp del]

definition cpq_insert :: "heap_type \<Rightarrow> 'n \<Rightarrow> heap_priority \<Rightarrow> 'n cpq \<Rightarrow> 'n cpq res" where
  "cpq_insert ht node prio q =
     (if in_pq q node then Inl Assert_Failed
      else (let q1 = q\<lparr>prio_of := (prio_of q)(node := prio), in_pq := (in_pq q)(node := True),
                      heap := heap q @ [node]\<rparr>;
                q2 = q1\<lparr>pos_of := (pos_of q1)(node := length (heap q1) - 1)\<rparr>
            in Inr (cpq_heapifyup ht q2 (length (heap q2) - 1))))"

definition cpq_pop :: "heap_type \<Rightarrow> 'n cpq \<Rightarrow> ('n option \<times> 'n cpq) res" where
  "cpq_pop ht q =
     (if heap q = [] then Inr (None, q)
      else (let min = heap q ! 0;
                q1 = q\<lparr>heap := (heap q)[0 := last (heap q)]\<rparr>;
                q2 = q1\<lparr>pos_of := (pos_of q1)(heap q1 ! 0 := 0)\<rparr>;
                q3 = q2\<lparr>heap := butlast (heap q2)\<rparr>;
                q4 = cpq_heapifydown ht q3 0
            in if in_pq q4 min then Inr (Some min, q4\<lparr>in_pq := (in_pq q4)(min := False)\<rparr>)
               else Inl Assert_Failed))"

text \<open>\<open>do_remove\<close> reads \<open>heap.back()\<close>, undefined on an empty vector.\<close>

definition cpq_remove :: "heap_type \<Rightarrow> 'n \<Rightarrow> 'n cpq \<Rightarrow> 'n cpq res" where
  "cpq_remove ht obj q =
     (if heap q = [] then Inl Bad_Access else Inr
     (let index = pos_of q obj;
          tmp = last (heap q);
          q1 = q\<lparr>heap := butlast (heap q), in_pq := (in_pq q)(obj := False)\<rparr>
      in if heap q1 \<noteq> [] \<and> index \<noteq> length (heap q1) then
           (let q2 = cpq_set_index index tmp q1
            in case heap_parent index of
                 Some p \<Rightarrow>
                   (if cpq_le ht q2 tmp (heap q2 ! p) then cpq_heapifyup ht q2 index
                    else cpq_heapifydown ht q2 index)
               | None \<Rightarrow> cpq_heapifydown ht q2 index)
         else q1))"

definition cpq_move_node :: "heap_type \<Rightarrow> 'n \<Rightarrow> heap_priority \<Rightarrow> 'n cpq \<Rightarrow> 'n cpq res" where
  "cpq_move_node ht node new_prio q = res_bind (cpq_remove ht node q) (\<lambda>q'. cpq_insert ht node new_prio q')"

section \<open>The heap order\<close>

abbreviation par :: "nat \<Rightarrow> nat" where
  "par i \<equiv> (i - 1) div 2"

definition heap_ordered :: "('o \<Rightarrow> 'o \<Rightarrow> bool) \<Rightarrow> 'o list \<Rightarrow> bool" where
  "heap_ordered le h \<longleftrightarrow> (\<forall>i < length h. 0 < i \<longrightarrow> le (h ! par i) (h ! i))"

text \<open>Ordered except between \<open>i\<close> and its parent, and except between \<open>i\<close> and its children.\<close>

definition up_inv :: "('o \<Rightarrow> 'o \<Rightarrow> bool) \<Rightarrow> 'o list \<Rightarrow> nat \<Rightarrow> bool" where
  "up_inv le h i \<longleftrightarrow>
     (\<forall>j < length h. 0 < j \<longrightarrow> j \<noteq> i \<longrightarrow> le (h ! par j) (h ! j)) \<and>
     (0 < i \<longrightarrow> (\<forall>c < length h. 0 < c \<longrightarrow> par c = i \<longrightarrow> le (h ! par i) (h ! c)))"

definition down_inv :: "('o \<Rightarrow> 'o \<Rightarrow> bool) \<Rightarrow> 'o list \<Rightarrow> nat \<Rightarrow> bool" where
  "down_inv le h i \<longleftrightarrow>
     (\<forall>j < length h. 0 < j \<longrightarrow> par j \<noteq> i \<longrightarrow> le (h ! par j) (h ! j)) \<and>
     (0 < i \<longrightarrow> (\<forall>c < length h. 0 < c \<longrightarrow> par c = i \<longrightarrow> le (h ! par i) (h ! c)))"

lemma par_less: "0 < i \<Longrightarrow> par i < i"
  by auto

lemma heap_swap_length [simp]: "length (heap_swap h i j) = length h"
  by (simp add: heap_swap_def)

lemma heap_swap_nth:
  "i < length h \<Longrightarrow> j < length h \<Longrightarrow> k < length h \<Longrightarrow>
   heap_swap h i j ! k = (if k = i then h ! j else if k = j then h ! i else h ! k)"
  by (auto simp: heap_swap_def nth_list_update)

lemma heap_swap_mset: "i < length h \<Longrightarrow> j < length h \<Longrightarrow> mset (heap_swap h i j) = mset h"
  by (simp add: heap_swap_def mset_swap)

lemma heapifyup_mset: "i < length h \<Longrightarrow> mset (heapifyup le h i) = mset h"
proof (induction le h i rule: heapifyup.induct)
  case (1 le h i)
  then show ?case
    by (subst heapifyup.simps)
      (auto simp: heap_parent_def heap_swap_mset split: option.split)
qed

lemma heapifydown_mset: "mset (heapifydown le h i) = mset h"
proof (induction le h i rule: heapifydown.induct)
  case (1 le h i)
  then show ?case
    by (subst heapifydown.simps)
      (auto simp: heap_swap_mset dest: heap_smaller_bounds split: option.split)
qed

lemma heapifyup_length [simp]: "i < length h \<Longrightarrow> length (heapifyup le h i) = length h"
  by (metis heapifyup_mset size_mset)

lemma heapifydown_length [simp]: "length (heapifydown le h i) = length h"
  by (metis heapifydown_mset size_mset)

text \<open>
  What the two loops need of the comparison: total on the priorities in use (a NaN
  is comparable to nothing) and transitive.
\<close>

locale heap_order =
  fixes le :: "'o \<Rightarrow> 'o \<Rightarrow> bool"
    and ok :: "'o \<Rightarrow> bool"
  assumes le_total: "ok x \<Longrightarrow> ok y \<Longrightarrow> le x y \<or> le y x"
    and le_trans: "le x y \<Longrightarrow> le y z \<Longrightarrow> le x z"
begin

lemma le_refl: "ok x \<Longrightarrow> le x x"
  using le_total by blast

lemma up_step:
  assumes i: "0 < i" "i < length h" and ok: "list_all ok h" and inv: "up_inv le h i"
    and no: "\<not> le (h ! par i) (h ! i)"
  shows "up_inv le (heap_swap h i (par i)) (par i)"
proof -
  let ?p = "par i" and ?h = "heap_swap h i (par i)"
  have p: "?p < i" "?p < length h" using i by auto
  have up: "le (h ! i) (h ! ?p)"
    using no le_total [of "h ! ?p" "h ! i"] ok i p by (auto simp: list_all_length)
  have nth: "?h ! k = (if k = i then h ! ?p else if k = ?p then h ! i else h ! k)" if "k < length h" for k
    using heap_swap_nth [OF i(2) p(2) that] .
  have edge: "le (?h ! par j) (?h ! j)" if j: "j < length h" "0 < j" "j \<noteq> ?p" for j
  proof (cases "j = i")
    case True
    then show ?thesis using up nth [of i] nth [of ?p] p i by auto
  next
    case False
    have pj: "par j < length h" using j by auto
    have inv1: "le (h ! par j) (h ! j)" using inv False j by (simp add: up_inv_def)
    consider "par j = i" | "par j = ?p" | "par j \<noteq> i" "par j \<noteq> ?p" by blast
    then show ?thesis
    proof cases
      case 1
      then have "le (h ! ?p) (h ! j)" using inv i j by (simp add: up_inv_def)
      with 1 False j show ?thesis using nth [of j] nth [of i] i by simp
    next
      case 2
      with inv1 have "le (h ! i) (h ! j)" using up le_trans by metis
      with 2 False j p show ?thesis using nth [of j] nth [of ?p] by simp
    next
      case 3
      with inv1 False j show ?thesis using nth [of j] nth [OF pj] by simp
    qed
  qed
  have grand: "le (?h ! par ?p) (?h ! c)" if c: "0 < ?p" "c < length h" "0 < c" "par c = ?p" for c
  proof -
    have q: "par ?p < ?p" "par ?p < length h" using par_less [OF c(1)] p(2) by linarith+
    have top: "le (h ! par ?p) (h ! ?p)" using inv c(1) p by (simp add: up_inv_def)
    have "?h ! par ?p = h ! par ?p" using nth [OF q(2)] q p by auto
    moreover have "le (h ! par ?p) (?h ! c)"
    proof (cases "c = i")
      case True
      with top show ?thesis using nth [of i] i by simp
    next
      case False
      then have "le (h ! ?p) (h ! c)" using inv c by (simp add: up_inv_def) metis
      moreover have "c \<noteq> ?p" using c by auto
      ultimately show ?thesis using top le_trans nth [OF c(2)] False by metis
    qed
    ultimately show ?thesis by simp
  qed
  show ?thesis using edge grand by (simp add: up_inv_def)
qed

lemma up_done:
  assumes "up_inv le h i" and "i = 0 \<or> le (h ! par i) (h ! i)"
  shows "heap_ordered le h"
  unfolding heap_ordered_def
proof (intro allI impI)
  fix j assume "j < length h" "0 < j"
  with assms show "le (h ! par j) (h ! j)" by (cases "j = i") (auto simp: up_inv_def)
qed

lemma list_all_mset: "mset h = mset h' \<Longrightarrow> list_all ok h \<longleftrightarrow> list_all ok h'"
  unfolding list_all_iff by (metis set_mset_mset)

lemma heapifyup_ordered:
  "i < length h \<Longrightarrow> list_all ok h \<Longrightarrow> up_inv le h i \<Longrightarrow> heap_ordered le (heapifyup le h i)"
proof (induction i arbitrary: h rule: less_induct)
  case (less i)
  show ?case
  proof (cases "0 < i \<and> \<not> le (h ! par i) (h ! i)")
    case True
    then have p: "par i < i" by auto
    then have "heap_ordered le (heapifyup le (heap_swap h i (par i)) (par i))"
      using less.prems True
      by (intro less.IH up_step) (auto simp: list_all_mset [OF heap_swap_mset])
    with True show ?thesis by (subst heapifyup.simps) (simp add: heap_parent_def)
  next
    case False
    then have "heapifyup le h i = h" by (subst heapifyup.simps) (auto simp: heap_parent_def)
    with up_done [OF less.prems(3)] False show ?thesis by auto
  qed
qed

text \<open>The child that \<open>heapifydown\<close> moves up is below neither its parent nor its sibling.\<close>

lemma smaller_least:
  assumes s: "heap_smaller le h i = Some s" and ok: "list_all ok h"
    and c: "c < length h" "0 < c" "par c = i"
  shows "le (h ! s) (h ! c)"
proof -
  have okn: "ok (h ! k)" if "k < length h" for k using ok that by (simp add: list_all_length)
  have cc: "c = 2 * i + 1 \<or> c = 2 * i + 2" using c by auto
  have i: "i < length h" using c by auto
  have sr: "s = 2 * i + 1 \<or> s = 2 * i + 2 \<and> le (h ! (2 * i + 2)) (h ! (2 * i + 1))"
    and sl: "s = 2 * i + 1 \<Longrightarrow> 2 * i + 2 < length h \<Longrightarrow> \<not> le (h ! (2 * i + 2)) (h ! (2 * i + 1))"
    using s by (auto simp: heap_smaller_def heap_left_def heap_right_def Let_def split: if_splits)
  have refl: "le (h ! c) (h ! c)" by (rule le_refl) (rule okn [OF c(1)])
  show "le (h ! s) (h ! c)"
  proof (cases "s = c")
    case True
    with refl show ?thesis by simp
  next
    case False
    then consider "s = 2 * i + 2" "c = 2 * i + 1" | "s = 2 * i + 1" "c = 2 * i + 2"
      using sr cc by auto
    then show ?thesis
    proof cases
      case 1
      with sr show ?thesis by simp
    next
      case 2
      with sl c(1) have "\<not> le (h ! c) (h ! s)" by simp
      moreover have "ok (h ! s)" using okn [of s] 2 c(1) by simp
      ultimately show ?thesis using le_total okn [OF c(1)] by blast
    qed
  qed
qed

lemma smaller_below:
  assumes s: "heap_smaller le h i = Some s" and ok: "list_all ok h"
  shows "le (h ! s) (h ! i)"
proof -
  have "\<exists>d < length h. 0 < d \<and> par d = i \<and> \<not> le (h ! i) (h ! d)"
  proof (cases "le (h ! i) (h ! (2 * i + 1))")
    case True
    with s have "2 * i + 2 < length h \<and> \<not> le (h ! i) (h ! (2 * i + 2))"
      by (auto simp: heap_smaller_def heap_left_def heap_right_def Let_def split: if_splits)
    then show ?thesis by (intro exI [of _ "2 * i + 2"]) auto
  next
    case False
    with s have "2 * i + 1 < length h"
      by (auto simp: heap_smaller_def heap_left_def Let_def split: if_splits)
    with False show ?thesis by (intro exI [of _ "2 * i + 1"]) auto
  qed
  then obtain d where d: "d < length h" "0 < d" "par d = i" "\<not> le (h ! i) (h ! d)" by blast
  moreover have "i < length h" using d(1,3) by auto
  ultimately have "le (h ! d) (h ! i)" using le_total ok by (auto simp: list_all_length)
  with smaller_least [OF s ok d(1-3)] show ?thesis by (rule le_trans)
qed

lemma smaller_None:
  assumes "heap_smaller le h i = None" and c: "c < length h" "0 < c" "par c = i"
  shows "le (h ! i) (h ! c)"
proof -
  have "c = 2 * i + 1 \<or> c = 2 * i + 2" using c by auto
  with assms show ?thesis
    by (auto simp: heap_smaller_def heap_left_def heap_right_def Let_def split: if_splits)
qed

lemma down_step:
  assumes s: "heap_smaller le h i = Some s" and ok: "list_all ok h" and inv: "down_inv le h i"
  shows "down_inv le (heap_swap h i s) s"
proof -
  let ?h = "heap_swap h i s"
  have b: "i < s" "s < length h" "par s = i" using heap_smaller_bounds [OF s] by auto
  then have i: "i < length h" by simp
  have nth: "?h ! k = (if k = i then h ! s else if k = s then h ! i else h ! k)" if "k < length h" for k
    using heap_swap_nth [OF i b(2) that] .
  have si: "le (h ! s) (h ! i)" using s ok by (rule smaller_below)
  have edge: "le (?h ! par j) (?h ! j)" if j: "j < length h" "0 < j" "par j \<noteq> s" for j
  proof -
    have pj: "par j < length h" using j by auto
    consider "j = s" | "j = i" | "par j = i" "j \<noteq> s" | "par j \<noteq> i" "j \<noteq> s" "j \<noteq> i" by blast
    then show ?thesis
    proof cases
      case 1
      then show ?thesis using si nth [of s] nth [of i] b i by simp
    next
      case 2
      then have "par j \<noteq> i" "par j < i" using j by auto
      moreover have "le (h ! par i) (h ! s)" using inv 2 j b by (simp add: down_inv_def)
      ultimately show ?thesis using 2 nth [of i] nth [OF pj] i b by simp
    next
      case 3
      then have "le (h ! s) (h ! j)" "j \<noteq> i" using smaller_least [OF s ok j(1,2)] j by auto
      with 3 show ?thesis using nth [of i] nth [OF j(1)] i by simp
    next
      case 4
      then have "le (h ! par j) (h ! j)" using inv j by (simp add: down_inv_def)
      with 4 j show ?thesis using nth [OF j(1)] nth [OF pj] by simp
    qed
  qed
  have grand: "le (?h ! par s) (?h ! c)" if c: "c < length h" "0 < c" "par c = s" for c
  proof -
    have "par c \<noteq> i" using c b by simp
    then have "le (h ! par c) (h ! c)" using inv c(1,2) unfolding down_inv_def by blast
    moreover have "c \<noteq> i" "c \<noteq> s" using c b by auto
    ultimately show ?thesis using nth [OF c(1)] nth [OF i] b c by simp
  qed
  show ?thesis using edge grand by (simp add: down_inv_def)
qed

lemma down_done: "down_inv le h i \<Longrightarrow> heap_smaller le h i = None \<Longrightarrow> heap_ordered le h"
  unfolding heap_ordered_def down_inv_def by (metis smaller_None)

lemma heapifydown_ordered:
  "list_all ok h \<Longrightarrow> down_inv le h i \<Longrightarrow> heap_ordered le (heapifydown le h i)"
proof (induction "length h - i" arbitrary: h i rule: less_induct)
  case less
  show ?case
  proof (cases "heap_smaller le h i")
    case None
    with less.prems show ?thesis by (subst heapifydown.simps) (simp add: down_done)
  next
    case (Some s)
    then have b: "i < s" "s < length h" using heap_smaller_bounds [OF Some] by auto
    have "heap_ordered le (heapifydown le (heap_swap h i s) s)"
      using less.prems b Some
      by (intro less.hyps down_step) (auto simp: list_all_mset [OF heap_swap_mset])
    with Some show ?thesis by (subst heapifydown.simps) simp
  qed
qed

lemma root_least:
  "heap_ordered le h \<Longrightarrow> list_all ok h \<Longrightarrow> i < length h \<Longrightarrow> le (h ! 0) (h ! i)"
proof (induction i rule: less_induct)
  case (less i)
  show ?case
  proof (cases "i = 0")
    case True
    with less.prems show ?thesis by (auto intro: le_refl simp: list_all_length)
  next
    case False
    then have "le (h ! 0) (h ! par i)"
      using less.prems by (intro less.IH) auto
    moreover have "le (h ! par i) (h ! i)"
      using less.prems False by (simp add: heap_ordered_def)
    ultimately show ?thesis by (rule le_trans)
  qed
qed

lemma ordered_take: "heap_ordered le h \<Longrightarrow> heap_ordered le (take n h)"
  by (auto simp: heap_ordered_def)

lemma ordered_butlast: "heap_ordered le h \<Longrightarrow> heap_ordered le (butlast h)"
  by (simp add: butlast_conv_take ordered_take)

lemma append_up_inv: "heap_ordered le h \<Longrightarrow> up_inv le (h @ [x]) (length h)"
  by (auto simp: heap_ordered_def up_inv_def nth_append)

lemma replace_up_inv:
  assumes h: "heap_ordered le h" and i: "0 < i" "i < length h" and x: "le x (h ! par i)"
  shows "up_inv le (h[i := x]) i"
proof -
  have e: "le (h ! par j) (h ! j)" if "j < length h" "0 < j" for j
    using h that by (simp add: heap_ordered_def)
  have pi: "par i < i" by (rule par_less [OF i(1)])
  have "le (h[i := x] ! par j) (h[i := x] ! j)" if j: "j < length h" "0 < j" "j \<noteq> i" for j
  proof (cases "par j = i")
    case True
    have "le x (h ! i)" using x e [OF i(2,1)] by (rule le_trans)
    then have "le x (h ! j)" using e [OF j(1,2)] True by (auto intro: le_trans)
    with True j show ?thesis by simp
  next
    case False
    with e j show ?thesis by simp
  qed
  moreover have "le (h[i := x] ! par i) (h[i := x] ! c)" if c: "c < length h" "0 < c" "par c = i" for c
  proof -
    have "le (h ! par i) (h ! c)" using e [OF i(2,1)] e [OF c(1,2)] c(3) by (auto intro: le_trans)
    moreover have "c \<noteq> i" using c by auto
    ultimately show ?thesis using pi by simp
  qed
  ultimately show ?thesis unfolding up_inv_def length_list_update by blast
qed

lemma replace_down_inv:
  assumes h: "heap_ordered le h" and i: "i < length h" and x: "0 < i \<Longrightarrow> le (h ! par i) x"
  shows "down_inv le (h[i := x]) i"
proof -
  have e: "le (h ! par j) (h ! j)" if "j < length h" "0 < j" for j
    using h that by (simp add: heap_ordered_def)
  have "le (h[i := x] ! par j) (h[i := x] ! j)" if j: "j < length h" "0 < j" "par j \<noteq> i" for j
    using e [OF j(1,2)] x j i by (cases "j = i") auto
  moreover have "le (h[i := x] ! par i) (h[i := x] ! c)"
    if c: "0 < i" "c < length h" "0 < c" "par c = i" for c
  proof -
    have "le (h ! par i) (h ! c)" using e [OF i c(1)] e [OF c(2,3)] c(4) by (auto intro: le_trans)
    moreover have "c \<noteq> i" using c by auto
    moreover have "par i \<noteq> i" using par_less [OF c(1)] by simp
    ultimately show ?thesis by simp
  qed
  ultimately show ?thesis unfolding down_inv_def length_list_update by blast
qed

lemma list_all_update: "list_all ok h \<Longrightarrow> ok x \<Longrightarrow> list_all ok (h[i := x])"
  by (auto simp: list_all_iff dest: set_update_subset_insert [THEN subsetD])

lemma list_all_butlast: "list_all ok h \<Longrightarrow> list_all ok (butlast h)"
  by (auto simp: list_all_iff dest: in_set_butlastD)

lemma pop_ordered:
  assumes "heap_ordered le h" and "list_all ok h" and "h \<noteq> []"
  shows "heap_ordered le (heapifydown le (butlast (h[0 := last h])) 0)"
proof -
  have *: "butlast (h[0 := last h]) = (butlast h)[0 := last h]"
    using assms(3) by (cases h rule: rev_cases) (auto simp: list_update_append)
  have l: "ok (last h)" using assms(2,3) by (simp add: list_all_iff)
  show ?thesis
  proof (cases "butlast h")
    case Nil
    then show ?thesis
      unfolding * by (subst heapifydown.simps) (simp add: heap_smaller_def heap_left_def heap_ordered_def)
  next
    case Cons
    show ?thesis
      unfolding * using assms l Cons
      by (intro heapifydown_ordered replace_down_inv list_all_update list_all_butlast ordered_butlast) auto
  qed
qed

end

lemma pop_mset:
  assumes "h \<noteq> []"
  shows "mset (heapifydown le (butlast (h[0 := last h])) 0) = mset h - {#h ! 0#}"
proof -
  obtain x ys where h: "h = x # ys" using assms by (cases h) auto
  show ?thesis
  proof (cases "ys = []")
    case True
    with h show ?thesis by (simp add: heapifydown_mset)
  next
    case False
    then have "mset (butlast (h[0 := last h])) = mset (butlast ys @ [last ys])"
      using h by (simp del: append_butlast_last_id)
    also have "\<dots> = mset ys" using False by simp
    finally show ?thesis using h by (simp add: heapifydown_mset)
  qed
qed

section \<open>Instances of the heap order\<close>

lemma heap_compare_total:
  "heap_prio_ok ht a \<Longrightarrow> heap_prio_ok ht b \<Longrightarrow> heap_compare ht a b \<or> heap_compare ht b a"
  by (cases ht) (auto simp: heap_compare_def heap_prio_ok_def dest: float_le_total)

lemma heap_compare_trans: "heap_compare ht a b \<Longrightarrow> heap_compare ht b c \<Longrightarrow> heap_compare ht a c"
  by (cases ht) (auto simp: heap_compare_def intro: float_le_trans)

definition hq_ok :: "heap_type \<Rightarrow> 'a heap_object \<Rightarrow> bool" where
  "hq_ok ht x = heap_prio_ok ht (val x)"

interpretation hq: heap_order "hq_le ht" "hq_ok ht" for ht
  by unfold_locales
    (auto simp: hq_le_def hq_ok_def intro: heap_compare_trans dest: heap_compare_total)

definition cpq_ok :: "heap_type \<Rightarrow> 'n cpq \<Rightarrow> 'n \<Rightarrow> bool" where
  "cpq_ok ht q x = heap_prio_ok ht (prio_of q x)"

interpretation cq: heap_order "cpq_le ht q" "cpq_ok ht q" for ht q
  by unfold_locales
    (auto simp: cpq_le_def cpq_ok_def intro: heap_compare_trans dest: heap_compare_total)

section \<open>The contract of a priority queue\<close>

text \<open>
  What a client sees: \<open>pop\<close> fails on an empty queue and otherwise takes out a least
  entry and nothing else. Popping a queue empty then gives its entries in order.
\<close>

fun pops :: "('q \<Rightarrow> ('x \<times> 'q) res) \<Rightarrow> nat \<Rightarrow> 'q \<Rightarrow> ('x list \<times> 'q) res" where
  "pops pop 0 q = Inr ([], q)"
| "pops pop (Suc n) q =
     res_bind (pop q) (\<lambda>(x, q').
     res_bind (pops pop n q') (\<lambda>(xs, q''). Inr (x # xs, q'')))"

locale pqueue =
  fixes pop :: "'q \<Rightarrow> ('x \<times> 'q) res"
    and view :: "'q \<Rightarrow> 'o multiset"
    and out :: "'o \<Rightarrow> 'x"
    and inv :: "'q \<Rightarrow> bool"
    and le :: "'o \<Rightarrow> 'o \<Rightarrow> bool"
  assumes pop_least: "inv q \<Longrightarrow> view q \<noteq> {#} \<Longrightarrow>
      \<exists>x q'. pop q = Inr (out x, q') \<and> x \<in># view q \<and> view q' = view q - {#x#} \<and> inv q' \<and>
        (\<forall>y \<in># view q. le x y)"
begin

lemma pops_sorted:
  "inv q \<Longrightarrow> size (view q) = n \<Longrightarrow>
   \<exists>xs q'. pops pop n q = Inr (map out xs, q') \<and> mset xs = view q \<and> sorted_wrt le xs \<and>
     inv q' \<and> view q' = {#}"
proof (induction n arbitrary: q)
  case 0
  then show ?case by (intro exI [of _ "[]"] exI [of _ q]) auto
next
  case (Suc n)
  then have "view q \<noteq> {#}" by auto
  with pop_least [OF Suc.prems(1)] obtain x q' where
    p: "pop q = Inr (out x, q')" "x \<in># view q" "view q' = view q - {#x#}" "inv q'"
    and le: "\<forall>y \<in># view q. le x y" by blast
  have "size (view q') = n" using Suc.prems p by (simp add: size_Diff_singleton)
  with Suc.IH [OF p(4)] obtain xs q'' where
    r: "pops pop n q' = Inr (map out xs, q'')" "mset xs = view q'" "sorted_wrt le xs"
      "inv q''" "view q'' = {#}" by blast
  have "set xs \<subseteq> set_mset (view q)" using r(2) p(3) by (metis in_diffD set_mset_mset subsetI)
  then have "sorted_wrt le (x # xs)" using r(3) le by auto
  with r p show ?case by (intro exI [of _ "x # xs"] exI [of _ q'']) auto
qed

end

definition hq_inv :: "heap_type \<Rightarrow> 'a heap_object list \<Rightarrow> bool" where
  "hq_inv ht h \<longleftrightarrow> heap_ordered (hq_le ht) h \<and> list_all (hq_ok ht) h"

lemma hq_inv_Nil [simp]: "hq_inv ht []"
  by (simp add: hq_inv_def heap_ordered_def)

lemma hq_insert_mset: "mset (hq_insert ht el prio h) = add_mset \<lparr>val = prio, data = el\<rparr> (mset h)"
  by (simp add: hq_insert_def Let_def heapifyup_mset)

lemma hq_insert_inv:
  assumes "hq_inv ht h" and "heap_prio_ok ht prio"
  shows "hq_inv ht (hq_insert ht el prio h)"
proof -
  let ?x = "\<lparr>val = prio, data = el\<rparr>"
  have ok: "list_all (hq_ok ht) (h @ [?x])" using assms by (simp add: hq_inv_def hq_ok_def)
  have "heap_ordered (hq_le ht) (heapifyup (hq_le ht) (h @ [?x]) (length h))"
    using assms ok by (intro hq.heapifyup_ordered hq.append_up_inv) (auto simp: hq_inv_def)
  moreover have "mset (heapifyup (hq_le ht) (h @ [?x]) (length h)) = mset (h @ [?x])"
    by (rule heapifyup_mset) simp
  then have "list_all (hq_ok ht) (heapifyup (hq_le ht) (h @ [?x]) (length h))"
    using ok hq.list_all_mset by blast
  ultimately show ?thesis by (simp add: hq_inv_def hq_insert_def Let_def)
qed

lemma hq_pop_least:
  assumes "hq_inv ht h" and "mset h \<noteq> {#}"
  shows "\<exists>x h'. hq_pop ht h = Inr (data x, h') \<and> x \<in># mset h \<and> mset h' = mset h - {#x#} \<and> hq_inv ht h' \<and>
    (\<forall>y \<in># mset h. hq_le ht x y)"
proof -
  let ?h = "heapifydown (hq_le ht) (butlast (h[0 := last h])) 0"
  have ne: "h \<noteq> []" using assms(2) by auto
  have o: "heap_ordered (hq_le ht) h" and ok: "list_all (hq_ok ht) h" using assms by (auto simp: hq_inv_def)
  have m: "mset ?h = mset h - {#h ! 0#}" using ne by (rule pop_mset)
  have "set_mset (mset ?h) \<subseteq> set_mset (mset h)" unfolding m by (auto dest: in_diffD)
  then have "set ?h \<subseteq> set h" by (simp only: set_mset_mset)
  then have "list_all (hq_ok ht) ?h" using ok by (auto simp: list_all_iff)
  moreover have "heap_ordered (hq_le ht) ?h" using o ok ne by (rule hq.pop_ordered)
  moreover have "\<forall>y \<in># mset h. hq_le ht (h ! 0) y"
    using hq.root_least [OF o ok] by (auto simp: in_set_conv_nth)
  ultimately show ?thesis using m ne
    by (intro exI [of _ "h ! 0"] exI [of _ ?h]) (auto simp: hq_pop_def hq_inv_def Let_def)
qed

interpretation hqp: pqueue "hq_pop ht" mset data "hq_inv ht" "hq_le ht" for ht
  by unfold_locales (rule hq_pop_least)

text \<open>A queue filled by a sequence of insertions, as \<open>mark_active_rules\<close> fills the rule queue.\<close>

definition enqueue_all :: "heap_type \<Rightarrow> ('a \<times> heap_priority) list \<Rightarrow> 'a heap_object list" where
  "enqueue_all ht ps = fold (\<lambda>(e, p) h. hq_insert ht e p h) ps []"

lemma fold_insert_inv:
  "list_all (\<lambda>(e, p). heap_prio_ok ht p) ps \<Longrightarrow> hq_inv ht h \<Longrightarrow>
   hq_inv ht (fold (\<lambda>(e, p) h. hq_insert ht e p h) ps h)"
  by (induction ps arbitrary: h) (auto simp: hq_insert_inv)

lemma fold_insert_mset:
  "mset (fold (\<lambda>(e, p) h. hq_insert ht e p h) ps h) =
   mset h + mset (map (\<lambda>(e, p). \<lparr>val = p, data = e\<rparr>) ps)"
  by (induction ps arbitrary: h) (auto simp: hq_insert_mset)

lemma enqueue_all_inv: "list_all (\<lambda>(e, p). heap_prio_ok ht p) ps \<Longrightarrow> hq_inv ht (enqueue_all ht ps)"
  by (simp add: enqueue_all_def fold_insert_inv)

lemma enqueue_all_mset:
  "mset (enqueue_all ht ps) = mset (map (\<lambda>(e, p). \<lparr>val = p, data = e\<rparr>) ps)"
  by (simp add: enqueue_all_def fold_insert_mset)

text \<open>C29: popping a queue that was filled by insertions gives back every entry exactly once, in
  the order of the priorities, for each of the four queue types (no NaN among the priorities).\<close>

theorem heap_queue_drains_in_order:
  assumes "list_all (\<lambda>(e, p). heap_prio_ok ht p) ps"
  shows "\<exists>xs. pops (hq_pop ht) (length ps) (enqueue_all ht ps) = Inr (map data xs, []) \<and>
    mset xs = mset (map (\<lambda>(e, p). \<lparr>val = p, data = e\<rparr>) ps) \<and> sorted_wrt (hq_le ht) xs"
proof -
  have "size (mset (enqueue_all ht ps)) = length ps" by (simp add: enqueue_all_mset)
  with hqp.pops_sorted [OF enqueue_all_inv [OF assms]] obtain xs q' where
    r: "pops (hq_pop ht) (length ps) (enqueue_all ht ps) = Inr (map data xs, q')"
    and "mset xs = mset (enqueue_all ht ps)" "sorted_wrt (hq_le ht) xs" "mset q' = {#}"
    by blast
  then show ?thesis by (intro exI [of _ xs]) (simp add: enqueue_all_mset)
qed

theorem heap_queue_drains_in_order_witness:
  "\<exists>xs. pops (hq_pop HEAP_INT_ASC) 3 (enqueue_all HEAP_INT_ASC [(7::nat, 7), (2, 2), (5, 5)]) =
      Inr (map data xs, []) \<and>
    mset xs = mset [\<lparr>val = 7, data = 7\<rparr>, \<lparr>val = 2, data = 2\<rparr>, \<lparr>val = 5, data = 5\<rparr>] \<and>
    sorted_wrt (hq_le HEAP_INT_ASC) xs"
  using heap_queue_drains_in_order [of HEAP_INT_ASC "[(7::nat, 7), (2, 2), (5, 5)]"]
  by (simp add: heap_prio_ok_def numeral_3_eq_3)

text \<open>\<open>remove\<close> puts the last entry in the hole and only ever sifts it down. With the rules
  1, 4, 2, 5, 6, 7 and 3 queued and rule 5 dropped, rule 4 comes out before rule 3.\<close>

theorem heap_queue_remove_breaks_order:
  "res_bind (hq_remove HEAP_INT_ASC (5::nat) 5
       (enqueue_all HEAP_INT_ASC [(1, 1), (4, 4), (2, 2), (5, 5), (6, 6), (7, 7), (3, 3)]))
     (\<lambda>h. pops (hq_pop HEAP_INT_ASC) 6 h) = Inr ([1, 2, 4, 3, 6, 7], [])"
  by code_simp

section \<open>The node queue keeps its positions\<close>

definition pos_ok :: "'n cpq \<Rightarrow> bool" where
  "pos_ok q \<longleftrightarrow> distinct (heap q) \<and> (\<forall>i < length (heap q). pos_of q (heap q ! i) = i)"

definition same_nodes :: "'n cpq \<Rightarrow> 'n cpq \<Rightarrow> bool" where
  "same_nodes q q' \<longleftrightarrow> prio_of q' = prio_of q \<and> in_pq q' = in_pq q"

lemma cpq_le_same: "same_nodes q q' \<Longrightarrow> cpq_le ht q' = cpq_le ht q"
  by (auto simp: same_nodes_def cpq_le_def fun_eq_iff)

lemma same_nodes_set_index: "same_nodes q q' \<Longrightarrow> same_nodes q (cpq_set_index i x q')"
  by (simp add: same_nodes_def cpq_set_index_def)

lemma swap_pos_ok:
  assumes q: "pos_ok q" and ij: "i < length (heap q)" "j < length (heap q)" "i \<noteq> j"
    and q': "q' = cpq_set_index i (heap q ! j) (cpq_set_index j (heap q ! i) q)"
  shows "pos_ok q'" and "heap q' = heap_swap (heap q) i j"
proof -
  show h: "heap q' = heap_swap (heap q) i j"
    by (simp add: q' cpq_set_index_def heap_swap_def)
  have d: "heap q ! i \<noteq> heap q ! j" using q ij by (simp add: pos_ok_def nth_eq_iff_index_eq)
  have "pos_of q' (heap q' ! k) = k" if k: "k < length (heap q)" for k
  proof -
    have "pos_of q (heap q ! k) = k" using q k by (simp add: pos_ok_def)
    moreover have "k \<noteq> i \<Longrightarrow> heap q ! k \<noteq> heap q ! i" "k \<noteq> j \<Longrightarrow> heap q ! k \<noteq> heap q ! j"
      using q k ij by (simp_all add: pos_ok_def nth_eq_iff_index_eq)
    ultimately show ?thesis
      using d k heap_swap_nth [OF ij(1,2) k] unfolding h by (simp add: q' cpq_set_index_def)
  qed
  moreover have "distinct (heap q')"
    using q ij by (simp add: h heap_swap_def pos_ok_def distinct_swap)
  ultimately show "pos_ok q'" by (simp add: pos_ok_def h)
qed

lemma cpq_heapifyup_spec:
  "i < length (heap q) \<Longrightarrow> pos_ok q \<Longrightarrow>
   pos_ok (cpq_heapifyup ht q i) \<and> same_nodes q (cpq_heapifyup ht q i) \<and>
   heap (cpq_heapifyup ht q i) = heapifyup (cpq_le ht q) (heap q) i"
proof (induction i arbitrary: q rule: less_induct)
  case (less i)
  show ?case
  proof (cases "0 < i \<and> \<not> cpq_le ht q (heap q ! par i) (heap q ! i)")
    case True
    let ?q = "cpq_set_index i (heap q ! par i) (cpq_set_index (par i) (heap q ! i) q)"
    have p: "par i < i" "par i < length (heap q)" using True less.prems by auto
    note sw = swap_pos_ok [OF less.prems(2,1) p(2) _ refl]
    have s: "same_nodes q ?q" by (intro same_nodes_set_index) (simp add: same_nodes_def)
    have "pos_ok ?q" "heap ?q = heap_swap (heap q) i (par i)" using sw p by auto
    with less.IH [of "par i" ?q] p have
      "pos_ok (cpq_heapifyup ht ?q (par i)) \<and> same_nodes ?q (cpq_heapifyup ht ?q (par i)) \<and>
       heap (cpq_heapifyup ht ?q (par i)) = heapifyup (cpq_le ht ?q) (heap_swap (heap q) i (par i)) (par i)"
      by simp
    moreover have "cpq_heapifyup ht q i = cpq_heapifyup ht ?q (par i)"
      using True by (subst cpq_heapifyup.simps) (simp add: heap_parent_def Let_def)
    moreover have "heapifyup (cpq_le ht q) (heap q) i =
        heapifyup (cpq_le ht q) (heap_swap (heap q) i (par i)) (par i)"
      using True by (subst heapifyup.simps) (simp add: heap_parent_def)
    ultimately show ?thesis using s cpq_le_same [OF s] by (simp add: same_nodes_def)
  next
    case False
    then have "cpq_heapifyup ht q i = q"
      by (subst cpq_heapifyup.simps) (auto simp: heap_parent_def)
    moreover have "heapifyup (cpq_le ht q) (heap q) i = heap q"
      using False by (subst heapifyup.simps) (auto simp: heap_parent_def)
    ultimately show ?thesis using less.prems by (simp add: same_nodes_def)
  qed
qed

lemma cpq_heapifydown_spec:
  "pos_ok q \<Longrightarrow>
   pos_ok (cpq_heapifydown ht q i) \<and> same_nodes q (cpq_heapifydown ht q i) \<and>
   heap (cpq_heapifydown ht q i) = heapifydown (cpq_le ht q) (heap q) i"
proof (induction "length (heap q) - i" arbitrary: q i rule: less_induct)
  case less
  show ?case
  proof (cases "heap_smaller (cpq_le ht q) (heap q) i")
    case None
    then have "cpq_heapifydown ht q i = q" "heapifydown (cpq_le ht q) (heap q) i = heap q"
      by (subst cpq_heapifydown.simps, auto) (subst heapifydown.simps, auto)
    with less.prems show ?thesis by (simp add: same_nodes_def)
  next
    case (Some s)
    let ?q = "cpq_set_index s (heap q ! i) (cpq_set_index i (heap q ! s) q)"
    have b: "i < s" "s < length (heap q)" using heap_smaller_bounds [OF Some] by auto
    have sn: "same_nodes q ?q" by (intro same_nodes_set_index) (simp add: same_nodes_def)
    have "pos_ok ?q" "heap ?q = heap_swap (heap q) s i"
      using swap_pos_ok [OF less.prems b(2), of i ?q] b by auto
    moreover have "heap_swap (heap q) s i = heap_swap (heap q) i s"
      using b by (simp add: heap_swap_def list_update_swap)
    ultimately have "pos_ok ?q" and h: "heap ?q = heap_swap (heap q) i s" by simp_all
    with less.hyps [of ?q s] b have
      "pos_ok (cpq_heapifydown ht ?q s) \<and> same_nodes ?q (cpq_heapifydown ht ?q s) \<and>
       heap (cpq_heapifydown ht ?q s) = heapifydown (cpq_le ht ?q) (heap_swap (heap q) i s) s"
      by simp
    moreover have "cpq_heapifydown ht q i = cpq_heapifydown ht ?q s"
      using Some by (subst cpq_heapifydown.simps) (simp add: Let_def)
    moreover have "heapifydown (cpq_le ht q) (heap q) i =
        heapifydown (cpq_le ht q) (heap_swap (heap q) i s) s"
      using Some by (subst heapifydown.simps) simp
    ultimately show ?thesis using sn cpq_le_same [OF sn] by (simp add: same_nodes_def)
  qed
qed

text \<open>The invariant of the node queue.\<close>

definition cpq_inv :: "heap_type \<Rightarrow> 'n cpq \<Rightarrow> bool" where
  "cpq_inv ht q \<longleftrightarrow> pos_ok q \<and> (\<forall>n. in_pq q n \<longleftrightarrow> n \<in> set (heap q)) \<and>
     heap_ordered (cpq_le ht q) (heap q) \<and> list_all (cpq_ok ht q) (heap q)"

lemma cpq_ok_same: "same_nodes q q' \<Longrightarrow> cpq_ok ht q' = cpq_ok ht q"
  by (auto simp: same_nodes_def cpq_ok_def fun_eq_iff)

text \<open>The queue after a sift: the same nodes, in order again.\<close>

lemma sift_inv:
  assumes "pos_ok q'" and s: "same_nodes q q'" and m: "mset (heap q') = mset (heap q)"
    and o: "heap_ordered (cpq_le ht q) (heap q')" and ok: "list_all (cpq_ok ht q) (heap q)"
    and mem: "\<And>n. in_pq q n \<longleftrightarrow> n \<in> set (heap q)"
  shows "cpq_inv ht q' \<and> set (heap q') = set (heap q) \<and> prio_of q' = prio_of q"
proof -
  have set: "set (heap q') = set (heap q)" using m by (metis set_mset_mset)
  with assms show ?thesis
    using cpq_le_same [OF s] cpq_ok_same [OF s] by (auto simp: cpq_inv_def list_all_iff same_nodes_def)
qed

lemma cpq_insert_inv:
  assumes q: "cpq_inv ht q" and n: "\<not> in_pq q n" and p: "heap_prio_ok ht p"
  shows "\<exists>q'. cpq_insert ht n p q = Inr q' \<and> cpq_inv ht q' \<and> set (heap q') = insert n (set (heap q)) \<and>
    prio_of q' = (prio_of q)(n := p)"
proof -
  define q2 where "q2 = q\<lparr>prio_of := (prio_of q)(n := p), in_pq := (in_pq q)(n := True),
      heap := heap q @ [n], pos_of := (pos_of q)(n := length (heap q))\<rparr>"
  have new: "n \<notin> set (heap q)" using q n by (simp add: cpq_inv_def)
  have le: "cpq_le ht q2 x y = cpq_le ht q x y" if "x \<noteq> n" "y \<noteq> n" for x y
    using that by (simp add: cpq_le_def q2_def)
  have po: "pos_ok q2"
    using q new by (auto simp: cpq_inv_def pos_ok_def q2_def nth_append less_Suc_eq)
  have ho: "heap_ordered (cpq_le ht q2) (heap q)"
  proof -
    have "cpq_le ht q2 (heap q ! par i) (heap q ! i)" if "i < length (heap q)" "0 < i" for i
    proof -
      have "heap q ! i \<noteq> n" "heap q ! par i \<noteq> n" using new that nth_mem [of i "heap q"] nth_mem [of "par i" "heap q"]
        by auto
      then show ?thesis using q that le by (simp add: cpq_inv_def heap_ordered_def)
    qed
    then show ?thesis by (simp add: heap_ordered_def)
  qed
  have ok: "list_all (cpq_ok ht q2) (heap q2)"
    using q p new by (auto simp: cpq_inv_def list_all_iff cpq_ok_def q2_def)
  have h2: "heap q2 = heap q @ [n]" and len: "length (heap q) < length (heap q2)" by (simp_all add: q2_def)
  let ?q' = "cpq_heapifyup ht q2 (length (heap q))"
  note sp = cpq_heapifyup_spec [OF len po, of ht]
  have "heap_ordered (cpq_le ht q2) (heap ?q')"
    unfolding sp [THEN conjunct2, THEN conjunct2]
    using len ok by (intro cq.heapifyup_ordered) (simp_all add: h2 cq.append_up_inv [OF ho])
  with sp len ok have "cpq_inv ht ?q' \<and> set (heap ?q') = set (heap q2) \<and> prio_of ?q' = prio_of q2"
    using q by (intro sift_inv) (auto simp: heapifyup_mset q2_def cpq_inv_def)
  moreover have "cpq_insert ht n p q = Inr ?q'"
    using n by (simp add: cpq_insert_def Let_def q2_def)
  ultimately show ?thesis by (simp add: q2_def)
qed

text \<open>Taking an object out leaves a hole that the last object fills.\<close>

lemma fill_hole:
  assumes q: "pos_ok q" and h: "heap q = ys @ [t]" and i: "i < length ys"
    and q': "heap q' = ys[i := t]" "pos_of q' = (pos_of q)(t := i)"
  shows "pos_ok q'" and "set (ys[i := t]) = set (heap q) - {ys ! i}"
proof -
  have d: "distinct ys" "t \<notin> set ys" and pos: "\<And>k. k < length ys \<Longrightarrow> pos_of q (ys ! k) = k"
    using q h by (auto simp: pos_ok_def nth_append less_Suc_eq all_conj_distrib)
  have "ys ! k \<noteq> t" if "k < length ys" for k using d that by (auto simp: in_set_conv_nth)
  then show "pos_ok q'"
    using d pos i by (auto simp: pos_ok_def q' nth_list_update distinct_list_update)
  show "set (ys[i := t]) = set (heap q) - {ys ! i}"
    using d i by (auto simp: h set_update_distinct)
qed

lemma cpq_last_removed:
  assumes q: "cpq_inv ht q" and h: "heap q = ys @ [t]"
  shows "cpq_inv ht (q\<lparr>heap := ys, in_pq := (in_pq q)(t := False)\<rparr>)"
proof -
  have "heap_ordered (cpq_le ht q) ys"
    using q cq.ordered_butlast [of ht q "heap q"] by (simp add: cpq_inv_def h)
  moreover have "distinct ys" "t \<notin> set ys" using q h by (auto simp: cpq_inv_def pos_ok_def)
  moreover have "pos_of q (ys ! k) = k" if "k < length ys" for k
    using q h that unfolding cpq_inv_def pos_ok_def by (auto simp: nth_append split: if_splits dest: spec [of _ k])
  ultimately show ?thesis
    using q h by (auto simp: cpq_inv_def pos_ok_def cpq_le_def cpq_ok_def heap_ordered_def list_all_iff)
qed

lemma cpq_sift_hole:
  assumes q: "cpq_inv ht q" and h: "heap q = ys @ [t]" and i: "i < length ys"
    and q2: "q2 = q\<lparr>heap := ys[i := t], pos_of := (pos_of q)(t := i), in_pq := (in_pq q)(ys ! i := False)\<rparr>"
    and up: "up \<Longrightarrow> 0 < i \<and> cpq_le ht q t (ys ! par i)"
    and down: "\<not> up \<Longrightarrow> 0 < i \<Longrightarrow> cpq_le ht q (ys ! par i) t"
    and q': "q' = (if up then cpq_heapifyup ht q2 i else cpq_heapifydown ht q2 i)"
  shows "cpq_inv ht q' \<and> set (heap q') = set (heap q) - {ys ! i} \<and> prio_of q' = prio_of q"
proof -
  have "pos_ok q" using q by (simp add: cpq_inv_def)
  note f = fill_hole [OF this h i, of q2]
  have po: "pos_ok q2" and set: "set (heap q2) = set (heap q) - {ys ! i}" using f by (auto simp: q2)
  have le: "cpq_le ht q2 = cpq_le ht q" and okp: "cpq_ok ht q2 = cpq_ok ht q"
    by (auto simp: q2 cpq_le_def cpq_ok_def fun_eq_iff)
  have ok: "list_all (cpq_ok ht q2) (heap q2)"
    using q set by (auto simp: cpq_inv_def list_all_iff okp)
  have ho: "heap_ordered (cpq_le ht q) ys"
    using q cq.ordered_butlast [of ht q "heap q"] by (simp add: cpq_inv_def h)
  have mem: "in_pq q2 n \<longleftrightarrow> n \<in> set (heap q2)" for n
    using q set by (auto simp: cpq_inv_def q2)
  have "heap_ordered (cpq_le ht q2) (heap q') \<and> mset (heap q') = mset (heap q2) \<and> pos_ok q' \<and> same_nodes q2 q'"
  proof (cases up)
    case True
    have "up_inv (cpq_le ht q2) (heap q2) i"
      using up [OF True] i ho by (simp add: q2 le [unfolded q2] cq.replace_up_inv)
    then show ?thesis
      using True cpq_heapifyup_spec [of i q2 ht] po ok i
      by (simp add: q' q2 heapifyup_mset cq.heapifyup_ordered)
  next
    case False
    have "down_inv (cpq_le ht q2) (heap q2) i"
      using down [OF False] i ho by (simp add: q2 le [unfolded q2] cq.replace_down_inv)
    then show ?thesis
      using False cpq_heapifydown_spec [of q2 ht i] po ok
      by (simp add: q' heapifydown_mset cq.heapifydown_ordered)
  qed
  with ok mem sift_inv [of q' q2 ht] set show ?thesis by (auto simp: q2)
qed

lemma cpq_update_order:
  "q\<lparr>in_pq := f, heap := h\<rparr> = q\<lparr>heap := h, in_pq := f\<rparr>"
  "q\<lparr>in_pq := f, pos_of := g\<rparr> = q\<lparr>pos_of := g, in_pq := f\<rparr>"
  "q\<lparr>pos_of := g, heap := h\<rparr> = q\<lparr>heap := h, pos_of := g\<rparr>"
  by simp_all

lemma cpq_heapifydown_in_pq:
  "cpq_heapifydown ht (q\<lparr>in_pq := f\<rparr>) i = (cpq_heapifydown ht q i)\<lparr>in_pq := f\<rparr>"
proof (induction ht q i rule: cpq_heapifydown.induct)
  case (1 ht q i)
  have [simp]: "cpq_le ht (q\<lparr>in_pq := f\<rparr>) = cpq_le ht q" by (simp add: cpq_le_def fun_eq_iff)
  show ?case
    using 1 by (subst (1 2) cpq_heapifydown.simps)
      (auto simp: Let_def cpq_set_index_def cpq_update_order split: option.split)
qed

lemma cpq_heapifydown_Nil: "heap q = [] \<Longrightarrow> cpq_heapifydown ht q i = q"
  by (subst cpq_heapifydown.simps) (simp add: heap_smaller_def heap_left_def)

lemma in_pq_update_eq: "in_pq (cpq_heapifydown ht q i) = in_pq q"
proof (induction ht q i rule: cpq_heapifydown.induct)
  case (1 ht q i)
  then show ?case
    by (subst cpq_heapifydown.simps) (auto simp: Let_def cpq_set_index_def split: option.split)
qed

lemma cpq_pop_refines:
  assumes q: "cpq_inv ht q" and ne: "heap q \<noteq> []"
  shows "\<exists>q'. cpq_pop ht q = Inr (Some (heap q ! 0), q') \<and> cpq_inv ht q' \<and>
    set (heap q') = set (heap q) - {heap q ! 0} \<and> prio_of q' = prio_of q"
proof -
  obtain ys t where h: "heap q = ys @ [t]" using ne by (cases "heap q" rule: rev_cases) auto
  have inq: "in_pq q (heap q ! 0)" using q ne by (auto simp: cpq_inv_def)
  show ?thesis
  proof (cases "ys = []")
    case True
    let ?q = "q\<lparr>pos_of := (pos_of q)(t := 0), heap := [], in_pq := (in_pq q)(t := False)\<rparr>"
    have "cpq_pop ht q = Inr (Some t, ?q)"
      using True h inq by (simp add: cpq_pop_def Let_def cpq_heapifydown_Nil)
    moreover have "cpq_inv ht ?q"
      using q True by (auto simp: cpq_inv_def pos_ok_def heap_ordered_def h)
    ultimately show ?thesis using True h by auto
  next
    case False
    then have y: "0 < length ys" "heap q ! 0 = ys ! 0" by (simp_all add: h nth_append)
    let ?q3 = "q\<lparr>heap := ys[0 := t], pos_of := (pos_of q)(t := 0)\<rparr>"
    let ?f = "(in_pq q)(ys ! 0 := False)"
    let ?q' = "cpq_heapifydown ht (?q3\<lparr>in_pq := ?f\<rparr>) 0"
    have "q\<lparr>heap := ys[0 := t], pos_of := (pos_of q)(t := 0), in_pq := ?f\<rparr> = ?q3\<lparr>in_pq := ?f\<rparr>" by simp
    then have "cpq_inv ht ?q' \<and> set (heap ?q') = set (heap q) - {ys ! 0} \<and> prio_of ?q' = prio_of q"
      using y by (intro cpq_sift_hole [OF q h y(1) refl, where up = False]) simp_all
    moreover have "cpq_pop ht q = Inr (Some (heap q ! 0), ?q')"
      using y inq False
      by (simp add: cpq_pop_def Let_def h list_update_append nth_append in_pq_update_eq
          cpq_heapifydown_in_pq cpq_update_order butlast_append del: append_is_Nil_conv)
    ultimately show ?thesis using y by auto
  qed
qed

lemma cpq_remove_refines:
  assumes q: "cpq_inv ht q" and obj: "in_pq q obj"
  shows "\<exists>q'. cpq_remove ht obj q = Inr q' \<and> cpq_inv ht q' \<and>
    set (heap q') = set (heap q) - {obj} \<and> prio_of q' = prio_of q"
proof -
  have mem: "obj \<in> set (heap q)" using q obj by (simp add: cpq_inv_def)
  then obtain ys t where h: "heap q = ys @ [t]" by (cases "heap q" rule: rev_cases) auto
  obtain i where i: "i < length (heap q)" "heap q ! i = obj" using mem by (auto simp: in_set_conv_nth)
  then have pos: "pos_of q obj = i" using q by (auto simp: cpq_inv_def pos_ok_def)
  show ?thesis
  proof (cases "i = length ys")
    case True
    then have t: "t = obj" using i h by simp
    have "t \<notin> set ys" using q h by (simp add: cpq_inv_def pos_ok_def)
    with cpq_last_removed [OF q h] t show ?thesis
      using True pos by (auto simp: cpq_remove_def Let_def h)
  next
    case False
    then have y: "i < length ys" "ys ! i = obj" using i h by (auto simp: nth_append)
    let ?q2 = "q\<lparr>heap := ys[i := t], pos_of := (pos_of q)(t := i), in_pq := (in_pq q)(ys ! i := False)\<rparr>"
    have le: "cpq_le ht ?q2 = cpq_le ht q" by (simp add: cpq_le_def fun_eq_iff)
    let ?up = "0 < i \<and> cpq_le ht q t (ys ! par i)"
    let ?q' = "if ?up then cpq_heapifyup ht ?q2 i else cpq_heapifydown ht ?q2 i"
    have "par i < length ys" using y by auto
    then have "cpq_ok ht q t" "cpq_ok ht q (ys ! par i)" using q by (auto simp: cpq_inv_def list_all_iff h)
    then have "cpq_inv ht ?q' \<and> set (heap ?q') = set (heap q) - {ys ! i} \<and> prio_of ?q' = prio_of q"
      by (intro cpq_sift_hole [OF q h y(1) refl]) (auto dest: cq.le_total)
    moreover have "cpq_set_index i t (q\<lparr>heap := ys, in_pq := (in_pq q)(obj := False)\<rparr>) = ?q2"
      using y by (simp add: cpq_set_index_def)
    then have "cpq_remove ht obj q = Inr ?q'"
      using y False pos le by (auto simp: cpq_remove_def Let_def h heap_parent_def)
    ultimately show ?thesis using y by auto
  qed
qed

text \<open>\<open>pop\<close> of the node queue returns a node of least priority, takes exactly that node out,
  leaves the stored positions, the membership flags and the order right, and answers NULL on an
  empty queue.\<close>

theorem cpq_pop_takes_least:
  assumes "cpq_inv ht q"
  shows "if heap q = [] then cpq_pop ht q = Inr (None, q)
    else \<exists>n q'. cpq_pop ht q = Inr (Some n, q') \<and> in_pq q n \<and> (\<forall>m. in_pq q m \<longrightarrow> cpq_le ht q n m) \<and>
      cpq_inv ht q' \<and> (\<forall>m. in_pq q' m \<longleftrightarrow> in_pq q m \<and> m \<noteq> n)"
proof (cases "heap q = []")
  case True
  then show ?thesis by (simp add: cpq_pop_def)
next
  case False
  have "cpq_le ht q (heap q ! 0) m" if "in_pq q m" for m
    using assms that cq.root_least [of ht q "heap q"] by (auto simp: cpq_inv_def in_set_conv_nth)
  with cpq_pop_refines [OF assms False] False assms show ?thesis
    by (auto simp: cpq_inv_def)
qed

definition cpq_example :: "nat cpq" where
  "cpq_example = \<lparr>heap = [1, 4, 2], prio_of = (\<lambda>n. word_of_nat n), pos_of = (\<lambda>n. if n = 4 then 1 else if n = 2 then 2 else 0),
     in_pq = (\<lambda>n. n = 1 \<or> n = 2 \<or> n = 4)\<rparr>"

lemma heap_ordered_three: "heap_ordered le [a, b, c] \<longleftrightarrow> le a b \<and> le a c"
  by (auto simp: heap_ordered_def less_Suc_eq)

lemma cpq_example_inv: "cpq_inv HEAP_INT_ASC cpq_example"
proof -
  have "heap_ordered (cpq_le HEAP_INT_ASC cpq_example) [1, 4, 2]"
    unfolding heap_ordered_three
    by (simp add: cpq_le_def heap_compare_def int_priority_def cpq_example_def)
  then show ?thesis
    by (auto simp: cpq_inv_def pos_ok_def cpq_ok_def heap_prio_ok_def cpq_example_def less_Suc_eq)
qed

theorem cpq_pop_takes_least_witness:
  "\<exists>n q'. cpq_pop HEAP_INT_ASC cpq_example = Inr (Some n, q') \<and> cpq_inv HEAP_INT_ASC q' \<and> \<not> in_pq q' n"
  using cpq_pop_takes_least [OF cpq_example_inv] by (auto simp: cpq_example_def)

text \<open>Moving a queued node to a new priority always succeeds: the node stays queued, with the new
  priority, every other node keeps its own, and the invariant holds again (the new position may be
  above or below the old one).\<close>

theorem cpq_move_node_correct:
  assumes "cpq_inv ht q" and "in_pq q n" and "heap_prio_ok ht p"
  shows "\<exists>q'. cpq_move_node ht n p q = Inr q' \<and> cpq_inv ht q' \<and> set (heap q') = set (heap q) \<and>
    prio_of q' = (prio_of q)(n := p)"
proof -
  obtain q1 where r: "cpq_remove ht n q = Inr q1" "cpq_inv ht q1" "set (heap q1) = set (heap q) - {n}"
      "prio_of q1 = prio_of q"
    using cpq_remove_refines [OF assms(1,2)] by auto
  have n: "n \<in> set (heap q)" and nq: "\<not> in_pq q1 n" using assms(1,2) r by (auto simp: cpq_inv_def)
  obtain q2 where "cpq_insert ht n p q1 = Inr q2" "cpq_inv ht q2" "set (heap q2) = insert n (set (heap q1))"
      "prio_of q2 = (prio_of q1)(n := p)"
    using cpq_insert_inv [OF r(2) nq assms(3)] by auto
  with r n show ?thesis by (simp add: cpq_move_node_def insert_absorb)
qed

theorem cpq_move_node_correct_witness:
  "\<exists>q'. cpq_move_node HEAP_INT_ASC 2 0 cpq_example = Inr q' \<and> cpq_inv HEAP_INT_ASC q' \<and>
    set (heap q') = {1, 2, 4}"
  using cpq_move_node_correct [OF cpq_example_inv, of 2 0] by (auto simp: cpq_example_def heap_prio_ok_def)

end
