(* ===== verification/Aggregates.thy ===== *)
theory Aggregates
  imports Trie_Match
begin

text \<open>
  Aggregates: \<open>db/agg_configuration.hpp\<close> and \<open>.cpp\<close> (the facts that agree before the
  aggregated field, and the aggregate last generated from them),
  \<open>db/tuple_aggregate.hpp\<close> and \<open>.cpp\<close> with the \<open>agg_trie\<close> of \<open>db/trie.cpp\<close> (one
  configuration per group). The addition of doubles is the argument \<open>fadd\<close>.
\<close>

section \<open>Configurations\<close>

record agg_configuration =
  agg_changed :: bool
  corresponds :: "vtuple option"
  vals :: "simple_tuple trie"

definition new_agg_configuration :: agg_configuration where
  "new_agg_configuration = \<lparr>agg_changed = False, corresponds = None, vals = new_trie\<rparr>"

definition agg_is_empty :: "agg_configuration \<Rightarrow> bool" where
  "agg_is_empty c \<longleftrightarrow> number_of_references (vals c) = 0"

definition agg_add_to_set :: "hashes \<Rightarrow> vtuple \<Rightarrow> 16 word \<Rightarrow> agg_configuration \<Rightarrow> agg_configuration res" where
  "agg_add_to_set hs tpl many c =
     (if many = 0 then Inl Assert_Failed
      else if 0 <s many then
        res_bind (insert_tuple hs tpl many (vals c)) (\<lambda>(is_new, t).
        if number_of_references t = number_of_references (vals c) + sint many
        then Inr (c\<lparr>agg_changed := True, vals := t\<rparr>) else Inl Assert_Failed)
      else res_bind (delete_commit hs tpl (- many) (vals c)) (\<lambda>t. Inr (c\<lparr>agg_changed := True, vals := t\<rparr>)))"

text \<open>The tuple the iterator stands on at \<open>begin()\<close>; an assertion guards the end.\<close>

definition first_stored :: "agg_configuration \<Rightarrow> simple_tuple res" where
  "first_stored c = (case leaves (vals c) of [] \<Rightarrow> Inl Assert_Failed | (j, s) # ls \<Rightarrow> Inr s)"

definition agg_test :: "vtuple \<Rightarrow> field_num \<Rightarrow> agg_configuration \<Rightarrow> bool res" where
  "agg_test tpl field c =
     (if agg_is_empty c then Inr False
      else res_bind (first_stored c) (\<lambda>s. fields_equal_loop tpl (st_data s) [0..<field]))"

text \<open>Typed access to a field of the union.\<close>

definition get_int :: "field_num \<Rightarrow> vtuple \<Rightarrow> int_val res" where
  "get_int i t = (if i < length (tpl_fields t) then (case tpl_fields t ! i of FInt v \<Rightarrow> Inr v | _ \<Rightarrow> Inl Bad_Access)
                  else Inl Bad_Access)"

definition get_float :: "field_num \<Rightarrow> vtuple \<Rightarrow> float_val res" where
  "get_float i t = (if i < length (tpl_fields t) then (case tpl_fields t ! i of FFloat v \<Rightarrow> Inr v | _ \<Rightarrow> Inl Bad_Access)
                    else Inl Bad_Access)"

definition get_float_list :: "field_num \<Rightarrow> vtuple \<Rightarrow> float_val list res" where
  "get_float_list i t = (if i < length (tpl_fields t) then (case tpl_fields t ! i of FLFloat v \<Rightarrow> Inr v | _ \<Rightarrow> Inl Bad_Access)
                         else Inl Bad_Access)"

definition set_field :: "field_num \<Rightarrow> fval \<Rightarrow> vtuple \<Rightarrow> vtuple" where
  "set_field i v t = t\<lparr>tpl_fields := (tpl_fields t)[i := v]\<rparr>"

definition matches_first_int_arg :: "int_val \<Rightarrow> agg_configuration \<Rightarrow> bool res" where
  "matches_first_int_arg val c =
     (if agg_is_empty c then Inr False
      else res_bind (first_stored c) (\<lambda>s. res_bind (get_int 0 (st_data s)) (\<lambda>v. Inr (v = val))))"

section \<open>Generation\<close>

text \<open>
  The four loops for the extreme values differ in the accessor and the comparison of the
  value held against the next one.
\<close>

fun best_loop ::
  "(vtuple \<Rightarrow> 'v res) \<Rightarrow> ('v \<Rightarrow> 'v \<Rightarrow> bool) \<Rightarrow> (nat \<times> simple_tuple) list \<Rightarrow> 'v \<Rightarrow> vtuple \<Rightarrow> vtuple res" where
  "best_loop get worse [] best_val best_tpl = Inr best_tpl"
| "best_loop get worse ((j, s) # ls) best_val best_tpl =
     res_bind (get (st_data s)) (\<lambda>v.
       if worse best_val v then best_loop get worse ls v (st_data s)
       else best_loop get worse ls best_val best_tpl)"

definition generate_best :: "(vtuple \<Rightarrow> 'v res) \<Rightarrow> ('v \<Rightarrow> 'v \<Rightarrow> bool) \<Rightarrow> agg_configuration \<Rightarrow> vtuple res" where
  "generate_best get worse c =
     (case leaves (vals c) of
        [] \<Rightarrow> Inl Assert_Failed
      | (j, s) # ls \<Rightarrow>
          res_bind (get (st_data s)) (\<lambda>v.
          res_bind (best_loop get worse ls v (st_data s)) (\<lambda>t. tuple_copy t)))"

definition generate_max_int :: "field_num \<Rightarrow> agg_configuration \<Rightarrow> vtuple res" where
  "generate_max_int field = generate_best (get_int field) (\<lambda>max_val v. max_val <s v)"

definition generate_min_int :: "field_num \<Rightarrow> agg_configuration \<Rightarrow> vtuple res" where
  "generate_min_int field = generate_best (get_int field) (\<lambda>min_val v. v <s min_val)"

definition generate_max_float :: "field_num \<Rightarrow> agg_configuration \<Rightarrow> vtuple res" where
  "generate_max_float field = generate_best (get_float field) (\<lambda>max_val v. float_lt max_val v)"

definition generate_min_float :: "field_num \<Rightarrow> agg_configuration \<Rightarrow> vtuple res" where
  "generate_min_float field = generate_best (get_float field) (\<lambda>min_val v. float_lt v min_val)"

text \<open>The inner loop adds a value once per reference; the outer one goes over the leaves.\<close>

fun add_times :: "('v \<Rightarrow> 'v \<Rightarrow> 'v) \<Rightarrow> nat \<Rightarrow> 'v \<Rightarrow> 'v \<Rightarrow> 'v" where
  "add_times add 0 v acc = acc"
| "add_times add (Suc n) v acc = add_times add n v (add acc v)"

fun sum_loop :: "(vtuple \<Rightarrow> 'v res) \<Rightarrow> ('v \<Rightarrow> 'v \<Rightarrow> 'v) \<Rightarrow> (nat \<times> simple_tuple) list \<Rightarrow> 'v \<Rightarrow> 'v res" where
  "sum_loop get add [] acc = Inr acc"
| "sum_loop get add ((j, s) # ls) acc =
     (let n = nat (sint (st_count s))
      in if n = 0 then sum_loop get add ls acc
         else res_bind (get (st_data s)) (\<lambda>v. sum_loop get add ls (add_times add n v acc)))"

definition generate_sum_int :: "field_num \<Rightarrow> agg_configuration \<Rightarrow> vtuple res" where
  "generate_sum_int field c =
     res_bind (first_stored c) (\<lambda>s. res_bind (tuple_copy (st_data s)) (\<lambda>ret.
     res_bind (sum_loop (get_int field) (+) (leaves (vals c)) 0) (\<lambda>acc. Inr (set_field field (FInt acc) ret))))"

definition generate_sum_float :: "(float_val \<Rightarrow> float_val \<Rightarrow> float_val) \<Rightarrow> field_num \<Rightarrow> agg_configuration \<Rightarrow> vtuple res" where
  "generate_sum_float fadd field c =
     res_bind (first_stored c) (\<lambda>s. res_bind (tuple_copy (st_data s)) (\<lambda>ret.
     res_bind (sum_loop (get_float field) fadd (leaves (vals c)) 0) (\<lambda>acc. Inr (set_field field (FFloat acc) ret))))"

definition generate_first :: "agg_configuration \<Rightarrow> vtuple res" where
  "generate_first c = res_bind (first_stored c) (\<lambda>s. tuple_copy (st_data s))"

text \<open>
  Lists are summed position by position. The array has one slot per reference; a slot
  beyond it is written, or one left over read, outside what the language defines; a
  negative count would be a huge \<open>size_t\<close>.
\<close>

fun collect_lists :: "field_num \<Rightarrow> nat \<Rightarrow> (nat \<times> simple_tuple) list \<Rightarrow> float_val list list res" where
  "collect_lists field len [] = Inr []"
| "collect_lists field len ((j, s) # ls) =
     (let n = nat (sint (st_count s))
      in if sint (st_count s) < 0 then Inl Bad_Access
         else if n = 0 then collect_lists field len ls
         else res_bind (get_float_list field (st_data s)) (\<lambda>l.
              if length l \<noteq> len then Inl Assert_Failed
              else res_bind (collect_lists field len ls) (\<lambda>rest. Inr (replicate n l @ rest))))"

fun sum_columns :: "(float_val \<Rightarrow> float_val \<Rightarrow> float_val) \<Rightarrow> nat \<Rightarrow> float_val list list \<Rightarrow> float_val list" where
  "sum_columns fadd 0 lss = []"
| "sum_columns fadd (Suc n) lss =
     foldl fadd 0 (map hd lss) # sum_columns fadd n (map tl lss)"

definition generate_sum_list_float :: "(float_val \<Rightarrow> float_val \<Rightarrow> float_val) \<Rightarrow> field_num \<Rightarrow> agg_configuration \<Rightarrow> vtuple res" where
  "generate_sum_list_float fadd field c =
     res_bind (first_stored c) (\<lambda>s. res_bind (get_float_list field (st_data s)) (\<lambda>first.
     res_bind (copy_except (st_data s) field) (\<lambda>ret.
     res_bind (collect_lists field (length first) (leaves (vals c))) (\<lambda>lss.
     if int (length lss) \<noteq> number_of_references (vals c) then Inl Bad_Access
     else Inr (set_field field (FLFloat (sum_columns fadd (length first) lss)) ret)))))"

definition do_generate ::
  "(float_val \<Rightarrow> float_val \<Rightarrow> float_val) \<Rightarrow> aggregate_type \<Rightarrow> field_num \<Rightarrow> agg_configuration \<Rightarrow> vtuple option res" where
  "do_generate fadd typ field c =
     (if agg_is_empty c then Inr None
      else res_bind
        (case typ of
           AGG_FIRST \<Rightarrow> generate_first c
         | AGG_MAX_INT \<Rightarrow> generate_max_int field c
         | AGG_MIN_INT \<Rightarrow> generate_min_int field c
         | AGG_SUM_INT \<Rightarrow> generate_sum_int field c
         | AGG_SUM_FLOAT \<Rightarrow> generate_sum_float fadd field c
         | AGG_MAX_FLOAT \<Rightarrow> generate_max_float field c
         | AGG_MIN_FLOAT \<Rightarrow> generate_min_float field c
         | AGG_SUM_LIST_FLOAT \<Rightarrow> generate_sum_list_float fadd field c
         | AGG_OTHER b \<Rightarrow> Inl Assert_Failed) (\<lambda>t. Inr (Some t)))"

text \<open>\<open>simple_tuple::create_new\<close> and \<open>remove_new\<close>.\<close>

definition create_new :: "vtuple \<Rightarrow> simple_tuple" where
  "create_new t = new_simple_tuple t 1"

definition remove_new :: "vtuple \<Rightarrow> simple_tuple" where
  "remove_new t = new_simple_tuple t (- 1)"

definition agg_difference :: "vtuple option \<Rightarrow> vtuple option \<Rightarrow> simple_tuple list res" where
  "agg_difference old generated =
     (case (old, generated) of
        (None, None) \<Rightarrow> Inr []
      | (None, Some g) \<Rightarrow> Inr [create_new g]
      | (Some c, None) \<Rightarrow> Inr [remove_new c]
      | (Some c, Some g) \<Rightarrow>
          res_bind (tuple_eq c g) (\<lambda>same. Inr (if \<not> same then [remove_new c, create_new g] else [])))"

definition agg_generate ::
  "(float_val \<Rightarrow> float_val \<Rightarrow> float_val) \<Rightarrow> aggregate_type \<Rightarrow> field_num \<Rightarrow> agg_configuration \<Rightarrow>
   (simple_tuple list \<times> agg_configuration) res" where
  "agg_generate fadd typ field c =
     res_bind (do_generate fadd typ field c) (\<lambda>generated.
     res_bind (agg_difference (corresponds c) generated) (\<lambda>out.
     Inr (out, c\<lparr>agg_changed := False, corresponds := generated\<rparr>)))"

section \<open>One configuration per group\<close>

text \<open>
  The leaves of an \<open>agg_trie\<close> hold a configuration, or none between creation and
  \<open>set_conf\<close>; they count as one reference, keep no count, and never ask to be deleted.
\<close>

type_synonym agg_trie = "agg_configuration option trie"

definition agg_leaf :: "agg_configuration option leaf_ops" where
  "agg_leaf = \<lparr>leaf_count = \<lambda>l. 1, leaf_add_count = \<lambda>n l. l, leaf_to_delete = \<lambda>l. False\<rparr>"

definition find_configuration :: "hashes \<Rightarrow> field_num \<Rightarrow> vtuple \<Rightarrow> agg_trie \<Rightarrow> (nat \<times> agg_trie) res" where
  "find_configuration hs field tpl t =
     (if length (tpl_fields tpl) < field then Inl Bad_Access
      else res_bind (check_insert agg_leaf hs None 1 (take field (tpl_fields tpl)) t) (\<lambda>(r, t').
        case r of
          None \<Rightarrow> Inl Bad_Access
        | Some (fnd, j) \<Rightarrow>
            if \<not> fnd
            then res_bind (int_add (number_of_references t') 1) (\<lambda>refs. Inr (j, t'\<lparr>number_of_references := refs\<rparr>))
            else Inr (j, t')))"

definition agg_trie_erase :: "nat \<Rightarrow> agg_trie \<Rightarrow> agg_trie res" where
  "agg_trie_erase j t = commit_delete agg_leaf j 1 t"

record tuple_aggregate =
  ta_pred :: predicate
  ta_vals :: agg_trie

definition new_tuple_aggregate :: "predicate \<Rightarrow> tuple_aggregate" where
  "new_tuple_aggregate p = \<lparr>ta_pred = p, ta_vals = new_trie\<rparr>"

definition aggregate_of :: "predicate \<Rightarrow> aggregate_info res" where
  "aggregate_of p = (case pred_agg p of None \<Rightarrow> Inl Bad_Access | Some a \<Rightarrow> Inr a)"

text \<open>The configuration it returns is the leaf, where the caller finds it.\<close>

definition ta_add_to_set :: "hashes \<Rightarrow> vtuple \<Rightarrow> 16 word \<Rightarrow> tuple_aggregate \<Rightarrow> (nat \<times> tuple_aggregate) res" where
  "ta_add_to_set hs tpl many ta =
     res_bind (aggregate_of (tpl_pred tpl)) (\<lambda>a.
     res_bind (find_configuration hs (agg_field a) tpl (ta_vals ta)) (\<lambda>(j, t).
     case map_of (leaves t) j of
       None \<Rightarrow> Inl Bad_Access
     | Some l \<Rightarrow>
         res_bind (agg_add_to_set hs tpl many (case l of None \<Rightarrow> new_agg_configuration | Some c \<Rightarrow> c)) (\<lambda>c.
         Inr (j, ta\<lparr>ta_vals := t\<lparr>leaves := update_leaf j (\<lambda>_. Some c) (leaves t)\<rparr>\<rparr>))))"

fun ta_generate_loop ::
  "(float_val \<Rightarrow> float_val \<Rightarrow> float_val) \<Rightarrow> aggregate_type \<Rightarrow> field_num \<Rightarrow> nat list \<Rightarrow> agg_trie \<Rightarrow>
   simple_tuple list \<Rightarrow> (simple_tuple list \<times> agg_trie) res" where
  "ta_generate_loop fadd typ field [] t ls = Inr (ls, t)"
| "ta_generate_loop fadd typ field (j # js) t ls =
     (case map_of (leaves t) j of
        Some (Some c) \<Rightarrow>
          res_bind (if agg_changed c then agg_generate fadd typ field c else Inr ([], c)) (\<lambda>(out, c').
          (let t' = t\<lparr>leaves := update_leaf j (\<lambda>_. Some c') (leaves t)\<rparr>
           in if agg_changed c' then Inl Assert_Failed
              else res_bind (if agg_is_empty c' then agg_trie_erase j t' else Inr t') (\<lambda>t''.
                   ta_generate_loop fadd typ field js t'' (ls @ out))))
      | _ \<Rightarrow> Inl Assert_Failed)"

definition ta_generate ::
  "(float_val \<Rightarrow> float_val \<Rightarrow> float_val) \<Rightarrow> tuple_aggregate \<Rightarrow> (simple_tuple list \<times> tuple_aggregate) res" where
  "ta_generate fadd ta =
     res_bind (aggregate_of (ta_pred ta)) (\<lambda>a.
     res_bind (ta_generate_loop fadd (agg_type a) (agg_field a) (map fst (leaves (ta_vals ta))) (ta_vals ta) [])
       (\<lambda>(ls, t). Inr (ls, ta\<lparr>ta_vals := t\<rparr>)))"

fun no_changes_loop :: "(nat \<times> agg_configuration option) list \<Rightarrow> bool res" where
  "no_changes_loop [] = Inr True"
| "no_changes_loop ((j, l) # ls) =
     (case l of
        None \<Rightarrow> Inl Bad_Access
      | Some c \<Rightarrow> if agg_changed c then Inr False else no_changes_loop ls)"

definition no_changes :: "tuple_aggregate \<Rightarrow> bool res" where
  "no_changes ta = no_changes_loop (leaves (ta_vals ta))"

definition ta_delete_by_index :: "hashes \<Rightarrow> match \<Rightarrow> tuple_aggregate \<Rightarrow> tuple_aggregate res" where
  "ta_delete_by_index hs m ta =
     res_bind (delete_by_index agg_leaf hs m (ta_vals ta)) (\<lambda>t. Inr (ta\<lparr>ta_vals := t\<rparr>))"

section \<open>Extreme values\<close>

text \<open>The loop keeps a value that no value seen so far beats.\<close>

lemma best_loop_spec:
  assumes total: "\<And>a b. worse a b \<longleftrightarrow> \<not> le b a" and lin: "\<And>a b. le a b \<or> le b a"
    and trans: "\<And>a b c. le a b \<Longrightarrow> le b c \<Longrightarrow> le a c"
  shows "\<forall>(j, s) \<in> set ls. is_ok (get (st_data s)) \<Longrightarrow> get t0 = Inr v0 \<Longrightarrow>
    \<exists>t v. best_loop get worse ls v0 t0 = Inr t \<and> get t = Inr v \<and> le v0 v \<and>
      (t = t0 \<or> t \<in> (st_data \<circ> snd) ` set ls) \<and> (\<forall>(j, s) \<in> set ls. \<forall>w. get (st_data s) = Inr w \<longrightarrow> le w v)"
proof (induction ls arbitrary: v0 t0)
  case Nil
  then show ?case using lin by auto
next
  case (Cons p ls)
  obtain j s where p: "p = (j, s)" by (cases p)
  from Cons.prems(1) p obtain w where w: "get (st_data s) = Inr w" by (auto simp: is_ok_iff)
  have ok: "\<forall>(j, s) \<in> set ls. is_ok (get (st_data s))" using Cons.prems(1) by simp
  show ?case
  proof (cases "worse v0 w")
    case True
    then have "le v0 w" using total lin by blast
    from Cons.IH [OF ok w] obtain t v where "best_loop get worse ls w (st_data s) = Inr t" "get t = Inr v" "le w v"
      "t = st_data s \<or> t \<in> (st_data \<circ> snd) ` set ls" "\<forall>(j, s) \<in> set ls. \<forall>w. get (st_data s) = Inr w \<longrightarrow> le w v" by blast
    with True w p \<open>le v0 w\<close> show ?thesis by (auto intro: trans)
  next
    case False
    then have "le w v0" using total by blast
    from Cons.IH [OF ok Cons.prems(2)] obtain t v where "best_loop get worse ls v0 t0 = Inr t" "get t = Inr v" "le v0 v"
      "t = t0 \<or> t \<in> (st_data \<circ> snd) ` set ls" "\<forall>(j, s) \<in> set ls. \<forall>w. get (st_data s) = Inr w \<longrightarrow> le w v" by blast
    with False w p \<open>le w v0\<close> show ?thesis by (auto intro: trans)
  qed
qed

text \<open>The facts of a configuration, and when they are integers in the aggregated field and can be copied.\<close>

definition facts :: "agg_configuration \<Rightarrow> vtuple list" where
  "facts c = map (st_data \<circ> snd) (leaves (vals c))"

definition int_group :: "field_num \<Rightarrow> agg_configuration \<Rightarrow> bool" where
  "int_group field c \<longleftrightarrow> \<not> agg_is_empty c \<and> facts c \<noteq> [] \<and>
     (\<forall>t \<in> set (facts c). wf_tuple t \<and> list_all wire_type (tpl_fields t) \<and> is_ok (get_int field t))"

definition int_of_field :: "field_num \<Rightarrow> vtuple \<Rightarrow> int" where
  "int_of_field field t = (case get_int field t of Inr v \<Rightarrow> sint v | Inl e \<Rightarrow> 0)"

lemma tuple_copy_wire:
  assumes "wf_tuple t" and "list_all wire_type (tpl_fields t)"
  shows "tuple_copy t = Inr t"
proof -
  have len: "num_fields (tpl_pred t) = length (tpl_fields t)"
    using assms(1) by (metis wf_tuple_def num_fields_def length_map)
  have "tuple_copy t = Inr ((new_tuple (tpl_pred t))\<lparr>tpl_fields :=
      map (\<lambda>i. if i \<in> set [0..<length (tpl_fields t)] \<and> \<not> False then tpl_fields t ! i else tpl_fields (new_tuple (tpl_pred t)) ! i)
        [0..<length (tpl_fields t)]\<rparr>)"
    unfolding tuple_copy_def len
    by (rule copy_fields_loop_spec) (use assms len in \<open>auto simp: list_all_length new_tuple_def num_fields_def\<close>)
  also have "map (\<lambda>i. if i \<in> set [0..<length (tpl_fields t)] \<and> \<not> False then tpl_fields t ! i else tpl_fields (new_tuple (tpl_pred t)) ! i)
        [0..<length (tpl_fields t)] = tpl_fields t"
    by (rule nth_equalityI) auto
  finally show ?thesis by (simp add: new_tuple_def)
qed

lemma generate_best_spec:
  assumes order: "\<And>a b. worse a b \<longleftrightarrow> \<not> le b a" "\<And>a b. le a b \<or> le b a" "\<And>a b c. le a b \<Longrightarrow> le b c \<Longrightarrow> le a c"
    and facts: "facts c \<noteq> []" "\<forall>t \<in> set (facts c). wf_tuple t \<and> list_all wire_type (tpl_fields t) \<and> is_ok (get t)"
  shows "\<exists>t v. generate_best get worse c = Inr t \<and> t \<in> set (facts c) \<and> get t = Inr v \<and>
    (\<forall>u \<in> set (facts c). \<forall>w. get u = Inr w \<longrightarrow> le w v)"
proof -
  obtain j s ls where ls: "leaves (vals c) = (j, s) # ls" using facts(1) by (cases "leaves (vals c)") (auto simp: facts_def)
  obtain v0 where v0: "get (st_data s) = Inr v0" using facts(2) ls by (auto simp: facts_def is_ok_iff)
  have "\<forall>(j, s) \<in> set ls. is_ok (get (st_data s))" using facts(2) ls by (fastforce simp: facts_def)
  then have "\<exists>t v. best_loop get worse ls v0 (st_data s) = Inr t \<and> get t = Inr v \<and> le v0 v \<and>
      (t = st_data s \<or> t \<in> (st_data \<circ> snd) ` set ls) \<and> (\<forall>(j, s) \<in> set ls. \<forall>w. get (st_data s) = Inr w \<longrightarrow> le w v)"
    by (rule best_loop_spec [where le = le, rotated 3]) (rule v0, rule order(1), rule order(2), erule (1) order(3))
  then obtain t v where t: "best_loop get worse ls v0 (st_data s) = Inr t" "get t = Inr v" "le v0 v"
    "t = st_data s \<or> t \<in> (st_data \<circ> snd) ` set ls" "\<forall>(j, s) \<in> set ls. \<forall>w. get (st_data s) = Inr w \<longrightarrow> le w v" by blast
  have mem: "t \<in> set (facts c)" using t(4) ls by (auto simp: facts_def)
  then have "tuple_copy t = Inr t" using facts(2) tuple_copy_wire by blast
  moreover have "\<forall>u \<in> set (facts c). \<forall>w. get u = Inr w \<longrightarrow> le w v"
    using t(3,5) v0 ls by (auto simp: facts_def)
  ultimately show ?thesis using t(1,2) mem ls v0 by (auto simp: generate_best_def)
qed

lemma set_facts: "set (facts c) = (\<lambda>(j, s). st_data s) ` set (leaves (vals c))"
  by (force simp: facts_def)

lemma generate_max_int_ok:
  assumes "int_group field c"
  shows "\<exists>t. generate_max_int field c = Inr t \<and> t \<in> set (facts c) \<and>
    int_of_field field t = Max (int_of_field field ` set (facts c))"
proof -
  have "\<exists>t v. generate_max_int field c = Inr t \<and> t \<in> set (facts c) \<and> get_int field t = Inr v \<and>
    (\<forall>u \<in> set (facts c). \<forall>w. get_int field u = Inr w \<longrightarrow> w \<le>s v)"
    unfolding generate_max_int_def
    by (rule generate_best_spec) (use assms in \<open>auto simp: int_group_def word_sless_alt word_sle_eq\<close>)
  then obtain t v where t: "generate_max_int field c = Inr t" "t \<in> set (facts c)" "get_int field t = Inr v"
    "\<forall>u \<in> set (facts c). \<forall>w. get_int field u = Inr w \<longrightarrow> w \<le>s v" by blast
  have "int_of_field field u \<le> int_of_field field t" if "u \<in> set (facts c)" for u
    using assms that t(3,4) by (auto simp: int_group_def is_ok_iff int_of_field_def word_sle_eq split: sum.splits)
  then have "int_of_field field t = Max (int_of_field field ` set (facts c))"
    by (intro Max_eqI [symmetric]) (use t(2) in auto)
  with t(1,2) show ?thesis by blast
qed

lemma generate_min_int_ok:
  assumes "int_group field c"
  shows "\<exists>t. generate_min_int field c = Inr t \<and> t \<in> set (facts c) \<and>
    int_of_field field t = Min (int_of_field field ` set (facts c))"
proof -
  have "\<exists>t v. generate_min_int field c = Inr t \<and> t \<in> set (facts c) \<and> get_int field t = Inr v \<and>
    (\<forall>u \<in> set (facts c). \<forall>w. get_int field u = Inr w \<longrightarrow> v \<le>s w)"
    unfolding generate_min_int_def
    by (rule generate_best_spec [where le = "\<lambda>w v. v \<le>s w"]) (use assms in \<open>auto simp: int_group_def word_sless_alt word_sle_eq\<close>)
  then obtain t v where t: "generate_min_int field c = Inr t" "t \<in> set (facts c)" "get_int field t = Inr v"
    "\<forall>u \<in> set (facts c). \<forall>w. get_int field u = Inr w \<longrightarrow> v \<le>s w" by blast
  have "int_of_field field t \<le> int_of_field field u" if "u \<in> set (facts c)" for u
    using assms that t(3,4) by (auto simp: int_group_def is_ok_iff int_of_field_def word_sle_eq split: sum.splits)
  then have "int_of_field field t = Min (int_of_field field ` set (facts c))"
    by (intro Min_eqI [symmetric]) (use t(2) in auto)
  with t(1,2) show ?thesis by blast
qed

section \<open>Sums\<close>

lemma add_times_int: "add_times (+) n (v :: int_val) acc = acc + of_nat n * v"
  by (induction n arbitrary: acc) (auto simp: algebra_simps)

lemma sum_loop_int:
  "\<forall>(j, s) \<in> set ls. is_ok (get_int field (st_data s)) \<and> 0 \<le> sint (st_count s) \<Longrightarrow>
   sum_loop (get_int field) (+) ls acc =
     Inr (acc + of_int (\<Sum>(j, s) \<leftarrow> ls. sint (st_count s) * int_of_field field (st_data s)))"
proof (induction ls arbitrary: acc)
  case (Cons p ls)
  obtain j s where p: "p = (j, s)" by (cases p)
  from Cons.prems p obtain v where v: "get_int field (st_data s) = Inr v" and n: "0 \<le> sint (st_count s)"
    by (auto simp: is_ok_iff)
  have "of_nat (nat (sint (st_count s))) * v = of_int (sint (st_count s) * sint v)"
    using n by (simp add: of_nat_nat)
  moreover have "st_count s = 0" if "sint (st_count s) = 0" using that by (simp add: signed_eq_0_iff)
  ultimately show ?case using Cons v n
    by (auto simp: p add_times_int int_of_field_def Let_def algebra_simps)
qed simp

lemma generate_sum_int_ok:
  assumes "int_group field c" and "\<forall>(j, s) \<in> set (leaves (vals c)). 0 \<le> sint (st_count s)"
  shows "generate_sum_int field c = Inr (set_field field
    (FInt (of_int (\<Sum>(j, s) \<leftarrow> leaves (vals c). sint (st_count s) * int_of_field field (st_data s)))) (hd (facts c)))"
proof -
  obtain j s ls where ls: "leaves (vals c) = (j, s) # ls" using assms(1) by (cases "leaves (vals c)") (auto simp: facts_def int_group_def)
  have "\<forall>(j, s) \<in> set (leaves (vals c)). is_ok (get_int field (st_data s)) \<and> 0 \<le> sint (st_count s)"
    using assms by (auto simp: int_group_def set_facts)
  from sum_loop_int [OF this, of 0] show ?thesis
    using assms(1) ls tuple_copy_wire [of "st_data s"]
    by (auto simp: generate_sum_int_def first_stored_def int_group_def facts_def)
qed

section \<open>What a configuration announces\<close>

text \<open>Equality of tuples of one predicate is symmetric and transitive.\<close>

lemma fval_equal_sym: "fval_equal a b = Inr True \<Longrightarrow> fval_equal b a = Inr True"
  by (cases "(a, b)" rule: fval_equal.cases) (auto simp: float_eq_sym list_all2_conv_all_nth)

lemma float_list_trans: "list_all2 float_eq xs ys \<Longrightarrow> list_all2 float_eq ys zs \<Longrightarrow> list_all2 float_eq xs zs"
  by (rule list_all2_trans [of float_eq float_eq float_eq]) (auto intro: float_eq_trans)

lemma fval_equal_trans: "fval_equal a b = Inr True \<Longrightarrow> fval_equal b c = Inr True \<Longrightarrow> fval_equal a c = Inr True"
  by (cases "(a, b)" rule: fval_equal.cases; cases "(b, c)" rule: fval_equal.cases)
    (auto intro: float_eq_trans float_list_trans)

lemma fields_equal_loop_iff:
  "fields_equal_loop t u is = Inr True \<longleftrightarrow> (\<forall>i \<in> set is. field_equal t u i = Inr True)"
  by (induction "is") (auto simp: res_bind_Inr_iff)

lemma tuple_eq_iff:
  "tuple_eq t u = Inr True \<longleftrightarrow> pred_id (tpl_pred t) = pred_id (tpl_pred u) \<and>
     (\<forall>i < num_fields (tpl_pred t). fval_equal (tpl_fields t ! i) (tpl_fields u ! i) = Inr True)"
  by (auto simp: tuple_eq_def fields_equal_loop_iff field_equal_def)

lemma tuple_eq_sym: "tpl_pred t = tpl_pred u \<Longrightarrow> tuple_eq t u = Inr True \<Longrightarrow> tuple_eq u t = Inr True"
  by (auto simp: tuple_eq_iff fval_equal_sym)

lemma tuple_eq_trans:
  "tpl_pred t = tpl_pred u \<Longrightarrow> tuple_eq t u = Inr True \<Longrightarrow> tuple_eq u w = Inr True \<Longrightarrow> tuple_eq t w = Inr True"
  by (auto simp: tuple_eq_iff intro: fval_equal_trans)

lemma tuple_eq_class:
  assumes "tpl_pred t = tpl_pred u" and "tuple_eq t u = Inr True"
  shows "tuple_eq t w = Inr True \<longleftrightarrow> tuple_eq u w = Inr True"
  using tuple_eq_trans [OF _ tuple_eq_sym [OF assms]] tuple_eq_trans [OF assms] assms(1) by auto

text \<open>Every tuple of a configuration is of its predicate, and so is what is generated from it.\<close>

definition conf_of :: "predicate \<Rightarrow> agg_configuration \<Rightarrow> bool" where
  "conf_of p c \<longleftrightarrow> (\<forall>t \<in> set (facts c). tpl_pred t = p) \<and> (\<forall>t. corresponds c = Some t \<longrightarrow> tpl_pred t = p)"

definition leaves_of :: "predicate \<Rightarrow> simple_tuple trie \<Rightarrow> bool" where
  "leaves_of p t \<longleftrightarrow> (\<forall>l \<in> set (leaves t). tpl_pred (st_data (snd l)) = p)"

lemma update_leaf_of: "leaves_of p t \<Longrightarrow> leaves_of p (t\<lparr>leaves := update_leaf j (st_add_count n) (leaves t)\<rparr>)"
  by (auto simp: leaves_of_def update_leaf_def st_add_count_def)

lemma check_insert_of:
  assumes "check_insert tuple_leaf hs (new_simple_tuple tpl n) n fs t = Inr (r, t')" and "leaves_of p t" and "tpl_pred tpl = p"
  shows "leaves_of p t'"
proof (cases "fs = []")
  case True
  show ?thesis
  proof (cases "root t")
    case (Leaf i)
    then show ?thesis using True assms update_leaf_of [OF assms(2), of i n] by (auto simp: check_insert_def tuple_leaf_def)
  qed (use True assms in \<open>auto simp: check_insert_def leaves_of_def new_simple_tuple_def\<close>)
next
  case False
  then obtain w where w: "check_insert_walk hs (next_leaf t) (n <s 0) fs (root t) = Inr w"
    using assms(1) by (auto simp: check_insert_def res_bind_Inr_iff)
  show ?thesis
  proof (cases w)
    case (Reached i)
    then show ?thesis using False w assms update_leaf_of [OF assms(2), of i n]
      by (auto simp: check_insert_def tuple_leaf_def Let_def split: if_splits)
  qed (use False w assms in \<open>auto simp: check_insert_def leaves_of_def new_simple_tuple_def\<close>)
qed

lemma inner_delete_of:
  "inner_delete_by_leaf tuple_leaf j n t = Inr t' \<Longrightarrow> leaves_of p t \<Longrightarrow> leaves_of p t'"
  using update_leaf_of [of p t j "- n"]
  by (auto simp: inner_delete_by_leaf_def tuple_leaf_def leaves_of_def remove_leaf_def Let_def
      split: if_splits option.splits)

lemma insert_tuple_of:
  assumes ins: "insert_tuple hs tpl n t = Inr (b, t')" and "leaves_of p t" and "tpl_pred tpl = p"
  shows "leaves_of p t'"
proof -
  obtain refs where i: "int_add (number_of_references t) (sint n) = Inr refs"
    using ins by (cases "int_add (number_of_references t) (sint n)") (auto simp: insert_tuple_def)
  let ?t = "t\<lparr>number_of_references := refs\<rparr>"
  show ?thesis
  proof (cases "check_insert tuple_leaf hs (new_simple_tuple tpl n) n (tpl_fields tpl) ?t")
    case (Inl e)
    then show ?thesis using ins i by (simp add: insert_tuple_def)
  next
    case (Inr rt)
    obtain r t0 where rt: "rt = (r, t0)" by (cases rt)
    have "leaves_of p ?t" using assms(2) by (simp add: leaves_of_def)
    from check_insert_of [OF Inr [unfolded rt] this assms(3)] have "leaves_of p t0" .
    moreover have "t' = t0"
      using ins i Inr rt by (cases r) (auto simp: insert_tuple_def split: if_splits)
    ultimately show ?thesis by simp
  qed
qed

lemma delete_tuple_of:
  assumes d: "delete_tuple hs tpl n t = Inr (info, t1)" and "leaves_of p t" and "tpl_pred tpl = p"
  shows "leaves_of p t1"
proof (cases "check_insert tuple_leaf hs (new_simple_tuple tpl (- n)) (- n) (tpl_fields tpl) t")
  case (Inl e)
  then show ?thesis using d by (simp add: delete_tuple_def split: if_splits)
next
  case (Inr rt)
  obtain r t0 where rt: "rt = (r, t0)" by (cases rt)
  have "leaves_of p t0" using check_insert_of [OF Inr [unfolded rt] assms(2,3)] .
  moreover have "leaves t1 = leaves t0"
    using d Inr rt by (cases r) (auto simp: delete_tuple_def res_bind_Inr_iff split: if_splits option.splits)
  ultimately show ?thesis by (simp add: leaves_of_def)
qed

lemma commit_delete_of:
  assumes c: "commit_delete tuple_leaf j m t = Inr t'" and "leaves_of p t"
  shows "leaves_of p t'"
proof -
  obtain refs where "inner_delete_by_leaf tuple_leaf j 0 (t\<lparr>number_of_references := refs\<rparr>) = Inr t'"
    using c by (auto simp: commit_delete_def res_bind_Inr_iff split: if_splits)
  moreover have "leaves_of p (t\<lparr>number_of_references := refs\<rparr>)" using assms(2) by (simp add: leaves_of_def)
  ultimately show ?thesis by (rule inner_delete_of)
qed

lemma delete_commit_of:
  assumes "delete_commit hs tpl n t = Inr t'" and "leaves_of p t" and "tpl_pred tpl = p"
  shows "leaves_of p t'"
proof -
  obtain info t1 where d: "delete_tuple hs tpl n t = Inr (info, t1)"
    and c: "(case info of No_Delete \<Rightarrow> Inr t1 | Delete j m \<Rightarrow> commit_delete tuple_leaf j m t1) = Inr t'"
    using assms(1) by (auto simp: delete_commit_def res_bind_Inr_iff)
  show ?thesis using c delete_tuple_of [OF d assms(2,3)] commit_delete_of by (cases info) auto
qed

lemma copy_fields_pred: "copy_fields_loop t skip is ret = Inr u \<Longrightarrow> tpl_pred u = tpl_pred ret"
  by (induction "is" arbitrary: ret) (auto simp: res_bind_Inr_iff copy_field_def split: if_splits)

lemma tuple_copy_pred: "tuple_copy t = Inr u \<Longrightarrow> tpl_pred u = tpl_pred t"
  by (auto simp: tuple_copy_def new_tuple_def dest: copy_fields_pred)

lemma copy_except_pred: "copy_except t field = Inr u \<Longrightarrow> tpl_pred u = tpl_pred t"
  by (auto simp: copy_except_def new_tuple_def dest: copy_fields_pred)

lemma best_loop_member: "best_loop get worse ls v t0 = Inr t \<Longrightarrow> t = t0 \<or> t \<in> (\<lambda>(j, s). st_data s) ` set ls"
  by (induction ls arbitrary: v t0) (fastforce simp: res_bind_Inr_iff split: if_splits)+

lemma generate_best_pred: "generate_best get worse c = Inr t \<Longrightarrow> leaves_of p (vals c) \<Longrightarrow> tpl_pred t = p"
  by (fastforce simp: generate_best_def res_bind_Inr_iff leaves_of_def split: list.splits dest!: tuple_copy_pred best_loop_member)

lemma first_stored_pred: "first_stored c = Inr s \<Longrightarrow> leaves_of p (vals c) \<Longrightarrow> tpl_pred (st_data s) = p"
  by (auto simp: first_stored_def leaves_of_def split: list.splits)

lemma do_generate_pred: "do_generate fadd typ field c = Inr (Some t) \<Longrightarrow> leaves_of p (vals c) \<Longrightarrow> tpl_pred t = p"
  by (auto simp: do_generate_def res_bind_Inr_iff generate_max_int_def generate_min_int_def generate_max_float_def
      generate_min_float_def generate_first_def generate_sum_int_def generate_sum_float_def generate_sum_list_float_def set_field_def
      split: if_splits aggregate_type.splits
      dest!: generate_best_pred tuple_copy_pred copy_except_pred dest: first_stored_pred)

text \<open>
  A configuration lives through additions, retractions (a negative count) and generations;
  what the generations emit is collected.
\<close>

datatype agg_op = Add vtuple "16 word" | Gen

fun agg_op_step ::
  "hashes \<Rightarrow> (float_val \<Rightarrow> float_val \<Rightarrow> float_val) \<Rightarrow> aggregate_type \<Rightarrow> field_num \<Rightarrow> agg_op \<Rightarrow>
   agg_configuration \<times> simple_tuple list \<Rightarrow> (agg_configuration \<times> simple_tuple list) res" where
  "agg_op_step hs fadd typ field (Add tpl many) (c, out) =
     res_bind (agg_add_to_set hs tpl many c) (\<lambda>c'. Inr (c', out))"
| "agg_op_step hs fadd typ field Gen (c, out) =
     res_bind (agg_generate fadd typ field c) (\<lambda>(new, c'). Inr (c', out @ new))"

fun agg_run ::
  "hashes \<Rightarrow> (float_val \<Rightarrow> float_val \<Rightarrow> float_val) \<Rightarrow> aggregate_type \<Rightarrow> field_num \<Rightarrow> agg_op list \<Rightarrow>
   agg_configuration \<times> simple_tuple list \<Rightarrow> (agg_configuration \<times> simple_tuple list) res" where
  "agg_run hs fadd typ field [] st = Inr st"
| "agg_run hs fadd typ field (x # xs) st =
     res_bind (agg_op_step hs fadd typ field x st) (agg_run hs fadd typ field xs)"

fun of_predicate :: "predicate \<Rightarrow> agg_op \<Rightarrow> bool" where
  "of_predicate p (Add tpl many) \<longleftrightarrow> tpl_pred tpl = p"
| "of_predicate p Gen \<longleftrightarrow> True"

text \<open>How often a tuple is asserted, less how often it is retracted, and what that should be.\<close>

definition net :: "vtuple \<Rightarrow> simple_tuple list \<Rightarrow> int" where
  "net t out = (\<Sum>s \<leftarrow> out. if tuple_eq (st_data s) t = Inr True then sint (st_count s) else 0)"

definition holds_now :: "vtuple \<Rightarrow> vtuple option \<Rightarrow> int" where
  "holds_now t g = (case g of None \<Rightarrow> 0 | Some u \<Rightarrow> if tuple_eq u t = Inr True then 1 else 0)"

lemma net_append [simp]: "net t (xs @ ys) = net t xs + net t ys"
  by (simp add: net_def)

lemma agg_difference_net:
  assumes "agg_difference old g = Inr out"
    and "\<And>u. old = Some u \<Longrightarrow> tpl_pred u = p" and "\<And>u. g = Some u \<Longrightarrow> tpl_pred u = p"
  shows "net t out = holds_now t g - holds_now t old"
proof (cases "\<exists>a b. old = Some a \<and> g = Some b \<and> tuple_eq a b = Inr True")
  case True
  then obtain a b where ab: "old = Some a" "g = Some b" "tuple_eq a b = Inr True" by blast
  have "tuple_eq a t = Inr True \<longleftrightarrow> tuple_eq b t = Inr True"
    by (rule tuple_eq_class) (simp_all add: ab assms(2) [OF ab(1)] assms(3) [OF ab(2)])
  then show ?thesis using assms(1) ab by (auto simp: agg_difference_def net_def holds_now_def)
next
  case False
  note defs = net_def holds_now_def create_new_def remove_new_def new_simple_tuple_def
  show ?thesis
  proof (cases old; cases g)
    fix a b
    assume ab: "old = Some a" "g = Some b"
    then have "tuple_eq a b \<noteq> Inr True" using False by blast
    then have "out = [remove_new a, create_new b]"
      using assms(1) ab by (cases "tuple_eq a b") (auto simp: agg_difference_def)
    then show ?thesis by (simp add: ab defs)
  qed (use assms(1) in \<open>auto simp: agg_difference_def defs\<close>)
qed

definition conf_inv :: "predicate \<Rightarrow> vtuple \<Rightarrow> agg_configuration \<times> simple_tuple list \<Rightarrow> bool" where
  "conf_inv p t st \<longleftrightarrow> leaves_of p (vals (fst st)) \<and> (\<forall>u. corresponds (fst st) = Some u \<longrightarrow> tpl_pred u = p) \<and>
     net t (snd st) = holds_now t (corresponds (fst st))"

lemma agg_add_to_set_of:
  assumes a: "agg_add_to_set hs tpl many c = Inr c'" and "leaves_of p (vals c)" and "tpl_pred tpl = p"
  shows "leaves_of p (vals c') \<and> corresponds c' = corresponds c"
proof (cases "0 <s many")
  case True
  then show ?thesis using a insert_tuple_of [OF _ assms(2,3)]
    by (auto simp: agg_add_to_set_def res_bind_Inr_iff split: if_splits)
next
  case False
  then show ?thesis using a delete_commit_of [OF _ assms(2,3)]
    by (auto simp: agg_add_to_set_def res_bind_Inr_iff split: if_splits)
qed

lemma conf_inv_step:
  assumes "agg_op_step hs fadd typ field x st = Inr st'" and "conf_inv p t st" and "of_predicate p x"
  shows "conf_inv p t st'"
proof (cases x)
  case (Add tpl many)
  obtain c out where st: "st = (c, out)" by (cases st)
  from assms(1) Add st obtain c' where c': "agg_add_to_set hs tpl many c = Inr c'" "st' = (c', out)"
    by (auto elim: res_bind_InrE)
  have "leaves_of p (vals c)" and "tpl_pred tpl = p" using assms(2,3) st Add by (auto simp: conf_inv_def)
  from agg_add_to_set_of [OF c'(1) this] show ?thesis using assms(2) by (simp add: conf_inv_def st c'(2))
next
  case Gen
  obtain c out where st: "st = (c, out)" by (cases st)
  from assms(1) Gen st obtain new c' where a: "agg_generate fadd typ field c = Inr (new, c')" and "st' = (c', out @ new)"
    by (auto elim: res_bind_pairE)
  moreover from a obtain g where g: "do_generate fadd typ field c = Inr g" "agg_difference (corresponds c) g = Inr new"
    and "c' = c\<lparr>agg_changed := False, corresponds := g\<rparr>"
    unfolding agg_generate_def by (auto elim!: res_bind_InrE)
  ultimately have st': "st' = (c\<lparr>agg_changed := False, corresponds := g\<rparr>, out @ new)" by simp
  have inv: "leaves_of p (vals c)" "\<forall>u. corresponds c = Some u \<longrightarrow> tpl_pred u = p" "net t out = holds_now t (corresponds c)"
    using assms(2) st by (auto simp: conf_inv_def)
  have gp: "tpl_pred u = p" if "g = Some u" for u using do_generate_pred [OF _ inv(1)] g(1) that by blast
  have "net t new = holds_now t g - holds_now t (corresponds c)"
    using agg_difference_net [OF g(2), of p t] inv(2) gp by blast
  then show ?thesis using inv gp by (simp add: conf_inv_def st')
qed

lemma conf_inv_run:
  "agg_run hs fadd typ field ops st = Inr st' \<Longrightarrow> conf_inv p t st \<Longrightarrow> list_all (of_predicate p) ops \<Longrightarrow> conf_inv p t st'"
  by (induction ops arbitrary: st) (auto simp: res_bind_Inr_iff intro: conf_inv_step)

text \<open>
  C4: Over any run of additions, retractions and generations of a configuration, what was
  emitted asserts, net of what it retracts, the aggregate generated last once and every
  other tuple of the predicate not at all.
\<close>

theorem emitted_aggregates_cancel:
  assumes "agg_run hs fadd typ field ops (new_agg_configuration, []) = Inr (c, out)"
    and "list_all (of_predicate p) ops"
  shows "net t out = (case corresponds c of None \<Rightarrow> 0 | Some g \<Rightarrow> if tuple_eq g t = Inr True then 1 else 0)"
proof -
  have "conf_inv p t (new_agg_configuration, [])"
    by (simp add: conf_inv_def new_agg_configuration_def leaves_of_def new_trie_def net_def holds_now_def)
  from conf_inv_run [OF assms(1) this assms(2)] show ?thesis by (simp add: conf_inv_def holds_now_def)
qed

lemma emitted_edge_run:
  "agg_run plain_hashes (\<lambda>a b. a) AGG_FIRST 1 [Add edge_tuple 2, Gen, Add edge_tuple (- 2), Gen]
     (new_agg_configuration, []) =
   Inr (\<lparr>agg_changed = False, corresponds = None, vals = new_trie\<lparr>next_leaf := 1\<rparr>\<rparr>,
     [create_new edge_tuple, remove_new edge_tuple])"
  by code_simp

theorem emitted_aggregates_cancel_witness:
  "net edge_tuple [create_new edge_tuple, remove_new edge_tuple] = 0"
  using emitted_aggregates_cancel [OF emitted_edge_run, of "tpl_pred edge_tuple" edge_tuple] by simp

section \<open>Removing a group\<close>

text \<open>
  Erasing an empty group never removes it: the leaf does not ask to be deleted, so it
  stays in the trie while the number of references drops, and erasing the only group
  fails the check of the trie's invariants.
\<close>

theorem agg_trie_erase_keeps_leaf:
  assumes "map_of (leaves t) j = Some l" and "basic_invariants t"
    and "0 < number_of_references t" and "number_of_references t < 2 ^ 31"
  shows "agg_trie_erase j t = (if number_of_references t = 1 then Inl Assert_Failed
    else Inr (t\<lparr>number_of_references := number_of_references t - 1\<rparr>))"
  using assms
  by (auto simp: agg_trie_erase_def commit_delete_def int_add_def inner_delete_by_leaf_def agg_leaf_def basic_invariants_def)

text \<open>A predicate with the maximum of its second field per value of the first, and its facts.\<close>

definition cost_pred :: predicate where
  "cost_pred = edge_pred\<lparr>pred_types := [FIELD_NODE, FIELD_INT], pred_fields_size := [4, 4],
     pred_fields_offset := [0, 4], pred_tuple_size := 8,
     pred_agg := Some \<lparr>agg_field = 1, agg_type = AGG_MAX_INT, agg_safeness = AGG_LOCALLY_GENERATED,
       agg_local_level = None, agg_remote_pred_id = None, agg_remote_pred = None\<rparr>\<rparr>"

definition cost :: "node_val \<Rightarrow> int_val \<Rightarrow> vtuple" where
  "cost n v = \<lparr>tpl_pred = cost_pred, tpl_fields = [FNode n, FInt v]\<rparr>"

definition cost_group :: agg_configuration where
  "cost_group = \<lparr>agg_changed = True, corresponds = None, vals =
     \<lparr>root = Siblings [(7, Siblings [(4294967294, Leaf 1), (5, Leaf 0)])], number_of_references = 3,
      leaves = [(0, new_simple_tuple (cost 7 5) 1), (1, new_simple_tuple (cost 7 (- 2)) 2)], next_leaf = 2\<rparr>\<rparr>"

lemma cost_group_built:
  "agg_run plain_hashes (\<lambda>a b. a) AGG_MAX_INT 1 [Add (cost 7 5) 1, Add (cost 7 (- 2)) 2] (new_agg_configuration, [])
   = Inr (cost_group, [])"
  by code_simp

lemma cost_group_ints: "int_group 1 cost_group"
  by (simp add: int_group_def cost_group_def agg_is_empty_def facts_def wf_tuple_def cost_def cost_pred_def
      edge_pred_def new_simple_tuple_def get_int_def)

lemma cost_group_facts: "facts cost_group = [cost 7 5, cost 7 (- 2)]"
  by (simp add: cost_group_def facts_def new_simple_tuple_def)

text \<open>
  C18: The maximum and the minimum over an integer field are found among the facts of the
  group, signed, and no fact of the group has a greater, or a smaller, value there.
\<close>

theorem extremes_are_exact:
  assumes "int_group field c"
  shows "(\<exists>t. generate_max_int field c = Inr t \<and> t \<in> set (facts c) \<and>
      int_of_field field t = Max (int_of_field field ` set (facts c))) \<and>
    (\<exists>t. generate_min_int field c = Inr t \<and> t \<in> set (facts c) \<and>
      int_of_field field t = Min (int_of_field field ` set (facts c)))"
  using generate_max_int_ok [OF assms] generate_min_int_ok [OF assms] by blast

theorem extremes_are_exact_witness:
  "(\<exists>t. generate_max_int 1 cost_group = Inr t \<and> int_of_field 1 t = 5) \<and>
   (\<exists>t. generate_min_int 1 cost_group = Inr t \<and> int_of_field 1 t = - 2)"
proof -
  have "int_of_field 1 (cost 7 5) = 5" "int_of_field 1 (cost 7 (- 2)) = - 2"
    by (simp_all add: int_of_field_def get_int_def cost_def)
  then show ?thesis using extremes_are_exact [OF cost_group_ints] by (auto simp: cost_group_facts)
qed

text \<open>
  C19: The sum over an integer field adds every fact as often as it is held and wraps at
  32 bits; it is put into a copy of the first fact.
\<close>

theorem sum_is_exact:
  assumes "int_group field c" and "\<forall>(j, s) \<in> set (leaves (vals c)). 0 \<le> sint (st_count s)"
  shows "generate_sum_int field c = Inr (set_field field
    (FInt (of_int (\<Sum>(j, s) \<leftarrow> leaves (vals c). sint (st_count s) * int_of_field field (st_data s)))) (hd (facts c)))"
  by (rule generate_sum_int_ok [OF assms])

theorem sum_is_exact_witness: "generate_sum_int 1 cost_group = Inr (cost 7 1)"
  using sum_is_exact [OF cost_group_ints]
  by (simp add: cost_group_facts) (simp add: cost_group_def new_simple_tuple_def int_of_field_def get_int_def cost_def set_field_def)

theorem agg_trie_erase_keeps_leaf_witness:
  "agg_trie_erase 0 \<lparr>root = Siblings [(7, Leaf 0)], number_of_references = 1,
     leaves = [(0, Some new_agg_configuration)], next_leaf = 1\<rparr> = Inl Assert_Failed"
  using agg_trie_erase_keeps_leaf [of "\<lparr>root = Siblings [(7, Leaf 0)], number_of_references = 1,
     leaves = [(0, Some new_agg_configuration)], next_leaf = 1\<rparr>" 0 "Some new_agg_configuration"]
  by (simp add: basic_invariants_def)

text \<open>A fact added to an aggregate and retracted again: the next generation fails.\<close>

lemma emptied_group_aborts:
  "res_bind (ta_add_to_set plain_hashes (cost 7 5) 1 (new_tuple_aggregate cost_pred)) (\<lambda>(j, ta).
   res_bind (ta_add_to_set plain_hashes (cost 7 5) (- 1) ta) (\<lambda>(j, ta). ta_generate (\<lambda>a b. a) ta)) = Inl Assert_Failed"
  by code_simp

end
