(* ===== verification/Vm_External.thy ===== *)
theory Vm_External
  imports Vm_Types
begin

text \<open>
  The registry of external functions, \<open>vm/external.hpp\<close> and \<open>vm/external.cpp\<close>: what a
  registered function records about its arguments, the counter that numbers them, and
  the table of built-in functions every program starts with. The file-level variables
  \<open>external_counter\<close>, \<open>hash_external\<close> and \<open>external_functions_initialised\<close> are the
  record \<open>externals\<close>.
\<close>

section \<open>Function records\<close>

definition EXTERNAL_ARG_LIMIT :: nat where "EXTERNAL_ARG_LIMIT = 100"

text \<open>A built-in function is known by its name, a loaded one by the address \<open>dlsym\<close> returned.\<close>

datatype fun_ptr = Builtin string | Loaded ptr_val

record external_function =
  ext_num_args :: nat
  ext_ptr :: fun_ptr
  ext_ret :: field_type
  ext_spec :: "field_type option list"     \<comment> \<open>\<open>None\<close>: allocated and not yet set\<close>

definition new_external_function :: "fun_ptr \<Rightarrow> nat \<Rightarrow> field_type \<Rightarrow> external_function res" where
  "new_external_function p n r =
     (if n \<le> EXTERNAL_ARG_LIMIT
      then Inr \<lparr>ext_num_args = n, ext_ptr = p, ext_ret = r, ext_spec = replicate n None\<rparr>
      else Inl Assert_Failed)"

definition set_arg_type :: "nat \<Rightarrow> field_type \<Rightarrow> external_function \<Rightarrow> external_function res" where
  "set_arg_type arg typ f =
     (if arg < ext_num_args f then Inr (f\<lparr>ext_spec := (ext_spec f)[arg := Some typ]\<rparr>) else Inl Assert_Failed)"

definition get_arg_type :: "external_function \<Rightarrow> nat \<Rightarrow> field_type res" where
  "get_arg_type f i =
     (if i < length (ext_spec f)
      then (case ext_spec f ! i of None \<Rightarrow> Inl Bad_Access | Some t \<Rightarrow> Inr t)
      else Inl Bad_Access)"

definition external0 :: "fun_ptr \<Rightarrow> field_type \<Rightarrow> external_function res" where
  "external0 p r = new_external_function p 0 r"

definition external1 :: "fun_ptr \<Rightarrow> field_type \<Rightarrow> field_type \<Rightarrow> external_function res" where
  "external1 p r a1 = res_bind (new_external_function p 1 r) (\<lambda>f. set_arg_type 0 a1 f)"

definition external2 :: "fun_ptr \<Rightarrow> field_type \<Rightarrow> field_type \<Rightarrow> field_type \<Rightarrow> external_function res" where
  "external2 p r a1 a2 =
     res_bind (new_external_function p 2 r) (\<lambda>f.
     res_bind (set_arg_type 0 a1 f) (\<lambda>f1. set_arg_type 1 a2 f1))"

definition external3 ::
  "fun_ptr \<Rightarrow> field_type \<Rightarrow> field_type \<Rightarrow> field_type \<Rightarrow> field_type \<Rightarrow> external_function res" where
  "external3 p r a1 a2 a3 =
     res_bind (new_external_function p 3 r) (\<lambda>f.
     res_bind (set_arg_type 0 a1 f) (\<lambda>f1.
     res_bind (set_arg_type 1 a2 f1) (\<lambda>f2. set_arg_type 2 a3 f2)))"

section \<open>The table\<close>

record externals =
  external_counter :: nat
  hash_external :: "nat \<Rightarrow> external_function option"
  externals_initialised :: bool

definition no_externals :: externals where
  "no_externals = \<lparr>external_counter = 0, hash_external = (\<lambda>_. None), externals_initialised = False\<rparr>"

definition register_external_function :: "external_function \<Rightarrow> externals \<Rightarrow> nat \<times> externals" where
  "register_external_function ex s =
     (external_counter s,
      s\<lparr>hash_external := (hash_external s)(external_counter s := Some ex),
        external_counter := external_counter s + 1\<rparr>)"

definition lookup_external_function :: "nat \<Rightarrow> externals \<Rightarrow> external_function res" where
  "lookup_external_function i s = (case hash_external s i of None \<Rightarrow> Inl Assert_Failed | Some f \<Rightarrow> Inr f)"

text \<open>The macros \<open>EXTERNAL0\<close> to \<open>EXTERNAL3\<close> by the number of argument types.\<close>

fun external_of :: "fun_ptr \<Rightarrow> field_type \<Rightarrow> field_type list \<Rightarrow> external_function res" where
  "external_of p r [] = external0 p r"
| "external_of p r [a] = external1 p r a"
| "external_of p r [a, b] = external2 p r a b"
| "external_of p r [a, b, c] = external3 p r a b c"
| "external_of p r _ = Inl Bad_Access"

definition builtin_functions :: "(string \<times> field_type \<times> field_type list) list" where
  "builtin_functions =
    [(''sigmoid'', FIELD_FLOAT, [FIELD_FLOAT]),
     (''randint'', FIELD_INT, [FIELD_INT]),
     (''normalize'', FIELD_LIST_FLOAT, [FIELD_LIST_FLOAT]),
     (''damp'', FIELD_LIST_FLOAT, [FIELD_LIST_FLOAT, FIELD_LIST_FLOAT, FIELD_FLOAT]),
     (''divide'', FIELD_LIST_FLOAT, [FIELD_LIST_FLOAT, FIELD_LIST_FLOAT]),
     (''convolve'', FIELD_LIST_FLOAT, [FIELD_LIST_FLOAT, FIELD_LIST_FLOAT]),
     (''addfloatlists'', FIELD_LIST_FLOAT, [FIELD_LIST_FLOAT, FIELD_LIST_FLOAT]),
     (''intlistlength'', FIELD_INT, [FIELD_LIST_INT]),
     (''intlistdiff'', FIELD_LIST_INT, [FIELD_LIST_INT, FIELD_LIST_INT]),
     (''intlistnth'', FIELD_INT, [FIELD_LIST_INT, FIELD_INT]),
     (''concatenate'', FIELD_STRING, [FIELD_STRING, FIELD_STRING]),
     (''str2float'', FIELD_FLOAT, [FIELD_STRING]),
     (''str2int'', FIELD_INT, [FIELD_STRING]),
     (''nodelistremove'', FIELD_LIST_NODE, [FIELD_LIST_NODE, FIELD_NODE]),
     (''wastetime'', FIELD_INT, [FIELD_INT]),
     (''truncate'', FIELD_FLOAT, [FIELD_FLOAT, FIELD_INT]),
     (''float2int'', FIELD_INT, [FIELD_FLOAT]),
     (''int2str'', FIELD_STRING, [FIELD_INT]),
     (''float2str'', FIELD_STRING, [FIELD_FLOAT]),
     (''intlistsub'', FIELD_LIST_INT, [FIELD_LIST_INT, FIELD_INT, FIELD_INT]),
     (''intlistappend'', FIELD_LIST_INT, [FIELD_LIST_INT, FIELD_LIST_INT]),
     (''str2intlist'', FIELD_LIST_INT, [FIELD_STRING]),
     (''filecountwords'', FIELD_INT, [FIELD_STRING, FIELD_INT]),
     (''residual'', FIELD_FLOAT, [FIELD_LIST_FLOAT, FIELD_LIST_FLOAT]),
     (''nodelistlength'', FIELD_INT, [FIELD_LIST_NODE]),
     (''nodelistcount'', FIELD_INT, [FIELD_LIST_NODE, FIELD_NODE]),
     (''nodelistappend'', FIELD_LIST_NODE, [FIELD_LIST_NODE, FIELD_LIST_NODE]),
     (''node_priority'', FIELD_FLOAT, [FIELD_NODE]),
     (''nodelistreverse'', FIELD_LIST_NODE, [FIELD_LIST_NODE]),
     (''nodelistlast'', FIELD_NODE, [FIELD_LIST_NODE]),
     (''cpu_id'', FIELD_INT, [FIELD_NODE]),
     (''node2int'', FIELD_INT, [FIELD_NODE]),
     (''intpower'', FIELD_INT, [FIELD_INT, FIELD_INT]),
     (''intlistsort'', FIELD_LIST_INT, [FIELD_LIST_INT]),
     (''intlistremoveduplicates'', FIELD_LIST_INT, [FIELD_LIST_INT]),
     (''degeneratevector'', FIELD_LIST_INT, [FIELD_INT, FIELD_INT]),
     (''demergemessages'', FIELD_LIST_INT, [FIELD_LIST_INT, FIELD_LIST_INT]),
     (''intlistequal'', FIELD_INT, [FIELD_LIST_INT, FIELD_LIST_INT])]"

fun register_all :: "(string \<times> field_type \<times> field_type list) list \<Rightarrow> externals \<Rightarrow> externals res" where
  "register_all [] s = Inr s"
| "register_all ((name, r, args) # fs) s =
     res_bind (external_of (Builtin name) r args) (\<lambda>f. register_all fs (snd (register_external_function f s)))"

definition init_external_functions :: "externals \<Rightarrow> externals res" where
  "init_external_functions s =
     (if externals_initialised s then Inr s
      else register_all builtin_functions (s\<lparr>externals_initialised := True\<rparr>))"

text \<open>
  \<open>program::add_external_function\<close>: a function of more than three arguments falls into
  the default case of the switch and is not registered.
\<close>

definition add_external_function ::
  "fun_ptr \<Rightarrow> field_type \<Rightarrow> field_type list \<Rightarrow> externals \<Rightarrow> externals res" where
  "add_external_function p r args s =
     (if length args \<le> 3
      then res_bind (external_of p r args) (\<lambda>f. Inr (snd (register_external_function f s)))
      else Inr s)"

section \<open>What a lookup returns\<close>

definition external_entry :: "fun_ptr \<Rightarrow> field_type \<Rightarrow> field_type list \<Rightarrow> external_function" where
  "external_entry p r args =
     \<lparr>ext_num_args = length args, ext_ptr = p, ext_ret = r, ext_spec = map Some args\<rparr>"

lemma external_of_entry: "length args \<le> 3 \<Longrightarrow> external_of p r args = Inr (external_entry p r args)"
  by (cases "(p, r, args)" rule: external_of.cases)
    (auto simp: external0_def external1_def external2_def external3_def new_external_function_def
      set_arg_type_def external_entry_def EXTERNAL_ARG_LIMIT_def numeral_2_eq_2 numeral_3_eq_3)

text \<open>The identifiers in use are those below the counter.\<close>

definition externals_ok :: "externals \<Rightarrow> bool" where
  "externals_ok s \<longleftrightarrow> dom (hash_external s) = {..<external_counter s}"

lemma no_externals_ok [simp]: "externals_ok no_externals"
  by (simp add: externals_ok_def no_externals_def)

lemma register_external_function_ok:
  "externals_ok s \<Longrightarrow> externals_ok (snd (register_external_function f s))"
  by (auto simp: externals_ok_def register_external_function_def)

lemma register_all_spec:
  "list_all (\<lambda>(n, r, args). length args \<le> 3) fs \<Longrightarrow>
   \<exists>s'. register_all fs s = Inr s' \<and> external_counter s' = external_counter s + length fs \<and>
     externals_initialised s' = externals_initialised s \<and>
     (\<forall>j. hash_external s' j =
        (if external_counter s \<le> j \<and> j < external_counter s + length fs
         then (case fs ! (j - external_counter s) of (n, r, args) \<Rightarrow> Some (external_entry (Builtin n) r args))
         else hash_external s j))"
proof (induction fs arbitrary: s)
  case (Cons f fs)
  obtain n r args where f: "f = (n, r, args)" by (cases f)
  let ?s1 = "snd (register_external_function (external_entry (Builtin n) r args) s)"
  from Cons.prems f have "length args \<le> 3" "list_all (\<lambda>(n, r, args). length args \<le> 3) fs" by auto
  with Cons.IH [of ?s1] obtain s' where s': "register_all fs ?s1 = Inr s'"
    "external_counter s' = external_counter ?s1 + length fs"
    "externals_initialised s' = externals_initialised ?s1"
    "\<forall>j. hash_external s' j =
        (if external_counter ?s1 \<le> j \<and> j < external_counter ?s1 + length fs
         then (case fs ! (j - external_counter ?s1) of (n, r, args) \<Rightarrow> Some (external_entry (Builtin n) r args))
         else hash_external ?s1 j)" by blast
  have "register_all (f # fs) s = Inr s'"
    using f s'(1) external_of_entry [OF \<open>length args \<le> 3\<close>] by simp
  moreover have "hash_external s' j =
        (if external_counter s \<le> j \<and> j < external_counter s + length (f # fs)
         then (case (f # fs) ! (j - external_counter s) of (n, r, args) \<Rightarrow> Some (external_entry (Builtin n) r args))
         else hash_external s j)" for j
    using s'(4) [rule_format, of j]
    by (cases "j = external_counter s") (auto simp: register_external_function_def f nth_Cons')
  ultimately show ?case using s'(2,3) by (auto simp: register_external_function_def)
qed auto

text \<open>
  After the initialisation a built-in function is found under its position in the
  table, with its declared types, and initialising again changes nothing.
\<close>

lemma init_external_functions_spec:
  assumes "\<not> externals_initialised s" and "external_counter s = 0"
  shows "\<exists>s'. init_external_functions s = Inr s' \<and> external_counter s' = 38 \<and> init_external_functions s' = Inr s' \<and>
    (\<forall>j < 38. lookup_external_function j s' =
       Inr (case builtin_functions ! j of (n, r, args) \<Rightarrow> external_entry (Builtin n) r args))"
proof -
  have len: "length builtin_functions = 38" by (simp add: builtin_functions_def)
  have ok: "list_all (\<lambda>(n, r, args). length args \<le> 3) builtin_functions" by (simp add: builtin_functions_def)
  obtain s' where s': "register_all builtin_functions (s\<lparr>externals_initialised := True\<rparr>) = Inr s'"
    "external_counter s' = 38" "externals_initialised s'"
    "\<forall>j. hash_external s' j =
        (if j < 38 then (case builtin_functions ! j of (n, r, args) \<Rightarrow> Some (external_entry (Builtin n) r args))
         else hash_external s j)"
    using register_all_spec [OF ok, of "s\<lparr>externals_initialised := True\<rparr>"] assms len by auto
  then show ?thesis
    using assms by (auto simp: init_external_functions_def lookup_external_function_def split: prod.splits)
qed

end
