(* ===== verification/Vm_Program.thy ===== *)
theory Vm_Program
  imports Vm_External Vm_Tuple Instr
begin

text \<open>
  Loading a byte-code file, \<open>vm/program.cpp\<close>, with the objects it fills:
  \<open>vm/rule.hpp\<close>, \<open>vm/function.hpp\<close> and \<open>vm/import.hpp\<close>. The constructor reads the file
  front to back, so each part of it is a reader: a function from the bytes that are
  left, and the position in the file, to a value and the bytes behind it.
  The format as a writer is the theory Program_Format.
\<close>

section \<open>Readers\<close>

type_synonym input = "byte list \<times> nat"
type_synonym 'a reader = "input \<Rightarrow> ('a \<times> input) res"

definition rd_return :: "'a \<Rightarrow> 'a reader" where
  "rd_return x s = Inr (x, s)"

definition rd_bind :: "'a reader \<Rightarrow> ('a \<Rightarrow> 'b reader) \<Rightarrow> 'b reader" where
  "rd_bind m f s = res_bind (m s) (\<lambda>(x, s'). f x s')"

definition rd_lift :: "'a res \<Rightarrow> 'a reader" where
  "rd_lift r s = res_bind r (\<lambda>x. Inr (x, s))"

definition rd_position :: "nat reader" where
  "rd_position s = Inr (snd s, s)"

text \<open>
  \<open>READ_CODE\<close>. At the end of the file \<open>read\<close> leaves the destination as it was, which
  here is an uninitialised variable.
\<close>

definition READ_CODE :: "nat \<Rightarrow> byte list reader" where
  "READ_CODE n s =
     (case s of (bs, position) \<Rightarrow>
        if n \<le> length bs then Inr (take n bs, (drop n bs, position + n)) else Inl Bad_Access)"

definition read_byte :: "byte reader" where
  "read_byte = rd_bind (READ_CODE 1) (\<lambda>bs. rd_return (hd bs))"

definition read_uint :: "uint_val reader" where
  "read_uint = rd_bind (READ_CODE 4) (\<lambda>bs. rd_return (le_word bs))"

fun read_loop :: "('i \<Rightarrow> 's \<Rightarrow> 's reader) \<Rightarrow> 'i list \<Rightarrow> 's \<Rightarrow> 's reader" where
  "read_loop f [] a = rd_return a"
| "read_loop f (i # is) a = rd_bind (f i a) (\<lambda>a'. read_loop f is a')"

text \<open>A loop that appends one element per round.\<close>

definition read_times :: "nat \<Rightarrow> (nat \<Rightarrow> 'a reader) \<Rightarrow> 'a list reader" where
  "read_times n f = read_loop (\<lambda>i acc. rd_bind (f i) (\<lambda>x. rd_return (acc @ [x]))) [0..<n] []"

text \<open>A \<open>std::string\<close> made from a character array ends at the first NUL.\<close>

definition c_str :: "byte list \<Rightarrow> byte list" where
  "c_str bs = takeWhile (\<lambda>b. b \<noteq> 0) bs"

definition read_string :: "byte list reader" where
  "read_string = rd_bind read_uint (\<lambda>n. rd_bind (READ_CODE (unat n)) (\<lambda>bs. rd_return (c_str bs)))"

section \<open>Rules, imports and the program\<close>

record vm_rule =
  rule_ident :: rule_id
  rule_string :: "byte list"
  rule_code :: "byte list"
  rule_predicates :: "predicate_id list"
  rule_is_persistent :: bool

definition new_rule :: "rule_id \<Rightarrow> byte list \<Rightarrow> vm_rule" where
  "new_rule i str = \<lparr>rule_ident = i, rule_string = str, rule_code = [], rule_predicates = [], rule_is_persistent = False\<rparr>"

definition add_predicate :: "predicate_id \<Rightarrow> vm_rule \<Rightarrow> vm_rule" where
  "add_predicate p r = r\<lparr>rule_predicates := rule_predicates r @ [p]\<rparr>"

definition set_bytecode :: "byte list \<Rightarrow> vm_rule \<Rightarrow> vm_rule" where
  "set_bytecode code r = r\<lparr>rule_code := code\<rparr>"

definition set_as_persistent :: "vm_rule \<Rightarrow> vm_rule" where
  "set_as_persistent r = r\<lparr>rule_is_persistent := True\<rparr>"

definition rule_num_predicates :: "vm_rule \<Rightarrow> nat" where
  "rule_num_predicates r = length (rule_predicates r)"

record import =
  import_imp :: "byte list"
  import_as :: "byte list"
  import_file :: "byte list"

definition new_import :: "byte list \<Rightarrow> byte list \<Rightarrow> byte list \<Rightarrow> import" where
  "new_import imp as file = \<lparr>import_imp = imp, import_as = as, import_file = file @ [0x2e, 0x6d]\<rparr>"

datatype priority_type = PRIORITY_ASC | PRIORITY_DESC

text \<open>
  The global priority information. A data file leaves type and order unset.
\<close>

record priority_info =
  prio_type :: "field_type option"
  prio_order :: "priority_type option"
  prio_initial :: "64 word"                 \<comment> \<open>the union \<open>heap_priority\<close>\<close>
  prio_is_data :: bool

text \<open>
  The fields of \<open>class program\<close>. The affected rules of a predicate, a field of the
  predicate object, stand beside the predicates; a pointer to a predicate is its
  identifier.
\<close>

record program =
  prog_major :: uint_val
  prog_minor :: uint_val
  prog_db_buffer :: "byte list"
  prog_num_nodes :: nat
  prog_imports :: "import list"
  prog_exports :: "byte list list"
  prog_num_args :: nat
  prog_rules :: "vm_rule list"
  prog_strings :: "byte list list"
  prog_const_types :: "field_type list"
  prog_const_code :: "byte list"
  prog_functions :: "byte list list"
  prog_num_ext_functions :: "nat option"     \<comment> \<open>not set before version 0.7\<close>
  prog_ext_position :: "nat option"
  prog_predicates :: "predicate list"
  prog_affected :: "rule_id list list"
  prog_code :: "byte list list"
  prog_route :: "predicate_id list"
  prog_safe :: bool
  prog_priority :: priority_info
  prog_max_level :: nat
  prog_data_rule :: "vm_rule option"
  prog_init :: "predicate_id option"

definition num_rules :: "program \<Rightarrow> nat" where
  "num_rules prog = length (prog_rules prog)"

definition num_predicates :: "program \<Rightarrow> nat" where
  "num_predicates prog = length (prog_predicates prog)"

section \<open>The parts of the file\<close>

definition MAGIC1 :: uint_val where "MAGIC1 = 0x646c656d"
definition MAGIC2 :: uint_val where "MAGIC2 = 0x6c696620"
definition PREDICATE_DESCRIPTOR_SIZE :: nat where "PREDICATE_DESCRIPTOR_SIZE = 104"
definition node_size :: nat where "node_size = 8"

definition version_at_least :: "uint_val \<Rightarrow> uint_val \<Rightarrow> uint_val \<Rightarrow> uint_val \<Rightarrow> bool" where
  "version_at_least major minor maj min' \<longleftrightarrow> major > maj \<or> (major = maj \<and> minor \<ge> min')"

definition read_header :: "(uint_val \<times> uint_val) reader" where
  "read_header =
     rd_bind read_uint (\<lambda>magic1.
     rd_bind read_uint (\<lambda>magic2.
     if magic1 \<noteq> MAGIC1 \<or> magic2 \<noteq> MAGIC2 then rd_lift (Inl Load_File_Error)
     else
     rd_bind read_uint (\<lambda>major.
     rd_bind read_uint (\<lambda>minor.
     if \<not> version_at_least major minor 0 5 then rd_lift (Inl Load_File_Error)
     else if version_at_least major minor 0 10 then rd_lift (Inl Load_File_Error)
     else rd_return (major, minor)))))"

definition read_import :: "import reader" where
  "read_import =
     rd_bind read_string (\<lambda>imp. rd_bind read_string (\<lambda>as. rd_bind read_string (\<lambda>file.
     rd_return (new_import imp as file))))"

definition read_imports :: "uint_val \<Rightarrow> uint_val \<Rightarrow> (import list \<times> byte list list) reader" where
  "read_imports major minor =
     (if version_at_least major minor 0 9
      then rd_bind read_uint (\<lambda>n. rd_bind (read_times (unat n) (\<lambda>_. read_import)) (\<lambda>imports.
           rd_bind read_uint (\<lambda>m. rd_bind (read_times (unat m) (\<lambda>_. read_string)) (\<lambda>exports.
           rd_return (imports, exports)))))
      else rd_return ([], []))"

definition read_rule_name :: "nat \<Rightarrow> vm_rule reader" where
  "read_rule_name i =
     rd_bind read_uint (\<lambda>rule_len.
     if \<not> 0 < rule_len then rd_lift (Inl Assert_Failed)
     else rd_bind (READ_CODE (unat rule_len)) (\<lambda>str. rd_return (new_rule i (c_str str))))"

text \<open>The string constants: a negative length makes the array size negative.\<close>

definition read_const_string :: "byte list reader" where
  "read_const_string =
     rd_bind read_uint (\<lambda>len.
     if len <s 0 then rd_lift (Inl Bad_Access)
     else rd_bind (READ_CODE (unat len)) (\<lambda>str. rd_return (c_str str)))"

text \<open>\<open>reserve\<close> of a negative number throws \<open>length_error\<close>.\<close>

definition read_const_strings :: "byte list list reader" where
  "read_const_strings =
     rd_bind read_uint (\<lambda>num_strings.
     if num_strings <s 0 then rd_lift (Inl Length_Error)
     else read_times (unat num_strings) (\<lambda>_. read_const_string))"

text \<open>Constant code and function code: a size and that many bytes.\<close>

definition read_code_block :: "byte list reader" where
  "read_code_block = rd_bind read_uint (\<lambda>n. READ_CODE (unat n))"

definition read_constants :: "(field_type list \<times> byte list) reader" where
  "read_constants =
     rd_bind read_uint (\<lambda>num_constants.
     rd_bind (read_times (unat num_constants) (\<lambda>_. rd_bind read_byte (\<lambda>b. rd_return (field_type_of_byte b)))) (\<lambda>types.
     rd_bind read_code_block (\<lambda>code. rd_return (types, code))))"

section \<open>External functions\<close>

text \<open>
  \<open>dlopen\<close> and \<open>dlsym\<close> of the system: a handle for a library it can open, an address
  for a symbol it finds.
\<close>

record dl_api =
  dlopen :: "byte list \<Rightarrow> nat option"
  dlsym :: "nat \<Rightarrow> byte list \<Rightarrow> ptr_val option"

definition get_function_pointer :: "dl_api \<Rightarrow> byte list \<Rightarrow> byte list \<Rightarrow> ptr_val" where
  "get_function_pointer dl lib_path func_name =
     (case dlopen dl lib_path of
        None \<Rightarrow> 1
      | Some handle \<Rightarrow> (case dlsym dl handle func_name of None \<Rightarrow> 0 | Some p \<Rightarrow> p))"

text \<open>The identifier in the file is printed and otherwise ignored.\<close>

definition read_extern :: "dl_api \<Rightarrow> nat \<Rightarrow> externals \<Rightarrow> externals reader" where
  "read_extern dl i s =
     rd_bind read_uint (\<lambda>extern_id.
     rd_bind (READ_CODE 256) (\<lambda>extern_name.
     rd_bind (READ_CODE 1024) (\<lambda>skip_filename.
     rd_bind (READ_CODE 8) (\<lambda>skip_ptr.
     rd_bind (rd_lift (c_string skip_filename)) (\<lambda>lib.
     rd_bind (rd_lift (c_string extern_name)) (\<lambda>name.
     rd_bind read_uint (\<lambda>num_args.
     rd_bind read_byte (\<lambda>ret.
     rd_bind (read_times (unat num_args) (\<lambda>_. rd_bind read_byte (\<lambda>b. rd_return (field_type_of_byte b)))) (\<lambda>args.
     rd_lift (add_external_function (Loaded (get_function_pointer dl lib name)) (field_type_of_byte ret) args s))))))))))"

definition read_functions ::
  "dl_api \<Rightarrow> uint_val \<Rightarrow> uint_val \<Rightarrow> externals \<Rightarrow> (byte list list \<times> (nat \<times> nat) option \<times> externals) reader" where
  "read_functions dl major minor ex =
     (if \<not> version_at_least major minor 0 6 then rd_return ([], None, ex)
      else
       rd_bind read_uint (\<lambda>n_functions.
       rd_bind (read_times (unat n_functions) (\<lambda>_. read_code_block)) (\<lambda>functions.
       rd_bind (rd_lift (init_external_functions ex)) (\<lambda>ex1.
       if major > 0 \<or> minor \<ge> 7
       then rd_bind read_uint (\<lambda>n_externs.
            rd_bind rd_position (\<lambda>position.
            rd_bind (read_loop (read_extern dl) [0..<unat n_externs] ex1) (\<lambda>ex2.
            rd_return (functions, Some (unat n_externs, position), ex2))))
       else rd_return (functions, None, ex1)))))"

section \<open>Predicates, priorities and code\<close>

text \<open>
  \<open>junk\<close> is what lies behind the name strings that the constructor of a predicate
  copies; it ends up in the stored descriptor only.
\<close>

definition read_predicate :: "(nat \<Rightarrow> byte list) \<Rightarrow> nat \<Rightarrow> (predicate \<times> uint_val) reader" where
  "read_predicate junk i =
     rd_bind (READ_CODE PREDICATE_DESCRIPTOR_SIZE) (\<lambda>buf.
     rd_lift (make_predicate_from_buf (junk i) buf (of_nat i)))"

definition max_strat_level :: "predicate list \<Rightarrow> nat" where
  "max_strat_level preds = fold (\<lambda>p m. max (pred_level p + 1) m) preds 0"

definition route_ids :: "predicate list \<Rightarrow> predicate_id list" where
  "route_ids preds = map pred_id (filter is_route_pred preds)"

definition all_safe :: "predicate list \<Rightarrow> bool" where
  "all_safe preds \<longleftrightarrow> \<not> list_ex (\<lambda>p. is_aggregate p \<and> is_unsafe_agg p) preds"

definition no_priority :: priority_info where
  "no_priority = \<lparr>prio_type = None, prio_order = None, prio_initial = 0, prio_is_data = False\<rparr>"

definition read_normal_priority :: "priority_info reader" where
  "read_normal_priority =
     rd_bind read_byte (\<lambda>type.
     if type \<noteq> 0x01 \<and> type \<noteq> 0x02 then rd_lift (Inl Assert_Failed)
     else
     rd_bind read_byte (\<lambda>asc_desc.
     rd_bind (READ_CODE (if type = 0x01 then 8 else 4)) (\<lambda>initial.
     rd_return \<lparr>prio_type = Some (if type = 0x01 then FIELD_FLOAT else FIELD_INT),
                prio_order = Some (if asc_desc \<noteq> 0 then PRIORITY_ASC else PRIORITY_DESC),
                prio_initial = le_word initial, prio_is_data = False\<rparr>)))"

definition read_priority :: "priority_info reader" where
  "read_priority =
     rd_bind read_byte (\<lambda>global_info.
     if global_info = 0x01 then rd_lift (Inl Assert_Failed)
     else if global_info = 0x02 then read_normal_priority
     else if global_info = 0x03 then rd_return (no_priority\<lparr>prio_is_data := True\<rparr>)
     else rd_return (no_priority\<lparr>prio_type := Some FIELD_FLOAT, prio_order := Some PRIORITY_DESC\<rparr>))"

definition read_predicate_code :: "uint_val list \<Rightarrow> byte list list reader" where
  "read_predicate_code sizes =
     read_loop (\<lambda>size acc. rd_bind (READ_CODE (unat size)) (\<lambda>code. rd_return (acc @ [code]))) sizes []"

text \<open>
  The predicates of rule \<open>i\<close>: each is recorded in the rule, and the rule in the list of
  affected rules of the predicate.
\<close>

definition read_rule_predicate :: "rule_id \<Rightarrow> nat \<Rightarrow> vm_rule \<times> rule_id list list \<Rightarrow> (vm_rule \<times> rule_id list list) reader" where
  "read_rule_predicate i j st =
     (case st of (r, affected) \<Rightarrow>
       rd_bind read_byte (\<lambda>id.
       if unat id < length affected
       then rd_return (add_predicate id r, affected[unat id := affected ! unat id @ [i]])
       else rd_lift (Inl Bad_Access)))"

definition read_rule_code :: "rule_id \<Rightarrow> vm_rule list \<times> rule_id list list \<Rightarrow> (vm_rule list \<times> rule_id list list) reader" where
  "read_rule_code i st =
     (case st of (rules, affected) \<Rightarrow>
       rd_bind read_code_block (\<lambda>code.
       rd_bind read_byte (\<lambda>is_persistent.
       rd_bind read_uint (\<lambda>num_preds.
       if \<not> num_preds < 10 then rd_lift (Inl Assert_Failed)
       else
        (let r1 = set_bytecode code (rules ! i);
             r2 = (if is_persistent = 0x1 then set_as_persistent r1 else r1)
         in rd_bind (read_loop (read_rule_predicate i) [0..<unat num_preds] (r2, affected)) (\<lambda>(r3, affected').
            rd_return (rules[i := r3], affected')))))))"

definition read_rules_code :: "vm_rule list \<Rightarrow> nat \<Rightarrow> (vm_rule list \<times> rule_id list list) reader" where
  "read_rules_code rules n_preds =
     rd_bind read_uint (\<lambda>num_rules_code.
     if unat num_rules_code \<noteq> length rules then rd_lift (Inl Assert_Failed)
     else read_loop read_rule_code [0..<unat num_rules_code] (rules, replicate n_preds []))"

section \<open>The constructor\<close>

definition load_program :: "dl_api \<Rightarrow> (nat \<Rightarrow> byte list) \<Rightarrow> externals \<Rightarrow> (program \<times> externals) reader" where
  "load_program dl junk ex =
     rd_bind read_header (\<lambda>(major, minor).
     rd_bind read_byte (\<lambda>num_preds.
     rd_bind read_uint (\<lambda>num_nodes.
     rd_bind (READ_CODE (unat num_nodes * node_size)) (\<lambda>db_buf.
     rd_bind (read_imports major minor) (\<lambda>(imports, exports).
     rd_bind read_byte (\<lambda>n_args.
     rd_bind read_uint (\<lambda>n_rules.
     rd_bind (read_times (unat n_rules) read_rule_name) (\<lambda>rules.
     rd_bind read_const_strings (\<lambda>strings.
     rd_bind read_constants (\<lambda>(const_types, const_code).
     rd_bind (read_functions dl major minor ex) (\<lambda>(functions, ext_info, ex').
     rd_bind (read_times (unat num_preds) (read_predicate junk)) (\<lambda>preds.
     rd_bind (rd_lift (res_map (cache_info (unat num_preds)) (map fst preds))) (\<lambda>predicates.
     rd_bind read_priority (\<lambda>priority.
     rd_bind (read_predicate_code (map snd preds)) (\<lambda>code.
     rd_bind (read_rules_code rules (unat num_preds)) (\<lambda>(rules', affected).
     rd_return
       (\<lparr>prog_major = major, prog_minor = minor, prog_db_buffer = db_buf, prog_num_nodes = unat num_nodes,
         prog_imports = imports, prog_exports = exports, prog_num_args = unat n_args, prog_rules = rules',
         prog_strings = strings, prog_const_types = const_types, prog_const_code = const_code,
         prog_functions = functions, prog_num_ext_functions = map_option fst ext_info,
         prog_ext_position = map_option snd ext_info, prog_predicates = predicates,
         prog_affected = affected, prog_code = code, prog_route = route_ids (map fst preds),
         prog_safe = all_safe predicates, prog_priority = priority,
         prog_max_level = max_strat_level (map fst preds), prog_data_rule = None, prog_init = None\<rparr>, ex')))))))))))))))))"

definition load_program_file ::
  "dl_api \<Rightarrow> (nat \<Rightarrow> byte list) \<Rightarrow> externals \<Rightarrow> byte list option \<Rightarrow> (program \<times> externals) res" where
  "load_program_file dl junk ex file =
     (case file of
        None \<Rightarrow> Inl Load_File_Error
      | Some bytes \<Rightarrow> res_bind (load_program dl junk ex (bytes, 0)) (\<lambda>(r, rest). Inr r))"

section \<open>Looking things up\<close>

definition get_rule :: "program \<Rightarrow> rule_id \<Rightarrow> vm_rule res" where
  "get_rule prog i = (if i < num_rules prog then Inr (prog_rules prog ! i) else Inl Assert_Failed)"

definition get_predicate :: "program \<Rightarrow> predicate_id \<Rightarrow> predicate option" where
  "get_predicate prog i = (if unat i \<ge> num_predicates prog then None else Some (prog_predicates prog ! unat i))"

definition get_route_predicate :: "program \<Rightarrow> nat \<Rightarrow> predicate_id res" where
  "get_route_predicate prog i =
     (if i < length (prog_route prog) then Inr (prog_route prog ! i) else Inl Assert_Failed)"

fun find_by_name :: "byte list \<Rightarrow> predicate list \<Rightarrow> predicate option" where
  "find_by_name name [] = None"
| "find_by_name name (p # ps) = (if pred_name p = name then Some p else find_by_name name ps)"

definition get_predicate_by_name :: "program \<Rightarrow> byte list \<Rightarrow> predicate option" where
  "get_predicate_by_name prog name = find_by_name name (prog_predicates prog)"

definition get_edge_predicate :: "program \<Rightarrow> predicate option" where
  "get_edge_predicate prog = get_predicate_by_name prog [0x65, 0x64, 0x67, 0x65]"

definition init_name :: "byte list" where "init_name = [0x5f, 0x69, 0x6e, 0x69, 0x74]"

text \<open>
  The predicate is cached in \<open>init\<close>; a program without predicates, or without
  \<open>_init\<close>, dereferences a null pointer.
\<close>

definition get_init_predicate :: "program \<Rightarrow> (predicate \<times> program) res" where
  "get_init_predicate prog =
     (case prog_init prog of
        Some i \<Rightarrow> (case get_predicate prog i of None \<Rightarrow> Inl Bad_Access | Some p \<Rightarrow> Inr (p, prog))
      | None \<Rightarrow>
         (case get_predicate prog 0 of
            None \<Rightarrow> Inl Bad_Access
          | Some p \<Rightarrow>
              (case (if pred_name p \<noteq> init_name then get_predicate_by_name prog init_name else Some p) of
                 None \<Rightarrow> Inl Bad_Access
               | Some q \<Rightarrow>
                   if pred_name q = init_name then Inr (q, prog\<lparr>prog_init := Some (pred_id q)\<rparr>)
                   else Inl Assert_Failed)))"

definition get_predicate_bytecode :: "program \<Rightarrow> predicate_id \<Rightarrow> byte list res" where
  "get_predicate_bytecode prog i =
     (if unat i < num_predicates prog then Inr (prog_code prog ! unat i) else Inl Assert_Failed)"

definition get_default_string :: "program \<Rightarrow> nat \<Rightarrow> byte list res" where
  "get_default_string prog i =
     (if i < length (prog_strings prog) then Inr (prog_strings prog ! i) else Inl Assert_Failed)"

definition get_function :: "program \<Rightarrow> nat \<Rightarrow> byte list res" where
  "get_function prog i =
     (if i < length (prog_functions prog) then Inr (prog_functions prog ! i) else Inl Assert_Failed)"

definition program_new_tuple :: "program \<Rightarrow> predicate_id \<Rightarrow> vtuple res" where
  "program_new_tuple prog i =
     (case get_predicate prog i of None \<Rightarrow> Inl Bad_Access | Some p \<Rightarrow> Inr (new_tuple p))"

text \<open>
  \<open>add_data_file\<close>: the first rule of the data file becomes the data rule, and the
  instruction that ends the first rule of this program is patched to load the address
  of its code: 14 bytes before the end, behind them \<open>return\<close>, \<open>next\<close> and
  \<open>return derived\<close>. \<open>addr\<close> is the address of the code of the data rule.
\<close>

definition same_predicates :: "program \<Rightarrow> program \<Rightarrow> bool" where
  "same_predicates mine other \<longleftrightarrow>
     list_all (\<lambda>i. predicate_eq (prog_predicates mine ! i) (prog_predicates other ! i)) [0..<num_predicates other]"

definition patch_init_code :: "ptr_val \<Rightarrow> byte list \<Rightarrow> byte list res" where
  "patch_init_code addr code =
     (let m = mem_of code; pc = length code - 14
      in if length code < 14 then Inl Bad_Access
         else if fetch m pc \<noteq> MOVE_INSTR \<or> \<not> val_is_ptr (move_from m pc) \<or> \<not> val_is_reg (move_to m pc)
         then Inl Assert_Failed
         else Inr (take (pc + 2) code @ [0x0A] @ le_bytes 8 addr @ drop (pc + 11) code))"

definition add_data_file :: "ptr_val \<Rightarrow> program \<Rightarrow> program \<Rightarrow> (bool \<times> program \<times> program) res" where
  "add_data_file addr mine other =
     (if num_predicates mine < num_predicates other then Inr (False, mine, other)
      else if \<not> same_predicates mine other then Inr (False, mine, other)
      else (case (prog_rules mine, prog_rules other) of
              (init_rule # rs, data # others) \<Rightarrow>
                 res_bind (patch_init_code addr (rule_code init_rule)) (\<lambda>code.
                 Inr (True,
                      mine\<lparr>prog_data_rule := Some data, prog_rules := set_bytecode code init_rule # rs\<rparr>,
                      other\<lparr>prog_rules := others\<rparr>))
            | _ \<Rightarrow> Inl Assert_Failed))"

section \<open>Readers that succeed on given bytes\<close>

text \<open>
  \<open>reads m bs P\<close>: in front of any other bytes and at any position, \<open>m\<close> takes exactly
  \<open>bs\<close> and returns a value with \<open>P\<close>.
\<close>

definition reads :: "'a reader \<Rightarrow> byte list \<Rightarrow> ('a \<Rightarrow> bool) \<Rightarrow> bool" where
  "reads m bs P \<longleftrightarrow> (\<forall>rest pos. \<exists>x. m (bs @ rest, pos) = Inr (x, (rest, pos + length bs)) \<and> P x)"

lemma reads_weaken: "reads m bs P \<Longrightarrow> (\<And>x. P x \<Longrightarrow> Q x) \<Longrightarrow> reads m bs Q"
  unfolding reads_def by blast

lemma reads_return: "P x \<Longrightarrow> reads (rd_return x) [] P"
  by (simp add: reads_def rd_return_def)

lemma reads_lift: "P x \<Longrightarrow> reads (rd_lift (Inr x)) [] P"
  by (simp add: reads_def rd_lift_def)

lemma reads_position: "reads rd_position [] (\<lambda>_. True)"
  by (simp add: reads_def rd_position_def)

lemma reads_bind:
  assumes "reads m bs P" and "\<And>x. P x \<Longrightarrow> reads (f x) bs' Q"
  shows "reads (rd_bind m f) (bs @ bs') Q"
  unfolding reads_def
proof (intro allI)
  fix rest pos
  obtain x where x: "m (bs @ (bs' @ rest), pos) = Inr (x, (bs' @ rest, pos + length bs))" "P x"
    using assms(1) unfolding reads_def by blast
  obtain y where y: "f x (bs' @ rest, pos + length bs) = Inr (y, (rest, pos + length bs + length bs'))" "Q y"
    using assms(2) [OF x(2)] unfolding reads_def by blast
  show "\<exists>z. rd_bind m f ((bs @ bs') @ rest, pos) = Inr (z, rest, pos + length (bs @ bs')) \<and> Q z"
    using x y by (auto simp: rd_bind_def add.assoc)
qed

lemma reads_READ_CODE: "length bs = n \<Longrightarrow> P bs \<Longrightarrow> reads (READ_CODE n) bs P"
  by (auto simp: reads_def READ_CODE_def)

lemma reads_uint: "reads read_uint (le_bytes 4 w) ((=) w)"
proof -
  have "reads (rd_bind (READ_CODE 4) (\<lambda>bs. rd_return (le_word bs))) (le_bytes 4 w @ []) ((=) w)"
    by (rule reads_bind [where P = "(=) (le_bytes 4 w)"])
      (auto intro!: reads_READ_CODE reads_return simp: le_word_le_bytes_full)
  then show ?thesis by (simp add: read_uint_def)
qed

lemma reads_byte: "reads read_byte [b] ((=) b)"
proof -
  have "reads (rd_bind (READ_CODE 1) (\<lambda>bs. rd_return (hd bs))) ([b] @ []) ((=) b)"
    by (rule reads_bind [where P = "(=) [b]"]) (auto intro!: reads_READ_CODE reads_return)
  then show ?thesis by (simp add: read_byte_def)
qed

text \<open>Binding a reader that returns a known value.\<close>

lemma reads_step: "reads m bs ((=) x) \<Longrightarrow> reads (f x) bs' Q \<Longrightarrow> reads (rd_bind m f) (bs @ bs') Q"
  by (rule reads_bind [where P = "(=) x"]) auto

lemma reads_step0: "reads m [] ((=) x) \<Longrightarrow> reads (f x) bs' Q \<Longrightarrow> reads (rd_bind m f) bs' Q"
  using reads_step [of m "[]" x f bs' Q] by simp

lemma reads_last: "reads m bs P \<Longrightarrow> (\<And>x. P x \<Longrightarrow> reads (f x) [] Q) \<Longrightarrow> reads (rd_bind m f) bs Q"
  using reads_bind [of m bs P f "[]" Q] by simp

text \<open>A loop with an invariant on the state after each round.\<close>

lemma reads_loop:
  assumes "Inv 0 a"
    and "\<And>k a. k < length is \<Longrightarrow> Inv k a \<Longrightarrow> reads (f (is ! k) a) (enc k) (Inv (Suc k))"
  shows "reads (read_loop f is a) (concat (map enc [0..<length is])) (Inv (length is))"
  using assms
proof (induction "is" arbitrary: a Inv enc)
  case Nil
  then show ?case by (simp add: reads_return)
next
  case (Cons i "is")
  have "reads (f i a) (enc 0) (Inv (Suc 0))" using Cons.prems(1) Cons.prems(2) [of 0 a] by simp
  moreover have "reads (read_loop f is a') (concat (map (enc \<circ> Suc) [0..<length is])) (Inv (Suc (length is)))"
    if "Inv (Suc 0) a'" for a'
  proof (rule Cons.IH [of "\<lambda>k. Inv (Suc k)" a' "enc \<circ> Suc"])
    show "Inv (Suc 0) a'" by (rule that)
  next
    fix k a assume "k < length is" and "Inv (Suc k) a"
    then show "reads (f (is ! k) a) ((enc \<circ> Suc) k) (Inv (Suc (Suc k)))"
      using Cons.prems(2) [of "Suc k" a] by simp
  qed
  ultimately have "reads (rd_bind (f i a) (\<lambda>a'. read_loop f is a'))
      (enc 0 @ concat (map (enc \<circ> Suc) [0..<length is])) (Inv (Suc (length is)))"
    by (rule reads_bind)
  moreover have "map (enc \<circ> Suc) [0..<length is] = map enc [Suc 0..<Suc (length is)]"
    by (simp add: map_Suc_upt flip: map_map)
  ultimately show ?case by (simp add: upt_conv_Cons del: upt_Suc)
qed

lemma reads_times:
  assumes "\<And>k. k < length xs \<Longrightarrow> reads (f k) (enc (xs ! k)) (R (xs ! k))"
  shows "reads (read_times (length xs) f) (concat (map enc xs)) (list_all2 R xs)"
proof -
  let ?Inv = "\<lambda>k acc. list_all2 R (take k xs) acc"
  have "reads (read_times (length xs) f) (concat (map (\<lambda>k. enc (xs ! k)) [0..<length [0..<length xs]]))
    (?Inv (length [0..<length xs]))"
    unfolding read_times_def
  proof (rule reads_loop)
    fix k acc assume k: "k < length [0..<length xs]" and inv: "list_all2 R (take k xs) acc"
    then have "reads (f k) (enc (xs ! k)) (R (xs ! k))" using assms by simp
    moreover have "reads (rd_return (acc @ [x])) [] (?Inv (Suc k))" if "R (xs ! k) x" for x
      using that inv k by (intro reads_return) (simp add: take_Suc_conv_app_nth list_all2_appendI)
    ultimately have "reads (rd_bind (f k) (\<lambda>x. rd_return (acc @ [x]))) (enc (xs ! k) @ []) (?Inv (Suc k))"
      by (rule reads_bind)
    with k show "reads (rd_bind (f ([0..<length xs] ! k)) (\<lambda>x. rd_return (acc @ [x]))) (enc (xs ! k)) (?Inv (Suc k))"
      by simp
  qed simp
  moreover have "map (\<lambda>k. enc (xs ! k)) [0..<length xs] = map enc xs"
    by (rule nth_equalityI) auto
  ultimately show ?thesis by simp
qed

section \<open>What every loaded program satisfies\<close>

text \<open>\<open>ensures m P\<close>: whatever the input, a value that \<open>m\<close> returns has \<open>P\<close>.\<close>

definition ensures :: "'a reader \<Rightarrow> ('a \<Rightarrow> bool) \<Rightarrow> bool" where
  "ensures m P \<longleftrightarrow> (\<forall>s x s'. m s = Inr (x, s') \<longrightarrow> P x)"

named_theorems ensures_rules \<open>rules that follow the structure of a reader\<close>

lemma ensures_True [simp]: "ensures m (\<lambda>_. True)"
  by (simp add: ensures_def)

lemma ensures_weaken: "ensures m P \<Longrightarrow> (\<And>x. P x \<Longrightarrow> Q x) \<Longrightarrow> ensures m Q"
  unfolding ensures_def by blast

lemma ensures_return [ensures_rules]: "P x \<Longrightarrow> ensures (rd_return x) P"
  by (simp add: ensures_def rd_return_def)

lemma ensures_lift [ensures_rules]: "(\<And>x. r = Inr x \<Longrightarrow> P x) \<Longrightarrow> ensures (rd_lift r) P"
  by (auto simp: ensures_def rd_lift_def res_bind_Inr_iff)

lemma ensures_fail [simp]: "ensures (rd_lift (Inl e)) P"
  by (simp add: ensures_def rd_lift_def)

lemma ensures_bind: "ensures m P \<Longrightarrow> (\<And>x. P x \<Longrightarrow> ensures (f x) Q) \<Longrightarrow> ensures (rd_bind m f) Q"
  unfolding ensures_def rd_bind_def res_bind_Inr_iff by fastforce

lemma ensures_any: "(\<And>x. ensures (f x) Q) \<Longrightarrow> ensures (rd_bind m f) Q"
  by (rule ensures_bind [where P = "\<lambda>_. True"]) auto

lemma ensures_if [ensures_rules]: "(b \<Longrightarrow> ensures m P) \<Longrightarrow> (\<not> b \<Longrightarrow> ensures n P) \<Longrightarrow> ensures (if b then m else n) P"
  by simp

lemma ensures_loop:
  assumes "Inv 0 a" and "\<And>k a. k < length is \<Longrightarrow> Inv k a \<Longrightarrow> ensures (f (is ! k) a) (Inv (Suc k))"
  shows "ensures (read_loop f is a) (Inv (length is))"
  using assms
proof (induction "is" arbitrary: a Inv)
  case (Cons i "is")
  have "ensures (f i a) (Inv (Suc 0))" using Cons.prems(1) Cons.prems(2) [of 0 a] by simp
  moreover have "ensures (read_loop f is a') (Inv (Suc (length is)))" if "Inv (Suc 0) a'" for a'
  proof (rule Cons.IH [of "\<lambda>k. Inv (Suc k)"])
    fix k a assume "k < length is" and "Inv (Suc k) a"
    then show "ensures (f (is ! k) a) (Inv (Suc (Suc k)))" using Cons.prems(2) [of "Suc k" a] by simp
  qed (rule that)
  ultimately have "ensures (rd_bind (f i a) (\<lambda>a'. read_loop f is a')) (Inv (Suc (length is)))"
    by (rule ensures_bind)
  then show ?case by simp
qed (simp add: ensures_return)

lemma ensures_times:
  assumes "\<And>k. k < n \<Longrightarrow> ensures (f k) (P k)"
  shows "ensures (read_times n f) (\<lambda>xs. length xs = n \<and> (\<forall>k < n. P k (xs ! k)))"
proof -
  have "ensures (read_times n f) (\<lambda>acc. length acc = length [0..<n] \<and> (\<forall>k < length [0..<n]. P k (acc ! k)))"
    unfolding read_times_def
  proof (rule ensures_loop [where Inv = "\<lambda>k acc. length acc = k \<and> (\<forall>j < k. P j (acc ! j))"])
    fix k and acc :: "'a list" assume "k < length [0..<n]" and "length acc = k \<and> (\<forall>j < k. P j (acc ! j))"
    then show "ensures (rd_bind (f ([0..<n] ! k)) (\<lambda>x. rd_return (acc @ [x])))
        (\<lambda>acc. length acc = Suc k \<and> (\<forall>j < Suc k. P j (acc ! j)))"
      using assms [of k] by (intro ensures_bind [where P = "P k"] ensures_return)
        (auto simp: nth_append less_Suc_eq)
  qed simp
  then show ?thesis by simp
qed

text \<open>
  The bookkeeping of the rule engine: rules and predicates refer to each other with the
  same multiplicity, identifiers are positions, and a rule has fewer than ten predicates.
\<close>

definition linked :: "nat \<Rightarrow> vm_rule list \<Rightarrow> rule_id list list \<Rightarrow> bool" where
  "linked n_preds rules affected \<longleftrightarrow>
     length affected = n_preds \<and>
     (\<forall>i < length rules. rule_ident (rules ! i) = i \<and> length (rule_predicates (rules ! i)) < 10 \<and>
        (\<forall>p \<in> set (rule_predicates (rules ! i)). unat p < n_preds)) \<and>
     (\<forall>p < n_preds. \<forall>i. count_list (affected ! p) i =
        (if i < length rules then count_list (rule_predicates (rules ! i)) (of_nat p) else 0))"

text \<open>While the rules below \<open>k\<close> have been read, with \<open>r\<close> as the part of rule \<open>k\<close> read so far.\<close>

definition link_inv :: "nat \<Rightarrow> nat \<Rightarrow> vm_rule list \<Rightarrow> rule_id list list \<Rightarrow> bool" where
  "link_inv n_preds k rules affected \<longleftrightarrow>
     length affected = n_preds \<and>
     (\<forall>i < length rules. rule_ident (rules ! i) = i \<and> (k \<le> i \<longrightarrow> rule_predicates (rules ! i) = []) \<and>
        length (rule_predicates (rules ! i)) < 10 \<and>
        (\<forall>p \<in> set (rule_predicates (rules ! i)). unat p < n_preds)) \<and>
     (\<forall>p < n_preds. \<forall>i. count_list (affected ! p) i =
        (if i < length rules then count_list (rule_predicates (rules ! i)) (of_nat p) else 0))"

lemma link_inv_linked: "link_inv n (length rules) rules affected \<Longrightarrow> linked n rules affected"
  by (auto simp: link_inv_def linked_def)

lemma byte_of_nat_eq: "p < 256 \<Longrightarrow> (of_nat p = w) = (p = unat w)" for w :: byte
  by (auto simp: unat_of_nat take_bit_nat_eq_self)

lemma unat_byte_of_nat: "p < 256 \<Longrightarrow> unat (of_nat p :: byte) = p"
  by (simp add: unat_of_nat take_bit_nat_eq_self)

lemma ensures_rule_predicate:
  assumes r: "rule_ident r = i" "length (rule_predicates r) = j" "\<forall>p \<in> set (rule_predicates r). unat p < n"
    and aff: "length affected = n"
      "\<forall>p < n. \<forall>l. count_list (affected ! p) l = old p l + (if l = i then count_list (rule_predicates r) (of_nat p) else 0)"
    and n: "n \<le> 256"
  shows "ensures (read_rule_predicate i k (r, affected)) (\<lambda>(r', affected').
     rule_ident r' = i \<and> length (rule_predicates r') = Suc j \<and> (\<forall>p \<in> set (rule_predicates r'). unat p < n) \<and>
     length affected' = n \<and>
     (\<forall>p < n. \<forall>l. count_list (affected' ! p) l = old p l + (if l = i then count_list (rule_predicates r') (of_nat p) else 0)))"
proof -
  have eq: "(of_nat p = w) = (p = unat w)" if "p < n" for p and w :: byte
    using that n by (simp add: byte_of_nat_eq)
  show ?thesis
    unfolding read_rule_predicate_def prod.case
    by (intro ensures_any ensures_if ensures_return ensures_lift)
      (use r aff n in \<open>auto simp: add_predicate_def nth_list_update eq unat_byte_of_nat\<close>)
qed

lemma ensures_rule_code:
  assumes inv: "link_inv n k rules affected" and k: "k < length rules" and n: "n \<le> 256"
  shows "ensures (read_rule_code k (rules, affected)) (\<lambda>(rules', affected').
    length rules' = length rules \<and> link_inv n (Suc k) rules' affected')"
proof -
  define old where "old p l = count_list (affected ! p) l" for p l
  have old: "old p l = (if l < length rules then count_list (rule_predicates (rules ! l)) (of_nat p) else 0)"
    if "p < n" for p l using inv that by (auto simp: link_inv_def old_def)
  have old_k: "old p k = 0" if "p < n" for p using inv k that old [OF that] by (simp add: link_inv_def)
  let ?Inv = "\<lambda>j (r' :: vm_rule, affected'). rule_ident r' = k \<and> length (rule_predicates r') = j \<and>
     (\<forall>p \<in> set (rule_predicates r'). unat p < n) \<and> length affected' = n \<and>
     (\<forall>p < n. \<forall>l. count_list (affected' ! p) l = old p l + (if l = k then count_list (rule_predicates r') (of_nat p) else 0))"
  have loop: "ensures (read_loop (read_rule_predicate k) [0..<unat m] (r2, affected)) (?Inv (unat m))"
    if r2: "rule_ident r2 = k" "rule_predicates r2 = []" for m :: uint_val and r2
  proof -
    have "ensures (read_loop (read_rule_predicate k) [0..<unat m] (r2, affected)) (?Inv (length [0..<unat m]))"
    proof (rule ensures_loop)
      show "?Inv 0 (r2, affected)" using r2 inv by (auto simp: old_def link_inv_def)
    next
      fix j a assume a: "?Inv j a"
      obtain r affected1 where a': "a = (r, affected1)" by (cases a)
      show "ensures (read_rule_predicate k ([0..<unat m] ! j) a) (?Inv (Suc j))"
        unfolding a' using a n by (intro ensures_rule_predicate) (auto simp: a')
    qed
    then show ?thesis by simp
  qed
  have kept: "link_inv n (Suc k) (rules[k := r3]) affected'" if "?Inv j (r3, affected')" "j < 10" for j r3 affected'
    using that inv k old old_k
    by (auto simp: link_inv_def nth_list_update)
  show ?thesis
    unfolding read_rule_code_def prod.case Let_def
  proof (rule ensures_any, rule ensures_any, rule ensures_any, rule ensures_if)
    fix code persistent and m :: uint_val
    assume "\<not> \<not> m < 10"
    then have m: "unat m < 10" by (simp add: word_less_nat_alt)
    let ?r2 = "if persistent = 0x1 then set_as_persistent (set_bytecode code (rules ! k)) else set_bytecode code (rules ! k)"
    have "rule_ident ?r2 = k" "rule_predicates ?r2 = []"
      using inv k by (auto simp: link_inv_def set_as_persistent_def set_bytecode_def)
    from loop [OF this, of m]
    show "ensures (rd_bind (read_loop (read_rule_predicate k) [0..<unat m] (?r2, affected))
         (\<lambda>(r3, affected'). rd_return (rules[k := r3], affected')))
         (\<lambda>(rules', affected'). length rules' = length rules \<and> link_inv n (Suc k) rules' affected')"
    proof (rule ensures_bind)
      fix x assume x: "?Inv (unat m) x"
      obtain r3 affected' where x': "x = (r3, affected')" by (cases x)
      have "?Inv (unat m) (r3, affected')" using x by (simp only: x')
      from kept [OF this m]
      show "ensures (case x of (r3, affected') \<Rightarrow> rd_return (rules[k := r3], affected'))
         (\<lambda>(rules', affected'). length rules' = length rules \<and> link_inv n (Suc k) rules' affected')"
        unfolding x' prod.case by (intro ensures_return) simp
    qed
  qed simp
qed

lemma ensures_rules_code:
  assumes fresh: "\<forall>i < length rules. rule_ident (rules ! i) = i \<and> rule_predicates (rules ! i) = []" and n: "n \<le> 256"
  shows "ensures (read_rules_code rules n) (\<lambda>(rules', affected). length rules' = length rules \<and> linked n rules' affected)"
  unfolding read_rules_code_def
proof (rule ensures_any, rule ensures_if)
  fix m :: uint_val
  assume "\<not> unat m \<noteq> length rules"
  then have m: "unat m = length rules" by simp
  let ?Inv = "\<lambda>k (rules', affected). length rules' = length rules \<and> link_inv n k rules' affected"
  have "ensures (read_loop read_rule_code [0..<unat m] (rules, replicate n [])) (?Inv (length [0..<unat m]))"
  proof (rule ensures_loop)
    show "?Inv 0 (rules, replicate n [])"
      using fresh by (simp add: link_inv_def)
  next
    fix k a assume k: "k < length [0..<unat m]" and a: "?Inv k a"
    obtain rules' affected where a': "a = (rules', affected)" by (cases a)
    have "ensures (read_rule_code k (rules', affected)) (\<lambda>(rules'', affected').
        length rules'' = length rules' \<and> link_inv n (Suc k) rules'' affected')"
      using a k m n by (intro ensures_rule_code) (auto simp: a')
    then show "ensures (read_rule_code ([0..<unat m] ! k) a) (?Inv (Suc k))"
      using a k by (simp add: a')
  qed
  then show "ensures (read_loop read_rule_code [0..<unat m] (rules, replicate n []))
      (\<lambda>(rules', affected). length rules' = length rules \<and> linked n rules' affected)"
    by (rule ensures_weaken) (auto simp: m link_inv_linked)
qed simp

lemma cache_info_keeps: "cache_info n p = Inr q \<Longrightarrow> pred_id q = pred_id p \<and> pred_types q = pred_types p \<and>
    pred_name q = pred_name p \<and> pred_level q = pred_level p \<and> pred_is_linear q = pred_is_linear p \<and>
    length (pred_fields_size q) = num_fields q \<and> pred_tuple_size q = sum_list (pred_fields_size q)"
  by (auto simp: cache_info_def build_field_info_def res_bind_Inr_iff num_fields_def
      split: option.splits prod.splits dest!: field_info_loop_spec)

lemma make_predicate_pred_id: "make_predicate_from_buf junk buf i = Inr (p, sz) \<Longrightarrow> pred_id p = i"
  by (auto simp: make_predicate_from_buf_def Let_def res_bind_Inr_iff split: if_splits)

text \<open>The invariant of a loaded program.\<close>

definition program_ok :: "program \<Rightarrow> bool" where
  "program_ok prog \<longleftrightarrow>
     num_predicates prog < 256 \<and>
     (\<forall>i < num_predicates prog. pred_id (prog_predicates prog ! i) = of_nat i \<and>
        length (pred_fields_size (prog_predicates prog ! i)) = num_fields (prog_predicates prog ! i)) \<and>
     length (prog_code prog) = num_predicates prog \<and>
     linked (num_predicates prog) (prog_rules prog) (prog_affected prog) \<and>
     version_at_least (prog_major prog) (prog_minor prog) 0 5 \<and>
     \<not> version_at_least (prog_major prog) (prog_minor prog) 0 10"

lemma ensures_header: "ensures read_header (\<lambda>(major, minor). version_at_least major minor 0 5 \<and> \<not> version_at_least major minor 0 10)"
  unfolding read_header_def by (intro ensures_any ensures_if) (auto intro: ensures_return)

lemma ensures_rule_names:
  "ensures (read_times n read_rule_name) (\<lambda>rules. length rules = n \<and>
     (\<forall>i < n. rule_ident (rules ! i) = i \<and> rule_predicates (rules ! i) = []))"
proof (rule ensures_times)
  fix k show "ensures (read_rule_name k) (\<lambda>r. rule_ident r = k \<and> rule_predicates r = [])"
    unfolding read_rule_name_def by (intro ensures_any ensures_if) (auto intro!: ensures_any ensures_return simp: new_rule_def)
qed

lemma ensures_predicates:
  "ensures (read_times n (read_predicate junk)) (\<lambda>ps. length ps = n \<and> (\<forall>i < n. pred_id (fst (ps ! i)) = of_nat i))"
proof (rule ensures_times)
  fix k show "ensures (read_predicate junk k) (\<lambda>p. pred_id (fst p) = of_nat k)"
    unfolding read_predicate_def by (intro ensures_any ensures_lift) (auto dest: make_predicate_pred_id)
qed

lemma ensures_predicate_code: "ensures (read_predicate_code sizes) (\<lambda>code. length code = length sizes)"
  unfolding read_predicate_code_def
  by (rule ensures_loop [where Inv = "\<lambda>k acc. length acc = k"]) (auto intro!: ensures_any ensures_return)

lemma ensures_cached:
  assumes "length ps = n" and "\<forall>i < n. pred_id (ps ! i) = of_nat i"
  shows "ensures (rd_lift (res_map (cache_info m) ps)) (\<lambda>qs. length qs = n \<and>
     (\<forall>i < n. pred_id (qs ! i) = of_nat i \<and> length (pred_fields_size (qs ! i)) = num_fields (qs ! i)))"
  by (rule ensures_lift) (use assms in \<open>auto simp: res_map_Inr_iff list_all2_conv_all_nth dest!: cache_info_keeps\<close>)

lemma ensures_load_program: "ensures (load_program dl junk ex) (\<lambda>(prog, ex'). program_ok prog)"
  unfolding load_program_def
proof (rule ensures_bind [OF ensures_header], clarify, rule ensures_any, rule ensures_any, rule ensures_any,
    rule ensures_any, clarify, rule ensures_any, rule ensures_any, rule ensures_bind [OF ensures_rule_names],
    rule ensures_any, rule ensures_any, clarify, rule ensures_any, clarify, rule ensures_bind [OF ensures_predicates])
  fix major minor and num_preds :: byte and num_nodes db imps exports n_args n_rules and rules :: "vm_rule list" and strings types code funs ext ex' and preds :: "(predicate \<times> uint_val) list"
  assume v: "version_at_least major minor 0 5" "\<not> version_at_least major minor 0 10"
    and rules: "length rules = unat (n_rules :: uint_val)" "\<forall>i < unat n_rules. rule_ident (rules ! i) = i \<and> rule_predicates (rules ! i) = []"
    and preds: "length preds = unat num_preds \<and> (\<forall>i < unat num_preds. pred_id (fst (preds ! i)) = of_nat i)"
  show "ensures
        (rd_bind (rd_lift (res_map (cache_info (unat num_preds)) (map fst preds)))
          (\<lambda>predicates. rd_bind read_priority
            (\<lambda>priority. rd_bind (read_predicate_code (map snd preds))
              (\<lambda>pcode. rd_bind (read_rules_code rules (unat num_preds))
                (\<lambda>(rules', affected). rd_return
       (\<lparr>prog_major = major, prog_minor = minor, prog_db_buffer = db, prog_num_nodes = unat num_nodes,
         prog_imports = imps, prog_exports = exports, prog_num_args = unat n_args, prog_rules = rules',
         prog_strings = strings, prog_const_types = types, prog_const_code = code,
         prog_functions = funs, prog_num_ext_functions = map_option fst ext,
         prog_ext_position = map_option snd ext, prog_predicates = predicates,
         prog_affected = affected, prog_code = pcode, prog_route = route_ids (map fst preds),
         prog_safe = all_safe predicates, prog_priority = priority,
         prog_max_level = max_strat_level (map fst preds), prog_data_rule = None, prog_init = None\<rparr>, ex'))))))
        (\<lambda>(prog, ex'). program_ok prog)"
  proof (rule ensures_bind [OF ensures_cached [where n = "unat num_preds"]], goal_cases)
    case (3 qs)
    have n: "unat num_preds < 256" using unsigned_less [of num_preds] by simp
    show ?case
      by (rule ensures_any, rule ensures_bind [OF ensures_predicate_code],
          rule ensures_bind [OF ensures_rules_code [where n = "unat num_preds"]])
        (use 3 v rules preds n in \<open>auto simp: program_ok_def num_predicates_def intro!: ensures_return\<close>)
  qed (use preds in auto)
qed

text \<open>C28: whatever the bytes of a byte-code file, a program that the loader accepts is consistent: predicate
  identifiers are positions, every predicate has its code and its field layout, and rules and
  predicates refer to each other with the same multiplicity, so that the rule engine counts the same
  facts from both sides.\<close>

theorem load_program_consistent:
  assumes "load_program_file dl junk ex file = Inr (prog, ex')"
  shows "program_ok prog"
proof -
  obtain bytes s' where "load_program dl junk ex (bytes, 0) = Inr ((prog, ex'), s')"
    using assms by (auto simp: load_program_file_def res_bind_Inr_iff split: option.splits)
  then show ?thesis using ensures_load_program [of dl junk ex] unfolding ensures_def by fastforce
qed

end
