(* ===== verification/Program_Format.thy ===== *)
theory Program_Format
  imports Vm_Program
begin

text \<open>
  The byte-code file format as an encoder, and the proof that the loader of
  \<open>vm/program.cpp\<close> reads back what the encoder wrote, for every version it accepts.
  The compiler that writes these files is another program; the encoder states, part by
  part, which bytes the readers of Vm_Program stand in front of.
\<close>

section \<open>The content of a file\<close>

record predicate_entry =
  pe_props :: byte
  pe_agg :: byte
  pe_level :: byte
  pe_types :: "field_type list"
  pe_name :: "byte list"
  pe_tag :: byte
  pe_arg :: byte
  pe_code :: "byte list"

record rule_entry =
  re_name :: "byte list"
  re_code :: "byte list"
  re_persistent :: bool
  re_preds :: "predicate_id list"

record extern_entry =
  ee_id :: uint_val
  ee_name :: "byte list"
  ee_lib :: "byte list"
  ee_skip :: ptr_val
  ee_ret :: field_type
  ee_args :: "field_type list"

datatype priority_entry =
    Prio_Default
  | Prio_Data
  | Prio_Float priority_type float_val
  | Prio_Int priority_type int_val

record code_file =
  cf_minor :: uint_val
  cf_nodes :: "(node_val \<times> node_val) list"
  cf_imports :: "(byte list \<times> byte list \<times> byte list) list"
  cf_exports :: "byte list list"
  cf_num_args :: byte
  cf_rules :: "rule_entry list"
  cf_strings :: "byte list list"
  cf_const_types :: "field_type list"
  cf_const_code :: "byte list"
  cf_functions :: "byte list list"
  cf_externs :: "extern_entry list"
  cf_preds :: "predicate_entry list"
  cf_priority :: priority_entry

section \<open>Its bytes\<close>

definition len4 :: "'a list \<Rightarrow> byte list" where
  "len4 xs = le_bytes 4 (of_nat (length xs) :: uint_val)"

definition enc_block :: "byte list \<Rightarrow> byte list" where
  "enc_block bs = len4 bs @ bs"

definition enc_list :: "('a \<Rightarrow> byte list) \<Rightarrow> 'a list \<Rightarrow> byte list" where
  "enc_list enc xs = len4 xs @ concat (map enc xs)"

definition pad_to :: "nat \<Rightarrow> byte list \<Rightarrow> byte list" where
  "pad_to n bs = bs @ replicate (n - length bs) 0"

definition enc_header :: "uint_val \<Rightarrow> byte list" where
  "enc_header minor = le_bytes 4 MAGIC1 @ le_bytes 4 MAGIC2 @ le_bytes 4 (0 :: uint_val) @ le_bytes 4 minor"

definition enc_nodes :: "(node_val \<times> node_val) list \<Rightarrow> byte list" where
  "enc_nodes ns = concat (map (\<lambda>(a, b). le_bytes 4 a @ le_bytes 4 b) ns)"

definition enc_import :: "byte list \<times> byte list \<times> byte list \<Rightarrow> byte list" where
  "enc_import i = (case i of (imp, as, file) \<Rightarrow> enc_block imp @ enc_block as @ enc_block file)"

definition enc_imports :: "code_file \<Rightarrow> byte list" where
  "enc_imports f =
     (if cf_minor f \<ge> 9 then enc_list enc_import (cf_imports f) @ enc_list enc_block (cf_exports f) else [])"

definition enc_constants :: "code_file \<Rightarrow> byte list" where
  "enc_constants f = enc_list (\<lambda>t. [byte_of_field_type t]) (cf_const_types f) @ enc_block (cf_const_code f)"

definition enc_extern :: "extern_entry \<Rightarrow> byte list" where
  "enc_extern e =
     le_bytes 4 (ee_id e) @ pad_to 256 (ee_name e) @ pad_to 1024 (ee_lib e) @ le_bytes 8 (ee_skip e) @
     len4 (ee_args e) @ [byte_of_field_type (ee_ret e)] @ concat (map (\<lambda>t. [byte_of_field_type t]) (ee_args e))"

definition enc_functions :: "code_file \<Rightarrow> byte list" where
  "enc_functions f =
     (if cf_minor f < 6 then []
      else enc_list enc_block (cf_functions f) @
           (if cf_minor f < 7 then [] else enc_list enc_extern (cf_externs f)))"

definition enc_predicate :: "predicate_entry \<Rightarrow> byte list" where
  "enc_predicate p =
     descriptor_bytes (of_nat (length (pe_code p))) (pe_props p) (pe_agg p) (pe_level p) (pe_types p) (pe_name p)
       (pe_tag p) (pe_arg p)"

definition asc_byte :: "priority_type \<Rightarrow> byte" where
  "asc_byte o' = (case o' of PRIORITY_ASC \<Rightarrow> 1 | PRIORITY_DESC \<Rightarrow> 0)"

definition enc_priority :: "priority_entry \<Rightarrow> byte list" where
  "enc_priority p =
     (case p of
        Prio_Default \<Rightarrow> [0]
      | Prio_Data \<Rightarrow> [3]
      | Prio_Float o' v \<Rightarrow> [2, 1, asc_byte o'] @ le_bytes 8 v
      | Prio_Int o' v \<Rightarrow> [2, 2, asc_byte o'] @ le_bytes 4 v)"

definition enc_rule :: "rule_entry \<Rightarrow> byte list" where
  "enc_rule r = enc_block (re_code r) @ [if re_persistent r then 1 else 0] @ enc_list (\<lambda>p. [p]) (re_preds r)"

definition encode_program :: "code_file \<Rightarrow> byte list" where
  "encode_program f =
     enc_header (cf_minor f) @ [of_nat (length (cf_preds f))] @ len4 (cf_nodes f) @ enc_nodes (cf_nodes f) @
     enc_imports f @ [cf_num_args f] @ enc_list (enc_block \<circ> re_name) (cf_rules f) @
     enc_list enc_block (cf_strings f) @ enc_constants f @ enc_functions f @
     concat (map enc_predicate (cf_preds f)) @ enc_priority (cf_priority f) @
     concat (map pe_code (cf_preds f)) @ enc_list enc_rule (cf_rules f)"

section \<open>Files the format can express\<close>

definition fits :: "'a list \<Rightarrow> bool" where
  "fits xs \<longleftrightarrow> length xs < 2 ^ 32"

definition text_ok :: "byte list \<Rightarrow> bool" where
  "text_ok bs \<longleftrightarrow> fits bs \<and> 0 \<notin> set bs"

definition wf_predicate_entry :: "nat \<Rightarrow> predicate_entry \<Rightarrow> bool" where
  "wf_predicate_entry n p \<longleftrightarrow>
     length (pe_types p) \<le> 32 \<and> list_all known_type (pe_types p) \<and> length (pe_name p) < 32 \<and> 0 \<notin> set (pe_name p) \<and>
     fits (pe_code p) \<and>
     (pe_props p AND 0x01 \<noteq> 0 \<and> (pe_tag p = 0x02 \<or> pe_tag p = 0x04) \<longrightarrow> unat (pe_arg p) < n)"

definition wf_rule_entry :: "nat \<Rightarrow> rule_entry \<Rightarrow> bool" where
  "wf_rule_entry n r \<longleftrightarrow>
     re_name r \<noteq> [] \<and> text_ok (re_name r) \<and> fits (re_code r) \<and> length (re_preds r) < 10 \<and>
     list_all (\<lambda>p. unat p < n) (re_preds r)"

definition wf_extern_entry :: "extern_entry \<Rightarrow> bool" where
  "wf_extern_entry e \<longleftrightarrow>
     0 \<notin> set (ee_name e) \<and> length (ee_name e) < 256 \<and> 0 \<notin> set (ee_lib e) \<and> length (ee_lib e) < 1024 \<and>
     length (ee_args e) \<le> 3 \<and> list_all known_type (ee_args e) \<and> known_type (ee_ret e)"

definition wf_code_file :: "code_file \<Rightarrow> bool" where
  "wf_code_file f \<longleftrightarrow>
     5 \<le> cf_minor f \<and> cf_minor f < 10 \<and> length (cf_preds f) < 256 \<and> fits (cf_nodes f) \<and>
     fits (cf_imports f) \<and> list_all (\<lambda>(i, a, file). text_ok i \<and> text_ok a \<and> text_ok file) (cf_imports f) \<and>
     fits (cf_exports f) \<and> list_all text_ok (cf_exports f) \<and>
     fits (cf_rules f) \<and> list_all (wf_rule_entry (length (cf_preds f))) (cf_rules f) \<and>
     length (cf_strings f) < 2 ^ 31 \<and> list_all (\<lambda>s. length s < 2 ^ 31 \<and> 0 \<notin> set s) (cf_strings f) \<and>
     fits (cf_const_types f) \<and> list_all known_type (cf_const_types f) \<and> fits (cf_const_code f) \<and>
     fits (cf_functions f) \<and> list_all fits (cf_functions f) \<and>
     fits (cf_externs f) \<and> list_all wf_extern_entry (cf_externs f) \<and>
     list_all (wf_predicate_entry (length (cf_preds f))) (cf_preds f)"

section \<open>What the loader must find\<close>

text \<open>The bits of the properties, and the two halves of the aggregate byte with the tag behind them.\<close>

definition loaded_aggregate :: "predicate_entry \<Rightarrow> aggregate_info \<Rightarrow> bool" where
  "loaded_aggregate e a \<longleftrightarrow>
     agg_field a = unat (pe_agg e) mod 16 \<and> agg_type a = aggregate_type_of_byte (of_nat (unat (pe_agg e) div 16)) \<and>
     agg_safeness a = (if pe_tag e = 1 then AGG_LOCALLY_GENERATED else if pe_tag e = 2 then AGG_NEIGHBORHOOD
       else if pe_tag e = 4 then AGG_NEIGHBORHOOD_AND_SELF else if pe_tag e = 8 then AGG_IMMEDIATE else AGG_UNSAFE) \<and>
     agg_local_level a = (if pe_tag e = 1 then Some (unat (pe_arg e)) else None) \<and>
     agg_remote_pred a = (if pe_tag e = 2 \<or> pe_tag e = 4 then Some (pe_arg e) else None)"

definition loaded_predicate :: "nat \<Rightarrow> predicate_entry \<Rightarrow> predicate \<Rightarrow> bool" where
  "loaded_predicate i e p \<longleftrightarrow>
     pred_id p = of_nat i \<and> pred_name p = pe_name e \<and> pred_types p = pe_types e \<and> pred_level p = unat (pe_level e) \<and>
     pred_is_route p = bit (pe_props e) 1 \<and> pred_is_reverse_route p = bit (pe_props e) 2 \<and>
     pred_is_linear p = bit (pe_props e) 3 \<and> pred_is_action p = bit (pe_props e) 4 \<and> pred_is_reused p = bit (pe_props e) 5 \<and>
     (case pred_agg p of None \<Rightarrow> \<not> bit (pe_props e) 0 | Some a \<Rightarrow> bit (pe_props e) 0 \<and> loaded_aggregate e a) \<and>
     pred_fields_size p = map (\<lambda>t. projr (field_type_size t)) (pe_types e) \<and>
     pred_tuple_size p = sum_list (pred_fields_size p)"

definition loaded_rule :: "nat \<Rightarrow> rule_entry \<Rightarrow> vm_rule" where
  "loaded_rule i e =
     \<lparr>rule_ident = i, rule_string = re_name e, rule_code = re_code e, rule_predicates = re_preds e,
      rule_is_persistent = re_persistent e\<rparr>"

definition loaded_priority :: "priority_entry \<Rightarrow> priority_info" where
  "loaded_priority p =
     (case p of
        Prio_Default \<Rightarrow> no_priority\<lparr>prio_type := Some FIELD_FLOAT, prio_order := Some PRIORITY_DESC\<rparr>
      | Prio_Data \<Rightarrow> no_priority\<lparr>prio_is_data := True\<rparr>
      | Prio_Float o' v \<Rightarrow> \<lparr>prio_type = Some FIELD_FLOAT, prio_order = Some o', prio_initial = v, prio_is_data = False\<rparr>
      | Prio_Int o' v \<Rightarrow> \<lparr>prio_type = Some FIELD_INT, prio_order = Some o', prio_initial = ucast v, prio_is_data = False\<rparr>)"

definition register_extern :: "dl_api \<Rightarrow> extern_entry \<Rightarrow> externals \<Rightarrow> externals" where
  "register_extern dl e s =
     snd (register_external_function
       (external_entry (Loaded (get_function_pointer dl (ee_lib e) (ee_name e))) (ee_ret e) (ee_args e)) s)"

definition loaded_externals :: "dl_api \<Rightarrow> code_file \<Rightarrow> externals \<Rightarrow> externals \<Rightarrow> bool" where
  "loaded_externals dl f ex ex' \<longleftrightarrow>
     (if cf_minor f < 6 then ex' = ex
      else \<exists>ex1. init_external_functions ex = Inr ex1 \<and>
             ex' = (if cf_minor f < 7 then ex1 else fold (register_extern dl) (cf_externs f) ex1))"

definition loaded_program :: "code_file \<Rightarrow> program \<Rightarrow> bool" where
  "loaded_program f prog \<longleftrightarrow>
     prog_major prog = 0 \<and> prog_minor prog = cf_minor f \<and>
     prog_num_nodes prog = length (cf_nodes f) \<and> prog_db_buffer prog = enc_nodes (cf_nodes f) \<and>
     prog_imports prog = (if cf_minor f \<ge> 9 then map (\<lambda>(i, a, file). new_import i a file) (cf_imports f) else []) \<and>
     prog_exports prog = (if cf_minor f \<ge> 9 then cf_exports f else []) \<and>
     prog_num_args prog = unat (cf_num_args f) \<and>
     prog_rules prog = map (\<lambda>(i, e). loaded_rule i e) (enumerate 0 (cf_rules f)) \<and>
     prog_strings prog = cf_strings f \<and>
     prog_const_types prog = cf_const_types f \<and> prog_const_code prog = cf_const_code f \<and>
     prog_functions prog = (if cf_minor f < 6 then [] else cf_functions f) \<and>
     prog_num_ext_functions prog = (if cf_minor f < 7 then None else Some (length (cf_externs f))) \<and>
     length (prog_predicates prog) = length (cf_preds f) \<and>
     (\<forall>i < length (cf_preds f). loaded_predicate i (cf_preds f ! i) (prog_predicates prog ! i)) \<and>
     prog_code prog = map pe_code (cf_preds f) \<and>
     prog_priority prog = loaded_priority (cf_priority f)"

section \<open>Each part reads back\<close>

lemma length_len4 [simp]: "length (len4 xs) = 4"
  by (simp add: len4_def)

lemma unat_len: "fits xs \<Longrightarrow> unat (of_nat (length xs) :: uint_val) = length xs"
  by (simp add: fits_def unat_of_nat take_bit_nat_eq_self)

lemma c_str_id: "0 \<notin> set bs \<Longrightarrow> c_str bs = bs"
  by (auto simp: c_str_def takeWhile_eq_all_conv)

lemma reads_len4: "reads read_uint (len4 xs) ((=) (of_nat (length xs)))"
  by (simp add: len4_def reads_uint)

lemma reads_block: "fits bs \<Longrightarrow> reads read_code_block (enc_block bs) ((=) bs)"
  unfolding read_code_block_def enc_block_def
  by (rule reads_step [OF reads_len4]) (simp add: reads_READ_CODE unat_len)

lemma reads_string: "text_ok bs \<Longrightarrow> reads read_string (enc_block bs) ((=) bs)"
  unfolding read_string_def enc_block_def text_ok_def
  by (rule reads_step [OF reads_len4], rule reads_last [where P = "(=) bs"])
    (auto intro!: reads_READ_CODE reads_return simp: unat_len c_str_id)

text \<open>A counted loop of readers that return known values.\<close>

lemma reads_list:
  assumes "fits xs" and "\<And>k. k < length xs \<Longrightarrow> reads (f k) (enc (xs ! k)) ((=) (g k (xs ! k)))"
  shows "reads (read_times (unat (of_nat (length xs) :: uint_val)) f) (concat (map enc xs))
    ((=) (map (\<lambda>(k, x). g k x) (enumerate 0 xs)))"
proof -
  have "reads (read_times (length xs) f) (concat (map enc xs)) (\<lambda>ys. length ys = length xs \<and> (\<forall>k < length xs. ys ! k = g k (xs ! k)))"
  proof -
    have "reads (read_times (length xs) f) (concat (map (\<lambda>k. enc (xs ! k)) [0..<length xs]))
      (list_all2 (\<lambda>k. (=) (g k (xs ! k))) [0..<length xs])"
      using reads_times [of "[0..<length xs]" f "\<lambda>k. enc (xs ! k)" "\<lambda>k. (=) (g k (xs ! k))"] assms(2)
      by simp
    moreover have "map (\<lambda>k. enc (xs ! k)) [0..<length xs] = map enc xs" by (rule nth_equalityI) auto
    ultimately have "reads (read_times (length xs) f) (concat (map enc xs)) (list_all2 (\<lambda>k. (=) (g k (xs ! k))) [0..<length xs])"
      by simp
    then show ?thesis by (rule reads_weaken) (auto simp: list_all2_conv_all_nth)
  qed
  then have "reads (read_times (length xs) f) (concat (map enc xs)) ((=) (map (\<lambda>(k, x). g k x) (enumerate 0 xs)))"
  proof (rule reads_weaken)
    fix ys assume "length ys = length xs \<and> (\<forall>k < length xs. ys ! k = g k (xs ! k))"
    then show "map (\<lambda>(k, x). g k x) (enumerate 0 xs) = ys" by (intro nth_equalityI) (auto simp: nth_enumerate_eq)
  qed
  then show ?thesis by (simp add: unat_len [OF assms(1)])
qed

lemma map_enumerate_const [simp]: "map (\<lambda>(k, x). g x) (enumerate n xs) = map g xs"
  by (induction xs arbitrary: n) auto

lemma reads_list_const:
  assumes "fits xs" and "\<And>x. x \<in> set xs \<Longrightarrow> reads f (enc x) ((=) (g x))"
  shows "reads (read_times (unat (of_nat (length xs) :: uint_val)) (\<lambda>_. f)) (concat (map enc xs)) ((=) (map g xs))"
  using reads_list [OF assms(1), of "\<lambda>_. f" enc "\<lambda>_. g"] assms(2) by simp

lemma reads_if: "(b \<Longrightarrow> reads m bs P) \<Longrightarrow> (\<not> b \<Longrightarrow> reads n bs P) \<Longrightarrow> reads (if b then m else n) bs P"
  by simp

lemma reads_times_idx:
  assumes "\<And>k. k < n \<Longrightarrow> reads (f k) (enc k) (P k)"
  shows "reads (read_times n f) (concat (map enc [0..<n])) (\<lambda>ys. length ys = n \<and> (\<forall>k < n. P k (ys ! k)))"
proof -
  have "reads (read_times (length [0..<n]) f) (concat (map enc [0..<n])) (list_all2 P [0..<n])"
    by (rule reads_times) (use assms in simp)
  then show ?thesis by (auto elim!: reads_weaken simp: list_all2_conv_all_nth)
qed

lemma reads_header: "5 \<le> minor \<Longrightarrow> minor < 10 \<Longrightarrow> reads read_header (enc_header minor) ((=) (0, minor))"
  unfolding read_header_def enc_header_def
  by (rule reads_step [OF reads_uint], rule reads_step [OF reads_uint], rule reads_if, simp,
      rule reads_step [OF reads_uint], rule reads_last [OF reads_uint])
    (auto simp: version_at_least_def intro!: reads_return)

lemma reads_import:
  "text_ok i \<Longrightarrow> text_ok a \<Longrightarrow> text_ok file \<Longrightarrow> reads read_import (enc_import (i, a, file)) ((=) (new_import i a file))"
  unfolding read_import_def enc_import_def prod.case
  by (rule reads_step [OF reads_string], assumption, rule reads_step [OF reads_string], assumption,
      rule reads_last [OF reads_string]) (auto intro!: reads_return)

lemma reads_imports:
  assumes "wf_code_file f"
  shows "reads (read_imports 0 (cf_minor f)) (enc_imports f)
    ((=) (if cf_minor f \<ge> 9 then (map (\<lambda>(i, a, file). new_import i a file) (cf_imports f), cf_exports f) else ([], [])))"
proof (cases "cf_minor f \<ge> 9")
  case True
  have i: "fits (cf_imports f)" "\<And>i a file. (i, a, file) \<in> set (cf_imports f) \<Longrightarrow> text_ok i \<and> text_ok a \<and> text_ok file"
    and e: "fits (cf_exports f)" "\<And>s. s \<in> set (cf_exports f) \<Longrightarrow> text_ok s"
    using assms by (auto simp: wf_code_file_def list_all_iff)
  have imps: "reads (read_times (unat (of_nat (length (cf_imports f)) :: uint_val)) (\<lambda>_. read_import))
      (concat (map enc_import (cf_imports f))) ((=) (map (\<lambda>(i, a, file). new_import i a file) (cf_imports f)))"
    by (rule reads_list_const) (use i reads_import in auto)
  have exps: "reads (read_times (unat (of_nat (length (cf_exports f)) :: uint_val)) (\<lambda>_. read_string))
      (concat (map enc_block (cf_exports f))) ((=) (map (\<lambda>x. x) (cf_exports f)))"
    by (rule reads_list_const) (use e reads_string in auto)
  from True show ?thesis
    unfolding read_imports_def enc_imports_def version_at_least_def enc_list_def
    by (simp del: append_assoc add: append_assoc [symmetric])
      (simp only: append_assoc, rule reads_step [OF reads_len4], rule reads_step [OF imps],
       rule reads_step [OF reads_len4], rule reads_last [OF exps], auto intro: reads_return)
qed (simp add: read_imports_def enc_imports_def version_at_least_def reads_return)

lemma reads_rule_names:
  assumes "fits rs" and "list_all (wf_rule_entry n) rs"
  shows "reads (read_times (unat (of_nat (length rs) :: uint_val)) read_rule_name) (concat (map (enc_block \<circ> re_name) rs))
    ((=) (map (\<lambda>(k, e). new_rule k (re_name e)) (enumerate 0 rs)))"
proof (rule reads_list)
  fix k assume "k < length rs"
  then have w: "text_ok (re_name (rs ! k))" "re_name (rs ! k) \<noteq> []"
    using assms(2) by (auto simp: list_all_length wf_rule_entry_def)
  let ?s = "re_name (rs ! k)"
  have len: "unat (of_nat (length ?s) :: uint_val) = length ?s" using w(1) by (simp add: unat_len text_ok_def)
  have pos: "0 < (of_nat (length ?s) :: uint_val)"
    using w(2) len by (metis length_greater_0_conv unat_0 unat_gt_0 word_gt_0)
  have "reads (read_rule_name k) (len4 ?s @ ?s) ((=) (new_rule k ?s))"
    unfolding read_rule_name_def
    by (rule reads_step [OF reads_len4], rule reads_if, (use pos in simp),
        rule reads_last [where P = "(=) ?s"])
      (use w in \<open>auto intro!: reads_READ_CODE reads_return simp: len c_str_id text_ok_def\<close>)
  then show "reads (read_rule_name k) ((enc_block \<circ> re_name) (rs ! k)) ((=) (new_rule k (re_name (rs ! k))))"
    by (simp add: enc_block_def)
qed (rule assms(1))

lemma not_negative: "n < 2 ^ 31 \<Longrightarrow> \<not> (of_nat n :: uint_val) <s 0"
  by (simp add: word_sless_alt sint_uint unsigned_of_nat take_bit_nat_eq_self signed_take_bit_int_eq_self)

lemma reads_const_strings:
  assumes "length ss < 2 ^ 31" and "list_all (\<lambda>s. length s < 2 ^ 31 \<and> 0 \<notin> set s) ss"
  shows "reads read_const_strings (enc_list enc_block ss) ((=) ss)"
proof -
  have s: "reads read_const_string (enc_block s) ((=) s)" if "s \<in> set ss" for s
  proof -
    have w: "length s < 2 ^ 31" "0 \<notin> set s" using assms(2) that by (auto simp: list_all_iff)
    then have "fits s" by (simp add: fits_def)
    then show ?thesis
      unfolding read_const_string_def enc_block_def
      by (intro reads_step [OF reads_len4] reads_if reads_last [where P = "(=) s"])
        (use w not_negative [OF w(1)] in \<open>auto intro!: reads_READ_CODE reads_return simp: unat_len c_str_id\<close>)
  qed
  have "fits ss" using assms(1) by (simp add: fits_def)
  note reads_list_const [OF this, of read_const_string enc_block "\<lambda>x. x", OF s]
  then have "reads (read_times (unat (of_nat (length ss) :: uint_val)) (\<lambda>_. read_const_string)) (concat (map enc_block ss)) ((=) ss)"
    by simp
  then show ?thesis
    unfolding read_const_strings_def enc_list_def
    by (intro reads_step [OF reads_len4] reads_if) (use not_negative [OF assms(1)] in auto)
qed

lemma reads_types:
  assumes "fits ts" and "list_all known_type ts"
  shows "reads (read_times (unat (of_nat (length ts) :: uint_val)) (\<lambda>_. rd_bind read_byte (\<lambda>b. rd_return (field_type_of_byte b))))
    (concat (map (\<lambda>t. [byte_of_field_type t]) ts)) ((=) ts)"
proof -
  have "reads (rd_bind read_byte (\<lambda>b. rd_return (field_type_of_byte b))) [byte_of_field_type t] ((=) t)"
    if "known_type t" for t
    by (rule reads_last [OF reads_byte]) (use that in \<open>auto intro!: reads_return simp: field_type_of_byte_of\<close>)
  then show ?thesis
    using reads_list_const [OF assms(1), of "rd_bind read_byte (\<lambda>b. rd_return (field_type_of_byte b))" "\<lambda>t. [byte_of_field_type t]" "\<lambda>x. x"] assms(2)
    by (simp add: list_all_iff)
qed

lemma reads_constants:
  assumes "wf_code_file f"
  shows "reads read_constants (enc_constants f) ((=) (cf_const_types f, cf_const_code f))"
proof -
  have w: "fits (cf_const_types f)" "list_all known_type (cf_const_types f)" "fits (cf_const_code f)"
    using assms by (auto simp: wf_code_file_def)
  show ?thesis
    unfolding read_constants_def enc_constants_def enc_list_def append_assoc
    by (rule reads_step [OF reads_len4], rule reads_step [OF reads_types [OF w(1,2)]],
        rule reads_last [OF reads_block [OF w(3)]]) (auto intro: reads_return)
qed

lemma reads_blocks: "fits bss \<Longrightarrow> list_all fits bss \<Longrightarrow>
    reads (read_times (unat (of_nat (length bss) :: uint_val)) (\<lambda>_. read_code_block)) (concat (map enc_block bss)) ((=) bss)"
  using reads_list_const [of bss read_code_block enc_block "\<lambda>x. x", OF _ reads_block] by (simp add: list_all_iff)

lemma c_string_pad_to: "0 \<notin> set bs \<Longrightarrow> length bs < n \<Longrightarrow> c_string (pad_to n bs) = Inr bs"
  using c_string_NUL [of bs "replicate (n - length bs - 1) 0"]
  by (cases "n - length bs") (auto simp: pad_to_def)

lemma reads_pad_to: "length bs < n \<Longrightarrow> P (pad_to n bs) \<Longrightarrow> reads (READ_CODE n) (pad_to n bs) P"
  by (rule reads_READ_CODE) (simp_all add: pad_to_def)

lemma reads_extern:
  assumes "wf_extern_entry e"
  shows "reads (read_extern dl k s) (enc_extern e) ((=) (register_extern dl e s))"
proof -
  have w: "0 \<notin> set (ee_name e)" "length (ee_name e) < 256" "0 \<notin> set (ee_lib e)" "length (ee_lib e) < 1024"
    "length (ee_args e) \<le> 3" "list_all known_type (ee_args e)" "known_type (ee_ret e)"
    using assms by (auto simp: wf_extern_entry_def)
  have fits: "fits (ee_args e)" using w(5) by (simp add: fits_def)
  have reg: "add_external_function p (ee_ret e) (ee_args e) s =
      Inr (snd (register_external_function (external_entry p (ee_ret e) (ee_args e)) s))" for p
    using w(5) by (simp add: add_external_function_def external_of_entry)
  show ?thesis
    unfolding read_extern_def enc_extern_def
    by (rule reads_step [OF reads_uint], rule reads_step [where x = "pad_to 256 (ee_name e)", OF reads_pad_to [OF w(2)]], simp,
        rule reads_step [where x = "pad_to 1024 (ee_lib e)", OF reads_pad_to [OF w(4)]], simp,
        rule reads_step [where x = "le_bytes 8 (ee_skip e)", OF reads_READ_CODE], simp, simp,
        rule reads_step0 [where x = "ee_lib e"], simp add: c_string_pad_to w reads_lift,
        rule reads_step0 [where x = "ee_name e"], simp add: c_string_pad_to w reads_lift,
        rule reads_step [OF reads_len4], rule reads_step [OF reads_byte],
        rule reads_last [OF reads_types [OF fits w(6)]])
      (use w in \<open>auto simp: reg register_extern_def field_type_of_byte_of intro!: reads_lift\<close>)
qed

lemma reads_externs:
  assumes "list_all wf_extern_entry es"
  shows "reads (read_loop (read_extern dl) [0..<length es] s) (concat (map enc_extern es))
    ((=) (fold (register_extern dl) es s))"
proof -
  have "reads (read_loop (read_extern dl) [0..<length es] s) (concat (map (\<lambda>k. enc_extern (es ! k)) [0..<length [0..<length es]]))
    ((=) (fold (register_extern dl) (take (length [0..<length es]) es) s))"
    by (rule reads_loop [where Inv = "\<lambda>k. (=) (fold (register_extern dl) (take k es) s)"])
      (use assms in \<open>auto simp: list_all_length take_Suc_conv_app_nth intro: reads_extern\<close>)
  moreover have "map (\<lambda>k. enc_extern (es ! k)) [0..<length es] = map enc_extern es" by (rule nth_equalityI) auto
  ultimately show ?thesis by simp
qed

lemma reads_functions:
  assumes "wf_code_file f" and ini: "init_external_functions ex = Inr ex1"
  shows "reads (read_functions dl 0 (cf_minor f) ex) (enc_functions f)
    (\<lambda>(funs, ext, ex'). funs = (if cf_minor f < 6 then [] else cf_functions f) \<and>
       map_option fst ext = (if cf_minor f < 7 then None else Some (length (cf_externs f))) \<and>
       loaded_externals dl f ex ex')"
proof -
  have w: "fits (cf_functions f)" "list_all fits (cf_functions f)" "fits (cf_externs f)" "list_all wf_extern_entry (cf_externs f)"
    using assms(1) by (auto simp: wf_code_file_def)
  have lt: "cf_minor f < 6 \<Longrightarrow> cf_minor f < 7" by (simp add: word_less_nat_alt)
  consider (a) "cf_minor f < 6" | (b) "\<not> cf_minor f < 6" "cf_minor f < 7" | (c) "\<not> cf_minor f < 7" by blast
  then show ?thesis
  proof cases
    case a
    with lt show ?thesis
      by (auto simp: read_functions_def enc_functions_def version_at_least_def loaded_externals_def intro!: reads_return)
  next
    case b
    then have "enc_functions f = len4 (cf_functions f) @ concat (map enc_block (cf_functions f))"
      and "read_functions dl 0 (cf_minor f) ex = rd_bind read_uint (\<lambda>n. rd_bind (read_times (unat n) (\<lambda>_. read_code_block))
        (\<lambda>functions. rd_bind (rd_lift (init_external_functions ex)) (\<lambda>ex1. rd_return (functions, None, ex1))))"
      by (auto simp: enc_functions_def enc_list_def read_functions_def version_at_least_def not_le [symmetric])
    with b ini show ?thesis
      by (simp only:) (rule reads_step [OF reads_len4], rule reads_last [OF reads_blocks [OF w(1,2)]],
        rule reads_step0 [where x = ex1], auto simp: loaded_externals_def reads_lift intro!: reads_return)
  next
    case c
    then have c': "\<not> cf_minor f < 6" "7 \<le> cf_minor f" by (auto simp: not_less word_le_nat_alt)
    then have "enc_functions f = len4 (cf_functions f) @ concat (map enc_block (cf_functions f)) @
        len4 (cf_externs f) @ concat (map enc_extern (cf_externs f))"
      and "read_functions dl 0 (cf_minor f) ex = rd_bind read_uint (\<lambda>n. rd_bind (read_times (unat n) (\<lambda>_. read_code_block))
        (\<lambda>functions. rd_bind (rd_lift (init_external_functions ex)) (\<lambda>ex1.
          rd_bind read_uint (\<lambda>n_externs. rd_bind rd_position (\<lambda>position.
            rd_bind (read_loop (read_extern dl) [0..<unat n_externs] ex1) (\<lambda>ex2.
            rd_return (functions, Some (unat n_externs, position), ex2)))))))"
      using c by (auto simp: enc_functions_def enc_list_def read_functions_def version_at_least_def)
    moreover have "reads (rd_bind rd_position (\<lambda>position.
            rd_bind (read_loop (read_extern dl) [0..<length (cf_externs f)] ex1) (\<lambda>ex2.
            rd_return (cf_functions f, Some (length (cf_externs f), position), ex2)))) ([] @ concat (map enc_extern (cf_externs f)))
          (\<lambda>(funs, ext, ex'). funs = cf_functions f \<and> map_option fst ext = Some (length (cf_externs f)) \<and>
             loaded_externals dl f ex ex')"
      by (rule reads_bind [OF reads_position], rule reads_last [OF reads_externs [OF w(4)]])
        (use c c' ini in \<open>auto simp: loaded_externals_def intro!: reads_return\<close>)
    ultimately show ?thesis using c c' ini
      by (simp only:) (rule reads_step [OF reads_len4], rule reads_step [OF reads_blocks [OF w(1,2)]],
        rule reads_step0 [where x = ex1], simp add: reads_lift, rule reads_step [OF reads_len4], simp add: unat_len w)
  qed
qed

lemma le_word_le_bytes_take: "(le_word (le_bytes n (v :: 'a::len word)) :: 'b::len word) = take_bit (8 * n) (ucast v)"
proof (induction n arbitrary: v)
  case (Suc n)
  have "(le_word (le_bytes (Suc n) v) :: 'b word) = ucast (ucast v :: byte) OR push_bit 8 (take_bit (8 * n) (ucast (drop_bit 8 v)))"
    using Suc by simp
  also have "\<dots> = take_bit (8 * Suc n) (ucast v)"
    by (rule bit_eqI) (auto simp: bit_simps)
  finally show ?case .
qed simp

lemma le_word_le_bytes_widen: "(le_word (le_bytes 4 (v :: int_val)) :: 64 word) = ucast v"
  by (simp only: le_word_le_bytes_take) (rule bit_eqI, auto simp: bit_simps dest: bit_imp_le_length)

text \<open>Predicates: the descriptor reads back, and the derived information can be computed.\<close>

text \<open>What the descriptor gives before the layout is built and the other predicate is looked up.\<close>

definition read_right :: "nat \<Rightarrow> predicate_entry \<Rightarrow> predicate \<Rightarrow> bool" where
  "read_right i e p \<longleftrightarrow>
     pred_id p = of_nat i \<and> pred_name p = pe_name e \<and> pred_types p = pe_types e \<and> pred_level p = unat (pe_level e) \<and>
     pred_is_linear p = (pe_props e AND 0x08 \<noteq> 0) \<and> pred_is_action p = (pe_props e AND 0x10 \<noteq> 0) \<and>
     pred_is_reused p = (pe_props e AND 0x20 \<noteq> 0) \<and> pred_is_route p = (pe_props e AND 0x02 \<noteq> 0) \<and>
     pred_is_reverse_route p = (pe_props e AND 0x04 \<noteq> 0) \<and>
     pred_agg p = (if pe_props e AND 0x01 \<noteq> 0 then Some (agg_info_of_bytes (pe_agg e) (pe_tag e) (pe_arg e)) else None)"

definition read_back :: "nat \<Rightarrow> nat \<Rightarrow> predicate_entry \<Rightarrow> predicate \<times> uint_val \<Rightarrow> bool" where
  "read_back n i e ps \<longleftrightarrow>
     read_right i e (fst ps) \<and> snd ps = of_nat (length (pe_code e)) \<and> is_ok (cache_info n (fst ps))"

lemma cache_info_ok:
  assumes "list_all known_type (pred_types p)"
    and "\<And>a. pred_agg p = Some a \<Longrightarrow> is_ok (build_aggregate_info n a)"
  shows "is_ok (cache_info n p)"
proof -
  have "is_ok (field_info_loop (pred_types p) 0)"
    using assms(1) by (simp add: field_info_loop_ok list_all_iff known_type_def)
  then obtain r where r: "field_info_loop (pred_types p) 0 = Inr r" by (auto simp: is_ok_iff)
  show ?thesis
    using assms(2) r by (cases r) (auto simp: cache_info_def build_field_info_def is_ok_iff split: option.splits)
qed

lemma build_aggregate_info_ok:
  "(tag = 0x02 \<or> tag = 0x04 \<Longrightarrow> unat arg < n) \<Longrightarrow> is_ok (build_aggregate_info n (agg_info_of_bytes agg tag arg))"
  by (auto simp: build_aggregate_info_def agg_info_of_bytes_def Let_def)

lemma reads_predicate:
  assumes "wf_predicate_entry n e"
  shows "reads (read_predicate junk i) (enc_predicate e) (read_back n i e)"
proof -
  have w: "length (pe_types e) \<le> 32" "list_all known_type (pe_types e)" "length (pe_name e) < 32" "0 \<notin> set (pe_name e)"
    "pe_props e AND 0x01 \<noteq> 0 \<and> (pe_tag e = 0x02 \<or> pe_tag e = 0x04) \<longrightarrow> unat (pe_arg e) < n"
    using assms by (auto simp: wf_predicate_entry_def)
  obtain p where p: "make_predicate_from_buf (junk i) (enc_predicate e) (of_nat i) = Inr (p, of_nat (length (pe_code e)))"
    and right: "read_right i e p"
    using make_predicate_from_descriptor [OF w(1-4)] unfolding enc_predicate_def read_right_def by blast
  have "is_ok (cache_info n p)"
    by (rule cache_info_ok) (use right w in \<open>auto simp: read_right_def intro: build_aggregate_info_ok split: if_splits\<close>)
  then have "read_back n i e (p, of_nat (length (pe_code e)))"
    using right by (simp add: read_back_def)
  moreover have "length (enc_predicate e) = PREDICATE_DESCRIPTOR_SIZE"
    using descriptor_parts(1) [OF w(1,3)] by (simp add: enc_predicate_def PREDICATE_DESCRIPTOR_SIZE_def)
  ultimately show ?thesis
    unfolding read_predicate_def
    by (intro reads_last [where P = "(=) (enc_predicate e)"] reads_READ_CODE) (use p(1) in \<open>auto intro: reads_lift\<close>)
qed

lemma reads_predicates:
  assumes "list_all (wf_predicate_entry n) es"
  shows "reads (read_times (length es) (read_predicate junk)) (concat (map enc_predicate es))
    (\<lambda>ps. length ps = length es \<and> (\<forall>k < length es. read_back n k (es ! k) (ps ! k)))"
proof -
  have "reads (read_times (length es) (read_predicate junk)) (concat (map (\<lambda>k. enc_predicate (es ! k)) [0..<length es]))
    (\<lambda>ps. length ps = length es \<and> (\<forall>k < length es. read_back n k (es ! k) (ps ! k)))"
    by (rule reads_times_idx) (use assms in \<open>auto simp: list_all_length intro: reads_predicate\<close>)
  moreover have "map (\<lambda>k. enc_predicate (es ! k)) [0..<length es] = map enc_predicate es" by (rule nth_equalityI) auto
  ultimately show ?thesis by simp
qed

lemma byte_halves: "unat (b AND 0xf) = unat b mod 16" "drop_bit 4 (0xf0 AND b) = of_nat (unat b div 16)" for b :: byte
proof -
  have "\<forall>n \<in> set [0..<256]. unat ((of_nat n :: byte) AND 0xf) = n mod 16 \<and> drop_bit 4 (0xf0 AND (of_nat n :: byte)) = of_nat (n div 16)"
    by code_simp
  moreover have "unat b \<in> set [0..<256]" using unsigned_less [of b, where 'a = nat] by simp
  ultimately have "unat ((of_nat (unat b) :: byte) AND 0xf) = unat b mod 16 \<and> drop_bit 4 (0xf0 AND (of_nat (unat b) :: byte)) = of_nat (unat b div 16)"
    by blast
  then show "unat (b AND 0xf) = unat b mod 16" "drop_bit 4 (0xf0 AND b) = of_nat (unat b div 16)" by simp_all
qed

lemma byte_bits:
  "b AND 0x01 \<noteq> 0 \<longleftrightarrow> bit b 0" "b AND 0x02 \<noteq> 0 \<longleftrightarrow> bit b 1" "b AND 0x04 \<noteq> 0 \<longleftrightarrow> bit b 2"
  "b AND 0x08 \<noteq> 0 \<longleftrightarrow> bit b 3" "b AND 0x10 \<noteq> 0 \<longleftrightarrow> bit b 4" "b AND 0x20 \<noteq> 0 \<longleftrightarrow> bit b 5" for b :: byte
  using and_exp_eq_0_iff_not_bit [of b 0] and_exp_eq_0_iff_not_bit [of b 1] and_exp_eq_0_iff_not_bit [of b 2]
    and_exp_eq_0_iff_not_bit [of b 3] and_exp_eq_0_iff_not_bit [of b 4] and_exp_eq_0_iff_not_bit [of b 5] by simp_all

lemma loaded_aggregate_built:
  "build_aggregate_info n (agg_info_of_bytes (pe_agg e) (pe_tag e) (pe_arg e)) = Inr a \<Longrightarrow> loaded_aggregate e a"
  by (auto simp: build_aggregate_info_def agg_info_of_bytes_def loaded_aggregate_def byte_halves(1) byte_halves(2) [simplified] Let_def split: if_splits)

lemma field_sizes: "field_info_loop ts off = Inr (ss, os, tot) \<Longrightarrow> ss = map (\<lambda>t. projr (field_type_size t)) ts"
  using field_info_loop_spec [of ts off ss os tot] by (auto intro!: nth_equalityI)

lemma loaded_predicate_cached:
  assumes "read_right i e p" and "cache_info n p = Inr q"
  shows "loaded_predicate i e q"
proof -
  obtain ss os tot where f: "field_info_loop (pred_types p) 0 = Inr (ss, os, tot)"
    using assms(2) by (auto simp: cache_info_def build_field_info_def res_bind_Inr_iff)
  let ?r = "p\<lparr>pred_fields_size := ss, pred_fields_offset := os, pred_tuple_size := tot\<rparr>"
  have c: "cache_info n p = (case pred_agg p of None \<Rightarrow> Inr ?r
      | Some a \<Rightarrow> res_bind (build_aggregate_info n a) (\<lambda>a'. Inr (?r\<lparr>pred_agg := Some a'\<rparr>)))"
    by (simp add: cache_info_def build_field_info_def f)
  note p = assms(1) [unfolded read_right_def byte_bits]
  have tot: "tot = sum_list ss" using field_info_loop_spec [OF f] by simp
  show ?thesis
  proof (cases "pred_agg p")
    case None
    with c assms(2) have q: "q = ?r" by simp
    from None p have "\<not> bit (pe_props e) 0" by (auto split: if_splits)
    with p None tot field_sizes [OF f] show ?thesis by (simp add: q loaded_predicate_def)
  next
    case (Some a)
    with p have a: "bit (pe_props e) 0" "a = agg_info_of_bytes (pe_agg e) (pe_tag e) (pe_arg e)" by (auto split: if_splits)
    have "res_bind (build_aggregate_info n a) (\<lambda>a'. Inr (?r\<lparr>pred_agg := Some a'\<rparr>)) = Inr q"
      using Some assms(2) unfolding c by simp
    then obtain a' where a': "build_aggregate_info n a = Inr a'" and q: "q = ?r\<lparr>pred_agg := Some a'\<rparr>"
      by (auto elim: res_bind_InrE)
    have "loaded_aggregate e a'" using a' unfolding a(2) by (rule loaded_aggregate_built)
    with p a(1) tot field_sizes [OF f] show ?thesis by (simp add: q loaded_predicate_def)
  qed
qed

lemma cached_predicates:
  assumes "length ps = length es" and "\<forall>k < length es. read_back n k (es ! k) (ps ! k)"
  shows "\<exists>qs. res_map (cache_info n) (map fst ps) = Inr qs \<and> length qs = length es \<and>
    (\<forall>k < length es. loaded_predicate k (es ! k) (qs ! k))"
proof -
  define qs where "qs = map (\<lambda>p. projr (cache_info n (fst p))) ps"
  have k: "cache_info n (fst (ps ! k)) = Inr (qs ! k)" if "k < length es" for k
    using assms that by (cases "cache_info n (fst (ps ! k))") (auto simp: read_back_def qs_def)
  then have "res_map (cache_info n) (map fst ps) = Inr qs"
    using assms(1) by (simp add: res_map_Inr_iff list_all2_conv_all_nth qs_def)
  moreover have "loaded_predicate k (es ! k) (qs ! k)" if "k < length es" for k
    using assms(2) that k [OF that] loaded_predicate_cached by (auto simp: read_back_def)
  ultimately show ?thesis using assms(1) by (auto simp: qs_def)
qed

lemma reads_predicate_code:
  assumes "list_all (wf_predicate_entry n) es" and "map snd ps = map (\<lambda>e. of_nat (length (pe_code e))) es"
  shows "reads (read_predicate_code (map snd ps)) (concat (map pe_code es)) ((=) (map pe_code es))"
proof -
  have "reads (read_predicate_code (map snd ps)) (concat (map (\<lambda>k. pe_code (es ! k)) [0..<length (map snd ps)]))
    ((=) (map pe_code (take (length (map snd ps)) es)))"
    unfolding read_predicate_code_def
  proof (rule reads_loop [where Inv = "\<lambda>k. (=) (map pe_code (take k es))"])
    fix k acc assume k: "k < length (map snd ps)" and acc: "map pe_code (take k es) = acc"
    have l: "length ps = length es" using assms(2) map_eq_imp_length_eq by blast
    with k have k': "k < length es" by simp
    have "map snd ps ! k = map (\<lambda>e. of_nat (length (pe_code e))) es ! k" using assms(2) by simp
    with k k' have sz: "snd (ps ! k) = of_nat (length (pe_code (es ! k)))" by simp
    have "fits (pe_code (es ! k))" using assms(1) k' by (auto simp: list_all_length wf_predicate_entry_def)
    then show "reads (rd_bind (READ_CODE (unat (map snd ps ! k))) (\<lambda>code. rd_return (acc @ [code])))
        (pe_code (es ! k)) ((=) (map pe_code (take (Suc k) es)))"
      using k k' acc sz
      by (intro reads_last [where P = "(=) (pe_code (es ! k))"])
        (auto intro!: reads_READ_CODE reads_return simp: unat_len take_Suc_conv_app_nth)
  qed simp
  moreover have "length (map snd ps) = length es" using assms(2) map_eq_imp_length_eq by fastforce
  moreover have "map (\<lambda>k. pe_code (es ! k)) [0..<length es] = map pe_code es" by (rule nth_equalityI) auto
  ultimately show ?thesis by simp
qed

lemma reads_priority: "reads read_priority (enc_priority p) ((=) (loaded_priority p))"
proof -
  have fl: "reads read_normal_priority ([1, asc_byte o'] @ le_bytes 8 v) ((=) (loaded_priority (Prio_Float o' v)))" for o' v
  proof -
    have "reads read_normal_priority ([1] @ [asc_byte o'] @ le_bytes 8 v) ((=) (loaded_priority (Prio_Float o' v)))"
      unfolding read_normal_priority_def
      by (rule reads_step [OF reads_byte], rule reads_if, simp, rule reads_step [OF reads_byte],
          rule reads_last [where P = "(=) (le_bytes 8 v)"])
        (auto intro!: reads_READ_CODE reads_return simp: loaded_priority_def asc_byte_def le_word_le_bytes_full split: priority_type.splits)
    then show ?thesis by simp
  qed
  have int: "reads read_normal_priority ([2, asc_byte o'] @ le_bytes 4 v) ((=) (loaded_priority (Prio_Int o' v)))" for o' v
  proof -
    have u: "(le_word (le_bytes 4 v) :: 64 word) = ucast v" by (rule le_word_le_bytes_widen)
    have "reads read_normal_priority ([2] @ [asc_byte o'] @ le_bytes 4 v) ((=) (loaded_priority (Prio_Int o' v)))"
      unfolding read_normal_priority_def
      by (rule reads_step [OF reads_byte], rule reads_if, simp, rule reads_step [OF reads_byte],
          rule reads_last [where P = "(=) (le_bytes 4 v)"])
        (auto intro!: reads_READ_CODE reads_return simp: loaded_priority_def asc_byte_def u split: priority_type.splits)
    then show ?thesis by simp
  qed
  show ?thesis
  proof (cases p)
    case (Prio_Float o' v)
    have "reads read_priority ([2] @ ([1, asc_byte o'] @ le_bytes 8 v)) ((=) (loaded_priority p))"
      unfolding read_priority_def Prio_Float by (rule reads_step [OF reads_byte]) (use fl in simp)
    then show ?thesis by (simp add: Prio_Float enc_priority_def)
  next
    case (Prio_Int o' v)
    have "reads read_priority ([2] @ ([2, asc_byte o'] @ le_bytes 4 v)) ((=) (loaded_priority p))"
      unfolding read_priority_def Prio_Int by (rule reads_step [OF reads_byte]) (use int in simp)
    then show ?thesis by (simp add: Prio_Int enc_priority_def)
  qed (use reads_byte in \<open>auto simp: read_priority_def enc_priority_def loaded_priority_def intro!: reads_last [OF reads_byte] reads_return\<close>)
qed

text \<open>Rules: the names come first, the code and the predicates at the end of the file.\<close>

lemma reads_rule_predicates:
  assumes "list_all (\<lambda>p. unat p < n) ps" and "length affected = n"
  shows "reads (read_loop (read_rule_predicate i) [0..<length ps] (r, affected)) (concat (map (\<lambda>p. [p]) ps))
    (\<lambda>(r', affected'). r' = r\<lparr>rule_predicates := rule_predicates r @ ps\<rparr> \<and> length affected' = n)"
proof -
  let ?Inv = "\<lambda>j (r' :: vm_rule, affected'). r' = r\<lparr>rule_predicates := rule_predicates r @ take j ps\<rparr> \<and> length affected' = n"
  have "reads (read_loop (read_rule_predicate i) [0..<length ps] (r, affected))
      (concat (map (\<lambda>j. [ps ! j]) [0..<length [0..<length ps]])) (?Inv (length [0..<length ps]))"
  proof (rule reads_loop)
    fix j and a :: "vm_rule \<times> rule_id list list" assume j: "j < length [0..<length ps]" and a: "?Inv j a"
    have p: "unat (ps ! j) < n" using assms(1) j by (simp add: list_all_length)
    obtain r' affected' where a': "a = (r', affected')" by (cases a)
    show "reads (read_rule_predicate i ([0..<length ps] ! j) a) [ps ! j] (?Inv (Suc j))"
      unfolding read_rule_predicate_def a' prod.case
      by (rule reads_last [OF reads_byte])
        (use a a' j p in \<open>auto simp: add_predicate_def take_Suc_conv_app_nth intro!: reads_return\<close>)
  qed (use assms(2) in simp)
  moreover have "map (\<lambda>j. [ps ! j]) [0..<length ps] = map (\<lambda>p. [p]) ps" by (rule nth_equalityI) auto
  ultimately show ?thesis by simp
qed

definition rules_upto :: "nat \<Rightarrow> rule_entry list \<Rightarrow> vm_rule list" where
  "rules_upto k es = map (\<lambda>(i, e). if i < k then loaded_rule i e else new_rule i (re_name e)) (enumerate 0 es)"

lemma length_rules_upto [simp]: "length (rules_upto k es) = length es"
  by (simp add: rules_upto_def)

lemma rules_upto_nth: "i < length es \<Longrightarrow>
    rules_upto k es ! i = (if i < k then loaded_rule i (es ! i) else new_rule i (re_name (es ! i)))"
  by (simp add: rules_upto_def nth_enumerate_eq)

lemma reads_rule_code:
  assumes "k < length es" and "wf_rule_entry n (es ! k)" and "length affected = n"
  shows "reads (read_rule_code k (rules_upto k es, affected)) (enc_rule (es ! k))
    (\<lambda>(rules, affected'). rules = rules_upto (Suc k) es \<and> length affected' = n)"
proof -
  let ?e = "es ! k"
  have w: "fits (re_code ?e)" "fits (re_preds ?e)" "length (re_preds ?e) < 10" "list_all (\<lambda>p. unat p < n) (re_preds ?e)"
    using assms(2) by (auto simp: wf_rule_entry_def fits_def)
  let ?r1 = "set_bytecode (re_code ?e) (rules_upto k es ! k)"
  let ?r2 = "if (if re_persistent ?e then 1 else 0) = (0x1 :: byte) then set_as_persistent ?r1 else ?r1"
  have small: "(of_nat (length (re_preds ?e)) :: uint_val) < 10"
    using w(3) by (simp add: word_less_nat_alt unat_len [OF w(2)])
  have upd: "(rules_upto k es)[k := ?r2\<lparr>rule_predicates := rule_predicates ?r2 @ re_preds ?e\<rparr>] = rules_upto (Suc k) es"
    by (rule nth_equalityI)
      (use assms(1) in \<open>auto simp: nth_list_update rules_upto_nth set_bytecode_def set_as_persistent_def new_rule_def
        loaded_rule_def less_Suc_eq\<close>)
  have loop: "reads (read_loop (read_rule_predicate k) [0..<unat (of_nat (length (re_preds ?e)) :: uint_val)] (?r2, affected))
      (concat (map (\<lambda>p. [p]) (re_preds ?e)))
      (\<lambda>(r', affected'). r' = ?r2\<lparr>rule_predicates := rule_predicates ?r2 @ re_preds ?e\<rparr> \<and> length affected' = n)"
    using reads_rule_predicates [OF w(4) assms(3)] by (simp add: unat_len [OF w(2)])
  show ?thesis
    unfolding read_rule_code_def enc_rule_def enc_list_def prod.case Let_def
  proof (rule reads_step [OF reads_block [OF w(1)]], rule reads_step [OF reads_byte], rule reads_step [OF reads_len4],
      rule reads_if)
    show "reads (rd_bind (read_loop (read_rule_predicate k) [0..<unat (of_nat (length (re_preds ?e)) :: uint_val)] (?r2, affected))
         (\<lambda>(r3, affected'). rd_return ((rules_upto k es)[k := r3], affected')))
       (concat (map (\<lambda>p. [p]) (re_preds ?e)))
       (\<lambda>(rules, affected'). rules = rules_upto (Suc k) es \<and> length affected' = n)"
    proof (rule reads_last [OF loop])
      fix x :: "vm_rule \<times> rule_id list list"
      assume "case x of (r', affected') \<Rightarrow> r' = ?r2\<lparr>rule_predicates := rule_predicates ?r2 @ re_preds ?e\<rparr> \<and> length affected' = n"
      then obtain affected' where x: "x = (?r2\<lparr>rule_predicates := rule_predicates ?r2 @ re_preds ?e\<rparr>, affected')"
        and l: "length affected' = n" by (cases x) simp
      show "reads (case x of (r3, affected') \<Rightarrow> rd_return ((rules_upto k es)[k := r3], affected')) []
         (\<lambda>(rules, affected'). rules = rules_upto (Suc k) es \<and> length affected' = n)"
        unfolding x prod.case upd by (rule reads_return) (simp add: l)
    qed
  qed (use small in simp)
qed

lemma reads_rules_code:
  assumes "fits es" and "list_all (wf_rule_entry n) es"
  shows "reads (read_rules_code (rules_upto 0 es) n) (enc_list enc_rule es)
    (\<lambda>(rules, affected). rules = rules_upto (length es) es)"
proof -
  let ?Inv = "\<lambda>k (rules, affected :: rule_id list list). rules = rules_upto k es \<and> length affected = n"
  have "reads (read_loop read_rule_code [0..<length es] (rules_upto 0 es, replicate n []))
      (concat (map (\<lambda>k. enc_rule (es ! k)) [0..<length [0..<length es]])) (?Inv (length [0..<length es]))"
    by (rule reads_loop) (use assms(2) in \<open>auto simp: list_all_length intro!: reads_rule_code\<close>)
  moreover have "map (\<lambda>k. enc_rule (es ! k)) [0..<length es] = map enc_rule es" by (rule nth_equalityI) auto
  ultimately have "reads (read_loop read_rule_code [0..<length es] (rules_upto 0 es, replicate n []))
      (concat (map enc_rule es)) (?Inv (length es))" by simp
  then have "reads (read_loop read_rule_code [0..<length es] (rules_upto 0 es, replicate n []))
      (concat (map enc_rule es)) (\<lambda>(rules, affected). rules = rules_upto (length es) es)"
    by (rule reads_weaken) auto
  then show ?thesis
    unfolding read_rules_code_def enc_list_def
    by (intro reads_step [OF reads_len4] reads_if) (simp_all add: unat_len [OF assms(1)])
qed

section \<open>The whole file\<close>

lemma length_enc_nodes: "length (enc_nodes ns) = 8 * length ns"
  by (induction ns) (auto simp: enc_nodes_def)

lemma unat_num_preds: "length xs < 256 \<Longrightarrow> unat (of_nat (length xs) :: byte) = length xs"
  by (rule unat_byte_of_nat)

lemma rules_upto_0: "rules_upto 0 es = map (\<lambda>(k, e). new_rule k (re_name e)) (enumerate 0 es)"
  by (auto simp: rules_upto_def)

lemma rules_upto_all: "rules_upto (length es) es = map (\<lambda>(k, e). loaded_rule k e) (enumerate 0 es)"
  by (rule nth_equalityI) (auto simp: rules_upto_nth nth_enumerate_eq)

lemma reads_lift_step: "r = Inr x \<Longrightarrow> reads (f x) bs Q \<Longrightarrow> reads (rd_bind (rd_lift r) f) bs Q"
  by (rule reads_step0 [of _ x]) (auto intro: reads_lift)

lemma read_back_sizes:
  "length ps = length es \<Longrightarrow> \<forall>k < length es. read_back n k (es ! k) (ps ! k) \<Longrightarrow>
   map snd ps = map (\<lambda>e. of_nat (length (pe_code e))) es"
  by (rule nth_equalityI) (auto simp: read_back_def)

lemma reads_program:
  assumes wf: "wf_code_file f" and ini: "init_external_functions ex = Inr ex1"
  shows "reads (load_program dl junk ex) (encode_program f)
    (\<lambda>(prog, ex'). loaded_program f prog \<and> loaded_externals dl f ex ex')"
proof -
  let ?n = "length (cf_preds f)"
  have w: "5 \<le> cf_minor f" "cf_minor f < 10" "?n < 256" "fits (cf_nodes f)" "fits (cf_rules f)"
    "list_all (wf_rule_entry ?n) (cf_rules f)" "length (cf_strings f) < 2 ^ 31"
    "list_all (\<lambda>s. length s < 2 ^ 31 \<and> 0 \<notin> set s) (cf_strings f)"
    "list_all (wf_predicate_entry ?n) (cf_preds f)"
    using wf by (auto simp: wf_code_file_def)
  obtain imps exps where ie: "(if cf_minor f \<ge> 9 then (map (\<lambda>(i, a, file). new_import i a file) (cf_imports f), cf_exports f) else ([], [])) = (imps, exps)"
    by (cases "cf_minor f \<ge> 9") auto
  have imp: "reads (read_imports 0 (cf_minor f)) (enc_imports f) ((=) (imps, exps))"
    using reads_imports [OF wf] by (simp only: ie)
  have db: "reads (READ_CODE (unat (of_nat (length (cf_nodes f)) :: uint_val) * node_size)) (enc_nodes (cf_nodes f)) ((=) (enc_nodes (cf_nodes f)))"
    by (rule reads_READ_CODE) (simp_all add: length_enc_nodes node_size_def unat_len [OF w(4)])
  have names: "reads (read_times (unat (of_nat (length (cf_rules f)) :: uint_val)) read_rule_name) (concat (map (enc_block \<circ> re_name) (cf_rules f)))
      ((=) (rules_upto 0 (cf_rules f)))"
    using reads_rule_names [OF w(5,6)] by (simp only: rules_upto_0)
  have preds: "reads (read_times (unat (of_nat ?n :: byte)) (read_predicate junk)) (concat (map enc_predicate (cf_preds f)))
    (\<lambda>ps. length ps = ?n \<and> (\<forall>k < ?n. read_back ?n k (cf_preds f ! k) (ps ! k)))"
    unfolding unat_num_preds [OF w(3)] by (rule reads_predicates [OF w(9)])
  have rules: "reads (read_rules_code (rules_upto 0 (cf_rules f)) (unat (of_nat ?n :: byte))) (enc_list enc_rule (cf_rules f))
    (\<lambda>(rules, affected). rules = rules_upto (length (cf_rules f)) (cf_rules f))"
    unfolding unat_num_preds [OF w(3)] by (rule reads_rules_code [OF w(5,6)])
  have nodes: "unat (of_nat (length (cf_nodes f)) :: uint_val) = length (cf_nodes f)" by (rule unat_len [OF w(4)])
  show ?thesis
    unfolding load_program_def encode_program_def append_assoc
    apply (rule reads_step [OF reads_header [OF w(1,2)]], simp only: prod.case)
    apply (rule reads_step [OF reads_byte])
    apply (rule reads_step [OF reads_len4])
    apply (rule reads_step [OF db])
    apply (rule reads_step [OF imp], simp only: prod.case)
    apply (rule reads_step [OF reads_byte])
    apply (unfold enc_list_def [of "enc_block \<circ> re_name"] append_assoc)
    apply (rule reads_step [OF reads_len4])
    apply (rule reads_step [OF names])
    apply (rule reads_step [OF reads_const_strings [OF w(7,8)]])
    apply (rule reads_step [OF reads_constants [OF wf]], simp only: prod.case)
    apply (rule reads_bind [OF reads_functions [OF wf ini]])
    apply (simp only: split_paired_all prod.case)
    apply (rule reads_bind [OF preds])
    apply (erule conjE, frule (1) cached_predicates, elim exE conjE)
    apply (simp only: unat_num_preds [OF w(3)])
    apply (rule reads_lift_step [OF refl])
    apply (rule reads_step [OF reads_priority])
    apply (rule reads_step [OF reads_predicate_code [OF w(9) read_back_sizes]], assumption, assumption)
    apply (rule reads_last [OF rules [unfolded unat_num_preds [OF w(3)]]])
    apply (simp only: split_paired_all prod.case)
    apply (rule reads_return)
    apply (use ie in \<open>auto simp: loaded_program_def nodes rules_upto_all unat_len [OF w(4)] split: if_splits\<close>)
    done
qed

lemma init_external_functions_returns: "\<exists>ex1. init_external_functions ex = Inr ex1"
proof -
  have "list_all (\<lambda>(n, r, args). length args \<le> 3) builtin_functions" by (simp add: builtin_functions_def)
  from register_all_spec [OF this] show ?thesis by (auto simp: init_external_functions_def)
qed

lemma load_encoded_program:
  assumes "wf_code_file f"
  shows "\<exists>prog ex'. load_program_file dl junk ex (Some (encode_program f @ rest)) = Inr (prog, ex') \<and>
    loaded_program f prog \<and> loaded_externals dl f ex ex'"
proof -
  obtain ex1 where "init_external_functions ex = Inr ex1" using init_external_functions_returns by blast
  from reads_program [OF assms this]
  obtain r where r: "load_program dl junk ex (encode_program f @ rest, 0) = Inr (r, (rest, length (encode_program f)))"
    "case r of (prog, ex') \<Rightarrow> loaded_program f prog \<and> loaded_externals dl f ex ex'"
    unfolding reads_def by (metis add_0)
  then show ?thesis by (cases r) (auto simp: load_program_file_def)
qed


definition sample_file :: code_file where
  "sample_file =
     \<lparr>cf_minor = 9, cf_nodes = [(0, 0), (1, 5)], cf_imports = [([0x61], [0x62], [0x63])], cf_exports = [[0x61]],
      cf_num_args = 1,
      cf_rules = [\<lparr>re_name = [0x72], re_code = [0x00], re_persistent = False, re_preds = [0, 1]\<rparr>,
                  \<lparr>re_name = [0x73], re_code = [0x01, 0x00], re_persistent = True, re_preds = [1]\<rparr>],
      cf_strings = [[0x68, 0x69]], cf_const_types = [FIELD_INT], cf_const_code = [0x00],
      cf_functions = [[0x00]],
      cf_externs = [\<lparr>ee_id = 38, ee_name = [0x66], ee_lib = [0x6c], ee_skip = 0, ee_ret = FIELD_INT, ee_args = [FIELD_INT]\<rparr>],
      cf_preds = [\<lparr>pe_props = 0x08, pe_agg = 0, pe_level = 0, pe_types = [], pe_name = init_name, pe_tag = 0, pe_arg = 0, pe_code = [0x00]\<rparr>,
                  \<lparr>pe_props = 0x03, pe_agg = 0x21, pe_level = 1, pe_types = [FIELD_NODE, FIELD_INT], pe_name = [0x65],
                    pe_tag = 0x02, pe_arg = 0, pe_code = [0x01, 0x00]\<rparr>],
      cf_priority = Prio_Int PRIORITY_ASC 7\<rparr>"

lemma sample_file_ok: "wf_code_file sample_file"
  by (simp add: wf_code_file_def sample_file_def wf_rule_entry_def wf_extern_entry_def wf_predicate_entry_def
      fits_def text_ok_def known_type_def init_name_def)

definition no_dl :: dl_api where
  "no_dl = \<lparr>dlopen = (\<lambda>_. None), dlsym = (\<lambda>_ _. None)\<rparr>"


theorem load_program_consistent_witness:
  "\<exists>prog ex'. load_program_file no_dl (\<lambda>_. []) no_externals (Some (encode_program sample_file)) = Inr (prog, ex') \<and>
     program_ok prog \<and> prog_code prog = [[0x00], [0x01, 0x00]]"
proof -
  obtain prog ex' where l: "load_program_file no_dl (\<lambda>_. []) no_externals (Some (encode_program sample_file)) = Inr (prog, ex')"
    and p: "loaded_program sample_file prog"
    using load_encoded_program [OF sample_file_ok, of no_dl "\<lambda>_. []" no_externals "[]"] by auto
  have "program_ok prog" by (rule load_program_consistent [OF l])
  moreover have "prog_code prog = [[0x00], [0x01, 0x00]]" using p by (simp add: loaded_program_def sample_file_def)
  ultimately show ?thesis using l by blast
qed

end
