(* ===== verification/Rule_Matcher.thy ===== *)
theory Rule_Matcher
  imports Program_Format
begin

text \<open>
  The rule engine's bookkeeping, \<open>vm/rule_matcher.hpp\<close> and \<open>vm/rule_matcher.cpp\<close>, one
  object per node: for each predicate the number of its tuples on the node, for each
  rule how many of its predicates have a tuple, and the sets of rules that became
  derivable or stopped being so. \<open>matcher_step\<close> is the protocol its callers follow;
  on every state it reaches, the active rules are exactly those all of whose predicates
  have tuples.
\<close>

section \<open>State\<close>

record rule_matcher_obj =
  total_have :: "64 word"
  total_needed :: "64 word"
  rm_ignore :: bool

record rule_matcher =
  rm_rules :: "rule_matcher_obj list"
  predicate_count :: "16 word list"
  active_rules :: "rule_id set"
  dropped_rules :: "rule_id set"

section \<open>Operations\<close>

definition new_matcher_obj :: "vm_rule \<Rightarrow> rule_matcher_obj" where
  "new_matcher_obj r =
     \<lparr>total_have = 0, total_needed = of_nat (rule_num_predicates r), rm_ignore = rule_is_persistent r\<rparr>"

definition new_rule_matcher :: "program \<Rightarrow> rule_matcher" where
  "new_rule_matcher prog =
     \<lparr>rm_rules = map new_matcher_obj (prog_rules prog), predicate_count = replicate (num_predicates prog) 0,
      active_rules = {}, dropped_rules = {}\<rparr>"

definition availability_step :: "rule_id \<Rightarrow> rule_matcher \<Rightarrow> rule_matcher res" where
  "availability_step rule m =
     (if rule \<ge> length (rm_rules m) then Inl Bad_Access
      else (let obj = rm_rules m ! rule in
        if rm_ignore obj then Inr m
        else (let obj' = obj\<lparr>total_have := total_have obj + 1\<rparr>;
                  m' = m\<lparr>rm_rules := (rm_rules m)[rule := obj']\<rparr>
              in if total_have obj' = total_needed obj'
                 then Inr (m'\<lparr>active_rules := insert rule (active_rules m'),
                              dropped_rules := dropped_rules m' - {rule}\<rparr>)
                 else Inr m')))"

definition unavailability_step :: "rule_id \<Rightarrow> rule_matcher \<Rightarrow> rule_matcher res" where
  "unavailability_step rule m =
     (if rule \<ge> length (rm_rules m) then Inl Bad_Access
      else (let obj = rm_rules m ! rule in
        if rm_ignore obj then Inr m
        else (let m' = (if total_have obj = total_needed obj
                        then m\<lparr>active_rules := active_rules m - {rule},
                               dropped_rules := insert rule (dropped_rules m)\<rparr>
                        else m)
              in Inr (m'\<lparr>rm_rules := (rm_rules m')[rule := obj\<lparr>total_have := total_have obj - 1\<rparr>]\<rparr>))))"

fun res_fold :: "('i \<Rightarrow> 's \<Rightarrow> 's res) \<Rightarrow> 'i list \<Rightarrow> 's \<Rightarrow> 's res" where
  "res_fold f [] s = Inr s"
| "res_fold f (i # is) s = res_bind (f i s) (\<lambda>s'. res_fold f is s')"

definition register_predicate_availability :: "rule_id list \<Rightarrow> rule_matcher \<Rightarrow> rule_matcher res" where
  "register_predicate_availability affected m = res_fold availability_step affected m"

definition register_predicate_unavailability :: "rule_id list \<Rightarrow> rule_matcher \<Rightarrow> rule_matcher res" where
  "register_predicate_unavailability affected m = res_fold unavailability_step affected m"

text \<open>
  A tuple enters by the identifier of its predicate, whose affected rules the program
  has. The addition to \<open>predicate_count\<close> is on sixteen bits.
\<close>

definition register_tuple :: "program \<Rightarrow> predicate_id \<Rightarrow> 16 word \<Rightarrow> bool \<Rightarrow> rule_matcher \<Rightarrow> (bool \<times> rule_matcher) res" where
  "register_tuple prog p cnt is_new m =
     (let i = unat p in
      if i \<ge> length (predicate_count m) \<or> i \<ge> length (prog_affected prog) then Inl Bad_Access
      else (let ret = is_new \<and> predicate_count m ! i = 0 in
        res_bind (if ret then register_predicate_availability (prog_affected prog ! i) m else Inr m) (\<lambda>m'.
        Inr (ret, m'\<lparr>predicate_count := (predicate_count m')[i := predicate_count m' ! i + cnt]\<rparr>))))"

definition deregister_tuple :: "program \<Rightarrow> predicate_id \<Rightarrow> 16 word \<Rightarrow> rule_matcher \<Rightarrow> (bool \<times> rule_matcher) res" where
  "deregister_tuple prog p cnt m =
     (let i = unat p in
      if i \<ge> length (predicate_count m) \<or> i \<ge> length (prog_affected prog) then Inl Bad_Access
      else if \<not> cnt \<le>s predicate_count m ! i then Inl Assert_Failed
      else (let ret = predicate_count m ! i = cnt in
        res_bind (if ret then register_predicate_unavailability (prog_affected prog ! i) m else Inr m) (\<lambda>m'.
        Inr (ret, m'\<lparr>predicate_count := (predicate_count m')[i := predicate_count m' ! i - cnt]\<rparr>))))"

definition clear_dropped_rules :: "rule_matcher \<Rightarrow> rule_matcher" where
  "clear_dropped_rules m = m\<lparr>dropped_rules := {}\<rparr>"

section \<open>The protocol\<close>

text \<open>
  The steps of the callers: a tuple is registered as not new only when its predicate has
  tuples, what is deregistered was registered, and the counts stay below \<open>2^15\<close>.
\<close>

inductive matcher_step :: "program \<Rightarrow> rule_matcher \<Rightarrow> rule_matcher \<Rightarrow> bool" for prog where
  step_register:
    "unat p < num_predicates prog \<Longrightarrow> 0 <s cnt \<Longrightarrow> sint (predicate_count m ! unat p) + sint cnt < 2 ^ 15 \<Longrightarrow>
     is_new \<or> predicate_count m ! unat p \<noteq> 0 \<Longrightarrow>
     register_tuple prog p cnt is_new m = Inr (r, m') \<Longrightarrow> matcher_step prog m m'"
| step_deregister:
    "unat p < num_predicates prog \<Longrightarrow> 0 <s cnt \<Longrightarrow> deregister_tuple prog p cnt m = Inr (r, m') \<Longrightarrow>
     matcher_step prog m m'"
| step_clear: "matcher_step prog m (clear_dropped_rules m)"

inductive matcher_reachable :: "program \<Rightarrow> rule_matcher \<Rightarrow> bool" for prog where
  reach_start: "matcher_reachable prog (new_rule_matcher prog)"
| reach_step: "matcher_reachable prog m \<Longrightarrow> matcher_step prog m m' \<Longrightarrow> matcher_reachable prog m'"

inductive_cases matcher_stepE: "matcher_step prog m m'"

section \<open>The invariant\<close>

text \<open>How many of the predicates of a rule have tuples, by the counts.\<close>

definition available :: "16 word list \<Rightarrow> predicate_id \<Rightarrow> bool" where
  "available counts p \<longleftrightarrow> counts ! unat p \<noteq> 0"

definition have_of :: "16 word list \<Rightarrow> vm_rule \<Rightarrow> nat" where
  "have_of counts r = length (filter (available counts) (rule_predicates r))"

definition rule_ready :: "16 word list \<Rightarrow> vm_rule \<Rightarrow> bool" where
  "rule_ready counts r \<longleftrightarrow>
     \<not> rule_is_persistent r \<and> rule_predicates r \<noteq> [] \<and> (\<forall>p \<in> set (rule_predicates r). available counts p)"

definition matcher_ok :: "program \<Rightarrow> rule_matcher \<Rightarrow> bool" where
  "matcher_ok prog m \<longleftrightarrow>
     length (rm_rules m) = num_rules prog \<and> length (predicate_count m) = num_predicates prog \<and>
     (\<forall>p < num_predicates prog. 0 \<le>s predicate_count m ! p) \<and>
     (\<forall>i < num_rules prog.
        rm_rules m ! i = \<lparr>total_have = (if rule_is_persistent (prog_rules prog ! i) then 0
                                         else of_nat (have_of (predicate_count m) (prog_rules prog ! i))),
                          total_needed = of_nat (rule_num_predicates (prog_rules prog ! i)),
                          rm_ignore = rule_is_persistent (prog_rules prog ! i)\<rparr>) \<and>
     active_rules m = {i. i < num_rules prog \<and> rule_ready (predicate_count m) (prog_rules prog ! i)} \<and>
     active_rules m \<inter> dropped_rules m = {}"

lemma have_of_le: "have_of counts r \<le> rule_num_predicates r"
  by (simp add: have_of_def rule_num_predicates_def)

lemma have_of_all: "have_of counts r = rule_num_predicates r \<longleftrightarrow> (\<forall>p \<in> set (rule_predicates r). available counts p)"
proof
  assume l: "have_of counts r = rule_num_predicates r"
  show "\<forall>p \<in> set (rule_predicates r). available counts p"
    using l length_filter_less [of _ "rule_predicates r" "available counts"]
    unfolding have_of_def rule_num_predicates_def by fastforce
qed (simp add: have_of_def rule_num_predicates_def)

section \<open>The loops over the affected rules\<close>

text \<open>The rules that a loop over \<open>affected\<close> completes or finds complete.\<close>

definition completed :: "rule_id list \<Rightarrow> rule_matcher \<Rightarrow> rule_id set" where
  "completed affected m =
     {i. i \<in> set affected \<and> \<not> rm_ignore (rm_rules m ! i) \<and>
         unat (total_have (rm_rules m ! i)) + count_list affected i = unat (total_needed (rm_rules m ! i))}"

definition found_complete :: "rule_id list \<Rightarrow> rule_matcher \<Rightarrow> rule_id set" where
  "found_complete affected m =
     {i. i \<in> set affected \<and> \<not> rm_ignore (rm_rules m ! i) \<and>
         total_have (rm_rules m ! i) = total_needed (rm_rules m ! i)}"

definition add_have :: "64 word \<Rightarrow> rule_matcher_obj \<Rightarrow> rule_matcher_obj" where
  "add_have k obj = (if rm_ignore obj then obj else obj\<lparr>total_have := total_have obj + k\<rparr>)"

lemma unat_add_1: "unat (a :: 64 word) + Suc k \<le> unat (b :: 64 word) \<Longrightarrow> unat (a + 1) = unat a + 1"
proof -
  assume "unat a + Suc k \<le> unat b"
  moreover have "unat b < 2 ^ LENGTH(64)" by (rule unsigned_less)
  ultimately show ?thesis by (simp add: unat_word_ariths)
qed

lemma availability_loop:
  assumes "\<forall>i \<in> set affected. i < length (rm_rules m)"
    and "\<forall>i < length (rm_rules m). \<not> rm_ignore (rm_rules m ! i) \<longrightarrow>
        unat (total_have (rm_rules m ! i)) + count_list affected i \<le> unat (total_needed (rm_rules m ! i))"
  shows "\<exists>m'. register_predicate_availability affected m = Inr m' \<and>
    predicate_count m' = predicate_count m \<and> length (rm_rules m') = length (rm_rules m) \<and>
    (\<forall>i < length (rm_rules m). rm_rules m' ! i = add_have (of_nat (count_list affected i)) (rm_rules m ! i)) \<and>
    active_rules m' = active_rules m \<union> completed affected m \<and>
    dropped_rules m' = dropped_rules m - completed affected m"
  using assms unfolding register_predicate_availability_def
proof (induction affected arbitrary: m)
  case Nil
  then show ?case by (simp add: completed_def add_have_def)
next
  case (Cons r affected)
  let ?o = "rm_rules m ! r"
  have r: "r < length (rm_rules m)" using Cons.prems(1) by simp
  show ?case
  proof (cases "rm_ignore ?o")
    case True
    then have "availability_step r m = Inr m" using r by (simp add: availability_step_def)
    moreover have "completed (r # affected) m = completed affected m" using True by (auto simp: completed_def)
    moreover have "\<forall>i < length (rm_rules m). \<not> rm_ignore (rm_rules m ! i) \<longrightarrow>
        unat (total_have (rm_rules m ! i)) + count_list affected i \<le> unat (total_needed (rm_rules m ! i))"
    proof (intro allI impI)
      fix i assume "i < length (rm_rules m)" "\<not> rm_ignore (rm_rules m ! i)"
      from Cons.prems(2) [rule_format, OF this]
      show "unat (total_have (rm_rules m ! i)) + count_list affected i \<le> unat (total_needed (rm_rules m ! i))"
        by (simp split: if_splits)
    qed
    ultimately show ?thesis using Cons.IH [of m] Cons.prems(1) True by (auto simp: add_have_def)
  next
    case False
    let ?o' = "?o\<lparr>total_have := total_have ?o + 1\<rparr>"
    let ?m1 = "m\<lparr>rm_rules := (rm_rules m)[r := ?o']\<rparr>"
    define m2 where "m2 = (if total_have ?o' = total_needed ?o'
      then ?m1\<lparr>active_rules := insert r (active_rules m), dropped_rules := dropped_rules m - {r}\<rparr> else ?m1)"
    have m2: "rm_rules m2 = (rm_rules m)[r := ?o']" "predicate_count m2 = predicate_count m"
      "active_rules m2 = (if total_have ?o + 1 = total_needed ?o then insert r (active_rules m) else active_rules m)"
      "dropped_rules m2 = (if total_have ?o + 1 = total_needed ?o then dropped_rules m - {r} else dropped_rules m)"
      by (simp_all add: m2_def)
    have step: "availability_step r m = Inr m2"
      using r False by (simp add: availability_step_def Let_def m2_def)
    have le: "unat (total_have ?o) + Suc (count_list affected r) \<le> unat (total_needed ?o)"
      using Cons.prems(2) r False by fastforce
    have u: "unat (total_have ?o + 1) = unat (total_have ?o) + 1" using unat_add_1 [OF le] .
    have eq: "total_have ?o + 1 = total_needed ?o \<longleftrightarrow> unat (total_have ?o) + 1 = unat (total_needed ?o)"
      using u by (metis word_unat_eq_iff)
    have "\<forall>i \<in> set affected. i < length (rm_rules m2)" using Cons.prems(1) by (simp add: m2)
    moreover have "\<forall>i < length (rm_rules m2). \<not> rm_ignore (rm_rules m2 ! i) \<longrightarrow>
        unat (total_have (rm_rules m2 ! i)) + count_list affected i \<le> unat (total_needed (rm_rules m2 ! i))"
    proof (intro allI impI)
      fix i assume i: "i < length (rm_rules m2)" "\<not> rm_ignore (rm_rules m2 ! i)"
      show "unat (total_have (rm_rules m2 ! i)) + count_list affected i \<le> unat (total_needed (rm_rules m2 ! i))"
      proof (cases "i = r")
        case False
        with i Cons.prems(2) [rule_format, of i] show ?thesis by (simp add: m2(1))
      qed (use r u le in \<open>simp add: m2(1)\<close>)
    qed
    ultimately obtain m' where m': "res_fold availability_step affected m2 = Inr m'"
      "predicate_count m' = predicate_count m2" "length (rm_rules m') = length (rm_rules m2)"
      "\<forall>i < length (rm_rules m2). rm_rules m' ! i = add_have (of_nat (count_list affected i)) (rm_rules m2 ! i)"
      "active_rules m' = active_rules m2 \<union> completed affected m2"
      "dropped_rules m' = dropped_rules m2 - completed affected m2"
      using Cons.IH [of m2] by blast
    have cnt0: "count_list affected r = 0 \<longleftrightarrow> r \<notin> set affected" by (simp add: count_list_0_iff)
    have compl: "completed (r # affected) m =
        (if total_have ?o + 1 = total_needed ?o then {r} else {}) \<union> completed affected m2"
      unfolding completed_def m2(1) using False r u le eq cnt0
      by (auto simp: nth_list_update split: if_splits)
    have "rm_rules m' ! i = add_have (of_nat (count_list (r # affected) i)) (rm_rules m ! i)"
      if "i < length (rm_rules m)" for i
      using m'(4) that False r unfolding m2(1) by (auto simp: nth_list_update add_have_def)
    then show ?thesis using step m' compl by (auto simp: m2)
  qed
qed

lemma unavailability_loop:
  assumes "\<forall>i \<in> set affected. i < length (rm_rules m)"
    and "\<forall>i < length (rm_rules m). \<not> rm_ignore (rm_rules m ! i) \<longrightarrow>
        count_list affected i \<le> unat (total_have (rm_rules m ! i)) \<and>
        total_have (rm_rules m ! i) \<le> total_needed (rm_rules m ! i)"
  shows "\<exists>m'. register_predicate_unavailability affected m = Inr m' \<and>
    predicate_count m' = predicate_count m \<and> length (rm_rules m') = length (rm_rules m) \<and>
    (\<forall>i < length (rm_rules m). rm_rules m' ! i = add_have (- of_nat (count_list affected i)) (rm_rules m ! i)) \<and>
    active_rules m' = active_rules m - found_complete affected m \<and>
    dropped_rules m' = dropped_rules m \<union> found_complete affected m"
  using assms unfolding register_predicate_unavailability_def
proof (induction affected arbitrary: m)
  case Nil
  then show ?case by (simp add: found_complete_def add_have_def)
next
  case (Cons r affected)
  let ?o = "rm_rules m ! r"
  have r: "r < length (rm_rules m)" using Cons.prems(1) by simp
  show ?case
  proof (cases "rm_ignore ?o")
    case True
    then have "unavailability_step r m = Inr m" using r by (simp add: unavailability_step_def)
    moreover have "found_complete (r # affected) m = found_complete affected m" using True by (auto simp: found_complete_def)
    moreover have "\<forall>i < length (rm_rules m). \<not> rm_ignore (rm_rules m ! i) \<longrightarrow>
        count_list affected i \<le> unat (total_have (rm_rules m ! i)) \<and>
        total_have (rm_rules m ! i) \<le> total_needed (rm_rules m ! i)"
    proof (intro allI impI)
      fix i assume "i < length (rm_rules m)" "\<not> rm_ignore (rm_rules m ! i)"
      from Cons.prems(2) [rule_format, OF this]
      show "count_list affected i \<le> unat (total_have (rm_rules m ! i)) \<and>
          total_have (rm_rules m ! i) \<le> total_needed (rm_rules m ! i)"
        by (simp split: if_splits)
    qed
    ultimately show ?thesis using Cons.IH [of m] Cons.prems(1) True by (auto simp: add_have_def)
  next
    case False
    let ?o' = "?o\<lparr>total_have := total_have ?o - 1\<rparr>"
    let ?m1 = "if total_have ?o = total_needed ?o
      then m\<lparr>active_rules := active_rules m - {r}, dropped_rules := insert r (dropped_rules m)\<rparr> else m"
    define m2 where "m2 = ?m1\<lparr>rm_rules := (rm_rules m)[r := ?o']\<rparr>"
    have m2: "rm_rules m2 = (rm_rules m)[r := ?o']" "predicate_count m2 = predicate_count m"
      "active_rules m2 = (if total_have ?o = total_needed ?o then active_rules m - {r} else active_rules m)"
      "dropped_rules m2 = (if total_have ?o = total_needed ?o then insert r (dropped_rules m) else dropped_rules m)"
      by (simp_all add: m2_def)
    have step: "unavailability_step r m = Inr m2"
      using r False by (simp add: unavailability_step_def Let_def m2_def)
    have le: "Suc (count_list affected r) \<le> unat (total_have ?o)" "total_have ?o \<le> total_needed ?o"
      using Cons.prems(2) r False by fastforce+
    then have u: "unat (total_have ?o - 1) = unat (total_have ?o) - 1"
      by (intro unat_minus_one) auto
    have ne: "total_have ?o - 1 \<noteq> total_needed ?o" "total_have ?o - 1 \<le> total_needed ?o"
      using le u by (auto simp: word_le_nat_alt)
    have "\<forall>i \<in> set affected. i < length (rm_rules m2)" using Cons.prems(1) by (simp add: m2)
    moreover have "\<forall>i < length (rm_rules m2). \<not> rm_ignore (rm_rules m2 ! i) \<longrightarrow>
        count_list affected i \<le> unat (total_have (rm_rules m2 ! i)) \<and>
        total_have (rm_rules m2 ! i) \<le> total_needed (rm_rules m2 ! i)"
    proof (intro allI impI)
      fix i assume i: "i < length (rm_rules m2)" "\<not> rm_ignore (rm_rules m2 ! i)"
      show "count_list affected i \<le> unat (total_have (rm_rules m2 ! i)) \<and>
          total_have (rm_rules m2 ! i) \<le> total_needed (rm_rules m2 ! i)"
      proof (cases "i = r")
        case False
        with i Cons.prems(2) [rule_format, of i] show ?thesis by (simp add: m2(1))
      qed (use r u le ne in \<open>simp add: m2(1)\<close>)
    qed
    ultimately obtain m' where m': "res_fold unavailability_step affected m2 = Inr m'"
      "predicate_count m' = predicate_count m2" "length (rm_rules m') = length (rm_rules m2)"
      "\<forall>i < length (rm_rules m2). rm_rules m' ! i = add_have (- of_nat (count_list affected i)) (rm_rules m2 ! i)"
      "active_rules m' = active_rules m2 - found_complete affected m2"
      "dropped_rules m' = dropped_rules m2 \<union> found_complete affected m2"
      using Cons.IH [of m2] by blast
    have compl: "found_complete (r # affected) m =
        (if total_have ?o = total_needed ?o then {r} else {}) \<union> found_complete affected m2"
      unfolding found_complete_def m2(1) using False r ne
      by (auto simp: nth_list_update split: if_splits)
    have "rm_rules m' ! i = add_have (- of_nat (count_list (r # affected) i)) (rm_rules m ! i)"
      if "i < length (rm_rules m)" for i
      using m'(4) that False r unfolding m2(1) by (auto simp: nth_list_update add_have_def)
    then show ?thesis using step m' compl by (auto simp: m2)
  qed
qed

section \<open>The invariant holds\<close>

lemma linked_affected:
  fixes p :: predicate_id
  assumes "linked n rules affected" and "unat p < n"
  shows "\<forall>i \<in> set (affected ! unat p). i < length rules"
    and "i < length rules \<Longrightarrow> count_list (affected ! unat p) i = count_list (rule_predicates (rules ! i)) p"
proof -
  have c: "count_list (affected ! unat p) i =
        (if i < length rules then count_list (rule_predicates (rules ! i)) p else 0)" for i
    using assms by (simp add: linked_def)
  show "\<forall>i \<in> set (affected ! unat p). i < length rules"
    using c by (metis count_list_0_iff)
  show "i < length rules \<Longrightarrow> count_list (affected ! unat p) i = count_list (rule_predicates (rules ! i)) p"
    using c by simp
qed

lemma filter_length_split:
  "(\<And>q. q \<noteq> p \<Longrightarrow> P q = Q q) \<Longrightarrow> P p \<Longrightarrow> \<not> Q p \<Longrightarrow>
   length (filter P xs) = length (filter Q xs) + count_list xs p"
  by (induction xs) auto

lemma have_of_update:
  fixes p :: predicate_id
  assumes "unat p < length counts" and "counts ! unat p = 0" and "c \<noteq> 0"
  shows "have_of (counts[unat p := c]) r = have_of counts r + count_list (rule_predicates r) p"
  unfolding have_of_def
proof (rule filter_length_split)
  fix q :: predicate_id assume "q \<noteq> p"
  then have "unat q \<noteq> unat p" using word_unat_eq_iff by blast
  then show "available (counts[unat p := c]) q = available counts q" by (simp add: available_def)
qed (use assms in \<open>auto simp: available_def\<close>)

lemma have_of_same:
  fixes p :: predicate_id
  assumes "unat p < length counts" and "(counts ! unat p = 0) = (c = 0)"
  shows "have_of (counts[unat p := c]) r = have_of counts r" and "rule_ready (counts[unat p := c]) r = rule_ready counts r"
proof -
  have "available (counts[unat p := c]) q = available counts q" for q
    using assms by (cases "q = p") (auto simp: available_def nth_list_update)
  then have "available (counts[unat p := c]) = available counts" by (rule ext)
  then show "have_of (counts[unat p := c]) r = have_of counts r" "rule_ready (counts[unat p := c]) r = rule_ready counts r"
    by (simp_all add: have_of_def rule_ready_def)
qed

lemma ready_iff_have: "rule_ready counts r \<longleftrightarrow>
    \<not> rule_is_persistent r \<and> 0 < rule_num_predicates r \<and> have_of counts r = rule_num_predicates r"
  unfolding have_of_all by (auto simp: rule_ready_def rule_num_predicates_def)

lemma num_preds_small: "program_ok prog \<Longrightarrow> i < num_rules prog \<Longrightarrow> rule_num_predicates (prog_rules prog ! i) < 10"
  by (simp add: program_ok_def linked_def num_rules_def rule_num_predicates_def)

lemma unat_small: "n < 10 \<Longrightarrow> unat (of_nat n :: 64 word) = n"
  by (simp add: unat_of_nat take_bit_nat_eq_self)

lemma new_rule_matcher_ok:
  assumes "program_ok prog"
  shows "matcher_ok prog (new_rule_matcher prog)"
proof -
  have z: "have_of (replicate n 0) r = 0" if "\<forall>p \<in> set (rule_predicates r). unat p < n" for n r
    using that by (auto simp: have_of_def available_def filter_empty_conv)
  have l: "\<forall>p \<in> set (rule_predicates (prog_rules prog ! i)). unat p < num_predicates prog" if "i < num_rules prog" for i
    using assms that by (auto simp: program_ok_def linked_def num_rules_def)
  have h: "have_of (replicate (num_predicates prog) 0) (prog_rules prog ! i) = 0" if "i < num_rules prog" for i
    using z l that by blast
  show ?thesis
    by (auto simp: matcher_ok_def new_rule_matcher_def num_rules_def [symmetric] new_matcher_obj_def h ready_iff_have)
qed

text \<open>The rule objects of a state that satisfies the invariant.\<close>

lemma matcher_ok_have:
  assumes "program_ok prog" "matcher_ok prog m" "i < num_rules prog" "\<not> rm_ignore (rm_rules m ! i)"
  shows "unat (total_have (rm_rules m ! i)) = have_of (predicate_count m) (prog_rules prog ! i)"
    and "unat (total_needed (rm_rules m ! i)) = rule_num_predicates (prog_rules prog ! i)"
    and "have_of (predicate_count m) (prog_rules prog ! i) < 10"
    and "\<not> rule_is_persistent (prog_rules prog ! i)"
proof -
  let ?r = "prog_rules prog ! i"
  have small: "rule_num_predicates ?r < 10" by (rule num_preds_small [OF assms(1,3)])
  then show "have_of (predicate_count m) ?r < 10" using have_of_le [of "predicate_count m" ?r] by simp
  then show "unat (total_have (rm_rules m ! i)) = have_of (predicate_count m) ?r"
    "unat (total_needed (rm_rules m ! i)) = rule_num_predicates ?r" "\<not> rule_is_persistent ?r"
    using assms(2-4) small by (auto simp: matcher_ok_def unat_small split: if_splits)
qed

lemma counts_nonneg:
  assumes "matcher_ok prog m" and "n < num_predicates prog" and "0 \<le>s c"
  shows "\<forall>q < num_predicates prog. 0 \<le>s (predicate_count m)[n := c] ! q"
proof (intro allI impI)
  fix q assume "q < num_predicates prog"
  then show "0 \<le>s (predicate_count m)[n := c] ! q"
    using assms by (cases "q = n") (auto simp: matcher_ok_def)
qed

lemma register_availability_ok:
  fixes p :: predicate_id
  assumes prog: "program_ok prog" and ok: "matcher_ok prog m" and p: "unat p < num_predicates prog"
    and zero: "predicate_count m ! unat p = 0" and c: "0 <s c"
  shows "\<exists>m'. register_predicate_availability (prog_affected prog ! unat p) m = Inr m' \<and>
    predicate_count m' = predicate_count m \<and> matcher_ok prog (m'\<lparr>predicate_count := (predicate_count m')[unat p := c]\<rparr>)"
proof -
  let ?a = "prog_affected prog ! unat p" and ?counts = "(predicate_count m)[unat p := c]"
  have len: "length (rm_rules m) = num_rules prog" "length (predicate_count m) = num_predicates prog"
    using ok by (auto simp: matcher_ok_def)
  have link: "linked (num_predicates prog) (prog_rules prog) (prog_affected prog)"
    using prog by (simp add: program_ok_def)
  have in_range: "\<forall>i \<in> set ?a. i < num_rules prog"
    and cnt: "\<And>i. i < num_rules prog \<Longrightarrow> count_list ?a i = count_list (rule_predicates (prog_rules prog ! i)) p"
    using linked_affected [OF link p] by (auto simp: num_rules_def)
  have c0: "c \<noteq> 0" using c by auto
  have upd: "have_of ?counts r = have_of (predicate_count m) r + count_list (rule_predicates r) p" for r
    by (rule have_of_update) (use len p zero c0 in auto)
  have sums: "unat (total_have (rm_rules m ! i)) + count_list ?a i = have_of ?counts (prog_rules prog ! i)"
    if "i < num_rules prog" "\<not> rm_ignore (rm_rules m ! i)" for i
    using matcher_ok_have [OF prog ok that] cnt [OF that(1)] upd by simp
  have "\<forall>i < length (rm_rules m). \<not> rm_ignore (rm_rules m ! i) \<longrightarrow>
        unat (total_have (rm_rules m ! i)) + count_list ?a i \<le> unat (total_needed (rm_rules m ! i))"
    using sums matcher_ok_have(2) [OF prog ok] have_of_le by (simp add: len)
  then obtain m' where m': "register_predicate_availability ?a m = Inr m'"
    "predicate_count m' = predicate_count m" "length (rm_rules m') = length (rm_rules m)"
    "\<forall>i < length (rm_rules m). rm_rules m' ! i = add_have (of_nat (count_list ?a i)) (rm_rules m ! i)"
    "active_rules m' = active_rules m \<union> completed ?a m"
    "dropped_rules m' = dropped_rules m - completed ?a m"
    using availability_loop [of ?a m] in_range len by auto
  have compl: "i \<in> completed ?a m \<longleftrightarrow> i < num_rules prog \<and> rule_ready ?counts (prog_rules prog ! i) \<and> p \<in> set (rule_predicates (prog_rules prog ! i))" for i
  proof (cases "i < num_rules prog")
    case True
    have ign: "rm_ignore (rm_rules m ! i) = rule_is_persistent (prog_rules prog ! i)" using ok True by (simp add: matcher_ok_def)
    have mem: "i \<in> set ?a \<longleftrightarrow> p \<in> set (rule_predicates (prog_rules prog ! i))"
      using cnt [OF True] by (metis count_list_0_iff)
    show ?thesis
    proof (cases "rm_ignore (rm_rules m ! i)")
      case False
      then show ?thesis
        using True mem ign sums [OF True False] matcher_ok_have(2) [OF prog ok True False]
        by (auto simp: completed_def ready_iff_have rule_num_predicates_def)
    qed (use ign in \<open>auto simp: completed_def ready_iff_have\<close>)
  qed (use in_range in \<open>auto simp: completed_def\<close>)
  have rest: "rule_ready ?counts (prog_rules prog ! i) \<longleftrightarrow> rule_ready (predicate_count m) (prog_rules prog ! i)"
    if "p \<notin> set (rule_predicates (prog_rules prog ! i))" for i
    using upd [of "prog_rules prog ! i"] that by (simp add: ready_iff_have count_list_0_iff)
  have was: "\<not> rule_ready (predicate_count m) r" if "p \<in> set (rule_predicates r)" for r
    using that zero by (auto simp: rule_ready_def available_def)
  have active: "active_rules m' = {i. i < num_rules prog \<and> rule_ready ?counts (prog_rules prog ! i)}"
    using m'(5) ok compl rest was by (auto simp: matcher_ok_def)
  have "matcher_ok prog (m'\<lparr>predicate_count := ?counts\<rparr>)"
    unfolding matcher_ok_def
  proof (intro conjI)
    show "\<forall>i < num_rules prog. rm_rules (m'\<lparr>predicate_count := ?counts\<rparr>) ! i =
       \<lparr>total_have = (if rule_is_persistent (prog_rules prog ! i) then 0
                       else of_nat (have_of (predicate_count (m'\<lparr>predicate_count := ?counts\<rparr>)) (prog_rules prog ! i))),
        total_needed = of_nat (rule_num_predicates (prog_rules prog ! i)),
        rm_ignore = rule_is_persistent (prog_rules prog ! i)\<rparr>"
      using m'(4) ok cnt upd len by (auto simp: matcher_ok_def add_have_def)
    show "\<forall>q < num_predicates prog. 0 \<le>s predicate_count (m'\<lparr>predicate_count := ?counts\<rparr>) ! q"
      using counts_nonneg [OF ok p, of c] c by (simp add: word_sless_alt word_sle_eq)
    show "active_rules (m'\<lparr>predicate_count := ?counts\<rparr>) \<inter> dropped_rules (m'\<lparr>predicate_count := ?counts\<rparr>) = {}"
      using m'(5,6) ok by (auto simp: matcher_ok_def)
  qed (use m'(3) len active in auto)
  then show ?thesis using m'(1,2) by auto
qed

lemma register_unavailability_ok:
  fixes p :: predicate_id
  assumes prog: "program_ok prog" and ok: "matcher_ok prog m" and p: "unat p < num_predicates prog"
    and pos: "predicate_count m ! unat p \<noteq> 0"
  shows "\<exists>m'. register_predicate_unavailability (prog_affected prog ! unat p) m = Inr m' \<and>
    predicate_count m' = predicate_count m \<and> matcher_ok prog (m'\<lparr>predicate_count := (predicate_count m')[unat p := 0]\<rparr>)"
proof -
  let ?a = "prog_affected prog ! unat p" and ?counts = "(predicate_count m)[unat p := 0]"
  have len: "length (rm_rules m) = num_rules prog" "length (predicate_count m) = num_predicates prog"
    using ok by (auto simp: matcher_ok_def)
  have link: "linked (num_predicates prog) (prog_rules prog) (prog_affected prog)"
    using prog by (simp add: program_ok_def)
  have in_range: "\<forall>i \<in> set ?a. i < num_rules prog"
    and cnt: "\<And>i. i < num_rules prog \<Longrightarrow> count_list ?a i = count_list (rule_predicates (prog_rules prog ! i)) p"
    using linked_affected [OF link p] by (auto simp: num_rules_def)
  have "predicate_count m = ?counts[unat p := predicate_count m ! unat p]" by simp
  then have upd: "have_of (predicate_count m) r = have_of ?counts r + count_list (rule_predicates r) p" for r
    using have_of_update [of p ?counts "predicate_count m ! unat p" r] len p pos by simp
  have sums: "unat (total_have (rm_rules m ! i)) = have_of ?counts (prog_rules prog ! i) + count_list ?a i"
    if "i < num_rules prog" "\<not> rm_ignore (rm_rules m ! i)" for i
    using matcher_ok_have [OF prog ok that] cnt [OF that(1)] upd by simp
  have "\<forall>i < length (rm_rules m). \<not> rm_ignore (rm_rules m ! i) \<longrightarrow>
        count_list ?a i \<le> unat (total_have (rm_rules m ! i)) \<and> total_have (rm_rules m ! i) \<le> total_needed (rm_rules m ! i)"
  proof (intro allI impI)
    fix i assume i: "i < length (rm_rules m)" "\<not> rm_ignore (rm_rules m ! i)"
    then have "i < num_rules prog" by (simp add: len)
    from sums [OF this i(2)] matcher_ok_have(1,2) [OF prog ok this i(2)]
      have_of_le [of "predicate_count m" "prog_rules prog ! i"]
    show "count_list ?a i \<le> unat (total_have (rm_rules m ! i)) \<and> total_have (rm_rules m ! i) \<le> total_needed (rm_rules m ! i)"
      by (simp add: word_le_nat_alt)
  qed
  then obtain m' where m': "register_predicate_unavailability ?a m = Inr m'"
    "predicate_count m' = predicate_count m" "length (rm_rules m') = length (rm_rules m)"
    "\<forall>i < length (rm_rules m). rm_rules m' ! i = add_have (- of_nat (count_list ?a i)) (rm_rules m ! i)"
    "active_rules m' = active_rules m - found_complete ?a m"
    "dropped_rules m' = dropped_rules m \<union> found_complete ?a m"
    using unavailability_loop [of ?a m] in_range len by auto
  have found: "i \<in> found_complete ?a m \<longleftrightarrow> i < num_rules prog \<and> rule_ready (predicate_count m) (prog_rules prog ! i) \<and>
      p \<in> set (rule_predicates (prog_rules prog ! i))" for i
  proof (cases "i < num_rules prog")
    case True
    have ign: "rm_ignore (rm_rules m ! i) = rule_is_persistent (prog_rules prog ! i)" using ok True by (simp add: matcher_ok_def)
    have mem: "i \<in> set ?a \<longleftrightarrow> p \<in> set (rule_predicates (prog_rules prog ! i))"
      using cnt [OF True] by (metis count_list_0_iff)
    show ?thesis
    proof (cases "rm_ignore (rm_rules m ! i)")
      case False
      then show ?thesis
        using True mem ign matcher_ok_have(1,2) [OF prog ok True False]
        by (auto simp: found_complete_def ready_iff_have rule_num_predicates_def word_unat_eq_iff)
    qed (use ign in \<open>auto simp: found_complete_def ready_iff_have\<close>)
  qed (use in_range in \<open>auto simp: found_complete_def\<close>)
  have rest: "rule_ready ?counts r \<longleftrightarrow> rule_ready (predicate_count m) r \<and> p \<notin> set (rule_predicates r)" for r
  proof (cases "p \<in> set (rule_predicates r)")
    case True
    moreover have "\<not> available ?counts p" using len p by (simp add: available_def)
    ultimately show ?thesis by (auto simp: rule_ready_def)
  next
    case False
    then show ?thesis using upd [of r] by (simp add: ready_iff_have count_list_0_iff)
  qed
  have active: "active_rules m' = {i. i < num_rules prog \<and> rule_ready ?counts (prog_rules prog ! i)}"
    using m'(5) ok found rest by (auto simp: matcher_ok_def)
  have "matcher_ok prog (m'\<lparr>predicate_count := ?counts\<rparr>)"
    unfolding matcher_ok_def
  proof (intro conjI)
    show "\<forall>i < num_rules prog. rm_rules (m'\<lparr>predicate_count := ?counts\<rparr>) ! i =
       \<lparr>total_have = (if rule_is_persistent (prog_rules prog ! i) then 0
                       else of_nat (have_of (predicate_count (m'\<lparr>predicate_count := ?counts\<rparr>)) (prog_rules prog ! i))),
        total_needed = of_nat (rule_num_predicates (prog_rules prog ! i)),
        rm_ignore = rule_is_persistent (prog_rules prog ! i)\<rparr>"
      using m'(4) ok cnt upd len by (auto simp: matcher_ok_def add_have_def)
    show "\<forall>q < num_predicates prog. 0 \<le>s predicate_count (m'\<lparr>predicate_count := ?counts\<rparr>) ! q"
      using counts_nonneg [OF ok p, of 0] by simp
    show "active_rules (m'\<lparr>predicate_count := ?counts\<rparr>) \<inter> dropped_rules (m'\<lparr>predicate_count := ?counts\<rparr>) = {}"
      using m'(5,6) ok by (auto simp: matcher_ok_def)
  qed (use m'(3) len active in auto)
  then show ?thesis using m'(1,2) by auto
qed

lemma matcher_ok_same_zero:
  fixes p :: predicate_id
  assumes "matcher_ok prog m" and "unat p < num_predicates prog" and "0 \<le>s c"
    and "(predicate_count m ! unat p = 0) = (c = 0)"
  shows "matcher_ok prog (m\<lparr>predicate_count := (predicate_count m)[unat p := c]\<rparr>)"
proof -
  have "unat p < length (predicate_count m)" using assms by (simp add: matcher_ok_def)
  note same = have_of_same [OF this assms(4)]
  show ?thesis using assms(1) counts_nonneg [OF assms(1-3)] by (auto simp: matcher_ok_def same)
qed

lemma program_affected_length: "program_ok prog \<Longrightarrow> length (prog_affected prog) = num_predicates prog"
  by (simp add: program_ok_def linked_def)

lemma register_tuple_ok:
  fixes p :: predicate_id
  assumes prog: "program_ok prog" and ok: "matcher_ok prog m" and p: "unat p < num_predicates prog" and cnt: "0 <s cnt"
    and small: "sint (predicate_count m ! unat p) + sint cnt < 2 ^ 15"
    and new: "is_new \<or> predicate_count m ! unat p \<noteq> 0"
  shows "\<exists>m'. register_tuple prog p cnt is_new m = Inr (predicate_count m ! unat p = 0, m') \<and> matcher_ok prog m' \<and>
    predicate_count m' = (predicate_count m)[unat p := predicate_count m ! unat p + cnt]"
proof -
  let ?c = "predicate_count m ! unat p"
  have len: "length (predicate_count m) = num_predicates prog" using ok by (simp add: matcher_ok_def)
  have nn: "0 \<le> sint ?c" using ok p by (simp add: matcher_ok_def word_sle_eq)
  have pos: "0 < sint cnt" using cnt by (simp add: word_sless_alt)
  have add: "sint (?c + cnt) = sint ?c + sint cnt" using nn pos small by (intro sint_add_16) auto
  then have new_pos: "0 <s ?c + cnt" "?c + cnt \<noteq> 0" "0 \<le>s ?c + cnt"
    using nn pos by (auto simp: word_sless_alt word_sle_eq)
  show ?thesis
  proof (cases "?c = 0")
    case True
    with new have "is_new" by simp
    obtain m' where "register_predicate_availability (prog_affected prog ! unat p) m = Inr m'"
      "predicate_count m' = predicate_count m" "matcher_ok prog (m'\<lparr>predicate_count := (predicate_count m')[unat p := ?c + cnt]\<rparr>)"
      using register_availability_ok [OF prog ok p True new_pos(1)] by blast
    then show ?thesis using p len True \<open>is_new\<close> program_affected_length [OF prog] by (simp add: register_tuple_def Let_def)
  next
    case False
    then show ?thesis
      using p len program_affected_length [OF prog] matcher_ok_same_zero [OF ok p new_pos(3)] new_pos(2)
      by (simp add: register_tuple_def Let_def)
  qed
qed

lemma deregister_tuple_ok:
  fixes p :: predicate_id
  assumes prog: "program_ok prog" and ok: "matcher_ok prog m" and p: "unat p < num_predicates prog" and cnt: "0 <s cnt"
  shows "if cnt \<le>s predicate_count m ! unat p
    then \<exists>m'. deregister_tuple prog p cnt m = Inr (predicate_count m ! unat p = cnt, m') \<and> matcher_ok prog m' \<and>
      predicate_count m' = (predicate_count m)[unat p := predicate_count m ! unat p - cnt]
    else deregister_tuple prog p cnt m = Inl Assert_Failed"
proof -
  let ?c = "predicate_count m ! unat p"
  have len: "length (predicate_count m) = num_predicates prog" using ok by (simp add: matcher_ok_def)
  have pos: "0 < sint cnt" using cnt by (simp add: word_sless_alt)
  show ?thesis
  proof (cases "cnt \<le>s ?c")
    case le: True
    then have le': "sint cnt \<le> sint ?c" by (simp add: word_sle_eq)
    have neg: "sint (- cnt) = - sint cnt" using pos by (intro sint_minus_16) simp
    have sub: "sint (?c - cnt) = sint ?c - sint cnt"
      using sint_add_16 [of ?c "- cnt"] neg pos le' sint_lt [of ?c] by simp
    show ?thesis
    proof (cases "?c = cnt")
      case True
      then have "?c \<noteq> 0" using pos by auto
      obtain m' where "register_predicate_unavailability (prog_affected prog ! unat p) m = Inr m'"
        "predicate_count m' = predicate_count m" "matcher_ok prog (m'\<lparr>predicate_count := (predicate_count m')[unat p := 0]\<rparr>)"
        using register_unavailability_ok [OF prog ok p \<open>?c \<noteq> 0\<close>] by blast
      then show ?thesis using p len True le program_affected_length [OF prog] by (simp add: deregister_tuple_def Let_def)
    next
      case False
      then have "sint ?c \<noteq> sint cnt" using signed_word_eqI by blast
      then have "0 \<le>s ?c - cnt" "?c - cnt \<noteq> 0" "?c \<noteq> 0"
        using sub le' pos by (auto simp: word_sle_eq)
      then show ?thesis
        using p len False le program_affected_length [OF prog] matcher_ok_same_zero [OF ok p, of "?c - cnt"]
        by (simp add: deregister_tuple_def Let_def)
    qed
  qed (use p len program_affected_length [OF prog] in \<open>simp add: deregister_tuple_def Let_def\<close>)
qed

section \<open>Every reachable state\<close>

lemma matcher_step_ok:
  assumes "program_ok prog" and "matcher_ok prog m" and "matcher_step prog m m'"
  shows "matcher_ok prog m'"
proof (rule matcher_stepE [OF assms(3)], goal_cases)
  case (1 p cnt is_new r)
  then show ?thesis using register_tuple_ok [OF assms(1,2), of p cnt is_new] by auto
next
  case (2 p cnt r)
  then show ?thesis using deregister_tuple_ok [OF assms(1,2), of p cnt] by (auto split: if_splits)
next
  case 3
  then show ?thesis using assms(2) by (auto simp: matcher_ok_def clear_dropped_rules_def)
qed

lemma matcher_reachable_ok: "matcher_reachable prog m \<Longrightarrow> program_ok prog \<Longrightarrow> matcher_ok prog m"
  by (induction rule: matcher_reachable.induct) (auto intro: new_rule_matcher_ok matcher_step_ok)

text \<open>A small consistent program: rule 0 needs predicates 0 and 1, rule 1 needs predicate 1 twice, rule 2 is
  persistent.\<close>

definition three_rules :: program where
  "three_rules =
     \<lparr>prog_major = 0, prog_minor = 5, prog_db_buffer = [], prog_num_nodes = 0, prog_imports = [], prog_exports = [],
      prog_num_args = 0,
      prog_rules = [(new_rule 0 [])\<lparr>rule_predicates := [0, 1]\<rparr>, (new_rule 1 [])\<lparr>rule_predicates := [1, 1]\<rparr>,
        (new_rule 2 [])\<lparr>rule_predicates := [0], rule_is_persistent := True\<rparr>],
      prog_strings = [], prog_const_types = [], prog_const_code = [], prog_functions = [], prog_num_ext_functions = None,
      prog_ext_position = None,
      prog_predicates = [sample_pred\<lparr>pred_id := 0, pred_fields_size := [4, 4, 8]\<rparr>,
        sample_pred\<lparr>pred_id := 1, pred_fields_size := [4, 4, 8]\<rparr>],
      prog_affected = [[0, 2], [0, 1, 1]], prog_code = [[], []], prog_route = [], prog_safe = True,
      prog_priority = no_priority, prog_max_level = 1, prog_data_rule = None, prog_init = None\<rparr>"

lemma three_rules_ok: "program_ok three_rules"
proof -
  have "version_at_least 0 5 0 5" "\<not> version_at_least 0 5 0 10" by (simp_all add: version_at_least_def)
  then show ?thesis
    by (auto simp: program_ok_def three_rules_def num_predicates_def num_fields_def linked_def new_rule_def
        less_Suc_eq numeral_2_eq_2 numeral_3_eq_3)
qed

lemma three_rules_run:
  "\<exists>m. matcher_reachable three_rules m \<and> predicate_count m = [0, 2] \<and> active_rules m = {1}"
proof -
  let ?m0 = "new_rule_matcher three_rules"
  have "\<exists>m1. register_tuple three_rules 1 2 True ?m0 = Inr (True, m1) \<and> predicate_count m1 = [0, 2] \<and> active_rules m1 = {1}"
    by (simp add: register_tuple_def new_rule_matcher_def three_rules_def num_predicates_def
        register_predicate_availability_def availability_step_def new_matcher_obj_def new_rule_def rule_num_predicates_def Let_def)
  then obtain m1 where m1: "register_tuple three_rules 1 2 True ?m0 = Inr (True, m1)" "predicate_count m1 = [0, 2]" "active_rules m1 = {1}"
    by blast
  have "matcher_step three_rules ?m0 m1"
    by (rule step_register [OF _ _ _ _ m1(1)])
      (simp_all add: three_rules_def num_predicates_def new_rule_matcher_def word_sless_alt)
  then show ?thesis using m1(2,3) reach_step [OF reach_start] by blast
qed

text \<open>C21: in every state a node's rule matcher can reach by registering and deregistering tuples, the active
  rules are exactly the rules that are not persistent, have predicates, and each of whose predicates
  has a positive number of registered tuples; no rule is active and dropped at once.\<close>

theorem active_rules_exact:
  assumes "program_ok prog" and "matcher_reachable prog m"
  shows "active_rules m = {i. i < num_rules prog \<and> rule_ready (predicate_count m) (prog_rules prog ! i)} \<and>
    active_rules m \<inter> dropped_rules m = {}"
  using matcher_reachable_ok [OF assms(2,1)] by (auto simp: matcher_ok_def)

theorem active_rules_exact_witness:
  "\<exists>m. matcher_reachable three_rules m \<and> predicate_count m = [0, 2] \<and>
     (1 \<in> active_rules m \<longleftrightarrow> rule_ready [0, 2] (prog_rules three_rules ! 1)) \<and> active_rules m \<inter> dropped_rules m = {}"
proof -
  obtain m where m: "matcher_reachable three_rules m" "predicate_count m = [0, 2]" using three_rules_run by blast
  show ?thesis
    using active_rules_exact [OF three_rules_ok m(1)] m by (auto simp: three_rules_def num_rules_def)
qed

text \<open>the retraction of a persistent tuple hands \<open>deregister_tuple\<close> the negative count of the tuple: the
  assertion passes, the count grows instead of shrinking, and no rule is ever dropped.\<close>

theorem deregister_negative_count:
  assumes "matcher_ok prog m" and "program_ok prog" and "unat p < num_predicates prog" and "cnt <s 0"
  shows "deregister_tuple prog p cnt m =
    Inr (False, m\<lparr>predicate_count := (predicate_count m)[unat p := predicate_count m ! unat p - cnt]\<rparr>)"
proof -
  have "0 \<le> sint (predicate_count m ! unat p)" using assms(1,3) by (simp add: matcher_ok_def word_sle_eq)
  moreover have "sint cnt < 0" using assms(4) by (simp add: word_sless_alt)
  ultimately have "cnt \<le>s predicate_count m ! unat p" "predicate_count m ! unat p \<noteq> cnt" by (auto simp: word_sle_eq)
  then show ?thesis
    using assms program_affected_length [OF assms(2)] by (simp add: deregister_tuple_def matcher_ok_def Let_def)
qed

theorem deregister_negative_count_witness:
  "\<exists>m m'. matcher_reachable three_rules m \<and> predicate_count m = [0, 2] \<and> 1 \<in> active_rules m \<and>
     deregister_tuple three_rules 1 (- 2) m = Inr (False, m') \<and> predicate_count m' = [0, 4] \<and> 1 \<in> active_rules m'"
proof -
  obtain m where m: "matcher_reachable three_rules m" "predicate_count m = [0, 2]" "active_rules m = {1}"
    using three_rules_run by blast
  have "deregister_tuple three_rules 1 (- 2) m =
      Inr (False, m\<lparr>predicate_count := (predicate_count m)[unat (1 :: predicate_id) := predicate_count m ! unat (1 :: predicate_id) - (- 2)]\<rparr>)"
    by (rule deregister_negative_count [OF matcher_reachable_ok [OF m(1) three_rules_ok] three_rules_ok])
      (simp_all add: three_rules_def num_predicates_def word_sless_alt)
  then show ?thesis using m by auto
qed

end
