(* ===== verification/Db_Node.thy ===== *)
theory Db_Node
  imports Aggregates Rule_Matcher
begin

text \<open>
  A node of the database, \<open>db/node.hpp\<close> and \<open>db/node.cpp\<close>: for every predicate that has
  had a fact a trie, for every aggregated one a set of configurations, and the node's
  rule matcher. The two \<open>std::map\<close>s are iterated in the order of the predicates'
  identifiers. The owner of a node and the printing functions are left out.
\<close>

section \<open>State and operations\<close>

record db_node =
  nd_id :: node_val
  nd_translation :: node_val
  nd_tuples :: "predicate_id \<Rightarrow> simple_tuple trie option"
  nd_aggs :: "predicate_id \<Rightarrow> tuple_aggregate option"
  nd_matcher :: rule_matcher

definition new_node :: "program \<Rightarrow> node_val \<Rightarrow> node_val \<Rightarrow> db_node" where
  "new_node prog i real =
     \<lparr>nd_id = i, nd_translation = real, nd_tuples = (\<lambda>_. None), nd_aggs = (\<lambda>_. None),
      nd_matcher = new_rule_matcher prog\<rparr>"

definition all_predicate_ids :: "predicate_id list" where
  "all_predicate_ids = map of_nat [0..<256]"

definition map_ids :: "(predicate_id \<Rightarrow> 'a option) \<Rightarrow> predicate_id list" where
  "map_ids m = filter (\<lambda>p. m p \<noteq> None) all_predicate_ids"

text \<open>A pointer to the trie in the map: the trie, to be stored back with \<open>set_storage\<close>.\<close>

definition get_storage :: "predicate_id \<Rightarrow> db_node \<Rightarrow> simple_tuple trie" where
  "get_storage p n = (case nd_tuples n p of None \<Rightarrow> new_trie | Some t \<Rightarrow> t)"

definition set_storage :: "predicate_id \<Rightarrow> simple_tuple trie \<Rightarrow> db_node \<Rightarrow> db_node" where
  "set_storage p t n = n\<lparr>nd_tuples := (nd_tuples n)(p \<mapsto> t)\<rparr>"

definition add_tuple :: "hashes \<Rightarrow> vtuple \<Rightarrow> 16 word \<Rightarrow> db_node \<Rightarrow> (bool \<times> db_node) res" where
  "add_tuple hs tpl many n =
     (let p = pred_id (tpl_pred tpl) in
      res_bind (insert_tuple hs tpl many (get_storage p n)) (\<lambda>(is_new, t). Inr (is_new, set_storage p t n)))"

text \<open>The \<open>delete_info\<close> it returns still has to be carried out: \<open>node_commit_delete\<close>.\<close>

definition node_delete_tuple :: "hashes \<Rightarrow> vtuple \<Rightarrow> 16 word \<Rightarrow> db_node \<Rightarrow> (delete_info \<times> db_node) res" where
  "node_delete_tuple hs tpl many n =
     (let p = pred_id (tpl_pred tpl) in
      res_bind (delete_tuple hs tpl many (get_storage p n)) (\<lambda>(info, t). Inr (info, set_storage p t n)))"

definition node_commit_delete :: "predicate_id \<Rightarrow> delete_info \<Rightarrow> db_node \<Rightarrow> db_node res" where
  "node_commit_delete p info n =
     (case info of
        No_Delete \<Rightarrow> Inr n
      | Delete j many \<Rightarrow>
          res_bind (commit_delete tuple_leaf j many (get_storage p n)) (\<lambda>t. Inr (set_storage p t n)))"

definition add_agg_tuple :: "hashes \<Rightarrow> vtuple \<Rightarrow> 16 word \<Rightarrow> db_node \<Rightarrow> (nat \<times> db_node) res" where
  "add_agg_tuple hs tpl many n =
     (let p = pred_id (tpl_pred tpl);
          agg = (case nd_aggs n p of None \<Rightarrow> new_tuple_aggregate (tpl_pred tpl) | Some a \<Rightarrow> a)
      in res_bind (ta_add_to_set hs tpl many agg) (\<lambda>(conf, agg').
         Inr (conf, n\<lparr>nd_aggs := (nd_aggs n)(p \<mapsto> agg')\<rparr>)))"

definition remove_agg_tuple :: "hashes \<Rightarrow> vtuple \<Rightarrow> 16 word \<Rightarrow> db_node \<Rightarrow> (nat \<times> db_node) res" where
  "remove_agg_tuple hs tpl many n = add_agg_tuple hs tpl (- many) n"

fun end_iteration_loop ::
  "(float_val \<Rightarrow> float_val \<Rightarrow> float_val) \<Rightarrow> predicate_id list \<Rightarrow> db_node \<Rightarrow> simple_tuple list \<Rightarrow>
   (simple_tuple list \<times> db_node) res" where
  "end_iteration_loop fadd [] n ret = Inr (ret, n)"
| "end_iteration_loop fadd (p # ps) n ret =
     (case nd_aggs n p of
        None \<Rightarrow> end_iteration_loop fadd ps n ret
      | Some agg \<Rightarrow> res_bind (ta_generate fadd agg) (\<lambda>(ls, agg').
          end_iteration_loop fadd ps (n\<lparr>nd_aggs := (nd_aggs n)(p \<mapsto> agg')\<rparr>) (ret @ ls)))"

definition end_iteration :: "(float_val \<Rightarrow> float_val \<Rightarrow> float_val) \<Rightarrow> db_node \<Rightarrow> (simple_tuple list \<times> db_node) res" where
  "end_iteration fadd n = end_iteration_loop fadd (map_ids (nd_aggs n)) n []"

text \<open>The leaves found, by their identifiers in the trie of the predicate.\<close>

definition node_match_all :: "predicate_id \<Rightarrow> db_node \<Rightarrow> nat list" where
  "node_match_all p n = (case nd_tuples n p of None \<Rightarrow> [] | Some t \<Rightarrow> map fst (leaves t))"

definition node_match_predicate :: "hashes \<Rightarrow> predicate_id \<Rightarrow> match \<Rightarrow> db_node \<Rightarrow> nat list res" where
  "node_match_predicate hs p m n = (case nd_tuples n p of None \<Rightarrow> Inr [] | Some t \<Rightarrow> match_predicate hs m t)"

definition node_delete_by_leaf :: "predicate_id \<Rightarrow> nat \<Rightarrow> db_node \<Rightarrow> db_node res" where
  "node_delete_by_leaf p j n =
     res_bind (delete_by_leaf tuple_leaf j (get_storage p n)) (\<lambda>t. Inr (set_storage p t n))"

definition node_delete_by_index :: "hashes \<Rightarrow> predicate_id \<Rightarrow> match \<Rightarrow> db_node \<Rightarrow> db_node res" where
  "node_delete_by_index hs p m n =
     res_bind (delete_by_index tuple_leaf hs m (get_storage p n)) (\<lambda>t.
     let n' = set_storage p t n in
     case nd_aggs n' p of
       None \<Rightarrow> Inr n'
     | Some agg \<Rightarrow> res_bind (ta_delete_by_index hs m agg) (\<lambda>agg'. Inr (n'\<lparr>nd_aggs := (nd_aggs n')(p \<mapsto> agg')\<rparr>)))"

definition count_total :: "predicate_id \<Rightarrow> db_node \<Rightarrow> int" where
  "count_total p n = (case nd_tuples n p of None \<Rightarrow> 0 | Some t \<Rightarrow> number_of_references t)"

fun assert_end_loop :: "tuple_aggregate list \<Rightarrow> unit res" where
  "assert_end_loop [] = Inr ()"
| "assert_end_loop (agg # aggs) = res_bind (no_changes agg) (\<lambda>b. if b then assert_end_loop aggs else Inl Assert_Failed)"

definition node_assert_end :: "db_node \<Rightarrow> unit res" where
  "node_assert_end n = assert_end_loop (map (\<lambda>p. the (nd_aggs n p)) (map_ids (nd_aggs n)))"

section \<open>A node is a counted store of the facts of all predicates\<close>

text \<open>
  Every trie is well-formed for its predicate; \<open>preds\<close> is the predicate table of the
  program, and a fact of the node is a typed tuple of one of its predicates.
\<close>

definition node_ok :: "hashes \<Rightarrow> predicate list \<Rightarrow> db_node \<Rightarrow> bool" where
  "node_ok hs preds n \<longleftrightarrow> hash_law hs \<and>
     (\<forall>p t. nd_tuples n p = Some t \<longrightarrow> unat p < length preds \<and> trie_ok hs (pred_types (preds ! unat p)) t)"

definition node_fact :: "predicate list \<Rightarrow> vtuple \<Rightarrow> bool" where
  "node_fact preds tpl \<longleftrightarrow> unat (pred_id (tpl_pred tpl)) < length preds \<and>
     tpl_pred tpl = preds ! unat (pred_id (tpl_pred tpl)) \<and> typed_by (pred_types (tpl_pred tpl)) (tpl_fields tpl)"

definition same_fact :: "vtuple \<Rightarrow> vtuple \<Rightarrow> bool" where
  "same_fact t u \<longleftrightarrow> pred_id (tpl_pred t) = pred_id (tpl_pred u) \<and> list_all2 fval_same (tpl_fields t) (tpl_fields u)"

definition node_count :: "db_node \<Rightarrow> vtuple \<Rightarrow> int" where
  "node_count n tpl = fact_count (get_storage (pred_id (tpl_pred tpl)) n) (tpl_fields tpl)"

definition node_room :: "db_node \<Rightarrow> vtuple \<Rightarrow> int \<Rightarrow> bool" where
  "node_room n tpl k \<longleftrightarrow> number_of_references (get_storage (pred_id (tpl_pred tpl)) n) + k < 2 ^ 31 \<and>
     node_count n tpl + k < 2 ^ 15"

definition node_delete_commit :: "hashes \<Rightarrow> vtuple \<Rightarrow> 16 word \<Rightarrow> db_node \<Rightarrow> db_node res" where
  "node_delete_commit hs tpl many n =
     res_bind (node_delete_tuple hs tpl many n) (\<lambda>(info, n'). node_commit_delete (pred_id (tpl_pred tpl)) info n')"

lemma get_set_storage [simp]: "get_storage q (set_storage p t n) = (if q = p then t else get_storage q n)"
  by (simp add: get_storage_def set_storage_def)

lemma set_set_storage [simp]: "set_storage p u (set_storage p t n) = set_storage p u n"
  by (simp add: set_storage_def)

lemma storage_ok:
  "node_ok hs preds n \<Longrightarrow> node_fact preds tpl \<Longrightarrow>
   trie_ok hs (pred_types (tpl_pred tpl)) (get_storage (pred_id (tpl_pred tpl)) n)"
  unfolding node_ok_def node_fact_def get_storage_def by (metis new_trie_ok option.case_eq_if option.collapse)

lemma set_storage_ok:
  "node_ok hs preds n \<Longrightarrow> node_fact preds tpl \<Longrightarrow> trie_ok hs (pred_types (tpl_pred tpl)) t \<Longrightarrow>
   node_ok hs preds (set_storage (pred_id (tpl_pred tpl)) t n)"
  by (auto simp: node_ok_def node_fact_def set_storage_def)

lemma same_types: "node_fact preds t \<Longrightarrow> node_fact preds u \<Longrightarrow> pred_id (tpl_pred t) = pred_id (tpl_pred u) \<Longrightarrow>
  typed_by (pred_types (tpl_pred t)) (tpl_fields u)"
  by (metis node_fact_def)

lemma node_delete_commit_trie:
  "node_delete_commit hs tpl many n =
     res_bind (delete_commit hs tpl many (get_storage (pred_id (tpl_pred tpl)) n))
       (\<lambda>t. Inr (set_storage (pred_id (tpl_pred tpl)) t n))"
  by (cases "delete_tuple hs tpl many (get_storage (pred_id (tpl_pred tpl)) n)")
    (auto simp: node_delete_commit_def node_delete_tuple_def node_commit_delete_def delete_commit_def Let_def
      split: delete_info.splits)

lemma node_count_set:
  assumes "\<And>gs. typed_by (pred_types (tpl_pred f)) gs \<Longrightarrow>
      fact_count t gs = fact_count (get_storage (pred_id (tpl_pred f)) n) gs + (if list_all2 fval_same (tpl_fields f) gs then d else 0)"
    and "node_fact preds f" and "node_fact preds g"
  shows "node_count (set_storage (pred_id (tpl_pred f)) t n) g = node_count n g + (if same_fact f g then d else 0)"
  using assms(1) [of "tpl_fields g"] same_types [OF assms(2,3)] by (auto simp: node_count_def same_fact_def)

lemma add_tuple_law:
  assumes inv: "node_ok hs preds n" and f: "node_fact preds f" and k: "0 < k" and room: "node_room n f k"
  shows "\<exists>n'. add_tuple hs f (word_of_int k) n = Inr (node_count n f = 0, n') \<and> node_ok hs preds n' \<and>
    (\<forall>g. node_fact preds g \<longrightarrow> node_count n' g = node_count n g + (if same_fact f g then k else 0)) \<and>
    (\<forall>g j. node_fact preds g \<longrightarrow> 0 < j \<longrightarrow> node_room n g (k + j) \<longrightarrow> node_room n' g j)"
proof -
  let ?p = "pred_id (tpl_pred f)" and ?t = "get_storage (pred_id (tpl_pred f)) n"
  have ok: "trie_ok hs (pred_types (tpl_pred f)) ?t" by (rule storage_ok [OF inv f])
  have ty: "typed_by (pred_types (tpl_pred f)) (tpl_fields f)" using f by (simp add: node_fact_def)
  have law: "hash_law hs" using inv by (simp add: node_ok_def)
  have "0 \<le> fact_count ?t (tpl_fields f)" by (rule fact_count_nonneg [OF ok])
  then have small: "k < 2 ^ 15" using room by (simp add: node_room_def node_count_def)
  have s: "sint (word_of_int k :: 16 word) = k"
    using k small by (simp add: sint_word_of_int_16)
  then have pos: "0 <s (word_of_int k :: 16 word)" using k by (simp add: word_sless_alt)
  from insert_tuple_ok [OF law ok ty pos] room s obtain t' where t':
    "insert_tuple hs f (word_of_int k) ?t = Inr (fact_count ?t (tpl_fields f) = 0, t')" "trie_ok hs (pred_types (tpl_pred f)) t'"
    "number_of_references t' = number_of_references ?t + k"
    "\<And>gs. typed_by (pred_types (tpl_pred f)) gs \<Longrightarrow>
      fact_count t' gs = fact_count ?t gs + (if list_all2 fval_same (tpl_fields f) gs then k else 0)"
    by (auto simp: node_room_def node_count_def)
  let ?n = "set_storage ?p t' n"
  have cnt: "node_count ?n g = node_count n g + (if same_fact f g then k else 0)" if "node_fact preds g" for g
    by (rule node_count_set [OF t'(4) f that])
  have "add_tuple hs f (word_of_int k) n = Inr (node_count n f = 0, ?n)"
    using t'(1) by (simp add: add_tuple_def node_count_def Let_def)
  moreover have "node_ok hs preds ?n" by (rule set_storage_ok [OF inv f t'(2)])
  moreover have "node_room ?n g j" if "node_fact preds g" "node_room n g (k + j)" for g j
    using that cnt t'(3) k by (auto simp: node_room_def)
  ultimately show ?thesis using cnt by blast
qed

lemma delete_law:
  assumes inv: "node_ok hs preds n" and f: "node_fact preds f" and k: "0 < k" "k < 2 ^ 15" and enough: "k \<le> node_count n f"
  shows "\<exists>n'. node_delete_commit hs f (word_of_int k) n = Inr n' \<and> node_ok hs preds n' \<and>
    (\<forall>g. node_fact preds g \<longrightarrow> node_count n' g = node_count n g - (if same_fact f g then k else 0)) \<and>
    (\<forall>g j. node_fact preds g \<longrightarrow> node_room n g j \<longrightarrow> node_room n' g j)"
proof -
  let ?p = "pred_id (tpl_pred f)" and ?t = "get_storage (pred_id (tpl_pred f)) n"
  have ok: "trie_ok hs (pred_types (tpl_pred f)) ?t" by (rule storage_ok [OF inv f])
  have ty: "typed_by (pred_types (tpl_pred f)) (tpl_fields f)" using f by (simp add: node_fact_def)
  have law: "hash_law hs" using inv by (simp add: node_ok_def)
  have s: "sint (word_of_int k :: 16 word) = k"
    using k by (simp add: sint_word_of_int_16)
  then have pos: "0 <s (word_of_int k :: 16 word)" using k by (simp add: word_sless_alt)
  from delete_commit_ok [OF law ok ty pos] enough s obtain t' where t':
    "delete_commit hs f (word_of_int k) ?t = Inr t'" "trie_ok hs (pred_types (tpl_pred f)) t'"
    "number_of_references t' = number_of_references ?t - k"
    "\<And>gs. typed_by (pred_types (tpl_pred f)) gs \<Longrightarrow>
      fact_count t' gs = fact_count ?t gs + (if list_all2 fval_same (tpl_fields f) gs then - k else 0)"
    by (auto simp: node_count_def)
  let ?n = "set_storage ?p t' n"
  have cnt: "node_count ?n g = node_count n g + (if same_fact f g then - k else 0)" if "node_fact preds g" for g
    by (rule node_count_set [OF t'(4) f that])
  moreover have "node_ok hs preds ?n" by (rule set_storage_ok [OF inv f t'(2)])
  moreover have "node_room ?n g j" if "node_fact preds g" "node_room n g j" for g j
    using that cnt t'(3) k by (auto simp: node_room_def)
  ultimately show ?thesis using t'(1) by (auto simp: node_delete_commit_trie)
qed

interpretation node_store: counted_store
  "node_ok hs preds" "node_fact preds" same_fact node_count node_room
  "\<lambda>f k. add_tuple hs f (word_of_int k)" "\<lambda>f k. node_delete_commit hs f (word_of_int k)"
  for hs preds
proof unfold_locales
  show "same_fact f f" if "node_fact preds f" for f
    using that by (simp add: same_fact_def node_fact_def typed_by_def list_all2_refl_storable)
qed (fact add_tuple_law, fact delete_law)

text \<open>
  C22: Any sequence of insertions and retractions of facts of any predicates on a node,
  which never retracts more references than there are, succeeds; afterwards the node
  holds exactly the counts that the same sequence gives on a plain map from facts to
  numbers, and its tries are well-formed. The facts are those of \<open>node_fact\<close>: of a predicate
  of the program, with values of its types, without NaN and without strings at addresses of
  \<open>2^32\<close> or more, which the trie does not find again (\<open>trie.cpp:190\<close>); the counts must leave
  room below the limits of their types.
\<close>

theorem node_refines_counts:
  assumes "node_ok hs preds n"
    and "feasible (node_fact preds) same_fact ops (node_count n)"
    and "\<forall>g k. node_fact preds g \<longrightarrow> 0 < k \<longrightarrow> k \<le> inserted ops \<longrightarrow> node_room n g k"
  shows "\<exists>n'. run_store (\<lambda>f k. add_tuple hs f (word_of_int k)) (\<lambda>f k. node_delete_commit hs f (word_of_int k)) ops n = Inr n' \<and>
    node_ok hs preds n' \<and>
    (\<forall>g. node_fact preds g \<longrightarrow> node_count n' g = fold (apply_count same_fact) ops (node_count n) g)"
  by (rule node_store.run_store_counts) (use assms in auto)

definition no_rules :: program where
  "no_rules =
     \<lparr>prog_major = 0, prog_minor = 9, prog_db_buffer = [], prog_num_nodes = 0, prog_imports = [],
      prog_exports = [], prog_num_args = 0, prog_rules = [], prog_strings = [], prog_const_types = [],
      prog_const_code = [], prog_functions = [], prog_num_ext_functions = None, prog_ext_position = None,
      prog_predicates = [edge_pred], prog_affected = [[]], prog_code = [[]], prog_route = [], prog_safe = True,
      prog_priority = \<lparr>prio_type = None, prio_order = None, prio_initial = 0, prio_is_data = False\<rparr>,
      prog_max_level = 0, prog_data_rule = None, prog_init = None\<rparr>"

lemma new_node_ok: "hash_law hs \<Longrightarrow> node_ok hs preds (new_node prog i real)"
  by (simp add: node_ok_def new_node_def)

lemma new_node_count [simp]: "node_count (new_node prog i real) g = 0"
  by (simp add: node_count_def get_storage_def new_node_def)

lemma edge_node_fact: "node_fact [edge_pred] edge_tuple"
  by (simp add: node_fact_def edge_typed edge_tuple_def edge_pred_def typed_by_def)

theorem node_refines_counts_witness:
  "\<exists>n. run_store (\<lambda>f k. add_tuple plain_hashes f (word_of_int k)) (\<lambda>f k. node_delete_commit plain_hashes f (word_of_int k))
       [Insert_Fact edge_tuple 3, Remove_Fact edge_tuple 2, Insert_Fact edge_tuple 1] (new_node no_rules 0 7) = Inr n \<and>
     node_count n edge_tuple = 2"
proof -
  have same: "same_fact edge_tuple edge_tuple" by (simp add: same_fact_def edge_same)
  have "node_room (new_node no_rules 0 7) g k" if "k \<le> 4" for g k
    using that by (simp add: node_room_def get_storage_def new_node_def new_node_count [unfolded new_node_def])
  then show ?thesis
    using node_refines_counts [of plain_hashes "[edge_pred]" "new_node no_rules 0 7"
        "[Insert_Fact edge_tuple 3, Remove_Fact edge_tuple 2, Insert_Fact edge_tuple 1]",
        OF new_node_ok [OF plain_hashes_law]]
    by (auto simp: edge_node_fact same)
qed

end
