(* ===== verification/Router.thy ===== *)
theory Router
  imports Meld_Prelude
begin

text \<open>
  Who owns a node: \<open>process/router.cpp\<close> divides the nodes of the database among the
  machines, \<open>process/remote.hpp\<close> and \<open>.cpp\<close> those of a machine among its threads. A node
  identifier has 32 bits, the counts are \<open>size_t\<close>. Sending and receiving over MPI is not
  modelled; \<open>use_mpi\<close>, the number of threads of every machine and the own rank are what
  MPI tells the constructor. The configuration defines \<open>USE_SIM\<close>.
\<close>

section \<open>A machine\<close>

record remote =
  addr :: nat
  num_threads :: nat
  last_one :: bool
  total_nodes :: nat
  nodes_base :: nat
  nodes_per_proc :: nat

definition new_remote :: "nat \<Rightarrow> nat \<Rightarrow> remote res" where
  "new_remote a n =
     (if n = 0 then Inl Assert_Failed
      else Inr \<lparr>addr = a, num_threads = n, last_one = False, total_nodes = 0, nodes_base = 0, nodes_per_proc = 0\<rparr>)"

definition cache_values :: "nat \<Rightarrow> nat \<Rightarrow> nat \<Rightarrow> remote \<Rightarrow> remote" where
  "cache_values world_size nodes_per_remote nodes_total r =
     (let last = (addr r + 1 = world_size);
          nodes = nodes_per_remote + (if last then nodes_total - nodes_per_remote * world_size else 0)
      in r\<lparr>last_one := last, total_nodes := nodes, nodes_base := addr r * nodes_per_remote,
           nodes_per_proc := nodes div num_threads r\<rparr>)"

definition get_nodes_base :: "remote \<Rightarrow> node_val" where
  "get_nodes_base r = of_nat (nodes_base r)"

definition find_proc_owner :: "remote \<Rightarrow> node_val \<Rightarrow> nat res" where
  "find_proc_owner r nid =
     (if nodes_per_proc r = 0 then Inl Assert_Failed
      else Inr (min (unat (nid - get_nodes_base r) div nodes_per_proc r) (num_threads r - 1)))"

definition find_first_node :: "remote \<Rightarrow> nat \<Rightarrow> node_val" where
  "find_first_node r p = of_nat (unat (get_nodes_base r) + p * nodes_per_proc r)"

definition find_last_node :: "remote \<Rightarrow> nat \<Rightarrow> node_val" where
  "find_last_node r p =
     (if num_threads r - 1 = p then of_nat (unat (get_nodes_base r) + total_nodes r)
      else find_first_node r (p + 1))"

definition is_leader :: "remote \<Rightarrow> bool" where
  "is_leader r \<longleftrightarrow> addr r = 0"

definition left_remote_id :: "nat \<Rightarrow> remote \<Rightarrow> nat" where
  "left_remote_id world_size r = (if addr r = 0 then world_size - 1 else addr r - 1)"

definition right_remote_id :: "nat \<Rightarrow> remote \<Rightarrow> nat" where
  "right_remote_id world_size r = (if addr r = world_size - 1 then 0 else addr r + 1)"

section \<open>The router\<close>

record router =
  remote_list :: "remote list"
  nodes_per_remote :: nat
  remote_self :: nat              \<comment> \<open>\<open>remote::self\<close>, the index of the own machine\<close>

definition world_size :: "router \<Rightarrow> nat" where
  "world_size ro = length (remote_list ro)"

definition use_mpi :: "router \<Rightarrow> bool" where
  "use_mpi ro \<longleftrightarrow> world_size ro > 1"

text \<open>Under MPI the own rank and the thread counts that were broadcast.\<close>

definition base_constructor :: "nat \<Rightarrow> (nat \<times> nat list) option \<Rightarrow> router res" where
  "base_constructor threads mpi =
     (case mpi of
        None \<Rightarrow> res_bind (new_remote 0 threads) (\<lambda>r.
          Inr \<lparr>remote_list = [r], nodes_per_remote = 0, remote_self = 0\<rparr>)
      | Some (rank, ns) \<Rightarrow> res_bind (res_map (\<lambda>(i, n). new_remote i n) (enumerate 0 ns)) (\<lambda>rs.
          Inr \<lparr>remote_list = rs, nodes_per_remote = 0, remote_self = rank\<rparr>))"

definition set_nodes_total :: "nat \<Rightarrow> router \<Rightarrow> router" where
  "set_nodes_total nodes ro =
     (let per = nodes div world_size ro
      in ro\<lparr>nodes_per_remote := per, remote_list := map (cache_values (world_size ro) per nodes) (remote_list ro)\<rparr>)"

definition find_remote :: "router \<Rightarrow> node_val \<Rightarrow> nat res" where
  "find_remote ro nid =
     (if \<not> use_mpi ro then Inr (remote_self ro)
      else if nodes_per_remote ro = 0 then Inl Assert_Failed
      else Inr (min (unat nid div nodes_per_remote ro) (world_size ro - 1)))"

section \<open>Intervals of equal width\<close>

text \<open>Dividing by the width and cutting off at the last index finds the interval of a number.\<close>

lemma min_div_eq_iff:
  fixes w i n :: nat
  assumes "0 < w" and "0 < n"
  shows "min (i div w) (n - 1) = k \<longleftrightarrow> k < n \<and> k * w \<le> i \<and> (k = n - 1 \<or> i < (k + 1) * w)"
proof -
  have lo: "k * w \<le> i \<longleftrightarrow> k \<le> i div w" using assms(1) by (simp add: less_eq_div_iff_mult_less_eq)
  have hi: "i < (k + 1) * w \<longleftrightarrow> i div w < k + 1" using assms(1) by (simp add: div_less_iff_less_mult)
  show ?thesis unfolding lo hi using assms(2) by (auto simp: min_def)
qed

lemma last_block: "(w :: nat) * n \<le> m \<Longrightarrow> 0 < n \<Longrightarrow> (n - 1) * w + (w + (m - w * n)) = m"
  by (cases n) (auto simp: algebra_simps)

lemma unat_node_id: "n < 2 ^ 32 \<Longrightarrow> unat (of_nat n :: node_val) = n"
  by (simp add: unat_of_nat take_bit_nat_eq_self)

section \<open>Every node has one machine\<close>

text \<open>The router after its construction.\<close>

definition ranked :: "router \<Rightarrow> bool" where
  "ranked ro \<longleftrightarrow> remote_list ro \<noteq> [] \<and> remote_self ro < world_size ro \<and>
     (\<forall>i < world_size ro. addr (remote_list ro ! i) = i \<and> 0 < num_threads (remote_list ro ! i))"

lemma new_remote_ranked: "new_remote i n = Inr r \<Longrightarrow> addr r = i \<and> 0 < num_threads r"
  by (auto simp: new_remote_def split: if_splits)

lemma base_constructor_ranked:
  assumes "base_constructor threads mpi = Inr ro"
    and "\<And>rank ns. mpi = Some (rank, ns) \<Longrightarrow> rank < length ns"
  shows "ranked ro"
proof (cases mpi)
  case None
  then show ?thesis using assms(1)
    by (auto simp: base_constructor_def ranked_def world_size_def elim!: res_bind_InrE dest!: new_remote_ranked)
next
  case (Some rn)
  obtain rank ns where rn: "rn = (rank, ns)" by (cases rn)
  then obtain rs where rs: "list_all2 (\<lambda>(i, n) r. new_remote i n = Inr r) (enumerate 0 ns) rs"
    and ro: "ro = \<lparr>remote_list = rs, nodes_per_remote = 0, remote_self = rank\<rparr>"
    using assms(1) Some by (auto simp: base_constructor_def res_map_Inr_iff split_def elim!: res_bind_InrE)
  have len: "length rs = length ns" using list_all2_lengthD [OF rs] by simp
  have "addr (rs ! i) = i \<and> 0 < num_threads (rs ! i)" if "i < length ns" for i
    using list_all2_nthD [OF rs, of i] that new_remote_ranked by (simp add: nth_enumerate_eq)
  moreover have "rank < length ns" using assms(2) Some rn by simp
  ultimately show ?thesis using len by (auto simp: ranked_def ro world_size_def)
qed

lemma set_nodes_total_sel [simp]:
  "world_size (set_nodes_total nodes ro) = world_size ro"
  "use_mpi (set_nodes_total nodes ro) = use_mpi ro"
  "remote_self (set_nodes_total nodes ro) = remote_self ro"
  "nodes_per_remote (set_nodes_total nodes ro) = nodes div world_size ro"
  "length (remote_list (set_nodes_total nodes ro)) = length (remote_list ro)"
  by (auto simp: set_nodes_total_def world_size_def use_mpi_def Let_def)

lemma remote_after:
  fixes nodes :: nat
  assumes "ranked ro" and "i < world_size ro"
  defines "r \<equiv> remote_list (set_nodes_total nodes ro) ! i"
  shows "nodes_base r = i * (nodes div world_size ro)"
    and "total_nodes r = (if i + 1 = world_size ro then nodes - i * (nodes div world_size ro) else nodes div world_size ro)"
    and "num_threads r = num_threads (remote_list ro ! i)"
    and "nodes_per_proc r = total_nodes r div num_threads r"
    and "addr r = i"
proof -
  let ?w = "nodes div world_size ro"
  have "world_size ro * ?w \<le> nodes" by simp
  then have "?w + (nodes - ?w * world_size ro) = nodes - i * ?w" if "i + 1 = world_size ro"
    using that [symmetric] by (simp add: algebra_simps)
  then show "nodes_base r = i * ?w"
    and "total_nodes r = (if i + 1 = world_size ro then nodes - i * ?w else ?w)"
    and "num_threads r = num_threads (remote_list ro ! i)"
    and "nodes_per_proc r = total_nodes r div num_threads r" and "addr r = i"
    using assms(1,2) unfolding r_def
    by (auto simp: set_nodes_total_def cache_values_def ranked_def world_size_def Let_def)
qed

lemma find_remote_interval:
  assumes rk: "ranked ro" and ids: "unat nid < nodes" and room: "world_size ro \<le> nodes" and k: "k < world_size ro"
  shows "find_remote (set_nodes_total nodes ro) nid = Inr k \<longleftrightarrow>
    nodes_base (remote_list (set_nodes_total nodes ro) ! k) \<le> unat nid \<and>
    unat nid < nodes_base (remote_list (set_nodes_total nodes ro) ! k) + total_nodes (remote_list (set_nodes_total nodes ro) ! k)"
proof -
  let ?n = "world_size ro" let ?w = "nodes div ?n"
  have n: "0 < ?n" using k by simp
  have w: "0 < ?w" using room n by (simp add: div_greater_zero_iff)
  have le: "(?n - 1) * ?w \<le> nodes" using n
    by (metis div_times_less_eq_dividend diff_le_self le_trans mult.commute mult_le_mono1)
  note after = remote_after [OF rk k, of nodes]
  show ?thesis
  proof (cases "use_mpi ro")
    case True
    have "find_remote (set_nodes_total nodes ro) nid = Inr k \<longleftrightarrow> min (unat nid div ?w) (?n - 1) = k"
      using True w by (simp add: find_remote_def)
    also have "\<dots> \<longleftrightarrow> k * ?w \<le> unat nid \<and> (k = ?n - 1 \<or> unat nid < (k + 1) * ?w)"
      using min_div_eq_iff [OF w n] k by simp
    also have "\<dots> \<longleftrightarrow> k * ?w \<le> unat nid \<and> unat nid < k * ?w + (if k + 1 = ?n then nodes - k * ?w else ?w)"
      using ids le n by (auto simp: algebra_simps)
    finally show ?thesis by (simp add: after(1,2))
  next
    case False
    then have "?n = 1" and "k = 0" using k by (auto simp: use_mpi_def)
    moreover have "remote_self ro = 0" using rk \<open>?n = 1\<close> by (simp add: ranked_def)
    ultimately show ?thesis using False ids after(1,2) by (simp add: find_remote_def)
  qed
qed

text \<open>
  C24: However many machines take part, each node identifier of the database is sent to
  exactly the machine that reads the node from the file: \<open>find_remote\<close> returns a machine
  if and only if the identifier lies in the range that the machine computed for itself.
\<close>

theorem machines_partition_nodes:
  assumes "base_constructor threads mpi = Inr ro" and "\<forall>rank ns. mpi = Some (rank, ns) \<longrightarrow> rank < length ns"
    and "world_size ro \<le> nodes" and "unat nid < nodes" and "k < world_size ro"
  shows "find_remote (set_nodes_total nodes ro) nid = Inr k \<longleftrightarrow>
    nodes_base (remote_list (set_nodes_total nodes ro) ! k) \<le> unat nid \<and>
    unat nid < nodes_base (remote_list (set_nodes_total nodes ro) ! k) + total_nodes (remote_list (set_nodes_total nodes ro) ! k)"
  using base_constructor_ranked [OF assms(1)] assms(2) find_remote_interval [OF _ assms(4,3,5)] by blast

definition three_machines :: router where
  "three_machines =
     \<lparr>remote_list = map (\<lambda>i. \<lparr>addr = i, num_threads = 2, last_one = False, total_nodes = 0, nodes_base = 0, nodes_per_proc = 0\<rparr>) [0, 1, 2],
      nodes_per_remote = 0, remote_self = 1\<rparr>"

lemma three_machines_built: "base_constructor 1 (Some (1, [2, 2, 2])) = Inr three_machines"
  by code_simp

theorem machines_partition_nodes_witness:
  "find_remote (set_nodes_total 11 three_machines) 10 = Inr 2 \<and> find_remote (set_nodes_total 11 three_machines) 3 \<noteq> Inr 2"
proof -
  have "nodes_base (remote_list (set_nodes_total 11 three_machines) ! 2) = 6 \<and>
    total_nodes (remote_list (set_nodes_total 11 three_machines) ! 2) = 5 \<and> world_size three_machines = 3"
    by code_simp
  then show ?thesis
    using machines_partition_nodes [OF three_machines_built, of 11 10 2] machines_partition_nodes [OF three_machines_built, of 11 3 2]
    by simp
qed

section \<open>Every node of a machine has one thread\<close>

text \<open>
  C25: Among the threads of a machine, \<open>find_proc_owner\<close> names a thread for a node of the
  machine exactly when the node lies between the thread's \<open>find_first_node\<close> and its
  \<open>find_last_node\<close>.
\<close>

theorem threads_partition_nodes:
  assumes "nodes_per_proc r = total_nodes r div num_threads r" and "0 < num_threads r" and "num_threads r \<le> total_nodes r"
    and "nodes_base r + total_nodes r < 2 ^ 32"
    and "nodes_base r \<le> unat nid" and "unat nid < nodes_base r + total_nodes r" and "p < num_threads r"
  shows "find_proc_owner r nid = Inr p \<longleftrightarrow> find_first_node r p \<le> nid \<and> nid < find_last_node r p"
proof -
  let ?w = "nodes_per_proc r" let ?n = "num_threads r" let ?b = "nodes_base r"
  have w: "0 < ?w" using assms(1-3) by (simp add: div_greater_zero_iff)
  have fit: "q * ?w \<le> total_nodes r" if "q \<le> ?n" for q
    using that assms(1) by (metis div_times_less_eq_dividend le_trans mult.commute mult_le_mono1)
  have base: "unat (get_nodes_base r) = ?b"
    using assms(4) by (simp add: get_nodes_base_def unat_node_id)
  have first: "unat (find_first_node r q) = ?b + q * ?w" if "q \<le> ?n" for q
    unfolding find_first_node_def base by (rule unat_node_id) (use fit [OF that] assms(4) in simp)
  have last: "unat (find_last_node r p) = (if p = ?n - 1 then ?b + total_nodes r else ?b + (p + 1) * ?w)"
    using first [of "p + 1"] assms(4,7) unat_node_id [of "?b + total_nodes r"]
    by (auto simp: find_last_node_def base simp del: of_nat_add)
  have diff: "unat (nid - get_nodes_base r) = unat nid - ?b"
    using assms(5) base by (simp add: unat_sub word_le_nat_alt)
  have "find_proc_owner r nid = Inr p \<longleftrightarrow> min ((unat nid - ?b) div ?w) (?n - 1) = p"
    using w by (simp add: find_proc_owner_def diff)
  also have "\<dots> \<longleftrightarrow> p * ?w \<le> unat nid - ?b \<and> (p = ?n - 1 \<or> unat nid - ?b < (p + 1) * ?w)"
    using min_div_eq_iff [OF w assms(2)] assms(7) by simp
  also have "\<dots> \<longleftrightarrow> ?b + p * ?w \<le> unat nid \<and> unat nid < (if p = ?n - 1 then ?b + total_nodes r else ?b + (p + 1) * ?w)"
    using assms(5,6) by auto
  finally show ?thesis
    using first [of p] last assms(7) by (simp add: word_le_nat_alt word_less_nat_alt)
qed

theorem threads_partition_nodes_witness:
  "find_proc_owner (remote_list (set_nodes_total 11 three_machines) ! 2) 10 = Inr 1"
  using threads_partition_nodes [of "remote_list (set_nodes_total 11 three_machines) ! 2" 10 1]
  by (simp add: three_machines_def set_nodes_total_def cache_values_def world_size_def find_first_node_def
      find_last_node_def get_nodes_base_def Let_def)

section \<open>The ring of machines\<close>

text \<open>The token goes left and is awaited from the right.\<close>

lemma right_of_left:
  assumes "addr r < n" and "addr r' = left_remote_id n r"
  shows "right_remote_id n r' = addr r"
  using assms by (auto simp: left_remote_id_def right_remote_id_def)

lemma right_remote_mod: "addr r < n \<Longrightarrow> right_remote_id n r = (addr r + 1) mod n"
  by (auto simp: right_remote_id_def)

end
