(* ===== verification/Database.thy ===== *)
theory Database
  imports Db_Node Router
begin

text \<open>
  The database of a machine, \<open>db/database.hpp\<close> and \<open>db/database.cpp\<close>: the constructor
  reads from the byte-code file the nodes that the router gives to the machine; later
  nodes are created with fresh identifiers. The \<open>std::map\<close> of the nodes is a list of pairs
  in the order of the keys. Every scheduler's \<open>create_fn\<close> builds a node with the
  constructor of \<open>db::node\<close>. Locking, printing and the destructor are left out.
\<close>

section \<open>An ordered map\<close>

fun map_put :: "('k::linorder) \<Rightarrow> 'v \<Rightarrow> ('k \<times> 'v) list \<Rightarrow> ('k \<times> 'v) list" where
  "map_put k v [] = [(k, v)]"
| "map_put k v ((i, w) # xs) =
     (if k < i then (k, v) # (i, w) # xs
      else if k = i then (k, v) # xs
      else (i, w) # map_put k v xs)"

lemma map_of_put [simp]: "map_of (map_put k v xs) = (map_of xs)(k \<mapsto> v)"
  by (induction k v xs rule: map_put.induct) auto

lemma set_map_put: "fst ` set (map_put k v xs) = insert k (fst ` set xs)"
  by (induction k v xs rule: map_put.induct) auto

lemma sorted_map_put: "sorted_wrt (<) (map fst xs) \<Longrightarrow> sorted_wrt (<) (map fst (map_put k v xs))"
proof (induction k v xs rule: map_put.induct)
  case (2 k v i w xs)
  then show ?case
  proof (cases "k < i \<or> k = i")
    case False
    then have "sorted_wrt (<) (map fst (map_put k v xs))" using 2 by simp
    moreover have "\<forall>j \<in> fst ` set (map_put k v xs). i < j" using 2(2) False by (auto simp: set_map_put)
    ultimately show ?thesis using False by simp
  qed (use 2 in auto)
qed simp

section \<open>State and operations\<close>

record database =
  db_nodes :: "(node_val \<times> db_node) list"
  db_translation :: "node_val \<Rightarrow> node_val option"
  original_max_node_id :: node_val
  max_node_id :: node_val
  max_translated_id :: node_val
  db_nodes_total :: nat

definition num_nodes :: "database \<Rightarrow> nat" where
  "num_nodes db = length (db_nodes db)"

text \<open>The lookup that aborts the program when there is no such node.\<close>

definition find_node :: "node_val \<Rightarrow> database \<Rightarrow> db_node res" where
  "find_node i db = (case map_of (db_nodes db) i of None \<Rightarrow> Inl Assert_Failed | Some n \<Rightarrow> Inr n)"

definition put_node :: "program \<Rightarrow> node_val \<Rightarrow> node_val \<Rightarrow> database \<Rightarrow> database" where
  "put_node prog i real db =
     db\<lparr>db_nodes := map_put i (new_node prog i real) (db_nodes db), db_translation := (db_translation db)(i \<mapsto> real)\<rparr>"

definition create_node_id :: "program \<Rightarrow> node_val \<Rightarrow> database \<Rightarrow> (db_node \<times> database) res" where
  "create_node_id prog i db =
     (if 0 < max_node_id db \<and> (\<not> max_node_id db < i \<or> \<not> max_translated_id db < i) then Inl Assert_Failed
      else Inr (new_node prog i i, put_node prog i i (db\<lparr>max_node_id := i, max_translated_id := i\<rparr>)))"

definition create_node :: "program \<Rightarrow> database \<Rightarrow> db_node \<times> database" where
  "create_node prog db =
     (let db' = (if db_nodes db = [] then db\<lparr>max_node_id := 0, max_translated_id := 0\<rparr>
                 else db\<lparr>max_node_id := max_node_id db + 1, max_translated_id := max_translated_id db + 1\<rparr>)
      in (new_node prog (max_node_id db') (max_translated_id db'),
          put_node prog (max_node_id db') (max_translated_id db') db'))"

text \<open>A node read from the file.\<close>

definition load_node :: "program \<Rightarrow> node_val \<times> node_val \<Rightarrow> database \<Rightarrow> database" where
  "load_node prog e db =
     (case e of (fake, real) \<Rightarrow>
        let db' = put_node prog fake real db
        in db'\<lparr>max_node_id := max (max_node_id db') fake, max_translated_id := max (max_translated_id db') real\<rparr>)"

definition rd_skip :: "nat \<Rightarrow> unit reader" where
  "rd_skip n s = (case s of (bs, position) \<Rightarrow> Inr ((), (drop n bs, position + n)))"

definition new_database :: "nat \<Rightarrow> database" where
  "new_database tot =
     \<lparr>db_nodes = [], db_translation = (\<lambda>_. None), original_max_node_id = 0, max_node_id = 0,
      max_translated_id = 0, db_nodes_total = tot\<rparr>"

definition own_machine :: "router \<Rightarrow> remote" where
  "own_machine ro = remote_list ro ! remote_self ro"

definition read_database :: "program \<Rightarrow> router \<Rightarrow> (database \<times> router) reader" where
  "read_database prog ro =
     rd_bind (rd_skip 8) (\<lambda>_. rd_bind (rd_skip 8) (\<lambda>_. rd_bind (rd_skip 1) (\<lambda>_.
     rd_bind read_uint (\<lambda>num.
       let total = unat (scast num :: 64 word);
           ro' = set_nodes_total total ro;
           to_skip = unat (get_nodes_base (own_machine ro'));
           to_read = total_nodes (own_machine ro')
       in rd_bind (rd_skip (node_size * to_skip)) (\<lambda>_.
          rd_bind (read_loop (\<lambda>_ db. rd_bind read_uint (\<lambda>fake. rd_bind read_uint (\<lambda>real.
              rd_return (load_node prog (fake, real) db)))) [0..<to_read] (new_database total)) (\<lambda>db.
          rd_bind (rd_skip (if last_one (own_machine ro') then 0 else node_size * (total - (to_skip + to_read)))) (\<lambda>_.
          rd_return (db\<lparr>original_max_node_id := max_node_id db\<rparr>, ro'))))))))"

section \<open>Fresh identifiers\<close>

definition database_ok :: "database \<Rightarrow> bool" where
  "database_ok db \<longleftrightarrow> sorted_wrt (<) (map fst (db_nodes db)) \<and>
     (\<forall>(i, n) \<in> set (db_nodes db). nd_id n = i \<and> i \<le> max_node_id db \<and> db_translation db i = Some (nd_translation n))"

text \<open>The databases of a running program: read from a file, then grown.\<close>

inductive database_reachable :: "program \<Rightarrow> database \<Rightarrow> bool" for prog where
  from_file: "read_database prog ro inp = Inr ((db, ro'), rest) \<Longrightarrow> database_reachable prog db"
| with_id: "database_reachable prog db \<Longrightarrow> create_node_id prog i db = Inr (n, db') \<Longrightarrow> database_reachable prog db'"
| next_id: "database_reachable prog db \<Longrightarrow> create_node prog db = (n, db') \<Longrightarrow> max_node_id db < - 1 \<Longrightarrow>
    database_reachable prog db'"

inductive_cases database_reachableE: "database_reachable prog db"

lemma map_put_member: "(i, n) \<in> set (map_put k v xs) \<Longrightarrow> (i, n) = (k, v) \<or> (i, n) \<in> set xs"
  by (induction k v xs rule: map_put.induct) (auto split: if_splits)

lemma map_put_other: "sorted_wrt (<) (map fst xs) \<Longrightarrow> (k, n) \<in> set (map_put k v xs) \<Longrightarrow> n = v"
  by (induction k v xs rule: map_put.induct) (force split: if_splits)+

lemma put_node_ok:
  assumes "database_ok db" and "i \<le> max_node_id db"
  shows "database_ok (put_node prog i real db)"
proof -
  have s: "sorted_wrt (<) (map fst (db_nodes db))" using assms(1) by (simp add: database_ok_def)
  have "nd_id n = j \<and> j \<le> max_node_id db \<and> (if j = i then Some real else db_translation db j) = Some (nd_translation n)"
    if m: "(j, n) \<in> set (map_put i (new_node prog i real) (db_nodes db))" for j n
  proof (cases "j = i")
    case True
    then have "n = new_node prog i real" using map_put_other [OF s] m by blast
    then show ?thesis using True assms(2) by (simp add: new_node_def)
  next
    case False
    then have "(j, n) \<in> set (db_nodes db)" using map_put_member [OF m] by auto
    then show ?thesis using assms(1) False by (auto simp: database_ok_def)
  qed
  then show ?thesis using sorted_map_put [OF s] by (auto simp: database_ok_def put_node_def)
qed

lemma database_ok_grow: "database_ok db \<Longrightarrow> max_node_id db \<le> m \<Longrightarrow> database_ok (db\<lparr>max_node_id := m\<rparr>)"
  by (fastforce simp: database_ok_def)

lemma database_ok_cong:
  "database_ok db \<Longrightarrow> db_nodes db' = db_nodes db \<Longrightarrow> db_translation db' = db_translation db \<Longrightarrow>
   max_node_id db \<le> max_node_id db' \<Longrightarrow> database_ok db'"
  by (fastforce simp: database_ok_def)

lemma load_node_ok:
  assumes "database_ok db"
  shows "database_ok (load_node prog e db)"
proof -
  obtain fake real where e: "e = (fake, real)" by (cases e)
  let ?db = "db\<lparr>max_node_id := max (max_node_id db) fake\<rparr>"
  have "database_ok (put_node prog fake real ?db)"
    by (rule put_node_ok) (auto intro: database_ok_grow assms)
  then show ?thesis
    by (rule database_ok_cong) (simp_all add: e load_node_def put_node_def Let_def)
qed

text \<open>A loop of readers that only transform the state keeps its invariant.\<close>

lemma read_loop_inv:
  assumes step: "\<And>i a s b s'. I a \<Longrightarrow> f i a s = Inr (b, s') \<Longrightarrow> I b"
  shows "I a \<Longrightarrow> read_loop f is a s = Inr (b, s') \<Longrightarrow> I b"
proof (induction "is" arbitrary: a s)
  case (Cons i "is")
  from Cons.prems(2) obtain a1 s1 where "f i a s = Inr (a1, s1)" "read_loop f is a1 s1 = Inr (b, s')"
    by (cases "f i a s") (auto simp: rd_bind_def)
  with Cons.IH [of a1 s1] step [OF Cons.prems(1)] show ?case by blast
qed (simp add: rd_return_def)

lemma read_database_ok:
  assumes "read_database prog ro inp = Inr ((db, ro'), rest)"
  shows "database_ok db"
proof -
  obtain to_read tot s s' db0 where
      loop: "read_loop (\<lambda>_ db. rd_bind read_uint (\<lambda>fake. rd_bind read_uint (\<lambda>real. rd_return (load_node prog (fake, real) db))))
        [0..<to_read] (new_database tot) s = Inr (db0, s')"
    and db: "db = db0\<lparr>original_max_node_id := max_node_id db0\<rparr>"
    using assms
    by (auto simp: read_database_def rd_bind_def rd_return_def Let_def rd_skip_def elim!: res_bind_pairE split: prod.splits)
  have "database_ok (new_database tot)" by (simp add: database_ok_def new_database_def)
  then have "database_ok db0"
    by (rule read_loop_inv [where I = database_ok, OF _ _ loop, rotated])
      (auto simp: rd_bind_def rd_return_def elim!: res_bind_pairE intro: load_node_ok)
  then show ?thesis by (rule database_ok_cong) (simp_all add: db)
qed

lemma nodes_empty_iff: "db_nodes db = [] \<longleftrightarrow> (\<forall>i. map_of (db_nodes db) i = None)"
  by (cases "db_nodes db") auto

lemma word_below_max: "(m :: node_val) < - 1 \<Longrightarrow> unat (m + 1) = unat m + 1"
  by (simp add: word_less_nat_alt unat_word_ariths unsigned_minus_1_eq_mask mask_eq_exp_minus_1)

lemma create_node_ok:
  assumes ok: "database_ok db" and room: "max_node_id db < - 1" and c: "create_node prog db = (n, db')"
  shows "database_ok db' \<and> map_of (db_nodes db) (nd_id n) = None \<and>
    map_of (db_nodes db') = (map_of (db_nodes db))(nd_id n \<mapsto> n)"
proof (cases "db_nodes db = []")
  case True
  let ?db = "db\<lparr>max_node_id := 0, max_translated_id := 0\<rparr>"
  have "database_ok ?db" using True by (simp add: database_ok_def)
  from put_node_ok [OF this, of 0 prog 0] show ?thesis
    using c True by (auto simp: create_node_def put_node_def new_node_def Let_def)
next
  case False
  let ?m = "max_node_id db + 1"
  have less: "max_node_id db < ?m" using word_below_max [OF room] by (simp add: word_less_nat_alt)
  let ?db = "db\<lparr>max_node_id := ?m, max_translated_id := max_translated_id db + 1\<rparr>"
  have "database_ok ?db" by (rule database_ok_cong [OF ok]) (use less in auto)
  moreover have "map_of (db_nodes db) ?m = None"
    using ok less by (fastforce simp: database_ok_def map_of_eq_None_iff)
  ultimately show ?thesis
    using c False put_node_ok [of ?db ?m prog "max_translated_id db + 1"]
    by (auto simp: create_node_def put_node_def new_node_def Let_def)
qed

lemma create_node_id_ok:
  assumes ok: "database_ok db" and c: "create_node_id prog i db = Inr (n, db')"
  shows "database_ok db'"
proof -
  let ?db = "db\<lparr>max_node_id := i, max_translated_id := i\<rparr>"
  have le: "max_node_id db \<le> i" using c by (auto simp: create_node_id_def word_neq_0_conv [symmetric] split: if_splits)
  have "database_ok ?db" by (rule database_ok_cong [OF ok]) (use le in auto)
  from put_node_ok [OF this, of i prog i] show ?thesis using c by (auto simp: create_node_id_def split: if_splits)
qed

lemma reachable_ok: "database_reachable prog db \<Longrightarrow> database_ok db"
  by (induction rule: database_reachable.induct) (auto dest: read_database_ok create_node_id_ok create_node_ok)

text \<open>
  C26: In every database that was read from a file and grown by \<open>create_node\<close> and
  \<open>create_node_id\<close>, the nodes are kept in the order of their distinct identifiers, each
  under its own one, none beyond the greatest; \<open>create_node\<close>, while identifiers are left,
  gives an identifier no node has, \<open>find_node\<close> then finds the new node under it and every
  older node where it was.
\<close>

theorem create_node_is_fresh:
  assumes "database_reachable prog db" and "max_node_id db < - 1" and "create_node prog db = (n, db')"
  shows "database_ok db' \<and> find_node (nd_id n) db = Inl Assert_Failed \<and>
    (\<forall>i. find_node i db' = (if i = nd_id n then Inr n else find_node i db))"
  using create_node_ok [OF reachable_ok [OF assms(1)] assms(2,3)] by (simp add: find_node_def)

definition one_machine :: router where
  "one_machine =
     \<lparr>remote_list = [\<lparr>addr = 0, num_threads = 1, last_one = False, total_nodes = 0, nodes_base = 0, nodes_per_proc = 0\<rparr>],
      nodes_per_remote = 0, remote_self = 0\<rparr>"

text \<open>Eight bytes of magic, eight of version, the number of predicates, and one node.\<close>

definition one_node_file :: "byte list" where
  "one_node_file = replicate 17 0 @ [1, 0, 0, 0] @ [4, 0, 0, 0, 7, 0, 0, 0]"

theorem create_node_is_fresh_witness:
  "\<exists>db n db'. database_reachable no_rules db \<and> create_node no_rules db = (n, db') \<and>
     find_node (nd_id n) db = Inl Assert_Failed \<and> find_node (nd_id n) db' = Inr n"
proof -
  have "case read_database no_rules one_machine (one_node_file, 0) of Inr ((db, ro), rest) \<Rightarrow> max_node_id db < - 1 | _ \<Rightarrow> False"
    by code_simp
  then obtain db ro rest where r: "read_database no_rules one_machine (one_node_file, 0) = Inr ((db, ro), rest)"
    and m: "max_node_id db < - 1" by (auto split: sum.splits)
  obtain n db' where c: "create_node no_rules db = (n, db')" by fastforce
  have "database_reachable no_rules db" by (rule from_file [OF r])
  from create_node_is_fresh [OF this m c] \<open>database_reachable no_rules db\<close> c show ?thesis by auto
qed

section \<open>What is read from the file\<close>

lemma reads_skip: "length bs = n \<Longrightarrow> reads (rd_skip n) bs (\<lambda>_. True)"
  by (auto simp: reads_def rd_skip_def)

lemma rd_skip_0: "reads (rd_skip 0) [] (\<lambda>_. True)"
  by (simp add: reads_skip)

definition load_nodes :: "program \<Rightarrow> (node_val \<times> node_val) list \<Rightarrow> database \<Rightarrow> database" where
  "load_nodes prog es db = fold (load_node prog) es db"

lemma reads_nodes:
  "reads (read_loop (\<lambda>_ db. rd_bind read_uint (\<lambda>fake. rd_bind read_uint (\<lambda>real.
      rd_return (load_node prog (fake, real) db)))) [0..<length es] db) (enc_nodes es) ((=) (load_nodes prog es db))"
proof -
  let ?f = "\<lambda>(_ :: nat) db. rd_bind read_uint (\<lambda>fake. rd_bind read_uint (\<lambda>real. rd_return (load_node prog (fake, real) db)))"
  let ?enc = "\<lambda>k. (case es ! k of (a, b) \<Rightarrow> le_bytes 4 a @ le_bytes 4 b)"
  have step: "reads (?f ([0..<length es] ! k) a) (?enc k) ((=) (load_nodes prog (take (Suc k) es) db))"
    if k: "k < length [0..<length es]" and a: "load_nodes prog (take k es) db = a" for k a
  proof -
    obtain x y where e: "es ! k = (x, y)" by (cases "es ! k")
    have r: "load_node prog (x, y) a = load_nodes prog (take (Suc k) es) db"
      using k a e by (simp add: load_nodes_def take_Suc_conv_app_nth)
    show ?thesis unfolding e prod.case
      by (rule reads_step [OF reads_uint], rule reads_last [OF reads_uint]) (auto simp: r intro: reads_return)
  qed
  have "reads (read_loop ?f [0..<length es] db) (concat (map ?enc [0..<length [0..<length es]]))
      ((=) (load_nodes prog (take (length [0..<length es]) es) db))"
    by (rule reads_loop [where Inv = "\<lambda>k. (=) (load_nodes prog (take k es) db)"]) (simp add: load_nodes_def, rule step)
  moreover have "map ?enc [0..<length es] = map (\<lambda>(a, b). le_bytes 4 a @ le_bytes 4 b) es"
    by (rule nth_equalityI) (auto simp: split_def)
  ultimately show ?thesis by (simp add: enc_nodes_def)
qed

lemma enc_nodes_append: "enc_nodes (xs @ ys) = enc_nodes xs @ enc_nodes ys"
  by (simp add: enc_nodes_def)

text \<open>The constructor on the front part of a file, for any division that stays inside it.\<close>

lemma reads_database:
  fixes ns :: "(node_val \<times> node_val) list" and ro :: router
  defines "ro' \<equiv> set_nodes_total (length ns) ro"
  defines "r \<equiv> own_machine ro'"
  assumes small: "length ns < 2 ^ 31" and inside: "nodes_base r + total_nodes r \<le> length ns"
    and last: "last_one r \<Longrightarrow> nodes_base r + total_nodes r = length ns"
  shows "reads (read_database prog ro) (enc_header minor @ [k] @ len4 ns @ enc_nodes ns)
    (\<lambda>(db, ro1). ro1 = ro' \<and>
       db_nodes db = db_nodes (load_nodes prog (take (total_nodes r) (drop (nodes_base r) ns)) (new_database (length ns))))"
proof -
  let ?b = "nodes_base r" and ?t = "total_nodes r"
  let ?mine = "take ?t (drop ?b ns)"
  have ns: "ns = take ?b ns @ ?mine @ drop (?b + ?t) ns"
  proof -
    have "take ?b ns @ ?mine @ drop ?t (drop ?b ns) = ns" by (simp only: append_take_drop_id)
    moreover have "drop ?t (drop ?b ns) = drop (?b + ?t) ns" by (simp add: add.commute)
    ultimately show ?thesis by simp
  qed
  have num: "unat (scast (of_nat (length ns) :: uint_val) :: 64 word) = length ns"
  proof -
    have "sint (of_nat (length ns) :: uint_val) = int (length ns)"
      using small by (simp add: signed_of_nat signed_take_bit_int_eq_self)
    then show ?thesis using small
      by (simp add: scast_eq unat_of_nat take_bit_nat_eq_self)
  qed
  have base: "unat (get_nodes_base r) = ?b"
    using small inside by (simp add: get_nodes_base_def unat_node_id)
  have len: "length ?mine = ?t" using inside by simp
  have h: "enc_header minor = take 8 (enc_header minor) @ drop 8 (enc_header minor)" by simp
  have h1: "length (take 8 (enc_header minor)) = 8" "length (drop 8 (enc_header minor)) = 8"
    by (simp_all add: enc_header_def)
  have "reads (read_database prog ro)
      (take 8 (enc_header minor) @ drop 8 (enc_header minor) @ [k] @ len4 ns @
       enc_nodes (take ?b ns) @ enc_nodes ?mine @
       (if last_one r then [] else enc_nodes (drop (?b + ?t) ns)))
    (\<lambda>(db, ro1). ro1 = ro' \<and> db_nodes db = db_nodes (load_nodes prog ?mine (new_database (length ns))))"
    unfolding read_database_def
    apply (rule reads_bind [OF reads_skip [OF h1(1)]])
    apply (rule reads_bind [OF reads_skip [OF h1(2)]])
    apply (rule reads_bind [OF reads_skip], simp)
    apply (rule reads_step [OF reads_len4])
    unfolding Let_def num ro'_def [symmetric] r_def [symmetric] base
    apply (rule reads_bind [OF reads_skip], simp add: length_enc_nodes node_size_def, use inside in simp)
    apply (rule reads_step [OF reads_nodes [of prog ?mine, unfolded len]])
    apply (rule reads_last [OF reads_skip])
    using inside apply (simp add: length_enc_nodes node_size_def)
    apply (rule reads_return, simp)
    done
  moreover have "enc_nodes (take ?b ns) @ enc_nodes ?mine @ (if last_one r then [] else enc_nodes (drop (?b + ?t) ns)) = enc_nodes ns"
  proof -
    have 1: "(if last_one r then [] else enc_nodes (drop (?b + ?t) ns)) = enc_nodes (drop (?b + ?t) ns)"
      using last by (auto simp: enc_nodes_def)
    have "enc_nodes (take ?b ns @ ?mine @ drop (?b + ?t) ns) = enc_nodes ns" by (simp only: ns [symmetric])
    then show ?thesis by (simp only: 1 enc_nodes_append)
  qed
  ultimately show ?thesis by (metis h append_assoc)
qed

lemma loaded_ids: "fst ` set (db_nodes (load_nodes prog es db)) = fst ` set es \<union> fst ` set (db_nodes db)"
  by (induction es arbitrary: db)
    (auto simp: load_nodes_def load_node_def put_node_def set_map_put Let_def split: prod.splits)

lemma find_node_ok_iff: "is_ok (find_node i db) \<longleftrightarrow> i \<in> fst ` set (db_nodes db)"
proof (cases "map_of (db_nodes db) i")
  case None
  then have "i \<notin> fst ` set (db_nodes db)" by (simp add: map_of_eq_None_iff)
  then show ?thesis using None by (simp add: find_node_def)
next
  case (Some n)
  then have "(i, n) \<in> set (db_nodes db)" by (rule map_of_SomeD)
  then show ?thesis using Some by (force simp: find_node_def)
qed

lemma own_machine_after:
  assumes "ranked ro" and "world_size ro \<le> n"
  defines "r \<equiv> own_machine (set_nodes_total n ro)"
  shows "nodes_base r + total_nodes r \<le> n" and "last_one r \<Longrightarrow> nodes_base r + total_nodes r = n"
proof -
  let ?k = "remote_self ro" and ?w = "n div world_size ro"
  have k: "?k < world_size ro" using assms(1) by (simp add: ranked_def)
  note after = remote_after [OF assms(1) k, of n]
  have r: "r = remote_list (set_nodes_total n ro) ! ?k" by (simp add: r_def own_machine_def)
  have le: "(?k + 1) * ?w \<le> n" using k
    by (metis Suc_eq_plus1 Suc_leI div_times_less_eq_dividend le_trans mult.commute mult_le_mono1)
  then have le0: "?k * ?w \<le> n" by simp
  have "last_one r \<longleftrightarrow> ?k + 1 = world_size ro"
    using assms(1) k by (simp add: r set_nodes_total_def cache_values_def ranked_def world_size_def Let_def)
  then show "nodes_base r + total_nodes r \<le> n" and "last_one r \<Longrightarrow> nodes_base r + total_nodes r = n"
    using after(1,2) le le0 by (auto simp: r)
qed

text \<open>
  C23: When the nodes of a byte-code file are numbered in order and there are at least as
  many as machines, every machine finds the nodes it is to read, whatever the file holds
  behind them, and its database afterwards has exactly the nodes that \<open>find_remote\<close>
  ascribes to it: every other identifier makes \<open>find_node\<close> abort.
\<close>

theorem database_holds_own_nodes:
  assumes "map fst (cf_nodes f) = map of_nat [0..<n]" and "n < 2 ^ 31" and "world_size ro \<le> n"
    and "base_constructor threads mpi = Inr ro" and "\<forall>rank ns. mpi = Some (rank, ns) \<longrightarrow> rank < length ns"
  shows "\<exists>db ro' rest. read_database prog ro (encode_program f, 0) = Inr ((db, ro'), rest) \<and>
    (\<forall>nid. unat nid < n \<longrightarrow> is_ok (find_node nid db) = (find_remote ro' nid = Inr (remote_self ro)))"
proof -
  let ?ro = "set_nodes_total n ro" and ?ns = "cf_nodes f"
  let ?r = "own_machine ?ro"
  let ?mine = "take (total_nodes ?r) (drop (nodes_base ?r) ?ns)"
  have rk: "ranked ro" using base_constructor_ranked [OF assms(4)] assms(5) by blast
  have len: "length ?ns = n" using arg_cong [OF assms(1), of length] by simp
  note own = own_machine_after [OF rk assms(3)]
  from reads_database [of ?ns ro, unfolded len, OF assms(2) own, of prog "cf_minor f" "of_nat (length (cf_preds f))"]
  obtain db rest where run: "read_database prog ro (encode_program f, 0) = Inr ((db, ?ro), rest)"
    and nodes: "db_nodes db = db_nodes (load_nodes prog ?mine (new_database n))"
    unfolding reads_def encode_program_def by fastforce
  have ids: "fst ` set ?mine = of_nat ` {nodes_base ?r ..< nodes_base ?r + total_nodes ?r}"
  proof -
    have "map fst ?mine = map of_nat (take (total_nodes ?r) (drop (nodes_base ?r) [0..<n]))"
      by (simp only: take_map [symmetric] drop_map [symmetric] assms(1))
    also have "\<dots> = map of_nat [nodes_base ?r ..< nodes_base ?r + total_nodes ?r]" using own(1) by simp
    finally show ?thesis by (metis list.set_map set_upt)
  qed
  have "is_ok (find_node nid db) = (find_remote ?ro nid = Inr (remote_self ro))" if nid: "unat nid < n" for nid
  proof -
    have "is_ok (find_node nid db) \<longleftrightarrow> nid \<in> of_nat ` {nodes_base ?r ..< nodes_base ?r + total_nodes ?r}"
      by (simp add: find_node_ok_iff nodes loaded_ids ids new_database_def)
    also have "\<dots> \<longleftrightarrow> nodes_base ?r \<le> unat nid \<and> unat nid < nodes_base ?r + total_nodes ?r"
      using own(1) assms(2) by (auto simp: unat_node_id image_iff intro!: bexI [of _ "unat nid"])
    also have "\<dots> \<longleftrightarrow> find_remote ?ro nid = Inr (remote_self ro)"
      using find_remote_interval [OF rk nid assms(3), of "remote_self ro"] rk by (simp add: own_machine_def ranked_def)
    finally show ?thesis .
  qed
  then show ?thesis using run by blast
qed

definition three_nodes :: code_file where
  "three_nodes = sample_file\<lparr>cf_nodes := [(0, 10), (1, 11), (2, 12)]\<rparr>"

theorem database_holds_own_nodes_witness:
  "\<exists>db ro' rest. read_database no_rules three_machines (encode_program three_nodes, 0) = Inr ((db, ro'), rest) \<and>
     is_ok (find_node 1 db) = (find_remote ro' 1 = Inr 1) \<and> is_ok (find_node 2 db) = (find_remote ro' 2 = Inr 1)"
proof -
  have ids: "map fst (cf_nodes three_nodes) = map of_nat [0..<3]" by code_simp
  have size: "world_size three_machines \<le> 3" by code_simp
  have self: "remote_self three_machines = 1" by code_simp
  obtain db ro' rest where r: "read_database no_rules three_machines (encode_program three_nodes, 0) = Inr ((db, ro'), rest)"
    and own: "\<And>nid. unat nid < 3 \<Longrightarrow> is_ok (find_node nid db) = (find_remote ro' nid = Inr 1)"
    using database_holds_own_nodes [OF ids _ size three_machines_built, of no_rules] self by auto
  show ?thesis using r own [of 1] own [of 2] by auto
qed

end
