(* ===== verification/Act.thy ===== *)
theory Act
  imports Meld_Prelude
begin

text \<open>
  Sequencing of the steps of the virtual machine. An action reads and replaces a state
  and may fail with an \<open>error\<close>; \<open>None\<close> says that the bound on nested runs the caller gave
  was not enough, which nothing but the interpreter's own recursion produces. Three
  notions carry the proofs about the interpreter: what every successful run of an action
  keeps of the state (\<open>act_frame\<close>), that one action agrees with another wherever the first
  has not run out of fuel (\<open>act_le\<close>), and that an action never does (\<open>act_total\<close>).
\<close>

section \<open>Actions\<close>

type_synonym ('s, 'a) act = "'s \<Rightarrow> ('a \<times> 's) res option"

definition act_return :: "'a \<Rightarrow> ('s, 'a) act" where
  "act_return x s = Some (Inr (x, s))"

definition act_bind :: "('s, 'a) act \<Rightarrow> ('a \<Rightarrow> ('s, 'b) act) \<Rightarrow> ('s, 'b) act" where
  "act_bind m f s =
     (case m s of
        None \<Rightarrow> None
      | Some (Inl e) \<Rightarrow> Some (Inl e)
      | Some (Inr (x, t)) \<Rightarrow> f x t)"

definition act_exhausted :: "('s, 'a) act" where
  "act_exhausted s = None"

definition act_fail :: "error \<Rightarrow> ('s, 'a) act" where
  "act_fail e s = Some (Inl e)"

definition act_get :: "('s \<Rightarrow> 'a) \<Rightarrow> ('s, 'a) act" where
  "act_get f s = Some (Inr (f s, s))"

definition act_read :: "('s \<Rightarrow> 'a res) \<Rightarrow> ('s, 'a) act" where
  "act_read f s = Some (res_bind (f s) (\<lambda>x. Inr (x, s)))"

definition act_lift :: "'a res \<Rightarrow> ('s, 'a) act" where
  "act_lift r = act_read (\<lambda>_. r)"

definition act_opt :: "'a res option \<Rightarrow> ('s, 'a) act" where
  "act_opt r = (case r of None \<Rightarrow> act_exhausted | Some x \<Rightarrow> act_lift x)"

definition act_step :: "('s \<Rightarrow> ('a \<times> 's) res) \<Rightarrow> ('s, 'a) act" where
  "act_step f s = Some (f s)"

definition act_modify :: "('s \<Rightarrow> 's) \<Rightarrow> ('s, unit) act" where
  "act_modify f s = Some (Inr ((), f s))"

definition act_update :: "('s \<Rightarrow> 's res) \<Rightarrow> ('s, unit) act" where
  "act_update f s = Some (res_bind (f s) (\<lambda>t. Inr ((), t)))"

definition act_then :: "('s, unit) act \<Rightarrow> ('s, 'b) act \<Rightarrow> ('s, 'b) act" where
  "act_then m n = act_bind m (\<lambda>_. n)"

definition act_assert :: "bool \<Rightarrow> ('s, unit) act" where
  "act_assert b = (if b then act_return () else act_fail Assert_Failed)"

definition act_when :: "bool \<Rightarrow> ('s, unit) act \<Rightarrow> ('s, unit) act" where
  "act_when b m = (if b then m else act_return ())"

fun act_each :: "('i \<Rightarrow> ('s, unit) act) \<Rightarrow> 'i list \<Rightarrow> ('s, unit) act" where
  "act_each f [] = act_return ()"
| "act_each f (i # is) = act_then (f i) (act_each f is)"

text \<open>The elements for which a test that reads the state holds.\<close>

fun act_filter :: "('i \<Rightarrow> ('s, bool) act) \<Rightarrow> 'i list \<Rightarrow> ('s, 'i list) act" where
  "act_filter f [] = act_return []"
| "act_filter f (i # is) =
     act_bind (f i) (\<lambda>b. act_bind (act_filter f is) (\<lambda>js. act_return (if b then i # js else js)))"

definition act_ok :: "('a \<times> 's) res option \<Rightarrow> bool" where
  "act_ok r \<longleftrightarrow> (\<exists>x s. r = Some (Inr (x, s)))"

lemma act_bind_Inr:
  "act_bind m f s = Some (Inr y) \<longleftrightarrow> (\<exists>x t. m s = Some (Inr (x, t)) \<and> f x t = Some (Inr y))"
  by (auto simp: act_bind_def split: option.splits sum.splits)

lemma act_bind_InrE:
  assumes "act_bind m f s = Some (Inr y)"
  obtains x t where "m s = Some (Inr (x, t))" and "f x t = Some (Inr y)"
  using assms by (auto simp: act_bind_Inr)

lemma act_then_InrE:
  assumes "act_then m n s = Some (Inr y)"
  obtains t where "m s = Some (Inr ((), t))" and "n t = Some (Inr y)"
  using assms by (auto simp: act_then_def act_bind_Inr)

lemma act_bind_None:
  "act_bind m f s = None \<longleftrightarrow> m s = None \<or> (\<exists>x t. m s = Some (Inr (x, t)) \<and> f x t = None)"
  by (auto simp: act_bind_def split: option.splits sum.splits)

lemma act_run [simp]:
  "act_return x s = Some (Inr (x, s))"
  "act_fail e s = Some (Inl e)"
  "act_exhausted s = None"
  "act_get g s = Some (Inr (g s, s))"
  "act_modify h s = Some (Inr ((), h s))"
  by (simp_all add: act_return_def act_fail_def act_get_def act_modify_def act_exhausted_def)

lemma act_read_run [simp]:
  "f s = Inr x \<Longrightarrow> act_read f s = Some (Inr (x, s))" "f s = Inl e \<Longrightarrow> act_read f s = Some (Inl e)"
  by (simp_all add: act_read_def)

lemma act_update_run [simp]:
  "f s = Inr t \<Longrightarrow> act_update f s = Some (Inr ((), t))" "f s = Inl e \<Longrightarrow> act_update f s = Some (Inl e)"
  by (simp_all add: act_update_def)

lemma act_lift_run [simp]:
  "act_lift (Inr x) s = Some (Inr (x, s))" "act_lift (Inl e) s = Some (Inl e)"
  by (simp_all add: act_lift_def)

lemma act_bind_run [simp]:
  "m s = Some (Inr (x, t)) \<Longrightarrow> act_bind m f s = f x t"
  "m s = Some (Inl e) \<Longrightarrow> act_bind m f s = Some (Inl e)"
  "m s = None \<Longrightarrow> act_bind m f s = None"
  by (simp_all add: act_bind_def)

lemma act_then_run [simp]:
  "m s = Some (Inr ((), t)) \<Longrightarrow> act_then m n s = n t"
  "m s = Some (Inl e) \<Longrightarrow> act_then m n s = Some (Inl e)"
  "m s = None \<Longrightarrow> act_then m n s = None"
  by (simp_all add: act_then_def)

section \<open>What an action keeps\<close>

definition act_frame :: "('s \<Rightarrow> 's \<Rightarrow> bool) \<Rightarrow> ('s, 'a) act \<Rightarrow> bool" where
  "act_frame R m \<longleftrightarrow> (\<forall>s x t. m s = Some (Inr (x, t)) \<longrightarrow> R s t)"

lemma act_frameI: "(\<And>s x t. m s = Some (Inr (x, t)) \<Longrightarrow> R s t) \<Longrightarrow> act_frame R m"
  by (simp add: act_frame_def)

lemma act_frameD: "act_frame R m \<Longrightarrow> m s = Some (Inr (x, t)) \<Longrightarrow> R s t"
  by (auto simp: act_frame_def)

locale state_order =
  fixes R :: "'s \<Rightarrow> 's \<Rightarrow> bool"
  assumes refl: "R s s" and trans: "R s t \<Longrightarrow> R t u \<Longrightarrow> R s u"
begin

lemma frame_return: "act_frame R (act_return x)"
  by (simp add: act_frame_def refl)

lemma frame_fail: "act_frame R (act_fail e)"
  by (simp add: act_frame_def)

lemma frame_exhausted: "act_frame R act_exhausted"
  by (simp add: act_frame_def)

lemma frame_get: "act_frame R (act_get f)"
  by (simp add: act_frame_def refl)

lemma frame_read: "act_frame R (act_read f)"
  by (auto simp: act_frame_def act_read_def res_bind_Inr_iff refl)

lemma frame_lift: "act_frame R (act_lift r)"
  by (simp add: act_lift_def frame_read)

lemma frame_opt: "act_frame R (act_opt r)"
  by (cases r) (simp_all add: act_opt_def frame_exhausted frame_lift)

lemma frame_step: "(\<And>s x t. f s = Inr (x, t) \<Longrightarrow> R s t) \<Longrightarrow> act_frame R (act_step f)"
  by (simp add: act_frame_def act_step_def)

lemma frame_modify: "(\<And>s. R s (f s)) \<Longrightarrow> act_frame R (act_modify f)"
  by (simp add: act_frame_def)

lemma frame_update: "(\<And>s t. f s = Inr t \<Longrightarrow> R s t) \<Longrightarrow> act_frame R (act_update f)"
  by (auto simp: act_frame_def act_update_def res_bind_Inr_iff)

lemma frame_bind: "act_frame R m \<Longrightarrow> (\<And>x. act_frame R (f x)) \<Longrightarrow> act_frame R (act_bind m f)"
  unfolding act_frame_def act_bind_Inr by (metis trans)

lemma frame_then: "act_frame R m \<Longrightarrow> act_frame R n \<Longrightarrow> act_frame R (act_then m n)"
  unfolding act_then_def by (rule frame_bind)

lemma frame_assert: "act_frame R (act_assert b)"
  by (simp add: act_assert_def frame_return frame_fail)

lemma frame_when: "act_frame R m \<Longrightarrow> act_frame R (act_when b m)"
  by (simp add: act_when_def frame_return)

lemma frame_if: "act_frame R m \<Longrightarrow> act_frame R n \<Longrightarrow> act_frame R (if b then m else n)"
  by simp

lemma frame_each: "(\<And>i. act_frame R (f i)) \<Longrightarrow> act_frame R (act_each f is)"
  by (induction "is") (simp_all add: frame_return frame_then)

lemma frame_filter: "(\<And>i. act_frame R (f i)) \<Longrightarrow> act_frame R (act_filter f is)"
  by (induction "is") (simp_all add: frame_return frame_bind)

lemmas frame_rules =
  frame_return frame_fail frame_exhausted frame_lift frame_opt frame_get frame_read frame_bind frame_then
  frame_assert frame_when frame_if frame_each frame_filter

end

section \<open>Agreement up to fuel\<close>

definition act_le :: "('s, 'a) act \<Rightarrow> ('s, 'a) act \<Rightarrow> bool" where
  "act_le m n \<longleftrightarrow> (\<forall>s. m s = None \<or> n s = m s)"

lemma act_le_refl: "act_le m m"
  by (simp add: act_le_def)

lemma act_le_exhausted: "act_le act_exhausted n"
  by (simp add: act_le_def)

lemma act_leD: "act_le m n \<Longrightarrow> m s = Some r \<Longrightarrow> n s = Some r"
  unfolding act_le_def by (metis option.distinct(1))

lemma act_le_bind:
  assumes "act_le m m'" and "\<And>x. act_le (f x) (f' x)"
  shows "act_le (act_bind m f) (act_bind m' f')"
  unfolding act_le_def
proof
  fix s
  show "act_bind m f s = None \<or> act_bind m' f' s = act_bind m f s"
  proof (cases "m s")
    case (Some r)
    then have "m' s = Some r" by (rule act_leD [OF assms(1)])
    with Some show ?thesis using assms(2) by (cases r) (auto simp: act_bind_def act_le_def)
  qed simp
qed

lemma act_le_then: "act_le m m' \<Longrightarrow> act_le n n' \<Longrightarrow> act_le (act_then m n) (act_then m' n')"
  unfolding act_then_def by (rule act_le_bind)

lemma act_le_when: "act_le m m' \<Longrightarrow> act_le (act_when b m) (act_when b m')"
  by (simp add: act_when_def act_le_refl)

lemma act_le_if: "act_le m m' \<Longrightarrow> act_le n n' \<Longrightarrow> act_le (if b then m else n) (if b then m' else n')"
  by simp

lemma act_le_each: "(\<And>i. act_le (f i) (g i)) \<Longrightarrow> act_le (act_each f is) (act_each g is)"
  by (induction "is") (simp_all add: act_le_then act_le_refl)

lemma act_le_filter: "(\<And>i. act_le (f i) (g i)) \<Longrightarrow> act_le (act_filter f is) (act_filter g is)"
  by (induction "is") (simp_all add: act_le_bind act_le_refl)

lemmas act_le_rules = act_le_exhausted act_le_bind act_le_then act_le_when act_le_if act_le_each act_le_filter

section \<open>Actions that never run out of fuel\<close>

definition act_total :: "('s, 'a) act \<Rightarrow> bool" where
  "act_total m \<longleftrightarrow> (\<forall>s. m s \<noteq> None)"

lemma act_totalD: "act_total m \<Longrightarrow> m s \<noteq> None"
  by (simp add: act_total_def)

lemma total_bind: "act_total m \<Longrightarrow> (\<And>x. act_total (f x)) \<Longrightarrow> act_total (act_bind m f)"
  by (simp add: act_total_def act_bind_None)

lemma total_then: "act_total m \<Longrightarrow> act_total n \<Longrightarrow> act_total (act_then m n)"
  by (simp add: act_then_def total_bind)

lemma total_basic:
  "act_total (act_return x)" "act_total (act_get g)" "act_total (act_modify h)" "act_total (act_fail e)"
  "act_total (act_read r)" "act_total (act_update u)" "act_total (act_lift v)" "act_total (act_step w)"
  "act_total (act_assert b)"
  by (simp_all add: act_total_def act_read_def act_update_def act_lift_def act_step_def act_assert_def)

lemma total_when: "act_total m \<Longrightarrow> act_total (act_when b m)"
  by (simp add: act_when_def total_basic)

lemma total_if: "act_total m \<Longrightarrow> act_total n \<Longrightarrow> act_total (if b then m else n)"
  by simp

lemma total_each: "(\<And>i. act_total (f i)) \<Longrightarrow> act_total (act_each f is)"
  by (induction "is") (simp_all add: total_basic total_then)

lemma total_filter: "(\<And>i. act_total (f i)) \<Longrightarrow> act_total (act_filter f is)"
  by (induction "is") (simp_all add: total_basic total_bind)

lemmas total_rules = total_basic total_bind total_then total_when total_if total_each total_filter

end
