(* ===== verification/Vm_State.thy ===== *)
theory Vm_State
  imports Act Vm_External Database Heap_Queue
begin

text \<open>
  The state of a virtual machine, \<open>vm/state.hpp\<close> and the helpers of \<open>vm/state.cpp\<close>: its
  registers, stack and current tuple, the lists of tuples a run consumes and produces, and
  the flags and the queue of the rules to run. Tuples and counted tuples (\<open>simple_tuple\<close>)
  that the program allocates live in a store of objects; the tuples of the database are
  reached through their leaf, by its predicate and identifier in the trie of the current
  node. Lists are values: the reference counts of their cells, and \<open>purge_runtime_objects\<close>
  with the free lists it goes over, are left out here. The database belongs to
  the state, as does the state \<open>'w\<close> of the scheduler.
\<close>

section \<open>Values\<close>

text \<open>
  A register holds a \<open>tuple_field\<close>, which is a field value, a pointer to a tuple, a code
  address or a plain pointer. Reading a register as anything but what was stored in it
  reinterprets the bits of the union, which is an error here; the null pointer may be read
  as any empty list.
\<close>

datatype tref = T_Obj nat | T_Leaf predicate_id nat

datatype rval = RVal fval | RTuple tref | RCode pcounter | RPtr ptr_val | RUnset

type_synonym saddr = nat
type_synonym reg_num = nat
type_synonym leaf_ref = "predicate_id \<times> nat"

definition NUM_REGS :: nat where "NUM_REGS = 32"
definition MAX_CONSTS :: nat where "MAX_CONSTS = 32"

fun as_int :: "rval \<Rightarrow> int_val res" where
  "as_int (RVal (FInt v)) = Inr v"
| "as_int _ = Inl Bad_Access"

fun as_float :: "rval \<Rightarrow> float_val res" where
  "as_float (RVal (FFloat v)) = Inr v"
| "as_float _ = Inl Bad_Access"

fun as_node :: "rval \<Rightarrow> node_val res" where
  "as_node (RVal (FNode v)) = Inr v"
| "as_node _ = Inl Bad_Access"

fun as_int_list :: "rval \<Rightarrow> int_val list res" where
  "as_int_list (RVal (FLInt v)) = Inr v"
| "as_int_list (RPtr p) = (if p = 0 then Inr [] else Inl Bad_Access)"
| "as_int_list _ = Inl Bad_Access"

fun as_float_list :: "rval \<Rightarrow> float_val list res" where
  "as_float_list (RVal (FLFloat v)) = Inr v"
| "as_float_list (RPtr p) = (if p = 0 then Inr [] else Inl Bad_Access)"
| "as_float_list _ = Inl Bad_Access"

fun as_node_list :: "rval \<Rightarrow> node_val list res" where
  "as_node_list (RVal (FLNode v)) = Inr v"
| "as_node_list (RPtr p) = (if p = 0 then Inr [] else Inl Bad_Access)"
| "as_node_list _ = Inl Bad_Access"

fun as_string :: "rval \<Rightarrow> ptr_val res" where
  "as_string (RVal (FString p)) = Inr p"
| "as_string (RPtr p) = Inr p"
| "as_string _ = Inl Bad_Access"

fun as_tuple :: "rval \<Rightarrow> tref res" where
  "as_tuple (RTuple t) = Inr t"
| "as_tuple _ = Inl Bad_Access"

definition as_bool :: "rval \<Rightarrow> bool res" where
  "as_bool r = res_bind (as_int r) (\<lambda>v. Inr (v \<noteq> 0))"

definition of_bool_val :: "bool \<Rightarrow> fval" where
  "of_bool_val b = FInt (if b then 1 else 0)"

text \<open>A pointer-sized field read as a pointer and compared with \<open>null_ptr_val\<close>.\<close>

fun is_null_ptr :: "rval \<Rightarrow> bool res" where
  "is_null_ptr (RPtr p) = Inr (p = 0)"
| "is_null_ptr (RTuple t) = Inr False"
| "is_null_ptr (RVal (FLInt xs)) = Inr (xs = [])"
| "is_null_ptr (RVal (FLFloat xs)) = Inr (xs = [])"
| "is_null_ptr (RVal (FLNode xs)) = Inr (xs = [])"
| "is_null_ptr (RVal (FString p)) = Inr (p = 0)"
| "is_null_ptr _ = Inl Bad_Access"

text \<open>The value a field of a type takes from a register.\<close>

definition field_of_rval :: "field_type \<Rightarrow> rval \<Rightarrow> fval res" where
  "field_of_rval ty r =
     (case ty of
        FIELD_INT \<Rightarrow> res_bind (as_int r) (\<lambda>v. Inr (FInt v))
      | FIELD_FLOAT \<Rightarrow> res_bind (as_float r) (\<lambda>v. Inr (FFloat v))
      | FIELD_NODE \<Rightarrow> res_bind (as_node r) (\<lambda>v. Inr (FNode v))
      | FIELD_LIST_INT \<Rightarrow> res_bind (as_int_list r) (\<lambda>v. Inr (FLInt v))
      | FIELD_LIST_FLOAT \<Rightarrow> res_bind (as_float_list r) (\<lambda>v. Inr (FLFloat v))
      | FIELD_LIST_NODE \<Rightarrow> res_bind (as_node_list r) (\<lambda>v. Inr (FLNode v))
      | FIELD_STRING \<Rightarrow> res_bind (as_string r) (\<lambda>v. Inr (FString v))
      | FIELD_OTHER b \<Rightarrow> Inl Vm_Exec_Error)"

lemma field_of_rval_type: "field_of_rval ty r = Inr v \<Longrightarrow> fval_type v = ty"
  by (auto simp: field_of_rval_def res_bind_Inr_iff split: field_type.splits)

section \<open>Objects\<close>

record stobj =
  so_tuple :: tref
  so_count :: "16 word"
  so_to_delete :: bool
  so_generated :: bool
  so_aggregate :: bool

definition so_can_be_consumed :: "stobj \<Rightarrow> bool" where
  "so_can_be_consumed st \<longleftrightarrow> \<not> so_to_delete st \<and> \<not> so_generated st"

record objects =
  obj_tuples :: "nat \<Rightarrow> vtuple option"
  obj_stuples :: "saddr \<Rightarrow> stobj option"
  obj_next :: nat

definition no_objects :: objects where
  "no_objects = \<lparr>obj_tuples = (\<lambda>_. None), obj_stuples = (\<lambda>_. None), obj_next = 1\<rparr>"

definition alloc_tuple :: "vtuple \<Rightarrow> objects \<Rightarrow> tref \<times> objects" where
  "alloc_tuple t h =
     (T_Obj (obj_next h), h\<lparr>obj_tuples := (obj_tuples h)(obj_next h \<mapsto> t), obj_next := obj_next h + 1\<rparr>)"

definition alloc_stuple :: "tref \<Rightarrow> 16 word \<Rightarrow> objects \<Rightarrow> saddr \<times> objects" where
  "alloc_stuple t c h =
     (obj_next h,
      h\<lparr>obj_stuples := (obj_stuples h)(obj_next h \<mapsto>
           \<lparr>so_tuple = t, so_count = c, so_to_delete = False, so_generated = False, so_aggregate = False\<rparr>),
         obj_next := obj_next h + 1\<rparr>)"

section \<open>The state\<close>

record 'w vstate =
  vs_regs :: "reg_num \<Rightarrow> rval"
  vs_stack :: "rval list"                       \<comment> \<open>top first\<close>
  vs_tuple :: "tref option"
  vs_leaf :: "leaf_ref option"
  vs_queue :: "saddr option"
  vs_node :: "node_val option"
  vs_count :: "16 word"
  vs_is_linear :: bool
  vs_used :: "(leaf_ref \<times> 16 word) list"       \<comment> \<open>\<open>used_linear_tuples\<close>\<close>
  vs_current_rule :: rule_id
  vs_use_local :: bool
  vs_local :: "saddr list"
  vs_generated :: "saddr list"
  vs_persistent :: "saddr list"                 \<comment> \<open>\<open>generated_persistent_tuples\<close>\<close>
  vs_other :: "saddr list"                      \<comment> \<open>\<open>generated_other_level\<close>\<close>
  vs_leaves_for_deletion :: "leaf_ref list"
  vs_level :: strat_level
  vs_persistent_only :: bool
  vs_saved_leaf :: "reg_num \<Rightarrow> leaf_ref option"
  vs_saved_stuple :: "reg_num \<Rightarrow> saddr option"
  vs_is_leaf :: "reg_num \<Rightarrow> bool"
  vs_rules :: "rule_id \<Rightarrow> bool"
  vs_predicates :: "predicate_id \<Rightarrow> bool"
  vs_rule_queue :: "rule_id heap_object list"
  vs_shuffles :: nat                            \<comment> \<open>how often \<open>randgen\<close> was used\<close>
  vs_objs :: objects
  vs_consts :: "nat \<Rightarrow> rval"
  vs_db :: database
  vs_sched :: 'w
  vs_sim_counter :: nat
  vs_sim_limit :: nat
  vs_sim_use :: bool
  vs_output :: "ptr_val list"                   \<comment> \<open>the strings written, last first\<close>

text \<open>
  The operations on doubles, and what the code reaches outside the repository or outside
  the state: the program and where its code lies in memory, the hash functions, the
  external functions, the strings of the program and its arguments (by address), the
  random permutations, and whether the simulator runs (\<open>state::SIM\<close>).
\<close>

record float_ops =
  f_add :: "float_val \<Rightarrow> float_val \<Rightarrow> float_val"
  f_sub :: "float_val \<Rightarrow> float_val \<Rightarrow> float_val"
  f_mul :: "float_val \<Rightarrow> float_val \<Rightarrow> float_val"
  f_div :: "float_val \<Rightarrow> float_val \<Rightarrow> float_val"
  f_mod :: "float_val \<Rightarrow> float_val \<Rightarrow> float_val"
  f_of_int :: "int_val \<Rightarrow> float_val"

record code_env =
  env_prog :: program
  env_mem :: mem
  env_pred_code :: "predicate_id \<Rightarrow> pcounter"
  env_rule_code :: "rule_id \<Rightarrow> pcounter"
  env_fun_code :: "nat \<Rightarrow> pcounter"
  env_const_code :: pcounter
  env_hashes :: hashes
  env_floats :: float_ops
  env_externals :: externals
  env_call :: "fun_ptr \<Rightarrow> fval list \<Rightarrow> fval res"
  env_string :: "nat \<Rightarrow> ptr_val"
  env_argument :: "nat \<Rightarrow> ptr_val"
  env_num_arguments :: nat
  env_permute :: "nat \<Rightarrow> nat \<Rightarrow> nat list"
  env_router :: router
  env_sim :: bool

section \<open>Registers and stack\<close>

definition set_reg :: "reg_num \<Rightarrow> rval \<Rightarrow> 'w vstate \<Rightarrow> 'w vstate" where
  "set_reg r v s = s\<lparr>vs_regs := (vs_regs s)(r := v)\<rparr>"

definition reg_tuple :: "reg_num \<Rightarrow> 'w vstate \<Rightarrow> tref res" where
  "reg_tuple r s = as_tuple (vs_regs s r)"

definition copy_reg :: "reg_num \<Rightarrow> reg_num \<Rightarrow> 'w vstate \<Rightarrow> 'w vstate" where
  "copy_reg from to s = set_reg to (vs_regs s from) s"

definition set_leaf :: "reg_num \<Rightarrow> leaf_ref \<Rightarrow> 'w vstate \<Rightarrow> 'w vstate" where
  "set_leaf r l s = s\<lparr>vs_is_leaf := (vs_is_leaf s)(r := True), vs_saved_leaf := (vs_saved_leaf s)(r := Some l)\<rparr>"

definition set_tuple_queue :: "reg_num \<Rightarrow> saddr \<Rightarrow> 'w vstate \<Rightarrow> 'w vstate" where
  "set_tuple_queue r a s =
     s\<lparr>vs_is_leaf := (vs_is_leaf s)(r := False), vs_saved_stuple := (vs_saved_stuple s)(r := Some a)\<rparr>"

definition get_stack_at :: "nat \<Rightarrow> 'w vstate \<Rightarrow> rval res" where
  "get_stack_at off s = (if off < length (vs_stack s) then Inr (vs_stack s ! off) else Inl Bad_Access)"

definition set_stack_at :: "nat \<Rightarrow> rval \<Rightarrow> 'w vstate \<Rightarrow> 'w vstate res" where
  "set_stack_at off v s =
     (if off < length (vs_stack s) then Inr (s\<lparr>vs_stack := (vs_stack s)[off := v]\<rparr>) else Inl Bad_Access)"

section \<open>The node and its tuples\<close>

definition current_node :: "'w vstate \<Rightarrow> db_node res" where
  "current_node s = (case vs_node s of None \<Rightarrow> Inl Bad_Access | Some i \<Rightarrow> find_node i (vs_db s))"

definition put_current :: "db_node \<Rightarrow> 'w vstate \<Rightarrow> 'w vstate" where
  "put_current n s =
     (case vs_node s of None \<Rightarrow> s | Some i \<Rightarrow> s\<lparr>vs_db := (vs_db s)\<lparr>db_nodes := map_put i n (db_nodes (vs_db s))\<rparr>\<rparr>)"

definition on_node :: "(db_node \<Rightarrow> ('a \<times> db_node) res) \<Rightarrow> ('w vstate, 'a) act" where
  "on_node f = act_step (\<lambda>s. res_bind (current_node s) (\<lambda>n. res_bind (f n) (\<lambda>(x, n'). Inr (x, put_current n' s))))"

definition host_id :: "'w vstate \<Rightarrow> node_val res" where
  "host_id s = res_bind (current_node s) (\<lambda>n. Inr (nd_id n))"

definition leaf_data :: "leaf_ref \<Rightarrow> 'w vstate \<Rightarrow> simple_tuple res" where
  "leaf_data l s = (case l of (p, j) \<Rightarrow>
     res_bind (current_node s) (\<lambda>n. case map_of (leaves (get_storage p n)) j of None \<Rightarrow> Inl Bad_Access | Some st \<Rightarrow> Inr st))"

definition tuple_at :: "tref \<Rightarrow> 'w vstate \<Rightarrow> vtuple res" where
  "tuple_at t s =
     (case t of
        T_Obj a \<Rightarrow> (case obj_tuples (vs_objs s) a of None \<Rightarrow> Inl Bad_Access | Some tp \<Rightarrow> Inr tp)
      | T_Leaf p j \<Rightarrow> res_bind (leaf_data (p, j) s) (\<lambda>st. Inr (st_data st)))"

text \<open>A write through a pointer to a tuple.\<close>

definition put_tuple :: "tref \<Rightarrow> vtuple \<Rightarrow> 'w vstate \<Rightarrow> 'w vstate res" where
  "put_tuple t tp s =
     (case t of
        T_Obj a \<Rightarrow> Inr (s\<lparr>vs_objs := (vs_objs s)\<lparr>obj_tuples := (obj_tuples (vs_objs s))(a \<mapsto> tp)\<rparr>\<rparr>)
      | T_Leaf p j \<Rightarrow> res_bind (current_node s) (\<lambda>n.
          let tr = get_storage p n
          in Inr (put_current (set_storage p (tr\<lparr>leaves := update_leaf j (\<lambda>st. st\<lparr>st_data := tp\<rparr>) (leaves tr)\<rparr>) n) s)))"

definition tuple_field_type :: "tref \<Rightarrow> field_num \<Rightarrow> 'w vstate \<Rightarrow> field_type res" where
  "tuple_field_type t i s = res_bind (tuple_at t s) (\<lambda>tp.
     if i < num_fields (tpl_pred tp) then Inr (pred_types (tpl_pred tp) ! i) else Inl Bad_Access)"

definition get_field :: "tref \<Rightarrow> field_num \<Rightarrow> 'w vstate \<Rightarrow> rval res" where
  "get_field t i s = res_bind (tuple_at t s) (\<lambda>tp.
     if i < length (tpl_fields tp) then Inr (RVal (tpl_fields tp ! i)) else Inl Bad_Access)"

text \<open>A store into a field: the value has to be one of the field's type.\<close>

definition put_field :: "tref \<Rightarrow> field_num \<Rightarrow> rval \<Rightarrow> 'w vstate \<Rightarrow> 'w vstate res" where
  "put_field t i v s = res_bind (tuple_at t s) (\<lambda>tp. res_bind (tuple_field_type t i s) (\<lambda>ty.
     case field_of_rval ty v of
       Inl e \<Rightarrow> Inl Bad_Access
     | Inr f \<Rightarrow> if i < length (tpl_fields tp) then put_tuple t (set_field i f tp) s else Inl Bad_Access))"

text \<open>\<open>set_nil\<close> writes the null pointer over the whole union, which is zero for every type.\<close>

definition put_nil :: "tref \<Rightarrow> field_num \<Rightarrow> 'w vstate \<Rightarrow> 'w vstate res" where
  "put_nil t i s = res_bind (tuple_at t s) (\<lambda>tp. res_bind (tuple_field_type t i s) (\<lambda>ty.
     if i < length (tpl_fields tp) then put_tuple t (set_field i (zero_val ty) tp) s else Inl Bad_Access))"

section \<open>Objects of the state\<close>

definition create_tuple :: "vtuple \<Rightarrow> ('w vstate, tref) act" where
  "create_tuple tp = act_step (\<lambda>s. case alloc_tuple tp (vs_objs s) of (t, h) \<Rightarrow> Inr (t, s\<lparr>vs_objs := h\<rparr>))"

definition create_stuple :: "tref \<Rightarrow> 16 word \<Rightarrow> ('w vstate, saddr) act" where
  "create_stuple t c = act_step (\<lambda>s. case alloc_stuple t c (vs_objs s) of (a, h) \<Rightarrow> Inr (a, s\<lparr>vs_objs := h\<rparr>))"

text \<open>\<open>delete tpl\<close>: a tuple of the database is never deleted this way.\<close>

definition delete_tuple_obj :: "tref \<Rightarrow> ('w vstate, unit) act" where
  "delete_tuple_obj t = act_update (\<lambda>s.
     case t of
       T_Leaf p j \<Rightarrow> Inl Bad_Access
     | T_Obj a \<Rightarrow>
         (if obj_tuples (vs_objs s) a = None then Inl Bad_Access
          else Inr (s\<lparr>vs_objs := (vs_objs s)\<lparr>obj_tuples := (obj_tuples (vs_objs s))(a := None)\<rparr>\<rparr>)))"

definition delete_stuple_obj :: "saddr \<Rightarrow> ('w vstate, unit) act" where
  "delete_stuple_obj a = act_update (\<lambda>s.
     if obj_stuples (vs_objs s) a = None then Inl Bad_Access
     else Inr (s\<lparr>vs_objs := (vs_objs s)\<lparr>obj_stuples := (obj_stuples (vs_objs s))(a := None)\<rparr>\<rparr>))"

definition stuple_at :: "saddr \<Rightarrow> 'w vstate \<Rightarrow> stobj res" where
  "stuple_at a s = (case obj_stuples (vs_objs s) a of None \<Rightarrow> Inl Bad_Access | Some st \<Rightarrow> Inr st)"

definition put_stuple :: "saddr \<Rightarrow> (stobj \<Rightarrow> stobj) \<Rightarrow> 'w vstate \<Rightarrow> 'w vstate res" where
  "put_stuple a f s = res_bind (stuple_at a s) (\<lambda>st.
     Inr (s\<lparr>vs_objs := (vs_objs s)\<lparr>obj_stuples := (obj_stuples (vs_objs s))(a \<mapsto> f st)\<rparr>\<rparr>))"

definition will_delete :: "saddr \<Rightarrow> ('w vstate, unit) act" where
  "will_delete a = act_update (put_stuple a (\<lambda>st. st\<lparr>so_to_delete := True\<rparr>))"

definition will_not_delete :: "saddr \<Rightarrow> ('w vstate, unit) act" where
  "will_not_delete a = act_update (put_stuple a (\<lambda>st. st\<lparr>so_to_delete := False\<rparr>))"

definition set_generated_run :: "saddr \<Rightarrow> bool \<Rightarrow> ('w vstate, unit) act" where
  "set_generated_run a b = act_update (put_stuple a (\<lambda>st. st\<lparr>so_generated := b\<rparr>))"

definition set_as_aggregate :: "saddr \<Rightarrow> ('w vstate, unit) act" where
  "set_as_aggregate a = act_update (put_stuple a (\<lambda>st. st\<lparr>so_aggregate := True\<rparr>))"

definition consumable :: "saddr \<Rightarrow> 'w vstate \<Rightarrow> bool res" where
  "consumable a s = res_bind (stuple_at a s) (\<lambda>st. Inr (so_can_be_consumed st))"

definition stuple_tuple :: "saddr \<Rightarrow> 'w vstate \<Rightarrow> vtuple res" where
  "stuple_tuple a s = res_bind (stuple_at a s) (\<lambda>st. tuple_at (so_tuple st) s)"

definition stuple_pred :: "saddr \<Rightarrow> 'w vstate \<Rightarrow> predicate res" where
  "stuple_pred a s = res_bind (stuple_tuple a s) (\<lambda>tp. Inr (tpl_pred tp))"

definition wipeout :: "saddr \<Rightarrow> ('w vstate, unit) act" where
  "wipeout a = act_bind (act_read (stuple_at a)) (\<lambda>st. act_then (delete_tuple_obj (so_tuple st)) (delete_stuple_obj a))"

definition add_generated_tuple :: "saddr \<Rightarrow> ('w vstate, unit) act" where
  "add_generated_tuple a =
     act_then (set_generated_run a True) (act_modify (\<lambda>s. s\<lparr>vs_generated := vs_generated s @ [a]\<rparr>))"

section \<open>Linear tuples in use\<close>

fun used_count :: "leaf_ref \<Rightarrow> (leaf_ref \<times> 16 word) list \<Rightarrow> 16 word option" where
  "used_count l [] = None"
| "used_count l ((k, n) # us) = (if k = l then Some n else used_count l us)"

fun change_used :: "leaf_ref \<Rightarrow> 16 word \<Rightarrow> (leaf_ref \<times> 16 word) list \<Rightarrow> (leaf_ref \<times> 16 word) list" where
  "change_used l d [] = []"
| "change_used l d ((k, n) # us) = (if k = l then (k, n + d) # us else (k, n) # change_used l d us)"

definition linear_tuple_can_be_used :: "leaf_ref \<Rightarrow> 'w vstate \<Rightarrow> bool" where
  "linear_tuple_can_be_used l s = (case used_count l (vs_used s) of None \<Rightarrow> True | Some n \<Rightarrow> 0 <s n)"

definition using_new_linear_tuple :: "leaf_ref \<Rightarrow> 'w vstate \<Rightarrow> 'w vstate res" where
  "using_new_linear_tuple l s =
     (case used_count l (vs_used s) of
        Some n \<Rightarrow> (if 0 <s n then Inr (s\<lparr>vs_used := change_used l (- 1) (vs_used s)\<rparr>) else Inl Assert_Failed)
      | None \<Rightarrow> res_bind (leaf_data l s) (\<lambda>st. Inr (s\<lparr>vs_used := (l, st_count st - 1) # vs_used s\<rparr>)))"

definition no_longer_using_linear_tuple :: "leaf_ref \<Rightarrow> 'w vstate \<Rightarrow> 'w vstate res" where
  "no_longer_using_linear_tuple l s =
     (if used_count l (vs_used s) = None then Inl Assert_Failed
      else Inr (s\<lparr>vs_used := change_used l 1 (vs_used s)\<rparr>))"

section \<open>Setup and cleanup\<close>

definition unmark_generated_tuples :: "('w vstate, unit) act" where
  "unmark_generated_tuples =
     act_bind (act_get vs_generated) (\<lambda>gs.
     act_then (act_each (\<lambda>a. set_generated_run a False) gs) (act_modify (\<lambda>s. s\<lparr>vs_generated := []\<rparr>)))"

definition cleanup :: "('w vstate, unit) act" where
  "cleanup = act_modify (\<lambda>s. s\<lparr>vs_used := []\<rparr>)"

definition vm_setup :: "tref option \<Rightarrow> node_val option \<Rightarrow> 16 word \<Rightarrow> ('w vstate, unit) act" where
  "vm_setup tpl n cnt =
     act_bind (act_read (\<lambda>s. case tpl of None \<Rightarrow> Inr False | Some t \<Rightarrow> res_bind (tuple_at t s) (\<lambda>tp. Inr (pred_is_linear (tpl_pred tp))))) (\<lambda>lin.
     act_bind (act_get vs_used) (\<lambda>us.
     act_then (act_assert (us = []))
       (act_modify (\<lambda>s. s\<lparr>vs_use_local := False, vs_tuple := tpl, vs_leaf := None, vs_node := n, vs_count := cnt,
          vs_is_linear := lin, vs_used := [], vs_is_leaf := (\<lambda>_. False), vs_saved_leaf := (\<lambda>_. None),
          vs_saved_stuple := (\<lambda>_. None)\<rparr>))))"

section \<open>Rules to run\<close>

definition mark_predicate_to_run :: "predicate_id \<Rightarrow> ('w vstate, unit) act" where
  "mark_predicate_to_run p = act_modify (\<lambda>s. s\<lparr>vs_predicates := (vs_predicates s)(p := True)\<rparr>)"

definition check_if_rule_predicate_activated :: "vm_rule \<Rightarrow> 'w vstate \<Rightarrow> bool" where
  "check_if_rule_predicate_activated r s = list_ex (vs_predicates s) (rule_predicates r)"

definition rule_priority :: "rule_id \<Rightarrow> heap_priority" where
  "rule_priority i = ucast (of_nat i :: int_val)"

text \<open>The sets are ordered, and hold identifiers of rules of the program.\<close>

definition rules_of_set :: "code_env \<Rightarrow> rule_id set \<Rightarrow> rule_id list" where
  "rules_of_set env A = filter (\<lambda>i. i \<in> A) [0..<num_rules (env_prog env)]"

definition mark_active_rule :: "code_env \<Rightarrow> rule_id \<Rightarrow> ('w vstate, unit) act" where
  "mark_active_rule env rid = act_update (\<lambda>s.
     if vs_rules s rid then Inr s
     else res_bind (get_rule (env_prog env) rid) (\<lambda>r.
       if check_if_rule_predicate_activated r s
       then Inr (s\<lparr>vs_rules := (vs_rules s)(rid := True),
                   vs_rule_queue := hq_insert HEAP_INT_ASC rid (rule_priority rid) (vs_rule_queue s)\<rparr>)
       else Inr s))"

definition unmark_dropped_rule :: "rule_id \<Rightarrow> ('w vstate, unit) act" where
  "unmark_dropped_rule rid = act_update (\<lambda>s.
     if vs_rules s rid
     then res_bind (hq_remove HEAP_INT_ASC rid (rule_priority rid) (vs_rule_queue s)) (\<lambda>q.
       Inr (s\<lparr>vs_rules := (vs_rules s)(rid := False), vs_rule_queue := q\<rparr>))
     else Inr s)"

definition mark_active_rules :: "code_env \<Rightarrow> ('w vstate, unit) act" where
  "mark_active_rules env =
     act_bind (act_read current_node) (\<lambda>n.
     act_then (act_each (mark_active_rule env) (rules_of_set env (active_rules (nd_matcher n))))
       (act_each unmark_dropped_rule (rules_of_set env (dropped_rules (nd_matcher n)))))"

definition start_matching :: "('w vstate, unit) act" where
  "start_matching = act_modify (\<lambda>s. s\<lparr>vs_predicates := (\<lambda>_. False)\<rparr>)"

definition check_instruction_limit :: "'w vstate \<Rightarrow> bool" where
  "check_instruction_limit s \<longleftrightarrow> vs_sim_use s \<and> vs_sim_counter s \<ge> vs_sim_limit s"

definition add_fact_to_node :: "code_env \<Rightarrow> vtuple \<Rightarrow> 16 word \<Rightarrow> ('w vstate, bool) act" where
  "add_fact_to_node env tp cnt = on_node (add_tuple (env_hashes env) tp cnt)"

definition matcher_register :: "code_env \<Rightarrow> predicate_id \<Rightarrow> 16 word \<Rightarrow> bool \<Rightarrow> ('w vstate, unit) act" where
  "matcher_register env p cnt is_new = on_node (\<lambda>n.
     res_bind (register_tuple (env_prog env) p cnt is_new (nd_matcher n)) (\<lambda>(b, m). Inr ((), n\<lparr>nd_matcher := m\<rparr>)))"

definition matcher_deregister :: "code_env \<Rightarrow> predicate_id \<Rightarrow> 16 word \<Rightarrow> ('w vstate, unit) act" where
  "matcher_deregister env p cnt = on_node (\<lambda>n.
     res_bind (deregister_tuple (env_prog env) p cnt (nd_matcher n)) (\<lambda>(b, m). Inr ((), n\<lparr>nd_matcher := m\<rparr>)))"

end
