(* ===== verification/Machine.thy ===== *)
theory Machine
  imports Vm_State
begin

text \<open>
  The machine, \<open>process/machine.cpp\<close>: where a tuple that the virtual machine sends goes,
  and the actions. The virtual functions of \<open>sched::base\<close> that the virtual machine and the
  machine call are an interface: a record of operations on the state \<open>'w\<close> of the
  schedulers. Starting the threads, the signal handlers and the printing of the database
  are left out.
\<close>

section \<open>The interface of a scheduler\<close>

text \<open>
  A node is given by its identifier, a tuple by the address of its \<open>simple_tuple\<close> with its
  stratification level. Gathering asks of a queued tuple its predicate and whether it can
  be consumed. The last two belong to the simulator: the tuples that arrive until a time,
  and \<open>pending.push\<close>. New work comes with the instruction counter of the virtual machine,
  which is a member of the scheduler, and with the node it is from. An action on another scheduler's node says so with its first argument.
\<close>

record 'w sched_ops =
  sd_new_work :: "nat \<Rightarrow> node_val option \<Rightarrow> node_val \<Rightarrow> saddr \<Rightarrow> strat_level \<Rightarrow> 'w \<Rightarrow> 'w res"
  sd_new_work_delay :: "nat \<Rightarrow> node_val option \<Rightarrow> node_val \<Rightarrow> saddr \<Rightarrow> strat_level \<Rightarrow> uint_val \<Rightarrow> 'w \<Rightarrow> 'w res"
  sd_new_work_other :: "node_val \<Rightarrow> saddr \<Rightarrow> strat_level \<Rightarrow> 'w \<Rightarrow> 'w res"
  sd_new_work_remote :: "nat \<Rightarrow> node_val \<Rightarrow> saddr \<Rightarrow> 'w \<Rightarrow> 'w res"
  sd_same_scheduler :: "node_val \<Rightarrow> 'w \<Rightarrow> bool"        \<comment> \<open>\<open>find_scheduler(node) == this\<close>\<close>
  sd_set_node_priority :: "bool \<Rightarrow> node_val \<Rightarrow> float_val \<Rightarrow> 'w \<Rightarrow> 'w res"
  sd_add_node_priority :: "bool \<Rightarrow> node_val \<Rightarrow> float_val \<Rightarrow> 'w \<Rightarrow> 'w res"
  sd_schedule_next :: "node_val \<Rightarrow> 'w \<Rightarrow> 'w res"
  sd_set_color :: "node_val \<Rightarrow> int_val \<Rightarrow> int_val \<Rightarrow> int_val \<Rightarrow> 'w \<Rightarrow> 'w res"
  sd_gather_active :: "(saddr \<Rightarrow> (predicate_id \<times> bool) res) \<Rightarrow> node_val \<Rightarrow> predicate_id \<Rightarrow> 'w \<Rightarrow> saddr list res"
  sd_gather_next :: "node_val \<Rightarrow> 'w \<Rightarrow> (saddr list \<times> 'w) res"
  sd_tuples_until :: "node_val \<Rightarrow> nat \<Rightarrow> 'w \<Rightarrow> (saddr list \<times> 'w) res"
  sd_push_pending :: "node_val \<Rightarrow> saddr \<Rightarrow> 'w \<Rightarrow> 'w res"

definition sched_update :: "('w \<Rightarrow> 'w res) \<Rightarrow> ('w vstate, unit) act" where
  "sched_update f = act_update (\<lambda>s. res_bind (f (vs_sched s)) (\<lambda>w. Inr (s\<lparr>vs_sched := w\<rparr>)))"

definition sched_clocked :: "(nat \<Rightarrow> 'w \<Rightarrow> 'w res) \<Rightarrow> ('w vstate, unit) act" where
  "sched_clocked f = act_bind (act_get vs_sim_counter) (\<lambda>c. sched_update (f c))"

text \<open>The identifiers of the actions, and of the initial predicate (vm/program.hpp).\<close>

definition INIT_PREDICATE_ID :: predicate_id where "INIT_PREDICATE_ID = 0"
definition SET_PRIORITY_PREDICATE_ID :: predicate_id where "SET_PRIORITY_PREDICATE_ID = 1"
definition SETCOLOR_PREDICATE_ID :: predicate_id where "SETCOLOR_PREDICATE_ID = 2"
definition SETEDGELABEL_PREDICATE_ID :: predicate_id where "SETEDGELABEL_PREDICATE_ID = 3"
definition WRITE_STRING_PREDICATE_ID :: predicate_id where "WRITE_STRING_PREDICATE_ID = 4"
definition ADD_PRIORITY_PREDICATE_ID :: predicate_id where "ADD_PRIORITY_PREDICATE_ID = 5"
definition SCHEDULE_NEXT_PREDICATE_ID :: predicate_id where "SCHEDULE_NEXT_PREDICATE_ID = 6"
definition SETCOLOR2_PREDICATE_ID :: predicate_id where "SETCOLOR2_PREDICATE_ID = 7"

lemmas action_ids =
  SET_PRIORITY_PREDICATE_ID_def SETCOLOR_PREDICATE_ID_def SETEDGELABEL_PREDICATE_ID_def
  WRITE_STRING_PREDICATE_ID_def ADD_PRIORITY_PREDICATE_ID_def SCHEDULE_NEXT_PREDICATE_ID_def
  SETCOLOR2_PREDICATE_ID_def

section \<open>Placement\<close>

definition same_place :: "router \<Rightarrow> node_val \<Rightarrow> node_val \<Rightarrow> bool res" where
  "same_place ro id1 id2 =
     (if id1 = id2 then Inr True
      else res_bind (find_remote ro id1) (\<lambda>rem1. res_bind (find_remote ro id2) (\<lambda>rem2.
        if rem1 \<noteq> rem2 then Inr False
        else res_bind (find_proc_owner (remote_list ro ! rem1) id1) (\<lambda>p1.
             res_bind (find_proc_owner (remote_list ro ! rem1) id2) (\<lambda>p2. Inr (p1 = p2))))))"

section \<open>Actions\<close>

text \<open>Red, green and blue of a color; \<open>None\<close> for the color that is not set.\<close>

definition color_of :: "int \<Rightarrow> (int_val \<times> int_val \<times> int_val) option" where
  "color_of c =
     (if c = 0 then Some (255, 0, 0)
      else if c = 1 then Some (255, 160, 0)
      else if c = 2 then Some (255, 247, 0)
      else if c = 3 then Some (0, 255, 0)
      else if c = 4 then Some (0, 191, 255)
      else if c = 5 then Some (0, 0, 255)
      else if c = 6 then Some (255, 255, 255)
      else if c = 7 then Some (139, 0, 204)
      else if c = 8 then Some (255, 192, 203)
      else if c = -1 then None
      else Some (0, 0, 0))"

definition field_int :: "tref \<Rightarrow> field_num \<Rightarrow> 'w vstate \<Rightarrow> int_val res" where
  "field_int t i s = res_bind (get_field t i s) as_int"

definition field_float :: "tref \<Rightarrow> field_num \<Rightarrow> 'w vstate \<Rightarrow> float_val res" where
  "field_float t i s = res_bind (get_field t i s) as_float"

definition run_action :: "code_env \<Rightarrow> 'w sched_ops \<Rightarrow> node_val \<Rightarrow> tref \<Rightarrow> bool \<Rightarrow> ('w vstate, unit) act" where
  "run_action env so n t from_other =
     act_bind (act_read (tuple_at t)) (\<lambda>tp.
     let pid = pred_id (tpl_pred tp) in
     act_then (act_assert (pred_is_action (tpl_pred tp)))
       (if pid = SETCOLOR_PREDICATE_ID then
          act_then (act_when (env_sim env)
              (act_bind (act_read (field_int t 0)) (\<lambda>r. act_bind (act_read (field_int t 1)) (\<lambda>g.
               act_bind (act_read (field_int t 2)) (\<lambda>b. sched_update (sd_set_color so n r g b))))))
            (delete_tuple_obj t)
        else if pid = SETCOLOR2_PREDICATE_ID then
          (if \<not> env_sim env then delete_tuple_obj t
           else act_bind (act_read (field_int t 0)) (\<lambda>c.
             case color_of (sint c) of
               None \<Rightarrow> act_return ()
             | Some (r, g, b) \<Rightarrow> act_then (sched_update (sd_set_color so n r g b)) (delete_tuple_obj t)))
        else if pid = SETEDGELABEL_PREDICATE_ID then delete_tuple_obj t
        else if pid = SET_PRIORITY_PREDICATE_ID then
          act_bind (act_read (field_float t 0)) (\<lambda>p.
          act_then (sched_update (sd_set_node_priority so from_other n p)) (delete_tuple_obj t))
        else if pid = ADD_PRIORITY_PREDICATE_ID then
          act_bind (act_read (field_float t 0)) (\<lambda>p.
          act_then (sched_update (sd_add_node_priority so from_other n p)) (delete_tuple_obj t))
        else if pid = WRITE_STRING_PREDICATE_ID then
          act_bind (act_read (\<lambda>s. res_bind (get_field t 0 s) as_string)) (\<lambda>p.
          act_then (act_modify (\<lambda>s. s\<lparr>vs_output := p # vs_output s\<rparr>)) (delete_tuple_obj t))
        else if pid = SCHEDULE_NEXT_PREDICATE_ID then
          act_then (act_assert (\<not> from_other)) (act_then (sched_update (sd_schedule_next so n)) (delete_tuple_obj t))
        else act_fail Assert_Failed))"

section \<open>Routing\<close>

definition route_self :: "code_env \<Rightarrow> 'w sched_ops \<Rightarrow> node_val \<Rightarrow> saddr \<Rightarrow> uint_val \<Rightarrow> ('w vstate, unit) act" where
  "route_self env so n a delay =
     act_bind (act_read (stuple_pred a)) (\<lambda>p.
     if 0 < delay then sched_clocked (\<lambda>c. sd_new_work_delay so c (Some n) n a (pred_level p) delay)
     else act_then (act_assert (\<not> pred_is_action p)) (sched_clocked (\<lambda>c. sd_new_work so c (Some n) n a (pred_level p))))"

definition route :: "code_env \<Rightarrow> 'w sched_ops \<Rightarrow> node_val \<Rightarrow> saddr \<Rightarrow> uint_val \<Rightarrow> ('w vstate, unit) act" where
  "route env so i a delay =
     act_bind (act_lift (find_remote (env_router env) i)) (\<lambda>rem.
     act_bind (act_get (\<lambda>s. max_node_id (vs_db s))) (\<lambda>max_id.
     act_then (act_assert (i \<le> max_id))
       (if rem = remote_self (env_router env) then
          act_bind (act_read (\<lambda>s. find_node i (vs_db s))) (\<lambda>n.
          act_bind (act_get vs_node) (\<lambda>src.
          act_bind (act_get (\<lambda>s. sd_same_scheduler so i (vs_sched s))) (\<lambda>same.
          act_bind (act_read (stuple_pred a)) (\<lambda>p.
            if 0 < delay then sched_clocked (\<lambda>c. sd_new_work_delay so c src i a (pred_level p) delay)
            else if pred_is_action p then
              act_bind (act_read (stuple_at a)) (\<lambda>st.
              act_then (run_action env so i (so_tuple st) (\<not> same)) (delete_stuple_obj a))
            else if same then sched_clocked (\<lambda>c. sd_new_work so c src i a (pred_level p))
            else sched_update (sd_new_work_other so i a (pred_level p))))))
        else
          act_then (act_assert (use_mpi (env_router env)))
            (act_then (act_assert (delay = 0)) (sched_update (sd_new_work_remote so rem i a))))))"

text \<open>\<open>base::init_node\<close>: every node starts with a tuple of the initial predicate.\<close>

definition init_node :: "code_env \<Rightarrow> 'w sched_ops \<Rightarrow> node_val \<Rightarrow> ('w vstate, unit) act" where
  "init_node env so n =
     act_bind (act_lift (get_init_predicate (env_prog env))) (\<lambda>(p, prog).
     act_bind (create_tuple (new_tuple p)) (\<lambda>t.
     act_bind (create_stuple t 1) (\<lambda>a. sched_clocked (\<lambda>c. sd_new_work so c (Some n) n a (pred_level p)))))"

end
