(* ===== verification/Vm_Operands.thy ===== *)
theory Vm_Operands
  imports Machine "HOL-Library.Signed_Division"
begin

text \<open>
  The instructions of \<open>vm/exec.cpp\<close> that move and compute values: MOVE with its five kinds
  of destinations, the operands of the arithmetic and list instructions by their type
  (\<open>get_op_function\<close>, \<open>set_op_function\<close>), and OP, NOT, CONS, HEAD, TAIL, TEST-NIL, FLOAT and
  MOVE-NIL. An operand is read at a program counter, which it moves past itself.
\<close>

section \<open>Constants, strings and nodes\<close>

definition get_const :: "uint_val \<Rightarrow> 'w vstate \<Rightarrow> rval res" where
  "get_const cid s = (if unat cid < MAX_CONSTS then Inr (vs_consts s (unat cid)) else Inl Bad_Access)"

definition set_const :: "uint_val \<Rightarrow> rval \<Rightarrow> 'w vstate \<Rightarrow> 'w vstate res" where
  "set_const cid v s =
     (if unat cid < MAX_CONSTS then Inr (s\<lparr>vs_consts := (vs_consts s)(unat cid := v)\<rparr>) else Inl Bad_Access)"

definition default_string :: "code_env \<Rightarrow> uint_val \<Rightarrow> ptr_val res" where
  "default_string env i = res_bind (get_default_string (env_prog env) (unat i)) (\<lambda>_. Inr (env_string env (unat i)))"

text \<open>\<open>all::get_argument\<close>: the assertion lets 0 through, and \<open>ARGUMENTS[id - 1]\<close> is then outside the vector.\<close>

definition get_argument :: "code_env \<Rightarrow> nat \<Rightarrow> ptr_val res" where
  "get_argument env i =
     (if env_num_arguments env < i then Inl Assert_Failed
      else if i = 0 then Inl Bad_Access
      else Inr (env_argument env (i - 1)))"

text \<open>The two overloads: the one that moves the program counter also checks the identifier.\<close>

definition get_node_val_move :: "code_env \<Rightarrow> pcounter \<Rightarrow> 'w vstate \<Rightarrow> (node_val \<times> pcounter) res" where
  "get_node_val_move env m s =
     (let n = pcounter_node (env_mem env) m
      in if n \<le> max_node_id (vs_db s) then Inr (n, m + 4) else Inl Assert_Failed)"

definition get_node_val :: "code_env \<Rightarrow> pcounter \<Rightarrow> node_val" where
  "get_node_val env m = pcounter_node (env_mem env) m"

section \<open>Moves\<close>

definition field_ref :: "code_env \<Rightarrow> pcounter \<Rightarrow> 'w vstate \<Rightarrow> (tref \<times> field_num) res" where
  "field_ref env m s =
     res_bind (reg_tuple (val_field_reg (env_mem env) m) s) (\<lambda>t. Inr (t, val_field_num (env_mem env) m))"

text \<open>A field read as its own type.\<close>

definition get_typed_field :: "tref \<Rightarrow> field_num \<Rightarrow> 'w vstate \<Rightarrow> rval res" where
  "get_typed_field t i s =
     res_bind (tuple_field_type t i s) (\<lambda>ty. res_bind (get_field t i s) (\<lambda>v.
     res_bind (field_of_rval ty v) (\<lambda>f. Inr (RVal f))))"

text \<open>A store of a value read as the type of the field.\<close>

definition put_typed_field :: "tref \<Rightarrow> field_num \<Rightarrow> rval \<Rightarrow> 'w vstate \<Rightarrow> 'w vstate res" where
  "put_typed_field t i v s =
     res_bind (tuple_field_type t i s) (\<lambda>ty. res_bind (field_of_rval ty v) (\<lambda>f. put_field t i (RVal f) s))"

text \<open>Moving the current tuple also notes where it comes from.\<close>

definition move_tuple_to_reg :: "reg_num \<Rightarrow> 'w vstate \<Rightarrow> 'w vstate res" where
  "move_tuple_to_reg r s =
     (let s' = (case vs_leaf s of
                  Some l \<Rightarrow> set_leaf r l s
                | None \<Rightarrow> (case vs_queue s of Some a \<Rightarrow> set_tuple_queue r a s | None \<Rightarrow> s))
      in if vs_leaf s \<noteq> None \<and> vs_queue s \<noteq> None then Inl Assert_Failed
         else Inr (set_reg r (case vs_tuple s of None \<Rightarrow> RPtr 0 | Some t \<Rightarrow> RTuple t) s'))"

text \<open>
  The immediate pointer goes to the register whose number is the low bits of the tag of
  the source, not to the destination.
\<close>

definition move_to_reg :: "code_env \<Rightarrow> pcounter \<Rightarrow> reg_num \<Rightarrow> instr_val \<Rightarrow> 'w vstate \<Rightarrow> 'w vstate res" where
  "move_to_reg env m reg from s =
     (let mm = env_mem env in
      if val_is_float from then Inr (set_reg reg (RVal (FFloat (pcounter_float mm m))) s)
      else if val_is_int from then Inr (set_reg reg (RVal (FInt (pcounter_int mm m))) s)
      else if val_is_field from then
        res_bind (field_ref env m s) (\<lambda>(t, i). res_bind (get_typed_field t i s) (\<lambda>v. Inr (set_reg reg v s)))
      else if val_is_host from then res_bind (host_id s) (\<lambda>n. Inr (set_reg reg (RVal (FNode n)) s))
      else if val_is_node from then Inr (set_reg reg (RVal (FNode (get_node_val env m))) s)
      else if val_is_reg from then Inr (copy_reg (val_reg from) reg s)
      else if val_is_tuple from then move_tuple_to_reg reg s
      else if val_is_stack from then
        res_bind (get_stack_at (unat (pcounter_offset_num mm m)) s) (\<lambda>v. Inr (set_reg reg v s))
      else if val_is_ptr from then Inr (set_reg (val_reg from) (RPtr (pcounter_ptr mm m)) s)
      else Inl Vm_Exec_Error)"

definition put_at :: "code_env \<Rightarrow> pcounter \<Rightarrow> rval \<Rightarrow> 'w vstate \<Rightarrow> 'w vstate res" where
  "put_at env m v s = res_bind (field_ref env m s) (\<lambda>(t, i). put_field t i v s)"

definition move_const_to_field :: "tref \<Rightarrow> field_num \<Rightarrow> rval \<Rightarrow> 'w vstate \<Rightarrow> 'w vstate res" where
  "move_const_to_field t i v s = res_bind (tuple_field_type t i s) (\<lambda>ty.
     if ty = FIELD_INT \<or> ty = FIELD_FLOAT \<or> ty = FIELD_LIST_INT \<or> ty = FIELD_LIST_FLOAT \<or> ty = FIELD_NODE
     then put_typed_field t i v s else Inl Vm_Exec_Error)"

definition move_to_field :: "code_env \<Rightarrow> pcounter \<Rightarrow> instr_val \<Rightarrow> 'w vstate \<Rightarrow> 'w vstate res" where
  "move_to_field env m from s =
     (let mm = env_mem env in
      if val_is_float from then put_at env (m + 8) (RVal (FFloat (pcounter_float mm m))) s
      else if val_is_int from then put_at env (m + 4) (RVal (FInt (pcounter_int mm m))) s
      else if val_is_node from then
        res_bind (get_node_val_move env m s) (\<lambda>(n, m'). put_at env m' (RVal (FNode n)) s)
      else if val_is_string from then
        res_bind (default_string env (pcounter_uint mm m)) (\<lambda>p. put_at env (m + 4) (RVal (FString p)) s)
      else if val_is_arg from then
        res_bind (get_argument env (pcounter_argument_id mm m)) (\<lambda>p. put_at env (m + 1) (RVal (FString p)) s)
      else if val_is_stack from then
        res_bind (get_stack_at (unat (pcounter_offset_num mm m)) s) (\<lambda>v. put_at env (m + 1) v s)
      else if val_is_const from then
        res_bind (field_ref env (m + 4) s) (\<lambda>(t, i).
        res_bind (get_const (pcounter_const_id mm m) s) (\<lambda>v. move_const_to_field t i v s))
      else if val_is_field from then
        res_bind (field_ref env m s) (\<lambda>(t, i). res_bind (field_ref env (m + 2) s) (\<lambda>(t', i').
        res_bind (get_field t i s) (\<lambda>v. put_typed_field t' i' v s)))
      else
        res_bind (field_ref env m s) (\<lambda>(t, i).
          if val_is_host from then res_bind (host_id s) (\<lambda>n. put_field t i (RVal (FNode n)) s)
          else if val_is_reg from then put_typed_field t i (vs_regs s (val_reg from)) s
          else Inl Vm_Exec_Error))"

definition move_to_stack :: "code_env \<Rightarrow> pcounter \<Rightarrow> pcounter \<Rightarrow> instr_val \<Rightarrow> ('w vstate, unit) act" where
  "move_to_stack env pc m from =
     (let mm = env_mem env; off = (\<lambda>m. unat (pcounter_offset_num mm m)) in
      if val_is_pcounter from then
        act_bind (act_opt (advance mm pc)) (\<lambda>a. act_update (set_stack_at (off m) (RCode a)))
      else if val_is_int from then act_update (set_stack_at (off (m + 4)) (RVal (FInt (pcounter_int mm m))))
      else if val_is_float from then act_update (set_stack_at (off (m + 8)) (RVal (FFloat (pcounter_float mm m))))
      else if val_is_reg from then act_update (\<lambda>s. set_stack_at (off m) (vs_regs s (val_reg from)) s)
      else if val_is_const from then
        act_update (\<lambda>s. res_bind (get_const (pcounter_const_id mm m) s) (\<lambda>v. set_stack_at (off (m + 4)) v s))
      else act_fail Vm_Exec_Error)"

definition move_to_const :: "code_env \<Rightarrow> pcounter \<Rightarrow> instr_val \<Rightarrow> 'w vstate \<Rightarrow> 'w vstate res" where
  "move_to_const env m from s =
     (let mm = env_mem env; cid = pcounter_const_id mm in
      if val_is_float from then set_const (cid (m + 8)) (RVal (FFloat (pcounter_float mm m))) s
      else if val_is_int from then set_const (cid (m + 4)) (RVal (FInt (pcounter_int mm m))) s
      else if val_is_reg from then set_const (cid m) (vs_regs s (val_reg from)) s
      else if val_is_node from then
        res_bind (get_node_val_move env m s) (\<lambda>(n, m'). set_const (cid m') (RVal (FNode n)) s)
      else if val_is_string from then
        res_bind (default_string env (pcounter_uint mm m)) (\<lambda>p. set_const (cid (m + 4)) (RVal (FString p)) s)
      else Inl Vm_Exec_Error)"

definition move_to_pcounter :: "code_env \<Rightarrow> pcounter \<Rightarrow> instr_val \<Rightarrow> 'w vstate \<Rightarrow> pcounter res" where
  "move_to_pcounter env pm from s =
     (if val_is_stack from then
        res_bind (get_stack_at (unat (pcounter_offset_num (env_mem env) pm)) s) (\<lambda>v.
          case v of RCode a \<Rightarrow> Inr a | _ \<Rightarrow> Inl Bad_Access)
      else if val_is_ptr from then Inr (unat (pcounter_ptr (env_mem env) pm))
      else Inl Vm_Exec_Error)"

text \<open>The program counter after the move, which only the last kind of destination changes.\<close>

definition execute_move :: "code_env \<Rightarrow> pcounter \<Rightarrow> ('w vstate, pcounter) act" where
  "execute_move env pc =
     (let to = move_to (env_mem env) pc; from = move_from (env_mem env) pc; m = pc + 3;
          stay = (\<lambda>a. act_then a (act_return pc)) in
      if val_is_reg to then stay (act_update (move_to_reg env m (val_reg to) from))
      else if val_is_field to then stay (act_update (move_to_field env m from))
      else if val_is_const to then stay (act_update (move_to_const env m from))
      else if val_is_stack to then stay (move_to_stack env pc m from)
      else if val_is_pcounter to then act_read (move_to_pcounter env m from)
      else act_fail Vm_Exec_Error)"

section \<open>Operands\<close>

definition op_field :: "code_env \<Rightarrow> (rval \<Rightarrow> 'a res) \<Rightarrow> pcounter \<Rightarrow> 'w vstate \<Rightarrow> ('a \<times> pcounter) res" where
  "op_field env conv m s = res_bind (field_ref env m s) (\<lambda>(t, i). res_bind (get_field t i s) (\<lambda>v.
     res_bind (conv v) (\<lambda>x. Inr (x, m + 2))))"

definition op_reg :: "(rval \<Rightarrow> 'a res) \<Rightarrow> instr_val \<Rightarrow> pcounter \<Rightarrow> 'w vstate \<Rightarrow> ('a \<times> pcounter) res" where
  "op_reg conv v m s = res_bind (conv (vs_regs s (val_reg v))) (\<lambda>x. Inr (x, m))"

definition op_const :: "code_env \<Rightarrow> (rval \<Rightarrow> 'a res) \<Rightarrow> pcounter \<Rightarrow> 'w vstate \<Rightarrow> ('a \<times> pcounter) res" where
  "op_const env conv m s = res_bind (get_const (pcounter_const_id (env_mem env) m) s) (\<lambda>v.
     res_bind (conv v) (\<lambda>x. Inr (x, m + 4)))"

definition get_op_bool :: "code_env \<Rightarrow> instr_val \<Rightarrow> pcounter \<Rightarrow> 'w vstate \<Rightarrow> (bool \<times> pcounter) res" where
  "get_op_bool env v m s =
     (if val_is_reg v then op_reg as_bool v m s
      else if val_is_field v then op_field env as_bool m s
      else Inl Vm_Exec_Error)"

definition get_op_float :: "code_env \<Rightarrow> instr_val \<Rightarrow> pcounter \<Rightarrow> 'w vstate \<Rightarrow> (float_val \<times> pcounter) res" where
  "get_op_float env v m s =
     (if val_is_float v then Inr (pcounter_float (env_mem env) m, m + 8)
      else if val_is_reg v then op_reg as_float v m s
      else if val_is_field v then op_field env as_float m s
      else if val_is_const v then op_const env as_float m s
      else Inl Vm_Exec_Error)"

definition get_op_int :: "code_env \<Rightarrow> instr_val \<Rightarrow> pcounter \<Rightarrow> 'w vstate \<Rightarrow> (int_val \<times> pcounter) res" where
  "get_op_int env v m s =
     (if val_is_int v then Inr (pcounter_int (env_mem env) m, m + 4)
      else if val_is_reg v then op_reg as_int v m s
      else if val_is_field v then op_field env as_int m s
      else if val_is_const v then op_const env as_int m s
      else Inl Vm_Exec_Error)"

definition get_op_node :: "code_env \<Rightarrow> instr_val \<Rightarrow> pcounter \<Rightarrow> 'w vstate \<Rightarrow> (node_val \<times> pcounter) res" where
  "get_op_node env v m s =
     (if val_is_host v then res_bind (host_id s) (\<lambda>n. Inr (n, m))
      else if val_is_node v then get_node_val_move env m s
      else if val_is_reg v then op_reg as_node v m s
      else if val_is_field v then op_field env as_node m s
      else if val_is_const v then op_const env as_node m s
      else Inl Vm_Exec_Error)"

text \<open>Pointers are only read to be compared with the null pointer.\<close>

definition get_op_ptr_null :: "code_env \<Rightarrow> instr_val \<Rightarrow> pcounter \<Rightarrow> 'w vstate \<Rightarrow> (bool \<times> pcounter) res" where
  "get_op_ptr_null env v m s =
     (if val_is_reg v then op_reg is_null_ptr v m s
      else if val_is_field v then op_field env is_null_ptr m s
      else Inl Vm_Exec_Error)"

definition get_op_int_list :: "code_env \<Rightarrow> instr_val \<Rightarrow> pcounter \<Rightarrow> 'w vstate \<Rightarrow> (int_val list \<times> pcounter) res" where
  "get_op_int_list env v m s =
     (if val_is_reg v then op_reg as_int_list v m s
      else if val_is_field v then op_field env as_int_list m s
      else if val_is_nil v then Inr ([], m)
      else if val_is_const v then op_const env as_int_list m s
      else Inl Vm_Exec_Error)"

definition get_op_float_list :: "code_env \<Rightarrow> instr_val \<Rightarrow> pcounter \<Rightarrow> 'w vstate \<Rightarrow> (float_val list \<times> pcounter) res" where
  "get_op_float_list env v m s =
     (if val_is_reg v then op_reg as_float_list v m s
      else if val_is_field v then op_field env as_float_list m s
      else if val_is_nil v then Inr ([], m)
      else if val_is_const v then op_const env as_float_list m s
      else Inl Vm_Exec_Error)"

definition get_op_node_list :: "code_env \<Rightarrow> instr_val \<Rightarrow> pcounter \<Rightarrow> 'w vstate \<Rightarrow> (node_val list \<times> pcounter) res" where
  "get_op_node_list env v m s =
     (if val_is_reg v then op_reg as_node_list v m s
      else if val_is_field v then op_field env as_node_list m s
      else if val_is_nil v then Inr ([], m)
      else Inl Vm_Exec_Error)"

definition get_op_string :: "code_env \<Rightarrow> instr_val \<Rightarrow> pcounter \<Rightarrow> 'w vstate \<Rightarrow> (ptr_val \<times> pcounter) res" where
  "get_op_string env v m s =
     (if val_is_reg v then op_reg as_string v m s
      else if val_is_field v then op_field env as_string m s
      else if val_is_string v then
        res_bind (default_string env (pcounter_uint (env_mem env) m)) (\<lambda>p. Inr (p, m + 4))
      else if val_is_arg v then
        res_bind (get_argument env (pcounter_argument_id (env_mem env) m)) (\<lambda>p. Inr (p, m + 1))
      else if val_is_const v then op_const env as_string m s
      else Inl Vm_Exec_Error)"

text \<open>The destinations: a boolean goes to a register only, numbers also to the stack.\<close>

definition set_op_bool :: "code_env \<Rightarrow> pcounter \<Rightarrow> instr_val \<Rightarrow> bool \<Rightarrow> 'w vstate \<Rightarrow> 'w vstate res" where
  "set_op_bool env m dest b s =
     (if val_is_reg dest then Inr (set_reg (val_reg dest) (RVal (of_bool_val b)) s) else Inl Vm_Exec_Error)"

definition set_op_number :: "code_env \<Rightarrow> pcounter \<Rightarrow> instr_val \<Rightarrow> fval \<Rightarrow> 'w vstate \<Rightarrow> 'w vstate res" where
  "set_op_number env m dest v s =
     (if val_is_reg dest then Inr (set_reg (val_reg dest) (RVal v) s)
      else if val_is_field dest then put_at env m (RVal v) s
      else if val_is_stack dest then set_stack_at (unat (pcounter_offset_num (env_mem env) m)) (RVal v) s
      else Inl Vm_Exec_Error)"

definition set_op_int :: "code_env \<Rightarrow> pcounter \<Rightarrow> instr_val \<Rightarrow> int_val \<Rightarrow> 'w vstate \<Rightarrow> 'w vstate res" where
  "set_op_int env m dest v = set_op_number env m dest (FInt v)"

definition set_op_float :: "code_env \<Rightarrow> pcounter \<Rightarrow> instr_val \<Rightarrow> float_val \<Rightarrow> 'w vstate \<Rightarrow> 'w vstate res" where
  "set_op_float env m dest v = set_op_number env m dest (FFloat v)"

definition set_op_other :: "code_env \<Rightarrow> pcounter \<Rightarrow> instr_val \<Rightarrow> fval \<Rightarrow> 'w vstate \<Rightarrow> 'w vstate res" where
  "set_op_other env m dest v s =
     (if val_is_reg dest then Inr (set_reg (val_reg dest) (RVal v) s)
      else if val_is_field dest then put_at env m (RVal v) s
      else Inl Vm_Exec_Error)"

definition set_op_node :: "code_env \<Rightarrow> pcounter \<Rightarrow> instr_val \<Rightarrow> node_val \<Rightarrow> 'w vstate \<Rightarrow> 'w vstate res" where
  "set_op_node env m dest v = set_op_other env m dest (FNode v)"

definition set_op_int_list :: "code_env \<Rightarrow> pcounter \<Rightarrow> instr_val \<Rightarrow> int_val list \<Rightarrow> 'w vstate \<Rightarrow> 'w vstate res" where
  "set_op_int_list env m dest v = set_op_other env m dest (FLInt v)"

definition set_op_float_list :: "code_env \<Rightarrow> pcounter \<Rightarrow> instr_val \<Rightarrow> float_val list \<Rightarrow> 'w vstate \<Rightarrow> 'w vstate res" where
  "set_op_float_list env m dest v = set_op_other env m dest (FLFloat v)"

definition set_op_node_list :: "code_env \<Rightarrow> pcounter \<Rightarrow> instr_val \<Rightarrow> node_val list \<Rightarrow> 'w vstate \<Rightarrow> 'w vstate res" where
  "set_op_node_list env m dest v = set_op_other env m dest (FLNode v)"

section \<open>Operations\<close>

text \<open>
  Integers wrap on 32 bits. A division by zero, and the quotient that does not fit, stop
  the program.
\<close>

definition int_div :: "int_val \<Rightarrow> int_val \<Rightarrow> int_val res" where
  "int_div a b = (if b = 0 \<or> (sint a = - (2 ^ 31) \<and> b = - 1) then Inl Bad_Access else Inr (word_of_int (sint a sdiv sint b)))"

definition int_mod :: "int_val \<Rightarrow> int_val \<Rightarrow> int_val res" where
  "int_mod a b = (if b = 0 \<or> (sint a = - (2 ^ 31) \<and> b = - 1) then Inl Bad_Access else Inr (word_of_int (sint a smod sint b)))"

definition implement_operation ::
  "(instr_val \<Rightarrow> pcounter \<Rightarrow> 'w vstate \<Rightarrow> ('a \<times> pcounter) res) \<Rightarrow>
   (pcounter \<Rightarrow> instr_val \<Rightarrow> 'b \<Rightarrow> 'w vstate \<Rightarrow> 'w vstate res) \<Rightarrow> ('a \<Rightarrow> 'a \<Rightarrow> 'b res) \<Rightarrow>
   instr_val \<Rightarrow> instr_val \<Rightarrow> instr_val \<Rightarrow> pcounter \<Rightarrow> 'w vstate \<Rightarrow> 'w vstate res" where
  "implement_operation get put f arg1 arg2 dest m s =
     res_bind (get arg1 m s) (\<lambda>(v1, m1). res_bind (get arg2 m1 s) (\<lambda>(v2, m2).
     res_bind (f v1 v2) (\<lambda>v. put m2 dest v s)))"

definition execute_op :: "code_env \<Rightarrow> pcounter \<Rightarrow> 'w vstate \<Rightarrow> 'w vstate res" where
  "execute_op env pc s =
     (let mm = env_mem env; a = op_arg1 mm pc; b = op_arg2 mm pc; d = op_dest mm pc; m = pc + 5;
          fl = env_floats env;
          cmp_f = (\<lambda>f. implement_operation (get_op_float env) (set_op_bool env) (\<lambda>x y. Inr (f x y)) a b d m s);
          cmp_i = (\<lambda>f. implement_operation (get_op_int env) (set_op_bool env) (\<lambda>x y. Inr (f x y)) a b d m s);
          cmp_n = (\<lambda>f. implement_operation (get_op_node env) (set_op_bool env) (\<lambda>x y. Inr (f x y)) a b d m s);
          op_f = (\<lambda>f. implement_operation (get_op_float env) (set_op_float env) (\<lambda>x y. Inr (f x y)) a b d m s);
          op_i = (\<lambda>f. implement_operation (get_op_int env) (set_op_int env) f a b d m s)
      in case op_op mm pc of
           OP_NEQF \<Rightarrow> cmp_f (\<lambda>x y. \<not> float_eq x y)
         | OP_NEQI \<Rightarrow> cmp_i (\<noteq>)
         | OP_EQF \<Rightarrow> cmp_f float_eq
         | OP_EQI \<Rightarrow> cmp_i (=)
         | OP_LESSF \<Rightarrow> cmp_f float_lt
         | OP_LESSI \<Rightarrow> cmp_i (\<lambda>x y. x <s y)
         | OP_LESSEQF \<Rightarrow> cmp_f float_le
         | OP_LESSEQI \<Rightarrow> cmp_i (\<lambda>x y. x \<le>s y)
         | OP_GREATERF \<Rightarrow> cmp_f (\<lambda>x y. float_lt y x)
         | OP_GREATERI \<Rightarrow> cmp_i (\<lambda>x y. y <s x)
         | OP_GREATEREQF \<Rightarrow> cmp_f (\<lambda>x y. float_le y x)
         | OP_GREATEREQI \<Rightarrow> cmp_i (\<lambda>x y. y \<le>s x)
         | OP_MODF \<Rightarrow> op_f (f_mod fl)
         | OP_MODI \<Rightarrow> op_i int_mod
         | OP_PLUSF \<Rightarrow> op_f (f_add fl)
         | OP_PLUSI \<Rightarrow> op_i (\<lambda>x y. Inr (x + y))
         | OP_MINUSF \<Rightarrow> op_f (f_sub fl)
         | OP_MINUSI \<Rightarrow> op_i (\<lambda>x y. Inr (x - y))
         | OP_TIMESF \<Rightarrow> op_f (f_mul fl)
         | OP_TIMESI \<Rightarrow> op_i (\<lambda>x y. Inr (x * y))
         | OP_DIVF \<Rightarrow> op_f (f_div fl)
         | OP_DIVI \<Rightarrow> op_i int_div
         | OP_NEQA \<Rightarrow> cmp_n (\<noteq>)
         | OP_EQA \<Rightarrow> cmp_n (=)
         | OP_GREATERA \<Rightarrow> cmp_n (\<lambda>x y. y < x)
         | OP_ORB \<Rightarrow> implement_operation (get_op_bool env) (set_op_bool env) (\<lambda>x y. Inr (x \<or> y)) a b d m s
         | OP_OTHER _ \<Rightarrow> Inl Vm_Exec_Error)"

definition execute_not :: "code_env \<Rightarrow> pcounter \<Rightarrow> 'w vstate \<Rightarrow> 'w vstate res" where
  "execute_not env pc s =
     (let mm = env_mem env; op = not_op mm pc; dest = not_dest mm pc; m = pc + 3 in
      res_bind (get_op_bool env op m s) (\<lambda>(b, m').
        if val_is_reg dest then Inr (set_reg (val_reg dest) (RVal (of_bool_val (\<not> b))) s)
        else if val_is_field dest then put_at env m' (RVal (of_bool_val (\<not> b))) s
        else Inl Vm_Exec_Error))"

definition execute_move_nil :: "code_env \<Rightarrow> pcounter \<Rightarrow> 'w vstate \<Rightarrow> 'w vstate res" where
  "execute_move_nil env pc s =
     (let dest = move_nil_dest (env_mem env) pc in
      if val_is_reg dest then Inr (set_reg (val_reg dest) (RPtr 0) s)
      else if val_is_field dest then res_bind (field_ref env (pc + 2) s) (\<lambda>(t, i). put_nil t i s)
      else Inl Vm_Exec_Error)"

section \<open>Lists\<close>

definition implement_cons ::
  "(instr_val \<Rightarrow> pcounter \<Rightarrow> 'w vstate \<Rightarrow> ('a \<times> pcounter) res) \<Rightarrow>
   (instr_val \<Rightarrow> pcounter \<Rightarrow> 'w vstate \<Rightarrow> ('a list \<times> pcounter) res) \<Rightarrow>
   (pcounter \<Rightarrow> instr_val \<Rightarrow> 'a list \<Rightarrow> 'w vstate \<Rightarrow> 'w vstate res) \<Rightarrow>
   instr_val \<Rightarrow> instr_val \<Rightarrow> instr_val \<Rightarrow> pcounter \<Rightarrow> 'w vstate \<Rightarrow> 'w vstate res" where
  "implement_cons get_head get_list put head tail dest m s =
     res_bind (get_head head m s) (\<lambda>(x, m1). res_bind (get_list tail m1 s) (\<lambda>(xs, m2). put m2 dest (x # xs) s))"

definition execute_cons :: "code_env \<Rightarrow> pcounter \<Rightarrow> 'w vstate \<Rightarrow> 'w vstate res" where
  "execute_cons env pc s =
     (let mm = env_mem env; hd = cons_head mm pc; tl = cons_tail mm pc; d = cons_dest mm pc; m = pc + 5
      in case cons_type mm pc of
           FIELD_LIST_INT \<Rightarrow> implement_cons (get_op_int env) (get_op_int_list env) (set_op_int_list env) hd tl d m s
         | FIELD_LIST_FLOAT \<Rightarrow> implement_cons (get_op_float env) (get_op_float_list env) (set_op_float_list env) hd tl d m s
         | FIELD_LIST_NODE \<Rightarrow> implement_cons (get_op_node env) (get_op_node_list env) (set_op_node_list env) hd tl d m s
         | _ \<Rightarrow> Inr s)"

definition execute_test_nil :: "code_env \<Rightarrow> pcounter \<Rightarrow> 'w vstate \<Rightarrow> 'w vstate res" where
  "execute_test_nil env pc s =
     res_bind (get_op_ptr_null env (test_nil_op (env_mem env) pc) (pc + 3) s) (\<lambda>(b, m).
       set_op_bool env m (test_nil_dest (env_mem env) pc) b s)"

text \<open>The head or the tail of the empty list is read through a null pointer.\<close>

definition implement_part ::
  "(instr_val \<Rightarrow> pcounter \<Rightarrow> 'w vstate \<Rightarrow> ('a list \<times> pcounter) res) \<Rightarrow> ('a list \<Rightarrow> 'b) \<Rightarrow>
   (pcounter \<Rightarrow> instr_val \<Rightarrow> 'b \<Rightarrow> 'w vstate \<Rightarrow> 'w vstate res) \<Rightarrow>
   instr_val \<Rightarrow> instr_val \<Rightarrow> pcounter \<Rightarrow> 'w vstate \<Rightarrow> 'w vstate res" where
  "implement_part get_list part put ls dest m s =
     res_bind (get_list ls m s) (\<lambda>(xs, m'). if xs = [] then Inl Bad_Access else put m' dest (part xs) s)"

definition execute_tail :: "code_env \<Rightarrow> pcounter \<Rightarrow> 'w vstate \<Rightarrow> 'w vstate res" where
  "execute_tail env pc s =
     (let mm = env_mem env; c = tail_cons mm pc; d = tail_dest mm pc; m = pc + 4
      in case tail_type mm pc of
           FIELD_LIST_INT \<Rightarrow> implement_part (get_op_int_list env) tl (set_op_int_list env) c d m s
         | FIELD_LIST_FLOAT \<Rightarrow> implement_part (get_op_float_list env) tl (set_op_float_list env) c d m s
         | FIELD_LIST_NODE \<Rightarrow> implement_part (get_op_node_list env) tl (set_op_node_list env) c d m s
         | _ \<Rightarrow> Inl Vm_Exec_Error)"

definition execute_head :: "code_env \<Rightarrow> pcounter \<Rightarrow> 'w vstate \<Rightarrow> 'w vstate res" where
  "execute_head env pc s =
     (let mm = env_mem env; c = head_cons mm pc; d = head_dest mm pc; m = pc + 4
      in case head_type mm pc of
           FIELD_LIST_INT \<Rightarrow> implement_part (get_op_int_list env) hd (set_op_int env) c d m s
         | FIELD_LIST_FLOAT \<Rightarrow> implement_part (get_op_float_list env) hd (set_op_float env) c d m s
         | FIELD_LIST_NODE \<Rightarrow> implement_part (get_op_node_list env) hd (set_op_node env) c d m s
         | _ \<Rightarrow> Inl Vm_Exec_Error)"

definition execute_float :: "code_env \<Rightarrow> pcounter \<Rightarrow> 'w vstate \<Rightarrow> 'w vstate res" where
  "execute_float env pc s =
     res_bind (get_op_int env (float_op (env_mem env) pc) (pc + 3) s) (\<lambda>(v, m).
       set_op_float env m (float_dest (env_mem env) pc) (f_of_int (env_floats env) v) s)"

end
