(* ===== verification/Vm_Effects.thy ===== *)
theory Vm_Effects
  imports Vm_Operands
begin

text \<open>
  The instructions of \<open>vm/exec.cpp\<close> that create, send and delete tuples, that call external
  functions, and that look at the database and the machine: ALLOC, SEND, SEND-DELAY,
  REMOVE, DELETE, CALL, CALLE, SELECT, COLOCATED, RULE, NEW-NODE and NEW-AXIOMS.
\<close>

section \<open>Creating and sending tuples\<close>

definition execute_alloc :: "code_env \<Rightarrow> pcounter \<Rightarrow> ('w vstate, unit) act" where
  "execute_alloc env pc =
     act_bind (act_lift (program_new_tuple (env_prog env) (alloc_predicate (env_mem env) pc))) (\<lambda>tp.
     act_bind (create_tuple tp) (\<lambda>t. act_modify (set_reg (alloc_reg (env_mem env) pc) (RTuple t))))"

text \<open>
  Inside a run the tuple waits in one of the lists of the state: for another stratification
  level, or with the persistent (and reused) tuples, or with the linear ones. The matcher
  counts every tuple of the last two kinds but the persistent ones once, here.
\<close>

definition push_other :: "saddr \<Rightarrow> ('w vstate, unit) act" where
  "push_other a = act_modify (\<lambda>s. s\<lparr>vs_other := vs_other s @ [a]\<rparr>)"

definition push_persistent :: "saddr \<Rightarrow> ('w vstate, unit) act" where
  "push_persistent a = act_modify (\<lambda>s. s\<lparr>vs_persistent := vs_persistent s @ [a]\<rparr>)"

definition push_generated :: "saddr \<Rightarrow> ('w vstate, unit) act" where
  "push_generated a = act_modify (\<lambda>s. s\<lparr>vs_generated := vs_generated s @ [a]\<rparr>)"

definition node_id_of :: "'w vstate \<Rightarrow> node_val res" where
  "node_id_of s = (case vs_node s of None \<Rightarrow> Inl Bad_Access | Some i \<Rightarrow> Inr i)"

definition execute_send_self :: "code_env \<Rightarrow> 'w sched_ops \<Rightarrow> tref \<Rightarrow> ('w vstate, unit) act" where
  "execute_send_self env so t =
     act_bind (act_read (tuple_at t)) (\<lambda>tp. act_bind (act_read node_id_of) (\<lambda>n.
     let p = tpl_pred tp in
     if pred_is_action p then run_action env so n t False
     else
       act_bind (act_get id) (\<lambda>s. act_bind (create_stuple t (vs_count s)) (\<lambda>a.
         if vs_use_local s \<or> vs_persistent_only s then
           (if pred_level p \<noteq> vs_level s then push_other a
            else if is_persistent_pred p then push_persistent a
            else act_then (if pred_is_reused p then push_persistent a else push_generated a)
                   (act_then (matcher_register env (pred_id p) 1 True) (mark_predicate_to_run (pred_id p))))
         else act_then (route_self env so n a 0) (add_generated_tuple a)))))"

text \<open>
  A negative derivation does not retract linear tuples. The destination register is read
  only when it is not the register of the tuple.
\<close>

definition execute_send :: "code_env \<Rightarrow> 'w sched_ops \<Rightarrow> pcounter \<Rightarrow> ('w vstate, unit) act" where
  "execute_send env so pc =
     (let msg = send_msg (env_mem env) pc; dest = send_dest (env_mem env) pc in
      act_bind (act_read (reg_tuple msg)) (\<lambda>t. act_bind (act_read (tuple_at t)) (\<lambda>tp. act_bind (act_get vs_count) (\<lambda>cnt.
        if cnt <s 0 \<and> pred_is_linear (tpl_pred tp) \<and> \<not> pred_is_reused (tpl_pred tp) then delete_tuple_obj t
        else if msg = dest then execute_send_self env so t
        else act_bind (act_read (\<lambda>s. as_node (vs_regs s dest))) (\<lambda>n.
             act_bind (create_stuple t cnt) (\<lambda>a. route env so n a 0))))))"

definition execute_send_delay :: "code_env \<Rightarrow> 'w sched_ops \<Rightarrow> pcounter \<Rightarrow> ('w vstate, unit) act" where
  "execute_send_delay env so pc =
     (let msg = send_delay_msg (env_mem env) pc; dest = send_delay_dest (env_mem env) pc;
          delay = send_delay_time (env_mem env) pc in
      act_bind (act_read (reg_tuple msg)) (\<lambda>t. act_bind (act_get vs_count) (\<lambda>cnt.
      act_bind (create_stuple t cnt) (\<lambda>a.
        if msg = dest then act_bind (act_read node_id_of) (\<lambda>n. route_self env so n a delay)
        else act_bind (act_read (\<lambda>s. as_node (vs_regs s dest))) (\<lambda>n. route env so n a delay)))))"

section \<open>Deleting\<close>

definition execute_remove :: "code_env \<Rightarrow> pcounter \<Rightarrow> ('w vstate, unit) act" where
  "execute_remove env pc =
     (let reg = remove_source (env_mem env) pc in
      act_bind (act_read (reg_tuple reg)) (\<lambda>t. act_bind (act_read (tuple_at t)) (\<lambda>tp. act_bind (act_get id) (\<lambda>s.
      let p = tpl_pred tp; is_a_leaf = vs_is_leaf s reg in
      act_then (act_when (vs_use_local s \<and> is_a_leaf) (matcher_deregister env (pred_id p) 1))
        (if pred_is_reused p \<and> vs_use_local s then
           act_bind (create_stuple t (- 1)) (\<lambda>a. act_then (push_persistent a)
             (act_when is_a_leaf (act_update (\<lambda>s'. case vs_saved_leaf s reg of
                None \<Rightarrow> Inl Bad_Access
              | Some (q, j) \<Rightarrow> Inr (s'\<lparr>vs_leaves_for_deletion := vs_leaves_for_deletion s' @ [(pred_id p, j)]\<rparr>)))))
         else if is_a_leaf then
           (case vs_saved_leaf s reg of
              None \<Rightarrow> act_fail Bad_Access
            | Some (q, j) \<Rightarrow> on_node (\<lambda>n. res_bind (node_delete_by_leaf (pred_id p) j n) (\<lambda>n'. Inr ((), n'))))
         else act_return ())))))"

definition pred_field_type :: "predicate \<Rightarrow> field_num \<Rightarrow> field_type res" where
  "pred_field_type p i = (if i < num_fields p then Inr (pred_types p ! i) else Inl Bad_Access)"

text \<open>One argument of a match: its value by the type of the field.\<close>

definition match_argument ::
  "code_env \<Rightarrow> predicate \<Rightarrow> error \<Rightarrow> field_num \<Rightarrow> instr_val \<Rightarrow> pcounter \<Rightarrow> match \<Rightarrow> 'w vstate \<Rightarrow> (match \<times> pcounter) res" where
  "match_argument env p bad i v m mo s =
     res_bind (pred_field_type p i) (\<lambda>ty.
     case ty of
       FIELD_INT \<Rightarrow> res_bind (get_op_int env v m s) (\<lambda>(x, m'). res_bind (match_int i x mo) (\<lambda>mo'. Inr (mo', m')))
     | FIELD_FLOAT \<Rightarrow> res_bind (get_op_float env v m s) (\<lambda>(x, m'). res_bind (match_float i x mo) (\<lambda>mo'. Inr (mo', m')))
     | FIELD_NODE \<Rightarrow> res_bind (get_op_node env v m s) (\<lambda>(x, m'). res_bind (match_node i x mo) (\<lambda>mo'. Inr (mo', m')))
     | _ \<Rightarrow> Inl bad)"

fun delete_args :: "code_env \<Rightarrow> predicate \<Rightarrow> nat list \<Rightarrow> pcounter \<Rightarrow> match \<Rightarrow> 'w vstate \<Rightarrow> match res" where
  "delete_args env p [] m mo s = Inr mo"
| "delete_args env p (i # is) m mo s =
     (if delete_index (env_mem env) m \<noteq> i then Inl Assert_Failed
      else res_bind (match_argument env p Assert_Failed i (delete_val (env_mem env) m) (m + 2) mo s) (\<lambda>(mo', m').
           delete_args env p is m' mo' s))"

definition execute_delete :: "code_env \<Rightarrow> pcounter \<Rightarrow> ('w vstate, unit) act" where
  "execute_delete env pc =
     (let pid = delete_predicate (env_mem env) pc; num = delete_num_args (env_mem env) pc in
      case get_predicate (env_prog env) pid of
        None \<Rightarrow> act_fail Bad_Access
      | Some p \<Rightarrow>
          act_bind (act_get vs_node) (\<lambda>n.
          act_then (act_assert (n \<noteq> None)) (act_then (act_assert (0 < num))
            (act_bind (act_read (delete_args env p [0..<num] (pc + 3) (new_match p))) (\<lambda>mo.
             on_node (\<lambda>nd. res_bind (node_delete_by_index (env_hashes env) (pred_id p) mo nd) (\<lambda>nd'. Inr ((), nd'))))))))"

section \<open>External functions\<close>

definition REGISTER_OFFSET :: nat where "REGISTER_OFFSET = 38"

definition read_call_arg :: "code_env \<Rightarrow> field_type \<Rightarrow> pcounter \<Rightarrow> 'w vstate \<Rightarrow> (fval \<times> pcounter) res" where
  "read_call_arg env ty m s =
     (let v = call_val (env_mem env) m; m1 = m + 1 in
      case ty of
        FIELD_INT \<Rightarrow> res_bind (get_op_int env v m1 s) (\<lambda>(x, m'). Inr (FInt x, m'))
      | FIELD_FLOAT \<Rightarrow> res_bind (get_op_float env v m1 s) (\<lambda>(x, m'). Inr (FFloat x, m'))
      | FIELD_NODE \<Rightarrow> res_bind (get_op_node env v m1 s) (\<lambda>(x, m'). Inr (FNode x, m'))
      | FIELD_LIST_FLOAT \<Rightarrow> res_bind (get_op_float_list env v m1 s) (\<lambda>(x, m'). Inr (FLFloat x, m'))
      | FIELD_LIST_INT \<Rightarrow> res_bind (get_op_int_list env v m1 s) (\<lambda>(x, m'). Inr (FLInt x, m'))
      | FIELD_LIST_NODE \<Rightarrow> res_bind (get_op_node_list env v m1 s) (\<lambda>(x, m'). Inr (FLNode x, m'))
      | FIELD_STRING \<Rightarrow> res_bind (get_op_string env v m1 s) (\<lambda>(x, m'). Inr (FString x, m'))
      | FIELD_OTHER b \<Rightarrow> Inl Vm_Exec_Error)"

fun read_call_args :: "code_env \<Rightarrow> external_function \<Rightarrow> nat list \<Rightarrow> pcounter \<Rightarrow> 'w vstate \<Rightarrow> fval list res" where
  "read_call_args env f [] m s = Inr []"
| "read_call_args env f (i # is) m s =
     res_bind (get_arg_type f i) (\<lambda>ty. res_bind (read_call_arg env ty m s) (\<lambda>(v, m').
     res_bind (read_call_args env f is m' s) (\<lambda>vs. Inr (v # vs))))"

definition call_external :: "code_env \<Rightarrow> nat \<Rightarrow> pcounter \<Rightarrow> 'w vstate \<Rightarrow> 'w vstate res" where
  "call_external env i pc s =
     (let num = call_num_args (env_mem env) pc; reg = call_dest (env_mem env) pc in
      res_bind (lookup_external_function i (env_externals env)) (\<lambda>f.
      res_bind (read_call_args env f [0..<num] (pc + 4) s) (\<lambda>args.
      if num \<noteq> ext_num_args f then Inl Assert_Failed
      else if 3 < num then Inl Vm_Exec_Error
      else res_bind (env_call env (ext_ptr f) args) (\<lambda>ret.
        if \<exists>b. ext_ret f = FIELD_OTHER b then Inl Vm_Exec_Error
        else if fval_type ret = ext_ret f then Inr (set_reg reg (RVal ret) s)
        else Inl Bad_Access))))"

definition execute_call :: "code_env \<Rightarrow> pcounter \<Rightarrow> 'w vstate \<Rightarrow> 'w vstate res" where
  "execute_call env pc s = call_external env (call_extern_id (env_mem env) pc) pc s"

definition execute_calle :: "code_env \<Rightarrow> pcounter \<Rightarrow> 'w vstate \<Rightarrow> 'w vstate res" where
  "execute_calle env pc s = call_external env (call_extern_id (env_mem env) pc + REGISTER_OFFSET) pc s"

section \<open>The node, the machine and the rule\<close>

definition execute_select :: "code_env \<Rightarrow> pcounter \<Rightarrow> 'w vstate \<Rightarrow> pcounter res" where
  "execute_select env pc s =
     (let mm = env_mem env in
      res_bind (host_id s) (\<lambda>n.
        if original_max_node_id (vs_db s) < n then Inr (pc + select_size mm pc)
        else let hashed = select_hash mm (select_hash_start mm pc) n
             in if hashed = 0 then Inr (pc + select_size mm pc)
                else Inr (select_hash_code (select_hash_start mm pc) (select_hash_size mm pc) hashed)))"

definition execute_colocated :: "code_env \<Rightarrow> pcounter \<Rightarrow> 'w vstate \<Rightarrow> 'w vstate res" where
  "execute_colocated env pc s =
     (let mm = env_mem env in
      res_bind (get_op_node env (colocated_first mm pc) (pc + 4) s) (\<lambda>(n1, m1).
      res_bind (get_op_node env (colocated_second mm pc) m1 s) (\<lambda>(n2, m2).
      res_bind (same_place (env_router env) n1 n2) (\<lambda>b.
      Inr (set_reg (colocated_dest mm pc) (RVal (of_bool_val b)) s)))))"

definition execute_rule_instr :: "code_env \<Rightarrow> pcounter \<Rightarrow> 'w vstate \<Rightarrow> 'w vstate" where
  "execute_rule_instr env pc s = s\<lparr>vs_current_rule := unat (rule_get_id (env_mem env) pc)\<rparr>"

definition execute_new_node :: "code_env \<Rightarrow> 'w sched_ops \<Rightarrow> pcounter \<Rightarrow> ('w vstate, unit) act" where
  "execute_new_node env so pc =
     act_bind (act_step (\<lambda>s. case create_node (env_prog env) (vs_db s) of (n, db) \<Rightarrow> Inr (nd_id n, s\<lparr>vs_db := db\<rparr>))) (\<lambda>i.
     act_then (init_node env so i) (act_modify (set_reg (new_node_reg (env_mem env) pc) (RVal (FNode i)))))"

section \<open>Axioms\<close>

text \<open>
  A list is written as elements each preceded by a byte 1, and another byte. The loop that
  reads it has no bound of its own; the first argument is one.
\<close>

fun axiom_list :: "nat \<Rightarrow> (pcounter \<Rightarrow> 'a) \<Rightarrow> nat \<Rightarrow> mem \<Rightarrow> pcounter \<Rightarrow> ('a list \<times> pcounter) option" where
  "axiom_list 0 get sz mm pc = None"
| "axiom_list (Suc k) get sz mm pc =
     (if mm pc = 1 then
        (case axiom_list k get sz mm (pc + 1 + sz) of
           None \<Rightarrow> None
         | Some (xs, pc') \<Rightarrow> Some (get (pc + 1) # xs, pc'))
      else Some ([], pc + 1))"

definition axiom_field :: "nat \<Rightarrow> field_type \<Rightarrow> mem \<Rightarrow> pcounter \<Rightarrow> (fval \<times> pcounter) res option" where
  "axiom_field k ty mm pc =
     (case ty of
        FIELD_INT \<Rightarrow> Some (Inr (FInt (pcounter_int mm pc), pc + 4))
      | FIELD_FLOAT \<Rightarrow> Some (Inr (FFloat (pcounter_float mm pc), pc + 8))
      | FIELD_NODE \<Rightarrow> Some (Inr (FNode (pcounter_node mm pc), pc + 4))
      | FIELD_LIST_INT \<Rightarrow> map_option (\<lambda>(xs, pc'). Inr (FLInt xs, pc')) (axiom_list k (pcounter_int mm) 4 mm pc)
      | FIELD_LIST_FLOAT \<Rightarrow> map_option (\<lambda>(xs, pc'). Inr (FLFloat xs, pc')) (axiom_list k (pcounter_float mm) 8 mm pc)
      | FIELD_LIST_NODE \<Rightarrow> map_option (\<lambda>(xs, pc'). Inr (FLNode xs, pc')) (axiom_list k (pcounter_node mm) 4 mm pc)
      | _ \<Rightarrow> Some (Inl Assert_Failed))"

fun axiom_fields :: "nat \<Rightarrow> field_type list \<Rightarrow> mem \<Rightarrow> pcounter \<Rightarrow> ('w vstate, fval list \<times> pcounter) act" where
  "axiom_fields k [] mm pc = act_return ([], pc)"
| "axiom_fields k (t # ts) mm pc =
     act_bind (act_opt (axiom_field k t mm pc)) (\<lambda>(v, pc').
     act_bind (axiom_fields k ts mm pc') (\<lambda>(vs, pc''). act_return (v # vs, pc'')))"

fun axioms_loop :: "code_env \<Rightarrow> 'w sched_ops \<Rightarrow> nat \<Rightarrow> pcounter \<Rightarrow> pcounter \<Rightarrow> ('w vstate, unit) act" where
  "axioms_loop env so 0 pc stop = (if pc < stop then act_exhausted else act_return ())"
| "axioms_loop env so (Suc k) pc stop =
     (if pc < stop then
        (case get_predicate (env_prog env) (predicate_get (env_mem env) pc 0) of
           None \<Rightarrow> act_fail Bad_Access
         | Some p \<Rightarrow>
             act_bind (axiom_fields (Suc k) (pred_types p) (env_mem env) (pc + 1)) (\<lambda>(vs, pc').
             act_bind (create_tuple \<lparr>tpl_pred = p, tpl_fields = vs\<rparr>) (\<lambda>t.
             act_then (execute_send_self env so t) (axioms_loop env so k pc' stop))))
      else act_return ())"

definition execute_new_axioms :: "code_env \<Rightarrow> 'w sched_ops \<Rightarrow> nat \<Rightarrow> pcounter \<Rightarrow> ('w vstate, unit) act" where
  "execute_new_axioms env so k pc = axioms_loop env so k (pc + 5) (pc + new_axioms_jump (env_mem env) pc)"

end
