(* ===== verification/Vm_Exec.thy ===== *)
theory Vm_Exec
  imports Vm_Effects
begin

text \<open>
  The interpreter, \<open>vm/exec.cpp\<close>: the loop over the instructions, the runs nested in
  ITERATE and RESET-LINEAR, and the entry points \<open>execute_bytecode\<close> and \<open>execute_rule\<close>. The
  first argument of \<open>execute\<close> bounds the instructions in sequence, the depth of the nested
  runs and the loops over match lists; \<open>None\<close> is the answer when it is too small. The
  configuration defines \<open>TRIE_MATCHING\<close>, so the leaves come from the trie already matched.
\<close>

section \<open>Results of a run\<close>

datatype return_type =
    RETURN_OK
  | RETURN_SELECT
  | RETURN_NEXT
  | RETURN_LINEAR
  | RETURN_DERIVED
  | RETURN_END_LINEAR
  | RETURN_NO_RETURN

definition consumed :: "return_type \<Rightarrow> bool" where
  "consumed ret \<longleftrightarrow> ret = RETURN_LINEAR \<or> ret = RETURN_DERIVED"

text \<open>A candidate ends the iteration that found it.\<close>

definition stops :: "return_type \<Rightarrow> 'w vstate \<Rightarrow> bool" where
  "stops ret s \<longleftrightarrow> ret = RETURN_LINEAR \<or> (ret = RETURN_DERIVED \<and> vs_is_linear s)"

section \<open>Matching a tuple\<close>

definition vtuple_field :: "vtuple \<Rightarrow> field_num \<Rightarrow> (rval \<Rightarrow> 'a res) \<Rightarrow> 'a res" where
  "vtuple_field tp i conv = (if i < length (tpl_fields tp) then conv (RVal (tpl_fields tp ! i)) else Inl Bad_Access)"

text \<open>The comparison by the type of the field, with a value of that type.\<close>

definition match_primitive :: "vtuple \<Rightarrow> field_num \<Rightarrow> rval \<Rightarrow> bool res" where
  "match_primitive tp i v =
     res_bind (pred_field_type (tpl_pred tp) i) (\<lambda>ty.
     case ty of
       FIELD_INT \<Rightarrow> res_bind (vtuple_field tp i as_int) (\<lambda>x. res_bind (as_int v) (\<lambda>y. Inr (x = y)))
     | FIELD_FLOAT \<Rightarrow> res_bind (vtuple_field tp i as_float) (\<lambda>x. res_bind (as_float v) (\<lambda>y. Inr (float_eq x y)))
     | FIELD_NODE \<Rightarrow> res_bind (vtuple_field tp i as_node) (\<lambda>x. res_bind (as_node v) (\<lambda>y. Inr (x = y)))
     | _ \<Rightarrow> Inl Vm_Exec_Error)"

definition do_match :: "code_env \<Rightarrow> vtuple \<Rightarrow> field_num \<Rightarrow> instr_val \<Rightarrow> pcounter \<Rightarrow> 'w vstate \<Rightarrow> (bool \<times> pcounter) res" where
  "do_match env tp i v pc s =
     (let mm = env_mem env in
      if val_is_reg v then res_bind (match_primitive tp i (vs_regs s (val_reg v))) (\<lambda>b. Inr (b, pc))
      else if val_is_field v then
        res_bind (field_ref env pc s) (\<lambda>(t2, i2). res_bind (get_field t2 i2 s) (\<lambda>w.
        res_bind (match_primitive tp i w) (\<lambda>b. Inr (b, pc + 2))))
      else if val_is_nil v then Inl Vm_Exec_Error
      else if val_is_host v then
        res_bind (vtuple_field tp i as_node) (\<lambda>x. res_bind (host_id s) (\<lambda>n. Inr (x = n, pc)))
      else if val_is_int v then
        res_bind (vtuple_field tp i as_int) (\<lambda>x. Inr (x = pcounter_int mm pc, pc + 4))
      else if val_is_float v then
        res_bind (vtuple_field tp i as_float) (\<lambda>x. Inr (float_eq x (pcounter_float mm pc), pc + 8))
      else Inl Vm_Exec_Error)"

fun do_matches_loop :: "code_env \<Rightarrow> nat \<Rightarrow> pcounter \<Rightarrow> vtuple \<Rightarrow> ('w vstate, bool) act" where
  "do_matches_loop env 0 pc tp = act_exhausted"
| "do_matches_loop env (Suc k) pc tp =
     act_bind (act_read (do_match env tp (iter_match_field (env_mem env) pc) (iter_match_val (env_mem env) pc) (pc + 2))) (\<lambda>(b, pc').
       if \<not> b then act_return False
       else if iter_match_end (env_mem env) pc then act_return True
       else do_matches_loop env k pc' tp)"

definition do_matches :: "code_env \<Rightarrow> nat \<Rightarrow> pcounter \<Rightarrow> vtuple \<Rightarrow> ('w vstate, bool) act" where
  "do_matches env k pc tp =
     (if iter_match_none (env_mem env) pc then act_return True else do_matches_loop env k pc tp)"

fun build_match_loop :: "code_env \<Rightarrow> nat \<Rightarrow> pcounter \<Rightarrow> predicate \<Rightarrow> match \<Rightarrow> ('w vstate, match) act" where
  "build_match_loop env 0 pc p mo = act_exhausted"
| "build_match_loop env (Suc k) pc p mo =
     act_bind (act_read (match_argument env p Vm_Exec_Error (iter_match_field (env_mem env) pc)
         (iter_match_val (env_mem env) pc) (pc + 2) mo)) (\<lambda>(mo', pc').
       if iter_match_end (env_mem env) pc then act_return mo'
       else build_match_loop env k pc' p mo')"

definition build_match_object :: "code_env \<Rightarrow> nat \<Rightarrow> pcounter \<Rightarrow> predicate \<Rightarrow> ('w vstate, match) act" where
  "build_match_object env k pc p =
     (if iter_match_none (env_mem env) pc then act_return (new_match p)
      else build_match_loop env k pc p (new_match p))"

section \<open>One candidate\<close>

text \<open>
  A nested run with its own current tuple: \<open>PUSH_CURRENT_STATE\<close>, the run, \<open>POP_STATE\<close>.
  \<open>old_lin\<close> is the flag as it was when the iteration began.
\<close>

definition push_current_state :: "tref \<Rightarrow> leaf_ref option \<Rightarrow> saddr option \<Rightarrow> bool \<Rightarrow> 'w vstate \<Rightarrow> 'w vstate" where
  "push_current_state t l q lin s =
     s\<lparr>vs_tuple := Some t, vs_leaf := l, vs_queue := q, vs_is_linear := lin \<or> vs_is_linear s\<rparr>"

definition pop_state :: "'w vstate \<Rightarrow> bool \<Rightarrow> 'w vstate \<Rightarrow> 'w vstate" where
  "pop_state old old_lin s =
     s\<lparr>vs_tuple := vs_tuple old, vs_leaf := vs_leaf old, vs_queue := vs_queue old, vs_is_linear := old_lin\<rparr>"

definition with_current ::
  "('w vstate, return_type) act \<Rightarrow> tref \<Rightarrow> leaf_ref option \<Rightarrow> saddr option \<Rightarrow> bool \<Rightarrow> bool \<Rightarrow> ('w vstate, return_type) act" where
  "with_current run t l q lin old_lin =
     act_bind (act_get id) (\<lambda>old.
     act_then (act_modify (push_current_state t l q lin))
       (act_bind run (\<lambda>ret. act_then (act_modify (pop_state old old_lin)) (act_return ret))))"

text \<open>Whether the iteration ends after a candidate, and with what.\<close>

definition after_candidate :: "return_type \<Rightarrow> ('w vstate, return_type option) act" where
  "after_candidate ret = act_get (\<lambda>s. if stops ret s then Some ret else None)"

fun first_that_stops :: "('i \<Rightarrow> ('w vstate, return_type option) act) \<Rightarrow> 'i list \<Rightarrow> ('w vstate, return_type option) act" where
  "first_that_stops f [] = act_return None"
| "first_that_stops f (i # is) =
     act_bind (f i) (\<lambda>r. case r of Some ret \<Rightarrow> act_return (Some ret) | None \<Rightarrow> first_that_stops f is)"

text \<open>
  A leaf of the database. A linear fact is taken out of use while the run lasts, unless
  the run consumed it; a leaf deleted by an earlier candidate is read all the same.
\<close>

definition run_leaf ::
  "('w vstate, return_type) act \<Rightarrow> predicate_id \<Rightarrow> bool \<Rightarrow> bool \<Rightarrow> nat \<Rightarrow> ('w vstate, return_type option) act" where
  "run_leaf run p lin old_lin j =
     act_bind (act_get (linear_tuple_can_be_used (p, j))) (\<lambda>usable.
     if lin \<and> \<not> usable then act_return None
     else
       act_then (act_when lin (act_update (using_new_linear_tuple (p, j))))
         (act_bind (act_read (leaf_data (p, j))) (\<lambda>_.
          act_bind (with_current run (T_Leaf p j) (Some (p, j)) None lin old_lin) (\<lambda>ret.
          act_then (act_when (\<not> consumed ret \<and> lin) (act_update (no_longer_using_linear_tuple (p, j))))
            (after_candidate ret)))))"

text \<open>A tuple of the queue or of the local list, marked so that nothing else uses it.\<close>

definition run_stuple ::
  "('w vstate, return_type) act \<Rightarrow> bool \<Rightarrow> bool \<Rightarrow> bool \<Rightarrow> saddr \<Rightarrow> ('w vstate, return_type option) act" where
  "run_stuple run to_delete lin old_lin a =
     act_bind (act_read (stuple_at a)) (\<lambda>st.
     act_then (act_when (to_delete \<or> lin) (act_then (act_assert lin) (will_delete a)))
       (act_bind (with_current run (so_tuple st) None (Some a) lin old_lin) (\<lambda>ret.
        act_then (act_when (\<not> consumed ret \<and> (to_delete \<or> lin)) (will_not_delete a))
          (act_then (act_when (\<not> to_delete \<and> lin) (will_not_delete a)) (after_candidate ret)))))"

text \<open>The same in the sorted iteration, where the mark depends on the option alone.\<close>

definition run_sorted_stuple ::
  "('w vstate, return_type) act \<Rightarrow> bool \<Rightarrow> bool \<Rightarrow> bool \<Rightarrow> saddr \<Rightarrow> ('w vstate, return_type option) act" where
  "run_sorted_stuple run to_delete lin old_lin a =
     act_bind (act_read (consumable a)) (\<lambda>ok.
     if \<not> ok then act_return None
     else act_bind (act_read (stuple_at a)) (\<lambda>st.
          act_then (act_when to_delete (will_delete a))
            (act_bind (with_current run (so_tuple st) None (Some a) lin old_lin) (\<lambda>ret.
             act_then (act_when (\<not> consumed ret) (will_not_delete a)) (after_candidate ret)))))"

section \<open>The sorted iteration\<close>

datatype iter_object = ITER_DB nat | ITER_QUEUE saddr | ITER_LOCAL saddr

definition iter_tuple :: "predicate_id \<Rightarrow> iter_object \<Rightarrow> 'w vstate \<Rightarrow> vtuple res" where
  "iter_tuple p o1 s =
     (case o1 of
        ITER_DB j \<Rightarrow> tuple_at (T_Leaf p j) s
      | ITER_QUEUE a \<Rightarrow> stuple_tuple a s
      | ITER_LOCAL a \<Rightarrow> stuple_tuple a s)"

text \<open>
  What \<open>tuple_sorter\<close> compares by, as a number. Where \<open>std::sort\<close> leaves the order of equal
  elements open, they stay in the order they were collected; a NaN, for which the
  comparison is no order, is an error.
\<close>

definition sort_rank :: "predicate \<Rightarrow> field_num \<Rightarrow> vtuple \<Rightarrow> int res" where
  "sort_rank p i tp =
     res_bind (pred_field_type p i) (\<lambda>ty.
     case ty of
       FIELD_INT \<Rightarrow> res_bind (vtuple_field tp i as_int) (\<lambda>x. Inr (sint x))
     | FIELD_FLOAT \<Rightarrow> res_bind (vtuple_field tp i as_float) (\<lambda>x. if float_is_nan x then Inl Bad_Access else Inr (float_rank x))
     | FIELD_NODE \<Rightarrow> res_bind (vtuple_field tp i as_node) (\<lambda>x. Inr (uint x))
     | _ \<Rightarrow> Inl Vm_Exec_Error)"

definition sort_everything :: "predicate \<Rightarrow> field_num \<Rightarrow> iter_object list \<Rightarrow> 'w vstate \<Rightarrow> iter_object list res" where
  "sort_everything p i os s =
     (if length os < 2 then Inr os
      else res_bind (res_map (\<lambda>o1. res_bind (iter_tuple (pred_id p) o1 s) (\<lambda>tp. res_bind (sort_rank p i tp) (\<lambda>k. Inr (k, o1)))) os)
             (\<lambda>ks. Inr (map snd (sort_key fst ks))))"

definition stuple_info :: "'w vstate \<Rightarrow> saddr \<Rightarrow> (predicate_id \<times> bool) res" where
  "stuple_info s a = res_bind (stuple_pred a s) (\<lambda>p. res_bind (consumable a s) (\<lambda>b. Inr (pred_id p, b)))"

definition gather_active_tuples :: "'w sched_ops \<Rightarrow> predicate_id \<Rightarrow> 'w vstate \<Rightarrow> saddr list res" where
  "gather_active_tuples so p s =
     res_bind (node_id_of s) (\<lambda>n. sd_gather_active so (stuple_info s) n p (vs_sched s))"

definition stuple_matches :: "code_env \<Rightarrow> nat \<Rightarrow> pcounter \<Rightarrow> saddr \<Rightarrow> ('w vstate, bool) act" where
  "stuple_matches env k pc a = act_bind (act_read (stuple_tuple a)) (\<lambda>tp. do_matches env k pc tp)"

text \<open>A tuple of the local list that has the predicate, can be consumed and matches.\<close>

definition local_candidate :: "code_env \<Rightarrow> nat \<Rightarrow> pcounter \<Rightarrow> predicate \<Rightarrow> saddr \<Rightarrow> ('w vstate, bool) act" where
  "local_candidate env k pc p a =
     act_bind (act_read (consumable a)) (\<lambda>ok.
     if \<not> ok then act_return False
     else act_bind (act_read (stuple_pred a)) (\<lambda>q.
          if pred_id q \<noteq> pred_id p then act_return False else stuple_matches env k pc a))"

definition collect_everything ::
  "code_env \<Rightarrow> 'w sched_ops \<Rightarrow> nat \<Rightarrow> pcounter \<Rightarrow> predicate \<Rightarrow> nat list \<Rightarrow> ('w vstate, iter_object list) act" where
  "collect_everything env so k pc p js =
     act_bind (act_read (gather_active_tuples so (pred_id p))) (\<lambda>queued.
     act_bind (act_filter (stuple_matches env k pc) queued) (\<lambda>qs.
     act_bind (act_get id) (\<lambda>s.
     act_bind (if vs_use_local s then act_filter (local_candidate env k pc p) (vs_local s) else act_return []) (\<lambda>ls.
     act_return (map ITER_QUEUE qs @ map ITER_LOCAL ls @ map ITER_DB js)))))"

definition run_sorted ::
  "('w vstate, return_type) act \<Rightarrow> predicate_id \<Rightarrow> bool \<Rightarrow> bool \<Rightarrow> bool \<Rightarrow> iter_object \<Rightarrow> ('w vstate, return_type option) act" where
  "run_sorted run p to_delete lin old_lin o1 =
     (case o1 of
        ITER_DB j \<Rightarrow> run_leaf run p lin old_lin j
      | ITER_QUEUE a \<Rightarrow> run_sorted_stuple run to_delete lin old_lin a
      | ITER_LOCAL a \<Rightarrow> run_sorted_stuple run to_delete lin old_lin a)"

definition or_no_return :: "('w vstate, return_type option) act \<Rightarrow> ('w vstate, return_type) act" where
  "or_no_return m = act_bind m (\<lambda>r. act_return (case r of Some ret \<Rightarrow> ret | None \<Rightarrow> RETURN_NO_RETURN))"

definition iterate_sorted ::
  "code_env \<Rightarrow> 'w sched_ops \<Rightarrow> nat \<Rightarrow> ('w vstate, return_type) act \<Rightarrow> pcounter \<Rightarrow> bool \<Rightarrow> field_num \<Rightarrow> predicate \<Rightarrow>
   bool \<Rightarrow> bool \<Rightarrow> nat list \<Rightarrow> ('w vstate, return_type) act" where
  "iterate_sorted env so k run pc to_delete field p lin old_lin js =
     act_bind (collect_everything env so k pc p js) (\<lambda>everything.
     act_bind (act_read (sort_everything p field everything)) (\<lambda>sorted.
     or_no_return (first_that_stops (run_sorted run (pred_id p) to_delete lin old_lin) sorted)))"

section \<open>The plain iteration\<close>

text \<open>\<open>shuffle_vector\<close>: the permutation depends on how often the generator has been used.\<close>

definition shuffle_vector :: "code_env \<Rightarrow> 'a list \<Rightarrow> ('w vstate, 'a list) act" where
  "shuffle_vector env xs = act_step (\<lambda>s.
     Inr (map ((!) xs) (env_permute env (vs_shuffles s) (length xs)), s\<lparr>vs_shuffles := vs_shuffles s + 1\<rparr>))"

definition run_queued ::
  "code_env \<Rightarrow> nat \<Rightarrow> ('w vstate, return_type) act \<Rightarrow> pcounter \<Rightarrow> bool \<Rightarrow> bool \<Rightarrow> bool \<Rightarrow> saddr \<Rightarrow>
   ('w vstate, return_type option) act" where
  "run_queued env k run pc to_delete lin old_lin a =
     act_bind (act_read (consumable a)) (\<lambda>ok.
     if \<not> ok then act_return None
     else act_bind (stuple_matches env k pc a) (\<lambda>b.
          if b then run_stuple run to_delete lin old_lin a else act_return None))"

definition run_local ::
  "code_env \<Rightarrow> nat \<Rightarrow> ('w vstate, return_type) act \<Rightarrow> pcounter \<Rightarrow> predicate \<Rightarrow> bool \<Rightarrow> bool \<Rightarrow> bool \<Rightarrow> saddr \<Rightarrow>
   ('w vstate, return_type option) act" where
  "run_local env k run pc p to_delete lin old_lin a =
     act_bind (local_candidate env k pc p a) (\<lambda>b.
       if b then run_stuple run to_delete lin old_lin a else act_return None)"

definition otherwise :: "('w vstate, return_type option) act \<Rightarrow> ('w vstate, return_type option) act \<Rightarrow> ('w vstate, return_type option) act" where
  "otherwise m n = act_bind m (\<lambda>r. case r of Some ret \<Rightarrow> act_return (Some ret) | None \<Rightarrow> n)"

text \<open>The leaves, then the tuples queued for the node, then those of the local list.\<close>

definition iterate_plain ::
  "code_env \<Rightarrow> 'w sched_ops \<Rightarrow> nat \<Rightarrow> ('w vstate, return_type) act \<Rightarrow> pcounter \<Rightarrow> bool \<Rightarrow> bool \<Rightarrow> predicate \<Rightarrow>
   bool \<Rightarrow> bool \<Rightarrow> nat list \<Rightarrow> ('w vstate, return_type) act" where
  "iterate_plain env so k run pc to_delete random p lin old_lin js =
     or_no_return
       (otherwise (first_that_stops (run_leaf run (pred_id p) lin old_lin) js)
         (otherwise
           (if lin then
              act_bind (act_get vs_persistent_only) (\<lambda>po. act_then (act_assert (\<not> po))
                (act_bind (act_read (gather_active_tuples so (pred_id p))) (\<lambda>active.
                 act_bind (if random then shuffle_vector env active else act_return active) (\<lambda>active'.
                 first_that_stops (run_queued env k run pc to_delete lin old_lin) active'))))
            else act_return None)
           (act_bind (act_get id) (\<lambda>s.
              if vs_persistent_only s then act_return None
              else first_that_stops (run_local env k run pc p to_delete lin old_lin) (vs_local s)))))"

definition execute_iter ::
  "code_env \<Rightarrow> 'w sched_ops \<Rightarrow> nat \<Rightarrow> ('w vstate, return_type) act \<Rightarrow> pcounter \<Rightarrow> byte \<Rightarrow> byte \<Rightarrow> nat list \<Rightarrow>
   predicate \<Rightarrow> ('w vstate, return_type) act" where
  "execute_iter env so k run pc options options_arguments js p =
     act_bind (act_get id) (\<lambda>s.
     let old_lin = vs_is_linear s; po = vs_persistent_only s; lin = (pred_is_linear p \<and> \<not> po);
         to_delete = iter_options_to_delete options; random = iter_options_random options
     in act_then (act_when (pred_is_linear p \<and> po) (act_assert (pred_is_reused p)))
       (if \<not> po \<and> random then
          act_bind (shuffle_vector env js) (\<lambda>js'. iterate_plain env so k run pc to_delete random p lin old_lin js')
        else if \<not> po \<and> iter_options_min options then
          iterate_sorted env so k run pc to_delete (iter_options_min_arg options_arguments) p lin old_lin js
        else iterate_plain env so k run pc to_delete random p lin old_lin js))"

section \<open>The instructions that nest runs\<close>

text \<open>Where the interpreter goes after an instruction: it returns, or on at a program counter.\<close>

type_synonym next_pc = "return_type + pcounter"

definition execute_iter_instr ::
  "code_env \<Rightarrow> 'w sched_ops \<Rightarrow> nat \<Rightarrow> (pcounter \<Rightarrow> ('w vstate, return_type) act) \<Rightarrow> pcounter \<Rightarrow> ('w vstate, next_pc) act" where
  "execute_iter_instr env so k run pc =
     (let mm = env_mem env; pid = iter_predicate mm pc in
      case get_predicate (env_prog env) pid of
        None \<Rightarrow> act_fail Bad_Access
      | Some p \<Rightarrow>
          act_bind (build_match_object env k (pc + 8) p) (\<lambda>mo.
          act_bind (act_read (\<lambda>s. res_bind (current_node s) (node_match_predicate (env_hashes env) pid mo))) (\<lambda>js.
          act_bind (act_opt (advance mm pc)) (\<lambda>first.
          act_bind (execute_iter env so k (run first) (pc + 8) (iter_options mm pc) (iter_options_argument mm pc) js p) (\<lambda>ret.
          act_get (\<lambda>s. if stops ret s then Inl ret else Inr (pc + iter_jump mm pc)))))))"

definition execute_reset_linear ::
  "code_env \<Rightarrow> (pcounter \<Rightarrow> ('w vstate, return_type) act) \<Rightarrow> pcounter \<Rightarrow> ('w vstate, next_pc) act" where
  "execute_reset_linear env run pc =
     act_bind (act_get vs_is_linear) (\<lambda>old.
     act_then (act_modify (\<lambda>s. s\<lparr>vs_is_linear := False\<rparr>))
       (act_bind (run (pc + 5)) (\<lambda>ret.
        act_then (act_assert (ret = RETURN_END_LINEAR))
          (act_then (act_modify (\<lambda>s. s\<lparr>vs_is_linear := old\<rparr>))
            (act_return (Inr (pc + reset_linear_jump (env_mem env) pc)))))))"

section \<open>The stack instructions\<close>

text \<open>A fresh \<open>tuple_field()\<close> is all zero.\<close>

definition execute_push :: "'w vstate \<Rightarrow> 'w vstate" where
  "execute_push s = s\<lparr>vs_stack := RPtr 0 # vs_stack s\<rparr>"

definition execute_pop :: "'w vstate \<Rightarrow> 'w vstate res" where
  "execute_pop s = (case vs_stack s of [] \<Rightarrow> Inl Bad_Access | x # xs \<Rightarrow> Inr (s\<lparr>vs_stack := xs\<rparr>))"

definition execute_push_regs :: "'w vstate \<Rightarrow> 'w vstate" where
  "execute_push_regs s = s\<lparr>vs_stack := rev (map (vs_regs s) [0..<NUM_REGS]) @ vs_stack s\<rparr>"

definition execute_pop_regs :: "'w vstate \<Rightarrow> 'w vstate res" where
  "execute_pop_regs s =
     (if length (vs_stack s) < NUM_REGS then Inl Bad_Access
      else Inr (s\<lparr>vs_regs := (\<lambda>r. if r < NUM_REGS then vs_stack s ! (NUM_REGS - 1 - r) else vs_regs s r),
                  vs_stack := drop NUM_REGS (vs_stack s)\<rparr>))"

section \<open>The loop\<close>

definition go_on :: "code_env \<Rightarrow> pcounter \<Rightarrow> ('w vstate, next_pc) act" where
  "go_on env pc = act_bind (act_opt (advance (env_mem env) pc)) (\<lambda>pc'. act_return (Inr pc'))"

definition count_instruction :: "code_env \<Rightarrow> 'w vstate \<Rightarrow> 'w vstate" where
  "count_instruction env s = (if env_sim env then s\<lparr>vs_sim_counter := vs_sim_counter s + 1\<rparr> else s)"

definition execute_instr ::
  "code_env \<Rightarrow> 'w sched_ops \<Rightarrow> nat \<Rightarrow> (pcounter \<Rightarrow> ('w vstate, return_type) act) \<Rightarrow> pcounter \<Rightarrow> ('w vstate, next_pc) act" where
  "execute_instr env so k run pc =
     (let mm = env_mem env; upd = (\<lambda>f. act_then (act_update f) (go_on env pc)); doing = (\<lambda>a. act_then a (go_on env pc)) in
      case fetch mm pc of
        RETURN_INSTR \<Rightarrow> act_return (Inl RETURN_OK)
      | NEXT_INSTR \<Rightarrow> act_return (Inl RETURN_NEXT)
      | RETURN_LINEAR_INSTR \<Rightarrow> act_return (Inl RETURN_LINEAR)
      | RETURN_DERIVED_INSTR \<Rightarrow> act_return (Inl RETURN_DERIVED)
      | END_LINEAR_INSTR \<Rightarrow> act_return (Inl RETURN_END_LINEAR)
      | RETURN_SELECT_INSTR \<Rightarrow> act_return (Inr (pc + return_select_jump mm pc))
      | IF_INSTR \<Rightarrow>
          act_bind (act_read (\<lambda>s. as_bool (vs_regs s (if_reg mm pc)))) (\<lambda>b.
            if \<not> b then act_return (Inr (pc + if_jump mm pc)) else go_on env pc)
      | ELSE_INSTR \<Rightarrow> act_fail Vm_Exec_Error
      | RESET_LINEAR_INSTR \<Rightarrow> execute_reset_linear env run pc
      | ITER_INSTR \<Rightarrow> execute_iter_instr env so k run pc
      | REMOVE_INSTR \<Rightarrow> doing (execute_remove env pc)
      | MOVE_INSTR \<Rightarrow> act_bind (execute_move env pc) (go_on env)
      | ALLOC_INSTR \<Rightarrow> doing (execute_alloc env pc)
      | SEND_INSTR \<Rightarrow> doing (execute_send env so pc)
      | SEND_DELAY_INSTR \<Rightarrow> doing (execute_send_delay env so pc)
      | OP_INSTR \<Rightarrow> upd (execute_op env pc)
      | NOT_INSTR \<Rightarrow> upd (execute_not env pc)
      | MOVE_NIL_INSTR \<Rightarrow> upd (execute_move_nil env pc)
      | CONS_INSTR \<Rightarrow> upd (execute_cons env pc)
      | TEST_NIL_INSTR \<Rightarrow> upd (execute_test_nil env pc)
      | TAIL_INSTR \<Rightarrow> upd (execute_tail env pc)
      | HEAD_INSTR \<Rightarrow> upd (execute_head env pc)
      | FLOAT_INSTR \<Rightarrow> upd (execute_float env pc)
      | SELECT_INSTR \<Rightarrow> act_bind (act_read (execute_select env pc)) (\<lambda>pc'. act_return (Inr pc'))
      | COLOCATED_INSTR \<Rightarrow> upd (execute_colocated env pc)
      | DELETE_INSTR \<Rightarrow> doing (execute_delete env pc)
      | CALL_INSTR \<Rightarrow> upd (execute_call env pc)
      | CALLE_INSTR \<Rightarrow> upd (execute_calle env pc)
      | RULE_INSTR \<Rightarrow> doing (act_modify (execute_rule_instr env pc))
      | RULE_DONE_INSTR \<Rightarrow> go_on env pc
      | NEW_NODE_INSTR \<Rightarrow> doing (execute_new_node env so pc)
      | NEW_AXIOMS_INSTR \<Rightarrow> doing (execute_new_axioms env so k pc)
      | PUSH_INSTR \<Rightarrow> doing (act_modify execute_push)
      | POP_INSTR \<Rightarrow> upd execute_pop
      | PUSH_REGS_INSTR \<Rightarrow> doing (act_modify execute_push_regs)
      | POP_REGS_INSTR \<Rightarrow> upd execute_pop_regs
      | CALLF_INSTR \<Rightarrow>
          act_bind (act_lift (get_function (env_prog env) (unat (callf_get_id mm pc)))) (\<lambda>_.
            act_return (Inr (env_fun_code env (unat (callf_get_id mm pc)))))
      | INSTR_OTHER _ \<Rightarrow> act_fail Vm_Exec_Error)"

primrec execute :: "code_env \<Rightarrow> 'w sched_ops \<Rightarrow> nat \<Rightarrow> pcounter \<Rightarrow> ('w vstate, return_type) act" where
  "execute env so 0 = (\<lambda>pc. act_exhausted)"
| "execute env so (Suc k) = (\<lambda>pc.
     act_then (act_modify (count_instruction env))
       (act_bind (execute_instr env so k (execute env so k) pc) (\<lambda>r.
        case r of Inl ret \<Rightarrow> act_return ret | Inr pc' \<Rightarrow> execute env so k pc')))"

section \<open>Entry points\<close>

datatype execution_return = EXECUTION_OK | EXECUTION_CONSUMED

definition assert_empty_stack :: "('w vstate, unit) act" where
  "assert_empty_stack = act_bind (act_get vs_stack) (\<lambda>st. act_assert (st = []))"

definition do_execute :: "code_env \<Rightarrow> 'w sched_ops \<Rightarrow> nat \<Rightarrow> pcounter \<Rightarrow> ('w vstate, return_type) act" where
  "do_execute env so k code =
     act_then assert_empty_stack
       (act_bind (execute env so k code) (\<lambda>ret.
        act_then cleanup (act_then assert_empty_stack (act_return ret))))"

definition execute_bytecode :: "code_env \<Rightarrow> 'w sched_ops \<Rightarrow> nat \<Rightarrow> pcounter \<Rightarrow> ('w vstate, execution_return) act" where
  "execute_bytecode env so k code =
     act_bind (do_execute env so k code) (\<lambda>ret.
     act_then unmark_generated_tuples
       (act_return (if ret = RETURN_LINEAR then EXECUTION_CONSUMED else EXECUTION_OK)))"

definition execute_rule :: "code_env \<Rightarrow> 'w sched_ops \<Rightarrow> nat \<Rightarrow> rule_id \<Rightarrow> ('w vstate, unit) act" where
  "execute_rule env so k rid =
     act_bind (act_lift (get_rule (env_prog env) rid)) (\<lambda>_.
     act_bind (do_execute env so k (env_rule_code env rid)) (\<lambda>_. act_return ()))"

end
