(* ===== verification/Vm_Example.thy ===== *)
theory Vm_Example
  imports Vm_Exec
begin

text \<open>
  Values for what the code leaves to its surroundings, a state at rest, and a scheduler
  with nothing queued, to run the interpreter on.
\<close>

definition no_floats :: float_ops where
  "no_floats = \<lparr>f_add = (\<lambda>a b. a), f_sub = (\<lambda>a b. a), f_mul = (\<lambda>a b. a), f_div = (\<lambda>a b. a), f_mod = (\<lambda>a b. a),
     f_of_int = (\<lambda>a. 0)\<rparr>"

definition one_machine_router :: router where
  "one_machine_router =
     \<lparr>remote_list = [\<lparr>addr = 0, num_threads = 1, last_one = True, total_nodes = 1, nodes_base = 0, nodes_per_proc = 1\<rparr>],
      nodes_per_remote = 1, remote_self = 0\<rparr>"

definition example_env :: "program \<Rightarrow> byte list \<Rightarrow> code_env" where
  "example_env prog code =
     \<lparr>env_prog = prog, env_mem = mem_of code, env_pred_code = (\<lambda>_. 0), env_rule_code = (\<lambda>_. 0), env_fun_code = (\<lambda>_. 0),
      env_const_code = 0, env_hashes = plain_hashes, env_floats = no_floats, env_externals = no_externals,
      env_call = (\<lambda>_ _. Inl Bad_Access), env_string = (\<lambda>_. 0), env_argument = (\<lambda>_. 0), env_num_arguments = 0,
      env_permute = (\<lambda>_ n. [0..<n]), env_router = one_machine_router, env_sim = False\<rparr>"

definition quiet_sched :: "unit sched_ops" where
  "quiet_sched =
     \<lparr>sd_new_work = (\<lambda>_ _ _ _ _. Inr), sd_new_work_delay = (\<lambda>_ _ _ _ _ _. Inr), sd_new_work_other = (\<lambda>_ _ _. Inr),
      sd_new_work_remote = (\<lambda>_ _ _. Inr), sd_same_scheduler = (\<lambda>_ _. True), sd_set_node_priority = (\<lambda>_ _ _. Inr),
      sd_add_node_priority = (\<lambda>_ _ _. Inr), sd_schedule_next = (\<lambda>_. Inr), sd_set_color = (\<lambda>_ _ _ _. Inr),
      sd_gather_active = (\<lambda>_ _ _ _. Inr []), sd_gather_next = (\<lambda>_ w. Inr ([], w)),
      sd_tuples_until = (\<lambda>_ _ w. Inr ([], w)), sd_push_pending = (\<lambda>_ _. Inr)\<rparr>"

definition rest_state :: "database \<Rightarrow> 'w \<Rightarrow> 'w vstate" where
  "rest_state db w =
     \<lparr>vs_regs = (\<lambda>_. RUnset), vs_stack = [], vs_tuple = None, vs_leaf = None, vs_queue = None, vs_node = None,
      vs_count = 1, vs_is_linear = False, vs_used = [], vs_current_rule = 0, vs_use_local = False, vs_local = [],
      vs_generated = [], vs_persistent = [], vs_other = [], vs_leaves_for_deletion = [], vs_level = 0,
      vs_persistent_only = False, vs_saved_leaf = (\<lambda>_. None), vs_saved_stuple = (\<lambda>_. None),
      vs_is_leaf = (\<lambda>_. False), vs_rules = (\<lambda>_. False), vs_predicates = (\<lambda>_. False), vs_rule_queue = [],
      vs_shuffles = 0, vs_objs = no_objects, vs_consts = (\<lambda>_. RUnset), vs_db = db, vs_sched = w,
      vs_sim_counter = 0, vs_sim_limit = 0, vs_sim_use = False, vs_output = []\<rparr>"

text \<open>A node with two copies of one edge, and an ITERATE over the edges whose body consumes.\<close>

definition edge_node :: db_node where
  "edge_node = set_storage 0 edge_trie (new_node no_rules 0 0)"

definition edge_database :: database where
  "edge_database = (new_database 1)\<lparr>db_nodes := [(0, edge_node)]\<rparr>"

definition edge_state :: "unit vstate" where
  "edge_state = (rest_state edge_database ())\<lparr>vs_node := Some 0\<rparr>"

definition iter_bytes :: "byte list" where
  "iter_bytes = [0xA0, 0, 0, 0, 11, 0, 0, 0, 0, 0xC0, 0xD0, 0x00]"

definition edge_env :: code_env where
  "edge_env = example_env no_rules iter_bytes"

lemma edge_code:
  "fetch (env_mem edge_env) 0 = ITER_INSTR" "advance (env_mem edge_env) 0 = Some (Inr 10)"
  "iter_jump (env_mem edge_env) 0 = 11" "fetch (env_mem edge_env) 10 = RETURN_LINEAR_INSTR"
  "fetch (env_mem edge_env) 11 = RETURN_INSTR"
  by code_simp+

lemma edge_sim: "\<not> env_sim edge_env"
  by (simp add: edge_env_def example_env_def)

end
