(* ===== verification/Vm_Exec_Fuel.thy ===== *)
theory Vm_Exec_Fuel
  imports Vm_Example
begin

text \<open>
  The bound of the interpreter. A run that returns, or fails, with some bound does the same
  with every larger one, so the results are those of the program's unbounded loop; and code
  that only flows forward does return, with a bound that is the length of what is left.
\<close>

section \<open>More fuel changes no result\<close>

declare act_le_refl [simp]

lemma act_le_opt: "(\<And>x. r = Some x \<Longrightarrow> r' = Some x) \<Longrightarrow> act_le (act_opt r) (act_opt r')"
  by (cases r) (auto simp: act_opt_def act_le_exhausted)

lemma do_matches_loop_le: "k \<le> k' \<Longrightarrow> act_le (do_matches_loop env k pc tp) (do_matches_loop env k' pc tp)"
proof (induction k arbitrary: k' pc)
  case (Suc k)
  then obtain j where j: "k' = Suc j" "k \<le> j" by (cases k') auto
  note Suc.IH [OF j(2)]
  with j(1) show ?case by (auto intro!: act_le_bind split: prod.splits)
qed (simp add: act_le_exhausted)

lemma do_matches_le: "k \<le> k' \<Longrightarrow> act_le (do_matches env k pc tp) (do_matches env k' pc tp)"
  by (simp add: do_matches_def do_matches_loop_le)

lemma build_match_loop_le: "k \<le> k' \<Longrightarrow> act_le (build_match_loop env k pc p mo) (build_match_loop env k' pc p mo)"
proof (induction k arbitrary: k' pc mo)
  case (Suc k)
  then obtain j where j: "k' = Suc j" "k \<le> j" by (cases k') auto
  note Suc.IH [OF j(2)]
  with j(1) show ?case by (auto intro!: act_le_bind split: prod.splits)
qed (simp add: act_le_exhausted)

lemma build_match_object_le: "k \<le> k' \<Longrightarrow> act_le (build_match_object env k pc p) (build_match_object env k' pc p)"
  by (simp add: build_match_object_def build_match_loop_le)

lemma axiom_list_mono: "axiom_list k get sz mm pc = Some r \<Longrightarrow> k \<le> k' \<Longrightarrow> axiom_list k' get sz mm pc = Some r"
proof (induction k arbitrary: k' pc r)
  case (Suc k)
  then obtain j where j: "k' = Suc j" "k \<le> j" by (cases k') auto
  show ?case
  proof (cases "mm pc = 1")
    case True
    with Suc.prems(1) obtain xs pc' where x: "axiom_list k get sz mm (pc + 1 + sz) = Some (xs, pc')"
      by (auto split: option.splits)
    then have "axiom_list j get sz mm (pc + 1 + sz) = Some (xs, pc')" by (rule Suc.IH [OF _ j(2)])
    with x True Suc.prems(1) j(1) show ?thesis by simp
  qed (use Suc.prems(1) j(1) in simp)
qed simp

lemma axiom_field_mono: "axiom_field k ty mm pc = Some r \<Longrightarrow> k \<le> k' \<Longrightarrow> axiom_field k' ty mm pc = Some r"
  by (auto simp: axiom_field_def dest: axiom_list_mono split: field_type.splits)

lemma axiom_field_le: "k \<le> k' \<Longrightarrow> act_le (act_opt (axiom_field k ty mm pc)) (act_opt (axiom_field k' ty mm pc))"
  by (rule act_le_opt) (rule axiom_field_mono)

lemma axiom_fields_le: "k \<le> k' \<Longrightarrow> act_le (axiom_fields k ts mm pc) (axiom_fields k' ts mm pc)"
proof (induction ts arbitrary: pc)
  case (Cons t ts)
  then show ?case unfolding axiom_fields.simps split_def
    by (intro act_le_bind act_le_refl axiom_field_le) simp_all
qed simp

lemma axioms_loop_le: "k \<le> k' \<Longrightarrow> act_le (axioms_loop env so k pc stop) (axioms_loop env so k' pc stop)"
proof (induction k arbitrary: k' pc)
  case 0
  then show ?case by (cases k') (simp_all add: act_le_exhausted)
next
  case (Suc k)
  then obtain j where j: "k' = Suc j" "k \<le> j" by (cases k') auto
  have le: "act_le (axioms_loop env so k pc stop) (axioms_loop env so j pc stop)" for pc by (rule Suc.IH [OF j(2)])
  have fs: "act_le (axiom_fields (Suc k) ts mm pc) (axiom_fields (Suc j) ts mm pc)" for ts mm pc
    using j by (intro axiom_fields_le) simp
  show ?case unfolding j(1) axioms_loop.simps
    by (cases "get_predicate (env_prog env) (predicate_get (env_mem env) pc 0)")
      (simp_all only: option.case split_def, intro act_le_if act_le_refl, intro act_le_if act_le_refl act_le_bind act_le_then fs le)
qed

lemma with_current_le: "act_le run run' \<Longrightarrow> act_le (with_current run t l q lin old) (with_current run' t l q lin old)"
  by (simp add: with_current_def act_le_bind act_le_then)

lemma first_that_stops_le: "(\<And>i. act_le (f i) (g i)) \<Longrightarrow> act_le (first_that_stops f is) (first_that_stops g is)"
  by (induction "is") (auto intro!: act_le_bind split: option.splits)

lemma run_leaf_le: "act_le run run' \<Longrightarrow> act_le (run_leaf run p lin old j) (run_leaf run' p lin old j)"
  by (simp add: run_leaf_def act_le_bind act_le_then with_current_le)

lemma run_stuple_le: "act_le run run' \<Longrightarrow> act_le (run_stuple run d lin old a) (run_stuple run' d lin old a)"
  by (simp add: run_stuple_def act_le_bind act_le_then with_current_le)

lemma run_sorted_stuple_le: "act_le run run' \<Longrightarrow> act_le (run_sorted_stuple run d lin old a) (run_sorted_stuple run' d lin old a)"
  by (simp add: run_sorted_stuple_def act_le_bind act_le_then with_current_le)

lemma run_sorted_le: "act_le run run' \<Longrightarrow> act_le (run_sorted run p d lin old x) (run_sorted run' p d lin old x)"
  by (cases x) (simp_all add: run_sorted_def run_leaf_le run_sorted_stuple_le)

lemma stuple_matches_le: "k \<le> k' \<Longrightarrow> act_le (stuple_matches env k pc a) (stuple_matches env k' pc a)"
  by (simp add: stuple_matches_def act_le_bind do_matches_le)

lemma local_candidate_le: "k \<le> k' \<Longrightarrow> act_le (local_candidate env k pc p a) (local_candidate env k' pc p a)"
  by (simp add: local_candidate_def act_le_bind stuple_matches_le)

lemma or_no_return_le: "act_le m n \<Longrightarrow> act_le (or_no_return m) (or_no_return n)"
  by (simp add: or_no_return_def act_le_bind)

lemma otherwise_le: "act_le m m' \<Longrightarrow> act_le n n' \<Longrightarrow> act_le (otherwise m n) (otherwise m' n')"
  unfolding otherwise_def by (auto intro!: act_le_bind split: option.splits)

lemma collect_everything_le:
  "k \<le> k' \<Longrightarrow> act_le (collect_everything env so k pc p js) (collect_everything env so k' pc p js)"
  by (simp add: collect_everything_def act_le_bind act_le_filter stuple_matches_le local_candidate_le)

lemma iterate_sorted_le:
  assumes "k \<le> k'" and "act_le run run'"
  shows "act_le (iterate_sorted env so k run pc d i p lin old js) (iterate_sorted env so k' run' pc d i p lin old js)"
  using assms unfolding iterate_sorted_def
  by (intro act_le_bind collect_everything_le act_le_refl or_no_return_le first_that_stops_le run_sorted_le)

lemma run_queued_le:
  "k \<le> k' \<Longrightarrow> act_le run run' \<Longrightarrow> act_le (run_queued env k run pc d lin old a) (run_queued env k' run' pc d lin old a)"
  by (simp add: run_queued_def act_le_bind stuple_matches_le run_stuple_le)

lemma run_local_le:
  "k \<le> k' \<Longrightarrow> act_le run run' \<Longrightarrow> act_le (run_local env k run pc p d lin old a) (run_local env k' run' pc p d lin old a)"
  by (simp add: run_local_def act_le_bind local_candidate_le run_stuple_le)

lemma iterate_plain_le:
  assumes "k \<le> k'" and "act_le run run'"
  shows "act_le (iterate_plain env so k run pc d rnd p lin old js) (iterate_plain env so k' run' pc d rnd p lin old js)"
  using assms unfolding iterate_plain_def
  by (intro or_no_return_le otherwise_le first_that_stops_le run_leaf_le act_le_if act_le_bind act_le_then
      act_le_refl run_queued_le run_local_le)

lemma execute_iter_le:
  assumes "k \<le> k'" and "act_le run run'"
  shows "act_le (execute_iter env so k run pc o1 o2 js p) (execute_iter env so k' run' pc o1 o2 js p)"
  using assms unfolding execute_iter_def Let_def
  by (intro act_le_bind act_le_then act_le_refl act_le_if iterate_plain_le iterate_sorted_le)

lemma execute_iter_instr_le:
  assumes "k \<le> k'" and "\<And>pc. act_le (run pc) (run' pc)"
  shows "act_le (execute_iter_instr env so k run pc) (execute_iter_instr env so k' run' pc)"
proof (cases "get_predicate (env_prog env) (iter_predicate (env_mem env) pc)")
  case (Some p)
  then show ?thesis unfolding execute_iter_instr_def Let_def Some option.case
    by (intro act_le_bind build_match_object_le execute_iter_le act_le_refl assms)
qed (simp add: execute_iter_instr_def)

lemma execute_instr_le:
  assumes "k \<le> k'" and "\<And>pc. act_le (run pc) (run' pc)"
  shows "act_le (execute_instr env so k run pc) (execute_instr env so k' run' pc)"
proof -
  have "act_le (execute_new_axioms env so k pc) (execute_new_axioms env so k' pc)"
    using assms(1) by (simp add: execute_new_axioms_def axioms_loop_le)
  moreover have "act_le (execute_reset_linear env run pc) (execute_reset_linear env run' pc)"
    unfolding execute_reset_linear_def by (intro act_le_bind act_le_then act_le_refl assms(2))
  ultimately show ?thesis
    using execute_iter_instr_le [OF assms]
    by (cases "fetch (env_mem env) pc") (simp_all add: execute_instr_def Let_def act_le_then)
qed

lemma execute_le: "k \<le> k' \<Longrightarrow> act_le (execute env so k pc) (execute env so k' pc)"
proof (induction k arbitrary: k' pc)
  case (Suc k)
  then obtain j where j: "k' = Suc j" "k \<le> j" by (cases k') auto
  have le: "act_le (execute env so k pc) (execute env so j pc)" for pc by (rule Suc.IH [OF j(2)])
  have next_le: "act_le (case r of Inl ret \<Rightarrow> act_return ret | Inr pc' \<Rightarrow> execute env so k pc')
      (case r of Inl ret \<Rightarrow> act_return ret | Inr pc' \<Rightarrow> execute env so j pc')" for r
    by (cases r) (simp_all add: le)
  show ?case unfolding j(1) execute.simps
    by (intro act_le_then act_le_bind act_le_refl execute_instr_le [OF j(2) le] next_le)
qed (simp add: act_le_exhausted)

text \<open>The bound of the interpreter is not observable: whatever a piece of code does with some bound,
  an error included, it does with every larger bound. A result of the model is therefore a result of
  the unbounded loop of \<open>execute\<close>.\<close>

theorem execute_fuel_irrelevant:
  assumes "execute env so k pc s = Some r" and "k \<le> k'"
  shows "execute env so k' pc s = Some r"
  by (rule act_leD [OF execute_le [OF assms(2)] assms(1)])

theorem execute_fuel_irrelevant_witness:
  "execute edge_env quiet_sched 1000 11 edge_state = Some (Inr (RETURN_OK, edge_state))"
proof -
  have "execute edge_env quiet_sched 1 11 edge_state = Some (Inr (RETURN_OK, edge_state))"
    by (simp add: execute_instr_def edge_code count_instruction_def edge_sim)
  from execute_fuel_irrelevant [OF this, of 1000] show ?thesis by simp
qed

section \<open>Code that flows forward\<close>

text \<open>
  Where the interpreter may go from an instruction, nested runs included: SELECT goes to the
  next instruction or to one its table names for a node, CALLF to the code of the function.
  The lists of NEW-AXIOMS must end in the code. Only a MOVE to the program counter has no place
  in such code, since its target is not in the code but in a register.
\<close>

definition following :: "code_env \<Rightarrow> pcounter \<Rightarrow> pcounter set" where
  "following env pc = {q. advance (env_mem env) pc = Some (Inr q)}"

definition select_targets :: "mem \<Rightarrow> pcounter \<Rightarrow> pcounter set" where
  "select_targets mm pc =
     insert (pc + select_size mm pc)
       {select_hash_code (select_hash_start mm pc) (select_hash_size mm pc) h |h.
          h \<noteq> 0 \<and> (\<exists>n. h = select_hash mm (select_hash_start mm pc) n)}"

definition targets :: "code_env \<Rightarrow> pcounter \<Rightarrow> pcounter set" where
  "targets env pc =
     (case fetch (env_mem env) pc of
        RETURN_INSTR \<Rightarrow> {}
      | NEXT_INSTR \<Rightarrow> {}
      | RETURN_LINEAR_INSTR \<Rightarrow> {}
      | RETURN_DERIVED_INSTR \<Rightarrow> {}
      | END_LINEAR_INSTR \<Rightarrow> {}
      | RETURN_SELECT_INSTR \<Rightarrow> {pc + return_select_jump (env_mem env) pc}
      | IF_INSTR \<Rightarrow> insert (pc + if_jump (env_mem env) pc) (following env pc)
      | RESET_LINEAR_INSTR \<Rightarrow> {pc + 5, pc + reset_linear_jump (env_mem env) pc}
      | ITER_INSTR \<Rightarrow> insert (pc + iter_jump (env_mem env) pc) (following env pc)
      | SELECT_INSTR \<Rightarrow> select_targets (env_mem env) pc
      | CALLF_INSTR \<Rightarrow> {env_fun_code env (unat (callf_get_id (env_mem env) pc))}
      | _ \<Rightarrow> following env pc)"

text \<open>Reading the axioms, without building them: \<open>None\<close> when a list does not end in \<open>k\<close> elements.\<close>

fun fields_end :: "nat \<Rightarrow> field_type list \<Rightarrow> mem \<Rightarrow> pcounter \<Rightarrow> pcounter res option" where
  "fields_end k [] mm pc = Some (Inr pc)"
| "fields_end k (t # ts) mm pc =
     (case axiom_field k t mm pc of
        None \<Rightarrow> None
      | Some (Inl e) \<Rightarrow> Some (Inl e)
      | Some (Inr (v, pc')) \<Rightarrow> fields_end k ts mm pc')"

fun axioms_end :: "code_env \<Rightarrow> nat \<Rightarrow> pcounter \<Rightarrow> pcounter \<Rightarrow> bool" where
  "axioms_end env 0 pc stop \<longleftrightarrow> stop \<le> pc"
| "axioms_end env (Suc k) pc stop \<longleftrightarrow>
     (if pc < stop then
        (case get_predicate (env_prog env) (predicate_get (env_mem env) pc 0) of
           None \<Rightarrow> True
         | Some p \<Rightarrow>
             (case fields_end (Suc k) (pred_types p) (env_mem env) (pc + 1) of
                None \<Rightarrow> False
              | Some (Inl e) \<Rightarrow> True
              | Some (Inr pc') \<Rightarrow> axioms_end env k pc' stop))
      else True)"

definition plain_instr :: "code_env \<Rightarrow> nat \<Rightarrow> pcounter \<Rightarrow> bool" where
  "plain_instr env hi pc \<longleftrightarrow>
     (fetch (env_mem env) pc = NEW_AXIOMS_INSTR \<longrightarrow>
        axioms_end env (hi - pc - 1) (pc + 5) (pc + new_axioms_jump (env_mem env) pc)) \<and>
     (fetch (env_mem env) pc = MOVE_INSTR \<longrightarrow> \<not> val_is_pcounter (move_to (env_mem env) pc)) \<and>
     (fetch (env_mem env) pc = ITER_INSTR \<longrightarrow> following env pc \<noteq> {})"

definition flows_forward :: "code_env \<Rightarrow> nat \<Rightarrow> pcounter set \<Rightarrow> bool" where
  "flows_forward env hi S \<longleftrightarrow>
     (\<forall>pc \<in> S. pc < hi \<and> plain_instr env hi pc \<and> (\<forall>q \<in> targets env pc. pc < q \<and> q \<in> S))"

section \<open>Everything but the interpreter's recursion returns\<close>

lemma total_bind_reach:
  assumes "act_total m" and "\<And>s x t. m s = Some (Inr (x, t)) \<Longrightarrow> f x t \<noteq> None"
  shows "act_total (act_bind m f)"
  using assms by (auto simp: act_total_def act_bind_None)

lemma total_opt: "r \<noteq> None \<Longrightarrow> act_total (act_opt r)"
  by (auto simp: act_opt_def total_basic)

lemma total_effects:
  "act_total (on_node f)" "act_total (sched_update g)" "act_total (sched_clocked h)" "act_total (create_tuple tp)" "act_total (create_stuple t c)"
  "act_total (delete_tuple_obj t)" "act_total (delete_stuple_obj a)" "act_total (will_delete a)"
  "act_total (will_not_delete a)" "act_total (set_generated_run a b)" "act_total (push_other a)"
  "act_total (push_persistent a)" "act_total (push_generated a)" "act_total (mark_predicate_to_run q)"
  "act_total (matcher_register env q c n)" "act_total (matcher_deregister env q c)"
  "act_total (shuffle_vector env xs)"
  by (simp_all add: on_node_def sched_clocked_def total_bind sched_update_def create_tuple_def create_stuple_def delete_tuple_obj_def
      delete_stuple_obj_def will_delete_def will_not_delete_def set_generated_run_def push_other_def
      push_persistent_def push_generated_def mark_predicate_to_run_def matcher_register_def
      matcher_deregister_def shuffle_vector_def total_basic)

lemma total_add_generated: "act_total (add_generated_tuple a)"
  by (simp add: add_generated_tuple_def total_then total_effects total_basic)

lemma total_run_action: "act_total (run_action env so n t b)"
proof -
  have "act_total (case color_of c of None \<Rightarrow> act_return ()
      | Some (r, g, b) \<Rightarrow> act_then (sched_update (sd_set_color so n r g b)) (delete_tuple_obj t))" for c
    by (auto simp: total_basic total_then total_effects split: option.split)
  then show ?thesis unfolding run_action_def Let_def
    by (intro total_bind total_then total_if total_when total_basic total_effects) simp
qed

lemma total_route_self: "act_total (route_self env so n a d)"
  unfolding route_self_def by (intro total_bind total_then total_if total_basic total_effects)

lemma total_route: "act_total (route env so n a d)"
  unfolding route_def by (intro total_bind total_then total_if total_basic total_effects total_run_action)

lemma total_send_self: "act_total (execute_send_self env so t)"
  unfolding execute_send_self_def Let_def
  by (intro total_bind total_then total_if total_basic total_effects total_run_action total_route_self total_add_generated)

lemma total_send: "act_total (execute_send env so pc)"
  unfolding execute_send_def Let_def
  by (intro total_bind total_if total_basic total_effects total_send_self total_route)

lemma total_send_delay: "act_total (execute_send_delay env so pc)"
  unfolding execute_send_delay_def Let_def
  by (intro total_bind total_if total_basic total_effects total_route_self total_route)

lemma total_alloc: "act_total (execute_alloc env pc)"
  unfolding execute_alloc_def by (intro total_bind total_basic total_effects)

lemma total_remove: "act_total (execute_remove env pc)"
proof -
  have "act_total (case l of None \<Rightarrow> act_fail Bad_Access | Some (q, j) \<Rightarrow> on_node (f j))" for l :: "leaf_ref option" and f
    by (auto simp: total_basic total_effects split: option.split)
  then show ?thesis unfolding execute_remove_def Let_def
    by (intro total_bind total_then total_if total_when total_basic total_effects) simp
qed

lemma total_delete: "act_total (execute_delete env pc)"
  unfolding execute_delete_def Let_def
  by (cases "get_predicate (env_prog env) (delete_predicate (env_mem env) pc)")
    (simp_all only: option.case, intro total_basic, intro total_bind total_then total_basic total_effects)

text \<open>NEW-AXIOMS.\<close>

lemma fields_end_mono: "fields_end k ts mm pc = Some r \<Longrightarrow> k \<le> k' \<Longrightarrow> fields_end k' ts mm pc = Some r"
proof (induction ts arbitrary: pc)
  case (Cons t ts)
  from Cons.prems(1) obtain x where x: "axiom_field k t mm pc = Some x" by (cases "axiom_field k t mm pc") auto
  with axiom_field_mono [OF x Cons.prems(2)] Cons show ?case by (auto split: sum.splits)
qed simp

lemma axioms_end_mono: "axioms_end env k pc stop \<Longrightarrow> k \<le> k' \<Longrightarrow> axioms_end env k' pc stop"
proof (induction k arbitrary: k' pc)
  case 0
  then show ?case by (cases k') simp_all
next
  case (Suc k)
  then obtain j where j: "k' = Suc j" "k \<le> j" by (cases k') auto
  have "fields_end (Suc j) ts mm q = Some r" if "fields_end (Suc k) ts mm q = Some r" for ts mm q r
    by (rule fields_end_mono [OF that]) (use j in simp)
  with Suc.prems(1) Suc.IH [OF _ j(2)] show ?case by (auto simp: j(1) split: option.splits sum.splits if_splits)
qed

lemma axiom_fields_end:
  assumes "fields_end k ts mm pc = Some r"
  shows "case r of Inl e \<Rightarrow> axiom_fields k ts mm pc s = Some (Inl e) | Inr q \<Rightarrow> \<exists>vs. axiom_fields k ts mm pc s = Some (Inr ((vs, q), s))"
  using assms
proof (induction ts arbitrary: pc)
  case Nil
  then show ?case by auto
next
  case (Cons t ts)
  show ?case
  proof (cases "axiom_field k t mm pc")
    case (Some x)
    show ?thesis
    proof (cases x)
      case (Inl e)
      with Some Cons.prems show ?thesis by (auto simp: act_opt_def act_lift_def act_read_def act_bind_def)
    next
      case (Inr y)
      obtain v q where y: "y = (v, q)" by force
      with Some Inr Cons.prems have "fields_end k ts mm q = Some r" by simp
      from Cons.IH [OF this] Some Inr y show ?thesis
        by (auto simp: act_opt_def act_lift_def act_read_def act_bind_def split: sum.splits)
    qed
  qed (use Cons.prems in simp)
qed

lemma total_axioms: "axioms_end env k pc stop \<Longrightarrow> act_total (axioms_loop env so k pc stop)"
proof (induction k arbitrary: pc)
  case 0
  then show ?case by (simp add: act_total_def)
next
  case (Suc k)
  show ?case
  proof (cases "pc < stop")
    case True
    show ?thesis
    proof (cases "get_predicate (env_prog env) (predicate_get (env_mem env) pc 0)")
      case None
      with True show ?thesis by (simp add: act_total_def)
    next
      case (Some p)
      with True Suc.prems obtain r where r: "fields_end (Suc k) (pred_types p) (env_mem env) (pc + 1) = Some r"
        and ends: "case r of Inl e \<Rightarrow> True | Inr q \<Rightarrow> axioms_end env k q stop" by (auto split: option.splits)
      have next_ends: "axioms_end env k q stop" if "r = Inr q" for q using ends that by simp
      note fields = axiom_fields_end [OF r]
      have "act_total (axiom_fields (Suc k) (pred_types p) (env_mem env) (pc + 1) :: ('a vstate, fval list \<times> pcounter) act)"
        unfolding act_total_def
      proof (intro allI)
        fix s :: "'a vstate"
        show "axiom_fields (Suc k) (pred_types p) (env_mem env) (pc + 1) s \<noteq> None" using fields [of s] by (cases r) auto
      qed
      then show ?thesis unfolding axioms_loop.simps Some option.case if_P [OF True]
      proof (rule total_bind_reach)
        fix s t :: "'a vstate" and x
        assume x: "axiom_fields (Suc k) (pred_types p) (env_mem env) (pc + 1) s = Some (Inr (x, t))"
        with fields [of s] obtain q where q: "r = Inr q" "snd x = q" by (cases r) auto
        have "act_total (act_bind (create_tuple \<lparr>tpl_pred = p, tpl_fields = fst x\<rparr>) (\<lambda>t.
             act_then (execute_send_self env so t) (axioms_loop env so k q stop)))"
          by (intro total_bind total_then total_effects total_send_self Suc.IH next_ends q(1))
        with q(2) show "(case x of (vs, pc') \<Rightarrow> act_bind (create_tuple \<lparr>tpl_pred = p, tpl_fields = vs\<rparr>) (\<lambda>t.
             act_then (execute_send_self env so t) (axioms_loop env so k pc' stop))) t \<noteq> None"
          by (auto simp: split_def dest: act_totalD)
      qed
    qed
  qed (simp add: act_total_def)
qed

lemma total_init_node: "act_total (init_node env so n)"
  unfolding init_node_def split_def by (intro total_bind total_basic total_effects)

lemma total_new_node: "act_total (execute_new_node env so pc)"
  unfolding execute_new_node_def by (intro total_bind total_then total_basic total_init_node)

lemma total_move:
  assumes "advance (env_mem env) pc \<noteq> None"
  shows "act_total (execute_move env pc)"
proof -
  have "act_total (move_to_stack env pc m v)" for m v
    unfolding move_to_stack_def Let_def by (intro total_if total_bind total_opt total_basic assms)
  then show ?thesis unfolding execute_move_def Let_def by (intro total_if total_then total_basic)
qed

section \<open>Match lists\<close>

text \<open>A match list that ends, or meets an unknown tag, within a number of entries.\<close>

fun match_ends :: "mem \<Rightarrow> nat \<Rightarrow> pcounter \<Rightarrow> bool" where
  "match_ends mm 0 pc = False"
| "match_ends mm (Suc k) pc =
     (case arg_size_anything (iter_match_val mm pc) of
        Inl e \<Rightarrow> True
      | Inr a \<Rightarrow> iter_match_end mm pc \<or> match_ends mm k (pc + (2 + a)))"

lemma iter_matches_loop_ends:
  assumes "iter_matches_loop mm pc acc = Some (Inr n)" and "n \<le> acc + k"
  shows "match_ends mm k pc"
proof -
  let ?P = "\<lambda>mm pc acc (r :: nat res). \<forall>n k. r = Inr n \<longrightarrow> acc + 2 \<le> n \<and> (n \<le> acc + k \<longrightarrow> match_ends mm k pc)"
  have "?P mm pc acc (Inr n)"
  proof (rule iter_matches_loop.raw_induct [where P = ?P, OF _ assms(1)])
    fix f mm pc acc and r :: "nat res"
    assume IH: "\<And>mm pc acc r. f mm pc acc = Some r \<Longrightarrow> ?P mm pc acc r"
      and eq: "(case arg_size_anything (iter_match_val mm pc) of
          Inl e \<Rightarrow> Some (Inl e)
        | Inr k \<Rightarrow> (if iter_match_end mm pc then Some (Inr (acc + (2 + k)))
                    else f mm (pc + (2 + k)) (acc + (2 + k)))) = Some r"
    show "?P mm pc acc r"
    proof (intro allI impI)
      fix n k assume r: "r = Inr n"
      from eq r obtain a where a: "arg_size_anything (iter_match_val mm pc) = Inr a"
        by (cases "arg_size_anything (iter_match_val mm pc)") auto
      have go: "acc + (2 + a) + 2 \<le> n \<and> (n \<le> acc + (2 + a) + j \<longrightarrow> match_ends mm j (pc + (2 + a)))"
        if "\<not> iter_match_end mm pc" for j
      proof -
        from eq a r that have "f mm (pc + (2 + a)) (acc + (2 + a)) = Some (Inr n)" by simp
        from IH [OF this] show ?thesis by blast
      qed
      have ge: "acc + 2 \<le> n" using eq a r go [of 0] by (cases "iter_match_end mm pc") auto
      moreover have "match_ends mm k pc" if "n \<le> acc + k"
      proof (cases k)
        case 0
        with that ge show ?thesis by simp
      next
        case (Suc j)
        with that a go [of j] show ?thesis by auto
      qed
      ultimately show "acc + 2 \<le> n \<and> (n \<le> acc + k \<longrightarrow> match_ends mm k pc)" by simp
    qed
  qed
  with assms(2) show ?thesis by blast
qed

text \<open>What the readers of a match list move past is what \<open>arg_size\<close> counts.\<close>

definition moved :: "instr_val \<Rightarrow> pcounter \<Rightarrow> pcounter \<Rightarrow> bool" where
  "moved v m m' \<longleftrightarrow> (\<exists>a. arg_size_anything v = Inr a \<and> m' = m + a)"

lemma op_moves:
  "op_reg conv v m s = Inr (x, m') \<Longrightarrow> m' = m"
  "op_field env conv m s = Inr (x, m') \<Longrightarrow> m' = m + 2"
  "op_const env conv m s = Inr (x, m') \<Longrightarrow> m' = m + 4"
  by (auto simp: op_reg_def op_field_def op_const_def elim!: res_bind_InrE)

lemma tag_reg: "val_is_reg v \<Longrightarrow> arg_size_anything v = Inr 0"
  by (auto simp: arg_size_anything_def val_is_defs)

lemma tag_sizes:
  "val_is_int v \<Longrightarrow> arg_size_anything v = Inr 4" "val_is_float v \<Longrightarrow> arg_size_anything v = Inr 8"
  "val_is_field v \<Longrightarrow> arg_size_anything v = Inr 2" "val_is_host v \<Longrightarrow> arg_size_anything v = Inr 0"
  "val_is_node v \<Longrightarrow> arg_size_anything v = Inr 4" "val_is_const v \<Longrightarrow> arg_size_anything v = Inr 4"
  by (auto simp: arg_size_anything_def val_is_defs)

lemmas tag_size = tag_reg tag_sizes

lemma get_op_int_moves: "get_op_int env v m s = Inr (x, m') \<Longrightarrow> moved v m m'"
  by (auto simp: get_op_int_def moved_def tag_size dest: op_moves split: if_splits)

lemma get_op_float_moves: "get_op_float env v m s = Inr (x, m') \<Longrightarrow> moved v m m'"
  by (auto simp: get_op_float_def moved_def tag_size dest: op_moves split: if_splits)

lemma get_op_node_moves: "get_op_node env v m s = Inr (x, m') \<Longrightarrow> moved v m m'"
  by (auto simp: get_op_node_def get_node_val_move_def Let_def moved_def tag_size res_bind_Inr_iff
      dest: op_moves split: if_splits)

lemma match_argument_moves:
  assumes "match_argument env p e i v m mo s = Inr (mo', m')"
  shows "moved v m m'"
proof -
  from assms obtain ty where "pred_field_type p i = Inr ty" and
    "(case ty of
       FIELD_INT \<Rightarrow> res_bind (get_op_int env v m s) (\<lambda>(x, m'). res_bind (match_int i x mo) (\<lambda>mo'. Inr (mo', m')))
     | FIELD_FLOAT \<Rightarrow> res_bind (get_op_float env v m s) (\<lambda>(x, m'). res_bind (match_float i x mo) (\<lambda>mo'. Inr (mo', m')))
     | FIELD_NODE \<Rightarrow> res_bind (get_op_node env v m s) (\<lambda>(x, m'). res_bind (match_node i x mo) (\<lambda>mo'. Inr (mo', m')))
     | _ \<Rightarrow> Inl e) = Inr (mo', m')"
    unfolding match_argument_def by (elim res_bind_InrE)
  then show ?thesis
    by (cases ty) (auto elim!: res_bind_pairE res_bind_InrE dest: get_op_int_moves get_op_float_moves get_op_node_moves)
qed

lemma do_match_moves:
  assumes "do_match env tp i v m s = Inr (b, m')"
  shows "moved v m m'"
  using assms unfolding do_match_def Let_def
  by (auto simp: moved_def tag_size elim!: res_bind_InrE res_bind_pairE split: if_splits)

lemma build_match_loop_total:
  "match_ends (env_mem env) k pc \<Longrightarrow> act_total (build_match_loop env k pc p mo :: ('w vstate, match) act)"
proof (induction k arbitrary: pc mo)
  case (Suc k)
  show ?case unfolding build_match_loop.simps
  proof (rule total_bind_reach [OF total_basic(5)])
    fix s t :: "'w vstate" and x
    assume r: "act_read (match_argument env p Vm_Exec_Error (iter_match_field (env_mem env) pc)
      (iter_match_val (env_mem env) pc) (pc + 2) mo) s = Some (Inr (x, t))"
    obtain mo' m' where x: "x = (mo', m')" by force
    from r have "moved (iter_match_val (env_mem env) pc) (pc + 2) m'"
      unfolding x act_read_def by (auto elim!: res_bind_InrE dest: match_argument_moves)
    then obtain a where a: "arg_size_anything (iter_match_val (env_mem env) pc) = Inr a" and m: "m' = pc + (2 + a)"
      by (auto simp: moved_def)
    show "(case x of (mo', m') \<Rightarrow> if iter_match_end (env_mem env) pc then act_return mo'
        else build_match_loop env k m' p mo') t \<noteq> None"
    proof (cases "iter_match_end (env_mem env) pc")
      case False
      with Suc.prems a m have "match_ends (env_mem env) k m'" by simp
      with act_totalD [OF Suc.IH, of m' mo' t] False show ?thesis by (simp add: x)
    qed (simp add: x)
  qed
qed simp

lemma do_matches_loop_total:
  "match_ends (env_mem env) k pc \<Longrightarrow> act_total (do_matches_loop env k pc tp :: ('w vstate, bool) act)"
proof (induction k arbitrary: pc)
  case (Suc k)
  show ?case unfolding do_matches_loop.simps
  proof (rule total_bind_reach [OF total_basic(5)])
    fix s t :: "'w vstate" and x
    assume r: "act_read (do_match env tp (iter_match_field (env_mem env) pc)
      (iter_match_val (env_mem env) pc) (pc + 2)) s = Some (Inr (x, t))"
    obtain b m' where x: "x = (b, m')" by force
    from r have "moved (iter_match_val (env_mem env) pc) (pc + 2) m'"
      unfolding x act_read_def by (auto elim!: res_bind_InrE dest: do_match_moves)
    then obtain a where a: "arg_size_anything (iter_match_val (env_mem env) pc) = Inr a" and m: "m' = pc + (2 + a)"
      by (auto simp: moved_def)
    show "(case x of (b, m') \<Rightarrow> if \<not> b then act_return False
        else if iter_match_end (env_mem env) pc then act_return True else do_matches_loop env k m' tp) t \<noteq> None"
    proof (cases "b \<and> \<not> iter_match_end (env_mem env) pc")
      case True
      with Suc.prems a m have "match_ends (env_mem env) k m'" by simp
      with act_totalD [OF Suc.IH, of m' t] True show ?thesis by (simp add: x)
    qed (auto simp: x)
  qed
qed simp

text \<open>A match list the decoder can step over ends within the code.\<close>

definition match_list_ends :: "code_env \<Rightarrow> nat \<Rightarrow> pcounter \<Rightarrow> bool" where
  "match_list_ends env k pc \<longleftrightarrow> iter_match_none (env_mem env) pc \<or> match_ends (env_mem env) k pc"

lemma iter_list_ends:
  assumes "fetch (env_mem env) pc = ITER_INSTR" and "advance (env_mem env) pc = Some (Inr q)" and "q \<le> pc + k"
  shows "match_list_ends env k (pc + 8)"
proof -
  obtain n where n: "iter_matches_size (env_mem env) (pc + 8) = Some (Inr n)" "q = pc + 8 + n"
    using assms(1,2) by (auto simp: advance_def size_Inr_iff split: option.splits)
  show ?thesis
  proof (cases "iter_match_none (env_mem env) (pc + 8)")
    case False
    with n(1) have "iter_matches_loop (env_mem env) (pc + 8) 0 = Some (Inr n)" by (simp add: iter_matches_size_def)
    then have "match_ends (env_mem env) k (pc + 8)" by (rule iter_matches_loop_ends) (use assms(3) n(2) in simp)
    then show ?thesis by (simp add: match_list_ends_def)
  qed (simp add: match_list_ends_def)
qed

lemma build_match_object_total: "match_list_ends env k pc \<Longrightarrow> act_total (build_match_object env k pc p)"
  by (auto simp: build_match_object_def match_list_ends_def total_basic build_match_loop_total)

lemma do_matches_total: "match_list_ends env k pc \<Longrightarrow> act_total (do_matches env k pc tp)"
  by (auto simp: do_matches_def match_list_ends_def total_basic do_matches_loop_total)

section \<open>Termination\<close>

lemma total_with_current: "act_total run \<Longrightarrow> act_total (with_current run t l q lin old)"
  unfolding with_current_def by (intro total_bind total_then total_basic)

lemma total_after: "act_total (after_candidate ret)"
  by (simp add: after_candidate_def total_basic)

lemma total_first: "(\<And>i. act_total (f i)) \<Longrightarrow> act_total (first_that_stops f is)"
  by (induction "is") (auto intro!: total_bind simp: total_basic split: option.splits)

lemma total_run_leaf: "act_total run \<Longrightarrow> act_total (run_leaf run p lin old j)"
  unfolding run_leaf_def
  by (intro total_bind total_then total_if total_when total_basic total_with_current total_after)

lemma total_run_stuple: "act_total run \<Longrightarrow> act_total (run_stuple run d lin old a)"
  unfolding run_stuple_def
  by (intro total_bind total_then total_if total_when total_basic total_effects total_with_current total_after)

lemma total_run_sorted_stuple: "act_total run \<Longrightarrow> act_total (run_sorted_stuple run d lin old a)"
  unfolding run_sorted_stuple_def
  by (intro total_bind total_then total_if total_when total_basic total_effects total_with_current total_after)

lemma total_run_sorted: "act_total run \<Longrightarrow> act_total (run_sorted run p d lin old x)"
  by (cases x) (simp_all add: run_sorted_def total_run_leaf total_run_sorted_stuple)

lemma total_or_no_return: "act_total m \<Longrightarrow> act_total (or_no_return m)"
  unfolding or_no_return_def by (intro total_bind total_basic)

lemma total_otherwise: "act_total m \<Longrightarrow> act_total n \<Longrightarrow> act_total (otherwise m n)"
  unfolding otherwise_def by (auto intro!: total_bind simp: total_basic split: option.split)

lemma total_stuple_matches: "match_list_ends env k pc \<Longrightarrow> act_total (stuple_matches env k pc a)"
  unfolding stuple_matches_def by (intro total_bind total_basic do_matches_total)

lemma total_local_candidate: "match_list_ends env k pc \<Longrightarrow> act_total (local_candidate env k pc p a)"
  unfolding local_candidate_def by (intro total_bind total_if total_basic total_stuple_matches)

lemma total_iterate_sorted:
  assumes "match_list_ends env k pc" and "act_total run"
  shows "act_total (iterate_sorted env so k run pc d i p lin old js)"
  using assms unfolding iterate_sorted_def collect_everything_def
  by (intro total_bind total_if total_basic total_filter total_or_no_return total_first total_run_sorted
      total_stuple_matches total_local_candidate)

lemma total_iterate_plain:
  assumes "match_list_ends env k pc" and "act_total run"
  shows "act_total (iterate_plain env so k run pc d rnd p lin old js)"
  using assms unfolding iterate_plain_def run_queued_def run_local_def
  by (intro total_bind total_then total_if total_basic total_otherwise total_or_no_return total_first total_run_leaf
      total_run_stuple total_effects total_stuple_matches total_local_candidate)

lemma total_execute_iter:
  assumes "match_list_ends env k pc" and "act_total run"
  shows "act_total (execute_iter env so k run pc o1 o2 js p)"
  using assms unfolding execute_iter_def Let_def
  by (intro total_bind total_then total_if total_when total_basic total_effects total_iterate_plain total_iterate_sorted)

lemma total_go_on: "advance (env_mem env) pc \<noteq> None \<Longrightarrow> act_total (go_on env pc)"
  unfolding go_on_def by (intro total_bind total_opt total_basic)

lemma advance_defined: "fetch mm pc \<noteq> ITER_INSTR \<Longrightarrow> advance mm pc \<noteq> None"
  by (cases "fetch mm pc") (simp_all add: advance_def size_1_def size_2_def size_3_def)

lemma total_reset_linear:
  "act_total (run (pc + 5)) \<Longrightarrow> act_total (execute_reset_linear env run pc)"
  unfolding execute_reset_linear_def by (intro total_bind total_then total_basic)

lemma total_iter_instr:
  assumes "fetch (env_mem env) pc = ITER_INSTR" and "advance (env_mem env) pc = Some (Inr q)"
    and "q \<le> pc + k" and "act_total (run q)"
  shows "act_total (execute_iter_instr env so k run pc)"
proof (cases "get_predicate (env_prog env) (iter_predicate (env_mem env) pc)")
  case (Some p)
  have m: "match_list_ends env k (pc + 8)" by (rule iter_list_ends [OF assms(1-3)])
  have "act_total (act_bind (act_opt (advance (env_mem env) pc)) (\<lambda>first.
      act_bind (execute_iter env so k (run first) (pc + 8) o1 o2 js p) f))"
    if "\<And>r. act_total (f r)" for o1 o2 js and f :: "return_type \<Rightarrow> ('a vstate, next_pc) act"
    using total_execute_iter [OF m assms(4)] that
    by (simp add: assms(2) act_total_def act_bind_None act_opt_def act_lift_def act_read_def)
  note go = this
  show ?thesis unfolding execute_iter_instr_def Let_def Some option.case
    by (rule total_bind [OF build_match_object_total [OF m]], rule total_bind [OF total_basic(5)], rule go)
      (simp add: total_basic)
qed (simp add: execute_iter_instr_def total_basic)

lemma total_execute_instr:
  assumes pl: "plain_instr env hi pc" and run: "\<And>q. q \<in> targets env pc \<Longrightarrow> act_total (run q) \<and> q \<le> pc + k"
    and k: "hi - pc - 1 \<le> k"
  shows "act_total (execute_instr env so k run pc)"
proof (cases "fetch (env_mem env) pc = ITER_INSTR")
  case True
  with pl obtain q where q: "advance (env_mem env) pc = Some (Inr q)" by (auto simp: plain_instr_def following_def)
  with True have "q \<in> targets env pc" by (simp add: targets_def following_def)
  with run True q show ?thesis by (simp add: execute_instr_def total_iter_instr)
next
  case False
  then have adv: "advance (env_mem env) pc \<noteq> None" by (rule advance_defined)
  have reset: "act_total (execute_reset_linear env run pc)" if "fetch (env_mem env) pc = RESET_LINEAR_INSTR"
    using run [of "pc + 5"] that by (simp add: targets_def total_reset_linear)
  have move: "act_total (act_bind (execute_move env pc :: ('a vstate, pcounter) act) (go_on env))" if "fetch (env_mem env) pc = MOVE_INSTR"
  proof (rule total_bind_reach [OF total_move [OF adv]])
    fix s t :: "'a vstate" and x
    assume r: "execute_move env pc s = Some (Inr (x, t))"
    have "x = pc"
      using r pl that unfolding execute_move_def Let_def plain_instr_def
      by (auto simp: act_then_def act_bind_Inr split: if_splits)
    then show "go_on env x t \<noteq> None" using act_totalD [OF total_go_on [OF adv]] by simp
  qed
  have b: "act_total (if \<not> b then act_return (Inr j) else go_on env pc :: ('a vstate, next_pc) act)" for b j
    by (simp add: total_basic total_go_on [OF adv])
  have axs: "act_total (execute_new_axioms env so k pc)" if "fetch (env_mem env) pc = NEW_AXIOMS_INSTR"
    using pl that unfolding execute_new_axioms_def plain_instr_def by (intro total_axioms axioms_end_mono [OF _ k]) simp
  note [simp] = total_basic total_then total_bind total_go_on [OF adv] total_remove total_alloc total_send total_send_delay
    total_delete total_new_node
  show ?thesis using pl False
    by (cases "fetch (env_mem env) pc")
      (auto simp: execute_instr_def Let_def plain_instr_def reset move axs simp del: not_None_eq intro!: total_bind b)
qed

lemma go_on_following: "go_on env pc s = Some (Inr (r, t)) \<Longrightarrow> \<exists>q \<in> following env pc. r = Inr q"
  by (cases "advance (env_mem env) pc")
    (auto simp: go_on_def act_bind_Inr act_opt_def act_lift_def act_read_def following_def elim!: res_bind_InrE)

lemma then_following:
  "act_then m (go_on env pc) s = Some (Inr (r, t)) \<Longrightarrow> \<exists>q \<in> following env pc. r = Inr q"
  by (auto elim!: act_then_InrE dest: go_on_following)

lemma execute_instr_targets:
  assumes "plain_instr env hi pc" and r: "execute_instr env so k run pc s = Some (Inr (Inr q, t))"
  shows "q \<in> targets env pc"
proof -
  have iter: "q = pc + iter_jump (env_mem env) pc"
    if "execute_iter_instr env so k run pc s = Some (Inr (Inr q, t))"
    using that unfolding execute_iter_instr_def Let_def
    by (auto simp: act_bind_Inr split: option.splits if_splits)
  have reset: "q = pc + reset_linear_jump (env_mem env) pc"
    if "execute_reset_linear env run pc s = Some (Inr (Inr q, t))"
    using that unfolding execute_reset_linear_def
    by (auto elim!: act_bind_InrE act_then_InrE)
  have move: "q \<in> following env pc"
    if m: "fetch (env_mem env) pc = MOVE_INSTR" and "act_bind (execute_move env pc) (go_on env) s = Some (Inr (Inr q, t))"
  proof -
    from that(2) obtain x u where x: "execute_move env pc s = Some (Inr (x, u))" "go_on env x u = Some (Inr (Inr q, t))"
      by (elim act_bind_InrE)
    have "x = pc"
      using x(1) assms(1) m unfolding execute_move_def Let_def plain_instr_def
      by (auto simp: act_then_def act_bind_Inr split: if_splits)
    with x(2) show ?thesis by (auto dest: go_on_following)
  qed
  have test: "q = j \<or> q \<in> following env pc"
    if "act_bind (act_read g) (\<lambda>b. if \<not> b then act_return (Inr j) else go_on env pc) s = Some (Inr (Inr q, t))" for g j
  proof -
    from that obtain b u where "(if \<not> b then act_return (Inr j) else go_on env pc) u = Some (Inr (Inr q, t))"
      by (elim act_bind_InrE)
    then show ?thesis by (cases b) (auto dest: go_on_following)
  qed
  have on: "q \<in> following env pc" if "act_then m (go_on env pc) s = Some (Inr (Inr q, t))" for m
    using then_following [OF that] by auto
  have on': "q \<in> following env pc" if "go_on env pc u = Some (Inr (Inr q, t))" for u
    using go_on_following [OF that] by auto
  show ?thesis
  proof (cases "fetch (env_mem env) pc")
    case RESET_LINEAR_INSTR
    with r have "execute_reset_linear env run pc s = Some (Inr (Inr q, t))" by (simp add: execute_instr_def Let_def)
    from reset [OF this] RESET_LINEAR_INSTR show ?thesis by (simp add: targets_def)
  next
    case ITER_INSTR
    with r have "execute_iter_instr env so k run pc s = Some (Inr (Inr q, t))" by (simp add: execute_instr_def Let_def)
    from iter [OF this] ITER_INSTR show ?thesis by (simp add: targets_def)
  next
    case MOVE_INSTR
    with r move show ?thesis by (simp add: execute_instr_def Let_def targets_def)
  next
    case IF_INSTR
    then show ?thesis using test r [unfolded execute_instr_def Let_def IF_INSTR instr_type.case]
      unfolding targets_def by auto
  next
    case SELECT_INSTR
    with r have "act_bind (act_read (execute_select env pc)) (\<lambda>pc'. act_return (Inr pc')) s = Some (Inr (Inr q :: next_pc, t))"
      by (simp add: execute_instr_def Let_def)
    then have "execute_select env pc s = Inr q" by (auto simp: act_read_def elim!: act_bind_InrE res_bind_InrE)
    then have "q \<in> select_targets (env_mem env) pc"
      by (auto simp: execute_select_def select_targets_def Let_def elim!: res_bind_InrE split: if_splits)
    with SELECT_INSTR show ?thesis by (simp add: targets_def)
  next
    case CALLF_INSTR
    with r show ?thesis by (auto simp: execute_instr_def Let_def targets_def elim!: act_bind_InrE)
  next
    case RULE_DONE_INSTR
    with r show ?thesis by (auto simp: execute_instr_def Let_def targets_def dest: go_on_following)
  qed (use r in \<open>simp_all add: execute_instr_def Let_def targets_def\<close>, (erule on' | erule on)+)
qed

lemma execute_total:
  assumes "flows_forward env hi S" and "pc \<in> S" and "hi - pc \<le> k"
  shows "act_total (execute env so k pc)"
  using assms(2,3)
proof (induction k arbitrary: pc)
  case 0
  then show ?case using assms(1) by (auto simp: flows_forward_def)
next
  case (Suc k)
  have ff: "pc < hi" "plain_instr env hi pc" "\<And>q. q \<in> targets env pc \<Longrightarrow> pc < q \<and> q \<in> S"
    using assms(1) Suc.prems(1) by (auto simp: flows_forward_def)
  have IH: "act_total (execute env so k q) \<and> q \<le> pc + k" if "q \<in> targets env pc" for q
    using ff(3) [OF that] assms(1) Suc.prems(2) Suc.IH [of q] by (fastforce simp: flows_forward_def)
  show ?case unfolding execute.simps
  proof (rule total_then [OF total_basic(3)], rule total_bind_reach [OF total_execute_instr [OF ff(2) IH]])
    show "hi - pc - 1 \<le> k" using Suc.prems(2) by simp
  next
    fix s x t assume r: "execute_instr env so k (execute env so k) pc s = Some (Inr (x, t))"
    show "(case x of Inl ret \<Rightarrow> act_return ret | Inr pc' \<Rightarrow> execute env so k pc') t \<noteq> None"
    proof (cases x)
      case (Inr q)
      then have "q \<in> targets env pc" using execute_instr_targets [OF ff(2)] r by blast
      with IH Inr show ?thesis by (simp add: act_totalD)
    qed simp
  qed
qed

text \<open>C15: code that only flows forward returns. If every instruction that can be reached, the bodies of
  ITERATE and RESET-LINEAR, the table of SELECT and the functions of CALLF included, leads to a later one,
  none is a MOVE to the program counter, and the match lists and the lists of axioms end within the code,
  the interpreter started anywhere in the code comes to an end, with a result or an error, whatever the
  state, the database and the scheduler are; the length of the code that is left is a sufficient bound.\<close>

theorem execute_terminates:
  assumes "flows_forward env hi S" and "pc \<in> S"
  shows "execute env so (hi - pc) pc s \<noteq> None"
  by (rule act_totalD [OF execute_total [OF assms order_refl]])

lemma edge_flows: "flows_forward edge_env 12 {0, 10, 11}"
  by (simp add: flows_forward_def plain_instr_def targets_def following_def edge_code)

theorem execute_terminates_witness: "execute edge_env quiet_sched 12 0 edge_state \<noteq> None"
  using execute_terminates [OF edge_flows, of 0 quiet_sched edge_state] by simp

end
