(* ===== verification/Vm_Run.thy ===== *)
theory Vm_Run
  imports Vm_Exec
begin

text \<open>
  Running a node, \<open>vm/state.cpp\<close>: the tuples that wait at the node are sorted into those the
  rules consume (\<open>local_tuples\<close>), the persistent ones, and the actions; the persistent tuples
  are put into the database, run their predicate's code and feed the aggregates, until none
  is left; then the rules the matcher has activated run in the order of their identifiers,
  each followed by the tuples it generated. The configuration defines \<open>USE_SIM\<close> and
  \<open>USE_RULE_COUNTING\<close>; instruction limits exist in simulated time only.
\<close>

section \<open>Retractions that cancel\<close>

definition tuple_is_aggregate :: "vtuple \<Rightarrow> bool" where
  "tuple_is_aggregate tp \<longleftrightarrow> pred_agg (tpl_pred tp) \<noteq> None"

text \<open>The first waiting tuple that satisfies the tests and equals the one given is taken out.\<close>

fun take_negative ::
  "(vtuple \<Rightarrow> stobj \<Rightarrow> bool) \<Rightarrow> vtuple \<Rightarrow> saddr list \<Rightarrow> 'w vstate \<Rightarrow> (saddr option \<times> saddr list) res" where
  "take_negative wanted tp [] s = Inr (None, [])"
| "take_negative wanted tp (a # as) s =
     res_bind (stuple_at a s) (\<lambda>st. res_bind (tuple_at (so_tuple st) s) (\<lambda>tp2.
     res_bind (if wanted tp2 st \<and> so_count st = - 1 then tuple_eq tp2 tp else Inr False) (\<lambda>same.
       if same then Inr (Some a, as)
       else res_bind (take_negative wanted tp as s) (\<lambda>(r, as'). Inr (r, a # as')))))"

definition search_for_negative :: "(vtuple \<Rightarrow> stobj \<Rightarrow> bool) \<Rightarrow> vtuple \<Rightarrow> ('w vstate, saddr option) act" where
  "search_for_negative wanted tp = act_step (\<lambda>s.
     res_bind (take_negative wanted tp (vs_persistent s) s) (\<lambda>(r, as). Inr (r, s\<lparr>vs_persistent := as\<rparr>)))"

definition search_for_negative_tuple_partial_agg :: "stobj \<Rightarrow> vtuple \<Rightarrow> ('w vstate, saddr option) act" where
  "search_for_negative_tuple_partial_agg st tp =
     act_then (act_assert (\<not> so_aggregate st))
       (search_for_negative (\<lambda>tp2 st2. tuple_is_aggregate tp2 \<and> \<not> so_aggregate st2) tp)"

definition search_for_negative_tuple_normal :: "stobj \<Rightarrow> vtuple \<Rightarrow> ('w vstate, saddr option) act" where
  "search_for_negative_tuple_normal st tp =
     act_then (act_assert (\<not> tuple_is_aggregate tp)) (act_then (act_assert (\<not> so_aggregate st))
       (search_for_negative (\<lambda>tp2 st2. \<not> tuple_is_aggregate tp2) tp))"

definition search_for_negative_tuple_full_agg :: "vtuple \<Rightarrow> ('w vstate, saddr option) act" where
  "search_for_negative_tuple_full_agg tp =
     search_for_negative (\<lambda>tp2 st2. tuple_is_aggregate tp2 \<and> so_aggregate st2) tp"

definition tuple_for_assertion :: "stobj \<Rightarrow> vtuple \<Rightarrow> bool" where
  "tuple_for_assertion st tp \<longleftrightarrow> (tuple_is_aggregate tp \<and> so_aggregate st) \<or> \<not> tuple_is_aggregate tp"

section \<open>Persistent tuples\<close>

text \<open>
  \<open>add_to_aggregate\<close>: the group of the tuple is changed and generates anew; what it
  emits is queued as final.
\<close>

definition generate_group ::
  "code_env \<Rightarrow> predicate_id \<Rightarrow> aggregate_info \<Rightarrow> nat \<Rightarrow> db_node \<Rightarrow> (simple_tuple list \<times> db_node) res" where
  "generate_group env p a j n =
     (case nd_aggs n p of
        None \<Rightarrow> Inl Bad_Access
      | Some ta \<Rightarrow>
          (case map_of (leaves (ta_vals ta)) j of
             Some (Some c) \<Rightarrow>
               res_bind (agg_generate (f_add (env_floats env)) (agg_type a) (agg_field a) c) (\<lambda>(out, c').
               Inr (out, n\<lparr>nd_aggs := (nd_aggs n)(p \<mapsto> ta\<lparr>ta_vals := (ta_vals ta)\<lparr>leaves :=
                       update_leaf j (\<lambda>_. Some c') (leaves (ta_vals ta))\<rparr>\<rparr>)\<rparr>))
           | _ \<Rightarrow> Inl Bad_Access))"

definition push_final :: "simple_tuple \<Rightarrow> ('w vstate, unit) act" where
  "push_final st =
     act_bind (create_tuple (st_data st)) (\<lambda>t. act_bind (create_stuple t (st_count st)) (\<lambda>a.
     act_then (set_as_aggregate a) (push_persistent a)))"

definition add_to_aggregate :: "code_env \<Rightarrow> stobj \<Rightarrow> vtuple \<Rightarrow> ('w vstate, unit) act" where
  "add_to_aggregate env st tp =
     (let cnt = so_count st; p = pred_id (tpl_pred tp) in
      act_bind (on_node (\<lambda>n. if cnt <s 0 then remove_agg_tuple (env_hashes env) tp (- cnt) n
                             else add_agg_tuple (env_hashes env) tp cnt n)) (\<lambda>conf.
      act_bind (act_lift (aggregate_of (tpl_pred tp))) (\<lambda>a.
      act_bind (on_node (generate_group env p a conf)) (\<lambda>out. act_each push_final out))))"

text \<open>\<open>setup\<close> and the run of the predicate's code over persistent tuples alone.\<close>

definition run_predicate :: "code_env \<Rightarrow> 'w sched_ops \<Rightarrow> nat \<Rightarrow> tref \<Rightarrow> 16 word \<Rightarrow> predicate_id \<Rightarrow> ('w vstate, unit) act" where
  "run_predicate env so k t cnt p =
     act_bind (act_get vs_node) (\<lambda>n.
     act_then (vm_setup (Some t) n cnt)
       (act_then (act_modify (\<lambda>s. s\<lparr>vs_use_local := False, vs_persistent_only := True\<rparr>))
         (act_bind (execute_bytecode env so k (env_pred_code env p)) (\<lambda>_. act_return ()))))"

text \<open>
  A tuple that is new is from then on the tuple of the leaf, so the object is handed over:
  the leaf it gets is the next one of the trie.
\<close>

definition process_positive :: "code_env \<Rightarrow> 'w sched_ops \<Rightarrow> nat \<Rightarrow> saddr \<Rightarrow> stobj \<Rightarrow> vtuple \<Rightarrow> ('w vstate, unit) act" where
  "process_positive env so k a st tp =
     (let p = pred_id (tpl_pred tp) in
      act_bind (act_read current_node) (\<lambda>n.
      act_bind (add_fact_to_node env tp 1) (\<lambda>is_new.
      act_then (delete_tuple_obj (so_tuple st))
        (act_then (act_when is_new (run_predicate env so k (T_Leaf p (next_leaf (get_storage p n))) (so_count st) p))
          (act_then (matcher_register env p (so_count st) is_new)
            (act_then (act_when is_new (mark_predicate_to_run p)) (delete_stuple_obj a)))))))"

definition process_negative :: "code_env \<Rightarrow> 'w sched_ops \<Rightarrow> nat \<Rightarrow> saddr \<Rightarrow> stobj \<Rightarrow> vtuple \<Rightarrow> ('w vstate, unit) act" where
  "process_negative env so k a st tp =
     (let p = pred_id (tpl_pred tp) in
      if pred_is_reused (tpl_pred tp) then
        act_then (run_predicate env so k (so_tuple st) (so_count st) p) (delete_stuple_obj a)
      else
        act_bind (on_node (node_delete_tuple (env_hashes env) tp (- so_count st))) (\<lambda>info.
        act_then (matcher_deregister env p (so_count st))
          (if info \<noteq> No_Delete then
             act_then (run_predicate env so k (so_tuple st) (so_count st) p)
               (on_node (\<lambda>n. res_bind (node_commit_delete p info n) (\<lambda>n'. Inr ((), n'))))
           else delete_tuple_obj (so_tuple st))))"

definition process_persistent_tuple ::
  "code_env \<Rightarrow> 'w sched_ops \<Rightarrow> nat \<Rightarrow> saddr \<Rightarrow> stobj \<Rightarrow> vtuple \<Rightarrow> ('w vstate, unit) act" where
  "process_persistent_tuple env so k a st tp =
     (if 0 <s so_count st then process_positive env so k a st tp else process_negative env so k a st tp)"

text \<open>
  Whether the tuple meets its retraction among those that wait. At most one of the three
  searches of the source applies.
\<close>

definition meets_negative :: "stobj \<Rightarrow> vtuple \<Rightarrow> ('w vstate, bool) act" where
  "meets_negative st tp =
     (if is_persistent_pred (tpl_pred tp) \<and> so_count st = 1 then
        act_bind
          (if tuple_is_aggregate tp then
             (if so_aggregate st then search_for_negative_tuple_full_agg tp
              else search_for_negative_tuple_partial_agg st tp)
           else search_for_negative_tuple_normal st tp) (\<lambda>r. act_return (r \<noteq> None))
      else act_return False)"

definition do_persistent_tuple :: "code_env \<Rightarrow> 'w sched_ops \<Rightarrow> nat \<Rightarrow> saddr \<Rightarrow> ('w vstate, unit) act" where
  "do_persistent_tuple env so k a =
     act_bind (act_read (stuple_at a)) (\<lambda>st. act_bind (act_read (tuple_at (so_tuple st))) (\<lambda>tp.
     act_then (act_modify (\<lambda>s. s\<lparr>vs_persistent := tl (vs_persistent s)\<rparr>))
       (act_bind (meets_negative st tp) (\<lambda>met.
         if met then act_return ()
         else if tuple_for_assertion st tp then process_persistent_tuple env so k a st tp
         else add_to_aggregate env st tp))))"

primrec persistent_loop :: "code_env \<Rightarrow> 'w sched_ops \<Rightarrow> nat \<Rightarrow> nat \<Rightarrow> ('w vstate, bool) act" where
  "persistent_loop env so k 0 = act_exhausted"
| "persistent_loop env so k (Suc m) =
     act_bind (act_get id) (\<lambda>s.
     case vs_persistent s of
       [] \<Rightarrow> act_return True
     | a # as \<Rightarrow>
         if check_instruction_limit s then act_return False
         else act_then (do_persistent_tuple env so k a) (persistent_loop env so k m))"

definition delete_marked_leaf :: "leaf_ref \<Rightarrow> ('w vstate, unit) act" where
  "delete_marked_leaf l =
     act_then (act_modify (\<lambda>s. s\<lparr>vs_leaves_for_deletion := tl (vs_leaves_for_deletion s)\<rparr>))
       (on_node (\<lambda>n. res_bind (node_delete_by_leaf (fst l) (snd l) n) (\<lambda>n'. Inr ((), n'))))"

definition do_persistent_tuples :: "code_env \<Rightarrow> 'w sched_ops \<Rightarrow> nat \<Rightarrow> ('w vstate, bool) act" where
  "do_persistent_tuples env so k =
     act_bind (persistent_loop env so k k) (\<lambda>ok.
     if \<not> ok then act_return False
     else act_bind (act_get vs_leaves_for_deletion) (\<lambda>ls.
          act_then (act_each delete_marked_leaf ls) (act_return True)))"

section \<open>The tuples at the node\<close>

text \<open>What becomes of a waiting tuple; the answer says whether it stays in the list.\<close>

definition sort_local_tuple :: "code_env \<Rightarrow> 'w sched_ops \<Rightarrow> saddr \<Rightarrow> ('w vstate, bool) act" where
  "sort_local_tuple env so a =
     act_bind (act_read (stuple_at a)) (\<lambda>st. act_bind (act_read (tuple_at (so_tuple st))) (\<lambda>tp.
     let p = tpl_pred tp in
     if \<not> so_can_be_consumed st then
       act_then (delete_tuple_obj (so_tuple st)) (act_then (delete_stuple_obj a) (act_return False))
     else if pred_is_action p then
       act_bind (act_read node_id_of) (\<lambda>n.
       act_then (run_action env so n (so_tuple st) False) (act_then (delete_stuple_obj a) (act_return False)))
     else if is_persistent_pred p \<or> pred_is_reused p then act_then (push_persistent a) (act_return False)
     else act_then (matcher_register env (pred_id p) (so_count st) True)
            (act_then (mark_predicate_to_run (pred_id p)) (act_return True))))"

text \<open>The level of the first tuple; without a tuple it is a variable never set.\<close>

definition mark_rules_using_local_tuples :: "code_env \<Rightarrow> 'w sched_ops \<Rightarrow> ('w vstate, strat_level) act" where
  "mark_rules_using_local_tuples env so =
     act_bind (act_get vs_local) (\<lambda>ls.
     act_bind (act_read (\<lambda>s. case ls of [] \<Rightarrow> Inl Bad_Access | a # as \<Rightarrow> res_bind (stuple_pred a s) (\<lambda>p. Inr (pred_level p)))) (\<lambda>level.
     act_bind (act_filter (sort_local_tuple env so) ls) (\<lambda>ls'.
     act_then (act_modify (\<lambda>s. s\<lparr>vs_local := ls'\<rparr>)) (act_return level))))"

definition process_consumed_local_tuple :: "code_env \<Rightarrow> saddr \<Rightarrow> ('w vstate, bool) act" where
  "process_consumed_local_tuple env a =
     act_bind (act_read (stuple_at a)) (\<lambda>st.
     if so_can_be_consumed st then act_return True
     else
       act_bind (act_read (tuple_at (so_tuple st))) (\<lambda>tp.
       act_then (matcher_deregister env (pred_id (tpl_pred tp)) (so_count st))
         (act_then (delete_tuple_obj (so_tuple st)) (act_then (delete_stuple_obj a) (act_return False)))))"

definition process_consumed_local_tuples :: "code_env \<Rightarrow> ('w vstate, unit) act" where
  "process_consumed_local_tuples env =
     act_bind (act_get vs_local) (\<lambda>ls.
     act_bind (act_filter (process_consumed_local_tuple env) ls) (\<lambda>ls'. act_modify (\<lambda>s. s\<lparr>vs_local := ls'\<rparr>)))"

definition process_others :: "code_env \<Rightarrow> 'w sched_ops \<Rightarrow> ('w vstate, unit) act" where
  "process_others env so =
     act_bind (act_get vs_other) (\<lambda>as. act_bind (act_read node_id_of) (\<lambda>n.
     act_then (act_each (\<lambda>a. route_self env so n a 0) as) (act_modify (\<lambda>s. s\<lparr>vs_other := []\<rparr>))))"

section \<open>A node\<close>

definition gather_into_local :: "('w \<Rightarrow> (saddr list \<times> 'w) res) \<Rightarrow> ('w vstate, unit) act" where
  "gather_into_local f = act_update (\<lambda>s.
     res_bind (f (vs_sched s)) (\<lambda>(as, w). Inr (s\<lparr>vs_local := vs_local s @ as, vs_sched := w\<rparr>)))"

definition clear_dropped :: "('w vstate, unit) act" where
  "clear_dropped = on_node (\<lambda>n. Inr ((), n\<lparr>nd_matcher := clear_dropped_rules (nd_matcher n)\<rparr>))"

text \<open>Take the least rule out of the queue.\<close>

definition pop_rule :: "('w vstate, rule_id) act" where
  "pop_rule = act_step (\<lambda>s.
     res_bind (hq_pop HEAP_INT_ASC (vs_rule_queue s)) (\<lambda>(r, q).
       Inr (r, s\<lparr>vs_rule_queue := q, vs_rules := (vs_rules s)(r := False)\<rparr>)))"

definition apply_rule :: "code_env \<Rightarrow> 'w sched_ops \<Rightarrow> nat \<Rightarrow> node_val \<Rightarrow> ('w vstate, unit) act" where
  "apply_rule env so k no =
     act_bind pop_rule (\<lambda>r.
     act_then clear_dropped
       (act_then start_matching
         (act_then (vm_setup None (Some no) 1)
           (act_then (act_modify (\<lambda>s. s\<lparr>vs_use_local := True, vs_persistent_only := False\<rparr>))
             (act_then (Vm_Exec.execute_rule env so k r)
               (act_then (process_consumed_local_tuples env)
                 (act_bind (act_get id) (\<lambda>s.
                  act_then (act_when (vs_sim_use s \<and> \<not> check_instruction_limit s)
                              (gather_into_local (sd_tuples_until so no (vs_sim_limit s))))
                    (act_modify (\<lambda>s. s\<lparr>vs_local := vs_local s @ vs_generated s, vs_generated := []\<rparr>))))))))))"

definition run_one_rule :: "code_env \<Rightarrow> 'w sched_ops \<Rightarrow> nat \<Rightarrow> node_val \<Rightarrow> ('w vstate, bool) act" where
  "run_one_rule env so k no = act_then (apply_rule env so k no) (do_persistent_tuples env so k)"

text \<open>The answer is \<open>aborted\<close>. Reaching the limit between two rules ends the loop without it.\<close>

primrec run_rules :: "code_env \<Rightarrow> 'w sched_ops \<Rightarrow> nat \<Rightarrow> node_val \<Rightarrow> nat \<Rightarrow> ('w vstate, bool) act" where
  "run_rules env so k no 0 = act_exhausted"
| "run_rules env so k no (Suc m) =
     act_bind (act_get id) (\<lambda>s.
     if vs_rule_queue s = [] \<or> check_instruction_limit s then act_return False
     else
       act_bind (run_one_rule env so k no) (\<lambda>ok.
       if \<not> ok then act_return True
       else act_then (mark_active_rules env) (run_rules env so k no m)))"

definition push_pending :: "'w sched_ops \<Rightarrow> node_val \<Rightarrow> saddr \<Rightarrow> ('w vstate, unit) act" where
  "push_pending so no a = sched_update (sd_push_pending so no a)"

definition settle_tuple :: "code_env \<Rightarrow> 'w sched_ops \<Rightarrow> node_val \<Rightarrow> bool \<Rightarrow> saddr \<Rightarrow> ('w vstate, unit) act" where
  "settle_tuple env so no aborted a =
     act_bind (act_read (stuple_at a)) (\<lambda>st.
     if \<not> so_can_be_consumed st then wipeout a
     else if aborted then push_pending so no a
     else act_bind (act_read (tuple_at (so_tuple st))) (\<lambda>tp.
          act_bind (add_fact_to_node env tp 1) (\<lambda>_. delete_stuple_obj a)))"

definition first_rules :: "code_env \<Rightarrow> 'w sched_ops \<Rightarrow> nat \<Rightarrow> ('w vstate, bool) act" where
  "first_rules env so k =
     act_bind (do_persistent_tuples env so k) (\<lambda>ok.
     if ok then act_then (mark_active_rules env) (act_return True) else act_return False)"

text \<open>The three parts of \<open>run_node\<close>: before, around and after the loop over the rules.\<close>

definition arrive_at_node :: "code_env \<Rightarrow> 'w sched_ops \<Rightarrow> node_val \<Rightarrow> ('w vstate, unit) act" where
  "arrive_at_node env so no =
     act_then (act_modify (\<lambda>s. s\<lparr>vs_node := Some no\<rparr>))
       (act_bind (act_get vs_local) (\<lambda>ls.
        act_then (act_assert (ls = []))
          (act_then (gather_into_local (sd_gather_next so no))
            (act_then start_matching
              (act_bind (mark_rules_using_local_tuples env so) (\<lambda>level.
               act_modify (\<lambda>s. s\<lparr>vs_level := level\<rparr>)))))))"

definition leave_pending :: "'w sched_ops \<Rightarrow> node_val \<Rightarrow> bool \<Rightarrow> ('w vstate, unit) act" where
  "leave_pending so no aborted =
     act_bind (act_get vs_persistent) (\<lambda>ps.
     act_then (act_assert (ps = [] \<or> aborted))
       (act_then (act_each (push_pending so no) ps)
         (act_modify (\<lambda>s. s\<lparr>vs_persistent := [],
            vs_sim_counter := (if vs_sim_use s \<and> vs_sim_counter s < vs_sim_limit s then vs_sim_counter s + 1
                               else vs_sim_counter s)\<rparr>))))"

definition leave_node :: "code_env \<Rightarrow> 'w sched_ops \<Rightarrow> node_val \<Rightarrow> bool \<Rightarrow> ('w vstate, unit) act" where
  "leave_node env so no aborted =
     act_bind (act_get vs_local) (\<lambda>ls.
     act_then (act_each (settle_tuple env so no aborted) ls)
       (act_then (act_modify (\<lambda>s. s\<lparr>vs_local := [], vs_rule_queue := []\<rparr>))
         (act_then (process_others env so) (leave_pending so no aborted))))"

definition run_node :: "code_env \<Rightarrow> 'w sched_ops \<Rightarrow> nat \<Rightarrow> node_val \<Rightarrow> ('w vstate, unit) act" where
  "run_node env so k no =
     act_then (arrive_at_node env so no)
       (act_bind (first_rules env so k) (\<lambda>ok.
        act_bind (if ok then run_rules env so k no k else act_return True) (leave_node env so no)))"

section \<open>Constants\<close>

text \<open>The code of the constants runs on a new state of its own.\<close>

definition execute_const_code :: "code_env \<Rightarrow> 'w sched_ops \<Rightarrow> nat \<Rightarrow> ('w vstate, unit) act" where
  "execute_const_code env so k =
     act_then (vm_setup None None 0) (act_bind (execute_bytecode env so k (env_const_code env)) (\<lambda>_. act_return ()))"

end
