(* ===== verification/Vm_Exec_Frame.thy ===== *)
theory Vm_Exec_Frame
  imports Vm_Example
begin

text \<open>
  What running code leaves as it was. The interpreter replaces the current tuple around
  every nested run and puts it back (\<open>PUSH_CURRENT_STATE\<close>, \<open>POP_STATE\<close>); the node, the local
  list and the queue of rules are not the code's to change; and the counts that say how
  often a linear fact may still be used are returned unless the fact was consumed.
\<close>

section \<open>The frame\<close>

definition kept :: "'w vstate \<Rightarrow> 'w vstate \<Rightarrow> bool" where
  "kept s t \<longleftrightarrow>
     vs_tuple t = vs_tuple s \<and> vs_leaf t = vs_leaf s \<and> vs_queue t = vs_queue s \<and> vs_is_linear t = vs_is_linear s \<and>
     vs_node t = vs_node s \<and> vs_count t = vs_count s \<and> vs_use_local t = vs_use_local s \<and>
     vs_persistent_only t = vs_persistent_only s \<and> vs_local t = vs_local s \<and> vs_level t = vs_level s \<and>
     vs_rules t = vs_rules s \<and> vs_rule_queue t = vs_rule_queue s \<and>
     vs_sim_use t = vs_sim_use s \<and> vs_sim_limit t = vs_sim_limit s"

text \<open>The fact stays in use at most as often as it was, and never more often than it may be.\<close>

definition uses_kept :: "'w vstate \<Rightarrow> 'w vstate \<Rightarrow> bool" where
  "uses_kept s t \<longleftrightarrow>
     (\<forall>l n. used_count l (vs_used s) = Some n \<longrightarrow> 0 \<le>s n \<longrightarrow>
        (\<exists>m. used_count l (vs_used t) = Some m \<and> 0 \<le>s m \<and> m \<le>s n))"

lemma uses_kept_same [intro]: "vs_used t = vs_used s \<Longrightarrow> uses_kept s t"
  by (auto simp: uses_kept_def)

lemma uses_kept_trans: "uses_kept s t \<Longrightarrow> uses_kept t u \<Longrightarrow> uses_kept s u"
  unfolding uses_kept_def word_sle_eq by (meson order_trans)

text \<open>
  Both at once, with what every operation of the scheduler keeps of its own state; also under
  the assumption that the flag \<open>is_linear\<close> has a given value.
\<close>

definition framed :: "('w \<Rightarrow> 'w \<Rightarrow> bool) \<Rightarrow> 'w vstate \<Rightarrow> 'w vstate \<Rightarrow> bool" where
  "framed W s t \<longleftrightarrow> kept s t \<and> uses_kept s t \<and> W (vs_sched s) (vs_sched t)"

definition framed_if :: "('w \<Rightarrow> 'w \<Rightarrow> bool) \<Rightarrow> bool \<Rightarrow> 'w vstate \<Rightarrow> 'w vstate \<Rightarrow> bool" where
  "framed_if W old s t \<longleftrightarrow> (vs_is_linear s = old \<longrightarrow> framed W s t)"

text \<open>
  The contract of a scheduler with the virtual machine: a relation that every operation the
  interpreter calls keeps between the scheduler's states.
\<close>

locale sched_contract =
  fixes so :: "'w sched_ops"
    and W :: "'w \<Rightarrow> 'w \<Rightarrow> bool"
  assumes W_refl [simp]: "W w w" and W_trans: "W w v \<Longrightarrow> W v u \<Longrightarrow> W w u"
    and W_new_work: "sd_new_work so c src n a l w = Inr w' \<Longrightarrow> W w w'"
    and W_new_work_delay: "sd_new_work_delay so c src n a l d w = Inr w' \<Longrightarrow> W w w'"
    and W_new_work_other: "sd_new_work_other so n a l w = Inr w' \<Longrightarrow> W w w'"
    and W_new_work_remote: "sd_new_work_remote so r n a w = Inr w' \<Longrightarrow> W w w'"
    and W_set_priority: "sd_set_node_priority so b n p w = Inr w' \<Longrightarrow> W w w'"
    and W_add_priority: "sd_add_node_priority so b n p w = Inr w' \<Longrightarrow> W w w'"
    and W_schedule_next: "sd_schedule_next so n w = Inr w' \<Longrightarrow> W w w'"
    and W_set_color: "sd_set_color so n x y z w = Inr w' \<Longrightarrow> W w w'"
begin

lemma framed_refl: "framed W s s"
  by (auto simp: framed_def kept_def W_refl)

lemma framed_trans: "framed W s t \<Longrightarrow> framed W t u \<Longrightarrow> framed W s u"
  by (auto simp: framed_def kept_def intro: uses_kept_trans W_trans)

lemma framed_linear: "framed W s t \<Longrightarrow> vs_is_linear t = vs_is_linear s"
  by (simp add: framed_def kept_def)

end

sublocale sched_contract \<subseteq> fr: state_order "framed W"
  by unfold_locales (rule framed_refl, rule framed_trans)

sublocale sched_contract \<subseteq> fi: state_order "framed_if W old" for old
  by unfold_locales (auto simp: framed_if_def framed_refl framed_linear intro: framed_trans)

text \<open>A step that changes nothing the frame speaks of.\<close>

definition outside :: "'w vstate \<Rightarrow> 'w vstate \<Rightarrow> bool" where
  "outside s t \<longleftrightarrow> kept s t \<and> vs_used t = vs_used s \<and> vs_sched t = vs_sched s"

lemma outside_refl [simp]: "outside s s"
  by (simp add: outside_def kept_def)

lemma outside_trans: "outside s t \<Longrightarrow> outside t u \<Longrightarrow> outside s u"
  by (auto simp: outside_def kept_def)

section \<open>State updates\<close>

lemma set_reg_outside [simp]: "outside s (set_reg r v s)"
  by (simp add: outside_def kept_def set_reg_def)

lemma put_current_outside [simp]: "outside s (put_current n s)"
  by (simp add: outside_def kept_def put_current_def split: option.split)

lemma set_stack_outside: "set_stack_at off v s = Inr t \<Longrightarrow> outside s t"
  by (auto simp: outside_def kept_def set_stack_at_def split: if_splits)

lemma set_const_outside: "set_const c v s = Inr t \<Longrightarrow> outside s t"
  by (auto simp: outside_def kept_def set_const_def split: if_splits)

lemma put_tuple_outside: "put_tuple a tp s = Inr t \<Longrightarrow> outside s t"
  by (auto simp: put_tuple_def Let_def res_bind_Inr_iff split: tref.splits)
    (simp add: outside_def kept_def)

lemma put_field_outside: "put_field a i v s = Inr t \<Longrightarrow> outside s t"
  unfolding put_field_def by (auto elim!: res_bind_InrE dest: put_tuple_outside split: sum.splits if_splits)

lemma put_nil_outside: "put_nil a i s = Inr t \<Longrightarrow> outside s t"
  unfolding put_nil_def by (auto elim!: res_bind_InrE dest: put_tuple_outside split: if_splits)

lemma put_typed_outside: "put_typed_field a i v s = Inr t \<Longrightarrow> outside s t"
  unfolding put_typed_field_def by (auto elim!: res_bind_InrE dest: put_field_outside)

lemma put_at_outside: "put_at env m v s = Inr t \<Longrightarrow> outside s t"
  unfolding put_at_def by (auto elim!: res_bind_pairE dest: put_field_outside)

lemma put_stuple_outside: "put_stuple a f s = Inr t \<Longrightarrow> outside s t"
  unfolding put_stuple_def by (auto simp: outside_def kept_def elim!: res_bind_InrE)

lemmas outside_updates =
  set_stack_outside set_const_outside put_tuple_outside put_field_outside put_nil_outside put_typed_outside
  put_at_outside put_stuple_outside

section \<open>Moves and computations\<close>

lemma move_tuple_outside: "move_tuple_to_reg r s = Inr t \<Longrightarrow> outside s t"
  by (auto simp: move_tuple_to_reg_def Let_def outside_def kept_def set_reg_def set_leaf_def set_tuple_queue_def
      split: option.splits if_splits)

lemma move_to_reg_outside: "move_to_reg env m r v s = Inr t \<Longrightarrow> outside s t"
  unfolding move_to_reg_def Let_def copy_reg_def
  by (auto elim!: res_bind_InrE res_bind_pairE dest: move_tuple_outside split: if_splits)

lemma move_const_outside: "move_const_to_field a i v s = Inr t \<Longrightarrow> outside s t"
  unfolding move_const_to_field_def by (auto elim!: res_bind_InrE dest: put_typed_outside split: if_splits)

lemma move_to_field_outside: "move_to_field env m v s = Inr t \<Longrightarrow> outside s t"
  unfolding move_to_field_def Let_def
  by (auto elim!: res_bind_InrE res_bind_pairE dest: put_at_outside put_field_outside put_typed_outside move_const_outside
      split: if_splits)

lemma move_to_const_outside: "move_to_const env m v s = Inr t \<Longrightarrow> outside s t"
  unfolding move_to_const_def Let_def
  by (auto elim!: res_bind_InrE res_bind_pairE dest: set_const_outside split: if_splits)

lemma set_op_outside:
  "set_op_bool env m d b s = Inr t \<Longrightarrow> outside s t"
  "set_op_number env m d v s = Inr t \<Longrightarrow> outside s t"
  "set_op_other env m d v s = Inr t \<Longrightarrow> outside s t"
  by (auto simp: set_op_bool_def set_op_number_def set_op_other_def dest: put_at_outside set_stack_outside split: if_splits)

lemmas set_op_unfold = set_op_int_def set_op_float_def set_op_node_def set_op_int_list_def set_op_float_list_def
  set_op_node_list_def

lemma implement_outside:
  assumes "\<And>m d v s t. put m d v s = Inr t \<Longrightarrow> outside s t"
  shows "implement_operation get put f a b d m s = Inr t \<Longrightarrow> outside s t"
    and "implement_part getp part put ls d m s = Inr t \<Longrightarrow> outside s t"
  unfolding implement_operation_def implement_part_def
  by (auto elim!: res_bind_InrE res_bind_pairE dest: assms split: if_splits)

lemma implement_cons_outside:
  assumes "\<And>m d v s t. put m d v s = Inr t \<Longrightarrow> outside s t"
  shows "implement_cons geth getl put a b d m s = Inr t \<Longrightarrow> outside s t"
  unfolding implement_cons_def by (auto elim!: res_bind_InrE res_bind_pairE dest: assms)

lemma execute_op_outside: "execute_op env pc s = Inr t \<Longrightarrow> outside s t"
  unfolding execute_op_def Let_def set_op_unfold
  by (auto intro: implement_outside(1) set_op_outside split: instr_op.splits elim!: implement_outside(1) [rotated])

lemma execute_cons_outside: "execute_cons env pc s = Inr t \<Longrightarrow> outside s t"
  unfolding execute_cons_def Let_def set_op_unfold
  by (auto split: field_type.splits elim!: implement_cons_outside [rotated] intro: set_op_outside)

lemma execute_tail_outside: "execute_tail env pc s = Inr t \<Longrightarrow> outside s t"
  unfolding execute_tail_def Let_def set_op_unfold
  by (auto split: field_type.splits elim!: implement_outside(2) [rotated] intro: set_op_outside)

lemma execute_head_outside: "execute_head env pc s = Inr t \<Longrightarrow> outside s t"
  unfolding execute_head_def Let_def set_op_unfold
  by (auto split: field_type.splits elim!: implement_outside(2) [rotated] intro: set_op_outside)

lemma execute_small_outside:
  "execute_test_nil env pc s = Inr t \<Longrightarrow> outside s t"
  "execute_float env pc s = Inr t \<Longrightarrow> outside s t"
  "execute_not env pc s = Inr t \<Longrightarrow> outside s t"
  "execute_move_nil env pc s = Inr t \<Longrightarrow> outside s t"
  unfolding execute_test_nil_def execute_float_def execute_not_def execute_move_nil_def Let_def set_op_unfold
  by (auto elim!: res_bind_InrE res_bind_pairE dest: set_op_outside put_at_outside put_nil_outside split: if_splits)

lemma call_external_outside: "call_external env i pc s = Inr t \<Longrightarrow> outside s t"
  unfolding call_external_def Let_def by (auto elim!: res_bind_InrE res_bind_pairE split: if_splits)

lemma call_outside:
  "execute_call env pc s = Inr t \<Longrightarrow> outside s t" "execute_calle env pc s = Inr t \<Longrightarrow> outside s t"
  by (auto simp: execute_call_def execute_calle_def intro: call_external_outside)

lemma colocated_outside: "execute_colocated env pc s = Inr t \<Longrightarrow> outside s t"
  unfolding execute_colocated_def Let_def by (auto elim!: res_bind_InrE res_bind_pairE)

lemma stack_outside:
  "execute_pop s = Inr t \<Longrightarrow> outside s t" "execute_pop_regs s = Inr t \<Longrightarrow> outside s t"
  "outside s (execute_push s)" "outside s (execute_push_regs s)" "outside s (execute_rule_instr env pc s)"
  "outside s (count_instruction env s)"
  by (auto simp: execute_pop_def execute_pop_regs_def execute_push_def execute_push_regs_def execute_rule_instr_def
      count_instruction_def outside_def kept_def split: list.splits if_splits)

text \<open>Taking a leaf into use and giving it back, around a run that returns what it takes.\<close>

definition fewer :: "leaf_ref \<Rightarrow> 'w vstate \<Rightarrow> 'w vstate \<Rightarrow> bool" where
  "fewer l s t \<longleftrightarrow> (kept s t \<and> vs_sched t = vs_sched s) \<and>
     (\<forall>k n. used_count k (vs_used s) = Some n \<longrightarrow>
        (if k = l then 0 <s n \<and> used_count k (vs_used t) = Some (n - 1) else used_count k (vs_used t) = Some n))"

section \<open>Effects\<close>

context sched_contract
begin

lemma framed_weaken: "act_frame (framed W) m \<Longrightarrow> act_frame (framed_if W old) m"
  by (auto simp: act_frame_def framed_if_def)

lemma framed_if_all:
  assumes "\<And>s. act_frame (framed_if W (vs_is_linear s)) (f s)"
  shows "act_frame (framed W) (act_bind (act_get id) f)"
proof (rule act_frameI)
  fix s x t assume "act_bind (act_get id) f s = Some (Inr (x, t))"
  then have "f s s = Some (Inr (x, t))" by simp
  with act_frameD [OF assms this] show "framed W s t" by (simp add: framed_if_def)
qed

lemma outside_framed: "outside s t \<Longrightarrow> framed W s t"
  by (auto simp: outside_def framed_def W_refl)

lemma frame_outside:
  "(\<And>s t. f s = Inr t \<Longrightarrow> outside s t) \<Longrightarrow> act_frame (framed W) (act_update f)"
  "(\<And>s. outside s (g s)) \<Longrightarrow> act_frame (framed W) (act_modify g)"
  "(\<And>s x t. h s = Inr (x, t) \<Longrightarrow> outside s t) \<Longrightarrow> act_frame (framed W) (act_step h)"
  by (auto intro!: fr.frame_update fr.frame_modify fr.frame_step outside_framed)

lemma frame_effects:
  "act_frame (framed W) (on_node f)" "act_frame (framed W) (act_fail e :: ('w vstate, 'z) act)" "act_frame (framed W) (create_tuple tp)"
  "act_frame (framed W) (create_stuple t c)" "act_frame (framed W) (delete_tuple_obj t)" "act_frame (framed W) (delete_stuple_obj a)"
  "act_frame (framed W) (will_delete a)" "act_frame (framed W) (will_not_delete a)" "act_frame (framed W) (set_generated_run a b)"
  "act_frame (framed W) (push_other a)" "act_frame (framed W) (push_persistent a)" "act_frame (framed W) (push_generated a)"
  "act_frame (framed W) (mark_predicate_to_run q)" "act_frame (framed W) (shuffle_vector env xs)"
  unfolding on_node_def create_tuple_def create_stuple_def delete_tuple_obj_def delete_stuple_obj_def
    will_delete_def will_not_delete_def set_generated_run_def push_other_def push_persistent_def push_generated_def
    mark_predicate_to_run_def shuffle_vector_def
  by (auto intro!: frame_outside fr.frame_fail elim!: res_bind_InrE res_bind_pairE dest: put_stuple_outside
      simp: outside_def kept_def put_current_def alloc_tuple_def alloc_stuple_def split: option.splits tref.splits if_splits)

lemma frame_matcher: "act_frame (framed W) (matcher_register env q c n)" "act_frame (framed W) (matcher_deregister env q c)"
  by (simp_all add: matcher_register_def matcher_deregister_def frame_effects)

lemma frame_add_generated: "act_frame (framed W) (add_generated_tuple a)"
  unfolding add_generated_tuple_def
  by (intro fr.frame_then frame_effects frame_outside) (simp add: outside_def kept_def)

lemma frame_sched: "(\<And>w w'. g w = Inr w' \<Longrightarrow> W w w') \<Longrightarrow> act_frame (framed W) (sched_update g)"
  unfolding sched_update_def
  by (rule fr.frame_update) (auto simp: framed_def kept_def elim!: res_bind_InrE)

lemma frame_clocked: "(\<And>c w w'. g c w = Inr w' \<Longrightarrow> W w w') \<Longrightarrow> act_frame (framed W) (sched_clocked g)"
  unfolding sched_clocked_def by (intro fr.frame_rules frame_sched)

lemma frame_sched_ops:
  "act_frame (framed W) (sched_clocked (\<lambda>c. sd_new_work so c src n a l))"
  "act_frame (framed W) (sched_clocked (\<lambda>c. sd_new_work_delay so c src n a l d))"
  "act_frame (framed W) (sched_update (sd_new_work_other so n a l))"
  "act_frame (framed W) (sched_update (sd_new_work_remote so r n a))"
  "act_frame (framed W) (sched_update (sd_set_node_priority so b n p))"
  "act_frame (framed W) (sched_update (sd_add_node_priority so b n p))"
  "act_frame (framed W) (sched_update (sd_schedule_next so n))" "act_frame (framed W) (sched_update (sd_set_color so n x y z))"
  by (auto intro: frame_sched frame_clocked W_new_work W_new_work_delay W_new_work_other W_new_work_remote W_set_priority W_add_priority
      W_schedule_next W_set_color)

lemmas frame_basic = fr.frame_rules frame_effects frame_sched_ops frame_matcher frame_add_generated

lemma frame_run_action: "act_frame (framed W) (run_action env so n t b)"
proof -
  have "act_frame (framed W) (case color_of c of None \<Rightarrow> act_return ()
      | Some (r, g, b) \<Rightarrow> act_then (sched_update (sd_set_color so n r g b)) (delete_tuple_obj t))" for c
    by (auto intro!: frame_basic split: option.split)
  moreover have "act_frame (framed W) (act_modify (\<lambda>s. s\<lparr>vs_output := p # vs_output s\<rparr>))" for p
    by (rule frame_outside) (simp add: outside_def kept_def)
  ultimately show ?thesis unfolding run_action_def Let_def by (intro frame_basic) simp_all
qed

lemma frame_route_self: "act_frame (framed W) (route_self env so n a d)"
  unfolding route_self_def by (intro frame_basic)

lemma frame_route: "act_frame (framed W) (route env so n a d)"
  unfolding route_def by (intro frame_basic frame_run_action)

lemma frame_send_self: "act_frame (framed W) (execute_send_self env so t)"
  unfolding execute_send_self_def Let_def by (intro frame_basic frame_run_action frame_route_self)

lemma frame_send: "act_frame (framed W) (execute_send env so pc)"
  unfolding execute_send_def Let_def by (intro frame_basic frame_send_self frame_route)

lemma frame_send_delay: "act_frame (framed W) (execute_send_delay env so pc)"
  unfolding execute_send_delay_def Let_def by (intro frame_basic frame_route_self frame_route)

lemma frame_alloc: "act_frame (framed W) (execute_alloc env pc)"
  unfolding execute_alloc_def by (intro frame_basic frame_outside) simp

lemma frame_remove: "act_frame (framed W) (execute_remove env pc)"
proof -
  have "act_frame (framed W) (case l of None \<Rightarrow> act_fail Bad_Access | Some (q, j) \<Rightarrow> on_node (f j))" for l :: "leaf_ref option" and f
    by (auto intro!: frame_basic split: option.split)
  moreover have "act_frame (framed W) (act_update (\<lambda>s'. case l of None \<Rightarrow> Inl Bad_Access
      | Some (q, j) \<Rightarrow> Inr (s'\<lparr>vs_leaves_for_deletion := vs_leaves_for_deletion s' @ [(p, j)]\<rparr>)))" for l :: "leaf_ref option" and p
    by (rule frame_outside) (auto simp: outside_def kept_def split: option.splits)
  ultimately show ?thesis unfolding execute_remove_def Let_def by (intro frame_basic) simp_all
qed

lemma frame_delete: "act_frame (framed W) (execute_delete env pc)"
  unfolding execute_delete_def Let_def
  by (cases "get_predicate (env_prog env) (delete_predicate (env_mem env) pc)")
    (simp_all only: option.case, intro frame_basic, intro frame_basic)

lemma frame_init_node: "act_frame (framed W) (init_node env so n)"
  unfolding init_node_def split_def by (intro frame_basic)

lemma frame_new_node: "act_frame (framed W) (execute_new_node env so pc)"
  unfolding execute_new_node_def
  by (intro frame_basic frame_init_node frame_outside)
    (auto simp: outside_def kept_def set_reg_def split: prod.splits)

lemma frame_move: "act_frame (framed W) (execute_move env pc)"
proof -
  have "act_frame (framed W) (move_to_stack env pc m v)" for m v
    unfolding move_to_stack_def Let_def
    by (intro frame_basic frame_outside) (auto elim!: res_bind_InrE dest: set_stack_outside)
  then show ?thesis unfolding execute_move_def Let_def
    by (intro frame_basic frame_outside) (auto dest: move_to_reg_outside move_to_field_outside move_to_const_outside)
qed

lemma frame_axiom_fields: "act_frame (framed W) (axiom_fields k ts mm pc)"
proof (induction ts arbitrary: pc)
  case (Cons t ts)
  then show ?case unfolding axiom_fields.simps split_def by (intro frame_basic)
qed (simp add: fr.frame_return)

lemma frame_axioms: "act_frame (framed W) (axioms_loop env so k pc stop)"
proof (induction k arbitrary: pc)
  case 0
  show ?case unfolding axioms_loop.simps by (intro frame_basic)
next
  case (Suc k)
  then show ?case unfolding axioms_loop.simps
    by (cases "get_predicate (env_prog env) (predicate_get (env_mem env) pc 0)")
      (simp_all only: option.case split_def, intro frame_basic, intro frame_basic frame_axiom_fields frame_send_self)
qed

section \<open>Matching\<close>

lemma frame_do_matches: "act_frame (framed W) (do_matches env k pc tp)"
proof -
  have "act_frame (framed W) (do_matches_loop env k pc tp)"
  proof (induction k arbitrary: pc)
    case (Suc k)
    then show ?case unfolding do_matches_loop.simps split_def by (intro frame_basic)
  qed (simp add: fr.frame_exhausted)
  then show ?thesis unfolding do_matches_def by (intro frame_basic)
qed

lemma frame_build_match: "act_frame (framed W) (build_match_object env k pc p)"
proof -
  have "act_frame (framed W) (build_match_loop env k pc p mo)" for mo
  proof (induction k arbitrary: pc mo)
    case (Suc k)
    then show ?case unfolding build_match_loop.simps split_def by (intro frame_basic)
  qed (simp add: fr.frame_exhausted)
  then show ?thesis unfolding build_match_object_def by (intro frame_basic)
qed

lemma frame_stuple_matches: "act_frame (framed W) (stuple_matches env k pc a)"
  unfolding stuple_matches_def by (intro frame_basic frame_do_matches)

lemma frame_local_candidate: "act_frame (framed W) (local_candidate env k pc p a)"
  unfolding local_candidate_def by (intro frame_basic frame_stuple_matches)

section \<open>Nested runs\<close>

lemma frame_with_current:
  assumes "act_frame (framed W) run"
  shows "act_frame (framed_if W old) (with_current run t l q lin old)"
proof (rule act_frameI)
  fix s x u assume "with_current run t l q lin old s = Some (Inr (x, u))"
  then obtain v where v: "run (push_current_state t l q lin s) = Some (Inr (x, v))" "u = pop_state s old v"
    by (auto simp: with_current_def elim!: act_bind_InrE act_then_InrE)
  from act_frameD [OF assms v(1)] have "framed W (push_current_state t l q lin s) v" .
  then show "framed_if W old s u"
    by (auto simp: v(2) framed_if_def framed_def kept_def uses_kept_def push_current_state_def pop_state_def)
qed

lemma frame_after: "act_frame (framed W) (after_candidate ret)"
  by (simp add: after_candidate_def fr.frame_get)

lemma frame_first:
  assumes "\<And>i. act_frame (framed_if W old) (f i)"
  shows "act_frame (framed_if W old) (first_that_stops f is)"
proof (induction "is")
  case (Cons i "is")
  have "act_frame (framed_if W old) (case r of Some ret \<Rightarrow> act_return (Some ret) | None \<Rightarrow> first_that_stops f is)" for r
    by (cases r) (simp_all add: fi.frame_return Cons.IH)
  then show ?case unfolding first_that_stops.simps by (intro fi.frame_bind assms)
qed (unfold first_that_stops.simps, rule fi.frame_return)

lemma change_used_count:
  "used_count l (change_used k d us) = (if l = k then map_option (\<lambda>n. n + d) (used_count l us) else used_count l us)"
  by (induction us) auto

lemma less_dec:
  fixes n :: "16 word"
  assumes "0 <s n"
  shows "sint (n - 1) = sint n - 1"
proof -
  have "sint (n + - 1) = sint n + sint (- 1 :: 16 word)"
    using assms sint_lt [of n] by (intro sint_add_16) (auto simp: word_sless_alt)
  then show ?thesis by simp
qed

lemma sle_dec: "0 <s (n :: 16 word) \<Longrightarrow> 0 \<le>s n - 1"
  by (simp add: word_sle_eq less_dec word_sless_alt)

lemma sle_inc:
  fixes n m :: "16 word"
  assumes "0 <s n" and "0 \<le>s m" and "m \<le>s n - 1"
  shows "0 \<le>s m + 1 \<and> m + 1 \<le>s n"
proof -
  have m: "0 \<le> sint m" "sint m + 1 \<le> sint n"
    using assms less_dec [OF assms(1)] by (auto simp: word_sle_eq)
  then have "sint (m + 1) = sint m + 1"
    using sint_lt [of n] by (subst sint_add_16) auto
  with m show ?thesis by (simp add: word_sle_eq)
qed

lemma used_sched:
  "using_new_linear_tuple l s = Inr t \<Longrightarrow> vs_sched t = vs_sched s"
  "no_longer_using_linear_tuple l s = Inr t \<Longrightarrow> vs_sched t = vs_sched s"
  by (auto simp: using_new_linear_tuple_def no_longer_using_linear_tuple_def res_bind_Inr_iff split: option.splits if_splits)

lemma using_fewer: "using_new_linear_tuple l s = Inr t \<Longrightarrow> fewer l s t"
  by (auto simp: using_new_linear_tuple_def fewer_def kept_def change_used_count res_bind_Inr_iff split: option.splits if_splits)

lemma no_longer_kept: "no_longer_using_linear_tuple l s = Inr t \<Longrightarrow> kept s t"
  by (auto simp: no_longer_using_linear_tuple_def kept_def split: if_splits)

lemma no_longer_count:
  "no_longer_using_linear_tuple l s = Inr t \<Longrightarrow>
   used_count k (vs_used t) = (if k = l then map_option (\<lambda>n. n + 1) (used_count k (vs_used s)) else used_count k (vs_used s))"
  by (auto simp: no_longer_using_linear_tuple_def change_used_count split: if_splits)

lemma fewer_this:
  "fewer l s t \<Longrightarrow> used_count l (vs_used s) = Some n \<Longrightarrow> 0 <s n \<and> used_count l (vs_used t) = Some (n - 1)"
  unfolding fewer_def by (drule conjunct2, drule spec [of _ l], drule spec [of _ n]) simp

lemma fewer_other: "fewer l s t \<Longrightarrow> used_count a (vs_used s) = Some n \<Longrightarrow> a \<noteq> l \<Longrightarrow> used_count a (vs_used t) = Some n"
  unfolding fewer_def by (drule conjunct2, drule spec [of _ a], drule spec [of _ n]) simp

lemma uses_keptD:
  "uses_kept s t \<Longrightarrow> used_count l (vs_used s) = Some n \<Longrightarrow> 0 \<le>s n \<Longrightarrow>
   \<exists>m. used_count l (vs_used t) = Some m \<and> 0 \<le>s m \<and> m \<le>s n"
  unfolding uses_kept_def by blast

lemma used_and_returned:
  assumes f: "fewer l s t" and k: "framed W t u" and v: "v = u \<or> no_longer_using_linear_tuple l u = Inr v"
  shows "framed W s v"
proof -
  have kv: "kept u v" using v by (elim disjE) (simp add: kept_def, erule no_longer_kept)
  have "kept s v" using f k kv by (auto simp: fewer_def framed_def kept_def)
  moreover have "\<exists>m. used_count a (vs_used v) = Some m \<and> 0 \<le>s m \<and> m \<le>s n"
    if a: "used_count a (vs_used s) = Some n" and n: "0 \<le>s n" for a n
  proof (cases "a = l")
    case True
    with fewer_this [OF f] a have n1: "0 <s n" and "used_count l (vs_used t) = Some (n - 1)" by auto
    with uses_keptD [of t u l "n - 1"] k sle_dec [OF n1]
    obtain m where m: "used_count l (vs_used u) = Some m" "0 \<le>s m" "m \<le>s n - 1"
      by (auto simp only: framed_def)
    have le: "m \<le>s n" using m(3) less_dec [OF n1] by (simp add: word_sle_eq)
    from v show ?thesis
    proof
      assume "no_longer_using_linear_tuple l u = Inr v"
      from no_longer_count [OF this, of l] m(1) True sle_inc [OF n1 m(2,3)] show ?thesis by simp
    qed (use m le True in simp)
  next
    case False
    with fewer_other [OF f] a have "used_count a (vs_used t) = Some n" by auto
    with uses_keptD [of t u a n] k n
    obtain m where m: "used_count a (vs_used u) = Some m" "0 \<le>s m" "m \<le>s n"
      by (auto simp only: framed_def)
    from v show ?thesis
    proof
      assume "no_longer_using_linear_tuple l u = Inr v"
      from no_longer_count [OF this, of a] m False show ?thesis by simp
    qed (use m in simp)
  qed
  moreover have "W (vs_sched s) (vs_sched v)" using f k v used_sched(2) [of l u v] by (auto simp: fewer_def framed_def)
  ultimately show ?thesis by (auto simp: framed_def uses_kept_def)
qed

lemma frame_run_leaf:
  assumes "act_frame (framed W) run"
  shows "act_frame (framed_if W old) (run_leaf run p lin old j)"
proof (cases lin)
  case False
  have "act_frame (framed_if W old) (act_when (\<not> consumed ret \<and> lin) m)" for ret and m :: "('w vstate, unit) act"
    using False by (simp only: simp_thms act_when_def if_False fi.frame_return)
  moreover have "act_frame (framed_if W old) (act_when lin m)" for m :: "('w vstate, unit) act"
    using False by (simp only: simp_thms act_when_def if_False fi.frame_return)
  ultimately show ?thesis unfolding run_leaf_def
    by (intro fi.frame_bind fi.frame_then fi.frame_if fi.frame_get fi.frame_read fi.frame_return frame_with_current
        assms framed_weaken [OF frame_after])
next
  case True
  show ?thesis
  proof (rule act_frameI)
    fix s x z assume r: "run_leaf run p lin old j s = Some (Inr (x, z))"
    show "framed_if W old s z"
    proof (cases "linear_tuple_can_be_used (p, j) s")
      case False
      with r True have "z = s" by (simp add: run_leaf_def)
      then show ?thesis by (simp add: fi.refl)
    next
      case usable: True
      from r True usable obtain t u v ret where t: "using_new_linear_tuple (p, j) s = Inr t"
        and u: "with_current run (T_Leaf p j) (Some (p, j)) None lin old t = Some (Inr (ret, u))"
        and v: "act_when (\<not> consumed ret \<and> lin) (act_update (no_longer_using_linear_tuple (p, j))) u = Some (Inr ((), v))"
        and z: "after_candidate ret v = Some (Inr (x, z))"
        unfolding run_leaf_def act_when_def
        by (auto simp: act_update_def act_read_def res_bind_Inr_iff elim!: act_bind_InrE act_then_InrE)
      have f: "fewer (p, j) s t" by (rule using_fewer [OF t])
      have "v = u \<or> no_longer_using_linear_tuple (p, j) u = Inr v"
        using v by (auto simp: act_when_def act_update_def res_bind_Inr_iff split: if_splits)
      moreover have "framed W t u" if "vs_is_linear s = old"
      proof -
        have "vs_is_linear t = old" using f that by (simp add: fewer_def kept_def)
        then show ?thesis using act_frameD [OF frame_with_current [OF assms] u] by (simp add: framed_if_def)
      qed
      moreover have "z = v" using z by (auto simp: after_candidate_def)
      ultimately show ?thesis using used_and_returned [OF f] by (auto simp: framed_if_def)
    qed
  qed
qed

lemma frame_run_stuple:
  assumes "act_frame (framed W) run"
  shows "act_frame (framed_if W old) (run_stuple run d lin old a)"
  unfolding run_stuple_def
  by (intro fi.frame_rules frame_with_current assms framed_weaken [OF frame_after] framed_weaken [OF frame_effects(7)]
      framed_weaken [OF frame_effects(8)])

lemma frame_run_sorted:
  assumes "act_frame (framed W) run"
  shows "act_frame (framed_if W old) (run_sorted run p d lin old x)"
proof -
  have "act_frame (framed_if W old) (run_sorted_stuple run d lin old a)" for a
    unfolding run_sorted_stuple_def
    by (intro fi.frame_rules frame_with_current assms framed_weaken [OF frame_after] framed_weaken [OF frame_effects(7)]
        framed_weaken [OF frame_effects(8)])
  then show ?thesis by (cases x) (simp_all add: run_sorted_def frame_run_leaf assms)
qed

lemma frame_or_no_return: "act_frame (framed_if W old) m \<Longrightarrow> act_frame (framed_if W old) (or_no_return m)"
  unfolding or_no_return_def by (intro fi.frame_rules)

lemma frame_otherwise:
  "act_frame (framed_if W old) m \<Longrightarrow> act_frame (framed_if W old) n \<Longrightarrow> act_frame (framed_if W old) (otherwise m n)"
proof -
  assume m: "act_frame (framed_if W old) m" and n: "act_frame (framed_if W old) n"
  have "act_frame (framed_if W old) (case r of Some ret \<Rightarrow> act_return (Some ret) | None \<Rightarrow> n)" for r
    using n by (cases r) (simp_all only: option.case fi.frame_return)
  with m show ?thesis unfolding otherwise_def by (rule fi.frame_bind)
qed

lemma frame_iterate_sorted:
  assumes "act_frame (framed W) run"
  shows "act_frame (framed_if W old) (iterate_sorted env so k run pc d i p lin old js)"
  unfolding iterate_sorted_def collect_everything_def
  by (intro fi.frame_rules frame_or_no_return frame_first frame_run_sorted assms framed_weaken [OF frame_stuple_matches]
      framed_weaken [OF frame_local_candidate])

lemma frame_iterate_plain:
  assumes "act_frame (framed W) run"
  shows "act_frame (framed_if W old) (iterate_plain env so k run pc d rnd p lin old js)"
  unfolding iterate_plain_def run_queued_def run_local_def
  by (intro fi.frame_rules frame_or_no_return frame_otherwise frame_first frame_run_leaf frame_run_stuple assms
      framed_weaken [OF frame_effects(14)] framed_weaken [OF frame_stuple_matches] framed_weaken [OF frame_local_candidate])

lemma frame_execute_iter:
  assumes "act_frame (framed W) run"
  shows "act_frame (framed W) (execute_iter env so k run pc o1 o2 js p)"
  unfolding execute_iter_def Let_def
  by (intro framed_if_all fi.frame_rules frame_iterate_plain frame_iterate_sorted assms framed_weaken [OF frame_effects(14)])

section \<open>The interpreter\<close>

lemma frame_go_on: "act_frame (framed W) (go_on env pc)"
  unfolding go_on_def by (intro frame_basic)

lemma frame_reset_linear:
  assumes "\<And>q. act_frame (framed W) (run q)"
  shows "act_frame (framed W) (execute_reset_linear env run pc)"
proof (rule act_frameI)
  fix s x t assume "execute_reset_linear env run pc s = Some (Inr (x, t))"
  then obtain u ret where u: "run (pc + 5) (s\<lparr>vs_is_linear := False\<rparr>) = Some (Inr (ret, u))"
    and t: "t = u\<lparr>vs_is_linear := vs_is_linear s\<rparr>"
    unfolding execute_reset_linear_def
    by (auto simp: act_assert_def elim!: act_bind_InrE act_then_InrE split: if_splits)
  from act_frameD [OF assms u] show "framed W s t" by (auto simp: t framed_def kept_def uses_kept_def)
qed

lemma frame_execute_instr:
  assumes "\<And>q. act_frame (framed W) (run q)"
  shows "act_frame (framed W) (execute_instr env so k run pc)"
proof -
  have iter: "act_frame (framed W) (execute_iter_instr env so k run pc)"
    unfolding execute_iter_instr_def Let_def
    by (cases "get_predicate (env_prog env) (iter_predicate (env_mem env) pc)")
      (simp_all only: option.case, intro frame_basic, intro frame_basic frame_build_match frame_execute_iter assms)
  have upd: "act_frame (framed W) (act_then (act_update f) (go_on env pc))"
    if "\<And>s t. f s = Inr t \<Longrightarrow> outside s t" for f
    by (intro frame_basic frame_go_on frame_outside that)
  have axs: "act_frame (framed W) (execute_new_axioms env so k pc)"
    by (simp add: execute_new_axioms_def frame_axioms)
  note eff = frame_remove frame_alloc frame_send frame_send_delay frame_delete frame_new_node axs frame_move
  show ?thesis
    unfolding execute_instr_def Let_def
    by (cases "fetch (env_mem env) pc"; simp only: instr_type.case;
        (rule iter frame_reset_linear assms |
         rule upd, erule execute_op_outside execute_small_outside execute_cons_outside execute_tail_outside
           execute_head_outside colocated_outside stack_outside(1,2) call_outside |
         intro frame_basic frame_go_on eff frame_outside(2) stack_outside(3-6))+)
qed

lemma frame_execute: "act_frame (framed W) (execute env so k pc)"
proof (induction k arbitrary: pc)
  case (Suc k)
  have "act_frame (framed W) (case r of Inl ret \<Rightarrow> act_return ret | Inr q \<Rightarrow> execute env so k q)" for r
    by (cases r) (simp_all add: fr.frame_return Suc.IH)
  then show ?case unfolding execute.simps
    by (intro frame_basic frame_outside(2) stack_outside(3-6) frame_execute_instr Suc.IH)
qed (simp add: fr.frame_exhausted)

end

section \<open>What a run keeps\<close>

text \<open>Nothing is asked of the scheduler here.\<close>

interpretation any: sched_contract so "\<lambda>_ _. True" for so :: "'w sched_ops"
  by unfold_locales auto

text \<open>C5: a run of the interpreter that returns leaves the current tuple, the node, the
  iteration flags, the local list and the rules to run exactly as it found them, on every
  path out of every nested run; and a linear fact that was in use with \<open>n\<close> copies left is
  afterwards still recorded, with between zero and \<open>n\<close> copies left: no path gives a copy
  back twice and none takes one that is not there.\<close>

theorem execute_keeps_frame:
  assumes "execute env so k pc s = Some (Inr (ret, t))"
  shows "kept s t \<and>
    (\<forall>l n. used_count l (vs_used s) = Some n \<longrightarrow> 0 \<le>s n \<longrightarrow>
       (\<exists>m. used_count l (vs_used t) = Some m \<and> 0 \<le>s m \<and> m \<le>s n))"
  using act_frameD [OF any.frame_execute assms] unfolding framed_def uses_kept_def
  by (elim conjE, intro conjI) assumption+

text \<open>
  A run of an ITERATE over the two copies of a linear edge, one of which its body consumes
  and returns from within the nested run.
\<close>

definition once_pred :: predicate where
  "once_pred = edge_pred\<lparr>pred_is_linear := True\<rparr>"

definition once_env :: code_env where
  "once_env = example_env (no_rules\<lparr>prog_predicates := [once_pred]\<rparr>) iter_bytes"

definition once_state :: "unit vstate" where
  "once_state =
     (let fact = new_simple_tuple \<lparr>tpl_pred = once_pred, tpl_fields = [FNode 7, FLInt [3, 4]]\<rparr> 2;
          node = set_storage 0 (edge_trie\<lparr>leaves := [(0, fact)]\<rparr>) (new_node no_rules 0 0)
      in (rest_state ((new_database 1)\<lparr>db_nodes := [(0, node)]\<rparr>) ())\<lparr>vs_node := Some 0, vs_used := [((0, 0), 2)]\<rparr>)"

definition took_one :: "('w vstate, return_type) act \<Rightarrow> 'w vstate \<Rightarrow> bool" where
  "took_one m s \<longleftrightarrow> (case m s of Some (Inr (r, t)) \<Rightarrow> r = RETURN_LINEAR \<and> used_count (0, 0) (vs_used t) = Some 1 | _ \<Rightarrow> False)"

lemma once_runs: "took_one (execute once_env quiet_sched 2 0) once_state"
  by code_simp

theorem execute_keeps_frame_witness:
  "\<exists>t. execute once_env quiet_sched 2 0 once_state = Some (Inr (RETURN_LINEAR, t)) \<and> kept once_state t \<and>
     used_count (0, 0) (vs_used once_state) = Some 2 \<and> used_count (0, 0) (vs_used t) = Some 1"
proof -
  obtain t where t: "execute once_env quiet_sched 2 0 once_state = Some (Inr (RETURN_LINEAR, t))" "used_count (0, 0) (vs_used t) = Some 1"
    using once_runs by (auto simp: took_one_def split: option.splits sum.splits)
  have u: "used_count (0, 0) (vs_used once_state) = Some 2" by (simp add: once_state_def Let_def)
  moreover have "0 \<le>s (2 :: 16 word)" by (simp add: word_sle_eq)
  ultimately have "kept once_state t \<and> (\<exists>m. used_count (0, 0) (vs_used t) = Some m \<and> 0 \<le>s m \<and> m \<le>s 2)"
    using execute_keeps_frame [OF t(1)] by blast
  with t u show ?thesis by blast
qed

end
