(* ===== verification/Vm_Run_Rules.thy ===== *)
theory Vm_Run_Rules
  imports Vm_Run Vm_Exec_Frame
begin

text \<open>
  Which rules run at a node. The flags in \<open>rules\<close> and the heap \<open>rule_queue\<close> say the same
  thing as long as no run is cut short, every node leaves both empty, and a tuple that
  waits together with its retraction disappears with it.
\<close>

section \<open>Flags and queue\<close>

definition rules_queued :: "'w vstate \<Rightarrow> bool" where
  "rules_queued s \<longleftrightarrow> distinct (map data (vs_rule_queue s)) \<and>
     (\<forall>r. vs_rules s r \<longleftrightarrow> r \<in> set (map data (vs_rule_queue s)))"

definition rules_same :: "('w \<Rightarrow> 'w \<Rightarrow> bool) \<Rightarrow> 'w vstate \<Rightarrow> 'w vstate \<Rightarrow> bool" where
  "rules_same W s t \<longleftrightarrow> vs_rules t = vs_rules s \<and> vs_rule_queue t = vs_rule_queue s \<and>
     vs_sim_use t = vs_sim_use s \<and> vs_sim_limit t = vs_sim_limit s \<and> W (vs_sched s) (vs_sched t)"

definition queue_kept :: "('w \<Rightarrow> 'w \<Rightarrow> bool) \<Rightarrow> 'w vstate \<Rightarrow> 'w vstate \<Rightarrow> bool" where
  "queue_kept W s t \<longleftrightarrow>
     (rules_queued s \<longrightarrow> rules_queued t) \<and> vs_sim_use t = vs_sim_use s \<and> W (vs_sched s) (vs_sched t)"

definition sched_kept :: "('w \<Rightarrow> 'w \<Rightarrow> bool) \<Rightarrow> 'w vstate \<Rightarrow> 'w vstate \<Rightarrow> bool" where
  "sched_kept W s t \<longleftrightarrow> W (vs_sched s) (vs_sched t)"

sublocale sched_contract \<subseteq> rs: state_order "rules_same W"
  by unfold_locales (auto simp: rules_same_def W_refl intro: W_trans)

sublocale sched_contract \<subseteq> qk: state_order "queue_kept W"
  by unfold_locales (auto simp: queue_kept_def W_refl intro: W_trans)

sublocale sched_contract \<subseteq> sk: state_order "sched_kept W"
  by unfold_locales (auto simp: sched_kept_def W_refl intro: W_trans)

text \<open>While a node runs, the scheduler also hands over the tuples that wait at it.\<close>

locale node_contract = sched_contract +
  fixes no :: node_val
  assumes W_gather_next: "sd_gather_next so no w = Inr (as, w') \<Longrightarrow> W w w'"
    and W_tuples_until: "sd_tuples_until so no l w = Inr (as, w') \<Longrightarrow> W w w'"
    and W_push_pending: "sd_push_pending so no a w = Inr w' \<Longrightarrow> W w w'"

lemma rules_queued_cong: "rules_same W s t \<Longrightarrow> rules_queued t \<longleftrightarrow> rules_queued s"
  by (simp add: rules_same_def rules_queued_def)

section \<open>The queue with a rule less or more\<close>

lemma pop_rule_elements:
  "hq_pop ht h = Inr (r, q) \<Longrightarrow> mset (map data h) = add_mset r (mset (map data q))"
  using pop_mset [of h "hq_le ht"] by (auto simp: hq_pop_def Let_def image_mset_Diff split: if_splits)

lemma remove_by_index_elements:
  assumes "i < length h"
  shows "mset (hq_remove_by_index ht h i) = mset h - {#h ! i#}"
proof -
  obtain ys x where h: "h = ys @ [x]" using assms by (cases h rule: rev_cases) auto
  show ?thesis
    using assms h by (auto simp: hq_remove_by_index_def Let_def heapifydown_mset mset_update nth_append)
qed

lemma remove_loop_elements:
  "hq_remove_loop ht v p h i r s b = Inr q \<Longrightarrow> \<exists>x. data x = v \<and> x \<in># mset h \<and> mset q = mset h - {#x#}"
proof (induction ht v p h i r s b rule: hq_remove_loop.induct)
  case (1 ht v p h i r s b)
  show ?case
  proof (cases "i < length h \<and> data (h ! i) = v")
    case True
    with "1.prems" have "q = hq_remove_by_index ht h i" by (simp add: hq_remove_loop.simps)
    with True show ?thesis by (intro exI [of _ "h ! i"]) (simp add: remove_by_index_elements)
  next
    case False
    with 1 show ?thesis by (auto simp: hq_remove_loop.simps [of ht v p h i] Let_def split: if_splits)
  qed
qed

lemma remove_elements:
  assumes "hq_remove ht v p h = Inr q"
  shows "mset (map data h) = add_mset v (mset (map data q))"
proof -
  obtain x where "data x = v" "x \<in># mset h" "mset q = mset h - {#x#}"
    using remove_loop_elements [OF assms [unfolded hq_remove_def]] by blast
  then show ?thesis by (auto simp: image_mset_Diff)
qed

text \<open>A queue with one rule more or less.\<close>

lemma queued_less:
  assumes "rules_queued s" and "mset (map data (vs_rule_queue s)) = add_mset r (mset (map data q))"
    and "vs_rule_queue t = q" and "vs_rules t = (vs_rules s)(r := False)"
  shows "rules_queued t"
proof -
  have d: "distinct (r # map data q)"
    using assms(1,2) mset_eq_imp_distinct_iff [of "map data (vs_rule_queue s)" "r # map data q"] by (simp add: rules_queued_def)
  have "set (map data (vs_rule_queue s)) = insert r (set (map data q))"
    using assms(2) mset_eq_setD [of "map data (vs_rule_queue s)" "r # map data q"] by simp
  with d assms show ?thesis by (auto simp: rules_queued_def)
qed

lemma queued_more:
  assumes "rules_queued s" and "mset (map data q) = add_mset r (mset (map data (vs_rule_queue s)))" and "\<not> vs_rules s r"
    and "vs_rule_queue t = q" and "vs_rules t = (vs_rules s)(r := True)"
  shows "rules_queued t"
proof -
  have "set (map data q) = insert r (set (map data (vs_rule_queue s)))"
    using assms(2) mset_eq_setD [of "map data q" "r # map data (vs_rule_queue s)"] by simp
  moreover have "distinct (map data q)"
    using assms(1-3) mset_eq_imp_distinct_iff [of "map data q" "r # map data (vs_rule_queue s)"] by (simp add: rules_queued_def)
  ultimately show ?thesis using assms by (auto simp: rules_queued_def)
qed

section \<open>What does not concern the rules\<close>

context sched_contract
begin

lemma same_of_frame: "act_frame (framed W) m \<Longrightarrow> act_frame (rules_same W) m"
  by (auto simp: act_frame_def framed_def kept_def rules_same_def)

lemma kept_of_same: "act_frame (rules_same W) m \<Longrightarrow> act_frame (queue_kept W) m"
  by (auto simp: act_frame_def queue_kept_def dest!: rules_queued_cong) (auto simp: rules_same_def)

lemmas same_effects = frame_effects [THEN same_of_frame] frame_matcher [THEN same_of_frame]
  frame_run_action [THEN same_of_frame] frame_route_self [THEN same_of_frame]

lemma same_modify:
  "(\<And>s. vs_rules (f s) = vs_rules s \<and> vs_rule_queue (f s) = vs_rule_queue s \<and>
      vs_sim_use (f s) = vs_sim_use s \<and> vs_sim_limit (f s) = vs_sim_limit s \<and> vs_sched (f s) = vs_sched s) \<Longrightarrow> act_frame (rules_same W) (act_modify f)"
  by (rule rs.frame_modify) (simp add: rules_same_def)

lemma same_setup: "act_frame (rules_same W) (vm_setup t n c)"
  unfolding vm_setup_def by (intro rs.frame_rules same_modify) simp

lemma same_do_execute: "act_frame (rules_same W) (do_execute env so k pc)"
  unfolding do_execute_def assert_empty_stack_def cleanup_def
  by (intro rs.frame_rules same_modify same_of_frame [OF frame_execute]) simp

lemma same_bytecode: "act_frame (rules_same W) (execute_bytecode env so k pc)"
  unfolding execute_bytecode_def unmark_generated_tuples_def
  by (intro rs.frame_rules same_do_execute same_effects same_modify) simp

lemma same_run_predicate: "act_frame (rules_same W) (run_predicate env so k t c p)"
  unfolding run_predicate_def by (intro rs.frame_rules same_setup same_bytecode same_modify) simp

lemma same_process: "act_frame (rules_same W) (process_persistent_tuple env so k a st tp)"
  unfolding process_persistent_tuple_def process_positive_def process_negative_def add_fact_to_node_def Let_def
  by (intro rs.frame_rules same_run_predicate same_effects)

lemma same_search: "act_frame (rules_same W) (search_for_negative w tp)"
  unfolding search_for_negative_def
  by (rule rs.frame_step) (auto simp: rules_same_def elim!: res_bind_pairE)

lemma same_meets: "act_frame (rules_same W) (meets_negative st tp)"
  unfolding meets_negative_def search_for_negative_tuple_full_agg_def search_for_negative_tuple_partial_agg_def
    search_for_negative_tuple_normal_def
  by (intro rs.frame_rules same_search)

lemma same_aggregate: "act_frame (rules_same W) (add_to_aggregate env st tp)"
proof -
  have "act_frame (rules_same W) (set_as_aggregate a)" for a
    unfolding set_as_aggregate_def
    by (rule rs.frame_update) (auto dest!: put_stuple_outside simp: outside_def kept_def rules_same_def)
  then show ?thesis
    unfolding add_to_aggregate_def push_final_def Let_def by (intro rs.frame_rules same_effects)
qed

lemma same_persistent_tuple: "act_frame (rules_same W) (do_persistent_tuple env so k a)"
  unfolding do_persistent_tuple_def
  by (intro rs.frame_rules same_meets same_process same_aggregate same_modify) simp

lemma same_persistent_loop: "act_frame (rules_same W) (persistent_loop env so k m)"
proof (induction m)
  case (Suc m)
  have "act_frame (rules_same W) (case as of [] \<Rightarrow> act_return True
      | a # as' \<Rightarrow> if b then act_return False else act_then (do_persistent_tuple env so k a) (persistent_loop env so k m))"
    for as b
    by (cases as) (simp_all only: list.case, intro rs.frame_rules, intro rs.frame_rules same_persistent_tuple Suc.IH)
  then show ?case unfolding persistent_loop.simps by (intro rs.frame_bind rs.frame_get)
qed (simp only: persistent_loop.simps rs.frame_exhausted)

lemma same_persistent_tuples: "act_frame (rules_same W) (do_persistent_tuples env so k)"
  unfolding do_persistent_tuples_def delete_marked_leaf_def
  by (intro rs.frame_rules same_persistent_loop same_effects same_modify) simp

lemma same_local: "act_frame (rules_same W) (mark_rules_using_local_tuples env so)"
  unfolding mark_rules_using_local_tuples_def sort_local_tuple_def Let_def
  by (intro rs.frame_rules same_effects same_modify) simp

lemma same_consumed: "act_frame (rules_same W) (process_consumed_local_tuples env)"
  unfolding process_consumed_local_tuples_def process_consumed_local_tuple_def
  by (intro rs.frame_rules same_effects same_modify) simp

lemma same_others: "act_frame (rules_same W) (process_others env so)"
  unfolding process_others_def by (intro rs.frame_rules same_effects same_modify) simp

lemma same_start: "act_frame (rules_same W) start_matching"
  unfolding start_matching_def by (intro same_modify) simp

end

section \<open>What does\<close>

context node_contract
begin

lemma same_gather:
  "(\<And>w as w'. f w = Inr (as, w') \<Longrightarrow> W w w') \<Longrightarrow> act_frame (rules_same W) (gather_into_local f)"
  unfolding gather_into_local_def by (rule rs.frame_update) (auto simp: rules_same_def elim!: res_bind_pairE)

lemma same_gathers:
  "act_frame (rules_same W) (gather_into_local (sd_gather_next so no))"
  "act_frame (rules_same W) (gather_into_local (sd_tuples_until so no l))"
  by (auto intro: same_gather W_gather_next W_tuples_until)

lemma same_pending: "act_frame (rules_same W) (push_pending so no a)"
  unfolding push_pending_def by (auto intro: same_of_frame frame_sched W_push_pending)

lemma same_settle: "act_frame (rules_same W) (settle_tuple env so no b a)"
  unfolding settle_tuple_def wipeout_def add_fact_to_node_def by (intro rs.frame_rules same_effects same_pending)

lemma queued_insert:
  assumes "\<not> vs_rules s r"
  shows "queue_kept W s (s\<lparr>vs_rules := (vs_rules s)(r := True), vs_rule_queue := hq_insert ht r p (vs_rule_queue s)\<rparr>)"
proof -
  have "rules_queued (s\<lparr>vs_rules := (vs_rules s)(r := True), vs_rule_queue := hq_insert ht r p (vs_rule_queue s)\<rparr>)"
    if "rules_queued s"
    by (rule queued_more [OF that, of _ r]) (simp_all add: hq_insert_mset assms)
  then show ?thesis by (simp add: queue_kept_def)
qed

lemma kept_mark_active: "act_frame (queue_kept W) (mark_active_rule env r)"
  unfolding mark_active_rule_def
  by (rule qk.frame_update) (auto elim!: res_bind_InrE intro: queued_insert qk.refl split: if_splits)

lemma kept_unmark: "act_frame (queue_kept W) (unmark_dropped_rule r)"
  unfolding unmark_dropped_rule_def
  by (rule qk.frame_update)
    (auto simp: queue_kept_def elim!: res_bind_InrE split: if_splits intro: queued_less [OF _ remove_elements])

lemma kept_pop: "act_frame (queue_kept W) pop_rule"
  unfolding pop_rule_def
  by (rule qk.frame_step) (auto simp: queue_kept_def elim!: res_bind_pairE intro: queued_less [OF _ pop_rule_elements])

lemma kept_mark_rules: "act_frame (queue_kept W) (mark_active_rules env)"
  unfolding mark_active_rules_def by (intro qk.frame_rules kept_mark_active kept_unmark)

lemma kept_apply: "act_frame (queue_kept W) (apply_rule env so k no)"
  unfolding apply_rule_def clear_dropped_def Vm_Exec.execute_rule_def
  by (intro qk.frame_rules kept_pop kept_of_same same_effects same_start same_setup same_do_execute same_consumed
      same_gathers same_modify) simp_all

lemma kept_one_rule: "act_frame (queue_kept W) (run_one_rule env so k no)"
  unfolding run_one_rule_def by (intro qk.frame_then kept_apply kept_of_same same_persistent_tuples)

lemma kept_rules: "act_frame (queue_kept W) (run_rules env so k no m)"
proof (induction m)
  case (Suc m)
  then show ?case unfolding run_rules.simps by (intro qk.frame_rules kept_one_rule kept_mark_rules)
qed (simp only: run_rules.simps qk.frame_exhausted)

lemma kept_first: "act_frame (queue_kept W) (first_rules env so k)"
  unfolding first_rules_def by (intro qk.frame_rules kept_of_same [OF same_persistent_tuples] kept_mark_rules)

lemma kept_arrive: "act_frame (queue_kept W) (arrive_at_node env so no)"
  unfolding arrive_at_node_def
  by (intro kept_of_same rs.frame_rules same_gathers same_start same_local same_modify) simp_all

text \<open>The whole run of a node.\<close>

lemma sched_of_same: "act_frame (rules_same W) m \<Longrightarrow> act_frame (sched_kept W) m"
  by (auto simp: act_frame_def rules_same_def sched_kept_def)

lemma sched_of_kept: "act_frame (queue_kept W) m \<Longrightarrow> act_frame (sched_kept W) m"
  by (auto simp: act_frame_def queue_kept_def sched_kept_def)

lemma sched_modify: "(\<And>s. vs_sched (f s) = vs_sched s) \<Longrightarrow> act_frame (sched_kept W) (act_modify f)"
  by (rule sk.frame_modify) (simp add: sched_kept_def W_refl)

lemma sched_leave: "act_frame (sched_kept W) (leave_node env so no b)"
  unfolding leave_node_def leave_pending_def
  by (intro sk.frame_rules sched_of_same [OF same_settle] sched_of_same [OF same_others] sched_of_same [OF same_pending]
      sched_modify) simp_all

lemma sched_run_node: "act_frame (sched_kept W) (run_node env so k no)"
  unfolding run_node_def
  by (intro sk.frame_rules sched_leave sched_of_kept [OF kept_arrive] sched_of_kept [OF kept_first] sched_of_kept [OF kept_rules])

end

text \<open>The rules are scheduled alike whatever the scheduler does.\<close>

interpretation any_node: node_contract so "\<lambda>_ _. True" no for so :: "'w sched_ops" and no
  by unfold_locales auto

abbreviation rules_kept :: "'w vstate \<Rightarrow> 'w vstate \<Rightarrow> bool" where
  "rules_kept \<equiv> rules_same (\<lambda>_ _. True)"

abbreviation queue_same :: "'w vstate \<Rightarrow> 'w vstate \<Rightarrow> bool" where
  "queue_same \<equiv> queue_kept (\<lambda>_ _. True)"

section \<open>Without a limit on the instructions\<close>

lemma no_limit: "\<not> vs_sim_use s \<Longrightarrow> \<not> check_instruction_limit s"
  by (simp add: check_instruction_limit_def)

lemma same_sim: "act_frame rules_kept m \<Longrightarrow> m s = Some (Inr (x, t)) \<Longrightarrow> vs_sim_use t = vs_sim_use s"
  by (auto dest: act_frameD simp: rules_same_def)

lemma kept_sim: "act_frame queue_same m \<Longrightarrow> m s = Some (Inr (x, t)) \<Longrightarrow> vs_sim_use t = vs_sim_use s"
  by (auto dest: act_frameD simp: queue_kept_def)

lemma persistent_loop_done:
  "persistent_loop env so k m s = Some (Inr (b, t)) \<Longrightarrow> \<not> vs_sim_use s \<Longrightarrow> b \<and> vs_persistent t = []"
proof (induction m arbitrary: s)
  case (Suc m)
  show ?case
  proof (cases "vs_persistent s")
    case Nil
    with Suc.prems show ?thesis by simp
  next
    case (Cons a as)
    with Suc.prems no_limit [of s] obtain u where u: "do_persistent_tuple env so k a s = Some (Inr ((), u))"
      and t: "persistent_loop env so k m u = Some (Inr (b, t))"
      by (auto elim: act_then_InrE)
    from same_sim [OF any.same_persistent_tuple u] Suc.prems(2) have "\<not> vs_sim_use u" by simp
    from Suc.IH [OF t this] show ?thesis .
  qed
qed simp

lemma persistent_tuples_done:
  "do_persistent_tuples env so k s = Some (Inr (b, t)) \<Longrightarrow> \<not> vs_sim_use s \<Longrightarrow> b"
  unfolding do_persistent_tuples_def
  by (auto elim!: act_bind_InrE act_then_InrE dest: persistent_loop_done split: if_splits)

lemma one_rule_done:
  assumes "run_one_rule env so k no s = Some (Inr (b, t))" and "\<not> vs_sim_use s"
  shows b
proof -
  obtain u where u: "apply_rule env so k no s = Some (Inr ((), u))"
    and t: "do_persistent_tuples env so k u = Some (Inr (b, t))"
    using assms(1) by (auto simp only: run_one_rule_def elim: act_then_InrE)
  from kept_sim [OF any_node.kept_apply u] assms(2) have "\<not> vs_sim_use u" by simp
  with t show b by (rule persistent_tuples_done)
qed

lemma run_rules_done:
  "run_rules env so k no m s = Some (Inr (b, t)) \<Longrightarrow> \<not> vs_sim_use s \<Longrightarrow> \<not> b \<and> vs_rule_queue t = []"
proof (induction m arbitrary: s)
  case (Suc m)
  show ?case
  proof (cases "vs_rule_queue s = []")
    case True
    with Suc.prems show ?thesis by simp
  next
    case False
    with Suc.prems no_limit [of s] obtain ok u where u: "run_one_rule env so k no s = Some (Inr (ok, u))"
      and v: "(if \<not> ok then act_return True else act_then (mark_active_rules env) (run_rules env so k no m)) u
        = Some (Inr (b, t))"
      by (auto elim!: act_bind_InrE)
    from one_rule_done [OF u Suc.prems(2)] v obtain w where w: "mark_active_rules env u = Some (Inr ((), w))"
      and t: "run_rules env so k no m w = Some (Inr (b, t))"
      by (auto elim: act_then_InrE)
    have "\<not> vs_sim_use w" using kept_sim [OF any_node.kept_one_rule u] kept_sim [OF any_node.kept_mark_rules w] Suc.prems(2) by simp
    from Suc.IH [OF t this] show ?thesis .
  qed
qed simp

section \<open>A node at rest\<close>

definition lists_same :: "'w vstate \<Rightarrow> 'w vstate \<Rightarrow> bool" where
  "lists_same s t \<longleftrightarrow> rules_kept s t \<and> vs_local t = vs_local s \<and> vs_other t = vs_other s"

interpretation ls: state_order lists_same
  by unfold_locales (auto simp: lists_same_def rules_same_def)

lemma lists_sched: "act_frame lists_same (sched_update f)"
  unfolding sched_update_def by (rule ls.frame_update) (auto simp: lists_same_def rules_same_def elim!: res_bind_InrE)

lemma lists_clocked: "act_frame lists_same (sched_clocked f)"
  unfolding sched_clocked_def by (intro ls.frame_rules lists_sched)

lemma lists_route: "act_frame lists_same (route_self env so n a d)"
  unfolding route_self_def by (intro ls.frame_rules lists_clocked)

lemma process_others_done:
  assumes "process_others env so s = Some (Inr ((), t))"
  shows "rules_kept s t \<and> vs_local t = vs_local s \<and> vs_other t = []"
proof -
  obtain n u where u: "act_each (\<lambda>a. route_self env so n a 0) (vs_other s) s = Some (Inr ((), u))" and t: "t = u\<lparr>vs_other := []\<rparr>"
    using assms by (auto simp: process_others_def act_read_def res_bind_Inr_iff elim!: act_bind_InrE act_then_InrE)
  have "act_frame lists_same (act_each (\<lambda>a. route_self env so n a 0) (vs_other s))" by (intro ls.frame_each lists_route)
  from act_frameD [OF this u] t show ?thesis by (simp add: lists_same_def rules_same_def)
qed

lemma leave_pending_done:
  assumes "leave_pending so no b s = Some (Inr ((), t))"
  shows "lists_same s t \<and> vs_persistent t = []"
proof -
  obtain u where u: "act_each (push_pending so no) (vs_persistent s) s = Some (Inr ((), u))"
    and t: "lists_same u t" "vs_persistent t = []"
    using assms by (auto simp: leave_pending_def act_assert_def lists_same_def rules_same_def elim!: act_bind_InrE act_then_InrE
      split: if_splits)
  have "act_frame lists_same (act_each (push_pending so no) (vs_persistent s))"
    unfolding push_pending_def by (intro ls.frame_each lists_sched)
  from ls.trans [OF act_frameD [OF this u] t(1)] t(2) show ?thesis by blast
qed

lemma leave_node_done:
  assumes "leave_node env so no b s = Some (Inr ((), t))"
  shows "vs_rule_queue t = [] \<and> vs_rules t = vs_rules s \<and> vs_local t = [] \<and> vs_other t = [] \<and> vs_persistent t = []"
proof -
  obtain u v where u: "act_each (settle_tuple env so no b) (vs_local s) s = Some (Inr ((), u))"
    and v: "process_others env so (u\<lparr>vs_local := [], vs_rule_queue := []\<rparr>) = Some (Inr ((), v))"
    and t: "leave_pending so no b v = Some (Inr ((), t))"
    using assms by (auto simp: leave_node_def elim!: act_bind_InrE act_then_InrE)
  have "act_frame rules_kept (act_each (settle_tuple env so no b) (vs_local s))" by (intro any.rs.frame_each any_node.same_settle)
  from act_frameD [OF this u] process_others_done [OF v] leave_pending_done [OF t] show ?thesis
    by (simp add: lists_same_def rules_same_def)
qed

text \<open>C16: running a node without a limit on the instructions leaves no rule marked or queued
  and no tuple waiting in the state, so the next node starts from an empty agenda; every
  rule that was flagged on the way was in the queue and has run or was dropped.\<close>

theorem run_node_empties_agenda:
  assumes run: "run_node env so k no s = Some (Inr ((), t))" and "rules_queued s" and "\<not> vs_sim_use s"
  shows "vs_rule_queue t = [] \<and> (\<forall>r. \<not> vs_rules t r) \<and> vs_local t = [] \<and> vs_persistent t = [] \<and> vs_other t = []"
proof -
  obtain u ok v b w where u: "arrive_at_node env so no s = Some (Inr ((), u))"
    and v: "first_rules env so k u = Some (Inr (ok, v))"
    and w: "(if ok then run_rules env so k no k else act_return True) v = Some (Inr (b, w))"
    and t: "leave_node env so no b w = Some (Inr ((), t))"
    using run unfolding run_node_def by (elim act_then_InrE act_bind_InrE) blast
  have q: "queue_same s v" using act_frameD [OF any_node.kept_arrive u] act_frameD [OF any_node.kept_first v] by (rule any.qk.trans)
  then have sv: "\<not> vs_sim_use v" and "\<not> vs_sim_use u" and "rules_queued v"
    using assms act_frameD [OF any_node.kept_arrive u] by (auto simp: queue_kept_def)
  with v have ok unfolding first_rules_def
    by (auto elim!: act_bind_InrE act_then_InrE dest: persistent_tuples_done split: if_splits)
  with w have w': "run_rules env so k no k v = Some (Inr (b, w))" by simp
  have "rules_queued w" using act_frameD [OF any_node.kept_rules w'] \<open>rules_queued v\<close> by (simp add: queue_kept_def)
  moreover have "vs_rule_queue w = []" using run_rules_done [OF w' sv] by simp
  ultimately have "\<forall>r. \<not> vs_rules w r" by (simp add: rules_queued_def)
  with leave_node_done [OF t] show ?thesis by simp
qed

section \<open>A run that is cut short\<close>

text \<open>
  When the limit is reached, \<open>run_node\<close> clears the queue but not the flags. A rule that is
  flagged and not queued stays so: marking the active rules never queues it again, and
  dropping it fails an assertion of the heap.
\<close>

definition lost_rule :: "rule_id \<Rightarrow> 'w vstate \<Rightarrow> bool" where
  "lost_rule r s \<longleftrightarrow> vs_rules s r \<and> r \<notin> set (map data (vs_rule_queue s))"

lemma hq_insert_elements: "set (map data (hq_insert ht r p h)) = insert r (set (map data h))"
proof -
  have "mset (map data (hq_insert ht r p h)) = mset (r # map data h)" by (simp add: hq_insert_mset)
  from mset_eq_setD [OF this] show ?thesis by simp
qed

lemma lost_mark:
  assumes "lost_rule r s" and "mark_active_rule env q s = Some (Inr ((), t))"
  shows "lost_rule r t"
proof (cases "vs_rules s q")
  case True
  with assms show ?thesis by (simp add: mark_active_rule_def act_update_def)
next
  case False
  with assms have "q \<noteq> r" by (auto simp: lost_rule_def)
  moreover have "t = s \<or> t = s\<lparr>vs_rules := (vs_rules s)(q := True),
      vs_rule_queue := hq_insert HEAP_INT_ASC q (rule_priority q) (vs_rule_queue s)\<rparr>"
    using assms(2) False unfolding mark_active_rule_def act_update_def
    by (auto elim!: res_bind_InrE split: if_splits)
  ultimately show ?thesis using assms(1) hq_insert_elements [of HEAP_INT_ASC q "rule_priority q" "vs_rule_queue s"]
    by (auto simp: lost_rule_def)
qed

lemma lost_unmark:
  assumes "lost_rule r s" and "unmark_dropped_rule q s = Some (Inr ((), t))"
  shows "lost_rule r t"
proof (cases "vs_rules s q")
  case False
  with assms show ?thesis by (simp add: unmark_dropped_rule_def act_update_def)
next
  case True
  with assms(2) obtain h where h: "hq_remove HEAP_INT_ASC q (rule_priority q) (vs_rule_queue s) = Inr h"
    and t: "t = s\<lparr>vs_rules := (vs_rules s)(q := False), vs_rule_queue := h\<rparr>"
    unfolding unmark_dropped_rule_def act_update_def by (auto elim!: res_bind_InrE)
  have "mset (map data (vs_rule_queue s)) = mset (q # map data h)" using remove_elements [OF h] by simp
  from mset_eq_setD [OF this] have "set (map data (vs_rule_queue s)) = insert q (set (map data h))" by simp
  with assms(1) t show ?thesis by (auto simp: lost_rule_def)
qed

lemma lost_each:
  assumes "\<And>i s t. lost_rule r s \<Longrightarrow> f i s = Some (Inr ((), t)) \<Longrightarrow> lost_rule r t"
  shows "lost_rule r s \<Longrightarrow> act_each f is s = Some (Inr ((), t)) \<Longrightarrow> lost_rule r t"
  by (induction "is" arbitrary: s) (auto elim!: act_then_InrE dest: assms)

lemma lost_for_good:
  assumes "lost_rule r s" and "mark_active_rules env s = Some (Inr ((), t))"
  shows "lost_rule r t"
proof -
  obtain n :: db_node where "act_then (act_each (mark_active_rule env) (rules_of_set env (active_rules (nd_matcher n))))
      (act_each unmark_dropped_rule (rules_of_set env (dropped_rules (nd_matcher n)))) s = Some (Inr ((), t))"
    using assms(2) unfolding mark_active_rules_def act_read_def by (auto elim!: act_bind_InrE simp: res_bind_Inr_iff)
  then obtain u where u: "act_each (mark_active_rule env) (rules_of_set env (active_rules (nd_matcher n))) s = Some (Inr ((), u))"
    and t: "act_each unmark_dropped_rule (rules_of_set env (dropped_rules (nd_matcher n))) u = Some (Inr ((), t))"
    by (rule act_then_InrE)
  have "lost_rule r u" by (rule lost_each [OF _ assms(1) u]) (rule lost_mark)
  then show ?thesis by (rule lost_each [OF _ _ t, rotated]) (rule lost_unmark)
qed

text \<open>Every rule still queued when the node is left is lost.\<close>

lemma cut_short_loses:
  assumes "rules_queued s" and "r \<in> set (map data (vs_rule_queue s))" and "leave_node env so no b s = Some (Inr ((), t))"
  shows "lost_rule r t"
  using leave_node_done [OF assms(3)] assms(1,2) by (simp add: lost_rule_def rules_queued_def)

text \<open>
  The linear tuples that the code of a predicate derives are dropped with the list it
  leaves, before they could become local, though the matcher has counted them.
\<close>

lemma bytecode_drops_generated:
  "execute_bytecode env so k pc s = Some (Inr (x, t)) \<Longrightarrow> vs_generated t = []"
  unfolding execute_bytecode_def unmark_generated_tuples_def
  by (auto elim!: act_bind_InrE act_then_InrE)

section \<open>A fact and its retraction\<close>

lemma take_negative_hit:
  assumes "stuple_at b s = Inr st" and "tuple_at (so_tuple st) s = Inr tp2" and "wanted tp2 st" and "so_count st = - 1"
    and "tuple_eq tp2 tp = Inr True"
    and "\<And>a. a \<in> set as \<Longrightarrow> \<exists>st' tp'. stuple_at a s = Inr st' \<and> tuple_at (so_tuple st') s = Inr tp' \<and>
          (\<not> wanted tp' st' \<or> so_count st' \<noteq> - 1 \<or> tuple_eq tp' tp = Inr False)"
  shows "take_negative wanted tp (as @ b # bs) s = Inr (Some b, as @ bs)"
  using assms(6)
proof (induction as)
  case Nil
  then show ?case using assms(1-5) by simp
next
  case (Cons a as)
  from Cons.prems [of a] obtain st' tp' where "stuple_at a s = Inr st'" "tuple_at (so_tuple st') s = Inr tp'"
    "\<not> wanted tp' st' \<or> so_count st' \<noteq> - 1 \<or> tuple_eq tp' tp = Inr False" by auto
  moreover have "take_negative wanted tp (as @ b # bs) s = Inr (Some b, as @ bs)" using Cons.prems by (intro Cons.IH) simp
  ultimately show ?case by auto
qed

lemma persistent_irrelevant [simp]:
  "stuple_at a (s\<lparr>vs_persistent := x\<rparr>) = stuple_at a s" "tuple_at t (s\<lparr>vs_persistent := x\<rparr>) = tuple_at t s"
  by (simp_all add: stuple_at_def tuple_at_def leaf_data_def current_node_def split: tref.split option.split)

text \<open>C17: a persistent tuple derived once and, later in the queue, retracted once, disappears
  together with its retraction: nothing but the queue changes, and the first of several
  retractions is the one that is used.\<close>

theorem retraction_cancels:
  assumes "vs_persistent s = a # as @ b # bs"
    and "stuple_at a s = Inr st" and "tuple_at (so_tuple st) s = Inr tp" and "so_count st = 1"
    and "is_persistent_pred (tpl_pred tp)" and "\<not> tuple_is_aggregate tp" and "\<not> so_aggregate st"
    and "stuple_at b s = Inr st2" and "tuple_at (so_tuple st2) s = Inr tp2" and "so_count st2 = - 1"
    and "tpl_pred tp2 = tpl_pred tp" and "tuple_eq tp2 tp = Inr True"
    and others: "\<And>c. c \<in> set as \<Longrightarrow> \<exists>st' tp'. stuple_at c s = Inr st' \<and> tuple_at (so_tuple st') s = Inr tp' \<and>
          (so_count st' \<noteq> - 1 \<or> tuple_eq tp' tp = Inr False)"
  shows "do_persistent_tuple env so k a s = Some (Inr ((), s\<lparr>vs_persistent := as @ bs\<rparr>))"
proof -
  let ?s = "s\<lparr>vs_persistent := as @ b # bs\<rparr>"
  have agg: "\<not> tuple_is_aggregate tp2" using assms(6,11) by (simp add: tuple_is_aggregate_def)
  have hit: "take_negative (\<lambda>tp2 st2. \<not> tuple_is_aggregate tp2) tp (as @ b # bs) ?s = Inr (Some b, as @ bs)"
    using assms(8-12) agg by (intro take_negative_hit) (auto dest: others)
  show ?thesis
    using assms(1-7) hit
    by (simp add: do_persistent_tuple_def act_read_def meets_negative_def search_for_negative_tuple_normal_def
        search_for_negative_def act_assert_def act_step_def act_bind_def act_then_def)
qed

section \<open>Examples\<close>

text \<open>A node where one more edge waits, and a scheduler that hands it over.\<close>

definition one_waiting :: "unit sched_ops" where
  "one_waiting = quiet_sched\<lparr>sd_gather_next := (\<lambda>_ w. Inr ([2], w))\<rparr>"

definition waiting_state :: "unit vstate" where
  "waiting_state = edge_state\<lparr>vs_objs := snd (alloc_stuple (T_Obj 1) 1 (snd (alloc_tuple edge_tuple no_objects)))\<rparr>"

lemma act_ok_code [code]: "act_ok r = (case r of Some (Inr y) \<Rightarrow> True | _ \<Rightarrow> False)"
  by (auto simp: act_ok_def split: option.split sum.split)

lemma waiting_runs: "act_ok (run_node edge_env one_waiting 2 0 waiting_state)"
  by code_simp

lemma waiting_agenda: "rules_queued waiting_state" "\<not> vs_sim_use waiting_state"
  by (simp_all add: rules_queued_def waiting_state_def edge_state_def rest_state_def)

theorem run_node_empties_agenda_witness:
  "\<exists>t. run_node edge_env one_waiting 2 0 waiting_state = Some (Inr ((), t)) \<and> vs_rule_queue t = [] \<and>
     vs_local t = [] \<and> vs_persistent t = []"
  using waiting_runs run_node_empties_agenda [OF _ waiting_agenda, of edge_env one_waiting 2 0]
  by (auto simp: act_ok_def)

text \<open>An edge and its retraction, in the database of an empty node.\<close>

definition cancel_state :: "unit vstate" where
  "cancel_state = edge_state\<lparr>vs_objs :=
       snd (alloc_stuple (T_Obj 1) (- 1) (snd (alloc_stuple (T_Obj 1) 1 (snd (alloc_tuple edge_tuple no_objects))))),
     vs_persistent := [2, 3]\<rparr>"

theorem retraction_cancels_witness:
  "do_persistent_tuple edge_env one_waiting 1 2 cancel_state = Some (Inr ((), cancel_state\<lparr>vs_persistent := []\<rparr>))"
proof -
  have "tuple_eq edge_tuple edge_tuple = Inr True" by code_simp
  then show ?thesis
    using retraction_cancels [of cancel_state 2 "[]" 3 "[]" "\<lparr>so_tuple = T_Obj 1, so_count = 1, so_to_delete = False,
        so_generated = False, so_aggregate = False\<rparr>" edge_tuple]
    by (simp add: cancel_state_def stuple_at_def tuple_at_def alloc_stuple_def alloc_tuple_def no_objects_def
        edge_tuple_def edge_pred_def is_persistent_pred_def tuple_is_aggregate_def)
qed

end
