(* ===== verification/Bounded_Pqueue.thy ===== *)
theory Bounded_Pqueue
  imports Heap_Queue
begin

text \<open>
  The bounded priority queue of \<open>queue/bounded_pqueue.hpp\<close> with the linear queues it is
  built from (\<open>queue/unsafe_linear_queue.hpp\<close>, \<open>queue/simple_linear_pqueue.hpp\<close>) and the
  arithmetic of \<open>utils/utils.hpp\<close>: a complete binary tree with one queue per priority at
  its leaves, where every inner node counts the elements below its left child. It refines
  an array of queues: the first queue that is not empty is the one that is read.
\<close>

section \<open>Powers of two (utils/utils.hpp)\<close>

text \<open>The loops double a \<open>size_t\<close>; above \<open>2^63\<close> it becomes zero and they never end.\<close>

type_synonym usize = "64 word"

partial_function (option) next_power2_loop :: "usize \<Rightarrow> usize \<Rightarrow> usize option" where
  "next_power2_loop v ret = (if ret < v then next_power2_loop v (2 * ret) else Some ret)"

definition next_power2 :: "usize \<Rightarrow> usize option" where
  "next_power2 v = next_power2_loop v 1"

partial_function (option) upper_log2_loop :: "usize \<Rightarrow> usize \<Rightarrow> usize \<Rightarrow> usize option" where
  "upper_log2_loop n m i = (if n \<le> m then Some i else upper_log2_loop n (2 * m) (i + 1))"

definition upper_log2 :: "usize \<Rightarrow> usize option" where
  "upper_log2 n = (if 0 < n then upper_log2_loop n 1 0 else Some (- 1))"

declare next_power2_loop.simps [code] upper_log2_loop.simps [code]

section \<open>The queue\<close>

text \<open>
  A leaf holds its \<open>bin\<close>, an \<open>unsafe_linear_queue\<close>, as the list of its elements; the
  leaves from left to right have the priorities from zero on (\<open>build_tree\<close>). Parents are
  where the tree has them, so climbing from a leaf to the root is a walk down to the leaf.
\<close>

datatype 'a qtree = Bin "'a list" | Count usize "'a qtree" "'a qtree"

fun build_tree :: "nat \<Rightarrow> 'a qtree" where
  "build_tree 0 = Bin []"
| "build_tree (Suc h) = Count 0 (build_tree h) (build_tree h)"

fun num_leaves :: "'a qtree \<Rightarrow> nat" where
  "num_leaves (Bin b) = 1"
| "num_leaves (Count c l r) = num_leaves l + num_leaves r"

text \<open>Append to the queue of a priority and add to the counters on the way where it is to the left.\<close>

fun push_walk :: "'a list \<Rightarrow> usize \<Rightarrow> nat \<Rightarrow> 'a qtree \<Rightarrow> 'a qtree" where
  "push_walk xs n p (Bin b) = Bin (b @ xs)"
| "push_walk xs n p (Count c l r) =
     (if p < num_leaves l then Count (c + n) (push_walk xs n p l) r
      else Count c l (push_walk xs n (p - num_leaves l) r))"

fun top_bin :: "'a qtree \<Rightarrow> 'a list" where
  "top_bin (Bin b) = b"
| "top_bin (Count c l r) = (if 0 < c then top_bin l else top_bin r)"

fun pop_walk :: "'a qtree \<Rightarrow> ('a \<times> 'a qtree) res" where
  "pop_walk (Bin []) = Inl Assert_Failed"
| "pop_walk (Bin (x # b)) = Inr (x, Bin b)"
| "pop_walk (Count c l r) =
     (if 0 < c then res_bind (pop_walk l) (\<lambda>(x, l'). Inr (x, Count (c - 1) l' r))
      else res_bind (pop_walk r) (\<lambda>(x, r'). Inr (x, Count c l r')))"

text \<open>Empty the queue that is on top and take \<open>n\<close> from the counters above it.\<close>

fun clear_walk :: "usize \<Rightarrow> 'a qtree \<Rightarrow> 'a qtree" where
  "clear_walk n (Bin b) = Bin []"
| "clear_walk n (Count c l r) =
     (if 0 < c then Count (c - n) (clear_walk n l) r else Count c l (clear_walk n r))"

record 'a bpqueue =
  bq_root :: "'a qtree"
  bq_total :: usize
  bq_range :: nat

definition new_bpqueue :: "usize \<Rightarrow> 'a bpqueue res option" where
  "new_bpqueue levels =
     (if \<not> 0 < levels then Some (Inl Assert_Failed)
      else case next_power2 levels of
        None \<Rightarrow> None
      | Some number \<Rightarrow>
          (if number < levels then Some (Inl Assert_Failed)
           else case upper_log2 number of
             None \<Rightarrow> None
           | Some h \<Rightarrow> Some (Inr \<lparr>bq_root = build_tree (unat h), bq_total = 0, bq_range = unat levels\<rparr>)))"

definition bq_empty :: "'a bpqueue \<Rightarrow> bool" where
  "bq_empty q \<longleftrightarrow> bq_total q = 0"

definition bq_size :: "'a bpqueue \<Rightarrow> usize" where
  "bq_size q = bq_total q"

definition bq_push :: "'a \<Rightarrow> nat \<Rightarrow> 'a bpqueue \<Rightarrow> 'a bpqueue res" where
  "bq_push x p q =
     (if p < num_leaves (bq_root q)
      then Inr (q\<lparr>bq_root := push_walk [x] 1 p (bq_root q), bq_total := bq_total q + 1\<rparr>)
      else Inl Assert_Failed)"

definition bq_push_queue :: "'a list \<Rightarrow> nat \<Rightarrow> 'a bpqueue \<Rightarrow> 'a bpqueue res" where
  "bq_push_queue xs p q =
     (let n = of_nat (length xs) in
      if 0 < n \<and> p < num_leaves (bq_root q)
      then Inr (q\<lparr>bq_root := push_walk xs n p (bq_root q), bq_total := bq_total q + n\<rparr>)
      else Inl Assert_Failed)"

definition bq_top :: "'a bpqueue \<Rightarrow> 'a res" where
  "bq_top q = (case top_bin (bq_root q) of [] \<Rightarrow> Inl Assert_Failed | x # b \<Rightarrow> Inr x)"

definition bq_pop :: "'a bpqueue \<Rightarrow> ('a \<times> 'a bpqueue) res" where
  "bq_pop q =
     (if bq_empty q then Inl Assert_Failed
      else res_bind (pop_walk (bq_root q)) (\<lambda>(x, t).
        if 0 < bq_total q then Inr (x, q\<lparr>bq_root := t, bq_total := bq_total q - 1\<rparr>) else Inl Assert_Failed))"

text \<open>
  The elements go to the end of the list the caller gives; what is taken from the counters
  is the length of the whole list.
\<close>

definition bq_top_list :: "'a list \<Rightarrow> 'a bpqueue \<Rightarrow> ('a list \<times> 'a bpqueue) res" where
  "bq_top_list vec q =
     (if bq_empty q then Inr (vec, q)
      else case top_bin (bq_root q) of
        [] \<Rightarrow> Inl Assert_Failed
      | x # b \<Rightarrow>
          (let vec' = vec @ x # b; n = of_nat (length vec')
           in Inr (vec', q\<lparr>bq_root := clear_walk n (bq_root q), bq_total := bq_total q - n\<rparr>)))"

section \<open>The queues of a task (queue/simple\_linear\_pqueue.hpp)\<close>

record 'a simple_pqueue =
  sq_queues :: "'a list list"
  sq_total :: usize

definition new_simple_pqueue :: "nat \<Rightarrow> 'a simple_pqueue" where
  "new_simple_pqueue n = \<lparr>sq_queues = replicate n [], sq_total = 0\<rparr>"

definition sq_push :: "'a \<Rightarrow> nat \<Rightarrow> 'a simple_pqueue \<Rightarrow> 'a simple_pqueue res" where
  "sq_push x p s =
     (if p < length (sq_queues s)
      then Inr (s\<lparr>sq_queues := (sq_queues s)[p := sq_queues s ! p @ [x]], sq_total := sq_total s + 1\<rparr>)
      else Inl Assert_Failed)"

definition sq_clear :: "'a simple_pqueue \<Rightarrow> 'a simple_pqueue res" where
  "sq_clear s =
     (if 0 < sq_total s then Inr (s\<lparr>sq_queues := map (\<lambda>_. []) (sq_queues s), sq_total := 0\<rparr>) else Inl Assert_Failed)"

fun splice_loop :: "'a simple_pqueue \<Rightarrow> nat list \<Rightarrow> 'a bpqueue \<Rightarrow> 'a bpqueue res" where
  "splice_loop other [] q = Inr q"
| "splice_loop other (i # is) q =
     (if \<not> i < length (sq_queues other) then Inl Assert_Failed
      else if sq_queues other ! i = [] then splice_loop other is q
      else res_bind (bq_push_queue (sq_queues other ! i) i q) (splice_loop other is))"

definition bq_splice :: "'a simple_pqueue \<Rightarrow> 'a bpqueue \<Rightarrow> 'a bpqueue res" where
  "bq_splice other q =
     (if sq_total other = 0 then Inl Assert_Failed else splice_loop other [0..<bq_range q] q)"

section \<open>Iteration\<close>

text \<open>\<open>const_iterator\<close>: the leaf it is at and what is left of the leaf's queue.\<close>

fun bins_of :: "'a qtree \<Rightarrow> 'a list list" where
  "bins_of (Bin b) = [b]"
| "bins_of (Count c l r) = bins_of l @ bins_of r"

record 'a bq_iter =
  it_is_end :: bool
  it_pos :: nat
  it_started :: bool
  it_sub :: "'a list"

function it_advance :: "'a list list \<Rightarrow> 'a bq_iter \<Rightarrow> 'a bq_iter" where
  "it_advance bins it =
     (let sub = (if it_started it then tl (it_sub it) else bins ! it_pos it) in
      if sub \<noteq> [] then it\<lparr>it_started := True, it_sub := sub\<rparr>
      else let it' = it\<lparr>it_pos := it_pos it + 1, it_started := False, it_sub := []\<rparr> in
           if length bins \<le> it_pos it' then it'\<lparr>it_is_end := True\<rparr> else it_advance bins it')"
  by pat_completeness auto
termination by (relation "measure (\<lambda>(bins, it). length bins - it_pos it)") auto

declare it_advance.simps [simp del]

definition it_begin :: "'a list list \<Rightarrow> 'a bq_iter" where
  "it_begin bins = it_advance bins \<lparr>it_is_end = False, it_pos = 0, it_started = False, it_sub = []\<rparr>"

definition it_next :: "'a list list \<Rightarrow> 'a bq_iter \<Rightarrow> 'a bq_iter" where
  "it_next bins it = (if it_is_end it then it else it_advance bins it)"

definition it_deref :: "'a bq_iter \<Rightarrow> 'a res" where
  "it_deref it = (case it_sub it of [] \<Rightarrow> Inl Bad_Access | x # b \<Rightarrow> Inr x)"

text \<open>The loop of the callers, with a bound on the number of elements.\<close>

fun it_collect :: "nat \<Rightarrow> 'a list list \<Rightarrow> 'a bq_iter \<Rightarrow> 'a list res" where
  "it_collect 0 bins it = Inl Bad_Access"
| "it_collect (Suc n) bins it =
     (if it_is_end it then Inr []
      else res_bind (it_deref it) (\<lambda>x. res_bind (it_collect n bins (it_next bins it)) (\<lambda>xs. Inr (x # xs))))"

section \<open>An array of queues\<close>

text \<open>What the tree implements: the first queue that is not empty.\<close>

definition front :: "'a list list \<Rightarrow> nat" where
  "front bs = length (takeWhile (\<lambda>b. b = []) bs)"

lemma concat_Nil_iff: "concat bs = [] \<longleftrightarrow> (\<forall>b \<in> set bs. b = [])"
  by (induction bs) auto

lemma front_append:
  "front (as @ bs) = (if concat as = [] then length as + front bs else front as)"
  by (auto simp: front_def takeWhile_append concat_Nil_iff)

lemma front_bound: "concat bs \<noteq> [] \<Longrightarrow> front bs < length bs"
  unfolding front_def concat_Nil_iff
  by (metis (full_types) length_takeWhile_le nat_less_le takeWhile_eq_all_conv takeWhile_eq_take take_all_iff)

lemma front_busy: "concat bs \<noteq> [] \<Longrightarrow> bs ! front bs \<noteq> []"
  using front_bound [of bs] nth_length_takeWhile [of "\<lambda>b. b = []" bs] by (simp add: front_def)

lemma front_first: "j < front bs \<Longrightarrow> bs ! j = []"
  unfolding front_def by (metis (full_types) nth_mem set_takeWhileD takeWhile_nth)

lemma length_bins [simp]: "length (bins_of t) = num_leaves t"
  by (induction t) auto

definition load :: "'a qtree \<Rightarrow> nat" where
  "load t = length (concat (bins_of t))"

lemma load_simps [simp]: "load (Bin b) = length b" "load (Count c l r) = load l + load r"
  by (simp_all add: load_def)

lemma load_zero: "load t = 0 \<longleftrightarrow> concat (bins_of t) = []"
  unfolding load_def by (rule length_0_conv)

fun qt_ok :: "'a qtree \<Rightarrow> bool" where
  "qt_ok (Bin b) \<longleftrightarrow> True"
| "qt_ok (Count c l r) \<longleftrightarrow> c = of_nat (load l) \<and> qt_ok l \<and> qt_ok r"

lemma num_leaves_pos [simp]: "0 < num_leaves t"
  by (induction t) auto

lemma push_walk_bins:
  "p < num_leaves t \<Longrightarrow> bins_of (push_walk xs n p t) = (bins_of t)[p := bins_of t ! p @ xs]"
  by (induction xs n p t rule: push_walk.induct) (auto simp: list_update_append nth_append)

lemma push_walk_leaves [simp]: "num_leaves (push_walk xs n p t) = num_leaves t"
  by (induction xs n p t rule: push_walk.induct) auto

lemma load_update:
  "p < length bs \<Longrightarrow> length (concat (bs[p := b])) + length (bs ! p) = length (concat bs) + length b"
  by (induction bs arbitrary: p) (auto split: nat.splits simp: nth_Cons')

lemma push_walk_load: "p < num_leaves t \<Longrightarrow> load (push_walk xs n p t) = load t + length xs"
  using load_update [of p "bins_of t" "bins_of t ! p @ xs"] by (simp add: load_def push_walk_bins)

lemma push_walk_ok: "p < num_leaves t \<Longrightarrow> qt_ok t \<Longrightarrow> n = of_nat (length xs) \<Longrightarrow> qt_ok (push_walk xs n p t)"
  by (induction xs n p t rule: push_walk.induct) (auto simp: push_walk_load)

text \<open>A counter is positive exactly when something lies to the left.\<close>

lemma counter_pos: "k < 2 ^ 64 \<Longrightarrow> 0 < (of_nat k :: usize) \<longleftrightarrow> 0 < k"
  by (simp add: word_less_nat_alt unat_of_nat take_bit_nat_eq_self)

lemma front_skip: "load l = 0 \<Longrightarrow> front (bins_of l @ bs) = num_leaves l + front bs"
  using front_append [of "bins_of l" bs] unfolding load_zero by (simp only: refl if_True length_bins)

lemma front_here:
  assumes "load l \<noteq> 0"
  shows "front (bins_of l @ bs) = front (bins_of l)" "front (bins_of l) < num_leaves l"
proof -
  have ne: "concat (bins_of l) \<noteq> []" using assms unfolding load_zero .
  from front_append [of "bins_of l" bs] ne show "front (bins_of l @ bs) = front (bins_of l)" by (simp only: if_False)
  from front_bound [OF ne] show "front (bins_of l) < num_leaves l" unfolding length_bins .
qed

lemma top_bin_front: "qt_ok t \<Longrightarrow> load t < 2 ^ 64 \<Longrightarrow> load t \<noteq> 0 \<Longrightarrow> top_bin t = bins_of t ! front (bins_of t)"
proof (induction t)
  case (Count c l r)
  then show ?case
    using counter_pos [of "load l"] by (cases "load l = 0") (auto simp: front_skip front_here nth_append)
qed (simp add: front_def)

lemma pop_walk_front:
  "qt_ok t \<Longrightarrow> load t < 2 ^ 64 \<Longrightarrow> load t \<noteq> 0 \<Longrightarrow>
   \<exists>t'. pop_walk t = Inr (hd (bins_of t ! front (bins_of t)), t') \<and> qt_ok t' \<and> load t = Suc (load t') \<and>
     bins_of t' = (bins_of t)[front (bins_of t) := tl (bins_of t ! front (bins_of t))]"
proof (induction t)
  case (Bin b)
  then show ?case by (cases b) (simp_all add: front_def)
next
  case (Count c l r)
  show ?case
  proof (cases "load l = 0")
    case True
    with Count.prems obtain r' where r': "pop_walk r = Inr (hd (bins_of r ! front (bins_of r)), r')" "qt_ok r'"
      "load r = Suc (load r')" "bins_of r' = (bins_of r)[front (bins_of r) := tl (bins_of r ! front (bins_of r))]"
      using Count.IH(2) by (auto)
    have "bins_of l @ bins_of r' = (bins_of l @ bins_of r)[num_leaves l + front (bins_of r) := tl (bins_of r ! front (bins_of r))]"
      by (simp add: list_update_append r'(4))
    with True Count.prems r'(1-3) show ?thesis by (simp add: front_skip nth_append)
  next
    case False
    with Count.prems obtain l' where l': "pop_walk l = Inr (hd (bins_of l ! front (bins_of l)), l')" "qt_ok l'"
      "load l = Suc (load l')" "bins_of l' = (bins_of l)[front (bins_of l) := tl (bins_of l ! front (bins_of l))]"
      using Count.IH(1) by (auto)
    have "front (bins_of l) < num_leaves l" using False by (rule front_here)
    moreover from this have "bins_of l' @ bins_of r = (bins_of l @ bins_of r)[front (bins_of l) := tl (bins_of l ! front (bins_of l))]"
      by (simp add: list_update_append l'(4))
    ultimately show ?thesis
      using False Count.prems l'(1-3) counter_pos [of "load l"] by (simp add: front_here nth_append)
  qed
qed

lemma clear_walk_front:
  "qt_ok t \<Longrightarrow> load t < 2 ^ 64 \<Longrightarrow> load t \<noteq> 0 \<Longrightarrow> n = of_nat (length (bins_of t ! front (bins_of t))) \<Longrightarrow>
   qt_ok (clear_walk n t) \<and> bins_of (clear_walk n t) = (bins_of t)[front (bins_of t) := []] \<and>
   load t = load (clear_walk n t) + length (bins_of t ! front (bins_of t))"
proof (induction t)
  case (Count c l r)
  show ?case
  proof (cases "load l = 0")
    case True
    with Count have r: "qt_ok (clear_walk n r)" "bins_of (clear_walk n r) = (bins_of r)[front (bins_of r) := []]"
      "load r = load (clear_walk n r) + length (bins_of r ! front (bins_of r))"
      by (auto simp: front_skip nth_append)
    have "bins_of l @ bins_of (clear_walk n r) = (bins_of l @ bins_of r)[num_leaves l + front (bins_of r) := []]"
      by (simp add: list_update_append r(2))
    with True Count.prems r show ?thesis by (simp add: front_skip nth_append)
  next
    case False
    then have f: "front (bins_of l) < num_leaves l" by (rule front_here)
    then have n: "n = of_nat (length (bins_of l ! front (bins_of l)))"
      using Count.prems(4) front_here(1) [OF False] by (simp add: nth_append)
    have "qt_ok l" and "load l < 2 ^ 64" using Count.prems by auto
    from Count.IH(1) [OF this False n]
    have l: "qt_ok (clear_walk n l)" "bins_of (clear_walk n l) = (bins_of l)[front (bins_of l) := []]"
      "load l = load (clear_walk n l) + length (bins_of l ! front (bins_of l))"
      by blast+
    have "bins_of (clear_walk n l) @ bins_of r = (bins_of l @ bins_of r)[front (bins_of l) := []]"
      using f by (simp add: list_update_append l(2))
    moreover have "of_nat (load l) - n = of_nat (load (clear_walk n l))" unfolding l(3) n by simp
    moreover have "0 < c" and "c = of_nat (load l)" and "qt_ok r" using Count.prems False counter_pos [of "load l"] by auto
    ultimately show ?thesis
      using l f front_here(1) [OF False, of "bins_of r"] by (simp add: nth_append)
  qed
qed (simp add: front_def)

section \<open>The queue as an array of queues\<close>

abbreviation bq_bins :: "'a bpqueue \<Rightarrow> 'a list list" where
  "bq_bins q \<equiv> bins_of (bq_root q)"

definition bq_ok :: "'a bpqueue \<Rightarrow> bool" where
  "bq_ok q \<longleftrightarrow> qt_ok (bq_root q) \<and> load (bq_root q) < 2 ^ 64 \<and> bq_total q = of_nat (load (bq_root q))"

lemma bq_empty_iff: "bq_ok q \<Longrightarrow> bq_empty q \<longleftrightarrow> load (bq_root q) = 0"
  using counter_pos [of "load (bq_root q)"] by (auto simp: bq_ok_def bq_empty_def word_gt_0)

lemma bq_push_ok:
  assumes "bq_ok q" and "p < length (bq_bins q)" and "load (bq_root q) + 1 < 2 ^ 64"
  shows "\<exists>q'. bq_push x p q = Inr q' \<and> bq_ok q' \<and> bq_bins q' = (bq_bins q)[p := bq_bins q ! p @ [x]] \<and> bq_range q' = bq_range q"
  using assms push_walk_load [of p "bq_root q" "[x]" 1] push_walk_ok [of p "bq_root q" 1 "[x]"]
  by (auto simp: bq_push_def bq_ok_def push_walk_bins)

lemma bq_push_queue_ok:
  assumes "bq_ok q" and "p < length (bq_bins q)" and "xs \<noteq> []" and "load (bq_root q) + length xs < 2 ^ 64"
  shows "\<exists>q'. bq_push_queue xs p q = Inr q' \<and> bq_ok q' \<and> bq_bins q' = (bq_bins q)[p := bq_bins q ! p @ xs] \<and> bq_range q' = bq_range q"
  using assms counter_pos [of "length xs"] push_walk_load [of p "bq_root q" xs "of_nat (length xs)"]
    push_walk_ok [of p "bq_root q" "of_nat (length xs)" xs]
  by (auto simp: bq_push_queue_def bq_ok_def push_walk_bins Let_def)

lemma bq_pop_ok:
  assumes "bq_ok q" and "concat (bq_bins q) \<noteq> []"
  shows "\<exists>q'. bq_pop q = Inr (hd (bq_bins q ! front (bq_bins q)), q') \<and> bq_ok q' \<and> load (bq_root q) = Suc (load (bq_root q')) \<and>
     bq_bins q' = (bq_bins q)[front (bq_bins q) := tl (bq_bins q ! front (bq_bins q))]"
proof -
  let ?t = "bq_root q"
  have l: "load ?t \<noteq> 0" using assms(2) unfolding load_zero .
  with assms(1) obtain t' where t': "pop_walk ?t = Inr (hd (bins_of ?t ! front (bins_of ?t)), t')" "qt_ok t'"
    "load ?t = Suc (load t')" "bins_of t' = (bins_of ?t)[front (bins_of ?t) := tl (bins_of ?t ! front (bins_of ?t))]"
    using pop_walk_front [of ?t] unfolding bq_ok_def by blast
  have "0 < bq_total q" and "\<not> bq_empty q"
    using assms(1) l counter_pos [of "load ?t"] by (auto simp: bq_ok_def bq_empty_iff)
  with t' assms(1) show ?thesis by (simp add: bq_pop_def bq_ok_def)
qed

lemma bq_top_ok:
  assumes "bq_ok q" and "concat (bq_bins q) \<noteq> []"
  shows "bq_top q = Inr (hd (bq_bins q ! front (bq_bins q)))"
proof -
  have "load (bq_root q) \<noteq> 0" using assms(2) unfolding load_zero .
  with assms(1) have "top_bin (bq_root q) = bq_bins q ! front (bq_bins q)" by (simp add: bq_ok_def top_bin_front)
  with front_busy [OF assms(2)] show ?thesis
    by (cases "bq_bins q ! front (bq_bins q)") (simp_all add: bq_top_def)
qed

lemma bq_top_list_ok:
  assumes "bq_ok q" and "concat (bq_bins q) \<noteq> []"
  shows "\<exists>q'. bq_top_list [] q = Inr (bq_bins q ! front (bq_bins q), q') \<and> bq_ok q' \<and>
     bq_bins q' = (bq_bins q)[front (bq_bins q) := []]"
proof -
  let ?t = "bq_root q"
  let ?b = "bq_bins q ! front (bq_bins q)"
  have l: "load ?t \<noteq> 0" using assms(2) unfolding load_zero .
  obtain x b where b: "?b = x # b" using front_busy [OF assms(2)] by (cases ?b) auto
  have "top_bin ?t = x # b" and "\<not> bq_empty q"
    using assms(1) l b top_bin_front [of ?t] by (auto simp: bq_ok_def bq_empty_iff)
  moreover have "qt_ok (clear_walk (of_nat (length (x # b))) ?t)"
    "bins_of (clear_walk (of_nat (length (x # b))) ?t) = (bins_of ?t)[front (bins_of ?t) := []]"
    "load ?t = load (clear_walk (of_nat (length (x # b))) ?t) + length (x # b)"
    using clear_walk_front [of ?t "of_nat (length (x # b))"] assms(1) l unfolding b by (auto simp: bq_ok_def)
  ultimately show ?thesis using assms(1) b by (simp add: bq_top_list_def bq_ok_def Let_def)
qed

section \<open>A new queue\<close>

lemma build_tree_ok: "qt_ok (build_tree h :: 'a qtree) \<and> load (build_tree h :: 'a qtree) = 0 \<and> num_leaves (build_tree h :: 'a qtree) = 2 ^ h"
  by (induction h) auto

lemma power_word:
  assumes "k < 64"
  shows "unat (2 ^ k :: usize) = 2 ^ k"
proof -
  have "unat (of_nat (2 ^ k) :: usize) = 2 ^ k mod 2 ^ 64" by (subst unat_of_nat) simp
  also have "\<dots> = 2 ^ k" using assms by (intro mod_less power_strict_increasing) auto
  finally show ?thesis by simp
qed

text \<open>\<open>next_power2\<close> finds the least power of two that is large enough, \<open>upper_log2\<close> its exponent.\<close>

lemma next_power2_steps:
  "j \<le> k \<Longrightarrow> k < 64 \<Longrightarrow> v \<le> 2 ^ k \<Longrightarrow> (\<And>i. i < k \<Longrightarrow> 2 ^ i < v) \<Longrightarrow> next_power2_loop v (2 ^ j) = Some (2 ^ k)"
proof (induction "k - j" arbitrary: j)
  case 0
  then have "j = k" by simp
  with 0 show ?case by (subst next_power2_loop.simps) (auto simp: not_less)
next
  case (Suc n)
  then have "2 ^ j < v" by simp
  moreover have "next_power2_loop v (2 ^ Suc j) = Some (2 ^ k)" using Suc.prems Suc.hyps(2) by (intro Suc.hyps(1)) auto
  ultimately show ?case by (subst next_power2_loop.simps) simp
qed

lemma upper_log2_steps:
  "j \<le> k \<Longrightarrow> k < 64 \<Longrightarrow> upper_log2_loop (2 ^ k) (2 ^ j) (of_nat j) = Some (of_nat k)"
proof (induction "k - j" arbitrary: j)
  case 0
  then show ?case by (subst upper_log2_loop.simps) simp
next
  case (Suc n)
  then have "\<not> (2 ^ k :: usize) \<le> 2 ^ j" by (simp add: word_le_nat_alt power_word)
  moreover have "upper_log2_loop (2 ^ k) (2 ^ Suc j) (of_nat (Suc j)) = Some (of_nat k)"
    using Suc.prems Suc.hyps(2) by (intro Suc.hyps(1)) auto
  ultimately show ?case by (subst upper_log2_loop.simps) (simp add: add.commute)
qed

lemma next_power2_least:
  assumes "0 < v" and "v \<le> 2 ^ 63"
  shows "\<exists>k. k < 64 \<and> next_power2 v = Some (2 ^ k) \<and> v \<le> 2 ^ k"
proof -
  define k where "k = (LEAST k. v \<le> 2 ^ k)"
  have k: "v \<le> 2 ^ k" and "k \<le> 63" using assms(2) unfolding k_def by (auto intro: LeastI [of _ 63] Least_le)
  moreover have "2 ^ i < v" if "i < k" for i using not_less_Least [OF that [unfolded k_def]] by simp
  ultimately have "next_power2_loop v (2 ^ 0) = Some (2 ^ k)" by (intro next_power2_steps) auto
  then have "next_power2 v = Some (2 ^ k)" by (simp add: next_power2_def)
  with k \<open>k \<le> 63\<close> show ?thesis by (intro exI [of _ k]) simp
qed

lemma upper_log2_power: "k < 64 \<Longrightarrow> upper_log2 (2 ^ k) = Some (of_nat k)"
  using upper_log2_steps [of 0 k] by (simp add: upper_log2_def word_gt_0)

lemma new_bpqueue_ok:
  assumes "0 < v" and "v \<le> 2 ^ 63"
  shows "\<exists>q :: 'a bpqueue. new_bpqueue v = Some (Inr q) \<and> bq_ok q \<and> concat (bq_bins q) = [] \<and> unat v \<le> length (bq_bins q) \<and> bq_range q = unat v"
proof -
  obtain k where k: "k < 64" "next_power2 v = Some (2 ^ k)" "v \<le> 2 ^ k" using next_power2_least [OF assms] by blast
  let ?q = "\<lparr>bq_root = build_tree k, bq_total = 0, bq_range = unat v\<rparr> :: 'a bpqueue"
  have "unat (of_nat k :: usize) = k" using k(1) by (simp add: unat_of_nat take_bit_nat_eq_self)
  then have "new_bpqueue v = Some (Inr ?q)"
    using assms(1) k by (simp add: new_bpqueue_def upper_log2_power)
  moreover have "bq_ok ?q" using build_tree_ok [where 'a = 'a, of k] by (simp add: bq_ok_def)
  moreover have "concat (bq_bins ?q) = []" using build_tree_ok [where 'a = 'a, of k] load_zero [of "bq_root ?q"] by simp
  moreover have "unat v \<le> length (bq_bins ?q)"
    using k(1,3) build_tree_ok [where 'a = 'a, of k] by (simp add: word_le_nat_alt power_word)
  ultimately show ?thesis by (intro exI [of _ ?q]) simp
qed

section \<open>What clients see\<close>

text \<open>C14: the tree refines an array of queues. A push appends to the queue of its priority;
  \<open>pop\<close> and \<open>top\<close> take the oldest element of the first queue that is not empty, and
  \<open>top_list\<close> with an empty list takes that whole queue; nothing else moves, and the
  counters and the total stay right as long as fewer than \<open>2^64\<close> elements are queued.\<close>

theorem bounded_pqueue_refines_array:
  assumes "bq_ok q"
  shows "(p < length (bq_bins q) \<longrightarrow> load (bq_root q) + 1 < 2 ^ 64 \<longrightarrow>
      (\<exists>q'. bq_push x p q = Inr q' \<and> bq_ok q' \<and> bq_bins q' = (bq_bins q)[p := bq_bins q ! p @ [x]]))
    \<and> (bq_empty q \<longleftrightarrow> concat (bq_bins q) = [])
    \<and> (concat (bq_bins q) \<noteq> [] \<longrightarrow> (let i = front (bq_bins q) in
        (\<forall>j < i. bq_bins q ! j = []) \<and> bq_bins q ! i \<noteq> [] \<and> bq_top q = Inr (hd (bq_bins q ! i))
        \<and> (\<exists>q'. bq_pop q = Inr (hd (bq_bins q ! i), q') \<and> bq_ok q' \<and> bq_bins q' = (bq_bins q)[i := tl (bq_bins q ! i)])
        \<and> (\<exists>q'. bq_top_list [] q = Inr (bq_bins q ! i, q') \<and> bq_ok q' \<and> bq_bins q' = (bq_bins q)[i := []])))"
  (is "?push \<and> ?empty \<and> ?busy")
proof (intro conjI)
  show ?push using bq_push_ok [OF assms] by blast
  show ?empty unfolding bq_empty_iff [OF assms] load_zero ..
  show ?busy
  proof
    assume ne: "concat (bq_bins q) \<noteq> []"
    show "let i = front (bq_bins q) in
        (\<forall>j < i. bq_bins q ! j = []) \<and> bq_bins q ! i \<noteq> [] \<and> bq_top q = Inr (hd (bq_bins q ! i))
        \<and> (\<exists>q'. bq_pop q = Inr (hd (bq_bins q ! i), q') \<and> bq_ok q' \<and> bq_bins q' = (bq_bins q)[i := tl (bq_bins q ! i)])
        \<and> (\<exists>q'. bq_top_list [] q = Inr (bq_bins q ! i, q') \<and> bq_ok q' \<and> bq_bins q' = (bq_bins q)[i := []])"
      unfolding Let_def
      using bq_pop_ok [OF assms ne] bq_top_list_ok [OF assms ne] bq_top_ok [OF assms ne] front_busy [OF ne]
      by (auto dest: front_first)
  qed
qed

text \<open>In particular it is a priority queue, like the heaps: popping it empty gives the elements by priority.\<close>

fun labelled :: "nat \<Rightarrow> 'a list list \<Rightarrow> (nat \<times> 'a) list" where
  "labelled n [] = []"
| "labelled n (b # bs) = map (Pair n) b @ labelled (Suc n) bs"

definition bq_view :: "'a bpqueue \<Rightarrow> (nat \<times> 'a) multiset" where
  "bq_view q = mset (labelled 0 (bq_bins q))"

lemma labelled_append: "labelled n (as @ bs) = labelled n as @ labelled (n + length as) bs"
  by (induction "as" arbitrary: n) auto

lemma labelled_Nil: "labelled n bs = [] \<longleftrightarrow> concat bs = []"
  by (induction bs arbitrary: n) auto

lemma labelled_ge: "y \<in> set (labelled n bs) \<Longrightarrow> n \<le> fst y"
  by (induction bs arbitrary: n) (auto dest: Suc_leD)

lemma labelled_front:
  assumes "concat bs \<noteq> []"
  shows "labelled 0 bs = (front bs, hd (bs ! front bs)) # labelled 0 (bs[front bs := tl (bs ! front bs)])"
    and "\<forall>y \<in> set (labelled 0 bs). front bs \<le> fst y"
proof -
  let ?i = "front bs"
  have i: "?i < length bs" by (rule front_bound [OF assms])
  obtain x b where b: "bs ! ?i = x # b" using front_busy [OF assms] by (cases "bs ! ?i") auto
  have bs: "bs = take ?i bs @ (x # b) # drop (Suc ?i) bs" using id_take_nth_drop [OF i] b by simp
  have upd: "bs[?i := b] = take ?i bs @ b # drop (Suc ?i) bs" by (rule upd_conv_take_nth_drop [OF i])
  have "concat (take ?i bs) = []" unfolding concat_Nil_iff using front_first [of _ bs] by (auto simp: in_set_conv_nth)
  then have none: "labelled 0 (take ?i bs) = []" by (simp only: labelled_Nil)
  have all: "labelled 0 bs = map (Pair ?i) (x # b) @ labelled (Suc ?i) (drop (Suc ?i) bs)"
    using none i by (subst bs) (simp add: labelled_append)
  have "labelled 0 (bs[?i := b]) = map (Pair ?i) b @ labelled (Suc ?i) (drop (Suc ?i) bs)"
    unfolding upd using none i by (simp add: labelled_append)
  with all b show "labelled 0 bs = (?i, hd (bs ! ?i)) # labelled 0 (bs[?i := tl (bs ! ?i)])" by simp
  show "\<forall>y \<in> set (labelled 0 bs). ?i \<le> fst y" unfolding all by (auto dest: labelled_ge)
qed

interpretation bq: pqueue bq_pop bq_view snd bq_ok "\<lambda>x y. fst x \<le> fst y"
proof
  fix q :: "'a bpqueue" assume ok: "bq_ok q" and "bq_view q \<noteq> {#}"
  then have ne: "concat (bq_bins q) \<noteq> []" unfolding bq_view_def by (metis labelled_Nil mset.simps(1))
  obtain q' where q': "bq_pop q = Inr (hd (bq_bins q ! front (bq_bins q)), q')" "bq_ok q'"
    "bq_bins q' = (bq_bins q)[front (bq_bins q) := tl (bq_bins q ! front (bq_bins q))]"
    using bq_pop_ok [OF ok ne] by blast
  let ?x = "(front (bq_bins q), hd (bq_bins q ! front (bq_bins q)))"
  have "bq_view q = add_mset ?x (bq_view q')"
    unfolding bq_view_def q'(3) by (subst labelled_front(1) [OF ne]) simp
  moreover have "\<forall>y \<in># bq_view q. fst ?x \<le> fst y" using labelled_front(2) [OF ne] by (simp add: bq_view_def)
  ultimately show "\<exists>x q'. bq_pop q = Inr (snd x, q') \<and> x \<in># bq_view q \<and> bq_view q' = bq_view q - {#x#} \<and>
      bq_ok q' \<and> (\<forall>y \<in># bq_view q. fst x \<le> fst y)"
    using q' by (intro exI [of _ ?x] exI [of _ q']) simp
qed

lemma bounded_pqueue_drains_in_order:
  assumes "bq_ok q" and "size (bq_view q) = n"
  shows "\<exists>xs q'. pops bq_pop n q = Inr (map snd xs, q') \<and> mset xs = bq_view q \<and> sorted_wrt (\<lambda>x y. fst x \<le> fst y) xs"
  using bq.pops_sorted [OF assms] by blast

definition small_queue :: "nat bpqueue" where
  "small_queue = \<lparr>bq_root = Count 1 (Count 0 (Bin []) (Bin [7])) (Count 2 (Bin [8, 9]) (Bin [])), bq_total = 3, bq_range = 4\<rparr>"

theorem bounded_pqueue_refines_array_witness:
  "bq_ok small_queue \<and> (\<exists>q'. bq_push 5 2 small_queue = Inr q' \<and> bq_bins q' = [[], [7], [8, 9, 5], []]) \<and>
   (\<exists>q'. bq_pop small_queue = Inr (7, q') \<and> bq_bins q' = [[], [], [8, 9], []])"
proof -
  have ok: "bq_ok small_queue" by (simp add: bq_ok_def small_queue_def)
  have bins: "bq_bins small_queue = [[], [7], [8, 9], []]" and "front [[], [7], [8, 9], [] :: nat list] = 1"
    by (simp_all add: small_queue_def front_def)
  moreover have "load (bq_root small_queue) = 3" by (simp add: small_queue_def)
  ultimately show ?thesis
    using ok bounded_pqueue_refines_array [OF ok, of 2 5] by (auto simp: Let_def)
qed

text \<open>
  A list that is not empty when it is given to \<open>top_list\<close> is counted as well: the total
  then falls below what is queued, here to a huge number.
\<close>

lemma top_list_counts_the_list:
  "bq_top_list [1, 2, 3] small_queue =
     Inr ([1, 2, 3, 7], \<lparr>bq_root = Count (1 - 4) (Count 0 (Bin []) (Bin [])) (Count 2 (Bin [8, 9]) (Bin [])),
       bq_total = - 1, bq_range = 4\<rparr>)"
  by (simp add: bq_top_list_def bq_empty_def small_queue_def)

section \<open>The iterator\<close>

lemma it_advance_spec:
  "it_pos it < length bins \<Longrightarrow> \<not> it_is_end it \<Longrightarrow> (it_started it \<longrightarrow> it_sub it \<noteq> []) \<Longrightarrow>
   rest = (if it_started it then tl (it_sub it) @ concat (drop (it_pos it + 1) bins) else concat (drop (it_pos it) bins)) \<Longrightarrow>
   (case rest of
      [] \<Rightarrow> it_is_end (it_advance bins it)
    | x # xs \<Rightarrow> \<not> it_is_end (it_advance bins it) \<and> it_started (it_advance bins it) \<and> it_pos (it_advance bins it) < length bins \<and>
        it_sub (it_advance bins it) @ concat (drop (it_pos (it_advance bins it) + 1) bins) = rest \<and> it_sub (it_advance bins it) \<noteq> [])"
proof (induction bins it rule: it_advance.induct)
  case (1 bins it)
  let ?sub = "if it_started it then tl (it_sub it) else bins ! it_pos it"
  have d: "drop (it_pos it) bins = bins ! it_pos it # drop (it_pos it + 1) bins"
    using "1.prems"(1) by (simp add: Cons_nth_drop_Suc)
  have rest: "rest = ?sub @ concat (drop (it_pos it + 1) bins)" using "1.prems"(4) d by simp
  show ?case
  proof (cases "?sub = []")
    case False
    then have "it_advance bins it = it\<lparr>it_started := True, it_sub := ?sub\<rparr>" by (subst it_advance.simps) (simp add: Let_def)
    with False rest "1.prems"(1,2) show ?thesis by (cases ?sub) auto
  next
    case True
    let ?it = "it\<lparr>it_pos := it_pos it + 1, it_started := False, it_sub := []\<rparr>"
    show ?thesis
    proof (cases "length bins \<le> it_pos it + 1")
      case end_of_bins: True
      then have "it_advance bins it = ?it\<lparr>it_is_end := True\<rparr>" using True by (subst it_advance.simps) (simp add: Let_def)
      moreover have "rest = []" using rest True end_of_bins by simp
      ultimately show ?thesis by simp
    next
      case False
      then have a: "it_advance bins it = it_advance bins ?it" using True by (subst it_advance.simps) (simp add: Let_def)
      show ?thesis unfolding a
        by (rule "1.IH" [OF refl _ refl]) (use True False rest "1.prems" in \<open>simp_all add: Let_def\<close>)
    qed
  qed
qed

lemma it_collect_spec:
  "it_is_end it \<and> xs = [] \<or> \<not> it_is_end it \<and> it_started it \<and> it_pos it < length bins \<and> it_sub it \<noteq> [] \<and>
     xs = it_sub it @ concat (drop (it_pos it + 1) bins) \<Longrightarrow>
   length xs < n \<Longrightarrow> it_collect n bins it = Inr xs"
proof (induction n arbitrary: it xs)
  case (Suc n)
  show ?case
  proof (cases "it_is_end it")
    case False
    then obtain x b where s: "it_sub it = x # b" and it: "it_started it" "it_pos it < length bins"
      and xs: "xs = x # b @ concat (drop (it_pos it + 1) bins)"
      using Suc.prems(1) by (cases "it_sub it") auto
    have "it_collect n bins (it_advance bins it) = Inr (b @ concat (drop (it_pos it + 1) bins))"
      using it_advance_spec [OF it(2) False, of "b @ concat (drop (it_pos it + 1) bins)"] s it xs Suc.prems(2)
      by (intro Suc.IH) (auto split: list.splits)
    with False s xs show ?thesis by (simp add: it_next_def it_deref_def)
  qed (use Suc.prems in simp)
qed simp

lemma iterator_visits_all:
  assumes "bins \<noteq> []"
  shows "it_collect (Suc (length (concat bins))) bins (it_begin bins) = Inr (concat bins)"
  using it_advance_spec [of "\<lparr>it_is_end = False, it_pos = 0, it_started = False, it_sub = []\<rparr>" bins "concat bins"] assms
  by (intro it_collect_spec) (auto simp: it_begin_def split: list.splits)

end
