(* ===== verification/Intrusive_Queue.thy ===== *)
theory Intrusive_Queue
  imports Meld_Prelude
begin

text \<open>
  The doubly linked queue whose links are fields of the queued objects
  (\<open>queue/intrusive_implementation.hpp\<close>, \<open>queue/intrusive.hpp\<close>,
  \<open>queue/unsafe_double_queue.hpp\<close>; \<open>queue/safe_double_queue.hpp\<close> wraps each operation in a
  lock). The links are maps over the objects; the queue refines a list without repetitions.
\<close>

section \<open>Operations\<close>

record 'n dqueue =
  dq_head :: "'n option"
  dq_tail :: "'n option"
  dq_next :: "'n \<Rightarrow> 'n option"       \<comment> \<open>\<open>__intrusive_next\<close>\<close>
  dq_prev :: "'n \<Rightarrow> 'n option"       \<comment> \<open>\<open>__intrusive_prev\<close>\<close>
  dq_in :: "'n \<Rightarrow> bool"              \<comment> \<open>\<open>__intrusive_in_queue\<close>\<close>
  dq_total :: "64 word"

definition new_dqueue :: "'n dqueue" where
  "new_dqueue =
     \<lparr>dq_head = None, dq_tail = None, dq_next = (\<lambda>_. None), dq_prev = (\<lambda>_. None), dq_in = (\<lambda>_. False), dq_total = 0\<rparr>"

definition dq_empty :: "'n dqueue \<Rightarrow> bool" where
  "dq_empty q \<longleftrightarrow> dq_head q = None"

definition set_next :: "'n \<Rightarrow> 'n option \<Rightarrow> 'n dqueue \<Rightarrow> 'n dqueue" where
  "set_next n x q = q\<lparr>dq_next := (dq_next q)(n := x)\<rparr>"

definition set_prev :: "'n \<Rightarrow> 'n option \<Rightarrow> 'n dqueue \<Rightarrow> 'n dqueue" where
  "set_prev n x q = q\<lparr>dq_prev := (dq_prev q)(n := x)\<rparr>"

definition set_in :: "'n \<Rightarrow> bool \<Rightarrow> 'n dqueue \<Rightarrow> 'n dqueue" where
  "set_in n b q = q\<lparr>dq_in := (dq_in q)(n := b)\<rparr>"

text \<open>A write through a pointer that may be null is guarded by a test in the code.\<close>

definition if_some :: "'n option \<Rightarrow> ('n \<Rightarrow> 'q \<Rightarrow> 'q) \<Rightarrow> 'q \<Rightarrow> 'q" where
  "if_some x f q = (case x of None \<Rightarrow> q | Some n \<Rightarrow> f n q)"

definition push_tail_node :: "'n \<Rightarrow> 'n dqueue \<Rightarrow> 'n dqueue res" where
  "push_tail_node n q =
     (let q1 = q\<lparr>dq_total := dq_total q + 1\<rparr>;
          q2 = (if dq_head q1 = None then q1\<lparr>dq_head := Some n\<rparr> else q1);
          q3 = set_prev n (dq_tail q2) q2;
          q4 = (case dq_tail q3 of Some t \<Rightarrow> set_next t (Some n) q3 | None \<Rightarrow> q3\<lparr>dq_tail := Some n\<rparr>)
      in if dq_in q4 n then Inl Assert_Failed
         else Inr ((set_next n None (set_in n True q4))\<lparr>dq_tail := Some n\<rparr>))"

definition push_head_node :: "'n \<Rightarrow> 'n dqueue \<Rightarrow> 'n dqueue res" where
  "push_head_node n q =
     (let q1 = q\<lparr>dq_total := dq_total q + 1\<rparr> in
      if dq_in q1 n then Inl Assert_Failed
      else
        (let q2 = set_next n (dq_head q1) (set_in n True q1);
             q3 = (if dq_tail q2 = None then q2\<lparr>dq_tail := Some n\<rparr> else q2);
             q4 = (if_some (dq_head q3) (\<lambda>h. set_prev h (Some n)) q3)\<lparr>dq_head := Some n\<rparr>
         in case dq_tail q4 of
              None \<Rightarrow> Inl Bad_Access
            | Some t \<Rightarrow> if dq_next q4 t = None \<and> dq_prev q4 n = None then Inr q4 else Inl Assert_Failed))"

text \<open>The result of \<open>pop\<close> is the node, or nothing when it returns false.\<close>

definition dq_pop :: "'n dqueue \<Rightarrow> ('n option \<times> 'n dqueue) res" where
  "dq_pop q =
     (case dq_head q of
        None \<Rightarrow> Inr (None, q)
      | Some d \<Rightarrow>
          (let q1 = q\<lparr>dq_head := dq_next q d\<rparr>;
               q2 = (case dq_head q1 of Some h \<Rightarrow> set_prev h None q1 | None \<Rightarrow> q1\<lparr>dq_tail := None\<rparr>)
           in if \<not> dq_in q2 d then Inl Assert_Failed
              else if (dq_head q2 = None) \<noteq> (dq_tail q2 = None) then Inl Assert_Failed
              else Inr (Some d, (set_in d False q2)\<lparr>dq_total := dq_total q2 - 1\<rparr>)))"

text \<open>\<open>pop_if_not_empty\<close> leaves one element behind; it looks two links ahead of the head.\<close>

definition pop_if_not_empty :: "'n dqueue \<Rightarrow> ('n option \<times> 'n dqueue) res" where
  "pop_if_not_empty q =
     (case dq_head q of
        None \<Rightarrow> Inr (None, q)
      | Some d \<Rightarrow>
          (case dq_next q d of
             None \<Rightarrow> Inl Bad_Access
           | Some h \<Rightarrow>
               if dq_next q h = None then Inr (None, q)
               else
                 (let q2 = set_next d None (set_prev d None (set_prev h None (q\<lparr>dq_head := Some h\<rparr>)))
                  in if \<not> dq_in q2 d then Inl Assert_Failed
                     else Inr (Some d, (set_in d False q2)\<lparr>dq_total := dq_total q2 - 1\<rparr>))))"

definition move_up :: "'n \<Rightarrow> 'n dqueue \<Rightarrow> 'n dqueue res" where
  "move_up n q =
     (if \<not> dq_in q n then Inr q
      else case dq_prev q n of
        None \<Rightarrow> if dq_head q = Some n then Inr q else Inl Assert_Failed
      | Some p \<Rightarrow>
          (let nx = dq_next q n;
               q1 = if_some nx (\<lambda>x. set_prev x (Some p)) (set_next p nx q);
               q2 = (if nx = None then q1\<lparr>dq_tail := Some p\<rparr> else q1)
           in if dq_tail q2 = None then Inl Assert_Failed
              else case dq_head q2 of
                None \<Rightarrow> Inl Bad_Access
              | Some h \<Rightarrow>
                  Inr ((set_prev h (Some n) (set_in n True (set_next n (dq_head q2) (set_prev n None q2))))\<lparr>dq_head := Some n\<rparr>)))"

definition dq_remove :: "'n \<Rightarrow> 'n dqueue \<Rightarrow> 'n dqueue res" where
  "dq_remove n q =
     (let pv = dq_prev q n; nx = dq_next q n;
          q1 = (if dq_head q = Some n then q\<lparr>dq_head := nx\<rparr> else q);
          q2 = (if dq_tail q1 = Some n then q1\<lparr>dq_tail := pv\<rparr> else q1);
          q3 = if_some pv (\<lambda>p. set_next p nx) q2;
          q4 = set_prev n None (set_next n None (if_some nx (\<lambda>x. set_prev x pv) q3))
      in if \<not> dq_in q4 n then Inl Assert_Failed
         else Inr ((set_in n False q4)\<lparr>dq_total := dq_total q4 - 1\<rparr>))"

text \<open>The iterator follows the links; the bound is on the number of elements.\<close>

fun dq_iterate :: "nat \<Rightarrow> 'n dqueue \<Rightarrow> 'n option \<Rightarrow> 'n list option" where
  "dq_iterate k q None = Some []"
| "dq_iterate 0 q (Some n) = None"
| "dq_iterate (Suc k) q (Some n) = map_option ((#) n) (dq_iterate k q (dq_next q n))"

lemmas dq_updates = set_next_def set_prev_def set_in_def if_some_def

section \<open>Lists of links\<close>

definition first_or :: "'n list \<Rightarrow> 'n option \<Rightarrow> 'n option" where
  "first_or xs e = (case xs of [] \<Rightarrow> e | x # _ \<Rightarrow> Some x)"

definition last_or :: "'n option \<Rightarrow> 'n list \<Rightarrow> 'n option" where
  "last_or p xs = (if xs = [] then p else Some (last xs))"

fun links :: "('n \<Rightarrow> 'n option) \<Rightarrow> ('n \<Rightarrow> 'n option) \<Rightarrow> 'n option \<Rightarrow> 'n list \<Rightarrow> 'n option \<Rightarrow> bool" where
  "links nx pv p [] e \<longleftrightarrow> True"
| "links nx pv p (x # xs) e \<longleftrightarrow> pv x = p \<and> nx x = first_or xs e \<and> links nx pv (Some x) xs e"

lemma first_or_simps [simp]: "first_or [] e = e" "first_or (x # xs) e = Some x"
  "first_or (xs @ ys) e = first_or xs (first_or ys e)"
  by (auto simp: first_or_def split: list.split)

lemma last_or_simps [simp]: "last_or p [] = p" "last_or p (x # xs) = last_or (Some x) xs"
  "last_or p (xs @ ys) = last_or (last_or p xs) ys"
  by (auto simp: last_or_def)

lemma first_or_None [simp]: "first_or xs e = None \<longleftrightarrow> xs = [] \<and> e = None"
  by (cases xs) auto

lemma last_or_None [simp]: "last_or p xs = None \<longleftrightarrow> xs = [] \<and> p = None"
  by (simp add: last_or_def)

lemma last_or_Some: "last_or p xs = Some y \<Longrightarrow> xs \<noteq> [] \<Longrightarrow> y \<in> set xs"
  by (auto simp: last_or_def split: if_splits)

lemma first_or_Some: "first_or xs None = Some y \<Longrightarrow> y \<in> set xs"
  by (cases xs) auto

lemma links_append: "links nx pv p (xs @ ys) e \<longleftrightarrow> links nx pv p xs (first_or ys e) \<and> links nx pv (last_or p xs) ys e"
  by (induction xs arbitrary: p) auto

lemma links_other [simp]:
  "n \<notin> set xs \<Longrightarrow> links (nx(n := y)) pv p xs e \<longleftrightarrow> links nx pv p xs e"
  "n \<notin> set xs \<Longrightarrow> links nx (pv(n := y)) p xs e \<longleftrightarrow> links nx pv p xs e"
  by (induction xs arbitrary: p) auto

text \<open>Redirecting the link into a list from its neighbour, and out of it.\<close>

lemma links_into: "links nx pv p (x # xs) e \<Longrightarrow> x \<notin> set xs \<Longrightarrow> links nx (pv(x := p')) p' (x # xs) e"
  by simp

lemma links_out: "links nx pv p (xs @ [x]) e \<Longrightarrow> x \<notin> set xs \<Longrightarrow> links (nx(x := e')) pv p (xs @ [x]) e'"
  by (simp add: links_append)

definition dq_rep :: "'n dqueue \<Rightarrow> 'n list \<Rightarrow> bool" where
  "dq_rep q xs \<longleftrightarrow> distinct xs \<and> links (dq_next q) (dq_prev q) None xs None \<and>
     dq_head q = first_or xs None \<and> dq_tail q = last_or None xs \<and> (\<forall>n. dq_in q n \<longleftrightarrow> n \<in> set xs) \<and>
     (\<forall>n. n \<notin> set xs \<longrightarrow> dq_prev q n = None) \<and> dq_total q = of_nat (length xs)"

section \<open>The operations on the list\<close>

lemma new_dqueue_rep: "dq_rep new_dqueue []"
  by (simp add: dq_rep_def new_dqueue_def)

lemma dq_empty_rep: "dq_rep q xs \<Longrightarrow> dq_empty q \<longleftrightarrow> xs = []"
  by (simp add: dq_rep_def dq_empty_def)

lemma push_tail_rep:
  assumes "dq_rep q xs" and "n \<notin> set xs"
  shows "\<exists>q'. push_tail_node n q = Inr q' \<and> dq_rep q' (xs @ [n])"
proof (cases xs rule: rev_cases)
  case Nil
  with assms show ?thesis by (simp add: push_tail_node_def dq_updates dq_rep_def)
next
  case (snoc ys t)
  with assms have t: "dq_tail q = Some t" "t \<noteq> n" "dq_head q \<noteq> None" "\<not> dq_in q n" and l: "links (dq_next q) (dq_prev q) None (ys @ [t]) None"
    and d: "t \<notin> set ys" "n \<notin> set ys" by (auto simp: dq_rep_def)
  have "links ((dq_next q)(t := Some n)) (dq_prev q) None (ys @ [t]) (Some n)" by (rule links_out [OF l d(1)])
  then have "links ((dq_next q)(t := Some n, n := None)) ((dq_prev q)(n := Some t)) None (ys @ [t] @ [n]) None"
    using t(2) d by (simp add: links_append)
  with assms snoc t show ?thesis by (auto simp: push_tail_node_def dq_updates dq_rep_def Let_def)
qed

lemma push_head_rep:
  assumes "dq_rep q xs" and "n \<notin> set xs"
  shows "\<exists>q'. push_head_node n q = Inr q' \<and> dq_rep q' (n # xs)"
proof (cases xs)
  case Nil
  with assms show ?thesis by (simp add: push_head_node_def dq_updates dq_rep_def)
next
  case (Cons h ys)
  with assms have h: "dq_head q = Some h" "h \<noteq> n" "\<not> dq_in q n" "dq_prev q n = None"
    and l: "links (dq_next q) (dq_prev q) None (h # ys) None" and d: "h \<notin> set ys" "n \<notin> set ys" by (auto simp: dq_rep_def)
  have l': "links ((dq_next q)(n := Some h)) ((dq_prev q)(h := Some n)) (Some n) (h # ys) None"
    using links_into [OF l d(1), of "Some n"] h(2) d by simp
  obtain t where t: "dq_tail q = Some t" "t \<noteq> n" "dq_next q t = None"
  proof -
    obtain zs t where z: "xs = zs @ [t]" using Cons by (metis list.distinct(1) rev_exhaust)
    with assms show thesis by (intro that [of t]) (auto simp: dq_rep_def links_append)
  qed
  let ?q = "q\<lparr>dq_head := Some n, dq_next := (dq_next q)(n := Some h), dq_prev := (dq_prev q)(h := Some n),
      dq_in := (dq_in q)(n := True), dq_total := dq_total q + 1\<rparr>"
  have "push_head_node n q = Inr ?q" using h t by (simp add: push_head_node_def dq_updates Let_def)
  moreover have "dq_rep ?q (n # xs)"
    unfolding dq_rep_def using assms l' d h unfolding dq_rep_def Cons by (simp add: add.commute)
  ultimately show ?thesis by blast
qed

lemma dq_pop_rep:
  assumes "dq_rep q (n # xs)"
  shows "\<exists>q'. dq_pop q = Inr (Some n, q') \<and> dq_rep q' xs"
proof (cases xs)
  case Nil
  with assms have "dq_prev q m = None" for m by (cases "m = n") (auto simp: dq_rep_def)
  with assms Nil show ?thesis by (simp add: dq_pop_def dq_updates dq_rep_def Let_def)
next
  case (Cons h ys)
  with assms have "links (dq_next q) ((dq_prev q)(h := None)) None xs None" by (auto simp: dq_rep_def)
  with assms Cons show ?thesis by (auto simp: dq_pop_def dq_updates dq_rep_def Let_def)
qed

lemma dq_pop_empty: "dq_rep q [] \<Longrightarrow> dq_pop q = Inr (None, q)"
  by (simp add: dq_pop_def dq_rep_def)

text \<open>A node in the middle: its neighbours are linked to each other.\<close>

lemma links_middle:
  assumes "links nx pv None (as @ n # bs) None" and "distinct (as @ n # bs)"
  shows "pv n = last_or None as" and "nx n = first_or bs None"
    and "links (case last_or None as of None \<Rightarrow> nx | Some p \<Rightarrow> nx(p := first_or bs None))
      (case first_or bs None of None \<Rightarrow> pv | Some x \<Rightarrow> pv(x := last_or None as)) None (as @ bs) None"
proof -
  show "pv n = last_or None as" and "nx n = first_or bs None" using assms(1) by (auto simp: links_append)
  have a: "links nx pv None as (Some n)" and b: "links nx pv (Some n) bs None" using assms(1) by (auto simp: links_append)
  let ?nx = "case last_or None as of None \<Rightarrow> nx | Some p \<Rightarrow> nx(p := first_or bs None)"
  let ?pv = "case first_or bs None of None \<Rightarrow> pv | Some x \<Rightarrow> pv(x := last_or None as)"
  have "links ?nx ?pv None as (first_or bs None)"
  proof (cases as rule: rev_cases)
    case (snoc cs p)
    then have "links ?nx pv None as (first_or bs None)" using links_out [of nx pv None cs p "Some n"] a assms(2) by auto
    moreover have "x \<notin> set as" if "first_or bs None = Some x" for x using assms(2) first_or_Some [OF that] by auto
    ultimately show ?thesis by (auto split: option.splits)
  qed simp
  moreover have "links ?nx ?pv (last_or None as) bs None"
  proof (cases bs)
    case (Cons x cs)
    then have "links nx ?pv (last_or None as) bs None"
      using links_into [of nx pv "Some n" x cs None "last_or None as"] b assms(2) by auto
    moreover have "p \<notin> set bs" if "last_or None as = Some p" for p
      using assms(2) last_or_Some [OF that] that by (cases "as = []") auto
    ultimately show ?thesis by (auto split: option.splits)
  qed simp
  ultimately show "links ?nx ?pv None (as @ bs) None" by (simp add: links_append)
qed

lemma first_last_in: "first_or xs None = Some x \<Longrightarrow> x \<in> set xs" "last_or None xs = Some x \<Longrightarrow> x \<in> set xs"
  by (auto dest: first_or_Some simp: last_or_def split: if_splits)

definition unlinked :: "'n \<Rightarrow> 'n dqueue \<Rightarrow> 'n dqueue" where
  "unlinked n q =
     q\<lparr>dq_head := (if dq_head q = Some n then dq_next q n else dq_head q),
       dq_tail := (if dq_tail q = Some n then dq_prev q n else dq_tail q),
       dq_next := (case dq_prev q n of None \<Rightarrow> dq_next q | Some p \<Rightarrow> (dq_next q)(p := dq_next q n)),
       dq_prev := (case dq_next q n of None \<Rightarrow> dq_prev q | Some x \<Rightarrow> (dq_prev q)(x := dq_prev q n))\<rparr>"

lemma unlinked_links:
  assumes "dq_rep q (as @ n # bs)"
  shows "links (dq_next (unlinked n q)) (dq_prev (unlinked n q)) None (as @ bs) None"
    and "dq_head (unlinked n q) = first_or (as @ bs) None" and "dq_tail (unlinked n q) = last_or None (as @ bs)"
    and "m \<notin> set (as @ bs) \<Longrightarrow> m \<noteq> n \<Longrightarrow> dq_prev (unlinked n q) m = None"
    and "dq_in (unlinked n q) = dq_in q" and "dq_total (unlinked n q) = dq_total q"
proof -
  have l: "links (dq_next q) (dq_prev q) None (as @ n # bs) None" and d: "distinct (as @ n # bs)"
    and h: "dq_head q = first_or (as @ n # bs) None" and t: "dq_tail q = last_or None (as @ n # bs)"
    using assms by (auto simp: dq_rep_def)
  note m = links_middle [OF l d]
  show "links (dq_next (unlinked n q)) (dq_prev (unlinked n q)) None (as @ bs) None"
    using m(3) unfolding m(1,2) [symmetric] by (simp add: unlinked_def)
  show "dq_head (unlinked n q) = first_or (as @ bs) None"
    using h m d by (cases as) (auto simp: unlinked_def)
  show "dq_tail (unlinked n q) = last_or None (as @ bs)"
    using t m d by (cases bs rule: rev_cases) (auto simp: unlinked_def)
  show "dq_prev (unlinked n q) m = None" if "m \<notin> set (as @ bs)" "m \<noteq> n"
    using assms that m by (auto simp: unlinked_def dq_rep_def split: option.splits dest: first_or_Some)
qed (simp_all add: unlinked_def)

lemma dq_remove_rep:
  assumes "dq_rep q (as @ n # bs)"
  shows "\<exists>q'. dq_remove n q = Inr q' \<and> dq_rep q' (as @ bs)"
proof -
  let ?u = "unlinked n q"
  let ?q = "?u\<lparr>dq_next := (dq_next ?u)(n := None), dq_prev := (dq_prev ?u)(n := None), dq_in := (dq_in ?u)(n := False),
      dq_total := dq_total ?u - 1\<rparr>"
  have n: "n \<notin> set (as @ bs)" "distinct (as @ bs)" "dq_in q n" using assms by (auto simp: dq_rep_def)
  have "dq_remove n q = Inr ?q"
    using n(3) by (simp add: dq_remove_def dq_updates unlinked_def Let_def split: option.split)
  moreover have "dq_rep ?q (as @ bs)"
    unfolding dq_rep_def using unlinked_links [OF assms] n assms by (auto simp: dq_rep_def)
  ultimately show ?thesis by blast
qed

lemma move_up_rep:
  assumes "dq_rep q (as @ n # bs)"
  shows "\<exists>q'. move_up n q = Inr q' \<and> dq_rep q' (n # as @ bs)"
proof (cases as)
  case Nil
  with assms have "move_up n q = Inr q" by (auto simp: move_up_def dq_rep_def)
  with assms Nil show ?thesis by simp
next
  case (Cons h cs)
  let ?u = "unlinked n q"
  let ?q = "?u\<lparr>dq_head := Some n, dq_next := (dq_next ?u)(n := Some h), dq_prev := (dq_prev ?u)(n := None, h := Some n)\<rparr>"
  have n: "n \<notin> set (as @ bs)" "distinct (as @ bs)" "dq_in q n" "dq_total q = of_nat (Suc (length (as @ bs)))"
    and ins: "\<And>m. dq_in q m \<longleftrightarrow> m = n \<or> m \<in> set (as @ bs)"
    using assms by (auto simp: dq_rep_def)
  note u = unlinked_links [OF assms]
  have l: "links (dq_next q) (dq_prev q) None (as @ n # bs) None" and d: "distinct (as @ n # bs)"
    using assms by (auto simp: dq_rep_def)
  obtain p where p: "dq_prev q n = Some p" using links_middle(1) [OF l d] Cons by (cases "last_or None as") auto
  have nx: "dq_tail q = Some n \<longleftrightarrow> dq_next q n = None"
    using links_middle(2) [OF l d] assms by (cases bs rule: rev_cases) (auto simp: dq_rep_def)
  have hd: "dq_head q = Some h" and hn: "h \<noteq> n" using assms Cons by (auto simp: dq_rep_def)
  have t: "dq_tail ?u \<noteq> None" using u(3) Cons by simp
  have "move_up n q = Inr ?q"
    using n(3) p nx hd hn t
    by (auto simp: move_up_def dq_updates unlinked_def Let_def fun_eq_iff split: option.split)
  moreover have "dq_rep ?q (n # as @ bs)"
  proof -
    have "links ((dq_next ?u)(n := Some h)) ((dq_prev ?u)(n := None, h := Some n)) (Some n) (h # cs @ bs) None"
      using links_into [of "(dq_next ?u)(n := Some h)" "(dq_prev ?u)(n := None)" None h "cs @ bs" None "Some n"] u(1) n Cons by auto
    then show ?thesis unfolding dq_rep_def using u n ins Cons hn by (auto split: if_splits)
  qed
  ultimately show ?thesis by blast
qed

lemma move_up_outside: "dq_rep q xs \<Longrightarrow> n \<notin> set xs \<Longrightarrow> move_up n q = Inr q"
  by (simp add: move_up_def dq_rep_def)

text \<open>The iterator visits the list in order.\<close>

lemma dq_iterate_links: "links (dq_next q) pv p xs None \<Longrightarrow> dq_iterate (length xs) q (first_or xs None) = Some xs"
  by (induction xs arbitrary: p) (simp_all split: option.split, metis option.simps(9))

section \<open>A first-in first-out queue\<close>

text \<open>
  What the schedulers rely on: a queue without repetitions that a client sees as a list. Draining
  it is stated once for every provider.
\<close>

locale fifo =
  fixes rep :: "'q \<Rightarrow> 'n list \<Rightarrow> bool"
    and push :: "'n \<Rightarrow> 'q \<Rightarrow> 'q res"
    and pop :: "'q \<Rightarrow> ('n option \<times> 'q) res"
  assumes rep_push: "rep q xs \<Longrightarrow> n \<notin> set xs \<Longrightarrow> \<exists>q'. push n q = Inr q' \<and> rep q' (xs @ [n])"
    and rep_pop: "rep q (n # xs) \<Longrightarrow> \<exists>q'. pop q = Inr (Some n, q') \<and> rep q' xs"
    and rep_pop_empty: "rep q [] \<Longrightarrow> pop q = Inr (None, q)"
begin

primrec push_all :: "'n list \<Rightarrow> 'q \<Rightarrow> 'q res" where
  "push_all [] q = Inr q"
| "push_all (n # ns) q = (case push n q of Inl e \<Rightarrow> Inl e | Inr q' \<Rightarrow> push_all ns q')"

primrec drain :: "nat \<Rightarrow> 'q \<Rightarrow> ('n list \<times> 'q) res" where
  "drain 0 q = Inr ([], q)"
| "drain (Suc k) q =
     (case pop q of
        Inl e \<Rightarrow> Inl e
      | Inr (None, q') \<Rightarrow> Inr ([], q')
      | Inr (Some n, q') \<Rightarrow> (case drain k q' of Inl e \<Rightarrow> Inl e | Inr (ns, q'') \<Rightarrow> Inr (n # ns, q'')))"

lemma push_all_rep: "rep q xs \<Longrightarrow> distinct (xs @ ns) \<Longrightarrow> \<exists>q'. push_all ns q = Inr q' \<and> rep q' (xs @ ns)"
proof (induction ns arbitrary: q xs)
  case (Cons n ns)
  then obtain q1 where "push n q = Inr q1" "rep q1 (xs @ [n])" using rep_push [of q xs n] by auto
  with Cons.IH [of q1 "xs @ [n]"] Cons.prems(2) show ?case by simp
qed simp

lemma drain_rep: "rep q xs \<Longrightarrow> length xs < k \<Longrightarrow> \<exists>q'. drain k q = Inr (xs, q') \<and> rep q' []"
proof (induction k arbitrary: q xs)
  case (Suc k)
  show ?case
  proof (cases xs)
    case Nil
    with Suc.prems show ?thesis by (simp add: rep_pop_empty)
  next
    case (Cons n ys)
    then obtain q1 where "pop q = Inr (Some n, q1)" "rep q1 ys" using rep_pop Suc.prems(1) by blast
    with Suc.IH [of q1 ys] Suc.prems(2) Cons show ?thesis by force
  qed
qed simp

end

interpretation iq: fifo dq_rep push_tail_node dq_pop
  by unfold_locales (auto intro: push_tail_rep dq_pop_rep dq_pop_empty)

lemma intrusive_queue_is_fair:
  assumes "distinct ns"
  shows "\<exists>q q'. iq.push_all ns new_dqueue = Inr q \<and> iq.drain (Suc (length ns)) q = Inr (ns, q') \<and> dq_rep q' []"
proof -
  obtain q where "iq.push_all ns new_dqueue = Inr q" "dq_rep q ns"
    using iq.push_all_rep [OF new_dqueue_rep, of ns] assms by auto
  with iq.drain_rep [of q ns "Suc (length ns)"] show ?thesis by auto
qed

text \<open>\<open>pop_if_not_empty\<close> on a queue of one node reads the link of a null pointer; with two it refuses.\<close>

lemma pop_if_not_empty_one: "dq_rep q [n] \<Longrightarrow> pop_if_not_empty q = Inl Bad_Access"
  by (simp add: pop_if_not_empty_def dq_rep_def)

lemma pop_if_not_empty_two: "dq_rep q [n, m] \<Longrightarrow> pop_if_not_empty q = Inr (None, q)"
  by (simp add: pop_if_not_empty_def dq_rep_def)

lemma pop_if_not_empty_many:
  assumes "dq_rep q (n # m # k # xs)"
  shows "\<exists>q'. pop_if_not_empty q = Inr (Some n, q') \<and> dq_rep q' (m # k # xs)"
  using assms by (auto simp: pop_if_not_empty_def dq_rep_def dq_updates Let_def)

text \<open>
  C13: The intrusive queue is a list without repetitions: \<open>push_tail_node\<close> and \<open>push_head_node\<close>
  append and prepend a node that is not queued, \<open>pop\<close> takes the first node or reports the
  empty queue, \<open>move_up\<close> brings any queued node to the front and leaves the queue alone
  otherwise, \<open>remove\<close> takes any queued node out, the iterator yields the list, and no
  assertion of the operations fails.
\<close>

theorem intrusive_queue_refines_list:
  assumes "dq_rep q xs"
  shows "(dq_empty q \<longleftrightarrow> xs = []) \<and>
     (n \<notin> set xs \<longrightarrow> (\<exists>q'. push_tail_node n q = Inr q' \<and> dq_rep q' (xs @ [n]))) \<and>
     (n \<notin> set xs \<longrightarrow> (\<exists>q'. push_head_node n q = Inr q' \<and> dq_rep q' (n # xs))) \<and>
     (case xs of [] \<Rightarrow> dq_pop q = Inr (None, q) | m # ys \<Rightarrow> \<exists>q'. dq_pop q = Inr (Some m, q') \<and> dq_rep q' ys) \<and>
     (\<exists>q'. move_up n q = Inr q' \<and> dq_rep q' (if n \<in> set xs then n # remove1 n xs else xs)) \<and>
     (n \<in> set xs \<longrightarrow> (\<exists>q'. dq_remove n q = Inr q' \<and> dq_rep q' (remove1 n xs))) \<and>
     dq_iterate (length xs) q (dq_head q) = Some xs"
proof -
  have move_remove: "(\<exists>q'. move_up n q = Inr q' \<and> dq_rep q' (if n \<in> set xs then n # remove1 n xs else xs)) \<and> (n \<in> set xs \<longrightarrow> (\<exists>q'. dq_remove n q = Inr q' \<and> dq_rep q' (remove1 n xs)))"
  proof (cases "n \<in> set xs")
    case True
    then obtain as bs where x: "xs = as @ n # bs" "n \<notin> set as" by (meson split_list_first)
    then have r: "dq_rep q (as @ n # bs)" "remove1 n xs = as @ bs" using assms by (auto simp: remove1_append)
    from move_up_rep [OF r(1)] dq_remove_rep [OF r(1)] True r(2) show ?thesis by simp
  qed (use move_up_outside [OF assms] assms in simp_all)
  have iter: "dq_iterate (length xs) q (dq_head q) = Some xs"
    using dq_iterate_links [of q "dq_prev q" None xs] assms by (simp add: dq_rep_def)
  have "case xs of [] \<Rightarrow> dq_pop q = Inr (None, q) | m # ys \<Rightarrow> \<exists>q'. dq_pop q = Inr (Some m, q') \<and> dq_rep q' ys"
    using dq_pop_rep dq_pop_empty assms by (cases xs) auto
  with move_remove iter show ?thesis
    using dq_empty_rep [OF assms] push_tail_rep [OF assms] push_head_rep [OF assms] by simp
qed

definition dqueue_example :: "nat dqueue" where
  "dqueue_example =
     \<lparr>dq_head = Some 4, dq_tail = Some 9, dq_next = [4 \<mapsto> 7, 7 \<mapsto> 9], dq_prev = [7 \<mapsto> 4, 9 \<mapsto> 7],
      dq_in = (\<lambda>n. n \<in> {4, 7, 9}), dq_total = 3\<rparr>"

lemma intrusive_queue_refines_list_witness:
  "dq_rep dqueue_example [4, 7, 9] \<and>
   (\<exists>q'. move_up 9 dqueue_example = Inr q' \<and> dq_rep q' [9, 4, 7]) \<and>
   (\<exists>q'. dq_remove 7 dqueue_example = Inr q' \<and> dq_rep q' [4, 9])"
proof -
  have r: "dq_rep dqueue_example [4, 7, 9]" by (auto simp: dq_rep_def dqueue_example_def)
  then show ?thesis
    using intrusive_queue_refines_list [OF r, of 9] intrusive_queue_refines_list [OF r, of 7] by simp
qed

end
