(* ===== verification/Serial_Sched.thy ===== *)
theory Serial_Sched
  imports Vm_Run_Rules Bounded_Pqueue Intrusive_Queue
begin

text \<open>
  The serial scheduler: \<open>sched/serial.hpp\<close> and \<open>.cpp\<close> with the nodes of
  \<open>sched/nodes/serial.hpp\<close> and \<open>in_queue.hpp\<close>, and the loop of \<open>sched/base.cpp\<close> that takes a
  node from the scheduler, runs it, and starts an iteration anew when aggregates generate
  more work. Every node has a bounded priority queue of tuples by stratification level; the
  nodes that have work wait in an intrusive queue.
\<close>

section \<open>The state\<close>

record serial =
  ss_nodes :: "node_val dqueue"               \<comment> \<open>\<open>queue_nodes\<close>\<close>
  ss_current :: "node_val option"             \<comment> \<open>\<open>current_node\<close>\<close>
  ss_on_queue :: "node_val \<Rightarrow> bool"           \<comment> \<open>\<open>i_am_on_queue\<close>\<close>
  ss_work :: "node_val \<Rightarrow> saddr bpqueue"      \<comment> \<open>the queue of a node\<close>

text \<open>A node is created with an empty queue for every level of the program.\<close>

definition new_serial :: "usize \<Rightarrow> serial res option" where
  "new_serial levels =
     (case new_bpqueue levels of
        None \<Rightarrow> None
      | Some (Inl e) \<Rightarrow> Some (Inl e)
      | Some (Inr q) \<Rightarrow>
          Some (Inr \<lparr>ss_nodes = new_dqueue, ss_current = None, ss_on_queue = (\<lambda>_. False), ss_work = (\<lambda>_. q)\<rparr>))"

definition has_work :: "node_val \<Rightarrow> serial \<Rightarrow> bool" where
  "has_work n w \<longleftrightarrow> \<not> bq_empty (ss_work w n)"

definition add_work :: "node_val \<Rightarrow> saddr \<Rightarrow> strat_level \<Rightarrow> serial \<Rightarrow> serial res" where
  "add_work n a l w = res_bind (bq_push a l (ss_work w n)) (\<lambda>q. Inr (w\<lparr>ss_work := (ss_work w)(n := q)\<rparr>))"

definition set_in_queue :: "node_val \<Rightarrow> bool \<Rightarrow> serial \<Rightarrow> serial res" where
  "set_in_queue n b w =
     (if ss_on_queue w n = b then Inl Assert_Failed else Inr (w\<lparr>ss_on_queue := (ss_on_queue w)(n := b)\<rparr>))"

definition push_node :: "node_val \<Rightarrow> serial \<Rightarrow> serial res" where
  "push_node n w = res_bind (push_tail_node n (ss_nodes w)) (\<lambda>d. Inr (w\<lparr>ss_nodes := d\<rparr>))"

text \<open>\<open>serial_local::new_work\<close>, which \<open>new_agg\<close> calls too.\<close>

definition serial_new_work :: "node_val \<Rightarrow> saddr \<Rightarrow> strat_level \<Rightarrow> serial \<Rightarrow> serial res" where
  "serial_new_work n a l w =
     res_bind (add_work n a l w) (\<lambda>w1.
       if ss_on_queue w1 n then Inr w1 else res_bind (set_in_queue n True w1) (push_node n))"

fun consumable_of ::
  "(saddr \<Rightarrow> (predicate_id \<times> bool) res) \<Rightarrow> predicate_id \<Rightarrow> saddr list \<Rightarrow> saddr list res" where
  "consumable_of info p [] = Inr []"
| "consumable_of info p (a # as) =
     res_bind (info a) (\<lambda>(q, can). res_bind (consumable_of info p as) (\<lambda>ls. Inr (if can \<and> q = p then a # ls else ls)))"

definition serial_gather_active ::
  "(saddr \<Rightarrow> (predicate_id \<times> bool) res) \<Rightarrow> node_val \<Rightarrow> predicate_id \<Rightarrow> serial \<Rightarrow> saddr list res" where
  "serial_gather_active info n p w =
     (let bins = bq_bins (ss_work w n)
      in res_bind (it_collect (Suc (length (concat bins))) bins (it_begin bins)) (consumable_of info p))"

definition serial_gather_next :: "node_val \<Rightarrow> serial \<Rightarrow> (saddr list \<times> serial) res" where
  "serial_gather_next n w =
     res_bind (bq_top_list [] (ss_work w n)) (\<lambda>(as, q). Inr (as, w\<lparr>ss_work := (ss_work w)(n := q)\<rparr>))"

text \<open>
  What the virtual machine calls. Delays, other threads and other machines are assertions
  that fail; priorities are ignored; the last entries and the colors belong to the nodes of
  the simulator.
\<close>

definition serial_ops :: "serial sched_ops" where
  "serial_ops =
     \<lparr>sd_new_work = (\<lambda>_ _. serial_new_work), sd_new_work_delay = (\<lambda>_ _ _ _ _ _ _. Inl Assert_Failed),
      sd_new_work_other = (\<lambda>_ _ _ _. Inl Assert_Failed), sd_new_work_remote = (\<lambda>_ _ _ _. Inl Assert_Failed),
      sd_same_scheduler = (\<lambda>_ _. True), sd_set_node_priority = (\<lambda>_ _ _. Inr), sd_add_node_priority = (\<lambda>_ _ _. Inr),
      sd_schedule_next = (\<lambda>_. Inr), sd_set_color = (\<lambda>_ _ _ _ _. Inl Bad_Access),
      sd_gather_active = serial_gather_active, sd_gather_next = serial_gather_next,
      sd_tuples_until = (\<lambda>_ _ _. Inl Bad_Access), sd_push_pending = (\<lambda>_ _ _. Inl Bad_Access)\<rparr>"

section \<open>Taking a node\<close>

definition checked_node :: "node_val \<Rightarrow> serial \<Rightarrow> (node_val option \<times> serial) res" where
  "checked_node n w = (if has_work n w \<and> ss_on_queue w n then Inr (Some n, w) else Inl Assert_Failed)"

definition pop_node :: "serial \<Rightarrow> (node_val option \<times> serial) res" where
  "pop_node w =
     (if dq_empty (ss_nodes w) then Inr (None, w)
      else res_bind (dq_pop (ss_nodes w)) (\<lambda>(r, d).
        case r of
          None \<Rightarrow> Inr (None, w\<lparr>ss_nodes := d\<rparr>)
        | Some n \<Rightarrow> checked_node n (w\<lparr>ss_nodes := d, ss_current := Some n\<rparr>)))"

definition serial_get_work :: "serial \<Rightarrow> (node_val option \<times> serial) res" where
  "serial_get_work w =
     (case ss_current w of
        None \<Rightarrow> pop_node w
      | Some c \<Rightarrow>
          (if has_work c w then checked_node c w
           else res_bind (set_in_queue c False w) (\<lambda>w1. pop_node (w1\<lparr>ss_current := None\<rparr>))))"

section \<open>The nodes of the thread\<close>

text \<open>
  The range of the node map from \<open>find_first_node\<close> to \<open>find_last_node\<close>: the iterator of an
  identifier that is not in the map is the end.
\<close>

definition static_nodes :: "code_env \<Rightarrow> nat \<Rightarrow> database \<Rightarrow> node_val list res" where
  "static_nodes env p db =
     (let ns = map fst (db_nodes db);
          first = find_first_node (own_machine (env_router env)) p;
          last = find_last_node (own_machine (env_router env)) p
      in if first \<notin> set ns then (if last \<in> set ns then Inl Bad_Access else Inr [])
         else if last \<in> set ns \<and> last < first then Inl Bad_Access
         else Inr (takeWhile (\<lambda>n. n \<noteq> last) (dropWhile (\<lambda>n. n \<noteq> first) ns)))"

definition each_static :: "code_env \<Rightarrow> (node_val \<Rightarrow> (serial vstate, unit) act) \<Rightarrow> (serial vstate, unit) act" where
  "each_static env f = act_bind (act_read (\<lambda>s. static_nodes env 0 (vs_db s))) (act_each f)"

text \<open>\<open>node_iteration\<close>: what the aggregates of a node generate is queued at the node.\<close>

definition new_work_agg :: "node_val \<Rightarrow> simple_tuple \<Rightarrow> (serial vstate, unit) act" where
  "new_work_agg n st =
     act_bind (create_tuple (st_data st)) (\<lambda>t. act_bind (create_stuple t (st_count st)) (\<lambda>a.
     sched_update (serial_new_work n a (pred_level (tpl_pred (st_data st))))))"

definition node_iteration :: "code_env \<Rightarrow> node_val \<Rightarrow> (serial vstate, unit) act" where
  "node_iteration env n =
     act_bind (act_step (\<lambda>s. res_bind (find_node n (vs_db s)) (\<lambda>nd.
       res_bind (end_iteration (f_add (env_floats env)) nd) (\<lambda>(ls, nd').
       Inr (ls, s\<lparr>vs_db := (vs_db s)\<lparr>db_nodes := map_put n nd' (db_nodes (vs_db s))\<rparr>\<rparr>))))) (act_each (new_work_agg n))"

definition terminate_iteration :: "code_env \<Rightarrow> (serial vstate, bool) act" where
  "terminate_iteration env =
     act_then (each_static env (node_iteration env)) (act_get (\<lambda>s. \<not> dq_empty (ss_nodes (vs_sched s))))"

definition assert_node_idle :: "node_val \<Rightarrow> (serial vstate, unit) act" where
  "assert_node_idle n =
     act_bind (act_get vs_sched) (\<lambda>w. act_assert (\<not> ss_on_queue w n \<and> \<not> has_work n w))"

definition assert_end_iteration :: "code_env \<Rightarrow> (serial vstate, unit) act" where
  "assert_end_iteration env =
     act_bind (act_get vs_sched) (\<lambda>w. act_then (act_assert (dq_empty (ss_nodes w))) (each_static env assert_node_idle))"

definition assert_end :: "code_env \<Rightarrow> (serial vstate, unit) act" where
  "assert_end env =
     act_bind (act_get vs_sched) (\<lambda>w. act_then (act_assert (dq_empty (ss_nodes w)))
       (each_static env (\<lambda>n. act_then
          (act_read (\<lambda>s. res_bind (find_node n (vs_db s)) node_assert_end)) (assert_node_idle n))))"

section \<open>The loop\<close>

text \<open>Run nodes until the scheduler has none; the bound is on the number of runs.\<close>

primrec serve :: "code_env \<Rightarrow> nat \<Rightarrow> nat \<Rightarrow> (serial vstate, unit) act" where
  "serve env k 0 = act_exhausted"
| "serve env k (Suc m) =
     act_bind (act_step (\<lambda>s. res_bind (serial_get_work (vs_sched s)) (\<lambda>(r, w). Inr (r, s\<lparr>vs_sched := w\<rparr>)))) (\<lambda>r.
     case r of
       None \<Rightarrow> act_return ()
     | Some n \<Rightarrow> act_then (run_node env serial_ops k n) (serve env k m))"

primrec do_loop :: "code_env \<Rightarrow> nat \<Rightarrow> nat \<Rightarrow> (serial vstate, unit) act" where
  "do_loop env k 0 = act_exhausted"
| "do_loop env k (Suc m) =
     act_then (serve env k k) (act_then (assert_end_iteration env)
       (act_bind (terminate_iteration env) (\<lambda>more. if more then do_loop env k m else act_return ())))"

definition serial_init :: "code_env \<Rightarrow> (serial vstate, unit) act" where
  "serial_init env =
     each_static env (\<lambda>n. act_then (init_node env serial_ops n)
       (act_bind (act_get vs_sched) (\<lambda>w. act_then (act_assert (ss_on_queue w n)) (act_assert (has_work n w)))))"

definition loop :: "code_env \<Rightarrow> nat \<Rightarrow> (serial vstate, unit) act" where
  "loop env k = act_then (serial_init env) (act_then (do_loop env k k) (assert_end env))"

section \<open>What the scheduler does between two states\<close>

text \<open>
  The steps: work arrives, the current node takes the tuples of its first level, the next
  node is taken. The list is of the nodes that became current, in order.
\<close>

inductive serial_run :: "serial \<Rightarrow> node_val list \<Rightarrow> serial \<Rightarrow> bool" where
  rest: "serial_run w [] w"
| arrive: "serial_run w ns v \<Longrightarrow> serial_new_work n a l v = Inr u \<Longrightarrow> serial_run w ns u"
| take: "serial_run w ns v \<Longrightarrow> ss_current v = Some n \<Longrightarrow> serial_gather_next n v = Inr (as, u) \<Longrightarrow> serial_run w ns u"
| again: "serial_run w ns v \<Longrightarrow> serial_get_work v = Inr (Some n, u) \<Longrightarrow> ss_current v = Some n \<Longrightarrow> serial_run w ns u"
| switch: "serial_run w ns v \<Longrightarrow> serial_get_work v = Inr (Some n, u) \<Longrightarrow> ss_current v \<noteq> Some n \<Longrightarrow> serial_run w (ns @ [n]) u"

lemma serial_run_append: "serial_run v ms u \<Longrightarrow> serial_run w ns v \<Longrightarrow> serial_run w (ns @ ms) u"
proof (induction rule: serial_run.induct)
  case (switch v ms x n u)
  then have "serial_run w ((ns @ ms) @ [n]) u" by (blast intro: serial_run.switch)
  then show ?case by simp
qed (auto intro: serial_run.intros)

text \<open>The queue, the flags and the work agree.\<close>

definition waiting :: "serial \<Rightarrow> node_val list \<Rightarrow> bool" where
  "waiting w xs \<longleftrightarrow> dq_rep (ss_nodes w) xs \<and>
     (\<forall>n. ss_on_queue w n \<longleftrightarrow> n \<in> set xs \<or> ss_current w = Some n) \<and>
     (\<forall>n. ss_current w = Some n \<longrightarrow> n \<notin> set xs) \<and>
     (\<forall>n \<in> set xs. concat (bq_bins (ss_work w n)) \<noteq> []) \<and>
     (\<forall>n. has_work n w \<longrightarrow> ss_on_queue w n)"

lemma waitingD:
  assumes "waiting w xs"
  shows "dq_rep (ss_nodes w) xs" and "ss_on_queue w n \<longleftrightarrow> n \<in> set xs \<or> ss_current w = Some n"
    and "ss_current w = Some n \<Longrightarrow> n \<notin> set xs" and "n \<in> set xs \<Longrightarrow> concat (bq_bins (ss_work w n)) \<noteq> []"
    and "has_work n w \<Longrightarrow> ss_on_queue w n"
  using assms unfolding waiting_def by blast+

lemma new_serial_waiting:
  assumes "0 < levels" and "levels \<le> 2 ^ 63"
  shows "\<exists>w. new_serial levels = Some (Inr w) \<and> waiting w [] \<and> (\<forall>n. bq_ok (ss_work w n)) \<and> ss_current w = None"
proof -
  obtain q :: "saddr bpqueue" where "new_bpqueue levels = Some (Inr q)" "bq_ok q" "concat (bq_bins q) = []"
    using new_bpqueue_ok [OF assms] by blast
  then show ?thesis
    using bq_empty_iff [of q] load_zero [of "bq_root q"] by (simp add: new_serial_def waiting_def new_dqueue_rep has_work_def)
qed

lemma bq_push_bins:
  "bq_push x p q = Inr q' \<Longrightarrow> p < length (bq_bins q) \<and> bq_bins q' = (bq_bins q)[p := bq_bins q ! p @ [x]]"
  by (auto simp: bq_push_def push_walk_bins split: if_splits)

lemma bq_push_busy: "bq_push x p q = Inr q' \<Longrightarrow> concat (bq_bins q') \<noteq> []"
  using bq_push_bins [of x p q q'] set_update_memI [of p "bq_bins q" "bq_bins q ! p @ [x]"]
  unfolding concat_Nil_iff by (metis snoc_eq_iff_butlast)

lemma new_work_waiting:
  assumes w: "waiting w xs" and "serial_new_work n a l w = Inr u"
  shows "waiting u (if ss_on_queue w n then xs else xs @ [n])" and "ss_current u = ss_current w"
proof -
  obtain q where q: "bq_push a l (ss_work w n) = Inr q"
    and u: "(if ss_on_queue w n then Inr (w\<lparr>ss_work := (ss_work w)(n := q)\<rparr>)
      else res_bind (set_in_queue n True (w\<lparr>ss_work := (ss_work w)(n := q)\<rparr>)) (push_node n)) = Inr u"
    using assms(2) by (auto simp: serial_new_work_def add_work_def elim!: res_bind_InrE)
  note busy = bq_push_busy [OF q]
  have "waiting u (if ss_on_queue w n then xs else xs @ [n]) \<and> ss_current u = ss_current w"
  proof (cases "ss_on_queue w n")
    case True
    with u have "u = w\<lparr>ss_work := (ss_work w)(n := q)\<rparr>" by simp
    with True w busy show ?thesis by (auto simp: waiting_def has_work_def)
  next
    case False
    then have n: "n \<notin> set xs" "ss_current w \<noteq> Some n" using waitingD(2) [OF w, of n] by auto
    from push_tail_rep [OF waitingD(1) [OF w] n(1)] obtain d where d: "push_tail_node n (ss_nodes w) = Inr d" "dq_rep d (xs @ [n])"
      by blast
    with u False have "u = w\<lparr>ss_work := (ss_work w)(n := q), ss_on_queue := (ss_on_queue w)(n := True), ss_nodes := d\<rparr>"
      by (simp add: set_in_queue_def push_node_def)
    with False w busy n d(2) show ?thesis by (auto simp: waiting_def has_work_def)
  qed
  then show "waiting u (if ss_on_queue w n then xs else xs @ [n])" and "ss_current u = ss_current w" by blast+
qed

lemma gather_next_waiting:
  assumes w: "waiting w xs" and "serial_gather_next n w = Inr (as, u)" and c: "ss_current w = Some n"
  shows "waiting u xs" and "ss_current u = ss_current w"
proof -
  obtain q where u: "u = w\<lparr>ss_work := (ss_work w)(n := q)\<rparr>"
    using assms(2) by (auto simp: serial_gather_next_def elim!: res_bind_pairE)
  with w c waitingD(3) [OF w c] show "waiting u xs" and "ss_current u = ss_current w" by (auto simp: waiting_def has_work_def)
qed

text \<open>Taking the next node when none is current.\<close>

lemma pop_node_waiting:
  assumes w: "waiting w xs" and "ss_current w = None" and "pop_node w = Inr (r, u)"
  shows "case xs of [] \<Rightarrow> r = None \<and> u = w | n # ys \<Rightarrow> r = Some n \<and> ss_current u = Some n \<and> waiting u ys"
proof (cases xs)
  case Nil
  with assms dq_empty_rep [OF waitingD(1) [OF w]] show ?thesis by (simp add: pop_node_def)
next
  case (Cons n ys)
  with dq_pop_rep [of "ss_nodes w" n ys] waitingD(1) [OF w] obtain d where d: "dq_pop (ss_nodes w) = Inr (Some n, d)" "dq_rep d ys"
    by blast
  have "\<not> dq_empty (ss_nodes w)" using dq_empty_rep [OF waitingD(1) [OF w]] Cons by simp
  with assms(3) d have "r = Some n" and u: "u = w\<lparr>ss_nodes := d, ss_current := Some n\<rparr>"
    by (auto simp: pop_node_def checked_node_def split: if_splits)
  moreover have "waiting u ys" using w Cons d(2) assms(2) unfolding u by (auto simp: waiting_def has_work_def dq_rep_def)
  ultimately show ?thesis using Cons by simp
qed

lemma idle_current:
  assumes w: "waiting w xs" and "ss_current w = Some c" and "\<not> has_work c w" and "set_in_queue c False w = Inr v"
  shows "waiting (v\<lparr>ss_current := None\<rparr>) xs"
  using assms by (auto simp: waiting_def set_in_queue_def has_work_def split: if_splits)

lemma get_work_waiting:
  assumes w: "waiting w xs" and g: "serial_get_work w = Inr (r, u)"
  shows "(\<exists>c. ss_current w = Some c \<and> has_work c w \<and> r = Some c \<and> u = w) \<or>
     (case xs of [] \<Rightarrow> r = None \<and> ss_current u = None \<and> waiting u []
      | n # ys \<Rightarrow> r = Some n \<and> ss_current u = Some n \<and> waiting u ys \<and> ss_current w \<noteq> Some n)"
proof (cases "ss_current w")
  case None
  with g have p: "pop_node w = Inr (r, u)" by (simp add: serial_get_work_def)
  from pop_node_waiting [OF w None p] show ?thesis using None w by (cases xs) auto
next
  case (Some c)
  show ?thesis
  proof (cases "has_work c w")
    case True
    with g Some show ?thesis by (auto simp: serial_get_work_def checked_node_def split: if_splits)
  next
    case False
    with g Some obtain v where v: "set_in_queue c False w = Inr v" and p: "pop_node (v\<lparr>ss_current := None\<rparr>) = Inr (r, u)"
      by (auto simp: serial_get_work_def elim!: res_bind_InrE)
    from pop_node_waiting [OF idle_current [OF w Some False v] _ p] idle_current [OF w Some False v]
    show ?thesis using waitingD(3) [OF w Some] Some by (cases xs) auto
  qed
qed

text \<open>
  No assertion of \<open>get_work\<close> fails, and it answers with a node as long as some node has work.
  The queues of the nodes are required to be sound, so no counter has passed \<open>2^64\<close>.
\<close>

lemma busy_has_work: "bq_ok (ss_work w n) \<Longrightarrow> concat (bq_bins (ss_work w n)) \<noteq> [] \<Longrightarrow> has_work n w"
  unfolding has_work_def by (simp only: bq_empty_iff load_zero not_False_eq_True)

lemma pop_node_progress:
  assumes w: "waiting w xs" and "ss_current w = None" and ok: "\<And>n. bq_ok (ss_work w n)"
  shows "\<exists>r u. pop_node w = Inr (r, u) \<and> (r = None \<longleftrightarrow> xs = [])"
proof (cases xs)
  case Nil
  with dq_empty_rep [OF waitingD(1) [OF w]] show ?thesis by (simp add: pop_node_def)
next
  case (Cons n ys)
  with dq_pop_rep [of "ss_nodes w" n ys] waitingD(1) [OF w] obtain d where d: "dq_pop (ss_nodes w) = Inr (Some n, d)" by blast
  have "\<not> dq_empty (ss_nodes w)" using dq_empty_rep [OF waitingD(1) [OF w]] Cons by simp
  moreover have "has_work n w" using busy_has_work [OF ok] waitingD(4) [OF w, of n] Cons by simp
  moreover have "ss_on_queue w n" using waitingD(2) [OF w, of n] Cons by simp
  ultimately show ?thesis using d Cons by (simp add: pop_node_def checked_node_def has_work_def)
qed

lemma all_idle:
  assumes w: "waiting w xs" and ok: "\<And>n. bq_ok (ss_work w n)" and "\<And>c. ss_current w = Some c \<Longrightarrow> \<not> has_work c w"
  shows "xs = [] \<longleftrightarrow> (\<forall>n. \<not> has_work n w)"
proof
  assume "xs = []"
  then have "\<not> has_work n w" for n using waitingD(2,5) [OF w, of n] assms(3) [of n] by auto
  then show "\<forall>n. \<not> has_work n w" by blast
next
  assume idle: "\<forall>n. \<not> has_work n w"
  have "n \<notin> set xs" for n
  proof
    assume "n \<in> set xs"
    from busy_has_work [OF ok waitingD(4) [OF w this]] idle show False by simp
  qed
  then show "xs = []" by (cases xs) auto
qed

lemma get_work_progress:
  assumes w: "waiting w xs" and ok: "\<And>n. bq_ok (ss_work w n)"
  shows "\<exists>r u. serial_get_work w = Inr (r, u) \<and> (r = None \<longleftrightarrow> (\<forall>n. \<not> has_work n w))"
proof (cases "ss_current w")
  case None
  have "xs = [] \<longleftrightarrow> (\<forall>n. \<not> has_work n w)"
    using all_idle [OF w ok] None by simp
  with pop_node_progress [OF w None ok] None show ?thesis by (auto simp: serial_get_work_def)
next
  case (Some c)
  show ?thesis
  proof (cases "has_work c w")
    case True
    with Some waitingD(2) [OF w, of c] show ?thesis by (auto simp: serial_get_work_def checked_node_def)
  next
    case False
    let ?v = "w\<lparr>ss_on_queue := (ss_on_queue w)(c := False)\<rparr>"
    have v: "set_in_queue c False w = Inr ?v" using waitingD(2) [OF w, of c] Some by (simp add: set_in_queue_def)
    have i: "waiting (?v\<lparr>ss_current := None\<rparr>) xs" by (rule idle_current [OF w Some False v])
    have "xs = [] \<longleftrightarrow> (\<forall>n. \<not> has_work n w)"
      using all_idle [OF w ok] Some False by simp
    with pop_node_progress [OF i] ok Some False v show ?thesis by (auto simp: serial_get_work_def)
  qed
qed

section \<open>Every waiting node has its turn\<close>

lemma serial_run_waiting:
  "serial_run w ns v \<Longrightarrow> waiting w xs \<Longrightarrow> \<exists>ys zs. waiting v zs \<and> xs @ ys = ns @ zs"
proof (induction rule: serial_run.induct)
  case (rest w)
  then show ?case by (intro exI [of _ "[]"] exI [of _ xs]) simp
next
  case (arrive w ns v n a l u)
  then obtain ys zs where z: "waiting v zs" "xs @ ys = ns @ zs" by blast
  show ?case
  proof (cases "ss_on_queue v n")
    case True
    with new_work_waiting(1) [OF z(1) arrive.hyps(2)] z(2) show ?thesis by auto
  next
    case False
    with new_work_waiting(1) [OF z(1) arrive.hyps(2)] z(2) have "waiting u (zs @ [n])" "xs @ (ys @ [n]) = ns @ (zs @ [n])" by auto
    then show ?thesis by blast
  qed
next
  case (take w ns v n as u)
  then show ?case using gather_next_waiting(1) by blast
next
  case (again w ns v n u)
  then obtain ys zs where z: "waiting v zs" "xs @ ys = ns @ zs" by blast
  from get_work_waiting [OF z(1) again.hyps(2)] again.hyps(3) z show ?case by (cases zs) auto
next
  case (switch w ns v n u)
  then obtain ys zs where z: "waiting v zs" "xs @ ys = ns @ zs" by blast
  from get_work_waiting [OF z(1) switch.hyps(2)] switch.hyps(3) obtain zs' where "zs = n # zs'" "waiting u zs'"
    by (cases zs) auto
  with z(2) show ?case by auto
qed

inductive_cases serial_run_emptyE: "serial_run w [] v"

text \<open>
  C7: A node that waits in the serial scheduler has its turn. From a state whose queue holds
  \<open>xs\<close>, however work arrives and is taken, the nodes that become current are those of \<open>xs\<close>
  in order before any node queued later, so a node with \<open>i\<close> nodes before it is the one taken
  at the \<open>i\<close>-th change of nodes; and as long as no queue overflows, \<open>get_work\<close> fails no
  assertion and stops with nothing only when no node at all has work.
\<close>

theorem serial_turns:
  assumes "waiting w xs" and "serial_run w ns v"
  shows "(\<forall>i < length xs. i < length ns \<longrightarrow> ns ! i = xs ! i) \<and>
     ((\<forall>n. bq_ok (ss_work v n)) \<longrightarrow>
        (\<exists>r u. serial_get_work v = Inr (r, u) \<and> (r = None \<longleftrightarrow> (\<forall>n. \<not> has_work n v)) \<and>
           (r = None \<longrightarrow> take (length xs) ns = xs)))"
proof -
  obtain ys zs where z: "waiting v zs" "xs @ ys = ns @ zs" using serial_run_waiting [OF assms(2,1)] by blast
  have "ns ! i = xs ! i" if "i < length xs" "i < length ns" for i
    using that arg_cong [OF z(2), of "\<lambda>l. l ! i"] by (simp add: nth_append)
  moreover have "\<exists>r u. serial_get_work v = Inr (r, u) \<and> (r = None \<longleftrightarrow> (\<forall>n. \<not> has_work n v)) \<and>
      (r = None \<longrightarrow> take (length xs) ns = xs)" if ok: "\<forall>n. bq_ok (ss_work v n)"
  proof -
    obtain r u where g: "serial_get_work v = Inr (r, u)" "r = None \<longleftrightarrow> (\<forall>n. \<not> has_work n v)"
      using get_work_progress [OF z(1)] ok by blast
    have "take (length xs) ns = xs" if "r = None"
    proof -
      have "zs = []" using get_work_waiting [OF z(1) g(1)] that by (cases zs) auto
      with z(2) have "ns = xs @ ys" by simp
      then show ?thesis by simp
    qed
    with g show ?thesis by blast
  qed
  ultimately show ?thesis by blast
qed

section \<open>The contract with the virtual machine\<close>

definition serves :: "node_val \<Rightarrow> serial \<Rightarrow> serial \<Rightarrow> bool" where
  "serves n w v \<longleftrightarrow> (ss_current w = Some n \<longrightarrow> serial_run w [] v \<and> ss_current v = Some n)"

lemma new_work_current: "serial_new_work n a l w = Inr u \<Longrightarrow> ss_current u = ss_current w"
  by (auto simp: serial_new_work_def add_work_def set_in_queue_def push_node_def elim!: res_bind_InrE split: if_splits)

lemma gather_next_current: "serial_gather_next n w = Inr (as, u) \<Longrightarrow> ss_current u = ss_current w"
  by (auto simp: serial_gather_next_def elim!: res_bind_pairE)

interpretation sl: node_contract serial_ops "serves n" n for n
proof
  show "serves n w w" for w by (simp add: serves_def serial_run.rest)
  show "serves n w u" if "serves n w v" "serves n v u" for w v u
    using that serial_run_append [of v "[]" u w "[]"] by (auto simp: serves_def)
  show "serves n w u" if "sd_new_work serial_ops c src m a l w = Inr u" for c src m a l w u
    using that serial_run.arrive [OF serial_run.rest] by (auto simp: serves_def serial_ops_def new_work_current)
  show "serves n w u" if "sd_gather_next serial_ops n w = Inr (as, u)" for as w u
    using that serial_run.take [OF serial_run.rest] by (auto simp: serves_def serial_ops_def gather_next_current)
qed (auto simp: serial_ops_def serves_def serial_run.rest)

lemma run_node_serves:
  assumes "run_node env serial_ops k n s = Some (Inr ((), t))" and "ss_current (vs_sched s) = Some n"
  shows "serial_run (vs_sched s) [] (vs_sched t)" and "ss_current (vs_sched t) = Some n"
  using act_frameD [OF sl.sched_run_node assms(1)] assms(2) by (simp_all add: sched_kept_def serves_def)

lemma get_work_current: "serial_get_work w = Inr (Some n, u) \<Longrightarrow> ss_current u = Some n"
  by (auto simp: serial_get_work_def pop_node_def checked_node_def elim!: res_bind_InrE res_bind_pairE split: option.splits if_splits)

lemma get_work_run:
  assumes "serial_get_work w = Inr (Some n, u)"
  shows "\<exists>ns. serial_run w ns u"
  using serial_run.again [OF serial_run.rest assms] serial_run.switch [OF serial_run.rest assms] by blast

lemma serve_run:
  "serve env k m s = Some (Inr ((), t)) \<Longrightarrow>
   \<exists>ns v. serial_run (vs_sched s) ns v \<and> serial_get_work v = Inr (None, vs_sched t)"
proof (induction m arbitrary: s)
  case (Suc m)
  then obtain r w where g: "serial_get_work (vs_sched s) = Inr (r, w)"
    and c: "(case r of None \<Rightarrow> act_return () | Some n \<Rightarrow> act_then (run_node env serial_ops k n) (serve env k m)) (s\<lparr>vs_sched := w\<rparr>)
      = Some (Inr ((), t))"
    by (auto simp: act_step_def elim!: act_bind_InrE res_bind_pairE)
  show ?case
  proof (cases r)
    case None
    with c have "t = s\<lparr>vs_sched := w\<rparr>" by simp
    with g None have "serial_get_work (vs_sched s) = Inr (None, vs_sched t)" by simp
    then show ?thesis using serial_run.rest by blast
  next
    case (Some n)
    with c obtain u where u: "run_node env serial_ops k n (s\<lparr>vs_sched := w\<rparr>) = Some (Inr ((), u))"
      and v: "serve env k m u = Some (Inr ((), t))"
      by (auto elim: act_then_InrE)
    obtain ns where a: "serial_run (vs_sched s) ns w" using get_work_run g Some by blast
    have b: "serial_run w [] (vs_sched u)" using run_node_serves(1) [OF u] get_work_current g Some by simp
    from Suc.IH [OF v] obtain ms x where "serial_run (vs_sched u) ms x" "serial_get_work x = Inr (None, vs_sched t)" by blast
    with serial_run_append [OF _ serial_run_append [OF b a]] show ?thesis by blast
  qed
qed simp

lemma serve_idle:
  assumes "waiting (vs_sched s) xs" and "serve env k m s = Some (Inr ((), t))"
  shows "waiting (vs_sched t) []" and "ss_current (vs_sched t) = None"
    and "\<exists>ns v. serial_run (vs_sched s) ns v \<and> take (length xs) ns = xs \<and> serial_get_work v = Inr (None, vs_sched t)"
proof -
  obtain ns v where r: "serial_run (vs_sched s) ns v" and g: "serial_get_work v = Inr (None, vs_sched t)"
    using serve_run [OF assms(2)] by blast
  obtain ys zs where z: "waiting v zs" "xs @ ys = ns @ zs" using serial_run_waiting [OF r assms(1)] by blast
  show t: "waiting (vs_sched t) []" "ss_current (vs_sched t) = None" using get_work_waiting [OF z(1) g] by (cases zs; simp)+
  have "zs = []" using get_work_waiting [OF z(1) g] by (cases zs; simp)+
  then have "take (length xs) ns = xs" using z(2) by (metis append_Nil2 append_eq_conv_conj)
  with r g show "\<exists>ns v. serial_run (vs_sched s) ns v \<and> take (length xs) ns = xs \<and> serial_get_work v = Inr (None, vs_sched t)"
    by blast
qed

section \<open>From the start to the end\<close>

text \<open>Between the runs no node is current, and the queue stays in order.\<close>

definition between_runs :: "serial \<Rightarrow> bool" where
  "between_runs w \<longleftrightarrow> ss_current w = None \<and> (\<exists>xs. waiting w xs)"

definition kept_between :: "serial \<Rightarrow> serial \<Rightarrow> bool" where
  "kept_between w v \<longleftrightarrow> (between_runs w \<longrightarrow> between_runs v)"

lemma new_work_between: "serial_new_work n a l w = Inr v \<Longrightarrow> kept_between w v"
  using new_work_waiting(1) [of w _ n a l v] by (fastforce simp: kept_between_def between_runs_def new_work_current)

interpretation sb: sched_contract serial_ops kept_between
  by unfold_locales (auto simp: serial_ops_def kept_between_def dest: new_work_between)

lemma between_of_frame: "act_frame (framed kept_between) m \<Longrightarrow> act_frame (sched_kept kept_between) m"
  by (auto simp: act_frame_def framed_def sched_kept_def)

lemma between_each_static:
  "(\<And>n. act_frame (sched_kept kept_between) (f n)) \<Longrightarrow> act_frame (sched_kept kept_between) (each_static env f)"
  unfolding each_static_def by (intro sb.sk.frame_rules)

lemma between_agg: "act_frame (sched_kept kept_between) (new_work_agg n st)"
  unfolding new_work_agg_def
  by (intro sb.sk.frame_rules between_of_frame [OF sb.frame_effects(3)] between_of_frame [OF sb.frame_effects(4)]
      between_of_frame [OF sb.frame_sched] new_work_between)

lemma between_terminate: "act_frame (sched_kept kept_between) (terminate_iteration env)"
proof -
  have "act_frame (sched_kept kept_between) (act_step (\<lambda>s. res_bind (find_node n (vs_db s)) (\<lambda>nd.
       res_bind (end_iteration (f_add (env_floats env)) nd) (\<lambda>(ls, nd').
       Inr (ls, s\<lparr>vs_db := (vs_db s)\<lparr>db_nodes := map_put n nd' (db_nodes (vs_db s))\<rparr>\<rparr>)))))" for n
    by (rule sb.sk.frame_step) (auto simp: sched_kept_def kept_between_def elim!: res_bind_InrE res_bind_pairE)
  then have "act_frame (sched_kept kept_between) (node_iteration env n)" for n
    unfolding node_iteration_def by (intro sb.sk.frame_rules between_agg)
  then show ?thesis unfolding terminate_iteration_def by (intro sb.sk.frame_rules between_each_static)
qed

lemma between_asserts:
  "act_frame (sched_kept kept_between) (assert_end_iteration env)" "act_frame (sched_kept kept_between) (assert_end env)"
  unfolding assert_end_iteration_def assert_end_def assert_node_idle_def by (intro sb.sk.frame_rules between_each_static)+

lemma between_init: "act_frame (sched_kept kept_between) (serial_init env)"
  unfolding serial_init_def
  by (intro sb.sk.frame_rules between_each_static between_of_frame [OF sb.frame_init_node])

interpretation eq: state_order "\<lambda>s t :: 's. t = s"
  by unfold_locales auto

lemma assert_end_same: "assert_end env s = Some (Inr ((), t)) \<Longrightarrow> t = s"
proof -
  have "act_frame (\<lambda>s t. t = s) (assert_end env)"
    unfolding assert_end_def assert_node_idle_def each_static_def by (intro eq.frame_rules)
  then show "assert_end env s = Some (Inr ((), t)) \<Longrightarrow> t = s" by (rule act_frameD)
qed

lemma do_loop_idle:
  "do_loop env k m s = Some (Inr ((), t)) \<Longrightarrow> between_runs (vs_sched s) \<Longrightarrow>
   between_runs (vs_sched t) \<and> dq_empty (ss_nodes (vs_sched t))"
proof (induction m arbitrary: s)
  case (Suc m)
  then obtain u v more w where u: "serve env k k s = Some (Inr ((), u))" and v: "assert_end_iteration env u = Some (Inr ((), v))"
    and w: "terminate_iteration env v = Some (Inr (more, w))"
    and t: "(if more then do_loop env k m else act_return ()) w = Some (Inr ((), t))"
    by (auto elim!: act_bind_InrE act_then_InrE)
  have "between_runs (vs_sched u)" using serve_idle [OF _ u] Suc.prems(2) by (auto simp: between_runs_def)
  then have b: "between_runs (vs_sched w)"
    using act_frameD [OF between_asserts(1) v] act_frameD [OF between_terminate w] by (simp add: sched_kept_def kept_between_def)
  have "more \<longleftrightarrow> \<not> dq_empty (ss_nodes (vs_sched w))"
    using w by (auto simp: terminate_iteration_def elim!: act_then_InrE)
  with t b Suc.IH [of w] show ?case by (auto split: if_splits)
qed simp

text \<open>
  C6: When the serial scheduler returns from a program, nothing is left to do. From its first
  state on, through the initial tuples, the runs of the nodes, whatever their code does, and
  the iterations that the aggregates start, no tuple is lost to the scheduler: at the end
  the queue of nodes is empty, no node is current or marked as queued, and no node has a
  tuple waiting, the nodes created on the way included, which no assertion of the code
  covers.
\<close>

theorem serial_leaves_no_work:
  assumes "new_serial levels = Some (Inr (vs_sched s))" and "0 < levels" and "levels \<le> 2 ^ 63"
    and "loop env k s = Some (Inr ((), t))"
  shows "dq_rep (ss_nodes (vs_sched t)) [] \<and> ss_current (vs_sched t) = None \<and>
     (\<forall>n. \<not> ss_on_queue (vs_sched t) n \<and> \<not> has_work n (vs_sched t))"
proof -
  have "between_runs (vs_sched s)" using new_serial_waiting [OF assms(2,3)] assms(1) by (auto simp: between_runs_def)
  moreover obtain u v where u: "serial_init env s = Some (Inr ((), u))" and v: "do_loop env k k u = Some (Inr ((), v))"
    and t: "assert_end env v = Some (Inr ((), t))"
    using assms(4) by (auto simp: loop_def elim!: act_then_InrE)
  ultimately have "between_runs (vs_sched v) \<and> dq_empty (ss_nodes (vs_sched v))"
    using do_loop_idle [OF v] act_frameD [OF between_init u] by (simp add: sched_kept_def kept_between_def)
  with assert_end_same [OF t] obtain xs where w: "waiting (vs_sched t) xs" and c: "ss_current (vs_sched t) = None"
    and e: "dq_empty (ss_nodes (vs_sched t))" by (auto simp: between_runs_def)
  then have "xs = []" using dq_empty_rep [OF waitingD(1) [OF w]] by simp
  with w c waitingD(1,2,5) [OF w] show ?thesis by auto
qed

section \<open>Examples\<close>

text \<open>A queue for a program of one level, and nodes that wait with one tuple each.\<close>

definition level_queue :: "saddr list \<Rightarrow> saddr bpqueue" where
  "level_queue as = \<lparr>bq_root = Bin as, bq_total = of_nat (length as), bq_range = 1\<rparr>"

definition two_waiting :: serial where
  "two_waiting =
     \<lparr>ss_nodes = \<lparr>dq_head = Some 4, dq_tail = Some 7, dq_next = [4 \<mapsto> 7], dq_prev = [7 \<mapsto> 4], dq_in = (\<lambda>n. n = 4 \<or> n = 7), dq_total = 2\<rparr>,
      ss_current = None, ss_on_queue = (\<lambda>n. n = 4 \<or> n = 7),
      ss_work = (\<lambda>n. level_queue (if n = 4 then [1] else if n = 7 then [2] else []))\<rparr>"

lemma level_queue_ok: "length as < 2 ^ 64 \<Longrightarrow> bq_ok (level_queue as)"
  by (simp add: bq_ok_def level_queue_def load_def)

lemma level_queue_total [simp]: "bq_total (level_queue as) = of_nat (length as)"
  by (simp add: level_queue_def)

lemma two_waiting_waits: "waiting two_waiting [4, 7]"
  by (auto simp: waiting_def two_waiting_def dq_rep_def level_queue_def has_work_def bq_empty_def split: if_splits)

lemma two_waiting_first:
  "\<exists>v. serial_get_work two_waiting = Inr (Some 4, v) \<and> (\<forall>n. bq_ok (ss_work v n)) \<and> has_work 4 v"
  by (simp add: serial_get_work_def pop_node_def checked_node_def dq_pop_def dq_empty_def dq_updates two_waiting_def
      has_work_def level_queue_ok bq_empty_def Let_def)

theorem serial_turns_witness:
  "\<exists>v. serial_run two_waiting [4] v \<and> [4 :: node_val] ! 0 = [4, 7] ! 0 \<and>
     (\<exists>r u. serial_get_work v = Inr (r, u) \<and> r \<noteq> None)"
proof -
  obtain v where v: "serial_get_work two_waiting = Inr (Some 4, v)" "\<forall>n. bq_ok (ss_work v n)" "has_work 4 v"
    using two_waiting_first by blast
  have "ss_current two_waiting \<noteq> Some 4" by (simp add: two_waiting_def)
  from serial_run.switch [OF serial_run.rest v(1) this] have r: "serial_run two_waiting [4] v" by simp
  with serial_turns [OF two_waiting_waits r] v(2,3) show ?thesis by auto
qed

text \<open>A program whose initial predicate does nothing, run at one node from the beginning to the end.\<close>

definition start_program :: program where
  "start_program = no_rules\<lparr>prog_predicates := [edge_pred\<lparr>pred_name := init_name\<rparr>]\<rparr>"

definition start_env :: code_env where
  "start_env = (example_env start_program iter_bytes)\<lparr>env_pred_code := (\<lambda>_. 11)\<rparr>"

definition start_sched :: serial where
  "start_sched = \<lparr>ss_nodes = new_dqueue, ss_current = None, ss_on_queue = (\<lambda>_. False), ss_work = (\<lambda>_. level_queue [])\<rparr>"

definition start_state :: "serial vstate" where
  "start_state = rest_state ((new_database 1)\<lparr>db_nodes := [(0, new_node start_program 0 0)]\<rparr>) start_sched"

lemma start_is_new: "new_serial 1 = Some (Inr (vs_sched start_state))"
proof -
  have "next_power2 1 = Some 1" unfolding next_power2_def by (subst next_power2_loop.simps) simp
  moreover have "upper_log2 1 = Some 0" unfolding upper_log2_def by (subst upper_log2_loop.simps) simp
  ultimately show ?thesis
    by (simp add: new_serial_def new_bpqueue_def start_state_def start_sched_def rest_state_def level_queue_def)
qed

lemma start_runs: "act_ok (loop start_env 2 start_state)"
  by code_simp

theorem serial_leaves_no_work_witness:
  "\<exists>t. loop start_env 2 start_state = Some (Inr ((), t)) \<and> dq_rep (ss_nodes (vs_sched t)) [] \<and>
     \<not> has_work 0 (vs_sched t)"
  using start_runs serial_leaves_no_work [OF start_is_new, of start_env 2] by (auto simp: act_ok_def)

end
