(* ===== verification/External_Lists.thy ===== *)
theory External_Lists
  imports Vm_External Vm_Tuple
begin

text \<open>
  The built-in functions on integers and lists, \<open>external/lists.cpp\<close> and the part of
  \<open>external/math.cpp\<close> without doubles. Lists are values here, as in the interpreter; a
  stack is the list of its elements, top first. Every loop of the code is a recursion over
  the list its pointer runs through.
\<close>

section \<open>Stacks and vectors\<close>

fun stack_to_list :: "'a list \<Rightarrow> 'a list \<Rightarrow> 'a list" where
  "stack_to_list [] p = p"
| "stack_to_list (x # s) p = stack_to_list s (x # p)"

definition from_stack :: "'a list \<Rightarrow> 'a list" where
  "from_stack s = stack_to_list s []"

fun move_stack :: "'a list \<Rightarrow> 'a list \<Rightarrow> 'a list" where
  "move_stack [] s2 = s2"
| "move_stack (x # s) s2 = move_stack s (x # s2)"

definition from_stack_reverse :: "'a list \<Rightarrow> 'a list" where
  "from_stack_reverse s = from_stack (move_stack s [])"

fun vector_to_reverse :: "'a list \<Rightarrow> 'a list \<Rightarrow> 'a list" where
  "vector_to_reverse [] p = p"
| "vector_to_reverse (x # v) p = vector_to_reverse v (x # p)"

fun push_all :: "'a list \<Rightarrow> 'a list \<Rightarrow> 'a list" where
  "push_all [] s = s"
| "push_all (x # p) s = push_all p (x # s)"

lemma stack_to_list_eq [simp]: "stack_to_list s p = rev s @ p"
  by (induction s p rule: stack_to_list.induct) auto

lemma move_stack_eq [simp]: "move_stack s p = rev s @ p"
  by (induction s p rule: move_stack.induct) auto

lemma vector_to_reverse_eq [simp]: "vector_to_reverse s p = rev s @ p"
  by (induction s p rule: vector_to_reverse.induct) auto

lemma push_stack_eq [simp]: "push_all p s = rev p @ s"
  by (induction p s rule: push_all.induct) auto

lemma from_stack_eq [simp]: "from_stack s = rev s"
  by (simp add: from_stack_def)

lemma from_stack_reverse_eq [simp]: "from_stack_reverse s = s"
  by (simp add: from_stack_reverse_def)

section \<open>Lists (external/lists.cpp)\<close>

fun length_loop :: "int_val \<Rightarrow> 'a list \<Rightarrow> int_val" where
  "length_loop t [] = t"
| "length_loop t (x # p) = length_loop (t + 1) p"

definition intlistlength :: "int_val list \<Rightarrow> int_val" where
  "intlistlength ls = length_loop 0 ls"

definition nodelistlength :: "node_val list \<Rightarrow> int_val" where
  "nodelistlength ls = length_loop 0 ls"

fun has_value :: "int_val list \<Rightarrow> int_val \<Rightarrow> bool" where
  "has_value [] v = False"
| "has_value (x # l) v = (if x = v then True else has_value l v)"

fun diff_loop :: "int_val list \<Rightarrow> int_val list \<Rightarrow> int_val list \<Rightarrow> int_val list" where
  "diff_loop ls2 [] s = s"
| "diff_loop ls2 (x # p) s = diff_loop ls2 p (if \<not> has_value ls2 x then x # s else s)"

definition intlistdiff :: "int_val list \<Rightarrow> int_val list \<Rightarrow> int_val list" where
  "intlistdiff ls1 ls2 = from_stack (diff_loop ls2 ls1 [])"

fun nth_loop :: "int_val \<Rightarrow> int_val \<Rightarrow> int_val list \<Rightarrow> int_val res" where
  "nth_loop v c [] = Inl Assert_Failed"
| "nth_loop v c (x # p) = (if c = v then Inr x else nth_loop v (c + 1) p)"

definition intlistnth :: "int_val list \<Rightarrow> int_val \<Rightarrow> int_val res" where
  "intlistnth ls v = nth_loop v 0 ls"

fun remove_loop :: "node_val \<Rightarrow> node_val list \<Rightarrow> node_val list \<Rightarrow> node_val list" where
  "remove_loop n [] s = s"
| "remove_loop n (x # p) s = remove_loop n p (if x \<noteq> n then x # s else s)"

definition nodelistremove :: "node_val list \<Rightarrow> node_val \<Rightarrow> node_val list" where
  "nodelistremove ls n = from_stack (remove_loop n ls [])"

fun skip_loop :: "int_val \<Rightarrow> int_val \<Rightarrow> int_val list \<Rightarrow> int_val \<times> int_val list" where
  "skip_loop a ctn [] = (ctn, [])"
| "skip_loop a ctn (x # ls) = (if ctn <s a then skip_loop a (ctn + 1) ls else (ctn, x # ls))"

fun take_loop :: "int_val \<Rightarrow> int_val \<Rightarrow> int_val list \<Rightarrow> int_val list \<Rightarrow> int_val list" where
  "take_loop b ctn [] s = s"
| "take_loop b ctn (x # ls) s = (if ctn <s b then take_loop b (ctn + 1) ls (x # s) else s)"

definition intlistsub :: "int_val list \<Rightarrow> int_val \<Rightarrow> int_val \<Rightarrow> int_val list" where
  "intlistsub p a b = (case skip_loop a 0 p of (ctn, ls) \<Rightarrow> from_stack (take_loop b ctn ls []))"

definition intlistappend :: "int_val list \<Rightarrow> int_val list \<Rightarrow> int_val list" where
  "intlistappend ls1 ls2 = from_stack (push_all ls2 (push_all ls1 []))"

definition nodelistappend :: "node_val list \<Rightarrow> node_val list \<Rightarrow> node_val list" where
  "nodelistappend ls1 ls2 = from_stack (push_all ls2 (push_all ls1 []))"

text \<open>\<open>std::sort\<close> with \<open>i > j\<close>, then the list in reverse.\<close>

definition sort_descending :: "int_val list \<Rightarrow> int_val list" where
  "sort_descending v = rev (sort_key sint v)"

definition intlistsort :: "int_val list \<Rightarrow> int_val list" where
  "intlistsort ls = vector_to_reverse (sort_descending (rev (push_all ls []))) []"

fun mark_loop :: "int_val list \<Rightarrow> nat \<Rightarrow> nat list \<Rightarrow> bool list \<Rightarrow> bool list" where
  "mark_loop vec i [] marked = marked"
| "mark_loop vec i (j # js) marked = mark_loop vec i js (if vec ! j = vec ! i then marked[j := False] else marked)"

fun dedup_loop :: "int_val list \<Rightarrow> nat list \<Rightarrow> bool list \<Rightarrow> int_val list \<Rightarrow> int_val list" where
  "dedup_loop vec [] marked s = s"
| "dedup_loop vec (i # is) marked s =
     (if \<not> marked ! i then dedup_loop vec is marked s
      else dedup_loop vec is (mark_loop vec i [i + 1..<length vec] marked) (vec ! i # s))"

definition intlistremoveduplicates :: "int_val list \<Rightarrow> int_val list" where
  "intlistremoveduplicates ls =
     (let vec = rev (push_all ls []) in from_stack (dedup_loop vec [0..<length vec] (replicate (length vec) True) []))"

fun equal_loop :: "int_val list \<Rightarrow> int_val list \<Rightarrow> int_val" where
  "equal_loop [] ls2 = (if ls2 \<noteq> [] then 0 else 1)"
| "equal_loop (x # ls1) [] = 0"
| "equal_loop (x # ls1) (y # ls2) = (if x \<noteq> y then 0 else equal_loop ls1 ls2)"

definition intlistequal :: "int_val list \<Rightarrow> int_val list \<Rightarrow> int_val" where
  "intlistequal l1 l2 = equal_loop l1 l2"

fun count_loop :: "node_val \<Rightarrow> node_val list \<Rightarrow> int_val \<Rightarrow> int_val" where
  "count_loop el [] t = t"
| "count_loop el (x # p) t = count_loop el p (if x = el then t + 1 else t)"

definition nodelistcount :: "node_val list \<Rightarrow> node_val \<Rightarrow> int_val" where
  "nodelistcount ls el = count_loop el ls 0"

definition nodelistreverse :: "node_val list \<Rightarrow> node_val list" where
  "nodelistreverse ls = from_stack_reverse (push_all ls [])"

fun last_loop :: "node_val \<Rightarrow> node_val list \<Rightarrow> node_val" where
  "last_loop l [] = l"
| "last_loop l (x # p) = last_loop x p"

definition nodelistlast :: "node_val list \<Rightarrow> node_val" where
  "nodelistlast ls = last_loop 0 ls"

section \<open>Integers (external/math.cpp)\<close>

fun power_loop :: "nat \<Rightarrow> int_val \<Rightarrow> int_val \<Rightarrow> int_val" where
  "power_loop 0 n1 result = result"
| "power_loop (Suc i) n1 result = power_loop i n1 (result * n1)"

text \<open>
  The loop runs from zero up to \<open>n2\<close>, not at all when it is negative. The product wraps
  around, as it does in the build without optimisation; the language leaves it undefined.
\<close>

definition intpower :: "int_val \<Rightarrow> int_val \<Rightarrow> int_val" where
  "intpower n1 n2 = power_loop (nat (sint n2)) n1 1"

fun merge_loop :: "int_val list \<Rightarrow> int_val list \<Rightarrow> int_val list \<Rightarrow> int_val list res" where
  "merge_loop [] ls2 s = Inr s"
| "merge_loop (x # ls1) [] s = Inl Assert_Failed"
| "merge_loop (x # ls1) (y # ls2) s = merge_loop ls1 ls2 ((x OR y) # s)"

definition demergemessages :: "int_val list \<Rightarrow> int_val list \<Rightarrow> int_val list res" where
  "demergemessages v1 v2 = res_bind (merge_loop v1 v2 []) (\<lambda>s. Inr (from_stack_reverse s))"

section \<open>What they compute\<close>

lemma length_loop_eq: "length_loop t ls = t + of_nat (length ls)"
  by (induction t ls rule: length_loop.induct) (auto simp: algebra_simps)

lemma has_value_iff [simp]: "has_value ls v \<longleftrightarrow> v \<in> set ls"
  by (induction ls) auto

lemma diff_loop_eq: "diff_loop ls2 p s = rev (filter (\<lambda>x. x \<notin> set ls2) p) @ s"
  by (induction ls2 p s rule: diff_loop.induct) auto

lemma remove_loop_eq: "remove_loop n p s = rev (filter (\<lambda>x. x \<noteq> n) p) @ s"
  by (induction n p s rule: remove_loop.induct) auto

lemma count_loop_eq: "count_loop el p t = t + of_nat (count_list p el)"
  by (induction el p t rule: count_loop.induct) (auto simp: algebra_simps)

lemma last_loop_eq: "last_loop l p = (if p = [] then l else last p)"
  by (induction l p rule: last_loop.induct) auto

lemma equal_loop_eq: "equal_loop l1 l2 = (if l1 = l2 then 1 else 0)"
  by (induction l1 l2 rule: equal_loop.induct) auto

lemma power_loop_eq: "power_loop i n r = r * n ^ i"
  by (induction i n r rule: power_loop.induct) (auto simp: algebra_simps)

lemma merge_loop_eq:
  "length l1 \<le> length l2 \<Longrightarrow> merge_loop l1 l2 s = Inr (rev (map2 (OR) l1 l2) @ s)"
  by (induction l1 l2 s rule: merge_loop.induct) auto

text \<open>Counters of 32 bits count right below \<open>2^31\<close>.\<close>

lemma sint_inc32: "sint (c :: int_val) < 2 ^ 31 - 1 \<Longrightarrow> sint (c + 1) = sint c + 1"
  using sint_ge [of c] by (simp add: sint_word_add signed_take_bit_int_eq_self)

lemma nth_loop_eq:
  "0 \<le> sint c \<Longrightarrow> sint c + int (length ls) < 2 ^ 31 \<Longrightarrow>
   nth_loop v c ls = (if sint c \<le> sint v \<and> sint v < sint c + int (length ls) then Inr (ls ! nat (sint v - sint c)) else Inl Assert_Failed)"
proof (induction v c ls rule: nth_loop.induct)
  case (2 v c x p)
  have s: "p \<noteq> [] \<Longrightarrow> sint (c + 1) = sint c + 1" using "2.prems" by (intro sint_inc32) (cases p; auto)
  show ?case
  proof (cases "c = v")
    case False
    then have n: "sint c \<noteq> sint v" by (auto dest: signed_word_eqI)
    show ?thesis
    proof (cases "p = []")
      case True
      with False n show ?thesis by auto
    next
      case ne: False
      have "nth_loop v (c + 1) p =
          (if sint c + 1 \<le> sint v \<and> sint v < sint c + 1 + int (length p) then Inr (p ! nat (sint v - (sint c + 1))) else Inl Assert_Failed)"
        using 2 False s [OF ne] by simp
      moreover have "(x # p) ! nat (sint v - sint c) = p ! nat (sint v - (sint c + 1))" if "sint c + 1 \<le> sint v"
      proof -
        have "nat (sint v - sint c) = Suc (nat (sint v - (sint c + 1)))" using that by simp
        then show ?thesis by simp
      qed
      ultimately show ?thesis using False n by auto
    qed
  qed simp
qed simp

lemma skip_loop_eq:
  "0 \<le> sint c \<Longrightarrow> sint c + int (length ls) < 2 ^ 31 \<Longrightarrow>
   \<exists>c'. skip_loop a c ls = (c', drop (nat (sint a - sint c)) ls) \<and> sint c' = sint c + int (min (nat (sint a - sint c)) (length ls))"
proof (induction a c ls rule: skip_loop.induct)
  case (2 a c x ls)
  show ?case
  proof (cases "c <s a")
    case True
    then have lt: "sint c < sint a" by (simp add: word_sless_alt)
    have s: "sint (c + 1) = sint c + 1" using lt sint_lt [of a] by (intro sint_inc32) simp
    then obtain c' where c': "skip_loop a (c + 1) ls = (c', drop (nat (sint a - (sint c + 1))) ls)"
      "sint c' = sint c + 1 + int (min (nat (sint a - (sint c + 1))) (length ls))"
      using 2 True by auto
    have "nat (sint a - sint c) = Suc (nat (sint a - (sint c + 1)))" using lt by simp
    with c' True show ?thesis by auto
  next
    case False
    then have "nat (sint a - sint c) = 0" by (simp add: word_sless_alt)
    with False show ?thesis by auto
  qed
qed auto

lemma take_loop_eq:
  "0 \<le> sint c \<Longrightarrow> sint c + int (length ls) < 2 ^ 31 \<Longrightarrow> take_loop b c ls s = rev (take (nat (sint b - sint c)) ls) @ s"
proof (induction b c ls s rule: take_loop.induct)
  case (2 b c x ls s)
  show ?case
  proof (cases "c <s b")
    case True
    then have lt: "sint c < sint b" by (simp add: word_sless_alt)
    have "sint (c + 1) = sint c + 1" using lt sint_lt [of b] by (intro sint_inc32) simp
    moreover have "nat (sint b - sint c) = Suc (nat (sint b - (sint c + 1)))" using lt by simp
    ultimately show ?thesis using 2 True by simp
  next
    case False
    then have "nat (sint b - sint c) = 0" by (simp add: word_sless_alt)
    with False show ?thesis by simp
  qed
qed auto

text \<open>The elements in the order of their first occurrence.\<close>

definition firsts :: "'a list \<Rightarrow> 'a list" where
  "firsts xs = rev (remdups (rev xs))"

lemma firsts_snoc [simp]: "firsts (xs @ [x]) = (if x \<in> set xs then firsts xs else firsts xs @ [x])"
  by (simp add: firsts_def)

lemma firsts_Nil [simp]: "firsts [] = []"
  by (simp add: firsts_def)

lemma mark_loop_length [simp]: "length (mark_loop vec i js marked) = length marked"
  by (induction vec i js marked rule: mark_loop.induct) auto

lemma mark_loop_nth:
  "k < length marked \<Longrightarrow> mark_loop vec i js marked ! k \<longleftrightarrow> marked ! k \<and> \<not> (k \<in> set js \<and> vec ! k = vec ! i)"
proof (induction vec i js marked rule: mark_loop.induct)
  case (2 vec i j js marked)
  then show ?case by (cases "j = k") auto
qed simp

lemma dedup_loop_eq:
  assumes "i \<le> length vec" and "length marked = length vec"
    and "\<And>k. i \<le> k \<Longrightarrow> k < length vec \<Longrightarrow> marked ! k \<longleftrightarrow> vec ! k \<notin> set (take i vec)"
  shows "dedup_loop vec [i..<length vec] marked (rev (firsts (take i vec))) = rev (firsts vec)"
  using assms
proof (induction "length vec - i" arbitrary: i marked)
  case 0
  then show ?case by simp
next
  case (Suc n)
  then have i: "i < length vec" by simp
  then have t: "take (Suc i) vec = take i vec @ [vec ! i]" by (simp add: take_Suc_conv_app_nth)
  have u: "[i..<length vec] = i # [Suc i..<length vec]" using i by (simp add: upt_conv_Cons)
  show ?case
  proof (cases "marked ! i")
    case False
    then have m: "vec ! i \<in> set (take i vec)" using Suc.prems i by auto
    have "dedup_loop vec [Suc i..<length vec] marked (rev (firsts (take (Suc i) vec))) = rev (firsts vec)"
    proof (rule Suc.hyps(1))
      show "marked ! k \<longleftrightarrow> vec ! k \<notin> set (take (Suc i) vec)" if "Suc i \<le> k" "k < length vec" for k
        using Suc.prems(3) [of k] that t m by auto
    qed (use Suc i in auto)
    with m t False show ?thesis by (simp add: u)
  next
    case True
    then have m: "vec ! i \<notin> set (take i vec)" using Suc.prems i by auto
    let ?marked = "mark_loop vec i [i + 1..<length vec] marked"
    have "dedup_loop vec [Suc i..<length vec] ?marked (rev (firsts (take (Suc i) vec))) = rev (firsts vec)"
    proof (rule Suc.hyps(1))
      show "?marked ! k \<longleftrightarrow> vec ! k \<notin> set (take (Suc i) vec)" if "Suc i \<le> k" "k < length vec" for k
        using Suc.prems(2) Suc.prems(3) [of k] that t by (auto simp: mark_loop_nth)
    qed (use Suc i in auto)
    with m t True show ?thesis by (simp add: u)
  qed
qed

lemma dedup_firsts: "intlistremoveduplicates ls = firsts ls"
  using dedup_loop_eq [of 0 ls "replicate (length ls) True"] by (simp add: intlistremoveduplicates_def)

text \<open>
  The merge of two messages comes out in reverse: the code fills a stack and then uses
  \<open>from_stack_to_reverse_list\<close>, so an element no longer stands where it stood in the lists it
  was merged from.
\<close>

lemma demergemessages_reverses:
  "length v1 \<le> length v2 \<Longrightarrow> demergemessages v1 v2 = Inr (rev (map2 (OR) v1 v2))"
  by (simp add: demergemessages_def merge_loop_eq)

lemma intlistnth_exact:
  "length ls < 2 ^ 31 \<Longrightarrow>
   intlistnth ls v = (if 0 \<le> sint v \<and> sint v < int (length ls) then Inr (ls ! nat (sint v)) else Inl Assert_Failed)"
  using nth_loop_eq [of 0 ls v] by (simp add: intlistnth_def)

lemma intlistsub_exact:
  assumes "length ls < 2 ^ 31" and "0 \<le> sint a" and "sint a \<le> sint b"
  shows "intlistsub ls a b = take (nat (sint b) - nat (sint a)) (drop (nat (sint a)) ls)"
proof -
  obtain c where c: "skip_loop a 0 ls = (c, drop (nat (sint a)) ls)" "sint c = int (min (nat (sint a)) (length ls))"
    using skip_loop_eq [of 0 ls a] assms(1) by auto
  then have "0 \<le> sint c" and "sint c + int (length (drop (nat (sint a)) ls)) < 2 ^ 31" using assms(1) by auto
  then have "take_loop b c (drop (nat (sint a)) ls) [] = rev (take (nat (sint b - sint c)) (drop (nat (sint a)) ls))"
    using take_loop_eq by simp
  moreover have "take (nat (sint b - sint c)) (drop (nat (sint a)) ls) = take (nat (sint b) - nat (sint a)) (drop (nat (sint a)) ls)"
  proof (cases "nat (sint a) \<le> length ls")
    case True
    with c(2) assms(2,3) have "nat (sint b - sint c) = nat (sint b) - nat (sint a)" by (simp add: nat_diff_distrib)
    then show ?thesis by simp
  qed simp
  ultimately show ?thesis by (simp add: intlistsub_def c(1))
qed

text \<open>
  C36: The built-in functions on lists compute what their names say, for every argument: length
  modulo \<open>2^32\<close>, difference, removal, concatenation, equality, count, reverse and last element;
  sorting gives the same elements in signed order; \<open>intlistremoveduplicates\<close> keeps the first
  of every value in its place; \<open>intpower\<close> is the power modulo \<open>2^32\<close>, and \<open>intlistnth\<close> on lists
  whose length an \<open>int\<close> holds the element, an assertion failing exactly out of range.
\<close>

theorem list_functions_exact:
  fixes ls l2 :: "int_val list" and ns n2 :: "node_val list"
  shows "intlistlength ls = of_nat (length ls) \<and> nodelistlength ns = of_nat (length ns) \<and>
     intlistdiff ls l2 = filter (\<lambda>x. x \<notin> set l2) ls \<and> nodelistremove ns n = filter (\<lambda>x. x \<noteq> n) ns \<and>
     intlistappend ls l2 = ls @ l2 \<and> nodelistappend ns n2 = ns @ n2 \<and>
     intlistequal ls l2 = (if ls = l2 then 1 else 0) \<and> nodelistcount ns n = of_nat (count_list ns n) \<and>
     nodelistreverse ns = rev ns \<and> nodelistlast ns = (if ns = [] then 0 else last ns) \<and>
     mset (intlistsort ls) = mset ls \<and> sorted (map sint (intlistsort ls)) \<and>
     intlistremoveduplicates ls = firsts ls \<and> intpower a b = a ^ nat (sint b) \<and>
     (length ls < 2 ^ 31 \<longrightarrow>
        intlistnth ls v = (if 0 \<le> sint v \<and> sint v < int (length ls) then Inr (ls ! nat (sint v)) else Inl Assert_Failed))"
  by (intro conjI impI intlistnth_exact dedup_firsts)
    (simp_all add: intlistlength_def nodelistlength_def length_loop_eq intlistdiff_def diff_loop_eq nodelistremove_def
      remove_loop_eq intlistappend_def nodelistappend_def intlistequal_def equal_loop_eq nodelistcount_def count_loop_eq
      nodelistreverse_def nodelistlast_def last_loop_eq intlistsort_def sort_descending_def intpower_def power_loop_eq)

theorem list_functions_exact_witness:
  "intlistnth [5, 6, 7] 2 = Inr 7 \<and> intlistnth [5, 6, 7] (- 1) = Inl Assert_Failed \<and> intlistremoveduplicates [3, 1, 3, 2, 1] = [3, 1, 2]"
  using list_functions_exact [of "[5, 6, 7]" "[]" "[]" 0 "[]" 0 0 2] list_functions_exact [of "[5, 6, 7]" "[]" "[]" 0 "[]" 0 0 "- 1"]
    list_functions_exact [of "[3, 1, 3, 2, 1]" "[]" "[]" 0 "[]" 0 0 0]
  by (simp add: firsts_def)

end
