(* ===== verification/External_Funs.thy ===== *)
theory External_Funs
  imports External_Lists Vm_Float Vm_State
begin

text \<open>
  The built-in functions on doubles, strings and the rest of the machine (\<open>external/math.cpp\<close>,
  \<open>external/utils.cpp\<close>, \<open>external/strings.cpp\<close>, \<open>external/others.cpp\<close>, \<open>external/core.cpp\<close>), and
  the call through the table of \<open>vm/external.cpp\<close>: the value of \<open>env_call\<close> for the program's own
  functions. Addition to division of doubles are those of the interpreter; the mathematical
  library, the printing and reading of doubles, the random generators, the store of strings
  and the file system are operations of their own, as is what \<open>dlsym\<close> finds.
\<close>

section \<open>What lies outside\<close>

type_synonym chars = "byte list"

text \<open>An entry of a directory: what \<open>stat\<close> says of it, and what it holds if it is a regular file.\<close>

datatype dir_entry = No_Stat | Other_File | Regular_File chars

record ext_ops =
  x_float :: float_ops
  x_exp :: "float_val \<Rightarrow> float_val"
  x_log :: "float_val \<Rightarrow> float_val"
  x_abs :: "float_val \<Rightarrow> float_val"
  x_floor :: "float_val \<Rightarrow> float_val"
  x_pow :: "float_val \<Rightarrow> int_val \<Rightarrow> float_val"
  x_single :: "float_val \<Rightarrow> float_val"           \<comment> \<open>the conversion to \<open>float\<close>, as a double again\<close>
  x_of_size :: "nat \<Rightarrow> float_val"
  x_to_int :: "float_val \<Rightarrow> int_val"
  x_read_float :: "chars \<Rightarrow> float_val option"      \<comment> \<open>\<open>None\<close> on text that is no number\<close>
  x_show_float :: "float_val \<Rightarrow> chars"
  x_random :: "int_val \<Rightarrow> int_val"
  x_uniform :: "nat \<Rightarrow> float_val"              \<comment> \<open>the draws of \<open>de_uni\<close>\<close>
  x_content :: "ptr_val \<Rightarrow> chars"
  x_make_string :: "chars \<Rightarrow> ptr_val"
  x_split :: "chars \<Rightarrow> chars list"             \<comment> \<open>\<open>boost::split\<close> at blanks and commas\<close>
  x_opendir :: "chars \<Rightarrow> dir_entry list option"
  x_prio_db :: "(node_val \<Rightarrow> (float_val \<times> int_val) option) option"   \<comment> \<open>priority and owner\<close>
  x_loaded :: "ptr_val \<Rightarrow> fval list \<Rightarrow> fval res"

abbreviation x_add where "x_add xo \<equiv> f_add (x_float xo)"
abbreviation x_sub where "x_sub xo \<equiv> f_sub (x_float xo)"
abbreviation x_mul where "x_mul xo \<equiv> f_mul (x_float xo)"
abbreviation x_div where "x_div xo \<equiv> f_div (x_float xo)"

definition FLOAT_ZERO :: float_val where "FLOAT_ZERO = 0"
definition FLOAT_ONE :: float_val where "FLOAT_ONE = 0x3FF0000000000000"
definition FLOAT_TWO :: float_val where "FLOAT_TWO = 0x4000000000000000"
definition FLOAT_TEN :: float_val where "FLOAT_TEN = 0x4024000000000000"
definition FLOAT_MIN :: float_val where "FLOAT_MIN = 0x0010000000000000"    \<comment> \<open>\<open>numeric_limits::min\<close>\<close>

definition float_neg :: "float_val \<Rightarrow> float_val" where
  "float_neg x = x XOR 0x8000000000000000"

section \<open>Doubles (external/math.cpp)\<close>

definition ext_sigmoid :: "ext_ops \<Rightarrow> float_val \<Rightarrow> float_val" where
  "ext_sigmoid xo x = x_div xo FLOAT_ONE (x_add xo FLOAT_ONE (x_exp xo (float_neg x)))"

fun max_loop :: "float_val \<Rightarrow> float_val list \<Rightarrow> float_val res" where
  "max_loop m [] = Inr m"
| "max_loop m (v # p) = (if float_is_nan v then Inl Assert_Failed else max_loop (if float_lt m v then v else m) p)"

fun sum_exp_loop :: "ext_ops \<Rightarrow> float_val \<Rightarrow> float_val \<Rightarrow> float_val list \<Rightarrow> float_val" where
  "sum_exp_loop xo m z [] = z"
| "sum_exp_loop xo m z (v # p) = sum_exp_loop xo m (x_add xo z (x_exp xo (x_sub xo v m))) p"

fun shift_loop :: "ext_ops \<Rightarrow> float_val \<Rightarrow> float_val \<Rightarrow> float_val list \<Rightarrow> float_val list \<Rightarrow> float_val list" where
  "shift_loop xo m lz [] vs = vs"
| "shift_loop xo m lz (v # p) vs = shift_loop xo m lz p (x_sub xo (x_sub xo v m) lz # vs)"

definition ext_normalize :: "ext_ops \<Rightarrow> float_val list \<Rightarrow> float_val list res" where
  "ext_normalize xo x =
     (case x of
        [] \<Rightarrow> Inr x
      | v # p \<Rightarrow> res_bind (max_loop v p) (\<lambda>m.
          let lz = x_log xo (sum_exp_loop xo m FLOAT_ZERO x)
          in Inr (from_stack (shift_loop xo m lz x []))))"

fun damp_loop :: "ext_ops \<Rightarrow> float_val \<Rightarrow> float_val list \<Rightarrow> float_val list \<Rightarrow> float_val list \<Rightarrow> float_val list" where
  "damp_loop xo k (h1 # p1) (h2 # p2) vs =
     damp_loop xo k p1 p2
       (x_log xo (x_add xo (x_mul xo k (x_exp xo h2)) (x_mul xo (x_sub xo FLOAT_ONE k) (x_exp xo h1))) # vs)"
| "damp_loop xo k p1 p2 vs = vs"

definition ext_damp :: "ext_ops \<Rightarrow> float_val list \<Rightarrow> float_val list \<Rightarrow> float_val \<Rightarrow> float_val list" where
  "ext_damp xo ls1 ls2 k = (if ls1 = [] \<or> ls2 = [] then [] else from_stack (damp_loop xo k ls1 ls2 []))"

text \<open>Two lists in step, until the shorter one ends; no element may be a NaN.\<close>

fun zip_loop ::
  "(float_val \<Rightarrow> float_val \<Rightarrow> float_val) \<Rightarrow> float_val list \<Rightarrow> float_val list \<Rightarrow> float_val list \<Rightarrow> float_val list res" where
  "zip_loop f (h1 # p1) (h2 # p2) vs =
     (if float_is_nan h1 \<or> float_is_nan h2 then Inl Assert_Failed else zip_loop f p1 p2 (f h1 h2 # vs))"
| "zip_loop f p1 p2 vs = Inr vs"

definition ext_divide :: "ext_ops \<Rightarrow> float_val list \<Rightarrow> float_val list \<Rightarrow> float_val list res" where
  "ext_divide xo ls1 ls2 = res_bind (zip_loop (x_sub xo) ls1 ls2 []) (\<lambda>vs. Inr (from_stack vs))"

definition ext_addfloatlists :: "ext_ops \<Rightarrow> float_val list \<Rightarrow> float_val list \<Rightarrow> float_val list res" where
  "ext_addfloatlists xo ls1 ls2 = res_bind (zip_loop (x_add xo) ls1 ls2 []) (\<lambda>vs. Inr (from_stack vs))"

fun list_get :: "float_val list \<Rightarrow> nat \<Rightarrow> float_val \<Rightarrow> float_val" where
  "list_get [] n d = d"
| "list_get (x # ls) n d = (if n = 0 then x else list_get ls (n - 1) d)"

fun convolve_sum ::
  "ext_ops \<Rightarrow> float_val list \<Rightarrow> nat \<Rightarrow> nat \<Rightarrow> nat \<Rightarrow> float_val \<Rightarrow> float_val list \<Rightarrow> float_val res" where
  "convolve_sum xo bin len x y sm [] = Inr sm"
| "convolve_sum xo bin len x y sm (h # p) =
     (let v = list_get bin (x + y * len) FLOAT_ZERO in
      if float_is_nan h \<or> float_is_nan v then Inl Assert_Failed
      else convolve_sum xo bin len x (y + 1) (x_add xo sm (x_exp xo (x_add xo v h))) p)"

fun convolve_loop :: "ext_ops \<Rightarrow> float_val list \<Rightarrow> float_val list \<Rightarrow> nat list \<Rightarrow> float_val list \<Rightarrow> float_val list res" where
  "convolve_loop xo bin ls [] vs = Inr vs"
| "convolve_loop xo bin ls (x # xs) vs =
     res_bind (convolve_sum xo bin (length ls) x 0 FLOAT_ZERO ls) (\<lambda>sm.
       convolve_loop xo bin ls xs (x_log xo (if float_eq sm FLOAT_ZERO then FLOAT_MIN else sm) # vs))"

definition ext_convolve :: "ext_ops \<Rightarrow> float_val list \<Rightarrow> float_val list \<Rightarrow> float_val list res" where
  "ext_convolve xo bin ls = res_bind (convolve_loop xo bin ls [0..<length ls] []) (\<lambda>vs. Inr (from_stack vs))"

fun residual_loop :: "ext_ops \<Rightarrow> float_val \<Rightarrow> nat \<Rightarrow> float_val list \<Rightarrow> float_val list \<Rightarrow> (float_val \<times> nat) res" where
  "residual_loop xo r n (h1 # p1) (h2 # p2) =
     (if float_is_nan h1 \<or> float_is_nan h2 then Inl Assert_Failed
      else residual_loop xo (x_add xo r (x_abs xo (x_sub xo (x_exp xo h1) (x_exp xo h2)))) (n + 1) p1 p2)"
| "residual_loop xo r n p1 p2 = Inr (r, n)"

definition ext_residual :: "ext_ops \<Rightarrow> float_val list \<Rightarrow> float_val list \<Rightarrow> float_val res" where
  "ext_residual xo l1 l2 = res_bind (residual_loop xo FLOAT_ZERO 0 l1 l2) (\<lambda>(r, n). Inr (x_div xo r (x_of_size xo n)))"

text \<open>\<open>create_random_bm\<close>: the first index whose threshold lies above the draw.\<close>

fun bitmask_loop :: "ext_ops \<Rightarrow> float_val \<Rightarrow> int \<Rightarrow> nat \<Rightarrow> float_val \<Rightarrow> nat \<Rightarrow> int" where
  "bitmask_loop xo r j 0 threshold i = j"
| "bitmask_loop xo r j (Suc n) threshold i =
     (let t = x_add xo threshold (x_pow xo FLOAT_TWO (- of_nat i - 1))
      in if float_lt r t then j else bitmask_loop xo r (j + 1) n t (i + 1))"

definition create_random_bm :: "ext_ops \<Rightarrow> nat \<Rightarrow> int \<Rightarrow> int" where
  "create_random_bm xo draw size_bitmask = bitmask_loop xo (x_uniform xo draw) 0 (nat (size_bitmask - 1)) FLOAT_ZERO 0"

fun degenerate_loop :: "ext_ops \<Rightarrow> int \<Rightarrow> nat \<Rightarrow> nat \<Rightarrow> int_val list \<Rightarrow> int_val list res" where
  "degenerate_loop xo bits draw 0 vs = Inr vs"
| "degenerate_loop xo bits draw (Suc k) vs =
     (let e = (bits - 2) - create_random_bm xo draw (bits - 1) in
      if 0 \<le> e \<and> e < 32 then degenerate_loop xo bits (draw + 1) k (push_bit (nat e) 1 # vs)
      else Inl Bad_Access)"

text \<open>A negative \<open>k\<close> never equals the counter before it overflows.\<close>

definition ext_degeneratevector :: "ext_ops \<Rightarrow> int_val \<Rightarrow> int_val \<Rightarrow> int_val list res" where
  "ext_degeneratevector xo k bits =
     (if sint k < 0 then Inl Bad_Access
      else res_bind (degenerate_loop xo (sint bits) 0 (nat (sint k)) []) (\<lambda>vs. Inr (from_stack vs)))"

section \<open>Strings and numbers (external/utils.cpp, external/strings.cpp)\<close>

definition is_space :: "byte \<Rightarrow> bool" where
  "is_space b \<longleftrightarrow> b = 32 \<or> (9 \<le> b \<and> b \<le> 13)"

definition is_digit :: "byte \<Rightarrow> bool" where
  "is_digit b \<longleftrightarrow> 48 \<le> b \<and> b \<le> 57"

fun show_nat :: "nat \<Rightarrow> chars" where
  "show_nat n = (if n < 10 then [48 + of_nat n] else show_nat (n div 10) @ [48 + of_nat (n mod 10)])"

declare show_nat.simps [simp del]

text \<open>\<open>to_string\<close> of an integer.\<close>

definition show_int :: "int \<Rightarrow> chars" where
  "show_int i = (if i < 0 then 45 # show_nat (nat (- i)) else show_nat (nat i))"

text \<open>\<open>from_string\<close> with \<open>std::dec\<close>: what the stream extracts, or nothing when it fails.\<close>

fun read_digits :: "nat \<Rightarrow> chars \<Rightarrow> nat" where
  "read_digits n [] = n"
| "read_digits n (b # bs) = (if is_digit b then read_digits (10 * n + (unat b - 48)) bs else n)"

definition read_nat :: "chars \<Rightarrow> nat option" where
  "read_nat bs = (case bs of [] \<Rightarrow> None | b # _ \<Rightarrow> if is_digit b then Some (read_digits 0 bs) else None)"

definition read_int :: "chars \<Rightarrow> int_val option" where
  "read_int bs =
     (let r = (case dropWhile is_space bs of
                 [] \<Rightarrow> None
               | b # r \<Rightarrow> if b = 45 then map_option (\<lambda>n. - int n) (read_nat r)
                          else if b = 43 then map_option int (read_nat r)
                          else map_option int (read_nat (b # r)))
      in case r of
           None \<Rightarrow> None
         | Some i \<Rightarrow> if - (2 ^ 31) \<le> i \<and> i < 2 ^ 31 then Some (of_int i) else None)"

text \<open>The variable is not initialised, so a failed extraction returns what was on the stack.\<close>

definition ext_str2float :: "ext_ops \<Rightarrow> ptr_val \<Rightarrow> float_val res" where
  "ext_str2float xo p = (case x_read_float xo (x_content xo p) of None \<Rightarrow> Inl Bad_Access | Some x \<Rightarrow> Inr x)"

definition ext_str2int :: "ext_ops \<Rightarrow> ptr_val \<Rightarrow> int_val res" where
  "ext_str2int xo p = (case read_int (x_content xo p) of None \<Rightarrow> Inl Bad_Access | Some i \<Rightarrow> Inr i)"

definition ext_int2str :: "ext_ops \<Rightarrow> int_val \<Rightarrow> ptr_val" where
  "ext_int2str xo x = x_make_string xo (show_int (sint x))"

definition ext_truncate :: "ext_ops \<Rightarrow> float_val \<Rightarrow> int_val \<Rightarrow> float_val" where
  "ext_truncate xo x many =
     (let den = x_single xo (x_pow xo FLOAT_TEN many)
      in x_single xo (x_div xo (x_floor xo (x_mul xo x den)) den))"

fun str_ints_loop :: "chars list \<Rightarrow> int_val list \<Rightarrow> int_val list res" where
  "str_ints_loop [] st = Inr st"
| "str_ints_loop (s # vec) st = (case read_int s of None \<Rightarrow> Inl Bad_Access | Some i \<Rightarrow> str_ints_loop vec (i # st))"

definition ext_str2intlist :: "ext_ops \<Rightarrow> ptr_val \<Rightarrow> int_val list res" where
  "ext_str2intlist xo p = res_bind (str_ints_loop (x_split xo (x_content xo p)) []) (\<lambda>st. Inr (from_stack st))"

definition ext_concatenate :: "ext_ops \<Rightarrow> ptr_val \<Rightarrow> ptr_val \<Rightarrow> ptr_val" where
  "ext_concatenate xo p q = x_make_string xo (x_content xo p @ x_content xo q)"

section \<open>Files and nodes (external/others.cpp, external/core.cpp)\<close>

fun count_words :: "int_val \<Rightarrow> bool \<Rightarrow> chars \<Rightarrow> int_val" where
  "count_words t inside [] = (if inside then t + 1 else t)"
| "count_words t inside (b # bs) =
     (if is_space b then count_words (if inside then t + 1 else t) False bs else count_words t True bs)"

fun find_file :: "int_val \<Rightarrow> int_val \<Rightarrow> dir_entry list \<Rightarrow> int_val" where
  "find_file k index [] = 0"
| "find_file k index (e # es) =
     (case e of
        Regular_File bs \<Rightarrow> if index = k then count_words 0 False bs else find_file k (index + 1) es
      | _ \<Rightarrow> find_file k index es)"

definition ext_filecountwords :: "ext_ops \<Rightarrow> ptr_val \<Rightarrow> int_val \<Rightarrow> int_val" where
  "ext_filecountwords xo d k = (case x_opendir xo (x_content xo d) of None \<Rightarrow> 0 | Some es \<Rightarrow> find_file k 0 es)"

definition ext_node_priority :: "ext_ops \<Rightarrow> node_val \<Rightarrow> float_val res" where
  "ext_node_priority xo n =
     (case x_prio_db xo of None \<Rightarrow> Inr FLOAT_ZERO | Some db \<Rightarrow> (case db n of None \<Rightarrow> Inl Assert_Failed | Some (p, _) \<Rightarrow> Inr p))"

definition ext_cpu_id :: "ext_ops \<Rightarrow> node_val \<Rightarrow> int_val res" where
  "ext_cpu_id xo n =
     (case x_prio_db xo of None \<Rightarrow> Inr 0 | Some db \<Rightarrow> (case db n of None \<Rightarrow> Inl Assert_Failed | Some (_, i) \<Rightarrow> Inr i))"

section \<open>The call\<close>

text \<open>The \<open>DECLARE\<close> macros read a member of the union, the \<open>RETURN\<close> macros write one.\<close>

definition arg :: "nat \<Rightarrow> fval list \<Rightarrow> fval res" where
  "arg i as = (if i < length as then Inr (as ! i) else Inl Bad_Access)"

definition arg_int :: "nat \<Rightarrow> fval list \<Rightarrow> (int_val \<Rightarrow> fval res) \<Rightarrow> fval res" where
  "arg_int i as f = res_bind (arg i as) (\<lambda>v. case v of FInt x \<Rightarrow> f x | _ \<Rightarrow> Inl Bad_Access)"

definition arg_float :: "nat \<Rightarrow> fval list \<Rightarrow> (float_val \<Rightarrow> fval res) \<Rightarrow> fval res" where
  "arg_float i as f = res_bind (arg i as) (\<lambda>v. case v of FFloat x \<Rightarrow> f x | _ \<Rightarrow> Inl Bad_Access)"

definition arg_node :: "nat \<Rightarrow> fval list \<Rightarrow> (node_val \<Rightarrow> fval res) \<Rightarrow> fval res" where
  "arg_node i as f = res_bind (arg i as) (\<lambda>v. case v of FNode x \<Rightarrow> f x | _ \<Rightarrow> Inl Bad_Access)"

definition arg_ints :: "nat \<Rightarrow> fval list \<Rightarrow> (int_val list \<Rightarrow> fval res) \<Rightarrow> fval res" where
  "arg_ints i as f = res_bind (arg i as) (\<lambda>v. case v of FLInt x \<Rightarrow> f x | _ \<Rightarrow> Inl Bad_Access)"

definition arg_floats :: "nat \<Rightarrow> fval list \<Rightarrow> (float_val list \<Rightarrow> fval res) \<Rightarrow> fval res" where
  "arg_floats i as f = res_bind (arg i as) (\<lambda>v. case v of FLFloat x \<Rightarrow> f x | _ \<Rightarrow> Inl Bad_Access)"

definition arg_nodes :: "nat \<Rightarrow> fval list \<Rightarrow> (node_val list \<Rightarrow> fval res) \<Rightarrow> fval res" where
  "arg_nodes i as f = res_bind (arg i as) (\<lambda>v. case v of FLNode x \<Rightarrow> f x | _ \<Rightarrow> Inl Bad_Access)"

definition arg_string :: "nat \<Rightarrow> fval list \<Rightarrow> (ptr_val \<Rightarrow> fval res) \<Rightarrow> fval res" where
  "arg_string i as f = res_bind (arg i as) (\<lambda>v. case v of FString x \<Rightarrow> f x | _ \<Rightarrow> Inl Bad_Access)"

definition ret :: "('a \<Rightarrow> fval) \<Rightarrow> 'a res \<Rightarrow> fval res" where
  "ret c r = res_bind r (\<lambda>x. Inr (c x))"

definition math_call :: "ext_ops \<Rightarrow> string \<Rightarrow> fval list \<Rightarrow> fval res option" where
  "math_call xo name as =
     (if name = ''sigmoid'' then Some (arg_float 0 as (\<lambda>x. Inr (FFloat (ext_sigmoid xo x))))
      else if name = ''normalize'' then Some (arg_floats 0 as (\<lambda>x. ret FLFloat (ext_normalize xo x)))
      else if name = ''damp'' then
        Some (arg_floats 0 as (\<lambda>x. arg_floats 1 as (\<lambda>y. arg_float 2 as (\<lambda>k. Inr (FLFloat (ext_damp xo x y k))))))
      else if name = ''divide'' then Some (arg_floats 0 as (\<lambda>x. arg_floats 1 as (\<lambda>y. ret FLFloat (ext_divide xo x y))))
      else if name = ''convolve'' then Some (arg_floats 0 as (\<lambda>x. arg_floats 1 as (\<lambda>y. ret FLFloat (ext_convolve xo x y))))
      else if name = ''addfloatlists'' then
        Some (arg_floats 0 as (\<lambda>x. arg_floats 1 as (\<lambda>y. ret FLFloat (ext_addfloatlists xo x y))))
      else if name = ''residual'' then Some (arg_floats 0 as (\<lambda>x. arg_floats 1 as (\<lambda>y. ret FFloat (ext_residual xo x y))))
      else if name = ''intpower'' then Some (arg_int 0 as (\<lambda>x. arg_int 1 as (\<lambda>y. Inr (FInt (intpower x y)))))
      else if name = ''degeneratevector'' then
        Some (arg_int 0 as (\<lambda>k. arg_int 1 as (\<lambda>b. ret FLInt (ext_degeneratevector xo k b))))
      else if name = ''demergemessages'' then
        Some (arg_ints 0 as (\<lambda>x. arg_ints 1 as (\<lambda>y. ret FLInt (demergemessages x y))))
      else None)"

definition list_call :: "ext_ops \<Rightarrow> string \<Rightarrow> fval list \<Rightarrow> fval res option" where
  "list_call xo name as =
     (if name = ''intlistlength'' then Some (arg_ints 0 as (\<lambda>x. Inr (FInt (intlistlength x))))
      else if name = ''intlistdiff'' then Some (arg_ints 0 as (\<lambda>x. arg_ints 1 as (\<lambda>y. Inr (FLInt (intlistdiff x y)))))
      else if name = ''intlistnth'' then Some (arg_ints 0 as (\<lambda>x. arg_int 1 as (\<lambda>v. ret FInt (intlistnth x v))))
      else if name = ''nodelistremove'' then Some (arg_nodes 0 as (\<lambda>x. arg_node 1 as (\<lambda>n. Inr (FLNode (nodelistremove x n)))))
      else if name = ''intlistsub'' then
        Some (arg_ints 0 as (\<lambda>x. arg_int 1 as (\<lambda>a. arg_int 2 as (\<lambda>b. Inr (FLInt (intlistsub x a b))))))
      else if name = ''intlistappend'' then Some (arg_ints 0 as (\<lambda>x. arg_ints 1 as (\<lambda>y. Inr (FLInt (intlistappend x y)))))
      else if name = ''intlistsort'' then Some (arg_ints 0 as (\<lambda>x. Inr (FLInt (intlistsort x))))
      else if name = ''intlistremoveduplicates'' then Some (arg_ints 0 as (\<lambda>x. Inr (FLInt (intlistremoveduplicates x))))
      else if name = ''intlistequal'' then Some (arg_ints 0 as (\<lambda>x. arg_ints 1 as (\<lambda>y. Inr (FInt (intlistequal x y)))))
      else if name = ''str2intlist'' then Some (arg_string 0 as (\<lambda>p. ret FLInt (ext_str2intlist xo p)))
      else if name = ''nodelistlength'' then Some (arg_nodes 0 as (\<lambda>x. Inr (FInt (nodelistlength x))))
      else if name = ''nodelistcount'' then Some (arg_nodes 0 as (\<lambda>x. arg_node 1 as (\<lambda>n. Inr (FInt (nodelistcount x n)))))
      else if name = ''nodelistappend'' then Some (arg_nodes 0 as (\<lambda>x. arg_nodes 1 as (\<lambda>y. Inr (FLNode (nodelistappend x y)))))
      else if name = ''nodelistreverse'' then Some (arg_nodes 0 as (\<lambda>x. Inr (FLNode (nodelistreverse x))))
      else if name = ''nodelistlast'' then Some (arg_nodes 0 as (\<lambda>x. Inr (FNode (nodelistlast x))))
      else None)"

definition other_call :: "ext_ops \<Rightarrow> string \<Rightarrow> fval list \<Rightarrow> fval res option" where
  "other_call xo name as =
     (if name = ''randint'' then Some (arg_int 0 as (\<lambda>x. Inr (FInt (x_random xo x))))
      else if name = ''str2float'' then Some (arg_string 0 as (\<lambda>p. ret FFloat (ext_str2float xo p)))
      else if name = ''str2int'' then Some (arg_string 0 as (\<lambda>p. ret FInt (ext_str2int xo p)))
      else if name = ''truncate'' then Some (arg_float 0 as (\<lambda>x. arg_int 1 as (\<lambda>k. Inr (FFloat (ext_truncate xo x k)))))
      else if name = ''float2int'' then Some (arg_float 0 as (\<lambda>x. Inr (FInt (x_to_int xo x))))
      else if name = ''int2str'' then Some (arg_int 0 as (\<lambda>x. Inr (FString (ext_int2str xo x))))
      else if name = ''float2str'' then Some (arg_float 0 as (\<lambda>x. Inr (FString (x_make_string xo (x_show_float xo x)))))
      else if name = ''wastetime'' then Some (arg_int 0 as (\<lambda>x. Inr (FInt x)))
      else if name = ''node2int'' then Some (arg_node 0 as (\<lambda>x. Inr (FInt x)))
      else if name = ''concatenate'' then Some (arg_string 0 as (\<lambda>p. arg_string 1 as (\<lambda>q. Inr (FString (ext_concatenate xo p q)))))
      else if name = ''filecountwords'' then Some (arg_string 0 as (\<lambda>d. arg_int 1 as (\<lambda>k. Inr (FInt (ext_filecountwords xo d k)))))
      else if name = ''node_priority'' then Some (arg_node 0 as (\<lambda>n. ret FFloat (ext_node_priority xo n)))
      else if name = ''cpu_id'' then Some (arg_node 0 as (\<lambda>n. ret FInt (ext_cpu_id xo n)))
      else None)"

definition first_some :: "'a option \<Rightarrow> 'a option \<Rightarrow> 'a option" where
  "first_some a b = (case a of None \<Rightarrow> b | Some x \<Rightarrow> Some x)"

definition builtin_call :: "ext_ops \<Rightarrow> fun_ptr \<Rightarrow> fval list \<Rightarrow> fval res" where
  "builtin_call xo f as =
     (case f of
        Loaded p \<Rightarrow> x_loaded xo p as
      | Builtin name \<Rightarrow>
          (case first_some (math_call xo name as) (first_some (list_call xo name as) (other_call xo name as)) of
             None \<Rightarrow> Inl Bad_Access
           | Some r \<Rightarrow> r))"

section \<open>The calls agree with the table\<close>

lemmas call_defs = math_call_def list_call_def other_call_def first_some_def builtin_call_def
lemmas arg_defs = arg_int_def arg_float_def arg_node_def arg_ints_def arg_floats_def arg_nodes_def arg_string_def arg_def ret_def

lemma fval_type_iff:
  "fval_type a = FIELD_INT \<longleftrightarrow> (\<exists>x. a = FInt x)" "fval_type a = FIELD_FLOAT \<longleftrightarrow> (\<exists>x. a = FFloat x)"
  "fval_type a = FIELD_NODE \<longleftrightarrow> (\<exists>x. a = FNode x)" "fval_type a = FIELD_LIST_INT \<longleftrightarrow> (\<exists>x. a = FLInt x)"
  "fval_type a = FIELD_LIST_FLOAT \<longleftrightarrow> (\<exists>x. a = FLFloat x)" "fval_type a = FIELD_LIST_NODE \<longleftrightarrow> (\<exists>x. a = FLNode x)"
  "fval_type a = FIELD_STRING \<longleftrightarrow> (\<exists>x. a = FString x)"
  by (cases a; simp)+

text \<open>A body fails on its arguments only by an assertion, except for four.\<close>

definition no_bad :: "'a res \<Rightarrow> bool" where
  "no_bad r \<longleftrightarrow> r \<noteq> Inl Bad_Access"

lemma no_bad_bind: "no_bad r \<Longrightarrow> (\<And>x. no_bad (f x)) \<Longrightarrow> no_bad (res_bind r f)"
  by (cases r) (auto simp: no_bad_def)

lemma no_bad_basic [simp]: "no_bad (Inr x)" "no_bad (Inl Assert_Failed)"
  by (simp_all add: no_bad_def)

lemma no_bad_ret: "no_bad r \<Longrightarrow> no_bad (ret c r)"
  unfolding ret_def by (rule no_bad_bind) simp_all

lemma no_bad_loops:
  "no_bad (max_loop m p)" "no_bad (zip_loop f p1 p2 vs)" "no_bad (convolve_sum xo bin n x y sm p)"
  "no_bad (residual_loop xo r k p1 p2)" "no_bad (nth_loop v c is)" "no_bad (merge_loop l1 l2 st)"
proof -
  show "no_bad (max_loop m p)" by (induction m p rule: max_loop.induct) auto
  show "no_bad (zip_loop f p1 p2 vs)" by (induction f p1 p2 vs rule: zip_loop.induct) auto
  show "no_bad (convolve_sum xo bin n x y sm p)"
    by (induction xo bin n x y sm p rule: convolve_sum.induct) (auto simp: Let_def)
  show "no_bad (residual_loop xo r k p1 p2)" by (induction xo r k p1 p2 rule: residual_loop.induct) auto
  show "no_bad (nth_loop v c is)" by (induction v c "is" rule: nth_loop.induct) auto
  show "no_bad (merge_loop l1 l2 st)" by (induction l1 l2 st rule: merge_loop.induct) auto
qed

lemma no_bad_convolve: "no_bad (convolve_loop xo bin ls xs vs)"
  by (induction xs arbitrary: vs) (auto intro!: no_bad_bind no_bad_loops)

lemma no_bad_bodies:
  "no_bad (ext_normalize xo x)" "no_bad (ext_divide xo x y)" "no_bad (ext_addfloatlists xo x y)" "no_bad (ext_convolve xo x y)"
  "no_bad (ext_residual xo x y)" "no_bad (intlistnth is v)" "no_bad (demergemessages l1 l2)" "no_bad (ext_node_priority xo n)"
  "no_bad (ext_cpu_id xo n)"
  unfolding ext_normalize_def ext_divide_def ext_addfloatlists_def ext_convolve_def ext_residual_def intlistnth_def
    demergemessages_def ext_node_priority_def ext_cpu_id_def
  by (auto intro!: no_bad_bind no_bad_loops no_bad_convolve simp: Let_def split: list.split option.split)

lemma ret_Inr [simp]: "ret c r = Inr v \<longleftrightarrow> (\<exists>x. r = Inr x \<and> v = c x)"
  by (auto simp: ret_def res_bind_Inr_iff)

definition returns_ok :: "ext_ops \<Rightarrow> string \<Rightarrow> field_type \<Rightarrow> fval list \<Rightarrow> bool" where
  "returns_ok xo name r as \<longleftrightarrow>
     (\<forall>v. builtin_call xo (Builtin name) as = Inr v \<longrightarrow> fval_type v = r) \<and>
     (name \<notin> {''str2int'', ''str2float'', ''str2intlist'', ''degeneratevector''} \<longrightarrow> builtin_call xo (Builtin name) as \<noteq> Inl Bad_Access)"

lemma call_table: "list_all (\<lambda>(name, r, ts). map fval_type as = ts \<longrightarrow> returns_ok xo name r as) builtin_functions"
  unfolding builtin_functions_def list.pred_inject prod.case
  by (intro conjI; (clarsimp simp: fval_type_iff map_eq_Cons_conv)?;
      (simp add: returns_ok_def call_defs arg_int_def arg_float_def arg_node_def arg_ints_def arg_floats_def arg_nodes_def
        arg_string_def arg_def no_bad_ret [unfolded no_bad_def] no_bad_bodies [unfolded no_bad_def])?; clarsimp?)

text \<open>
  C37: The table of the built-in functions tells the truth about their bodies: every name in it
  is called with a body, a call whose arguments have the types of the table and that returns
  gives a value of the result type of the table, and no such call reads a wrong member of
  the union or a missing argument. Apart from assertions, only the three readers of numbers
  (\<open>str2int\<close>, \<open>str2float\<close> and \<open>str2intlist\<close>, on text that is no number) and \<open>degeneratevector\<close> (on
  a shift out of range) go wrong; integers are taken to wrap around where C++ leaves the
  overflow open (\<open>intpower\<close>).
\<close>

theorem builtin_calls_typed:
  assumes "(name, r, ts) \<in> set builtin_functions" and "map fval_type as = ts"
  shows "(\<forall>v. builtin_call xo (Builtin name) as = Inr v \<longrightarrow> fval_type v = r) \<and>
     (name \<notin> {''str2int'', ''str2float'', ''str2intlist'', ''degeneratevector''} \<longrightarrow> builtin_call xo (Builtin name) as \<noteq> Inl Bad_Access)"
proof -
  from call_table [of as xo] have "case (name, r, ts) of (name, r, ts) \<Rightarrow> map fval_type as = ts \<longrightarrow> returns_ok xo name r as"
    unfolding list_all_iff by (rule bspec) (rule assms(1))
  with assms(2) show ?thesis by (simp only: prod.case returns_ok_def simp_thms)
qed

definition plain_ext :: ext_ops where
  "plain_ext =
     \<lparr>x_float = \<lparr>f_add = (\<lambda>a b. a), f_sub = (\<lambda>a b. a), f_mul = (\<lambda>a b. a), f_div = (\<lambda>a b. a), f_mod = (\<lambda>a b. a),
        f_of_int = (\<lambda>a. 0)\<rparr>,
      x_exp = id, x_log = id, x_abs = id, x_floor = id, x_pow = (\<lambda>x k. x), x_single = id, x_of_size = (\<lambda>n. 0),
      x_to_int = (\<lambda>x. 0), x_read_float = (\<lambda>s. Some 0), x_show_float = (\<lambda>x. []), x_random = id, x_uniform = (\<lambda>n. 0),
      x_content = (\<lambda>p. [52, 50]), x_make_string = (\<lambda>s. 7), x_split = (\<lambda>s. [s]), x_opendir = (\<lambda>d. None),
      x_prio_db = None, x_loaded = (\<lambda>p as. Inl Bad_Access)\<rparr>"

theorem builtin_calls_typed_witness:
  "builtin_call plain_ext (Builtin ''intlistlength'') [FLInt [4, 5]] = Inr (FInt 2) \<and>
   fval_type (FInt 2) = FIELD_INT \<and> builtin_call plain_ext (Builtin ''intlistlength'') [FLInt [4, 5]] \<noteq> Inl Bad_Access"
proof -
  have "(''intlistlength'', FIELD_INT, [FIELD_LIST_INT]) \<in> set builtin_functions" by (simp add: builtin_functions_def)
  moreover have "builtin_call plain_ext (Builtin ''intlistlength'') [FLInt [4, 5]] = Inr (FInt 2)" by code_simp
  ultimately show ?thesis using builtin_calls_typed [of "''intlistlength''" FIELD_INT "[FIELD_LIST_INT]" "[FLInt [4, 5]]" plain_ext]
    by simp
qed

section \<open>Integers survive the way through a string\<close>

lemma digit_of: "d < 10 \<Longrightarrow> is_digit (48 + of_nat d) \<and> unat (48 + of_nat d :: byte) - 48 = d"
proof -
  assume d: "d < 10"
  then have "unat (48 + of_nat d :: byte) = 48 + d"
    by (simp add: unat_word_ariths unat_of_nat take_bit_nat_eq_self)
  with d show ?thesis by (simp add: is_digit_def word_le_nat_alt)
qed

lemma read_digits_append:
  "list_all is_digit xs \<Longrightarrow> read_digits n (xs @ ys) = read_digits (read_digits n xs) ys"
  by (induction xs arbitrary: n) auto

lemma show_nat_digits: "list_all is_digit (show_nat n)"
proof (induction n rule: show_nat.induct)
  case (1 n)
  then show ?case using digit_of by (subst show_nat.simps) auto
qed

lemma show_nat_nonempty [simp]: "show_nat n \<noteq> []"
  by (subst show_nat.simps) simp

lemma read_show_digits: "read_digits 0 (show_nat n) = n"
proof (induction n rule: show_nat.induct)
  case (1 n)
  show ?case
  proof (cases "n < 10")
    case True
    with digit_of [of n] show ?thesis by (subst show_nat.simps) simp
  next
    case False
    have "n mod 10 < 10" by simp
    from digit_of [OF this] 1 False show_nat_digits [of "n div 10"] show ?thesis
      by (subst show_nat.simps) (simp add: read_digits_append)
  qed
qed

lemma read_show_nat: "read_nat (show_nat n) = Some n"
proof (cases "show_nat n")
  case (Cons b bs)
  moreover have "is_digit b" using show_nat_digits [of n] Cons by simp
  ultimately show ?thesis using read_show_digits [of n] by (simp add: read_nat_def)
qed simp

lemma digit_no_space: "is_digit b \<Longrightarrow> \<not> is_space b \<and> b \<noteq> 45 \<and> b \<noteq> 43"
  by (auto simp: is_digit_def is_space_def word_le_nat_alt)

lemma read_show_int: "- (2 ^ 31) \<le> i \<Longrightarrow> i < 2 ^ 31 \<Longrightarrow> read_int (show_int i) = Some (of_int i)"
proof (cases "i < 0")
  case True
  assume "- (2 ^ 31) \<le> i" "i < 2 ^ 31"
  with True show ?thesis by (simp add: read_int_def show_int_def is_space_def read_show_nat)
next
  case False
  assume i: "- (2 ^ 31) \<le> i" "i < 2 ^ 31"
  obtain b bs where b: "show_nat (nat i) = b # bs" by (cases "show_nat (nat i)") auto
  with show_nat_digits [of "nat i"] have "is_digit b" by simp
  with digit_no_space have d: "\<not> is_space b \<and> b \<noteq> 45 \<and> b \<noteq> 43" by blast
  have "read_nat (b # bs) = Some (nat i)" using read_show_nat [of "nat i"] b by simp
  with d b i False show ?thesis by (simp add: read_int_def show_int_def)
qed

lemma int_string_roundtrip:
  assumes "\<And>cs. x_content xo (x_make_string xo cs) = cs"
  shows "ext_str2int xo (ext_int2str xo x) = Inr x"
proof -
  have "read_int (show_int (sint x)) = Some (of_int (sint x))" using sint_ge [of x] sint_lt [of x] by (intro read_show_int) auto
  then show ?thesis by (simp add: ext_str2int_def ext_int2str_def assms)
qed

end
