(* ===== verification/Mpi_Token.thy ===== *)
theory Mpi_Token
  imports Router Bounded_Pqueue
begin

text \<open>
  Termination detection between machines: \<open>sched/mpi/token.hpp\<close>, \<open>sched/mpi/tokenizer.cpp\<close> and
  the calls of \<open>process/router.cpp\<close> they make. A token travels round the ring of machines and
  adds up what each has sent less what it has received; every machine has a token of its own for
  this count and for its color. MPI keeps the messages between two machines in order, so a
  channel is the list of what is on its way. A call that never returns, because \<open>recv\<close> waits for
  a message that is not there, is the value \<open>No_Return\<close>. Ranks are machine integers
  (\<open>int\<close>); up to \<open>2^30\<close> machines none of the sums and powers below overflows.
\<close>

section \<open>Tokens (sched/mpi/token.hpp)\<close>

record token =
  tok_white :: bool
  tok_count :: int_val

definition new_token :: token where
  "new_token = \<lparr>tok_white = False, tok_count = 0\<rparr>"

definition transmitted :: "nat \<Rightarrow> token \<Rightarrow> token" where
  "transmitted k t = t\<lparr>tok_count := tok_count t + of_nat k\<rparr>"

definition received :: "nat \<Rightarrow> token \<Rightarrow> token" where
  "received k t = t\<lparr>tok_count := tok_count t - of_nat k\<rparr>"

definition add_count :: "int_val \<Rightarrow> token \<Rightarrow> token" where
  "add_count k t = t\<lparr>tok_count := tok_count t + k\<rparr>"

definition reset_count :: "token \<Rightarrow> token" where
  "reset_count t = t\<lparr>tok_count := 0\<rparr>"

definition set_white :: "token \<Rightarrow> token" where
  "set_white t = t\<lparr>tok_white := True\<rparr>"

definition set_black :: "token \<Rightarrow> token" where
  "set_black t = t\<lparr>tok_white := False\<rparr>"

definition is_zero :: "token \<Rightarrow> bool" where
  "is_zero t \<longleftrightarrow> tok_count t = 0"

section \<open>The channels (process/router.cpp)\<close>

record net =
  net_tokens :: "nat \<Rightarrow> nat \<Rightarrow> token list"    \<comment> \<open>from, to\<close>
  net_ends :: "nat \<Rightarrow> nat \<Rightarrow> nat list"

definition chan_set :: "(nat \<Rightarrow> nat \<Rightarrow> 'a list) \<Rightarrow> nat \<Rightarrow> nat \<Rightarrow> 'a list \<Rightarrow> nat \<Rightarrow> nat \<Rightarrow> 'a list" where
  "chan_set c i j xs = c(i := (c i)(j := xs))"

definition send_token :: "nat \<Rightarrow> remote \<Rightarrow> token \<Rightarrow> net \<Rightarrow> net" where
  "send_token ws me t nt =
     (let left = left_remote_id ws me
      in nt\<lparr>net_tokens := chan_set (net_tokens nt) (addr me) left (net_tokens nt (addr me) left @ [t])\<rparr>)"

definition receive_token :: "nat \<Rightarrow> remote \<Rightarrow> net \<Rightarrow> (token \<times> net) option" where
  "receive_token ws me nt =
     (let right = right_remote_id ws me
      in case net_tokens nt right (addr me) of
           [] \<Rightarrow> None
         | t # ts \<Rightarrow> Some (t, nt\<lparr>net_tokens := chan_set (net_tokens nt) right (addr me) ts\<rparr>))"

definition send_end_iteration :: "remote \<Rightarrow> nat \<Rightarrow> nat \<Rightarrow> net \<Rightarrow> net" where
  "send_end_iteration me stage target nt =
     nt\<lparr>net_ends := chan_set (net_ends nt) (addr me) target (net_ends nt (addr me) target @ [stage])\<rparr>"

definition probe_end :: "remote \<Rightarrow> nat \<Rightarrow> net \<Rightarrow> (nat \<times> net) option" where
  "probe_end me source nt =
     (case net_ends nt source (addr me) of
        [] \<Rightarrow> None
      | s # ss \<Rightarrow> Some (s, nt\<lparr>net_ends := chan_set (net_ends nt) source (addr me) ss\<rparr>))"

definition received_end_iteration :: "remote \<Rightarrow> nat \<Rightarrow> net \<Rightarrow> (nat \<times> net) option res" where
  "received_end_iteration me source nt = (if is_leader me then Inl Assert_Failed else Inr (probe_end me source nt))"

definition receive_end_iteration :: "remote \<Rightarrow> nat \<Rightarrow> net \<Rightarrow> net res" where
  "receive_end_iteration me source nt =
     (case probe_end me source nt of None \<Rightarrow> Inl No_Return | Some (s, nt1) \<Rightarrow> Inr nt1)"

section \<open>The end of an iteration is passed on (sched/mpi/tokenizer.cpp)\<close>

fun power_times :: "nat \<Rightarrow> nat \<Rightarrow> nat \<Rightarrow> nat" where
  "power_times base 0 r = r"
| "power_times base (Suc i) r = power_times base i (r * base)"

definition util_power :: "nat \<Rightarrow> nat \<Rightarrow> nat" where
  "util_power base e = (if e = 0 then 1 else power_times base (e - 1) base)"

definition top_stage :: "nat \<Rightarrow> nat res" where
  "top_stage ws = (case upper_log2 (of_nat ws) of None \<Rightarrow> Inl No_Return | Some l \<Rightarrow> Inr (unat l))"

fun end_stages :: "nat \<Rightarrow> remote \<Rightarrow> nat list \<Rightarrow> net \<Rightarrow> net res" where
  "end_stages ws me [] nt = Inr nt"
| "end_stages ws me (stage # stages) nt =
     (if addr me < util_power 2 (stage - 1) then
        (let dest = addr me + util_power 2 (stage - 1)
         in end_stages ws me stages (if dest < ws then send_end_iteration me stage dest nt else nt))
      else if addr me \<ge> util_power 2 (stage - 1) \<and> addr me < util_power 2 stage then
        res_bind (receive_end_iteration me (addr me - util_power 2 (stage - 1)) nt) (end_stages ws me stages)
      else end_stages ws me stages nt)"

definition do_collective_end_iteration :: "nat \<Rightarrow> remote \<Rightarrow> nat \<Rightarrow> net \<Rightarrow> net res" where
  "do_collective_end_iteration ws me stage nt =
     res_bind (top_stage ws) (\<lambda>l. end_stages ws me [stage..<Suc l] nt)"

fun find_source_stages :: "remote \<Rightarrow> nat list \<Rightarrow> nat res" where
  "find_source_stages me [] = Inl Assert_Failed"
| "find_source_stages me (stage # stages) =
     (if addr me < util_power 2 (stage - 1) then Inl Assert_Failed
      else if addr me \<ge> util_power 2 (stage - 1) \<and> addr me < util_power 2 stage then
        Inr (addr me - util_power 2 (stage - 1))
      else find_source_stages me stages)"

definition find_source_collective :: "nat \<Rightarrow> remote \<Rightarrow> nat res" where
  "find_source_collective ws me = res_bind (top_stage ws) (\<lambda>l. find_source_stages me [1..<Suc l])"

section \<open>The tokenizer of a machine\<close>

record tokenizer =
  tk_tok :: token
  tk_has :: bool                \<comment> \<open>\<open>has_global_tok\<close>\<close>
  tk_global :: token

definition messages_received :: "nat \<Rightarrow> tokenizer \<Rightarrow> tokenizer" where
  "messages_received k tk = tk\<lparr>tk_tok := set_black (received k (tk_tok tk))\<rparr>"

definition messages_transmitted :: "nat \<Rightarrow> tokenizer \<Rightarrow> tokenizer" where
  "messages_transmitted k tk = tk\<lparr>tk_tok := transmitted k (tk_tok tk)\<rparr>"

definition tokenizer_init :: "remote \<Rightarrow> tokenizer \<Rightarrow> tokenizer" where
  "tokenizer_init me tk =
     (if is_leader me then tk\<lparr>tk_has := True, tk_global := set_white (tk_global tk), tk_tok := set_white (tk_tok tk)\<rparr>
      else tk\<lparr>tk_has := False, tk_tok := set_white (tk_tok tk)\<rparr>)"

type_synonym tok_state = "tokenizer \<times> net"

definition try_fetch_token_as_worker :: "nat \<Rightarrow> remote \<Rightarrow> tok_state \<Rightarrow> tok_state res" where
  "try_fetch_token_as_worker ws me st =
     (case st of (tk, nt) \<Rightarrow>
        if tk_has tk then Inl Assert_Failed
        else case receive_token ws me nt of
               None \<Rightarrow> Inr (tk, nt)
             | Some (g, nt1) \<Rightarrow> Inr (tk\<lparr>tk_global := g, tk_has := True\<rparr>, nt1))"

definition send_token_as_leader :: "nat \<Rightarrow> remote \<Rightarrow> tok_state \<Rightarrow> tok_state res" where
  "send_token_as_leader ws me st =
     (case st of (tk, nt) \<Rightarrow>
        if \<not> is_leader me \<or> \<not> tk_has tk then Inl Assert_Failed
        else
          (let g = reset_count (set_white (tk_global tk))
           in Inr (tk\<lparr>tk_tok := set_white (tk_tok tk), tk_global := g, tk_has := False\<rparr>, send_token ws me g nt)))"

definition try_fetch_token_as_leader :: "nat \<Rightarrow> remote \<Rightarrow> tok_state \<Rightarrow> (bool \<times> tok_state) res" where
  "try_fetch_token_as_leader ws me st =
     (case st of (tk, nt) \<Rightarrow>
        if \<not> is_leader me \<or> tk_has tk then Inl Assert_Failed
        else case receive_token ws me nt of
               None \<Rightarrow> Inr (False, tk, nt)
             | Some (g, nt1) \<Rightarrow>
                 (let g1 = add_count (tok_count (tk_tok tk)) g; tk1 = tk\<lparr>tk_has := True, tk_global := g1\<rparr>
                  in if tok_white g1 \<and> is_zero g1 \<and> tok_white (tk_tok tk1)
                     then res_bind (do_collective_end_iteration ws me 1 nt1) (\<lambda>nt2. Inr (True, tk1, nt2))
                     else res_bind (send_token_as_leader ws me (tk1, nt1)) (\<lambda>st2. Inr (False, st2))))"

definition send_token_as_idler :: "nat \<Rightarrow> remote \<Rightarrow> tok_state \<Rightarrow> tok_state res" where
  "send_token_as_idler ws me st =
     (case st of (tk, nt) \<Rightarrow>
        if is_leader me \<or> \<not> tk_has tk then Inl Assert_Failed
        else
          (let g = set_black (add_count (tok_count (tk_tok tk)) (tk_global tk))
           in Inr (tk\<lparr>tk_global := g, tk_has := False\<rparr>, send_token ws me g nt)))"

definition try_fetch_token_as_idler :: "nat \<Rightarrow> remote \<Rightarrow> tok_state \<Rightarrow> (bool \<times> tok_state) res" where
  "try_fetch_token_as_idler ws me st =
     (case st of (tk, nt) \<Rightarrow>
        if is_leader me \<or> tk_has tk then Inl Assert_Failed
        else case receive_token ws me nt of
               None \<Rightarrow> Inr (False, tk, nt)
             | Some (g, nt1) \<Rightarrow>
                 (let g1 = add_count (tok_count (tk_tok tk)) g;
                      g2 = (if \<not> tok_white (tk_tok tk) then set_black g1 else g1)
                  in Inr (True, tk\<lparr>tk_global := g2, tk_tok := set_white (tk_tok tk), tk_has := False\<rparr>,
                          send_token ws me g2 nt1)))"

definition try_fetch_end_iteration :: "nat \<Rightarrow> remote \<Rightarrow> tok_state \<Rightarrow> (bool \<times> tok_state) res" where
  "try_fetch_end_iteration ws me st =
     (case st of (tk, nt) \<Rightarrow>
        res_bind (find_source_collective ws me) (\<lambda>source.
        res_bind (received_end_iteration me source nt) (\<lambda>r.
          case r of
            None \<Rightarrow> Inr (False, tk, nt)
          | Some (stage, nt1) \<Rightarrow>
              res_bind (do_collective_end_iteration ws me (stage + 1) nt1) (\<lambda>nt2. Inr (True, tk, nt2)))))"

definition busy_loop_token :: "nat \<Rightarrow> remote \<Rightarrow> bool \<Rightarrow> tok_state \<Rightarrow> (bool \<times> tok_state) res" where
  "busy_loop_token ws me turned_inactive st =
     (case st of (tk, nt) \<Rightarrow>
        if turned_inactive then
          (if is_leader me then
             (if tk_has tk \<and> \<not> ws > 1 then Inr (False, st)
              else if tk_has tk then res_bind (send_token_as_leader ws me st) (\<lambda>st1. Inr (True, st1))
              else res_bind (try_fetch_token_as_leader ws me st) (\<lambda>(r, st1). Inr (\<not> r, st1)))
           else
             (if tk_has tk then res_bind (send_token_as_idler ws me st) (\<lambda>st1. Inr (True, st1))
              else res_bind (try_fetch_token_as_idler ws me st) (\<lambda>(r, st1).
                     if r then Inr (True, st1)
                     else res_bind (try_fetch_end_iteration ws me st1) (\<lambda>(e, st2). Inr (\<not> e, st2)))))
        else if \<not> tk_has tk then res_bind (try_fetch_token_as_worker ws me st) (\<lambda>st1. Inr (True, st1))
        else Inr (True, st))"

definition token_terminate_iteration :: "remote \<Rightarrow> tokenizer \<Rightarrow> tokenizer res" where
  "token_terminate_iteration me tk =
     (if is_leader me \<and> \<not> (is_zero (tk_global tk) \<and> tok_white (tk_global tk) \<and> tk_has tk) then Inl Assert_Failed
      else if \<not> tok_white (tk_tok tk) then Inl Assert_Failed
      else Inr (tk\<lparr>tk_tok := reset_count (tk_tok tk)\<rparr>))"

section \<open>The machines together\<close>

text \<open>
  A machine is active while one of its threads is. Only an active machine sends messages; one
  that receives some becomes active. \<open>w_sent\<close> and \<open>w_recv\<close> record what was sent and received in
  this iteration, \<open>w_ended\<close> whose \<open>busy_loop_token\<close> has returned false.
\<close>

record world =
  w_tk :: "nat \<Rightarrow> tokenizer"
  w_active :: "nat \<Rightarrow> bool"
  w_flight :: "nat \<Rightarrow> nat"      \<comment> \<open>messages on their way to a machine\<close>
  w_net :: net
  w_sent :: "nat \<Rightarrow> nat"
  w_recv :: "nat \<Rightarrow> nat"
  w_ended :: "nat \<Rightarrow> bool"

definition tick :: "router \<Rightarrow> nat \<Rightarrow> world \<Rightarrow> world res" where
  "tick ro i w =
     res_bind (busy_loop_token (world_size ro) (remote_list ro ! i) (\<not> w_active w i) (w_tk w i, w_net w)) (\<lambda>(b, tk, nt).
       Inr (w\<lparr>w_tk := (w_tk w)(i := tk), w_net := nt, w_ended := (w_ended w)(i := \<not> b)\<rparr>))"

definition send_messages :: "nat \<Rightarrow> nat list \<Rightarrow> world \<Rightarrow> world" where
  "send_messages i js w =
     w\<lparr>w_tk := (w_tk w)(i := messages_transmitted (length js) (w_tk w i)),
       w_flight := (\<lambda>j. w_flight w j + count_list js j),
       w_sent := (w_sent w)(i := w_sent w i + length js)\<rparr>"

definition take_messages :: "nat \<Rightarrow> nat \<Rightarrow> world \<Rightarrow> world" where
  "take_messages j k w =
     w\<lparr>w_tk := (w_tk w)(j := messages_received k (w_tk w j)), w_active := (w_active w)(j := True),
       w_flight := (w_flight w)(j := w_flight w j - k), w_recv := (w_recv w)(j := w_recv w j + k)\<rparr>"

inductive world_step :: "router \<Rightarrow> world \<Rightarrow> world \<Rightarrow> bool" for ro where
  send_step: "i < world_size ro \<Longrightarrow> w_active w i \<Longrightarrow> set js \<subseteq> {..<world_size ro} \<Longrightarrow>
     world_step ro w (send_messages i js w)"
| take_step: "j < world_size ro \<Longrightarrow> 0 < k \<Longrightarrow> k \<le> w_flight w j \<Longrightarrow> world_step ro w (take_messages j k w)"
| idle_step: "i < world_size ro \<Longrightarrow> world_step ro w (w\<lparr>w_active := (w_active w)(i := False)\<rparr>)"
| token_step: "i < world_size ro \<Longrightarrow> \<not> w_ended w i \<Longrightarrow> tick ro i w = Inr w' \<Longrightarrow> world_step ro w w'"

inductive_cases world_stepE: "world_step ro w w'"

inductive world_steps :: "router \<Rightarrow> world \<Rightarrow> world \<Rightarrow> bool" for ro where
  no_step: "world_steps ro w w"
| one_more: "world_steps ro w w1 \<Longrightarrow> world_step ro w1 w2 \<Longrightarrow> world_steps ro w w2"

text \<open>The start of an iteration: no message is on its way and the leader has the token.\<close>

definition iteration_start :: "router \<Rightarrow> world \<Rightarrow> bool" where
  "iteration_start ro w \<longleftrightarrow>
     (\<forall>i < world_size ro. tok_white (tk_tok (w_tk w i)) \<and> tok_count (tk_tok (w_tk w i)) = 0 \<and>
        tk_has (w_tk w i) = (i = 0) \<and> w_flight w i = 0 \<and> w_sent w i = 0 \<and> w_recv w i = 0 \<and> \<not> w_ended w i) \<and>
     (\<forall>i j. net_tokens (w_net w) i j = [] \<and> net_ends (w_net w) i j = [])"

section \<open>Stages and ranks\<close>

fun bit_len :: "nat \<Rightarrow> nat" where
  "bit_len n = (if n = 0 then 0 else Suc (bit_len (n div 2)))"

declare bit_len.simps [simp del]

definition end_source :: "nat \<Rightarrow> nat" where
  "end_source j = j - 2 ^ (bit_len j - 1)"

lemma bit_len_0 [simp]: "bit_len 0 = 0"
  by (simp add: bit_len.simps)

lemma bit_len_bounds: "0 < n \<Longrightarrow> 0 < bit_len n \<and> 2 ^ (bit_len n - 1) \<le> n \<and> n < 2 ^ bit_len n"
proof (induction n rule: bit_len.induct)
  case (1 n)
  show ?case
  proof (cases "n div 2 = 0")
    case True
    with "1.prems" have "n = 1" by simp
    then show ?thesis by (simp add: bit_len.simps)
  next
    case False
    obtain m where m: "bit_len (n div 2) = Suc m" using 1 False by (cases "bit_len (n div 2)") auto
    with 1 False have "2 ^ m \<le> n div 2" "n div 2 < 2 * 2 ^ m" by auto
    moreover have "bit_len n = Suc (Suc m)" using 1 m by (subst bit_len.simps) simp
    ultimately show ?thesis by auto
  qed
qed

lemma bit_len_less: "n < 2 ^ bit_len n"
  using bit_len_bounds [of n] by (cases "n = 0") auto

lemma bit_len_unique: "n < 2 ^ k \<Longrightarrow> 0 < k \<Longrightarrow> 2 ^ (k - 1) \<le> n \<Longrightarrow> bit_len n = k"
proof -
  assume n: "n < 2 ^ k" "0 < k" "2 ^ (k - 1) \<le> n"
  have "(1 :: nat) \<le> 2 ^ (k - 1)" by simp
  with n(3) have "0 < n" by linarith
  with bit_len_bounds have b: "0 < bit_len n" "2 ^ (bit_len n - 1) \<le> n" "n < 2 ^ bit_len n" by auto
  from b(2) n(1) have "(2 :: nat) ^ (bit_len n - 1) < 2 ^ k" by (rule le_less_trans)
  moreover from n(3) b(3) have "(2 :: nat) ^ (k - 1) < 2 ^ bit_len n" by (rule le_less_trans)
  ultimately have "bit_len n - 1 < k" and "k - 1 < bit_len n" by auto
  with n(2) b(1) show ?thesis by simp
qed

lemma bit_len_le_iff: "bit_len n \<le> k \<longleftrightarrow> n < 2 ^ k"
proof
  assume "bit_len n \<le> k"
  then have "(2 :: nat) ^ bit_len n \<le> 2 ^ k" by simp
  with bit_len_less [of n] show "n < 2 ^ k" by linarith
next
  assume n: "n < 2 ^ k"
  show "bit_len n \<le> k"
  proof (cases "n = 0")
    case False
    with bit_len_bounds n have "(2 :: nat) ^ (bit_len n - 1) < 2 ^ k" by (meson le_less_trans neq0_conv)
    then have "bit_len n - 1 < k" by simp
    then show ?thesis by simp
  qed simp
qed

lemma end_source_less: "0 < j \<Longrightarrow> end_source j < j \<and> bit_len (end_source j) < bit_len j"
proof -
  assume j: "0 < j"
  then obtain m where m: "bit_len j = Suc m" using bit_len_bounds [of j] by (cases "bit_len j") auto
  with bit_len_bounds [OF j] have "2 ^ m \<le> j" "j < 2 * 2 ^ m" by auto
  then have "end_source j < 2 ^ m" "end_source j < j" using j by (auto simp: end_source_def m)
  then show ?thesis using m bit_len_le_iff [of "end_source j" m] by simp
qed

text \<open>In stage \<open>s\<close> the ranks below \<open>2 ^ (s - 1)\<close> send to the rank that much higher.\<close>

lemma stage_target:
  "0 < s \<Longrightarrow> bit_len r < s \<Longrightarrow> j = r + 2 ^ (s - 1) \<longleftrightarrow> 0 < j \<and> end_source j = r \<and> bit_len j = s"
proof
  assume s: "0 < s" "bit_len r < s" and j: "j = r + 2 ^ (s - 1)"
  have "r < 2 ^ (s - 1)" using s bit_len_le_iff [of r "s - 1"] by linarith
  moreover have "(2 :: nat) ^ s = 2 * 2 ^ (s - 1)" using s by (cases s) auto
  ultimately have "bit_len j = s" using j s by (intro bit_len_unique) auto
  with j show "0 < j \<and> end_source j = r \<and> bit_len j = s" by (auto simp: end_source_def)
next
  assume s: "0 < s" and j: "0 < j \<and> end_source j = r \<and> bit_len j = s"
  with bit_len_bounds [of j] show "j = r + 2 ^ (s - 1)" by (auto simp: end_source_def)
qed

lemma power_times_eq: "power_times b i r = r * b ^ i"
  by (induction b i r rule: power_times.induct) (auto simp: algebra_simps)

lemma util_power_eq [simp]: "util_power b e = b ^ e"
  by (cases e) (auto simp: util_power_def power_times_eq)

lemma upper_log2_reaches:
  "j \<le> k \<Longrightarrow> k < 64 \<Longrightarrow> v \<le> 2 ^ k \<Longrightarrow> (\<And>i. i < k \<Longrightarrow> 2 ^ i < v) \<Longrightarrow> upper_log2_loop v (2 ^ j) (of_nat j) = Some (of_nat k)"
proof (induction "k - j" arbitrary: j)
  case 0
  then have "j = k" by simp
  with 0 show ?case by (subst upper_log2_loop.simps) (auto simp: not_less)
next
  case (Suc n)
  then have "\<not> v \<le> 2 ^ j" by (simp add: not_le)
  moreover have "upper_log2_loop v (2 ^ Suc j) (of_nat (Suc j)) = Some (of_nat k)"
    using Suc.prems Suc.hyps(2) by (intro Suc.hyps(1)) auto
  ultimately show ?case by (subst upper_log2_loop.simps) (simp add: add.commute)
qed

lemma top_stage_eq:
  assumes "0 < ws" and "ws \<le> 2 ^ 30"
  shows "top_stage ws = Inr (bit_len (ws - 1))"
proof -
  let ?k = "bit_len (ws - 1)"
  have k: "?k \<le> 30" using assms by (simp add: bit_len_le_iff)
  have pw: "unat ((2 :: usize) ^ i) = 2 ^ i" if "i \<le> 30" for i
  proof -
    have "(2 :: nat) ^ i \<le> 2 ^ 30" using that by (intro power_increasing) auto
    then have "(2 :: nat) ^ i < 2 ^ 64" by simp
    then have "unat (of_nat (2 ^ i) :: usize) = 2 ^ i" unfolding unat_of_nat by (simp add: take_bit_nat_eq_self)
    then show ?thesis by simp
  qed
  have ws: "unat (of_nat ws :: usize) = ws" using assms by (simp add: unat_of_nat take_bit_nat_eq_self)
  have "ws \<le> 2 ^ ?k" using bit_len_less [of "ws - 1"] by simp
  then have up: "(of_nat ws :: usize) \<le> 2 ^ ?k" using k by (simp add: word_le_nat_alt ws pw)
  have lo: "(2 :: usize) ^ i < of_nat ws" if "i < ?k" for i
  proof -
    have "\<not> ws - 1 < 2 ^ i" using that bit_len_le_iff [of "ws - 1" i] by simp
    then have "2 ^ i < ws" using assms(1) by linarith
    then show ?thesis using that k by (simp add: word_less_nat_alt ws pw)
  qed
  have "upper_log2_loop (of_nat ws) (2 ^ 0) (of_nat 0) = Some (of_nat ?k)"
    using k by (intro upper_log2_reaches up lo) auto
  moreover have "(0 :: usize) < of_nat ws" using assms(1) by (simp add: word_less_nat_alt ws)
  moreover have "unat (of_nat ?k :: usize) = ?k" using k by (simp add: unat_of_nat take_bit_nat_eq_self)
  ultimately show ?thesis by (simp add: top_stage_def upper_log2_def)
qed

lemma end_stages_eq:
  assumes "bit_len (addr me) < a"
  shows "end_stages ws me [a..<b] nt =
     Inr (nt\<lparr>net_ends := \<lambda>i j. net_ends nt i j @
       (if i = addr me \<and> 0 < j \<and> j < ws \<and> end_source j = i \<and> a \<le> bit_len j \<and> bit_len j < b then [bit_len j] else [])\<rparr>)"
  using assms
proof (induction "b - a" arbitrary: a nt)
  case 0
  then have "(\<lambda>i j. net_ends nt i j @ (if i = addr me \<and> 0 < j \<and> j < ws \<and> end_source j = i \<and> a \<le> bit_len j \<and> bit_len j < b
      then [bit_len j] else [])) = net_ends nt" by (auto simp: fun_eq_iff)
  with 0 show ?case by simp
next
  case (Suc n)
  have u: "[a..<b] = a # [Suc a..<b]" using Suc.hyps(2) by (simp add: upt_conv_Cons)
  have lt: "addr me < 2 ^ (a - 1)" using Suc.prems by (simp flip: bit_len_le_iff)
  have tgt: "j = addr me + 2 ^ (a - 1) \<longleftrightarrow> 0 < j \<and> end_source j = addr me \<and> bit_len j = a" for j
    using Suc.prems by (intro stage_target) auto
  let ?nt = "if addr me + 2 ^ (a - 1) < ws then send_end_iteration me a (addr me + 2 ^ (a - 1)) nt else nt"
  have "end_stages ws me [a..<b] nt = end_stages ws me [Suc a..<b] ?nt" using lt by (simp add: u Let_def)
  also have "\<dots> = Inr (?nt\<lparr>net_ends := \<lambda>i j. net_ends ?nt i j @
       (if i = addr me \<and> 0 < j \<and> j < ws \<and> end_source j = i \<and> Suc a \<le> bit_len j \<and> bit_len j < b then [bit_len j] else [])\<rparr>)"
    using Suc by (intro Suc.hyps(1)) auto
  also have "\<dots> = Inr (nt\<lparr>net_ends := \<lambda>i j. net_ends nt i j @
       (if i = addr me \<and> 0 < j \<and> j < ws \<and> end_source j = i \<and> a \<le> bit_len j \<and> bit_len j < b then [bit_len j] else [])\<rparr>)"
  proof -
    have one: "net_ends ?nt i j = net_ends nt i j @
        (if i = addr me \<and> 0 < j \<and> j < ws \<and> end_source j = i \<and> bit_len j = a then [bit_len j] else [])" for i j
    proof (cases "i = addr me \<and> j = addr me + 2 ^ (a - 1) \<and> j < ws")
      case True
      with tgt [of j] show ?thesis by (simp add: send_end_iteration_def chan_set_def)
    next
      case False
      with tgt [of j] have no: "\<not> (i = addr me \<and> 0 < j \<and> j < ws \<and> end_source j = i \<and> bit_len j = a)" by blast
      have "net_ends ?nt i j = net_ends nt i j" using False by (auto simp: send_end_iteration_def chan_set_def)
      with no show ?thesis by simp
    qed
    have "(\<lambda>i j. net_ends ?nt i j @
        (if i = addr me \<and> 0 < j \<and> j < ws \<and> end_source j = i \<and> Suc a \<le> bit_len j \<and> bit_len j < b then [bit_len j] else [])) =
      (\<lambda>i j. net_ends nt i j @
        (if i = addr me \<and> 0 < j \<and> j < ws \<and> end_source j = i \<and> a \<le> bit_len j \<and> bit_len j < b then [bit_len j] else []))"
      using Suc.hyps(2) by (intro ext) (simp only: one, auto)
    moreover have "?nt\<lparr>net_ends := f\<rparr> = nt\<lparr>net_ends := f\<rparr>" for f by (simp add: send_end_iteration_def)
    ultimately show ?thesis by simp
  qed
  finally show ?case .
qed

lemma find_source_stages_eq:
  assumes "0 < addr me" and "0 < a" and "a \<le> bit_len (addr me)" and "bit_len (addr me) < b"
  shows "find_source_stages me [a..<b] = Inr (end_source (addr me))"
  using assms
proof (induction "bit_len (addr me) - a" arbitrary: a)
  case 0
  then have a: "a = bit_len (addr me)" by simp
  then have "[a..<b] = a # [Suc a..<b]" using 0 by (simp add: upt_conv_Cons)
  then show ?case using bit_len_bounds [of "addr me"] assms(1) by (simp add: a end_source_def)
next
  case (Suc n)
  have u: "[a..<b] = a # [Suc a..<b]" using Suc.hyps(2) Suc.prems by (simp add: upt_conv_Cons)
  have "\<not> addr me < 2 ^ a" using Suc.hyps(2) bit_len_le_iff [of "addr me" a] by linarith
  moreover have "(2 :: nat) ^ (a - 1) \<le> 2 ^ a" by simp
  ultimately have ge: "\<not> addr me < 2 ^ a" "\<not> addr me < 2 ^ (a - 1)" by linarith+
  have "find_source_stages me [Suc a..<b] = Inr (end_source (addr me))" using Suc by (intro Suc.hyps(1)) auto
  with ge show ?case by (simp add: u)
qed

text \<open>Whoever has ended has told those whose source he is; the message waits until they have ended.\<close>

definition end_chan :: "nat \<Rightarrow> (nat \<Rightarrow> bool) \<Rightarrow> nat \<Rightarrow> nat \<Rightarrow> nat list" where
  "end_chan n ended = (\<lambda>i j. if 0 < j \<and> j < n \<and> i = end_source j \<and> ended i \<and> \<not> ended j then [bit_len j] else [])"

lemma find_source_collective_eq:
  assumes "0 < addr me" and "addr me < n" and "n \<le> 2 ^ 30"
  shows "find_source_collective n me = Inr (end_source (addr me))"
proof -
  have "bit_len (addr me) \<le> bit_len (n - 1)"
  proof -
    have "addr me \<le> n - 1" using assms by simp
    with bit_len_less [of "n - 1"] have "addr me < 2 ^ bit_len (n - 1)" by linarith
    then show ?thesis by (simp add: bit_len_le_iff)
  qed
  moreover have "1 \<le> bit_len (addr me)" using bit_len_bounds [OF assms(1)] by simp
  ultimately show ?thesis using assms by (simp add: find_source_collective_def top_stage_eq find_source_stages_eq del: upt_Suc)
qed

lemma collective_eq:
  assumes i: "addr me < n" and n: "n \<le> 2 ^ 30" and a: "a = Suc (bit_len (addr me))" and ne: "\<not> ended (addr me)"
    and chan: "net_ends nt = (end_chan n ended)(end_source (addr me) := (end_chan n ended (end_source (addr me)))(addr me := []))"
    and later: "\<And>j. j < n \<Longrightarrow> end_source j = addr me \<Longrightarrow> 0 < j \<Longrightarrow> \<not> ended j"
  shows "do_collective_end_iteration n me a nt = Inr (nt\<lparr>net_ends := end_chan n (ended(addr me := True))\<rparr>)"
proof -
  have top: "bit_len j \<le> bit_len (n - 1)" if "j < n" for j
  proof -
    have "j \<le> n - 1" using that by simp
    with bit_len_less [of "n - 1"] have "j < 2 ^ bit_len (n - 1)" by linarith
    then show ?thesis by (simp add: bit_len_le_iff)
  qed
  have "(\<lambda>i j. net_ends nt i j @ (if i = addr me \<and> 0 < j \<and> j < n \<and> end_source j = i \<and> a \<le> bit_len j \<and> bit_len j < Suc (bit_len (n - 1))
      then [bit_len j] else [])) = end_chan n (ended(addr me := True))"
  proof (intro ext)
    fix i j
    show "net_ends nt i j @ (if i = addr me \<and> 0 < j \<and> j < n \<and> end_source j = i \<and> a \<le> bit_len j \<and> bit_len j < Suc (bit_len (n - 1))
      then [bit_len j] else []) = end_chan n (ended(addr me := True)) i j"
      using end_source_less [of j] end_source_less [of "addr me"] top [of j] later [of j] ne
      by (auto simp: chan end_chan_def a less_Suc_eq_le Suc_le_eq)
  qed
  then show ?thesis using i n by (simp add: do_collective_end_iteration_def top_stage_eq end_stages_eq a del: upt_Suc)
qed

section \<open>Where the token is\<close>

definition chan0 :: "nat \<Rightarrow> nat \<Rightarrow> token list" where
  "chan0 = (\<lambda>i j. [])"

definition right_of :: "nat \<Rightarrow> nat \<Rightarrow> nat" where
  "right_of n i = (if i = n - 1 then 0 else i + 1)"

definition left_of :: "nat \<Rightarrow> nat \<Rightarrow> nat" where
  "left_of n i = (if i = 0 then n - 1 else i - 1)"

definition chan1 :: "nat \<Rightarrow> nat \<Rightarrow> token \<Rightarrow> nat \<Rightarrow> nat \<Rightarrow> token list" where
  "chan1 n t g = (\<lambda>i j. if j = t \<and> i = right_of n t then [g] else [])"

text \<open>Machine \<open>t\<close> holds the token \<open>g\<close>, or the token is on its way to \<open>t\<close> (\<open>fl\<close>).\<close>

definition tok_at :: "nat \<Rightarrow> world \<Rightarrow> nat \<Rightarrow> bool \<Rightarrow> token \<Rightarrow> bool" where
  "tok_at n w t fl g \<longleftrightarrow> t < n \<and> (\<forall>i < n. tk_has (w_tk w i) \<longleftrightarrow> i = t \<and> \<not> fl) \<and>
     (\<not> fl \<longrightarrow> tk_global (w_tk w t) = g) \<and> net_tokens (w_net w) = (if fl then chan1 n t g else chan0)"

text \<open>Machines end in the order of the tree, and the channels hold the messages of the tree.\<close>

definition ends_ok :: "nat \<Rightarrow> world \<Rightarrow> bool" where
  "ends_ok n w \<longleftrightarrow> net_ends (w_net w) = end_chan n (w_ended w) \<and>
     (\<forall>j < n. 0 < j \<longrightarrow> w_ended w j \<longrightarrow> w_ended w (end_source j))"

definition quiet :: "nat \<Rightarrow> world \<Rightarrow> bool" where
  "quiet n w \<longleftrightarrow> (\<forall>i < n. \<not> w_active w i \<and> w_flight w i = 0)"

definition all_white :: "nat \<Rightarrow> world \<Rightarrow> bool" where
  "all_white n w \<longleftrightarrow> (\<forall>i < n. tok_white (tk_tok (w_tk w i)))"

lemma ends_ok_ended: "ends_ok n w \<Longrightarrow> j < n \<Longrightarrow> w_ended w j \<Longrightarrow> w_ended w 0"
proof (induction j rule: less_induct)
  case (less j)
  show ?case
  proof (cases "0 < j")
    case True
    with less.prems have "w_ended w (end_source j)" by (auto simp: ends_ok_def)
    with less True end_source_less [OF True] show ?thesis by auto
  qed (use less in simp)
qed

section \<open>What one call of busy\_loop\_token does\<close>

definition tick_end :: "nat \<Rightarrow> nat \<Rightarrow> world \<Rightarrow> world" where
  "tick_end n i w =
     w\<lparr>w_net := (w_net w)\<lparr>net_ends := end_chan n ((w_ended w)(i := True))\<rparr>, w_ended := (w_ended w)(i := True)\<rparr>"

definition tick_pass :: "nat \<Rightarrow> nat \<Rightarrow> token \<Rightarrow> tokenizer \<Rightarrow> world \<Rightarrow> world" where
  "tick_pass n i g tk w =
     w\<lparr>w_tk := (w_tk w)(i := tk\<lparr>tk_global := g, tk_has := False\<rparr>),
       w_net := (w_net w)\<lparr>net_tokens := chan1 n (left_of n i) g\<rparr>\<rparr>"

definition tick_keep :: "nat \<Rightarrow> token \<Rightarrow> world \<Rightarrow> world" where
  "tick_keep i g w =
     w\<lparr>w_tk := (w_tk w)(i := (w_tk w i)\<lparr>tk_global := g, tk_has := True\<rparr>), w_net := (w_net w)\<lparr>net_tokens := chan0\<rparr>\<rparr>"

definition whiten :: "tokenizer \<Rightarrow> tokenizer" where
  "whiten tk = tk\<lparr>tk_tok := set_white (tk_tok tk)\<rparr>"

text \<open>What the token is when it leaves machine \<open>i\<close>.\<close>

definition passed :: "world \<Rightarrow> nat \<Rightarrow> bool \<Rightarrow> token \<Rightarrow> token" where
  "passed w i fl g =
     \<lparr>tok_white = (fl \<and> tok_white g \<and> tok_white (tk_tok (w_tk w i))), tok_count = tok_count g + tok_count (tk_tok (w_tk w i))\<rparr>"

definition detects :: "world \<Rightarrow> token \<Rightarrow> bool" where
  "detects w g \<longleftrightarrow> tok_white g \<and> tok_white (tk_tok (w_tk w 0)) \<and> tok_count g + tok_count (tk_tok (w_tk w 0)) = 0"

definition tick_result :: "nat \<Rightarrow> nat \<Rightarrow> bool \<Rightarrow> token \<Rightarrow> nat \<Rightarrow> world \<Rightarrow> world" where
  "tick_result n t fl g i w =
     (if i = t then
        (if w_active w i then (if fl then tick_keep i g w else w)
         else if i = 0 then
           (if fl \<and> detects w g then tick_end n 0 (tick_keep 0 (passed w 0 True g) w)
            else tick_pass n 0 \<lparr>tok_white = True, tok_count = 0\<rparr> (whiten (w_tk w 0)) w)
         else tick_pass n i (passed w i fl g) (if fl then whiten (w_tk w i) else w_tk w i) w)
      else if \<not> w_active w i \<and> i \<noteq> 0 \<and> w_ended w (end_source i) then tick_end n i w
      else w)"

lemma left_right [simp]: "i < n \<Longrightarrow> right_of n (left_of n i) = i" "i < n \<Longrightarrow> left_of n i < n"
  by (auto simp: right_of_def left_of_def)

lemma left_right_remote [simp]:
  "left_remote_id n me = left_of n (addr me)" "right_remote_id n me = right_of n (addr me)"
  by (simp_all add: left_of_def right_of_def left_remote_id_def right_remote_id_def)

lemma chan_set_chan0: "i < n \<Longrightarrow> chan_set chan0 i (left_of n i) [g] = chan1 n (left_of n i) g"
  by (auto simp: chan_set_def chan0_def chan1_def fun_eq_iff)

lemma send_token_eq:
  "net_tokens nt = chan0 \<Longrightarrow> addr me < n \<Longrightarrow> send_token n me g nt = nt\<lparr>net_tokens := chan1 n (left_of n (addr me)) g\<rparr>"
  by (simp add: send_token_def Let_def chan_set_chan0 [symmetric]) (simp add: chan0_def)

lemma receive_token_eq:
  assumes "tok_at n w t fl g" and "addr me = i" and "i < n"
  shows "receive_token n me (w_net w) = (if fl \<and> i = t then Some (g, (w_net w)\<lparr>net_tokens := chan0\<rparr>) else None)"
  using assms by (auto simp: tok_at_def receive_token_def Let_def chan1_def chan0_def chan_set_def fun_eq_iff)

lemma chan0_upd: "net_tokens nt = chan0 \<Longrightarrow> nt\<lparr>net_tokens := chan0\<rparr> = nt"
  by (cases nt) simp

lemma record_idem:
  "tk_has tk \<Longrightarrow> tk_global tk = g \<Longrightarrow> tk\<lparr>tk_global := g, tk_has := True\<rparr> = tk"
  by (cases tk) simp

lemma end_source_0 [simp]: "end_source 0 = 0"
  by (simp add: end_source_def)

lemma end_children:
  "ends_ok n w \<Longrightarrow> \<not> w_ended w i \<Longrightarrow> j < n \<Longrightarrow> end_source j = i \<Longrightarrow> 0 < j \<Longrightarrow> \<not> w_ended w j"
  by (auto simp: ends_ok_def)

lemma leader_collective:
  assumes "addr me = 0" and "0 < n" and "n \<le> 2 ^ 30" and e: "ends_ok n w" and "\<not> w_ended w 0"
    and "net_ends nt = net_ends (w_net w)"
  shows "do_collective_end_iteration n me 1 nt = Inr (nt\<lparr>net_ends := end_chan n ((w_ended w)(0 := True))\<rparr>)"
proof -
  have "do_collective_end_iteration n me 1 nt = Inr (nt\<lparr>net_ends := end_chan n ((w_ended w)(addr me := True))\<rparr>)"
  proof (rule collective_eq)
    show "net_ends nt = (end_chan n (w_ended w))(end_source (addr me) := (end_chan n (w_ended w) (end_source (addr me)))(addr me := []))"
      using assms by (auto simp: ends_ok_def end_chan_def fun_eq_iff)
  qed (use assms end_children [OF e] in auto)
  then show ?thesis by (simp add: assms(1))
qed

lemma probe_end_eq:
  assumes e: "ends_ok n w" and i: "0 < addr me" "addr me < n" and ne: "\<not> w_ended w (addr me)"
  shows "probe_end me (end_source (addr me)) (w_net w) =
    (if w_ended w (end_source (addr me)) then
       Some (bit_len (addr me), (w_net w)\<lparr>net_ends :=
         (end_chan n (w_ended w))(end_source (addr me) := (end_chan n (w_ended w) (end_source (addr me)))(addr me := []))\<rparr>)
     else None)"
  using assms by (auto simp: probe_end_def ends_ok_def end_chan_def chan_set_def)

lemma try_fetch_end_eq:
  assumes e: "ends_ok n w" and i: "0 < addr me" "addr me < n" and ne: "\<not> w_ended w (addr me)" and n: "n \<le> 2 ^ 30"
  shows "try_fetch_end_iteration n me (tk, w_net w) =
    (if w_ended w (end_source (addr me)) then
       Inr (True, tk, (w_net w)\<lparr>net_ends := end_chan n ((w_ended w)(addr me := True))\<rparr>)
     else Inr (False, tk, w_net w))"
proof (cases "w_ended w (end_source (addr me))")
  case True
  let ?nt = "(w_net w)\<lparr>net_ends :=
    (end_chan n (w_ended w))(end_source (addr me) := (end_chan n (w_ended w) (end_source (addr me)))(addr me := []))\<rparr>"
  have "do_collective_end_iteration n me (bit_len (addr me) + 1) ?nt = Inr (?nt\<lparr>net_ends := end_chan n ((w_ended w)(addr me := True))\<rparr>)"
    by (rule collective_eq) (use assms end_children [OF e ne] in auto)
  with True assms show ?thesis
    by (simp add: try_fetch_end_iteration_def find_source_collective_eq received_end_iteration_def is_leader_def probe_end_eq)
next
  case False
  with assms show ?thesis
    by (simp add: try_fetch_end_iteration_def find_source_collective_eq received_end_iteration_def is_leader_def probe_end_eq)
qed

lemma ended_idem: "\<not> w_ended w i \<Longrightarrow> (w_ended w)(i := False) = w_ended w"
  by (simp add: fun_eq_iff)

lemma tick_eq:
  assumes ro: "ranked ro" "1 < world_size ro" "world_size ro \<le> 2 ^ 30" and tok: "tok_at (world_size ro) w t fl g"
    and e: "ends_ok (world_size ro) w" and i: "i < world_size ro" "\<not> w_ended w i"
  shows "tick ro i w = Inr (tick_result (world_size ro) t fl g i w)"
proof -
  let ?n = "world_size ro" and ?me = "remote_list ro ! i"
  have me: "addr ?me = i" using ro(1) i(1) by (simp add: ranked_def)
  have ld: "is_leader ?me \<longleftrightarrow> i = 0" by (simp add: is_leader_def me)
  note rt = receive_token_eq [OF tok me i(1)]
  have has: "tk_has (w_tk w i) \<longleftrightarrow> i = t \<and> \<not> fl" and tg: "\<not> fl \<Longrightarrow> tk_global (w_tk w t) = g"
    and nt: "net_tokens (w_net w) = (if fl then chan1 ?n t g else chan0)"
    using tok i(1) by (auto simp: tok_at_def)
  have nt0: "(w_net w)\<lparr>net_tokens := chan0\<rparr> = w_net w" if "\<not> fl" using that nt chan0_upd by simp
  have st: "send_token ?n ?me h ((w_net w)\<lparr>net_tokens := chan0\<rparr>) = (w_net w)\<lparr>net_tokens := chan1 ?n (left_of ?n i) h\<rparr>" for h
    using i(1) by (simp add: send_token_eq me)
  have st0: "send_token ?n ?me h (w_net w) = (w_net w)\<lparr>net_tokens := chan1 ?n (left_of ?n i) h\<rparr>" if "\<not> fl" for h
    using that i(1) nt by (simp add: send_token_eq me)
  note defs = tick_def busy_loop_token_def tick_result_def ended_idem
  show ?thesis
  proof (cases "w_active w i")
    case True
    consider "i = t" "fl" | "i = t" "\<not> fl" | "i \<noteq> t" by blast
    then show ?thesis
    proof cases
      case 1
      with True has rt i(2) show ?thesis by (simp add: defs try_fetch_token_as_worker_def tick_keep_def)
    next
      case 2
      with True has i(2) show ?thesis by (simp add: defs)
    next
      case 3
      with True has rt i(2) show ?thesis by (simp add: defs try_fetch_token_as_worker_def)
    qed
  next
    case idle: False
    show ?thesis
    proof (cases "i = 0")
      case ld0: True
      have me0: "addr (remote_list ro ! 0) = 0" and l0: "is_leader (remote_list ro ! 0)" using me ld ld0 by simp_all
      have col: "do_collective_end_iteration ?n (remote_list ro ! 0) (Suc 0) ((w_net w)\<lparr>net_tokens := chan0\<rparr>) =
        Inr ((w_net w)\<lparr>net_tokens := chan0, net_ends := end_chan ?n ((w_ended w)(0 := True))\<rparr>)"
        using leader_collective [of "remote_list ro ! 0" ?n w "(w_net w)\<lparr>net_tokens := chan0\<rparr>"] ro(2,3) e i ld0 me0 by simp
      have z: "reset_count (set_white h) = \<lparr>tok_white = True, tok_count = 0\<rparr>" for h
        by (cases h) (simp add: reset_count_def set_white_def)
      show ?thesis
      proof (cases "i = t")
        case True
        show ?thesis
        proof (cases fl)
          case f: True
          have p: "passed w 0 True g = add_count (tok_count (tk_tok (w_tk w 0))) g"  if "tok_white (tk_tok (w_tk w 0))"
            using that by (cases g) (simp add: passed_def add_count_def)
          have d: "detects w g \<longleftrightarrow> tok_white (add_count (tok_count (tk_tok (w_tk w 0))) g) \<and>
              is_zero (add_count (tok_count (tk_tok (w_tk w 0))) g) \<and> tok_white (tk_tok (w_tk w 0))"
            by (auto simp: detects_def add_count_def is_zero_def)
          have swap: "tk\<lparr>tk_has := b, tk_global := h\<rparr> = tk\<lparr>tk_global := h, tk_has := b\<rparr>" for tk :: tokenizer and b h
            by simp
          show ?thesis using idle i(2) has rt True f st
            by (auto simp: defs ld0 l0 try_fetch_token_as_leader_def send_token_as_leader_def Let_def d col p
                tick_end_def tick_keep_def tick_pass_def whiten_def z me0 swap)
        next
          case f: False
          show ?thesis using idle i(2) has True f ro(2) st0
            by (auto simp: defs ld0 l0 send_token_as_leader_def Let_def
                tick_pass_def whiten_def z me0)
        qed
      next
        case False
        then show ?thesis using idle i(2) has rt ro(2)
          by (auto simp: defs ld0 l0 try_fetch_token_as_leader_def me0)
      qed
    next
      case nl: False
      show ?thesis
      proof (cases "i = t")
        case True
        have nl': "\<not> is_leader ?me" using ld nl by simp
        have res: "tick_result ?n t fl g i w = tick_pass ?n i (passed w i fl g) (if fl then whiten (w_tk w i) else w_tk w i) w"
          using True idle nl by (simp add: tick_result_def)
        show ?thesis
        proof (cases fl)
          case f: True
          have p: "passed w i True g = (if \<not> tok_white (tk_tok (w_tk w i)) then set_black (add_count (tok_count (tk_tok (w_tk w i))) g)
              else add_count (tok_count (tk_tok (w_tk w i))) g)"
            by (cases g) (simp add: passed_def add_count_def set_black_def)
          have r: "receive_token ?n ?me (w_net w) = Some (g, (w_net w)\<lparr>net_tokens := chan0\<rparr>)" "\<not> tk_has (w_tk w i)"
            using rt has True f by simp_all
          have swap: "tk\<lparr>tk_global := h, tk_tok := x\<rparr> = tk\<lparr>tk_tok := x, tk_global := h\<rparr>" for tk :: tokenizer and h x
            by simp
          show ?thesis unfolding res using idle i(2) nl' f
            by (simp add: tick_def busy_loop_token_def ended_idem try_fetch_token_as_idler_def r st Let_def p tick_pass_def
                whiten_def me swap)
        next
          case f: False
          have h: "tk_has (w_tk w i)" using has True f by simp
          have p: "passed w i False g = set_black (add_count (tok_count (tk_tok (w_tk w i))) (tk_global (w_tk w i)))"
            using tg f True by (cases g) (auto simp: passed_def add_count_def set_black_def)
          show ?thesis unfolding res using idle i(2) nl' f
            by (simp add: tick_def busy_loop_token_def ended_idem send_token_as_idler_def h st0 Let_def p tick_pass_def me)
        qed
      next
        case False
        have "try_fetch_end_iteration ?n ?me (w_tk w i, w_net w) =
          (if w_ended w (end_source i) then
             Inr (True, w_tk w i, (w_net w)\<lparr>net_ends := end_chan ?n ((w_ended w)(i := True))\<rparr>)
           else Inr (False, w_tk w i, w_net w))"
          using try_fetch_end_eq [of ?n w ?me "w_tk w i"] nl i me e ro(3) by simp
        then show ?thesis using idle i(2) has rt False nl
          by (auto simp: defs ld try_fetch_token_as_idler_def tick_end_def is_leader_def me ended_idem)
      qed
    qed
  qed
qed

end
