(* ===== verification/Mpi_Termination.thy ===== *)
theory Mpi_Termination
  imports Mpi_Token
begin

text \<open>
  The termination detection of \<open>Mpi_Token\<close> is right: an invariant of the ring of machines, which
  every step keeps, shows that it never reports too early and that no assertion of the code fails;
  three rounds of polling suffice to find that all work is done.
\<close>

section \<open>The invariant of the ring\<close>

text \<open>
  The machines above \<open>t\<close> have been visited in this round. Unless they are still idle, white and
  the token has their sum, some message reached one of them, and then the sum over the
  others is positive, or one of the others or the token is black.
\<close>

definition visited_ok ::
    "nat \<Rightarrow> (nat \<Rightarrow> bool) \<Rightarrow> (nat \<Rightarrow> bool) \<Rightarrow> (nat \<Rightarrow> int) \<Rightarrow> nat \<Rightarrow> bool \<Rightarrow> int \<Rightarrow> bool" where
  "visited_ok n act white c t gw q \<longleftrightarrow>
     (\<forall>i. t < i \<and> i < n \<longrightarrow> \<not> act i \<and> white i) \<and> (\<Sum>i\<in>{t<..<n}. c i) = q \<or>
     0 < q + (\<Sum>i\<le>t. c i) \<or> (\<exists>i\<le>t. \<not> white i) \<or> \<not> gw"

definition safra ::
    "nat \<Rightarrow> (nat \<Rightarrow> bool) \<Rightarrow> (nat \<Rightarrow> bool) \<Rightarrow> (nat \<Rightarrow> int) \<Rightarrow> (nat \<Rightarrow> int) \<Rightarrow> nat \<Rightarrow> bool \<Rightarrow> token \<Rightarrow> bool" where
  "safra n act white c sent t fl g \<longleftrightarrow>
     (\<not> fl \<and> t = 0) \<or>
     (\<exists>q. tok_count g = of_int q \<and> q \<le> (\<Sum>i\<in>{t<..<n}. sent i) \<and> (fl \<longrightarrow> visited_ok n act white c t (tok_white g) q))"

definition sent_less_recv :: "world \<Rightarrow> nat \<Rightarrow> int" where
  "sent_less_recv w i = int (w_sent w i) - int (w_recv w i)"

definition white_at :: "world \<Rightarrow> nat \<Rightarrow> bool" where
  "white_at w i = tok_white (tk_tok (w_tk w i))"

definition sent_at :: "world \<Rightarrow> nat \<Rightarrow> int" where
  "sent_at w i = int (w_sent w i)"

definition counts_ok :: "nat \<Rightarrow> world \<Rightarrow> bool" where
  "counts_ok n w \<longleftrightarrow> (\<forall>i < n. tok_count (tk_tok (w_tk w i)) = of_int (sent_less_recv w i)) \<and>
     (\<Sum>i<n. sent_less_recv w i) = (\<Sum>i<n. int (w_flight w i))"

definition world_ok :: "nat \<Rightarrow> world \<Rightarrow> nat \<Rightarrow> bool \<Rightarrow> token \<Rightarrow> bool" where
  "world_ok n w t fl g \<longleftrightarrow> tok_at n w t fl g \<and> ends_ok n w \<and> counts_ok n w \<and>
     (if w_ended w 0 then quiet n w \<and> all_white n w \<and> \<not> fl \<and> t = 0 \<and> tok_white g \<and> tok_count g = 0
      else safra n (w_active w) (white_at w) (sent_less_recv w) (sent_at w) t fl g)"

lemma sum_add_at:
  fixes f :: "nat \<Rightarrow> int"
  assumes "finite A"
  shows "sum (f(i := f i + k)) A = sum f A + (if i \<in> A then k else 0)"
proof -
  have "sum (f(i := f i + k)) A = (\<Sum>x\<in>A. f x + (if x = i then k else 0))" by (rule sum.cong) auto
  also have "\<dots> = sum f A + (if i \<in> A then k else 0)" using assms by (simp add: sum.distrib)
  finally show ?thesis .
qed

lemma split_sum:
  fixes t n :: nat and f :: "nat \<Rightarrow> int"
  assumes "t < n"
  shows "(\<Sum>i<n. f i) = (\<Sum>i\<le>t. f i) + (\<Sum>i\<in>{t<..<n}. f i)"
proof -
  from assms have "{..<n} = {..t} \<union> {t<..<n}" by auto
  moreover have "{..t} \<inter> {t<..<n} = {}" by auto
  ultimately show ?thesis by (simp add: sum.union_disjoint)
qed

lemma safra_send:
  assumes "safra n act white c sent t fl g" and "act i" and "i < n" and "0 \<le> k" and "t < n"
  shows "safra n act white (c(i := c i + k)) (sent(i := sent i + k)) t fl g"
proof (cases "\<not> fl \<and> t = 0")
  case False
  with assms(1) obtain q where q: "tok_count g = of_int q" "q \<le> (\<Sum>i\<in>{t<..<n}. sent i)"
    and v: "fl \<longrightarrow> visited_ok n act white c t (tok_white g) q" by (auto simp: safra_def)
  have "visited_ok n act white (c(i := c i + k)) t (tok_white g) q" if "visited_ok n act white c t (tok_white g) q"
    using that assms(2-5) unfolding visited_ok_def by (subst (1 2) sum_add_at) auto
  moreover have "q \<le> sum (sent(i := sent i + k)) {t<..<n}" using q(2) assms(4) by (subst sum_add_at) auto
  ultimately show ?thesis using q(1) v unfolding safra_def by blast
qed (simp add: safra_def)

lemma safra_take:
  assumes s: "safra n act white c sent t fl g" and "j < n" and k: "0 < k" and t: "t < n"
    and tot: "(\<Sum>i<n. c i) = b" and b: "k \<le> b"
  shows "safra n (act(j := True)) (white(j := False)) (c(j := c j - k)) sent t fl g"
proof (cases "\<not> fl \<and> t = 0")
  case False
  with s obtain q where q: "tok_count g = of_int q" "q \<le> (\<Sum>i\<in>{t<..<n}. sent i)"
    and v: "fl \<longrightarrow> visited_ok n act white c t (tok_white g) q" by (auto simp: safra_def)
  have "visited_ok n (act(j := True)) (white(j := False)) (c(j := c j - k)) t (tok_white g) q"
    if o: "visited_ok n act white c t (tok_white g) q"
  proof (cases "j \<le> t")
    case True
    then show ?thesis by (auto simp: visited_ok_def)
  next
    case False
    have eq: "sum (c(j := c j - k)) {..t} = sum c {..t}" using False by (intro sum.cong) auto
    have "0 < q + sum c {..t}" if "(\<Sum>i\<in>{t<..<n}. c i) = q" using that tot b k split_sum [OF t, of c] by simp
    with o have "0 < q + sum c {..t} \<or> (\<exists>i\<le>t. \<not> white i) \<or> \<not> tok_white g" unfolding visited_ok_def by blast
    moreover have "(\<exists>i\<le>t. \<not> (white(j := False)) i) = (\<exists>i\<le>t. \<not> white i)" using False by auto
    ultimately show ?thesis unfolding visited_ok_def eq by blast
  qed
  with q v show ?thesis unfolding safra_def by blast
qed (simp add: safra_def)

lemma safra_idle: "safra n act white c sent t fl g \<Longrightarrow> safra n (act(i := False)) white c sent t fl g"
  by (auto simp: safra_def visited_ok_def)

text \<open>The token goes on.\<close>

lemma sum_visited:
  fixes t n :: nat and f :: "nat \<Rightarrow> int"
  assumes "0 < t" and "t < n"
  shows "(\<Sum>i\<in>{t - 1<..<n}. f i) = f t + (\<Sum>i\<in>{t<..<n}. f i)"
proof -
  from assms have "{t - 1<..<n} = insert t {t<..<n}" by auto
  then show ?thesis by simp
qed

lemma sum_rest:
  fixes t :: nat and f :: "nat \<Rightarrow> int"
  shows "0 < t \<Longrightarrow> (\<Sum>i\<le>t. f i) = (\<Sum>i\<le>t - 1. f i) + f t"
  by (cases t) auto

lemma safra_pass:
  assumes s: "safra n act white c sent t fl g" and t: "0 < t" "t < n" and idle: "\<not> act t" and le: "c t \<le> sent t"
    and cnt: "tok_count (tk_tok (w_tk w t)) = of_int (c t)" and wh: "white t \<longleftrightarrow> tok_white (tk_tok (w_tk w t))"
    and w': "\<And>i. i \<noteq> t \<Longrightarrow> white' i = white i" and w't: "fl \<Longrightarrow> white' t"
  shows "safra n act white' c sent (t - 1) True (passed w t fl g)"
proof -
  from s t(1) obtain q where q: "tok_count g = of_int q" "q \<le> (\<Sum>i\<in>{t<..<n}. sent i)"
    and v: "fl \<longrightarrow> visited_ok n act white c t (tok_white g) q" by (auto simp: safra_def)
  have "tok_count (passed w t fl g) = of_int (q + c t)" by (simp add: passed_def q(1) cnt)
  moreover have "q + c t \<le> (\<Sum>i\<in>{t - 1<..<n}. sent i)" using q(2) le sum_visited [OF t, of sent] by linarith
  moreover have "visited_ok n act white' c (t - 1) (tok_white (passed w t fl g)) (q + c t)"
  proof (cases "fl \<and> tok_white g \<and> white t")
    case False
    then have "\<not> tok_white (passed w t fl g)" by (auto simp: passed_def wh)
    then show ?thesis by (simp add: visited_ok_def)
  next
    case True
    with v have "visited_ok n act white c t True q" by simp
    then consider "\<forall>i. t < i \<and> i < n \<longrightarrow> \<not> act i \<and> white i" "(\<Sum>i\<in>{t<..<n}. c i) = q" | "0 < q + (\<Sum>i\<le>t. c i)" | i where "i \<le> t" "\<not> white i"
      by (auto simp: visited_ok_def)
    then show ?thesis
    proof cases
      case 1
      have "\<not> act i \<and> white' i" if "t - 1 < i" "i < n" for i
        using 1(1) idle w' w't True that by (cases "i = t") auto
      with 1(2) sum_visited [OF t, of c] show ?thesis by (simp add: visited_ok_def)
    next
      case 2
      with sum_rest [OF t(1), of c] show ?thesis by (simp add: visited_ok_def algebra_simps)
    next
      case 3
      with True have "i \<noteq> t" by auto
      with 3 have "i \<le> t - 1" "\<not> white' i" using w' by auto
      then show ?thesis by (auto simp: visited_ok_def)
    qed
  qed
  ultimately show ?thesis unfolding safra_def by blast
qed

lemma safra_fresh: "0 < n \<Longrightarrow> safra n act white c sent (n - 1) True \<lparr>tok_white = True, tok_count = 0\<rparr>"
proof -
  assume n: "0 < n"
  then have "{n - 1<..<n} = {}" by auto
  then have "visited_ok n act white c (n - 1) True 0" and "(0 :: int) \<le> (\<Sum>i\<in>{n - 1<..<n}. sent i)"
    using n by (auto simp: visited_ok_def)
  then show ?thesis unfolding safra_def by (intro disjI2 exI [of _ 0]) simp
qed

lemma safra_keep: "safra n act white c sent t fl g \<Longrightarrow> safra n act white c sent t False g"
  by (auto simp: safra_def)

text \<open>When the leader finds the sum zero and everything white, all is over.\<close>

lemma safra_detects:
  assumes s: "safra n act white c sent 0 True g" and n: "0 < n" and idle: "\<not> act 0"
    and d: "tok_white g" "white 0" and z: "tok_count g + of_int (c 0) = 0"
    and tot: "(\<Sum>i<n. c i) = (\<Sum>i<n. int (fl i))" and le: "\<And>i. i < n \<Longrightarrow> c i \<le> sent i"
    and bd: "(\<Sum>i<n. sent i) < 2 ^ 32"
  shows "\<forall>i < n. \<not> act i \<and> white i \<and> fl i = 0"
proof -
  from s obtain q where q: "tok_count g = of_int q" "q \<le> (\<Sum>i\<in>{0<..<n}. sent i)"
    and v: "visited_ok n act white c 0 (tok_white g) q" by (auto simp: safra_def)
  have "(of_int (q + c 0) :: int_val) = 0" using z q(1) by simp
  then have dv: "(2 :: int) ^ 32 dvd q + c 0" using word_of_int_eq_0_iff [of "q + c 0", where ?'a = 32] by simp
  have "(\<Sum>i<n. sent i) = sent 0 + (\<Sum>i\<in>{0<..<n}. sent i)" using split_sum [of 0 n sent] n by simp
  with q(2) le [of 0] n bd have small: "q + c 0 < 2 ^ 32" by simp
  have "\<not> 0 < q + c 0" using dv small zdvd_imp_le [of "2 ^ 32" "q + c 0"] by auto
  with v d have one: "\<forall>i. 0 < i \<and> i < n \<longrightarrow> \<not> act i \<and> white i" and sm: "(\<Sum>i\<in>{0<..<n}. c i) = q"
    by (auto simp: visited_ok_def)
  have "(\<Sum>i<n. int (fl i)) = q + c 0" using tot sm split_sum [of 0 n c] n by simp
  then have "(\<Sum>i<n. int (fl i)) = 0" using \<open>\<not> 0 < q + c 0\<close> sum_nonneg [of "{..<n}" "\<lambda>i. int (fl i)"] by simp
  then have "\<forall>i < n. fl i = 0" by (simp add: sum_nonneg_eq_0_iff)
  moreover have "\<not> act i \<and> white i" if "i < n" for i using one idle d(2) that by (cases "i = 0") auto
  ultimately show ?thesis by blast
qed

section \<open>Every step keeps the invariant\<close>

lemma active_not_ended: "world_ok n w t fl g \<Longrightarrow> i < n \<Longrightarrow> w_active w i \<Longrightarrow> \<not> w_ended w 0"
  by (auto simp: world_ok_def quiet_def split: if_splits)

lemma flight_not_ended: "world_ok n w t fl g \<Longrightarrow> i < n \<Longrightarrow> 0 < w_flight w i \<Longrightarrow> \<not> w_ended w 0"
  by (auto simp: world_ok_def quiet_def split: if_splits)

lemma tok_at_cong:
  "tok_at n w t fl g \<Longrightarrow> w_net w' = w_net w \<Longrightarrow> (\<And>i. tk_has (w_tk w' i) = tk_has (w_tk w i)) \<Longrightarrow>
   (\<And>i. tk_global (w_tk w' i) = tk_global (w_tk w i)) \<Longrightarrow> tok_at n w' t fl g"
  by (simp add: tok_at_def)

lemma ends_ok_cong: "ends_ok n w \<Longrightarrow> net_ends (w_net w') = net_ends (w_net w) \<Longrightarrow> w_ended w' = w_ended w \<Longrightarrow> ends_ok n w'"
  by (simp add: ends_ok_def)

lemma counts_ok_cong:
  "counts_ok n w \<Longrightarrow> (\<And>i. tok_count (tk_tok (w_tk w' i)) = tok_count (tk_tok (w_tk w i))) \<Longrightarrow>
   w_sent w' = w_sent w \<Longrightarrow> w_recv w' = w_recv w \<Longrightarrow> w_flight w' = w_flight w \<Longrightarrow> counts_ok n w'"
  by (simp add: counts_ok_def sent_less_recv_def [abs_def])

lemma sum_count_list:
  fixes n :: nat
  assumes "set js \<subseteq> {..<n}"
  shows "(\<Sum>j<n. int (count_list js j)) = int (length js)"
proof -
  have "(\<Sum>j<n. count_list js j) = length js" using assms by (intro sum_count_set) auto
  then show ?thesis by (metis of_nat_sum)
qed

lemma send_messages_ok:
  assumes ok: "world_ok n w t fl g" and i: "i < n" "w_active w i" and js: "set js \<subseteq> {..<n}"
  shows "world_ok n (send_messages i js w) t fl g"
proof -
  let ?w = "send_messages i js w" and ?k = "int (length js)"
  have ne: "\<not> w_ended w 0" using active_not_ended [OF ok i] .
  have tok: "tok_at n w t fl g" and e: "ends_ok n w" and c: "counts_ok n w"
    and sf: "safra n (w_active w) (white_at w) (sent_less_recv w) (sent_at w) t fl g"
    using ok ne by (auto simp: world_ok_def)
  have slr: "sent_less_recv ?w = (sent_less_recv w)(i := sent_less_recv w i + ?k)"
    and sa: "sent_at ?w = (sent_at w)(i := sent_at w i + ?k)" and wh: "white_at ?w = white_at w"
    by (auto simp: sent_less_recv_def sent_at_def white_at_def send_messages_def messages_transmitted_def transmitted_def fun_eq_iff)
  have "tok_at n ?w t fl g"
    by (rule tok_at_cong [OF tok]) (auto simp: send_messages_def messages_transmitted_def)
  moreover have "ends_ok n ?w" by (rule ends_ok_cong [OF e]) (simp_all add: send_messages_def)
  moreover have "counts_ok n ?w"
  proof -
    have "(\<Sum>i<n. sent_less_recv ?w i) = (\<Sum>i<n. sent_less_recv w i) + ?k" unfolding slr using i(1) by (subst sum_add_at) auto
    moreover have "(\<Sum>i<n. int (w_flight ?w i)) = (\<Sum>i<n. int (w_flight w i)) + ?k"
      using sum_count_list [OF js] by (simp add: send_messages_def sum.distrib)
    moreover have "tok_count (tk_tok (w_tk ?w j)) = of_int (sent_less_recv ?w j)" if "j < n" for j
      using c that unfolding slr by (auto simp: counts_ok_def send_messages_def messages_transmitted_def transmitted_def)
    ultimately show ?thesis using c by (simp add: counts_ok_def)
  qed
  moreover have "safra n (w_active ?w) (white_at ?w) (sent_less_recv ?w) (sent_at ?w) t fl g"
    unfolding slr sa wh using safra_send [OF sf, of i ?k] i tok by (simp add: tok_at_def send_messages_def)
  ultimately show ?thesis using ne by (simp add: world_ok_def send_messages_def)
qed

lemma take_messages_ok:
  assumes ok: "world_ok n w t fl g" and j: "j < n" and k: "0 < k" "k \<le> w_flight w j"
  shows "world_ok n (take_messages j k w) t fl g"
proof -
  let ?w = "take_messages j k w"
  have ne: "\<not> w_ended w 0" using flight_not_ended [OF ok j] k by simp
  have tok: "tok_at n w t fl g" and e: "ends_ok n w" and c: "counts_ok n w"
    and sf: "safra n (w_active w) (white_at w) (sent_less_recv w) (sent_at w) t fl g"
    using ok ne by (auto simp: world_ok_def)
  have slr: "sent_less_recv ?w = (sent_less_recv w)(j := sent_less_recv w j + - int k)"
    and sa: "sent_at ?w = sent_at w" and wh: "white_at ?w = (white_at w)(j := False)"
    and fl: "(\<lambda>i. int (w_flight ?w i)) = (\<lambda>i. int (w_flight w i))(j := int (w_flight w j) + - int k)"
    using k by (auto simp: sent_less_recv_def sent_at_def white_at_def take_messages_def messages_received_def received_def
        set_black_def fun_eq_iff)
  have "tok_at n ?w t fl g"
    by (rule tok_at_cong [OF tok]) (auto simp: take_messages_def messages_received_def)
  moreover have "ends_ok n ?w" by (rule ends_ok_cong [OF e]) (simp_all add: take_messages_def)
  moreover have "counts_ok n ?w"
  proof -
    have "(\<Sum>i<n. sent_less_recv ?w i) = (\<Sum>i<n. sent_less_recv w i) - int k" unfolding slr using j by (subst sum_add_at) auto
    moreover have "(\<Sum>i<n. int (w_flight ?w i)) = (\<Sum>i<n. int (w_flight w i)) - int k"
      unfolding fl using j by (subst sum_add_at) auto
    moreover have "tok_count (tk_tok (w_tk ?w i)) = of_int (sent_less_recv ?w i)" if "i < n" for i
      using c that unfolding slr
      by (auto simp: counts_ok_def take_messages_def messages_received_def received_def set_black_def)
    ultimately show ?thesis using c by (simp add: counts_ok_def)
  qed
  moreover have "safra n (w_active ?w) (white_at ?w) (sent_less_recv ?w) (sent_at ?w) t fl g"
  proof -
    have "int (w_flight w j) \<le> (\<Sum>i<n. int (w_flight w i))" using j by (intro member_le_sum) auto
    with k have "int k \<le> (\<Sum>i<n. int (w_flight w i))" by linarith
    with safra_take [OF sf j, of "int k"] k tok c show ?thesis
      unfolding slr sa wh by (simp add: tok_at_def counts_ok_def take_messages_def)
  qed
  ultimately show ?thesis using ne by (simp add: world_ok_def take_messages_def)
qed

lemma idle_ok: "world_ok n w t fl g \<Longrightarrow> world_ok n (w\<lparr>w_active := (w_active w)(i := False)\<rparr>) t fl g"
  by (auto simp: world_ok_def tok_at_def ends_ok_def counts_ok_def quiet_def all_white_def white_at_def [abs_def]
      sent_less_recv_def [abs_def] sent_at_def [abs_def] safra_idle)

lemma tick_end_ok:
  assumes "ends_ok n w" and "i = 0 \<or> w_ended w (end_source i)"
  shows "ends_ok n (tick_end n i w)"
  using assms by (auto simp: ends_ok_def tick_end_def)

lemma tick_pass_sel [simp]:
  "w_active (tick_pass n i g tk w) = w_active w" "w_flight (tick_pass n i g tk w) = w_flight w"
  "w_sent (tick_pass n i g tk w) = w_sent w" "w_recv (tick_pass n i g tk w) = w_recv w"
  "w_ended (tick_pass n i g tk w) = w_ended w" "net_ends (w_net (tick_pass n i g tk w)) = net_ends (w_net w)"
  "sent_less_recv (tick_pass n i g tk w) = sent_less_recv w" "sent_at (tick_pass n i g tk w) = sent_at w"
  by (simp_all add: tick_pass_def sent_less_recv_def [abs_def] sent_at_def [abs_def])

lemma tick_pass_tok:
  "tok_at n w t fl g \<Longrightarrow> tok_at n (tick_pass n t h tk w) (left_of n t) True h"
  by (auto simp: tok_at_def tick_pass_def)

lemma tick_result_ok:
  assumes ok: "world_ok n w t fl g" and i: "i < n" "\<not> w_ended w i" and n: "1 < n" and bd: "(\<Sum>i<n. w_sent w i) < 2 ^ 32"
  shows "\<exists>t' fl' g'. world_ok n (tick_result n t fl g i w) t' fl' g'"
proof -
  have tok: "tok_at n w t fl g" and e: "ends_ok n w" and c: "counts_ok n w" using ok by (auto simp: world_ok_def)
  have t: "t < n" using tok by (simp add: tok_at_def)
  have sf: "safra n (w_active w) (white_at w) (sent_less_recv w) (sent_at w) t fl g" if "\<not> w_ended w 0"
    using ok that by (simp add: world_ok_def)
  have le: "sent_less_recv w j \<le> sent_at w j" for j by (simp add: sent_less_recv_def sent_at_def)
  consider (keep) "i = t" "w_active w i" fl | (leader) "i = t" "\<not> w_active w i" "i = 0" | (pass) "i = t" "\<not> w_active w i" "i \<noteq> 0"
    | (ends) "i \<noteq> t" "\<not> w_active w i" "i \<noteq> 0" "w_ended w (end_source i)"
    | (held) "i = t" "w_active w i" "\<not> fl" | (nothing) "i \<noteq> t" "\<not> (\<not> w_active w i \<and> i \<noteq> 0 \<and> w_ended w (end_source i))"
    by blast
  then show ?thesis
  proof cases
    case keep
    have ne: "\<not> w_ended w 0" using active_not_ended [OF ok i(1) keep(2)] .
    let ?w = "tick_keep i g w"
    have "tok_at n ?w t False g" using tok keep by (auto simp: tok_at_def tick_keep_def)
    moreover have "ends_ok n ?w" by (rule ends_ok_cong [OF e]) (simp_all add: tick_keep_def)
    moreover have "counts_ok n ?w" by (rule counts_ok_cong [OF c]) (simp_all add: tick_keep_def)
    moreover have "white_at ?w = white_at w" "sent_less_recv ?w = sent_less_recv w" "sent_at ?w = sent_at w" "w_active ?w = w_active w"
      by (auto simp: tick_keep_def white_at_def sent_less_recv_def sent_at_def fun_eq_iff)
    ultimately have "world_ok n ?w t False g" using ne safra_keep [OF sf [OF ne]]
      by (simp add: world_ok_def) (simp add: tick_keep_def)
    with keep show ?thesis by (auto simp: tick_result_def)
  next
    case leader
    with i have ne: "\<not> w_ended w 0" by simp
    show ?thesis
    proof (cases "fl \<and> detects w g")
      case True
      have q: "\<forall>i < n. \<not> w_active w i \<and> white_at w i \<and> w_flight w i = 0"
      proof (rule safra_detects)
        show "safra n (w_active w) (white_at w) (sent_less_recv w) (sent_at w) 0 True g" using sf [OF ne] True leader by simp
        show "tok_white g" "white_at w 0" "tok_count g + of_int (sent_less_recv w 0) = 0"
          using True c n by (auto simp: detects_def white_at_def counts_ok_def)
        show "(\<Sum>i<n. sent_less_recv w i) = (\<Sum>i<n. int (w_flight w i))" using c by (simp add: counts_ok_def)
        have "(\<Sum>i<n. sent_at w i) = int (\<Sum>i<n. w_sent w i)" by (simp add: sent_at_def)
        with bd show "(\<Sum>i<n. sent_at w i) < 2 ^ 32" by (simp del: of_nat_sum)
      qed (use leader n le in auto)
      let ?k = "tick_keep 0 (passed w 0 True g) w" and ?w = "tick_end n 0 (tick_keep 0 (passed w 0 True g) w)"
      have "ends_ok n ?k" by (rule ends_ok_cong [OF e]) (simp_all add: tick_keep_def)
      then have "ends_ok n ?w" by (rule tick_end_ok) simp
      moreover have "tok_at n ?w 0 False (passed w 0 True g)" using tok leader by (auto simp: tok_at_def tick_keep_def tick_end_def)
      moreover have "counts_ok n ?w" by (rule counts_ok_cong [OF c]) (simp_all add: tick_keep_def tick_end_def)
      moreover have "quiet n ?w" "all_white n ?w" using q
        by (auto simp: quiet_def all_white_def white_at_def tick_keep_def tick_end_def)
      moreover have "tok_white (passed w 0 True g)" "tok_count (passed w 0 True g) = 0"
        using True by (auto simp: passed_def detects_def)
      ultimately have "world_ok n ?w 0 False (passed w 0 True g)" by (simp add: world_ok_def) (simp add: tick_end_def)
      with leader True show ?thesis by (auto simp: tick_result_def)
    next
      case False
      let ?g = "\<lparr>tok_white = True, tok_count = 0\<rparr>" let ?w = "tick_pass n 0 ?g (whiten (w_tk w 0)) w"
      have "tok_at n ?w (n - 1) True ?g" using tick_pass_tok [OF tok, of ?g "whiten (w_tk w 0)"] leader by (simp add: left_of_def)
      moreover have "ends_ok n ?w" by (rule ends_ok_cong [OF e]) simp_all
      moreover have "counts_ok n ?w"
        by (rule counts_ok_cong [OF c]) (simp_all, simp_all add: tick_pass_def whiten_def set_white_def)
      ultimately have "world_ok n ?w (n - 1) True ?g" using ne n safra_fresh by (simp add: world_ok_def)
      with leader False show ?thesis by (auto simp: tick_result_def)
    qed
  next
    case pass
    then have ne: "\<not> w_ended w 0" using ok by (auto simp: world_ok_def split: if_splits)
    let ?tk = "if fl then whiten (w_tk w i) else w_tk w i" and ?g = "passed w i fl g"
    let ?w = "tick_pass n i ?g ?tk w"
    have "tok_at n ?w (t - 1) True ?g" using tick_pass_tok [OF tok, of ?g ?tk] pass by (simp add: left_of_def)
    moreover have "ends_ok n ?w" by (rule ends_ok_cong [OF e]) simp_all
    moreover have "counts_ok n ?w"
      by (rule counts_ok_cong [OF c]) (simp_all, simp_all add: tick_pass_def whiten_def set_white_def)
    moreover have "safra n (w_active w) (white_at ?w) (sent_less_recv w) (sent_at w) (t - 1) True ?g"
      unfolding pass(1)
    proof (rule safra_pass [OF sf [OF ne]])
      show "tok_count (tk_tok (w_tk w t)) = of_int (sent_less_recv w t)" using c t by (simp add: counts_ok_def)
      show "white_at w t = tok_white (tk_tok (w_tk w t))" by (simp add: white_at_def)
    qed (use pass t le in \<open>auto simp: white_at_def tick_pass_def whiten_def set_white_def\<close>)
    ultimately have "world_ok n ?w (t - 1) True ?g" using ne by (simp add: world_ok_def)
    moreover have "tick_result n t fl g i w = ?w" using pass by (simp add: tick_result_def)
    ultimately show ?thesis by metis
  next
    case ends
    have src: "end_source i < n" using end_source_less [of i] ends(3) i(1) by simp
    have e0: "w_ended w 0" using ends_ok_ended [OF e src ends(4)] .
    let ?w = "tick_end n i w"
    have "ends_ok n ?w" using e ends(4) by (intro tick_end_ok) simp_all
    moreover have "tok_at n ?w t fl g" using tok by (auto simp: tok_at_def tick_end_def)
    moreover have "counts_ok n ?w" by (rule counts_ok_cong [OF c]) (simp_all add: tick_end_def)
    ultimately have "world_ok n ?w t fl g" using ok e0 ends(3)
      by (simp add: world_ok_def) (simp add: tick_end_def quiet_def all_white_def)
    with ends show ?thesis by (auto simp: tick_result_def)
  next
    case held
    then have "tick_result n t fl g i w = w" by (simp add: tick_result_def)
    with ok show ?thesis by auto
  next
    case nothing
    then have "tick_result n t fl g i w = w" by (auto simp: tick_result_def)
    with ok show ?thesis by auto
  qed
qed

lemma tick_result_sel [simp]:
  "w_sent (tick_result n t fl g i w) = w_sent w" "w_active (tick_result n t fl g i w) = w_active w"
  "w_flight (tick_result n t fl g i w) = w_flight w"
  by (simp_all add: tick_result_def tick_keep_def tick_end_def tick_pass_def)

lemma tick_sent: "tick ro i w = Inr w' \<Longrightarrow> w_sent w' = w_sent w"
  by (auto simp: tick_def elim!: res_bind_InrE)

lemma sent_mono:
  assumes "world_step ro w w'"
  shows "(\<Sum>i<n. w_sent w i) \<le> (\<Sum>i<n. w_sent w' i)"
  using assms by (cases rule: world_step.cases)
    (auto simp: send_messages_def take_messages_def tick_sent intro!: sum_mono)

lemma world_step_ok:
  assumes "world_step ro w w'" and ro: "ranked ro" "1 < world_size ro" "world_size ro \<le> 2 ^ 30"
    and ok: "world_ok (world_size ro) w t fl g" and bd: "(\<Sum>i<world_size ro. w_sent w' i) < 2 ^ 32"
  shows "\<exists>t' fl' g'. world_ok (world_size ro) w' t' fl' g'"
  using assms(1)
proof (cases rule: world_step.cases)
  case (send_step i js)
  with ok show ?thesis by (auto dest: send_messages_ok)
next
  case (take_step j k)
  with ok show ?thesis by (auto dest: take_messages_ok)
next
  case (idle_step i)
  with ok show ?thesis by (auto dest: idle_ok)
next
  case (token_step i)
  have "tick ro i w = Inr (tick_result (world_size ro) t fl g i w)"
    using ro ok token_step by (intro tick_eq) (auto simp: world_ok_def)
  with token_step have w': "w' = tick_result (world_size ro) t fl g i w" by simp
  with bd have "(\<Sum>i<world_size ro. w_sent w i) < 2 ^ 32" by simp
  with tick_result_ok [OF ok token_step(1,2) ro(2)] show ?thesis by (simp add: w')
qed

lemma start_ok: "ranked ro \<Longrightarrow> iteration_start ro w \<Longrightarrow> world_ok (world_size ro) w 0 False (tk_global (w_tk w 0))"
proof -
  assume ro: "ranked ro" and st: "iteration_start ro w"
  let ?n = "world_size ro"
  have n: "0 < ?n" using ro by (auto simp: ranked_def)
  have ne: "\<not> w_ended w i" if "i < ?n" for i using st that by (simp add: iteration_start_def)
  have src: "\<not> w_ended w (end_source j)" if "0 < j" "j < ?n" for j
    using ne [of "end_source j"] end_source_less [of j] that by simp
  have "tok_at ?n w 0 False (tk_global (w_tk w 0))"
    using st n by (auto simp: iteration_start_def tok_at_def chan0_def fun_eq_iff)
  moreover have "ends_ok ?n w" using st src ne by (auto simp: iteration_start_def ends_ok_def end_chan_def fun_eq_iff)
  moreover have "counts_ok ?n w" using st by (simp add: iteration_start_def counts_ok_def sent_less_recv_def)
  ultimately show ?thesis using ne [OF n] by (simp add: world_ok_def safra_def)
qed

lemma ring_reachable_ok:
  assumes "world_steps ro w0 w" and "iteration_start ro w0" and ro: "ranked ro" "1 < world_size ro" "world_size ro \<le> 2 ^ 30"
    and "(\<Sum>i<world_size ro. w_sent w i) < 2 ^ 32"
  shows "\<exists>t fl g. world_ok (world_size ro) w t fl g"
  using assms(1,2,6)
proof (induction rule: world_steps.induct)
  case (no_step w)
  with start_ok [OF ro(1)] show ?case by blast
next
  case (one_more w w1 w2)
  have "(\<Sum>i<world_size ro. w_sent w1 i) < 2 ^ 32"
    using sent_mono [OF one_more.hyps(2), of "world_size ro"] one_more.prems(2) by (rule le_less_trans)
  with one_more obtain t fl g where "world_ok (world_size ro) w1 t fl g" by blast
  with world_step_ok [OF one_more.hyps(2) ro] one_more.prems show ?case by blast
qed

section \<open>What the invariant gives\<close>

lemma world_ok_ended:
  assumes "world_ok n w t fl g" and "i < n" and "w_ended w i" and "j < n" and "addr me = j"
  shows "\<not> w_active w j \<and> w_flight w j = 0 \<and> (\<exists>tk. token_terminate_iteration me (w_tk w j) = Inr tk)"
proof -
  have e0: "w_ended w 0" using assms(1-3) ends_ok_ended by (auto simp: world_ok_def)
  with assms(1) have "quiet n w" "all_white n w" "tok_at n w 0 False g" "tok_white g" "tok_count g = 0"
    by (auto simp: world_ok_def)
  with assms(4,5) show ?thesis
    by (auto simp: quiet_def all_white_def token_terminate_iteration_def is_leader_def is_zero_def tok_at_def)
qed

text \<open>
  C10: The tokenizer detects termination only when it is there. From the start of an iteration,
  whatever the machines send, receive and compute, and whenever they poll: no assertion of
  the tokenizer fails and no call waits for ever; and once some machine has been told that the
  iteration is over, every machine is idle, no message is on its way, and every machine passes
  the assertions of \<open>token_terminate_iteration\<close>. The counts have 32 bits, so fewer than
  \<open>2^32\<close> messages may be sent in one iteration.
\<close>

theorem tokenizer_is_safe:
  assumes "ranked ro" and "1 < world_size ro" and "world_size ro \<le> 2 ^ 30"
    and "iteration_start ro w0" and "world_steps ro w0 w" and "(\<Sum>i<world_size ro. w_sent w i) < 2 ^ 32"
  shows "(\<forall>i < world_size ro. \<not> w_ended w i \<longrightarrow> (\<exists>w'. tick ro i w = Inr w')) \<and>
    (\<forall>i < world_size ro. w_ended w i \<longrightarrow> (\<forall>j < world_size ro. \<not> w_active w j \<and> w_flight w j = 0 \<and>
        (\<exists>tk. token_terminate_iteration (remote_list ro ! j) (w_tk w j) = Inr tk)))"
proof -
  obtain t fl g where ok: "world_ok (world_size ro) w t fl g" using ring_reachable_ok assms by blast
  have "\<exists>w'. tick ro i w = Inr w'" if "i < world_size ro" "\<not> w_ended w i" for i
    using tick_eq [OF assms(1-3)] ok that by (auto simp: world_ok_def)
  moreover have "\<not> w_active w j \<and> w_flight w j = 0 \<and> (\<exists>tk. token_terminate_iteration (remote_list ro ! j) (w_tk w j) = Inr tk)"
    if "i < world_size ro" "w_ended w i" "j < world_size ro" for i j
    using world_ok_ended [OF ok that, of "remote_list ro ! j"] assms(1) that by (simp add: ranked_def)
  ultimately show ?thesis by blast
qed

section \<open>Termination is noticed\<close>

text \<open>The machines of a list poll one after the other; one whose iteration is over polls no more.\<close>

fun ticks :: "router \<Rightarrow> nat list \<Rightarrow> world \<Rightarrow> world res" where
  "ticks ro [] w = Inr w"
| "ticks ro (i # is) w = (if w_ended w i then ticks ro is w else res_bind (tick ro i w) (ticks ro is))"

lemma ticks_append: "ticks ro (is @ js) w = res_bind (ticks ro is w) (ticks ro js)"
proof (induction "is" arbitrary: w)
  case (Cons i "is")
  then show ?case by (cases "tick ro i w") auto
qed simp

lemma ticks_steps:
  "ticks ro is w = Inr w' \<Longrightarrow> set is \<subseteq> {..<world_size ro} \<Longrightarrow> world_steps ro w0 w \<Longrightarrow> world_steps ro w0 w'"
proof (induction "is" arbitrary: w)
  case (Cons i "is")
  show ?case
  proof (cases "w_ended w i")
    case False
    with Cons.prems obtain w1 where w1: "tick ro i w = Inr w1" "ticks ro is w1 = Inr w'" by (auto elim!: res_bind_InrE)
    with Cons.prems False have "world_step ro w w1" by (intro token_step) auto
    with Cons.prems have "world_steps ro w0 w1" by (blast intro: one_more)
    with Cons.IH w1(2) Cons.prems(2) show ?thesis by simp
  qed (use Cons in auto)
qed simp

lemma tok_at_unique: "tok_at n w t fl g \<Longrightarrow> tok_at n w t' fl' g' \<Longrightarrow> t' = t \<and> fl' = fl \<and> g' = g"
proof -
  assume a: "tok_at n w t fl g" "tok_at n w t' fl' g'"
  have c: "chan1 n t g (right_of n t) t = [g]" for t g by (simp add: chan1_def)
  show ?thesis
  proof (cases fl)
    case True
    then have "net_tokens (w_net w) = chan1 n t g" "net_tokens (w_net w) = (if fl' then chan1 n t' g' else chan0)"
      using a by (simp_all add: tok_at_def)
    then have "(if fl' then chan1 n t' g' else chan0) (right_of n t) t = [g]" using c by metis
    with True show ?thesis by (auto simp: chan0_def chan1_def split: if_splits)
  next
    case False
    then have "tk_has (w_tk w t)" "t < n" using a(1) by (simp_all add: tok_at_def)
    moreover from this have "t = t' \<and> \<not> fl'" using a(2) unfolding tok_at_def by blast
    ultimately show ?thesis using a False by (simp add: tok_at_def)
  qed
qed

lemma world_ok_at: "world_ok n w t' fl' g' \<Longrightarrow> tok_at n w t fl g \<Longrightarrow> world_ok n w t fl g"
proof -
  assume ok: "world_ok n w t' fl' g'" and tok: "tok_at n w t fl g"
  then have "tok_at n w t' fl' g'" by (simp add: world_ok_def)
  with tok tok_at_unique have "t' = t \<and> fl' = fl \<and> g' = g" by blast
  with ok show "world_ok n w t fl g" by simp
qed

text \<open>All machines are idle and nothing is on its way, but the leader does not know yet.\<close>

definition waiting :: "nat \<Rightarrow> world \<Rightarrow> nat \<Rightarrow> bool \<Rightarrow> token \<Rightarrow> bool" where
  "waiting n w t fl g \<longleftrightarrow> world_ok n w t fl g \<and> quiet n w \<and> \<not> w_ended w 0 \<and> (\<Sum>i<n. w_sent w i) < 2 ^ 32"

definition over :: "nat \<Rightarrow> world \<Rightarrow> bool" where
  "over n w \<longleftrightarrow> (\<exists>t fl g. world_ok n w t fl g) \<and> w_ended w 0 \<and> (\<Sum>i<n. w_sent w i) < 2 ^ 32"

definition fresh_token :: token where
  "fresh_token = \<lparr>tok_white = True, tok_count = 0\<rparr>"

lemma tick_next:
  assumes ro: "ranked ro" "1 < world_size ro" "world_size ro \<le> 2 ^ 30" and w: "waiting (world_size ro) w t fl g"
    and i: "i < world_size ro"
  shows "\<not> w_ended w i \<and> tick ro i w = Inr (tick_result (world_size ro) t fl g i w) \<and>
    quiet (world_size ro) (tick_result (world_size ro) t fl g i w) \<and>
    (\<exists>t' fl' g'. world_ok (world_size ro) (tick_result (world_size ro) t fl g i w) t' fl' g')"
proof -
  have ok: "world_ok (world_size ro) w t fl g" and q: "quiet (world_size ro) w" and ne0: "\<not> w_ended w 0"
    and bd: "(\<Sum>i<world_size ro. w_sent w i) < 2 ^ 32" using w by (auto simp: waiting_def)
  have ne: "\<not> w_ended w i" using ok i ne0 ends_ok_ended by (auto simp: world_ok_def)
  with tick_eq [OF ro _ _ i] tick_result_ok [OF ok i ne ro(2) bd] ok q show ?thesis
    by (auto simp: world_ok_def quiet_def)
qed

lemma tick_other:
  assumes "ranked ro" "1 < world_size ro" "world_size ro \<le> 2 ^ 30" and w: "waiting (world_size ro) w t fl g"
    and "i < world_size ro" "i \<noteq> t"
  shows "tick ro i w = Inr w"
proof -
  have e: "ends_ok (world_size ro) w" and ne: "\<not> w_ended w 0" using w by (auto simp: waiting_def world_ok_def)
  have "\<not> (i \<noteq> 0 \<and> w_ended w (end_source i))"
    using ends_ok_ended [OF e, of "end_source i"] end_source_less [of i] assms(5) ne by auto
  then have "tick_result (world_size ro) t fl g i w = w" using assms(6) by (auto simp: tick_result_def)
  with tick_next [OF assms(1-5)] show ?thesis by simp
qed

text \<open>One machine passes the token on.\<close>

lemma tick_down:
  assumes ro: "ranked ro" "1 < world_size ro" "world_size ro \<le> 2 ^ 30" and w: "waiting (world_size ro) w t fl g" and t: "0 < t"
  shows "\<exists>w'. tick ro t w = Inr w' \<and> waiting (world_size ro) w' (t - 1) True (passed w t fl g) \<and>
    (\<forall>i. i \<noteq> t \<longrightarrow> w_tk w' i = w_tk w i) \<and> (fl \<longrightarrow> white_at w' t) \<and> tok_count (tk_tok (w_tk w' t)) = tok_count (tk_tok (w_tk w t))"
proof -
  let ?n = "world_size ro" and ?tk = "if fl then whiten (w_tk w t) else w_tk w t"
  let ?w = "tick_pass ?n t (passed w t fl g) ?tk w"
  have tok: "tok_at ?n w t fl g" using w by (simp add: waiting_def world_ok_def)
  then have tn: "t < ?n" by (simp add: tok_at_def)
  have idle: "\<not> w_active w t" using w tn by (simp add: waiting_def quiet_def)
  then have res: "tick_result ?n t fl g t w = ?w" using t by (simp add: tick_result_def)
  from tick_next [OF ro w tn] obtain t' fl' g' where n: "tick ro t w = Inr ?w" "quiet ?n ?w" "world_ok ?n ?w t' fl' g'"
    unfolding res by blast
  have "tok_at ?n ?w (t - 1) True (passed w t fl g)" using tick_pass_tok [OF tok] t by (simp add: left_of_def)
  with n(3) have "world_ok ?n ?w (t - 1) True (passed w t fl g)" by (rule world_ok_at)
  with n w have "waiting ?n ?w (t - 1) True (passed w t fl g)" by (simp add: waiting_def)
  moreover have "\<forall>i. i \<noteq> t \<longrightarrow> w_tk ?w i = w_tk w i" "fl \<longrightarrow> white_at ?w t"
    "tok_count (tk_tok (w_tk ?w t)) = tok_count (tk_tok (w_tk w t))"
    by (simp_all add: tick_pass_def white_at_def whiten_def set_white_def)
  ultimately show ?thesis using n(1) by blast
qed

text \<open>The machines from \<open>t\<close> down to the first pass it on to the leader.\<close>

lemma ticks_down:
  assumes ro: "ranked ro" "1 < world_size ro" "world_size ro \<le> 2 ^ 30" and w: "waiting (world_size ro) w t True g"
  shows "\<exists>w' g'. ticks ro (rev [1..<Suc t]) w = Inr w' \<and> waiting (world_size ro) w' 0 True g' \<and>
    (tok_white g' \<longleftrightarrow> tok_white g \<and> (\<forall>i \<in> {1..t}. white_at w i)) \<and>
    tok_count g' = tok_count g + (\<Sum>i\<in>{1..t}. tok_count (tk_tok (w_tk w i))) \<and>
    (\<forall>i \<in> {1..t}. white_at w' i) \<and> (\<forall>i. i = 0 \<or> t < i \<longrightarrow> w_tk w' i = w_tk w i) \<and>
    (\<forall>i. tok_count (tk_tok (w_tk w' i)) = tok_count (tk_tok (w_tk w i)))"
  using w
proof (induction t arbitrary: w g)
  case 0
  then show ?case by auto
next
  case (Suc t)
  from tick_down [OF ro Suc.prems] obtain w1 where w1: "tick ro (Suc t) w = Inr w1"
    "waiting (world_size ro) w1 t True (passed w (Suc t) True g)" "\<And>i. i \<noteq> Suc t \<Longrightarrow> w_tk w1 i = w_tk w i" "white_at w1 (Suc t)"
    "tok_count (tk_tok (w_tk w1 (Suc t))) = tok_count (tk_tok (w_tk w (Suc t)))" by auto
  have cnt: "tok_count (tk_tok (w_tk w1 i)) = tok_count (tk_tok (w_tk w i))" for i using w1(3,5) by (cases "i = Suc t") auto
  have wh: "white_at w1 i = white_at w i" if "i \<noteq> Suc t" for i using w1(3) that by (simp add: white_at_def)
  from Suc.IH [OF w1(2)] obtain w' g' where w': "ticks ro (rev [1..<Suc t]) w1 = Inr w'" "waiting (world_size ro) w' 0 True g'"
    "tok_white g' \<longleftrightarrow> tok_white (passed w (Suc t) True g) \<and> (\<forall>i \<in> {1..t}. white_at w1 i)"
    "tok_count g' = tok_count (passed w (Suc t) True g) + (\<Sum>i\<in>{1..t}. tok_count (tk_tok (w_tk w1 i)))"
    "\<forall>i \<in> {1..t}. white_at w' i" "\<forall>i. i = 0 \<or> t < i \<longrightarrow> w_tk w' i = w_tk w1 i"
    "\<forall>i. tok_count (tk_tok (w_tk w' i)) = tok_count (tk_tok (w_tk w1 i))" by blast
  have ne: "\<not> w_ended w (Suc t)" using tick_next [OF ro Suc.prems] Suc.prems by (simp add: waiting_def world_ok_def tok_at_def)
  have "rev [1..<Suc (Suc t)] = Suc t # rev [1..<Suc t]" by simp
  then have "ticks ro (rev [1..<Suc (Suc t)]) w = Inr w'" using ne w1(1) w'(1) by simp
  moreover have S: "{1..Suc t} = insert (Suc t) {1..t}" by auto
  have "tok_white g' \<longleftrightarrow> tok_white g \<and> (\<forall>i \<in> {1..Suc t}. white_at w i)"
    unfolding w'(3) S using wh by (auto simp: passed_def white_at_def)
  moreover have "tok_count g' = tok_count g + (\<Sum>i\<in>{1..Suc t}. tok_count (tk_tok (w_tk w i)))"
    unfolding w'(4) S by (simp add: passed_def cnt)
  moreover have "white_at w' (Suc t)" using w'(6) w1(4) by (simp add: white_at_def)
  with w'(5) have "\<forall>i \<in> {1..Suc t}. white_at w' i" unfolding S by blast
  moreover have "\<forall>i. i = 0 \<or> Suc t < i \<longrightarrow> w_tk w' i = w_tk w i" using w'(6) w1(3) by auto
  moreover have "\<forall>i. tok_count (tk_tok (w_tk w' i)) = tok_count (tk_tok (w_tk w i))" using w'(7) cnt by auto
  ultimately show ?case using w'(2) by blast
qed

text \<open>The leader gets the token, and ends the iteration or sends a fresh token.\<close>

lemma tick_leader:
  assumes ro: "ranked ro" "1 < world_size ro" "world_size ro \<le> 2 ^ 30" and w: "waiting (world_size ro) w 0 fl g"
  shows "\<exists>w'. tick ro 0 w = Inr w' \<and>
    (if fl \<and> detects w g then over (world_size ro) w'
     else waiting (world_size ro) w' (world_size ro - 1) True fresh_token \<and> white_at w' 0 \<and>
       (\<forall>i. i \<noteq> 0 \<longrightarrow> w_tk w' i = w_tk w i) \<and> tok_count (tk_tok (w_tk w' 0)) = tok_count (tk_tok (w_tk w 0)))"
proof -
  let ?n = "world_size ro" and ?r = "tick_result (world_size ro) 0 fl g 0 w"
  have n0: "0 < ?n" using ro(2) by simp
  have tok: "tok_at ?n w 0 fl g" and idle: "\<not> w_active w 0" using w n0 by (auto simp: waiting_def world_ok_def quiet_def)
  from tick_next [OF ro w n0] obtain t' fl' g' where n: "tick ro 0 w = Inr ?r" "quiet ?n ?r" "world_ok ?n ?r t' fl' g'" by blast
  have bd: "(\<Sum>i<?n. w_sent ?r i) < 2 ^ 32" using w by (simp add: waiting_def)
  show ?thesis
  proof (cases "fl \<and> detects w g")
    case True
    then have "w_ended ?r 0" using idle by (simp add: tick_result_def tick_end_def)
    with n True bd show ?thesis by (auto simp: over_def)
  next
    case False
    then have r: "?r = tick_pass ?n 0 fresh_token (whiten (w_tk w 0)) w" using idle by (auto simp: tick_result_def fresh_token_def)
    have "tok_at ?n ?r (?n - 1) True fresh_token" using tick_pass_tok [OF tok] by (simp add: r left_of_def)
    with n(3) have "world_ok ?n ?r (?n - 1) True fresh_token" by (rule world_ok_at)
    moreover have "\<not> w_ended ?r 0" using w by (simp add: r waiting_def)
    ultimately have "waiting ?n ?r (?n - 1) True fresh_token" using n(2) bd by (simp add: waiting_def)
    moreover have "white_at ?r 0" "\<forall>i. i \<noteq> 0 \<longrightarrow> w_tk ?r i = w_tk w i"
      "tok_count (tk_tok (w_tk ?r 0)) = tok_count (tk_tok (w_tk w 0))"
      by (auto simp: r tick_pass_def white_at_def whiten_def set_white_def)
    ultimately show ?thesis using n(1) False by auto
  qed
qed

lemma ticks_others:
  assumes ro: "ranked ro" "1 < world_size ro" "world_size ro \<le> 2 ^ 30" and w: "waiting (world_size ro) w t fl g"
  shows "set is \<subseteq> {..<world_size ro} - {t} \<Longrightarrow> ticks ro is w = Inr w"
proof (induction "is")
  case (Cons i "is")
  then have "tick ro i w = Inr w" using tick_other [OF ro w] by auto
  with Cons show ?case by simp
qed simp

text \<open>Once the leader knows, everyone will.\<close>

lemma tick_over:
  assumes ro: "ranked ro" "1 < world_size ro" "world_size ro \<le> 2 ^ 30" and w: "over (world_size ro) w"
    and i: "i < world_size ro" "\<not> w_ended w i"
  shows "\<exists>w'. tick ro i w = Inr w' \<and> over (world_size ro) w' \<and> (\<forall>j. w_ended w j \<longrightarrow> w_ended w' j) \<and>
    (w_ended w (end_source i) \<longrightarrow> w_ended w' i)"
proof -
  let ?n = "world_size ro"
  from w obtain t fl g where ok: "world_ok ?n w t fl g" and e0: "w_ended w 0" and bd: "(\<Sum>i<?n. w_sent w i) < 2 ^ 32"
    by (auto simp: over_def)
  have q: "t = 0" "\<not> w_active w i" using ok e0 i(1) by (auto simp: world_ok_def quiet_def)
  have ni: "i \<noteq> 0" using e0 i(2) by metis
  let ?r = "tick_result ?n t fl g i w"
  have "tick ro i w = Inr ?r" using tick_eq [OF ro] ok i by (auto simp: world_ok_def)
  moreover have "over ?n ?r"
    using tick_result_ok [OF ok i ro(2) bd] e0 bd ni q by (simp add: over_def) (auto simp: tick_result_def tick_end_def)
  moreover have "(\<forall>j. w_ended w j \<longrightarrow> w_ended ?r j) \<and> (w_ended w (end_source i) \<longrightarrow> w_ended ?r i)"
    using ni q by (auto simp: tick_result_def tick_end_def)
  ultimately show ?thesis by blast
qed

lemma ticks_over:
  assumes ro: "ranked ro" "1 < world_size ro" "world_size ro \<le> 2 ^ 30"
  shows "over (world_size ro) w \<Longrightarrow> set is \<subseteq> {..<world_size ro} \<Longrightarrow>
    \<exists>w'. ticks ro is w = Inr w' \<and> over (world_size ro) w' \<and> (\<forall>j. w_ended w j \<longrightarrow> w_ended w' j)"
proof (induction "is" arbitrary: w)
  case (Cons i "is")
  show ?case
  proof (cases "w_ended w i")
    case True
    with Cons show ?thesis by simp
  next
    case False
    with Cons.prems obtain w1 where w1: "tick ro i w = Inr w1" "over (world_size ro) w1" "\<forall>j. w_ended w j \<longrightarrow> w_ended w1 j"
      using tick_over [OF ro, of w i] by auto
    with Cons.IH [of w1] Cons.prems False show ?thesis by auto
  qed
qed auto

lemma ticks_all_end:
  assumes ro: "ranked ro" "1 < world_size ro" "world_size ro \<le> 2 ^ 30" and w: "over (world_size ro) w"
  shows "k \<le> world_size ro \<Longrightarrow> \<exists>w'. ticks ro [0..<k] w = Inr w' \<and> over (world_size ro) w' \<and> (\<forall>j < k. w_ended w' j)"
proof (induction k)
  case 0
  with w show ?case by simp
next
  case (Suc k)
  then obtain w1 where w1: "ticks ro [0..<k] w = Inr w1" "over (world_size ro) w1" "\<forall>j < k. w_ended w1 j" by auto
  have t: "ticks ro [0..<Suc k] w = ticks ro [k] w1" using w1(1) by (simp add: ticks_append)
  show ?case
  proof (cases "w_ended w1 k")
    case True
    with w1 t show ?thesis by (auto simp: less_Suc_eq)
  next
    case False
    have "w_ended w1 (end_source k)"
    proof (cases "k = 0")
      case True
      with w1(2) show ?thesis by (simp add: over_def)
    next
      case False
      with w1(3) end_source_less [of k] show ?thesis by simp
    qed
    with tick_over [OF ro w1(2), of k] False Suc.prems obtain w2
      where "tick ro k w1 = Inr w2" "over (world_size ro) w2" "\<forall>j. w_ended w1 j \<longrightarrow> w_ended w2 j" "w_ended w2 k" by auto
    with w1(3) t False show ?thesis by (auto simp: less_Suc_eq)
  qed
qed

text \<open>The first round brings the token to the leader, the second makes all white, the third ends it.\<close>

definition one_round :: "router \<Rightarrow> nat list" where
  "one_round ro = rev [0..<world_size ro]"

lemma one_round_split: "t < world_size ro \<Longrightarrow> one_round ro = rev [Suc t..<world_size ro] @ rev [1..<Suc t] @ [0]"
proof -
  assume t: "t < world_size ro"
  then have "[0..<world_size ro] = [0..<Suc t] @ [Suc t..<world_size ro]" by (metis Suc_leI le_add_diff_inverse upt_add_eq_append zero_le)
  moreover have "[0..<Suc t] = 0 # [1..<Suc t]" by (simp add: upt_conv_Cons del: upt_Suc)
  ultimately show ?thesis by (simp add: one_round_def del: upt_Suc)
qed

lemma round_any:
  assumes ro: "ranked ro" "1 < world_size ro" "world_size ro \<le> 2 ^ 30" and w: "waiting (world_size ro) w t fl g"
  shows "\<exists>w'. ticks ro (one_round ro) w = Inr w' \<and>
    (over (world_size ro) w' \<or> waiting (world_size ro) w' (world_size ro - 1) True fresh_token \<and> white_at w' 0)"
proof -
  let ?n = "world_size ro"
  have t: "t < ?n" using w by (simp add: waiting_def world_ok_def tok_at_def)
  have above: "ticks ro (rev [Suc t..<?n]) w = Inr w" by (rule ticks_others [OF ro w]) auto
  have "\<exists>w1 fl1 g1. ticks ro (rev [1..<Suc t]) w = Inr w1 \<and> waiting ?n w1 0 fl1 g1"
  proof (cases t)
    case 0
    with w show ?thesis by auto
  next
    case (Suc k)
    with tick_down [OF ro w] obtain w1 where w1: "tick ro t w = Inr w1" "waiting ?n w1 k True (passed w t fl g)" by auto
    from ticks_down [OF ro w1(2)] obtain w2 g2 where w2: "ticks ro (rev [1..<Suc k]) w1 = Inr w2" "waiting ?n w2 0 True g2" by blast
    have "\<not> w_ended w t" using tick_next [OF ro w t] by simp
    then have "ticks ro (rev [1..<Suc t]) w = Inr w2" using w1(1) w2(1) Suc by simp
    with w2(2) show ?thesis by blast
  qed
  then obtain w1 fl1 g1 where w1: "ticks ro (rev [1..<Suc t]) w = Inr w1" "waiting ?n w1 0 fl1 g1" by blast
  have "\<not> w_ended w1 0" using w1(2) by (simp add: waiting_def)
  with tick_leader [OF ro w1(2)] obtain w2 where "ticks ro [0] w1 = Inr w2"
    "over ?n w2 \<or> waiting ?n w2 (?n - 1) True fresh_token \<and> white_at w2 0" by (auto split: if_splits)
  with w1(1) above show ?thesis by (simp add: one_round_split [OF t] ticks_append del: upt_Suc)
qed

lemma round_fresh:
  assumes ro: "ranked ro" "1 < world_size ro" "world_size ro \<le> 2 ^ 30"
    and w: "waiting (world_size ro) w (world_size ro - 1) True fresh_token" and wh: "white_at w 0"
  shows "\<exists>w'. ticks ro (one_round ro) w = Inr w' \<and>
    (over (world_size ro) w' \<or>
     \<not> all_white (world_size ro) w \<and> all_white (world_size ro) w' \<and>
     waiting (world_size ro) w' (world_size ro - 1) True fresh_token \<and> white_at w' 0)"
proof -
  let ?n = "world_size ro"
  have t: "?n - 1 < ?n" using ro(2) by simp
  have S: "Suc (?n - 1) = ?n" using ro(2) by simp
  from ticks_down [OF ro w] obtain w1 g1 where w1: "ticks ro (rev [1..<?n]) w = Inr w1" "waiting ?n w1 0 True g1"
    and g1: "tok_white g1 \<longleftrightarrow> (\<forall>i \<in> {1..?n - 1}. white_at w i)"
      "tok_count g1 = (\<Sum>i\<in>{1..?n - 1}. tok_count (tk_tok (w_tk w i)))"
    and wh1: "\<forall>i \<in> {1..?n - 1}. white_at w1 i" and tk1: "w_tk w1 0 = w_tk w 0"
    and cnt: "\<forall>i. tok_count (tk_tok (w_tk w1 i)) = tok_count (tk_tok (w_tk w i))"
    unfolding S by (auto simp: fresh_token_def)
  have all: "{..<?n} = insert 0 {1..?n - 1}" using ro(2) by auto
  have "(\<Sum>i<?n. tok_count (tk_tok (w_tk w1 i))) = (\<Sum>i<?n. of_int (sent_less_recv w1 i))"
    using w1(2) by (intro sum.cong) (auto simp: waiting_def world_ok_def counts_ok_def)
  also have "\<dots> = of_int (\<Sum>i<?n. sent_less_recv w1 i)" by (simp only: of_int_sum)
  also have "(\<Sum>i<?n. sent_less_recv w1 i) = 0" using w1(2) by (simp add: waiting_def world_ok_def counts_ok_def quiet_def)
  finally have "tok_count (tk_tok (w_tk w1 0)) + tok_count g1 = 0" using g1(2) cnt unfolding all by simp
  then have zero: "tok_count g1 + tok_count (tk_tok (w_tk w1 0)) = 0" by (simp add: add.commute)
  have det: "detects w1 g1 \<longleftrightarrow> all_white ?n w"
  proof -
    have "all_white ?n w \<longleftrightarrow> (\<forall>i \<in> {..<?n}. white_at w i)" by (auto simp: all_white_def white_at_def)
    also have "\<dots> \<longleftrightarrow> tok_white g1" unfolding all using wh g1(1) by simp
    finally show ?thesis using wh tk1 zero by (simp add: detects_def white_at_def)
  qed
  have ne: "\<not> w_ended w1 0" using w1(2) by (simp add: waiting_def)
  from tick_leader [OF ro w1(2)] obtain w2 where w2: "tick ro 0 w1 = Inr w2"
    and r: "if detects w1 g1 then over ?n w2
      else waiting ?n w2 (?n - 1) True fresh_token \<and> white_at w2 0 \<and> (\<forall>i. i \<noteq> 0 \<longrightarrow> w_tk w2 i = w_tk w1 i) \<and>
        tok_count (tk_tok (w_tk w2 0)) = tok_count (tk_tok (w_tk w1 0))" by auto
  have tk: "ticks ro (one_round ro) w = Inr w2"
  proof -
    have "rev [Suc (?n - 1)..<?n] = []" by (simp add: S)
    then have "one_round ro = rev [1..<?n] @ [0]" using one_round_split [OF t] unfolding S by simp
    then show ?thesis using w1(1) w2 ne by (simp add: ticks_append del: upt_Suc)
  qed
  show ?thesis
  proof (cases "all_white ?n w")
    case True
    with det r tk show ?thesis by auto
  next
    case False
    with det r have r: "waiting ?n w2 (?n - 1) True fresh_token" "white_at w2 0" "\<forall>i. i \<noteq> 0 \<longrightarrow> w_tk w2 i = w_tk w1 i" by auto
    then have "\<forall>i \<in> {..<?n}. white_at w2 i" unfolding all using wh1 by (auto simp: white_at_def)
    then have "all_white ?n w2" by (auto simp: all_white_def white_at_def)
    with r False tk show ?thesis by auto
  qed
qed

lemma rounds_over:
  assumes ro: "ranked ro" "1 < world_size ro" "world_size ro \<le> 2 ^ 30" and w: "waiting (world_size ro) w t fl g"
  shows "\<exists>w'. ticks ro (one_round ro @ one_round ro @ one_round ro) w = Inr w' \<and> over (world_size ro) w'"
proof -
  let ?n = "world_size ro"
  have rest: "\<exists>w'. ticks ro is w1 = Inr w' \<and> over ?n w'" if "over ?n w1" "is = one_round ro \<or> is = one_round ro @ one_round ro" for "is" w1
  proof -
    have "set is \<subseteq> {..<?n}" using that(2) by (auto simp: one_round_def)
    with ticks_over [OF ro that(1)] show ?thesis by blast
  qed
  from round_any [OF ro w] obtain w1 where w1: "ticks ro (one_round ro) w = Inr w1"
    "over ?n w1 \<or> waiting ?n w1 (?n - 1) True fresh_token \<and> white_at w1 0" by blast
  show ?thesis
  proof (cases "over ?n w1")
    case True
    have "ticks ro (one_round ro @ one_round ro @ one_round ro) w = ticks ro (one_round ro @ one_round ro) w1"
      using w1(1) by (subst ticks_append) simp
    with rest [OF True] show ?thesis by simp
  next
    case False
    with w1 round_fresh [OF ro, of w1] obtain w2 where w2: "ticks ro (one_round ro) w1 = Inr w2"
      "over ?n w2 \<or> all_white ?n w2 \<and> waiting ?n w2 (?n - 1) True fresh_token \<and> white_at w2 0" by blast
    show ?thesis
    proof (cases "over ?n w2")
      case True
      with rest w1(1) w2(1) show ?thesis by (simp add: ticks_append)
    next
      case False
      with w2 round_fresh [OF ro, of w2] obtain w3 where "ticks ro (one_round ro) w2 = Inr w3" "over ?n w3" by blast
      with w1(1) w2(1) show ?thesis by (simp add: ticks_append)
    qed
  qed
qed

text \<open>
  C11: Termination is noticed. When all machines are idle and no message is on its way, three
  rounds of polling, the machines taking turns down the ring, bring the leader to find it out,
  wherever the token is and whatever the colors and counts are; and one more round up the ranks
  brings the news to every machine, along the tree of \<open>do_collective_end_iteration\<close>.
\<close>

theorem termination_is_noticed:
  assumes "ranked ro" and "1 < world_size ro" and "world_size ro \<le> 2 ^ 30"
    and "iteration_start ro w0" and "world_steps ro w0 w" and "(\<Sum>i<world_size ro. w_sent w i) < 2 ^ 32"
    and "\<And>i. i < world_size ro \<Longrightarrow> \<not> w_active w i \<and> w_flight w i = 0"
  shows "\<exists>w'. ticks ro (one_round ro @ one_round ro @ one_round ro @ [0..<world_size ro]) w = Inr w' \<and>
    (\<forall>i < world_size ro. w_ended w' i)"
proof -
  let ?n = "world_size ro" and ?rs = "one_round ro @ one_round ro @ one_round ro"
  obtain t fl g where ok: "world_ok ?n w t fl g" using ring_reachable_ok assms by blast
  have q: "quiet ?n w" using assms(7) by (simp add: quiet_def)
  have "\<exists>w1. ticks ro ?rs w = Inr w1 \<and> over ?n w1"
  proof (cases "w_ended w 0")
    case True
    with ok assms(6) have "over ?n w" by (auto simp: over_def)
    moreover have "set ?rs \<subseteq> {..<?n}" by (auto simp: one_round_def)
    ultimately show ?thesis using ticks_over [OF assms(1-3)] by blast
  next
    case False
    with ok q assms(6) have "waiting ?n w t fl g" by (simp add: waiting_def)
    with rounds_over [OF assms(1-3)] show ?thesis by blast
  qed
  then obtain w1 where w1: "ticks ro ?rs w = Inr w1" "over ?n w1" by blast
  from ticks_all_end [OF assms(1-3) w1(2), of ?n] obtain w2 where "ticks ro [0..<?n] w1 = Inr w2" "\<forall>j < ?n. w_ended w2 j" by auto
  moreover have "ticks ro (one_round ro @ one_round ro @ one_round ro @ [0..<?n]) w = res_bind (ticks ro ?rs w) (ticks ro [0..<?n])"
    by (simp flip: ticks_append)
  ultimately show ?thesis using w1(1) by simp
qed

section \<open>Two machines\<close>

definition ring2 :: router where
  "ring2 = \<lparr>remote_list = [\<lparr>addr = 0, num_threads = 1, last_one = False, total_nodes = 0, nodes_base = 0, nodes_per_proc = 0\<rparr>,
       \<lparr>addr = 1, num_threads = 1, last_one = True, total_nodes = 0, nodes_base = 0, nodes_per_proc = 0\<rparr>],
     nodes_per_remote = 0, remote_self = 0\<rparr>"

definition start2 :: world where
  "start2 = \<lparr>w_tk = (\<lambda>i. \<lparr>tk_tok = set_white new_token, tk_has = (i = 0), tk_global = set_white new_token\<rparr>),
     w_active = (\<lambda>i. i = 0), w_flight = (\<lambda>i. 0), w_net = \<lparr>net_tokens = (\<lambda>i j. []), net_ends = (\<lambda>i j. [])\<rparr>,
     w_sent = (\<lambda>i. 0), w_recv = (\<lambda>i. 0), w_ended = (\<lambda>i. False)\<rparr>"

text \<open>The leader sends a message and becomes idle, the other receives it and becomes idle.\<close>

definition done2 :: world where
  "done2 =
     (let w1 = send_messages 0 [1] start2; w2 = w1\<lparr>w_active := (w_active w1)(0 := False)\<rparr>; w3 = take_messages 1 1 w2
      in w3\<lparr>w_active := (w_active w3)(1 := False)\<rparr>)"

lemma ring2_ok: "ranked ring2" "world_size ring2 = 2" "iteration_start ring2 start2"
  by (auto simp: ranked_def ring2_def world_size_def iteration_start_def start2_def new_token_def set_white_def less_Suc_eq)

lemma done2_steps: "world_steps ring2 start2 done2"
proof -
  let ?w1 = "send_messages 0 [1] start2"
  let ?w2 = "?w1\<lparr>w_active := (w_active ?w1)(0 := False)\<rparr>"
  let ?w3 = "take_messages 1 1 ?w2"
  have s1: "world_step ring2 start2 ?w1" by (rule send_step) (auto simp: ring2_ok start2_def)
  have s2: "world_step ring2 ?w1 ?w2" by (rule idle_step) (simp add: ring2_ok)
  have s3: "world_step ring2 ?w2 ?w3" by (rule take_step) (auto simp: ring2_ok send_messages_def)
  have s4: "world_step ring2 ?w3 done2" unfolding done2_def Let_def by (rule idle_step) (simp add: ring2_ok)
  show ?thesis by (rule one_more [OF one_more [OF one_more [OF one_more [OF no_step s1] s2] s3] s4])
qed

lemma two_machines: "(\<Sum>i<(2 :: nat). f i) = f 0 + (f 1 :: nat)"
  by (simp add: numeral_2_eq_2)

lemma done2_quiet: "i < 2 \<Longrightarrow> \<not> w_active done2 i \<and> w_flight done2 i = 0" "(\<Sum>i<2. w_sent done2 i) < 2 ^ 32"
  by (auto simp: done2_def start2_def send_messages_def take_messages_def Let_def two_machines less_2_cases_iff)

theorem termination_is_noticed_witness:
  "\<exists>w'. ticks ring2 ([1, 0] @ [1, 0] @ [1, 0] @ [0, 1]) done2 = Inr w' \<and> w_ended w' 0 \<and> w_ended w' 1"
proof -
  have r: "one_round ring2 = [1, 0]" "[0..<2] = [0, 1]" by (simp_all add: one_round_def ring2_ok upt_rec numeral_2_eq_2)
  have "\<exists>w'. ticks ring2 (one_round ring2 @ one_round ring2 @ one_round ring2 @ [0..<world_size ring2]) done2 = Inr w' \<and>
    (\<forall>i < world_size ring2. w_ended w' i)"
    by (rule termination_is_noticed) (use ring2_ok done2_steps done2_quiet in auto)
  then show ?thesis unfolding ring2_ok r by auto
qed

theorem tokenizer_is_safe_witness:
  "\<exists>w. ticks ring2 [1, 0, 1, 0, 1, 0, 1] done2 = Inr w \<and> w_ended w 1 \<and> \<not> w_active w 0 \<and> w_flight w 0 = 0"
proof -
  have "case ticks ring2 [1, 0, 1, 0, 1, 0, 1] done2 of Inl e \<Rightarrow> False
    | Inr w \<Rightarrow> w_ended w 1 \<and> w_sent w 0 = 1 \<and> w_sent w 1 = 0" by code_simp
  then obtain w where w: "ticks ring2 [1, 0, 1, 0, 1, 0, 1] done2 = Inr w" "w_ended w 1" "w_sent w 0 = 1" "w_sent w 1 = 0"
    by (auto split: sum.splits)
  have "world_steps ring2 start2 w" using ticks_steps [OF w(1) _ done2_steps] by (simp add: ring2_ok)
  with tokenizer_is_safe [of ring2 start2 w] ring2_ok w(3,4)
  have "\<forall>i < 2. w_ended w i \<longrightarrow> (\<forall>j < 2. \<not> w_active w j \<and> w_flight w j = 0)" by (simp add: two_machines)
  then have "\<not> w_active w 0 \<and> w_flight w 0 = 0" using w(2) by (metis one_less_numeral_iff semiring_norm(76) zero_less_numeral)
  with w(1,2) show ?thesis by blast
qed

end
