(* ===== verification/Mpi_Message.thy ===== *)
theory Mpi_Message
  imports Mpi_Token Vm_Tuple
begin

text \<open>
  Messages between machines, \<open>sched/mpi/message.hpp\<close> and \<open>.cpp\<close>: a tuple for a node, and the
  sets of them that travel in one MPI message.
\<close>

section \<open>Messages and sets of messages\<close>

record message =
  msg_id :: node_val
  msg_data :: simple_tuple

definition message_storage_size :: "message \<Rightarrow> nat res" where
  "message_storage_size m = res_bind (simple_tuple_storage_size (msg_data m)) (\<lambda>n. Inr (4 + n))"

definition message_pack :: "message \<Rightarrow> byte list \<Rightarrow> nat \<Rightarrow> (byte list \<times> nat) res" where
  "message_pack m buf pos =
     res_bind (pack_bytes (le_bytes 4 (msg_id m)) buf pos) (\<lambda>(buf1, pos1). simple_tuple_pack (msg_data m) buf1 pos1)"

definition message_unpack :: "predicate list \<Rightarrow> byte list \<Rightarrow> nat \<Rightarrow> (message \<times> nat) res" where
  "message_unpack prog buf pos =
     res_bind (unpack_bytes 4 buf pos) (\<lambda>(bs, pos1).
     res_bind (simple_tuple_unpack prog buf pos1) (\<lambda>(t, pos2). Inr (\<lparr>msg_id = le_word bs, msg_data = t\<rparr>, pos2)))"

record message_set =
  ms_lst :: "message list"
  ms_total :: nat

definition new_message_set :: message_set where
  "new_message_set = \<lparr>ms_lst = [], ms_total = 2\<rparr>"

definition ms_add :: "message \<Rightarrow> message_set \<Rightarrow> message_set res" where
  "ms_add m ms =
     (let l = ms_lst ms @ [m]
      in if ms_total ms = 0 then Inl Assert_Failed
         else res_bind (message_storage_size m) (\<lambda>n.
           if \<not> ms_total ms + n > length l then Inl Assert_Failed
           else Inr \<lparr>ms_lst = l, ms_total = ms_total ms + n\<rparr>))"

definition ms_empty :: "message_set \<Rightarrow> bool res" where
  "ms_empty ms = (if ms_lst ms = [] \<and> ms_total ms \<noteq> 2 then Inl Assert_Failed else Inr (ms_lst ms = []))"

definition ms_wipeout :: "message_set \<Rightarrow> message_set" where
  "ms_wipeout ms = ms\<lparr>ms_lst := [], ms_total := 2\<rparr>"

fun messages_pack :: "message list \<Rightarrow> byte list \<Rightarrow> nat \<Rightarrow> (byte list \<times> nat) res" where
  "messages_pack [] buf pos = Inr (buf, pos)"
| "messages_pack (m # l) buf pos = res_bind (message_pack m buf pos) (\<lambda>(buf1, pos1). messages_pack l buf1 pos1)"

definition ms_pack :: "message_set \<Rightarrow> byte list \<Rightarrow> byte list res" where
  "ms_pack ms buf =
     res_bind (pack_bytes (le_bytes 2 (of_nat (length (ms_lst ms)) :: 16 word)) buf 0) (\<lambda>(buf1, pos1).
     res_bind (messages_pack (ms_lst ms) buf1 pos1) (\<lambda>(buf2, pos2). Inr buf2))"

fun messages_unpack :: "predicate list \<Rightarrow> nat \<Rightarrow> byte list \<Rightarrow> nat \<Rightarrow> message_set \<Rightarrow> message_set res" where
  "messages_unpack prog 0 buf pos ms = Inr ms"
| "messages_unpack prog (Suc k) buf pos ms =
     res_bind (message_unpack prog buf pos) (\<lambda>(m, pos1). res_bind (ms_add m ms) (messages_unpack prog k buf pos1))"

definition ms_unpack :: "predicate list \<Rightarrow> byte list \<Rightarrow> message_set res" where
  "ms_unpack prog buf =
     res_bind (unpack_bytes 2 buf 0) (\<lambda>(bs, pos1).
     messages_unpack prog (unat (le_word bs :: 16 word)) buf pos1 new_message_set)"

section \<open>What packing writes\<close>

definition message_bytes :: "message \<Rightarrow> byte list" where
  "message_bytes m = le_bytes 4 (msg_id m) @ le_bytes 2 (st_count (msg_data m)) @ tuple_bytes (st_data (msg_data m))"

fun empty_list :: "fval \<Rightarrow> bool" where
  "empty_list (FLInt xs) = (xs = [])"
| "empty_list (FLFloat xs) = (xs = [])"
| "empty_list (FLNode xs) = (xs = [])"
| "empty_list _ = False"

text \<open>
  A message both sides agree on. Its tuple must not end in an empty list: \<open>cons::pack\<close> asserts
  that the buffer does not end behind the length of a list.
\<close>

definition good_message :: "predicate list \<Rightarrow> message \<Rightarrow> bool" where
  "good_message prog m \<longleftrightarrow>
     (let t = st_data (msg_data m)
      in wf_tuple t \<and> prog_has prog (tpl_pred t) \<and> list_all wire_type (tpl_fields t) \<and> list_all short_list (tpl_fields t) \<and>
         (tpl_fields t \<noteq> [] \<longrightarrow> \<not> empty_list (last (tpl_fields t))))"

lemma field_bytes_length: "wire_type f \<Longrightarrow> 4 \<le> length (field_bytes f)"
  by (cases f) (simp_all add: le_bytes.simps [symmetric] del: le_bytes.simps)

lemma pack_field_ok:
  assumes "wire_type f" and "packed (field_bytes f) buf pos buf' pos'" and "\<not> empty_list f \<or> pos' < length buf"
  shows "pack_field f buf pos = Inr (buf', pos')"
proof -
  have "pos + length (field_bytes f) \<le> length buf" "pos' = pos + length (field_bytes f)" using assms(2) by (auto simp: packed_def)
  then have ls: "pos + 4 < length buf" if "f = FLInt xs \<or> f = FLFloat ys \<or> f = FLNode zs" for xs ys zs
    using assms(3) that by (cases xs; cases ys; cases zs) auto
  show ?thesis using assms(1,2) ls
    by (cases f) (simp_all add: pack_bytes_Inr_iff int_codec.pack_list_Inr_iff float_codec.pack_list_Inr_iff)
qed

lemma pack_fields_ok:
  "list_all wire_type fs \<Longrightarrow> packed (concat (map field_bytes fs)) buf pos buf' pos' \<Longrightarrow> pos \<le> length buf \<Longrightarrow>
   (fs \<noteq> [] \<longrightarrow> \<not> empty_list (last fs)) \<Longrightarrow> pack_fields fs buf pos = Inr (buf', pos')"
proof (induction fs arbitrary: buf pos)
  case Nil
  then show ?case by (auto simp: packed_def)
next
  case (Cons f fs)
  then obtain b p where b: "packed (field_bytes f) buf pos b p" "packed (concat (map field_bytes fs)) b p buf' pos'"
    by (auto simp: packed_append_iff)
  have len: "length b = length buf" using packed_length [OF b(1)] .
  have "p < length buf" if "fs \<noteq> []"
  proof -
    from that obtain f2 fs2 where "fs = f2 # fs2" by (cases fs) auto
    with Cons.prems field_bytes_length [of f2] b(2) len show ?thesis by (auto simp: packed_def)
  qed
  then have "\<not> empty_list f \<or> p < length buf" using Cons.prems(4) by (cases fs) auto
  with b(1) Cons.prems have f: "pack_field f buf pos = Inr (b, p)" by (intro pack_field_ok) auto
  have "p \<le> length b" using b(1) len by (auto simp: packed_def)
  with Cons.IH [OF _ b(2)] Cons.prems f show ?case by (cases fs) auto
qed

lemma tuple_pack_ok:
  assumes "list_all wire_type (tpl_fields t)" and "tpl_fields t \<noteq> [] \<longrightarrow> \<not> empty_list (last (tpl_fields t))"
    and "packed (tuple_bytes t) buf pos buf' pos'"
  shows "tuple_pack t buf pos = Inr (buf', pos')"
proof -
  obtain b p where b: "packed (le_bytes 1 (pred_id (tpl_pred t))) buf pos b p"
    "packed (concat (map field_bytes (tpl_fields t))) b p buf' pos'"
    using assms(3) unfolding tuple_bytes_def packed_append_iff by blast
  have "p \<le> length b" "pos \<le> length buf" using b(1) packed_length [OF b(1)] by (auto simp: packed_def)
  moreover have "pack_bytes (le_bytes 1 (pred_id (tpl_pred t))) buf pos = Inr (b, p)" using b(1) by (simp add: pack_bytes_Inr_iff)
  ultimately show ?thesis using pack_fields_ok [OF assms(1) b(2) _ assms(2)] by (simp add: tuple_pack_def del: le_bytes.simps)
qed

lemma message_pack_ok:
  assumes "good_message prog m" and "packed (message_bytes m) buf pos buf' pos'"
  shows "message_pack m buf pos = Inr (buf', pos')"
proof -
  let ?d = "msg_data m"
  obtain b p where b: "packed (le_bytes 4 (msg_id m)) buf pos b p"
    "packed (le_bytes 2 (st_count ?d) @ tuple_bytes (st_data ?d)) b p buf' pos'"
    using assms(2) by (auto simp: message_bytes_def packed_append_iff)
  then obtain b1 p1 where b1: "packed (le_bytes 2 (st_count ?d)) b p b1 p1" "packed (tuple_bytes (st_data ?d)) b1 p1 buf' pos'"
    by (auto simp: packed_append_iff)
  have "tuple_pack (st_data ?d) b1 p1 = Inr (buf', pos')"
    using assms(1) b1(2) by (intro tuple_pack_ok) (auto simp: good_message_def Let_def)
  moreover have "pack_bytes (le_bytes 4 (msg_id m)) buf pos = Inr (b, p)" "pack_bytes (le_bytes 2 (st_count ?d)) b p = Inr (b1, p1)"
    using b(1) b1(1) by (simp_all add: pack_bytes_Inr_iff del: le_bytes.simps)
  ultimately show ?thesis by (simp add: message_pack_def simple_tuple_pack_def del: le_bytes.simps)
qed

lemma messages_pack_ok:
  "list_all (good_message prog) l \<Longrightarrow> packed (concat (map message_bytes l)) buf pos buf' pos' \<Longrightarrow>
   messages_pack l buf pos = Inr (buf', pos')"
proof (induction l arbitrary: buf pos)
  case Nil
  then show ?case by (auto simp: packed_def)
next
  case (Cons m l)
  then obtain b p where "packed (message_bytes m) buf pos b p" "packed (concat (map message_bytes l)) b p buf' pos'"
    by (auto simp: packed_append_iff)
  with Cons show ?case by (simp add: message_pack_ok [of prog])
qed

lemma message_storage_bytes: "good_message prog m \<Longrightarrow> message_storage_size m = Inr (length (message_bytes m))"
  by (simp add: message_storage_size_def simple_tuple_storage_size_def message_bytes_def good_message_def Let_def
      get_storage_size_bytes del: le_bytes.simps)

lemma message_bytes_length: "7 \<le> length (message_bytes m)"
  by (simp add: message_bytes_def tuple_bytes_def del: le_bytes.simps)

text \<open>What the receiver makes of a message: the flags of the tuple start afresh.\<close>

definition fresh_message :: "message \<Rightarrow> message" where
  "fresh_message m = m\<lparr>msg_data := new_simple_tuple (st_data (msg_data m)) (st_count (msg_data m))\<rparr>"

lemma message_unpack_holds:
  assumes g: "good_message prog m" and h: "holds_at (message_bytes m) buf pos"
  shows "message_unpack prog buf pos = Inr (fresh_message m, pos + length (message_bytes m))"
proof -
  let ?d = "msg_data m"
  have h: "holds_at (le_bytes 4 (msg_id m)) buf pos" "holds_at (le_bytes 2 (st_count ?d)) buf (pos + 4)"
      "holds_at (tuple_bytes (st_data ?d)) buf (pos + 4 + 2)"
    using h by (simp_all add: message_bytes_def holds_at_append del: le_bytes.simps)
  have "tuple_unpack prog buf (pos + 4 + 2) = Inr (st_data ?d, pos + 4 + 2 + length (tuple_bytes (st_data ?d)))"
    using g h(3) by (intro tuple_unpack_holds) (auto simp: good_message_def Let_def)
  with unpack_bytes_holds [OF h(1)] unpack_bytes_holds [OF h(2)] show ?thesis
    by (cases m) (simp add: message_unpack_def simple_tuple_unpack_def le_word_le_bytes_full message_bytes_def fresh_message_def
        del: le_bytes.simps)
qed

section \<open>Sets of messages on the wire\<close>

definition messages_size :: "message list \<Rightarrow> nat" where
  "messages_size l = length (concat (map message_bytes l))"

definition set_ok :: "predicate list \<Rightarrow> message_set \<Rightarrow> bool" where
  "set_ok prog ms \<longleftrightarrow> list_all (good_message prog) (ms_lst ms) \<and> ms_total ms = 2 + messages_size (ms_lst ms)"

definition set_bytes :: "message_set \<Rightarrow> byte list" where
  "set_bytes ms = le_bytes 2 (of_nat (length (ms_lst ms)) :: 16 word) @ concat (map message_bytes (ms_lst ms))"

lemma messages_size_simps [simp]:
  "messages_size [] = 0" "messages_size (m # l) = length (message_bytes m) + messages_size l"
  "messages_size (l @ l2) = messages_size l + messages_size l2"
  by (simp_all add: messages_size_def)

lemma messages_size_length: "7 * length l \<le> messages_size l"
proof (induction l)
  case (Cons m l)
  with message_bytes_length [of m] show ?case by simp
qed simp

lemma new_set_ok [simp]: "set_ok prog new_message_set"
  by (simp add: set_ok_def new_message_set_def)

lemma wipeout_ok [simp]: "set_ok prog (ms_wipeout ms)" "ms_lst (ms_wipeout ms) = []"
  by (simp_all add: set_ok_def ms_wipeout_def)

lemma set_ok_empty: "set_ok prog ms \<Longrightarrow> ms_empty ms = Inr (ms_lst ms = [])"
  by (auto simp: set_ok_def ms_empty_def)

lemma length_set_bytes: "set_ok prog ms \<Longrightarrow> length (set_bytes ms) = ms_total ms"
  by (simp add: set_ok_def set_bytes_def messages_size_def del: le_bytes.simps)

lemma ms_add_ok:
  assumes "set_ok prog ms" and "good_message prog m"
  shows "ms_add m ms = Inr \<lparr>ms_lst = ms_lst ms @ [m], ms_total = ms_total ms + length (message_bytes m)\<rparr>"
    and "set_ok prog \<lparr>ms_lst = ms_lst ms @ [m], ms_total = ms_total ms + length (message_bytes m)\<rparr>"
  using assms messages_size_length [of "ms_lst ms"] message_bytes_length [of m]
  by (auto simp: set_ok_def ms_add_def message_storage_bytes)

lemma ms_pack_ok:
  assumes "set_ok prog ms" and "length buf = ms_total ms"
  shows "ms_pack ms buf = Inr (set_bytes ms)"
proof -
  let ?n = "le_bytes 2 (of_nat (length (ms_lst ms)) :: 16 word)"
  have "packed (set_bytes ms) buf 0 (set_bytes ms) (length (set_bytes ms))"
    using assms length_set_bytes by (simp add: packed_def)
  then obtain b p where b: "packed ?n buf 0 b p" "packed (concat (map message_bytes (ms_lst ms))) b p (set_bytes ms) (length (set_bytes ms))"
    unfolding set_bytes_def packed_append_iff by blast
  have "pack_bytes ?n buf 0 = Inr (b, p)" using b(1) by (simp only: pack_bytes_Inr_iff)
  moreover have "messages_pack (ms_lst ms) b p = Inr (set_bytes ms, length (set_bytes ms))"
    using assms(1) b(2) by (intro messages_pack_ok [of prog]) (simp_all add: set_ok_def)
  ultimately show ?thesis by (simp add: ms_pack_def del: le_bytes.simps)
qed

lemma good_fresh [simp]: "good_message prog (fresh_message m) = good_message prog m" "message_bytes (fresh_message m) = message_bytes m"
  by (simp_all add: good_message_def fresh_message_def new_simple_tuple_def message_bytes_def)

lemma messages_unpack_holds:
  "list_all (good_message prog) l \<Longrightarrow> holds_at (concat (map message_bytes l)) buf pos \<Longrightarrow> set_ok prog ms \<Longrightarrow>
   messages_unpack prog (length l) buf pos ms =
     Inr \<lparr>ms_lst = ms_lst ms @ map fresh_message l, ms_total = ms_total ms + messages_size l\<rparr>"
proof (induction l arbitrary: pos ms)
  case Nil
  then show ?case by simp
next
  case (Cons m l)
  then have h: "holds_at (message_bytes m) buf pos" "holds_at (concat (map message_bytes l)) buf (pos + length (message_bytes m))"
    by (simp_all add: holds_at_append)
  have g: "good_message prog m" "good_message prog (fresh_message m)" using Cons.prems by simp_all
  note a = ms_add_ok [OF Cons.prems(3) g(2)]
  have "messages_unpack prog (length (m # l)) buf pos ms =
    messages_unpack prog (length l) buf (pos + length (message_bytes m))
      \<lparr>ms_lst = ms_lst ms @ [fresh_message m], ms_total = ms_total ms + length (message_bytes m)\<rparr>"
    using a(1) by (simp add: message_unpack_holds [OF g(1) h(1)])
  with Cons.IH [OF _ h(2), of "\<lparr>ms_lst = ms_lst ms @ [fresh_message m], ms_total = ms_total ms + length (message_bytes m)\<rparr>"]
    a(2) Cons.prems show ?case by simp
qed

lemma ms_unpack_set_bytes:
  assumes "set_ok prog ms" and "length (ms_lst ms) < 2 ^ 16"
  shows "ms_unpack prog (set_bytes ms @ rest) = Inr \<lparr>ms_lst = map fresh_message (ms_lst ms), ms_total = ms_total ms\<rparr>"
proof -
  have h: "holds_at (le_bytes 2 (of_nat (length (ms_lst ms)) :: 16 word)) (set_bytes ms @ rest) 0"
      "holds_at (concat (map message_bytes (ms_lst ms))) (set_bytes ms @ rest) (Suc (Suc 0))"
    by (simp_all add: set_bytes_def holds_at_def del: le_bytes.simps)
  have "unat (of_nat (length (ms_lst ms)) :: 16 word) = length (ms_lst ms)"
    using assms(2) by (simp add: unat_of_nat take_bit_nat_eq_self)
  with unpack_bytes_holds [OF h(1)] messages_unpack_holds [OF _ h(2) new_set_ok] assms(1) show ?thesis
    by (simp add: ms_unpack_def le_word_le_bytes_full set_ok_def new_message_set_def del: le_bytes.simps)
qed

text \<open>
  C33: A set of messages, none of whose tuples has a string field or ends in an empty list, survives the wire: with a buffer of
  the announced size no assertion of the packing fails, and \<open>unpack\<close> of a larger buffer that
  starts with it gives the same messages in the same order, each tuple with its count and its flags
  afresh. The set must have fewer than \<open>2^16\<close> messages. On a string \<open>tuple::pack\<close> throws a type error. A tuple that ends in an empty list is left out
  because the packing of the list asserts a byte of room behind it (\<open>runtime/list.hpp:133\<close>) and aborts when
  it is the last of the buffer.
\<close>

theorem message_set_wire_roundtrip:
  assumes "set_ok prog ms" and "length buf = ms_total ms" and "length (ms_lst ms) < 2 ^ 16"
  shows "\<exists>bs. ms_pack ms buf = Inr bs \<and>
     ms_unpack prog (bs @ rest) = Inr \<lparr>ms_lst = map fresh_message (ms_lst ms), ms_total = ms_total ms\<rparr>"
  using ms_pack_ok [OF assms(1,2)] ms_unpack_set_bytes [OF assms(1,3)] by blast

text \<open>Two facts \<open>edge(@7, [3, 4])\<close> for node 9.\<close>

definition edge_message :: message where
  "edge_message = \<lparr>msg_id = 9, msg_data = new_simple_tuple edge_tuple 2\<rparr>"

lemma edge_message_good: "good_message [edge_pred] edge_message" "length (message_bytes edge_message) = 23"
proof -
  show "good_message [edge_pred] edge_message"
    by (simp add: good_message_def edge_message_def new_simple_tuple_def edge_tuple_def wf_tuple_def prog_has_def edge_pred_def)
  show "length (message_bytes edge_message) = 23" by code_simp
qed

theorem message_set_wire_roundtrip_witness:
  "\<exists>bs. ms_pack \<lparr>ms_lst = [edge_message, edge_message], ms_total = 48\<rparr> (replicate 48 0) = Inr bs \<and>
     ms_unpack [edge_pred] (bs @ [1, 2, 3]) = Inr \<lparr>ms_lst = [edge_message, edge_message], ms_total = 48\<rparr>"
proof -
  have f: "fresh_message edge_message = edge_message" by (simp add: fresh_message_def edge_message_def new_simple_tuple_def)
  have "set_ok [edge_pred] \<lparr>ms_lst = [edge_message, edge_message], ms_total = 48\<rparr>"
    using edge_message_good by (simp add: set_ok_def)
  from message_set_wire_roundtrip [OF this, of "replicate 48 0" "[1, 2, 3]"] show ?thesis by (simp add: f)
qed

end
