(* ===== verification/Mpi_Buffer.thy ===== *)
theory Mpi_Buffer
  imports Mpi_Message
begin

text \<open>
  Sending and receiving: the requests of \<open>sched/mpi/request.cpp\<close>, the buffers of
  \<open>sched/mpi/message_buffer.cpp\<close>, \<open>send\<close> and \<open>recv_attempt\<close> of \<open>process/router.cpp\<close>, and the
  handler of \<open>sched/mpi/handler.cpp\<close> that calls them. MPI keeps the messages of one sender to one process in
  order, so a channel is a list of byte strings. The memory a message is packed into holds
  what \<open>mem0\<close> says until it is written.
\<close>

section \<open>Requests\<close>

text \<open>A request names the block of memory its message was packed into.\<close>

record req_obj =
  req_mem :: nat
  req_size :: nat

record request_handler =
  rh_reqs :: "req_obj list list"      \<comment> \<open>\<open>all_reqs\<close>, one list for every machine\<close>
  rh_total :: int
  rh_per_round :: nat

definition new_request_handler :: "nat \<Rightarrow> request_handler res" where
  "new_request_handler ws =
     (if ws = 0 then Inl Assert_Failed else Inr \<lparr>rh_reqs = replicate ws [], rh_total = 0, rh_per_round = 5\<rparr>)"

definition add_request :: "nat \<Rightarrow> req_obj \<Rightarrow> request_handler \<Rightarrow> request_handler res" where
  "add_request rem r rh =
     (if \<not> rem < length (rh_reqs rh) then Inl Assert_Failed
      else Inr (rh\<lparr>rh_total := rh_total rh + 1, rh_reqs := (rh_reqs rh)[rem := rh_reqs rh ! rem @ [r]]\<rparr>))"

definition rh_empty :: "request_handler \<Rightarrow> bool" where
  "rh_empty rh \<longleftrightarrow> rh_total rh = 0"

text \<open>The blocks that are allocated; giving back one that is not is undefined.\<close>

fun deallocate_all :: "nat list \<Rightarrow> nat set \<Rightarrow> nat set res" where
  "deallocate_all [] mem = Inr mem"
| "deallocate_all (a # as) mem = (if a \<notin> mem then Inl Bad_Access else deallocate_all as (mem - {a}))"

text \<open>\<open>MPI_Testall\<close> says whether all of the requests it is given are done.\<close>

function flush_list :: "(nat \<Rightarrow> bool) \<Rightarrow> req_obj list \<Rightarrow> nat \<Rightarrow> nat set \<Rightarrow> nat \<Rightarrow> (nat \<times> nat \<times> nat set) res" where
  "flush_list dn reqs round mem j =
     (if reqs = [] then Inr (j, round, mem)
      else if round = 0 then Inl Assert_Failed
      else if list_all (\<lambda>r. dn (req_mem r)) (take round reqs)
      then (case deallocate_all (map req_mem (take round reqs)) mem of
              Inl e \<Rightarrow> Inl e
            | Inr mem1 \<Rightarrow> flush_list dn (drop round reqs) (round + 1) mem1 (j + length (take round reqs)))
      else Inr (j, if 1 < round then round - 1 else round, mem))"
  by pat_completeness auto

termination by (relation "measure (\<lambda>(dn, reqs, round, mem, j). length reqs)") auto

declare flush_list.simps [simp del]

type_synonym req_state = "request_handler \<times> nat set"

fun clear_remotes :: "nat \<Rightarrow> nat list \<Rightarrow> request_handler \<Rightarrow> nat set \<Rightarrow> nat set res" where
  "clear_remotes self [] rh mem = Inr mem"
| "clear_remotes self (i # is) rh mem =
     res_bind (if i \<noteq> self then deallocate_all (map req_mem (rh_reqs rh ! i)) mem else Inr mem) (clear_remotes self is rh)"

definition rh_clear :: "nat \<Rightarrow> req_state \<Rightarrow> req_state res" where
  "rh_clear self st = (case st of (rh, mem) \<Rightarrow>
     res_bind (clear_remotes self [0..<length (rh_reqs rh)] rh mem) (\<lambda>mem1. Inr (rh, mem1)))"

fun flush_remotes :: "(nat \<Rightarrow> bool) \<Rightarrow> nat \<Rightarrow> nat list \<Rightarrow> req_state \<Rightarrow> req_state res" where
  "flush_remotes dn self [] st = Inr st"
| "flush_remotes dn self (i # is) (rh, mem) =
     (if i = self \<or> rh_reqs rh ! i = [] then flush_remotes dn self is (rh, mem)
      else res_bind (flush_list dn (rh_reqs rh ! i) (rh_per_round rh) mem 0) (\<lambda>(j, round, mem1).
        let t = rh_total rh - int j
        in if t < 0 then Inl Assert_Failed
           else flush_remotes dn self is
             (rh\<lparr>rh_total := t, rh_per_round := round, rh_reqs := (rh_reqs rh)[i := drop j (rh_reqs rh ! i)]\<rparr>, mem1)))"

definition rh_flush :: "(nat \<Rightarrow> bool) \<Rightarrow> nat \<Rightarrow> bool \<Rightarrow> req_state \<Rightarrow> req_state res" where
  "rh_flush dn self test st =
     (if \<not> test then rh_clear self st else flush_remotes dn self [0..<length (rh_reqs (fst st))] st)"

section \<open>Sending and receiving (process/router.cpp)\<close>

record wire =
  wr_chan :: "nat \<Rightarrow> nat \<Rightarrow> byte list list"   \<comment> \<open>machine, process\<close>
  wr_mem :: "nat set"                       \<comment> \<open>the allocated blocks\<close>
  wr_next :: nat

definition router_send :: "(nat \<Rightarrow> byte list) \<Rightarrow> nat \<Rightarrow> nat \<Rightarrow> message_set \<Rightarrow> wire \<Rightarrow> (req_obj \<times> wire) res" where
  "router_send mem0 rem proc ms w =
     (let n = ms_total ms; a = wr_next w
      in if \<not> n < 4096 then Inl Assert_Failed
         else res_bind (ms_pack ms (mem0 n)) (\<lambda>buf.
           Inr (\<lparr>req_mem = a, req_size = n\<rparr>,
             w\<lparr>wr_chan := (wr_chan w)(rem := (wr_chan w rem)(proc := wr_chan w rem proc @ [buf])),
               wr_mem := insert a (wr_mem w), wr_next := a + 1\<rparr>)))"

text \<open>The message overwrites the start of the receive buffer; MPI aborts if it does not fit.\<close>

definition recv_attempt ::
    "predicate list \<Rightarrow> nat \<Rightarrow> nat \<Rightarrow> byte list \<Rightarrow> wire \<Rightarrow> (message_set option \<times> byte list \<times> wire) res" where
  "recv_attempt prog me proc recv w =
     (case wr_chan w me proc of
        [] \<Rightarrow> Inr (None, recv, w)
      | b # bs \<Rightarrow>
          if length recv < length b then Inl Bad_Access
          else
            (let recv1 = b @ drop (length b) recv
             in res_bind (ms_unpack prog recv1) (\<lambda>ms.
                Inr (Some ms, recv1, w\<lparr>wr_chan := (wr_chan w)(me := (wr_chan w me)(proc := bs))\<rparr>))))"

section \<open>The buffer of outgoing messages\<close>

text \<open>
  The nested map from machines and processes to sets of messages is the list of its entries
  in the order of the keys; the machines, which the code orders by their addresses, are
  ordered by rank. A destination sees none of this order.
\<close>

type_synonym dest = "nat \<times> nat"

record message_buffer =
  mb_sets :: "(dest \<times> message_set) list"
  mb_total :: nat
  mb_reqs :: request_handler

definition new_message_buffer :: "nat \<Rightarrow> message_buffer res" where
  "new_message_buffer ws =
     res_bind (new_request_handler ws) (\<lambda>rh. Inr \<lparr>mb_sets = [], mb_total = 0, mb_reqs = rh\<rparr>)"

fun dest_less :: "dest \<Rightarrow> dest \<Rightarrow> bool" where
  "dest_less (r1, p1) (r2, p2) \<longleftrightarrow> r1 < r2 \<or> r1 = r2 \<and> p1 < p2"

fun find_set :: "dest \<Rightarrow> (dest \<times> message_set) list \<Rightarrow> message_set option" where
  "find_set d [] = None"
| "find_set d ((d1, ms) # l) = (if d1 = d then Some ms else find_set d l)"

fun put_set :: "dest \<Rightarrow> message_set \<Rightarrow> (dest \<times> message_set) list \<Rightarrow> (dest \<times> message_set) list" where
  "put_set d ms [] = [(d, ms)]"
| "put_set d ms ((d1, ms1) # l) =
     (if d1 = d then (d, ms) # l else if dest_less d d1 then (d, ms) # (d1, ms1) # l else (d1, ms1) # put_set d ms l)"

text \<open>\<open>transmit_list\<close> gives back the emptied set besides the buffer.\<close>

definition transmit_list ::
    "(nat \<Rightarrow> byte list) \<Rightarrow> dest \<Rightarrow> message_set \<Rightarrow> message_buffer \<times> wire \<Rightarrow> (message_set \<times> message_buffer \<times> wire) res" where
  "transmit_list mem0 d ms st = (case st of (mb, w) \<Rightarrow>
     res_bind (ms_empty ms) (\<lambda>e.
     if e \<or> mb_total mb = 0 then Inl Assert_Failed
     else if \<not> ms_total ms < 4096 then Inl Assert_Failed
     else res_bind (router_send mem0 (fst d) (snd d) ms w) (\<lambda>(r, w1).
       res_bind (add_request (fst d) r (mb_reqs mb)) (\<lambda>rh.
         if rh_empty rh then Inl Assert_Failed
         else Inr (ms_wipeout ms, mb\<lparr>mb_total := mb_total mb - 1, mb_reqs := rh\<rparr>, w1)))))"

definition mb_insert ::
    "(nat \<Rightarrow> byte list) \<Rightarrow> dest \<Rightarrow> message \<Rightarrow> message_buffer \<times> wire \<Rightarrow> (bool \<times> message_buffer \<times> wire) res" where
  "mb_insert mem0 d m st = (case st of (mb, w) \<Rightarrow>
     let ms = (case find_set d (mb_sets mb) of None \<Rightarrow> new_message_set | Some ms \<Rightarrow> ms)
     in res_bind (message_storage_size m) (\<lambda>n.
        res_bind (if 4096 \<le> ms_total ms + n then res_bind (transmit_list mem0 d ms (mb, w)) (\<lambda>(ms1, st1). Inr (True, ms1, st1))
                  else Inr (False, ms, mb, w)) (\<lambda>(transmitted, ms1, mb1, w1).
        res_bind (ms_empty ms1) (\<lambda>e.
        res_bind (ms_add m ms1) (\<lambda>ms2.
          Inr (transmitted, mb1\<lparr>mb_sets := put_set d ms2 (mb_sets mb1), mb_total := mb_total mb1 + (if e then 1 else 0)\<rparr>, w1))))))"

fun transmit_sets ::
    "(nat \<Rightarrow> byte list) \<Rightarrow> (dest \<times> message_set) list \<Rightarrow> message_buffer \<times> wire \<Rightarrow>
     ((dest \<times> message_set) list \<times> message_buffer \<times> wire) res" where
  "transmit_sets mem0 [] st = Inr ([], st)"
| "transmit_sets mem0 ((d, ms) # l) st =
     res_bind (ms_empty ms) (\<lambda>e.
     res_bind (if \<not> e then transmit_list mem0 d ms st else Inr (ms, st)) (\<lambda>(ms1, st1).
     res_bind (transmit_sets mem0 l st1) (\<lambda>(l1, st2). Inr ((d, ms1) # l1, st2))))"

definition mb_transmit :: "(nat \<Rightarrow> byte list) \<Rightarrow> message_buffer \<times> wire \<Rightarrow> (nat \<times> message_buffer \<times> wire) res" where
  "mb_transmit mem0 st = (case st of (mb, w) \<Rightarrow>
     if 0 < mb_total mb then
       res_bind (transmit_sets mem0 (mb_sets mb) (mb, w)) (\<lambda>(l, mb1, w1). Inr (mb_total mb, mb1\<lparr>mb_sets := l\<rparr>, w1))
     else Inr (0, mb, w))"

definition mb_update_received :: "(nat \<Rightarrow> bool) \<Rightarrow> nat \<Rightarrow> bool \<Rightarrow> message_buffer \<times> wire \<Rightarrow> (message_buffer \<times> wire) res" where
  "mb_update_received dn self test st = (case st of (mb, w) \<Rightarrow>
     if \<not> rh_empty (mb_reqs mb) then
       res_bind (rh_flush dn self test (mb_reqs mb, wr_mem w)) (\<lambda>(rh, mem). Inr (mb\<lparr>mb_reqs := rh\<rparr>, w\<lparr>wr_mem := mem\<rparr>))
     else Inr (mb, w))"

section \<open>The handler (sched/mpi/handler.cpp)\<close>

record mpi_handler =
  hd_step_fetch :: usize
  hd_step_send :: usize
  hd_trip_fetch :: usize
  hd_trip_update :: usize
  hd_trip_send :: usize
  hd_buf :: message_buffer
  hd_recv :: "byte list"

definition new_mpi_handler :: "nat \<Rightarrow> byte list \<Rightarrow> mpi_handler res" where
  "new_mpi_handler ws recv =
     res_bind (new_message_buffer ws) (\<lambda>mb.
       Inr \<lparr>hd_step_fetch = 500, hd_step_send = 250, hd_trip_fetch = 0, hd_trip_update = 0, hd_trip_send = 0,
            hd_buf = mb, hd_recv = recv\<rparr>)"

text \<open>\<open>deliver\<close> finds the node and calls \<open>new_mpi_message\<close>.\<close>

fun deliver_all :: "(node_val \<Rightarrow> simple_tuple \<Rightarrow> 's \<Rightarrow> 's res) \<Rightarrow> message list \<Rightarrow> 's \<Rightarrow> 's res" where
  "deliver_all deliver [] s = Inr s"
| "deliver_all deliver (m # l) s = res_bind (deliver (msg_id m) (msg_data m) s) (deliver_all deliver l)"

lemma recv_attempt_shortens:
  "recv_attempt prog me proc recv w = Inr (Some ms, recv1, w1) \<Longrightarrow> length (wr_chan w1 me proc) < length (wr_chan w me proc)"
  by (auto simp: recv_attempt_def Let_def res_bind_Inr_iff split: list.splits if_splits)

function fetch_loop ::
    "predicate list \<Rightarrow> (node_val \<Rightarrow> simple_tuple \<Rightarrow> 's \<Rightarrow> 's res) \<Rightarrow> nat \<Rightarrow> nat \<Rightarrow> byte list \<Rightarrow> wire \<Rightarrow> 's \<Rightarrow> nat \<Rightarrow>
     (byte list \<times> wire \<times> 's \<times> nat) res" where
  "fetch_loop prog deliver me proc recv w s k =
     (case recv_attempt prog me proc recv w of
        Inl e \<Rightarrow> Inl e
      | Inr (None, recv1, w1) \<Rightarrow> Inr (recv1, w1, s, k)
      | Inr (Some ms, recv1, w1) \<Rightarrow>
          (case ms_empty ms of
             Inl e \<Rightarrow> Inl e
           | Inr True \<Rightarrow> Inl Assert_Failed
           | Inr False \<Rightarrow>
               (case deliver_all deliver (ms_lst ms) s of
                  Inl e \<Rightarrow> Inl e
                | Inr s1 \<Rightarrow> fetch_loop prog deliver me proc recv1 w1 s1 (k + 1))))"
  by pat_completeness auto

termination
  by (relation "measure (\<lambda>(prog, deliver, me, proc, recv, w, s, k). length (wr_chan w me proc))")
    (auto dest: recv_attempt_shortens)

declare fetch_loop.simps [simp del]

type_synonym mpi_state = "mpi_handler \<times> wire \<times> tokenizer"

definition fetch_work ::
    "predicate list \<Rightarrow> (node_val \<Rightarrow> simple_tuple \<Rightarrow> 's \<Rightarrow> 's res) \<Rightarrow> bool \<Rightarrow> nat \<Rightarrow> nat \<Rightarrow> mpi_state \<Rightarrow> 's \<Rightarrow> (mpi_state \<times> 's) res" where
  "fetch_work prog deliver mpi me proc st s = (case st of (h, w, tk) \<Rightarrow>
     if \<not> mpi then Inr (st, s)
     else res_bind (fetch_loop prog deliver me proc (hd_recv h) w s 0) (\<lambda>(recv, w1, s1, k).
       if 0 < k then
         (let step = (if 10 < hd_step_fetch h then hd_step_fetch h - 10 else hd_step_fetch h)
          in Inr ((h\<lparr>hd_recv := recv, hd_step_fetch := max step 10\<rparr>, w1, messages_received k tk), s1))
       else
         Inr ((h\<lparr>hd_recv := recv, hd_step_fetch := (if hd_step_fetch h < 100000 then hd_step_fetch h + 10 else hd_step_fetch h)\<rparr>,
               w1, tk), s1)))"

definition buffer_message :: "(nat \<Rightarrow> byte list) \<Rightarrow> dest \<Rightarrow> message \<Rightarrow> mpi_state \<Rightarrow> mpi_state res" where
  "buffer_message mem0 d m st = (case st of (h, w, tk) \<Rightarrow>
     res_bind (mb_insert mem0 d m (hd_buf h, w)) (\<lambda>(t, mb, w1).
       Inr (h\<lparr>hd_buf := mb\<rparr>, w1, if t then messages_transmitted 1 tk else tk)))"

definition transmit_messages :: "(nat \<Rightarrow> byte list) \<Rightarrow> mpi_state \<Rightarrow> mpi_state res" where
  "transmit_messages mem0 st = (case st of (h, w, tk) \<Rightarrow>
     res_bind (mb_transmit mem0 (hd_buf h, w)) (\<lambda>(k, mb, w1).
       Inr (h\<lparr>hd_buf := mb\<rparr>, w1, if 0 < k then messages_transmitted k tk else tk)))"

definition update_pending_messages :: "(nat \<Rightarrow> bool) \<Rightarrow> nat \<Rightarrow> bool \<Rightarrow> mpi_state \<Rightarrow> mpi_state res" where
  "update_pending_messages dn self test st = (case st of (h, w, tk) \<Rightarrow>
     res_bind (mb_update_received dn self test (hd_buf h, w)) (\<lambda>(mb, w1). Inr (h\<lparr>hd_buf := mb\<rparr>, w1, tk)))"

definition do_mpi_worker_cycle :: "(nat \<Rightarrow> byte list) \<Rightarrow> (nat \<Rightarrow> bool) \<Rightarrow> nat \<Rightarrow> mpi_state \<Rightarrow> mpi_state res" where
  "do_mpi_worker_cycle mem0 dn self st = (case st of (h, w, tk) \<Rightarrow>
     let h1 = h\<lparr>hd_trip_update := hd_trip_update h + 1, hd_trip_send := hd_trip_send h + 1\<rparr>
     in res_bind (if hd_trip_update h1 = 200 then
            res_bind (update_pending_messages dn self True (h1, w, tk)) (\<lambda>(h2, w2, tk2). Inr (h2\<lparr>hd_trip_update := 0\<rparr>, w2, tk2))
          else Inr (h1, w, tk)) (\<lambda>(h3, w3, tk3).
        if hd_trip_send h3 = hd_step_send h3 then
          res_bind (transmit_messages mem0 (h3, w3, tk3)) (\<lambda>(h4, w4, tk4). Inr (h4\<lparr>hd_trip_send := 0\<rparr>, w4, tk4))
        else Inr (h3, w3, tk3)))"

definition do_mpi_leader_cycle ::
    "predicate list \<Rightarrow> (node_val \<Rightarrow> simple_tuple \<Rightarrow> 's \<Rightarrow> 's res) \<Rightarrow> bool \<Rightarrow> nat \<Rightarrow> nat \<Rightarrow> mpi_state \<Rightarrow> 's \<Rightarrow> (mpi_state \<times> 's) res" where
  "do_mpi_leader_cycle prog deliver mpi me proc st s = (case st of (h, w, tk) \<Rightarrow>
     let h1 = h\<lparr>hd_trip_fetch := hd_trip_fetch h + 1\<rparr>
     in if hd_trip_fetch h1 = hd_step_fetch h1 then
          res_bind (fetch_work prog deliver mpi me proc (h1, w, tk) s) (\<lambda>((h2, w2, tk2), s2).
            Inr ((h2\<lparr>hd_trip_fetch := 0\<rparr>, w2, tk2), s2))
        else Inr ((h1, w, tk), s))"

definition do_mpi_cycle ::
    "(nat \<Rightarrow> byte list) \<Rightarrow> (nat \<Rightarrow> bool) \<Rightarrow> predicate list \<Rightarrow> (node_val \<Rightarrow> simple_tuple \<Rightarrow> 's \<Rightarrow> 's res) \<Rightarrow> bool \<Rightarrow> nat \<Rightarrow> nat \<Rightarrow>
     mpi_state \<Rightarrow> 's \<Rightarrow> (mpi_state \<times> 's) res" where
  "do_mpi_cycle mem0 dn prog deliver mpi me proc st s =
     res_bind (do_mpi_worker_cycle mem0 dn me st) (\<lambda>st1. do_mpi_leader_cycle prog deliver mpi me proc st1 s)"

section \<open>Requests are freed once\<close>

definition mems_of :: "request_handler \<Rightarrow> nat list" where
  "mems_of rh = concat (map (map req_mem) (rh_reqs rh))"

definition reqs_ok :: "nat \<Rightarrow> request_handler \<Rightarrow> nat set \<Rightarrow> bool" where
  "reqs_ok ws rh mem \<longleftrightarrow> length (rh_reqs rh) = ws \<and> distinct (mems_of rh) \<and> set (mems_of rh) \<subseteq> mem \<and>
     rh_total rh = int (length (mems_of rh)) \<and> 0 < rh_per_round rh"

lemma deallocate_all_ok: "distinct as \<Longrightarrow> set as \<subseteq> mem \<Longrightarrow> deallocate_all as mem = Inr (mem - set as)"
proof (induction as arbitrary: mem)
  case (Cons a as)
  then have "set as \<subseteq> mem - {a}" "distinct as" by auto
  then have "deallocate_all as (mem - {a}) = Inr (mem - {a} - set as)" using Cons.IH by blast
  with Cons.prems show ?case by (auto simp: set_diff_eq)
qed simp

lemma flush_list_ok:
  "0 < round \<Longrightarrow> distinct (map req_mem reqs) \<Longrightarrow> set (map req_mem reqs) \<subseteq> mem \<Longrightarrow>
   \<exists>k round'. k \<le> length reqs \<and> 0 < round' \<and> list_all (\<lambda>r. dn (req_mem r)) (take k reqs) \<and>
     flush_list dn reqs round mem j = Inr (j + k, round', mem - set (map req_mem (take k reqs)))"
proof (induction dn reqs round mem j rule: flush_list.induct)
  case (1 dn reqs round mem j)
  show ?case
  proof (cases "reqs = [] \<or> \<not> list_all (\<lambda>r. dn (req_mem r)) (take round reqs)")
    case True
    then show ?thesis using 1(2) by (subst flush_list.simps) (auto intro!: exI [of _ "0 :: nat"])
  next
    case False
    let ?now = "take round reqs" and ?rest = "drop round reqs"
    have app: "map req_mem ?now @ map req_mem ?rest = map req_mem reqs" by (simp flip: map_append)
    have dist: "distinct (map req_mem ?now)" "distinct (map req_mem ?rest)" "set (map req_mem ?now) \<inter> set (map req_mem ?rest) = {}"
      using 1(3) unfolding app [symmetric] by auto
    have sub: "set (map req_mem ?now) \<subseteq> mem" "set (map req_mem ?rest) \<subseteq> mem - set (map req_mem ?now)"
      using 1(4) dist(3) unfolding app [symmetric] by auto
    have d: "deallocate_all (map req_mem ?now) mem = Inr (mem - set (map req_mem ?now))"
      using dist(1) sub(1) by (rule deallocate_all_ok)
    obtain k round' where k: "k \<le> length ?rest" "0 < round'" "list_all (\<lambda>r. dn (req_mem r)) (take k ?rest)"
      "flush_list dn ?rest (round + 1) (mem - set (map req_mem ?now)) (j + length ?now) =
         Inr (j + length ?now + k, round', mem - set (map req_mem ?now) - set (map req_mem (take k ?rest)))"
      using 1(1) [OF _ _ _ d] False 1(2) dist(2) sub(2) by auto
    have tk: "take (length ?now + k) reqs = ?now @ take k ?rest"
      by (cases "round \<le> length reqs") (simp_all add: take_add)
    have "flush_list dn reqs round mem j = flush_list dn ?rest (round + 1) (mem - set (map req_mem ?now)) (j + length ?now)"
      using False 1(2) d by (subst flush_list.simps) simp
    with k tk False show ?thesis by (intro exI [of _ "length ?now + k"] exI [of _ round']) (auto simp: set_diff_eq)
  qed
qed

lemma flush_remotes_ok:
  "reqs_ok ws rh mem \<Longrightarrow> set is \<subseteq> {..<ws} \<Longrightarrow>
   \<exists>rh' mem'. flush_remotes dn self is (rh, mem) = Inr (rh', mem') \<and> reqs_ok ws rh' mem' \<and> mem' \<subseteq> mem"
proof (induction "is" arbitrary: rh mem)
  case (Cons i "is")
  show ?case
  proof (cases "i = self \<or> rh_reqs rh ! i = []")
    case True
    with Cons show ?thesis by simp
  next
    case False
    let ?l = "rh_reqs rh ! i"
    have i: "i < length (rh_reqs rh)" using Cons.prems by (simp add: reqs_ok_def)
    define A B where "A = concat (map (map req_mem) (take i (rh_reqs rh)))" and "B = concat (map (map req_mem) (drop (Suc i) (rh_reqs rh)))"
    have mems: "mems_of rh = A @ map req_mem ?l @ B"
      using i unfolding mems_of_def A_def B_def by (subst id_take_nth_drop [OF i]) simp
    have upd: "mems_of (rh\<lparr>rh_total := t, rh_per_round := rd, rh_reqs := (rh_reqs rh)[i := drop k ?l]\<rparr>) = A @ map req_mem (drop k ?l) @ B"
      for t rd k using i unfolding mems_of_def A_def B_def by (simp add: upd_conv_take_nth_drop)
    have ok: "distinct (A @ map req_mem ?l @ B)" "set (A @ map req_mem ?l @ B) \<subseteq> mem" "0 < rh_per_round rh"
      "rh_total rh = int (length (A @ map req_mem ?l @ B))" "length (rh_reqs rh) = ws"
      using Cons.prems(1) by (simp_all only: reqs_ok_def mems)
    obtain k round' where k: "k \<le> length ?l" "0 < round'"
      "flush_list dn ?l (rh_per_round rh) mem 0 = Inr (0 + k, round', mem - set (map req_mem (take k ?l)))"
      using flush_list_ok [of "rh_per_round rh" ?l mem dn 0] ok by auto
    have split: "map req_mem ?l = map req_mem (take k ?l) @ map req_mem (drop k ?l)" by (simp flip: map_append)
    let ?rh = "rh\<lparr>rh_total := rh_total rh - int k, rh_per_round := round', rh_reqs := (rh_reqs rh)[i := drop k ?l]\<rparr>"
    let ?mem = "mem - set (map req_mem (take k ?l))"
    have "reqs_ok ws ?rh ?mem"
      using ok k(1,2) unfolding reqs_ok_def upd by (auto simp: split)
    with Cons.IH [of ?rh ?mem] Cons.prems(2) obtain rh' mem' where
      "flush_remotes dn self is (?rh, ?mem) = Inr (rh', mem')" "reqs_ok ws rh' mem'" "mem' \<subseteq> ?mem" by auto
    moreover have "\<not> rh_total rh - int k < 0" using ok(4) k(1) by simp
    ultimately show ?thesis using False k(3) by (intro exI [of _ rh'] exI [of _ mem']) auto
  qed
qed simp

text \<open>
  \<open>flush\<close> without a test, as at the end of an iteration, frees the memory of all requests but keeps
  the requests: the next \<open>flush\<close> frees it again.
\<close>

lemma clear_then_flush_frees_twice:
  assumes "rh = \<lparr>rh_reqs = [[], [\<lparr>req_mem = 0, req_size = 10\<rparr>]], rh_total = 1, rh_per_round = 5\<rparr>"
  shows "res_bind (rh_flush (\<lambda>a. True) 0 False (rh, {0})) (rh_flush (\<lambda>a. True) 0 True) = Inl Bad_Access"
  by (simp add: assms rh_flush_def rh_clear_def upt_rec flush_list.simps)

section \<open>What is sent and what waits\<close>

definition waiting_for :: "message_buffer \<Rightarrow> dest \<Rightarrow> message list" where
  "waiting_for mb d = (case find_set d (mb_sets mb) of None \<Rightarrow> [] | Some ms \<Rightarrow> ms_lst ms)"

definition wire_set :: "predicate list \<Rightarrow> message_set \<Rightarrow> bool" where
  "wire_set prog ms \<longleftrightarrow> set_ok prog ms \<and> ms_lst ms \<noteq> [] \<and> ms_total ms < 4096"

definition chan_holds :: "predicate list \<Rightarrow> wire \<Rightarrow> dest \<Rightarrow> message list \<Rightarrow> bool" where
  "chan_holds prog w d l \<longleftrightarrow>
     (\<exists>ss. wr_chan w (fst d) (snd d) = map set_bytes ss \<and> list_all (wire_set prog) ss \<and> concat (map ms_lst ss) = l)"

definition net_ok :: "nat \<Rightarrow> message_buffer \<Rightarrow> wire \<Rightarrow> bool" where
  "net_ok ws mb w \<longleftrightarrow> reqs_ok ws (mb_reqs mb) (wr_mem w) \<and> wr_mem w \<subseteq> {..<wr_next w}"

fun sets_sorted :: "(dest \<times> message_set) list \<Rightarrow> bool" where
  "sets_sorted [] = True"
| "sets_sorted ((d, ms) # l) \<longleftrightarrow> (\<forall>x \<in> set l. dest_less d (fst x)) \<and> sets_sorted l"

definition set_count :: "(dest \<times> message_set) list \<Rightarrow> nat" where
  "set_count l = length (filter (\<lambda>x. ms_lst (snd x) \<noteq> []) l)"

definition sets_ok :: "predicate list \<Rightarrow> nat \<Rightarrow> (dest \<times> message_set) list \<Rightarrow> bool" where
  "sets_ok prog ws l \<longleftrightarrow> (\<forall>x \<in> set l. set_ok prog (snd x) \<and> ms_total (snd x) < 4096 \<and> fst (fst x) < ws)"

definition buf_ok :: "predicate list \<Rightarrow> nat \<Rightarrow> (dest \<Rightarrow> message list) \<Rightarrow> message_buffer \<Rightarrow> wire \<Rightarrow> bool" where
  "buf_ok prog ws sent mb w \<longleftrightarrow> sets_sorted (mb_sets mb) \<and> sets_ok prog ws (mb_sets mb) \<and> mb_total mb = set_count (mb_sets mb) \<and>
     net_ok ws mb w \<and> (\<forall>d. \<exists>l. chan_holds prog w d l \<and> l @ waiting_for mb d = sent d)"

lemma dest_less_trans: "dest_less a b \<Longrightarrow> dest_less b c \<Longrightarrow> dest_less a c"
  by (cases a; cases b; cases c) auto

lemma dest_less_irrefl [simp]: "\<not> dest_less a a"
  by (cases a) simp

lemma dest_less_linear: "a \<noteq> b \<Longrightarrow> \<not> dest_less a b \<Longrightarrow> dest_less b a"
  by (cases a; cases b) auto

lemma find_put [simp]: "find_set d1 (put_set d ms l) = (if d1 = d then Some ms else find_set d1 l)"
  by (induction d ms l rule: put_set.induct) auto

lemma set_put: "set (put_set d ms l) \<subseteq> insert (d, ms) (set l)"
  by (induction d ms l rule: put_set.induct) auto

lemma put_ok: "sets_ok prog ws l \<Longrightarrow> set_ok prog ms \<Longrightarrow> ms_total ms < 4096 \<Longrightarrow> fst d < ws \<Longrightarrow> sets_ok prog ws (put_set d ms l)"
  by (induction d ms l rule: put_set.induct) (auto simp: sets_ok_def)

lemma sorted_put: "sets_sorted l \<Longrightarrow> sets_sorted (put_set d ms l)"
proof (induction d ms l rule: put_set.induct)
  case (2 d ms d1 ms1 l)
  show ?case
  proof (cases "d1 = d \<or> dest_less d d1")
    case True
    with 2(2) show ?thesis by (auto intro: dest_less_trans)
  next
    case False
    then have dl: "dest_less d1 d" using dest_less_linear [of d1 d] by blast
    have "dest_less d1 (fst x)" if "x \<in> set (put_set d ms l)" for x
      using that set_put [of d ms l] dl 2(2) by (cases "x = (d, ms)") auto
    with 2 False show ?thesis by simp
  qed
qed simp

lemma find_none: "\<forall>x \<in> set l. dest_less d (fst x) \<Longrightarrow> find_set d l = None"
  by (induction l) auto

lemma find_in: "find_set d l = Some ms \<Longrightarrow> (d, ms) \<in> set l"
  by (induction d l rule: find_set.induct) (auto split: if_splits)

lemma count_put:
  "sets_sorted l \<Longrightarrow> set_count (put_set d ms l) + (case find_set d l of None \<Rightarrow> 0 | Some ms0 \<Rightarrow> if ms_lst ms0 \<noteq> [] then 1 else 0) =
     set_count l + (if ms_lst ms \<noteq> [] then 1 else 0)"
proof (induction d ms l rule: put_set.induct)
  case (2 d ms d1 ms1 l)
  show ?case
  proof (cases "d1 = d")
    case True
    then show ?thesis by (simp add: set_count_def)
  next
    case ne: False
    show ?thesis
    proof (cases "dest_less d d1")
      case True
      have "find_set d l = None" using 2(2) True by (intro find_none) (auto intro: dest_less_trans)
      with True ne show ?thesis by (simp add: set_count_def)
    next
      case False
      with 2 ne show ?thesis by (simp add: set_count_def)
    qed
  qed
qed (simp add: set_count_def)

lemma router_send_ok:
  assumes "set_ok prog ms" and "ms_total ms < 4096" and "\<And>n. length (mem0 n) = n"
  shows "router_send mem0 rem proc ms w = Inr (\<lparr>req_mem = wr_next w, req_size = ms_total ms\<rparr>,
    w\<lparr>wr_chan := (wr_chan w)(rem := (wr_chan w rem)(proc := wr_chan w rem proc @ [set_bytes ms])),
      wr_mem := insert (wr_next w) (wr_mem w), wr_next := wr_next w + 1\<rparr>)"
  using assms by (simp add: router_send_def Let_def ms_pack_ok)

lemma chan_holds_send:
  "chan_holds prog w d l \<Longrightarrow> wire_set prog ms \<Longrightarrow> wr_chan w1 (fst d) (snd d) = wr_chan w (fst d) (snd d) @ [set_bytes ms] \<Longrightarrow>
   chan_holds prog w1 d (l @ ms_lst ms)"
proof -
  assume "chan_holds prog w d l" and ms: "wire_set prog ms" "wr_chan w1 (fst d) (snd d) = wr_chan w (fst d) (snd d) @ [set_bytes ms]"
  then obtain ss where "wr_chan w (fst d) (snd d) = map set_bytes ss" "list_all (wire_set prog) ss" "concat (map ms_lst ss) = l"
    unfolding chan_holds_def by blast
  with ms have "wr_chan w1 (fst d) (snd d) = map set_bytes (ss @ [ms]) \<and> list_all (wire_set prog) (ss @ [ms]) \<and>
    concat (map ms_lst (ss @ [ms])) = l @ ms_lst ms" by simp
  then show ?thesis unfolding chan_holds_def by blast
qed

lemma transmit_list_ok:
  assumes ms: "wire_set prog ms" and t: "0 < mb_total mb" and net: "net_ok ws mb w" and d: "fst d < ws" and mem0: "\<And>n. length (mem0 n) = n"
  shows "\<exists>mb1 w1. transmit_list mem0 d ms (mb, w) = Inr (ms_wipeout ms, mb1, w1) \<and> mb_sets mb1 = mb_sets mb \<and>
    mb_total mb1 = mb_total mb - 1 \<and> net_ok ws mb1 w1 \<and> wr_next w1 = wr_next w + 1 \<and>
    wr_chan w1 (fst d) (snd d) = wr_chan w (fst d) (snd d) @ [set_bytes ms] \<and>
    (\<forall>d1. d1 \<noteq> d \<longrightarrow> wr_chan w1 (fst d1) (snd d1) = wr_chan w (fst d1) (snd d1))"
proof -
  let ?rh = "mb_reqs mb" and ?r = "\<lparr>req_mem = wr_next w, req_size = ms_total ms\<rparr>"
  let ?rh1 = "?rh\<lparr>rh_total := rh_total ?rh + 1, rh_reqs := (rh_reqs ?rh)[fst d := rh_reqs ?rh ! fst d @ [?r]]\<rparr>"
  have ok: "set_ok prog ms" "ms_lst ms \<noteq> []" "ms_total ms < 4096" using ms by (simp_all add: wire_set_def)
  have rq: "reqs_ok ws ?rh (wr_mem w)" and lt: "wr_mem w \<subseteq> {..<wr_next w}" using net by (simp_all add: net_ok_def)
  have i: "fst d < length (rh_reqs ?rh)" using rq d by (simp add: reqs_ok_def)
  define A B where "A = concat (map (map req_mem) (take (fst d) (rh_reqs ?rh)))"
    and "B = concat (map (map req_mem) (drop (Suc (fst d)) (rh_reqs ?rh)))"
  have m0: "mems_of ?rh = A @ map req_mem (rh_reqs ?rh ! fst d) @ B"
    unfolding mems_of_def A_def B_def by (subst id_take_nth_drop [OF i]) simp
  have m1: "mems_of ?rh1 = A @ map req_mem (rh_reqs ?rh ! fst d) @ wr_next w # B"
    using i unfolding mems_of_def A_def B_def by (simp add: upd_conv_take_nth_drop)
  have new: "wr_next w \<notin> set (mems_of ?rh)" using rq lt by (auto simp: reqs_ok_def)
  have "reqs_ok ws ?rh1 (insert (wr_next w) (wr_mem w))"
    using rq new unfolding reqs_ok_def m0 m1 by auto
  moreover have "insert (wr_next w) (wr_mem w) \<subseteq> {..<wr_next w + 1}" using lt by auto
  moreover have "0 \<le> rh_total ?rh" using rq by (simp add: reqs_ok_def)
  ultimately show ?thesis
    using ok t i router_send_ok [OF ok(1,3) mem0]
    by (auto simp: transmit_list_def set_ok_empty add_request_def rh_empty_def net_ok_def prod_eq_iff)
qed

text \<open>A message that fits, with the two bytes of the number of messages, below the threshold.\<close>

definition small_message :: "predicate list \<Rightarrow> message \<Rightarrow> bool" where
  "small_message prog m \<longleftrightarrow> good_message prog m \<and> 2 + length (message_bytes m) < 4096"

lemma mb_insert_ok:
  assumes ok: "buf_ok prog ws sent mb w" and m: "small_message prog m" and d: "fst d < ws" and mem0: "\<And>n. length (mem0 n) = n"
  shows "\<exists>t mb1 w1. mb_insert mem0 d m (mb, w) = Inr (t, mb1, w1) \<and> buf_ok prog ws (sent(d := sent d @ [m])) mb1 w1 \<and>
    wr_next w1 = wr_next w + (if t then 1 else 0)"
proof -
  define ms where "ms = (case find_set d (mb_sets mb) of None \<Rightarrow> new_message_set | Some ms \<Rightarrow> ms)"
  have wf: "waiting_for mb d = ms_lst ms" by (simp add: waiting_for_def ms_def new_message_set_def split: option.split)
  have so: "sets_sorted (mb_sets mb)" "sets_ok prog ws (mb_sets mb)" "mb_total mb = set_count (mb_sets mb)" "net_ok ws mb w"
    and ch: "\<forall>d. \<exists>l. chan_holds prog w d l \<and> l @ waiting_for mb d = sent d"
    using ok by (simp_all add: buf_ok_def)
  have ms: "set_ok prog ms" "ms_total ms < 4096"
  proof -
    have "set_ok prog ms \<and> ms_total ms < 4096"
    proof (cases "find_set d (mb_sets mb)")
      case None
      then have "ms = new_message_set" by (simp add: ms_def)
      moreover have "ms_total new_message_set < 4096" by (simp add: new_message_set_def)
      ultimately show ?thesis by simp
    next
      case (Some x)
      then have "ms = x" by (simp add: ms_def)
      with find_in [OF Some] so(2) show ?thesis by (auto simp: sets_ok_def)
    qed
    then show "set_ok prog ms" "ms_total ms < 4096" by auto
  qed
  have g: "good_message prog m" "2 + length (message_bytes m) < 4096" using m by (simp_all add: small_message_def)
  let ?n = "length (message_bytes m)"
  have cnt: "set_count (put_set d ms2 (mb_sets mb)) + (if ms_lst ms \<noteq> [] then 1 else 0) = set_count (mb_sets mb) + 1"
    if "ms_lst ms2 \<noteq> []" for ms2
    using count_put [OF so(1), of d ms2] that by (auto simp: ms_def new_message_set_def split: option.splits)
  have wait: "waiting_for (mb1\<lparr>mb_sets := put_set d ms2 l, mb_total := t\<rparr>) d1 = (if d1 = d then ms_lst ms2 else case find_set d1 l of None \<Rightarrow> [] | Some ms \<Rightarrow> ms_lst ms)"
    for mb1 ms2 d1 t l by (simp add: waiting_for_def)
  show ?thesis
  proof (cases "4096 \<le> ms_total ms + ?n")
    case full: True
    have ne: "ms_lst ms \<noteq> []" using full g(2) ms(1) by (auto simp: set_ok_def)
    then have ws: "wire_set prog ms" using ms by (simp add: wire_set_def)
    have "find_set d (mb_sets mb) = Some ms" using ne by (auto simp: ms_def new_message_set_def split: option.splits)
    then have "(d, ms) \<in> set (mb_sets mb)" by (rule find_in)
    then have "0 < length (filter (\<lambda>x. ms_lst (snd x) \<noteq> []) (mb_sets mb))" using ne by (force simp: filter_empty_conv)
    then have pos: "0 < mb_total mb" by (simp add: so(3) set_count_def)
    from transmit_list_ok [OF ws pos so(4) d mem0] obtain mb1 w1 where t: "transmit_list mem0 d ms (mb, w) = Inr (ms_wipeout ms, mb1, w1)"
      "mb_sets mb1 = mb_sets mb" "mb_total mb1 = mb_total mb - 1" "net_ok ws mb1 w1" "wr_next w1 = wr_next w + 1"
      "wr_chan w1 (fst d) (snd d) = wr_chan w (fst d) (snd d) @ [set_bytes ms]"
      "\<forall>d1. d1 \<noteq> d \<longrightarrow> wr_chan w1 (fst d1) (snd d1) = wr_chan w (fst d1) (snd d1)" by blast
    let ?ms2 = "\<lparr>ms_lst = [m], ms_total = 2 + ?n\<rparr>"
    have add: "ms_add m (ms_wipeout ms) = Inr ?ms2" "set_ok prog ?ms2"
      using ms_add_ok [OF wipeout_ok(1) g(1), of ms] by (simp_all add: ms_wipeout_def)
    let ?mb = "mb1\<lparr>mb_sets := put_set d ?ms2 (mb_sets mb1), mb_total := mb_total mb1 + 1\<rparr>"
    have res: "mb_insert mem0 d m (mb, w) = Inr (True, ?mb, w1)"
      using full t(1) add(1) message_storage_bytes [OF g(1)] set_ok_empty [OF wipeout_ok(1), of ms]
      by (simp add: mb_insert_def Let_def flip: ms_def)
    have "buf_ok prog ws (sent(d := sent d @ [m])) ?mb w1"
      unfolding buf_ok_def
    proof (intro conjI allI)
      show "sets_sorted (mb_sets ?mb)" using so(1) t(2) by (simp add: sorted_put)
      show "sets_ok prog ws (mb_sets ?mb)" using so(2) t(2) add(2) g(2) d by (simp add: put_ok)
      show "mb_total ?mb = set_count (mb_sets ?mb)" using cnt [of ?ms2] ne pos t(2,3) so(3) by simp
      show "net_ok ws ?mb w1" using t(4) by (simp add: net_ok_def)
      fix d1
      obtain l where l: "chan_holds prog w d1 l" "l @ waiting_for mb d1 = sent d1" using ch by blast
      show "\<exists>l. chan_holds prog w1 d1 l \<and> l @ waiting_for ?mb d1 = (sent(d := sent d @ [m])) d1"
      proof (cases "d1 = d")
        case True
        with l ws t(6) have "chan_holds prog w1 d (l @ ms_lst ms)" by (auto intro: chan_holds_send)
        with True l(2) wf show ?thesis by (auto simp: wait)
      next
        case False
        with l(1) t(7) have "chan_holds prog w1 d1 l" by (simp add: chan_holds_def)
        with False l(2) t(2) show ?thesis by (auto simp: wait waiting_for_def)
      qed
    qed
    with res t(5) show ?thesis by (intro exI [of _ True] exI [of _ ?mb] exI [of _ w1]) simp
  next
    case False
    let ?ms2 = "\<lparr>ms_lst = ms_lst ms @ [m], ms_total = ms_total ms + ?n\<rparr>"
    note add = ms_add_ok [OF ms(1) g(1)]
    let ?e = "ms_lst ms = []"
    let ?mb = "mb\<lparr>mb_sets := put_set d ?ms2 (mb_sets mb), mb_total := mb_total mb + (if ?e then 1 else 0)\<rparr>"
    have res: "mb_insert mem0 d m (mb, w) = Inr (False, ?mb, w)"
      using False add(1) message_storage_bytes [OF g(1)] set_ok_empty [OF ms(1)]
      by (simp add: mb_insert_def Let_def flip: ms_def)
    have "buf_ok prog ws (sent(d := sent d @ [m])) ?mb w"
      unfolding buf_ok_def
    proof (intro conjI allI)
      show "sets_sorted (mb_sets ?mb)" using so(1) by (simp add: sorted_put)
      show "sets_ok prog ws (mb_sets ?mb)" using so(2) add(2) False d by (simp add: put_ok)
      show "mb_total ?mb = set_count (mb_sets ?mb)" using cnt [of ?ms2] so(3) by auto
      show "net_ok ws ?mb w" using so(4) by (simp add: net_ok_def)
      fix d1
      obtain l where l: "chan_holds prog w d1 l" "l @ waiting_for mb d1 = sent d1" using ch by blast
      then show "\<exists>l. chan_holds prog w d1 l \<and> l @ waiting_for ?mb d1 = (sent(d := sent d @ [m])) d1"
        using wf by (intro exI [of _ l]) (auto simp: wait waiting_for_def)
    qed
    with res show ?thesis by (intro exI [of _ False] exI [of _ ?mb] exI [of _ w]) simp
  qed
qed

text \<open>\<open>transmit\<close> sends every set that is not empty.\<close>

definition emptied :: "(dest \<times> message_set) list \<Rightarrow> (dest \<times> message_set) list" where
  "emptied l = map (\<lambda>(d, ms). (d, if ms_lst ms = [] then ms else ms_wipeout ms)) l"

lemma transmit_sets_ok:
  assumes mem0: "\<And>n. length (mem0 n) = n"
  shows "sets_sorted l \<Longrightarrow> sets_ok prog ws l \<Longrightarrow> mb_total mb = set_count l \<Longrightarrow> net_ok ws mb w \<Longrightarrow>
    \<exists>mb1 w1. transmit_sets mem0 l (mb, w) = Inr (emptied l, mb1, w1) \<and> mb_total mb1 = 0 \<and> net_ok ws mb1 w1 \<and>
      wr_next w1 = wr_next w + set_count l \<and>
      (\<forall>d ss. chan_holds prog w d ss \<longrightarrow> chan_holds prog w1 d (ss @ (case find_set d l of None \<Rightarrow> [] | Some ms \<Rightarrow> ms_lst ms)))"
proof (induction l arbitrary: mb w)
  case Nil
  then show ?case by (auto simp: emptied_def set_count_def)
next
  case (Cons x l)
  obtain d ms where x: "x = (d, ms)" by (cases x)
  have ms: "set_ok prog ms" "ms_total ms < 4096" "fst d < ws" and l: "sets_sorted l" "sets_ok prog ws l"
    and none: "find_set d l = None"
    using Cons.prems(1,2) by (auto simp: x sets_ok_def intro: find_none)
  show ?case
  proof (cases "ms_lst ms = []")
    case True
    with Cons.prems(3) have "mb_total mb = set_count l" by (simp add: x set_count_def)
    from Cons.IH [OF l this Cons.prems(4)] obtain mb1 w1 where r: "transmit_sets mem0 l (mb, w) = Inr (emptied l, mb1, w1)"
      "mb_total mb1 = 0" "net_ok ws mb1 w1" "wr_next w1 = wr_next w + set_count l"
      "\<forall>d ss. chan_holds prog w d ss \<longrightarrow> chan_holds prog w1 d (ss @ (case find_set d l of None \<Rightarrow> [] | Some ms \<Rightarrow> ms_lst ms))" by blast
    have "chan_holds prog w1 d1 (ss @ (case find_set d1 (x # l) of None \<Rightarrow> [] | Some ms \<Rightarrow> ms_lst ms))" if "chan_holds prog w d1 ss" for d1 ss
      using r(5) [rule_format, OF that] none True by (cases "d1 = d") (simp_all add: x)
    with r True set_ok_empty [OF ms(1)] show ?thesis
      by (intro exI [of _ mb1] exI [of _ w1]) (simp add: x emptied_def set_count_def)
  next
    case False
    then have ws: "wire_set prog ms" using ms by (simp add: wire_set_def)
    have t: "mb_total mb = set_count l + 1" using Cons.prems(3) False by (simp add: x set_count_def)
    then have pos: "0 < mb_total mb" by simp
    from transmit_list_ok [OF ws pos Cons.prems(4) ms(3) mem0] obtain mb1 w1 where s: "transmit_list mem0 d ms (mb, w) = Inr (ms_wipeout ms, mb1, w1)"
      "mb_total mb1 = mb_total mb - 1" "net_ok ws mb1 w1" "wr_next w1 = wr_next w + 1"
      "wr_chan w1 (fst d) (snd d) = wr_chan w (fst d) (snd d) @ [set_bytes ms]"
      "\<forall>d1. d1 \<noteq> d \<longrightarrow> wr_chan w1 (fst d1) (snd d1) = wr_chan w (fst d1) (snd d1)" by blast
    have "mb_total mb1 = set_count l" using s(2) t by simp
    from Cons.IH [OF l this s(3)] obtain mb2 w2 where r: "transmit_sets mem0 l (mb1, w1) = Inr (emptied l, mb2, w2)"
      "mb_total mb2 = 0" "net_ok ws mb2 w2" "wr_next w2 = wr_next w1 + set_count l"
      "\<forall>d ss. chan_holds prog w1 d ss \<longrightarrow> chan_holds prog w2 d (ss @ (case find_set d l of None \<Rightarrow> [] | Some ms \<Rightarrow> ms_lst ms))" by blast
    have "chan_holds prog w2 d1 (ss @ (case find_set d1 (x # l) of None \<Rightarrow> [] | Some ms \<Rightarrow> ms_lst ms))" if h: "chan_holds prog w d1 ss" for d1 ss
    proof (cases "d1 = d")
      case True
      with chan_holds_send [OF h ws] s(5) have "chan_holds prog w1 d (ss @ ms_lst ms)" by simp
      with r(5) none True show ?thesis by (fastforce simp: x)
    next
      case ne: False
      with h s(6) have "chan_holds prog w1 d1 ss" by (simp add: chan_holds_def)
      from r(5) [rule_format, OF this] ne show ?thesis by (simp add: x)
    qed
    with r s False set_ok_empty [OF ms(1)] show ?thesis
      by (intro exI [of _ mb2] exI [of _ w2]) (simp add: x emptied_def set_count_def)
  qed
qed

lemma emptied_empty:
  assumes "sets_ok prog ws l"
  shows "sets_ok prog ws (emptied l) \<and> set_count (emptied l) = 0"
proof -
  have wp: "ms_total (ms_wipeout ms) < 4096" for ms by (simp add: ms_wipeout_def)
  have "ms_lst (snd x) = [] \<and> set_ok prog (snd x) \<and> ms_total (snd x) < 4096 \<and> fst (fst x) < ws" if "x \<in> set (emptied l)" for x
    using that assms wp by (auto simp: emptied_def sets_ok_def split: if_splits)
  then show ?thesis by (auto simp: sets_ok_def set_count_def filter_empty_conv)
qed

lemma emptied_sorted: "sets_sorted l \<Longrightarrow> sets_sorted (emptied l)"
  by (induction l rule: sets_sorted.induct) (auto simp: emptied_def split_def)

lemma find_emptied: "(case find_set d (emptied l) of None \<Rightarrow> [] | Some ms \<Rightarrow> ms_lst ms) = []"
  by (induction d l rule: find_set.induct) (auto simp: emptied_def split: option.splits)

lemma mb_transmit_ok:
  assumes ok: "buf_ok prog ws sent mb w" and mem0: "\<And>n. length (mem0 n) = n"
  shows "\<exists>mb1 w1. mb_transmit mem0 (mb, w) = Inr (mb_total mb, mb1, w1) \<and> buf_ok prog ws sent mb1 w1 \<and>
    wr_next w1 = wr_next w + mb_total mb \<and> (\<forall>d. waiting_for mb1 d = [])"
proof (cases "0 < mb_total mb")
  case True
  have so: "sets_sorted (mb_sets mb)" "sets_ok prog ws (mb_sets mb)" "mb_total mb = set_count (mb_sets mb)" "net_ok ws mb w"
    and ch: "\<forall>d. \<exists>l. chan_holds prog w d l \<and> l @ waiting_for mb d = sent d"
    using ok by (simp_all add: buf_ok_def)
  from transmit_sets_ok [OF mem0 so] obtain mb1 w1 where r: "transmit_sets mem0 (mb_sets mb) (mb, w) = Inr (emptied (mb_sets mb), mb1, w1)"
    "mb_total mb1 = 0" "net_ok ws mb1 w1" "wr_next w1 = wr_next w + set_count (mb_sets mb)"
    "\<forall>d ss. chan_holds prog w d ss \<longrightarrow> chan_holds prog w1 d (ss @ (case find_set d (mb_sets mb) of None \<Rightarrow> [] | Some ms \<Rightarrow> ms_lst ms))" by blast
  let ?mb = "mb1\<lparr>mb_sets := emptied (mb_sets mb)\<rparr>"
  have "waiting_for ?mb d = []" for d by (simp add: waiting_for_def find_emptied)
  moreover have "buf_ok prog ws sent ?mb w1"
    unfolding buf_ok_def
  proof (intro conjI allI)
    show "sets_sorted (mb_sets ?mb)" using so(1) by (simp add: emptied_sorted)
    show "sets_ok prog ws (mb_sets ?mb)" "mb_total ?mb = set_count (mb_sets ?mb)" using emptied_empty [OF so(2)] r(2) by simp_all
    show "net_ok ws ?mb w1" using r(3) by (simp add: net_ok_def)
    fix d
    obtain l where "chan_holds prog w d l" "l @ waiting_for mb d = sent d" using ch by blast
    with r(5) [rule_format, of d l] have "chan_holds prog w1 d (sent d)" by (simp add: waiting_for_def)
    then show "\<exists>l. chan_holds prog w1 d l \<and> l @ waiting_for ?mb d = sent d" by (simp add: waiting_for_def find_emptied)
  qed
  ultimately show ?thesis using True r(1,4) so(3) by (simp add: mb_transmit_def)
next
  case False
  have none: "ms_lst (snd x) = []" if "x \<in> set (mb_sets mb)" for x
    using False ok that by (auto simp: buf_ok_def set_count_def filter_empty_conv)
  have "waiting_for mb d = []" for d
  proof (cases "find_set d (mb_sets mb)")
    case (Some ms)
    with none [OF find_in [OF Some]] show ?thesis by (simp add: waiting_for_def)
  qed (simp add: waiting_for_def)
  with False ok show ?thesis by (simp add: mb_transmit_def)
qed

lemma mb_update_ok:
  assumes ok: "buf_ok prog ws sent mb w"
  shows "\<exists>mb1 w1. mb_update_received dn self True (mb, w) = Inr (mb1, w1) \<and> buf_ok prog ws sent mb1 w1 \<and>
    wr_next w1 = wr_next w \<and> wr_chan w1 = wr_chan w \<and> mb_sets mb1 = mb_sets mb"
proof (cases "rh_empty (mb_reqs mb)")
  case True
  with ok show ?thesis by (simp add: mb_update_received_def)
next
  case False
  have rq: "reqs_ok ws (mb_reqs mb) (wr_mem w)" "wr_mem w \<subseteq> {..<wr_next w}" using ok by (simp_all add: buf_ok_def net_ok_def)
  then have len: "length (rh_reqs (mb_reqs mb)) = ws" by (simp add: reqs_ok_def)
  from flush_remotes_ok [OF rq(1), of "[0..<ws]" dn self] obtain rh mem where
    f: "flush_remotes dn self [0..<ws] (mb_reqs mb, wr_mem w) = Inr (rh, mem)" "reqs_ok ws rh mem" "mem \<subseteq> wr_mem w" by (auto simp: atLeast0LessThan)
  let ?mb = "mb\<lparr>mb_reqs := rh\<rparr>" and ?w = "w\<lparr>wr_mem := mem\<rparr>"
  have "buf_ok prog ws sent ?mb ?w" using ok f(2,3) by (auto simp: buf_ok_def net_ok_def chan_holds_def waiting_for_def)
  with False f(1) len show ?thesis by (simp add: mb_update_received_def rh_flush_def)
qed

section \<open>From machine to machine\<close>

text \<open>What the scheduler does with the buffer: a message for a destination, a transmission, a check of the requests.\<close>

datatype mpi_op = Send_Message dest message | Transmit_All | Check_Requests "nat \<Rightarrow> bool"

fun mpi_do :: "(nat \<Rightarrow> byte list) \<Rightarrow> nat \<Rightarrow> mpi_op \<Rightarrow> mpi_state \<Rightarrow> mpi_state res" where
  "mpi_do mem0 self (Send_Message d m) st = buffer_message mem0 d m st"
| "mpi_do mem0 self Transmit_All st = transmit_messages mem0 st"
| "mpi_do mem0 self (Check_Requests dn) st = update_pending_messages dn self True st"

fun mpi_run :: "(nat \<Rightarrow> byte list) \<Rightarrow> nat \<Rightarrow> mpi_op list \<Rightarrow> mpi_state \<Rightarrow> mpi_state res" where
  "mpi_run mem0 self [] st = Inr st"
| "mpi_run mem0 self (p # ps) st = res_bind (mpi_do mem0 self p st) (mpi_run mem0 self ps)"

fun messages_for :: "dest \<Rightarrow> mpi_op list \<Rightarrow> message list" where
  "messages_for d [] = []"
| "messages_for d (Send_Message d1 m # ps) = (if d1 = d then m # messages_for d ps else messages_for d ps)"
| "messages_for d (_ # ps) = messages_for d ps"

definition op_ok :: "predicate list \<Rightarrow> nat \<Rightarrow> mpi_op \<Rightarrow> bool" where
  "op_ok prog ws p = (case p of Send_Message d m \<Rightarrow> small_message prog m \<and> fst d < ws | _ \<Rightarrow> True)"

lemma tok_count_transmitted [simp]:
  "tok_count (tk_tok (messages_transmitted k tk)) = tok_count (tk_tok tk) + of_nat k"
  by (simp add: messages_transmitted_def transmitted_def)

lemma mpi_do_ok:
  assumes ok: "buf_ok prog ws sent (hd_buf h) w" and p: "op_ok prog ws p" and mem0: "\<And>n. length (mem0 n) = n"
  shows "\<exists>h1 w1 tk1. mpi_do mem0 self p (h, w, tk) = Inr (h1, w1, tk1) \<and>
    buf_ok prog ws (\<lambda>d. sent d @ messages_for d [p]) (hd_buf h1) w1 \<and> wr_next w \<le> wr_next w1 \<and>
    tok_count (tk_tok tk1) = tok_count (tk_tok tk) + of_nat (wr_next w1 - wr_next w) \<and>
    (p = Transmit_All \<longrightarrow> (\<forall>d. waiting_for (hd_buf h1) d = []))"
proof (cases p)
  case (Send_Message d m)
  with p have m: "small_message prog m" "fst d < ws" by (simp_all add: op_ok_def)
  from mb_insert_ok [OF ok m mem0] obtain t mb1 w1 where r: "mb_insert mem0 d m (hd_buf h, w) = Inr (t, mb1, w1)"
    "buf_ok prog ws (sent(d := sent d @ [m])) mb1 w1" "wr_next w1 = wr_next w + (if t then 1 else 0)" by blast
  have "(\<lambda>d1. sent d1 @ messages_for d1 [p]) = sent(d := sent d @ [m])" by (auto simp: Send_Message)
  with r show ?thesis by (simp add: Send_Message buffer_message_def)
next
  case Transmit_All
  from mb_transmit_ok [OF ok mem0] obtain mb1 w1 where r: "mb_transmit mem0 (hd_buf h, w) = Inr (mb_total (hd_buf h), mb1, w1)"
    "buf_ok prog ws sent mb1 w1" "wr_next w1 = wr_next w + mb_total (hd_buf h)" "\<forall>d. waiting_for mb1 d = []" by blast
  have "(\<lambda>d1. sent d1 @ messages_for d1 [p]) = sent" by (auto simp: Transmit_All)
  with r show ?thesis by (simp add: Transmit_All transmit_messages_def)
next
  case (Check_Requests dn)
  from mb_update_ok [OF ok, of dn self] obtain mb1 w1 where r: "mb_update_received dn self True (hd_buf h, w) = Inr (mb1, w1)"
    "buf_ok prog ws sent mb1 w1" "wr_next w1 = wr_next w" by blast
  have "(\<lambda>d1. sent d1 @ messages_for d1 [p]) = sent" by (auto simp: Check_Requests)
  with r show ?thesis by (simp add: Check_Requests update_pending_messages_def)
qed

lemma messages_for_Cons: "messages_for d (p # ps) = messages_for d [p] @ messages_for d ps"
  by (cases p) auto

lemma mpi_run_ok:
  assumes mem0: "\<And>n. length (mem0 n) = n"
  shows "buf_ok prog ws sent (hd_buf h) w \<Longrightarrow> list_all (op_ok prog ws) ps \<Longrightarrow>
    \<exists>h1 w1 tk1. mpi_run mem0 self ps (h, w, tk) = Inr (h1, w1, tk1) \<and>
      buf_ok prog ws (\<lambda>d. sent d @ messages_for d ps) (hd_buf h1) w1 \<and> wr_next w \<le> wr_next w1 \<and>
      tok_count (tk_tok tk1) = tok_count (tk_tok tk) + of_nat (wr_next w1 - wr_next w)"
proof (induction ps arbitrary: sent h w tk)
  case Nil
  then show ?case by simp
next
  case (Cons p ps)
  then have p: "op_ok prog ws p" "list_all (op_ok prog ws) ps" by simp_all
  from mpi_do_ok [OF Cons.prems(1) p(1) mem0] obtain h1 w1 tk1 where r: "mpi_do mem0 self p (h, w, tk) = Inr (h1, w1, tk1)"
    "buf_ok prog ws (\<lambda>d. sent d @ messages_for d [p]) (hd_buf h1) w1" "wr_next w \<le> wr_next w1"
    "tok_count (tk_tok tk1) = tok_count (tk_tok tk) + of_nat (wr_next w1 - wr_next w)" by blast
  from Cons.IH [OF r(2) p(2), of tk1] obtain h2 w2 tk2 where s: "mpi_run mem0 self ps (h1, w1, tk1) = Inr (h2, w2, tk2)"
    "buf_ok prog ws (\<lambda>d. (sent d @ messages_for d [p]) @ messages_for d ps) (hd_buf h2) w2" "wr_next w1 \<le> wr_next w2"
    "tok_count (tk_tok tk2) = tok_count (tk_tok tk1) + of_nat (wr_next w2 - wr_next w1)" by blast
  have "(of_nat (wr_next w2 - wr_next w) :: int_val) = of_nat (wr_next w1 - wr_next w) + of_nat (wr_next w2 - wr_next w1)"
    using r(3) s(3) by (simp flip: of_nat_add)
  with r s show ?case by (simp add: messages_for_Cons [of _ p ps])
qed

lemma new_handler_ok:
  assumes "new_mpi_handler ws recv = Inr h" and "\<And>d p. wr_chan w d p = []" and "wr_mem w = {}"
  shows "buf_ok prog ws (\<lambda>d. []) (hd_buf h) w"
  using assms by (auto simp: new_mpi_handler_def new_message_buffer_def new_request_handler_def buf_ok_def sets_ok_def set_count_def
      net_ok_def reqs_ok_def mems_of_def chan_holds_def waiting_for_def split: if_splits)

text \<open>The receiving machine appends what it is given to a list.\<close>

definition collect :: "node_val \<Rightarrow> simple_tuple \<Rightarrow> (node_val \<times> simple_tuple) list \<Rightarrow> (node_val \<times> simple_tuple) list res" where
  "collect n t s = Inr (s @ [(n, t)])"

definition as_pair :: "message \<Rightarrow> node_val \<times> simple_tuple" where
  "as_pair m = (msg_id m, new_simple_tuple (st_data (msg_data m)) (st_count (msg_data m)))"

lemma deliver_collect: "deliver_all collect (map fresh_message l) s = Inr (s @ map as_pair l)"
  by (induction l arbitrary: s) (auto simp: collect_def fresh_message_def as_pair_def)

lemma unpack_set_bytes:
  assumes "wire_set prog ms"
  shows "ms_unpack prog (set_bytes ms @ rest) = Inr \<lparr>ms_lst = map fresh_message (ms_lst ms), ms_total = ms_total ms\<rparr>"
proof -
  have ok: "set_ok prog ms" "ms_total ms < 4096" using assms by (simp_all add: wire_set_def)
  with messages_size_length [of "ms_lst ms"] have "length (ms_lst ms) < 2 ^ 16" by (simp add: set_ok_def)
  with ok(1) show ?thesis by (rule ms_unpack_set_bytes)
qed

lemma fetch_loop_ok:
  "wr_chan w me proc = map set_bytes ss \<Longrightarrow> list_all (wire_set prog) ss \<Longrightarrow> length recv = 4096 \<Longrightarrow>
   \<exists>recv1 w1. fetch_loop prog collect me proc recv w s k = Inr (recv1, w1, s @ map as_pair (concat (map ms_lst ss)), k + length ss) \<and>
     wr_chan w1 me proc = []"
proof (induction ss arbitrary: w recv s k)
  case Nil
  then show ?case by (subst fetch_loop.simps) (simp add: recv_attempt_def)
next
  case (Cons ms ss)
  let ?recv = "set_bytes ms @ drop (length (set_bytes ms)) recv" and ?w = "w\<lparr>wr_chan := (wr_chan w)(me := (wr_chan w me)(proc := map set_bytes ss))\<rparr>"
  let ?ms = "\<lparr>ms_lst = map fresh_message (ms_lst ms), ms_total = ms_total ms\<rparr>"
  have ms: "wire_set prog ms" and ss: "list_all (wire_set prog) ss" using Cons.prems by simp_all
  have len: "length (set_bytes ms) \<le> length recv" using ms Cons.prems(3) length_set_bytes [of prog ms] by (simp add: wire_set_def)
  have r: "recv_attempt prog me proc recv w = Inr (Some ?ms, ?recv, ?w)"
    using Cons.prems(1) len unpack_set_bytes [OF ms] by (simp add: recv_attempt_def Let_def)
  have e: "ms_empty ?ms = Inr False" using ms by (simp add: ms_empty_def wire_set_def)
  have "fetch_loop prog collect me proc recv w s k = fetch_loop prog collect me proc ?recv ?w (s @ map as_pair (ms_lst ms)) (k + 1)"
    by (subst fetch_loop.simps) (simp add: r e deliver_collect)
  moreover have "length ?recv = 4096" using len Cons.prems(3) by simp
  ultimately show ?case using Cons.IH [of ?w ?recv "s @ map as_pair (ms_lst ms)" "k + 1"] ss by simp
qed

text \<open>
  C12: Nothing is lost between machines, as long as messages are small. However a machine mixes sending
  messages of less than 4094 bytes to machines that exist, whose tuples have no string fields and do not
  end in an empty list,
  transmitting, and checking its requests with \<open>update_pending_messages(true)\<close>, whatever MPI says
  of each request, no assertion fails; what the receiving process of a destination then
  fetches, followed by what still waits in the buffer, is what was sent there, in order, every
  message once; the count of the token grows by the number of MPI messages, and no memory of a
  request is freed twice. The limits are needed: a larger message aborts
  (\<open>large_message_aborts\<close>), \<open>tuple::pack\<close> throws on a string, packing a tuple that ends in an empty list aborts
  (\<open>runtime/list.hpp:133\<close>), and \<open>update_pending_messages(false)\<close>, which only schedulers that are
  not compiled call, leaves requests whose memory is freed again (\<open>clear_then_flush_frees_twice\<close>).
\<close>

theorem messages_arrive:
  assumes "new_mpi_handler ws recv0 = Inr h" and "\<And>d p. wr_chan w d p = []" and "wr_mem w = {}"
    and "\<And>n. length (mem0 n) = n" and "list_all (op_ok prog ws) ps" and "length recv = 4096"
  shows "\<exists>h1 w1 tk1. mpi_run mem0 self ps (h, w, tk) = Inr (h1, w1, tk1) \<and>
    tok_count (tk_tok tk1) = tok_count (tk_tok tk) + of_nat (wr_next w1 - wr_next w) \<and>
    (\<forall>rem proc. \<exists>recv1 w2 got. fetch_loop prog collect rem proc recv w1 [] 0 =
         Inr (recv1, w2, got, length (wr_chan w1 rem proc)) \<and> wr_chan w2 rem proc = [] \<and>
       got @ map as_pair (waiting_for (hd_buf h1) (rem, proc)) = map as_pair (messages_for (rem, proc) ps))"
proof -
  from mpi_run_ok [OF assms(4) new_handler_ok [OF assms(1-3)] assms(5)] obtain h1 w1 tk1 where
    r: "mpi_run mem0 self ps (h, w, tk) = Inr (h1, w1, tk1)" "buf_ok prog ws (\<lambda>d. messages_for d ps) (hd_buf h1) w1"
      "tok_count (tk_tok tk1) = tok_count (tk_tok tk) + of_nat (wr_next w1 - wr_next w)" by fastforce
  have "\<exists>recv1 w2 got. fetch_loop prog collect rem proc recv w1 [] 0 = Inr (recv1, w2, got, length (wr_chan w1 rem proc)) \<and>
      wr_chan w2 rem proc = [] \<and> got @ map as_pair (waiting_for (hd_buf h1) (rem, proc)) = map as_pair (messages_for (rem, proc) ps)"
    for rem proc
  proof -
    obtain l where l: "chan_holds prog w1 (rem, proc) l" "l @ waiting_for (hd_buf h1) (rem, proc) = messages_for (rem, proc) ps"
      using r(2) by (auto simp: buf_ok_def)
    then obtain ss where ss: "wr_chan w1 rem proc = map set_bytes ss" "list_all (wire_set prog) ss" "concat (map ms_lst ss) = l"
      by (auto simp: chan_holds_def)
    have "map as_pair l @ map as_pair (waiting_for (hd_buf h1) (rem, proc)) = map as_pair (messages_for (rem, proc) ps)"
      by (simp flip: l(2))
    with fetch_loop_ok [OF ss(1,2) assms(6), where s = "[]" and k = 0] ss show ?thesis by auto
  qed
  with r(1,3) show ?thesis by blast
qed

definition handler2 :: mpi_handler where
  "handler2 = \<lparr>hd_step_fetch = 500, hd_step_send = 250, hd_trip_fetch = 0, hd_trip_update = 0, hd_trip_send = 0,
     hd_buf = \<lparr>mb_sets = [], mb_total = 0, mb_reqs = \<lparr>rh_reqs = [[], []], rh_total = 0, rh_per_round = 5\<rparr>\<rparr>,
     hd_recv = replicate 4096 0\<rparr>"

definition wire2 :: wire where
  "wire2 = \<lparr>wr_chan = (\<lambda>d p. []), wr_mem = {}, wr_next = 0\<rparr>"

theorem messages_arrive_witness:
  "\<exists>h1 w1 tk1 recv1 w2 got.
     mpi_run (\<lambda>n. replicate n 0) 0 [Send_Message (1, 0) edge_message, Transmit_All, Send_Message (1, 0) edge_message]
       (handler2, wire2, \<lparr>tk_tok = new_token, tk_has = False, tk_global = new_token\<rparr>) = Inr (h1, w1, tk1) \<and>
     fetch_loop [edge_pred] collect 1 0 (replicate 4096 0) w1 [] 0 = Inr (recv1, w2, got, length (wr_chan w1 1 0)) \<and>
     got @ map as_pair (waiting_for (hd_buf h1) (1, 0)) = [as_pair edge_message, as_pair edge_message]"
proof -
  let ?ps = "[Send_Message (1, 0) edge_message, Transmit_All, Send_Message (1, 0) edge_message]"
  let ?tk = "\<lparr>tk_tok = new_token, tk_has = False, tk_global = new_token\<rparr>"
  have h: "new_mpi_handler 2 (replicate 4096 0) = Inr handler2"
    by (simp add: new_mpi_handler_def new_message_buffer_def new_request_handler_def handler2_def numeral_2_eq_2)
  have ok: "list_all (op_ok [edge_pred] 2) ?ps" using edge_message_good by (simp add: op_ok_def small_message_def)
  have w: "wr_chan wire2 d p = []" "wr_mem wire2 = {}" for d p by (simp_all add: wire2_def)
  have "\<exists>h1 w1 tk1. mpi_run (\<lambda>n. replicate n 0) 0 ?ps (handler2, wire2, ?tk) = Inr (h1, w1, tk1) \<and>
    tok_count (tk_tok tk1) = tok_count (tk_tok ?tk) + of_nat (wr_next w1 - wr_next wire2) \<and>
    (\<forall>rem proc. \<exists>recv1 w2 got. fetch_loop [edge_pred] collect rem proc (replicate 4096 0) w1 [] 0 =
         Inr (recv1, w2, got, length (wr_chan w1 rem proc)) \<and> wr_chan w2 rem proc = [] \<and>
       got @ map as_pair (waiting_for (hd_buf h1) (rem, proc)) = map as_pair (messages_for (rem, proc) ?ps))"
    by (rule messages_arrive [OF h w _ ok]) simp_all
  then obtain h1 w1 tk1 where r: "mpi_run (\<lambda>n. replicate n 0) 0 ?ps (handler2, wire2, ?tk) = Inr (h1, w1, tk1)"
    "\<forall>rem proc. \<exists>recv1 w2 got. fetch_loop [edge_pred] collect rem proc (replicate 4096 0) w1 [] 0 =
         Inr (recv1, w2, got, length (wr_chan w1 rem proc)) \<and> wr_chan w2 rem proc = [] \<and>
       got @ map as_pair (waiting_for (hd_buf h1) (rem, proc)) = map as_pair (messages_for (rem, proc) ?ps)" by blast
  from r(2) [rule_format, of 1 0] obtain recv1 w2 got where
    "fetch_loop [edge_pred] collect 1 0 (replicate 4096 0) w1 [] 0 = Inr (recv1, w2, got, length (wr_chan w1 1 0))"
    "got @ map as_pair (waiting_for (hd_buf h1) (1, 0)) = [as_pair edge_message, as_pair edge_message]" by auto
  with r(1) show ?thesis by blast
qed

section \<open>Where the code goes wrong\<close>

text \<open>
  A message of 4094 bytes or more is never sent: \<open>insert\<close> calls \<open>transmit_list\<close> for the set of
  its destination even when that is empty, which \<open>transmit_list\<close> asserts it is not.
\<close>

lemma large_message_aborts:
  assumes "message_storage_size m = Inr n" and "4094 \<le> n" and "find_set d (mb_sets mb) = None"
  shows "mb_insert mem0 d m (mb, w) = Inl Assert_Failed"
  using assms by (simp add: mb_insert_def transmit_list_def new_message_set_def ms_empty_def)

text \<open>
  \<open>do_mpi_cycle\<close> waits for its counter to equal \<open>step_fetch\<close>. A fetch made while waiting for work
  lowers \<open>step_fetch\<close> without touching the counter; once the counter is above it, messages are not
  fetched any more while there is work, until the counter of 64 bits wraps around.
\<close>

lemma fetch_counter_overtaken:
  assumes "hd_step_fetch h < hd_trip_fetch h" and "hd_trip_fetch h \<noteq> - 1"
  shows "do_mpi_leader_cycle prog deliver mpi me proc (h, w, tk) s = Inr ((h\<lparr>hd_trip_fetch := hd_trip_fetch h + 1\<rparr>, w, tk), s)"
    and "hd_step_fetch h < hd_trip_fetch h + 1"
proof -
  have "unat (hd_trip_fetch h + 1) = unat (hd_trip_fetch h) + 1"
    using assms(2) by (metis Suc_eq_plus1 add.inverse_unique add.commute unatSuc)
  with assms(1) show lt: "hd_step_fetch h < hd_trip_fetch h + 1" by (simp add: word_less_nat_alt)
  then have "hd_trip_fetch h + 1 \<noteq> hd_step_fetch h" by auto
  then show "do_mpi_leader_cycle prog deliver mpi me proc (h, w, tk) s = Inr ((h\<lparr>hd_trip_fetch := hd_trip_fetch h + 1\<rparr>, w, tk), s)"
    by (simp add: do_mpi_leader_cycle_def Let_def)
qed

end
