(* ===== verification/Sim_Node.thy ===== *)
theory Sim_Node
  imports Vm_State
begin

text \<open>
  The nodes of the simulator, \<open>sched/nodes/sim.hpp\<close>, and the queue of delayed work,
  \<open>queue/safe_general_pqueue.hpp\<close>. A node is a cube with a neighbor or nothing at each of
  its six faces; its tuples wait in heaps by the time stamp at which they arrive. A tuple is
  given by its address. Time stamps and clock readings are natural numbers.
\<close>

section \<open>Faces\<close>

datatype face = INVALID_FACE | BOTTOM | NORTH | EAST | WEST | SOUTH | TOP

text \<open>The numbers of the enumeration, and the loop from \<open>INITIAL_FACE\<close> to \<open>FINAL_FACE\<close>.\<close>

fun face_number :: "face \<Rightarrow> int" where
  "face_number INVALID_FACE = -1"
| "face_number BOTTOM = 0"
| "face_number NORTH = 1"
| "face_number EAST = 2"
| "face_number WEST = 3"
| "face_number SOUTH = 4"
| "face_number TOP = 5"

definition faces :: "face list" where
  "faces = [BOTTOM, NORTH, EAST, WEST, SOUTH, TOP]"

lemma set_faces: "set faces = UNIV - {INVALID_FACE}"
proof -
  have "f \<in> set faces \<or> f = INVALID_FACE" for f by (cases f) (simp_all add: faces_def)
  moreover have "INVALID_FACE \<notin> set faces" by (simp add: faces_def)
  ultimately show ?thesis by blast
qed

lemma face_number_inj: "face_number f = face_number g \<longleftrightarrow> f = g"
  by (cases f; cases g) simp_all

text \<open>The cast of the low half of a word of a message; other numbers are no face.\<close>

definition face_of :: "64 word \<Rightarrow> face res" where
  "face_of w =
     (case List.find (\<lambda>f. face_number f = sint (ucast w :: 32 word)) (INVALID_FACE # faces) of
        None \<Rightarrow> Inl Bad_Access
      | Some f \<Rightarrow> Inr f)"

definition word_of_face :: "face \<Rightarrow> 64 word" where
  "word_of_face f = of_int (face_number f)"

lemma face_of_word_of_face: "face_of (word_of_face f) = Inr f"
proof -
  have "list_all (\<lambda>f. face_of (word_of_face f) = Inr f) (INVALID_FACE # faces)" by code_simp
  then have "\<forall>f \<in> set (INVALID_FACE # faces). face_of (word_of_face f) = Inr f" by (simp only: list_all_iff)
  moreover have "f \<in> set (INVALID_FACE # faces)" using set_faces by auto
  ultimately show ?thesis by blast
qed

definition int_of_face :: "face \<Rightarrow> int_val" where
  "int_of_face f = of_int (face_number f)"

lemma int_of_face_inj: "int_of_face f = int_of_face g \<longleftrightarrow> f = g"
  by (cases f; cases g) (simp_all add: int_of_face_def)

section \<open>The queue of delayed work\<close>

text \<open>
  \<open>general_pqueue\<close> wraps a \<open>std::priority_queue\<close> whose comparison is less-than: the top is
  an item of greatest priority. Which of several it is, the library leaves open: the
  argument \<open>pq_top\<close> chooses a position by the priorities.
\<close>

type_synonym 'a gpqueue = "('a \<times> nat) list"

definition gp_push :: "'a \<Rightarrow> nat \<Rightarrow> 'a gpqueue \<Rightarrow> 'a gpqueue" where
  "gp_push x p q = q @ [(x, p)]"

definition gp_top :: "(nat list \<Rightarrow> nat) \<Rightarrow> 'a gpqueue \<Rightarrow> nat" where
  "gp_top pq_top q = (let i = pq_top (map snd q) in if i < length q then i else 0)"

definition gp_top_priority :: "(nat list \<Rightarrow> nat) \<Rightarrow> 'a gpqueue \<Rightarrow> nat res" where
  "gp_top_priority pq_top q = (if q = [] then Inl Bad_Access else Inr (snd (q ! gp_top pq_top q)))"

definition gp_pop :: "(nat list \<Rightarrow> nat) \<Rightarrow> 'a gpqueue \<Rightarrow> ('a \<times> 'a gpqueue) res" where
  "gp_pop pq_top q =
     (if q = [] then Inl Bad_Access
      else (let i = gp_top pq_top q in Inr (fst (q ! i), take i q @ drop (Suc i) q)))"

text \<open>What the library promises of the top.\<close>

definition picks_greatest :: "(nat list \<Rightarrow> nat) \<Rightarrow> bool" where
  "picks_greatest pq_top \<longleftrightarrow> (\<forall>ps. ps \<noteq> [] \<longrightarrow> pq_top ps < length ps \<and> (\<forall>p \<in> set ps. p \<le> ps ! pq_top ps))"

lemma gp_top_less: "q \<noteq> [] \<Longrightarrow> gp_top pq_top q < length q"
  by (auto simp: gp_top_def Let_def)

lemma gp_top_greatest:
  assumes "picks_greatest pq_top" and "e \<in> set q"
  shows "snd e \<le> snd (q ! gp_top pq_top q)"
proof -
  have ne: "map snd q \<noteq> []" using assms(2) by auto
  have "pq_top (map snd q) < length q" using assms(1) ne unfolding picks_greatest_def by (metis length_map)
  then have i: "gp_top pq_top q = pq_top (map snd q)" by (simp add: gp_top_def)
  have "snd e \<in> set (map snd q)" using assms(2) by simp
  then have "snd e \<le> map snd q ! pq_top (map snd q)" using assms(1) ne unfolding picks_greatest_def by blast
  then show ?thesis using i \<open>pq_top (map snd q) < length q\<close> by simp
qed

lemma mset_remove_nth: "i < length q \<Longrightarrow> mset (take i q @ drop (Suc i) q) = mset q - {#q ! i#}"
  by (subst (3) id_take_nth_drop [of i q]) simp_all

text \<open>
  The loop of \<open>add_delayed_tuples\<close> and of \<open>check_delayed_queue\<close>: the items popped while the
  top is due, and the rest.
\<close>

function due_loop :: "(nat list \<Rightarrow> nat) \<Rightarrow> nat \<Rightarrow> 'a gpqueue \<Rightarrow> ('a list \<times> 'a gpqueue) res" where
  "due_loop pq_top now q =
     (if q = [] then Inr ([], q)
      else res_bind (gp_top_priority pq_top q) (\<lambda>best.
        if best < now then res_bind (gp_pop pq_top q) (\<lambda>(x, q').
          res_bind (due_loop pq_top now q') (\<lambda>(xs, r). Inr (x # xs, r)))
        else Inr ([], q)))"
  by pat_completeness auto
termination
proof (relation "measure (\<lambda>(pq_top, now, q). length q)")
  fix pq_top :: "nat list \<Rightarrow> nat" and now best :: nat and q q' :: "'a gpqueue" and x y
  assume "q \<noteq> []" and "gp_pop pq_top q = Inr y" and "(x, q') = y"
  then have "length q' < length q" using gp_top_less [of q pq_top] by (auto simp: gp_pop_def Let_def)
  then show "((pq_top, now, q'), pq_top, now, q) \<in> measure (\<lambda>(pq_top, now, q). length q)" by simp
qed simp

declare due_loop.simps [simp del]

text \<open>
  The greatest priority is on top, so the loop pops everything once the last item is due,
  and nothing before that.
\<close>

lemma due_loop_all:
  "picks_greatest pq_top \<Longrightarrow> \<forall>e \<in> set q. snd e < now \<Longrightarrow>
   \<exists>xs. due_loop pq_top now q = Inr (xs, []) \<and> mset xs = mset (map fst q)"
proof (induction "length q" arbitrary: q rule: less_induct)
  case less
  show ?case
  proof (cases "q = []")
    case True
    then show ?thesis by (subst due_loop.simps) simp
  next
    case False
    let ?i = "gp_top pq_top q"
    let ?r = "take ?i q @ drop (Suc ?i) q"
    have i: "?i < length q" using False by (rule gp_top_less)
    have "set ?r \<subseteq> set q" using set_take_subset [of ?i q] set_drop_subset [of "Suc ?i" q] by auto
    moreover have "length ?r < length q" using i by simp
    ultimately obtain xs where xs: "due_loop pq_top now ?r = Inr (xs, [])" "mset xs = mset (map fst ?r)"
      using less.hyps [of ?r] less.prems by blast
    have "snd (q ! ?i) < now" using less.prems(2) i by simp
    then have "due_loop pq_top now q = Inr (fst (q ! ?i) # xs, [])"
      using False xs(1) by (subst due_loop.simps) (simp add: gp_top_priority_def gp_pop_def Let_def)
    moreover have "mset q = add_mset (q ! ?i) (mset ?r)" using i mset_remove_nth [OF i] by simp
    then have "image_mset fst (mset q) = add_mset (fst (q ! ?i)) (image_mset fst (mset ?r))" by simp
    then have "mset (fst (q ! ?i) # xs) = mset (map fst q)" using xs(2) by (simp add: mset_map)
    ultimately show ?thesis by blast
  qed
qed

lemma due_loop_none:
  assumes "picks_greatest pq_top" and "e \<in> set q" and "now \<le> snd e"
  shows "due_loop pq_top now q = Inr ([], q)"
proof -
  have "now \<le> snd (q ! gp_top pq_top q)" using gp_top_greatest [OF assms(1,2)] assms(3) by simp
  then show ?thesis by (subst due_loop.simps) (simp add: gp_top_priority_def)
qed

section \<open>The node\<close>

definition NO_NEIGHBOR :: node_val where "NO_NEIGHBOR = -1"

record sim_node =
  sn_top :: node_val
  sn_bottom :: node_val
  sn_east :: node_val
  sn_west :: node_val
  sn_north :: node_val
  sn_south :: node_val
  sn_delay :: "saddr gpqueue"
  sn_instantiated :: bool
  sn_neighbors :: "64 word"                       \<comment> \<open>\<open>neighbor_count\<close>\<close>
  sn_timestamp :: nat
  sn_tuples :: "saddr heap_object list"     \<comment> \<open>\<open>tuple_pqueue\<close>\<close>
  sn_rtype :: heap_type
  sn_rtuples :: "saddr heap_object list"    \<comment> \<open>\<open>rtuple_pqueue\<close>\<close>
  sn_pending :: "saddr list"

text \<open>
  The constructor sets the order of \<open>tuple_pqueue\<close> but not of \<open>rtuple_pqueue\<close>, whose type
  is whatever the memory held: the argument \<open>rt\<close>.
\<close>

definition new_sim_node :: "heap_type \<Rightarrow> sim_node" where
  "new_sim_node rt =
     \<lparr>sn_top = NO_NEIGHBOR, sn_bottom = NO_NEIGHBOR, sn_east = NO_NEIGHBOR, sn_west = NO_NEIGHBOR,
      sn_north = NO_NEIGHBOR, sn_south = NO_NEIGHBOR, sn_delay = [], sn_instantiated = False,
      sn_neighbors = 0, sn_timestamp = 0, sn_tuples = [], sn_rtype = rt, sn_rtuples = [], sn_pending = []\<rparr>"

text \<open>\<open>get_node_at_face\<close> returns a pointer: what is read through it, and what is written.\<close>

fun node_at_face :: "face \<Rightarrow> sim_node \<Rightarrow> node_val res" where
  "node_at_face BOTTOM n = Inr (sn_bottom n)"
| "node_at_face NORTH n = Inr (sn_north n)"
| "node_at_face EAST n = Inr (sn_east n)"
| "node_at_face WEST n = Inr (sn_west n)"
| "node_at_face SOUTH n = Inr (sn_south n)"
| "node_at_face TOP n = Inr (sn_top n)"
| "node_at_face INVALID_FACE n = Inl Assert_Failed"

fun put_at_face :: "face \<Rightarrow> node_val \<Rightarrow> sim_node \<Rightarrow> sim_node res" where
  "put_at_face BOTTOM v n = Inr (n\<lparr>sn_bottom := v\<rparr>)"
| "put_at_face NORTH v n = Inr (n\<lparr>sn_north := v\<rparr>)"
| "put_at_face EAST v n = Inr (n\<lparr>sn_east := v\<rparr>)"
| "put_at_face WEST v n = Inr (n\<lparr>sn_west := v\<rparr>)"
| "put_at_face SOUTH v n = Inr (n\<lparr>sn_south := v\<rparr>)"
| "put_at_face TOP v n = Inr (n\<lparr>sn_top := v\<rparr>)"
| "put_at_face INVALID_FACE v n = Inl Assert_Failed"

definition get_face :: "node_val \<Rightarrow> sim_node \<Rightarrow> face" where
  "get_face v n =
     (if v = sn_bottom n then BOTTOM
      else if v = sn_north n then NORTH
      else if v = sn_east n then EAST
      else if v = sn_west n then WEST
      else if v = sn_south n then SOUTH
      else if v = sn_top n then TOP
      else INVALID_FACE)"

lemma node_at_get_face: "get_face v n \<noteq> INVALID_FACE \<Longrightarrow> node_at_face (get_face v n) n = Inr v"
  by (auto simp: get_face_def split: if_splits)

lemma get_face_invalid: "get_face v n = INVALID_FACE \<longleftrightarrow> (\<forall>f \<in> set faces. node_at_face f n \<noteq> Inr v)"
  by (auto simp: get_face_def faces_def)

lemma put_at_face_ok: "f \<noteq> INVALID_FACE \<Longrightarrow> \<exists>m. put_at_face f v n = Inr m"
  by (cases f) simp_all

lemma node_at_put: "put_at_face f v n = Inr m \<Longrightarrow> node_at_face g m = (if g = f then Inr v else node_at_face g n)"
  by (cases f; cases g) auto

lemma put_at_face_keeps:
  "put_at_face f v n = Inr m \<Longrightarrow> sn_delay m = sn_delay n \<and> sn_instantiated m = sn_instantiated n \<and>
     sn_neighbors m = sn_neighbors n \<and> sn_timestamp m = sn_timestamp n \<and> sn_tuples m = sn_tuples n \<and>
     sn_rtype m = sn_rtype n \<and> sn_rtuples m = sn_rtuples n \<and> sn_pending m = sn_pending n"
  by (cases f) auto

section \<open>Waiting tuples\<close>

text \<open>
  A time stamp stored in the 32-bit integer of a \<open>heap_priority\<close>, and that integer read back
  with the cast \<open>(size_t)pr.int_priority\<close>.
\<close>

definition stamp_priority :: "nat \<Rightarrow> heap_priority" where
  "stamp_priority ts = ucast (of_nat ts :: int_val)"

definition priority_stamp :: "heap_priority \<Rightarrow> nat" where
  "priority_stamp p = unat (scast (ucast p :: int_val) :: 64 word)"

lemma stamp_low: "(ucast (stamp_priority ts) :: int_val) = of_nat ts"
  unfolding stamp_priority_def by (rule bit_word_eqI) (simp add: bit_simps)

lemma uint_of_nat_small: "n < 2 ^ LENGTH('a) \<Longrightarrow> uint (of_nat n :: 'a::len word) = int n"
  by (metis of_nat_inverse uint_nat)

lemma sint_stamp:
  assumes "ts < 2 ^ 31"
  shows "sint (of_nat ts :: int_val) = int ts"
proof -
  have "uint (of_nat ts :: int_val) = int ts" using assms by (intro uint_of_nat_small) simp
  then show ?thesis using assms by (simp only: sint_uint) (simp add: signed_take_bit_int_eq_self)
qed

lemma priority_stamp:
  assumes "ts < 2 ^ 31"
  shows "priority_stamp (stamp_priority ts) = ts"
proof -
  have "int (priority_stamp (stamp_priority ts)) = uint (word_of_int (sint (of_nat ts :: int_val)) :: 64 word)"
    by (simp add: priority_stamp_def stamp_low of_int_sint)
  also have "\<dots> = int ts" using assms by (simp add: sint_stamp uint_of_nat_small)
  finally show ?thesis by simp
qed

definition add_delay_work :: "nat \<Rightarrow> saddr \<Rightarrow> uint_val \<Rightarrow> sim_node \<Rightarrow> sim_node" where
  "add_delay_work now a ms n = n\<lparr>sn_delay := gp_push a (now + unat ms) (sn_delay n)\<rparr>"

definition delayed_available :: "(nat list \<Rightarrow> nat) \<Rightarrow> nat \<Rightarrow> sim_node \<Rightarrow> bool res" where
  "delayed_available pq_top now n =
     (if sn_delay n = [] then Inr False
      else res_bind (gp_top_priority pq_top (sn_delay n)) (\<lambda>best. Inr (best < now)))"

definition add_delayed_tuples :: "(nat list \<Rightarrow> nat) \<Rightarrow> nat \<Rightarrow> sim_node \<Rightarrow> (saddr list \<times> sim_node) res" where
  "add_delayed_tuples pq_top now n =
     res_bind (due_loop pq_top now (sn_delay n)) (\<lambda>(as, q). Inr (as, n\<lparr>sn_delay := q\<rparr>))"

definition sn_has_work :: "sim_node \<Rightarrow> bool" where
  "sn_has_work n \<longleftrightarrow> sn_tuples n \<noteq> []"

lemma hq_pop_length:
  assumes "hq_pop ht h = Inr (x, h')"
  shows "length h' < length h"
proof -
  have ne: "h \<noteq> []" and h': "h' = heapifydown (hq_le ht) (butlast (h[0 := last h])) 0"
    using assms by (auto simp: hq_pop_def Let_def split: if_splits)
  have "size (mset h') < size (mset h)" using pop_mset [OF ne, of "hq_le ht"] ne unfolding h'
    by (simp add: size_Diff_singleton)
  then show ?thesis by simp
qed

function until_loop :: "heap_type \<Rightarrow> nat \<Rightarrow> saddr heap_object list \<Rightarrow> (saddr list \<times> saddr heap_object list) res" where
  "until_loop ht until h =
     (if h = [] then Inr ([], h)
      else res_bind (hq_min_value h) (\<lambda>pr.
        if until < priority_stamp pr then Inr ([], h)
        else res_bind (hq_pop ht h) (\<lambda>(a, h').
          res_bind (until_loop ht until h') (\<lambda>(as, r). Inr (a # as, r)))))"
  by pat_completeness auto
termination
  by (relation "measure (\<lambda>(ht, until, h). length h)") (auto dest: hq_pop_length)

declare until_loop.simps [simp del]

text \<open>A heap of time stamps that fit into the integer of a priority.\<close>

definition stamped :: "saddr heap_object list \<Rightarrow> bool" where
  "stamped h \<longleftrightarrow> hq_inv HEAP_INT_ASC h \<and> (\<forall>x \<in> set h. \<exists>ts < 2 ^ 31. val x = stamp_priority ts)"

definition stamp_of :: "'a heap_object \<Rightarrow> nat" where
  "stamp_of x = priority_stamp (val x)"

lemma stamped_le:
  assumes "\<exists>ts < 2 ^ 31. val x = stamp_priority ts" and "\<exists>ts < 2 ^ 31. val y = stamp_priority ts"
  shows "hq_le HEAP_INT_ASC x y \<longleftrightarrow> stamp_of x \<le> stamp_of y"
proof -
  obtain a b where ab: "a < 2 ^ 31" "val x = stamp_priority a" "b < 2 ^ 31" "val y = stamp_priority b"
    using assms by blast
  then show ?thesis
    by (simp add: hq_le_def heap_compare_def int_priority_def stamp_low sint_stamp stamp_of_def priority_stamp)
qed

lemma stamped_insert:
  assumes "stamped h" and "ts < 2 ^ 31"
  shows "stamped (hq_insert HEAP_INT_ASC a (stamp_priority ts) h)"
proof -
  let ?h = "hq_insert HEAP_INT_ASC a (stamp_priority ts) h"
  have "hq_inv HEAP_INT_ASC ?h" using assms(1) by (simp add: stamped_def hq_insert_inv heap_prio_ok_def)
  moreover have "set ?h = insert \<lparr>val = stamp_priority ts, data = a\<rparr> (set h)"
    using arg_cong [OF hq_insert_mset, of set_mset HEAP_INT_ASC a "stamp_priority ts" h] by simp
  ultimately show ?thesis using assms by (auto simp: stamped_def)
qed

lemma until_loop_exact:
  "stamped h \<Longrightarrow> \<exists>xs r. until_loop HEAP_INT_ASC until h = Inr (map data xs, r) \<and> mset xs + mset r = mset h \<and>
     sorted_wrt (\<lambda>x y. stamp_of x \<le> stamp_of y) xs \<and> (\<forall>x \<in> set xs. stamp_of x \<le> until) \<and>
     (\<forall>y \<in> set r. until < stamp_of y) \<and> stamped r"
proof (induction "length h" arbitrary: h rule: less_induct)
  case less
  show ?case
  proof (cases "h = []")
    case True
    then show ?thesis using less.prems by (intro exI [of _ "[]"]) (simp add: until_loop.simps [of _ _ "[]"])
  next
    case False
    have inv: "hq_inv HEAP_INT_ASC h" using less.prems by (simp add: stamped_def)
    then have ord: "heap_ordered (hq_le HEAP_INT_ASC) h" and ok: "list_all (hq_ok HEAP_INT_ASC) h" by (auto simp: hq_inv_def)
    let ?x = "h ! 0"
    have root: "?x \<in> set h" using False by simp
    have fits: "\<exists>ts < 2 ^ 31. val y = stamp_priority ts" if "y \<in> set h" for y using less.prems that by (simp add: stamped_def)
    have least: "stamp_of ?x \<le> stamp_of y" if y: "y \<in> set h" for y
      using hq.root_least [OF ord ok] y stamped_le [OF fits [OF root] fits [OF y]] by (auto simp: in_set_conv_nth)
    have min: "hq_min_value h = Inr (val ?x)" using False by (simp add: hq_min_value_def)
    show ?thesis
    proof (cases "until < stamp_of ?x")
      case True
      then have "\<forall>y \<in> set h. until < stamp_of y" using least by fastforce
      then show ?thesis using True False less.prems min
        by (intro exI [of _ "[]"] exI [of _ h]) (simp add: until_loop.simps [of _ _ h] stamp_of_def)
    next
      case early: False
      obtain h' where p: "hq_pop HEAP_INT_ASC h = Inr (data ?x, h')" and m: "mset h' = mset h - {#?x#}"
        using pop_mset [OF False, of "hq_le HEAP_INT_ASC"] False by (simp add: hq_pop_def Let_def)
      have "hq_inv HEAP_INT_ASC h'" using hq_pop_least [OF inv] False p by auto
      moreover have sub: "set h' \<subseteq> set h" using m by (metis diff_subset_eq_self set_mset_mono set_mset_mset)
      ultimately have "stamped h'" using fits by (auto simp: stamped_def)
      moreover have "length h' < length h" using p by (rule hq_pop_length)
      ultimately obtain xs r where IH: "until_loop HEAP_INT_ASC until h' = Inr (map data xs, r)" "mset xs + mset r = mset h'"
        "sorted_wrt (\<lambda>x y. stamp_of x \<le> stamp_of y) xs" "\<forall>x \<in> set xs. stamp_of x \<le> until"
        "\<forall>y \<in> set r. until < stamp_of y" "stamped r" using less.hyps [of h'] by blast
      have "set xs \<subseteq> set h'" using IH(2) by (metis mset_subset_eq_add_left set_mset_mono set_mset_mset)
      then have "\<forall>y \<in> set xs. stamp_of ?x \<le> stamp_of y" using sub least by blast
      moreover have "until_loop HEAP_INT_ASC until h = Inr (map data (?x # xs), r)"
        using False early min p IH(1) by (subst until_loop.simps) (simp add: stamp_of_def)
      moreover have "mset (?x # xs) + mset r = mset h" using IH(2) m root by simp
      ultimately show ?thesis using IH(3-6) early by (intro exI [of _ "?x # xs"] exI [of _ r]) simp
    qed
  qed
qed

definition get_tuples_until :: "nat \<Rightarrow> sim_node \<Rightarrow> (saddr list \<times> sim_node) res" where
  "get_tuples_until until n =
     res_bind (until_loop HEAP_INT_ASC until (sn_tuples n)) (\<lambda>(as, h).
     res_bind (until_loop (sn_rtype n) until (sn_rtuples n)) (\<lambda>(bs, r).
     Inr (as @ bs, n\<lparr>sn_tuples := h, sn_rtuples := r\<rparr>)))"

lemma filter_split:
  assumes "mset xs + mset r = mset h" and "\<forall>x \<in> set xs. P x" and "\<forall>y \<in> set r. \<not> P y"
  shows "mset xs = filter_mset P (mset h)" and "mset r = {#y \<in># mset h. \<not> P y#}"
proof -
  have "filter_mset P (mset xs) = mset xs" "filter_mset P (mset r) = {#}"
    "{#y \<in># mset xs. \<not> P y#} = {#}" "{#y \<in># mset r. \<not> P y#} = mset r"
    using assms(2,3) by (auto simp: filter_mset_eq_conv)
  then show "mset xs = filter_mset P (mset h)" and "mset r = {#y \<in># mset h. \<not> P y#}"
    unfolding assms(1) [symmetric] by simp_all
qed

definition early :: "nat \<Rightarrow> saddr heap_object list \<Rightarrow> saddr heap_object multiset" where
  "early until h = {#x \<in># mset h. stamp_of x \<le> until#}"

definition late :: "nat \<Rightarrow> saddr heap_object list \<Rightarrow> saddr heap_object multiset" where
  "late until h = {#x \<in># mset h. \<not> stamp_of x \<le> until#}"

lemma until_loop_split:
  assumes "stamped h"
  shows "\<exists>xs r. until_loop HEAP_INT_ASC until h = Inr (map data xs, r) \<and> mset xs = early until h \<and>
    sorted_wrt (\<lambda>x y. stamp_of x \<le> stamp_of y) xs \<and> mset r = late until h \<and> stamped r"
proof -
  obtain xs r where l: "until_loop HEAP_INT_ASC until h = Inr (map data xs, r)" "mset xs + mset r = mset h"
    "sorted_wrt (\<lambda>x y. stamp_of x \<le> stamp_of y) xs" "\<forall>x \<in> set xs. stamp_of x \<le> until"
    "\<forall>y \<in> set r. until < stamp_of y" "stamped r" using until_loop_exact [OF assms] by blast
  then have "mset xs = early until h" "mset r = late until h"
    using filter_split [OF l(2), of "\<lambda>x. stamp_of x \<le> until"] by (auto simp: early_def late_def not_le)
  with l show ?thesis by blast
qed

text \<open>C40: a node that gathers until a time takes the assertions that arrive no later, in the
  order of their time stamps, then the retractions likewise, and leaves every later tuple
  queued; with the heap of the retractions in ascending order, which no code asks for.\<close>

theorem tuples_until_timestamp_exact:
  assumes "stamped (sn_tuples n)" and "stamped (sn_rtuples n)" and "sn_rtype n = HEAP_INT_ASC"
  shows "\<exists>xs ys m. get_tuples_until until n = Inr (map data xs @ map data ys, m) \<and>
    mset xs = early until (sn_tuples n) \<and> sorted_wrt (\<lambda>x y. stamp_of x \<le> stamp_of y) xs \<and>
    mset ys = early until (sn_rtuples n) \<and> sorted_wrt (\<lambda>x y. stamp_of x \<le> stamp_of y) ys \<and>
    mset (sn_tuples m) = late until (sn_tuples n) \<and> mset (sn_rtuples m) = late until (sn_rtuples n) \<and>
    stamped (sn_tuples m) \<and> stamped (sn_rtuples m)"
proof -
  obtain xs r where x: "until_loop HEAP_INT_ASC until (sn_tuples n) = Inr (map data xs, r)" "mset xs = early until (sn_tuples n)"
    "sorted_wrt (\<lambda>x y. stamp_of x \<le> stamp_of y) xs" "mset r = late until (sn_tuples n)" "stamped r"
    using until_loop_split [OF assms(1)] by blast
  obtain ys t where y: "until_loop HEAP_INT_ASC until (sn_rtuples n) = Inr (map data ys, t)" "mset ys = early until (sn_rtuples n)"
    "sorted_wrt (\<lambda>x y. stamp_of x \<le> stamp_of y) ys" "mset t = late until (sn_rtuples n)" "stamped t"
    using until_loop_split [OF assms(2)] by blast
  from x y show ?thesis using assms(3)
    by (intro exI [of _ xs] exI [of _ ys] exI [of _ "n\<lparr>sn_tuples := r, sn_rtuples := t\<rparr>"]) (simp add: get_tuples_until_def)
qed

text \<open>\<open>sim_sched::add_received_tuple\<close> without threads: a tuple joins the heap for its sign.\<close>

definition insert_stamped :: "nat \<Rightarrow> bool \<Rightarrow> saddr \<Rightarrow> sim_node \<Rightarrow> sim_node" where
  "insert_stamped ts positive a n =
     (if positive then n\<lparr>sn_tuples := hq_insert HEAP_INT_ASC a (stamp_priority ts) (sn_tuples n)\<rparr>
      else n\<lparr>sn_rtuples := hq_insert (sn_rtype n) a (stamp_priority ts) (sn_rtuples n)\<rparr>)"


text \<open>A node with tuples at the times 2, 7 and 5, and a retraction at 1.\<close>

definition busy_node :: "heap_type \<Rightarrow> sim_node" where
  "busy_node rt = insert_stamped 1 False 13 (insert_stamped 5 True 12 (insert_stamped 7 True 11 (insert_stamped 2 True 10 (new_sim_node rt))))"

lemma stamped_Nil: "stamped []"
  by (simp add: stamped_def)

lemma busy_node_stamped: "stamped (sn_tuples (busy_node HEAP_INT_ASC))" "stamped (sn_rtuples (busy_node HEAP_INT_ASC))"
  by (simp_all add: busy_node_def insert_stamped_def new_sim_node_def stamped_insert stamped_Nil)

lemma tuples_until_timestamp_exact_witness:
  "stamped (sn_tuples (busy_node HEAP_INT_ASC)) \<and>
   (\<exists>xs ys m. get_tuples_until 5 (busy_node HEAP_INT_ASC) = Inr (map data xs @ map data ys, m) \<and>
      mset xs = early 5 (sn_tuples (busy_node HEAP_INT_ASC)) \<and>
      mset ys = early 5 (sn_rtuples (busy_node HEAP_INT_ASC)) \<and> mset (sn_tuples m) = late 5 (sn_tuples (busy_node HEAP_INT_ASC)))"
proof -
  have "sn_rtype (busy_node HEAP_INT_ASC) = HEAP_INT_ASC" by (simp add: busy_node_def insert_stamped_def new_sim_node_def)
  from tuples_until_timestamp_exact [OF busy_node_stamped this, of 5] busy_node_stamped(1) show ?thesis by blast
qed

text \<open>
  The type that the constructor forgets matters: where the memory happens to say descending,
  a retraction due at time 1 is not gathered because one due at time 9 is in front of it.
\<close>

lemma retractions_out_of_order:
  "(case get_tuples_until 5 (insert_stamped 9 False 14 (busy_node HEAP_INT_DESC)) of
      Inr (as, m) \<Rightarrow> as = [10, 12] \<and> map data (sn_rtuples m) = [14, 13] | Inl _ \<Rightarrow> False)"
  by code_simp

end
