(* ===== verification/Sim_Sched.thy ===== *)
theory Sim_Sched
  imports Sim_Node Vm_Run
begin

text \<open>
  The scheduler of the simulator, \<open>sched/sim.hpp\<close> and \<open>sched/sim.cpp\<close>: a process outside
  says over a socket which nodes there are, which neighbors they have at which faces and
  when a node may run until which time; the facts that nodes send each other go through it.
  In thread mode every node has a scheduler of its own, the slaves. The socket is the list
  of the messages written and the events of the main loop; the clock and the addresses of
  the nodes are parameters of the state.
\<close>

section \<open>The state\<close>

record work_info =
  wi_node :: node_val
  wi_tuple :: saddr
  wi_timestamp :: nat
  wi_src :: "node_val option"

type_synonym message = "byte list"

record sim =
  sm_nodes :: "node_val \<Rightarrow> sim_node"
  sm_current :: "node_val option"
  sm_tmp_work :: "work_info list"
  sm_delay :: "work_info gpqueue"
  sm_neighbor :: "predicate option"
  sm_tap :: "predicate option"
  sm_neighbor_count :: "predicate option"
  sm_accel :: "predicate option"
  sm_shake :: "predicate option"
  sm_vacant :: "predicate option"
  sm_thread_mode :: bool
  sm_stop_all :: bool
  sm_start_time :: nat
  sm_all_instantiated :: bool
  sm_socket_messages :: "message list"
  sm_slaves :: "node_val list"              \<comment> \<open>the nodes whose threads were started\<close>
  sm_written :: "message list"              \<comment> \<open>what was written to the socket\<close>
  sm_clock :: "nat \<Rightarrow> nat"                   \<comment> \<open>the time \<open>gettimeofday\<close> says at each call\<close>
  sm_reads :: nat
  sm_rtype :: "node_val \<Rightarrow> heap_type"      \<comment> \<open>what \<open>new_sim_node\<close> finds in memory\<close>
  sm_order :: "node_val \<Rightarrow> nat"              \<comment> \<open>the address of a node\<close>
  sm_pq_top :: "nat list \<Rightarrow> nat"

definition TIME_TO_INSTANTIATE :: nat where "TIME_TO_INSTANTIATE = 500"

definition new_sim :: "(node_val \<Rightarrow> heap_type) \<Rightarrow> (nat \<Rightarrow> nat) \<Rightarrow> (node_val \<Rightarrow> nat) \<Rightarrow> (nat list \<Rightarrow> nat) \<Rightarrow> sim" where
  "new_sim rt clock order pq_top =
     \<lparr>sm_nodes = (\<lambda>n. new_sim_node (rt n)), sm_current = None, sm_tmp_work = [], sm_delay = [],
      sm_neighbor = None, sm_tap = None, sm_neighbor_count = None, sm_accel = None, sm_shake = None,
      sm_vacant = None, sm_thread_mode = False, sm_stop_all = False, sm_start_time = 0,
      sm_all_instantiated = False, sm_socket_messages = [], sm_slaves = [], sm_written = [],
      sm_clock = clock, sm_reads = 0, sm_rtype = rt, sm_order = order, sm_pq_top = pq_top\<rparr>"

definition put_sim_node :: "node_val \<Rightarrow> sim_node \<Rightarrow> sim \<Rightarrow> sim" where
  "put_sim_node n m w = w\<lparr>sm_nodes := (sm_nodes w)(n := m)\<rparr>"

definition get_timestamp :: "sim \<Rightarrow> nat \<times> sim" where
  "get_timestamp w = (sm_clock w (sm_reads w), w\<lparr>sm_reads := sm_reads w + 1\<rparr>)"

section \<open>New work\<close>

definition add_received :: "node_val \<Rightarrow> nat \<Rightarrow> bool \<Rightarrow> saddr \<Rightarrow> sim \<Rightarrow> sim" where
  "add_received n ts positive a w =
     (let m = sm_nodes w n
      in put_sim_node n (if sm_thread_mode w then m\<lparr>sn_pending := sn_pending m @ [a]\<rparr> else insert_stamped ts positive a m) w)"

text \<open>Whether the count of a tuple is positive is read from the store.\<close>

definition positive_at :: "saddr \<Rightarrow> 'w vstate \<Rightarrow> bool res" where
  "positive_at a s = res_bind (stuple_at a s) (\<lambda>st. Inr (0 < sint (so_count st)))"

text \<open>
  \<open>new_work\<close>: before any node runs the tuple is queued at time zero, afterwards it waits
  for the end of the computation of the current node.
\<close>

definition sim_new_work ::
  "bool \<Rightarrow> nat \<Rightarrow> node_val option \<Rightarrow> node_val \<Rightarrow> saddr \<Rightarrow> strat_level \<Rightarrow> sim \<Rightarrow> sim res" where
  "sim_new_work positive counter src n a level w =
     (if sm_thread_mode w \<or> sm_current w = None then Inr (add_received n 0 positive a w)
      else Inr (w\<lparr>sm_tmp_work := sm_tmp_work w @ [\<lparr>wi_node = n, wi_tuple = a, wi_timestamp = counter, wi_src = src\<rparr>]\<rparr>))"

definition sim_new_work_delay ::
  "nat \<Rightarrow> node_val option \<Rightarrow> node_val \<Rightarrow> saddr \<Rightarrow> strat_level \<Rightarrow> uint_val \<Rightarrow> sim \<Rightarrow> sim res" where
  "sim_new_work_delay counter src n a level delay w =
     (case get_timestamp w of (now, w1) \<Rightarrow>
        if sm_thread_mode w then Inr (put_sim_node n (add_delay_work now a delay (sm_nodes w n)) w1)
        else Inr (w1\<lparr>sm_delay := gp_push \<lparr>wi_node = n, wi_tuple = a, wi_timestamp = counter, wi_src = src\<rparr>
                    (now + unat delay) (sm_delay w)\<rparr>))"

definition sim_tuples_until :: "node_val \<Rightarrow> nat \<Rightarrow> sim \<Rightarrow> (saddr list \<times> sim) res" where
  "sim_tuples_until n until w =
     res_bind (get_tuples_until until (sm_nodes w n)) (\<lambda>(as, m). Inr (as, put_sim_node n m w))"

definition sim_gather_next :: "bool \<Rightarrow> nat \<Rightarrow> node_val \<Rightarrow> sim \<Rightarrow> (saddr list \<times> sim) res" where
  "sim_gather_next instr_use limit n w =
     (let m = sm_nodes w n; w1 = put_sim_node n (m\<lparr>sn_pending := []\<rparr>) w
      in res_bind (if instr_use then sim_tuples_until n limit w1 else Inr ([], w1)) (\<lambda>(as, w2).
         case get_timestamp w2 of (now, w3) \<Rightarrow>
           res_bind (add_delayed_tuples (sm_pq_top w) now (sm_nodes w3 n)) (\<lambda>(bs, m').
           Inr (sn_pending m @ as @ bs, put_sim_node n m' w3))))"

section \<open>Messages\<close>

definition message_bytes_of :: "64 word list \<Rightarrow> message" where
  "message_bytes_of ws = concat (map (le_bytes 8) ws)"

definition CREATE_N_NODES :: "64 word" where "CREATE_N_NODES = 1"
definition RUN_NODE :: "64 word" where "RUN_NODE = 2"
definition NODE_RUN :: "64 word" where "NODE_RUN = 3"
definition STOP :: "64 word" where "STOP = 4"
definition ADD_NEIGHBOR :: "64 word" where "ADD_NEIGHBOR = 5"
definition REMOVE_NEIGHBOR :: "64 word" where "REMOVE_NEIGHBOR = 6"
definition TAP :: "64 word" where "TAP = 7"
definition SET_COLOR :: "64 word" where "SET_COLOR = 8"
definition USE_THREADS :: "64 word" where "USE_THREADS = 9"
definition SEND_MESSAGE :: "64 word" where "SEND_MESSAGE = 12"
definition RECEIVE_MESSAGE :: "64 word" where "RECEIVE_MESSAGE = 13"
definition ACCEL :: "64 word" where "ACCEL = 14"
definition SHAKE :: "64 word" where "SHAKE = 15"

lemmas message_codes =
  CREATE_N_NODES_def RUN_NODE_def NODE_RUN_def STOP_def ADD_NEIGHBOR_def REMOVE_NEIGHBOR_def TAP_def
  SET_COLOR_def USE_THREADS_def SEND_MESSAGE_def RECEIVE_MESSAGE_def ACCEL_def SHAKE_def

text \<open>The buffers hold 512 bytes, \<open>MAXLENGTH\<close> words.\<close>

definition BUFFER_BYTES :: nat where "BUFFER_BYTES = 512"

definition write_socket :: "message \<Rightarrow> sim \<Rightarrow> sim" where
  "write_socket msg w = w\<lparr>sm_written := sm_written w @ [msg]\<rparr>"

definition schedule_new_message :: "message \<Rightarrow> sim \<Rightarrow> sim" where
  "schedule_new_message msg w =
     (if sm_thread_mode w then w\<lparr>sm_socket_messages := sm_socket_messages w @ [msg]\<rparr> else write_socket msg w)"

definition send_pending_messages :: "sim \<Rightarrow> sim" where
  "send_pending_messages w = w\<lparr>sm_written := sm_written w @ sm_socket_messages w, sm_socket_messages := []\<rparr>"

text \<open>A color is an \<open>int\<close>, whose cast to \<open>message_type\<close> extends the sign.\<close>

definition set_color :: "node_val \<Rightarrow> int_val \<Rightarrow> int_val \<Rightarrow> int_val \<Rightarrow> sim \<Rightarrow> sim" where
  "set_color n r g b w =
     schedule_new_message (message_bytes_of [7 * 8, SET_COLOR, 0, ucast n, scast r, scast g, scast b, 0]) w"

text \<open>
  What the virtual machine calls. The flag and the limit of the instruction counter belong to
  the virtual machine. New work looks at the sign of a count only while no node is current,
  and then the virtual machine has but the initial tuples, with a count of one.
\<close>

definition sim_ops :: "bool \<Rightarrow> nat \<Rightarrow> sim sched_ops" where
  "sim_ops instr_use limit =
     \<lparr>sd_new_work = sim_new_work True, sd_new_work_delay = sim_new_work_delay,
      sd_new_work_other = (\<lambda>_ _ _ _. Inl Assert_Failed), sd_new_work_remote = (\<lambda>_ _ _ _. Inl Assert_Failed),
      sd_same_scheduler = (\<lambda>_ _. True), sd_set_node_priority = (\<lambda>_ _ _. Inr), sd_add_node_priority = (\<lambda>_ _ _. Inr),
      sd_schedule_next = (\<lambda>_. Inr), sd_set_color = (\<lambda>n r g b w. Inr (set_color n r g b w)),
      sd_gather_active = (\<lambda>_ _ _ _. Inr []), sd_gather_next = sim_gather_next instr_use limit,
      sd_tuples_until = sim_tuples_until,
      sd_push_pending = (\<lambda>n a w. Inr (put_sim_node n ((sm_nodes w n)\<lparr>sn_pending := sn_pending (sm_nodes w n) @ [a]\<rparr>) w))\<rparr>"


section \<open>Facts about the neighborhood\<close>

text \<open>
  Each handler builds a tuple with a count and hands it to \<open>add_received_tuple\<close>. A field is
  given a value of its type.
\<close>

fun set_fields :: "nat \<Rightarrow> fval list \<Rightarrow> vtuple \<Rightarrow> vtuple res" where
  "set_fields i [] t = Inr t"
| "set_fields i (v # vs) t =
     (if i < length (pred_types (tpl_pred t)) \<and> pred_types (tpl_pred t) ! i = fval_type v
      then set_fields (i + 1) vs (set_field i v t) else Inl Bad_Access)"

definition add_received_tuple :: "node_val \<Rightarrow> nat \<Rightarrow> saddr \<Rightarrow> (sim vstate, unit) act" where
  "add_received_tuple n ts a =
     act_bind (act_read (positive_at a)) (\<lambda>b. sched_update (\<lambda>w. Inr (add_received n ts b a w)))"

definition add_fact :: "(sim \<Rightarrow> predicate option) \<Rightarrow> nat \<Rightarrow> node_val \<Rightarrow> fval list \<Rightarrow> 16 word \<Rightarrow> (sim vstate, unit) act" where
  "add_fact which ts n fs c =
     act_bind (act_get (\<lambda>s. which (vs_sched s))) (\<lambda>r.
     case r of
       None \<Rightarrow> act_return ()
     | Some p \<Rightarrow>
         act_bind (act_lift (set_fields 0 fs (new_tuple p))) (\<lambda>tp.
         act_bind (create_tuple tp) (\<lambda>t. act_bind (create_stuple t c) (add_received_tuple n ts))))"

definition add_neighbor :: "nat \<Rightarrow> node_val \<Rightarrow> node_val \<Rightarrow> face \<Rightarrow> 16 word \<Rightarrow> (sim vstate, unit) act" where
  "add_neighbor ts n out f c = add_fact sm_neighbor ts n [FNode out, FInt (int_of_face f)] c"

definition add_neighbor_count :: "nat \<Rightarrow> node_val \<Rightarrow> 64 word \<Rightarrow> 16 word \<Rightarrow> (sim vstate, unit) act" where
  "add_neighbor_count ts n tot c = add_fact sm_neighbor_count ts n [FInt (ucast tot)] c"

definition add_vacant :: "nat \<Rightarrow> node_val \<Rightarrow> face \<Rightarrow> 16 word \<Rightarrow> (sim vstate, unit) act" where
  "add_vacant ts n f c = add_fact sm_vacant ts n [FInt (int_of_face f)] c"

definition sim_node_at :: "node_val \<Rightarrow> (sim vstate, sim_node) act" where
  "sim_node_at n = act_get (\<lambda>s. sm_nodes (vs_sched s) n)"

definition set_sim_node :: "node_val \<Rightarrow> (sim_node \<Rightarrow> sim_node res) \<Rightarrow> (sim vstate, unit) act" where
  "set_sim_node n f = sched_update (\<lambda>w. res_bind (f (sm_nodes w n)) (\<lambda>m. Inr (put_sim_node n m w)))"

definition find_sim_node :: "node_val \<Rightarrow> (sim vstate, unit) act" where
  "find_sim_node n = act_bind (act_read (\<lambda>s. find_node n (vs_db s))) (\<lambda>_. act_return ())"

definition instantiate_node :: "node_val \<Rightarrow> (sim vstate, unit) act" where
  "instantiate_node n =
     act_then (set_sim_node n (\<lambda>m. Inr (m\<lparr>sn_instantiated := True\<rparr>)))
       (act_bind (sim_node_at n) (\<lambda>m.
        act_then (add_neighbor_count 0 n (sn_neighbors m) 1)
          (act_each (\<lambda>f. act_bind (act_lift (node_at_face f m)) (\<lambda>v.
             if v = NO_NEIGHBOR then add_vacant 0 n f 1 else add_neighbor 0 n v f 1)) faces)))"

definition instantiate_all_nodes :: "(sim vstate, unit) act" where
  "instantiate_all_nodes =
     act_bind (act_get vs_sched) (\<lambda>w.
     act_then (act_assert (\<not> sm_all_instantiated w)) (act_then (act_assert (sm_thread_mode w))
       (act_bind (act_get (\<lambda>s. map fst (db_nodes (vs_db s)))) (act_each instantiate_node))))"

section \<open>The commands of the simulator\<close>

definition create_sim_node :: "code_env \<Rightarrow> nat \<Rightarrow> node_val \<Rightarrow> (sim vstate, unit) act" where
  "create_sim_node env ts i =
     act_then (act_update (\<lambda>s. res_bind (create_node_id (env_prog env) i (vs_db s)) (\<lambda>(n, db).
         Inr (s\<lparr>vs_db := db, vs_sched := put_sim_node i (new_sim_node (sm_rtype (vs_sched s) i)) (vs_sched s)\<rparr>))))
       (act_bind (act_get (\<lambda>s. sim_ops (vs_sim_use s) (vs_sim_limit s))) (\<lambda>so.
        act_then (init_node env so i)
          (act_bind (act_get vs_sched) (\<lambda>w.
           act_then (act_when (sm_thread_mode w) (sched_update (\<lambda>w. Inr (w\<lparr>sm_slaves := sm_slaves w @ [i]\<rparr>))))
             (act_when (\<not> sm_thread_mode w \<or> sm_all_instantiated w)
                (act_then (set_sim_node i (\<lambda>m. Inr (m\<lparr>sn_instantiated := True\<rparr>)))
                   (act_then (act_each (\<lambda>f. add_vacant ts i f 1) faces) (add_neighbor_count ts i 0 1))))))))"

definition handle_create_n_nodes :: "code_env \<Rightarrow> nat \<Rightarrow> 64 word \<Rightarrow> node_val \<Rightarrow> (sim vstate, unit) act" where
  "handle_create_n_nodes env ts n start_id =
     act_each (\<lambda>i. create_sim_node env ts (start_id + of_nat i)) [0..<unat n]"

definition handle_run_node :: "nat \<Rightarrow> node_val \<Rightarrow> (sim vstate, unit) act" where
  "handle_run_node ts n =
     act_bind (act_get vs_sched) (\<lambda>w. act_then (act_assert (\<not> sm_thread_mode w)) (act_then (find_sim_node n)
       (act_modify (\<lambda>s. s\<lparr>vs_sched := (vs_sched s)\<lparr>sm_current := Some n\<rparr>,
          vs_sim_counter := sn_timestamp (sm_nodes w n), vs_sim_limit := ts, vs_sim_use := True\<rparr>))))"

definition handle_receive_message :: "code_env \<Rightarrow> nat \<Rightarrow> node_val \<Rightarrow> face \<Rightarrow> byte list \<Rightarrow> nat \<Rightarrow> (sim vstate, unit) act" where
  "handle_receive_message env ts n f buf offset =
     act_bind (act_get vs_sched) (\<lambda>w. act_then (act_assert (\<not> sm_thread_mode w)) (act_then (find_sim_node n)
       (act_bind (if f = INVALID_FACE then act_return n
                  else act_bind (act_lift (node_at_face f (sm_nodes w n))) (\<lambda>v. act_then (find_sim_node v) (act_return v))) (\<lambda>target.
        act_bind (act_lift (simple_tuple_unpack (prog_predicates (env_prog env)) buf offset)) (\<lambda>(st, pos).
        act_bind (create_tuple (st_data st)) (\<lambda>t. act_bind (create_stuple t (st_count st)) (\<lambda>a.
        set_sim_node target (\<lambda>m. Inr (insert_stamped ts (0 < sint (st_count st)) a m)))))))))"

text \<open>What \<open>handle_add_neighbor\<close> and \<open>handle_remove_neighbor\<close> do at the node they find.\<close>

definition connect_face :: "nat \<Rightarrow> node_val \<Rightarrow> node_val \<Rightarrow> face \<Rightarrow> (sim vstate, unit) act" where
  "connect_face ts n out f =
       (act_bind (sim_node_at n) (\<lambda>m.
        act_bind (act_lift (node_at_face f m)) (\<lambda>v.
        if v = NO_NEIGHBOR then
          act_then (act_when (sn_instantiated m)
              (act_then (add_vacant ts n f (-1)) (add_neighbor_count ts n (sn_neighbors m) (-1))))
            (act_then (set_sim_node n (\<lambda>m. Inr (m\<lparr>sn_neighbors := sn_neighbors m + 1\<rparr>)))
              (act_then (act_when (sn_instantiated m) (add_neighbor_count ts n (sn_neighbors m + 1) 1))
                (act_then (set_sim_node n (put_at_face f out))
                  (act_when (sn_instantiated m) (add_neighbor ts n out f 1)))))
        else if v \<noteq> out then
          act_then (act_when (sn_instantiated m) (add_neighbor ts n v f (-1)))
            (act_then (set_sim_node n (put_at_face f out))
              (act_when (sn_instantiated m) (add_neighbor ts n out f 1)))
        else act_return ())))"

definition handle_add_neighbor :: "nat \<Rightarrow> node_val \<Rightarrow> node_val \<Rightarrow> face \<Rightarrow> (sim vstate, unit) act" where
  "handle_add_neighbor ts n out f = act_then (find_sim_node n) (connect_face ts n out f)"

definition disconnect_face :: "nat \<Rightarrow> node_val \<Rightarrow> face \<Rightarrow> (sim vstate, unit) act" where
  "disconnect_face ts n f =
       (act_bind (sim_node_at n) (\<lambda>m.
        act_bind (act_lift (node_at_face f m)) (\<lambda>v.
        if v = NO_NEIGHBOR then act_fail Assert_Failed
        else
          act_then (act_when (sn_instantiated m) (add_neighbor_count ts n (sn_neighbors m) (-1)))
            (act_then (set_sim_node n (\<lambda>m. Inr (m\<lparr>sn_neighbors := sn_neighbors m - 1\<rparr>)))
              (act_then (act_when (sn_instantiated m) (add_neighbor_count ts n (sn_neighbors m - 1) 1))
                (act_then (add_neighbor ts n v f (-1)) (set_sim_node n (put_at_face f NO_NEIGHBOR))))))))"

definition handle_remove_neighbor :: "nat \<Rightarrow> node_val \<Rightarrow> face \<Rightarrow> (sim vstate, unit) act" where
  "handle_remove_neighbor ts n f = act_then (find_sim_node n) (disconnect_face ts n f)"

definition handle_tap :: "nat \<Rightarrow> node_val \<Rightarrow> (sim vstate, unit) act" where
  "handle_tap ts n = act_then (find_sim_node n) (add_fact sm_tap ts n [] 1)"

definition handle_accel :: "nat \<Rightarrow> node_val \<Rightarrow> int_val \<Rightarrow> (sim vstate, unit) act" where
  "handle_accel ts n f = act_then (find_sim_node n) (add_fact sm_accel ts n [FInt f] 1)"

definition handle_shake :: "nat \<Rightarrow> node_val \<Rightarrow> int_val \<Rightarrow> int_val \<Rightarrow> int_val \<Rightarrow> (sim vstate, unit) act" where
  "handle_shake ts n x y z = act_then (find_sim_node n) (add_fact sm_shake ts n [FInt x, FInt y, FInt z] 1)"


section \<open>The end of a computation\<close>

text \<open>A counted tuple of the store as \<open>pack\<close> sees it.\<close>

definition simple_tuple_at :: "saddr \<Rightarrow> 'w vstate \<Rightarrow> simple_tuple res" where
  "simple_tuple_at a s = res_bind (stuple_at a s) (\<lambda>st. res_bind (tuple_at (so_tuple st) s) (\<lambda>tp.
     Inr (new_simple_tuple tp (so_count st))))"

definition wipeout_stuple :: "saddr \<Rightarrow> ('w vstate, unit) act" where
  "wipeout_stuple a =
     act_bind (act_read (stuple_at a)) (\<lambda>st. act_then (delete_tuple_obj (so_tuple st)) (delete_stuple_obj a))"

text \<open>
  The message has a header of five words, the first of them the number of bytes after it.
  Nothing looks whether the tuple fits into the buffer of 512 bytes.
\<close>

definition send_message_bytes :: "nat \<Rightarrow> node_val \<Rightarrow> face \<Rightarrow> simple_tuple \<Rightarrow> message res" where
  "send_message_bytes ts src f st =
     res_bind (simple_tuple_storage_size st) (\<lambda>size.
     let msg_size = 4 * 8 + size;
         header = message_bytes_of [of_nat msg_size, SEND_MESSAGE, of_nat ts, ucast src, word_of_face f]
     in if BUFFER_BYTES < msg_size + 8 then Inl Bad_Access
        else res_bind (simple_tuple_pack st (header @ replicate size 0) 40) (\<lambda>(buf, pos).
          if pos = msg_size + 8 then Inr buf else Inl Assert_Failed))"

definition send_send_message :: "work_info \<Rightarrow> nat \<Rightarrow> (sim vstate, unit) act" where
  "send_send_message info ts =
     act_bind (act_read (simple_tuple_at (wi_tuple info))) (\<lambda>st.
     act_bind (act_lift (case wi_src info of None \<Rightarrow> Inl Bad_Access | Some src \<Rightarrow> Inr src)) (\<lambda>src.
     act_bind (sim_node_at src) (\<lambda>m.
     act_bind (act_lift (send_message_bytes ts src (get_face (wi_node info) m) st)) (\<lambda>msg.
     act_then (wipeout_stuple (wi_tuple info)) (sched_update (\<lambda>w. Inr (write_socket msg w)))))))"

text \<open>The \<open>std::set\<close> of pointers is in the order of the addresses of the nodes.\<close>

definition touched_nodes :: "node_val \<Rightarrow> sim \<Rightarrow> node_val list" where
  "touched_nodes c w =
     sort_key (sm_order w) (remdups (map wi_node (sm_tmp_work w) @ (if sn_pending (sm_nodes w c) = [] then [] else [c])))"

definition node_run_message :: "nat \<Rightarrow> node_val \<Rightarrow> node_val list \<Rightarrow> message res" where
  "node_run_message ts c ns =
     (let msg = message_bytes_of ([of_nat ((4 + length ns) * 8), NODE_RUN, of_nat ts, ucast c, of_nat (length ns)] @ map ucast ns)
      in if BUFFER_BYTES < length msg then Inl Bad_Access else Inr msg)"

definition handle_deterministic_computation :: "node_val \<Rightarrow> (sim vstate, unit) act" where
  "handle_deterministic_computation c =
     act_bind (act_get vs_sched) (\<lambda>w.
     act_then (act_each (\<lambda>info. send_send_message info (wi_timestamp info)) (sm_tmp_work w))
       (act_then (act_modify (\<lambda>s. s\<lparr>vs_sched := put_sim_node c ((sm_nodes (vs_sched s) c)\<lparr>sn_timestamp := vs_sim_counter s\<rparr>)
                    ((vs_sched s)\<lparr>sm_tmp_work := []\<rparr>)\<rparr>))
         (act_bind (act_get vs_sim_counter) (\<lambda>ts.
          act_bind (act_lift (node_run_message ts c (touched_nodes c w))) (\<lambda>msg.
          sched_update (\<lambda>w. Inr (write_socket msg w\<lparr>sm_current := None\<rparr>)))))))"

definition check_delayed_queue :: "(sim vstate, unit) act" where
  "check_delayed_queue =
     act_bind (act_step (\<lambda>s. case get_timestamp (vs_sched s) of (now, w) \<Rightarrow>
        res_bind (due_loop (sm_pq_top w) now (sm_delay w)) (\<lambda>(infos, q). Inr (infos, s\<lparr>vs_sched := w\<lparr>sm_delay := q\<rparr>\<rparr>))))
       (act_each (\<lambda>info.
          act_bind (act_lift (case wi_src info of None \<Rightarrow> Inl Bad_Access | Some src \<Rightarrow> Inr src)) (\<lambda>src.
          act_bind (act_get vs_sched) (\<lambda>w.
          send_send_message info (max (sn_timestamp (sm_nodes w src)) (sn_timestamp (sm_nodes w (wi_node info)) + 1))))))"

section \<open>The main loop\<close>

text \<open>
  What the socket has to say when it is asked: nothing, or a message, which is read over
  what the buffer held before. Where the message is shorter than what its command reads,
  the words after it are those of earlier messages.
\<close>

datatype sim_event = Silent | Arrived message

datatype sim_outcome = Waiting | Run_Node node_val "sim_event list" | Stopped

definition reply_word :: "nat \<Rightarrow> byte list \<Rightarrow> 64 word" where
  "reply_word i buf = le_word (take 8 (drop (8 * i) buf))"

definition read_message :: "message \<Rightarrow> byte list \<Rightarrow> byte list res" where
  "read_message msg buf =
     (if length msg < 8 \<or> length msg \<noteq> 8 + unat (reply_word 0 msg) then Inl Assert_Failed
      else if BUFFER_BYTES < length msg then Inl Bad_Access
      else Inr (msg @ drop (length msg) buf))"

text \<open>The commands other than \<open>RUN_NODE\<close> and \<open>STOP\<close>, which leave the loop.\<close>

definition dispatch :: "code_env \<Rightarrow> byte list \<Rightarrow> (sim vstate, unit) act" where
  "dispatch env buf =
     (let r = (\<lambda>i. reply_word i buf); ts = unat (r 2); n = (ucast (r 3) :: node_val)
      in if r 1 = USE_THREADS then sched_update (\<lambda>w. Inr (w\<lparr>sm_thread_mode := True\<rparr>))
         else if r 1 = CREATE_N_NODES then handle_create_n_nodes env ts (r 4) (ucast (r 5))
         else if r 1 = RECEIVE_MESSAGE then
           act_bind (act_lift (face_of (r 4))) (\<lambda>f. handle_receive_message env ts n f (take (unat (r 0) + 8) buf) 40)
         else if r 1 = ADD_NEIGHBOR then
           act_bind (act_lift (face_of (r 5))) (\<lambda>f. handle_add_neighbor ts n (ucast (r 4)) f)
         else if r 1 = REMOVE_NEIGHBOR then act_bind (act_lift (face_of (r 4))) (\<lambda>f. handle_remove_neighbor ts n f)
         else if r 1 = TAP then handle_tap ts n
         else if r 1 = ACCEL then handle_accel ts n (ucast (r 4))
         else if r 1 = SHAKE then handle_shake ts n (ucast (r 4)) (ucast (r 5)) (ucast (r 6))
         else act_return ())"

text \<open>A round of the loop in which the socket had nothing.\<close>

definition silent_round :: "(sim vstate, unit) act" where
  "silent_round =
     act_then (act_modify (\<lambda>s. s\<lparr>vs_sched := send_pending_messages (vs_sched s)\<rparr>))
       (act_bind (act_get vs_sched) (\<lambda>w.
        act_then (act_when (sm_thread_mode w \<and> \<not> sm_all_instantiated w)
            (act_bind (act_step (\<lambda>s. case get_timestamp (vs_sched s) of (now, w1) \<Rightarrow> Inr (now, s\<lparr>vs_sched := w1\<rparr>))) (\<lambda>now.
             act_when (sm_start_time w + TIME_TO_INSTANTIATE < now)
               (act_then instantiate_all_nodes (sched_update (\<lambda>w. Inr (w\<lparr>sm_all_instantiated := True\<rparr>)))))))
          (act_when (\<not> sm_thread_mode w) check_delayed_queue)))"

fun master_loop :: "code_env \<Rightarrow> byte list \<Rightarrow> sim_event list \<Rightarrow> (sim vstate, sim_outcome) act" where
  "master_loop env buf [] = act_return Waiting"
| "master_loop env buf (Silent # es) = act_then silent_round (master_loop env buf es)"
| "master_loop env buf (Arrived msg # es) =
     act_bind (act_lift (read_message msg buf)) (\<lambda>buf.
     if reply_word 1 buf = RUN_NODE then
       (let n = ucast (reply_word 3 buf)
        in act_then (handle_run_node (unat (reply_word 2 buf)) n) (act_return (Run_Node n es)))
     else if reply_word 1 buf = STOP then
       act_then (sched_update (\<lambda>w. Inr (send_pending_messages (w\<lparr>sm_stop_all := True\<rparr>)))) (act_return Stopped)
     else act_then (dispatch env buf) (master_loop env buf es))"

definition master_get_work :: "code_env \<Rightarrow> byte list \<Rightarrow> sim_event list \<Rightarrow> (sim vstate, sim_outcome) act" where
  "master_get_work env buf es =
     act_bind (act_get vs_sched) (\<lambda>w.
     act_then (act_assert (\<not> sm_thread_mode w))
       (act_then (case sm_current w of None \<Rightarrow> act_return () | Some c \<Rightarrow> handle_deterministic_computation c)
         (master_loop env buf es)))"

text \<open>One look of a slave at its node: the node to run, the end, or another look.\<close>

definition slave_look :: "node_val \<Rightarrow> (sim vstate, node_val option option) act" where
  "slave_look n =
     act_bind (act_step (\<lambda>s.
        let w = vs_sched s; m = sm_nodes w n
        in if sn_pending m \<noteq> [] then Inr (True, s)
           else if sn_delay m = [] then Inr (False, s)
           else (case get_timestamp w of (now, w1) \<Rightarrow>
             res_bind (delayed_available (sm_pq_top w) now m) (\<lambda>b. Inr (b, s\<lparr>vs_sched := w1\<rparr>))))) (\<lambda>ready.
     act_get (\<lambda>s. if ready then Some (Some n) else if sm_stop_all (vs_sched s) then Some None else None))"

text \<open>\<open>do_loop\<close> of the base class over the master's nodes, until the events run out.\<close>

fun master_serve :: "code_env \<Rightarrow> nat \<Rightarrow> byte list \<Rightarrow> sim_event list \<Rightarrow> nat \<Rightarrow> (sim vstate, sim_outcome) act" where
  "master_serve env k buf es 0 = act_exhausted"
| "master_serve env k buf es (Suc m) =
     act_bind (master_get_work env buf es) (\<lambda>r.
     case r of
       Run_Node n es' \<Rightarrow>
         act_bind (act_get (\<lambda>s. sim_ops (vs_sim_use s) (vs_sim_limit s))) (\<lambda>so.
         act_then (run_node env so k n) (master_serve env k buf es' m))
     | _ \<Rightarrow> act_return r)"

section \<open>The start\<close>

definition pred_of_name :: "program \<Rightarrow> byte list \<Rightarrow> nat \<Rightarrow> predicate option res" where
  "pred_of_name prog name arity =
     (case get_predicate_by_name prog name of
        None \<Rightarrow> Inr None
      | Some p \<Rightarrow> if num_fields p = arity then Inr (Some p) else Inl Assert_Failed)"

definition sim_init :: "code_env \<Rightarrow> (sim vstate, unit) act" where
  "sim_init env =
     act_then (act_update (\<lambda>s.
       let prog = env_prog env in
       res_bind (pred_of_name prog [0x6e, 0x65, 0x69, 0x67, 0x68, 0x62, 0x6f, 0x72] 2) (\<lambda>nb.
       res_bind (pred_of_name prog [0x74, 0x61, 0x70] 0) (\<lambda>tap.
       res_bind (pred_of_name prog [0x6e, 0x65, 0x69, 0x67, 0x68, 0x62, 0x6f, 0x72, 0x43, 0x6f, 0x75, 0x6e, 0x74] 1) (\<lambda>nc.
       res_bind (pred_of_name prog [0x61, 0x63, 0x63, 0x65, 0x6c] 1) (\<lambda>acc.
       res_bind (pred_of_name prog [0x73, 0x68, 0x61, 0x6b, 0x65] 3) (\<lambda>sh.
       res_bind (pred_of_name prog [0x76, 0x61, 0x63, 0x61, 0x6e, 0x74] 1) (\<lambda>va.
       Inr (s\<lparr>vs_sched := (vs_sched s)\<lparr>sm_neighbor := nb, sm_tap := tap, sm_neighbor_count := nc, sm_accel := acc,
              sm_shake := sh, sm_vacant := va\<rparr>\<rparr>))))))))) 
       (act_modify (\<lambda>s. case get_timestamp (vs_sched s) of (now, w) \<Rightarrow> s\<lparr>vs_sched := w\<lparr>sm_start_time := now\<rparr>\<rparr>))"

end
