(* ===== verification/Sim_Facts.thy ===== *)
theory Sim_Facts
  imports Sim_Sched Vm_Example
begin

text \<open>
  What the simulator's commands tell the nodes: without threads, the facts about faces and
  neighbors that wait at a node, assertions less retractions, are what its faces say.
\<close>

section \<open>The facts that wait at a node\<close>

type_synonym counted_fact = "vtuple \<times> 16 word"

definition fact_at :: "objects \<Rightarrow> saddr \<Rightarrow> counted_fact option" where
  "fact_at h a =
     (case obj_stuples h a of
        None \<Rightarrow> None
      | Some st \<Rightarrow> (case so_tuple st of T_Leaf p j \<Rightarrow> None
                    | T_Obj b \<Rightarrow> (case obj_tuples h b of None \<Rightarrow> None | Some tp \<Rightarrow> Some (tp, so_count st))))"

definition queued :: "sim_node \<Rightarrow> saddr multiset" where
  "queued m = image_mset data (mset (sn_tuples m)) + image_mset data (mset (sn_rtuples m))"

definition node_facts :: "sim vstate \<Rightarrow> node_val \<Rightarrow> counted_fact multiset" where
  "node_facts s n = image_mset (\<lambda>a. the (fact_at (vs_objs s) a)) (queued (sm_nodes (vs_sched s) n))"

text \<open>Every queued address is that of a counted tuple that was allocated.\<close>

definition allocated :: "objects \<Rightarrow> saddr \<Rightarrow> bool" where
  "allocated h a \<longleftrightarrow> a < obj_next h \<and>
     (\<exists>st b tp. obj_stuples h a = Some st \<and> so_tuple st = T_Obj b \<and> b < obj_next h \<and> obj_tuples h b = Some tp)"

definition store_ok :: "sim vstate \<Rightarrow> bool" where
  "store_ok s \<longleftrightarrow> (\<forall>n. \<forall>a \<in># queued (sm_nodes (vs_sched s) n). allocated (vs_objs s) a)"

text \<open>What the handlers compare: the faces, whether the node was told, and the count.\<close>

definition topo :: "sim_node \<Rightarrow> (face \<Rightarrow> node_val res) \<times> bool \<times> 64 word" where
  "topo m = ((\<lambda>f. node_at_face f m), sn_instantiated m, sn_neighbors m)"

definition config :: "sim \<Rightarrow> predicate option \<times> predicate option \<times> predicate option \<times> bool \<times> node_val option" where
  "config w = (sm_neighbor w, sm_neighbor_count w, sm_vacant w, sm_thread_mode w, sm_current w)"

definition adds :: "(node_val \<Rightarrow> counted_fact multiset) \<Rightarrow> sim vstate \<Rightarrow> sim vstate \<Rightarrow> bool" where
  "adds F s t \<longleftrightarrow> store_ok t \<and> (\<forall>n. node_facts t n = node_facts s n + F n) \<and>
     (\<forall>n. topo (sm_nodes (vs_sched t) n) = topo (sm_nodes (vs_sched s) n)) \<and> config (vs_sched t) = config (vs_sched s) \<and>
     vs_db t = vs_db s"

definition at_node :: "node_val \<Rightarrow> 'a multiset \<Rightarrow> node_val \<Rightarrow> 'a multiset" where
  "at_node n M k = (if k = n then M else {#})"

lemma adds_trans: "adds F s t \<Longrightarrow> adds G t u \<Longrightarrow> adds (\<lambda>n. F n + G n) s u"
  by (simp add: adds_def ac_simps)

lemma queued_stamped: "queued (insert_stamped ts b a m) = add_mset a (queued m)"
  by (simp add: queued_def insert_stamped_def hq_insert_mset)

lemma topo_insert: "topo (insert_stamped ts b a m) = topo m"
proof -
  have "node_at_face f (insert_stamped ts b a m) = node_at_face f m" for f
    by (cases f) (simp_all add: insert_stamped_def)
  then show ?thesis by (simp add: topo_def insert_stamped_def)
qed

lemma fact_at_alloc:
  assumes "allocated h a" and "alloc_tuple tp h = (r, h1)" and "alloc_stuple r c h1 = (b, h2)"
  shows "fact_at h2 a = fact_at h a" and "allocated h2 a"
  using assms by (auto simp: allocated_def fact_at_def alloc_tuple_def alloc_stuple_def)

lemma fact_at_new:
  assumes "alloc_tuple tp h = (r, h1)" and "alloc_stuple r c h1 = (b, h2)"
  shows "fact_at h2 b = Some (tp, c)" and "allocated h2 b"
  using assms by (auto simp: allocated_def fact_at_def alloc_tuple_def alloc_stuple_def)

text \<open>A new counted tuple joins the queue of a node.\<close>

lemma new_fact_adds:
  assumes ok: "store_ok s" and a: "alloc_tuple tp (vs_objs s) = (r, h1)" "alloc_stuple r c h1 = (b, h2)"
  shows "adds (at_node n {#(tp, c)#}) s
    (s\<lparr>vs_objs := h2, vs_sched := put_sim_node n (insert_stamped ts p b (sm_nodes (vs_sched s) n)) (vs_sched s)\<rparr>)"
proof -
  note old = fact_at_alloc [OF _ a] and new = fact_at_new [OF a]
  have al: "allocated (vs_objs s) x" if "x \<in># queued (sm_nodes (vs_sched s) k)" for x k
    using ok that by (auto simp: store_ok_def)
  have eq: "image_mset (\<lambda>a. the (fact_at h2 a)) (queued (sm_nodes (vs_sched s) k)) = node_facts s k" for k
    unfolding node_facts_def by (rule image_mset_cong) (simp add: old(1) al)
  show ?thesis
    using al old(2) new eq
    by (auto simp: adds_def store_ok_def put_sim_node_def queued_stamped node_facts_def at_node_def topo_insert config_def)
qed

lemma create_run:
  "alloc_tuple tp (vs_objs s) = (r, h) \<Longrightarrow> create_tuple tp s = Some (Inr (r, s\<lparr>vs_objs := h\<rparr>))"
  "alloc_stuple t c (vs_objs s) = (a, h) \<Longrightarrow> create_stuple t c s = Some (Inr (a, s\<lparr>vs_objs := h\<rparr>))"
  by (simp_all add: create_tuple_def create_stuple_def act_step_def)

lemma sched_update_run: "f (vs_sched s) = Inr w \<Longrightarrow> sched_update f s = Some (Inr ((), s\<lparr>vs_sched := w\<rparr>))"
  by (simp add: sched_update_def)

lemma add_fact_adds:
  assumes ok: "store_ok s" and "\<not> sm_thread_mode (vs_sched s)"
    and "which (vs_sched s) = Some p" and "set_fields 0 fs (new_tuple p) = Inr tp"
  shows "\<exists>t. add_fact which ts n fs c s = Some (Inr ((), t)) \<and> adds (at_node n {#(tp, c)#}) s t"
proof -
  obtain r h1 where h1: "alloc_tuple tp (vs_objs s) = (r, h1)" by fastforce
  obtain b h2 where h2: "alloc_stuple r c h1 = (b, h2)" by fastforce
  let ?s2 = "s\<lparr>vs_objs := h2\<rparr>"
  let ?t = "s\<lparr>vs_objs := h2, vs_sched := put_sim_node n (insert_stamped ts (0 < sint c) b (sm_nodes (vs_sched s) n)) (vs_sched s)\<rparr>"
  have c: "create_tuple tp s = Some (Inr (r, s\<lparr>vs_objs := h1\<rparr>))" using h1 by (rule create_run)
  have d: "create_stuple r c (s\<lparr>vs_objs := h1\<rparr>) = Some (Inr (b, ?s2))" using h2 create_run(2) [of r c "s\<lparr>vs_objs := h1\<rparr>" b h2] by simp
  have "positive_at b ?s2 = Inr (0 < sint c)" using h2 by (auto simp: positive_at_def stuple_at_def alloc_stuple_def)
  then have e: "add_received_tuple n ts b ?s2 = Some (Inr ((), ?t))"
    using assms(2) by (simp add: add_received_tuple_def sched_update_run add_received_def Let_def)
  have "add_fact which ts n fs c s = Some (Inr ((), ?t))"
    using assms(3,4) c d e by (simp add: add_fact_def)
  with new_fact_adds [OF ok h1 h2] show ?thesis by blast
qed


section \<open>Facts about the neighborhood\<close>

definition neighbor_fact :: "predicate \<Rightarrow> node_val \<Rightarrow> face \<Rightarrow> vtuple" where
  "neighbor_fact p v f = \<lparr>tpl_pred = p, tpl_fields = [FNode v, FInt (int_of_face f)]\<rparr>"

definition count_fact :: "predicate \<Rightarrow> 64 word \<Rightarrow> vtuple" where
  "count_fact p c = \<lparr>tpl_pred = p, tpl_fields = [FInt (ucast c)]\<rparr>"

definition vacant_fact :: "predicate \<Rightarrow> face \<Rightarrow> vtuple" where
  "vacant_fact p f = \<lparr>tpl_pred = p, tpl_fields = [FInt (int_of_face f)]\<rparr>"

text \<open>The predicates have the fields the handlers write, and are different ones.\<close>

definition preds_ok :: "sim \<Rightarrow> bool" where
  "preds_ok w \<longleftrightarrow>
     (\<forall>p. sm_neighbor w = Some p \<longrightarrow> pred_types p = [FIELD_NODE, FIELD_INT] \<and> sm_neighbor_count w \<noteq> Some p \<and> sm_vacant w \<noteq> Some p) \<and>
     (\<forall>p. sm_neighbor_count w = Some p \<longrightarrow> pred_types p = [FIELD_INT] \<and> sm_vacant w \<noteq> Some p) \<and>
     (\<forall>p. sm_vacant w = Some p \<longrightarrow> pred_types p = [FIELD_INT])"

definition some_fact :: "predicate option \<Rightarrow> (predicate \<Rightarrow> vtuple) \<Rightarrow> 16 word \<Rightarrow> counted_fact multiset" where
  "some_fact r mk c = (case r of None \<Rightarrow> {#} | Some p \<Rightarrow> {#(mk p, c)#})"

definition quiet :: "sim vstate \<Rightarrow> bool" where
  "quiet s \<longleftrightarrow> store_ok s \<and> \<not> sm_thread_mode (vs_sched s) \<and> sm_current (vs_sched s) = None \<and> preds_ok (vs_sched s)"

lemma adds_quiet: "adds F s t \<Longrightarrow> quiet s \<Longrightarrow> quiet t"
  by (auto simp: adds_def quiet_def config_def preds_ok_def)

lemma adds_none: "store_ok s \<Longrightarrow> adds (at_node n {#}) s s"
  by (simp add: adds_def at_node_def)

lemma add_some_fact:
  assumes "quiet s" and "\<And>p. which (vs_sched s) = Some p \<Longrightarrow> set_fields 0 fs (new_tuple p) = Inr (mk p)"
  shows "\<exists>t. add_fact which ts n fs c s = Some (Inr ((), t)) \<and> adds (at_node n (some_fact (which (vs_sched s)) mk c)) s t"
proof (cases "which (vs_sched s)")
  case None
  then show ?thesis using assms(1) by (simp add: add_fact_def some_fact_def quiet_def adds_none)
next
  case (Some p)
  with add_fact_adds [of s which p fs "mk p" ts n c] assms show ?thesis by (simp add: quiet_def some_fact_def)
qed

lemma add_neighbor_adds:
  assumes "quiet s"
  shows "\<exists>t. add_neighbor ts n v f c s = Some (Inr ((), t)) \<and>
    adds (at_node n (some_fact (sm_neighbor (vs_sched s)) (\<lambda>p. neighbor_fact p v f) c)) s t"
  unfolding add_neighbor_def using assms
  by (intro add_some_fact) (auto simp: quiet_def preds_ok_def new_tuple_def set_field_def neighbor_fact_def)

lemma add_neighbor_count_adds:
  assumes "quiet s"
  shows "\<exists>t. add_neighbor_count ts n k c s = Some (Inr ((), t)) \<and>
    adds (at_node n (some_fact (sm_neighbor_count (vs_sched s)) (\<lambda>p. count_fact p k) c)) s t"
  unfolding add_neighbor_count_def using assms
  by (intro add_some_fact) (auto simp: quiet_def preds_ok_def new_tuple_def set_field_def count_fact_def)

lemma add_vacant_adds:
  assumes "quiet s"
  shows "\<exists>t. add_vacant ts n f c s = Some (Inr ((), t)) \<and>
    adds (at_node n (some_fact (sm_vacant (vs_sched s)) (\<lambda>p. vacant_fact p f) c)) s t"
  unfolding add_vacant_def using assms
  by (intro add_some_fact) (auto simp: quiet_def preds_ok_def new_tuple_def set_field_def vacant_fact_def)

text \<open>How often a fact is asserted less how often it is retracted.\<close>

definition net :: "counted_fact multiset \<Rightarrow> vtuple \<Rightarrow> int" where
  "net M tp = (\<Sum>e \<in># M. if fst e = tp then sint (snd e) else 0)"

lemma net_simps [simp]:
  "net {#} tp = 0" "net (M + N) tp = net M tp + net N tp"
  "net (some_fact None mk c) tp = 0" "net (some_fact (Some p) mk c) tp = (if mk p = tp then sint c else 0)"
  by (simp_all add: net_def some_fact_def)

lemma fact_inj [simp]:
  "neighbor_fact p v f = neighbor_fact q u g \<longleftrightarrow> p = q \<and> v = u \<and> f = g"
  "vacant_fact p f = vacant_fact q g \<longleftrightarrow> p = q \<and> f = g"
  "count_fact p c = count_fact q d \<longleftrightarrow> p = q \<and> (ucast c :: int_val) = ucast d"
  "tpl_pred (neighbor_fact p v f) = p" "tpl_pred (vacant_fact p f) = p" "tpl_pred (count_fact p c) = p"
  "neighbor_fact p v f \<noteq> vacant_fact q g" "vacant_fact q g \<noteq> neighbor_fact p v f"
  "neighbor_fact p v f \<noteq> count_fact q c" "count_fact q c \<noteq> neighbor_fact p v f"
  by (auto simp: neighbor_fact_def vacant_fact_def count_fact_def int_of_face_inj)

lemma preds_distinct:
  assumes "preds_ok w" and "sm_neighbor_count w = Some p" and "sm_vacant w = Some q"
  shows "vacant_fact q f \<noteq> count_fact p c" and "count_fact p c \<noteq> vacant_fact q f"
proof -
  have "p \<noteq> q" using assms by (auto simp: preds_ok_def)
  then show "vacant_fact q f \<noteq> count_fact p c" and "count_fact p c \<noteq> vacant_fact q f" by (auto simp: vacant_fact_def count_fact_def)
qed


section \<open>What a node should have been told\<close>

type_synonym topology = "(face \<Rightarrow> node_val res) \<times> bool \<times> 64 word"

fun face_value :: "node_val res \<Rightarrow> node_val" where
  "face_value (Inr v) = v"
| "face_value (Inl e) = NO_NEIGHBOR"

definition face_fact :: "sim \<Rightarrow> face \<Rightarrow> node_val \<Rightarrow> 16 word \<Rightarrow> counted_fact multiset" where
  "face_fact w f v c =
     (if v = NO_NEIGHBOR then some_fact (sm_vacant w) (\<lambda>p. vacant_fact p f) c
      else some_fact (sm_neighbor w) (\<lambda>p. neighbor_fact p v f) c)"

definition number_fact :: "sim \<Rightarrow> 64 word \<Rightarrow> 16 word \<Rightarrow> counted_fact multiset" where
  "number_fact w k c = some_fact (sm_neighbor_count w) (\<lambda>p. count_fact p k) c"

definition told_counter :: "sim \<Rightarrow> topology \<Rightarrow> vtuple \<Rightarrow> int" where
  "told_counter w T tp = (case T of (at_face, inst, k) \<Rightarrow>
     (\<Sum>f \<in> set faces. net (face_fact w f (face_value (at_face f)) 1) tp) + net (number_fact w k 1) tp)"

text \<open>The number of neighbors is that of the faces with a node, and the counter must say the same.\<close>

definition occupied :: "(face \<Rightarrow> node_val res) \<Rightarrow> nat" where
  "occupied at_face = length (filter (\<lambda>f. face_value (at_face f) \<noteq> NO_NEIGHBOR) faces)"

definition told :: "sim \<Rightarrow> (face \<Rightarrow> node_val res) \<Rightarrow> vtuple \<Rightarrow> int" where
  "told w at_face tp =
     (\<Sum>f \<in> set faces. net (face_fact w f (face_value (at_face f)) 1) tp) + net (number_fact w (of_nat (occupied at_face)) 1) tp"

definition counter_ok :: "topology \<Rightarrow> bool" where
  "counter_ok T \<longleftrightarrow> (case T of (at_face, i, k) \<Rightarrow> k = of_nat (occupied at_face))"

lemma told_counter_right: "counter_ok T \<Longrightarrow> told_counter w T tp = told w (fst T) tp"
  by (auto simp: counter_ok_def told_counter_def told_def)

lemma occupied_update:
  assumes "f \<in> set faces"
  shows "occupied (at_face(f := Inr v)) + (if face_value (at_face f) = NO_NEIGHBOR then 0 else 1) =
    occupied at_face + (if v = NO_NEIGHBOR then 0 else 1)"
proof -
  have d: "distinct faces" by (simp add: faces_def)
  have card: "occupied g = card {x \<in> set faces. face_value (g x) \<noteq> NO_NEIGHBOR}" for g
    using distinct_card [OF distinct_filter [OF d, of "\<lambda>f. face_value (g f) \<noteq> NO_NEIGHBOR"]] by (simp add: occupied_def)
  let ?A = "{x \<in> set faces - {f}. face_value (at_face x) \<noteq> NO_NEIGHBOR}"
  have "{x \<in> set faces. face_value (g x) \<noteq> NO_NEIGHBOR} = (if face_value (g f) = NO_NEIGHBOR then ?A else insert f ?A)"
    if "\<And>x. x \<noteq> f \<Longrightarrow> g x = at_face x" for g
    using assms that by (auto, metis)
  then have "card {x \<in> set faces. face_value (g x) \<noteq> NO_NEIGHBOR} = card ?A + (if face_value (g f) = NO_NEIGHBOR then 0 else 1)"
    if "\<And>x. x \<noteq> f \<Longrightarrow> g x = at_face x" for g using that by simp
  from this [of at_face] this [of "at_face(f := Inr v)"] show ?thesis by (simp add: card)
qed

definition gap :: "sim vstate \<Rightarrow> node_val \<Rightarrow> vtuple \<Rightarrow> int" where
  "gap s n tp = net (node_facts s n) tp - told_counter (vs_sched s) (topo (sm_nodes (vs_sched s) n)) tp"

lemma facts_config: "config w = config v \<Longrightarrow> face_fact w = face_fact v \<and> number_fact w = number_fact v"
  by (intro conjI ext) (simp_all add: face_fact_def number_fact_def config_def)

lemma told_config: "config w = config v \<Longrightarrow> told_counter w T tp = told_counter v T tp"
  using facts_config [of w v] by (simp add: told_counter_def)

lemma net_minus [simp]: "net (face_fact w f v (-1)) tp = - net (face_fact w f v 1) tp"
    "net (number_fact w k (-1)) tp = - net (number_fact w k 1) tp"
  by (cases "sm_vacant w"; cases "sm_neighbor w"; cases "sm_neighbor_count w"; simp add: face_fact_def number_fact_def)+

text \<open>A step at one node: by how much the gap of a fact grows there, and the topology after it.\<close>

definition gap_step :: "node_val \<Rightarrow> (vtuple \<Rightarrow> int) \<Rightarrow> topology \<Rightarrow> sim vstate \<Rightarrow> sim vstate \<Rightarrow> bool" where
  "gap_step n d T s t \<longleftrightarrow> quiet t \<and> config (vs_sched t) = config (vs_sched s) \<and> vs_db t = vs_db s \<and>
     (\<forall>k. topo (sm_nodes (vs_sched t) k) = (if k = n then T else topo (sm_nodes (vs_sched s) k))) \<and>
     (\<forall>k tp. gap t k tp = gap s k tp + (if k = n then d tp else 0))"

lemma gap_step_trans:
  "gap_step n d T s t \<Longrightarrow> gap_step n e U t u \<Longrightarrow> gap_step n (\<lambda>tp. d tp + e tp) U s u"
  by (simp add: gap_step_def)

lemma gap_step_refl: "quiet s \<Longrightarrow> gap_step n (\<lambda>_. 0) (topo (sm_nodes (vs_sched s) n)) s s"
  by (simp add: gap_step_def)

lemma gap_adds:
  assumes "quiet s" and "adds (at_node n M) s t"
  shows "gap_step n (net M) (topo (sm_nodes (vs_sched s) n)) s t"
  using adds_quiet [OF assms(2,1)] assms(2) told_config [of "vs_sched t" "vs_sched s"]
  by (auto simp: gap_step_def adds_def gap_def at_node_def)

lemma face_fact_gap:
  assumes "quiet s"
  shows "\<exists>t. (if v = NO_NEIGHBOR then add_vacant ts n f c else add_neighbor ts n v f c) s = Some (Inr ((), t)) \<and>
    gap_step n (net (face_fact (vs_sched s) f v c)) (topo (sm_nodes (vs_sched s) n)) s t"
  using add_vacant_adds [OF assms, of ts n f c] add_neighbor_adds [OF assms, of ts n v f c] gap_adds [OF assms]
  by (auto simp: face_fact_def)

lemma number_fact_gap:
  assumes "quiet s"
  shows "\<exists>t. add_neighbor_count ts n k c s = Some (Inr ((), t)) \<and>
    gap_step n (net (number_fact (vs_sched s) k c)) (topo (sm_nodes (vs_sched s) n)) s t"
  using add_neighbor_count_adds [OF assms, of ts n k c] gap_adds [OF assms] by (auto simp: number_fact_def)

text \<open>A change of the node alone.\<close>

lemma set_node_gap:
  assumes "quiet s" and "g (sm_nodes (vs_sched s) n) = Inr m" and "queued m = queued (sm_nodes (vs_sched s) n)"
  shows "\<exists>t. set_sim_node n g s = Some (Inr ((), t)) \<and>
    gap_step n (\<lambda>tp. told_counter (vs_sched s) (topo (sm_nodes (vs_sched s) n)) tp - told_counter (vs_sched s) (topo m) tp) (topo m) s t"
proof -
  let ?t = "s\<lparr>vs_sched := put_sim_node n m (vs_sched s)\<rparr>"
  have "set_sim_node n g s = Some (Inr ((), ?t))"
    using assms(2) by (simp add: set_sim_node_def sched_update_run)
  moreover have c: "config (vs_sched ?t) = config (vs_sched s)" by (simp add: config_def put_sim_node_def)
  moreover have "store_ok ?t" "node_facts ?t = node_facts s" using assms(1,3)
    by (auto simp: quiet_def store_ok_def put_sim_node_def node_facts_def fun_eq_iff)
  moreover have "quiet ?t" using assms(1) \<open>store_ok ?t\<close> by (simp add: quiet_def put_sim_node_def preds_ok_def)
  ultimately show ?thesis using told_config [OF c]
    by (intro exI [of _ ?t]) (simp add: gap_step_def gap_def put_sim_node_def)
qed

lemma told_face:
  assumes "f \<in> set faces"
  shows "told_counter w (at_face(f := Inr v), i, k) tp =
    told_counter w (at_face, i, k) tp - net (face_fact w f (face_value (at_face f)) 1) tp + net (face_fact w f v 1) tp"
proof -
  have fin: "finite (set faces)" by simp
  have "(\<Sum>g \<in> set faces. net (face_fact w g (face_value ((at_face(f := Inr v)) g)) 1) tp) =
      net (face_fact w f v 1) tp + (\<Sum>g \<in> set faces - {f}. net (face_fact w g (face_value (at_face g)) 1) tp)"
    using assms by (simp add: sum.remove [OF fin])
  moreover have "(\<Sum>g \<in> set faces. net (face_fact w g (face_value (at_face g)) 1) tp) =
      net (face_fact w f (face_value (at_face f)) 1) tp + (\<Sum>g \<in> set faces - {f}. net (face_fact w g (face_value (at_face g)) 1) tp)"
    using assms by (simp add: sum.remove [OF fin])
  ultimately show ?thesis by (simp add: told_counter_def)
qed

lemma told_number:
  "told_counter w (at_face, i, k') tp = told_counter w (at_face, i, k) tp - net (number_fact w k 1) tp + net (number_fact w k' 1) tp"
  by (simp add: told_counter_def)


text \<open>
  An action at a node whose topology is \<open>T\<close>: it ends, the gap of every fact grows by \<open>d\<close>,
  and the topology is \<open>U\<close>.
\<close>

definition steps :: "node_val \<Rightarrow> sim \<Rightarrow> topology \<Rightarrow> (sim vstate, unit) act \<Rightarrow> (vtuple \<Rightarrow> int) \<Rightarrow> topology \<Rightarrow> bool" where
  "steps n w T m d U \<longleftrightarrow>
     (\<forall>s. quiet s \<longrightarrow> config (vs_sched s) = config w \<longrightarrow> topo (sm_nodes (vs_sched s) n) = T \<longrightarrow>
        (\<exists>t. m s = Some (Inr ((), t)) \<and> gap_step n d U s t))"

lemma stepsI:
  "(\<And>s. quiet s \<Longrightarrow> config (vs_sched s) = config w \<Longrightarrow> topo (sm_nodes (vs_sched s) n) = T \<Longrightarrow>
     \<exists>t. m s = Some (Inr ((), t)) \<and> gap_step n d U s t) \<Longrightarrow> steps n w T m d U"
  by (simp add: steps_def)

lemma stepsD:
  "steps n w T m d U \<Longrightarrow> quiet s \<Longrightarrow> config (vs_sched s) = config w \<Longrightarrow> topo (sm_nodes (vs_sched s) n) = T \<Longrightarrow>
     \<exists>t. m s = Some (Inr ((), t)) \<and> gap_step n d U s t"
  by (simp add: steps_def)

lemma steps_then:
  assumes 1: "steps n w T m d U" and 2: "steps n w U m' e V"
  shows "steps n w T (act_then m m') (\<lambda>tp. d tp + e tp) V"
proof (rule stepsI)
  fix s assume s: "quiet s" "config (vs_sched s) = config w" "topo (sm_nodes (vs_sched s) n) = T"
  from stepsD [OF 1 s] obtain t where t: "m s = Some (Inr ((), t))" "gap_step n d U s t" by blast
  then have "quiet t" "config (vs_sched t) = config w" "topo (sm_nodes (vs_sched t) n) = U"
    using s(2) by (simp_all add: gap_step_def)
  from stepsD [OF 2 this] obtain u where u: "m' t = Some (Inr ((), u))" "gap_step n e V t u" by blast
  from t u gap_step_trans [OF t(2) u(2)] show "\<exists>u. act_then m m' s = Some (Inr ((), u)) \<and> gap_step n (\<lambda>tp. d tp + e tp) V s u"
    by auto
qed

lemma steps_return: "steps n w T (act_return ()) (\<lambda>_. 0) T"
  by (rule stepsI) (auto intro: gap_step_refl)

lemma steps_gap: "steps n w T m d U \<Longrightarrow> (\<And>tp. d tp = e tp) \<Longrightarrow> steps n w T m e U"
  by (subgoal_tac "d = e") auto

lemma steps_face:
  "steps n w T (if v = NO_NEIGHBOR then add_vacant ts n f c else add_neighbor ts n v f c) (net (face_fact w f v c)) T"
proof (rule stepsI)
  fix s assume "quiet s" "config (vs_sched s) = config w" "topo (sm_nodes (vs_sched s) n) = T"
  with face_fact_gap [of s v ts n f c] facts_config [of "vs_sched s" w]
  show "\<exists>t. (if v = NO_NEIGHBOR then add_vacant ts n f c else add_neighbor ts n v f c) s = Some (Inr ((), t)) \<and>
      gap_step n (net (face_fact w f v c)) T s t" by simp
qed

lemma steps_number: "steps n w T (add_neighbor_count ts n k c) (net (number_fact w k c)) T"
proof (rule stepsI)
  fix s assume "quiet s" "config (vs_sched s) = config w" "topo (sm_nodes (vs_sched s) n) = T"
  with number_fact_gap [of s ts n k c] facts_config [of "vs_sched s" w]
  show "\<exists>t. add_neighbor_count ts n k c s = Some (Inr ((), t)) \<and> gap_step n (net (number_fact w k c)) T s t" by simp
qed

lemma steps_set:
  assumes "\<And>m. topo m = T \<Longrightarrow> \<exists>m'. g m = Inr m' \<and> queued m' = queued m \<and> topo m' = U"
  shows "steps n w T (set_sim_node n g) (\<lambda>tp. told_counter w T tp - told_counter w U tp) U"
proof (rule stepsI)
  fix s assume s: "quiet s" "config (vs_sched s) = config w" "topo (sm_nodes (vs_sched s) n) = T"
  from assms [OF s(3)] obtain m' where m': "g (sm_nodes (vs_sched s) n) = Inr m'" "queued m' = queued (sm_nodes (vs_sched s) n)" "topo m' = U"
    by blast
  show "\<exists>t. set_sim_node n g s = Some (Inr ((), t)) \<and> gap_step n (\<lambda>tp. told_counter w T tp - told_counter w U tp) U s t"
    using set_node_gap [of s g n m', OF s(1) m'(1,2)] told_config [OF s(2)] s(3) m'(3) by simp
qed

lemma steps_set_number:
  "steps n w (at_face, i, k) (set_sim_node n (\<lambda>m. Inr (m\<lparr>sn_neighbors := sn_neighbors m + j\<rparr>)))
     (\<lambda>tp. net (number_fact w k 1) tp - net (number_fact w (k + j) 1) tp) (at_face, i, k + j)"
proof (rule steps_gap [OF steps_set])
  fix m assume "topo m = (at_face, i, k)"
  moreover have "node_at_face f (m\<lparr>sn_neighbors := x\<rparr>) = node_at_face f m" for f x by (cases f) simp_all
  ultimately show "\<exists>m'. Inr (m\<lparr>sn_neighbors := sn_neighbors m + j\<rparr>) = (Inr m' :: sim_node res) \<and> queued m' = queued m \<and> topo m' = (at_face, i, k + j)"
    by (simp add: topo_def queued_def)
next
  fix tp
  show "told_counter w (at_face, i, k) tp - told_counter w (at_face, i, k + j) tp = net (number_fact w k 1) tp - net (number_fact w (k + j) 1) tp"
    using told_number [of w at_face i "k + j" tp k] by simp
qed

lemma steps_put_face:
  assumes f: "f \<in> set faces" and v: "at_face f = Inr u"
  shows "steps n w (at_face, i, k) (set_sim_node n (put_at_face f v))
     (\<lambda>tp. net (face_fact w f u 1) tp - net (face_fact w f v 1) tp) (at_face(f := Inr v), i, k)"
proof (rule steps_gap [OF steps_set])
  fix m assume m: "topo m = (at_face, i, k)"
  obtain m' where m': "put_at_face f v m = Inr m'" using f put_at_face_ok [of f v m] by (auto simp: set_faces)
  have "(\<lambda>g. node_at_face g m') = at_face(f := Inr v)" using node_at_put [OF m'] m by (auto simp: topo_def)
  then have "topo m' = (at_face(f := Inr v), i, k)" using put_at_face_keeps [OF m'] m by (simp add: topo_def)
  then show "\<exists>m'. put_at_face f v m = Inr m' \<and> queued m' = queued m \<and> topo m' = (at_face(f := Inr v), i, k)"
    using m' put_at_face_keeps [OF m'] by (simp add: queued_def)
next
  fix tp
  show "told_counter w (at_face, i, k) tp - told_counter w (at_face(f := Inr v), i, k) tp = net (face_fact w f u 1) tp - net (face_fact w f v 1) tp"
    using told_face [OF f, of w at_face v i k tp] v by simp
qed

lemma steps_at:
  assumes "\<And>m. topo m = T \<Longrightarrow> steps n w T (h m) d U"
  shows "steps n w T (act_bind (sim_node_at n) h) d U"
proof (rule stepsI)
  fix s assume s: "quiet s" "config (vs_sched s) = config w" "topo (sm_nodes (vs_sched s) n) = T"
  from stepsD [OF assms [OF s(3)] s] show "\<exists>t. act_bind (sim_node_at n) h s = Some (Inr ((), t)) \<and> gap_step n d U s t"
    by (simp add: sim_node_at_def)
qed

section \<open>The handlers\<close>

lemma topo_iff:
  "topo m = (at_face, i, k) \<longleftrightarrow> (\<forall>f. node_at_face f m = at_face f) \<and> sn_instantiated m = i \<and> sn_neighbors m = k"
  by (auto simp: topo_def)

lemma act_bind_lift [simp]: "act_bind (act_lift (Inr x)) h = h x"
  by (simp add: fun_eq_iff)

lemma act_then_return [simp]: "act_then (act_return ()) m = m"
  by (simp add: fun_eq_iff)

lemma steps_vacant: "steps n w T (add_vacant ts n f c) (net (face_fact w f NO_NEIGHBOR c)) T"
  using steps_face [of n w T NO_NEIGHBOR ts f c] by simp

lemma steps_neighbor: "v \<noteq> NO_NEIGHBOR \<Longrightarrow> steps n w T (add_neighbor ts n v f c) (net (face_fact w f v c)) T"
  using steps_face [of n w T v ts f c] by simp

lemmas steps_rules = steps_then steps_return steps_vacant steps_neighbor steps_number steps_set_number steps_put_face

lemma act_when_simps [simp]: "act_when True m = m" "act_when False m = act_return ()"
  by (simp_all add: act_when_def)

lemma connect_face_steps:
  assumes f: "f \<in> set faces" and v: "at_face f = Inr v" and out: "out \<noteq> NO_NEIGHBOR"
  shows "steps n w (at_face, True, k) (connect_face ts n out f) (\<lambda>_. 0)
    (at_face(f := Inr out), True, if v = NO_NEIGHBOR then k + 1 else k)"
proof -
  let ?T = "(at_face, True, k)" and ?U = "\<lambda>k. (at_face(f := Inr out), True, k)"
  note put = steps_put_face [where at_face = at_face, OF f v, of n w True]
  have new: "steps n w ?T (act_then (act_then (add_vacant ts n f (-1)) (add_neighbor_count ts n k (-1)))
      (act_then (set_sim_node n (\<lambda>m. Inr (m\<lparr>sn_neighbors := sn_neighbors m + 1\<rparr>)))
        (act_then (add_neighbor_count ts n (k + 1) 1) (act_then (set_sim_node n (put_at_face f out)) (add_neighbor ts n out f 1)))))
      (\<lambda>_. 0) (?U (k + 1))" if "v = NO_NEIGHBOR"
    by (rule steps_gap, (rule steps_rules put out)+) (simp add: that)
  have other: "steps n w ?T (act_then (add_neighbor ts n v f (-1)) (act_then (set_sim_node n (put_at_face f out)) (add_neighbor ts n out f 1)))
      (\<lambda>_. 0) (?U k)" if "v \<noteq> NO_NEIGHBOR"
    by (rule steps_gap, (rule steps_rules put that out)+) simp
  have same: "steps n w ?T (act_return ()) (\<lambda>_. 0) (?U k)" if "v = out"
    using steps_return [of n w ?T] v that by (simp add: fun_upd_idem)
  show ?thesis
    unfolding connect_face_def by (rule steps_at) (use new other same v in \<open>simp add: topo_iff\<close>)
qed

text \<open>Nothing puts the vacant fact of the face back.\<close>

lemma disconnect_face_steps:
  assumes f: "f \<in> set faces" and v: "at_face f = Inr v" "v \<noteq> NO_NEIGHBOR"
  shows "steps n w (at_face, True, k) (disconnect_face ts n f) (\<lambda>tp. - net (face_fact w f NO_NEIGHBOR 1) tp)
    (at_face(f := Inr NO_NEIGHBOR), True, k - 1)"
proof -
  note put = steps_put_face [where at_face = at_face, OF f v(1), of n w True]
  note number = steps_set_number [of n w at_face True k "- 1", simplified]
  have "steps n w (at_face, True, k) (act_then (add_neighbor_count ts n k (-1))
      (act_then (set_sim_node n (\<lambda>m. Inr (m\<lparr>sn_neighbors := sn_neighbors m - 1\<rparr>)))
        (act_then (add_neighbor_count ts n (k - 1) 1) (act_then (add_neighbor ts n v f (-1)) (set_sim_node n (put_at_face f NO_NEIGHBOR))))))
      (\<lambda>tp. - net (face_fact w f NO_NEIGHBOR 1) tp) (at_face(f := Inr NO_NEIGHBOR), True, k - 1)"
    by (rule steps_gap, (rule steps_then steps_neighbor steps_number number put v)+) simp
  then show ?thesis
    unfolding disconnect_face_def by (intro steps_at) (simp add: topo_iff v)
qed

text \<open>A node that the simulator has not told anything yet.\<close>

lemma connect_face_silent:
  assumes f: "f \<in> set faces" and v: "at_face f = Inr v"
  shows "\<exists>d. steps n w (at_face, False, k) (connect_face ts n out f) d
    (at_face(f := Inr out), False, if v = NO_NEIGHBOR then k + 1 else k)"
proof -
  let ?T = "(at_face, False, k)" and ?U = "\<lambda>k. (at_face(f := Inr out), False, k)"
  note put = steps_put_face [where at_face = at_face, OF f v, of n w False]
  have new: "\<exists>d. steps n w ?T (act_then (act_return ())
      (act_then (set_sim_node n (\<lambda>m. Inr (m\<lparr>sn_neighbors := sn_neighbors m + 1\<rparr>)))
        (act_then (act_return ()) (act_then (set_sim_node n (put_at_face f out)) (act_return ()))))) d (?U (k + 1))"
    by (rule exI) (rule steps_rules put)+
  have other: "\<exists>d. steps n w ?T (act_then (act_return ()) (act_then (set_sim_node n (put_at_face f out)) (act_return ()))) d (?U k)"
    by (rule exI) (rule steps_rules put)+
  have same: "steps n w ?T (act_return ()) (\<lambda>_. 0) (?U k)" if "v = out"
    using steps_return [of n w ?T] v that by (simp add: fun_upd_idem)
  obtain d where "steps n w ?T (if v = NO_NEIGHBOR then act_then (act_return ())
      (act_then (set_sim_node n (\<lambda>m. Inr (m\<lparr>sn_neighbors := sn_neighbors m + 1\<rparr>)))
        (act_then (act_return ()) (act_then (set_sim_node n (put_at_face f out)) (act_return ()))))
      else if v \<noteq> out then act_then (act_return ()) (act_then (set_sim_node n (put_at_face f out)) (act_return ()))
      else act_return ()) d (?U (if v = NO_NEIGHBOR then k + 1 else k))"
    using new other same by (cases "v = NO_NEIGHBOR"; cases "v = out") auto
  then have "steps n w ?T (connect_face ts n out f) d (?U (if v = NO_NEIGHBOR then k + 1 else k))"
    unfolding connect_face_def by (intro steps_at) (auto simp: topo_iff v split: if_splits)
  then show ?thesis by blast
qed

lemma disconnect_face_silent:
  assumes f: "f \<in> set faces" and v: "at_face f = Inr v" "v \<noteq> NO_NEIGHBOR"
  shows "\<exists>d. steps n w (at_face, False, k) (disconnect_face ts n f) d (at_face(f := Inr NO_NEIGHBOR), False, k - 1)"
proof -
  note put = steps_put_face [where at_face = at_face, OF f v(1), of n w False]
  note number = steps_set_number [of n w at_face False k "- 1", simplified]
  obtain d where "steps n w (at_face, False, k) (act_then (act_return ())
      (act_then (set_sim_node n (\<lambda>m. Inr (m\<lparr>sn_neighbors := sn_neighbors m - 1\<rparr>)))
        (act_then (act_return ()) (act_then (add_neighbor ts n v f (-1)) (set_sim_node n (put_at_face f NO_NEIGHBOR))))))
      d (at_face(f := Inr NO_NEIGHBOR), False, k - 1)"
    by (atomize_elim, rule exI) (rule steps_then steps_return steps_neighbor number put v)+
  then have "steps n w (at_face, False, k) (disconnect_face ts n f) d (at_face(f := Inr NO_NEIGHBOR), False, k - 1)"
    unfolding disconnect_face_def by (intro steps_at) (simp add: topo_iff v)
  then show ?thesis by blast
qed


section \<open>Creating a node\<close>

lemma told_inst: "told_counter w (at_face, i, k) tp = told_counter w (at_face, j, k) tp"
  by (simp add: told_counter_def)

definition bare :: "face \<Rightarrow> node_val res" where
  "bare f = (if f = INVALID_FACE then Inl Assert_Failed else Inr NO_NEIGHBOR)"

lemma topo_new: "topo (new_sim_node rt) = (bare, False, 0)"
proof -
  have "node_at_face f (new_sim_node rt) = bare f" for f by (cases f) (simp_all add: new_sim_node_def bare_def)
  then show ?thesis by (simp add: topo_iff) (simp add: new_sim_node_def)
qed

lemma steps_vacants:
  "steps n w T (act_each (\<lambda>f. add_vacant ts n f 1) fs) (\<lambda>tp. \<Sum>f \<leftarrow> fs. net (face_fact w f NO_NEIGHBOR 1) tp) T"
proof (induction fs)
  case Nil
  show ?case unfolding act_each.simps list.map sum_list.Nil by (rule steps_return)
next
  case (Cons f fs)
  from steps_then [OF steps_vacant Cons] show ?case by simp
qed

lemma told_bare:
  "told_counter w (bare, i, 0) tp = (\<Sum>f \<leftarrow> faces. net (face_fact w f NO_NEIGHBOR 1) tp) + net (number_fact w 0 1) tp"
proof -
  have "(\<Sum>f \<in> set faces. net (face_fact w f (face_value (bare f)) 1) tp) = (\<Sum>f \<in> set faces. net (face_fact w f NO_NEIGHBOR 1) tp)"
    by (rule sum.cong) (auto simp: bare_def)
  moreover have "distinct faces" by (simp add: faces_def)
  ultimately show ?thesis by (simp add: told_counter_def sum_list_distinct_conv_sum_set)
qed

lemma tell_new_node:
  "steps n w (bare, False, 0) (act_then (set_sim_node n (\<lambda>m. Inr (m\<lparr>sn_instantiated := True\<rparr>)))
     (act_then (act_each (\<lambda>f. add_vacant ts n f 1) faces) (add_neighbor_count ts n 0 1))) (told_counter w (bare, True, 0)) (bare, True, 0)"
proof -
  have "steps n w (bare, False, 0) (set_sim_node n (\<lambda>m. Inr (m\<lparr>sn_instantiated := True\<rparr>)))
      (\<lambda>tp. told_counter w (bare, False, 0) tp - told_counter w (bare, True, 0) tp) (bare, True, 0)"
  proof (rule steps_set)
    fix m assume "topo m = (bare, False, 0)"
    moreover have "node_at_face f (m\<lparr>sn_instantiated := True\<rparr>) = node_at_face f m" for f by (cases f) simp_all
    ultimately show "\<exists>m'. Inr (m\<lparr>sn_instantiated := True\<rparr>) = (Inr m' :: sim_node res) \<and> queued m' = queued m \<and> topo m' = (bare, True, 0)"
      by (simp add: topo_iff queued_def)
  qed
  from steps_then [OF this steps_then [OF steps_vacants steps_number]] show ?thesis
    by (rule steps_gap) (simp add: told_bare)
qed

lemma init_node_adds:
  assumes q: "quiet s" and p: "get_init_predicate (env_prog env) = Inr (p, prog)"
  shows "\<exists>t. init_node env (sim_ops u l) n s = Some (Inr ((), t)) \<and> adds (at_node n {#(new_tuple p, 1)#}) s t"
proof -
  obtain r h1 where h1: "alloc_tuple (new_tuple p) (vs_objs s) = (r, h1)" by fastforce
  obtain b h2 where h2: "alloc_stuple r 1 h1 = (b, h2)" by fastforce
  let ?t = "s\<lparr>vs_objs := h2, vs_sched := put_sim_node n (insert_stamped 0 True b (sm_nodes (vs_sched s) n)) (vs_sched s)\<rparr>"
  have c: "create_tuple (new_tuple p) s = Some (Inr (r, s\<lparr>vs_objs := h1\<rparr>))" using h1 by (rule create_run)
  have d: "create_stuple r 1 (s\<lparr>vs_objs := h1\<rparr>) = Some (Inr (b, s\<lparr>vs_objs := h2\<rparr>))"
    using h2 create_run(2) [of r 1 "s\<lparr>vs_objs := h1\<rparr>" b h2] by simp
  have "init_node env (sim_ops u l) n s = Some (Inr ((), ?t))"
    using q p c d by (simp add: init_node_def sched_clocked_def sched_update_run sim_ops_def sim_new_work_def add_received_def quiet_def Let_def)
  moreover have "store_ok s" using q by (simp add: quiet_def)
  ultimately show ?thesis using new_fact_adds [OF _ h1 h2] by blast
qed

lemma create_sim_node_tells:
  assumes q: "quiet s" and p: "get_init_predicate (env_prog env) = Inr (p, prog)"
    and c: "create_node_id (env_prog env) i (vs_db s) = Inr (nd, db)"
  shows "\<exists>t. create_sim_node env ts i s = Some (Inr ((), t)) \<and> quiet t \<and> config (vs_sched t) = config (vs_sched s) \<and> vs_db t = db \<and>
    (\<forall>k. k \<noteq> i \<longrightarrow> topo (sm_nodes (vs_sched t) k) = topo (sm_nodes (vs_sched s) k) \<and> gap t k = gap s k) \<and>
    topo (sm_nodes (vs_sched t) i) = (bare, True, 0) \<and> gap t i = net {#(new_tuple p, 1)#}"
proof -
  let ?w = "vs_sched s"
  let ?s = "s\<lparr>vs_db := db, vs_sched := put_sim_node i (new_sim_node (sm_rtype ?w i)) ?w\<rparr>"
  have conf: "config (vs_sched ?s) = config ?w" by (simp add: config_def put_sim_node_def)
  have qs: "quiet ?s" using q by (auto simp: quiet_def store_ok_def preds_ok_def put_sim_node_def queued_def new_sim_node_def)
  obtain s1 where i1: "init_node env (sim_ops (vs_sim_use ?s) (vs_sim_limit ?s)) i ?s = Some (Inr ((), s1))"
    and a1: "adds (at_node i {#(new_tuple p, 1)#}) ?s s1" using init_node_adds [OF qs p] by blast
  have topo0: "topo (sm_nodes (vs_sched ?s) i) = (bare, False, 0)" by (simp add: put_sim_node_def topo_new)
  have g1: "gap_step i (net {#(new_tuple p, 1)#}) (bare, False, 0) ?s s1" using gap_adds [OF qs a1] topo0 by simp
  then have s1: "quiet s1" "config (vs_sched s1) = config ?w" "topo (sm_nodes (vs_sched s1) i) = (bare, False, 0)"
    using conf by (simp_all add: gap_step_def)
  obtain t where t: "act_then (set_sim_node i (\<lambda>m. Inr (m\<lparr>sn_instantiated := True\<rparr>)))
     (act_then (act_each (\<lambda>f. add_vacant ts i f 1) faces) (add_neighbor_count ts i 0 1)) s1 = Some (Inr ((), t))"
    and g2: "gap_step i (told_counter ?w (bare, True, 0)) (bare, True, 0) s1 t" using stepsD [OF tell_new_node s1] by blast
  have thr: "\<not> sm_thread_mode (vs_sched s1)" using s1(1) by (simp add: quiet_def)
  have "create_sim_node env ts i s = Some (Inr ((), t))"
    using c i1 t thr by (simp add: create_sim_node_def)
  moreover have g: "gap_step i (\<lambda>tp. net {#(new_tuple p, 1)#} tp + told_counter ?w (bare, True, 0) tp) (bare, True, 0) ?s t"
    using gap_step_trans [OF g1 g2] .
  moreover have "node_facts ?s i = {#}" by (simp add: node_facts_def put_sim_node_def queued_def new_sim_node_def)
  then have "gap ?s i tp = - told_counter ?w (bare, True, 0) tp" for tp
    unfolding gap_def topo0 told_config [OF conf] told_inst [of ?w bare False 0 tp True] by simp
  moreover have "node_facts ?s k = node_facts s k" if "k \<noteq> i" for k using that by (simp add: node_facts_def put_sim_node_def)
  then have "gap ?s k tp = gap s k tp" if "k \<noteq> i" for k tp
    using that told_config [OF conf] by (simp add: gap_def put_sim_node_def)
  moreover have "topo (sm_nodes (vs_sched t) i) = (bare, True, 0)" using g by (simp add: gap_step_def)
  ultimately show ?thesis using conf
    by (intro exI [of _ t]) (auto simp: gap_step_def put_sim_node_def fun_eq_iff)
qed


section \<open>Sequences of commands\<close>

datatype topo_command =
    Create nat "64 word" node_val
  | Connect nat node_val node_val face
  | Disconnect nat node_val face

fun run_command :: "code_env \<Rightarrow> topo_command \<Rightarrow> (sim vstate, unit) act" where
  "run_command env (Create ts num start) = handle_create_n_nodes env ts num start"
| "run_command env (Connect ts n out f) = handle_add_neighbor ts n out f"
| "run_command env (Disconnect ts n f) = handle_remove_neighbor ts n f"

text \<open>The faces a node lost a neighbor at since it was created.\<close>

fun lost_after :: "topo_command \<Rightarrow> (node_val \<Rightarrow> face list) \<Rightarrow> node_val \<Rightarrow> face list" where
  "lost_after (Create ts num start) R = fold (\<lambda>i R. R(start + of_nat i := [])) [0..<unat num] R"
| "lost_after (Connect ts n out f) R = R"
| "lost_after (Disconnect ts n f) R = R(n := f # R n)"

definition lost_faces :: "topo_command list \<Rightarrow> node_val \<Rightarrow> face list" where
  "lost_faces cs = fold lost_after cs (\<lambda>_. [])"

fun command_ok :: "topo_command \<Rightarrow> bool" where
  "command_ok (Connect ts n out f) \<longleftrightarrow> out \<noteq> NO_NEIGHBOR"
| "command_ok _ \<longleftrightarrow> True"

definition informed :: "sim \<Rightarrow> predicate \<Rightarrow> (node_val \<Rightarrow> face list) \<Rightarrow> sim vstate \<Rightarrow> bool" where
  "informed w q R s \<longleftrightarrow> quiet s \<and> config (vs_sched s) = config w \<and> (\<forall>n. counter_ok (topo (sm_nodes (vs_sched s) n))) \<and>
     (\<forall>n tp. sn_instantiated (sm_nodes (vs_sched s) n) \<longrightarrow> tpl_pred tp \<noteq> q \<longrightarrow>
        gap s n tp = - (\<Sum>f \<leftarrow> R n. net (face_fact w f NO_NEIGHBOR 1) tp))"

lemma informed_create:
  assumes i: "informed w q R s" and p: "get_init_predicate (env_prog env) = Inr (q, prog)"
    and r: "create_sim_node env ts i s = Some (Inr ((), t))"
  shows "informed w q (R(i := [])) t"
proof -
  obtain nd db where c: "create_node_id (env_prog env) i (vs_db s) = Inr (nd, db)"
    using r by (cases "create_node_id (env_prog env) i (vs_db s)") (auto simp: create_sim_node_def)
  have "quiet s" using i by (simp add: informed_def)
  from create_sim_node_tells [OF this p c, of ts] r
  have t: "quiet t" "config (vs_sched t) = config (vs_sched s)"
    "\<And>k. k \<noteq> i \<Longrightarrow> topo (sm_nodes (vs_sched t) k) = topo (sm_nodes (vs_sched s) k) \<and> gap t k = gap s k"
    "topo (sm_nodes (vs_sched t) i) = (bare, True, 0)" "gap t i = net {#(new_tuple q, 1)#}" by auto
  have bare: "counter_ok (bare, True, 0)" by (simp add: counter_ok_def occupied_def faces_def bare_def)
  have "counter_ok (topo (sm_nodes (vs_sched t) k))" for k
    using t(3) [of k] t(4) bare i by (cases "k = i") (simp_all add: informed_def)
  note counters = this
  have "net {#(new_tuple q, 1)#} tp = 0" if "tpl_pred tp \<noteq> q" for tp
    using that by (auto simp: net_def new_tuple_def)
  with t i counters show ?thesis by (auto simp: informed_def topo_def)
qed

lemma informed_creates:
  assumes p: "get_init_predicate (env_prog env) = Inr (q, prog)"
  shows "informed w q R s \<Longrightarrow> act_each (\<lambda>i. create_sim_node env ts (start + of_nat i)) is s = Some (Inr ((), t)) \<Longrightarrow>
    informed w q (fold (\<lambda>i R. R(start + of_nat i := [])) is R) t"
proof (induction "is" arbitrary: R s)
  case Nil
  then show ?case by simp
next
  case (Cons i "is")
  from Cons.prems(2) obtain u where "create_sim_node env ts (start + of_nat i) s = Some (Inr ((), u))"
    and u: "act_each (\<lambda>i. create_sim_node env ts (start + of_nat i)) is u = Some (Inr ((), t))"
    by (auto elim!: act_then_InrE)
  from Cons.IH [OF informed_create [OF Cons.prems(1) p this(1)] u] show ?case by simp
qed

lemma informed_gap_step:
  assumes "informed w q R s" and "gap_step n d (at_face, i, k) s t"
    and "counter_ok (at_face, i, k)"
    and "\<And>tp. i \<Longrightarrow> sn_instantiated (sm_nodes (vs_sched s) n) \<and> d tp = - (\<Sum>f \<leftarrow> fs. net (face_fact w f NO_NEIGHBOR 1) tp)"
  shows "informed w q (R(n := fs @ R n)) t"
proof -
  have T: "topo (sm_nodes (vs_sched t) m) = (if m = n then (at_face, i, k) else topo (sm_nodes (vs_sched s) m))" for m
    using assms(2) by (simp add: gap_step_def)
  have "sn_instantiated (sm_nodes (vs_sched t) m) = (if m = n then i else sn_instantiated (sm_nodes (vs_sched s) m))" for m
    using T [of m] by (auto simp: topo_def split: if_splits)
  then show ?thesis using assms by (auto simp: informed_def gap_step_def)
qed

lemma find_sim_node_run: "find_sim_node n s = Some (Inr ((), t)) \<Longrightarrow> t = s"
  by (auto simp: find_sim_node_def act_read_def res_bind_Inr_iff elim!: act_bind_InrE)

lemma node_face:
  assumes "act_bind (sim_node_at n) (\<lambda>m. act_bind (act_lift (node_at_face f m)) (h m)) s = Some (Inr y)"
  shows "f \<in> set faces" and "\<exists>v. node_at_face f (sm_nodes (vs_sched s) n) = Inr v"
proof -
  have "\<exists>v. node_at_face f (sm_nodes (vs_sched s) n) = Inr v"
    using assms by (cases "node_at_face f (sm_nodes (vs_sched s) n)") (auto simp: sim_node_at_def)
  then show "f \<in> set faces" and "\<exists>v. node_at_face f (sm_nodes (vs_sched s) n) = Inr v"
    by (auto simp: set_faces)
qed

lemma informed_connect:
  assumes i: "informed w q R s" and out: "out \<noteq> NO_NEIGHBOR" and r: "connect_face ts n out f s = Some (Inr ((), t))"
  shows "informed w q R t"
proof -
  obtain at_face inst k where T: "topo (sm_nodes (vs_sched s) n) = (at_face, inst, k)" by (metis prod_cases3)
  obtain v where f: "f \<in> set faces" and "node_at_face f (sm_nodes (vs_sched s) n) = Inr v"
    using node_face [OF r [unfolded connect_face_def]] by blast
  then have v: "at_face f = Inr v" using T by (simp add: topo_iff)
  have s: "quiet s" "config (vs_sched s) = config w" using i by (simp_all add: informed_def)
  let ?k = "if v = NO_NEIGHBOR then k + 1 else k"
  have "counter_ok (at_face, inst, k)" using i T unfolding informed_def by metis
  with occupied_update [OF f, of at_face out] v out have counted: "counter_ok (at_face(f := Inr out), inst, ?k)"
    by (auto simp: counter_ok_def split: if_splits)
  have "\<exists>d. (inst \<longrightarrow> d = (\<lambda>_. 0)) \<and> gap_step n d (at_face(f := Inr out), inst, ?k) s t"
  proof (cases inst)
    case True
    with connect_face_steps [where at_face = at_face, OF f v out, of n w k ts] stepsD [OF _ s] T r show ?thesis by fastforce
  next
    case False
    with connect_face_silent [where at_face = at_face, OF f v, of n w k ts out] stepsD [OF _ s] T r show ?thesis by fastforce
  qed
  then obtain d where "inst \<longrightarrow> d = (\<lambda>_. 0)" "gap_step n d (at_face(f := Inr out), inst, ?k) s t" by blast
  from informed_gap_step [OF i this(2) counted, of "[]"] this(1) T show ?thesis by (simp add: topo_iff)
qed

lemma informed_disconnect:
  assumes i: "informed w q R s" and r: "disconnect_face ts n f s = Some (Inr ((), t))"
  shows "informed w q (R(n := f # R n)) t"
proof -
  obtain at_face inst k where T: "topo (sm_nodes (vs_sched s) n) = (at_face, inst, k)" by (metis prod_cases3)
  obtain v where f: "f \<in> set faces" and nf: "node_at_face f (sm_nodes (vs_sched s) n) = Inr v"
    using node_face [OF r [unfolded disconnect_face_def]] by blast
  then have v: "at_face f = Inr v" using T by (simp add: topo_iff)
  have ne: "v \<noteq> NO_NEIGHBOR" using r nf by (auto simp: disconnect_face_def sim_node_at_def)
  have s: "quiet s" "config (vs_sched s) = config w" using i by (simp_all add: informed_def)
  have ok: "counter_ok (at_face, inst, k)" using i T unfolding informed_def by metis
  have "occupied at_face = Suc (occupied (at_face(f := Inr NO_NEIGHBOR)))" using occupied_update [OF f, of at_face NO_NEIGHBOR] v ne by simp
  with ok have counted: "counter_ok (at_face(f := Inr NO_NEIGHBOR), inst, k - 1)" by (simp add: counter_ok_def)
  have "\<exists>d. (inst \<longrightarrow> d = (\<lambda>tp. - net (face_fact w f NO_NEIGHBOR 1) tp)) \<and> gap_step n d (at_face(f := Inr NO_NEIGHBOR), inst, k - 1) s t"
  proof (cases inst)
    case True
    with stepsD [OF disconnect_face_steps [where at_face = at_face, OF f v ne, of n w k ts] s] T r show ?thesis by fastforce
  next
    case False
    with disconnect_face_silent [where at_face = at_face, OF f v ne, of n w k ts] stepsD [OF _ s] T r show ?thesis by fastforce
  qed
  then obtain d where "inst \<longrightarrow> d = (\<lambda>tp. - net (face_fact w f NO_NEIGHBOR 1) tp)"
    "gap_step n d (at_face(f := Inr NO_NEIGHBOR), inst, k - 1) s t" by blast
  from informed_gap_step [OF i this(2) counted, of "[f]"] this(1) T show ?thesis by (simp add: topo_iff)
qed

lemma informed_command:
  assumes "informed w q R s" and "command_ok c" and p: "get_init_predicate (env_prog env) = Inr (q, prog)"
    and "run_command env c s = Some (Inr ((), t))"
  shows "informed w q (lost_after c R) t"
proof (cases c)
  case (Create ts num start)
  with assms informed_creates [OF p assms(1)] show ?thesis by (simp add: handle_create_n_nodes_def)
next
  case (Connect ts n out f)
  with assms obtain u where "find_sim_node n s = Some (Inr ((), u))" "connect_face ts n out f u = Some (Inr ((), t))"
    by (auto simp: handle_add_neighbor_def elim!: act_then_InrE)
  with find_sim_node_run informed_connect [OF assms(1)] assms(2) Connect show ?thesis by fastforce
next
  case (Disconnect ts n f)
  with assms obtain u where "find_sim_node n s = Some (Inr ((), u))" "disconnect_face ts n f u = Some (Inr ((), t))"
    by (auto simp: handle_remove_neighbor_def elim!: act_then_InrE)
  with find_sim_node_run informed_disconnect [OF assms(1)] Disconnect show ?thesis by fastforce
qed

lemma informed_commands:
  assumes p: "get_init_predicate (env_prog env) = Inr (q, prog)"
  shows "informed w q R s \<Longrightarrow> list_all command_ok cs \<Longrightarrow> act_each (run_command env) cs s = Some (Inr ((), t)) \<Longrightarrow>
    informed w q (fold lost_after cs R) t"
proof (induction cs arbitrary: R s)
  case Nil
  then show ?case by simp
next
  case (Cons c cs)
  from Cons.prems(3) obtain u where u: "run_command env c s = Some (Inr ((), u))" "act_each (run_command env) cs u = Some (Inr ((), t))"
    by (auto elim!: act_then_InrE)
  have "informed w q (lost_after c R) u" using informed_command [OF Cons.prems(1) _ p u(1)] Cons.prems(2) by simp
  from Cons.IH [OF this _ u(2)] Cons.prems(2) show ?case by simp
qed


text \<open>C38: after any commands that create nodes, connect and disconnect faces, without threads, the
  facts about neighbors, free faces and the number of neighbors that wait at a node,
  assertions less retractions, are exactly those its faces say (the number is that of the faces
  that have a neighbor), except that for each time a face was disconnected one \<open>vacant\<close> fact of
  the face is missing.\<close>

theorem neighborhood_facts_follow_commands:
  assumes "quiet s" and "\<forall>n. \<not> sn_instantiated (sm_nodes (vs_sched s) n) \<and> counter_ok (topo (sm_nodes (vs_sched s) n))"
    and "get_init_predicate (env_prog env) = Inr (q, prog)" and "list_all command_ok cs"
    and "act_each (run_command env) cs s = Some (Inr ((), t))"
    and "sn_instantiated (sm_nodes (vs_sched t) n)" and "tpl_pred tp \<noteq> q"
  shows "net (node_facts t n) tp = told (vs_sched t) (\<lambda>f. node_at_face f (sm_nodes (vs_sched t) n)) tp -
    (\<Sum>f \<leftarrow> lost_faces cs n. net (face_fact (vs_sched t) f NO_NEIGHBOR 1) tp)"
proof -
  have "informed (vs_sched s) q (\<lambda>_. []) s" using assms(1,2) by (simp add: informed_def)
  from informed_commands [OF assms(3) this assms(4,5)] have "informed (vs_sched s) q (lost_faces cs) t"
    by (simp add: lost_faces_def)
  then have "config (vs_sched t) = config (vs_sched s)" and "counter_ok (topo (sm_nodes (vs_sched t) n))"
    and "gap t n tp = - (\<Sum>f \<leftarrow> lost_faces cs n. net (face_fact (vs_sched s) f NO_NEIGHBOR 1) tp)"
    using assms(6,7) by (simp_all add: informed_def)
  then show ?thesis using facts_config [of "vs_sched t" "vs_sched s"] told_counter_right [of "topo (sm_nodes (vs_sched t) n)"]
    by (simp add: gap_def topo_def)
qed

section \<open>Two nodes that meet and part\<close>

definition named_pred :: "predicate_id \<Rightarrow> byte list \<Rightarrow> field_type list \<Rightarrow> predicate" where
  "named_pred i name types = edge_pred\<lparr>pred_id := i, pred_name := name, pred_types := types\<rparr>"

definition init_pred :: predicate where "init_pred = named_pred 0 init_name [FIELD_NODE]"
definition neighbor_pred :: predicate where "neighbor_pred = named_pred 1 [0x6e] [FIELD_NODE, FIELD_INT]"
definition number_pred :: predicate where "number_pred = named_pred 2 [0x63] [FIELD_INT]"
definition vacant_pred :: predicate where "vacant_pred = named_pred 3 [0x76] [FIELD_INT]"

lemmas example_preds = named_pred_def init_pred_def neighbor_pred_def number_pred_def vacant_pred_def

definition sim_program :: program where
  "sim_program =
     no_rules\<lparr>prog_predicates := [init_pred, neighbor_pred, number_pred, vacant_pred],
       prog_affected := [[], [], [], []], prog_code := [[], [], [], []]\<rparr>"

definition sim_env :: code_env where
  "sim_env = example_env sim_program []"

definition sim_start :: "sim vstate" where
  "sim_start = rest_state (new_database 0)
     ((new_sim (\<lambda>_. HEAP_INT_ASC) (\<lambda>k. k) unat (\<lambda>_. 0))\<lparr>sm_neighbor := Some neighbor_pred,
        sm_neighbor_count := Some number_pred, sm_vacant := Some vacant_pred\<rparr>)"

definition meet_and_part :: "topo_command list" where
  "meet_and_part = [Create 0 1 0, Connect 1 0 1 TOP, Disconnect 2 0 TOP]"

lemma sim_start_quiet: "quiet sim_start"
    "\<forall>n. \<not> sn_instantiated (sm_nodes (vs_sched sim_start) n) \<and> counter_ok (topo (sm_nodes (vs_sched sim_start) n))"
proof -
  have "preds_ok (vs_sched sim_start)" by (simp add: sim_start_def rest_state_def new_sim_def preds_ok_def example_preds edge_pred_def)
  then show "quiet sim_start" by (simp add: quiet_def store_ok_def sim_start_def rest_state_def new_sim_def new_sim_node_def queued_def)
  have "counter_ok (bare, False, 0)" by (simp add: counter_ok_def occupied_def faces_def bare_def)
  then show "\<forall>n. \<not> sn_instantiated (sm_nodes (vs_sched sim_start) n) \<and> counter_ok (topo (sm_nodes (vs_sched sim_start) n))"
    using topo_new by (simp add: sim_start_def rest_state_def new_sim_def) (simp add: new_sim_node_def)
qed

lemma sim_init_pred: "get_init_predicate (env_prog sim_env) = Inr (init_pred, sim_program\<lparr>prog_init := Some 0\<rparr>)"
  by (simp add: sim_env_def example_env_def get_init_predicate_def get_predicate_def num_predicates_def sim_program_def example_preds no_rules_def)

lemma find_sim_node_ok: "find_node n (vs_db s) = Inr nd \<Longrightarrow> find_sim_node n s = Some (Inr ((), s))"
  by (simp add: find_sim_node_def)

lemma meet_and_part_runs:
  "\<exists>t. act_each (run_command sim_env) meet_and_part sim_start = Some (Inr ((), t)) \<and> config (vs_sched t) = config (vs_sched sim_start) \<and>
     (\<exists>k. topo (sm_nodes (vs_sched t) 0) = (bare, True, k))"
proof -
  note p = sim_init_pred
  obtain nd db where c: "create_node_id (env_prog sim_env) 0 (vs_db sim_start) = Inr (nd, db)" and db: "\<exists>n. find_node 0 db = Inr n"
    by (simp add: create_node_id_def sim_start_def rest_state_def new_database_def find_node_def put_node_def)
  from create_sim_node_tells [OF sim_start_quiet(1) p c, of 0] obtain t where t: "create_sim_node sim_env 0 0 sim_start = Some (Inr ((), t))"
    "quiet t" "config (vs_sched t) = config (vs_sched sim_start)" "vs_db t = db" "topo (sm_nodes (vs_sched t) 0) = (bare, True, 0)" by blast
  have f: "TOP \<in> set faces" by (simp add: faces_def)
  have "bare TOP = Inr NO_NEIGHBOR" "(1 :: node_val) \<noteq> NO_NEIGHBOR" by (simp_all add: bare_def NO_NEIGHBOR_def)
  from stepsD [OF connect_face_steps [where at_face = bare, OF f this, of 0 "vs_sched sim_start" 0 1] t(2,3,5)]
  obtain k u where u: "connect_face 1 0 1 TOP t = Some (Inr ((), u))" "gap_step 0 (\<lambda>_. 0) (bare(TOP := Inr 1), True, k) t u" by blast
  then have u': "quiet u" "config (vs_sched u) = config (vs_sched sim_start)" "vs_db u = db"
    "topo (sm_nodes (vs_sched u) 0) = (bare(TOP := Inr 1), True, k)" using t by (simp_all add: gap_step_def)
  have "(bare(TOP := Inr 1)) TOP = Inr 1" "(1 :: node_val) \<noteq> NO_NEIGHBOR" by (simp_all add: NO_NEIGHBOR_def)
  from stepsD [OF disconnect_face_steps [where at_face = "bare(TOP := Inr 1)", OF f this] u'(1,2,4)]
  obtain d v where v: "disconnect_face 2 0 TOP u = Some (Inr ((), v))"
    "gap_step 0 d (bare(TOP := Inr 1, TOP := Inr NO_NEIGHBOR), True, k - 1) u v" by blast
  have "bare(TOP := Inr 1, TOP := Inr NO_NEIGHBOR) = bare" by (auto simp: bare_def)
  then have "config (vs_sched v) = config (vs_sched sim_start)" "topo (sm_nodes (vs_sched v) 0) = (bare, True, k - 1)"
    using v(2) u' by (simp_all add: gap_step_def)
  moreover have "act_each (run_command sim_env) meet_and_part sim_start = Some (Inr ((), v))"
    using t u(1) u' v(1) db
    by (auto simp: meet_and_part_def handle_create_n_nodes_def handle_add_neighbor_def handle_remove_neighbor_def find_sim_node_ok)
  ultimately show ?thesis by blast
qed

text \<open>After they part the face is free again, and nothing says so; the number of neighbors is 0 again.\<close>

theorem neighborhood_facts_follow_commands_witness:
  "\<exists>t. act_each (run_command sim_env) meet_and_part sim_start = Some (Inr ((), t)) \<and>
     node_at_face TOP (sm_nodes (vs_sched t) 0) = Inr NO_NEIGHBOR \<and> net (node_facts t 0) (vacant_fact vacant_pred TOP) = 0 \<and>
     net (node_facts t 0) (count_fact number_pred 0) = 1"
proof -
  obtain t k where t: "act_each (run_command sim_env) meet_and_part sim_start = Some (Inr ((), t))"
    "config (vs_sched t) = config (vs_sched sim_start)" "topo (sm_nodes (vs_sched t) 0) = (bare, True, k)"
    using meet_and_part_runs by blast
  note p = sim_init_pred
  have ok: "list_all command_ok meet_and_part" by (simp add: meet_and_part_def NO_NEIGHBOR_def)
  have inst: "sn_instantiated (sm_nodes (vs_sched t) 0)" and at: "(\<lambda>f. node_at_face f (sm_nodes (vs_sched t) 0)) = bare"
    using t(3) by (auto simp: topo_iff)
  have lost: "lost_faces meet_and_part 0 = [TOP]" by (simp add: lost_faces_def meet_and_part_def)
  have preds: "sm_vacant (vs_sched t) = Some vacant_pred" "sm_neighbor_count (vs_sched t) = Some number_pred"
    using t(2) by (simp_all add: config_def sim_start_def rest_state_def)
  have facts: "net (node_facts t 0) tp = told (vs_sched t) bare tp - net (face_fact (vs_sched t) TOP NO_NEIGHBOR 1) tp"
    if "tpl_pred tp \<noteq> init_pred" for tp
    using neighborhood_facts_follow_commands [OF sim_start_quiet p ok t(1) inst that] by (simp add: at lost)
  have other: "tpl_pred (vacant_fact vacant_pred TOP) \<noteq> init_pred" "tpl_pred (count_fact number_pred 0) \<noteq> init_pred"
    "vacant_pred \<noteq> number_pred" by (simp_all add: example_preds edge_pred_def)
  have differ: "vacant_fact vacant_pred f \<noteq> count_fact number_pred c" "count_fact number_pred c \<noteq> vacant_fact vacant_pred f" for f c
    using other(3) by (auto simp: vacant_fact_def count_fact_def)
  have "occupied bare = 0" by (simp add: occupied_def faces_def bare_def)
  then have "net (node_facts t 0) (vacant_fact vacant_pred TOP) = 0" "net (node_facts t 0) (count_fact number_pred 0) = 1"
    using facts [OF other(1)] facts [OF other(2)] preds
    by (simp_all add: told_def face_fact_def number_fact_def faces_def bare_def differ)
  moreover have "node_at_face TOP (sm_nodes (vs_sched t) 0) = bare TOP" using at by (rule fun_cong)
  ultimately show ?thesis using t(1) by (auto simp: bare_def)
qed

end
