(* ===== verification/Sim_Relay.thy ===== *)
theory Sim_Relay
  imports Sim_Facts
begin

text \<open>
  A tuple on its way from one node to another through the simulator outside: the message
  \<open>send_send_message\<close> writes, sent back with the command \<open>RECEIVE_MESSAGE\<close> and otherwise as
  it is, and what \<open>handle_receive_message\<close> makes of it.
\<close>

section \<open>Words of a message\<close>

lemma message_bytes_Cons: "message_bytes_of (w # ws) = le_bytes 8 w @ message_bytes_of ws"
  by (simp add: message_bytes_of_def)

lemma length_message_bytes [simp]: "length (message_bytes_of ws) = 8 * length ws"
  by (induction ws) (simp_all add: message_bytes_of_def)

lemma reply_word_bytes: "i < length ws \<Longrightarrow> reply_word i (message_bytes_of ws @ rest) = ws ! i"
proof (induction ws arbitrary: i)
  case (Cons w ws)
  show ?case
  proof (cases i)
    case 0
    then show ?thesis by (simp add: reply_word_def message_bytes_Cons le_word_le_bytes_full del: le_bytes.simps)
  next
    case (Suc j)
    with Cons.IH [of j] Cons.prems show ?thesis by (simp add: reply_word_def message_bytes_Cons del: le_bytes.simps)
  qed
qed simp

text \<open>What the simulator answers to \<open>SEND_MESSAGE\<close>.\<close>

definition relay :: "message \<Rightarrow> message" where
  "relay msg = take 8 msg @ le_bytes 8 RECEIVE_MESSAGE @ drop 16 msg"

lemma relay_bytes: "relay (message_bytes_of (a # b # ws) @ rest) = message_bytes_of (a # RECEIVE_MESSAGE # ws) @ rest"
  by (simp add: relay_def message_bytes_Cons del: le_bytes.simps)

section \<open>The body\<close>

definition stuple_bytes :: "simple_tuple \<Rightarrow> byte list" where
  "stuple_bytes st = le_bytes 2 (st_count st) @ tuple_bytes (st_data st)"

lemma simple_tuple_pack_packed:
  assumes "simple_tuple_pack st buf pos = Inr (buf', pos')"
  shows "list_all wire_type (tpl_fields (st_data st)) \<and> packed (stuple_bytes st) buf pos buf' pos'"
proof -
  obtain b p where b: "packed (le_bytes 2 (st_count st)) buf pos b p" "tuple_pack (st_data st) b p = Inr (buf', pos')"
    using assms by (auto simp: simple_tuple_pack_def res_bind_Inr_iff pack_bytes_Inr_iff)
  with tuple_pack_packed [OF b(2)] show ?thesis unfolding stuple_bytes_def packed_append_iff by blast
qed

lemma simple_tuple_unpack_holds:
  assumes "wf_tuple (st_data st)" and "prog_has prog (tpl_pred (st_data st))" and "list_all wire_type (tpl_fields (st_data st))"
    and "list_all short_list (tpl_fields (st_data st))" and "holds_at (stuple_bytes st) buf pos"
  shows "\<exists>pos'. simple_tuple_unpack prog buf pos = Inr (new_simple_tuple (st_data st) (st_count st), pos')"
proof -
  have h: "holds_at (le_bytes 2 (st_count st)) buf pos" "holds_at (tuple_bytes (st_data st)) buf (pos + 2)"
    using assms(5) by (simp_all add: stuple_bytes_def holds_at_append del: le_bytes.simps)
  from unpack_bytes_holds [OF h(1)] tuple_unpack_holds [OF assms(1-4) h(2)] show ?thesis
    by (simp add: simple_tuple_unpack_def le_word_le_bytes_full del: le_bytes.simps)
qed

text \<open>The message is the header and the body.\<close>

definition send_header :: "nat \<Rightarrow> nat \<Rightarrow> node_val \<Rightarrow> face \<Rightarrow> 64 word list" where
  "send_header len ts src f = [of_nat (32 + len), SEND_MESSAGE, of_nat ts, ucast src, word_of_face f]"

lemma send_message_parts:
  assumes "send_message_bytes ts src f st = Inr msg"
  shows "\<exists>len. len = length (stuple_bytes st) \<and> len \<le> 472 \<and> msg = message_bytes_of (send_header len ts src f) @ stuple_bytes st \<and>
    list_all wire_type (tpl_fields (st_data st))"
proof -
  obtain len where len: "simple_tuple_storage_size st = Inr len" "len \<le> 472"
    and pk: "simple_tuple_pack st (message_bytes_of (send_header len ts src f) @ replicate len 0) 40 = Inr (msg, 40 + len)"
    using assms by (auto simp: send_message_bytes_def Let_def BUFFER_BYTES_def send_header_def res_bind_Inr_iff split: if_splits)
  from simple_tuple_pack_packed [OF pk]
  have w: "list_all wire_type (tpl_fields (st_data st))" and p: "packed (stuple_bytes st)
      (message_bytes_of (send_header len ts src f) @ replicate len 0) 40 msg (40 + len)" by auto
  then have "len = length (stuple_bytes st)" "msg = message_bytes_of (send_header len ts src f) @ stuple_bytes st"
    by (auto simp: packed_def send_header_def)
  with len(2) w show ?thesis by blast
qed

section \<open>Arrival\<close>

definition message_target :: "node_val \<Rightarrow> node_val \<Rightarrow> sim \<Rightarrow> node_val" where
  "message_target src n w = (if get_face n (sm_nodes w src) = INVALID_FACE then src else n)"

lemma receive_run:
  assumes "\<not> sm_thread_mode (vs_sched s)" and "find_node src (vs_db s) = Inr nd"
    and "find_node (message_target src n (vs_sched s)) (vs_db s) = Inr nd'"
    and "simple_tuple_unpack (prog_predicates (env_prog env)) buf 40 = Inr (new_simple_tuple tp c, pos)"
  shows "\<exists>t a. handle_receive_message env ts src (get_face n (sm_nodes (vs_sched s) src)) buf 40 s = Some (Inr ((), t)) \<and>
    sm_nodes (vs_sched t) = (sm_nodes (vs_sched s))(message_target src n (vs_sched s) :=
      insert_stamped ts (0 < sint c) a (sm_nodes (vs_sched s) (message_target src n (vs_sched s)))) \<and>
    fact_at (vs_objs t) a = Some (tp, c)"
proof -
  let ?n = "message_target src n (vs_sched s)" and ?f = "get_face n (sm_nodes (vs_sched s) src)"
  obtain r h1 where h1: "alloc_tuple tp (vs_objs s) = (r, h1)" by fastforce
  obtain b h2 where h2: "alloc_stuple r c h1 = (b, h2)" by fastforce
  let ?t = "s\<lparr>vs_objs := h2, vs_sched := put_sim_node ?n (insert_stamped ts (0 < sint c) b (sm_nodes (vs_sched s) ?n)) (vs_sched s)\<rparr>"
  have c: "create_tuple tp s = Some (Inr (r, s\<lparr>vs_objs := h1\<rparr>))" using h1 by (rule create_run)
  have d: "create_stuple r c (s\<lparr>vs_objs := h1\<rparr>) = Some (Inr (b, s\<lparr>vs_objs := h2\<rparr>))"
    using h2 create_run(2) [of r c "s\<lparr>vs_objs := h1\<rparr>" b h2] by simp
  have t: "(if ?f = INVALID_FACE then act_return src
      else act_bind (act_lift (node_at_face ?f (sm_nodes (vs_sched s) src))) (\<lambda>v. act_then (find_sim_node v) (act_return v))) s = Some (Inr (?n, s))"
    using assms(2,3) node_at_get_face [of n "sm_nodes (vs_sched s) src"]
    by (auto simp: message_target_def find_sim_node_ok)
  have "handle_receive_message env ts src ?f buf 40 s = Some (Inr ((), ?t))"
    using assms(1,2,4) t c d
    by (simp add: handle_receive_message_def find_sim_node_ok act_assert_def new_simple_tuple_def set_sim_node_def sched_update_run)
  moreover have "fact_at h2 b = Some (tp, c)" using fact_at_new(1) [OF h1 h2] .
  ultimately show ?thesis by (intro exI [of _ ?t] exI [of _ b]) (simp add: put_sim_node_def)
qed

text \<open>C39: a tuple that a node sends to node \<open>n\<close>, relayed by the simulator, ends in the queue of
  \<open>n\<close> as the same tuple with the same count, at the time stamp it was sent with, if \<open>n\<close> is at
  a face of the sender or is the sender. A tuple for any other node comes back to the sender.\<close>

theorem sent_tuple_is_received:
  assumes "send_message_bytes ts src (get_face n (sm_nodes (vs_sched s) src)) st = Inr msg" and "ts < 2 ^ 64"
    and "wf_tuple (st_data st)" and "prog_has (prog_predicates (env_prog env)) (tpl_pred (st_data st))"
    and "list_all short_list (tpl_fields (st_data st))"
    and "\<not> sm_thread_mode (vs_sched s)" and "find_node src (vs_db s) = Inr nd"
    and "find_node (message_target src n (vs_sched s)) (vs_db s) = Inr nd'"
  shows "\<exists>buf t a. read_message (relay msg) old = Inr buf \<and> dispatch env buf s = Some (Inr ((), t)) \<and>
    sm_nodes (vs_sched t) = (sm_nodes (vs_sched s))(message_target src n (vs_sched s) :=
      insert_stamped ts (0 < sint (st_count st)) a (sm_nodes (vs_sched s) (message_target src n (vs_sched s)))) \<and>
    fact_at (vs_objs t) a = Some (st_data st, st_count st)"
proof -
  let ?f = "get_face n (sm_nodes (vs_sched s) src)"
  let ?prog = "prog_predicates (env_prog env)"
  obtain len where len: "len = length (stuple_bytes st)" "len \<le> 472"
    and msg: "msg = message_bytes_of (send_header len ts src ?f) @ stuple_bytes st"
    and wire: "list_all wire_type (tpl_fields (st_data st))" using send_message_parts [OF assms(1)] by blast
  let ?ws = "[of_nat (32 + len), RECEIVE_MESSAGE, of_nat ts, ucast src, word_of_face ?f]"
  let ?msg = "message_bytes_of ?ws @ stuple_bytes st" and ?buf = "message_bytes_of ?ws @ stuple_bytes st @ drop (40 + len) old"
  have relay: "relay msg = ?msg" unfolding msg send_header_def by (rule relay_bytes)
  have words: "reply_word i (message_bytes_of ?ws @ rest) = ?ws ! i" if "i < 5" for i rest
    using reply_word_bytes [of i ?ws rest] that by simp
  have lenw: "unat (of_nat (32 + len) :: 64 word) = 32 + len" using len(2) by (intro of_nat_inverse) simp_all
  have read: "read_message (relay msg) old = Inr ?buf"
    unfolding relay read_message_def using words [of 0] lenw len by (simp add: BUFFER_BYTES_def)
  have "holds_at (stuple_bytes st) ?msg 40" by (simp add: holds_at_def)
  from simple_tuple_unpack_holds [OF assms(3,4) wire assms(5) this]
  obtain pos where un: "simple_tuple_unpack ?prog ?msg 40 = Inr (new_simple_tuple (st_data st) (st_count st), pos)" by blast
  have whole: "take (32 + len + 8) ?buf = ?msg" using len by simp
  have ts: "unat (of_nat ts :: 64 word) = ts" using assms(2) by (intro of_nat_inverse) simp_all
  have src: "(ucast (ucast src :: 64 word) :: node_val) = src" by (rule bit_word_eqI) (simp add: bit_simps)
  have "dispatch env ?buf s = handle_receive_message env ts src ?f ?msg 40 s"
    unfolding dispatch_def Let_def using words lenw ts src face_of_word_of_face [of ?f] whole
    by (simp add: message_codes)
  with receive_run [OF assms(6-8) un, of ts] read show ?thesis by auto
qed


text \<open>Node 0 has node 1 on top and sends it a fact at time 7.\<close>

definition stacked_state :: "sim vstate" where
  "stacked_state = rest_state ((new_database 0)\<lparr>db_nodes := [(0, new_node no_rules 0 0), (1, new_node no_rules 1 1)]\<rparr>)
     ((new_sim (\<lambda>_. HEAP_INT_ASC) (\<lambda>k. k) unat (\<lambda>_. 0))\<lparr>sm_nodes :=
        (\<lambda>_. new_sim_node HEAP_INT_ASC)(0 := (new_sim_node HEAP_INT_ASC)\<lparr>sn_top := 1\<rparr>)\<rparr>)"

lemma edge_message_bytes:
  "send_message_bytes 7 0 TOP (new_simple_tuple edge_tuple 2) =
     Inr ([51, 0, 0, 0, 0, 0, 0, 0, 12, 0, 0, 0, 0, 0, 0, 0, 7, 0, 0, 0, 0, 0, 0, 0, 0, 0, 0, 0, 0, 0, 0, 0, 5, 0, 0, 0, 0, 0, 0, 0] @
       [2, 0, 0, 7, 0, 0, 0, 2, 0, 0, 0, 3, 0, 0, 0, 4, 0, 0, 0])"
  by code_simp

lemma stacked_faces:
  "get_face 1 (sm_nodes (vs_sched stacked_state) 0) = TOP" "get_face 5 (sm_nodes (vs_sched stacked_state) 0) = INVALID_FACE"
  by (simp_all add: stacked_state_def rest_state_def get_face_def new_sim_node_def NO_NEIGHBOR_def)

theorem sent_tuple_is_received_witness:
  "\<exists>msg buf t a. send_message_bytes 7 0 TOP (new_simple_tuple edge_tuple 2) = Inr msg \<and> read_message (relay msg) [] = Inr buf \<and>
     dispatch edge_env buf stacked_state = Some (Inr ((), t)) \<and> a \<in># queued (sm_nodes (vs_sched t) 1) \<and>
     fact_at (vs_objs t) a = Some (edge_tuple, 2)"
proof -
  let ?w = "vs_sched stacked_state"
  have target: "message_target 0 1 ?w = 1" by (simp add: message_target_def stacked_faces)
  obtain msg where msg: "send_message_bytes 7 0 TOP (new_simple_tuple edge_tuple 2) = Inr msg" using edge_message_bytes by blast
  then have m: "send_message_bytes 7 0 (get_face 1 (sm_nodes ?w 0)) (new_simple_tuple edge_tuple 2) = Inr msg" by (simp add: stacked_faces)
  have t: "wf_tuple (st_data (new_simple_tuple edge_tuple 2))" "list_all short_list (tpl_fields (st_data (new_simple_tuple edge_tuple 2)))"
    "prog_has (prog_predicates (env_prog edge_env)) (tpl_pred (st_data (new_simple_tuple edge_tuple 2)))"
    by (simp_all add: new_simple_tuple_def edge_tuple_def wf_tuple_def edge_pred_def prog_has_def edge_env_def example_env_def no_rules_def)
  have f: "find_node 0 (vs_db stacked_state) = Inr (new_node no_rules 0 0)"
    "find_node (message_target 0 1 ?w) (vs_db stacked_state) = Inr (new_node no_rules 1 1)"
    unfolding target by (simp_all add: stacked_state_def rest_state_def new_database_def find_node_def)
  have "\<not> sm_thread_mode ?w" by (simp add: stacked_state_def rest_state_def new_sim_def)
  from sent_tuple_is_received [OF m _ t(1,3,2) this f, of "[]"]
  obtain buf t a where "read_message (relay msg) [] = Inr buf" "dispatch edge_env buf stacked_state = Some (Inr ((), t))"
    "sm_nodes (vs_sched t) 1 = insert_stamped 7 True a (sm_nodes ?w 1)" "fact_at (vs_objs t) a = Some (edge_tuple, 2)"
    by (auto simp: target new_simple_tuple_def)
  with msg show ?thesis by (auto simp: queued_stamped)
qed

end
