(* ===== verification/Thread_Sched.thy ===== *)
theory Thread_Sched
  imports Serial_Sched
begin

text \<open>
  The scheduler of a thread with a fixed set of nodes: \<open>thread/static.hpp\<close> and \<open>.cpp\<close> with
  \<open>sched/thread/threaded.hpp\<close> and \<open>termination_barrier.hpp\<close>, without task stealing, which
  is not configured. Each thread has a queue of its nodes with work and a buffer where the
  others push tuples; it becomes inactive when it has neither, and the threads leave the
  loop when the counter of the active ones reaches zero. The program counter of a thread is
  where it stands in this code, and a step is one access to what the threads share; what a
  thread does on its own nodes is one step. A thread that looks for its own work reads its
  buffer last, and nobody else pushes to its queue, so this is one access; one that looks for
  the work of another reads the state, the queue and the buffer one after the other.
\<close>

section \<open>The state\<close>

text \<open>\<open>set_active_if_inactive\<close> is called on leaving \<open>busy_wait\<close> and by \<open>get_work\<close>.\<close>

datatype caller = In_Busy_Wait | In_Get_Work

datatype place =
    Next                    \<comment> \<open>\<open>set_next_node\<close> is entered\<close>
  | Look                    \<comment> \<open>its loop: is there a node, else \<open>retrieve_tuples\<close>\<close>
  | Test_Work               \<comment> \<open>\<open>if(!has_work())\<close>\<close>
  | Pop_Node
  | Busy                    \<comment> \<open>\<open>busy_wait\<close>: the test of the loop\<close>
  | Busy_Retrieve
  | Busy_Active             \<comment> \<open>\<open>BUSY_LOOP_MAKE_INACTIVE\<close>: \<open>is_active()\<close>\<close>
  | Busy_Work               \<comment> \<open>and \<open>!has_work()\<close>\<close>
  | Busy_Lock               \<comment> \<open>about to take the own lock\<close>
  | Busy_Locked             \<comment> \<open>the second look, with the lock\<close>
  | Going_Idle              \<comment> \<open>\<open>set_inactive\<close>: about to write the state\<close>
  | Counting_Out            \<comment> \<open>about to decrement the counter\<close>
  | Busy_Done               \<comment> \<open>\<open>BUSY_LOOP_CHECK_TERMINATION_THREADS\<close>\<close>
  | Waken caller            \<comment> \<open>\<open>set_active_if_inactive\<close>: the look without the lock\<close>
  | Waken_Lock caller
  | Waken_Locked caller
  | Counting_In caller      \<comment> \<open>about to increment the counter\<close>
  | Running                 \<comment> \<open>in \<open>run_node\<close>\<close>
  | Wake_Lock nat           \<comment> \<open>\<open>new_work_other\<close> has pushed and is about to take the lock\<close>
  | Wake_Locked nat         \<comment> \<open>\<open>owner->is_inactive()\<close>\<close>
  | Wake_Queue nat          \<comment> \<open>\<open>owner->has_work()\<close>: the queue\<close>
  | Wake_Buffer nat         \<comment> \<open>and the buffer\<close>
  | Wake_Set nat            \<comment> \<open>about to write the other's state\<close>
  | Wake_Count nat          \<comment> \<open>about to count the other in\<close>
  | Round                   \<comment> \<open>\<open>START_ROUND\<close>\<close>
  | Round_Work
  | Round_Count
  | Round_Leave             \<comment> \<open>\<open>END_ROUND\<close>: about to decrement \<open>total_in_agg\<close>\<close>
  | Leader_Wait
  | Leader_Decide
  | Leader_Total
  | Leader_Round
  | Follower_Wait
  | Follower_Next
  | Finished

datatype thread_state = THREAD_ACTIVE | THREAD_INACTIVE

record tthread =
  tt_own :: serial                                  \<comment> \<open>queue, current node and the nodes\<close>
  tt_buffer :: "(node_val \<times> saddr \<times> strat_level) list"
  tt_taken :: "(node_val \<times> saddr \<times> strat_level) option"   \<comment> \<open>\<open>new_work\<close> of \<open>retrieve_tuples\<close>\<close>
  tt_state :: thread_state
  tt_locked :: bool                                 \<comment> \<open>the spinlock \<open>lock\<close>\<close>
  tt_round :: nat                                   \<comment> \<open>\<open>thread_round_state\<close>\<close>
  tt_place :: place

record threads =
  ts_threads :: "tthread list"
  ts_active :: nat                                  \<comment> \<open>\<open>active_threads\<close> of the barrier\<close>
  ts_done :: bool
  ts_in_agg :: nat                                  \<comment> \<open>\<open>total_in_agg\<close>\<close>
  ts_round :: nat                                   \<comment> \<open>\<open>round_state\<close>\<close>

definition is_active :: "tthread \<Rightarrow> bool" where
  "is_active t \<longleftrightarrow> tt_state t = THREAD_ACTIVE"

text \<open>\<open>has_work\<close>, as the thread itself calls it.\<close>

definition thread_has_work :: "tthread \<Rightarrow> bool" where
  "thread_has_work t \<longleftrightarrow> \<not> dq_empty (ss_nodes (tt_own t)) \<or> tt_buffer t \<noteq> []"

section \<open>The barrier\<close>

definition barrier_is_active :: "threads \<Rightarrow> threads res" where
  "barrier_is_active s =
     (if ts_active s < length (ts_threads s) then Inr (s\<lparr>ts_active := ts_active s + 1\<rparr>) else Inl Assert_Failed)"

text \<open>
  The decrement and, at zero, the store of \<open>done\<close>: a thread that reads \<open>done\<close> in between goes
  around its loop once more.
\<close>

definition barrier_is_inactive :: "threads \<Rightarrow> threads res" where
  "barrier_is_inactive s =
     (if 0 < ts_active s
      then Inr (s\<lparr>ts_active := ts_active s - 1, ts_done := (ts_active s = 1 \<or> ts_done s)\<rparr>)
      else Inl Assert_Failed)"

section \<open>A thread's own nodes\<close>

definition static_new_work :: "node_val \<Rightarrow> saddr \<Rightarrow> strat_level \<Rightarrow> serial \<Rightarrow> serial res" where
  "static_new_work n a l w =
     res_bind (add_work n a l w) (\<lambda>w1.
       if ss_on_queue w1 n then Inr w1 else res_bind (push_node n w1) (set_in_queue n True))"

text \<open>
  \<open>retrieve_tuples\<close>: a tuple is taken from the buffer, and then queued with its node, which
  belongs to the thread. In between it is in neither place.
\<close>

definition take_tuple :: "tthread \<Rightarrow> tthread res" where
  "take_tuple t = (case tt_buffer t of [] \<Rightarrow> Inl Bad_Access | x # ws \<Rightarrow> Inr (t\<lparr>tt_buffer := ws, tt_taken := Some x\<rparr>))"

definition queue_taken :: "node_val \<times> saddr \<times> strat_level \<Rightarrow> tthread \<Rightarrow> tthread res" where
  "queue_taken x t =
     (case x of (n, a, l) \<Rightarrow> res_bind (static_new_work n a l (tt_own t)) (\<lambda>w. Inr (t\<lparr>tt_own := w, tt_taken := None\<rparr>)))"

definition check_if_current_useless :: "serial \<Rightarrow> serial res" where
  "check_if_current_useless w =
     (case ss_current w of
        None \<Rightarrow> Inl Bad_Access
      | Some c \<Rightarrow>
          if has_work c w then Inr w else res_bind (set_in_queue c False w) (\<lambda>w1. Inr (w1\<lparr>ss_current := None\<rparr>)))"

text \<open>\<open>queue_nodes.pop(current_node)\<close> and what follows in the loop.\<close>

definition pop_current :: "serial \<Rightarrow> serial res" where
  "pop_current w =
     (if dq_empty (ss_nodes w) then Inr w
      else res_bind (dq_pop (ss_nodes w)) (\<lambda>(r, d).
        case r of
          None \<Rightarrow> Inr (w\<lparr>ss_nodes := d\<rparr>)
        | Some n \<Rightarrow> if ss_on_queue w n then check_if_current_useless (w\<lparr>ss_nodes := d, ss_current := Some n\<rparr>)
                    else Inl Assert_Failed))"

section \<open>Steps\<close>

definition set_thread :: "nat \<Rightarrow> tthread \<Rightarrow> threads \<Rightarrow> threads" where
  "set_thread i t s = s\<lparr>ts_threads := (ts_threads s)[i := t]\<rparr>"

definition goto :: "nat \<Rightarrow> place \<Rightarrow> threads \<Rightarrow> threads" where
  "goto i p s = set_thread i ((ts_threads s ! i)\<lparr>tt_place := p\<rparr>) s"

definition own_step :: "nat \<Rightarrow> (serial \<Rightarrow> serial res) \<Rightarrow> place \<Rightarrow> threads \<Rightarrow> threads res" where
  "own_step i f p s =
     (let t = ts_threads s ! i in res_bind (f (tt_own t)) (\<lambda>w. Inr (set_thread i (t\<lparr>tt_own := w, tt_place := p\<rparr>) s)))"

definition lock_thread :: "nat \<Rightarrow> threads \<Rightarrow> threads" where
  "lock_thread j s = set_thread j ((ts_threads s ! j)\<lparr>tt_locked := True\<rparr>) s"

definition unlock_thread :: "nat \<Rightarrow> threads \<Rightarrow> threads" where
  "unlock_thread j s = set_thread j ((ts_threads s ! j)\<lparr>tt_locked := False\<rparr>) s"

definition write_state :: "nat \<Rightarrow> thread_state \<Rightarrow> threads \<Rightarrow> threads" where
  "write_state j x s = set_thread j ((ts_threads s ! j)\<lparr>tt_state := x\<rparr>) s"

text \<open>What the program that runs at a node does next.\<close>

datatype choice =
    Own node_val saddr strat_level        \<comment> \<open>a tuple for a node of the same thread\<close>
  | Other nat node_val saddr strat_level  \<comment> \<open>a tuple for a node of the given thread\<close>
  | Gather
  | Leave

definition retrieve_step :: "nat \<Rightarrow> place \<Rightarrow> threads \<Rightarrow> threads res" where
  "retrieve_step i p s =
     (let t = ts_threads s ! i
      in case tt_taken t of
           Some x \<Rightarrow> res_bind (queue_taken x t) (\<lambda>t'. Inr (set_thread i t' s))
         | None \<Rightarrow> if tt_buffer t = [] then Inr (goto i p s) else res_bind (take_tuple t) (\<lambda>t'. Inr (set_thread i t' s)))"

definition run_step :: "nat \<Rightarrow> choice \<Rightarrow> threads \<Rightarrow> threads res" where
  "run_step i ch s =
     (case ch of
        Own n a l \<Rightarrow> own_step i (static_new_work n a l) Running s
      | Other j n a l \<Rightarrow>
          if \<not> is_active (ts_threads s ! i) then Inl Assert_Failed
          else if length (ts_threads s) \<le> j then Inl Bad_Access
          else (let s1 = set_thread j ((ts_threads s ! j)\<lparr>tt_buffer := tt_buffer (ts_threads s ! j) @ [(n, a, l)]\<rparr>) s
                in Inr (if j = i then s1 else goto i (Wake_Lock j) s1))
      | Gather \<Rightarrow>
          own_step i (\<lambda>w. case ss_current w of None \<Rightarrow> Inl Bad_Access
            | Some c \<Rightarrow> res_bind (serial_gather_next c w) (\<lambda>(as, w'). Inr w')) Running s
      | Leave \<Rightarrow>
          own_step i (\<lambda>w. case ss_current w of None \<Rightarrow> Inl Assert_Failed
            | Some c \<Rightarrow> if ss_on_queue w c then Inr w else Inl Assert_Failed) Next s)"

text \<open>The assertions at the end of \<open>busy_wait\<close> and of \<open>get_work\<close>.\<close>

definition return_step :: "nat \<Rightarrow> caller \<Rightarrow> threads \<Rightarrow> threads res" where
  "return_step i c s =
     (let t = ts_threads s ! i
      in case c of
           In_Busy_Wait \<Rightarrow> if is_active t \<and> thread_has_work t then Inr (goto i Pop_Node s) else Inl Assert_Failed
         | In_Get_Work \<Rightarrow>
             (case ss_current (tt_own t) of
                None \<Rightarrow> Inl Assert_Failed
              | Some n \<Rightarrow> if ss_on_queue (tt_own t) n \<and> has_work n (tt_own t) then Inr (goto i Running s) else Inl Assert_Failed))"

definition next_round :: "nat \<Rightarrow> nat" where
  "next_round x = (if x = 1 then 2 else 1)"

text \<open>
  One step of thread \<open>i\<close>, by the function it is in; \<open>None\<close> where it spins on a lock or a
  variable, or has finished. The state of another thread is read and written with its lock.
\<close>

definition set_next_step :: "nat \<Rightarrow> place \<Rightarrow> threads \<Rightarrow> threads res option" where
  "set_next_step i p s =
     (let t = ts_threads s ! i
      in case p of
        Next \<Rightarrow> Some (if ss_current (tt_own t) = None then Inr (goto i Look s) else own_step i check_if_current_useless Look s)
      | Look \<Rightarrow> Some (if ss_current (tt_own t) \<noteq> None then Inr (goto i (Waken In_Get_Work) s) else retrieve_step i Test_Work s)
      | Test_Work \<Rightarrow> Some (Inr (goto i (if thread_has_work t then Pop_Node else Busy) s))
      | Pop_Node \<Rightarrow> Some (own_step i pop_current Look s)
      | _ \<Rightarrow> None)"

definition make_inactive_step :: "nat \<Rightarrow> place \<Rightarrow> threads \<Rightarrow> threads res option" where
  "make_inactive_step i p s =
     (let t = ts_threads s ! i
      in case p of
        Busy_Active \<Rightarrow> Some (Inr (goto i (if is_active t then Busy_Work else Busy_Done) s))
      | Busy_Work \<Rightarrow> Some (Inr (goto i (if thread_has_work t then Busy_Done else Busy_Lock) s))
      | Busy_Lock \<Rightarrow> if tt_locked t then None else Some (Inr (goto i Busy_Locked (lock_thread i s)))
      | Busy_Locked \<Rightarrow>
          Some (Inr (if thread_has_work t then goto i (Waken In_Busy_Wait) (unlock_thread i s)
                     else if is_active t then goto i Going_Idle s
                     else goto i Busy_Done (unlock_thread i s)))
      | Going_Idle \<Rightarrow>
          Some (if is_active t then Inr (goto i Counting_Out (write_state i THREAD_INACTIVE s)) else Inl Assert_Failed)
      | Counting_Out \<Rightarrow> Some (res_bind (barrier_is_inactive s) (\<lambda>s. Inr (goto i Busy_Done (unlock_thread i s))))
      | _ \<Rightarrow> None)"

definition busy_step :: "nat \<Rightarrow> place \<Rightarrow> threads \<Rightarrow> threads res option" where
  "busy_step i p s =
     (let t = ts_threads s ! i
      in case p of
        Busy \<Rightarrow> Some (Inr (goto i (if thread_has_work t then Waken In_Busy_Wait else Busy_Retrieve) s))
      | Busy_Retrieve \<Rightarrow> Some (retrieve_step i Busy_Active s)
      | Busy_Done \<Rightarrow>
          Some (if \<not> ts_done s then Inr (goto i Busy s)
                else if is_active t then Inl Assert_Failed else Inr (goto i Round s))
      | _ \<Rightarrow> make_inactive_step i p s)"

definition waken_step :: "nat \<Rightarrow> place \<Rightarrow> threads \<Rightarrow> threads res option" where
  "waken_step i p s =
     (let t = ts_threads s ! i
      in case p of
        Waken c \<Rightarrow> Some (if is_active t then return_step i c s else Inr (goto i (Waken_Lock c) s))
      | Waken_Lock c \<Rightarrow> if tt_locked t then None else Some (Inr (goto i (Waken_Locked c) (lock_thread i s)))
      | Waken_Locked c \<Rightarrow>
          Some (if is_active t then return_step i c (unlock_thread i s)
                else Inr (goto i (Counting_In c) (write_state i THREAD_ACTIVE s)))
      | Counting_In c \<Rightarrow> Some (res_bind (barrier_is_active s) (\<lambda>s. return_step i c (unlock_thread i s)))
      | _ \<Rightarrow> None)"

definition wake_other_step :: "nat \<Rightarrow> place \<Rightarrow> threads \<Rightarrow> threads res option" where
  "wake_other_step i p s =
     (case p of
        Wake_Lock j \<Rightarrow> if tt_locked (ts_threads s ! j) then None else Some (Inr (goto i (Wake_Locked j) (lock_thread j s)))
      | Wake_Locked j \<Rightarrow>
          Some (Inr (if is_active (ts_threads s ! j) then goto i Running (unlock_thread j s) else goto i (Wake_Queue j) s))
      | Wake_Queue j \<Rightarrow>
          Some (Inr (goto i (if dq_empty (ss_nodes (tt_own (ts_threads s ! j))) then Wake_Buffer j else Wake_Set j) s))
      | Wake_Buffer j \<Rightarrow>
          Some (Inr (if tt_buffer (ts_threads s ! j) = [] then goto i Running (unlock_thread j s) else goto i (Wake_Set j) s))
      | Wake_Set j \<Rightarrow>
          Some (if is_active (ts_threads s ! j) then Inl Assert_Failed
                else Inr (goto i (Wake_Count j) (write_state j THREAD_ACTIVE s)))
      | Wake_Count j \<Rightarrow> Some (res_bind (barrier_is_active s) (\<lambda>s. Inr (goto i Running (unlock_thread j s))))
      | _ \<Rightarrow> None)"

definition start_round_step :: "nat \<Rightarrow> choice \<Rightarrow> place \<Rightarrow> threads \<Rightarrow> threads res option" where
  "start_round_step i ch p s =
     (let t = ts_threads s ! i
      in case p of
        Round \<Rightarrow>
          Some (case ch of
              Own n a l \<Rightarrow> if is_active t then Inl Assert_Failed else own_step i (static_new_work n a l) Round s
            | _ \<Rightarrow> if is_active t then Inl Assert_Failed else Inr (goto i Round_Work s))
      | Round_Work \<Rightarrow>
          Some (if \<not> thread_has_work t then Inr (goto i Round_Leave s)
                else if is_active t then Inl Assert_Failed else Inr (goto i Round_Count (write_state i THREAD_ACTIVE s)))
      | Round_Count \<Rightarrow> Some (res_bind (barrier_is_active s) (\<lambda>s. Inr (goto i Round_Leave s)))
      | _ \<Rightarrow> None)"

definition end_round_step :: "nat \<Rightarrow> place \<Rightarrow> threads \<Rightarrow> threads res option" where
  "end_round_step i p s =
     (let t = ts_threads s ! i
      in case p of
        Round_Leave \<Rightarrow>
          Some (if 0 < ts_in_agg s then Inr (goto i (if i = 0 then Leader_Wait else Follower_Wait) (s\<lparr>ts_in_agg := ts_in_agg s - 1\<rparr>))
                else Inl Assert_Failed)
      | Leader_Wait \<Rightarrow> if ts_in_agg s \<noteq> 0 then None else Some (Inr (goto i Leader_Decide s))
      | Leader_Decide \<Rightarrow>
          Some (Inr (if 0 < ts_active s then goto i Leader_Total (s\<lparr>ts_done := False\<rparr>)
                     else goto i Finished (s\<lparr>ts_round := 0\<rparr>)))
      | Leader_Total \<Rightarrow> Some (Inr (goto i Leader_Round (s\<lparr>ts_in_agg := length (ts_threads s)\<rparr>)))
      | Leader_Round \<Rightarrow> Some (Inr (goto i Next (s\<lparr>ts_round := next_round (ts_round s)\<rparr>)))
      | Follower_Wait \<Rightarrow> if ts_round s = tt_round t then None else Some (Inr (goto i Follower_Next s))
      | Follower_Next \<Rightarrow>
          Some (Inr (if ts_round s = next_round (tt_round t)
                     then set_thread i (t\<lparr>tt_round := next_round (tt_round t), tt_place := Next\<rparr>) s
                     else goto i Finished s))
      | _ \<Rightarrow> None)"

text \<open>\<open>do_loop\<close>: get work, run the node, and at the end of an iteration the round.\<close>

definition thread_step :: "nat \<Rightarrow> choice \<Rightarrow> threads \<Rightarrow> threads res option" where
  "thread_step i ch s =
     (let p = tt_place (ts_threads s ! i)
      in case p of
        Next \<Rightarrow> set_next_step i p s
      | Look \<Rightarrow> set_next_step i p s
      | Test_Work \<Rightarrow> set_next_step i p s
      | Pop_Node \<Rightarrow> set_next_step i p s
      | Waken c \<Rightarrow> waken_step i p s
      | Waken_Lock c \<Rightarrow> waken_step i p s
      | Waken_Locked c \<Rightarrow> waken_step i p s
      | Counting_In c \<Rightarrow> waken_step i p s
      | Running \<Rightarrow> Some (run_step i ch s)
      | Wake_Lock j \<Rightarrow> wake_other_step i p s
      | Wake_Locked j \<Rightarrow> wake_other_step i p s
      | Wake_Queue j \<Rightarrow> wake_other_step i p s
      | Wake_Buffer j \<Rightarrow> wake_other_step i p s
      | Wake_Set j \<Rightarrow> wake_other_step i p s
      | Wake_Count j \<Rightarrow> wake_other_step i p s
      | Round \<Rightarrow> start_round_step i ch p s
      | Round_Work \<Rightarrow> start_round_step i ch p s
      | Round_Count \<Rightarrow> start_round_step i ch p s
      | Round_Leave \<Rightarrow> end_round_step i p s
      | Leader_Wait \<Rightarrow> end_round_step i p s
      | Leader_Decide \<Rightarrow> end_round_step i p s
      | Leader_Total \<Rightarrow> end_round_step i p s
      | Leader_Round \<Rightarrow> end_round_step i p s
      | Follower_Wait \<Rightarrow> end_round_step i p s
      | Follower_Next \<Rightarrow> end_round_step i p s
      | Finished \<Rightarrow> None
      | _ \<Rightarrow> busy_step i p s)"

lemmas thread_steps =
  thread_step_def set_next_step_def make_inactive_step_def busy_step_def waken_step_def wake_other_step_def
  start_round_step_def end_round_step_def

text \<open>After \<open>init\<close>: the threads have met at the barrier, and every node has its first tuple.\<close>

definition threads_start :: "serial list \<Rightarrow> threads" where
  "threads_start ws =
     \<lparr>ts_threads = map (\<lambda>w. \<lparr>tt_own = w, tt_buffer = [], tt_taken = None, tt_state = THREAD_ACTIVE, tt_locked = False, tt_round = 1, tt_place = Next\<rparr>) ws,
      ts_active = length ws, ts_done = False, ts_in_agg = length ws, ts_round = 1\<rparr>"

end
