(* ===== verification/Thread_Protocol.thy ===== *)
theory Thread_Protocol
  imports Meld_Prelude
begin

text \<open>
  How the threads of a machine agree that nobody has work: the protocol behind
  \<open>sched/thread/threaded.hpp\<close> and \<open>termination_barrier.hpp\<close>, without the queues. A thread
  that finds nothing to do takes its lock, looks again and leaves the counter; one that
  sends work to another takes the other's lock and, if the other is inactive and has work,
  writes its state and then counts it in. The state and the counter change at different
  moments, so the counter is that of the threads that are neither on their way in nor being
  counted in by another.
\<close>

section \<open>The protocol\<close>

datatype phase =
    Works                \<comment> \<open>active, free to add work, to take it and to send it\<close>
  | Idles                \<comment> \<open>in the loop of \<open>busy_wait\<close>, active or not\<close>
  | Checks               \<comment> \<open>with the own lock, about to look again\<close>
  | Goes                 \<comment> \<open>found nothing, about to write the state\<close>
  | Leaves               \<comment> \<open>inactive, about to leave the counter\<close>
  | Wakes                \<comment> \<open>with the own lock, about to become active\<close>
  | Enters               \<comment> \<open>active, about to enter the counter\<close>
  | Sends nat            \<comment> \<open>has pushed work for the other, about to take its lock\<close>
  | Holds nat            \<comment> \<open>with the other's lock\<close>
  | Sees nat             \<comment> \<open>found the other inactive, and looks for work there\<close>
  | Counts nat           \<comment> \<open>made the other active, about to count it in\<close>

record protocol =
  pr_phase :: "nat \<Rightarrow> phase"
  pr_active :: "nat \<Rightarrow> bool"
  pr_work :: "nat \<Rightarrow> bool"
  pr_locked :: "nat \<Rightarrow> bool"
  pr_count :: nat

definition enter_phase :: "nat \<Rightarrow> phase \<Rightarrow> protocol \<Rightarrow> protocol" where
  "enter_phase i p s = s\<lparr>pr_phase := (pr_phase s)(i := p)\<rparr>"

definition set_work :: "nat \<Rightarrow> bool \<Rightarrow> protocol \<Rightarrow> protocol" where
  "set_work i b s = s\<lparr>pr_work := (pr_work s)(i := b)\<rparr>"

definition set_active_to :: "nat \<Rightarrow> bool \<Rightarrow> protocol \<Rightarrow> protocol" where
  "set_active_to i b s = s\<lparr>pr_active := (pr_active s)(i := b)\<rparr>"

definition set_locked :: "nat \<Rightarrow> bool \<Rightarrow> protocol \<Rightarrow> protocol" where
  "set_locked i b s = s\<lparr>pr_locked := (pr_locked s)(i := b)\<rparr>"

definition set_count :: "nat \<Rightarrow> protocol \<Rightarrow> protocol" where
  "set_count n s = s\<lparr>pr_count := n\<rparr>"

lemmas protocol_defs = enter_phase_def set_work_def set_active_to_def set_locked_def set_count_def

inductive protocol_step :: "nat \<Rightarrow> protocol \<Rightarrow> protocol \<Rightarrow> bool" for N where
  stay: "protocol_step N s s"
| work: "i < N \<Longrightarrow> pr_phase s i = Works \<Longrightarrow> protocol_step N s (set_work i b s)"
| send: "i < N \<Longrightarrow> pr_phase s i = Works \<Longrightarrow> j < N \<Longrightarrow> j \<noteq> i \<Longrightarrow>
    protocol_step N s (enter_phase i (Sends j) (set_work j True s))"
| pause: "i < N \<Longrightarrow> pr_phase s i = Works \<Longrightarrow> protocol_step N s (enter_phase i Idles s)"
| resume: "i < N \<Longrightarrow> pr_phase s i = Idles \<Longrightarrow> pr_active s i \<Longrightarrow> protocol_step N s (enter_phase i Works s)"
| check: "i < N \<Longrightarrow> pr_phase s i = Works \<Longrightarrow> \<not> pr_locked s i \<Longrightarrow>
    protocol_step N s (enter_phase i Checks (set_locked i True s))"
| uncheck: "i < N \<Longrightarrow> pr_phase s i = Checks \<Longrightarrow> pr_work s i \<Longrightarrow>
    protocol_step N s (enter_phase i Idles (set_locked i False s))"
| going: "i < N \<Longrightarrow> pr_phase s i = Checks \<Longrightarrow> \<not> pr_work s i \<Longrightarrow> protocol_step N s (enter_phase i Goes s)"
| go: "i < N \<Longrightarrow> pr_phase s i = Goes \<Longrightarrow> protocol_step N s (enter_phase i Leaves (set_active_to i False s))"
| leave: "i < N \<Longrightarrow> pr_phase s i = Leaves \<Longrightarrow>
    protocol_step N s (enter_phase i Idles (set_locked i False (set_count (pr_count s - 1) s)))"
| wake: "i < N \<Longrightarrow> pr_phase s i = Idles \<Longrightarrow> pr_work s i \<Longrightarrow> \<not> pr_locked s i \<Longrightarrow>
    protocol_step N s (enter_phase i Wakes (set_locked i True s))"
| woken: "i < N \<Longrightarrow> pr_phase s i = Wakes \<Longrightarrow> pr_active s i \<Longrightarrow>
    protocol_step N s (enter_phase i Works (set_locked i False s))"
| stand_up: "i < N \<Longrightarrow> pr_phase s i = Wakes \<Longrightarrow> \<not> pr_active s i \<Longrightarrow>
    protocol_step N s (enter_phase i Enters (set_active_to i True s))"
| enters: "i < N \<Longrightarrow> pr_phase s i = Enters \<Longrightarrow>
    protocol_step N s (enter_phase i Works (set_locked i False (set_count (pr_count s + 1) s)))"
| hold: "i < N \<Longrightarrow> pr_phase s i = Sends j \<Longrightarrow> \<not> pr_locked s j \<Longrightarrow>
    protocol_step N s (enter_phase i (Holds j) (set_locked j True s))"
| see: "i < N \<Longrightarrow> pr_phase s i = Holds j \<Longrightarrow> \<not> pr_active s j \<Longrightarrow> protocol_step N s (enter_phase i (Sees j) s)"
| release: "i < N \<Longrightarrow> pr_phase s i = Holds j \<Longrightarrow> pr_active s j \<Longrightarrow>
    protocol_step N s (enter_phase i Works (set_locked j False s))"
| activate: "i < N \<Longrightarrow> pr_phase s i = Sees j \<Longrightarrow> protocol_step N s (enter_phase i (Counts j) (set_active_to j True s))"
| unseen: "i < N \<Longrightarrow> pr_phase s i = Sees j \<Longrightarrow> \<not> pr_work s j \<Longrightarrow>
    protocol_step N s (enter_phase i Works (set_locked j False s))"
| count_in: "i < N \<Longrightarrow> pr_phase s i = Counts j \<Longrightarrow>
    protocol_step N s (enter_phase i Works (set_locked j False (set_count (pr_count s + 1) s)))"

section \<open>The invariant\<close>

text \<open>Who holds the lock of \<open>j\<close>, who is being counted in by whom, and who is in the counter.\<close>

definition holds_lock :: "protocol \<Rightarrow> nat \<Rightarrow> nat \<Rightarrow> bool" where
  "holds_lock s i j \<longleftrightarrow>
     pr_phase s i \<in> {Holds j, Sees j, Counts j} \<or> (i = j \<and> pr_phase s i \<in> {Checks, Goes, Leaves, Wakes, Enters})"

definition counts_in :: "nat \<Rightarrow> protocol \<Rightarrow> (nat \<times> nat) set" where
  "counts_in N s = {(i, j). i < N \<and> pr_phase s i = Counts j}"

definition being_counted :: "nat \<Rightarrow> protocol \<Rightarrow> nat \<Rightarrow> bool" where
  "being_counted N s j \<longleftrightarrow> (\<exists>i<N. pr_phase s i = Counts j)"

definition counted_in :: "nat \<Rightarrow> protocol \<Rightarrow> nat set" where
  "counted_in N s =
     {j. j < N \<and> (pr_phase s j = Leaves \<or> (pr_active s j \<and> pr_phase s j \<noteq> Enters \<and> \<not> being_counted N s j))}"

definition phase_ok :: "nat \<Rightarrow> protocol \<Rightarrow> nat \<Rightarrow> bool" where
  "phase_ok N s i \<longleftrightarrow>
     (pr_phase s i \<notin> {Idles, Leaves, Wakes} \<longrightarrow> pr_active s i) \<and>
     (pr_phase s i = Leaves \<longrightarrow> \<not> pr_active s i) \<and>
     (pr_phase s i \<in> {Wakes, Enters} \<longrightarrow> pr_work s i) \<and>
     (\<forall>j. pr_phase s i \<in> {Sends j, Holds j, Sees j, Counts j} \<longrightarrow> j < N \<and> j \<noteq> i) \<and>
     (\<forall>j. pr_phase s i = Sees j \<longrightarrow> \<not> pr_active s j) \<and>
     (\<forall>j. pr_phase s i = Counts j \<longrightarrow> pr_active s j)"

definition phases_ok :: "nat \<Rightarrow> protocol \<Rightarrow> bool" where
  "phases_ok N s \<longleftrightarrow> (\<forall>i<N. phase_ok N s i)"

definition locks_ok :: "nat \<Rightarrow> protocol \<Rightarrow> bool" where
  "locks_ok N s \<longleftrightarrow> (\<forall>i<N. \<forall>j<N. holds_lock s i j \<longrightarrow> pr_locked s j \<and> (\<forall>k<N. holds_lock s k j \<longrightarrow> k = i))"

text \<open>Work for a thread that is not in the counter is watched by the one that sent it.\<close>

definition watched :: "nat \<Rightarrow> protocol \<Rightarrow> bool" where
  "watched N s \<longleftrightarrow> (\<forall>j<N. pr_work s j \<and> (\<not> pr_active s j \<or> pr_phase s j \<in> {Goes, Enters}) \<longrightarrow>
     (\<exists>i<N. pr_phase s i \<in> {Sends j, Holds j, Sees j}))"

definition protocol_inv :: "nat \<Rightarrow> protocol \<Rightarrow> bool" where
  "protocol_inv N s \<longleftrightarrow> phases_ok N s \<and> locks_ok N s \<and> watched N s \<and> acyclic (counts_in N s) \<and>
     pr_count s = card (counted_in N s)"

lemma phases_okD:
  assumes "phases_ok N s" and "i < N"
  shows "pr_phase s i \<notin> {Idles, Leaves, Wakes} \<Longrightarrow> pr_active s i" and "pr_phase s i = Leaves \<Longrightarrow> \<not> pr_active s i"
    and "pr_phase s i \<in> {Wakes, Enters} \<Longrightarrow> pr_work s i"
    and "pr_phase s i \<in> {Sends j, Holds j, Sees j, Counts j} \<Longrightarrow> j < N \<and> j \<noteq> i"
    and "pr_phase s i = Counts j \<Longrightarrow> pr_active s j" and "pr_phase s i = Sees j \<Longrightarrow> \<not> pr_active s j"
proof -
  have "phase_ok N s i" using assms by (simp add: phases_ok_def)
  note this [unfolded phase_ok_def]
  then show "pr_phase s i \<notin> {Idles, Leaves, Wakes} \<Longrightarrow> pr_active s i" and "pr_phase s i = Leaves \<Longrightarrow> \<not> pr_active s i"
    and "pr_phase s i \<in> {Wakes, Enters} \<Longrightarrow> pr_work s i"
    and "pr_phase s i \<in> {Sends j, Holds j, Sees j, Counts j} \<Longrightarrow> j < N \<and> j \<noteq> i"
    and "pr_phase s i = Counts j \<Longrightarrow> pr_active s j" and "pr_phase s i = Sees j \<Longrightarrow> \<not> pr_active s j"
    by (simp, simp, simp, blast, simp, simp)
qed

lemma locks_okD:
  assumes "locks_ok N s" and "holds_lock s i j" and "i < N" and "j < N"
  shows "pr_locked s j" and "k < N \<Longrightarrow> holds_lock s k j \<Longrightarrow> k = i"
  using assms by (simp_all add: locks_ok_def)

lemma phases_keep:
  "phases_ok N s \<Longrightarrow> (\<And>k. k < N \<Longrightarrow> phase_ok N s k \<Longrightarrow> phase_ok N s' k) \<Longrightarrow> phases_ok N s'"
  by (simp add: phases_ok_def)

lemma protocol_step_phases:
  assumes "protocol_step N s s'" and ok: "phases_ok N s" and "locks_ok N s"
  shows "phases_ok N s'"
  using assms(1)
proof (cases rule: protocol_step.cases)
  case (go i)
  have "pr_phase s k \<noteq> Counts i" if "k < N" for k
    using locks_okD(2) [OF assms(3), of i i k] go that by (auto simp: holds_lock_def)
  with go show ?thesis by (intro phases_keep [OF ok]) (auto simp: phase_ok_def protocol_defs)
next
  case (stand_up i)
  have "pr_phase s k \<noteq> Sees i" if "k < N" for k
    using locks_okD(2) [OF assms(3), of i i k] stand_up that by (auto simp: holds_lock_def)
  with stand_up show ?thesis by (intro phases_keep [OF ok]) (auto simp: phase_ok_def protocol_defs)
next
  case (activate i j)
  have "pr_phase s j \<noteq> Leaves" "j < N"
    using locks_okD(2) [OF assms(3), of i j j] activate phases_okD(4) [OF ok, of i j] by (auto simp: holds_lock_def)
  moreover have "pr_phase s k \<noteq> Sees j" if "k < N" "k \<noteq> i" for k
    using locks_okD(2) [OF assms(3), of i j k] activate that \<open>j < N\<close> by (auto simp: holds_lock_def)
  ultimately show ?thesis using activate by (intro phases_keep [OF ok]) (auto simp: phase_ok_def protocol_defs)
qed (rule phases_keep [OF ok]; auto simp: phase_ok_def protocol_defs)+

text \<open>A step takes a lock that is free, or gives one up, or leaves the holders as they are.\<close>

lemma locks_keep:
  assumes "locks_ok N s" and "\<And>i j. holds_lock s' i j \<Longrightarrow> holds_lock s i j" and "pr_locked s' = pr_locked s"
  shows "locks_ok N s'"
  using assms unfolding locks_ok_def by metis

lemma locks_take:
  assumes "locks_ok N s" and "\<not> pr_locked s j" and "pr_locked s' = (pr_locked s)(j := True)"
    and "\<And>k m. holds_lock s' k m \<Longrightarrow> holds_lock s k m \<or> (k = i \<and> m = j)"
  shows "locks_ok N s'"
  using assms unfolding locks_ok_def by (metis fun_upd_apply)

lemma locks_give:
  assumes "locks_ok N s" and "i < N" and "j < N" and "holds_lock s i j" and "pr_locked s' = (pr_locked s)(j := False)"
    and "\<And>k m. holds_lock s' k m \<Longrightarrow> holds_lock s k m \<and> \<not> (k = i \<and> m = j)"
  shows "locks_ok N s'"
  using assms unfolding locks_ok_def by (metis fun_upd_apply)

lemma protocol_step_locks:
  assumes "protocol_step N s s'" and "phases_ok N s" and "locks_ok N s"
  shows "locks_ok N s'"
  using assms(1)
proof (cases rule: protocol_step.cases)
  case (check i)
  then show ?thesis by (intro locks_take [OF assms(3), of i _ i]) (auto simp: holds_lock_def protocol_defs split: if_splits)
next
  case (uncheck i)
  then show ?thesis by (intro locks_give [OF assms(3), of i i]) (auto simp: holds_lock_def protocol_defs split: if_splits)
next
  case (leave i)
  then show ?thesis by (intro locks_give [OF assms(3), of i i]) (auto simp: holds_lock_def protocol_defs split: if_splits)
next
  case (wake i)
  then show ?thesis by (intro locks_take [OF assms(3), of i _ i]) (auto simp: holds_lock_def protocol_defs split: if_splits)
next
  case (woken i)
  then show ?thesis by (intro locks_give [OF assms(3), of i i]) (auto simp: holds_lock_def protocol_defs split: if_splits)
next
  case (enters i)
  then show ?thesis by (intro locks_give [OF assms(3), of i i]) (auto simp: holds_lock_def protocol_defs split: if_splits)
next
  case (hold i j)
  then show ?thesis by (intro locks_take [OF assms(3), of j _ i]) (auto simp: holds_lock_def protocol_defs split: if_splits)
next
  case (release i j)
  with phases_okD(4) [OF assms(2), of i j] show ?thesis
    by (intro locks_give [OF assms(3), of i j]) (auto simp: holds_lock_def protocol_defs split: if_splits)
next
  case (unseen i j)
  with phases_okD(4) [OF assms(2), of i j] show ?thesis
    by (intro locks_give [OF assms(3), of i j]) (auto simp: holds_lock_def protocol_defs split: if_splits)
next
  case (count_in i j)
  with phases_okD(4) [OF assms(2), of i j] show ?thesis
    by (intro locks_give [OF assms(3), of i j]) (auto simp: holds_lock_def protocol_defs split: if_splits)
qed (rule locks_keep [OF assms(3)]; auto simp: holds_lock_def protocol_defs split: if_splits)+

text \<open>Work that is watched stays watched: the sender leaves only when the other is active or has none.\<close>

lemma watched_keep:
  assumes "watched N s"
    and "\<And>j. pr_work s' j \<Longrightarrow> \<not> pr_active s' j \<or> pr_phase s' j \<in> {Goes, Enters} \<Longrightarrow>
      pr_work s j \<and> (\<not> pr_active s j \<or> pr_phase s j \<in> {Goes, Enters})"
    and "\<And>i j. pr_phase s i \<in> {Sends j, Holds j, Sees j} \<Longrightarrow> pr_work s' j \<Longrightarrow> \<not> pr_active s' j \<or> pr_phase s' j \<in> {Goes, Enters} \<Longrightarrow>
      pr_phase s' i \<in> {Sends j, Holds j, Sees j}"
  shows "watched N s'"
  using assms unfolding watched_def by meson

lemma protocol_step_watched:
  assumes "protocol_step N s s'" and ok: "phases_ok N s" and locks: "locks_ok N s" and "watched N s"
  shows "watched N s'"
  using assms(1)
proof (cases rule: protocol_step.cases)
  case (work i b)
  with phases_okD(1) [OF ok, of i] show ?thesis
    by (intro watched_keep [OF assms(4)]) (auto simp: protocol_defs split: if_splits)
next
  case (send i j)
  have "\<exists>k<N. pr_phase s' k \<in> {Sends m, Holds m, Sees m}" if "m < N" "pr_work s' m" "\<not> pr_active s' m \<or> pr_phase s' m \<in> {Goes, Enters}" for m
  proof (cases "m = j")
    case True
    with send show ?thesis by (auto simp: protocol_defs intro!: exI [of _ i])
  next
    case False
    with send that have "pr_work s m \<and> (\<not> pr_active s m \<or> pr_phase s m \<in> {Goes, Enters})"
      by (auto simp: protocol_defs split: if_splits)
    with assms(4) that(1) obtain k where "k < N" "pr_phase s k \<in> {Sends m, Holds m, Sees m}" unfolding watched_def by blast
    with send show ?thesis by (intro exI [of _ k]) (auto simp: protocol_defs)
  qed
  then show ?thesis by (simp add: watched_def)
next
  case (stand_up i)
  with ok have "pr_work s i" using phases_okD(3) [OF ok, of i] by simp
  with stand_up show ?thesis by (intro watched_keep [OF assms(4)]) (auto simp: protocol_defs split: if_splits)
next
  case (release i j)
  have "pr_phase s j \<notin> {Goes, Enters}" "j < N"
    using locks_okD(2) [OF locks, of i j j] release phases_okD(4) [OF ok, of i j] by (auto simp: holds_lock_def)
  with release show ?thesis by (intro watched_keep [OF assms(4)]) (auto simp: protocol_defs split: if_splits)
next
  case (activate i j)
  have "pr_phase s j \<notin> {Goes, Enters}" "j < N"
    using locks_okD(2) [OF locks, of i j j] activate phases_okD(4) [OF ok, of i j] by (auto simp: holds_lock_def)
  with activate show ?thesis by (intro watched_keep [OF assms(4)]) (auto simp: protocol_defs split: if_splits)
qed (rule watched_keep [OF assms(4)]; auto simp: protocol_defs split: if_splits)+


text \<open>No thread is counted in by one that it counts in itself, directly or not.\<close>

lemma finite_counts_in: "finite (counts_in N s)"
proof -
  have "counts_in N s \<subseteq> (\<lambda>i. (i, (SOME j. pr_phase s i = Counts j))) ` {..<N}" by (auto simp: counts_in_def image_iff)
  then show ?thesis by (rule finite_subset) simp
qed

lemma protocol_step_acyclic:
  assumes "protocol_step N s s'" and ok: "phases_ok N s" and "acyclic (counts_in N s)"
  shows "acyclic (counts_in N s')"
proof (cases "\<exists>i j. i < N \<and> pr_phase s i = Sees j \<and> s' = enter_phase i (Counts j) (set_active_to j True s)")
  case True
  then obtain i j where i: "i < N" "pr_phase s i = Sees j" and s': "s' = enter_phase i (Counts j) (set_active_to j True s)"
    by blast
  have j: "j < N" "j \<noteq> i" using phases_okD(4) [OF ok i(1), of j] i(2) by auto
  have "(j, i) \<notin> (counts_in N s)\<^sup>*"
  proof
    assume "(j, i) \<in> (counts_in N s)\<^sup>*"
    with j(2) obtain k where "(j, k) \<in> counts_in N s" by (metis converse_rtranclE)
    with phases_okD(1) [OF ok j(1)] phases_okD(6) [OF ok i(1,2)] show False by (auto simp: counts_in_def)
  qed
  with assms(3) have "acyclic (insert (i, j) (counts_in N s))" by (simp add: acyclic_insert)
  moreover have "counts_in N s' \<subseteq> insert (i, j) (counts_in N s)"
    by (auto simp: counts_in_def s' protocol_defs split: if_splits)
  ultimately show ?thesis by (rule acyclic_subset)
next
  case False
  with assms(1) have "counts_in N s' \<subseteq> counts_in N s"
    by (cases rule: protocol_step.cases) (auto simp: counts_in_def protocol_defs split: if_splits)
  with assms(3) show ?thesis by (rule acyclic_subset)
qed

text \<open>So an active thread that is not in the counter leads back to one that is.\<close>

lemma active_leads_back:
  assumes ok: "phases_ok N s" and "acyclic (counts_in N s)" and "i < N" "pr_active s i" "pr_phase s i \<noteq> Enters"
  shows "\<exists>k \<in> counted_in N s. pr_active s k"
proof -
  have "wf (counts_in N s)" by (rule finite_acyclic_wf [OF finite_counts_in assms(2)])
  then show ?thesis using assms(3-5)
  proof (induction i rule: wf_induct_rule)
    case (less i)
    show ?case
    proof (cases "i \<in> counted_in N s")
      case False
      with less.prems obtain k where k: "k < N" "pr_phase s k = Counts i" by (auto simp: counted_in_def being_counted_def)
      show ?thesis
      proof (rule less.IH [OF _ k(1)])
        show "pr_active s k" using phases_okD(1) [OF ok k(1)] k(2) by simp
      qed (use k in \<open>auto simp: counts_in_def\<close>)
    qed (use less.prems in blast)
  qed
qed

section \<open>The counter\<close>

lemma finite_counted_in [simp]: "finite (counted_in N s)"
  by (simp add: counted_in_def)

text \<open>The threads that change the counter: the one that leaves it is in it, the others are not yet.\<close>

lemma leaves_counted: "i < N \<Longrightarrow> pr_phase s i = Leaves \<Longrightarrow> i \<in> counted_in N s"
  by (simp add: counted_in_def)

lemma enters_uncounted: "pr_phase s i = Enters \<Longrightarrow> i \<notin> counted_in N s"
  by (simp add: counted_in_def)

lemma counts_uncounted:
  assumes "phases_ok N s" and "locks_ok N s" and "i < N" and "pr_phase s i = Counts j"
  shows "j \<notin> counted_in N s" and "j < N"
proof -
  show j: "j < N" using phases_okD(4) [OF assms(1,3), of j] assms(4) by simp
  have "being_counted N s j" using assms(3,4) by (auto simp: being_counted_def)
  moreover have "pr_phase s j \<noteq> Leaves"
    using locks_okD(2) [OF assms(2), of i j j] phases_okD(4) [OF assms(1,3), of j] assms(3,4) by (auto simp: holds_lock_def)
  ultimately show "j \<notin> counted_in N s" by (simp add: counted_in_def)
qed

lemma card_less_missing: "(\<And>k. k \<in> A \<Longrightarrow> k < N) \<Longrightarrow> j < N \<Longrightarrow> j \<notin> A \<Longrightarrow> card A < (N :: nat)"
  using psubset_card_mono [of "{..<N}" A] by auto

lemma counted_in_less: "k \<in> counted_in N s \<Longrightarrow> k < N"
  by (simp add: counted_in_def)

lemma being_counted_keep:
  assumes "\<forall>j. pr_phase s i \<noteq> Counts j" and "\<forall>j. p \<noteq> Counts j" and "pr_phase s' = (pr_phase s)(i := p)"
  shows "being_counted N s' = being_counted N s"
  using assms by (auto simp: being_counted_def fun_eq_iff)

lemma being_counted_owner:
  assumes "phases_ok N s" and "locks_ok N s" and "i < N" and "j < N" and "holds_lock s i j" and "pr_phase s i \<noteq> Counts j"
  shows "\<not> being_counted N s j"
  using locks_okD(2) [OF assms(2,5,3,4)] assms(6) by (auto simp: being_counted_def holds_lock_def)

lemma counted_keep:
  assumes "pr_count s = card (counted_in N s)" and "pr_phase s i = q" and "\<forall>k. k \<noteq> i \<longrightarrow> pr_phase s' k = pr_phase s k"
    and "pr_count s' = pr_count s" and "\<forall>j. q \<noteq> Counts j" and "\<forall>j. pr_phase s' i \<noteq> Counts j" and "q \<noteq> Leaves"
    and "pr_phase s' i \<noteq> Leaves" and "pr_active s' i \<and> pr_phase s' i \<noteq> Enters \<longleftrightarrow> pr_active s i \<and> q \<noteq> Enters"
    and "\<forall>k. k \<noteq> i \<longrightarrow> pr_active s' k = pr_active s k"
  shows "pr_count s' = card (counted_in N s')"
proof -
  have "pr_phase s' = (pr_phase s)(i := pr_phase s' i)" using assms(3) by (auto simp: fun_eq_iff)
  then have counted: "being_counted N s' = being_counted N s" using assms being_counted_keep by blast
  have "k \<in> counted_in N s' \<longleftrightarrow> k \<in> counted_in N s" for k
    using assms(2,3,7-10) unfolding counted_in_def counted by (cases "k = i") auto
  then have "counted_in N s' = counted_in N s" by blast
  then show ?thesis using assms(1,4) by simp
qed

lemma protocol_step_counted:
  assumes "protocol_step N s s'" and ok: "phases_ok N s" and locks: "locks_ok N s"
    and card: "pr_count s = card (counted_in N s)"
  shows "pr_count s' = card (counted_in N s')"
  using assms(1)
proof (cases rule: protocol_step.cases)
  case (go i)
  have "\<not> being_counted N s i" by (rule being_counted_owner [OF ok locks, of i]) (simp_all add: go holds_lock_def)
  moreover have "being_counted N s' = being_counted N s"
    by (rule being_counted_keep [of s i Leaves]) (simp_all add: go protocol_defs)
  ultimately have "counted_in N s' = counted_in N s"
    using go phases_okD(1) [OF ok, of i] by (auto simp: counted_in_def protocol_defs)
  with go card show ?thesis by (simp add: protocol_defs)
next
  case (leave i)
  have "being_counted N s' = being_counted N s"
    by (rule being_counted_keep [of s i Idles]) (simp_all add: leave protocol_defs)
  with leave phases_okD(2) [OF ok, of i] have "counted_in N s' = counted_in N s - {i}"
    by (auto simp: counted_in_def protocol_defs)
  with leave card leaves_counted [of i N s] show ?thesis by (simp add: protocol_defs)
next
  case (enters i)
  have "\<not> being_counted N s i" by (rule being_counted_owner [OF ok locks, of i]) (simp_all add: enters holds_lock_def)
  moreover have "being_counted N s' = being_counted N s"
    by (rule being_counted_keep [of s i Works]) (simp_all add: enters protocol_defs)
  ultimately have "counted_in N s' = insert i (counted_in N s)"
    using enters phases_okD(1) [OF ok, of i] by (auto simp: counted_in_def protocol_defs)
  with enters card enters_uncounted [of s i N] show ?thesis by (simp add: protocol_defs)
next
  case (count_in i j)
  have j: "j < N" "j \<noteq> i" using phases_okD(4) [OF ok, of i j] count_in by auto
  have "pr_phase s k \<noteq> Counts j" if "k < N" "k \<noteq> i" for k
    using locks_okD(2) [OF locks, of i j k] count_in that j by (auto simp: holds_lock_def)
  then have counted: "being_counted N s' m \<longleftrightarrow> being_counted N s m \<and> m \<noteq> j" for m
    using count_in by (auto simp: being_counted_def protocol_defs) (metis phase.inject(4))
  have "pr_phase s j \<noteq> Enters" using locks_okD(2) [OF locks, of i j j] count_in j by (auto simp: holds_lock_def)
  moreover have "pr_phase s' = (pr_phase s)(i := Works)" "pr_active s' = pr_active s" using count_in by (simp_all add: protocol_defs)
  ultimately have "counted_in N s' = insert j (counted_in N s)"
    using count_in(3) phases_okD(1,5) [OF ok count_in(2)] j unfolding counted_in_def counted by auto
  with count_in card counts_uncounted [OF ok locks, of i j] show ?thesis by (simp add: protocol_defs)
next
  case (activate i j)
  have j: "j < N" "j \<noteq> i" using phases_okD(4) [OF ok, of i j] activate by auto
  have counted: "being_counted N s' m \<longleftrightarrow> being_counted N s m \<or> m = j" for m
    using activate by (auto simp: being_counted_def protocol_defs) (metis phase.simps)
  have "pr_phase s j \<noteq> Leaves" using locks_okD(2) [OF locks, of i j j] activate j by (auto simp: holds_lock_def)
  moreover have "pr_phase s' = (pr_phase s)(i := Counts j)" "pr_active s' = (pr_active s)(j := True)"
    using activate by (simp_all add: protocol_defs)
  ultimately have "counted_in N s' = counted_in N s"
    using activate(3) phases_okD(1,6) [OF ok activate(2)] j unfolding counted_in_def counted by auto
  with activate card show ?thesis by (simp add: protocol_defs)
next
  case stay
  with card show ?thesis by simp
next
  case (work i b)
  with card show ?thesis by (simp add: counted_in_def being_counted_def protocol_defs)
qed (erule counted_keep [OF card]; simp add: protocol_defs)+

section \<open>What the protocol promises\<close>

theorem protocol_inv_step:
  assumes "protocol_step N s s'" and "protocol_inv N s"
  shows "protocol_inv N s'"
  using assms protocol_step_phases protocol_step_locks protocol_step_watched protocol_step_acyclic protocol_step_counted
  unfolding protocol_inv_def by blast

text \<open>The assertions of the barrier hold.\<close>

theorem protocol_counter:
  assumes "protocol_inv N s" and "i < N"
  shows "pr_phase s i = Leaves \<Longrightarrow> 0 < pr_count s" and "pr_phase s i = Enters \<Longrightarrow> pr_count s < N"
    and "pr_phase s i = Counts j \<Longrightarrow> pr_count s < N"
proof -
  note inv = assms(1) [unfolded protocol_inv_def]
  show "0 < pr_count s" if "pr_phase s i = Leaves" using leaves_counted [OF assms(2) that] inv by (auto simp: card_gt_0_iff)
  show "pr_count s < N" if "pr_phase s i = Enters"
    using card_less_missing [OF counted_in_less assms(2) enters_uncounted [OF that]] inv by simp
  show "pr_count s < N" if "pr_phase s i = Counts j"
    using card_less_missing [of "counted_in N s" N j] counts_uncounted [OF _ _ assms(2) that] counted_in_less inv by simp
qed

text \<open>When the last thread leaves the counter, nobody is active and nobody has work.\<close>

theorem protocol_detects:
  assumes inv: "protocol_inv N s" and "i < N" and "pr_phase s i = Leaves" and "pr_count s = 1" and j: "j < N"
  shows "\<not> pr_active s j" and "\<not> pr_work s j" and "j \<noteq> i \<Longrightarrow> pr_phase s j = Idles"
proof -
  note inv' = inv [unfolded protocol_inv_def]
  have "card (counted_in N s) = 1" using inv' assms(4) by simp
  then obtain k where "counted_in N s = {k}" by (rule card_1_singletonE)
  with leaves_counted [OF assms(2,3)] have only: "counted_in N s = {i}" by simp
  have quiet: "pr_phase s k = Enters" if "k < N" "pr_active s k" for k
  proof (rule ccontr)
    assume "pr_phase s k \<noteq> Enters"
    with active_leads_back [of N s k] inv' that only have "pr_active s i" by simp
    with phases_okD(2) [of N s i] inv' assms(2,3) show False by simp
  qed
  have workless: "\<not> pr_work s k" if "k < N" "\<not> pr_active s k \<or> pr_phase s k = Enters" for k
  proof
    assume "pr_work s k"
    with inv' that obtain m where m: "m < N" "pr_phase s m \<in> {Sends k, Holds k, Sees k}" unfolding watched_def by blast
    then have "pr_active s m" using phases_okD(1) [of N s m] inv' by auto
    with quiet [OF m(1)] m(2) show False by auto
  qed
  show "\<not> pr_active s j" using workless [OF j] quiet [OF j] phases_okD(3) [of N s j] inv' j by auto
  with workless j show "\<not> pr_work s j" by blast
  show "pr_phase s j = Idles" if "j \<noteq> i"
  proof (rule ccontr)
    assume "pr_phase s j \<noteq> Idles"
    then consider "pr_phase s j = Leaves" | "pr_phase s j = Wakes" | "pr_phase s j \<notin> {Idles, Leaves, Wakes}" by blast
    then show False
    proof cases
      case 1
      with only that j leaves_counted [of j N s] show False by simp
    next
      case 2
      with \<open>\<not> pr_work s j\<close> phases_okD(3) [of N s j] inv' j show False by simp
    next
      case 3
      with \<open>\<not> pr_active s j\<close> phases_okD(1) [of N s j] inv' j show False by simp
    qed
  qed
qed

end
