(* ===== verification/Thread_Safety.thy ===== *)
theory Thread_Safety
  imports Thread_Sched Thread_Protocol
begin

text \<open>
  The threads with fixed nodes leave the first iteration together: until the leader of the
  round decides, no assertion about the activity of the threads and the counter of the barrier
  fails, and when \<open>done\<close> is set no thread is at work and no tuple waits anywhere, provided that
  nobody looks for the work of a thread that is moving a tuple from its buffer to its queue.
  The steps of \<open>Thread_Sched\<close> are steps of the protocol of \<open>Thread_Protocol\<close>, and its invariant
  does the rest. Two runs at the end show that it is no longer so without the proviso
  (\<open>retrieval_ends_early\<close>) or in a later iteration (\<open>later_iteration_ends_early\<close>).
\<close>

section \<open>The protocol behind the places\<close>

fun phase_of :: "place \<Rightarrow> phase" where
  "phase_of Busy_Locked = Checks"
| "phase_of Going_Idle = Goes"
| "phase_of Counting_Out = Leaves"
| "phase_of (Waken_Locked c) = Wakes"
| "phase_of (Counting_In c) = Enters"
| "phase_of (Wake_Lock j) = Sends j"
| "phase_of (Wake_Locked j) = Holds j"
| "phase_of (Wake_Queue j) = Sees j"
| "phase_of (Wake_Buffer j) = Sees j"
| "phase_of (Wake_Set j) = Sees j"
| "phase_of (Wake_Count j) = Counts j"
| "phase_of Next = Works"
| "phase_of Look = Works"
| "phase_of Test_Work = Works"
| "phase_of Pop_Node = Works"
| "phase_of (Waken In_Get_Work) = Works"
| "phase_of Running = Works"
| "phase_of Busy_Work = Works"
| "phase_of Busy_Lock = Works"
| "phase_of p = Idles"

text \<open>A tuple for the thread may also be on its way from the buffer to the queue.\<close>

definition under_way :: "tthread \<Rightarrow> bool" where
  "under_way t \<longleftrightarrow> thread_has_work t \<or> tt_taken t \<noteq> None"

definition protocol_of :: "threads \<Rightarrow> protocol" where
  "protocol_of s =
     \<lparr>pr_phase = (\<lambda>i. if i < length (ts_threads s) then phase_of (tt_place (ts_threads s ! i)) else Idles),
      pr_active = (\<lambda>i. i < length (ts_threads s) \<and> is_active (ts_threads s ! i)),
      pr_work = (\<lambda>i. i < length (ts_threads s) \<and> under_way (ts_threads s ! i)),
      pr_locked = (\<lambda>i. i < length (ts_threads s) \<and> tt_locked (ts_threads s ! i)),
      pr_count = ts_active s\<rparr>"

lemma protocol_of_simps [simp]:
  "i < length (ts_threads s) \<Longrightarrow> pr_phase (protocol_of s) i = phase_of (tt_place (ts_threads s ! i))"
  "i < length (ts_threads s) \<Longrightarrow> pr_active (protocol_of s) i = is_active (ts_threads s ! i)"
  "i < length (ts_threads s) \<Longrightarrow> pr_work (protocol_of s) i = under_way (ts_threads s ! i)"
  "i < length (ts_threads s) \<Longrightarrow> pr_locked (protocol_of s) i = tt_locked (ts_threads s ! i)"
  "pr_count (protocol_of s) = ts_active s"
  by (simp_all add: protocol_of_def)

text \<open>What the accesses to shared variables are to the protocol, and to the threads.\<close>

named_theorems thread_access

lemma length_threads [thread_access]:
  "length (ts_threads (set_thread i t s)) = length (ts_threads s)" "length (ts_threads (goto i p s)) = length (ts_threads s)"
  "length (ts_threads (lock_thread i s)) = length (ts_threads s)" "length (ts_threads (unlock_thread i s)) = length (ts_threads s)"
  "length (ts_threads (write_state i x s)) = length (ts_threads s)"
  by (simp_all add: set_thread_def goto_def lock_thread_def unlock_thread_def write_state_def)

lemma protocol_of_access [thread_access]:
  assumes "i < length (ts_threads s)"
  shows "protocol_of (goto i p s) = enter_phase i (phase_of p) (protocol_of s)"
    and "protocol_of (lock_thread i s) = set_locked i True (protocol_of s)"
    and "protocol_of (unlock_thread i s) = set_locked i False (protocol_of s)"
    and "protocol_of (write_state i x s) = set_active_to i (x = THREAD_ACTIVE) (protocol_of s)"
  using assms
  by (simp_all add: protocol_of_def goto_def set_thread_def lock_thread_def unlock_thread_def write_state_def protocol_defs
      is_active_def under_way_def thread_has_work_def fun_eq_iff nth_list_update)

lemma protocol_of_counter [thread_access]:
  "protocol_of (s\<lparr>ts_active := n\<rparr>) = set_count n (protocol_of s)"
  "protocol_of (s\<lparr>ts_active := n, ts_done := b\<rparr>) = set_count n (protocol_of s)"
  by (simp_all add: protocol_of_def protocol_defs cong: if_cong)

text \<open>A thread replaced by itself with other work.\<close>

lemma protocol_of_thread [thread_access]:
  assumes "i < length (ts_threads s)" and "tt_state t = tt_state (ts_threads s ! i)" and "tt_locked t = tt_locked (ts_threads s ! i)"
  shows "protocol_of (set_thread i t s) =
    enter_phase i (phase_of (tt_place t)) (set_work i (under_way t) (protocol_of s))"
  using assms
  by (simp add: protocol_of_def set_thread_def protocol_defs is_active_def fun_eq_iff nth_list_update)

lemma set_same [simp]:
  "pr_phase P i = q \<Longrightarrow> enter_phase i q P = P" "pr_work P i = b \<Longrightarrow> set_work i b P = P"
  by (hypsubst, simp add: protocol_defs)+

section \<open>What holds of a thread\<close>

definition queued_right :: "tthread \<Rightarrow> bool" where
  "queued_right t \<longleftrightarrow> (\<exists>xs. waiting (tt_own t) xs)"

definition no_current :: "tthread \<Rightarrow> bool" where
  "no_current t \<longleftrightarrow> ss_current (tt_own t) = None"

definition current_busy :: "tthread \<Rightarrow> bool" where
  "current_busy t \<longleftrightarrow> (\<forall>c. ss_current (tt_own t) = Some c \<longrightarrow> has_work c (tt_own t))"

text \<open>In the places before the round, without what the others change.\<close>

fun place_ok :: "place \<Rightarrow> tthread \<Rightarrow> bool" where
  "place_ok Next t = True"
| "place_ok Look t = current_busy t"
| "place_ok (Waken In_Get_Work) t = (\<not> no_current t \<and> current_busy t)"
| "place_ok (Waken In_Busy_Wait) t = (no_current t \<and> thread_has_work t)"
| "place_ok (Waken_Lock In_Busy_Wait) t = (no_current t \<and> thread_has_work t)"
| "place_ok (Waken_Locked In_Busy_Wait) t = (no_current t \<and> thread_has_work t)"
| "place_ok (Counting_In In_Busy_Wait) t = (no_current t \<and> thread_has_work t)"
| "place_ok (Waken_Lock In_Get_Work) t = False"
| "place_ok (Waken_Locked In_Get_Work) t = False"
| "place_ok (Counting_In In_Get_Work) t = False"
| "place_ok Running t = (\<not> no_current t)"
| "place_ok (Wake_Lock j) t = (\<not> no_current t)"
| "place_ok (Wake_Locked j) t = (\<not> no_current t)"
| "place_ok (Wake_Queue j) t = (\<not> no_current t)"
| "place_ok (Wake_Buffer j) t = (\<not> no_current t)"
| "place_ok (Wake_Set j) t = (\<not> no_current t)"
| "place_ok (Wake_Count j) t = (\<not> no_current t)"
| "place_ok p t = (no_current t \<and>
     p \<in> {Test_Work, Pop_Node, Busy, Busy_Retrieve, Busy_Active, Busy_Work, Busy_Lock, Busy_Locked, Going_Idle, Counting_Out, Busy_Done})"

definition thread_ok :: "tthread \<Rightarrow> bool" where
  "thread_ok t \<longleftrightarrow> queued_right t \<and> place_ok (tt_place t) t \<and> tt_round t = 1 \<and>
     (tt_taken t \<noteq> None \<longrightarrow> no_current t \<and> tt_place t \<in> {Look, Busy_Retrieve})"

definition threads_ok :: "threads \<Rightarrow> bool" where
  "threads_ok s \<longleftrightarrow> (\<forall>t \<in> set (ts_threads s). thread_ok t)"

lemma work_cong:
  "tt_own t' = tt_own t \<Longrightarrow> no_current t' = no_current t \<and> current_busy t' = current_busy t \<and> queued_right t' = queued_right t"
  by (simp add: no_current_def current_busy_def queued_right_def)

lemma place_ok_mono:
  assumes "place_ok p t" and "tt_own t' = tt_own t" and "thread_has_work t \<Longrightarrow> thread_has_work t'"
  shows "place_ok p t'"
  using assms work_cong [OF assms(2)] by (cases "(p, t)" rule: place_ok.cases) auto

lemma threads_okD: "threads_ok s \<Longrightarrow> i < length (ts_threads s) \<Longrightarrow> thread_ok (ts_threads s ! i)"
  by (simp add: threads_ok_def)

lemma threads_ok_set:
  assumes "threads_ok s" and "i < length (ts_threads s) \<Longrightarrow> thread_ok t"
  shows "threads_ok (set_thread i t s)"
proof (cases "i < length (ts_threads s)")
  case True
  then show ?thesis
    using assms set_update_subset_insert [of "ts_threads s" i t] by (auto simp: threads_ok_def set_thread_def)
qed (use assms(1) in \<open>simp add: set_thread_def threads_ok_def list_update_beyond\<close>)

lemma threads_ok_frame: "ts_threads s' = ts_threads s \<Longrightarrow> threads_ok s' = threads_ok s"
  by (simp add: threads_ok_def)

lemma threads_ok_goto:
  assumes "threads_ok s" and "i < length (ts_threads s)" and "place_ok p (ts_threads s ! i)"
    and "tt_place (ts_threads s ! i) \<in> {Look, Busy_Retrieve} \<Longrightarrow> tt_taken (ts_threads s ! i) = None"
  shows "threads_ok (goto i p s)"
proof -
  let ?t = "(ts_threads s ! i)\<lparr>tt_place := p\<rparr>"
  have ok: "thread_ok (ts_threads s ! i)" by (rule threads_okD [OF assms(1,2)])
  then have "tt_taken (ts_threads s ! i) = None" using assms(4) unfolding thread_ok_def by blast
  then have "tt_taken ?t = None" by simp
  moreover have "place_ok p ?t" by (rule place_ok_mono [OF assms(3)]) (simp_all add: thread_has_work_def)
  moreover have "queued_right ?t" "tt_round ?t = 1" using ok work_cong [of ?t "ts_threads s ! i"] by (simp_all add: thread_ok_def)
  ultimately show ?thesis unfolding goto_def by (intro threads_ok_set [OF assms(1)]) (simp add: thread_ok_def)
qed

text \<open>Locks and activity are no part of it.\<close>

lemma thread_ok_other:
  assumes "thread_ok t" and "tt_own t' = tt_own t" and "tt_place t' = tt_place t" and "tt_round t' = tt_round t"
    and "tt_taken t' = tt_taken t" and "thread_has_work t \<Longrightarrow> thread_has_work t'"
  shows "thread_ok t'"
  using assms work_cong [OF assms(2)] place_ok_mono [OF _ assms(2), of "tt_place t"] by (simp add: thread_ok_def)

lemma threads_ok_other:
  assumes "threads_ok s"
  shows "threads_ok (lock_thread i s)" and "threads_ok (unlock_thread i s)" and "threads_ok (write_state i x s)"
  unfolding lock_thread_def unlock_thread_def write_state_def
  by (rule threads_ok_set [OF assms], erule thread_ok_other [OF threads_okD [OF assms]]; simp add: thread_has_work_def)+

lemma own_access [thread_access]:
  assumes "i < length (ts_threads s)"
  shows "tt_own (ts_threads (lock_thread j s) ! i) = tt_own (ts_threads s ! i)"
    and "tt_own (ts_threads (unlock_thread j s) ! i) = tt_own (ts_threads s ! i)"
    and "tt_own (ts_threads (write_state j x s) ! i) = tt_own (ts_threads s ! i)"
    and "thread_has_work (ts_threads (lock_thread j s) ! i) = thread_has_work (ts_threads s ! i)"
    and "thread_has_work (ts_threads (unlock_thread j s) ! i) = thread_has_work (ts_threads s ! i)"
    and "thread_has_work (ts_threads (write_state j x s) ! i) = thread_has_work (ts_threads s ! i)"
    and "tt_taken (ts_threads (lock_thread j s) ! i) = tt_taken (ts_threads s ! i)"
    and "tt_taken (ts_threads (unlock_thread j s) ! i) = tt_taken (ts_threads s ! i)"
    and "tt_taken (ts_threads (write_state j x s) ! i) = tt_taken (ts_threads s ! i)"
  using assms
  by (cases "i = j"; simp add: lock_thread_def unlock_thread_def write_state_def set_thread_def thread_has_work_def)+

lemma place_ok_other [thread_access]:
  assumes "i < length (ts_threads s)"
  shows "place_ok p (ts_threads (lock_thread j s) ! i) = place_ok p (ts_threads s ! i)"
    and "place_ok p (ts_threads (unlock_thread j s) ! i) = place_ok p (ts_threads s ! i)"
    and "place_ok p (ts_threads (write_state j x s) ! i) = place_ok p (ts_threads s ! i)"
  by (rule iffI; erule place_ok_mono; simp add: own_access assms)+

section \<open>The queues of a thread\<close>

lemma static_new_work_eq: "static_new_work n a l w = serial_new_work n a l w"
proof -
  have "res_bind (push_node n v) (set_in_queue n True) = res_bind (set_in_queue n True v) (push_node n)" if "\<not> ss_on_queue v n" for v
    using that by (cases "push_tail_node n (ss_nodes v)") (simp_all add: push_node_def set_in_queue_def)
  then show ?thesis unfolding static_new_work_def serial_new_work_def by (intro res_bind_cong) auto
qed

lemma dq_empty_iff: "waiting w xs \<Longrightarrow> dq_empty (ss_nodes w) \<longleftrightarrow> xs = []"
  by (rule dq_empty_rep [OF waitingD(1)])

lemma static_new_work_ok:
  assumes "waiting w xs" and "static_new_work n a l w = Inr u"
  shows "\<exists>ys. waiting u ys" and "ss_current u = ss_current w" and "ss_current w = None \<Longrightarrow> \<not> dq_empty (ss_nodes u)"
proof -
  note w = new_work_waiting [OF assms(1) assms(2) [unfolded static_new_work_eq]]
  from w show "\<exists>ys. waiting u ys" and "ss_current u = ss_current w" by blast+
  show "\<not> dq_empty (ss_nodes u)" if "ss_current w = None"
    using dq_empty_iff [OF w(1)] waitingD(2) [OF assms(1), of n] that by auto
qed

lemma take_tuple_ok:
  assumes "tt_buffer t \<noteq> []"
  shows "\<exists>t'. take_tuple t = Inr t' \<and> tt_own t' = tt_own t \<and> tt_taken t' \<noteq> None \<and> tt_state t' = tt_state t \<and>
    tt_locked t' = tt_locked t \<and> tt_round t' = tt_round t \<and> tt_place t' = tt_place t"
  using assms by (auto simp: take_tuple_def neq_Nil_conv)

lemma queue_taken_ok:
  assumes "queue_taken x t = Inr t'" and "queued_right t"
  shows "queued_right t'" and "ss_current (tt_own t') = ss_current (tt_own t)" and "no_current t \<Longrightarrow> thread_has_work t'"
    and "tt_taken t' = None" and "tt_state t' = tt_state t" and "tt_locked t' = tt_locked t" and "tt_round t' = tt_round t"
    and "tt_place t' = tt_place t"
proof -
  obtain n a l w where w: "static_new_work n a l (tt_own t) = Inr w" and t': "t' = t\<lparr>tt_own := w, tt_taken := None\<rparr>"
    using assms(1) by (auto simp: queue_taken_def split: prod.splits elim!: res_bind_InrE)
  obtain xs where "waiting (tt_own t) xs" using assms(2) by (auto simp: queued_right_def)
  note u = static_new_work_ok [OF this w]
  show "queued_right t'" and "ss_current (tt_own t') = ss_current (tt_own t)" and "no_current t \<Longrightarrow> thread_has_work t'"
    and "tt_taken t' = None" and "tt_state t' = tt_state t" and "tt_locked t' = tt_locked t" and "tt_round t' = tt_round t"
    and "tt_place t' = tt_place t"
    using u by (simp_all add: t' queued_right_def no_current_def thread_has_work_def)
qed

lemma check_current_ok:
  assumes "waiting w xs" and "ss_current w = Some c"
  shows "\<exists>u. check_if_current_useless w = Inr u \<and> waiting u xs \<and> (\<forall>c. ss_current u = Some c \<longrightarrow> has_work c u)"
proof (cases "has_work c w")
  case False
  have "ss_on_queue w c" using waitingD(2) [OF assms(1)] assms(2) by simp
  then obtain v where v: "set_in_queue c False w = Inr v" by (auto simp: set_in_queue_def)
  with idle_current [OF assms False v] assms(2) False show ?thesis by (simp add: check_if_current_useless_def)
qed (use assms in \<open>simp add: check_if_current_useless_def\<close>)

lemma pop_current_ok:
  assumes w: "waiting w xs" and c: "ss_current w = None"
  shows "\<exists>u ys. pop_current w = Inr u \<and> waiting u ys \<and> (\<forall>c. ss_current u = Some c \<longrightarrow> has_work c u)"
proof (cases xs)
  case Nil
  with dq_empty_iff [OF w] w c show ?thesis by (auto simp: pop_current_def)
next
  case (Cons n ys)
  with dq_pop_rep [of "ss_nodes w" n ys] waitingD(1) [OF w] obtain d where d: "dq_pop (ss_nodes w) = Inr (Some n, d)" "dq_rep d ys"
    by blast
  let ?u = "w\<lparr>ss_nodes := d, ss_current := Some n\<rparr>"
  have u: "waiting ?u ys" using w Cons d(2) c by (auto simp: waiting_def has_work_def dq_rep_def)
  have "ss_on_queue w n" using waitingD(2) [OF w, of n] Cons by simp
  with d(1) dq_empty_iff [OF w] Cons have "pop_current w = check_if_current_useless ?u" by (simp add: pop_current_def)
  with check_current_ok [OF u] show ?thesis by auto
qed

section \<open>The steps\<close>

text \<open>
  One that looks for the work of another may miss a tuple that is on its way from the buffer
  to the queue. A thread that has gone on from the queue to the buffer found the queue empty.
\<close>

fun looks_at :: "place \<Rightarrow> nat option" where
  "looks_at (Wake_Queue j) = Some j"
| "looks_at (Wake_Buffer j) = Some j"
| "looks_at p = None"

definition tuple_in_hand :: "threads \<Rightarrow> nat \<Rightarrow> bool" where
  "tuple_in_hand s j \<longleftrightarrow> j < length (ts_threads s) \<and> tt_taken (ts_threads s ! j) \<noteq> None"

definition races :: "threads \<Rightarrow> bool" where
  "races s \<longleftrightarrow> (\<exists>t \<in> set (ts_threads s). case looks_at (tt_place t) of None \<Rightarrow> False | Some j \<Rightarrow> tuple_in_hand s j)"

definition looks_ok :: "threads \<Rightarrow> bool" where
  "looks_ok s \<longleftrightarrow> (\<forall>k<length (ts_threads s). \<forall>j. tt_place (ts_threads s ! k) = Wake_Buffer j \<longrightarrow>
     dq_empty (ss_nodes (tt_own (ts_threads s ! j))))"

lemma no_race:
  assumes "\<not> races s" and "k < length (ts_threads s)" and "j < length (ts_threads s)"
    and "tt_place (ts_threads s ! k) = Wake_Queue j \<or> tt_place (ts_threads s ! k) = Wake_Buffer j"
  shows "tt_taken (ts_threads s ! j) = None"
proof (rule ccontr)
  assume "tt_taken (ts_threads s ! j) \<noteq> None"
  with assms(3) have "tuple_in_hand s j" by (simp add: tuple_in_hand_def)
  moreover have "looks_at (tt_place (ts_threads s ! k)) = Some j" using assms(4) by auto
  ultimately show False using assms(1) nth_mem [OF assms(2)] by (force simp: races_def)
qed

lemma looks_goto:
  assumes "looks_ok s" and "\<And>j. p = Wake_Buffer j \<Longrightarrow> dq_empty (ss_nodes (tt_own (ts_threads s ! j)))"
  shows "looks_ok (goto i p s)"
proof (cases "i < length (ts_threads s)")
  case True
  then have "tt_own (ts_threads (goto i p s) ! k) = tt_own (ts_threads s ! k)" for k
    by (cases "k = i") (simp_all add: goto_def set_thread_def)
  moreover have "tt_place (ts_threads (goto i p s) ! k) = (if k = i then p else tt_place (ts_threads s ! k))" for k
    using True by (simp add: goto_def set_thread_def)
  ultimately show ?thesis using assms by (auto simp: looks_ok_def goto_def set_thread_def split: if_splits)
qed (use assms(1) in \<open>simp add: goto_def set_thread_def looks_ok_def list_update_beyond\<close>)

lemma looks_set:
  assumes "looks_ok s" and "tt_place t = tt_place (ts_threads s ! i) \<or> (\<forall>j. tt_place t \<noteq> Wake_Buffer j)"
    and "tt_own t = tt_own (ts_threads s ! i) \<or> (\<forall>k<length (ts_threads s). tt_place (ts_threads s ! k) \<noteq> Wake_Buffer i)"
  shows "looks_ok (set_thread i t s)"
  unfolding looks_ok_def set_thread_def
proof (clarsimp, goal_cases)
  case (1 k j)
  have k: "tt_place (ts_threads s ! k) = Wake_Buffer j"
    using 1 assms(2) by (cases "k = i") auto
  with 1(1) assms(1) have empty: "dq_empty (ss_nodes (tt_own (ts_threads s ! j)))" by (auto simp: looks_ok_def)
  show ?case
  proof (cases "j = i \<and> i < length (ts_threads s)")
    case True
    with k 1(1) assms(3) have "tt_own t = tt_own (ts_threads s ! i)" by auto
    with empty True show ?thesis by simp
  next
    case False
    with empty show ?thesis by (cases "j = i") (simp_all add: list_update_beyond)
  qed
qed

lemma looks_other:
  assumes "looks_ok s"
  shows "looks_ok (lock_thread i s)" and "looks_ok (unlock_thread i s)" and "looks_ok (write_state i x s)"
  unfolding lock_thread_def unlock_thread_def write_state_def by (rule looks_set [OF assms]; simp)+

definition goes_well :: "nat \<Rightarrow> threads \<Rightarrow> threads \<Rightarrow> bool" where
  "goes_well i s s' \<longleftrightarrow>
     protocol_step (length (ts_threads s)) (protocol_of s) (protocol_of s') \<and> threads_ok s' \<and>
     looks_ok s' \<and> length (ts_threads s') = length (ts_threads s) \<and> ts_in_agg s' = ts_in_agg s \<and> ts_round s' = ts_round s \<and>
     (ts_done s' \<longrightarrow> tt_place (ts_threads s ! i) = Counting_Out \<and> ts_active s = 1)"

text \<open>Only queueing a tuple, or taking the tuples of a node, can fail: the levels are the program's.\<close>

definition queueing_fails :: "nat \<Rightarrow> choice \<Rightarrow> threads \<Rightarrow> bool" where
  "queueing_fails i ch s =
     (let t = ts_threads s ! i; p = tt_place t
      in if p = Look \<or> p = Busy_Retrieve then (case tt_taken t of None \<Rightarrow> False | Some x \<Rightarrow> \<not> is_ok (queue_taken x t))
         else if p = Running \<or> p = Round
         then (case ch of
             Own n a l \<Rightarrow> \<not> is_ok (static_new_work n a l (tt_own t))
           | Other j n a l \<Rightarrow> length (ts_threads s) \<le> j
           | Gather \<Rightarrow> \<not> is_ok (serial_gather_next (the (ss_current (tt_own t))) (tt_own t))
           | Leave \<Rightarrow> False)
         else False)"

definition sound_step :: "nat \<Rightarrow> choice \<Rightarrow> threads \<Rightarrow> threads res \<Rightarrow> bool" where
  "sound_step i ch s r \<longleftrightarrow> (case r of Inl e \<Rightarrow> queueing_fails i ch s | Inr s' \<Rightarrow> goes_well i s s')"

definition before_round :: "threads \<Rightarrow> bool" where
  "before_round s \<longleftrightarrow> \<not> ts_done s \<and> threads_ok s \<and> looks_ok s \<and> protocol_inv (length (ts_threads s)) (protocol_of s) \<and>
     ts_in_agg s = length (ts_threads s) \<and> ts_round s = 1"

lemma before_roundD:
  assumes "before_round s" and "i < length (ts_threads s)"
  shows "\<not> ts_done s" and "threads_ok s" and "place_ok (tt_place (ts_threads s ! i)) (ts_threads s ! i)"
    and "queued_right (ts_threads s ! i)" and "phases_ok (length (ts_threads s)) (protocol_of s)"
    and "phase_of (tt_place (ts_threads s ! i)) \<notin> {Idles, Leaves, Wakes} \<Longrightarrow> is_active (ts_threads s ! i)"
    and "tt_place (ts_threads s ! i) \<notin> {Look, Busy_Retrieve} \<or> \<not> no_current (ts_threads s ! i) \<Longrightarrow> tt_taken (ts_threads s ! i) = None"
    and "looks_ok s"
proof -
  show ok: "phases_ok (length (ts_threads s)) (protocol_of s)" and "\<not> ts_done s" and "threads_ok s" and "looks_ok s"
    using assms(1) by (simp_all add: before_round_def protocol_inv_def)
  with threads_okD [OF this(3) assms(2)]
  show "place_ok (tt_place (ts_threads s ! i)) (ts_threads s ! i)" and "queued_right (ts_threads s ! i)"
    and "tt_place (ts_threads s ! i) \<notin> {Look, Busy_Retrieve} \<or> \<not> no_current (ts_threads s ! i) \<Longrightarrow> tt_taken (ts_threads s ! i) = None"
    unfolding thread_ok_def by blast+
  show "is_active (ts_threads s ! i)" if "phase_of (tt_place (ts_threads s ! i)) \<notin> {Idles, Leaves, Wakes}"
    using phases_okD(1) [OF ok assms(2)] that assms(2) by simp
qed

lemma rest_access [thread_access]:
  "ts_done (set_thread i t s) = ts_done s" "ts_done (goto i p s) = ts_done s" "ts_done (lock_thread i s) = ts_done s"
  "ts_done (unlock_thread i s) = ts_done s" "ts_done (write_state i x s) = ts_done s"
  "ts_active (set_thread i t s) = ts_active s" "ts_active (goto i p s) = ts_active s" "ts_active (lock_thread i s) = ts_active s"
  "ts_active (unlock_thread i s) = ts_active s" "ts_active (write_state i x s) = ts_active s"
  "ts_in_agg (set_thread i t s) = ts_in_agg s" "ts_in_agg (goto i p s) = ts_in_agg s" "ts_in_agg (lock_thread i s) = ts_in_agg s"
  "ts_in_agg (unlock_thread i s) = ts_in_agg s" "ts_in_agg (write_state i x s) = ts_in_agg s"
  "ts_round (set_thread i t s) = ts_round s" "ts_round (goto i p s) = ts_round s" "ts_round (lock_thread i s) = ts_round s"
  "ts_round (unlock_thread i s) = ts_round s" "ts_round (write_state i x s) = ts_round s"
  by (simp_all add: set_thread_def goto_def lock_thread_def unlock_thread_def write_state_def)

lemma goto_well:
  assumes "before_round s" and "i < length (ts_threads s)" and "place_ok p (ts_threads s ! i)"
    and "protocol_step (length (ts_threads s)) (protocol_of s) (enter_phase i (phase_of p) (protocol_of s))"
    and "tt_place (ts_threads s ! i) \<in> {Look, Busy_Retrieve} \<Longrightarrow> tt_taken (ts_threads s ! i) = None"
    and "\<And>j. p = Wake_Buffer j \<Longrightarrow> dq_empty (ss_nodes (tt_own (ts_threads s ! j)))"
  shows "sound_step i ch s (Inr (goto i p s))"
  using assms(2,4) before_roundD(1) [OF assms(1,2)] threads_ok_goto [OF before_roundD(2) [OF assms(1,2)] assms(2,3,5)]
    looks_goto [OF before_roundD(8) [OF assms(1,2)] assms(6)]
  by (simp add: sound_step_def goes_well_def thread_access)

text \<open>A thread that works, or looks for work, and stays with its own.\<close>

lemma unlooked:
  assumes "before_round s" and i: "i < length (ts_threads s)" and k: "k < length (ts_threads s)"
    and "is_active (ts_threads s ! i) \<or> tt_taken (ts_threads s ! i) \<noteq> None \<and> \<not> races s"
  shows "tt_place (ts_threads s ! k) \<noteq> Wake_Buffer i"
proof
  assume p: "tt_place (ts_threads s ! k) = Wake_Buffer i"
  then have "\<not> is_active (ts_threads s ! i)"
    using phases_okD(6) [OF before_roundD(5) [OF assms(1) k] k, of i] i k by simp
  with assms(4) no_race [OF _ k i] p show False by auto
qed

lemma own_well:
  assumes "before_round s" and i: "i < length (ts_threads s)"
    and "tt_state t = tt_state (ts_threads s ! i)" and "tt_locked t = tt_locked (ts_threads s ! i)"
    and "tt_round t = tt_round (ts_threads s ! i)" and "queued_right t" and "place_ok (tt_place t) t"
    and "phase_of (tt_place t) = phase_of (tt_place (ts_threads s ! i))"
    and "phase_of (tt_place t) = Works \<or> under_way t = under_way (ts_threads s ! i)"
    and "tt_taken t \<noteq> None \<Longrightarrow> no_current t \<and> tt_place t \<in> {Look, Busy_Retrieve}"
    and "phase_of (tt_place t) = Works \<or> tt_own t = tt_own (ts_threads s ! i) \<or> tt_taken (ts_threads s ! i) \<noteq> None \<and> \<not> races s"
    and "\<And>j. tt_place t \<noteq> Wake_Buffer j"
  shows "goes_well i s (set_thread i t s)"
proof -
  note d = before_roundD [OF assms(1) i]
  have "enter_phase i (phase_of (tt_place t)) (set_work i (under_way t) (protocol_of s)) = set_work i (under_way t) (protocol_of s)"
    by (rule set_same) (simp add: set_work_def assms(8) i)
  moreover have "protocol_step (length (ts_threads s)) (protocol_of s) (set_work i (under_way t) (protocol_of s))"
  proof (cases "phase_of (tt_place t) = Works")
    case True
    with assms(8) i show ?thesis by (intro protocol_step.work) simp_all
  next
    case False
    with assms(9) i show ?thesis using protocol_step.stay by simp
  qed
  moreover have "threads_ok (set_thread i t s)"
    using threads_okD [OF d(2) i] assms(5-7,10) by (intro threads_ok_set [OF d(2)]) (simp add: thread_ok_def)
  moreover have "looks_ok (set_thread i t s)"
  proof (rule looks_set [OF d(8)])
    show "tt_own t = tt_own (ts_threads s ! i) \<or> (\<forall>k<length (ts_threads s). tt_place (ts_threads s ! k) \<noteq> Wake_Buffer i)"
      using assms(8,11) d(6) unlooked [OF assms(1) i] by auto
  qed (use assms(12) in blast)
  ultimately show ?thesis using protocol_of_thread [OF i assms(3,4)] d(1) by (simp add: goes_well_def thread_access)
qed

lemma own_step_well:
  assumes "before_round s" and i: "i < length (ts_threads s)" and "f (tt_own (ts_threads s ! i)) = Inr w"
    and "waiting w xs" and "place_ok p ((ts_threads s ! i)\<lparr>tt_own := w\<rparr>)"
    and "phase_of p = Works" and "phase_of (tt_place (ts_threads s ! i)) = Works" and "tt_taken (ts_threads s ! i) = None"
  shows "sound_step i ch s (own_step i f p s)"
proof -
  let ?t = "(ts_threads s ! i)\<lparr>tt_own := w, tt_place := p\<rparr>"
  have "place_ok p ?t" by (rule place_ok_mono [OF assms(5)]) (simp_all add: thread_has_work_def)
  moreover have "p \<noteq> Wake_Buffer j" for j using assms(6) by auto
  ultimately have "goes_well i s (set_thread i ?t s)" using assms by (intro own_well) (auto simp: queued_right_def)
  with assms(3) show ?thesis by (simp add: own_step_def sound_step_def)
qed

text \<open>Taking a tuple from the buffer and queueing it.\<close>

lemma retrieve_well:
  assumes b: "before_round s" and i: "i < length (ts_threads s)" and at: "tt_place (ts_threads s ! i) \<in> {Look, Busy_Retrieve}"
    and none: "no_current (ts_threads s ! i)" and p: "place_ok p (ts_threads s ! i)" "\<And>j. p \<noteq> Wake_Buffer j"
    and go: "protocol_step (length (ts_threads s)) (protocol_of s) (enter_phase i (phase_of p) (protocol_of s))"
    and race: "tt_place (ts_threads s ! i) = Look \<or> \<not> races s"
  shows "sound_step i ch s (retrieve_step i p s)"
proof -
  let ?t = "ts_threads s ! i"
  note d = before_roundD [OF b i]
  have here: "place_ok (tt_place ?t) t'" if "no_current t'" for t' using at that by (auto simp: current_busy_def no_current_def)
  show ?thesis
  proof (cases "tt_taken ?t")
    case None
    show ?thesis
    proof (cases "tt_buffer ?t = []")
      case True
      with None p go show ?thesis by (auto intro!: goto_well [OF b i] simp: retrieve_step_def)
    next
      case False
      from take_tuple_ok [OF this] obtain t' where take: "take_tuple ?t = Inr t'" and t': "tt_own t' = tt_own ?t"
        "tt_taken t' \<noteq> None" "tt_state t' = tt_state ?t" "tt_locked t' = tt_locked ?t" "tt_round t' = tt_round ?t"
        "tt_place t' = tt_place ?t" by blast
      have "under_way t' = under_way ?t" using False t'(2) by (simp add: under_way_def thread_has_work_def)
      moreover have "no_current t'" "queued_right t'" using t'(1) none d(4) work_cong [of t' ?t] by simp_all
      ultimately have "goes_well i s (set_thread i t' s)" using t' at here by (intro own_well [OF b i]) auto
      with None False take show ?thesis by (simp add: retrieve_step_def sound_step_def Let_def)
    qed
  next
    case (Some x)
    show ?thesis
    proof (cases "queue_taken x ?t")
      case (Inl e)
      with Some at show ?thesis by (auto simp: retrieve_step_def sound_step_def queueing_fails_def is_ok_iff)
    next
      case (Inr t')
      note t' = queue_taken_ok [OF Inr d(4)]
      have "no_current t'" using t'(2) none by (simp add: no_current_def)
      moreover have "under_way t' = under_way ?t" using t'(3) none Some by (simp add: under_way_def)
      ultimately have "goes_well i s (set_thread i t' s)"
        using t' at here race Some by (intro own_well [OF b i]) auto
      with Some Inr show ?thesis by (simp add: retrieve_step_def sound_step_def Let_def)
    qed
  qed
qed

lemma set_next_step_well:
  assumes b: "before_round s" and i: "i < length (ts_threads s)" and "tt_place (ts_threads s ! i) = p"
    and "set_next_step i p s = Some r"
  shows "sound_step i ch s r"
proof -
  let ?t = "ts_threads s ! i"
  note d = before_roundD [OF b i]
  obtain xs where w: "waiting (tt_own ?t) xs" using d(4) by (auto simp: queued_right_def)
  have r: "r = the (set_next_step i p s)" using assms(4) by simp
  consider "p = Next" | "p = Look" | "p = Test_Work" | "p = Pop_Node"
    using assms(4) by (cases p) (auto simp: set_next_step_def)
  then show ?thesis
  proof cases
    case 1
    show ?thesis
    proof (cases "ss_current (tt_own ?t)")
      case None
      with 1 have "r = Inr (goto i Look s)" by (simp add: r set_next_step_def)
      with None 1 assms(3) i show ?thesis
        using protocol_step.stay by (auto intro!: goto_well [OF b i] simp: current_busy_def)
    next
      case (Some c)
      from check_current_ok [OF w this] obtain u where u: "check_if_current_useless (tt_own ?t) = Inr u" "waiting u xs"
        "\<forall>c. ss_current u = Some c \<longrightarrow> has_work c u" by blast
      from Some 1 have "r = own_step i check_if_current_useless Look s" by (simp add: r set_next_step_def)
      with own_step_well [of s i check_if_current_useless, OF b i u(1,2), of Look] u(3) assms(3) 1 d(7)
      show ?thesis by (simp add: current_busy_def)
    qed
  next
    case 2
    show ?thesis
    proof (cases "ss_current (tt_own ?t)")
      case None
      with 2 have "r = retrieve_step i Test_Work s" by (simp add: r set_next_step_def)
      with retrieve_well [OF b i, of Test_Work] None 2 assms(3) protocol_step.stay [of "length (ts_threads s)" "protocol_of s"] i
      show ?thesis by (simp add: no_current_def)
    next
      case (Some c)
      with 2 have "r = Inr (goto i (Waken In_Get_Work) s)" by (simp add: r set_next_step_def)
      with Some 2 assms(3) i d(3,7) show ?thesis
        using protocol_step.stay by (auto intro!: goto_well [OF b i] simp: no_current_def)
    qed
  next
    case 3
    then have "r = Inr (goto i (if thread_has_work ?t then Pop_Node else Busy) s)" by (simp add: r set_next_step_def)
    with 3 assms(3) i d(3) show ?thesis
      using protocol_step.stay by (auto intro!: goto_well [OF b i] protocol_step.pause)
  next
    case 4
    then have "r = own_step i pop_current Look s" by (simp add: r set_next_step_def)
    moreover from d(3) 4 assms(3) have "ss_current (tt_own ?t) = None" by (simp add: no_current_def)
    with pop_current_ok [OF w] obtain u ys where u: "pop_current (tt_own ?t) = Inr u" "waiting u ys"
      "\<forall>c. ss_current u = Some c \<longrightarrow> has_work c u" by blast
    ultimately show ?thesis
      using own_step_well [of s i pop_current, OF b i u(1,2), of Look] u(3) assms(3) 4 d(7) by (simp add: current_busy_def)
  qed
qed

text \<open>A step under a lock: what is written, then where the thread goes.\<close>

lemma shared_well:
  assumes "before_round s" and i: "i < length (ts_threads s)" and v: "threads_ok v" "length (ts_threads v) = length (ts_threads s)"
    and "ts_in_agg v = ts_in_agg s" "ts_round v = ts_round s" and "place_ok p (ts_threads v ! i)"
    and "protocol_step (length (ts_threads s)) (protocol_of s) (enter_phase i (phase_of p) (protocol_of v))"
    and "ts_done v \<Longrightarrow> tt_place (ts_threads s ! i) = Counting_Out \<and> ts_active s = 1"
    and "looks_ok v" and "\<And>j. p \<noteq> Wake_Buffer j" and "tt_taken (ts_threads v ! i) = None"
  shows "sound_step i ch s (Inr (goto i p v))"
  using assms threads_ok_goto [OF v(1), of i p] looks_goto [of v p i] by (simp add: sound_step_def goes_well_def thread_access)

lemma goto_unlocked:
  assumes "before_round s" and i: "i < length (ts_threads s)" and "j < length (ts_threads s)" and "place_ok p (ts_threads s ! i)"
    and "protocol_step (length (ts_threads s)) (protocol_of s) (enter_phase i (phase_of p) (set_locked j False (protocol_of s)))"
    and "\<And>j. p \<noteq> Wake_Buffer j" and "tt_place (ts_threads s ! i) \<notin> {Look, Busy_Retrieve}"
  shows "sound_step i ch s (Inr (goto i p (unlock_thread j s)))"
  using assms before_roundD [OF assms(1) i] threads_ok_other looks_other
  by (intro shared_well [OF assms(1) i]) (simp_all add: thread_access)

lemma goto_locked:
  assumes "before_round s" and i: "i < length (ts_threads s)" and "j < length (ts_threads s)" and "place_ok p (ts_threads s ! i)"
    and "protocol_step (length (ts_threads s)) (protocol_of s) (enter_phase i (phase_of p) (set_locked j True (protocol_of s)))"
    and "\<And>j. p \<noteq> Wake_Buffer j" and "tt_place (ts_threads s ! i) \<notin> {Look, Busy_Retrieve}"
  shows "sound_step i ch s (Inr (goto i p (lock_thread j s)))"
  using assms before_roundD [OF assms(1) i] threads_ok_other looks_other
  by (intro shared_well [OF assms(1) i]) (simp_all add: thread_access)

lemma goto_written:
  assumes "before_round s" and i: "i < length (ts_threads s)" and "j < length (ts_threads s)" and "place_ok p (ts_threads s ! i)"
    and "protocol_step (length (ts_threads s)) (protocol_of s)
      (enter_phase i (phase_of p) (set_active_to j (x = THREAD_ACTIVE) (protocol_of s)))"
    and "\<And>j. p \<noteq> Wake_Buffer j" and "tt_place (ts_threads s ! i) \<notin> {Look, Busy_Retrieve}"
  shows "sound_step i ch s (Inr (goto i p (write_state j x s)))"
  using assms before_roundD [OF assms(1) i] threads_ok_other looks_other
  by (intro shared_well [OF assms(1) i]) (simp_all add: thread_access)

lemma goto_counted:
  assumes "before_round s" and i: "i < length (ts_threads s)" and j: "j < length (ts_threads s)" and "place_ok p (ts_threads s ! i)"
    and "protocol_step (length (ts_threads s)) (protocol_of s)
      (enter_phase i (phase_of p) (set_locked j False (set_count n (protocol_of s))))"
    and "b \<Longrightarrow> tt_place (ts_threads s ! i) = Counting_Out \<and> ts_active s = 1"
    and "\<And>j. p \<noteq> Wake_Buffer j" and "tt_place (ts_threads s ! i) \<notin> {Look, Busy_Retrieve}"
  shows "sound_step i ch s (Inr (goto i p (unlock_thread j (s\<lparr>ts_active := n, ts_done := b\<rparr>))))"
proof -
  have "threads_ok (s\<lparr>ts_active := n, ts_done := b\<rparr>)" "looks_ok (s\<lparr>ts_active := n, ts_done := b\<rparr>)"
    using before_roundD(2,8) [OF assms(1) i] by (simp_all add: threads_ok_def looks_ok_def)
  then show ?thesis
    using assms threads_ok_other looks_other before_roundD(7) [OF assms(1) i] by (intro shared_well [OF assms(1) i]) (simp_all add: thread_access)
qed

lemma barrier_is_active_ok:
  "\<not> ts_done s \<Longrightarrow> ts_active s < length (ts_threads s) \<Longrightarrow>
     barrier_is_active s = Inr (s\<lparr>ts_active := ts_active s + 1, ts_done := False\<rparr>)"
  by (cases s) (simp add: barrier_is_active_def)

lemma make_inactive_step_well:
  assumes b: "before_round s" and i: "i < length (ts_threads s)" and p: "tt_place (ts_threads s ! i) = p"
    and "make_inactive_step i p s = Some r"
  shows "sound_step i ch s r"
proof -
  let ?t = "ts_threads s ! i" and ?N = "length (ts_threads s)"
  note d = before_roundD [OF b i]
  have r: "r = the (make_inactive_step i p s)" using assms(4) by simp
  consider "p = Busy_Active" | "p = Busy_Work" | "p = Busy_Lock" | "p = Busy_Locked" | "p = Going_Idle" | "p = Counting_Out"
    using assms(4) by (cases p) (auto simp: make_inactive_step_def)
  then show ?thesis
  proof cases
    case 1
    then have "r = Inr (goto i (if is_active ?t then Busy_Work else Busy_Done) s)" by (simp add: r make_inactive_step_def)
    with 1 p i d(3) show ?thesis
      using protocol_step.stay by (auto intro!: goto_well [OF b i] protocol_step.resume)
  next
    case 2
    then have "r = Inr (goto i (if thread_has_work ?t then Busy_Done else Busy_Lock) s)" by (simp add: r make_inactive_step_def)
    with 2 p i d(3) show ?thesis
      using protocol_step.stay by (auto intro!: goto_well [OF b i] protocol_step.pause)
  next
    case 3
    with assms(4) have "\<not> tt_locked ?t" and "r = Inr (goto i Busy_Locked (lock_thread i s))"
      by (auto simp: make_inactive_step_def Let_def split: if_splits)
    with 3 p i d(3) show ?thesis by (auto intro!: goto_locked [OF b i i] protocol_step.check)
  next
    case 4
    then have "is_active ?t" using d(6) p by simp
    with 4 have "r = Inr (if thread_has_work ?t then goto i (Waken In_Busy_Wait) (unlock_thread i s) else goto i Going_Idle s)"
      by (simp add: r make_inactive_step_def)
    moreover have "under_way ?t = thread_has_work ?t" using d(7) 4 p by (simp add: under_way_def)
    ultimately show ?thesis using 4 p i d(3)
      by (auto intro!: goto_well [OF b i] goto_unlocked [OF b i i] protocol_step.uncheck protocol_step.going)
  next
    case 5
    then have "is_active ?t" using d(6) p by simp
    with 5 have "r = Inr (goto i Counting_Out (write_state i THREAD_INACTIVE s))" by (simp add: r make_inactive_step_def)
    with 5 p i d(3) show ?thesis by (auto intro!: goto_written [OF b i i] protocol_step.go)
  next
    case 6
    then have "0 < ts_active s"
      using protocol_counter(1) [of ?N "protocol_of s" i] b p i by (simp add: before_round_def)
    with 6 d(1) have "r = Inr (goto i Busy_Done (unlock_thread i (s\<lparr>ts_active := ts_active s - 1, ts_done := (ts_active s = 1)\<rparr>)))"
      by (simp add: r make_inactive_step_def barrier_is_inactive_def)
    with 6 p i d(3) show ?thesis
      using protocol_step.leave [of i ?N "protocol_of s"] by (auto intro!: goto_counted [OF b i i])
  qed
qed

lemma return_well:
  assumes b: "before_round s" and i: "i < length (ts_threads s)" and "place_ok (Waken c) (ts_threads s ! i)"
    and "is_active (ts_threads v ! i)" and "tt_own (ts_threads v ! i) = tt_own (ts_threads s ! i)"
    and "tt_buffer (ts_threads v ! i) = tt_buffer (ts_threads s ! i)"
  shows "return_step i c v = Inr (goto i (case c of In_Busy_Wait \<Rightarrow> Pop_Node | In_Get_Work \<Rightarrow> Running) v)"
proof (cases c)
  case In_Busy_Wait
  with assms show ?thesis by (simp add: return_step_def thread_has_work_def)
next
  case In_Get_Work
  with assms(3) obtain n where n: "ss_current (tt_own (ts_threads s ! i)) = Some n" "has_work n (tt_own (ts_threads s ! i))"
    by (auto simp: no_current_def current_busy_def)
  moreover obtain xs where "waiting (tt_own (ts_threads s ! i)) xs" using before_roundD(4) [OF b i] by (auto simp: queued_right_def)
  then have "ss_on_queue (tt_own (ts_threads s ! i)) n" using waitingD(2) n(1) by simp
  ultimately show ?thesis using assms(5) In_Get_Work by (simp add: return_step_def)
qed

lemma busy_step_well:
  assumes b: "before_round s" and i: "i < length (ts_threads s)" and p: "tt_place (ts_threads s ! i) = p"
    and "busy_step i p s = Some r" and race: "\<not> races s"
  shows "sound_step i ch s r"
proof -
  let ?t = "ts_threads s ! i"
  note d = before_roundD [OF b i]
  consider "p = Busy" | "p = Busy_Retrieve" | "p = Busy_Done" | "make_inactive_step i p s = Some r"
    using assms(4) by (cases p) (auto simp: busy_step_def)
  then show ?thesis
  proof cases
    case 1
    with assms(4) have "r = Inr (goto i (if thread_has_work ?t then Waken In_Busy_Wait else Busy_Retrieve) s)"
      by (simp add: busy_step_def)
    with 1 p i d(3) show ?thesis using protocol_step.stay by (auto intro!: goto_well [OF b i])
  next
    case 2
    with d(3) p have none: "no_current ?t" by simp
    from 2 assms(4) have "r = retrieve_step i Busy_Active s" by (simp add: busy_step_def)
    with retrieve_well [OF b i, of Busy_Active] none 2 p race protocol_step.stay [of "length (ts_threads s)" "protocol_of s"] i
    show ?thesis by simp
  next
    case 3
    with d(1) assms(4) have "r = Inr (goto i Busy s)" by (simp add: busy_step_def)
    with 3 p i d(3) show ?thesis using protocol_step.stay by (auto intro!: goto_well [OF b i])
  next
    case 4
    with make_inactive_step_well [OF b i p] show ?thesis .
  qed
qed

lemma waken_step_well:
  assumes b: "before_round s" and i: "i < length (ts_threads s)" and p: "tt_place (ts_threads s ! i) = p"
    and "waken_step i p s = Some r"
  shows "sound_step i ch s r"
proof -
  let ?t = "ts_threads s ! i" and ?N = "length (ts_threads s)"
  note d = before_roundD [OF b i]
  consider c where "p = Waken c" | c where "p = Waken_Lock c" | c where "p = Waken_Locked c" | c where "p = Counting_In c"
    using assms(4) by (cases p) (auto simp: waken_step_def)
  then show ?thesis
  proof cases
    case (1 c)
    show ?thesis
    proof (cases "is_active ?t")
      case True
      with 1 p assms(4) return_well [OF b i, of c s] d(3)
      have "r = Inr (goto i (case c of In_Busy_Wait \<Rightarrow> Pop_Node | In_Get_Work \<Rightarrow> Running) s)" by (simp add: waken_step_def)
      with 1 p i d(3) True show ?thesis
        using protocol_step.stay by (cases c) (auto intro!: goto_well [OF b i] protocol_step.resume)
    next
      case False
      with d(6) p 1 have "c = In_Busy_Wait" by (cases c) auto
      with 1 False p i d(3) assms(4) show ?thesis
        using protocol_step.stay by (auto intro!: goto_well [OF b i] simp: waken_step_def)
    qed
  next
    case (2 c)
    with p d(3) have c: "c = In_Busy_Wait" by (cases c) auto
    with 2 assms(4) have "\<not> tt_locked ?t" and "r = Inr (goto i (Waken_Locked c) (lock_thread i s))"
      by (auto simp: waken_step_def Let_def split: if_splits)
    with 2 c p i d(3) show ?thesis by (auto simp: under_way_def intro!: goto_locked [OF b i i] protocol_step.wake)
  next
    case (3 c)
    with p d(3) have c: "c = In_Busy_Wait" by (cases c) auto
    show ?thesis
    proof (cases "is_active ?t")
      case True
      have "is_active (ts_threads (unlock_thread i s) ! i)" "tt_own (ts_threads (unlock_thread i s) ! i) = tt_own ?t"
        "tt_buffer (ts_threads (unlock_thread i s) ! i) = tt_buffer ?t"
        using True i by (simp_all add: unlock_thread_def set_thread_def is_active_def)
      with 3 c p i d(3) True assms(4) return_well [OF b i, of c "unlock_thread i s"]
      have "r = Inr (goto i Pop_Node (unlock_thread i s))" by (simp add: waken_step_def)
      with 3 c p i d(3) True show ?thesis by (auto intro!: goto_unlocked [OF b i i] protocol_step.woken)
    next
      case False
      with 3 assms(4) have "r = Inr (goto i (Counting_In c) (write_state i THREAD_ACTIVE s))" by (simp add: waken_step_def)
      with 3 c p i d(3) False show ?thesis by (auto intro!: goto_written [OF b i i] protocol_step.stand_up)
    qed
  next
    case (4 c)
    with p d(3) have c: "c = In_Busy_Wait" by (cases c) auto
    have less: "ts_active s < ?N"
      using protocol_counter(2) [of ?N "protocol_of s" i] b p 4 i by (simp add: before_round_def)
    let ?v = "unlock_thread i (s\<lparr>ts_active := ts_active s + 1, ts_done := False\<rparr>)"
    have "is_active ?t" using d(6) p 4 by simp
    then have "is_active (ts_threads ?v ! i)" "tt_own (ts_threads ?v ! i) = tt_own ?t" "tt_buffer (ts_threads ?v ! i) = tt_buffer ?t"
      using i by (simp_all add: unlock_thread_def set_thread_def is_active_def)
    with return_well [OF b i, of c ?v] c d(3) p 4 have "return_step i c ?v = Inr (goto i Pop_Node ?v)" by simp
    with 4 less assms(4) d(1) have "r = Inr (goto i Pop_Node ?v)" by (simp add: waken_step_def barrier_is_active_ok)
    moreover have "sound_step i ch s (Inr (goto i Pop_Node ?v))"
      using protocol_step.enters [of i ?N "protocol_of s"] 4 c p i d(3) by (intro goto_counted [OF b i i]) simp_all
    ultimately show ?thesis by simp
  qed
qed

lemma wake_other_step_well:
  assumes b: "before_round s" and i: "i < length (ts_threads s)" and p: "tt_place (ts_threads s ! i) = p"
    and "wake_other_step i p s = Some r" and race: "\<not> races s"
  shows "sound_step i ch s r"
proof -
  let ?N = "length (ts_threads s)"
  note d = before_roundD [OF b i]
  have j: "j < ?N" if "phase_of p \<in> {Sends j, Holds j, Sees j, Counts j}" for j
    using phases_okD(4) [OF d(5) i, of j] that p i by simp
  have inactive: "\<not> is_active (ts_threads s ! j)" if "phase_of p = Sees j" for j
    using phases_okD(6) [OF d(5) i, of j] j [of j] that p i by simp
  consider j where "p = Wake_Lock j" | j where "p = Wake_Locked j" | j where "p = Wake_Queue j" | j where "p = Wake_Buffer j"
    | j where "p = Wake_Set j" | j where "p = Wake_Count j"
    using assms(4) by (cases p) (auto simp: wake_other_step_def)
  then show ?thesis
  proof cases
    case (1 j)
    with assms(4) have "\<not> tt_locked (ts_threads s ! j)" and "r = Inr (goto i (Wake_Locked j) (lock_thread j s))"
      by (auto simp: wake_other_step_def split: if_splits)
    with 1 p i d(3) j show ?thesis by (auto intro!: goto_locked [OF b i] protocol_step.hold)
  next
    case (2 j)
    with assms(4) have "r = Inr (if is_active (ts_threads s ! j) then goto i Running (unlock_thread j s) else goto i (Wake_Queue j) s)"
      by (simp add: wake_other_step_def)
    with 2 p i d(3) j show ?thesis
      by (auto intro!: goto_well [OF b i] goto_unlocked [OF b i] protocol_step.see protocol_step.release)
  next
    case (3 j)
    with assms(4) have "r = Inr (goto i (if dq_empty (ss_nodes (tt_own (ts_threads s ! j))) then Wake_Buffer j else Wake_Set j) s)"
      by (simp add: wake_other_step_def)
    with 3 p i d(3) j show ?thesis using protocol_step.stay by (auto intro!: goto_well [OF b i])
  next
    case (4 j)
    with assms(4) have r: "r = Inr (if tt_buffer (ts_threads s ! j) = [] then goto i Running (unlock_thread j s) else goto i (Wake_Set j) s)"
      by (simp add: wake_other_step_def)
    have "dq_empty (ss_nodes (tt_own (ts_threads s ! j)))" using d(8) 4 p i by (auto simp: looks_ok_def)
    moreover have "tt_taken (ts_threads s ! j) = None" using no_race [OF race i, of j] 4 p j by simp
    ultimately have "under_way (ts_threads s ! j) \<longleftrightarrow> tt_buffer (ts_threads s ! j) \<noteq> []"
      by (simp add: under_way_def thread_has_work_def)
    with r 4 p i d(3) j show ?thesis
      using protocol_step.stay by (auto intro!: goto_well [OF b i] goto_unlocked [OF b i] protocol_step.unseen)
  next
    case (5 j)
    with assms(4) inactive have "r = Inr (goto i (Wake_Count j) (write_state j THREAD_ACTIVE s))" by (simp add: wake_other_step_def)
    with 5 p i d(3) j show ?thesis by (auto intro!: goto_written [OF b i] protocol_step.activate)
  next
    case (6 j)
    have less: "ts_active s < ?N"
      using protocol_counter(3) [of ?N "protocol_of s" i j] b p 6 i by (simp add: before_round_def)
    with 6 assms(4) d(1) have "r = Inr (goto i Running (unlock_thread j (s\<lparr>ts_active := ts_active s + 1, ts_done := False\<rparr>)))"
      by (simp add: wake_other_step_def barrier_is_active_ok)
    moreover have "sound_step i ch s (Inr (goto i Running (unlock_thread j (s\<lparr>ts_active := ts_active s + 1, ts_done := False\<rparr>))))"
      using protocol_step.count_in [of i ?N "protocol_of s" j] 6 p i d(3) j by (intro goto_counted [OF b i]) simp_all
    ultimately show ?thesis by simp
  qed
qed

text \<open>A tuple pushed in the buffer of a thread.\<close>

lemma pushed_ok:
  assumes "threads_ok s" and "j < length (ts_threads s)"
  shows "threads_ok (set_thread j ((ts_threads s ! j)\<lparr>tt_buffer := tt_buffer (ts_threads s ! j) @ [x]\<rparr>) s)"
    and "protocol_of (set_thread j ((ts_threads s ! j)\<lparr>tt_buffer := tt_buffer (ts_threads s ! j) @ [x]\<rparr>) s) =
      set_work j True (protocol_of s)"
proof -
  let ?t = "(ts_threads s ! j)\<lparr>tt_buffer := tt_buffer (ts_threads s ! j) @ [x]\<rparr>"
  have "thread_ok ?t" by (rule thread_ok_other [OF threads_okD [OF assms]]) (simp_all add: thread_has_work_def)
  then show "threads_ok (set_thread j ?t s)" by (rule threads_ok_set [OF assms(1)])
  have "under_way ?t" by (simp add: thread_has_work_def under_way_def)
  then show "protocol_of (set_thread j ?t s) = set_work j True (protocol_of s)"
    using protocol_of_thread [OF assms(2), of ?t] assms(2) set_same(1) [of "set_work j True (protocol_of s)" j]
    by (simp add: set_work_def)
qed

lemma run_step_well:
  assumes b: "before_round s" and i: "i < length (ts_threads s)" and p: "tt_place (ts_threads s ! i) = Running"
  shows "sound_step i ch s (run_step i ch s)"
proof -
  let ?t = "ts_threads s ! i" and ?N = "length (ts_threads s)"
  note d = before_roundD [OF b i]
  obtain xs where w: "waiting (tt_own ?t) xs" using d(4) by (auto simp: queued_right_def)
  have taken: "tt_taken ?t = None" using d(7) p by simp
  from d(3) p obtain c where c: "ss_current (tt_own ?t) = Some c" by (auto simp: no_current_def)
  have fails: "queueing_fails i ch s \<Longrightarrow> sound_step i ch s (Inl e)" for e by (simp add: sound_step_def)
  show ?thesis
  proof (cases ch)
    case (Own n a l)
    show ?thesis
    proof (cases "static_new_work n a l (tt_own ?t)")
      case (Inl e)
      with Own p fails show ?thesis by (simp add: run_step_def own_step_def queueing_fails_def is_ok_iff)
    next
      case (Inr u)
      with static_new_work_ok [OF w Inr] obtain ys where "waiting u ys" "ss_current u = Some c" using c by auto
      with own_step_well [of s i "static_new_work n a l", OF b i Inr, of ys Running] p Own taken
      show ?thesis by (simp add: run_step_def no_current_def)
    qed
  next
    case (Other j n a l)
    have active: "is_active ?t" using d(6) p by simp
    show ?thesis
    proof (cases "j < ?N")
      case True
      let ?v = "set_thread j ((ts_threads s ! j)\<lparr>tt_buffer := tt_buffer (ts_threads s ! j) @ [(n, a, l)]\<rparr>) s"
      note v = pushed_ok [OF d(2) True, of "(n, a, l)"]
      have looks: "looks_ok ?v" by (rule looks_set [OF d(8)]) simp_all
      have r: "run_step i ch s = Inr (if j = i then ?v else goto i (Wake_Lock j) ?v)"
        using Other active True by (simp add: run_step_def Let_def)
      show ?thesis
      proof (cases "j = i")
        case True
        with r v p d(1) i looks protocol_step.work [of i ?N "protocol_of s" True] show ?thesis
          by (simp add: sound_step_def goes_well_def length_threads rest_access)
      next
        case False
        then have "ts_threads ?v ! i = ?t" by (simp add: set_thread_def)
        with r v p d(1,3) i False True looks taken protocol_step.send [of i ?N "protocol_of s" j]
        have "sound_step i ch s (Inr (goto i (Wake_Lock j) ?v))"
          by (intro shared_well [OF b i]) (simp_all add: thread_access)
        with r False show ?thesis by simp
      qed
    qed (use Other active p fails in \<open>simp add: run_step_def queueing_fails_def\<close>)
  next
    case Gather
    let ?f = "\<lambda>w. case ss_current w of None \<Rightarrow> Inl Bad_Access | Some c \<Rightarrow> res_bind (serial_gather_next c w) (\<lambda>(as, w'). Inr w')"
    show ?thesis
    proof (cases "serial_gather_next c (tt_own ?t)")
      case (Inl e)
      with Gather c p fails show ?thesis by (simp add: run_step_def own_step_def queueing_fails_def is_ok_iff)
    next
      case (Inr x)
      then obtain as u where x: "serial_gather_next c (tt_own ?t) = Inr (as, u)" by (cases x) simp
      note u = gather_next_waiting [OF w x c]
      have f: "?f (tt_own ?t) = Inr u" using c x by simp
      have "sound_step i ch s (own_step i ?f Running s)"
        using u c p taken by (intro own_step_well [where f = ?f, OF b i f u(1)]) (simp_all add: no_current_def)
      with Gather show ?thesis by (simp add: run_step_def)
    qed
  next
    case Leave
    let ?f = "\<lambda>w. case ss_current w of None \<Rightarrow> Inl Assert_Failed | Some c \<Rightarrow> if ss_on_queue w c then Inr w else Inl Assert_Failed"
    have f: "?f (tt_own ?t) = Inr (tt_own ?t)" using c waitingD(2) [OF w, of c] by simp
    have "sound_step i ch s (own_step i ?f Next s)"
      using p taken by (intro own_step_well [where f = ?f, OF b i f w]) simp_all
    with Leave show ?thesis by (simp add: run_step_def)
  qed
qed

lemma thread_step_well:
  assumes b: "before_round s" and i: "i < length (ts_threads s)" and "thread_step i ch s = Some r" and race: "\<not> races s"
  shows "sound_step i ch s r"
proof -
  let ?p = "tt_place (ts_threads s ! i)"
  have "place_ok ?p (ts_threads s ! i)" by (rule before_roundD [OF b i])
  then consider "set_next_step i ?p s = Some r" | "waken_step i ?p s = Some r" | "wake_other_step i ?p s = Some r"
    | "busy_step i ?p s = Some r" | "?p = Running" "r = run_step i ch s"
    using assms(3) by (cases ?p) (auto simp: thread_step_def)
  then show ?thesis
    using set_next_step_well [OF b i refl] waken_step_well [OF b i refl] wake_other_step_well [OF b i refl _ race]
      busy_step_well [OF b i refl _ race] run_step_well [OF b i] by cases auto
qed

section \<open>The round\<close>

text \<open>
  After \<open>done\<close>: a thread still in the loop of \<open>busy_wait\<close> is inactive and has nothing; one in
  the round only has what its own aggregates gave it, and after it has left \<open>total_in_agg\<close>
  it is active exactly when that is something.
\<close>

definition waits_idle :: "place \<Rightarrow> bool" where
  "waits_idle p \<longleftrightarrow> p \<in> {Busy, Busy_Retrieve, Busy_Active, Busy_Done}"

definition round_over :: "place \<Rightarrow> bool" where
  "round_over p \<longleftrightarrow> p \<in> {Leader_Wait, Leader_Decide, Follower_Wait}"

definition in_round :: "place \<Rightarrow> bool" where
  "in_round p \<longleftrightarrow> p \<in> {Round, Round_Work, Round_Count, Round_Leave} \<or> round_over p"

definition resting :: "nat \<Rightarrow> tthread \<Rightarrow> bool" where
  "resting i t \<longleftrightarrow> queued_right t \<and> no_current t \<and> tt_buffer t = [] \<and> tt_taken t = None \<and> tt_round t = 1 \<and>
     (waits_idle (tt_place t) \<or> in_round (tt_place t)) \<and>
     (waits_idle (tt_place t) \<longrightarrow> \<not> is_active t \<and> \<not> thread_has_work t) \<and>
     (tt_place t \<in> {Round, Round_Work} \<longrightarrow> \<not> is_active t) \<and>
     (tt_place t = Round_Count \<longrightarrow> is_active t \<and> thread_has_work t) \<and>
     (tt_place t = Round_Leave \<or> round_over (tt_place t) \<longrightarrow> (is_active t \<longleftrightarrow> thread_has_work t)) \<and>
     (tt_place t \<in> {Leader_Wait, Leader_Decide} \<longrightarrow> i = 0) \<and> (tt_place t = Follower_Wait \<longrightarrow> i \<noteq> 0)"

definition threads_where :: "(tthread \<Rightarrow> bool) \<Rightarrow> tthread list \<Rightarrow> nat set" where
  "threads_where P ts = {i. i < length ts \<and> P (ts ! i)}"

definition after_done :: "threads \<Rightarrow> bool" where
  "after_done s \<longleftrightarrow> ts_done s \<and> ts_round s = 1 \<and> (\<forall>i<length (ts_threads s). resting i (ts_threads s ! i)) \<and>
     ts_in_agg s = card (threads_where (\<lambda>t. \<not> round_over (tt_place t)) (ts_threads s)) \<and>
     ts_active s = card (threads_where (\<lambda>t. is_active t \<and> tt_place t \<noteq> Round_Count) (ts_threads s)) \<and>
     ((\<exists>t \<in> set (ts_threads s). tt_place t = Leader_Decide) \<longrightarrow> ts_in_agg s = 0)"

lemma waits_not_over: "waits_idle p \<Longrightarrow> \<not> round_over p \<and> p \<noteq> Leader_Decide"
  by (auto simp: waits_idle_def round_over_def)

lemma finite_threads_where [simp]: "finite (threads_where P ts)"
  by (simp add: threads_where_def)

lemma threads_where_update:
  "i < length ts \<Longrightarrow> threads_where P (ts[i := t]) = (if P t then insert i (threads_where P ts) else threads_where P ts - {i})"
  by (auto simp: threads_where_def nth_list_update)

lemma in_threads_where: "i \<in> threads_where P ts \<longleftrightarrow> i < length ts \<and> P (ts ! i)"
  by (simp add: threads_where_def)

lemma card_threads_where:
  assumes "i < length ts"
  shows "card (threads_where P (ts[i := t])) =
     (if P t then (if P (ts ! i) then card (threads_where P ts) else card (threads_where P ts) + 1)
      else (if P (ts ! i) then card (threads_where P ts) - 1 else card (threads_where P ts)))"
  using assms by (auto simp: threads_where_update in_threads_where insert_absorb)

lemma after_doneD:
  assumes "after_done s" and "i < length (ts_threads s)"
  shows "ts_done s" and "resting i (ts_threads s ! i)"
  using assms by (simp_all add: after_done_def)

text \<open>A step of the round changes one thread and the counters.\<close>

lemma after_done_update:
  assumes s: "after_done s" and i: "i < length (ts_threads s)" and r: "resting i t"
    and "ts_threads s' = (ts_threads s)[i := t]" and "ts_done s' = ts_done s" and "ts_round s' = ts_round s"
    and "ts_in_agg s' = (if \<not> round_over (tt_place t) \<or> round_over (tt_place (ts_threads s ! i)) then ts_in_agg s else ts_in_agg s - 1)"
    and "round_over (tt_place (ts_threads s ! i)) \<Longrightarrow> round_over (tt_place t)"
    and "ts_active s' = (if is_active t \<and> tt_place t \<noteq> Round_Count \<and> tt_place (ts_threads s ! i) = Round_Count then ts_active s + 1 else ts_active s)"
    and "is_active (ts_threads s ! i) \<and> tt_place (ts_threads s ! i) \<noteq> Round_Count \<Longrightarrow> is_active t \<and> tt_place t \<noteq> Round_Count"
    and "is_active t \<and> tt_place t \<noteq> Round_Count \<Longrightarrow> is_active (ts_threads s ! i)"
    and "tt_place t = Leader_Decide \<Longrightarrow> ts_in_agg s' = 0"
  shows "after_done s'"
proof -
  let ?P = "\<lambda>t. \<not> round_over (tt_place t)" and ?Q = "\<lambda>t. is_active t \<and> tt_place t \<noteq> Round_Count"
  note d = s [unfolded after_done_def]
  have c: "ts_in_agg s = card (threads_where ?P (ts_threads s))" "ts_active s = card (threads_where ?Q (ts_threads s))"
    using d by blast+
  have "ts_in_agg s' = card (threads_where ?P (ts_threads s'))"
    using card_threads_where [OF i, of ?P t] c(1) assms(8) unfolding assms(4,7)
    by (cases "round_over (tt_place t)"; cases "round_over (tt_place (ts_threads s ! i))") simp_all
  moreover have "ts_active s' = card (threads_where ?Q (ts_threads s'))"
  proof (cases "?Q t \<and> \<not> ?Q (ts_threads s ! i)")
    case True
    with assms(11) have "ts_active s' = ts_active s + 1" unfolding assms(9) by simp
    with card_threads_where [OF i, of ?Q t] c(2) True show ?thesis unfolding assms(4) by presburger
  next
    case False
    with assms(10) have same: "?Q t \<longleftrightarrow> ?Q (ts_threads s ! i)" by blast
    then have "ts_active s' = ts_active s" unfolding assms(9) by presburger
    moreover have "card (threads_where ?Q ((ts_threads s)[i := t])) = card (threads_where ?Q (ts_threads s))"
      unfolding card_threads_where [OF i, of ?Q t] using same by presburger
    ultimately show ?thesis using c(2) unfolding assms(4) by presburger
  qed
  moreover have "\<forall>k<length (ts_threads s'). resting k (ts_threads s' ! k)"
  proof (intro allI impI)
    fix k assume "k < length (ts_threads s')"
    with d r i show "resting k (ts_threads s' ! k)" by (cases "k = i") (simp_all add: assms(4))
  qed
  moreover have "ts_in_agg s' = 0" if "\<exists>t \<in> set (ts_threads s'). tt_place t = Leader_Decide"
  proof (cases "tt_place t = Leader_Decide")
    case False
    with that assms(4) set_update_subset_insert [of "ts_threads s" i t] have "\<exists>t \<in> set (ts_threads s). tt_place t = Leader_Decide"
      by auto
    with d assms(7) show ?thesis by auto
  qed (use assms(12) in simp)
  ultimately show ?thesis using d assms(5,6) by (simp add: after_done_def)
qed

definition round_step_ok :: "nat \<Rightarrow> choice \<Rightarrow> threads \<Rightarrow> threads res \<Rightarrow> bool" where
  "round_step_ok i ch s r \<longleftrightarrow>
     (case r of Inl e \<Rightarrow> queueing_fails i ch s | Inr s' \<Rightarrow> after_done s' \<and> length (ts_threads s') = length (ts_threads s))"

lemma resting_goto:
  assumes "resting i t" and "waits_idle p \<or> in_round p" and "waits_idle p \<Longrightarrow> waits_idle (tt_place t)"
    and "p \<in> {Round, Round_Work} \<Longrightarrow> \<not> is_active t" and "p \<noteq> Round_Count"
    and "p = Round_Leave \<or> round_over p \<Longrightarrow> (is_active t \<longleftrightarrow> thread_has_work t)"
    and "p \<in> {Leader_Wait, Leader_Decide} \<Longrightarrow> i = 0" and "p = Follower_Wait \<Longrightarrow> i \<noteq> 0"
  shows "resting i (t\<lparr>tt_place := p\<rparr>)"
  using assms by (simp add: resting_def queued_right_def no_current_def is_active_def thread_has_work_def)

lemma goto_rests:
  assumes s: "after_done s" and i: "i < length (ts_threads s)" and "resting i ((ts_threads s ! i)\<lparr>tt_place := p\<rparr>)"
    and "round_over p = round_over (tt_place (ts_threads s ! i))" and "(p = Round_Count) = (tt_place (ts_threads s ! i) = Round_Count)"
    and "p = Leader_Decide \<Longrightarrow> ts_in_agg s = 0"
  shows "round_step_ok i ch s (Inr (goto i p s))"
proof -
  have "after_done (goto i p s)"
    by (rule after_done_update [OF s i assms(3)]) (use assms(4-6) in \<open>auto simp: goto_def set_thread_def is_active_def\<close>)
  then show ?thesis by (simp add: round_step_ok_def thread_access)
qed

lemma busy_step_rests:
  assumes s: "after_done s" and i: "i < length (ts_threads s)" and w: "waits_idle (tt_place (ts_threads s ! i))"
    and "busy_step i (tt_place (ts_threads s ! i)) s = Some r"
  shows "round_step_ok i ch s r"
proof -
  let ?t = "ts_threads s ! i"
  note d = after_doneD [OF s i]
  have t: "\<not> is_active ?t" "\<not> thread_has_work ?t" "tt_buffer ?t = []" "tt_taken ?t = None" using d(2) w by (simp_all add: resting_def)
  have "\<exists>p. r = Inr (goto i p s) \<and> (waits_idle p \<or> p = Round)"
    using w assms(4) t d(1)
    by (auto simp: waits_idle_def busy_step_def make_inactive_step_def retrieve_step_def Let_def)
  then obtain p where r: "r = Inr (goto i p s)" and p: "waits_idle p \<or> p = Round" by blast
  have no: "\<not> round_over p" "\<not> round_over (tt_place ?t)" "p \<noteq> Round_Count" "tt_place ?t \<noteq> Round_Count" "p \<noteq> Leader_Decide"
    "p \<noteq> Leader_Wait" "p \<noteq> Follower_Wait" "p \<noteq> Round_Leave"
    using p w by (auto simp: waits_idle_def round_over_def)
  have "resting i (?t\<lparr>tt_place := p\<rparr>)"
    by (rule resting_goto [OF d(2)]) (use p w t no in \<open>auto simp: in_round_def\<close>)
  with no show ?thesis unfolding r by (intro goto_rests [OF s i]) auto
qed

lemma start_round_step_rests:
  assumes s: "after_done s" and i: "i < length (ts_threads s)"
    and "start_round_step i ch (tt_place (ts_threads s ! i)) s = Some r"
  shows "round_step_ok i ch s r"
proof -
  let ?t = "ts_threads s ! i"
  note d = after_doneD [OF s i]
  note t = d(2) [unfolded resting_def]
  obtain xs where w: "waiting (tt_own ?t) xs" using t by (auto simp: queued_right_def)
  consider "tt_place ?t = Round" | "tt_place ?t = Round_Work" | "tt_place ?t = Round_Count"
    using assms(3) by (cases "tt_place ?t") (auto simp: start_round_step_def)
  then show ?thesis
  proof cases
    case 1
    with t have idle: "\<not> is_active ?t" by simp
    show ?thesis
    proof (cases "\<exists>n a l. ch = Own n a l")
      case True
      then obtain n a l where ch: "ch = Own n a l" by blast
      show ?thesis
      proof (cases "static_new_work n a l (tt_own ?t)")
        case (Inl e)
        with 1 ch idle assms(3) show ?thesis
          by (auto simp: start_round_step_def own_step_def round_step_ok_def queueing_fails_def is_ok_iff)
      next
        case (Inr u)
        let ?t' = "?t\<lparr>tt_own := u, tt_place := Round\<rparr>"
        from 1 ch idle assms(3) Inr have r: "r = Inr (set_thread i ?t' s)"
          by (auto simp: start_round_step_def own_step_def)
        have "resting i ?t'"
          using t 1 idle static_new_work_ok [OF w Inr]
          by (simp add: resting_def queued_right_def no_current_def waits_idle_def in_round_def round_over_def is_active_def)
        then have "after_done (set_thread i ?t' s)"
          by (rule after_done_update [OF s i]) (use 1 idle in \<open>auto simp: set_thread_def is_active_def round_over_def\<close>)
        with r show ?thesis by (simp add: round_step_ok_def thread_access)
      qed
    next
      case False
      with 1 idle assms(3) have r: "r = Inr (goto i Round_Work s)"
        by (cases ch) (auto simp: start_round_step_def)
      have "resting i (?t\<lparr>tt_place := Round_Work\<rparr>)"
        by (rule resting_goto [OF d(2)]) (use idle in \<open>auto simp: in_round_def waits_idle_def round_over_def\<close>)
      with r 1 show ?thesis by (auto intro!: goto_rests [OF s i] simp: round_over_def)
    qed
  next
    case 2
    with t have idle: "\<not> is_active ?t" by simp
    show ?thesis
    proof (cases "thread_has_work ?t")
      case False
      with 2 assms(3) have r: "r = Inr (goto i Round_Leave s)" by (simp add: start_round_step_def)
      have "resting i (?t\<lparr>tt_place := Round_Leave\<rparr>)"
        by (rule resting_goto [OF d(2)]) (use idle False in \<open>auto simp: in_round_def waits_idle_def round_over_def\<close>)
      with r 2 show ?thesis by (auto intro!: goto_rests [OF s i] simp: round_over_def)
    next
      case True
      let ?t' = "?t\<lparr>tt_state := THREAD_ACTIVE, tt_place := Round_Count\<rparr>"
      from 2 idle True assms(3) i have r: "r = Inr (set_thread i ?t' s)"
        by (simp add: start_round_step_def goto_def write_state_def set_thread_def)
      have "resting i ?t'"
        using t True
        by (simp add: resting_def queued_right_def no_current_def waits_idle_def in_round_def round_over_def is_active_def thread_has_work_def)
      then have "after_done (set_thread i ?t' s)"
        by (rule after_done_update [OF s i]) (use 2 idle in \<open>auto simp: set_thread_def is_active_def round_over_def\<close>)
      with r show ?thesis by (simp add: round_step_ok_def thread_access)
    qed
  next
    case 3
    with t have active: "is_active ?t" "thread_has_work ?t" by simp_all
    let ?Q = "\<lambda>t. is_active t \<and> tt_place t \<noteq> Round_Count"
    have "ts_active s < length (ts_threads s)"
      using card_less_missing [of "threads_where ?Q (ts_threads s)" "length (ts_threads s)" i] s i 3
      by (simp add: after_done_def in_threads_where)
    with 3 assms(3) have r: "r = Inr (goto i Round_Leave (s\<lparr>ts_active := ts_active s + 1\<rparr>))"
      by (simp add: start_round_step_def barrier_is_active_def)
    have "resting i (?t\<lparr>tt_place := Round_Leave\<rparr>)"
      by (rule resting_goto [OF d(2)]) (use active in \<open>auto simp: in_round_def waits_idle_def round_over_def\<close>)
    then have "after_done (goto i Round_Leave (s\<lparr>ts_active := ts_active s + 1\<rparr>))"
      by (rule after_done_update [OF s i]) (use 3 active in \<open>auto simp: goto_def set_thread_def is_active_def round_over_def\<close>)
    with r show ?thesis by (simp add: round_step_ok_def thread_access)
  qed
qed

lemma end_round_step_rests:
  assumes s: "after_done s" and i: "i < length (ts_threads s)" and "tt_place (ts_threads s ! i) \<noteq> Leader_Decide"
    and "end_round_step i (tt_place (ts_threads s ! i)) s = Some r"
  shows "round_step_ok i ch s r"
proof -
  let ?t = "ts_threads s ! i"
  note d = after_doneD [OF s i]
  note t = d(2) [unfolded resting_def]
  have round: "ts_round s = 1" using s by (simp add: after_done_def)
  consider "tt_place ?t = Round_Leave" | "tt_place ?t = Leader_Wait" | "tt_place ?t = Follower_Wait"
    using assms(3,4) t
    by (cases "tt_place ?t") (auto simp: end_round_step_def waits_idle_def in_round_def round_over_def)
  then show ?thesis
  proof cases
    case 1
    let ?p = "if i = 0 then Leader_Wait else Follower_Wait"
    have "i \<in> threads_where (\<lambda>t. \<not> round_over (tt_place t)) (ts_threads s)" using 1 i by (simp add: in_threads_where round_over_def)
    then have "0 < ts_in_agg s" using s by (auto simp: after_done_def card_gt_0_iff)
    with 1 assms(4) have r: "r = Inr (goto i ?p (s\<lparr>ts_in_agg := ts_in_agg s - 1\<rparr>))"
      by (simp add: end_round_step_def)
    have "resting i (?t\<lparr>tt_place := ?p\<rparr>)"
      by (rule resting_goto [OF d(2)]) (use 1 t in \<open>auto simp: in_round_def waits_idle_def round_over_def split: if_splits\<close>)
    then have "after_done (goto i ?p (s\<lparr>ts_in_agg := ts_in_agg s - 1\<rparr>))"
      by (rule after_done_update [OF s i]) (use 1 in \<open>auto simp: goto_def set_thread_def is_active_def round_over_def split: if_splits\<close>)
    with r show ?thesis by (simp add: round_step_ok_def thread_access)
  next
    case 2
    with assms(4) have r: "r = Inr (goto i Leader_Decide s)" and z: "ts_in_agg s = 0"
      by (simp_all add: end_round_step_def Let_def split: if_splits)
    have "resting i (?t\<lparr>tt_place := Leader_Decide\<rparr>)"
      by (rule resting_goto [OF d(2)]) (use 2 t in \<open>auto simp: in_round_def waits_idle_def round_over_def\<close>)
    with r z 2 show ?thesis by (auto intro!: goto_rests [OF s i] simp: round_over_def)
  next
    case 3
    with assms(4) t round show ?thesis by (simp add: end_round_step_def)
  qed
qed

lemma thread_step_rests:
  assumes s: "after_done s" and i: "i < length (ts_threads s)" and "tt_place (ts_threads s ! i) \<noteq> Leader_Decide"
    and "thread_step i ch s = Some r"
  shows "round_step_ok i ch s r"
proof -
  let ?p = "tt_place (ts_threads s ! i)"
  have "waits_idle ?p \<or> in_round ?p" using after_doneD(2) [OF s i] by (simp add: resting_def)
  then consider "waits_idle ?p" "busy_step i ?p s = Some r" | "start_round_step i ch ?p s = Some r" | "end_round_step i ?p s = Some r"
    using assms(4) by (auto simp: thread_step_def waits_idle_def in_round_def round_over_def)
  then show ?thesis
    using busy_step_rests [OF s i] start_round_step_rests [OF s i] end_round_step_rests [OF s i assms(3)] by cases blast+
qed

section \<open>The first iteration\<close>

lemma no_work_anywhere:
  assumes "queued_right t" and "no_current t" and "\<not> thread_has_work t"
  shows "\<not> has_work n (tt_own t)"
proof -
  obtain xs where w: "waiting (tt_own t) xs" using assms(1) by (auto simp: queued_right_def)
  with dq_empty_iff [OF w] assms(3) have "xs = []" by (simp add: thread_has_work_def)
  with waitingD(2,5) [OF w, of n] assms(2) show ?thesis by (auto simp: no_current_def)
qed

text \<open>
  From the start of the threads to the decision of the leader of the round, in runs where
  no thread looks for the work of another that is just taking a tuple from its buffer to its
  queue; \<open>retrieval_ends_early\<close> below is a run where one does.
\<close>

inductive first_iteration :: "serial list \<Rightarrow> threads \<Rightarrow> bool" for ws where
  started: "first_iteration ws (threads_start ws)"
| stepped: "first_iteration ws s \<Longrightarrow> i < length (ts_threads s) \<Longrightarrow> tt_place (ts_threads s ! i) \<noteq> Leader_Decide \<Longrightarrow>
    thread_step i ch s = Some (Inr s') \<Longrightarrow> \<not> races s' \<Longrightarrow> first_iteration ws s'"

lemma start_before_round:
  assumes "\<And>w. w \<in> set ws \<Longrightarrow> \<exists>xs. waiting w xs"
  shows "before_round (threads_start ws)"
proof -
  let ?s = "threads_start ws"
  have N: "length (ts_threads ?s) = length ws" by (simp add: threads_start_def)
  have t: "tt_place (ts_threads ?s ! i) = Next" "is_active (ts_threads ?s ! i)" if "i < length ws" for i
    using that by (simp_all add: threads_start_def is_active_def)
  have "threads_ok ?s" using assms by (auto simp: threads_ok_def thread_ok_def threads_start_def queued_right_def)
  moreover have "phases_ok (length ws) (protocol_of ?s)" using t by (simp add: phases_ok_def phase_ok_def N)
  moreover have "locks_ok (length ws) (protocol_of ?s)" using t by (simp add: locks_ok_def holds_lock_def N)
  moreover have "watched (length ws) (protocol_of ?s)" using t by (simp add: watched_def N)
  moreover have "looks_ok ?s" using t by (simp add: looks_ok_def N)
  moreover have "counts_in (length ws) (protocol_of ?s) = {}" using t by (auto simp: counts_in_def N)
  moreover have "counted_in (length ws) (protocol_of ?s) = {..<length ws}"
    using t by (auto simp: counted_in_def being_counted_def N)
  ultimately show ?thesis by (simp add: before_round_def protocol_inv_def N) (simp add: threads_start_def acyclic_def)
qed

text \<open>The last thread leaves the counter.\<close>

lemma last_leaves:
  assumes b: "before_round s" and i: "i < length (ts_threads s)" and p: "tt_place (ts_threads s ! i) = Counting_Out"
    and one: "ts_active s = 1" and "thread_step i ch s = Some (Inr s')"
  shows "after_done s'"
proof -
  let ?N = "length (ts_threads s)"
  note d = before_roundD [OF b]
  have s': "s' = goto i Busy_Done (unlock_thread i (s\<lparr>ts_active := 0, ts_done := True\<rparr>))"
    using assms(3-5) by (simp add: thread_step_def busy_step_def make_inactive_step_def barrier_is_inactive_def)
  have quiet: "\<not> is_active (ts_threads s ! j)" "\<not> under_way (ts_threads s ! j)"
    "j \<noteq> i \<Longrightarrow> phase_of (tt_place (ts_threads s ! j)) = Idles" if "j < ?N" for j
    using protocol_detects [of ?N "protocol_of s" i j] b i p one that by (simp_all add: before_round_def)
  have none: "\<not> thread_has_work (ts_threads s ! j)" "tt_taken (ts_threads s ! j) = None" if "j < ?N" for j
    using quiet(2) [OF that] unfolding under_way_def by blast+
  have idle: "waits_idle (tt_place (ts_threads s ! j)) \<and> no_current (ts_threads s ! j)" if j: "j < ?N" "j \<noteq> i" for j
    using d(3) [OF j(1)] none [OF j(1)] quiet(3) [OF j(1)] j(2)
    by (cases "(tt_place (ts_threads s ! j), ts_threads s ! j)" rule: place_ok.cases) (auto simp: waits_idle_def)
  have rest: "resting j (ts_threads s' ! j)" "waits_idle (tt_place (ts_threads s' ! j))" "\<not> is_active (ts_threads s' ! j)" if j: "j < ?N" for j
  proof -
    have w: "waits_idle (tt_place (ts_threads s' ! j))" "no_current (ts_threads s' ! j)" "tt_own (ts_threads s' ! j) = tt_own (ts_threads s ! j)"
      "tt_buffer (ts_threads s' ! j) = tt_buffer (ts_threads s ! j)" "tt_taken (ts_threads s' ! j) = tt_taken (ts_threads s ! j)" "tt_state (ts_threads s' ! j) = tt_state (ts_threads s ! j)"
      "tt_round (ts_threads s' ! j) = tt_round (ts_threads s ! j)"
      using idle [OF j] j i d(3) [OF i] p
      by (cases "j = i"; simp add: s' goto_def unlock_thread_def set_thread_def waits_idle_def no_current_def)+
    then show "waits_idle (tt_place (ts_threads s' ! j))" by blast
    show "\<not> is_active (ts_threads s' ! j)" using quiet(1) [OF j] w(6) by (simp add: is_active_def)
    show "resting j (ts_threads s' ! j)"
      using quiet(1) [OF j] none [OF j] w threads_okD [OF d(2) j] i
      by (auto simp: resting_def thread_ok_def queued_right_def is_active_def thread_has_work_def waits_idle_def round_over_def)
  qed
  have N: "length (ts_threads s') = ?N" by (simp add: s' thread_access)
  have "threads_where (\<lambda>t. \<not> round_over (tt_place t)) (ts_threads s') = {..<?N}"
    using rest(2) waits_not_over by (auto simp: threads_where_def N)
  moreover have "threads_where (\<lambda>t. is_active t \<and> tt_place t \<noteq> Round_Count) (ts_threads s') = {}"
    using rest(3) by (auto simp: threads_where_def N)
  moreover have "tt_place t \<noteq> Leader_Decide" if "t \<in> set (ts_threads s')" for t
    using that rest(2) waits_not_over by (auto simp: in_set_conv_nth N)
  moreover have "ts_done s' \<and> ts_round s' = 1 \<and> ts_in_agg s' = ?N \<and> ts_active s' = 0"
    using b by (simp add: s' thread_access before_round_def)
  ultimately show ?thesis using rest(1) N by (auto simp: after_done_def)
qed

lemma first_iteration_inv:
  assumes "first_iteration ws s" and "\<And>w. w \<in> set ws \<Longrightarrow> \<exists>xs. waiting w xs"
  shows "(before_round s \<or> after_done s) \<and> length (ts_threads s) = length ws \<and> \<not> races s"
  using assms(1)
proof induction
  case started
  from start_before_round [OF assms(2)] show ?case by (simp add: threads_start_def races_def)
next
  case (stepped s i ch s')
  then have "before_round s \<or> after_done s" by blast
  then show ?case
  proof
    assume b: "before_round s"
    with thread_step_well [OF b stepped.hyps(2) stepped.hyps(4)] stepped.IH have g: "goes_well i s s'" by (simp add: sound_step_def)
    show ?thesis
    proof (cases "ts_done s'")
      case True
      with g last_leaves [OF b stepped.hyps(2) _ _ stepped.hyps(4)] stepped.IH stepped.hyps(5) show ?thesis by (simp add: goes_well_def)
    next
      case False
      with g b protocol_inv_step stepped.IH stepped.hyps(5) show ?thesis by (auto simp: goes_well_def before_round_def)
    qed
  next
    assume "after_done s"
    with thread_step_rests [OF this stepped.hyps(2-4)] stepped.IH stepped.hyps(5) show ?thesis by (simp add: round_step_ok_def)
  qed
qed

text \<open>
  C8: In the first iteration, in every interleaving in which no thread looks for the work of
  another while that one moves a tuple from its buffer to its queue: until the leader of the
  round decides, no assertion of the threads or of the barrier fails (a step only fails where a
  tuple is queued or gathered, or sent to a thread that does not exist); and when \<open>done\<close> is set
  every thread is on its way out of \<open>busy_wait\<close>, inactive and without a tuple at any of its
  nodes, or already in the round; nobody runs a node and no tuple is left in a buffer or taken
  from one, so no work is lost at the end of the iteration. Both limits are needed:
  \<open>retrieval_ends_early\<close> and \<open>later_iteration_ends_early\<close> are runs beyond them in which \<open>done\<close> is
  set while a thread runs a node.
\<close>

theorem threads_end_together:
  assumes "first_iteration ws s" and "\<forall>w \<in> set ws. \<exists>xs. waiting w xs" and "i < length ws"
  shows "(\<forall>ch e. thread_step i ch s = Some (Inl e) \<longrightarrow> tt_place (ts_threads s ! i) = Leader_Decide \<or> queueing_fails i ch s) \<and>
    (ts_done s \<longrightarrow>
      tt_buffer (ts_threads s ! i) = [] \<and> tt_taken (ts_threads s ! i) = None \<and> ss_current (tt_own (ts_threads s ! i)) = None \<and>
      (waits_idle (tt_place (ts_threads s ! i)) \<and> \<not> is_active (ts_threads s ! i) \<and> (\<forall>n. \<not> has_work n (tt_own (ts_threads s ! i))) \<or>
       in_round (tt_place (ts_threads s ! i))))"
proof -
  let ?t = "ts_threads s ! i"
  have inv: "before_round s \<or> after_done s" and i: "i < length (ts_threads s)" and race: "\<not> races s"
    using first_iteration_inv [OF assms(1)] assms(2,3) by auto
  have "queueing_fails i ch s" if "thread_step i ch s = Some (Inl e)" "tt_place ?t \<noteq> Leader_Decide" for ch e
    using inv thread_step_well [OF _ i that(1) race] thread_step_rests [OF _ i that(2,1)] by (auto simp: sound_step_def round_step_ok_def)
  moreover have "resting i ?t" if "ts_done s" using inv that i by (auto simp: before_round_def after_done_def)
  then have "tt_buffer ?t = [] \<and> tt_taken ?t = None \<and> ss_current (tt_own ?t) = None \<and>
      (waits_idle (tt_place ?t) \<and> \<not> is_active ?t \<and> (\<forall>n. \<not> has_work n (tt_own ?t)) \<or> in_round (tt_place ?t))" if "ts_done s"
    using that no_work_anywhere [of ?t] by (auto simp: resting_def no_current_def)
  ultimately show ?thesis by blast
qed

text \<open>
  C9: In the round after the first iteration, in the runs of C8, the leader decides rightly: when
  it reads the counter, the counter is the number of the threads that aggregates gave work, every
  other thread waits for the decision, and the leader goes on with the next iteration if there is
  such a thread, while otherwise it ends the program and no node of any thread has a tuple.
\<close>

theorem leader_decides_on_work:
  assumes "first_iteration ws s" and "\<forall>w \<in> set ws. \<exists>xs. waiting w xs" and "0 < length ws"
    and "tt_place (ts_threads s ! 0) = Leader_Decide"
  shows "ts_active s = card {i. i < length ws \<and> thread_has_work (ts_threads s ! i)} \<and>
    (\<forall>i. 0 < i \<and> i < length ws \<longrightarrow> tt_place (ts_threads s ! i) = Follower_Wait \<and> tt_buffer (ts_threads s ! i) = []) \<and>
    (if \<exists>i<length ws. thread_has_work (ts_threads s ! i)
     then thread_step 0 ch s = Some (Inr (goto 0 Leader_Total (s\<lparr>ts_done := False\<rparr>)))
     else thread_step 0 ch s = Some (Inr (goto 0 Finished (s\<lparr>ts_round := 0\<rparr>))) \<and>
       (\<forall>i<length ws. \<forall>n. \<not> has_work n (tt_own (ts_threads s ! i))))"
proof -
  have N: "length (ts_threads s) = length ws" and inv: "before_round s \<or> after_done s"
    using first_iteration_inv [OF assms(1)] assms(2) by auto
  have "\<not> before_round s" using before_roundD(3) [of s 0] assms(3,4) N by auto
  with inv have s: "after_done s" by blast
  have rest: "resting i (ts_threads s ! i)" if "i < length ws" for i using after_doneD(2) [OF s] that N by simp
  have "ts_threads s ! 0 \<in> set (ts_threads s)" using assms(3) N by simp
  with s assms(4) have "card (threads_where (\<lambda>t. \<not> round_over (tt_place t)) (ts_threads s)) = 0" by (auto simp: after_done_def)
  then have over: "round_over (tt_place (ts_threads s ! i))" if "i < length ws" for i
    using that N by (auto simp: threads_where_def)
  have same: "is_active (ts_threads s ! i) \<longleftrightarrow> thread_has_work (ts_threads s ! i)" "tt_buffer (ts_threads s ! i) = []"
    "0 < i \<Longrightarrow> tt_place (ts_threads s ! i) = Follower_Wait" "tt_place (ts_threads s ! i) \<noteq> Round_Count"
    "\<not> thread_has_work (ts_threads s ! i) \<Longrightarrow> \<not> has_work n (tt_own (ts_threads s ! i))" if "i < length ws" for i n
    using rest [OF that] over [OF that] no_work_anywhere [of "ts_threads s ! i" n] by (auto simp: resting_def round_over_def)
  have "threads_where (\<lambda>t. is_active t \<and> tt_place t \<noteq> Round_Count) (ts_threads s) = {i. i < length ws \<and> thread_has_work (ts_threads s ! i)}"
    using same(1,4) N by (auto simp: threads_where_def)
  with s have active: "ts_active s = card {i. i < length ws \<and> thread_has_work (ts_threads s ! i)}" by (simp add: after_done_def)
  then have "0 < ts_active s \<longleftrightarrow> (\<exists>i<length ws. thread_has_work (ts_threads s ! i))" by (auto simp: card_gt_0_iff)
  then have "thread_step 0 ch s = Some (Inr (if \<exists>i<length ws. thread_has_work (ts_threads s ! i)
      then goto 0 Leader_Total (s\<lparr>ts_done := False\<rparr>) else goto 0 Finished (s\<lparr>ts_round := 0\<rparr>)))"
    using assms(4) by (simp add: thread_step_def end_round_step_def)
  with active same show ?thesis by auto
qed

section \<open>Runs\<close>

text \<open>A run by a list of turns, as long as the steps are of a given kind.\<close>

fun thread_run :: "(nat \<Rightarrow> threads \<Rightarrow> threads \<Rightarrow> bool) \<Rightarrow> (nat \<times> choice) list \<Rightarrow> threads \<Rightarrow> threads option" where
  "thread_run P [] s = Some s"
| "thread_run P ((i, ch) # xs) s =
     (if i < length (ts_threads s)
      then (case thread_step i ch s of Some (Inr s') \<Rightarrow> if P i s s' then thread_run P xs s' else None | _ \<Rightarrow> None)
      else None)"

definition undecided :: "nat \<Rightarrow> threads \<Rightarrow> threads \<Rightarrow> bool" where
  "undecided i s s' \<longleftrightarrow> tt_place (ts_threads s ! i) \<noteq> Leader_Decide"

definition orderly :: "nat \<Rightarrow> threads \<Rightarrow> threads \<Rightarrow> bool" where
  "orderly i s s' \<longleftrightarrow> undecided i s s' \<and> \<not> races s'"

lemma thread_run_first: "thread_run orderly xs s = Some s' \<Longrightarrow> first_iteration ws s \<Longrightarrow> first_iteration ws s'"
  by (induction orderly xs s rule: thread_run.induct)
    (auto simp: orderly_def undecided_def split: if_splits option.splits sum.splits intro: first_iteration.stepped)

text \<open>
  Two threads: the second has nothing and goes idle, the first runs node 4, which sends a
  tuple for a node of the other, then node 7; both find nothing more to do. In the round
  the aggregates of node 4 generate a tuple.
\<close>

definition turns :: "nat \<Rightarrow> nat \<Rightarrow> (nat \<times> choice) list" where
  "turns k i = replicate k (i, Leave)"

definition two_threads :: "serial list" where
  "two_threads = [two_waiting, start_sched]"

definition one_iteration :: "(nat \<times> choice) list" where
  "one_iteration =
     turns 11 1 @ turns 6 0 @ [(0, Gather), (0, Other 1 9 5 0)] @ turns 7 0 @ turns 6 0 @ [(0, Gather)] @ turns 12 0 @
     turns 11 1 @ [(1, Gather)] @ turns 12 1"

definition one_round :: "(nat \<times> choice) list" where
  "one_round = turns 4 1 @ turns 1 0 @ [(0, Own 4 9 0)] @ turns 5 0"

definition ran_to :: "(threads \<Rightarrow> bool) \<Rightarrow> threads option \<Rightarrow> bool" where
  "ran_to Q r \<longleftrightarrow> (case r of None \<Rightarrow> False | Some s \<Rightarrow> Q s)"

lemma ran_toD: "ran_to Q r \<Longrightarrow> \<exists>s. r = Some s \<and> Q s"
  by (cases r) (simp_all add: ran_to_def)

lemma two_threads_wait: "\<forall>w \<in> set two_threads. \<exists>xs. waiting w xs"
proof -
  have "waiting start_sched []" by (simp add: waiting_def start_sched_def new_dqueue_rep has_work_def level_queue_def bq_empty_def)
  with two_waiting_waits show ?thesis by (auto simp: two_threads_def)
qed

lemma iteration_runs:
  "ran_to (\<lambda>s. ts_done s \<and> tt_place (ts_threads s ! 1) = Busy_Done) (thread_run orderly one_iteration (threads_start two_threads))"
  by code_simp

lemma round_runs:
  "ran_to (\<lambda>s. tt_place (ts_threads s ! 0) = Leader_Decide \<and> thread_has_work (ts_threads s ! 0))
     (thread_run orderly (one_iteration @ one_round) (threads_start two_threads))"
  by code_simp

theorem threads_end_together_witness:
  "\<exists>s. first_iteration two_threads s \<and> ts_done s \<and> tt_buffer (ts_threads s ! 1) = [] \<and> \<not> is_active (ts_threads s ! 1) \<and>
     (\<forall>n. \<not> has_work n (tt_own (ts_threads s ! 1)))"
proof -
  obtain s where "thread_run orderly one_iteration (threads_start two_threads) = Some s" and fin: "ts_done s"
    and p: "tt_place (ts_threads s ! 1) = Busy_Done" using ran_toD [OF iteration_runs] by blast
  from thread_run_first [OF this(1) first_iteration.started] have f: "first_iteration two_threads s" .
  have "\<not> in_round Busy_Done" by (simp add: in_round_def round_over_def)
  with threads_end_together [OF f two_threads_wait, of 1] fin p f show ?thesis by (auto simp: two_threads_def)
qed

theorem leader_decides_on_work_witness:
  "\<exists>s. first_iteration two_threads s \<and> thread_step 0 Leave s = Some (Inr (goto 0 Leader_Total (s\<lparr>ts_done := False\<rparr>)))"
proof -
  obtain s where "thread_run orderly (one_iteration @ one_round) (threads_start two_threads) = Some s"
    and p: "tt_place (ts_threads s ! 0) = Leader_Decide" "thread_has_work (ts_threads s ! 0)" using ran_toD [OF round_runs] by blast
  from thread_run_first [OF this(1) first_iteration.started] have f: "first_iteration two_threads s" .
  have "\<exists>i<length two_threads. thread_has_work (ts_threads s ! i)" using p(2) by (auto simp: two_threads_def)
  with leader_decides_on_work [OF f two_threads_wait _ p(1), of Leave] f show ?thesis by (auto simp: two_threads_def)
qed

text \<open>
  In a later iteration it goes wrong. A thread that starts it inactive, because aggregates
  gave it nothing, and then finds a tuple in its buffer goes on to \<open>queue_nodes.pop\<close> without
  becoming active; once it has popped the node \<open>has_work\<close> is false, so the sender of the tuple
  does not make it active either. The others reach zero and set \<open>done\<close> while it runs the node.
\<close>

definition too_early :: "(nat \<times> choice) list" where
  "too_early =
     turns 3 0 @ turns 2 1 @ turns 6 0 @ [(0, Gather), (0, Other 1 9 5 0)] @ turns 6 1 @ turns 4 0 @ turns 12 0 @ turns 5 1"

lemma later_iteration_ends_early:
  "ran_to (\<lambda>s. ts_done s \<and> tt_place (ts_threads s ! 0) = Busy_Done \<and> tt_place (ts_threads s ! 1) = Running \<and>
       has_work 9 (tt_own (ts_threads s ! 1)))
     (thread_run (\<lambda>_ _ _. True) (one_iteration @ one_round @ too_early) (threads_start two_threads))"
  by code_simp

text \<open>
  And in the first one, when a thread looks for the work of another at the wrong moment. The
  second thread has taken the tuple from its buffer and not yet queued its node, so the sender
  finds the queue and the buffer empty and leaves it inactive. The first thread then leaves the
  counter as the last one and goes to the round, while the second runs a node.
\<close>

definition missed :: "(nat \<times> choice) list" where
  "missed =
     turns 13 1 @ turns 6 0 @ [(0, Gather), (0, Other 1 9 5 0)] @ turns 1 1 @ turns 4 0 @ turns 7 0 @ [(0, Gather)] @ turns 11 0 @
     turns 5 1 @ turns 2 0 @ turns 7 1"

lemma retrieval_ends_early:
  "ran_to (\<lambda>s. ts_done s \<and> tt_place (ts_threads s ! 0) = Round \<and> tt_place (ts_threads s ! 1) = Running \<and>
       has_work 9 (tt_own (ts_threads s ! 1)))
     (thread_run undecided missed (threads_start two_threads))"
  by code_simp

end
